(* ===== verification/Prelude.thy ===== *)
theory Prelude
  imports Main "HOL-Library.Word" "HOL-Library.List_Lexorder" "HOL-Library.Product_Lexorder"
begin

unbundle bit_operations_syntax

text \<open>
  Shared vocabulary of the development: Rust's fixed-width integers as words, \<open>usize\<close> as a
  natural number with its 64-bit bound written out, \<open>Result\<close> as a sum whose left side is the
  error, the operations of the standard library that the sources call on integers and byte
  slices, and the generic lemmas on lists, words and binary search that the components share.
\<close>

section \<open>Types\<close>

type_synonym u8 = "8 word"
type_synonym u16 = "16 word"
type_synonym u32 = "32 word"
type_synonym u64 = "64 word"

text \<open>Byte slices (\<open>&[u8]\<close>) are lists; a \<open>&str\<close> is its UTF-8 bytes, ordered lexicographically
  as Rust orders strings.\<close>

type_synonym bytes = "u8 list"
type_synonym str = "u8 list"

named_theorems codec_simps \<open>evaluation of the reader and writer primitives\<close>
named_theorems res_simps \<open>results: propagation of errors\<close>

section \<open>Results\<close>

text \<open>The \<open>?\<close> operator: stop at the first error.\<close>

fun and_then :: "'e + 'a \<Rightarrow> ('a \<Rightarrow> 'e + 'b) \<Rightarrow> 'e + 'b" where
  "and_then (Inl e) f = Inl e"
| "and_then (Inr a) f = f a"

text \<open>\<open>Result::map_err\<close>, also the \<open>From\<close> conversion that \<open>?\<close> applies to an error.\<close>

fun map_err :: "('e \<Rightarrow> 'f) \<Rightarrow> 'e + 'a \<Rightarrow> 'f + 'a" where
  "map_err g (Inl e) = Inl (g e)"
| "map_err g (Inr a) = Inr a"

text \<open>\<open>Option::ok_or\<close>.\<close>

fun ok_or :: "'e \<Rightarrow> 'a option \<Rightarrow> 'e + 'a" where
  "ok_or e None = Inl e"
| "ok_or e (Some a) = Inr a"

text \<open>A \<open>for\<close> loop whose body may return early with an error, threading the mutable locals.\<close>

fun try_fold :: "('s \<Rightarrow> 'x \<Rightarrow> 'e + 's) \<Rightarrow> 's \<Rightarrow> 'x list \<Rightarrow> 'e + 's" where
  "try_fold f s [] = Inr s"
| "try_fold f s (x # xs) = and_then (f s x) (\<lambda>s'. try_fold f s' xs)"

lemma and_then_cong [fundef_cong]:
  assumes "m = m'" and "\<And>a. m' = Inr a \<Longrightarrow> f a = g a"
  shows "and_then m f = and_then m' g"
  using assms by (cases m') auto

lemma and_then_Inr_iff [res_simps]:
  "and_then m f = Inr y \<longleftrightarrow> (\<exists>x. m = Inr x \<and> f x = Inr y)"
  by (cases m) auto

lemma and_then_Inl_iff:
  "and_then m f = Inl e \<longleftrightarrow> m = Inl e \<or> (\<exists>x. m = Inr x \<and> f x = Inl e)"
  by (cases m) auto

lemma map_err_Inr_iff [res_simps]: "map_err g m = Inr y \<longleftrightarrow> m = Inr y"
  by (cases m) auto

lemma ok_or_Inr_iff [res_simps]: "ok_or e m = Inr y \<longleftrightarrow> m = Some y"
  by (cases m) auto

lemma ok_or_Inl_iff: "ok_or e m = Inl x \<longleftrightarrow> m = None \<and> x = e"
  by (cases m) auto

lemma map_err_Inl_iff: "map_err g m = Inl x \<longleftrightarrow> (\<exists>y. m = Inl y \<and> x = g y)"
  by (cases m) auto

lemma and_then_assoc: "and_then (and_then m f) g = and_then m (\<lambda>x. and_then (f x) g)"
  by (cases m) auto

lemma and_then_eqI:
  assumes "m = Inr x" shows "and_then m f = f x"
  using assms by simp

lemma try_fold_append:
  "try_fold f s (xs @ ys) = and_then (try_fold f s xs) (\<lambda>s'. try_fold f s' ys)"
  by (induction xs arbitrary: s) (auto simp: and_then_assoc)

lemma try_fold_cong [fundef_cong]:
  assumes "xs = ys" and "s = t" and "\<And>s x. x \<in> set ys \<Longrightarrow> f s x = g s x"
  shows "try_fold f s xs = try_fold g t ys"
proof -
  have "try_fold f t ys = try_fold g t ys"
    using assms(3)
  proof (induction ys arbitrary: t)
    case (Cons y ys)
    then show ?case by (cases "g t y") auto
  qed simp
  then show ?thesis using assms(1,2) by simp
qed

text \<open>An invariant of the loop body is an invariant of the loop.\<close>

lemma try_fold_invariant:
  assumes "try_fold f s xs = Inr t" and "P s"
    and "\<And>s x s'. x \<in> set xs \<Longrightarrow> P s \<Longrightarrow> f s x = Inr s' \<Longrightarrow> P s'"
  shows "P t"
  using assms
proof (induction xs arbitrary: s)
  case Nil
  then show ?case by simp
next
  case (Cons x xs)
  from Cons.prems(1) obtain u where u: "f s x = Inr u" "try_fold f u xs = Inr t"
    by (auto simp: res_simps)
  have "P u" using Cons.prems(2,3) u(1) by (meson list.set_intros(1))
  with u(2) show ?case
    using Cons.IH Cons.prems(3) by (meson list.set_intros(2))
qed

lemma try_fold_map: "try_fold f s (map g xs) = try_fold (\<lambda>s x. f s (g x)) s xs"
proof (induction xs arbitrary: s)
  case (Cons x xs)
  then show ?case by (cases "f s (g x)") simp_all
qed simp

lemma try_fold_reaches:
  assumes "try_fold f s xs = Inr t" "x \<in> set xs"
  shows "\<exists>s s'. f s x = Inr s'"
  using assms by (induction xs arbitrary: s) (auto simp: res_simps)

lemma try_fold_trace:
  assumes "try_fold f s xs = Inr t"
  shows "\<exists>st. st 0 = s \<and> st (length xs) = t \<and> (\<forall>i < length xs. f (st i) (xs ! i) = Inr (st (Suc i)))"
  using assms
proof (induction xs arbitrary: s)
  case (Cons x xs)
  then obtain u where u: "f s x = Inr u" "try_fold f u xs = Inr t" by (auto simp: res_simps)
  from Cons.IH[OF u(2)] obtain st where
    "st 0 = u" "st (length xs) = t" "\<forall>i < length xs. f (st i) (xs ! i) = Inr (st (Suc i))" by blast
  with u(1) show ?case
    by (intro exI[of _ "\<lambda>i. case i of 0 \<Rightarrow> s | Suc j \<Rightarrow> st j"])
      (auto simp: nth_Cons split: nat.splits)
qed auto

lemma try_fold_upt:
  assumes "\<And>i. i < n \<Longrightarrow> f (st i) i = Inr (st (Suc i))"
  shows "try_fold f (st 0) [0..<n] = Inr (st n)"
  using assms by (induction n) (simp_all add: try_fold_append)

text \<open>The validation loop that rejects a key which does not exceed its predecessor.\<close>

definition ascend_step :: "'e \<Rightarrow> 'k::linorder \<Rightarrow> 'k \<Rightarrow> 'e + 'k" where
  "ascend_step e previous key = (if key \<le> previous then Inl e else Inr key)"

lemma ascend_step_Inr: "ascend_step e p k = Inr q \<longleftrightarrow> p < k \<and> q = k"
  by (auto simp: ascend_step_def)

lemma try_fold_ascend:
  "try_fold (\<lambda>p x. ascend_step e p (f x)) p xs = Inr q \<longleftrightarrow>
     sorted_wrt (<) (p # map f xs) \<and> q = last (p # map f xs)"
proof (induction xs arbitrary: p)
  case (Cons x xs)
  show ?case
    by (auto simp: res_simps ascend_step_Inr Cons.IH intro: less_trans)
qed auto

text \<open>Arrays of fixed-size entries.\<close>

lemma concat_fixed_length:
  assumes "\<And>x. x \<in> set xs \<Longrightarrow> length (f x) = n"
  shows "length (concat (map f xs)) = length xs * n"
  using assms by (induction xs) auto

lemma concat_fixed_nth:
  assumes "\<And>x. x \<in> set xs \<Longrightarrow> length (f x) = n" "i < length xs"
  shows "take n (drop (i * n) (concat (map f xs))) = f (xs ! i)"
  using assms
proof (induction xs arbitrary: i)
  case (Cons x xs)
  then show ?case by (cases i) auto
qed simp

lemma concat_chunks:
  assumes "length bs = m * n"
  shows "concat (map (\<lambda>i. take n (drop (i * n) bs)) [0..<m]) = bs"
  using assms
proof (induction m arbitrary: bs)
  case (Suc m)
  have "concat (map (\<lambda>i. take n (drop (i * n) bs)) [0..<Suc m]) =
      take n bs @ concat (map (\<lambda>i. take n (drop (i * n) (drop n bs))) [0..<m])"
    by (simp add: upt_conv_Cons map_Suc_upt[symmetric] o_def add.commute del: upt_Suc)
  also have "\<dots> = take n bs @ drop n bs"
    using Suc.IH[of "drop n bs"] Suc.prems by simp
  finally show ?case by simp
qed simp

lemma find_append: "find P (xs @ ys) = (case find P xs of None \<Rightarrow> find P ys | Some x \<Rightarrow> Some x)"
  by (induction xs) auto

text \<open>\<open>slice::chunks(n)\<close> and \<open>slice::windows(2)\<close>.\<close>

function chunks :: "nat \<Rightarrow> 'a list \<Rightarrow> 'a list list" where
  "chunks n xs = (if n = 0 \<or> xs = [] then [] else take n xs # chunks n (drop n xs))"
  by pat_completeness auto
termination
  by (relation "measure (\<lambda>(n, xs). length xs)") auto

declare chunks.simps [simp del]

definition windows2 :: "'a list \<Rightarrow> ('a \<times> 'a) list" where
  "windows2 xs = zip xs (tl xs)"

lemma chunks_Nil [simp]: "chunks n [] = []"
  by (subst chunks.simps) simp

lemma chunks_step: "0 < n \<Longrightarrow> xs \<noteq> [] \<Longrightarrow> chunks n xs = take n xs # chunks n (drop n xs)"
  by (subst chunks.simps) simp

lemma concat_chunks_id: "0 < n \<Longrightarrow> concat (chunks n xs) = xs"
  by (induction n xs rule: chunks.induct) (subst chunks.simps, auto)

lemma chunks_nonempty: "c \<in> set (chunks n xs) \<Longrightarrow> c \<noteq> [] \<and> length c \<le> n"
  by (induction n xs rule: chunks.induct) (subst (asm) (2) chunks.simps, auto split: if_splits)

lemma length_chunks_pair:
  "0 < n \<Longrightarrow> length (chunks n xs) = (length xs + n - 1) div n \<and>
    (\<forall>i < length (chunks n xs). length (chunks n xs ! i) = min (length xs - i * n) n)"
proof (induction n xs rule: chunks.induct)
  case (1 n xs)
  show ?case
  proof (cases "xs = []")
    case False
    then have st: "chunks n xs = take n xs # chunks n (drop n xs)" using "1.prems" by (rule chunks_step[rotated])
    have IH: "length (chunks n (drop n xs)) = (length xs - n + n - 1) div n"
      "\<And>i. i < length (chunks n (drop n xs)) \<Longrightarrow>
        length (chunks n (drop n xs) ! i) = min (length xs - n - i * n) n"
      using "1.IH" "1.prems" False by auto
    have "Suc ((length xs - n + n - 1) div n) = (length xs + n - 1) div n"
    proof (cases "length xs < n")
      case True
      then have "length xs + n - 1 = n + (length xs - 1)" using False by (cases xs) auto
      then have "(length xs + n - 1) div n = Suc ((length xs - 1) div n)"
        using "1.prems" by (metis div_add_self1 Suc_eq_plus1 less_not_refl)
      moreover have "length xs - 1 < n" using True by simp
      ultimately show ?thesis using True "1.prems" by simp
    next
      case ge: False
      then have "length xs + n - 1 = n + (length xs - n + n - 1)" using "1.prems" by simp
      then show ?thesis using "1.prems" by (metis div_add_self1 Suc_eq_plus1 less_not_refl)
    qed
    moreover have "length (chunks n xs ! i) = min (length xs - i * n) n" if "i < length (chunks n xs)" for i
    proof (cases i)
      case (Suc j)
      then show ?thesis using that IH(2)[of j] by (simp add: st diff_diff_left)
    qed (simp add: st)
    ultimately show ?thesis using IH(1) by (simp add: st)
  qed (use "1.prems" in simp)
qed

lemmas length_chunks = conjunct1[OF length_chunks_pair]
lemmas length_chunks_nth = conjunct2[OF length_chunks_pair, rule_format]

section \<open>usize and checked arithmetic\<close>

text \<open>The supported target has 64-bit pointers.\<close>

definition usize_max :: nat where
  "usize_max = 2 ^ 64 - 1"

definition checked_add :: "nat \<Rightarrow> nat \<Rightarrow> nat option" where
  "checked_add a b = (if a + b \<le> usize_max then Some (a + b) else None)"

definition checked_mul :: "nat \<Rightarrow> nat \<Rightarrow> nat option" where
  "checked_mul a b = (if a * b \<le> usize_max then Some (a * b) else None)"

definition checked_sub :: "nat \<Rightarrow> nat \<Rightarrow> nat option" where
  "checked_sub a b = (if b \<le> a then Some (a - b) else None)"

definition saturating_mul :: "nat \<Rightarrow> nat \<Rightarrow> nat" where
  "saturating_mul a b = min (a * b) usize_max"

text \<open>\<open>checked_add\<close> of the fixed-width unsigned types.\<close>

definition checked_add_w :: "'a::len word \<Rightarrow> 'a word \<Rightarrow> 'a word option" where
  "checked_add_w a b = (if unat a + unat b < 2 ^ LENGTH('a) then Some (a + b) else None)"

definition checked_sub_w :: "'a::len word \<Rightarrow> 'a word \<Rightarrow> 'a word option" where
  "checked_sub_w a b = (if b \<le> a then Some (a - b) else None)"

text \<open>\<open>u32::try_from(usize)\<close>.\<close>

definition u32_try_from :: "nat \<Rightarrow> u32 option" where
  "u32_try_from n = (if n < 2 ^ 32 then Some (of_nat n) else None)"

definition div_ceil :: "nat \<Rightarrow> nat \<Rightarrow> nat" where
  "div_ceil a b = (a + b - 1) div b"

lemma unat_lt2p: "unat (x :: 'a::len word) < 2 ^ LENGTH('a)"
  by (rule unsigned_less)

lemma unat_ucast_up:
  fixes w :: "'a::len word"
  assumes "LENGTH('a) \<le> LENGTH('b::len)" shows "unat (ucast w :: 'b word) = unat w"
proof -
  have "unat w < 2 ^ LENGTH('b)"
    using unat_lt2p[of w] assms by (meson less_le_trans one_le_numeral power_increasing)
  then show ?thesis by (simp add: unsigned_ucast_eq take_bit_nat_eq_self)
qed

lemma unat_u8_lt: "unat (x :: u8) < 256"
  using unat_lt2p[of x] by simp

lemma unat_u16_lt: "unat (x :: u16) < 65536"
  using unat_lt2p[of x] by simp

lemma unat_u32_lt: "unat (x :: u32) < 4294967296"
  using unat_lt2p[of x] by simp

lemma checked_add_w_Some:
  "checked_add_w a b = Some c \<Longrightarrow> unat c = unat a + unat b"
  by (auto simp: checked_add_w_def unat_word_ariths split: if_splits)

lemma checked_sub_w_Some:
  "checked_sub_w a b = Some c \<Longrightarrow> b \<le> a \<and> unat c = unat a - unat b"
  by (auto simp: checked_sub_w_def unat_sub split: if_splits)

lemma u32_try_from_Some: "u32_try_from n = Some w \<longleftrightarrow> n < 2 ^ 32 \<and> w = of_nat n"
  by (auto simp: u32_try_from_def)

lemma unat_u32_of_nat: "n < 2 ^ 32 \<Longrightarrow> unat (of_nat n :: u32) = n"
  by (simp add: unat_of_nat take_bit_nat_eq_self)

lemma unat_u8_of_nat: "n < 2 ^ 8 \<Longrightarrow> unat (of_nat n :: u8) = n"
  by (simp add: unat_of_nat take_bit_nat_eq_self)

lemma unat_u16_of_nat: "n < 2 ^ 16 \<Longrightarrow> unat (of_nat n :: u16) = n"
  by (simp add: unat_of_nat take_bit_nat_eq_self)

text \<open>Rust slices never exceed \<open>isize::MAX\<close> bytes.\<close>

definition slice_ok :: "'a list \<Rightarrow> bool" where
  "slice_ok xs \<longleftrightarrow> length xs < 2 ^ 63"

section \<open>Words and bits\<close>

text \<open>\<open>to_le_bytes\<close> and \<open>from_le_bytes\<close>.\<close>

definition le_bytes :: "nat \<Rightarrow> 'a::len word \<Rightarrow> bytes" where
  "le_bytes n w = map (\<lambda>i. ucast (drop_bit (8 * i) w)) [0..<n]"

fun from_le :: "bytes \<Rightarrow> 'a::len word" where
  "from_le [] = 0"
| "from_le (b # bs) = ucast b OR push_bit 8 (from_le bs)"

text \<open>The positions of the set bits, ascending; \<open>count_ones\<close>, \<open>trailing_zeros\<close>, \<open>leading_zeros\<close>.\<close>

definition word_bits :: "'a::len word \<Rightarrow> nat list" where
  "word_bits w = filter (bit w) [0..<LENGTH('a)]"

definition count_ones :: "'a::len word \<Rightarrow> nat" where
  "count_ones w = length (word_bits w)"

definition trailing_zeros :: "'a::len word \<Rightarrow> nat" where
  "trailing_zeros w = length (takeWhile (\<lambda>i. \<not> bit w i) [0..<LENGTH('a)])"

definition leading_zeros :: "'a::len word \<Rightarrow> nat" where
  "leading_zeros w = length (takeWhile (\<lambda>i. \<not> bit w i) (rev [0..<LENGTH('a)]))"

lemma length_le_bytes [simp]: "length (le_bytes n w) = n"
  by (simp add: le_bytes_def)

lemma bit_u8_bound: "bit (b :: u8) k \<Longrightarrow> k < 8"
  using bit_imp_le_length by fastforce

lemma bit_from_le:
  "bit (from_le bs :: 'a::len word) k \<longleftrightarrow>
     k < LENGTH('a) \<and> k div 8 < length bs \<and> bit (bs ! (k div 8)) (k mod 8)"
proof (induction bs arbitrary: k)
  case Nil
  then show ?case by simp
next
  case (Cons b bs)
  show ?case
  proof (cases "k < 8")
    case True
    then show ?thesis
      by (auto simp: bit_or_iff bit_push_bit_iff bit_ucast_iff)
  next
    case False
    then have "k div 8 = Suc ((k - 8) div 8)" and "k mod 8 = (k - 8) mod 8"
      by (simp_all add: le_div_geq le_mod_geq)
    moreover have "\<not> bit b k" using False bit_u8_bound by blast
    ultimately show ?thesis using False
      by (auto simp: bit_or_iff bit_push_bit_iff bit_ucast_iff Cons.IH)
  qed
qed

lemma bit_le_bytes: "i < n \<Longrightarrow> bit (le_bytes n w ! i) j \<longleftrightarrow> j < 8 \<and> bit w (8 * i + j)"
  by (auto simp: le_bytes_def bit_ucast_iff bit_drop_bit_eq dest: bit_imp_le_length)

lemma from_le_bytes:
  fixes w :: "'a::len word"
  assumes "LENGTH('a) \<le> 8 * n" shows "from_le (le_bytes n w) = w"
proof (rule bit_word_eqI)
  fix k assume k: "k < LENGTH('a)"
  with assms have "k div 8 < n" by linarith
  then show "bit (from_le (le_bytes n w) :: 'a word) k = bit w k"
    using k by (simp add: bit_from_le bit_le_bytes)
qed

lemma le_bytes_from_le:
  assumes "length bs = n" and "8 * n \<le> LENGTH('a::len)"
  shows "le_bytes n (from_le bs :: 'a word) = bs"
proof (rule nth_equalityI)
  fix i assume "i < length (le_bytes n (from_le bs :: 'a word))"
  then have i: "i < n" by simp
  show "le_bytes n (from_le bs :: 'a word) ! i = bs ! i"
  proof (rule bit_word_eqI)
    fix j assume "j < LENGTH(8)"
    then have "j < 8" by simp
    then show "bit (le_bytes n (from_le bs :: 'a word) ! i) j = bit (bs ! i) j"
      using i assms by (auto simp: bit_le_bytes bit_from_le)
  qed
qed (use assms in simp)

lemma set_word_bits: "set (word_bits w) = {k. bit w k}"
  by (auto simp: word_bits_def dest: bit_imp_le_length)

lemma sorted_word_bits [simp]: "sorted (word_bits w)" "distinct (word_bits w)"
  by (simp_all add: word_bits_def sorted_wrt_filter)

lemma word_bits_Nil_iff: "word_bits w = [] \<longleftrightarrow> w = 0"
proof
  assume "word_bits w = []"
  then have "\<not> bit w k" for k using set_word_bits[of w] by auto
  then show "w = 0" by (intro bit_word_eqI) auto
qed (simp add: word_bits_def)

lemma count_ones_0_iff: "count_ones w = 0 \<longleftrightarrow> w = 0"
  by (simp add: count_ones_def word_bits_Nil_iff)

lemma count_ones_le: "count_ones (w :: 'a::len word) \<le> LENGTH('a)"
  unfolding count_ones_def word_bits_def by (rule order_trans[OF length_filter_le]) simp

lemma filter_takeWhile_hd:
  "filter P xs \<noteq> [] \<Longrightarrow> length (takeWhile (\<lambda>x. \<not> P x) xs) < length xs \<and>
     xs ! length (takeWhile (\<lambda>x. \<not> P x) xs) = hd (filter P xs)"
  by (induction xs) auto

lemma trailing_zeros_hd:
  assumes "w \<noteq> 0" shows "trailing_zeros w = hd (word_bits w)"
proof -
  have "filter (bit w) [0..<LENGTH('a)] \<noteq> []"
    using assms by (simp add: word_bits_Nil_iff flip: word_bits_def)
  from filter_takeWhile_hd[OF this] show ?thesis
    by (metis (no_types) add_0 nth_upt trailing_zeros_def word_bits_def length_upt minus_nat.diff_0)
qed

lemma trailing_zeros_bit:
  assumes "w \<noteq> 0"
  shows "bit w (trailing_zeros w)" and "\<And>k. k < trailing_zeros w \<Longrightarrow> \<not> bit w k"
proof -
  have ne: "word_bits w \<noteq> []" using assms by (simp add: word_bits_Nil_iff)
  then show "bit w (trailing_zeros w)"
    using trailing_zeros_hd[OF assms] hd_in_set set_word_bits by fastforce
  fix k assume k: "k < trailing_zeros w"
  show "\<not> bit w k"
  proof
    assume "bit w k"
    then have "k \<in> set (word_bits w)" by (simp add: set_word_bits)
    then have "hd (word_bits w) \<le> k"
      using ne sorted_word_bits(1)[of w] by (cases "word_bits w") auto
    then show False using k trailing_zeros_hd[OF assms] by simp
  qed
qed

text \<open>\<open>w & (w - 1)\<close> clears the lowest set bit.\<close>

lemma bit_clear_lowest:
  fixes w :: "'a::len word"
  assumes "w \<noteq> 0"
  shows "bit (w AND (w - 1)) k \<longleftrightarrow> bit w k \<and> k \<noteq> trailing_zeros w"
proof -
  let ?t = "trailing_zeros w"
  define a where "a = unset_bit ?t w"
  have t: "bit w ?t" "\<And>j. j < ?t \<Longrightarrow> \<not> bit w j" using trailing_zeros_bit[OF assms] by auto
  have tl: "?t < LENGTH('a)" using t(1) by (rule bit_imp_le_length)
  have a: "bit a j \<longleftrightarrow> bit w j \<and> j \<noteq> ?t" for j
    by (auto simp: a_def bit_unset_bit_iff)
  have w: "w = a + 2 ^ ?t"
  proof -
    have "a AND 2 ^ ?t = 0" by (rule bit_word_eqI) (auto simp: bit_and_iff a bit_exp_iff)
    then have "a + 2 ^ ?t = a OR 2 ^ ?t" by (simp add: disjunctive_add_eq_or)
    also have "\<dots> = w" by (rule bit_word_eqI) (use t(1) in \<open>auto simp: bit_or_iff a bit_exp_iff\<close>)
    finally show ?thesis by simp
  qed
  have "a AND mask ?t = 0"
    by (rule bit_word_eqI) (use t(2) in \<open>auto simp: bit_and_iff a bit_mask_iff\<close>)
  then have "w - 1 = a OR mask ?t"
    using w by (simp add: mask_eq_exp_minus_1 disjunctive_add_eq_or[symmetric])
  then show ?thesis
    using t(2) by (auto simp: bit_and_iff bit_or_iff a bit_mask_iff)
qed

lemma sorted_distinct_tl_eq:
  assumes "sorted xs" "distinct xs" "sorted ys" "distinct ys" "xs \<noteq> []"
    and "set ys = set xs - {hd xs}"
  shows "ys = tl xs"
proof -
  obtain z zs where xs: "xs = z # zs" using assms(5) by (cases xs) auto
  show ?thesis
    by (rule sorted_distinct_set_unique) (use assms xs in auto)
qed

lemma word_bits_clear_lowest:
  assumes "w \<noteq> 0" shows "word_bits (w AND (w - 1)) = tl (word_bits w)"
proof (rule sorted_distinct_tl_eq)
  show "word_bits w \<noteq> []" using assms by (simp add: word_bits_Nil_iff)
  show "set (word_bits (w AND (w - 1))) = set (word_bits w) - {hd (word_bits w)}"
    by (auto simp: set_word_bits bit_clear_lowest[OF assms] trailing_zeros_hd[OF assms, symmetric])
qed simp_all

text \<open>The bit length \<open>N - leading_zeros(w)\<close> bounds the value from both sides.\<close>

lemma leading_zeros_bits:
  fixes w :: "'a::len word"
  assumes "w \<noteq> 0"
  shows "leading_zeros w < LENGTH('a)" "bit w (LENGTH('a) - 1 - leading_zeros w)"
    "\<And>k. LENGTH('a) - leading_zeros w \<le> k \<Longrightarrow> \<not> bit w k"
proof -
  let ?xs = "rev [0..<LENGTH('a)]" and ?P = "\<lambda>i. \<not> bit w i"
  obtain j where j: "bit w j" using assms word_bits_Nil_iff set_word_bits
    by (metis (mono_tags) hd_in_set mem_Collect_eq)
  have nth: "i < LENGTH('a) \<Longrightarrow> ?xs ! i = LENGTH('a) - 1 - i" for i
    by (simp add: rev_nth)
  show lt: "leading_zeros w < LENGTH('a)"
  proof (rule ccontr)
    assume "\<not> leading_zeros w < LENGTH('a)"
    then have "takeWhile ?P ?xs = ?xs"
      using length_takeWhile_le[of ?P ?xs]
      by (metis diff_zero leading_zeros_def length_rev length_upt linorder_not_less
          takeWhile_eq_take take_all)
    then have "\<forall>i\<in>set ?xs. \<not> bit w i" by (simp add: takeWhile_eq_all_conv)
    with j show False using bit_imp_le_length by fastforce
  qed
  show "bit w (LENGTH('a) - 1 - leading_zeros w)"
    using nth_length_takeWhile[of ?P ?xs] lt nth[of "leading_zeros w"]
    by (simp add: leading_zeros_def)
  fix k assume k: "LENGTH('a) - leading_zeros w \<le> k"
  show "\<not> bit w k"
  proof
    assume b: "bit w k"
    then have kl: "k < LENGTH('a)" by (rule bit_imp_le_length)
    let ?i = "LENGTH('a) - 1 - k"
    have i: "?i < leading_zeros w" using k kl by linarith
    then have "takeWhile ?P ?xs ! ?i \<in> set (takeWhile ?P ?xs)"
      by (intro nth_mem) (simp add: leading_zeros_def)
    then have "?P (takeWhile ?P ?xs ! ?i)" by (blast dest: set_takeWhileD)
    then have "?P (?xs ! ?i)"
      using i by (simp add: leading_zeros_def takeWhile_nth)
    moreover have "?xs ! ?i = k" using nth[of ?i] kl by simp
    ultimately show False using b by simp
  qed
qed

section \<open>Strings\<close>

text \<open>\<open>std::str::from_utf8\<close>: the well-formed byte sequences of the Unicode standard, without
  overlong forms, surrogates and values above U+10FFFF.\<close>

definition continuation :: "u8 \<Rightarrow> bool" where
  "continuation b \<longleftrightarrow> 0x80 \<le> b \<and> b \<le> 0xBF"

fun utf8_valid :: "bytes \<Rightarrow> bool" where
  "utf8_valid [] = True"
| "utf8_valid (b # bs) =
     (if b < 0x80 then utf8_valid bs
      else if 0xC2 \<le> b \<and> b \<le> 0xDF then
        (case bs of c # r \<Rightarrow> continuation c \<and> utf8_valid r | _ \<Rightarrow> False)
      else if 0xE0 \<le> b \<and> b \<le> 0xEF then
        (case bs of c # d # r \<Rightarrow>
           continuation c \<and> (b = 0xE0 \<longrightarrow> 0xA0 \<le> c) \<and> (b = 0xED \<longrightarrow> c \<le> 0x9F) \<and>
           continuation d \<and> utf8_valid r | _ \<Rightarrow> False)
      else if 0xF0 \<le> b \<and> b \<le> 0xF4 then
        (case bs of c # d # e # r \<Rightarrow>
           continuation c \<and> (b = 0xF0 \<longrightarrow> 0x90 \<le> c) \<and> (b = 0xF4 \<longrightarrow> c \<le> 0x8F) \<and>
           continuation d \<and> continuation e \<and> utf8_valid r | _ \<Rightarrow> False)
      else False)"

definition from_utf8 :: "'e \<Rightarrow> bytes \<Rightarrow> 'e + str" where
  "from_utf8 e bs = (if utf8_valid bs then Inr bs else Inl e)"

text \<open>\<open>str::starts_with\<close>.\<close>

definition starts_with :: "str \<Rightarrow> str \<Rightarrow> bool" where
  "starts_with t p \<longleftrightarrow> take (length p) t = p"

lemma starts_with_Cons [simp]:
  "starts_with t []" "starts_with (a # t) (b # p) \<longleftrightarrow> a = b \<and> starts_with t p"
  "\<not> starts_with [] (b # p)"
  by (auto simp: starts_with_def)

lemma starts_with_ge: "starts_with t p \<Longrightarrow> p \<le> t"
proof (induction p arbitrary: t)
  case (Cons b p)
  then show ?case by (cases t) auto
qed simp

text \<open>The strings with a given prefix are an interval of the order that starts at the prefix.\<close>

lemma starts_with_convex:
  assumes "p \<le> t" "t \<le> u" "starts_with u p" shows "starts_with t p"
  using assms
proof (induction p arbitrary: t u)
  case (Cons b p)
  then obtain c u' where u: "u = c # u'" by (cases u) auto
  from Cons.prems obtain a t' where t: "t = a # t'" by (cases t) auto
  from Cons.prems u t show ?case using Cons.IH[of t' u'] by auto
qed simp

section \<open>Binary search\<close>

text \<open>The half-open bisection loop that the sources write in four places: \<open>probe\<close> says whether
  the element at an index comes before the target and may fail.\<close>

function lower_bound_loop :: "(nat \<Rightarrow> 'e + bool) \<Rightarrow> nat \<Rightarrow> nat \<Rightarrow> 'e + nat" where
  "lower_bound_loop probe low high =
     (if low < high then
        let middle = low + (high - low) div 2 in
        and_then (probe middle)
          (\<lambda>b. if b then lower_bound_loop probe (middle + 1) high
                else lower_bound_loop probe low middle)
      else Inr low)"
  by pat_completeness auto
termination
  by (relation "measure (\<lambda>(probe, low, high). high - low)") auto

declare lower_bound_loop.simps [simp del]

text \<open>The reference: how many leading indices satisfy the predicate.\<close>

definition partition_point :: "(nat \<Rightarrow> bool) \<Rightarrow> nat \<Rightarrow> nat" where
  "partition_point p n = length (takeWhile p [0..<n])"

lemma partition_point_le: "partition_point p n \<le> n"
  unfolding partition_point_def
  by (metis diff_zero length_takeWhile_le length_upt)

lemma partition_point_before: "i < partition_point p n \<Longrightarrow> p i"
proof -
  assume i: "i < partition_point p n"
  then have "takeWhile p [0..<n] ! i = i"
    using partition_point_le[of p n] by (simp add: partition_point_def takeWhile_nth)
  with i show "p i"
    by (metis nth_mem partition_point_def set_takeWhileD)
qed

lemma partition_point_stop: "partition_point p n < n \<Longrightarrow> \<not> p (partition_point p n)"
  using nth_length_takeWhile[of p "[0..<n]"] by (simp add: partition_point_def)

lemma partition_point_eqI:
  assumes "k \<le> n" "\<And>i. i < k \<Longrightarrow> p i" "k < n \<Longrightarrow> \<not> p k"
  shows "partition_point p n = k"
proof (rule ccontr)
  assume "partition_point p n \<noteq> k"
  then consider "partition_point p n < k" | "k < partition_point p n" by linarith
  then show False
    using assms partition_point_stop[of p n] partition_point_before[of k p n]
      partition_point_le[of p n]
    by cases auto
qed

text \<open>The contract of a search: from index \<open>first\<close> on the probe answers, and the elements before the
  target form an initial segment that contains everything below \<open>first\<close>.\<close>

locale partition_probe =
  fixes invar :: "'s \<Rightarrow> bool"
    and first :: "'s \<Rightarrow> nat"
    and len :: "'s \<Rightarrow> nat"
    and before :: "'s \<Rightarrow> nat \<Rightarrow> bool"
    and probe :: "'s \<Rightarrow> nat \<Rightarrow> 'e + bool"
  assumes probe_ok: "invar s \<Longrightarrow> first s \<le> i \<Longrightarrow> i < len s \<Longrightarrow> probe s i = Inr (before s i)"
    and before_down: "invar s \<Longrightarrow> i \<le> j \<Longrightarrow> j < len s \<Longrightarrow> before s j \<Longrightarrow> before s i"
    and before_first: "invar s \<Longrightarrow> i < first s \<Longrightarrow> before s i"
    and first_le: "invar s \<Longrightarrow> first s \<le> len s"
begin

lemma before_iff:
  assumes "invar s" "i < len s"
  shows "before s i \<longleftrightarrow> i < partition_point (before s) (len s)"
proof
  assume b: "before s i"
  show "i < partition_point (before s) (len s)"
  proof (rule ccontr)
    assume "\<not> i < partition_point (before s) (len s)"
    then have le: "partition_point (before s) (len s) \<le> i" by simp
    with assms have "partition_point (before s) (len s) < len s" by simp
    then show False
      using before_down[OF assms(1) le assms(2) b] partition_point_stop by blast
  qed
qed (rule partition_point_before)

lemma first_le_point:
  assumes "invar s" shows "first s \<le> partition_point (before s) (len s)"
proof (rule ccontr)
  assume "\<not> first s \<le> partition_point (before s) (len s)"
  then have lt: "partition_point (before s) (len s) < first s" by simp
  then have "partition_point (before s) (len s) < len s" using first_le[OF assms] by simp
  then show False using before_first[OF assms lt] partition_point_stop by blast
qed

lemma loop_partition:
  assumes "invar s" "first s \<le> low" "low \<le> partition_point (before s) (len s)"
    and "partition_point (before s) (len s) \<le> high" "high \<le> len s"
  shows "lower_bound_loop (probe s) low high = Inr (partition_point (before s) (len s))"
  using assms(2-5)
proof (induction "high - low" arbitrary: low high rule: less_induct)
  case less
  let ?k = "partition_point (before s) (len s)"
  show ?case
  proof (cases "low < high")
    case True
    define m where "m = low + (high - low) div 2"
    have m: "low \<le> m" "m < high" using True by (auto simp: m_def)
    have p: "probe s m = Inr (before s m)" using probe_ok assms(1) m less.prems by simp
    have b: "before s m \<longleftrightarrow> m < ?k" using before_iff assms(1) m less.prems by simp
    have step: "lower_bound_loop (probe s) low high =
        (if m < ?k then lower_bound_loop (probe s) (m + 1) high
         else lower_bound_loop (probe s) low m)"
      by (subst lower_bound_loop.simps) (simp add: True m_def[symmetric] Let_def p b)
    show ?thesis
    proof (cases "m < ?k")
      case mk: True
      have "lower_bound_loop (probe s) (m + 1) high = Inr ?k"
        by (rule less.hyps) (use m mk less.prems in auto)
      then show ?thesis using step mk by simp
    next
      case False
      have "lower_bound_loop (probe s) low m = Inr ?k"
        by (rule less.hyps) (use m False less.prems in auto)
      then show ?thesis using step False by simp
    qed
  next
    case False
    then show ?thesis using less.prems by (subst lower_bound_loop.simps) simp
  qed
qed

lemma lower_bound_correct:
  "invar s \<Longrightarrow>
     lower_bound_loop (probe s) (first s) (len s) = Inr (partition_point (before s) (len s))"
  by (rule loop_partition) (simp_all add: partition_point_le first_le_point)

end

end
