(* ===== verification/Errors.thy ===== *)
theory Errors
  imports Prelude
begin

text \<open>
  The error values of the crate: \<open>codec::Error\<close> (crates/pin-core/src/codec/mod.rs),
  \<open>BudgetError\<close> (budget.rs), \<open>IdentityError\<close> (identity.rs) and the crate-wide \<open>Error\<close>
  (error.rs), with the two \<open>From\<close> conversions that the \<open>?\<close> operator applies.
\<close>

datatype error_kind =
    Truncated | TrailingBytes | Overflow | NonCanonical | InvalidValue | InvalidOrder
  | InvalidUtf8 | LimitExceeded | BadMagic | UnsupportedVersion | UnsupportedFeatures | UnknownTag

datatype codec_error = CodecError (err_offset: nat) (err_kind: error_kind)

datatype budget_error = ArithmeticOverflow | BudgetLimitExceeded | InvalidRelease

datatype identity_error =
    InvalidBlock | InvalidOffset | InvalidLayout | ZeroIdentifier | GenerationExhausted

datatype error =
    Allocation
  | Limit string
  | QuerySyntax nat
  | InvalidProfile
  | InvalidDocument
  | DuplicateDocument
  | ForeignRelation
  | InvalidParameters
  | InvalidState
  | InvalidStatistics
  | NonFiniteScore
  | Budget budget_error
  | Codec codec_error

type_synonym 'a codec_result = "codec_error + 'a"
type_synonym 'a result = "error + 'a"

text \<open>\<open>Error::new\<close> as a failed result, and the two \<open>From\<close> conversions of the \<open>?\<close> operator.\<close>

definition codec_fail :: "nat \<Rightarrow> error_kind \<Rightarrow> 'a codec_result" where
  "codec_fail offset kind = Inl (CodecError offset kind)"

abbreviation from_codec :: "'a codec_result \<Rightarrow> 'a result" where
  "from_codec \<equiv> map_err Codec"

abbreviation from_budget :: "budget_error + 'a \<Rightarrow> 'a result" where
  "from_budget \<equiv> map_err Budget"

lemma codec_fail_neq [simp]: "codec_fail o' k \<noteq> Inr x" "Inr x \<noteq> codec_fail o' k"
  by (simp_all add: codec_fail_def)

lemma codec_fail_propagate [simp]: "and_then (codec_fail o' k) f = codec_fail o' k"
  by (simp add: codec_fail_def)

end
