(* ===== verification/Bytes.thy ===== *)
theory Bytes
  imports Errors
begin

text \<open>
  Checked little-endian readers and writers over byte slices
  (crates/pin-core/src/codec/bytes.rs). A primitive that fails returns no new cursor, so its
  caller keeps the old one: failed reads preserve the cursor by construction. The two variable
  length decoders differ only in their number of groups and in the bound on the last group.
\<close>

section \<open>Reader\<close>

record reader =
  rd_bytes :: bytes
  rd_offset :: nat

definition reader_new :: "bytes \<Rightarrow> reader" where
  "reader_new bs = \<lparr>rd_bytes = bs, rd_offset = 0\<rparr>"

definition reader_remaining :: "reader \<Rightarrow> nat" where
  "reader_remaining self = length (rd_bytes self) - rd_offset self"

definition reader_take :: "reader \<Rightarrow> nat \<Rightarrow> (bytes \<times> reader) codec_result" where
  "reader_take self len =
     and_then (ok_or (CodecError (rd_offset self) Overflow) (checked_add (rd_offset self) len)) (\<lambda>e.
     if e \<le> length (rd_bytes self)
     then Inr (take len (drop (rd_offset self) (rd_bytes self)), self\<lparr>rd_offset := e\<rparr>)
     else codec_fail (rd_offset self) Truncated)"

definition reader_u8 :: "reader \<Rightarrow> (u8 \<times> reader) codec_result" where
  "reader_u8 self = and_then (reader_take self 1) (\<lambda>(bs, self). Inr (hd bs, self))"

definition reader_u16 :: "reader \<Rightarrow> (u16 \<times> reader) codec_result" where
  "reader_u16 self = and_then (reader_take self 2) (\<lambda>(bs, self). Inr (from_le bs, self))"

definition reader_u32 :: "reader \<Rightarrow> (u32 \<times> reader) codec_result" where
  "reader_u32 self = and_then (reader_take self 4) (\<lambda>(bs, self). Inr (from_le bs, self))"

definition reader_u64 :: "reader \<Rightarrow> (u64 \<times> reader) codec_result" where
  "reader_u64 self = and_then (reader_take self 8) (\<lambda>(bs, self). Inr (from_le bs, self))"

text \<open>The loop over the group numbers: \<open>last_group\<close> is the last one, whose byte may not exceed \<open>bound\<close>.\<close>

fun var_groups ::
  "nat \<Rightarrow> u8 \<Rightarrow> nat \<Rightarrow> nat list \<Rightarrow> 'a::len word \<Rightarrow> reader \<Rightarrow> ('a word \<times> reader) codec_result" where
  "var_groups last_group bound start [] acc input = codec_fail start Overflow"
| "var_groups last_group bound start (grp # grps) acc input =
     and_then (reader_u8 input) (\<lambda>(byte, input).
     if grp = last_group \<and> byte > bound then codec_fail start Overflow
     else let acc = acc OR push_bit (grp * 7) (ucast (byte AND 127)) in
     if byte AND 128 = 0 then
       (if grp \<noteq> 0 \<and> byte = 0 then codec_fail start NonCanonical else Inr (acc, input))
     else var_groups last_group bound start grps acc input)"

definition reader_var_u32 :: "reader \<Rightarrow> (u32 \<times> reader) codec_result" where
  "reader_var_u32 self = var_groups 4 15 (rd_offset self) [0..<5] 0 self"

definition reader_var_u64 :: "reader \<Rightarrow> (u64 \<times> reader) codec_result" where
  "reader_var_u64 self = var_groups 9 1 (rd_offset self) [0..<10] 0 self"

definition reader_finish :: "reader \<Rightarrow> unit codec_result" where
  "reader_finish self =
     (if reader_remaining self \<noteq> 0 then codec_fail (rd_offset self) TrailingBytes else Inr ())"

section \<open>Writer\<close>

record writer =
  wr_bytes :: bytes
  wr_offset :: nat

definition writer_new :: "bytes \<Rightarrow> writer" where
  "writer_new bs = \<lparr>wr_bytes = bs, wr_offset = 0\<rparr>"

definition writer_put :: "writer \<Rightarrow> bytes \<Rightarrow> writer codec_result" where
  "writer_put self value =
     and_then (ok_or (CodecError (wr_offset self) Overflow)
                 (checked_add (wr_offset self) (length value))) (\<lambda>e.
     if e \<le> length (wr_bytes self)
     then Inr (self\<lparr>wr_bytes := take (wr_offset self) (wr_bytes self) @ value @ drop e (wr_bytes self),
                    wr_offset := e\<rparr>)
     else codec_fail (wr_offset self) Truncated)"

definition writer_u8 :: "writer \<Rightarrow> u8 \<Rightarrow> writer codec_result" where
  "writer_u8 self value = writer_put self [value]"

definition writer_u16 :: "writer \<Rightarrow> u16 \<Rightarrow> writer codec_result" where
  "writer_u16 self value = writer_put self (le_bytes 2 value)"

definition writer_u32 :: "writer \<Rightarrow> u32 \<Rightarrow> writer codec_result" where
  "writer_u32 self value = writer_put self (le_bytes 4 value)"

definition writer_u64 :: "writer \<Rightarrow> u64 \<Rightarrow> writer codec_result" where
  "writer_u64 self value = writer_put self (le_bytes 8 value)"

text \<open>The bytes the encoding loop leaves in its scratch array.\<close>

function var_bytes :: "'a::len word \<Rightarrow> bytes" where
  "var_bytes value =
     (let low = ucast (value AND 127); nxt = drop_bit 7 value;
          byte = low OR (if nxt = 0 then 0 else 128)
      in if nxt = 0 then [byte] else byte # var_bytes nxt)"
  by pat_completeness auto
termination
proof (relation "measure unat", simp)
  fix v :: "'a word" and low byte :: u8 and nxt
  assume nxt: "nxt = drop_bit 7 v" "nxt \<noteq> 0"
  then have "unat nxt = drop_bit 7 (unat v)" by (simp add: unat_drop_bit_eq)
  then have "unat nxt = unat v div 128" by (simp add: drop_bit_eq_div)
  moreover have "unat nxt \<noteq> 0" using nxt(2) by (simp add: unat_eq_zero)
  ultimately show "(nxt, v) \<in> measure unat" by simp
qed

declare var_bytes.simps [simp del]

definition writer_var_u32 :: "writer \<Rightarrow> u32 \<Rightarrow> writer codec_result" where
  "writer_var_u32 self value = writer_put self (var_bytes value)"

definition writer_var_u64 :: "writer \<Rightarrow> u64 \<Rightarrow> writer codec_result" where
  "writer_var_u64 self value = writer_put self (var_bytes value)"

definition var_u32_len :: "u32 \<Rightarrow> nat" where
  "var_u32_len value =
     (if value = 0 then 1 else div_ceil (32 - leading_zeros value) 7)"

section \<open>Cursors\<close>

text \<open>The unread part of a reader, and the reader moved ahead.\<close>

definition rd_rest :: "reader \<Rightarrow> bytes" where
  "rd_rest r = drop (rd_offset r) (rd_bytes r)"

definition rd_skip :: "reader \<Rightarrow> nat \<Rightarrow> reader" where
  "rd_skip r k = r\<lparr>rd_offset := rd_offset r + k\<rparr>"

definition rd_ok :: "reader \<Rightarrow> bool" where
  "rd_ok r \<longleftrightarrow> rd_offset r \<le> length (rd_bytes r) \<and> slice_ok (rd_bytes r)"

lemma rd_rest_skip [simp]: "rd_rest (rd_skip r k) = drop k (rd_rest r)"
  by (simp add: rd_rest_def rd_skip_def add.commute)

lemma rd_skip_skip [simp]: "rd_skip (rd_skip r a) b = rd_skip r (a + b)"
  by (simp add: rd_skip_def add.assoc)

lemma rd_skip_0 [simp]: "rd_skip r 0 = r"
  by (simp add: rd_skip_def)

lemma rd_offset_skip [simp]: "rd_offset (rd_skip r k) = rd_offset r + k"
  by (simp add: rd_skip_def)

lemma rd_bytes_skip [simp]: "rd_bytes (rd_skip r k) = rd_bytes r"
  by (simp add: rd_skip_def)

lemma rd_ok_skip [simp]: "rd_ok r \<Longrightarrow> k \<le> length (rd_rest r) \<Longrightarrow> rd_ok (rd_skip r k)"
  by (auto simp: rd_ok_def rd_skip_def rd_rest_def)

lemma rd_ok_new [simp]: "rd_ok (reader_new bs) \<longleftrightarrow> slice_ok bs"
  by (simp add: rd_ok_def reader_new_def)

lemma rd_rest_new [simp]: "rd_rest (reader_new bs) = bs"
  by (simp add: rd_rest_def reader_new_def)

lemma rd_offset_new [simp]: "rd_offset (reader_new bs) = 0"
  by (simp add: reader_new_def)

lemma reader_remaining_rest [codec_simps]: "reader_remaining r = length (rd_rest r)"
  by (simp add: reader_remaining_def rd_rest_def)

lemma reader_take_eq [codec_simps]:
  "rd_ok r \<Longrightarrow> reader_take r n =
     (if n \<le> length (rd_rest r) then Inr (take n (rd_rest r), rd_skip r n)
      else if rd_offset r + n \<le> usize_max then codec_fail (rd_offset r) Truncated
      else codec_fail (rd_offset r) Overflow)"
  by (auto simp: reader_take_def checked_add_def rd_rest_def rd_skip_def rd_ok_def slice_ok_def
      usize_max_def codec_fail_def)

lemma small_no_overflow: "rd_ok r \<Longrightarrow> n \<le> 2 ^ 63 \<Longrightarrow> rd_offset r + n \<le> usize_max"
  by (auto simp: rd_ok_def slice_ok_def usize_max_def)

lemma reader_u8_eq [codec_simps]:
  "rd_ok r \<Longrightarrow> reader_u8 r =
     (case rd_rest r of [] \<Rightarrow> codec_fail (rd_offset r) Truncated | b # _ \<Rightarrow> Inr (b, rd_skip r 1))"
  using small_no_overflow[of r 1]
  by (auto simp: reader_u8_def reader_take_eq split: list.splits)

lemma reader_u16_eq [codec_simps]:
  "rd_ok r \<Longrightarrow> reader_u16 r =
     (if 2 \<le> length (rd_rest r) then Inr (from_le (take 2 (rd_rest r)), rd_skip r 2)
      else codec_fail (rd_offset r) Truncated)"
  using small_no_overflow[of r 2] by (auto simp: reader_u16_def reader_take_eq)

lemma reader_u32_eq [codec_simps]:
  "rd_ok r \<Longrightarrow> reader_u32 r =
     (if 4 \<le> length (rd_rest r) then Inr (from_le (take 4 (rd_rest r)), rd_skip r 4)
      else codec_fail (rd_offset r) Truncated)"
  using small_no_overflow[of r 4] by (auto simp: reader_u32_def reader_take_eq)

lemma reader_u64_eq [codec_simps]:
  "rd_ok r \<Longrightarrow> reader_u64 r =
     (if 8 \<le> length (rd_rest r) then Inr (from_le (take 8 (rd_rest r)), rd_skip r 8)
      else codec_fail (rd_offset r) Truncated)"
  using small_no_overflow[of r 8] by (auto simp: reader_u64_def reader_take_eq)

lemma reader_finish_eq [codec_simps]:
  "reader_finish r = (if rd_rest r = [] then Inr () else codec_fail (rd_offset r) TrailingBytes)"
  by (simp add: reader_finish_def reader_remaining_rest)

lemma from_le_u16 [simp]: "from_le (le_bytes 2 (w :: u16)) = w"
  by (rule from_le_bytes) simp

lemma from_le_u32 [simp]: "from_le (le_bytes 4 (w :: u32)) = w"
  by (rule from_le_bytes) simp

lemma from_le_u64 [simp]: "from_le (le_bytes 8 (w :: u64)) = w"
  by (rule from_le_bytes) simp

text \<open>The written part of a writer, and the writer after a successful \<open>put\<close>.\<close>

definition wr_ok :: "writer \<Rightarrow> bool" where
  "wr_ok w \<longleftrightarrow> wr_offset w \<le> length (wr_bytes w) \<and> slice_ok (wr_bytes w)"

definition wr_room :: "writer \<Rightarrow> nat" where
  "wr_room w = length (wr_bytes w) - wr_offset w"

definition wr_append :: "writer \<Rightarrow> bytes \<Rightarrow> writer" where
  "wr_append w v = w\<lparr>wr_bytes := take (wr_offset w) (wr_bytes w) @ v @
                              drop (wr_offset w + length v) (wr_bytes w),
                     wr_offset := wr_offset w + length v\<rparr>"

lemma writer_put_eq:
  "wr_ok w \<Longrightarrow> length v \<le> wr_room w \<Longrightarrow> writer_put w v = Inr (wr_append w v)"
  by (auto simp: writer_put_def checked_add_def wr_append_def wr_ok_def wr_room_def slice_ok_def
      usize_max_def)

lemma writer_put_full:
  "wr_ok w \<Longrightarrow> wr_room w < length v \<Longrightarrow> length v \<le> 2 ^ 63 \<Longrightarrow>
     writer_put w v = codec_fail (wr_offset w) Truncated"
  by (auto simp: writer_put_def checked_add_def wr_ok_def wr_room_def slice_ok_def usize_max_def)

lemma wr_append_append [simp]:
  "wr_ok w \<Longrightarrow> length a + length b \<le> wr_room w \<Longrightarrow>
     wr_append (wr_append w a) b = wr_append w (a @ b)"
  by (simp add: wr_append_def wr_ok_def wr_room_def ac_simps)

lemma wr_append_Nil [simp]: "wr_append w [] = w"
  by (simp add: wr_append_def)

lemma wr_ok_append [simp]: "wr_ok w \<Longrightarrow> length v \<le> wr_room w \<Longrightarrow> wr_ok (wr_append w v)"
  by (auto simp: wr_append_def wr_ok_def wr_room_def slice_ok_def)

lemma wr_room_append [simp]:
  "wr_ok w \<Longrightarrow> length v \<le> wr_room w \<Longrightarrow> wr_room (wr_append w v) = wr_room w - length v"
  by (simp add: wr_append_def wr_ok_def wr_room_def)

lemma wr_offset_append [simp]: "wr_offset (wr_append w v) = wr_offset w + length v"
  by (simp add: wr_append_def)

lemma wr_new_simps [simp]:
  "wr_ok (writer_new out) \<longleftrightarrow> slice_ok out" "wr_room (writer_new out) = length out"
  "wr_offset (writer_new out) = 0"
  "wr_bytes (wr_append (writer_new out) v) = v @ drop (length v) out"
  by (simp_all add: writer_new_def wr_ok_def wr_room_def wr_append_def)

lemmas writer_defs [codec_simps] =
  writer_u8_def writer_u16_def writer_u32_def writer_u64_def writer_var_u32_def writer_var_u64_def
  writer_put_eq

section \<open>Variable-length integers\<close>

lemma bit_u8_128: "(b :: u8) AND 128 = 0 \<longleftrightarrow> \<not> bit b 7"
proof -
  have "(128 :: u8) = 2 ^ 7" by simp
  then show ?thesis by (simp only: and_exp_eq_0_iff_not_bit)
qed

lemma bit_127: "bit (127 :: int) k \<longleftrightarrow> k < 7"
proof -
  have "(127 :: int) = mask 7" by (simp add: mask_eq_exp_minus_1)
  then show ?thesis by (simp only: bit_mask_iff possible_bit_def) simp
qed

lemma bit_128: "bit (128 :: int) k \<longleftrightarrow> k = 7"
proof -
  have "(128 :: int) = 2 ^ 7" by simp
  then show ?thesis by (simp only: bit_exp_iff possible_bit_def) auto
qed

text \<open>The head byte of an encoding: seven low bits and the continuation flag.\<close>

definition var_head :: "'a::len word \<Rightarrow> u8" where
  "var_head v = ucast (v AND 127) OR (if drop_bit 7 v = 0 then 0 else 128)"

lemma var_bytes_unfold:
  "var_bytes v = (if drop_bit 7 v = 0 then [var_head v] else var_head v # var_bytes (drop_bit 7 v))"
  by (subst var_bytes.simps) (simp add: var_head_def Let_def)

lemma bit_var_head:
  "bit (var_head v) k \<longleftrightarrow> (k < 7 \<and> bit v k) \<or> (k = 7 \<and> drop_bit 7 v \<noteq> 0)"
  by (auto simp: var_head_def bit_or_iff bit_ucast_iff bit_and_iff bit_127 bit_128
      dest: bit_imp_le_length)

lemma var_head_flag: "var_head v AND 128 = 0 \<longleftrightarrow> drop_bit 7 v = 0"
  by (simp add: bit_u8_128 bit_var_head)

lemma bit_eq_0_iff: "(w :: 'a::len word) = 0 \<longleftrightarrow> (\<forall>k. \<not> bit w k)"
  by (auto intro: bit_word_eqI)

lemma var_head_0_iff: "var_head v = 0 \<longleftrightarrow> v = 0"
proof
  assume h: "var_head v = 0"
  then have low: "k < 7 \<Longrightarrow> \<not> bit v k" and high: "drop_bit 7 v = 0" for k
    using bit_var_head[of v k] bit_var_head[of v 7] by auto
  have "\<not> bit v k" for k
  proof (cases "k < 7")
    case False
    then have "bit v k = bit (drop_bit 7 v) (k - 7)" by (simp add: bit_drop_bit_eq)
    then show ?thesis using high by simp
  qed (rule low)
  then show "v = 0" by (simp add: bit_eq_0_iff)
qed (simp add: var_head_def)

lemma take_bit_var_step:
  "take_bit (7 * g) v OR push_bit (g * 7) (ucast (var_head (drop_bit (7 * g) v) AND 127))
     = take_bit (7 * Suc g) (v :: 'a::len word)"
  by (rule bit_word_eqI)
    (auto simp: bit_or_iff bit_take_bit_iff bit_push_bit_iff bit_ucast_iff bit_and_iff bit_127
      bit_var_head bit_drop_bit_eq mult.commute)

lemma drop_bit_small_iff: "drop_bit n (w :: 'a::len word) = 0 \<longleftrightarrow> unat w < 2 ^ n"
proof -
  have "drop_bit n w = 0 \<longleftrightarrow> unat (drop_bit n w) = 0" by (simp add: unat_eq_zero)
  also have "\<dots> \<longleftrightarrow> unat w < 2 ^ n"
    unfolding unat_drop_bit_eq by (simp add: drop_bit_eq_div div_eq_0_iff)
  finally show ?thesis .
qed

text \<open>What the two widths have in common: the groups cover the word, the last group holds its
  remaining bits and \<open>bound\<close> is the largest byte of that group.\<close>

definition var_shape :: "'a::len word itself \<Rightarrow> nat \<Rightarrow> u8 \<Rightarrow> bool" where
  "var_shape t last_group bound \<longleftrightarrow>
     7 * last_group < LENGTH('a) \<and> LENGTH('a) \<le> 7 * last_group + 7 \<and>
     Suc (unat bound) = 2 ^ (LENGTH('a) - 7 * last_group)"

lemma var_shape_u32: "var_shape TYPE(u32) 4 15"
  by (simp add: var_shape_def)

lemma var_shape_u64: "var_shape TYPE(u64) 9 1"
  by (simp add: var_shape_def)

lemma var_shape_le_8: "var_shape TYPE('a::len word) l bound \<Longrightarrow> LENGTH('a) - 7 * l \<le> 7"
  by (auto simp: var_shape_def)

lemma drop_bit_last_small:
  fixes v :: "'a::len word"
  assumes "var_shape TYPE('a word) l bound"
  shows "unat (drop_bit (7 * l) v) \<le> unat bound" "drop_bit 7 (drop_bit (7 * l) v) = 0"
proof -
  have "2 ^ LENGTH('a) = 2 ^ (LENGTH('a) - 7 * l) * (2 :: nat) ^ (7 * l)"
    using assms by (simp add: var_shape_def flip: power_add)
  then have "unat (drop_bit (7 * l) v) < 2 ^ (LENGTH('a) - 7 * l)"
    using unat_lt2p[of v] unfolding unat_drop_bit_eq
    by (simp add: drop_bit_eq_div less_mult_imp_div_less)
  then show "unat (drop_bit (7 * l) v) \<le> unat bound"
    using assms by (simp add: var_shape_def)
  from assms have "LENGTH('a) \<le> 7 + 7 * l" by (simp add: var_shape_def)
  then show "drop_bit 7 (drop_bit (7 * l) v) = 0"
    by (auto simp: bit_eq_0_iff bit_drop_bit_eq dest: bit_imp_le_length)
qed

lemma unat_var_head_small:
  assumes "drop_bit 7 v = 0" shows "unat (var_head v) = unat v"
proof -
  have v: "unat v < 2 ^ 7" using assms drop_bit_small_iff by blast
  have "v AND 127 = v"
  proof (rule bit_word_eqI)
    fix k
    have "bit v k \<Longrightarrow> k < 7"
    proof (rule ccontr)
      assume "bit v k" "\<not> k < 7"
      then have "bit (drop_bit 7 v) (k - 7)" by (simp add: bit_drop_bit_eq)
      then show False using assms by simp
    qed
    then show "bit (v AND 127) k = bit v k"
      by (auto simp: bit_and_iff bit_127 dest: bit_imp_le_length)
  qed
  then have "var_head v = ucast v" using assms by (simp add: var_head_def)
  then show ?thesis using v by (simp add: unsigned_ucast_eq take_bit_nat_eq_self)
qed

lemma var_bytes_ne [simp]: "var_bytes v \<noteq> []"
  by (subst var_bytes_unfold) simp

lemma var_groups_decode:
  fixes v :: "'a::len word"
  assumes shape: "var_shape TYPE('a word) l bound"
    and "g \<le> l" "g = 0 \<or> drop_bit (7 * g) v \<noteq> 0"
    and "rd_ok r" "rd_rest r = var_bytes (drop_bit (7 * g) v) @ xs"
  shows "var_groups l bound start [g..<Suc l] (take_bit (7 * g) v) r =
    Inr (v, rd_skip r (length (var_bytes (drop_bit (7 * g) v))))"
  using assms(2-)
proof (induction "l - g" arbitrary: g r)
  case 0
  then have [simp]: "g = l" by simp
  let ?d = "drop_bit (7 * l) v"
  have small: "unat ?d \<le> unat bound" "drop_bit 7 ?d = 0" using drop_bit_last_small[OF shape] by auto
  then have head: "\<not> var_head ?d > bound"
    by (simp add: unat_var_head_small word_less_nat_alt)
  have rest: "rd_rest r = var_head ?d # xs" and len: "length (var_bytes ?d) = 1"
    using 0 small by (simp_all add: var_bytes_unfold[of ?d])
  have canon: "\<not> (l \<noteq> 0 \<and> var_head ?d = 0)" using 0 by (auto simp: var_head_0_iff)
  have "take_bit (7 * Suc l) v = v"
  proof (rule bit_word_eqI)
    fix k assume "k < LENGTH('a)"
    then show "bit (take_bit (7 * Suc l) v) k = bit v k"
      using shape by (auto simp: bit_take_bit_iff var_shape_def)
  qed
  then show ?case
    using 0(4) rest head canon small len take_bit_var_step[of l v]
    by (simp add: reader_u8_eq Let_def var_head_flag)
next
  case (Suc n)
  let ?d = "drop_bit (7 * g) v"
  have gl: "g < l" using Suc by simp
  then have upt: "[g..<Suc l] = g # [Suc g..<Suc l]" by (simp add: upt_conv_Cons)
  obtain ys where rest: "rd_rest r = var_head ?d # ys"
    using Suc.prems by (subst (asm) (1) var_bytes_unfold) (auto split: if_splits)
  have dd: "drop_bit (7 * Suc g) v = drop_bit 7 ?d" by (simp add: add.commute)
  show ?case
  proof (cases "drop_bit 7 ?d = 0")
    case True
    have canon: "\<not> (g \<noteq> 0 \<and> var_head ?d = 0)" using Suc.prems by (auto simp: var_head_0_iff)
    have "take_bit (7 * Suc g) v = v"
    proof (rule bit_word_eqI)
      fix k assume "k < LENGTH('a)"
      show "bit (take_bit (7 * Suc g) v) k = bit v k"
      proof (cases "k < 7 * Suc g")
        case False
        then have "bit (drop_bit (7 * Suc g) v) (k - 7 * Suc g) = bit v k"
          by (simp add: bit_drop_bit_eq)
        with False True dd show ?thesis by (simp add: bit_take_bit_iff)
      qed (simp add: bit_take_bit_iff)
    qed
    moreover have "length (var_bytes ?d) = 1" using True by (simp add: var_bytes_unfold[of ?d])
    ultimately show ?thesis
      unfolding upt using Suc.prems(3) rest gl True canon take_bit_var_step[of g v]
      by (simp add: reader_u8_eq Let_def var_head_flag del: upt_Suc)
  next
    case False
    have vb: "var_bytes ?d = var_head ?d # var_bytes (drop_bit (7 * Suc g) v)"
      using False dd by (subst var_bytes_unfold) simp
    have ok: "rd_ok (rd_skip r 1)" using Suc.prems(3) rest by simp
    have ih: "var_groups l bound start [Suc g..<Suc l] (take_bit (7 * Suc g) v) (rd_skip r 1) =
       Inr (v, rd_skip (rd_skip r 1) (length (var_bytes (drop_bit (7 * Suc g) v))))"
      by (rule Suc.hyps) (use Suc gl False dd ok vb in auto)
    have "var_head ?d AND 128 \<noteq> 0" using False by (simp add: var_head_flag)
    then show ?thesis
      unfolding upt using Suc.prems(3) rest gl ih take_bit_var_step[of g v] vb
      by (simp add: reader_u8_eq Let_def del: upt_Suc)
  qed
qed

lemma bits_below:
  assumes "unat (w :: 'a::len word) < 2 ^ n" "bit w k" shows "k < n"
proof (rule ccontr)
  assume "\<not> k < n"
  then have "bit (drop_bit n w) (k - n)" using assms(2) by (simp add: bit_drop_bit_eq)
  then show False using assms(1) by (simp flip: drop_bit_small_iff)
qed

text \<open>One decoded byte in front of the encoding of the higher groups.\<close>

lemma var_bytes_Cons:
  fixes d :: "'a::len word"
  assumes "bit b 7 \<longleftrightarrow> d \<noteq> 0" and "\<And>k. bit d k \<Longrightarrow> k + 7 < LENGTH('a)"
    and "\<And>k. k < 7 \<Longrightarrow> bit b k \<Longrightarrow> k < LENGTH('a)"
  shows "var_bytes (ucast (b AND 127) OR push_bit 7 d) = b # (if d = 0 then [] else var_bytes d)"
proof -
  let ?v = "ucast (b AND 127) OR push_bit 7 d :: 'a word"
  have bv: "bit ?v k \<longleftrightarrow> (if k < 7 then bit b k else bit d (k - 7))" for k
    using assms(2)[of "k - 7"] assms(3)[of k]
    by (auto simp: bit_or_iff bit_ucast_iff bit_and_iff bit_127 bit_push_bit_iff
        dest: bit_u8_bound)
  have d: "drop_bit 7 ?v = d"
    by (rule bit_word_eqI) (simp only: bit_drop_bit_eq bv comp_apply, simp)
  have "var_head ?v = b"
  proof (rule bit_word_eqI)
    fix k assume "k < LENGTH(8)"
    then have "k < 7 \<or> k = 7" by auto
    then show "bit (var_head ?v) k = bit b k" using bv d assms(1) by (auto simp: bit_var_head)
  qed
  then show ?thesis using d by (subst var_bytes_unfold) auto
qed

lemma or_push_or:
  fixes d :: "'a::len word"
  shows "(acc OR push_bit (g * 7) x) OR push_bit (7 * Suc g) d
    = acc OR push_bit (7 * g) (x OR push_bit 7 d)"
  by (simp add: push_bit_or or.assoc mult.commute add.commute)

lemma var_groups_canonical:
  fixes v acc :: "'a::len word"
  assumes shape: "var_shape TYPE('a word) l bound"
    and "g \<le> l" "rd_ok r"
    and "var_groups l bound start [g..<Suc l] acc r = Inr (v, r')"
  shows "\<exists>d. v = acc OR push_bit (7 * g) d \<and> (g \<noteq> 0 \<longrightarrow> d \<noteq> 0) \<and>
      (\<forall>k. bit d k \<longrightarrow> k + 7 * g < LENGTH('a)) \<and>
      rd_rest r = var_bytes d @ rd_rest r' \<and> r' = rd_skip r (length (var_bytes d))"
  using assms(2-)
proof (induction "l - g" arbitrary: g r acc)
  case 0
  then have [simp]: "g = l" by simp
  from 0 obtain b ys where b: "rd_rest r = b # ys" "\<not> b > bound" "b AND 128 = 0"
      "\<not> (l \<noteq> 0 \<and> b = 0)" "v = acc OR push_bit (l * 7) (ucast (b AND 127))" "r' = rd_skip r 1"
    by (auto simp: reader_u8_eq Let_def split: list.splits if_splits)
  let ?d = "ucast (b AND 127) :: 'a word"
  have "unat b < 2 ^ (LENGTH('a) - 7 * l)"
    using b(2) shape by (simp add: var_shape_def word_less_nat_alt)
  then have bits: "bit b k \<Longrightarrow> k < LENGTH('a) - 7 * l" for k by (rule bits_below)
  have vb: "var_bytes ?d = [b]"
    using var_bytes_Cons[of b "0 :: 'a word"] b(3) bits by (fastforce simp: bit_u8_128)
  have "?d \<noteq> 0" if "l \<noteq> 0"
  proof
    assume "?d = 0"
    then have "b = 0" using vb by (simp add: var_bytes_unfold[of "0 :: 'a word"] var_head_def)
    then show False using b(4) that by simp
  qed
  moreover have "bit ?d k \<longrightarrow> k + 7 * l < LENGTH('a)" for k
    using bits[of k] by (auto simp: bit_ucast_iff bit_and_iff)
  ultimately show ?case using b vb
    by (intro exI[of _ ?d]) (simp add: mult.commute)
next
  case (Suc n)
  have gl: "g < l" using Suc by simp
  then have upt: "[g..<Suc l] = g # [Suc g..<Suc l]" by (simp add: upt_conv_Cons)
  have wide: "7 * g + 7 < LENGTH('a)" using shape gl by (auto simp: var_shape_def)
  from Suc.prems(2,3) obtain b ys where b: "rd_rest r = b # ys"
    unfolding upt by (auto simp: reader_u8_eq simp del: upt_Suc split: list.splits)
  let ?low = "ucast (b AND 127) :: 'a word"
  let ?acc = "acc OR push_bit (g * 7) ?low"
  have low7: "k < 7 \<Longrightarrow> k < LENGTH('a)" for k using wide by simp
  show ?case
  proof (cases "b AND 128 = 0")
    case True
    then have r: "v = ?acc" "r' = rd_skip r 1" "\<not> (g \<noteq> 0 \<and> b = 0)"
      using Suc.prems(2,3) b gl unfolding upt
      by (auto simp: reader_u8_eq Let_def simp del: upt_Suc split: if_splits)
    have vb: "var_bytes ?low = [b]"
      using var_bytes_Cons[of b "0 :: 'a word"] True low7 by (simp add: bit_u8_128)
    have "?low \<noteq> 0" if "g \<noteq> 0"
    proof
      assume "?low = 0"
      then have "b = 0" using vb by (simp add: var_bytes_unfold[of "0 :: 'a word"] var_head_def)
      then show False using r(3) that by simp
    qed
    moreover have "bit ?low k \<longrightarrow> k + 7 * g < LENGTH('a)" for k
      using wide by (auto simp: bit_ucast_iff bit_and_iff bit_127)
    ultimately show ?thesis using b r vb
      by (intro exI[of _ ?low]) (simp add: mult.commute)
  next
    case False
    then have rec: "var_groups l bound start [Suc g..<Suc l] ?acc (rd_skip r 1) = Inr (v, r')"
      using Suc.prems(2,3) b gl unfolding upt
      by (auto simp: reader_u8_eq Let_def simp del: upt_Suc split: if_splits)
    have ok: "rd_ok (rd_skip r 1)" using Suc.prems(2) b by simp
    have "\<exists>d. v = ?acc OR push_bit (7 * Suc g) d \<and> (Suc g \<noteq> 0 \<longrightarrow> d \<noteq> 0) \<and>
      (\<forall>k. bit d k \<longrightarrow> k + 7 * Suc g < LENGTH('a)) \<and>
      rd_rest (rd_skip r 1) = var_bytes d @ rd_rest r' \<and> r' = rd_skip (rd_skip r 1) (length (var_bytes d))"
      by (rule Suc.hyps) (use Suc.hyps(2) gl ok rec in auto)
    then obtain d where d: "v = ?acc OR push_bit (7 * Suc g) d" "d \<noteq> 0"
      "\<And>k. bit d k \<Longrightarrow> k + 7 * Suc g < LENGTH('a)"
      "rd_rest (rd_skip r 1) = var_bytes d @ rd_rest r'" "r' = rd_skip (rd_skip r 1) (length (var_bytes d))"
      by auto
    let ?d = "?low OR push_bit 7 d"
    have vb: "var_bytes ?d = b # var_bytes d"
      using var_bytes_Cons[of b d] False d(2,3) low7 by (fastforce simp: bit_u8_128)
    have "?d \<noteq> 0"
    proof
      assume "?d = 0"
      then have "length (var_bytes ?d) = 1" by (simp add: var_bytes_unfold[of "0 :: 'a word"])
      then show False using vb by simp
    qed
    moreover have "bit ?d k \<longrightarrow> k + 7 * g < LENGTH('a)" for k
      using wide d(3)[of "k - 7"]
      by (auto simp: bit_or_iff bit_push_bit_iff bit_ucast_iff bit_and_iff bit_127)
    moreover have "v = acc OR push_bit (7 * g) ?d" using d(1) or_push_or by metis
    ultimately show ?thesis using b d vb by (intro exI[of _ ?d]) simp
  qed
qed

text \<open>The length of an encoding, and the constant-time length formula of the source.\<close>

lemma length_var_bytes_le:
  "1 \<le> k \<Longrightarrow> length (var_bytes v) \<le> k \<longleftrightarrow> unat v < 2 ^ (7 * k)"
proof (induction v arbitrary: k rule: var_bytes.induct)
  case (1 v)
  let ?d = "drop_bit 7 v"
  have div: "unat ?d = unat v div 2 ^ 7" unfolding unat_drop_bit_eq by (simp add: drop_bit_eq_div)
  show ?case
  proof (cases "?d = 0")
    case True
    then have "unat v < 2 ^ 7" by (simp add: drop_bit_small_iff)
    also have "(2 :: nat) ^ 7 \<le> 2 ^ (7 * k)" using "1.prems" by (intro power_increasing) auto
    finally show ?thesis using True "1.prems" by (subst var_bytes_unfold) simp
  next
    case False
    then have big: "\<not> unat v < 2 ^ 7" by (simp add: drop_bit_small_iff)
    have len: "length (var_bytes v) = Suc (length (var_bytes ?d))"
      using False by (subst var_bytes_unfold) simp
    show ?thesis
    proof (cases "k = 1")
      case True
      have "length (var_bytes ?d) \<noteq> 0" by simp
      then show ?thesis using True len big by simp
    next
      case k: False
      then obtain j where j: "k = Suc j" "1 \<le> j" using "1.prems" by (cases k) auto
      have "length (var_bytes v) \<le> k \<longleftrightarrow> unat ?d < 2 ^ (7 * j)"
        using "1.IH"[OF refl refl refl False j(2)] len j(1) by simp
      also have "\<dots> \<longleftrightarrow> unat v < 2 ^ (7 * j) * 2 ^ 7"
        unfolding div by (simp add: div_less_iff_less_mult)
      also have "(2 :: nat) ^ (7 * j) * 2 ^ 7 = 2 ^ (7 * k)"
        unfolding j(1) by (simp only: mult_Suc_right power_add) (rule mult.commute)
      finally show ?thesis .
    qed
  qed
qed

lemma length_var_u32_le: "length (var_bytes (v :: u32)) \<le> 5"
  using length_var_bytes_le[of 5 v] unat_u32_lt[of v] by simp

lemma length_var_u64_le: "length (var_bytes (v :: u64)) \<le> 10"
  using length_var_bytes_le[of 10 v] unat_lt2p[of v] by simp

lemma bit_length_bounds:
  fixes v :: "'a::len word"
  assumes "v \<noteq> 0" and n: "n = LENGTH('a) - leading_zeros v"
  shows "unat v < 2 ^ n" "2 ^ (n - 1) \<le> unat v"
proof -
  note lz = leading_zeros_bits[OF assms(1)]
  have "drop_bit n v = 0"
    using lz(3) n by (auto simp: bit_eq_0_iff bit_drop_bit_eq)
  then show "unat v < 2 ^ n" by (simp add: drop_bit_small_iff)
  have "bit v (n - 1)" using lz(1,2) n by (simp add: diff_right_commute)
  then have "bit (drop_bit (n - 1) v) 0" by (simp add: bit_drop_bit_eq)
  then have "drop_bit (n - 1) v \<noteq> 0" by auto
  then show "2 ^ (n - 1) \<le> unat v" by (simp add: drop_bit_small_iff)
qed

lemma var_u32_len_length: "var_u32_len v = length (var_bytes v)"
proof (cases "v = 0")
  case True
  then show ?thesis by (simp add: var_u32_len_def var_bytes_unfold)
next
  case False
  define n where "n = 32 - leading_zeros v"
  have n: "n = LENGTH(32) - leading_zeros v" by (simp add: n_def)
  have b: "unat v < 2 ^ n" "2 ^ (n - 1) \<le> unat v" using bit_length_bounds[OF False n] by auto
  have n1: "1 \<le> n" using leading_zeros_bits(1)[OF False] by (simp add: n_def)
  have "length (var_bytes v) \<le> k \<longleftrightarrow> n \<le> 7 * k" if "1 \<le> k" for k
  proof
    assume "length (var_bytes v) \<le> k"
    then have "(2 :: nat) ^ (n - 1) < 2 ^ (7 * k)"
      using length_var_bytes_le[OF that] b(2) by (meson le_less_trans)
    then have "n - 1 < 7 * k" by (metis one_less_numeral_iff power_less_imp_less_exp semiring_norm(76))
    then show "n \<le> 7 * k" by simp
  next
    assume "n \<le> 7 * k"
    then have "(2 :: nat) ^ n \<le> 2 ^ (7 * k)" by (intro power_increasing) auto
    then show "length (var_bytes v) \<le> k"
      using length_var_bytes_le[OF that] b(1) by (meson less_le_trans)
  qed
  note le_iff = this
  define m where "m = div_ceil n 7"
  have m: "1 \<le> m" "n \<le> 7 * m" "\<not> n \<le> 7 * (m - 1)" using n1 by (auto simp: m_def div_ceil_def)
  have "length (var_bytes v) \<le> m" using le_iff[OF m(1)] m(2) by simp
  moreover have "\<not> length (var_bytes v) \<le> m - 1"
  proof (cases "m = 1")
    case False
    then show ?thesis using le_iff[of "m - 1"] m by simp
  qed simp
  ultimately have "length (var_bytes v) = m" by linarith
  then show ?thesis using False by (simp add: var_u32_len_def n_def m_def)
qed

section \<open>Fields\<close>

text \<open>\<open>consumes r bs r'\<close>: reading moved the cursor from \<open>r\<close> to \<open>r'\<close> over exactly the bytes \<open>bs\<close>.\<close>

definition consumes :: "reader \<Rightarrow> bytes \<Rightarrow> reader \<Rightarrow> bool" where
  "consumes r bs r' \<longleftrightarrow> rd_ok r \<and> (\<exists>xs. rd_rest r = bs @ xs) \<and> r' = rd_skip r (length bs)"

lemma consumes_ok: "consumes r bs r' \<Longrightarrow> rd_ok r'"
  by (auto simp: consumes_def)

lemma consumes_rest: "consumes r bs r' \<Longrightarrow> rd_rest r = bs @ rd_rest r'"
  by (auto simp: consumes_def)

lemma consumes_trans: "consumes r a s \<Longrightarrow> consumes s b t \<Longrightarrow> consumes r (a @ b) t"
  by (auto simp: consumes_def add.commute intro: append_assoc)

lemma consumes_all: "consumes (reader_new bs) v r' \<Longrightarrow> rd_rest r' = [] \<Longrightarrow> bs = v"
  by (drule consumes_rest) simp

lemma consumes_Nil: "rd_ok r \<Longrightarrow> consumes r [] r"
  by (simp add: consumes_def)

lemma consumes_append:
  "consumes r (a @ b) r' \<Longrightarrow>
    consumes r a (rd_skip r (length a)) \<and> consumes (rd_skip r (length a)) b r'"
  by (auto simp: consumes_def)

lemma reader_take_consumes:
  "rd_ok r \<Longrightarrow> reader_take r n = Inr (v, r') \<Longrightarrow> consumes r v r' \<and> length v = n"
  by (auto simp: reader_take_eq consumes_def split: if_splits)
    (metis append_take_drop_id)

text \<open>The contract of a self-delimiting field: decoding what was encoded gives the value back
  and stops right behind it, and nothing else decodes to that value.\<close>

locale field_codec =
  fixes enc :: "'v \<Rightarrow> bytes"
    and dec :: "reader \<Rightarrow> ('v \<times> reader) codec_result"
  assumes dec_enc: "rd_ok r \<Longrightarrow> rd_rest r = enc v @ xs \<Longrightarrow> dec r = Inr (v, rd_skip r (length (enc v)))"
    and enc_dec: "rd_ok r \<Longrightarrow> dec r = Inr (v, r') \<Longrightarrow>
      \<exists>xs. rd_rest r = enc v @ xs \<and> r' = rd_skip r (length (enc v))"
begin

lemma dec_ok: "rd_ok r \<Longrightarrow> dec r = Inr (v, r') \<Longrightarrow> rd_ok r'"
  using enc_dec[of r v r'] by auto

lemma dec_consumes: "rd_ok r \<Longrightarrow> dec r = Inr (v, r') \<Longrightarrow> consumes r (enc v) r'"
  using enc_dec[of r v r'] by (auto simp: consumes_def)

lemma consumes_dec: "consumes r (enc v) r' \<Longrightarrow> dec r = Inr (v, r')"
  using dec_enc[of r v] by (auto simp: consumes_def)

lemma enc_prefix_free:
  assumes eq: "enc v @ xs = enc w @ ys" and ok: "slice_ok (enc v @ xs)"
  shows "v = w" "xs = ys"
proof -
  let ?r = "reader_new (enc v @ xs)"
  have "rd_ok ?r" using ok by simp
  moreover have "rd_rest ?r = enc v @ xs" by simp
  moreover have "rd_rest ?r = enc w @ ys" using eq by simp
  ultimately have "(v, rd_skip ?r (length (enc v))) = (w, rd_skip ?r (length (enc w)))"
    using dec_enc by (metis sum.inject(2))
  then show "v = w" by simp
  with eq show "xs = ys" by simp
qed

end

interpretation u8_field: field_codec "\<lambda>b. [b]" reader_u8
  by unfold_locales (auto simp: reader_u8_eq split: list.splits)

lemma split_at: "\<exists>ys. xs = take n xs @ ys"
  by (rule exI[of _ "drop n xs"]) simp

lemma le_bytes_take:
  assumes "n \<le> length xs" "8 * n = LENGTH('a::len)"
  shows "le_bytes n (from_le (take n xs) :: 'a word) = take n xs"
  using assms by (intro le_bytes_from_le) auto

interpretation u16_field: field_codec "le_bytes 2" reader_u16
  by unfold_locales (auto simp: reader_u16_eq le_bytes_take split_at split: if_splits)

interpretation u32_field: field_codec "le_bytes 4" reader_u32
  by unfold_locales (auto simp: reader_u32_eq le_bytes_take split_at split: if_splits)

interpretation u64_field: field_codec "le_bytes 8" reader_u64
  by unfold_locales (auto simp: reader_u64_eq le_bytes_take split_at split: if_splits)

interpretation var_u32_field: field_codec "var_bytes" reader_var_u32
proof
  fix r xs and v :: u32
  assume r: "rd_ok r" "rd_rest r = var_bytes v @ xs"
  show "reader_var_u32 r = Inr (v, rd_skip r (length (var_bytes v)))"
    using var_groups_decode[OF var_shape_u32, of 0 v r xs] r
    by (simp add: reader_var_u32_def numeral_eq_Suc)
next
  fix r r' and v :: u32
  assume r: "rd_ok r" "reader_var_u32 r = Inr (v, r')"
  then show "\<exists>xs. rd_rest r = var_bytes v @ xs \<and> r' = rd_skip r (length (var_bytes v))"
    using var_groups_canonical[OF var_shape_u32, of 0 r _ 0 v r']
    by (auto simp: reader_var_u32_def numeral_eq_Suc)
qed

interpretation var_u64_field: field_codec "var_bytes" reader_var_u64
proof
  fix r xs and v :: u64
  assume r: "rd_ok r" "rd_rest r = var_bytes v @ xs"
  show "reader_var_u64 r = Inr (v, rd_skip r (length (var_bytes v)))"
    using var_groups_decode[OF var_shape_u64, of 0 v r xs] r
    by (simp add: reader_var_u64_def numeral_eq_Suc)
next
  fix r r' and v :: u64
  assume r: "rd_ok r" "reader_var_u64 r = Inr (v, r')"
  then show "\<exists>xs. rd_rest r = var_bytes v @ xs \<and> r' = rd_skip r (length (var_bytes v))"
    using var_groups_canonical[OF var_shape_u64, of 0 r _ 0 v r']
    by (auto simp: reader_var_u64_def numeral_eq_Suc)
qed

lemma reader_finish_Inr: "reader_finish r = Inr u \<longleftrightarrow> rd_rest r = []"
  by (auto simp: reader_finish_eq)

section \<open>Properties\<close>

text \<open>C33: a 32-bit value written as a variable-length integer reads back as itself, the reader
  stops right behind it, and the length the source computes in constant time is the length
  written, at most five bytes.\<close>

theorem var_u32_round_trip:
  assumes "wr_ok w" "var_u32_len v \<le> wr_room w"
  shows "\<exists>w'. writer_var_u32 w v = Inr w' \<and> wr_offset w' = wr_offset w + var_u32_len v \<and>
    var_u32_len v \<le> 5 \<and>
    reader_var_u32 \<lparr>rd_bytes = wr_bytes w', rd_offset = wr_offset w\<rparr> =
      Inr (v, \<lparr>rd_bytes = wr_bytes w', rd_offset = wr_offset w'\<rparr>)"
proof -
  let ?w = "wr_append w (var_bytes v)"
  let ?r = "\<lparr>rd_bytes = wr_bytes ?w, rd_offset = wr_offset w\<rparr>"
  have room: "length (var_bytes v) \<le> wr_room w" using assms(2) by (simp add: var_u32_len_length)
  have "wr_ok ?w" using assms(1) room by simp
  then have ok: "rd_ok ?r" by (simp add: rd_ok_def wr_ok_def)
  have "rd_rest ?r = var_bytes v @ drop (wr_offset w + length (var_bytes v)) (wr_bytes w)"
    using assms(1) by (simp add: rd_rest_def wr_append_def wr_ok_def)
  from var_u32_field.dec_enc[OF ok this]
  show ?thesis
    using assms(1) room length_var_u32_le[of v]
    by (auto simp: writer_var_u32_def writer_put_eq var_u32_len_length rd_skip_def)
qed

theorem var_u32_round_trip_witness:
  "\<exists>w'. writer_var_u32 (writer_new [0, 0, 0]) 300 = Inr w' \<and>
    reader_var_u32 \<lparr>rd_bytes = wr_bytes w', rd_offset = 0\<rparr> =
      Inr (300, \<lparr>rd_bytes = wr_bytes w', rd_offset = wr_offset w'\<rparr>)"
proof -
  have "length (var_bytes (300 :: u32)) \<le> 2" using length_var_bytes_le[of 2 "300 :: u32"] by simp
  then have "var_u32_len 300 \<le> wr_room (writer_new [0, 0, 0])" by (simp add: var_u32_len_length)
  from var_u32_round_trip[OF _ this] show ?thesis by (auto simp: slice_ok_def)
qed

text \<open>The variable-length format is canonical: a byte sequence that decodes to a value is
  the one the encoder writes for it, so no two encodings share a value.\<close>

theorem var_u32_canonical:
  assumes "reader_var_u32 (reader_new bs) = Inr (v, r)" "slice_ok bs"
  shows "writer_var_u32 (writer_new bs) v = Inr \<lparr>wr_bytes = bs, wr_offset = rd_offset r\<rparr>"
proof -
  obtain xs where x: "bs = var_bytes v @ xs" "r = rd_skip (reader_new bs) (length (var_bytes v))"
    using var_u32_field.enc_dec[OF _ assms(1)] assms(2) by auto
  moreover have "writer_var_u32 (writer_new bs) v = Inr (wr_append (writer_new bs) (var_bytes v))"
    using x(1) assms(2) by (simp add: writer_var_u32_def writer_put_eq)
  ultimately show ?thesis by (simp add: wr_append_def writer_new_def)
qed

theorem var_u32_canonical_witness:
  "writer_var_u32 (writer_new [0xAC, 2, 9]) 300 = Inr \<lparr>wr_bytes = [0xAC, 2, 9], wr_offset = 2\<rparr>"
proof -
  have "var_bytes (300 :: u32) = [0xAC, 2]" by (simp add: var_bytes.simps drop_bit_eq_div Let_def)
  then have "reader_var_u32 (reader_new [0xAC, 2, 9]) =
      Inr (300, \<lparr>rd_bytes = [0xAC, 2, 9], rd_offset = Suc (Suc 0)\<rparr>)"
    using var_u32_field.dec_enc[of "reader_new [0xAC, 2, 9]" 300 "[9]"]
    by (simp add: slice_ok_def rd_skip_def reader_new_def rd_ok_def rd_rest_def)
  from var_u32_canonical[OF this]
  have "writer_var_u32 (writer_new [0xAC, 2, 9]) 300 =
      Inr \<lparr>wr_bytes = [0xAC, 2, 9], wr_offset = Suc (Suc 0)\<rparr>" by (simp add: slice_ok_def)
  then show ?thesis by (simp add: numeral_2_eq_2)
qed

end
