(* ===== verification/Identity.thy ===== *)
theory Identity
  imports Errors
begin

text \<open>
  Physical coordinates and identifiers (crates/pin-core/src/identity.rs). The \<open>NonZero\<close> types
  of the source are plain words here; the constructors check what \<open>NonZero\<close> guarantees and
  the predicates \<open>layout_ok\<close>, \<open>tid_ok\<close>, \<open>id_ok\<close> state it.
\<close>

section \<open>Heap layouts and root coordinates\<close>

record heap_layout =
  max_offset :: u16

definition heap_layout_new :: "u16 \<Rightarrow> identity_error + heap_layout" where
  "heap_layout_new m =
     (if m > 512 then Inl InvalidLayout
      else if m = 0 then Inl InvalidLayout
      else Inr \<lparr>max_offset = m\<rparr>)"

definition layout_ok :: "heap_layout \<Rightarrow> bool" where
  "layout_ok l \<longleftrightarrow> max_offset l \<noteq> 0 \<and> max_offset l \<le> 512"

datatype root_tid = RootTid (tid_block: u32) (tid_offset: u16)

definition root_tid_new :: "u32 \<Rightarrow> u16 \<Rightarrow> heap_layout \<Rightarrow> identity_error + root_tid" where
  "root_tid_new block offset layout =
     (if block = 0xFFFFFFFF then Inl InvalidBlock
      else if offset > max_offset layout then Inl InvalidOffset
      else if offset = 0 then Inl InvalidOffset
      else Inr (RootTid block offset))"

definition tid_ok :: "heap_layout \<Rightarrow> root_tid \<Rightarrow> bool" where
  "tid_ok l t \<longleftrightarrow> tid_block t \<noteq> 0xFFFFFFFF \<and> tid_offset t \<noteq> 0 \<and> tid_offset t \<le> max_offset l"

text \<open>\<open>RootTid::key\<close>: \<open>(block as u64) << 16 | offset as u64\<close>.\<close>

definition tid_key :: "root_tid \<Rightarrow> u64" where
  "tid_key t = push_bit 16 (ucast (tid_block t)) OR ucast (tid_offset t)"

text \<open>The derived \<open>Ord\<close>: block first, then offset.\<close>

instantiation root_tid :: linorder
begin

definition less_root_tid :: "root_tid \<Rightarrow> root_tid \<Rightarrow> bool" where
  "less_root_tid a b \<longleftrightarrow>
     tid_block a < tid_block b \<or> (tid_block a = tid_block b \<and> tid_offset a < tid_offset b)"

definition less_eq_root_tid :: "root_tid \<Rightarrow> root_tid \<Rightarrow> bool" where
  "less_eq_root_tid a b \<longleftrightarrow>
     tid_block a < tid_block b \<or> (tid_block a = tid_block b \<and> tid_offset a \<le> tid_offset b)"

instance
proof
  fix a b c :: root_tid
  show "(a < b) = (a \<le> b \<and> \<not> b \<le> a)"
    by (auto simp: less_root_tid_def less_eq_root_tid_def)
  show "a \<le> a" by (simp add: less_eq_root_tid_def)
  show "a \<le> b \<Longrightarrow> b \<le> c \<Longrightarrow> a \<le> c"
    by (auto simp: less_eq_root_tid_def)
  show "a \<le> b \<Longrightarrow> b \<le> a \<Longrightarrow> a = b"
    by (auto simp: less_eq_root_tid_def root_tid.expand)
  show "a \<le> b \<or> b \<le> a"
    by (auto simp: less_eq_root_tid_def)
qed

end

datatype visible_tid = VisibleTid root_tid

definition visible_tid_new :: "u32 \<Rightarrow> u16 \<Rightarrow> heap_layout \<Rightarrow> identity_error + visible_tid" where
  "visible_tid_new block offset layout =
     (case root_tid_new block offset layout of
        Inr tid \<Rightarrow> Inr (VisibleTid tid)
      | Inl e \<Rightarrow> Inl e)"

section \<open>Identifiers\<close>

text \<open>\<open>SegmentId\<close>, \<open>Incarnation\<close> and \<open>Generation\<close> are three instances of one macro.\<close>

type_synonym segment_id = u64
type_synonym incarnation = u64
type_synonym generation = u64

definition id_ok :: "u64 \<Rightarrow> bool" where
  "id_ok v \<longleftrightarrow> v \<noteq> 0"

definition identifier_new :: "u64 \<Rightarrow> identity_error + u64" where
  "identifier_new value = (if value = 0 then Inl ZeroIdentifier else Inr value)"

definition identifier_next :: "u64 \<Rightarrow> identity_error + u64" where
  "identifier_next self =
     (case checked_add_w self 1 of
        Some nxt \<Rightarrow> identifier_new nxt
      | None \<Rightarrow> Inl GenerationExhausted)"

record relation_generation =
  rg_database :: u32
  rg_tablespace :: u32
  rg_relfilenumber :: u32
  rg_generation :: generation

definition relation_generation_new ::
  "u32 \<Rightarrow> u32 \<Rightarrow> u32 \<Rightarrow> generation \<Rightarrow> identity_error + relation_generation" where
  "relation_generation_new database tablespace relfilenumber gen =
     (if database \<noteq> 0 \<and> tablespace \<noteq> 0 \<and> relfilenumber \<noteq> 0
      then Inr \<lparr>rg_database = database, rg_tablespace = tablespace,
                rg_relfilenumber = relfilenumber, rg_generation = gen\<rparr>
      else Inl ZeroIdentifier)"

record document_ref =
  dr_relation :: relation_generation
  dr_segment :: segment_id
  dr_incarnation :: incarnation
  dr_root :: root_tid

section \<open>Lemmas\<close>

lemma heap_layout_new_ok: "heap_layout_new m = Inr l \<Longrightarrow> layout_ok l \<and> max_offset l = m"
  by (auto simp: heap_layout_new_def layout_ok_def split: if_splits)

lemma heap_layout_new_Inr: "layout_ok l \<Longrightarrow> heap_layout_new (max_offset l) = Inr l"
  by (auto simp: heap_layout_new_def layout_ok_def)

lemma root_tid_new_iff:
  "root_tid_new b off l = Inr t \<longleftrightarrow> t = RootTid b off \<and> tid_ok l t"
  by (auto simp: root_tid_new_def tid_ok_def)

lemma root_tid_new_Inr: "tid_ok l t \<Longrightarrow> root_tid_new (tid_block t) (tid_offset t) l = Inr t"
  by (simp add: root_tid_new_iff)

lemma identifier_new_iff: "identifier_new v = Inr w \<longleftrightarrow> w = v \<and> id_ok v"
  by (auto simp: identifier_new_def id_ok_def)

lemma bit_tid_key:
  "bit (tid_key t) k \<longleftrightarrow>
     (if k < 16 then bit (tid_offset t) k else k < 64 \<and> bit (tid_block t) (k - 16))"
  by (auto simp: tid_key_def bit_or_iff bit_push_bit_iff bit_ucast_iff dest: bit_imp_le_length)

lemma unat_tid_key: "unat (tid_key t) = unat (tid_block t) * 2 ^ 16 + unat (tid_offset t)"
proof -
  have "push_bit 16 (ucast (tid_block t)) AND (ucast (tid_offset t) :: u64) = 0"
    by (rule bit_word_eqI)
      (auto simp: bit_and_iff bit_push_bit_iff bit_ucast_iff dest: bit_imp_le_length)
  then have "tid_key t = push_bit 16 (ucast (tid_block t)) + ucast (tid_offset t)"
    by (simp add: tid_key_def disjunctive_add_eq_or)
  moreover have "unat (push_bit 16 (ucast (tid_block t) :: u64)) = unat (tid_block t) * 2 ^ 16"
  proof -
    have "unat (tid_block t) * 2 ^ 16 < 2 ^ 64" using unat_u32_lt[of "tid_block t"] by simp
    then show ?thesis
      by (simp add: push_bit_eq_mult unat_word_ariths unat_ucast_up)
  qed
  moreover have "unat (ucast (tid_offset t) :: u64) = unat (tid_offset t)"
    by (simp add: unat_ucast_up)
  moreover have "unat (tid_block t) * 2 ^ 16 + unat (tid_offset t) < 2 ^ 64"
    using unat_u16_lt[of "tid_offset t"] unat_u32_lt[of "tid_block t"] by simp
  ultimately show ?thesis
    by (simp add: unat_word_ariths)
qed

lemma tid_key_less_iff: "tid_key a < tid_key b \<longleftrightarrow> a < b"
proof -
  have "unat (tid_offset a) < 2 ^ 16" "unat (tid_offset b) < 2 ^ 16"
    using unat_u16_lt[of "tid_offset a"] unat_u16_lt[of "tid_offset b"] by simp_all
  then show ?thesis
    by (auto simp: word_less_nat_alt word_unat_eq_iff unat_tid_key less_root_tid_def)
qed

section \<open>Properties\<close>

text \<open>The packed 48-bit key of a coordinate orders coordinates exactly as the derived
  lexicographic order does and is injective, so an index sorted by keys is sorted by coordinates.\<close>

theorem tid_key_order:
  "(tid_key a < tid_key b \<longleftrightarrow> a < b) \<and> (tid_key a = tid_key b \<longleftrightarrow> a = b)"
  using tid_key_less_iff[of a b] tid_key_less_iff[of b a]
  by (metis less_irrefl linorder_neqE)

text \<open>C35: the successor of an identifier is larger and nonzero, or the identifiers are
  exhausted and the call fails: identifiers never wrap around and are never reused.\<close>

theorem identifier_next_fresh:
  "(case identifier_next v of
      Inr w \<Rightarrow> unat w = unat v + 1 \<and> id_ok w
    | Inl e \<Rightarrow> unat v = 2 ^ 64 - 1 \<and> e = GenerationExhausted)"
proof (cases "unat v + 1 < 2 ^ 64")
  case True
  then have "unat (v + 1) = unat v + 1" by (simp add: unat_word_ariths)
  then have "v + 1 \<noteq> 0" by (metis add_is_0 one_neq_zero unat_0)
  with True \<open>unat (v + 1) = _\<close> show ?thesis
    by (simp add: identifier_next_def checked_add_w_def identifier_new_def id_ok_def)
next
  case False
  then have "unat v = 2 ^ 64 - 1" using unat_lt2p[of v] by simp
  with False show ?thesis by (simp add: identifier_next_def checked_add_w_def)
qed

end
