(* ===== verification/Records.thy ===== *)
theory Records
  imports Bytes Identity
begin

text \<open>
  Versioned payload records (crates/pin-core/src/codec/records.rs): the common frame, document
  records, nullable text values and source manifests. An encoder returns the number of bytes
  written together with the output slice it leaves behind.
\<close>

section \<open>Frames\<close>

definition HEADER_BYTES :: nat where
  "HEADER_BYTES = 16"

definition FORMAT_VERSION :: u16 where
  "FORMAT_VERSION = 1"

text \<open>\<open>b"PIN1"\<close>.\<close>

definition PIN1 :: bytes where
  "PIN1 = [0x50, 0x49, 0x4E, 0x31]"

definition payload :: "bytes \<Rightarrow> u8 \<Rightarrow> nat \<Rightarrow> bytes codec_result" where
  "payload bs kind max_bytes =
     (if length bs > max_bytes then codec_fail 0 LimitExceeded
      else
      and_then (reader_take (reader_new bs) 4) (\<lambda>(magic, reader).
      if magic \<noteq> PIN1 then codec_fail 0 BadMagic else
      and_then (reader_u8 reader) (\<lambda>(k, reader).
      if k \<noteq> kind then codec_fail 4 UnknownTag else
      and_then (reader_u8 reader) (\<lambda>(z, reader).
      if z \<noteq> 0 then codec_fail 5 NonCanonical else
      and_then (reader_u16 reader) (\<lambda>(version, reader).
      if version \<noteq> FORMAT_VERSION then codec_fail 6 UnsupportedVersion else
      and_then (reader_u32 reader) (\<lambda>(features, reader).
      if features \<noteq> 0 then codec_fail 8 UnsupportedFeatures else
      and_then (reader_u32 reader) (\<lambda>(len, reader).
      and_then (reader_take reader (unat len)) (\<lambda>(res, reader).
      and_then (reader_finish reader) (\<lambda>_. Inr res)))))))))"

definition start :: "bytes \<Rightarrow> u8 \<Rightarrow> nat \<Rightarrow> writer codec_result" where
  "start output kind len =
     and_then (ok_or (CodecError 0 Overflow) (checked_add len HEADER_BYTES)) (\<lambda>total.
     and_then (ok_or (CodecError 0 Overflow) (u32_try_from len)) (\<lambda>len.
     if length output < total then codec_fail 0 Truncated else
     and_then (writer_put (writer_new output) PIN1) (\<lambda>writer.
     and_then (writer_u8 writer kind) (\<lambda>writer.
     and_then (writer_u8 writer 0) (\<lambda>writer.
     and_then (writer_u16 writer FORMAT_VERSION) (\<lambda>writer.
     and_then (writer_u32 writer 0) (\<lambda>writer.
     and_then (writer_u32 writer len) (\<lambda>writer. Inr writer))))))))"

section \<open>Document records\<close>

datatype publication = Allocated | FragmentsWritten | Published | Abandoned

record document_record =
  doc_segment :: segment_id
  doc_incarnation :: incarnation
  doc_root :: root_tid
  doc_token_count :: u32
  doc_profile :: u32
  doc_publication :: publication
  doc_live :: bool

definition document_record_ENCODED_BYTES :: nat where
  "document_record_ENCODED_BYTES = HEADER_BYTES + 36"

definition document_record_validate :: "document_record \<Rightarrow> unit codec_result" where
  "document_record_validate self =
     (if doc_profile self = 0 \<or> (doc_live self \<and> doc_publication self \<noteq> Published)
      then codec_fail 0 InvalidValue else Inr ())"

fun publication_tag :: "publication \<Rightarrow> u8" where
  "publication_tag Allocated = 0"
| "publication_tag FragmentsWritten = 1"
| "publication_tag Published = 2"
| "publication_tag Abandoned = 3"

definition publication_of_tag :: "u8 \<Rightarrow> publication option" where
  "publication_of_tag tag =
     (if tag = 0 then Some Allocated else if tag = 1 then Some FragmentsWritten
      else if tag = 2 then Some Published else if tag = 3 then Some Abandoned else None)"

definition bool_tag :: "bool \<Rightarrow> u8" where
  "bool_tag b = (if b then 1 else 0)"

definition document_record_encode :: "document_record \<Rightarrow> bytes \<Rightarrow> (nat \<times> bytes) codec_result" where
  "document_record_encode self output =
     and_then (document_record_validate self) (\<lambda>_.
     and_then (start output 1 36) (\<lambda>writer.
     and_then (writer_u64 writer (doc_segment self)) (\<lambda>writer.
     and_then (writer_u64 writer (doc_incarnation self)) (\<lambda>writer.
     and_then (writer_u32 writer (tid_block (doc_root self))) (\<lambda>writer.
     and_then (writer_u16 writer (tid_offset (doc_root self))) (\<lambda>writer.
     and_then (writer_u16 writer 0) (\<lambda>writer.
     and_then (writer_u32 writer (doc_token_count self)) (\<lambda>writer.
     and_then (writer_u32 writer (doc_profile self)) (\<lambda>writer.
     and_then (writer_u8 writer (publication_tag (doc_publication self))) (\<lambda>writer.
     and_then (writer_u8 writer (bool_tag (doc_live self))) (\<lambda>writer.
     and_then (writer_u16 writer 0) (\<lambda>writer.
       Inr (wr_offset writer, wr_bytes writer)))))))))))))"

definition document_record_parse :: "bytes \<Rightarrow> heap_layout \<Rightarrow> document_record codec_result" where
  "document_record_parse bs layout =
     and_then (payload bs 1 document_record_ENCODED_BYTES) (\<lambda>body.
     and_then (reader_u64 (reader_new body)) (\<lambda>(v, reader).
     and_then (map_err (\<lambda>_. CodecError 0 InvalidValue) (identifier_new v)) (\<lambda>segment.
     and_then (reader_u64 reader) (\<lambda>(v, reader).
     and_then (map_err (\<lambda>_. CodecError 8 InvalidValue) (identifier_new v)) (\<lambda>incarnation.
     and_then (reader_u32 reader) (\<lambda>(block, reader).
     and_then (reader_u16 reader) (\<lambda>(offset, reader).
     and_then (map_err (\<lambda>_. CodecError 16 InvalidValue) (root_tid_new block offset layout)) (\<lambda>root.
     and_then (reader_u16 reader) (\<lambda>(z, reader).
     if z \<noteq> 0 then codec_fail 22 NonCanonical else
     and_then (reader_u32 reader) (\<lambda>(token_count, reader).
     and_then (reader_u32 reader) (\<lambda>(profile, reader).
     and_then (reader_u8 reader) (\<lambda>(tag, reader).
     and_then (ok_or (CodecError 32 UnknownTag) (publication_of_tag tag)) (\<lambda>publication.
     and_then (reader_u8 reader) (\<lambda>(l, reader).
     and_then (if l = 0 then Inr False else if l = 1 then Inr True
               else codec_fail 33 InvalidValue) (\<lambda>live.
     and_then (reader_u16 reader) (\<lambda>(z, reader).
     if z \<noteq> 0 then codec_fail 34 NonCanonical else
     and_then (reader_finish reader) (\<lambda>_.
     let rec = \<lparr>doc_segment = segment, doc_incarnation = incarnation, doc_root = root,
                doc_token_count = token_count, doc_profile = profile,
                doc_publication = publication, doc_live = live\<rparr> in
     and_then (document_record_validate rec) (\<lambda>_. Inr rec))))))))))))))))))"

section \<open>Nullable text\<close>

definition decode_value :: "bytes \<Rightarrow> nat \<Rightarrow> str option codec_result" where
  "decode_value bs max_bytes =
     and_then (payload bs 2 max_bytes) (\<lambda>body.
     and_then (reader_u8 (reader_new body)) (\<lambda>(tag, reader).
     and_then
       (if tag = 0 then Inr (None, reader)
        else if tag = 1 then
          and_then (reader_u32 reader) (\<lambda>(len, reader).
          and_then (reader_take reader (unat len)) (\<lambda>(text, reader).
          and_then (from_utf8 (CodecError 5 InvalidUtf8) text) (\<lambda>text.
            Inr (Some text, reader))))
        else codec_fail 0 UnknownTag) (\<lambda>(res, reader).
     and_then (reader_finish reader) (\<lambda>_. Inr res))))"

definition encode_value :: "str option \<Rightarrow> bytes \<Rightarrow> nat \<Rightarrow> (nat \<times> bytes) codec_result" where
  "encode_value v output max_bytes =
     and_then (case v of None \<Rightarrow> Inr 1
               | Some text \<Rightarrow> ok_or (CodecError 0 Overflow) (checked_add (length text) 5)) (\<lambda>len.
     if (case checked_add len HEADER_BYTES of None \<Rightarrow> True | Some n \<Rightarrow> n > max_bytes)
     then codec_fail 0 LimitExceeded else
     and_then (start output 2 len) (\<lambda>writer.
     and_then (case v of None \<Rightarrow> writer_u8 writer 0
               | Some text \<Rightarrow>
                   and_then (writer_u8 writer 1) (\<lambda>writer.
                   and_then (ok_or (CodecError 0 Overflow) (u32_try_from (length text))) (\<lambda>n.
                   and_then (writer_u32 writer n) (\<lambda>writer.
                   writer_put writer text)))) (\<lambda>writer.
       Inr (wr_offset writer, wr_bytes writer))))"

section \<open>Source manifests\<close>

record manifest_source =
  src_id :: segment_id
  src_sealed :: bool

record manifest =
  mf_generation :: generation
  mf_entries :: bytes
  mf_count :: u32

definition manifest_source_at :: "manifest \<Rightarrow> u32 \<Rightarrow> manifest_source codec_result" where
  "manifest_source_at self index =
     (if index \<ge> mf_count self then codec_fail 0 InvalidValue else
      and_then (ok_or (CodecError 0 Overflow) (checked_mul (unat index) 16)) (\<lambda>offset.
      and_then (reader_u64 (reader_new (take 16 (drop offset (mf_entries self))))) (\<lambda>(v, reader).
      and_then (map_err (\<lambda>_. CodecError offset InvalidValue) (identifier_new v)) (\<lambda>id.
      and_then (reader_u8 reader) (\<lambda>(tag, reader).
      and_then (if tag = 0 then Inr False else if tag = 1 then Inr True
                else codec_fail (offset + 8) UnknownTag) (\<lambda>sealed.
      and_then (reader_take reader 7) (\<lambda>(pad, reader).
      if list_ex (\<lambda>b. b \<noteq> 0) pad then codec_fail (offset + 9) NonCanonical
      else Inr \<lparr>src_id = id, src_sealed = sealed\<rparr>)))))))"

text \<open>The validation loop of \<open>Manifest::parse\<close>: source identifiers ascend strictly.\<close>

definition manifest_check_step :: "manifest \<Rightarrow> u64 \<Rightarrow> nat \<Rightarrow> u64 codec_result" where
  "manifest_check_step view previous index =
     and_then (manifest_source_at view (of_nat index)) (\<lambda>source.
     if src_id source \<le> previous then codec_fail 12 InvalidOrder else Inr (src_id source))"

definition manifest_parse :: "bytes \<Rightarrow> u32 \<Rightarrow> nat \<Rightarrow> manifest codec_result" where
  "manifest_parse bs max_sources max_bytes =
     and_then (payload bs 4 max_bytes) (\<lambda>body.
     and_then (reader_u64 (reader_new body)) (\<lambda>(v, reader).
     and_then (map_err (\<lambda>_. CodecError 0 InvalidValue) (identifier_new v)) (\<lambda>generation.
     and_then (reader_u32 reader) (\<lambda>(count, reader).
     if count > max_sources then codec_fail 8 LimitExceeded else
     and_then (reader_take reader (reader_remaining reader)) (\<lambda>(entries, reader).
     if length entries \<noteq> unat count * 16 then codec_fail 12 InvalidValue else
     let view = \<lparr>mf_generation = generation, mf_entries = entries, mf_count = count\<rparr> in
     and_then (try_fold (manifest_check_step view) 0 [0..<unat count]) (\<lambda>_. Inr view))))))"

definition encode_manifest_check :: "u64 \<Rightarrow> manifest_source \<Rightarrow> u64 codec_result" where
  "encode_manifest_check previous source =
     (if src_id source \<le> previous then codec_fail 0 InvalidOrder else Inr (src_id source))"

definition encode_manifest_source :: "writer \<Rightarrow> manifest_source \<Rightarrow> writer codec_result" where
  "encode_manifest_source writer source =
     and_then (writer_u64 writer (src_id source)) (\<lambda>writer.
     and_then (writer_u8 writer (bool_tag (src_sealed source))) (\<lambda>writer.
     writer_put writer (replicate 7 0)))"

definition encode_manifest ::
  "generation \<Rightarrow> manifest_source list \<Rightarrow> bytes \<Rightarrow> u32 \<Rightarrow> (nat \<times> bytes) codec_result" where
  "encode_manifest generation sources output max_sources =
     and_then (ok_or (CodecError 0 LimitExceeded) (u32_try_from (length sources))) (\<lambda>count.
     if count > max_sources then codec_fail 0 LimitExceeded else
     and_then (try_fold encode_manifest_check 0 sources) (\<lambda>_.
     and_then (ok_or (CodecError 0 Overflow)
       (Option.bind (checked_mul (length sources) 16) (\<lambda>n. checked_add n 12))) (\<lambda>len.
     and_then (start output 4 len) (\<lambda>writer.
     and_then (writer_u64 writer generation) (\<lambda>writer.
     and_then (writer_u32 writer count) (\<lambda>writer.
     and_then (try_fold encode_manifest_source writer sources) (\<lambda>writer.
       Inr (wr_offset writer, wr_bytes writer))))))))"

section \<open>The frame round trip\<close>

definition frame_header :: "u8 \<Rightarrow> nat \<Rightarrow> bytes" where
  "frame_header kind len =
     PIN1 @ [kind, 0] @ le_bytes 2 FORMAT_VERSION @ le_bytes 4 (0 :: u32) @ le_bytes 4 (of_nat len :: u32)"

definition frame :: "u8 \<Rightarrow> bytes \<Rightarrow> bytes" where
  "frame kind body = frame_header kind (length body) @ body"

lemma length_PIN1 [simp]: "length PIN1 = 4"
  by (simp add: PIN1_def)

lemma length_frame_header [simp]: "length (frame_header kind len) = 16"
  by (simp add: frame_header_def)

lemma length_frame [simp]: "length (frame kind body) = 16 + length body"
  by (simp add: frame_def)

lemma usize_small: "n \<le> 2 ^ 63 \<Longrightarrow> n \<le> usize_max"
  by (simp add: usize_max_def)

lemma start_eq:
  assumes "len < 2 ^ 32" "slice_ok output" "16 + len \<le> length output"
  shows "start output kind len = Inr (wr_append (writer_new output) (frame_header kind len))"
  using assms usize_small[of "len + 16"]
  by (simp add: start_def checked_add_def u32_try_from_def HEADER_BYTES_def codec_simps
      frame_header_def)

lemma start_Inr:
  assumes "start output kind len = Inr w" "slice_ok output"
  shows "len < 2 ^ 32" "16 + len \<le> length output"
    "w = wr_append (writer_new output) (frame_header kind len)"
proof -
  show l: "len < 2 ^ 32" "16 + len \<le> length output"
    using assms(1) by (auto simp: start_def res_simps u32_try_from_def checked_add_def
        HEADER_BYTES_def split: if_splits)
  show "w = wr_append (writer_new output) (frame_header kind len)"
    using assms start_eq[OF l(1) assms(2) l(2)] by simp
qed

lemma payload_frame:
  assumes "length body < 2 ^ 32" "16 + length body \<le> max_bytes"
  shows "payload (frame kind body) kind max_bytes = Inr body"
proof -
  have "slice_ok (frame kind body)" using assms(1) by (simp add: slice_ok_def)
  then show ?thesis using assms
    by (simp add: payload_def codec_simps frame_def frame_header_def unat_u32_of_nat
        FORMAT_VERSION_def PIN1_def)
qed

text \<open>Only frames have a payload: the frame layout is canonical.\<close>

lemma payload_Inr:
  assumes p: "payload bs kind max_bytes = Inr body" and ok: "slice_ok bs"
  shows "bs = frame kind body" "length bs \<le> max_bytes" "length body < 2 ^ 32"
proof -
  show "length bs \<le> max_bytes" using p by (auto simp: payload_def split: if_splits)
  from p obtain r1 r2 r3 r4 r5 r6 r7 :: reader and len :: u32 where
    r: "reader_take (reader_new bs) 4 = Inr (PIN1, r1)" "reader_u8 r1 = Inr (kind, r2)"
      "reader_u8 r2 = Inr (0, r3)" "reader_u16 r3 = Inr (FORMAT_VERSION, r4)"
      "reader_u32 r4 = Inr (0, r5)" "reader_u32 r5 = Inr (len, r6)"
      "reader_take r6 (unat len) = Inr (body, r7)" "rd_rest r7 = []"
    by (auto simp: payload_def res_simps reader_finish_Inr split: if_splits prod.splits)
  have c1: "consumes (reader_new bs) PIN1 r1"
    using reader_take_consumes[OF _ r(1)] ok by simp
  have c2: "consumes r1 [kind] r2" using u8_field.dec_consumes[OF consumes_ok[OF c1] r(2)] .
  have c3: "consumes r2 [0] r3" using u8_field.dec_consumes[OF consumes_ok[OF c2] r(3)] .
  have c4: "consumes r3 (le_bytes 2 FORMAT_VERSION) r4"
    using u16_field.dec_consumes[OF consumes_ok[OF c3] r(4)] .
  have c5: "consumes r4 (le_bytes 4 (0 :: u32)) r5"
    using u32_field.dec_consumes[OF consumes_ok[OF c4] r(5)] .
  have c6: "consumes r5 (le_bytes 4 len) r6"
    using u32_field.dec_consumes[OF consumes_ok[OF c5] r(6)] .
  have c7: "consumes r6 body r7" "length body = unat len"
    using reader_take_consumes[OF consumes_ok[OF c6] r(7)] by auto
  show "length body < 2 ^ 32" using c7(2) unat_u32_lt[of len] by simp
  have "len = of_nat (length body)" using c7(2) by simp
  moreover note consumes_all[OF consumes_trans[OF c1 consumes_trans[OF c2 consumes_trans[OF c3
    consumes_trans[OF c4 consumes_trans[OF c5 consumes_trans[OF c6 c7(1)]]]]]] r(8)]
  ultimately show "bs = frame kind body" by (simp add: frame_def frame_header_def)
qed

section \<open>Document records round trip\<close>

definition document_bytes :: "document_record \<Rightarrow> bytes" where
  "document_bytes rec =
     le_bytes 8 (doc_segment rec) @ le_bytes 8 (doc_incarnation rec) @
     le_bytes 4 (tid_block (doc_root rec)) @ le_bytes 2 (tid_offset (doc_root rec)) @
     le_bytes 2 (0 :: u16) @ le_bytes 4 (doc_token_count rec) @ le_bytes 4 (doc_profile rec) @
     [publication_tag (doc_publication rec)] @ [bool_tag (doc_live rec)] @ le_bytes 2 (0 :: u16)"

text \<open>What the constructors of the source guarantee of a record and what \<open>validate\<close> checks.\<close>

definition document_ok :: "heap_layout \<Rightarrow> document_record \<Rightarrow> bool" where
  "document_ok layout rec \<longleftrightarrow>
     id_ok (doc_segment rec) \<and> id_ok (doc_incarnation rec) \<and> tid_ok layout (doc_root rec) \<and>
     doc_profile rec \<noteq> 0 \<and> (doc_live rec \<longrightarrow> doc_publication rec = Published)"

lemma length_document_bytes [simp]: "length (document_bytes rec) = 36"
  by (simp add: document_bytes_def)

lemma publication_of_tag_tag [simp]: "publication_of_tag (publication_tag p) = Some p"
  by (cases p) (simp_all add: publication_of_tag_def)

lemma publication_of_tag_Some: "publication_of_tag t = Some p \<longleftrightarrow> t = publication_tag p"
  by (cases p) (auto simp: publication_of_tag_def split: if_splits)

lemma document_encode_eq:
  assumes "document_ok layout rec" "slice_ok output" "52 \<le> length output"
  shows "document_record_encode rec output =
    Inr (52, frame 1 (document_bytes rec) @ drop 52 output)"
proof -
  have "document_record_validate rec = Inr ()"
    using assms(1) by (auto simp: document_record_validate_def document_ok_def)
  moreover have "start output 1 36 = Inr (wr_append (writer_new output) (frame_header 1 36))"
    using assms by (intro start_eq) auto
  ultimately show ?thesis
    using assms(2,3) by (simp add: document_record_encode_def codec_simps frame_def document_bytes_def)
qed

lemma document_parse_bytes:
  assumes "document_ok layout rec"
  shows "document_record_parse (frame 1 (document_bytes rec)) layout = Inr rec"
proof -
  have p: "payload (frame 1 (document_bytes rec)) 1 document_record_ENCODED_BYTES =
      Inr (document_bytes rec)"
    by (rule payload_frame) (simp_all add: document_record_ENCODED_BYTES_def HEADER_BYTES_def)
  have ok: "slice_ok (document_bytes rec)" by (simp add: slice_ok_def)
  have v: "document_record_validate rec = Inr ()"
    using assms by (auto simp: document_record_validate_def document_ok_def)
  have ids: "identifier_new (doc_segment rec) = Inr (doc_segment rec)"
    "identifier_new (doc_incarnation rec) = Inr (doc_incarnation rec)"
    "root_tid_new (tid_block (doc_root rec)) (tid_offset (doc_root rec)) layout = Inr (doc_root rec)"
    using assms by (auto simp: document_ok_def identifier_new_iff root_tid_new_Inr)
  show ?thesis
    unfolding document_record_parse_def p
    using ok ids v
    by (cases rec) (auto simp: codec_simps document_bytes_def bool_tag_def Let_def)
qed

lemma document_parse_Inr:
  assumes p: "document_record_parse bs layout = Inr rec" and ok: "slice_ok bs"
  shows "bs = frame 1 (document_bytes rec)" "document_ok layout rec"
proof -
  from p obtain body where body: "payload bs 1 document_record_ENCODED_BYTES = Inr body"
    by (auto simp: document_record_parse_def res_simps)
  note bs = payload_Inr[OF body ok]
  have okb: "rd_ok (reader_new body)" using bs(3) by (simp add: slice_ok_def)
  from p obtain r1 r2 r3 r4 r5 r6 r7 r8 r9 r10 :: reader where
    r: "reader_u64 (reader_new body) = Inr (doc_segment rec, r1)"
      "reader_u64 r1 = Inr (doc_incarnation rec, r2)"
      "reader_u32 r2 = Inr (tid_block (doc_root rec), r3)"
      "reader_u16 r3 = Inr (tid_offset (doc_root rec), r4)"
      "reader_u16 r4 = Inr (0, r5)" "reader_u32 r5 = Inr (doc_token_count rec, r6)"
      "reader_u32 r6 = Inr (doc_profile rec, r7)"
      "reader_u8 r7 = Inr (publication_tag (doc_publication rec), r8)"
      "reader_u8 r8 = Inr (bool_tag (doc_live rec), r9)" "reader_u16 r9 = Inr (0, r10)"
      "rd_rest r10 = []"
    and good: "document_ok layout rec"
    by (auto simp: document_record_parse_def res_simps body reader_finish_Inr identifier_new_iff
        root_tid_new_iff publication_of_tag_Some document_record_validate_def document_ok_def
        bool_tag_def Let_def split: if_splits prod.splits)
  note c1 = u64_field.dec_consumes[OF okb r(1)]
  note c2 = u64_field.dec_consumes[OF consumes_ok[OF c1] r(2)]
  note c3 = u32_field.dec_consumes[OF consumes_ok[OF c2] r(3)]
  note c4 = u16_field.dec_consumes[OF consumes_ok[OF c3] r(4)]
  note c5 = u16_field.dec_consumes[OF consumes_ok[OF c4] r(5)]
  note c6 = u32_field.dec_consumes[OF consumes_ok[OF c5] r(6)]
  note c7 = u32_field.dec_consumes[OF consumes_ok[OF c6] r(7)]
  note c8 = u8_field.dec_consumes[OF consumes_ok[OF c7] r(8)]
  note c9 = u8_field.dec_consumes[OF consumes_ok[OF c8] r(9)]
  note c10 = u16_field.dec_consumes[OF consumes_ok[OF c9] r(10)]
  note consumes_all[OF consumes_trans[OF c1 consumes_trans[OF c2 consumes_trans[OF c3
    consumes_trans[OF c4 consumes_trans[OF c5 consumes_trans[OF c6 consumes_trans[OF c7
    consumes_trans[OF c8 consumes_trans[OF c9 c10]]]]]]]]] r(11)]
  then show "bs = frame 1 (document_bytes rec)" using bs(1) by (simp add: document_bytes_def)
  show "document_ok layout rec" by (rule good)
qed

section \<open>Nullable text round trip\<close>

definition value_body :: "str option \<Rightarrow> bytes" where
  "value_body v = (case v of None \<Rightarrow> [0] | Some t \<Rightarrow> [1] @ le_bytes 4 (of_nat (length t) :: u32) @ t)"

lemma encode_value_eq:
  assumes "16 + length (value_body v) \<le> max_bytes" "length (value_body v) < 2 ^ 32"
    and "slice_ok output" "16 + length (value_body v) \<le> length output"
  shows "encode_value v output max_bytes =
    Inr (16 + length (value_body v), frame 2 (value_body v) @ drop (16 + length (value_body v)) output)"
proof (cases v)
  case None
  then have "start output 2 1 = Inr (wr_append (writer_new output) (frame_header 2 1))"
    using assms by (intro start_eq) (simp_all add: value_body_def)
  then show ?thesis using None assms
    by (simp add: encode_value_def value_body_def checked_add_def usize_max_def HEADER_BYTES_def
        codec_simps frame_def)
next
  case (Some t)
  then have t: "length t + 5 < 2 ^ 32" "21 + length t \<le> max_bytes" "21 + length t \<le> length output"
    using assms by (auto simp: value_body_def)
  then have "start output 2 (length t + 5) =
      Inr (wr_append (writer_new output) (frame_header 2 (length t + 5)))"
    using assms by (intro start_eq) simp_all
  then show ?thesis using Some t assms
    by (simp add: encode_value_def value_body_def checked_add_def usize_max_def HEADER_BYTES_def
        codec_simps frame_def u32_try_from_def ac_simps)
qed

lemma encode_value_bounds:
  assumes e: "encode_value v output max_bytes = Inr r" and ok: "slice_ok output"
  shows "16 + length (value_body v) \<le> max_bytes" "length (value_body v) < 2 ^ 32"
    "16 + length (value_body v) \<le> length output"
proof -
  from e obtain w where "start output 2 (length (value_body v)) = Inr w"
    and "16 + length (value_body v) \<le> max_bytes"
    by (cases v) (auto simp: encode_value_def res_simps value_body_def checked_add_def
        HEADER_BYTES_def add.commute split: if_splits option.splits)
  with start_Inr(1,2)[OF _ ok] show "16 + length (value_body v) \<le> max_bytes"
    "length (value_body v) < 2 ^ 32" "16 + length (value_body v) \<le> length output" by auto
qed

lemma decode_value_frame:
  assumes "16 + length (value_body v) \<le> max_bytes" "length (value_body v) < 2 ^ 32"
    and "\<And>t. v = Some t \<Longrightarrow> utf8_valid t"
  shows "decode_value (frame 2 (value_body v)) max_bytes = Inr v"
proof -
  have p: "payload (frame 2 (value_body v)) 2 max_bytes = Inr (value_body v)"
    using assms by (intro payload_frame) auto
  have ok: "slice_ok (value_body v)" using assms(2) by (simp add: slice_ok_def)
  show ?thesis unfolding decode_value_def p
    using ok assms
    by (cases v) (auto simp: codec_simps value_body_def from_utf8_def unat_u32_of_nat)
qed

lemma decode_value_Inr:
  assumes d: "decode_value bs max_bytes = Inr v" and ok: "slice_ok bs"
  shows "bs = frame 2 (value_body v)" "length bs \<le> max_bytes" "v = Some t \<Longrightarrow> utf8_valid t"
proof -
  from d obtain body where body: "payload bs 2 max_bytes = Inr body"
    by (auto simp: decode_value_def res_simps)
  note bs = payload_Inr[OF body ok]
  have okb: "rd_ok (reader_new body)" using bs(3) by (simp add: slice_ok_def)
  have "body = value_body v \<and> (\<forall>t. v = Some t \<longrightarrow> utf8_valid t)"
  proof (cases v)
    case None
    with d obtain r1 where r: "reader_u8 (reader_new body) = Inr (0, r1)" "rd_rest r1 = []"
      by (auto simp: decode_value_def res_simps body reader_finish_Inr from_utf8_def
          split: if_splits prod.splits)
    show ?thesis
      using None consumes_all[OF u8_field.dec_consumes[OF okb r(1)] r(2)] by (simp add: value_body_def)
  next
    case (Some t)
    with d obtain r1 r2 r3 and len :: u32 where
      r: "reader_u8 (reader_new body) = Inr (1, r1)" "reader_u32 r1 = Inr (len, r2)"
        "reader_take r2 (unat len) = Inr (t, r3)" "rd_rest r3 = []" and u: "utf8_valid t"
      by (auto simp: decode_value_def res_simps body reader_finish_Inr from_utf8_def
          split: if_splits prod.splits)
    note c1 = u8_field.dec_consumes[OF okb r(1)]
    note c2 = u32_field.dec_consumes[OF consumes_ok[OF c1] r(2)]
    have c3: "consumes r2 t r3" "length t = unat len"
      using reader_take_consumes[OF consumes_ok[OF c2] r(3)] by auto
    have "len = of_nat (length t)" using c3(2) by simp
    then show ?thesis
      using Some u consumes_all[OF consumes_trans[OF c1 consumes_trans[OF c2 c3(1)]] r(4)]
      by (simp add: value_body_def)
  qed
  then show "bs = frame 2 (value_body v)" "v = Some t \<Longrightarrow> utf8_valid t" using bs(1) by auto
  show "length bs \<le> max_bytes" by (rule bs(2))
qed

section \<open>Manifest round trip\<close>

definition manifest_entry :: "manifest_source \<Rightarrow> bytes" where
  "manifest_entry s = le_bytes 8 (src_id s) @ [bool_tag (src_sealed s)] @ replicate 7 0"

definition manifest_body :: "generation \<Rightarrow> manifest_source list \<Rightarrow> bytes" where
  "manifest_body gen sources =
     le_bytes 8 gen @ le_bytes 4 (of_nat (length sources) :: u32) @ concat (map manifest_entry sources)"

text \<open>The sources a manifest accepts: nonzero identifiers in strictly ascending order.\<close>

definition sources_ok :: "manifest_source list \<Rightarrow> bool" where
  "sources_ok sources \<longleftrightarrow> sorted_wrt (<) (0 # map src_id sources) \<and> length sources * 16 + 12 < 2 ^ 32"

definition manifest_view :: "generation \<Rightarrow> manifest_source list \<Rightarrow> manifest" where
  "manifest_view gen sources =
     \<lparr>mf_generation = gen, mf_entries = concat (map manifest_entry sources),
      mf_count = of_nat (length sources)\<rparr>"

lemma length_manifest_entry [simp]: "length (manifest_entry s) = 16"
  by (simp add: manifest_entry_def)

lemma length_manifest_entries: "length (concat (map manifest_entry ss)) = length ss * 16"
  by (rule concat_fixed_length) simp

lemma length_manifest_body [simp]: "length (manifest_body gen ss) = 12 + length ss * 16"
  by (simp add: manifest_body_def length_manifest_entries)

lemma encode_manifest_check_ascend:
  "encode_manifest_check = (\<lambda>p s. ascend_step (CodecError 0 InvalidOrder) p (src_id s))"
  by (simp add: fun_eq_iff encode_manifest_check_def ascend_step_def codec_fail_def)

lemma encode_entries:
  assumes "wr_ok w" "length ss * 16 \<le> wr_room w"
  shows "try_fold encode_manifest_source w ss = Inr (wr_append w (concat (map manifest_entry ss)))"
  using assms
proof (induction ss arbitrary: w)
  case (Cons s ss)
  then have "encode_manifest_source w s = Inr (wr_append w (manifest_entry s))"
    by (simp add: encode_manifest_source_def codec_simps manifest_entry_def)
  then show ?case
    using Cons by (simp add: length_manifest_entries)
qed simp

lemma source_at_entry:
  assumes "take 16 (drop (unat index * 16) (mf_entries view)) = manifest_entry s"
    and "index < mf_count view" "src_id s \<noteq> 0"
  shows "manifest_source_at view index = Inr s"
proof -
  have "unat index * 16 \<le> usize_max"
    using unat_u32_lt[of index] by (simp add: usize_max_def)
  moreover have "slice_ok (manifest_entry s)" by (simp add: slice_ok_def)
  moreover have "list_ex (\<lambda>b :: u8. b \<noteq> 0) (replicate 7 0) = False" by (simp add: list_ex_iff)
  ultimately show ?thesis using assms
    by (cases s) (auto simp: manifest_source_at_def checked_mul_def codec_simps manifest_entry_def
        identifier_new_def bool_tag_def)
qed

lemma source_at_Inr:
  assumes r: "manifest_source_at view index = Inr s"
    and len: "16 \<le> length (mf_entries view) - unat index * 16"
  shows "take 16 (drop (unat index * 16) (mf_entries view)) = manifest_entry s" "src_id s \<noteq> 0"
proof -
  let ?bs = "take 16 (drop (unat index * 16) (mf_entries view))"
  have l: "length ?bs = 16" using len by simp
  then have ok: "rd_ok (reader_new ?bs)" by (simp add: slice_ok_def)
  from r obtain r1 r2 r3 pad where
    q: "reader_u64 (reader_new ?bs) = Inr (src_id s, r1)" "reader_u8 r1 = Inr (bool_tag (src_sealed s), r2)"
      "reader_take r2 7 = Inr (pad, r3)" "\<not> list_ex (\<lambda>b. b \<noteq> 0) pad" and z: "src_id s \<noteq> 0"
    by (auto simp: manifest_source_at_def res_simps checked_mul_def identifier_new_iff id_ok_def
        bool_tag_def split: if_splits prod.splits)
  note c1 = u64_field.dec_consumes[OF ok q(1)]
  note c2 = u8_field.dec_consumes[OF consumes_ok[OF c1] q(2)]
  note c3 = reader_take_consumes[OF consumes_ok[OF c2] q(3)]
  have pad: "pad = replicate 7 0"
    using c3 q(4) by (auto intro!: replicate_eqI simp: list_ex_iff)
  have "consumes (reader_new ?bs) (manifest_entry s) r3"
    using consumes_trans[OF c1 consumes_trans[OF c2 conjunct1[OF c3]]]
    by (simp add: manifest_entry_def pad)
  then have e: "?bs = manifest_entry s @ rd_rest r3" by (drule_tac consumes_rest) simp
  then have "length ?bs = 16 + length (rd_rest r3)" by (metis length_append length_manifest_entry)
  then have "rd_rest r3 = []" using l by simp
  then show "?bs = manifest_entry s" using e by simp
  show "src_id s \<noteq> 0" by (rule z)
qed

lemma manifest_check_view:
  assumes "\<And>i. i < n \<Longrightarrow> manifest_source_at view (of_nat i) = Inr (ss ! i)" "n = length ss"
  shows "try_fold (manifest_check_step view) p [0..<n] = Inr q \<longleftrightarrow>
    sorted_wrt (<) (p # map src_id ss) \<and> q = last (p # map src_id ss)"
proof -
  have "try_fold (manifest_check_step view) p [0..<n] =
      try_fold (\<lambda>p i. ascend_step (CodecError 12 InvalidOrder) p (src_id (ss ! i))) p [0..<n]"
    by (rule try_fold_cong)
      (auto simp: manifest_check_step_def assms(1) ascend_step_def codec_fail_def)
  also have "\<dots> = Inr q \<longleftrightarrow> sorted_wrt (<) (p # map (\<lambda>i. src_id (ss ! i)) [0..<n]) \<and>
      q = last (p # map (\<lambda>i. src_id (ss ! i)) [0..<n])"
    by (rule try_fold_ascend)
  also have "map (\<lambda>i. src_id (ss ! i)) [0..<n] = map src_id ss"
    unfolding assms(2) by (rule nth_equalityI) simp_all
  finally show ?thesis .
qed

lemma sources_ok_nonzero: "sources_ok ss \<Longrightarrow> s \<in> set ss \<Longrightarrow> src_id s \<noteq> 0"
  by (fastforce simp: sources_ok_def)

lemma encode_manifest_eq:
  assumes ok: "sources_ok ss" "of_nat (length ss) \<le> max_sources"
    and out: "slice_ok output" "28 + length ss * 16 \<le> length output"
  shows "encode_manifest gen ss output max_sources =
    Inr (28 + length ss * 16, frame 4 (manifest_body gen ss) @ drop (28 + length ss * 16) output)"
proof -
  let ?n = "length ss"
  have n: "?n * 16 + 12 < 2 ^ 32" using ok(1) by (simp add: sources_ok_def)
  then have len: "Option.bind (checked_mul ?n 16) (\<lambda>n. checked_add n 12) = Some (?n * 16 + 12)"
    "u32_try_from ?n = Some (of_nat ?n)"
    by (simp_all add: checked_mul_def checked_add_def usize_max_def u32_try_from_def)
  have st: "start output 4 (?n * 16 + 12) =
      Inr (wr_append (writer_new output) (frame_header 4 (?n * 16 + 12)))"
    using n out by (intro start_eq) simp_all
  have chk: "try_fold encode_manifest_check 0 ss = Inr (last (0 # map src_id ss))"
    unfolding encode_manifest_check_ascend try_fold_ascend using ok(1) by (simp add: sources_ok_def)
  note st' = st[unfolded add.commute[of "_ * 16" 12]]
  show ?thesis
    using ok(2) out
    by (simp add: encode_manifest_def len st' chk not_less codec_simps encode_entries
        length_manifest_entries frame_def manifest_body_def ac_simps)
qed

lemma manifest_view_at:
  assumes ok: "sources_ok ss" and i: "i < length ss"
  shows "manifest_source_at (manifest_view gen ss) (of_nat i) = Inr (ss ! i)"
proof (rule source_at_entry)
  have n: "length ss * 16 + 12 < 2 ^ 32" using ok by (simp add: sources_ok_def)
  then have u: "unat (of_nat i :: u32) = i" using i by (simp add: unat_u32_of_nat)
  show "take 16 (drop (unat (of_nat i :: u32) * 16) (mf_entries (manifest_view gen ss))) =
      manifest_entry (ss ! i)"
    unfolding u manifest_view_def using i by (simp add: concat_fixed_nth)
  show "of_nat i < mf_count (manifest_view gen ss)"
    using i n by (simp add: manifest_view_def word_less_nat_alt unat_u32_of_nat)
  show "src_id (ss ! i) \<noteq> 0" using sources_ok_nonzero[OF ok] i by simp
qed

lemma manifest_parse_view:
  assumes ok: "sources_ok ss" "of_nat (length ss) \<le> max_sources" "gen \<noteq> 0"
    and max: "28 + length ss * 16 \<le> max_bytes"
  shows "manifest_parse (frame 4 (manifest_body gen ss)) max_sources max_bytes =
    Inr (manifest_view gen ss)"
proof -
  let ?v = "manifest_view gen ss"
  have n: "length ss * 16 + 12 < 2 ^ 32" using ok(1) by (simp add: sources_ok_def)
  have p: "payload (frame 4 (manifest_body gen ss)) 4 max_bytes = Inr (manifest_body gen ss)"
    using n max by (intro payload_frame) simp_all
  have sl: "slice_ok (manifest_body gen ss)" using n by (simp add: slice_ok_def)
  have at: "manifest_source_at ?v (of_nat i) = Inr (ss ! i)" if "i < length ss" for i
    using manifest_view_at[OF ok(1) that] .
  have chk: "try_fold (manifest_check_step ?v) 0 [0..<length ss] = Inr (last (0 # map src_id ss))"
    using manifest_check_view[OF at refl, of 0] ok(1) by (simp add: sources_ok_def)
  have u: "unat (of_nat (length ss) :: u32) = length ss" using n by (simp add: unat_u32_of_nat)
  show ?thesis
    unfolding manifest_parse_def p
    using ok(2,3) sl chk
    by (simp add: codec_simps manifest_body_def identifier_new_def not_less u Let_def
        length_manifest_entries flip: manifest_view_def)
qed

lemma manifest_parse_Inr:
  assumes p: "manifest_parse bs max_sources max_bytes = Inr view" and ok: "slice_ok bs"
  obtains ss where "bs = frame 4 (manifest_body (mf_generation view) ss)"
    "view = manifest_view (mf_generation view) ss" "sources_ok ss" "mf_generation view \<noteq> 0"
    "of_nat (length ss) \<le> max_sources" "length bs \<le> max_bytes"
proof -
  from p obtain body where body: "payload bs 4 max_bytes = Inr body"
    by (auto simp: manifest_parse_def res_simps)
  note bs = payload_Inr[OF body ok]
  have okb: "rd_ok (reader_new body)" using bs(3) by (simp add: slice_ok_def)
  from p obtain r1 r2 r3 q where
    r: "reader_u64 (reader_new body) = Inr (mf_generation view, r1)"
      "reader_u32 r1 = Inr (mf_count view, r2)"
      "reader_take r2 (reader_remaining r2) = Inr (mf_entries view, r3)"
      "length (mf_entries view) = unat (mf_count view) * 16"
      "try_fold (manifest_check_step view) 0 [0..<unat (mf_count view)] = Inr q"
    and good: "mf_generation view \<noteq> 0" "mf_count view \<le> max_sources"
    by (auto simp: manifest_parse_def res_simps body identifier_new_iff id_ok_def Let_def not_less
        split: if_splits prod.splits)
  let ?n = "unat (mf_count view)"
  note c1 = u64_field.dec_consumes[OF okb r(1)]
  note c2 = u32_field.dec_consumes[OF consumes_ok[OF c1] r(2)]
  note c3 = reader_take_consumes[OF consumes_ok[OF c2] r(3)]
  have "rd_rest r3 = []"
    using c3 consumes_rest[of r2 "mf_entries view" r3] by (simp add: reader_remaining_rest)
  from consumes_all[OF consumes_trans[OF c1 consumes_trans[OF c2 conjunct1[OF c3]]] this]
  have b: "body = le_bytes 8 (mf_generation view) @ le_bytes 4 (mf_count view) @ mf_entries view" .
  define ss where "ss = map (\<lambda>i. projr (manifest_source_at view (of_nat i))) [0..<?n]"
  have at: "manifest_source_at view (of_nat i) = Inr (ss ! i)" if "i < ?n" for i
  proof -
    have "\<exists>s. manifest_source_at view (of_nat i) = Inr s"
      using try_fold_reaches[OF r(5), of i] that
      by (auto simp: manifest_check_step_def res_simps)
    then show ?thesis using that by (auto simp: ss_def)
  qed
  have len: "length ss = ?n" by (simp add: ss_def)
  have chunk: "take 16 (drop (i * 16) (mf_entries view)) = manifest_entry (ss ! i)" if "i < ?n" for i
  proof -
    have u: "unat (of_nat i :: u32) = i"
      using that unat_u32_lt[of "mf_count view"] by (simp add: unat_u32_of_nat)
    have "(i + 1) * 16 \<le> ?n * 16" using that by simp
    then have "16 \<le> length (mf_entries view) - unat (of_nat i :: u32) * 16"
      unfolding u r(4) by simp
    from source_at_Inr(1)[OF at[OF that] this] show ?thesis unfolding u .
  qed
  have "mf_entries view = concat (map (\<lambda>i. take 16 (drop (i * 16) (mf_entries view))) [0..<?n])"
    using concat_chunks[OF r(4)] by simp
  also have "\<dots> = concat (map (\<lambda>i. manifest_entry (ss ! i)) [0..<?n])"
    using chunk by (intro arg_cong[where f = concat] map_cong) auto
  also have "map (\<lambda>i. manifest_entry (ss ! i)) [0..<?n] = map manifest_entry ss"
    unfolding len[symmetric] by (rule nth_equalityI) simp_all
  finally have e: "mf_entries view = concat (map manifest_entry ss)" .
  have cnt: "mf_count view = of_nat (length ss)" unfolding len by simp
  have body_eq: "body = manifest_body (mf_generation view) ss"
    unfolding b manifest_body_def e by (simp add: cnt)
  show ?thesis
  proof (rule that)
    show "bs = frame 4 (manifest_body (mf_generation view) ss)" using bs(1) body_eq by simp
    show "view = manifest_view (mf_generation view) ss" by (simp add: manifest_view_def e cnt[symmetric])
    show "sources_ok ss"
      using manifest_check_view[OF at len[symmetric]] r(5) bs(3) body_eq
      by (simp add: sources_ok_def)
  qed (use good bs cnt in auto)
qed

section \<open>Properties\<close>

text \<open>C30: a valid document record encodes into any buffer of at least 52 bytes, leaves the rest
  of the buffer alone, and parses back to the same record.\<close>

theorem document_record_round_trip:
  assumes "document_ok layout rec" "slice_ok output" "52 \<le> length output"
  shows "\<exists>out. document_record_encode rec output = Inr (52, out) \<and>
    drop 52 out = drop 52 output \<and> document_record_parse (take 52 out) layout = Inr rec"
  using document_encode_eq[OF assms] document_parse_bytes[OF assms(1)] by simp

theorem document_record_round_trip_witness:
  "\<exists>out. document_record_encode
      \<lparr>doc_segment = 3, doc_incarnation = 1, doc_root = RootTid 9 4, doc_token_count = 12,
       doc_profile = 1, doc_publication = Published, doc_live = True\<rparr> (replicate 60 0) = Inr (52, out)"
  using document_record_round_trip[of "\<lparr>max_offset = 291\<rparr>"
      "\<lparr>doc_segment = 3, doc_incarnation = 1, doc_root = RootTid 9 4, doc_token_count = 12,
       doc_profile = 1, doc_publication = Published, doc_live = True\<rparr>" "replicate 60 0"]
  by (auto simp: document_ok_def id_ok_def tid_ok_def slice_ok_def)

text \<open>Every byte sequence that parses as a document record is the encoding of a valid
  record: re-encoding the parsed record reproduces the input bit for bit.\<close>

theorem document_record_canonical:
  assumes "document_record_parse bs layout = Inr rec" "slice_ok bs"
  shows "document_ok layout rec \<and> document_record_encode rec bs = Inr (length bs, bs)"
  using document_parse_Inr[OF assms] document_encode_eq[of layout rec bs] assms(2) by simp

theorem document_record_canonical_witness:
  "\<exists>bs. document_record_encode
      \<lparr>doc_segment = 3, doc_incarnation = 1, doc_root = RootTid 9 4, doc_token_count = 12,
       doc_profile = 1, doc_publication = Published, doc_live = True\<rparr> bs = Inr (length bs, bs)"
  (is "\<exists>bs. document_record_encode ?rec bs = _")
proof -
  have ok: "document_ok \<lparr>max_offset = 291\<rparr> ?rec" by (simp add: document_ok_def id_ok_def tid_ok_def)
  have "slice_ok (frame 1 (document_bytes ?rec))" by (simp add: slice_ok_def)
  from document_record_canonical[OF document_parse_bytes[OF ok] this] show ?thesis by blast
qed

text \<open>Text values, null or not, survive encoding and decoding, and only canonical
  encodings decode: a decoded value encodes to the very bytes it came from.\<close>

theorem value_round_trip:
  assumes "slice_ok bs" "length bs < 2 ^ 32"
  shows "decode_value bs max_bytes = Inr v \<longleftrightarrow>
    (\<forall>t. v = Some t \<longrightarrow> utf8_valid t) \<and> encode_value v bs max_bytes = Inr (length bs, bs)"
proof
  assume d: "decode_value bs max_bytes = Inr v"
  note r = decode_value_Inr[OF d assms(1)]
  show "(\<forall>t. v = Some t \<longrightarrow> utf8_valid t) \<and> encode_value v bs max_bytes = Inr (length bs, bs)"
    using r(2,3) encode_value_eq[of v max_bytes bs] assms by (simp add: r(1))
next
  assume e: "(\<forall>t. v = Some t \<longrightarrow> utf8_valid t) \<and> encode_value v bs max_bytes = Inr (length bs, bs)"
  let ?n = "length (value_body v)"
  have n: "16 + ?n \<le> max_bytes" "?n < 2 ^ 32" "16 + ?n \<le> length bs"
    using e encode_value_bounds[OF _ assms(1)] by auto
  then have "length bs = 16 + ?n" "bs = frame 2 (value_body v) @ drop (16 + ?n) bs"
    using encode_value_eq[OF n(1,2) assms(1) n(3)] e by auto
  then have "bs = frame 2 (value_body v)" by (metis append_Nil2 drop_all order_refl)
  then show "decode_value bs max_bytes = Inr v"
    using decode_value_frame[OF n(1,2)] e by simp
qed

theorem value_round_trip_witness:
  "decode_value (frame 2 [1, 1, 0, 0, 0, 0x61]) 64 = Inr (Some [0x61])"
proof -
  let ?bs = "frame 2 [1, 1, 0, 0, 0, 0x61] :: bytes"
  have b: "value_body (Some [0x61]) = [1, 1, 0, 0, 0, 0x61]"
    by (simp add: value_body_def le_bytes_def upt_rec numeral_eq_Suc)
  have ok: "slice_ok ?bs" "length ?bs < 2 ^ 32" by (simp_all add: slice_ok_def)
  have "encode_value (Some [0x61]) ?bs 64 = Inr (length ?bs, ?bs)"
    using encode_value_eq[of "Some [0x61]" 64 ?bs] ok by (simp add: b)
  moreover have "utf8_valid [0x61]" by simp
  ultimately show ?thesis
    using value_round_trip[OF ok, of 64 "Some [0x61]"] by simp
qed

text \<open>C31: a manifest of strictly ascending sources encodes and parses back, and each source is
  found again at its index.\<close>

theorem manifest_round_trip:
  assumes "sources_ok ss" "of_nat (length ss) \<le> max_sources" "gen \<noteq> 0" "slice_ok output"
    and "28 + length ss * 16 \<le> length output" "28 + length ss * 16 \<le> max_bytes"
  shows "\<exists>n out view. encode_manifest gen ss output max_sources = Inr (n, out) \<and>
    manifest_parse (take n out) max_sources max_bytes = Inr view \<and>
    mf_generation view = gen \<and> unat (mf_count view) = length ss \<and>
    (\<forall>i < length ss. manifest_source_at view (of_nat i) = Inr (ss ! i))"
proof -
  have n: "length ss * 16 + 12 < 2 ^ 32" using assms(1) by (simp add: sources_ok_def)
  have at: "manifest_source_at (manifest_view gen ss) (of_nat i) = Inr (ss ! i)"
    if "i < length ss" for i
    using manifest_view_at[OF assms(1) that] .
  show ?thesis
    using encode_manifest_eq[OF assms(1,2,4,5)] manifest_parse_view[OF assms(1-3,6)] at n
    by (simp add: manifest_view_def unat_u32_of_nat)
qed

theorem manifest_round_trip_witness:
  "\<exists>n out view. encode_manifest 7 [\<lparr>src_id = 2, src_sealed = True\<rparr>, \<lparr>src_id = 5, src_sealed = False\<rparr>]
      (replicate 100 0) 8 = Inr (n, out) \<and> manifest_parse (take n out) 8 200 = Inr view \<and>
    manifest_source_at view 1 = Inr \<lparr>src_id = 5, src_sealed = False\<rparr>"
proof -
  let ?ss = "[\<lparr>src_id = 2, src_sealed = True\<rparr>, \<lparr>src_id = 5, src_sealed = False\<rparr>]"
  have "\<exists>n out view. encode_manifest 7 ?ss (replicate 100 0) 8 = Inr (n, out) \<and>
    manifest_parse (take n out) 8 200 = Inr view \<and>
    mf_generation view = 7 \<and> unat (mf_count view) = length ?ss \<and>
    (\<forall>i < length ?ss. manifest_source_at view (of_nat i) = Inr (?ss ! i))"
    by (rule manifest_round_trip) (simp_all add: sources_ok_def slice_ok_def)
  then obtain n out view where *: "encode_manifest 7 ?ss (replicate 100 0) 8 = Inr (n, out)"
    "manifest_parse (take n out) 8 200 = Inr view"
    "\<forall>i < length ?ss. manifest_source_at view (of_nat i) = Inr (?ss ! i)" by blast
  have "manifest_source_at view 1 = Inr \<lparr>src_id = 5, src_sealed = False\<rparr>"
    using *(3)[rule_format, of 1] by simp
  with * show ?thesis by blast
qed

text \<open>C32: a byte sequence that parses as a manifest holds strictly ascending nonzero source
  identifiers, and every index below the count yields its source without error.\<close>

theorem manifest_parse_sound:
  assumes "manifest_parse bs max_sources max_bytes = Inr view" "slice_ok bs"
  shows "\<exists>ss. length ss = unat (mf_count view) \<and> sorted_wrt (<) (0 # map src_id ss) \<and>
    (\<forall>i < length ss. manifest_source_at view (of_nat i) = Inr (ss ! i)) \<and>
    encode_manifest (mf_generation view) ss bs max_sources = Inr (length bs, bs)"
proof -
  obtain ss where ss: "bs = frame 4 (manifest_body (mf_generation view) ss)"
    "view = manifest_view (mf_generation view) ss" "sources_ok ss"
    "of_nat (length ss) \<le> max_sources"
    using manifest_parse_Inr[OF assms] by metis
  have len: "length ss = unat (mf_count view)"
    using ss(3) by (subst ss(2)) (simp add: manifest_view_def unat_u32_of_nat sources_ok_def)
  moreover have "\<forall>i < length ss. manifest_source_at view (of_nat i) = Inr (ss ! i)"
    by (subst ss(2)) (simp add: manifest_view_at[OF ss(3)])
  moreover have "length bs = 28 + length ss * 16" by (simp add: ss(1))
  then have "encode_manifest (mf_generation view) ss bs max_sources = Inr (length bs, bs)"
    using encode_manifest_eq[OF ss(3,4) assms(2), of "mf_generation view"] ss(1) by simp
  ultimately show ?thesis using ss(3) by (auto simp: sources_ok_def)
qed

theorem manifest_parse_sound_witness:
  "\<exists>view. manifest_parse (frame 4 (manifest_body 7 [\<lparr>src_id = 2, src_sealed = True\<rparr>])) 8 200 = Inr view \<and>
    (\<exists>ss :: manifest_source list. length ss = unat (mf_count view) \<and>
      sorted_wrt (<) (0 # map src_id ss))"
proof -
  let ?bs = "frame 4 (manifest_body 7 [\<lparr>src_id = 2, src_sealed = True\<rparr>])"
  have p: "manifest_parse ?bs 8 200 = Inr (manifest_view 7 [\<lparr>src_id = 2, src_sealed = True\<rparr>])"
    by (rule manifest_parse_view) (simp_all add: sources_ok_def)
  have "slice_ok ?bs" by (simp add: slice_ok_def)
  from manifest_parse_sound[OF p this] obtain ss :: "manifest_source list" where
    "length ss = unat (mf_count (manifest_view 7 [\<lparr>src_id = 2, src_sealed = True\<rparr>]))"
    "sorted_wrt (<) (0 # map src_id ss)" by blast
  with p show ?thesis by blast
qed

end
