(* ===== verification/Dictionary.thy ===== *)
theory Dictionary
  imports Records
begin

text \<open>
  Sealed term dictionaries (crates/pin-core/src/codec/dictionary.rs): a frame with an array of
  term boundaries and the concatenated terms in strictly ascending order. A term identifier is
  the index of the term. Both bisection loops are instances of \<open>partition_probe\<close>.
\<close>

section \<open>The format\<close>

record dictionary_limits =
  max_bytes :: nat
  max_terms :: u32
  max_term_bytes :: nat

type_synonym term_id = u32

record dictionary =
  dict_profile :: u32
  dict_offsets :: bytes
  dict_terms :: bytes
  dict_count :: u32

definition dictionary_offset :: "dictionary \<Rightarrow> u32 \<Rightarrow> nat codec_result" where
  "dictionary_offset self index =
     and_then (ok_or (CodecError 8 Overflow) (checked_mul (unat index) 4)) (\<lambda>offset.
     if offset > length (dict_offsets self) then codec_fail 8 Truncated else
     and_then (reader_u32 (reader_new (drop offset (dict_offsets self)))) (\<lambda>(v, _). Inr (unat v)))"

definition dictionary_term :: "dictionary \<Rightarrow> term_id \<Rightarrow> str codec_result" where
  "dictionary_term self idx =
     (if idx \<ge> dict_count self then codec_fail 8 InvalidValue else
      and_then (dictionary_offset self idx) (\<lambda>start_at.
      and_then (dictionary_offset self (idx + 1)) (\<lambda>end_at.
      if start_at \<le> end_at \<and> end_at \<le> length (dict_terms self)
      then from_utf8 (CodecError start_at InvalidUtf8)
             (take (end_at - start_at) (drop start_at (dict_terms self)))
      else codec_fail 8 InvalidValue)))"

definition dictionary_check_step ::
  "dictionary \<Rightarrow> dictionary_limits \<Rightarrow> str \<Rightarrow> nat \<Rightarrow> str codec_result" where
  "dictionary_check_step view limits previous index =
     and_then (dictionary_term view (of_nat index)) (\<lambda>term.
     if term = [] \<or> length term > max_term_bytes limits then codec_fail 8 LimitExceeded
     else if term \<le> previous then codec_fail 8 InvalidOrder
     else Inr term)"

definition dictionary_parse :: "bytes \<Rightarrow> dictionary_limits \<Rightarrow> dictionary codec_result" where
  "dictionary_parse bs limits =
     and_then (payload bs 3 (max_bytes limits)) (\<lambda>body.
     and_then (reader_u32 (reader_new body)) (\<lambda>(profile, reader).
     if profile = 0 then codec_fail 0 InvalidValue else
     and_then (reader_u32 reader) (\<lambda>(count, reader).
     if count > max_terms limits then codec_fail 4 LimitExceeded else
     and_then (ok_or (CodecError 8 Overflow)
       (Option.bind (checked_add (unat count) 1) (\<lambda>n. checked_mul n 4))) (\<lambda>offset_bytes.
     and_then (reader_take reader offset_bytes) (\<lambda>(offsets, reader).
     and_then (reader_take reader (reader_remaining reader)) (\<lambda>(terms, reader).
     let view = \<lparr>dict_profile = profile, dict_offsets = offsets, dict_terms = terms,
                 dict_count = count\<rparr> in
     and_then (dictionary_offset view 0) (\<lambda>o0.
     and_then (if o0 \<noteq> 0 then Inr True
               else and_then (dictionary_offset view count) (\<lambda>oc. Inr (oc \<noteq> length terms))) (\<lambda>bad.
     if bad then codec_fail 8 InvalidValue else
     and_then (try_fold (dictionary_check_step view limits) [] [0..<unat count]) (\<lambda>_.
       Inr view)))))))))"

definition dictionary_lower_bound :: "dictionary \<Rightarrow> str \<Rightarrow> nat codec_result" where
  "dictionary_lower_bound self term =
     lower_bound_loop (\<lambda>middle. and_then (dictionary_term self (of_nat middle)) (\<lambda>t. Inr (t < term)))
       0 (unat (dict_count self))"

definition dictionary_lookup :: "dictionary \<Rightarrow> str \<Rightarrow> term_id option codec_result" where
  "dictionary_lookup self term =
     and_then (dictionary_lower_bound self term) (\<lambda>index.
     if index < unat (dict_count self) then
       and_then (dictionary_term self (of_nat index)) (\<lambda>t.
         Inr (if t = term then Some (of_nat index) else None))
     else Inr None)"

definition dictionary_prefix :: "dictionary \<Rightarrow> str \<Rightarrow> u32 \<Rightarrow> (nat \<times> nat) codec_result" where
  "dictionary_prefix self prefix max_expanded =
     and_then (dictionary_lower_bound self prefix) (\<lambda>begin_at.
     and_then (lower_bound_loop
       (\<lambda>middle. and_then (dictionary_term self (of_nat middle)) (\<lambda>t. Inr (starts_with t prefix)))
       begin_at (unat (dict_count self))) (\<lambda>low.
     if low - begin_at > unat max_expanded then codec_fail 0 LimitExceeded
     else Inr (begin_at, low)))"

definition dictionary_encode_check ::
  "dictionary_limits \<Rightarrow> nat \<times> str \<Rightarrow> str \<Rightarrow> (nat \<times> str) codec_result" where
  "dictionary_encode_check limits st term =
     (if term = [] \<or> length term > max_term_bytes limits then codec_fail 0 LimitExceeded
      else if term \<le> snd st then codec_fail 0 InvalidOrder
      else and_then (ok_or (CodecError 0 Overflow) (checked_add (fst st) (length term)))
        (\<lambda>data_bytes. Inr (data_bytes, term)))"

definition dictionary_encode_offset :: "writer \<times> u32 \<Rightarrow> str \<Rightarrow> (writer \<times> u32) codec_result" where
  "dictionary_encode_offset st term =
     (let offset = snd st + of_nat (length term) in
      and_then (writer_u32 (fst st) offset) (\<lambda>writer. Inr (writer, offset)))"

definition dictionary_encode ::
  "u32 \<Rightarrow> str list \<Rightarrow> bytes \<Rightarrow> dictionary_limits \<Rightarrow> (nat \<times> bytes) codec_result" where
  "dictionary_encode profile terms output limits =
     (if profile = 0 then codec_fail 0 InvalidValue else
      and_then (ok_or (CodecError 4 LimitExceeded) (u32_try_from (length terms))) (\<lambda>count.
      if count > max_terms limits then codec_fail 4 LimitExceeded else
      and_then (try_fold (dictionary_encode_check limits) (0, []) terms) (\<lambda>(data_bytes, _).
      and_then (ok_or (CodecError 0 Overflow) (u32_try_from data_bytes)) (\<lambda>data_bytes.
      and_then (ok_or (CodecError 0 Overflow)
        (Option.bind (Option.bind (Option.bind (checked_add (length terms) 1)
          (\<lambda>n. checked_mul n 4)) (\<lambda>n. checked_add n 8)) (\<lambda>n. checked_add n (unat data_bytes)))) (\<lambda>len.
      if (case checked_add len HEADER_BYTES of None \<Rightarrow> True | Some all \<Rightarrow> all > max_bytes limits)
      then codec_fail 0 LimitExceeded else
      and_then (start output 3 len) (\<lambda>writer.
      and_then (writer_u32 writer profile) (\<lambda>writer.
      and_then (writer_u32 writer count) (\<lambda>writer.
      and_then (writer_u32 writer 0) (\<lambda>writer.
      and_then (try_fold dictionary_encode_offset (writer, 0) terms) (\<lambda>(writer, _).
      and_then (try_fold writer_put writer terms) (\<lambda>writer.
        Inr (wr_offset writer, wr_bytes writer))))))))))))"

section \<open>Views\<close>

text \<open>What every query of a dictionary relies on: the identifiers below the count name the terms
  of a strictly ascending list.\<close>

definition dict_view :: "dictionary \<Rightarrow> str list \<Rightarrow> bool" where
  "dict_view d ts \<longleftrightarrow> length ts = unat (dict_count d) \<and> sorted_wrt (<) ts \<and>
     (\<forall>i < length ts. dictionary_term d (of_nat i) = Inr (ts ! i))"

lemma dict_view_term: "dict_view d ts \<Longrightarrow> i < length ts \<Longrightarrow> dictionary_term d (of_nat i) = Inr (ts ! i)"
  by (simp add: dict_view_def)

lemma dict_view_less:
  "dict_view d ts \<Longrightarrow> i < j \<Longrightarrow> j < length ts \<Longrightarrow> ts ! i < ts ! j"
  by (simp add: dict_view_def sorted_wrt_iff_nth_less)

lemma dict_view_mono:
  "dict_view d ts \<Longrightarrow> i \<le> j \<Longrightarrow> j < length ts \<Longrightarrow> ts ! i \<le> ts ! j"
  using dict_view_less[of d ts i j] by (cases "i = j") auto

interpretation term_probe: partition_probe
  "\<lambda>(d, ts, t). dict_view d ts" "\<lambda>_. 0" "\<lambda>(d, ts, t). length ts" "\<lambda>(d, ts, t) i. ts ! i < t"
  "\<lambda>(d, ts, t) i. and_then (dictionary_term d (of_nat i)) (\<lambda>u. Inr (u < t))"
  by unfold_locales (auto simp: dict_view_term dest: dict_view_mono le_less_trans)

text \<open>Where the terms with a given prefix start.\<close>

definition prefix_begin :: "str list \<Rightarrow> str \<Rightarrow> nat" where
  "prefix_begin ts p = partition_point (\<lambda>i. ts ! i < p) (length ts)"

lemma prefix_begin_ge:
  assumes "dict_view d ts" "prefix_begin ts p \<le> i" "i < length ts" shows "p \<le> ts ! i"
  using term_probe.before_iff[of "(d, ts, p)" i] assms by (simp add: prefix_begin_def)

lemma prefix_begin_le: "prefix_begin ts p \<le> length ts"
  by (simp add: prefix_begin_def partition_point_le)

interpretation prefix_probe: partition_probe
  "\<lambda>(d, ts, p). dict_view d ts" "\<lambda>(d, ts, p). prefix_begin ts p" "\<lambda>(d, ts, p). length ts"
  "\<lambda>(d, ts, p) i. i < prefix_begin ts p \<or> starts_with (ts ! i) p"
  "\<lambda>(d, ts, p) i. and_then (dictionary_term d (of_nat i)) (\<lambda>u. Inr (starts_with u p))"
proof (unfold_locales, goal_cases)
  case (1 s i)
  then show ?case by (cases s) (auto simp: dict_view_term)
next
  case (2 s i j)
  obtain d ts p where s: "s = (d, ts, p)" by (cases s) auto
  show ?case
  proof (cases "i < prefix_begin ts p")
    case False
    then have "p \<le> ts ! i" using 2 s prefix_begin_ge[of d ts p i] by simp
    moreover have "ts ! i \<le> ts ! j" using 2 s dict_view_mono by simp
    moreover have "starts_with (ts ! j) p" using 2 s False by auto
    ultimately show ?thesis using s starts_with_convex by simp
  qed (simp add: s)
next
  case (3 s i)
  then show ?case by (cases s) auto
next
  case (4 s)
  then show ?case by (cases s) (auto simp: prefix_begin_le)
qed

lemma lower_bound_view:
  "dict_view d ts \<Longrightarrow> dictionary_lower_bound d t = Inr (prefix_begin ts t)"
  using term_probe.lower_bound_correct[of "(d, ts, t)"]
  by (simp add: dictionary_lower_bound_def prefix_begin_def dict_view_def)

lemma lookup_view:
  assumes v: "dict_view d ts"
  shows "dictionary_lookup d t =
    Inr (if t \<in> set ts then Some (of_nat (prefix_begin ts t)) else None)"
    and "t \<in> set ts \<Longrightarrow> prefix_begin ts t < length ts \<and> ts ! prefix_begin ts t = t"
proof -
  let ?k = "prefix_begin ts t"
  have n: "unat (dict_count d) = length ts" using v by (simp add: dict_view_def)
  have found: "?k < length ts \<and> ts ! ?k = t" if "t \<in> set ts"
  proof -
    from that obtain i where i: "i < length ts" "ts ! i = t" by (auto simp: in_set_conv_nth)
    then have ki: "?k \<le> i" using term_probe.before_iff[of "(d, ts, t)" i] v
      by (simp add: prefix_begin_def not_less)
    then have "t \<le> ts ! ?k" using prefix_begin_ge[OF v, of t ?k] i by simp
    moreover have "ts ! ?k \<le> t" using dict_view_mono[OF v ki i(1)] i(2) by simp
    ultimately show ?thesis using ki i by simp
  qed
  then show "t \<in> set ts \<Longrightarrow> prefix_begin ts t < length ts \<and> ts ! prefix_begin ts t = t" .
  have missing: "t \<notin> set ts \<Longrightarrow> ?k < length ts \<Longrightarrow> ts ! ?k \<noteq> t" by (metis nth_mem)
  show "dictionary_lookup d t = Inr (if t \<in> set ts then Some (of_nat ?k) else None)"
    using found missing v
    by (auto simp: dictionary_lookup_def lower_bound_view n dict_view_term)
qed

lemma prefix_view:
  assumes v: "dict_view d ts"
  obtains e where "prefix_begin ts p \<le> e" "e \<le> length ts"
    "\<And>i. i < length ts \<Longrightarrow> starts_with (ts ! i) p \<longleftrightarrow> prefix_begin ts p \<le> i \<and> i < e"
    "dictionary_prefix d p m =
      (if e - prefix_begin ts p \<le> unat m then Inr (prefix_begin ts p, e)
       else codec_fail 0 LimitExceeded)"
proof -
  let ?b = "prefix_begin ts p"
  let ?before = "\<lambda>i. i < ?b \<or> starts_with (ts ! i) p"
  let ?e = "partition_point ?before (length ts)"
  have n: "unat (dict_count d) = length ts" using v by (simp add: dict_view_def)
  show ?thesis
  proof (rule that[of ?e])
    show "?b \<le> ?e" using prefix_probe.first_le_point[of "(d, ts, p)"] v by simp
    show "?e \<le> length ts" by (rule partition_point_le)
    show "starts_with (ts ! i) p \<longleftrightarrow> ?b \<le> i \<and> i < ?e" if i: "i < length ts" for i
    proof -
      have iff: "?before i \<longleftrightarrow> i < ?e"
        using prefix_probe.before_iff[of "(d, ts, p)" i] v i by simp
      have "?b \<le> i" if "starts_with (ts ! i) p"
        using starts_with_ge[OF that] term_probe.before_iff[of "(d, ts, p)" i] v i
        by (simp add: prefix_begin_def flip: not_less)
      then show ?thesis using iff by auto
    qed
    show "dictionary_prefix d p m =
      (if ?e - ?b \<le> unat m then Inr (?b, ?e) else codec_fail 0 LimitExceeded)"
      using prefix_probe.lower_bound_correct[of "(d, ts, p)"] v
      by (simp add: dictionary_prefix_def lower_bound_view n not_less)
  qed
qed

section \<open>The layout of a dictionary\<close>

fun run_offsets :: "nat \<Rightarrow> str list \<Rightarrow> nat list" where
  "run_offsets off [] = []"
| "run_offsets off (t # ts) = (off + length t) # run_offsets (off + length t) ts"

definition boundaries :: "str list \<Rightarrow> nat list" where
  "boundaries ts = 0 # run_offsets 0 ts"

definition boundary_bytes :: "nat \<Rightarrow> bytes" where
  "boundary_bytes n = le_bytes 4 (of_nat n :: u32)"

definition dict_body :: "u32 \<Rightarrow> str list \<Rightarrow> bytes" where
  "dict_body profile ts = le_bytes 4 profile @ le_bytes 4 (of_nat (length ts) :: u32) @
     concat (map boundary_bytes (boundaries ts)) @ concat ts"

definition dict_of :: "u32 \<Rightarrow> str list \<Rightarrow> dictionary" where
  "dict_of profile ts = \<lparr>dict_profile = profile, dict_offsets = concat (map boundary_bytes (boundaries ts)),
     dict_terms = concat ts, dict_count = of_nat (length ts)\<rparr>"

definition terms_ok :: "dictionary_limits \<Rightarrow> str list \<Rightarrow> bool" where
  "terms_ok limits ts \<longleftrightarrow> sorted_wrt (<) ([] # ts) \<and>
     (\<forall>t \<in> set ts. length t \<le> max_term_bytes limits \<and> utf8_valid t) \<and>
     of_nat (length ts) \<le> max_terms limits \<and>
     length (dict_body 1 ts) < 2 ^ 32 \<and> 16 + length (dict_body 1 ts) \<le> max_bytes limits"

lemma length_boundary_bytes [simp]: "length (boundary_bytes n) = 4"
  by (simp add: boundary_bytes_def)

lemma length_run_offsets [simp]: "length (run_offsets off ts) = length ts"
  by (induction ts arbitrary: off) auto

lemma nth_run_offsets:
  "i \<le> length ts \<Longrightarrow> (off # run_offsets off ts) ! i = off + length (concat (take i ts))"
proof (induction ts arbitrary: off i)
  case (Cons t ts)
  show ?case
  proof (cases i)
    case (Suc j)
    then show ?thesis using Cons.IH[of j "off + length t"] Cons.prems by simp
  qed simp
qed simp

lemma boundaries_nth: "i \<le> length ts \<Longrightarrow> boundaries ts ! i = length (concat (take i ts))"
  using nth_run_offsets[of i ts 0] by (simp add: boundaries_def)

lemma length_boundaries [simp]: "length (boundaries ts) = Suc (length ts)"
  by (simp add: boundaries_def)

lemma length_boundary_array [simp]:
  "length (concat (map boundary_bytes xs)) = length xs * 4"
  by (rule concat_fixed_length) simp

lemma length_dict_body: "length (dict_body p ts) = 12 + length ts * 4 + length (concat ts)"
  by (simp add: dict_body_def)

lemma concat_take_le: "length (concat (take i ts)) \<le> length (concat ts)"
  by (metis append_take_drop_id concat_append length_append le_add1)

lemma concat_nth_slice:
  "i < length ts \<Longrightarrow> take (length (ts ! i)) (drop (length (concat (take i ts))) (concat ts)) = ts ! i"
proof -
  assume "i < length ts"
  then have "concat ts = concat (take i ts) @ ts ! i @ concat (drop (Suc i) ts)"
    using arg_cong[OF id_take_nth_drop[of i ts], of concat] by simp
  then show ?thesis by simp
qed

lemma concat_take_Suc: "i < length ts \<Longrightarrow> concat (take (Suc i) ts) = concat (take i ts) @ ts ! i"
  by (simp add: take_Suc_conv_app_nth)

lemma offset_dict_of:
  assumes small: "length (dict_body p ts) < 2 ^ 32" and i: "i \<le> length ts"
  shows "dictionary_offset (dict_of p ts) (of_nat i) = Inr (length (concat (take i ts)))"
proof -
  let ?os = "concat (map boundary_bytes (boundaries ts))"
  let ?n = "length (concat (take i ts))"
  have u: "unat (of_nat i :: u32) = i"
    using small i by (simp add: unat_u32_of_nat length_dict_body)
  have c: "take 4 (drop (i * 4) ?os) = boundary_bytes ?n"
    using i by (simp add: concat_fixed_nth boundaries_nth)
  have len: "i * 4 + 4 \<le> length ?os" using i by simp
  have ok: "slice_ok (drop (i * 4) ?os)"
    using small by (simp add: slice_ok_def length_dict_body)
  have "?n < 2 ^ 32"
    using small concat_take_le[of i ts] by (simp add: length_dict_body)
  then have "unat (of_nat ?n :: u32) = ?n" by (simp only: unat_u32_of_nat)
  then show ?thesis
    using len ok
    by (simp add: dictionary_offset_def dict_of_def u checked_mul_def usize_max_def
        reader_u32_eq c boundary_bytes_def)
      (use small i in \<open>simp add: length_dict_body\<close>)
qed

lemma term_dict_of:
  assumes small: "length (dict_body p ts) < 2 ^ 32" and i: "i < length ts" and u: "utf8_valid (ts ! i)"
  shows "dictionary_term (dict_of p ts) (of_nat i) = Inr (ts ! i)"
proof -
  have "length ts < 2 ^ 32" using small by (simp add: length_dict_body)
  then have lt: "(of_nat i :: u32) < of_nat (length ts)"
    using i by (simp add: word_less_nat_alt unat_u32_of_nat)
  have s: "(of_nat i + 1 :: u32) = of_nat (Suc i)" by simp
  have e: "length (concat (take (Suc i) ts)) = length (concat (take i ts)) + length (ts ! i)"
    using i by (simp add: concat_take_Suc)
  have "length (concat (take (Suc i) ts)) \<le> length (concat ts)" by (rule concat_take_le)
  then show ?thesis
    using lt i u offset_dict_of[OF small, of i] offset_dict_of[OF small, of "Suc i"]
      concat_nth_slice[OF i]
    by (simp add: dictionary_term_def s e from_utf8_def dict_of_def del: of_nat_Suc)
qed

text \<open>Encoding.\<close>

lemma encode_check_terms:
  assumes "sorted_wrt (<) (p # ts)" "\<forall>t \<in> set ts. length t \<le> max_term_bytes limits"
    and "n + length (concat ts) \<le> usize_max"
  shows "try_fold (dictionary_encode_check limits) (n, p) ts = Inr (n + length (concat ts), last (p # ts))"
  using assms
proof (induction ts arbitrary: n p)
  case (Cons t ts)
  have "t \<noteq> []" using Cons.prems(1) by (cases p) auto
  moreover have "p < t" "sorted_wrt (<) (t # ts)" using Cons.prems(1) by auto
  ultimately show ?case
    using Cons.prems(2,3) Cons.IH[of t "n + length t"]
    by (simp add: dictionary_encode_check_def checked_add_def add.assoc flip: not_less)
qed simp

lemma encode_check_Inr:
  assumes "try_fold (dictionary_encode_check limits) (n, p) ts = Inr (m, q)"
  shows "sorted_wrt (<) (p # ts)" "\<forall>t \<in> set ts. length t \<le> max_term_bytes limits"
    "m = n + length (concat ts)"
proof -
  have "sorted_wrt (<) (p # ts) \<and> (\<forall>t \<in> set ts. length t \<le> max_term_bytes limits) \<and>
    m = n + length (concat ts)"
    using assms
  proof (induction ts arbitrary: n p)
    case (Cons t ts)
    then have "p < t" "length t \<le> max_term_bytes limits"
      "try_fold (dictionary_encode_check limits) (n + length t, t) ts = Inr (m, q)"
      by (auto simp: res_simps dictionary_encode_check_def[of limits "(n, p)"] checked_add_def
          split: if_splits)
    with Cons.IH[OF this(3)] show ?case by (auto intro: less_trans)
  qed simp
  then show "sorted_wrt (<) (p # ts)" "\<forall>t \<in> set ts. length t \<le> max_term_bytes limits"
    "m = n + length (concat ts)" by auto
qed

lemma encode_offsets:
  assumes "wr_ok w" "length ts * 4 \<le> wr_room w"
  shows "\<exists>o'. try_fold dictionary_encode_offset (w, of_nat n) ts =
    Inr (wr_append w (concat (map boundary_bytes (run_offsets n ts))), o')"
  using assms
proof (induction ts arbitrary: w n)
  case (Cons t ts)
  let ?w = "wr_append w (boundary_bytes (n + length t))"
  have "dictionary_encode_offset (w, of_nat n) t = Inr (?w, of_nat (n + length t))"
    using Cons.prems by (simp add: dictionary_encode_offset_def codec_simps boundary_bytes_def Let_def)
  moreover obtain o' where "try_fold dictionary_encode_offset (?w, of_nat (n + length t)) ts =
      Inr (wr_append ?w (concat (map boundary_bytes (run_offsets (n + length t) ts))), o')"
    using Cons.IH[of ?w "n + length t"] Cons.prems
    by (metis add_le_imp_le_diff add.commute length_Cons length_boundary_bytes mult_Suc wr_ok_append
        wr_room_append add_leD1)
  ultimately show ?case using Cons.prems by simp
qed simp

lemma encode_terms:
  assumes "wr_ok w" "length (concat ts) \<le> wr_room w"
  shows "try_fold writer_put w ts = Inr (wr_append w (concat ts))"
  using assms by (induction ts arbitrary: w) (simp_all add: writer_put_eq)

lemma dictionary_encode_eq:
  assumes ok: "terms_ok limits ts" and p: "p \<noteq> 0"
    and out: "slice_ok output" "16 + length (dict_body p ts) \<le> length output"
  shows "dictionary_encode p ts output limits = Inr (16 + length (dict_body p ts),
    frame 3 (dict_body p ts) @ drop (16 + length (dict_body p ts)) output)"
proof -
  let ?n = "length ts" and ?d = "length (concat ts)"
  note len = length_dict_body[of p ts] length_dict_body[of 1 ts]
  have small: "12 + ?n * 4 + ?d < 2 ^ 32" "28 + ?n * 4 + ?d \<le> max_bytes limits"
    "of_nat ?n \<le> max_terms limits"
    using ok by (auto simp: terms_ok_def len)
  have n: "u32_try_from ?n = Some (of_nat ?n)" "u32_try_from ?d = Some (of_nat ?d)"
    "unat (of_nat ?d :: u32) = ?d"
    using small(1) by (simp_all add: u32_try_from_def unat_u32_of_nat)
  have chk: "try_fold (dictionary_encode_check limits) (0, []) ts = Inr (?d, last ([] # ts))"
    using encode_check_terms[of "[]" ts limits 0] ok small(1) by (simp add: terms_ok_def usize_max_def)
  let ?len = "12 + (?n * 4 + ?d)"
  have st: "start output 3 ?len = Inr (wr_append (writer_new output) (frame_header 3 ?len))"
    using small(1) out by (intro start_eq) (simp_all add: len)
  have ar: "Option.bind (checked_add ?n 1) (\<lambda>n. Option.bind (checked_mul n 4)
      (\<lambda>n. Option.bind (checked_add n 8) (\<lambda>n. checked_add n (unat (of_nat ?d :: u32))))) = Some ?len"
    "checked_add ?len HEADER_BYTES = Some (28 + (?n * 4 + ?d))"
    using small(1) n(3) by (simp_all add: checked_add_def checked_mul_def usize_max_def HEADER_BYTES_def)
  let ?h = "frame_header 3 ?len @ le_bytes 4 p @ le_bytes 4 (of_nat ?n :: u32) @ le_bytes 4 (0 :: u32)"
  have room: "wr_ok (wr_append (writer_new output) ?h)"
    "length ts * 4 \<le> wr_room (wr_append (writer_new output) ?h)"
    using out by (simp_all add: len)
  obtain o' where offs: "try_fold dictionary_encode_offset (wr_append (writer_new output) ?h, 0) ts =
      Inr (wr_append (wr_append (writer_new output) ?h) (concat (map boundary_bytes (run_offsets 0 ts))), o')"
    using encode_offsets[of "wr_append (writer_new output) ?h" ts 0] out room by auto
  have b0: "boundary_bytes 0 = le_bytes 4 (0 :: u32)" by (simp add: boundary_bytes_def)
  show ?thesis
    unfolding dictionary_encode_def
    using p small(2,3) out offs
    by (simp add: n(1,2) chk ar st codec_simps encode_terms not_less len frame_def dict_body_def
        boundaries_def b0 del: One_nat_def)
qed

lemma check_terms_view:
  assumes "\<And>i. i < length ts \<Longrightarrow> dictionary_term d (of_nat i) = Inr (ts ! i)"
  shows "try_fold (dictionary_check_step d limits) p [0..<length ts] = Inr q \<longleftrightarrow>
    sorted_wrt (<) (p # ts) \<and> (\<forall>t \<in> set ts. t \<noteq> [] \<and> length t \<le> max_term_bytes limits) \<and>
    q = last (p # ts)"
proof -
  let ?step = "\<lambda>(p :: str) t. if t = [] \<or> length t > max_term_bytes limits then codec_fail 8 LimitExceeded
     else if t \<le> p then codec_fail 8 InvalidOrder else Inr t"
  have check_iff: "?step p t = Inr q \<longleftrightarrow> t \<noteq> [] \<and> length t \<le> max_term_bytes limits \<and> p < t \<and> q = t"
    for p t q by (auto simp: not_le)
  have "try_fold (dictionary_check_step d limits) p [0..<length ts] =
      try_fold (\<lambda>p i. ?step p (ts ! i)) p [0..<length ts]"
    by (rule try_fold_cong) (auto simp: dictionary_check_step_def assms)
  also have "\<dots> = try_fold ?step p ts"
    using try_fold_map[of ?step p "(!) ts" "[0..<length ts]"] by (simp add: map_nth)
  also have "\<dots> = Inr q \<longleftrightarrow> sorted_wrt (<) (p # ts) \<and>
      (\<forall>t \<in> set ts. t \<noteq> [] \<and> length t \<le> max_term_bytes limits) \<and> q = last (p # ts)"
  proof (induction ts arbitrary: p)
    case (Cons t ts)
    show ?case
      by (simp only: try_fold.simps and_then_Inr_iff check_iff Cons.IH)
        (auto intro: less_trans)
  qed auto
  finally show ?thesis .
qed

lemma dictionary_parse_body:
  assumes ok: "terms_ok limits ts" and p: "p \<noteq> 0"
  shows "dictionary_parse (frame 3 (dict_body p ts)) limits = Inr (dict_of p ts)"
proof -
  let ?d = "dict_of p ts" and ?n = "length ts"
  have len: "length (dict_body p ts) = length (dict_body 1 ts)" by (simp add: length_dict_body)
  have small: "length (dict_body p ts) < 2 ^ 32" "16 + length (dict_body p ts) \<le> max_bytes limits"
    "of_nat ?n \<le> max_terms limits"
    using ok by (auto simp: terms_ok_def len)
  have pay: "payload (frame 3 (dict_body p ts)) 3 (max_bytes limits) = Inr (dict_body p ts)"
    using small by (intro payload_frame)
  have sl: "slice_ok (dict_body p ts)" using small(1) by (simp add: slice_ok_def)
  have u: "unat (of_nat ?n :: u32) = ?n"
    using small(1) by (simp add: unat_u32_of_nat length_dict_body)
  have ar: "Option.bind (checked_add ?n 1) (\<lambda>n. checked_mul n 4) = Some (4 + ?n * 4)"
    using small(1) by (simp add: checked_add_def checked_mul_def usize_max_def length_dict_body)
  have at: "dictionary_term ?d (of_nat i) = Inr (ts ! i)" if "i < ?n" for i
    using term_dict_of[OF small(1) that] ok that by (simp add: terms_ok_def)
  have srt: "sorted_wrt (<) ([] # ts)" "\<forall>t \<in> set ts. t \<noteq> []"
    using ok by (fastforce simp: terms_ok_def)+
  have chk: "try_fold (dictionary_check_step ?d limits) [] [0..<?n] = Inr (last ([] # ts))"
    using check_terms_view[OF at] ok srt by (auto simp: terms_ok_def)
  have o0: "dictionary_offset ?d 0 = Inr 0" "dictionary_offset ?d (of_nat ?n) = Inr (length (concat ts))"
    using offset_dict_of[OF small(1), of 0] offset_dict_of[OF small(1), of ?n] by simp_all
  have d: "\<lparr>dict_profile = p, dict_offsets = concat (map boundary_bytes (boundaries ts)),
     dict_terms = concat ts, dict_count = of_nat ?n\<rparr> = ?d" by (simp add: dict_of_def)
  show ?thesis
    unfolding dictionary_parse_def pay
    using p sl small(3) chk o0
    by (simp add: codec_simps dict_body_def u ar not_less Let_def d del: One_nat_def)
qed

text \<open>Everything that parses has this layout.\<close>

definition offset_at :: "dictionary \<Rightarrow> nat \<Rightarrow> nat" where
  "offset_at d i = unat (from_le (take 4 (drop (i * 4) (dict_offsets d))) :: u32)"

lemma dictionary_offset_at:
  assumes len: "length (dict_offsets d) = (unat (dict_count d) + 1) * 4" and i: "i \<le> unat (dict_count d)"
  shows "dictionary_offset d (of_nat i) = Inr (offset_at d i)"
proof -
  have c: "unat (dict_count d) < 2 ^ 32" using unat_u32_lt[of "dict_count d"] by simp
  then have u: "unat (of_nat i :: u32) = i" using i by (simp add: unat_u32_of_nat)
  have "slice_ok (drop (i * 4) (dict_offsets d))" using len c by (simp add: slice_ok_def)
  then show ?thesis
    using len i c
    by (simp add: dictionary_offset_def u checked_mul_def usize_max_def reader_u32_eq offset_at_def)
qed

lemma dictionary_term_slice:
  assumes len: "length (dict_offsets d) = (unat (dict_count d) + 1) * 4" and i: "i < unat (dict_count d)"
    and t: "dictionary_term d (of_nat i) = Inr t"
  shows "offset_at d i \<le> offset_at d (Suc i)" "offset_at d (Suc i) \<le> length (dict_terms d)"
    "t = take (offset_at d (Suc i) - offset_at d i) (drop (offset_at d i) (dict_terms d))" "utf8_valid t"
proof -
  have s: "(of_nat i + 1 :: u32) = of_nat (Suc i)" by simp
  have "offset_at d i \<le> offset_at d (Suc i) \<and> offset_at d (Suc i) \<le> length (dict_terms d) \<and>
    t = take (offset_at d (Suc i) - offset_at d i) (drop (offset_at d i) (dict_terms d)) \<and> utf8_valid t"
    using t dictionary_offset_at[OF len, of i] dictionary_offset_at[OF len, of "Suc i"] i
    by (auto simp: dictionary_term_def s from_utf8_def simp del: of_nat_Suc split: if_splits)
  then show "offset_at d i \<le> offset_at d (Suc i)" "offset_at d (Suc i) \<le> length (dict_terms d)"
    "t = take (offset_at d (Suc i) - offset_at d i) (drop (offset_at d i) (dict_terms d))"
    "utf8_valid t" by auto
qed

lemma dictionary_terms_concat:
  assumes len: "length (dict_offsets d) = (unat (dict_count d) + 1) * 4"
    and n: "length ts = unat (dict_count d)" and o0: "offset_at d 0 = 0"
    and at: "\<And>i. i < length ts \<Longrightarrow> dictionary_term d (of_nat i) = Inr (ts ! i)"
  shows "i \<le> length ts \<Longrightarrow> offset_at d i = length (concat (take i ts)) \<and>
    take (offset_at d i) (dict_terms d) = concat (take i ts)"
proof (induction i)
  case (Suc i)
  then have i: "i < length ts" by simp
  note s = dictionary_term_slice[OF len i[unfolded n] at[OF i]]
  have IH: "offset_at d i = length (concat (take i ts))"
    "take (offset_at d i) (dict_terms d) = concat (take i ts)" using Suc by auto
  have "length (ts ! i) = offset_at d (Suc i) - offset_at d i"
    using arg_cong[OF s(3), of length] s(1,2) by simp
  then have o: "offset_at d (Suc i) = offset_at d i + length (ts ! i)" using s(1) by simp
  have "take (offset_at d (Suc i)) (dict_terms d) = concat (take i ts) @ ts ! i"
    unfolding o take_add IH(2) using s(3) o by simp
  then show ?case using o IH(1) i by (simp add: concat_take_Suc)
qed (simp add: o0)

lemma dictionary_parse_Inr:
  assumes p: "dictionary_parse bs limits = Inr d" and ok: "slice_ok bs"
  obtains ts where "bs = frame 3 (dict_body (dict_profile d) ts)" "d = dict_of (dict_profile d) ts"
    "terms_ok limits ts" "dict_view d ts" "dict_profile d \<noteq> 0"
proof -
  from p obtain body where body: "payload bs 3 (max_bytes limits) = Inr body"
    by (auto simp: dictionary_parse_def res_simps)
  note bs = payload_Inr[OF body ok]
  have okb: "rd_ok (reader_new body)" using bs(3) by (simp add: slice_ok_def)
  let ?n = "unat (dict_count d)"
  from p obtain r1 r2 r3 r4 q where
    r: "reader_u32 (reader_new body) = Inr (dict_profile d, r1)" "reader_u32 r1 = Inr (dict_count d, r2)"
      "reader_take r2 ((?n + 1) * 4) = Inr (dict_offsets d, r3)"
      "reader_take r3 (reader_remaining r3) = Inr (dict_terms d, r4)"
      "dictionary_offset d 0 = Inr 0"
      "dictionary_offset d (dict_count d) = Inr (length (dict_terms d))"
      "try_fold (dictionary_check_step d limits) [] [0..<?n] = Inr q"
    and good: "dict_profile d \<noteq> 0" "dict_count d \<le> max_terms limits"
    by (auto simp: dictionary_parse_def res_simps body Let_def not_less bind_eq_Some_conv
        checked_add_def checked_mul_def split: if_splits prod.splits)
  note c1 = u32_field.dec_consumes[OF okb r(1)]
  note c2 = u32_field.dec_consumes[OF consumes_ok[OF c1] r(2)]
  note c3 = reader_take_consumes[OF consumes_ok[OF c2] r(3)]
  note c4 = reader_take_consumes[OF consumes_ok[OF conjunct1[OF c3]] r(4)]
  have "rd_rest r4 = []"
    using c4 consumes_rest[of r3 "dict_terms d" r4] by (simp add: reader_remaining_rest)
  from consumes_all[OF consumes_trans[OF c1 consumes_trans[OF c2 consumes_trans[OF conjunct1[OF c3]
    conjunct1[OF c4]]]] this]
  have b: "body = le_bytes 4 (dict_profile d) @ le_bytes 4 (dict_count d) @ dict_offsets d @ dict_terms d" .
  have len: "length (dict_offsets d) = (?n + 1) * 4" using c3 by simp
  define ts where "ts = map (\<lambda>i. projr (dictionary_term d (of_nat i))) [0..<?n]"
  have n: "length ts = ?n" by (simp add: ts_def)
  have at: "dictionary_term d (of_nat i) = Inr (ts ! i)" if "i < length ts" for i
    using try_fold_reaches[OF r(7), of i] that n
    by (auto simp: dictionary_check_step_def res_simps ts_def)
  have srt: "sorted_wrt (<) ([] # ts)" "\<forall>t \<in> set ts. length t \<le> max_term_bytes limits"
    using check_terms_view[OF at, of limits "[]" q] r(7) n by auto
  have o0: "offset_at d 0 = 0" using dictionary_offset_at[OF len, of 0] r(5) by simp
  have conc: "i \<le> length ts \<Longrightarrow> offset_at d i = length (concat (take i ts)) \<and>
    take (offset_at d i) (dict_terms d) = concat (take i ts)" for i
    by (rule dictionary_terms_concat[OF len n o0]) (use at in auto)
  have on: "offset_at d ?n = length (dict_terms d)"
    using dictionary_offset_at[OF len, of ?n] r(6) by simp
  have terms: "dict_terms d = concat ts" using conc[of ?n] on n by simp
  have "dict_offsets d = concat (map (\<lambda>i. take 4 (drop (i * 4) (dict_offsets d))) [0..<?n + 1])"
    using concat_chunks[OF len] by simp
  also have "\<dots> = concat (map (\<lambda>i. boundary_bytes (boundaries ts ! i)) [0..<?n + 1])"
  proof (intro arg_cong[where f = concat] map_cong refl)
    fix i assume "i \<in> set [0..<?n + 1]"
    then have i: "i \<le> length ts" using n by auto
    have e: "boundaries ts ! i = offset_at d i" using conc[OF i] boundaries_nth[OF i] by simp
    have "i * 4 + 4 \<le> length (dict_offsets d)" using i len n by simp
    then have "length (take 4 (drop (i * 4) (dict_offsets d))) = 4" by simp
    then show "take 4 (drop (i * 4) (dict_offsets d)) = boundary_bytes (boundaries ts ! i)"
      unfolding e by (simp add: boundary_bytes_def offset_at_def le_bytes_from_le)
  qed
  also have "map (\<lambda>i. boundary_bytes (boundaries ts ! i)) [0..<?n + 1] = map boundary_bytes (boundaries ts)"
    by (rule nth_equalityI) (simp_all add: n del: upt_Suc)
  finally have offs: "dict_offsets d = concat (map boundary_bytes (boundaries ts))" .
  have cnt: "dict_count d = of_nat (length ts)" by (simp add: n)
  have body_eq: "body = dict_body (dict_profile d) ts"
    unfolding b dict_body_def offs terms by (simp add: cnt)
  have len1: "length (dict_body 1 ts) = length body" by (simp add: body_eq length_dict_body)
  show ?thesis
  proof (rule that)
    show "bs = frame 3 (dict_body (dict_profile d) ts)" using bs(1) body_eq by simp
    show "d = dict_of (dict_profile d) ts" by (simp add: dict_of_def offs[symmetric] terms[symmetric] cnt[symmetric])
    have "utf8_valid t" if "t \<in> set ts" for t
      using that dictionary_term_slice(4)[OF len _ at] n by (auto simp: in_set_conv_nth)
    then show "terms_ok limits ts"
      using srt good(2) bs cnt by (simp add: terms_ok_def len1)
    show "dict_view d ts" using srt(1) at n by (simp add: dict_view_def)
  qed (rule good(1))
qed

section \<open>Properties\<close>

text \<open>C25: a dictionary that parses contains a strictly ascending list of terms, and looking a
  term up returns its index in that list, or nothing exactly when the term is absent; neither the
  lookup nor the access to a term can fail.\<close>

theorem dictionary_lookup_correct:
  assumes "dictionary_parse bs limits = Inr d" "slice_ok bs"
  shows "\<exists>ts. length ts = unat (dict_count d) \<and> sorted_wrt (<) ts \<and>
    (\<forall>i < length ts. dictionary_term d (of_nat i) = Inr (ts ! i)) \<and>
    (\<forall>t. dictionary_lookup d t =
      Inr (if t \<in> set ts then Some (of_nat (THE i. i < length ts \<and> ts ! i = t)) else None))"
proof -
  obtain ts where v: "dict_view d ts" using dictionary_parse_Inr[OF assms] by metis
  have "(THE i. i < length ts \<and> ts ! i = t) = prefix_begin ts t" if "t \<in> set ts" for t
  proof (rule the_equality)
    show k: "prefix_begin ts t < length ts \<and> ts ! prefix_begin ts t = t"
      using lookup_view(2)[OF v that] .
    show "i = prefix_begin ts t" if "i < length ts \<and> ts ! i = t" for i
      using that k dict_view_less[OF v, of i "prefix_begin ts t"]
        dict_view_less[OF v, of "prefix_begin ts t" i] by (cases i "prefix_begin ts t" rule: linorder_cases) auto
  qed
  then have "dictionary_lookup d t =
      Inr (if t \<in> set ts then Some (of_nat (THE i. i < length ts \<and> ts ! i = t)) else None)" for t
    using lookup_view(1)[OF v, of t] by simp
  then show ?thesis using v by (auto simp: dict_view_def)
qed

theorem dictionary_lookup_correct_witness:
  "\<exists>d ts. dictionary_parse (frame 3 (dict_body 1 [[0x61], [0x62]]))
      \<lparr>max_bytes = 100, max_terms = 9, max_term_bytes = 9\<rparr> = Inr d \<and>
    length ts = unat (dict_count d) \<and> sorted_wrt (<) (ts :: str list)"
proof -
  let ?l = "\<lparr>max_bytes = 100, max_terms = 9, max_term_bytes = 9\<rparr>"
  have ok: "terms_ok ?l [[0x61], [0x62]]" by (simp add: terms_ok_def length_dict_body)
  have p: "dictionary_parse (frame 3 (dict_body 1 [[0x61], [0x62]])) ?l = Inr (dict_of 1 [[0x61], [0x62]])"
    by (rule dictionary_parse_body[OF ok]) simp
  have "slice_ok (frame 3 (dict_body 1 [[0x61], [0x62]]))" by (simp add: slice_ok_def length_dict_body)
  from dictionary_lookup_correct[OF p this] p show ?thesis by blast
qed

text \<open>C26: the prefix query returns exactly the interval of the terms that start with the prefix,
  or reports that the interval is larger than the caller allows.\<close>

theorem dictionary_prefix_exact:
  assumes "dictionary_parse bs limits = Inr d" "slice_ok bs"
  shows "\<exists>ts b e. (\<forall>i < length ts. dictionary_term d (of_nat i) = Inr (ts ! i)) \<and>
    length ts = unat (dict_count d) \<and> b \<le> e \<and> e \<le> length ts \<and>
    (\<forall>i < length ts. starts_with (ts ! i) p \<longleftrightarrow> b \<le> i \<and> i < e) \<and>
    dictionary_prefix d p m = (if e - b \<le> unat m then Inr (b, e) else codec_fail 0 LimitExceeded)"
proof -
  obtain ts where v: "dict_view d ts" using dictionary_parse_Inr[OF assms] by metis
  from prefix_view[OF v, of p m] obtain e where
    "prefix_begin ts p \<le> e" "e \<le> length ts"
    "\<And>i. i < length ts \<Longrightarrow> starts_with (ts ! i) p \<longleftrightarrow> prefix_begin ts p \<le> i \<and> i < e"
    "dictionary_prefix d p m = (if e - prefix_begin ts p \<le> unat m then Inr (prefix_begin ts p, e)
       else codec_fail 0 LimitExceeded)" by blast
  then show ?thesis using v unfolding dict_view_def by blast
qed

theorem dictionary_prefix_exact_witness:
  "\<exists>d b e. dictionary_parse (frame 3 (dict_body 1 [[0x61], [0x61, 0x62]]))
      \<lparr>max_bytes = 100, max_terms = 9, max_term_bytes = 9\<rparr> = Inr d \<and>
    dictionary_prefix d [0x61] 9 = (if e - b \<le> 9 then Inr (b, e) else codec_fail 0 LimitExceeded)"
proof -
  let ?l = "\<lparr>max_bytes = 100, max_terms = 9, max_term_bytes = 9\<rparr>" and ?ts = "[[0x61], [0x61, 0x62]]"
  have ok: "terms_ok ?l ?ts" by (simp add: terms_ok_def length_dict_body)
  have p: "dictionary_parse (frame 3 (dict_body 1 ?ts)) ?l = Inr (dict_of 1 ?ts)"
    by (rule dictionary_parse_body[OF ok]) simp
  have sl: "slice_ok (frame 3 (dict_body 1 ?ts))" by (simp add: slice_ok_def length_dict_body)
  obtain b e where "dictionary_prefix (dict_of 1 ?ts) [0x61] 9 =
      (if e - b \<le> unat (9 :: u32) then Inr (b, e) else codec_fail 0 LimitExceeded)"
    using dictionary_prefix_exact[OF p sl, of "[0x61]" 9] by blast
  with p show ?thesis by (intro exI conjI) simp_all
qed

text \<open>C27: encoding a strictly ascending list of terms succeeds in a large enough buffer, and the
  bytes parse to a dictionary whose identifiers name exactly these terms.\<close>

theorem dictionary_round_trip:
  assumes "terms_ok limits ts" "profile \<noteq> 0" "slice_ok output"
    and "16 + length (dict_body profile ts) \<le> length output"
  shows "\<exists>n out d. dictionary_encode profile ts output limits = Inr (n, out) \<and>
    dictionary_parse (take n out) limits = Inr d \<and> dict_profile d = profile \<and>
    unat (dict_count d) = length ts \<and>
    (\<forall>i < length ts. dictionary_term d (of_nat i) = Inr (ts ! i))"
proof -
  have small: "length (dict_body profile ts) < 2 ^ 32"
    using assms(1) by (simp add: terms_ok_def length_dict_body)
  have "\<forall>i < length ts. dictionary_term (dict_of profile ts) (of_nat i) = Inr (ts ! i)"
    using term_dict_of[OF small] assms(1) by (simp add: terms_ok_def)
  moreover have "unat (dict_count (dict_of profile ts)) = length ts" "dict_profile (dict_of profile ts) = profile"
    using small by (simp_all add: dict_of_def length_dict_body unat_u32_of_nat)
  ultimately show ?thesis
    using dictionary_encode_eq[OF assms] dictionary_parse_body[OF assms(1,2)] by simp
qed

theorem dictionary_round_trip_witness:
  "\<exists>n out d. dictionary_encode 1 [[0x61], [0x62]] (replicate 64 0)
      \<lparr>max_bytes = 100, max_terms = 9, max_term_bytes = 9\<rparr> = Inr (n, out) \<and>
    dictionary_parse (take n out) \<lparr>max_bytes = 100, max_terms = 9, max_term_bytes = 9\<rparr> = Inr d"
  using dictionary_round_trip[of "\<lparr>max_bytes = 100, max_terms = 9, max_term_bytes = 9\<rparr>"
      "[[0x61], [0x62]]" 1 "replicate 64 0"]
  by (auto simp: terms_ok_def length_dict_body slice_ok_def)

end
