(* ===== verification/Positions.thy ===== *)
theory Positions
  imports Bytes
begin

text \<open>
  Counted delta streams of positions (crates/pin-core/src/codec/positions.rs). The iterator is a
  state with one step; \<open>position_drain\<close> is the loop \<open>for position in iter.by_ref() { position?; }\<close>
  and also returns the positions that the loop saw.
\<close>

section \<open>The format\<close>

record positions =
  pos_payload :: bytes
  pos_count :: u32

record position_iter =
  it_reader :: reader
  it_remaining :: u32
  it_previous :: u32
  it_first :: bool

definition positions_iter :: "positions \<Rightarrow> position_iter" where
  "positions_iter self =
     \<lparr>it_reader = reader_new (pos_payload self), it_remaining = pos_count self, it_previous = 0,
      it_first = True\<rparr>"

definition position_iter_next :: "position_iter \<Rightarrow> u32 codec_result option \<times> position_iter" where
  "position_iter_next self =
     (if it_remaining self = 0 then (None, self)
      else
        let offset = rd_offset (it_reader self) in
        case reader_var_u32 (it_reader self) of
          Inl e \<Rightarrow> (Some (Inl e), self\<lparr>it_remaining := 0\<rparr>)
        | Inr (delta, reader) \<Rightarrow>
            let self = self\<lparr>it_reader := reader\<rparr>;
                nxt = (if \<not> it_first self \<and> delta = 0 then codec_fail offset InvalidOrder
                       else ok_or (CodecError offset Overflow) (checked_add_w (it_previous self) delta))
            in case nxt of
                 Inr value \<Rightarrow>
                   (Some nxt, self\<lparr>it_previous := value, it_first := False,
                                    it_remaining := it_remaining self - 1\<rparr>)
               | Inl _ \<Rightarrow> (Some nxt, self\<lparr>it_remaining := 0\<rparr>))"

lemma position_iter_next_remaining:
  assumes "position_iter_next it = (Some x, it')"
  shows "unat (it_remaining it') < unat (it_remaining it)"
proof -
  have nz: "it_remaining it \<noteq> 0" using assms by (auto simp: position_iter_next_def)
  then have "unat (it_remaining it - 1) < unat (it_remaining it)"
    by (simp add: unat_minus_one unat_gt_0)
  moreover have "it_remaining it' = 0 \<or> it_remaining it' = it_remaining it - 1"
    using assms nz
    by (auto simp: position_iter_next_def Let_def split: sum.splits prod.splits)
  ultimately show ?thesis using nz by (auto simp: unat_gt_0)
qed

lemma position_iter_next_Some:
  "it_remaining it \<noteq> 0 \<Longrightarrow> \<exists>x it'. position_iter_next it = (Some x, it')"
  by (auto simp: position_iter_next_def Let_def split: sum.splits prod.splits)

function position_drain :: "position_iter \<Rightarrow> (u32 list \<times> position_iter) codec_result" where
  "position_drain iter =
     (case position_iter_next iter of
        (None, iter) \<Rightarrow> Inr ([], iter)
      | (Some item, iter) \<Rightarrow>
          and_then item (\<lambda>position.
          and_then (position_drain iter) (\<lambda>(positions, iter). Inr (position # positions, iter))))"
  by pat_completeness auto
termination
  by (relation "measure (\<lambda>iter. unat (it_remaining iter))")
    (auto dest: position_iter_next_remaining[OF sym])

declare position_drain.simps [simp del]

definition positions_parse :: "bytes \<Rightarrow> u32 \<Rightarrow> positions codec_result" where
  "positions_parse bs max_positions =
     and_then (reader_u32 (reader_new bs)) (\<lambda>(count, reader).
     if count > max_positions then codec_fail 0 LimitExceeded
     else if unat count > reader_remaining reader then codec_fail 4 Truncated
     else
     and_then (reader_take reader (reader_remaining reader)) (\<lambda>(payload, reader).
     let view = \<lparr>pos_payload = payload, pos_count = count\<rparr> in
     and_then (position_drain (positions_iter view)) (\<lambda>(_, iter).
     and_then (reader_finish (it_reader iter)) (\<lambda>_. Inr view))))"

text \<open>The size loop of \<open>encode\<close> over the enumerated positions: bytes so far and the previous position.\<close>

definition positions_size_step :: "nat \<times> u32 \<Rightarrow> nat \<times> u32 \<Rightarrow> (nat \<times> u32) codec_result" where
  "positions_size_step st item =
     (let (bytes, previous) = st; (index, position) = item in
      if index \<noteq> 0 \<and> position \<le> previous then codec_fail index InvalidOrder
      else and_then (ok_or (CodecError index Overflow)
             (checked_add bytes (var_u32_len (position - previous))))
           (\<lambda>bytes. Inr (bytes, position)))"

definition positions_write_step :: "writer \<times> u32 \<Rightarrow> u32 \<Rightarrow> (writer \<times> u32) codec_result" where
  "positions_write_step st position =
     and_then (writer_var_u32 (fst st) (position - snd st)) (\<lambda>writer. Inr (writer, position))"

definition positions_encode :: "u32 list \<Rightarrow> bytes \<Rightarrow> u32 \<Rightarrow> (nat \<times> bytes) codec_result" where
  "positions_encode ps output max_positions =
     and_then (ok_or (CodecError 0 LimitExceeded) (u32_try_from (length ps))) (\<lambda>count.
     if count > max_positions then codec_fail 0 LimitExceeded else
     and_then (try_fold positions_size_step (4, 0) (enumerate 0 ps)) (\<lambda>(bytes, _).
     if length output < bytes then codec_fail 0 Truncated else
     and_then (writer_u32 (writer_new output) count) (\<lambda>writer.
     and_then (try_fold positions_write_step (writer, 0) ps) (\<lambda>(writer, _).
       Inr (wr_offset writer, wr_bytes writer)))))"

section \<open>Delta streams\<close>

fun delta_bytes :: "u32 \<Rightarrow> u32 list \<Rightarrow> bytes" where
  "delta_bytes previous [] = []"
| "delta_bytes previous (p # ps) = var_bytes (p - previous) @ delta_bytes p ps"

text \<open>The positions that may follow \<open>previous\<close>; the first of a list is unconstrained.\<close>

definition follows :: "bool \<Rightarrow> u32 \<Rightarrow> u32 list \<Rightarrow> bool" where
  "follows first previous ps \<longleftrightarrow> sorted_wrt (<) ps \<and> (\<forall>p \<in> set ps. if first then previous \<le> p else previous < p)"

lemma follows_Cons:
  "follows first previous (p # ps) \<longleftrightarrow>
     (if first then previous \<le> p else previous < p) \<and> follows False p ps"
  by (auto simp: follows_def)

lemma follows_Nil [simp]: "follows first previous []"
  by (simp add: follows_def)

lemma follows_start: "follows True 0 ps \<longleftrightarrow> sorted_wrt (<) ps"
  by (simp add: follows_def)

lemma checked_add_delta:
  fixes a b :: "'a::len word"
  shows "a \<le> b \<Longrightarrow> checked_add_w a (b - a) = Some b"
    and "checked_add_w a d = Some b \<Longrightarrow> a \<le> b \<and> d = b - a"
proof -
  assume le: "a \<le> b"
  then have "unat (b - a) = unat b - unat a" by (rule unat_sub)
  then show "checked_add_w a (b - a) = Some b"
    using le unat_lt2p[of b] by (simp add: checked_add_w_def word_le_nat_alt)
next
  assume "checked_add_w a d = Some b"
  then have s: "unat a + unat d < 2 ^ LENGTH('a)" "b = a + d"
    by (auto simp: checked_add_w_def split: if_splits)
  then have "unat b = unat a + unat d" by (simp add: unat_word_ariths)
  then show "a \<le> b \<and> d = b - a" using s(2) by (simp add: word_le_nat_alt)
qed

lemma word_diff_eq_0: "(b :: 'a::len word) - a = 0 \<longleftrightarrow> b = a"
  by auto

lemma drain_deltas:
  assumes "rd_ok r" "rd_rest r = delta_bytes previous ps @ xs" "follows first previous ps"
    and "length ps < 2 ^ 32"
  shows "\<exists>it. position_drain \<lparr>it_reader = r, it_remaining = of_nat (length ps), it_previous = previous,
      it_first = first\<rparr> = Inr (ps, it) \<and> it_reader it = rd_skip r (length (delta_bytes previous ps))"
  using assms
proof (induction ps arbitrary: r previous first)
  case Nil
  then show ?case by (subst position_drain.simps) (simp add: position_iter_next_def)
next
  case (Cons p ps)
  let ?r = "rd_skip r (length (var_bytes (p - previous)))"
  have le: "previous \<le> p" and f: "follows False p ps" "first \<or> previous < p"
    using Cons.prems(3) by (auto simp: follows_Cons split: if_splits)
  have v: "reader_var_u32 r = Inr (p - previous, ?r)"
    by (rule var_u32_field.dec_enc) (use Cons.prems in auto)
  have n: "(of_nat (length (p # ps)) :: u32) \<noteq> 0" "(of_nat (length (p # ps)) :: u32) - 1 = of_nat (length ps)"
  proof -
    have "unat (of_nat (length (p # ps)) :: u32) = length (p # ps)"
      using Cons.prems(4) by (intro unat_u32_of_nat) simp
    then show "(of_nat (length (p # ps)) :: u32) \<noteq> 0" by (metis length_0_conv list.distinct(1) unat_0)
  qed simp
  obtain it where "position_drain \<lparr>it_reader = ?r, it_remaining = of_nat (length ps), it_previous = p,
      it_first = False\<rparr> = Inr (ps, it)" "it_reader it = rd_skip ?r (length (delta_bytes p ps))"
    using Cons.IH[of ?r p False] Cons.prems f(1) by auto
  moreover have "position_iter_next \<lparr>it_reader = r, it_remaining = of_nat (length (p # ps)),
      it_previous = previous, it_first = first\<rparr> = (Some (Inr p),
      \<lparr>it_reader = ?r, it_remaining = of_nat (length ps), it_previous = p, it_first = False\<rparr>)"
    using n f(2) checked_add_delta(1)[OF le] unfolding position_iter_next_def
    by (auto simp: v word_diff_eq_0 Let_def)
  ultimately show ?case by (subst position_drain.simps) simp
qed

lemma drain_Inr:
  assumes "position_drain it = Inr (ps, it')" "rd_ok (it_reader it)"
  shows "consumes (it_reader it) (delta_bytes (it_previous it) ps) (it_reader it') \<and>
    follows (it_first it) (it_previous it) ps \<and> length ps = unat (it_remaining it)"
  using assms
proof (induction it arbitrary: ps rule: position_drain.induct)
  case (1 it)
  show ?case
  proof (cases "it_remaining it = 0")
    case True
    then show ?thesis using "1.prems"
      by (subst (asm) position_drain.simps) (simp add: position_iter_next_def consumes_Nil)
  next
    case False
    obtain x it2 where nx0: "position_iter_next it = (Some x, it2)"
      using position_iter_next_Some[OF False] by blast
    have "and_then x (\<lambda>p. and_then (position_drain it2) (\<lambda>(qs, i). Inr (p # qs, i))) = Inr (ps, it')"
      using "1.prems"(1) unfolding position_drain.simps[of it] nx0 by simp
    then obtain p qs where x: "x = Inr p" and dr: "position_drain it2 = Inr (qs, it')" "ps = p # qs"
      by (auto simp: res_simps)
    have nx: "position_iter_next it = (Some (Inr p), it2)" using nx0 x by simp
    from nx obtain d where d: "reader_var_u32 (it_reader it) = Inr (d, it_reader it2)"
      "it_previous it2 = p" "it_first it2 = False" "it_remaining it2 = it_remaining it - 1"
      "it_first it \<or> d \<noteq> 0" "checked_add_w (it_previous it) d = Some p"
      using False
      by (auto simp: position_iter_next_def Let_def res_simps split: sum.splits prod.splits if_splits)
    note c = var_u32_field.dec_consumes[OF "1.prems"(2) d(1)]
    have IH: "consumes (it_reader it2) (delta_bytes p qs) (it_reader it') \<and> follows False p qs \<and>
        length qs = unat (it_remaining it2)"
      using "1.IH"[OF nx[symmetric] _ _ dr(1)] consumes_ok[OF c] d by auto
    have le: "it_previous it \<le> p" "d = p - it_previous it"
      using checked_add_delta(2)[OF d(6)] by auto
    have "if it_first it then it_previous it \<le> p else it_previous it < p"
      using le d(5) by (auto simp: word_diff_eq_0 order_less_le)
    moreover have "unat (it_remaining it) = Suc (unat (it_remaining it2))"
      using False d(4) by (simp add: unat_minus_one unat_gt_0)
    ultimately show ?thesis
      using consumes_trans[OF c conjunct1[OF IH]] IH le dr(2) by (simp add: follows_Cons)
  qed
qed

lemma length_delta_bytes: "length ps \<le> length (delta_bytes previous ps)"
proof (induction ps arbitrary: previous)
  case (Cons p ps)
  have "0 < length (var_bytes (p - previous))" by (simp only: length_greater_0_conv) simp
  then show ?case using Cons.IH[of p] by (simp only: delta_bytes.simps length_append list.size)
qed simp

section \<open>Round trip\<close>

definition positions_bytes :: "u32 list \<Rightarrow> bytes" where
  "positions_bytes ps = le_bytes 4 (of_nat (length ps) :: u32) @ delta_bytes 0 ps"

definition positions_of :: "u32 list \<Rightarrow> positions" where
  "positions_of ps = \<lparr>pos_payload = delta_bytes 0 ps, pos_count = of_nat (length ps)\<rparr>"

lemma positions_drain_of:
  assumes "sorted_wrt (<) ps" "length ps < 2 ^ 32" "slice_ok (delta_bytes 0 ps)"
  shows "\<exists>it. position_drain (positions_iter (positions_of ps)) = Inr (ps, it) \<and> rd_rest (it_reader it) = []"
  using drain_deltas[of "reader_new (delta_bytes 0 ps)" 0 ps "[]" True] assms
  by (auto simp: positions_iter_def positions_of_def follows_start)

lemma positions_parse_bytes:
  assumes "sorted_wrt (<) ps" "length ps < 2 ^ 32" "slice_ok (positions_bytes ps)"
    and "of_nat (length ps) \<le> max_positions"
  shows "positions_parse (positions_bytes ps) max_positions = Inr (positions_of ps)"
proof -
  have sl: "slice_ok (delta_bytes 0 ps)" using assms(3) by (simp add: slice_ok_def positions_bytes_def)
  have u: "unat (of_nat (length ps) :: u32) = length ps" using assms(2) by (simp add: unat_u32_of_nat)
  have v: "\<lparr>pos_payload = delta_bytes 0 ps, pos_count = of_nat (length ps)\<rparr> = positions_of ps"
    by (simp add: positions_of_def)
  obtain it where "position_drain (positions_iter (positions_of ps)) = Inr (ps, it)"
      "rd_rest (it_reader it) = []"
    using positions_drain_of[OF assms(1,2) sl] by blast
  then show ?thesis
    using assms(3,4) length_delta_bytes[of ps 0]
    by (simp add: positions_parse_def codec_simps positions_bytes_def u not_less Let_def v)
qed

lemma positions_parse_Inr:
  assumes p: "positions_parse bs max_positions = Inr view" and ok: "slice_ok bs"
  obtains ps where "bs = positions_bytes ps" "view = positions_of ps" "sorted_wrt (<) ps"
    "length ps < 2 ^ 32" "of_nat (length ps) \<le> max_positions"
proof -
  from p obtain r1 r2 ps it where
    r: "reader_u32 (reader_new bs) = Inr (pos_count view, r1)"
      "reader_take r1 (reader_remaining r1) = Inr (pos_payload view, r2)"
      "position_drain (positions_iter view) = Inr (ps, it)" "rd_rest (it_reader it) = []"
    and m: "pos_count view \<le> max_positions"
    by (auto simp: positions_parse_def res_simps reader_finish_Inr Let_def not_less
        split: if_splits prod.splits)
  note c1 = u32_field.dec_consumes[OF _ r(1)]
  have c1: "consumes (reader_new bs) (le_bytes 4 (pos_count view)) r1"
    using u32_field.dec_consumes[OF _ r(1)] ok by simp
  note c2 = reader_take_consumes[OF consumes_ok[OF c1] r(2)]
  have "rd_rest r2 = []"
    using c2 consumes_rest[of r1 "pos_payload view" r2] by (simp add: reader_remaining_rest)
  from consumes_all[OF consumes_trans[OF c1 conjunct1[OF c2]] this]
  have b: "bs = le_bytes 4 (pos_count view) @ pos_payload view" .
  have "rd_ok (it_reader (positions_iter view))"
    using ok b by (simp add: positions_iter_def slice_ok_def)
  from drain_Inr[OF r(3) this]
  have d: "consumes (reader_new (pos_payload view)) (delta_bytes 0 ps) (it_reader it)"
    "sorted_wrt (<) ps" "length ps = unat (pos_count view)"
    by (auto simp: positions_iter_def follows_start)
  have pay: "pos_payload view = delta_bytes 0 ps" using consumes_all[OF d(1) r(4)] .
  show ?thesis
  proof (rule that)
    show "bs = positions_bytes ps" using b pay d(3) by (simp add: positions_bytes_def)
    show "view = positions_of ps" using pay d(3) by (simp add: positions_of_def)
    show "length ps < 2 ^ 32" using d(3) unat_u32_lt[of "pos_count view"] by simp
  qed (use d m in auto)
qed

lemma size_steps:
  assumes "follows (i = 0) previous ps" "n + length (delta_bytes previous ps) \<le> usize_max"
  shows "try_fold positions_size_step (n, previous) (enumerate i ps) =
    Inr (n + length (delta_bytes previous ps), last (previous # ps))"
  using assms
proof (induction ps arbitrary: i n previous)
  case (Cons p ps)
  then have "\<not> (i \<noteq> 0 \<and> p \<le> previous)" "follows (Suc i = 0) p ps"
    by (auto simp: follows_Cons split: if_splits)
  then show ?case
    using Cons.prems(2) Cons.IH[of "Suc i" p "n + length (var_bytes (p - previous))"]
    by (simp add: positions_size_step_def checked_add_def var_u32_len_length add.assoc)
qed simp

lemma size_steps_Inr:
  "try_fold positions_size_step (n, previous) (enumerate i ps) = Inr (m, q) \<Longrightarrow> i \<noteq> 0 \<or> previous = 0 \<Longrightarrow>
    follows (i = 0) previous ps \<and> m = n + length (delta_bytes previous ps)"
proof (induction ps arbitrary: i n previous)
  case (Cons p ps)
  then have "if i = 0 then previous \<le> p else previous < p"
    "try_fold positions_size_step (n + length (var_bytes (p - previous)), p) (enumerate (Suc i) ps) = Inr (m, q)"
    by (auto simp: res_simps positions_size_step_def[of "(n, previous)"] checked_add_def
        var_u32_len_length word_gt_0 split: if_splits)
  with Cons.IH[OF this(2)] show ?case by (simp add: follows_Cons)
qed simp

lemma write_steps:
  assumes "wr_ok w" "length (delta_bytes previous ps) \<le> wr_room w"
  shows "try_fold positions_write_step (w, previous) ps =
    Inr (wr_append w (delta_bytes previous ps), last (previous # ps))"
  using assms
proof (induction ps arbitrary: w previous)
  case (Cons p ps)
  let ?w = "wr_append w (var_bytes (p - previous))"
  have "positions_write_step (w, previous) p = Inr (?w, p)"
    using Cons.prems by (simp add: positions_write_step_def codec_simps)
  moreover have "try_fold positions_write_step (?w, p) ps = Inr (wr_append ?w (delta_bytes p ps), last (p # ps))"
    by (rule Cons.IH) (use Cons.prems in auto)
  ultimately show ?case using Cons.prems by simp
qed simp

lemma positions_encode_eq:
  assumes "sorted_wrt (<) ps" "length ps < 2 ^ 32" "of_nat (length ps) \<le> max_positions"
    and "slice_ok output" "length (positions_bytes ps) \<le> length output"
  shows "positions_encode ps output max_positions = Inr (length (positions_bytes ps),
    positions_bytes ps @ drop (length (positions_bytes ps)) output)"
proof -
  have "4 + length (delta_bytes 0 ps) \<le> length output"
    using assms(5) by (simp add: positions_bytes_def)
  moreover have "length output < 2 ^ 63" using assms(4) by (simp add: slice_ok_def)
  ultimately have sz: "try_fold positions_size_step (4, 0) (enumerate 0 ps) =
      Inr (4 + length (delta_bytes 0 ps), last (0 # ps))"
    using size_steps[of 0 0 ps 4] assms(1) by (simp add: follows_start usize_max_def)
  show ?thesis
    using assms(2-)
    by (simp add: positions_encode_def u32_try_from_def not_less sz codec_simps write_steps
        positions_bytes_def)
qed

section \<open>Properties\<close>

text \<open>A strictly ascending list of positions encodes into any large enough buffer, and the
  bytes parse to a view whose iterator yields exactly the list, without an error.\<close>

theorem positions_round_trip:
  assumes "sorted_wrt (<) ps" "length ps < 2 ^ 32" "of_nat (length ps) \<le> max_positions"
    and "slice_ok output" "length (positions_bytes ps) \<le> length output"
  shows "\<exists>n out view it. positions_encode ps output max_positions = Inr (n, out) \<and>
    positions_parse (take n out) max_positions = Inr view \<and>
    position_drain (positions_iter view) = Inr (ps, it)"
proof -
  have sl: "slice_ok (positions_bytes ps)" "slice_ok (delta_bytes 0 ps)"
    using assms(4,5) by (simp_all add: slice_ok_def positions_bytes_def)
  show ?thesis
    using positions_encode_eq[OF assms] positions_parse_bytes[OF assms(1,2) sl(1) assms(3)]
      positions_drain_of[OF assms(1,2) sl(2)] by auto
qed

theorem positions_round_trip_witness:
  "\<exists>n out view it. positions_encode [3, 5, 900] (replicate 40 0) 10 = Inr (n, out) \<and>
    positions_parse (take n out) 10 = Inr view \<and> position_drain (positions_iter view) = Inr ([3, 5, 900], it)"
proof (rule positions_round_trip)
  show "length (positions_bytes [3, 5, 900]) \<le> length (replicate 40 (0 :: u8))"
    using length_var_u32_le[of 3] length_var_u32_le[of 2] length_var_u32_le[of 895]
    by (simp add: positions_bytes_def)
qed (simp_all add: slice_ok_def)

text \<open>The position format is canonical: bytes that parse are the encoding of the strictly
  ascending list that the view iterates over.\<close>

theorem positions_canonical:
  assumes "positions_parse bs max_positions = Inr view" "slice_ok bs"
  shows "\<exists>ps it. sorted_wrt (<) ps \<and> length ps = unat (pos_count view) \<and>
    position_drain (positions_iter view) = Inr (ps, it) \<and>
    positions_encode ps bs max_positions = Inr (length bs, bs)"
proof -
  obtain ps where ps: "bs = positions_bytes ps" "view = positions_of ps" "sorted_wrt (<) ps"
    "length ps < 2 ^ 32" "of_nat (length ps) \<le> max_positions"
    using positions_parse_Inr[OF assms] by metis
  have "slice_ok (delta_bytes 0 ps)" using assms(2) ps(1) by (simp add: slice_ok_def positions_bytes_def)
  from positions_drain_of[OF ps(3,4) this] obtain it where
    it: "position_drain (positions_iter view) = Inr (ps, it)" using ps(2) by auto
  have "length ps = unat (pos_count view)" using ps(2,4) by (simp add: positions_of_def unat_u32_of_nat)
  moreover have "positions_encode ps bs max_positions = Inr (length bs, bs)"
    using positions_encode_eq[OF ps(3-5) assms(2)] ps(1) by simp
  ultimately show ?thesis using ps(3) it by blast
qed

theorem positions_canonical_witness:
  "\<exists>ps it. position_drain (positions_iter (positions_of [4, 9])) = Inr (ps, it) \<and>
    sorted_wrt (<) ps"
proof -
  have sl: "slice_ok (positions_bytes [4, 9])"
    using length_var_u32_le[of 4] length_var_u32_le[of 5] by (simp add: positions_bytes_def slice_ok_def)
  have "positions_parse (positions_bytes [4, 9]) 7 = Inr (positions_of [4, 9])"
    by (rule positions_parse_bytes) (simp_all add: sl)
  from positions_canonical[OF this sl] show ?thesis by blast
qed

end
