(* ===== verification/PositionBlocks.thy ===== *)
theory PositionBlocks
  imports Positions
begin

text \<open>
  Blocked position lists with a searchable directory
  (crates/pin-core/src/codec/position_blocks.rs). \<open>blocks_view\<close> says which list of blocks a view
  denotes; \<open>open\<close> with \<open>validate_all\<close> establishes it, \<open>encode\<close> produces it and \<open>seek_ge\<close> is
  correct under it.
\<close>

section \<open>The format\<close>

definition BLOCK_POSITIONS :: nat where
  "BLOCK_POSITIONS = 128"

definition HEADER :: nat where
  "HEADER = 8"

definition ENTRY :: nat where
  "ENTRY = 16"

text \<open>\<open>b"PB01"\<close>.\<close>

definition MAGIC :: bytes where
  "MAGIC = [0x50, 0x42, 0x30, 0x31]"

record position_blocks =
  pb_directory :: bytes
  pb_payload :: bytes
  pb_count :: u32

record pos_block =
  blk_first :: u32
  blk_last :: u32
  blk_start :: nat
  blk_end :: nat

record seek_result =
  sr_position :: "u32 option"
  sr_decoded_positions :: nat
  sr_decoded_bytes :: nat

definition blocks_blocks :: "position_blocks \<Rightarrow> nat" where
  "blocks_blocks self = length (pb_directory self) div ENTRY"

definition blocks_block_len :: "position_blocks \<Rightarrow> nat \<Rightarrow> nat" where
  "blocks_block_len self index = min (unat (pb_count self) - index * BLOCK_POSITIONS) BLOCK_POSITIONS"

definition blocks_block :: "position_blocks \<Rightarrow> nat \<Rightarrow> pos_block codec_result" where
  "blocks_block self index =
     and_then (reader_u32 (reader_new (take ENTRY (drop (index * ENTRY) (pb_directory self))))) (\<lambda>(first, reader).
     and_then (reader_u32 reader) (\<lambda>(last_pos, reader).
     and_then (reader_u32 reader) (\<lambda>(start_at, reader).
     and_then (reader_u32 reader) (\<lambda>(end_at, reader).
       Inr \<lparr>blk_first = first, blk_last = last_pos, blk_start = unat start_at, blk_end = unat end_at\<rparr>))))"

definition blocks_open_step ::
  "position_blocks \<Rightarrow> nat \<times> u32 option \<Rightarrow> nat \<Rightarrow> (nat \<times> u32 option) codec_result" where
  "blocks_open_step view st index =
     and_then (blocks_block view index) (\<lambda>block.
     let n = blocks_block_len view index; at = HEADER + index * ENTRY in
     and_then (ok_or (CodecError at InvalidValue) (checked_sub (blk_end block) (blk_start block))) (\<lambda>len.
     if blk_start block \<noteq> fst st \<or> blk_end block > length (pb_payload view) \<or> len < n - 1 \<or>
        len > (n - 1) * 5 \<or> blk_first block > blk_last block \<or>
        (n = 1 \<and> blk_first block \<noteq> blk_last block) \<or>
        unat (blk_last block) - unat (blk_first block) < n - 1
     then codec_fail at InvalidValue
     else if (case snd st of Some l \<Rightarrow> l \<ge> blk_first block | None \<Rightarrow> False)
     then codec_fail at InvalidOrder
     else Inr (blk_end block, Some (blk_last block))))"

definition blocks_open :: "bytes \<Rightarrow> u32 \<Rightarrow> position_blocks codec_result" where
  "blocks_open bs max_positions =
     and_then (reader_take (reader_new bs) 4) (\<lambda>(magic, reader).
     if magic \<noteq> MAGIC then codec_fail 0 BadMagic else
     and_then (reader_u32 reader) (\<lambda>(count, reader).
     if count > max_positions then codec_fail 4 LimitExceeded else
     let blocks = div_ceil (unat count) BLOCK_POSITIONS in
     and_then (ok_or (CodecError 4 Overflow) (checked_mul blocks ENTRY)) (\<lambda>directory_len.
     and_then (reader_take reader directory_len) (\<lambda>(directory, reader).
     and_then (reader_take reader (reader_remaining reader)) (\<lambda>(payload, reader).
     let view = \<lparr>pb_directory = directory, pb_payload = payload, pb_count = count\<rparr> in
     and_then (try_fold (blocks_open_step view) (0, None) [0..<blocks]) (\<lambda>(end_at, _).
     if end_at \<noteq> length payload then codec_fail (HEADER + directory_len + end_at) TrailingBytes
     else Inr view))))))"

text \<open>The delta loop of \<open>decode\<close>, once per remaining position of the block.\<close>

fun blocks_decode_loop ::
  "u32 \<Rightarrow> nat \<Rightarrow> reader \<Rightarrow> u32 \<Rightarrow> u32 option \<Rightarrow> (reader \<times> u32 \<times> u32 option) codec_result" where
  "blocks_decode_loop target 0 reader position found = Inr (reader, position, found)"
| "blocks_decode_loop target (Suc k) reader position found =
     (let offset = rd_offset reader in
      and_then (reader_var_u32 reader) (\<lambda>(delta, reader).
      if delta = 0 then codec_fail offset InvalidOrder else
      and_then (ok_or (CodecError offset Overflow) (checked_add_w position delta)) (\<lambda>position.
      blocks_decode_loop target k reader position
        (if found = None \<and> position \<ge> target then Some position else found))))"

definition blocks_decode :: "position_blocks \<Rightarrow> nat \<Rightarrow> u32 \<Rightarrow> seek_result codec_result" where
  "blocks_decode self index target =
     and_then (blocks_block self index) (\<lambda>block.
     let reader = reader_new (take (blk_end block - blk_start block) (drop (blk_start block) (pb_payload self)));
         position = blk_first block;
         found = (if position \<ge> target then Some position else None) in
     and_then (blocks_decode_loop target (blocks_block_len self index - 1) reader position found)
       (\<lambda>(reader, position, found).
     and_then (reader_finish reader) (\<lambda>_.
     if position \<noteq> blk_last block then codec_fail (blk_start block) InvalidValue
     else Inr \<lparr>sr_position = found, sr_decoded_positions = blocks_block_len self index,
               sr_decoded_bytes = blk_end block - blk_start block\<rparr>)))"

definition blocks_seek_ge :: "position_blocks \<Rightarrow> u32 \<Rightarrow> seek_result codec_result" where
  "blocks_seek_ge self target =
     and_then (lower_bound_loop
       (\<lambda>mid. and_then (blocks_block self mid) (\<lambda>block. Inr (blk_last block < target)))
       0 (blocks_blocks self)) (\<lambda>lo.
     if lo = blocks_blocks self
     then Inr \<lparr>sr_position = None, sr_decoded_positions = 0, sr_decoded_bytes = 0\<rparr>
     else blocks_decode self lo target)"

definition blocks_validate_all :: "position_blocks \<Rightarrow> unit codec_result" where
  "blocks_validate_all self =
     try_fold (\<lambda>_ index. and_then (blocks_decode self index 0) (\<lambda>_. Inr ())) () [0..<blocks_blocks self]"

definition blocks_size_pair :: "nat \<Rightarrow> u32 \<times> u32 \<Rightarrow> nat codec_result" where
  "blocks_size_pair payload_len pair =
     ok_or (CodecError 0 Overflow) (checked_add payload_len (var_u32_len (snd pair - fst pair)))"

definition blocks_write_block :: "writer \<times> writer \<Rightarrow> u32 list \<Rightarrow> (writer \<times> writer) codec_result" where
  "blocks_write_block st block =
     (let (header, data) = st in
      and_then (writer_u32 header (block ! 0)) (\<lambda>header.
      and_then (writer_u32 header (block ! (length block - 1))) (\<lambda>header.
      and_then (writer_u32 header (of_nat (wr_offset data))) (\<lambda>header.
      and_then (try_fold (\<lambda>data pair. writer_var_u32 data (snd pair - fst pair)) data (windows2 block)) (\<lambda>data.
      and_then (writer_u32 header (of_nat (wr_offset data))) (\<lambda>header. Inr (header, data)))))))"

definition blocks_encode :: "u32 list \<Rightarrow> bytes \<Rightarrow> u32 \<Rightarrow> (nat \<times> bytes) codec_result" where
  "blocks_encode ps output max_positions =
     and_then (ok_or (CodecError 0 LimitExceeded) (u32_try_from (length ps))) (\<lambda>count.
     if count > max_positions then codec_fail 0 LimitExceeded else
     and_then (try_fold (\<lambda>_ (index, a, b). if a \<ge> b then codec_fail index InvalidOrder else Inr ())
       () (enumerate 0 (windows2 ps))) (\<lambda>_.
     let blocks = div_ceil (length ps) BLOCK_POSITIONS in
     and_then (ok_or (CodecError 0 Overflow)
       (Option.bind (checked_mul blocks ENTRY) (\<lambda>n. checked_add n HEADER))) (\<lambda>directory_len.
     and_then (try_fold (\<lambda>len block. try_fold blocks_size_pair len (windows2 block)) 0
       (chunks BLOCK_POSITIONS ps)) (\<lambda>payload_len.
     and_then (ok_or (CodecError 0 LimitExceeded) (u32_try_from payload_len)) (\<lambda>_.
     and_then (ok_or (CodecError 0 Overflow) (checked_add directory_len payload_len)) (\<lambda>total_len.
     if length output < total_len then codec_fail 0 Truncated else
     and_then (writer_put (writer_new (take directory_len output)) MAGIC) (\<lambda>header.
     and_then (writer_u32 header count) (\<lambda>header.
     and_then (try_fold blocks_write_block
       (header, writer_new (take payload_len (drop directory_len output)))
       (chunks BLOCK_POSITIONS ps)) (\<lambda>(header, data).
       Inr (total_len, wr_bytes header @ wr_bytes data @ drop total_len output))))))))))"

lemmas block_consts = BLOCK_POSITIONS_def HEADER_def ENTRY_def

section \<open>Views\<close>

definition block_payload :: "u32 list \<Rightarrow> bytes" where
  "block_payload c = delta_bytes (hd c) (tl c)"

definition block_entry :: "nat \<Rightarrow> u32 list \<Rightarrow> pos_block" where
  "block_entry s c = \<lparr>blk_first = hd c, blk_last = last c, blk_start = s,
     blk_end = s + length (block_payload c)\<rparr>"

definition blocks_view :: "position_blocks \<Rightarrow> u32 list list \<Rightarrow> bool" where
  "blocks_view v cs \<longleftrightarrow> length cs = blocks_blocks v \<and> sorted_wrt (<) (concat cs) \<and>
     slice_ok (pb_payload v) \<and>
     (\<forall>i < length cs. cs ! i \<noteq> [] \<and> length (cs ! i) = blocks_block_len v i \<and>
       (\<exists>s. blocks_block v i = Inr (block_entry s (cs ! i)) \<and>
         take (length (block_payload (cs ! i))) (drop s (pb_payload v)) = block_payload (cs ! i)))"

lemma block_entry_simps [simp]:
  "blk_first (block_entry s c) = hd c" "blk_last (block_entry s c) = last c"
  "blk_start (block_entry s c) = s" "blk_end (block_entry s c) = s + length (block_payload c)"
  by (simp_all add: block_entry_def)

lemma decode_loop_deltas:
  assumes "consumes r (delta_bytes position ps) r'" "follows False position ps"
  shows "blocks_decode_loop target (length ps) r position found =
    Inr (r', last (position # ps), if found = None then find (\<lambda>p. target \<le> p) ps else found)"
  using assms
proof (induction ps arbitrary: r position found)
  case Nil
  then show ?case by (auto simp: consumes_def)
next
  case (Cons p ps)
  let ?r = "rd_skip r (length (var_bytes (p - position)))"
  have pos: "position < p" "follows False p ps" using Cons.prems(2) by (auto simp: follows_Cons)
  have v: "reader_var_u32 r = Inr (p - position, ?r)"
    by (rule var_u32_field.dec_enc[where xs = "delta_bytes p ps @ rd_rest r'"])
      (use Cons.prems(1) in \<open>auto simp: consumes_def dest: consumes_rest\<close>)
  have c: "consumes ?r (delta_bytes p ps) r'"
    using Cons.prems(1) by (auto simp: consumes_def)
  have "checked_add_w position (p - position) = Some p"
    using checked_add_delta(1)[of position p] pos(1) by simp
  then show ?case
    using Cons.IH[OF c pos(2)] pos(1) by (auto simp: v word_diff_eq_0 Let_def)
qed

lemma decode_loop_Inr:
  assumes "blocks_decode_loop target k r position found = Inr (r', q, found')" "rd_ok r"
  shows "\<exists>ps. length ps = k \<and> consumes r (delta_bytes position ps) r' \<and> follows False position ps \<and>
    q = last (position # ps)"
  using assms
proof (induction k arbitrary: r position found)
  case 0
  then show ?case by (auto simp: consumes_Nil)
next
  case (Suc k)
  from Suc.prems(1) obtain d r1 p f where
    d: "reader_var_u32 r = Inr (d, r1)" "d \<noteq> 0" "checked_add_w position d = Some p"
      "blocks_decode_loop target k r1 p f = Inr (r', q, found')"
    by (auto simp: res_simps Let_def split: if_splits)
  note c = var_u32_field.dec_consumes[OF Suc.prems(2) d(1)]
  from Suc.IH[OF d(4) consumes_ok[OF c]] obtain ps where
    ps: "length ps = k" "consumes r1 (delta_bytes p ps) r'" "follows False p ps" "q = last (p # ps)" by blast
  have le: "position \<le> p" "d = p - position" using checked_add_delta(2)[OF d(3)] by auto
  then have "position < p" using d(2) by (auto simp: order_less_le)
  then show ?case
    using ps consumes_trans[OF c ps(2)] le(2)
    by (intro exI[of _ "p # ps"]) (simp add: follows_Cons)
qed

lemma sorted_follows: "sorted_wrt (<) (p # ps) \<Longrightarrow> follows False p ps"
  by (simp add: follows_def)

lemma sorted_concat_nth:
  assumes "sorted_wrt R (concat cs)" "i < length cs" shows "sorted_wrt R (cs ! i)"
proof -
  have "concat cs = concat (take i cs) @ cs ! i @ concat (drop (Suc i) cs)"
    using arg_cong[OF id_take_nth_drop[OF assms(2)], of concat] by simp
  then show ?thesis using assms(1) by (simp add: sorted_wrt_append)
qed

lemma decode_view:
  assumes v: "blocks_view v cs" and i: "i < length cs"
  shows "blocks_decode v i target = Inr \<lparr>sr_position = find (\<lambda>p. target \<le> p) (cs ! i),
    sr_decoded_positions = length (cs ! i), sr_decoded_bytes = length (block_payload (cs ! i))\<rparr>"
proof -
  let ?c = "cs ! i" and ?pay = "block_payload (cs ! i)"
  from v i obtain s where c: "?c \<noteq> []" "length ?c = blocks_block_len v i"
    "blocks_block v i = Inr (block_entry s ?c)" "take (length ?pay) (drop s (pb_payload v)) = ?pay"
    by (auto simp: blocks_view_def)
  have srt: "follows False (hd ?c) (tl ?c)"
    using sorted_concat_nth[of "(<)" cs i] v i c(1)
    by (intro sorted_follows) (simp add: blocks_view_def)
  have "slice_ok ?pay"
    using v arg_cong[OF c(4), of length] by (auto simp: blocks_view_def slice_ok_def)
  then have cons: "consumes (reader_new ?pay) (delta_bytes (hd ?c) (tl ?c)) (rd_skip (reader_new ?pay) (length ?pay))"
    by (simp add: consumes_def block_payload_def)
  from decode_loop_deltas[OF this srt, of target "if target \<le> hd ?c then Some (hd ?c) else None"]
  have loop: "blocks_decode_loop target (length ?c - 1) (reader_new ?pay) (hd ?c)
      (if target \<le> hd ?c then Some (hd ?c) else None) =
    Inr (rd_skip (reader_new ?pay) (length ?pay), last ?c, find (\<lambda>p. target \<le> p) ?c)"
    using c(1) by (cases ?c) auto
  show ?thesis
    unfolding blocks_decode_def c(3) and_then.simps Let_def block_entry_simps c(2)[symmetric]
      add_diff_cancel_left' c(4) loop
    by (simp add: reader_finish_eq)
qed

lemma blocks_view_last:
  assumes v: "blocks_view v cs" and i: "i < length cs"
  shows "\<And>p. p \<in> set (cs ! i) \<Longrightarrow> p \<le> last (cs ! i)"
    and "i < j \<Longrightarrow> j < length cs \<Longrightarrow> last (cs ! i) < last (cs ! j)"
proof -
  have ne: "cs ! k \<noteq> []" if "k < length cs" for k using v that by (simp add: blocks_view_def)
  have srt: "sorted_wrt (<) (cs ! i)" using sorted_concat_nth[of "(<)" cs i] v i by (simp add: blocks_view_def)
  show "p \<le> last (cs ! i)" if "p \<in> set (cs ! i)" for p
    using srt that ne[OF i] by (metis append_butlast_last_id in_set_conv_nth less_imp_le
        length_append_singleton less_Suc_eq nth_append_length order_refl sorted_wrt_iff_nth_less)
  show "last (cs ! i) < last (cs ! j)" if j: "i < j" "j < length cs"
  proof -
    have "concat cs = concat (take j cs) @ cs ! j @ concat (drop (Suc j) cs)"
      using arg_cong[OF id_take_nth_drop[OF j(2)], of concat] by simp
    moreover have "last (cs ! i) \<in> set (concat (take j cs))"
    proof -
      have "cs ! i \<in> set (take j cs)" using j i by (metis in_set_conv_nth length_take min.absorb4 nth_take)
      then show ?thesis using ne[OF i] last_in_set by fastforce
    qed
    moreover have "last (cs ! j) \<in> set (cs ! j)" using ne[OF j(2)] by simp
    ultimately show ?thesis using v by (auto simp: blocks_view_def sorted_wrt_append)
  qed
qed

interpretation block_probe: partition_probe
  "\<lambda>(v, cs, t). blocks_view v cs" "\<lambda>_. 0" "\<lambda>(v, cs, t). length cs" "\<lambda>(v, cs, t) i. last (cs ! i) < t"
  "\<lambda>(v, cs, t) i. and_then (blocks_block v i) (\<lambda>b. Inr (blk_last b < t))"
proof (unfold_locales, goal_cases)
  case (1 s i)
  then show ?case by (auto simp: blocks_view_def block_entry_def)
next
  case (2 s i j)
  obtain v cs t where s: "s = (v, cs, t)" by (cases s) auto
  show ?case
  proof (cases "i = j")
    case False
    then have "last (cs ! i) < last (cs ! j)" using 2 s blocks_view_last(2)[of v cs i j] by simp
    then show ?thesis using 2 s by auto
  qed (use 2 in simp)
qed auto

lemma find_concat_skip:
  assumes "k < length cs" "\<And>i p. i < k \<Longrightarrow> p \<in> set (cs ! i) \<Longrightarrow> \<not> P p" "\<exists>p \<in> set (cs ! k). P p"
  shows "find P (concat cs) = find P (cs ! k)"
proof -
  have "concat cs = concat (take k cs) @ cs ! k @ concat (drop (Suc k) cs)"
    using arg_cong[OF id_take_nth_drop[OF assms(1)], of concat] by simp
  moreover have "\<not> P p" if "p \<in> set (concat (take k cs))" for p
    using that assms(1) assms(2) by (auto simp: in_set_conv_nth[of _ "take k cs"])
  then have "find P (concat (take k cs)) = None" by (auto simp: find_None_iff)
  moreover have "find P (cs ! k) \<noteq> None" using assms(3) by (auto simp: find_None_iff)
  ultimately show ?thesis by (auto simp: find_append split: option.splits)
qed

lemma seek_view:
  assumes v: "blocks_view v cs"
  shows "\<exists>r. blocks_seek_ge v target = Inr r \<and> sr_position r = find (\<lambda>p. target \<le> p) (concat cs) \<and>
    sr_decoded_positions r \<le> BLOCK_POSITIONS"
proof -
  let ?k = "partition_point (\<lambda>i. last (cs ! i) < target) (length cs)"
  have n: "blocks_blocks v = length cs" using v by (simp add: blocks_view_def)
  have search: "lower_bound_loop (\<lambda>mid. and_then (blocks_block v mid) (\<lambda>block. Inr (blk_last block < target)))
      0 (length cs) = Inr ?k"
    using block_probe.lower_bound_correct[of "(v, cs, target)"] v by simp
  have low: "\<not> target \<le> p" if "i < ?k" "i < length cs" "p \<in> set (cs ! i)" for i p
    using partition_point_before[OF that(1)] blocks_view_last(1)[OF v that(2,3)] by simp
  show ?thesis
  proof (cases "?k = length cs")
    case True
    have "find (\<lambda>p. target \<le> p) (concat cs) = None"
      using low True by (force simp: find_None_iff in_set_conv_nth)
    then show ?thesis using search True by (simp add: blocks_seek_ge_def n)
  next
    case False
    then have k: "?k < length cs" using partition_point_le[of _ "length cs"] by (simp add: order_less_le)
    have "last (cs ! ?k) \<in> set (cs ! ?k)" using v k by (simp add: blocks_view_def)
    moreover have "target \<le> last (cs ! ?k)" using partition_point_stop[OF k] by simp
    ultimately have "find (\<lambda>p. target \<le> p) (concat cs) = find (\<lambda>p. target \<le> p) (cs ! ?k)"
      using low k by (intro find_concat_skip) auto
    moreover have "length (cs ! ?k) \<le> BLOCK_POSITIONS"
      using v k by (simp add: blocks_view_def blocks_block_len_def)
    ultimately show ?thesis using search False decode_view[OF v k, of target]
      by (simp add: blocks_seek_ge_def n)
  qed
qed

section \<open>Opening\<close>

lemma sorted_concat_blocks:
  assumes "\<And>c. c \<in> set cs \<Longrightarrow> c \<noteq> [] \<and> sorted_wrt (<) (c :: u32 list)"
    and "\<And>i. Suc i < length cs \<Longrightarrow> last (cs ! i) < hd (cs ! Suc i)"
  shows "sorted_wrt (<) (concat cs)"
  using assms
proof (induction cs)
  case (Cons c cs)
  have srt: "sorted_wrt (<) (concat cs)"
    by (rule Cons.IH) (use Cons.prems(1) Cons.prems(2)[of "Suc _"] in auto)
  have "x < y" if "x \<in> set c" "y \<in> set (concat cs)" for x y
  proof -
    from that(2) obtain d ds where cs: "cs = d # ds" by (cases cs) auto
    have "d \<noteq> []" using Cons.prems(1) cs by simp
    then have "concat cs = hd d # (tl d @ concat ds)" using cs by (cases d) auto
    with srt that(2) obtain zs where zs: "concat cs = hd d # zs" "sorted_wrt (<) (hd d # zs)"
      "y \<in> set (hd d # zs)" by metis
    then have "hd d \<le> y" by (auto simp: less_imp_le)
    moreover have "last c < hd d" using Cons.prems(2)[of 0] cs by simp
    moreover have "x \<le> last c"
      using Cons.prems(1)[of c] that(1)
      by (metis append_butlast_last_id in_set_conv_nth length_append_singleton less_Suc_eq less_imp_le
          list.set_intros(1) nth_append_length order_refl sorted_wrt_iff_nth_less)
    ultimately show ?thesis by simp
  qed
  then show ?case using srt Cons.prems(1)[of c] by (simp add: sorted_wrt_append)
qed simp

lemma length_concat_blocks:
  assumes "length cs = div_ceil n BLOCK_POSITIONS"
    and "\<And>i. i < length cs \<Longrightarrow> length (cs ! i) = min (n - i * BLOCK_POSITIONS) BLOCK_POSITIONS"
  shows "length (concat cs) = n"
proof -
  let ?ds = "chunks BLOCK_POSITIONS (replicate n ())"
  have pos: "0 < BLOCK_POSITIONS" by (simp add: block_consts)
  have len: "length ?ds = length cs" using assms(1) length_chunks[OF pos, of "replicate n ()"]
    by (simp add: div_ceil_def)
  have "map length cs = map length ?ds"
    by (rule nth_equalityI) (use assms(2) len length_chunks_nth[OF pos, of _ "replicate n ()"] in auto)
  then have "length (concat cs) = length (concat ?ds)" by (simp add: length_concat)
  then show ?thesis by (simp add: concat_chunks_id[OF pos])
qed

lemma open_Inr:
  assumes "blocks_open bs m = Inr v" "slice_ok bs"
  obtains st where
    "length (pb_directory v) = div_ceil (unat (pb_count v)) BLOCK_POSITIONS * ENTRY" "slice_ok (pb_payload v)"
    "st 0 = (0, None)" "fst (st (blocks_blocks v)) = length (pb_payload v)"
    "\<And>i. i < blocks_blocks v \<Longrightarrow> blocks_open_step v (st i) i = Inr (st (Suc i))"
proof -
  let ?n = "div_ceil (unat (pb_count v)) BLOCK_POSITIONS"
  from assms(1) obtain r0 r1 r2 r3 q where
    r: "reader_take (reader_new bs) 4 = Inr (MAGIC, r0)" "reader_u32 r0 = Inr (pb_count v, r1)"
      "reader_take r1 (?n * ENTRY) = Inr (pb_directory v, r2)"
      "reader_take r2 (reader_remaining r2) = Inr (pb_payload v, r3)"
      "try_fold (blocks_open_step v) (0, None) [0..<?n] = Inr (length (pb_payload v), q)"
    by (auto simp: blocks_open_def res_simps Let_def checked_mul_def split: if_splits prod.splits)
  have c0: "consumes (reader_new bs) MAGIC r0" using reader_take_consumes[OF _ r(1)] assms(2) by simp
  note c1 = u32_field.dec_consumes[OF consumes_ok[OF c0] r(2)]
  note c2 = reader_take_consumes[OF consumes_ok[OF c1] r(3)]
  note c3 = reader_take_consumes[OF consumes_ok[OF conjunct1[OF c2]] r(4)]
  have "bs = (MAGIC @ le_bytes 4 (pb_count v) @ pb_directory v @ pb_payload v) @ rd_rest r3"
    using consumes_rest[OF consumes_trans[OF c0 consumes_trans[OF c1 consumes_trans[OF conjunct1[OF c2]
      conjunct1[OF c3]]]]] by simp
  then have sl: "slice_ok (pb_payload v)" using assms(2) by (auto simp: slice_ok_def)
  have dl: "length (pb_directory v) = ?n * ENTRY" using c2 by simp
  have n: "blocks_blocks v = ?n" using dl by (simp add: blocks_blocks_def block_consts)
  from try_fold_trace[OF r(5)] obtain st where st: "st 0 = (0, None)" "st ?n = (length (pb_payload v), q)"
    "\<forall>i < ?n. blocks_open_step v (st i) i = Inr (st (Suc i))" by auto
  show ?thesis by (rule that[of st, OF dl sl st(1)]) (use st n in auto)
qed

lemma open_step_Inr:
  assumes "blocks_open_step v st i = Inr st'"
  obtains b where "blocks_block v i = Inr b" "blk_start b = fst st" "blk_start b \<le> blk_end b"
    "blk_end b \<le> length (pb_payload v)" "st' = (blk_end b, Some (blk_last b))"
    "\<And>l. snd st = Some l \<Longrightarrow> l < blk_first b"
  using assms
  by (auto simp: blocks_open_step_def res_simps Let_def checked_sub_def split: if_splits option.splits)

lemma validated_block:
  assumes d: "blocks_decode v i 0 = Inr r" and b: "blocks_block v i = Inr b"
    and len: "0 < blocks_block_len v i" and ok: "slice_ok (pb_payload v)"
    and range: "blk_start b \<le> blk_end b" "blk_end b \<le> length (pb_payload v)"
  shows "\<exists>c. c \<noteq> [] \<and> length c = blocks_block_len v i \<and> sorted_wrt (<) c \<and>
    b = block_entry (blk_start b) c \<and>
    take (length (block_payload c)) (drop (blk_start b) (pb_payload v)) = block_payload c"
proof -
  let ?sl = "take (blk_end b - blk_start b) (drop (blk_start b) (pb_payload v))"
  from d obtain r' f where
    loop: "blocks_decode_loop 0 (blocks_block_len v i - 1) (reader_new ?sl) (blk_first b) (Some (blk_first b)) =
      Inr (r', blk_last b, f)" and fin: "rd_rest r' = []"
    by (auto simp: blocks_decode_def b res_simps Let_def reader_finish_Inr split: if_splits)
  have "rd_ok (reader_new ?sl)" using ok by (simp add: slice_ok_def)
  from decode_loop_Inr[OF loop this] obtain ps where
    ps: "length ps = blocks_block_len v i - 1" "consumes (reader_new ?sl) (delta_bytes (blk_first b) ps) r'"
      "follows False (blk_first b) ps" "blk_last b = last (blk_first b # ps)" by blast
  have sl: "?sl = delta_bytes (blk_first b) ps" using consumes_all[OF ps(2) fin] .
  have "length ?sl = blk_end b - blk_start b" using range by simp
  then have "length (delta_bytes (blk_first b) ps) = blk_end b - blk_start b" using sl by simp
  then show ?thesis
    using ps range len sl
    by (intro exI[of _ "blk_first b # ps"])
      (cases b, auto simp: block_entry_def block_payload_def follows_def)
qed

lemma open_validated_view:
  assumes o: "blocks_open bs m = Inr v" and val: "blocks_validate_all v = Inr ()" and ok: "slice_ok bs"
  obtains cs where "blocks_view v cs" "length (concat cs) = unat (pb_count v)"
proof -
  obtain st where
    dl: "length (pb_directory v) = div_ceil (unat (pb_count v)) BLOCK_POSITIONS * ENTRY"
    and sl: "slice_ok (pb_payload v)" and st0: "st 0 = (0, None)"
    and st: "\<And>i. i < blocks_blocks v \<Longrightarrow> blocks_open_step v (st i) i = Inr (st (Suc i))"
    using open_Inr[OF o ok] by metis
  let ?n = "blocks_blocks v"
  have n: "?n = div_ceil (unat (pb_count v)) BLOCK_POSITIONS"
    using dl by (simp add: blocks_blocks_def block_consts)
  have "\<exists>c b. blocks_block v i = Inr b \<and> c \<noteq> [] \<and> length c = blocks_block_len v i \<and> sorted_wrt (<) c \<and>
      b = block_entry (blk_start b) c \<and>
      take (length (block_payload c)) (drop (blk_start b) (pb_payload v)) = block_payload c"
    if i: "i < ?n" for i
  proof -
    obtain b where b: "blocks_block v i = Inr b" "blk_start b \<le> blk_end b" "blk_end b \<le> length (pb_payload v)"
      using open_step_Inr[OF st[OF i]] by metis
    have "i * 128 < unat (pb_count v)"
      using i n by (simp add: div_ceil_def block_consts)
    then have len: "0 < blocks_block_len v i" by (simp add: blocks_block_len_def block_consts)
    obtain r where "blocks_decode v i 0 = Inr r"
      using try_fold_reaches[OF val[unfolded blocks_validate_all_def], of i] i by (auto simp: res_simps)
    from validated_block[OF this b(1) len sl b(2,3)] b(1) show ?thesis by blast
  qed
  then obtain c where c: "\<And>i. i < ?n \<Longrightarrow> c i \<noteq> [] \<and> length (c i) = blocks_block_len v i \<and> sorted_wrt (<) (c i)"
    "\<And>i. i < ?n \<Longrightarrow> \<exists>s. blocks_block v i = Inr (block_entry s (c i)) \<and>
      take (length (block_payload (c i))) (drop s (pb_payload v)) = block_payload (c i)"
    by metis
  define cs where "cs = map c [0..<?n]"
  have cs: "length cs = ?n" "\<And>i. i < ?n \<Longrightarrow> cs ! i = c i" by (simp_all add: cs_def)
  have "last (cs ! i) < hd (cs ! Suc i)" if i: "Suc i < length cs" for i
  proof -
    have i': "i < ?n" "Suc i < ?n" using i cs(1) by auto
    obtain b where b: "blocks_block v i = Inr b" "st (Suc i) = (blk_end b, Some (blk_last b))"
      using open_step_Inr[OF st[OF i'(1)]] by metis
    obtain d where d: "blocks_block v (Suc i) = Inr d" "\<And>l. snd (st (Suc i)) = Some l \<Longrightarrow> l < blk_first d"
      using open_step_Inr[OF st[OF i'(2)]] by metis
    have "blk_last b = last (c i)" "blk_first d = hd (c (Suc i))"
      using c(2)[OF i'(1)] c(2)[OF i'(2)] b(1) d(1) by (auto simp: block_entry_def)
    then show ?thesis using d(2) b(2) cs(2) i' by simp
  qed
  then have srt: "sorted_wrt (<) (concat cs)"
    using c(1) cs(1) by (intro sorted_concat_blocks) (auto simp: cs_def)
  show ?thesis
  proof (rule that)
    show "blocks_view v cs" using srt sl c cs by (simp add: blocks_view_def)
    show "length (concat cs) = unat (pb_count v)"
      by (rule length_concat_blocks) (use c(1) cs n in \<open>auto simp: blocks_block_len_def\<close>)
  qed
qed

section \<open>Encoding\<close>

lemma windows2_Cons: "windows2 (a # b # xs) = (a, b) # windows2 (b # xs)"
  by (simp add: windows2_def)

lemma windows2_short [simp]: "windows2 [] = []" "windows2 [a] = []"
  by (simp_all add: windows2_def)

lemma delta_windows: "delta_bytes a xs = concat (map (\<lambda>p. var_bytes (snd p - fst p)) (windows2 (a # xs)))"
  by (induction xs arbitrary: a) (simp_all add: windows2_Cons)

lemma block_payload_windows:
  "c \<noteq> [] \<Longrightarrow> block_payload c = concat (map (\<lambda>p. var_bytes (snd p - fst p)) (windows2 c))"
  by (cases c) (simp_all add: block_payload_def delta_windows)

lemma size_pairs:
  assumes "n + length (concat (map (\<lambda>p. var_bytes (snd p - fst p)) ws)) \<le> usize_max"
  shows "try_fold blocks_size_pair n ws = Inr (n + length (concat (map (\<lambda>p. var_bytes (snd p - fst p)) ws)))"
  using assms
  by (induction ws arbitrary: n) (simp_all add: blocks_size_pair_def checked_add_def var_u32_len_length add.assoc)

lemma size_blocks:
  assumes "\<And>c. c \<in> set cs \<Longrightarrow> c \<noteq> []" "n + length (concat (map block_payload cs)) \<le> usize_max"
  shows "try_fold (\<lambda>len block. try_fold blocks_size_pair len (windows2 block)) n cs =
    Inr (n + length (concat (map block_payload cs)))"
  using assms
proof (induction cs arbitrary: n)
  case (Cons c cs)
  then have "try_fold blocks_size_pair n (windows2 c) = Inr (n + length (block_payload c))"
    using size_pairs[of n "windows2 c"] by (simp add: block_payload_windows)
  then show ?case using Cons.IH[of "n + length (block_payload c)"] Cons.prems by (simp add: add.assoc)
qed simp

lemma write_pairs:
  assumes "wr_ok w" "length (concat (map (\<lambda>p. var_bytes (snd p - fst p)) ws)) \<le> wr_room w"
  shows "try_fold (\<lambda>data pair. writer_var_u32 data (snd pair - fst pair)) w ws =
    Inr (wr_append w (concat (map (\<lambda>p. var_bytes (snd p - fst p)) ws)))"
  using assms by (induction ws arbitrary: w) (simp_all add: writer_var_u32_def writer_put_eq)

definition entry_bytes :: "nat \<Rightarrow> u32 list \<Rightarrow> bytes" where
  "entry_bytes off c = le_bytes 4 (hd c) @ le_bytes 4 (last c) @ le_bytes 4 (of_nat off :: u32) @
     le_bytes 4 (of_nat (off + length (block_payload c)) :: u32)"

fun dir_bytes :: "nat \<Rightarrow> u32 list list \<Rightarrow> bytes" where
  "dir_bytes off [] = []"
| "dir_bytes off (c # cs) = entry_bytes off c @ dir_bytes (off + length (block_payload c)) cs"

lemma length_entry_bytes [simp]: "length (entry_bytes off c) = 16"
  by (simp add: entry_bytes_def)

lemma length_dir_bytes [simp]: "length (dir_bytes off cs) = length cs * 16"
  by (induction cs arbitrary: off) auto

lemma dir_bytes_nth:
  "i < length cs \<Longrightarrow> take 16 (drop (i * 16) (dir_bytes off cs)) =
    entry_bytes (off + length (concat (map block_payload (take i cs)))) (cs ! i)"
proof (induction cs arbitrary: off i)
  case (Cons c cs)
  then show ?case by (cases i) (simp_all add: add.assoc)
qed simp

lemma write_blocks:
  assumes "\<And>c. c \<in> set cs \<Longrightarrow> c \<noteq> []" "wr_ok h" "length cs * 16 \<le> wr_room h"
    and "wr_ok d" "length (concat (map block_payload cs)) \<le> wr_room d"
  shows "try_fold blocks_write_block (h, d) cs =
    Inr (wr_append h (dir_bytes (wr_offset d) cs), wr_append d (concat (map block_payload cs)))"
  using assms
proof (induction cs arbitrary: h d)
  case (Cons c cs)
  let ?h = "wr_append h (entry_bytes (wr_offset d) c)" and ?d = "wr_append d (block_payload c)"
  have ne: "c \<noteq> []" using Cons.prems(1) by simp
  have "try_fold (\<lambda>data pair. writer_var_u32 data (snd pair - fst pair)) d (windows2 c) = Inr ?d"
    using write_pairs[of d "windows2 c"] Cons.prems(4,5) ne by (simp add: block_payload_windows)
  then have step: "blocks_write_block (h, d) c = Inr (?h, ?d)"
    using Cons.prems(2-5) ne
    by (simp add: blocks_write_block_def codec_simps entry_bytes_def hd_conv_nth last_conv_nth)
  have "try_fold blocks_write_block (?h, ?d) cs =
      Inr (wr_append ?h (dir_bytes (wr_offset ?d) cs), wr_append ?d (concat (map block_payload cs)))"
    by (rule Cons.IH) (use Cons.prems in auto)
  then show ?case using step Cons.prems(2-5) by simp
qed simp

lemma ordered_windows:
  "sorted_wrt (<) ps \<Longrightarrow>
    try_fold (\<lambda>_ (index, a, b). if a \<ge> b then codec_fail index InvalidOrder else Inr ())
      () (enumerate i (windows2 (ps :: u32 list))) = Inr ()"
proof (induction ps arbitrary: i)
  case (Cons a ps)
  then show ?case by (cases ps) (auto simp: windows2_Cons)
qed simp

definition blocks_bytes :: "u32 list \<Rightarrow> bytes" where
  "blocks_bytes ps = MAGIC @ le_bytes 4 (of_nat (length ps) :: u32) @
     dir_bytes 0 (chunks BLOCK_POSITIONS ps) @ concat (map block_payload (chunks BLOCK_POSITIONS ps))"

definition blocks_of :: "u32 list \<Rightarrow> position_blocks" where
  "blocks_of ps = \<lparr>pb_directory = dir_bytes 0 (chunks BLOCK_POSITIONS ps),
     pb_payload = concat (map block_payload (chunks BLOCK_POSITIONS ps)),
     pb_count = of_nat (length ps)\<rparr>"

definition block_input_ok :: "u32 list \<Rightarrow> bool" where
  "block_input_ok ps \<longleftrightarrow> sorted_wrt (<) ps \<and> length ps < 2 ^ 32 \<and>
     length (concat (map block_payload (chunks BLOCK_POSITIONS ps))) < 2 ^ 32"

lemma length_MAGIC [simp]: "length MAGIC = 4"
  by (simp add: MAGIC_def)

lemma chunk_count: "length (chunks BLOCK_POSITIONS ps) = div_ceil (length ps) BLOCK_POSITIONS"
  using length_chunks[of BLOCK_POSITIONS ps] by (simp add: div_ceil_def block_consts)

lemma chunk_nonempty: "c \<in> set (chunks n ps) \<Longrightarrow> c \<noteq> []"
  using chunks_nonempty by blast

lemma blocks_encode_eq:
  assumes ok: "block_input_ok ps" and m: "of_nat (length ps) \<le> m"
    and out: "slice_ok output" "length (blocks_bytes ps) \<le> length output"
  shows "blocks_encode ps output m =
    Inr (length (blocks_bytes ps), blocks_bytes ps @ drop (length (blocks_bytes ps)) output)"
proof -
  let ?cs = "chunks BLOCK_POSITIONS ps"
  let ?pl = "length (concat (map block_payload ?cs))" and ?dl = "length ?cs * 16 + 8"
  have n: "length ps < 2 ^ 32" "?pl < 2 ^ 32" "sorted_wrt (<) ps" using ok by (auto simp: block_input_ok_def)
  have cl: "length ?cs \<le> length ps + 127"
    unfolding chunk_count by (simp add: div_ceil_def block_consts)
  have len: "length (blocks_bytes ps) = ?dl + ?pl" by (simp add: blocks_bytes_def)
  have small: "?dl + ?pl \<le> usize_max" "?dl + ?pl \<le> length output"
    using out len by (auto simp: slice_ok_def usize_max_def)
  have ar: "Option.bind (checked_mul (div_ceil (length ps) BLOCK_POSITIONS) ENTRY) (\<lambda>n. checked_add n HEADER) = Some ?dl"
    "checked_add ?dl ?pl = Some (?dl + ?pl)" "u32_try_from (length ps) = Some (of_nat (length ps))"
    "u32_try_from ?pl = Some (of_nat ?pl)"
    using small(1) n by (simp_all add: checked_mul_def checked_add_def u32_try_from_def ENTRY_def HEADER_def
        flip: chunk_count)
  have sz: "try_fold (\<lambda>len block. try_fold blocks_size_pair len (windows2 block)) 0 ?cs = Inr ?pl"
    using size_blocks[of ?cs 0, OF chunk_nonempty] small(1) by simp
  let ?h = "wr_append (writer_new (take ?dl output)) (MAGIC @ le_bytes 4 (of_nat (length ps) :: u32))"
  let ?d = "writer_new (take ?pl (drop ?dl output))"
  have sl: "slice_ok (take ?dl output)" "slice_ok (take ?pl (drop ?dl output))"
    using out(1) by (auto simp: slice_ok_def)
  have wr: "try_fold blocks_write_block (?h, ?d) ?cs = Inr (wr_append ?h (dir_bytes 0 ?cs), wr_append ?d (concat (map block_payload ?cs)))"
    using write_blocks[of ?cs ?h ?d, OF chunk_nonempty] sl small(2) by simp
  show ?thesis
    using m sl small(2)
    by (simp add: blocks_encode_def ar ordered_windows[OF n(3)] Let_def sz not_less codec_simps wr len
        blocks_bytes_def) (simp add: add.commute add.left_commute)
qed

lemma blocks_view_of:
  assumes ok: "block_input_ok ps"
  shows "blocks_view (blocks_of ps) (chunks BLOCK_POSITIONS ps)"
    and "i < length (chunks BLOCK_POSITIONS ps) \<Longrightarrow> blocks_block (blocks_of ps) i =
      Inr (block_entry (length (concat (map block_payload (take i (chunks BLOCK_POSITIONS ps)))))
        (chunks BLOCK_POSITIONS ps ! i))"
proof -
  let ?cs = "chunks BLOCK_POSITIONS ps" and ?v = "blocks_of ps"
  let ?off = "\<lambda>i. length (concat (map block_payload (take i ?cs)))"
  have n: "length ps < 2 ^ 32" "length (concat (map block_payload ?cs)) < 2 ^ 32" "sorted_wrt (<) ps"
    using ok by (auto simp: block_input_ok_def)
  have split: "concat (map block_payload ?cs) = concat (map block_payload (take i ?cs)) @
      block_payload (?cs ! i) @ concat (map block_payload (drop (Suc i) ?cs))" if "i < length ?cs" for i
    using arg_cong[OF id_take_nth_drop[OF that], of "\<lambda>cs. concat (map block_payload cs)"] by simp
  have blk: "blocks_block ?v i = Inr (block_entry (?off i) (?cs ! i))" if i: "i < length ?cs" for i
  proof -
    have "take ENTRY (drop (i * ENTRY) (pb_directory ?v)) = entry_bytes (?off i) (?cs ! i)"
      using dir_bytes_nth[OF i, of 0] by (simp add: blocks_of_def ENTRY_def)
    moreover have "?off i + length (block_payload (?cs ! i)) < 2 ^ 32"
      using arg_cong[OF split[OF i], of length] n(2) by simp
    then have "unat (of_nat (?off i) :: u32) = ?off i"
      "unat (of_nat (?off i + length (block_payload (?cs ! i))) :: u32) = ?off i + length (block_payload (?cs ! i))"
      by (simp_all only: unat_u32_of_nat)
    moreover have "slice_ok (entry_bytes (?off i) (?cs ! i))" by (simp add: slice_ok_def)
    ultimately show ?thesis
      by (simp add: blocks_block_def codec_simps entry_bytes_def block_entry_def del: of_nat_add)
  qed
  then show "i < length ?cs \<Longrightarrow> blocks_block ?v i = Inr (block_entry (?off i) (?cs ! i))" .
  have cnt: "unat (pb_count ?v) = length ps" using n(1) by (simp add: blocks_of_def unat_u32_of_nat)
  have "take (length (block_payload (?cs ! i))) (drop (?off i) (pb_payload ?v)) = block_payload (?cs ! i)"
    if i: "i < length ?cs" for i
    using split[OF i] by (simp add: blocks_of_def)
  moreover have "length (?cs ! i) = blocks_block_len ?v i" if "i < length ?cs" for i
    using length_chunks_nth[of BLOCK_POSITIONS i ps] that by (simp add: blocks_block_len_def cnt block_consts)
  moreover have "?cs ! i \<noteq> []" if "i < length ?cs" for i using chunk_nonempty[OF nth_mem[OF that]] .
  moreover have "length ?cs = blocks_blocks ?v" by (simp add: blocks_blocks_def blocks_of_def ENTRY_def)
  moreover have "sorted_wrt (<) (concat ?cs)" using n(3) concat_chunks_id[of BLOCK_POSITIONS ps] by (simp add: block_consts)
  moreover have "slice_ok (pb_payload ?v)" using n(2) by (simp add: slice_ok_def blocks_of_def)
  ultimately show "blocks_view ?v ?cs" using blk unfolding blocks_view_def by blast
qed

lemma length_delta_le: "length (delta_bytes a ps) \<le> length ps * 5"
proof (induction ps arbitrary: a)
  case (Cons p ps)
  show ?case using add_mono[OF length_var_u32_le[of "p - a"] Cons.IH[of p]] by simp
qed simp

lemma ascending_span:
  assumes "sorted_wrt (<) (c :: u32 list)" "c \<noteq> []"
  shows "length c - 1 \<le> unat (last c) - unat (hd c)" "hd c \<le> last c"
proof -
  have "unat (hd c) + (length c - 1) \<le> unat (last c)"
    using assms
  proof (induction c)
    case (Cons a c)
    show ?case
    proof (cases "c = []")
      case False
      then have "unat (hd c) + (length c - 1) \<le> unat (last c)" "a < hd c"
        using Cons by (auto simp: hd_in_set)
      then show ?thesis using False by (simp add: word_less_nat_alt)
    qed simp
  qed simp
  then show "length c - 1 \<le> unat (last c) - unat (hd c)" "hd c \<le> last c"
    by (simp_all add: word_le_nat_alt)
qed

lemma blocks_open_of:
  assumes ok: "block_input_ok ps" and m: "of_nat (length ps) \<le> m"
  shows "blocks_open (blocks_bytes ps) m = Inr (blocks_of ps)"
proof -
  let ?cs = "chunks BLOCK_POSITIONS ps" and ?v = "blocks_of ps"
  let ?off = "\<lambda>i. length (concat (map block_payload (take i ?cs)))"
  let ?st = "\<lambda>i. (?off i, if i = 0 then None else Some (last (?cs ! (i - 1))))"
  note vw = blocks_view_of[OF ok]
  have n: "length ps < 2 ^ 32" "length (concat (map block_payload ?cs)) < 2 ^ 32"
    using ok by (auto simp: block_input_ok_def)
  have cnt: "unat (of_nat (length ps) :: u32) = length ps" using n(1) by (simp add: unat_u32_of_nat)
  have step: "blocks_open_step ?v (?st i) i = Inr (?st (Suc i))" if i: "i < length ?cs" for i
  proof -
    let ?c = "?cs ! i"
    have c: "?c \<noteq> []" "length ?c = blocks_block_len ?v i" "sorted_wrt (<) ?c"
      using vw(1) i sorted_concat_nth[of "(<)" ?cs i] by (auto simp: blocks_view_def)
    have off: "?off (Suc i) = ?off i + length (block_payload ?c)" using i by (simp add: take_Suc_conv_app_nth)
    have "?off (Suc i) \<le> ?off (length ?cs)"
      by (metis append_take_drop_id concat_append length_append le_add1 map_append take_all order_refl)
    then have fits: "?off i + length (block_payload ?c) \<le> length (pb_payload ?v)"
      using off by (simp add: blocks_of_def)
    have bounds: "length ?c - 1 \<le> length (block_payload ?c)" "length (block_payload ?c) \<le> (length ?c - 1) * 5"
      using length_delta_bytes[of "tl ?c" "hd ?c"] length_delta_le[of "hd ?c" "tl ?c"]
      by (simp_all add: block_payload_def)
    have one: "length ?c = 1 \<Longrightarrow> hd ?c = last ?c" by (cases ?c) auto
    have prev: "last (?cs ! (i - 1)) < hd ?c" if "i \<noteq> 0"
    proof -
      have "concat ?cs = concat (take i ?cs) @ ?c @ concat (drop (Suc i) ?cs)"
        using arg_cong[OF id_take_nth_drop[OF i], of concat] by simp
      moreover have "?cs ! (i - 1) \<in> set (take i ?cs)"
        using that i by (metis diff_less in_set_conv_nth length_take less_imp_diff_less min.absorb4
            nth_take zero_less_one gr0I)
      moreover have "?cs ! (i - 1) \<noteq> []" using vw(1) i by (simp add: blocks_view_def)
      ultimately show ?thesis
        using vw(1) c(1) by (fastforce simp: blocks_view_def sorted_wrt_append)
    qed
    show ?thesis
      unfolding blocks_open_step_def vw(2)[OF i] and_then.simps Let_def block_entry_simps c(2)[symmetric]
      using fits bounds one prev ascending_span[OF c(3,1)] off
      by (auto simp: checked_sub_def)
  qed
  have fold: "try_fold (blocks_open_step ?v) (0, None) [0..<length ?cs] = Inr (?st (length ?cs))"
    using try_fold_upt[of "length ?cs" "blocks_open_step ?v" ?st] step by simp
  have sl: "slice_ok (blocks_bytes ps)"
  proof -
    have "length ?cs \<le> length ps + 127"
      unfolding chunk_count by (simp add: div_ceil_def BLOCK_POSITIONS_def)
    then show ?thesis using n by (simp add: blocks_bytes_def slice_ok_def)
  qed
  have mul: "checked_mul (length ?cs) 16 = Some (length ?cs * 16)"
    using sl by (auto simp: checked_mul_def usize_max_def slice_ok_def blocks_bytes_def)
  have v: "\<lparr>pb_directory = dir_bytes 0 ?cs, pb_payload = concat (map block_payload ?cs),
     pb_count = of_nat (length ps)\<rparr> = ?v" by (simp add: blocks_of_def)
  show ?thesis
    using sl m fold
    by (simp add: blocks_open_def codec_simps blocks_bytes_def cnt not_less Let_def ENTRY_def
        chunk_count[symmetric] mul v)
qed

lemma blocks_validate_view:
  assumes "blocks_view v cs" shows "blocks_validate_all v = Inr ()"
proof -
  have "try_fold (\<lambda>_ index. and_then (blocks_decode v index 0) (\<lambda>_. Inr ())) () [0..<length cs] = Inr ()"
    using try_fold_upt[of "length cs" "\<lambda>_ index. and_then (blocks_decode v index 0) (\<lambda>_. Inr ())" "\<lambda>_. ()"]
    by (simp add: decode_view[OF assms])
  then show ?thesis using assms by (simp add: blocks_validate_all_def blocks_view_def)
qed

section \<open>Properties\<close>

text \<open>C28: on a list of blocks that opens and validates, seeking returns the first position that
  is at least the target, or nothing when there is none, never fails, and decodes at most one
  block of 128 positions.\<close>

theorem seek_ge_correct:
  assumes "blocks_open bs m = Inr v" "blocks_validate_all v = Inr ()" "slice_ok bs"
  shows "\<exists>ps. sorted_wrt (<) ps \<and> length ps = unat (pb_count v) \<and>
    (\<forall>target. \<exists>r. blocks_seek_ge v target = Inr r \<and>
      sr_position r = find (\<lambda>p. target \<le> p) ps \<and> sr_decoded_positions r \<le> 128)"
proof -
  obtain cs where cs: "blocks_view v cs" "length (concat cs) = unat (pb_count v)"
    using open_validated_view[OF assms] by blast
  then show ?thesis
    using seek_view[OF cs(1)]
    by (intro exI[of _ "concat cs"]) (auto simp: blocks_view_def BLOCK_POSITIONS_def)
qed

theorem seek_ge_correct_witness:
  "\<exists>ps. length ps = unat (pb_count (blocks_of [4, 9, 70])) \<and> sorted_wrt (<) (ps :: u32 list) \<and>
    (\<exists>r. blocks_seek_ge (blocks_of [4, 9, 70]) 10 = Inr r \<and> sr_position r = find (\<lambda>p. 10 \<le> p) ps)"
proof -
  have cs: "chunks 128 [4, 9, 70 :: u32] = [[4, 9, 70]]" by (simp add: chunks.simps)
  have ok: "block_input_ok [4, 9, 70]"
    using length_var_u32_le[of 5] length_var_u32_le[of 61]
    by (simp add: block_input_ok_def BLOCK_POSITIONS_def cs block_payload_def)
  have o: "blocks_open (blocks_bytes [4, 9, 70]) 5 = Inr (blocks_of [4, 9, 70])"
    by (rule blocks_open_of[OF ok]) simp
  have sl: "slice_ok (blocks_bytes [4, 9, 70])"
    using length_var_u32_le[of 5] length_var_u32_le[of 61]
    by (simp add: blocks_bytes_def BLOCK_POSITIONS_def cs block_payload_def slice_ok_def)
  from seek_ge_correct[OF o blocks_validate_view[OF blocks_view_of(1)[OF ok]] sl] show ?thesis by blast
qed

text \<open>C29: encoding a strictly ascending list of positions into blocks, opening the bytes and
  seeking finds in the list exactly what a linear scan finds, and the bytes pass validation.\<close>

theorem position_blocks_round_trip:
  assumes "block_input_ok ps" "of_nat (length ps) \<le> m" "slice_ok output"
    and "length (blocks_bytes ps) \<le> length output"
  shows "\<exists>n out v. blocks_encode ps output m = Inr (n, out) \<and> blocks_open (take n out) m = Inr v \<and>
    blocks_validate_all v = Inr () \<and>
    (\<forall>target. \<exists>r. blocks_seek_ge v target = Inr r \<and> sr_position r = find (\<lambda>p. target \<le> p) ps)"
proof -
  note v = blocks_view_of(1)[OF assms(1)]
  have "concat (chunks BLOCK_POSITIONS ps) = ps" by (rule concat_chunks_id) (simp add: block_consts)
  then show ?thesis
    using blocks_encode_eq[OF assms] blocks_open_of[OF assms(1,2)] blocks_validate_view[OF v] seek_view[OF v]
    by auto
qed

theorem position_blocks_round_trip_witness:
  "\<exists>n out v. blocks_encode [4, 9] (replicate 64 0) 5 = Inr (n, out) \<and> blocks_open (take n out) 5 = Inr v \<and>
    (\<exists>r. blocks_seek_ge v 5 = Inr r \<and> sr_position r = Some 9)"
proof -
  have cs: "chunks 128 [4, 9 :: u32] = [[4, 9]]" by (simp add: chunks.simps)
  have ok: "block_input_ok [4, 9]"
    using length_var_u32_le[of 5] by (simp add: block_input_ok_def BLOCK_POSITIONS_def cs block_payload_def)
  have len: "length (blocks_bytes [4, 9]) \<le> length (replicate 64 (0 :: u8))"
    using length_var_u32_le[of 5] by (simp add: blocks_bytes_def BLOCK_POSITIONS_def cs block_payload_def)
  have "of_nat (length [4, 9 :: u32]) \<le> (5 :: u32)" "slice_ok (replicate 64 0)"
    by (simp_all add: slice_ok_def)
  from position_blocks_round_trip[OF ok this len] obtain n out v where
    "blocks_encode [4, 9] (replicate 64 0) 5 = Inr (n, out)" "blocks_open (take n out) 5 = Inr v"
    "\<forall>target. \<exists>r. blocks_seek_ge v target = Inr r \<and> sr_position r = find (\<lambda>p. target \<le> p) [4, 9]" by blast
  moreover have "find (\<lambda>p. (5 :: u32) \<le> p) [4, 9] = Some 9" by simp
  ultimately show ?thesis by metis
qed

end
