(* ===== verification/Bitmasks.thy ===== *)
theory Bitmasks
  imports Prelude
begin

text \<open>
  Bit sets stored as arrays of 64-bit words, shared by the kernels, the offset sets and the
  grouped bitmaps: membership, the ascending list of members, and the contract of an iterator
  that pops the members one by one.
\<close>

section \<open>Masks\<close>

definition mask_bit :: "u64 list \<Rightarrow> nat \<Rightarrow> bool" where
  "mask_bit ws k \<longleftrightarrow> k div 64 < length ws \<and> bit (ws ! (k div 64)) (k mod 64)"

definition mask_list :: "u64 list \<Rightarrow> nat list" where
  "mask_list ws = filter (mask_bit ws) [0..<64 * length ws]"

definition mask_set :: "u64 list \<Rightarrow> nat set" where
  "mask_set ws = {k. mask_bit ws k}"

lemma mask_bit_Nil [simp]: "\<not> mask_bit [] k"
  by (simp add: mask_bit_def)

lemma mask_bit_Cons: "mask_bit (w # ws) k \<longleftrightarrow> (if k < 64 then bit w k else mask_bit ws (k - 64))"
proof (cases "k < 64")
  case False
  then have "k div 64 = Suc ((k - 64) div 64)" "k mod 64 = (k - 64) mod 64"
    by (simp_all add: le_div_geq le_mod_geq)
  then show ?thesis using False by (simp add: mask_bit_def)
qed (simp add: mask_bit_def)

lemma mask_bit_lt: "mask_bit ws k \<Longrightarrow> k < 64 * length ws"
  by (simp add: mask_bit_def) linarith

lemma set_mask_list [simp]: "set (mask_list ws) = mask_set ws"
  by (auto simp: mask_list_def mask_set_def dest: mask_bit_lt)

lemma mask_list_Nil [simp]: "mask_list [] = []"
  by (simp add: mask_list_def)

lemma sorted_mask_list [simp]: "sorted_wrt (<) (mask_list ws)" "sorted (mask_list ws)" "distinct (mask_list ws)"
  by (simp_all add: mask_list_def sorted_wrt_filter)

lemma ascending_unique:
  assumes "sorted_wrt (<) xs" "sorted_wrt (<) ys" "set xs = set ys"
  shows "xs = (ys :: 'a::linorder list)"
  using assms by (simp add: strict_sorted_equal)

lemma word_bits_ascending: "sorted_wrt (<) (word_bits w)"
  by (simp add: word_bits_def sorted_wrt_filter)

lemma sorted_wrt_shift: "sorted_wrt (<) xs \<Longrightarrow> sorted_wrt (<) (map ((+) (n :: nat)) xs)"
  by (simp add: sorted_wrt_map)

lemma word_bits_lt: "k \<in> set (word_bits (w :: u64)) \<Longrightarrow> k < 64"
  using bit_imp_le_length[of w k] by (simp add: set_word_bits)

lemma mask_list_Cons: "mask_list (w # ws) = word_bits w @ map ((+) 64) (mask_list ws)"
proof (rule ascending_unique)
  show "sorted_wrt (<) (word_bits w @ map ((+) 64) (mask_list ws))"
    using word_bits_lt[of _ w]
    by (auto simp: sorted_wrt_append word_bits_ascending sorted_wrt_shift trans_less_add1
        simp del: set_mask_list)
  show "set (mask_list (w # ws)) = set (word_bits w @ map ((+) 64) (mask_list ws))"
  proof (intro set_eqI iffI)
    fix k assume "k \<in> set (mask_list (w # ws))"
    then show "k \<in> set (word_bits w @ map ((+) 64) (mask_list ws))"
      by (cases "k < 64") (auto simp: mask_set_def mask_bit_Cons set_word_bits intro!: image_eqI[of _ _ "k - 64"])
  next
    fix k assume "k \<in> set (word_bits w @ map ((+) 64) (mask_list ws))"
    then show "k \<in> set (mask_list (w # ws))"
      using word_bits_lt[of k w] by (auto simp: mask_set_def mask_bit_Cons set_word_bits)
  qed
qed simp

lemma length_mask_list: "length (mask_list ws) = sum_list (map count_ones ws)"
  by (induction ws) (simp_all add: mask_list_Cons count_ones_def)

lemma length_mask_list_le: "length (mask_list ws) \<le> 64 * length ws"
  unfolding mask_list_def by (rule order_trans[OF length_filter_le]) simp

lemma card_mask_set: "card (mask_set ws) = length (mask_list ws)"
  by (metis distinct_card set_mask_list sorted_mask_list(3))

lemma mask_list_zero: "\<forall>w \<in> set ws. w = 0 \<Longrightarrow> mask_list ws = []"
  by (induction ws) (simp_all add: mask_list_Cons word_bits_Nil_iff)

lemma mask_eqI:
  assumes "length a = length b" "\<And>k. mask_bit a k = mask_bit b k" shows "a = b"
proof (rule nth_equalityI[OF assms(1)])
  fix i assume i: "i < length a"
  show "a ! i = b ! i"
  proof (rule bit_word_eqI)
    fix j assume "j < LENGTH(64)"
    then have "(i * 64 + j) div 64 = i" "(i * 64 + j) mod 64 = j" by simp_all
    then show "bit (a ! i) j = bit (b ! i) j"
      using assms(2)[of "i * 64 + j"] i assms(1) by (simp add: mask_bit_def)
  qed
qed

lemma mask_bit_update:
  assumes "i < length ws"
  shows "mask_bit (ws[i := w]) k \<longleftrightarrow> (if k div 64 = i then bit w (k mod 64) else mask_bit ws k)"
  using assms by (auto simp: mask_bit_def nth_list_update)

lemma mask_bit_map2:
  assumes "length a = length b"
    and "\<And>x y j. j < 64 \<Longrightarrow> bit (f x y) j \<longleftrightarrow> g (bit x j) (bit y j)" "\<not> g False False"
  shows "mask_bit (map2 f a b) k \<longleftrightarrow> g (mask_bit a k) (mask_bit b k)"
  using assms by (cases "k div 64 < length a") (auto simp: mask_bit_def)

section \<open>Iterators\<close>

text \<open>\<open>Iterator::next\<close> called until it returns \<open>None\<close>, at most \<open>n\<close> times: what a \<open>for\<close> loop over
  the iterator sees, and the iterator it leaves.\<close>

fun iter_take :: "('s \<Rightarrow> 'a option \<times> 's) \<Rightarrow> nat \<Rightarrow> 's \<Rightarrow> 'a list \<times> 's" where
  "iter_take nxt 0 s = ([], s)"
| "iter_take nxt (Suc n) s =
     (case nxt s of
        (None, s) \<Rightarrow> ([], s)
      | (Some a, s) \<Rightarrow> (let (as, s) = iter_take nxt n s in (a # as, s)))"

text \<open>The contract of a fused iterator: it yields the pending items in order and then only \<open>None\<close>.\<close>

locale fused_iterator =
  fixes invar :: "'s \<Rightarrow> bool"
    and pending :: "'s \<Rightarrow> 'a list"
    and nxt :: "'s \<Rightarrow> 'a option \<times> 's"
  assumes next_Nil: "invar s \<Longrightarrow> pending s = [] \<Longrightarrow>
      fst (nxt s) = None \<and> pending (snd (nxt s)) = [] \<and> invar (snd (nxt s))"
    and next_Cons: "invar s \<Longrightarrow> pending s = x # xs \<Longrightarrow>
      fst (nxt s) = Some x \<and> pending (snd (nxt s)) = xs \<and> invar (snd (nxt s))"
begin

lemma collect:
  "invar s \<Longrightarrow> length (pending s) < n \<Longrightarrow>
    fst (iter_take nxt n s) = pending s \<and> pending (snd (iter_take nxt n s)) = [] \<and>
    invar (snd (iter_take nxt n s))"
proof (induction n arbitrary: s)
  case (Suc n)
  obtain r t where rt: "nxt s = (r, t)" by (cases "nxt s")
  show ?case
  proof (cases "pending s")
    case Nil
    then show ?thesis using next_Nil[OF Suc.prems(1) Nil] rt by simp
  next
    case (Cons x xs)
    note nx = next_Cons[OF Suc.prems(1) Cons]
    have "fst (iter_take nxt n t) = xs \<and> pending (snd (iter_take nxt n t)) = [] \<and> invar (snd (iter_take nxt n t))"
      using Suc.IH[of t] Suc.prems(2) nx rt Cons by simp
    then show ?thesis using nx rt Cons by (auto split: prod.splits)
  qed
qed simp

lemma stays_exhausted:
  assumes "invar s" "fst (nxt s) = None" shows "fst (nxt (snd (nxt s))) = None"
proof -
  have "pending s = []" using next_Cons[OF assms(1)] assms(2) by (cases "pending s") auto
  then show ?thesis using next_Nil[OF assms(1)] next_Nil by blast
qed

end

end
