(* ===== verification/Kernels.thy ===== *)
theory Kernels
  imports Bitmasks
begin

text \<open>
  Bitmap kernels (crates/pin-kernels/src: lib.rs, scalar.rs, x86_avx2.rs, grouped.rs). Whether the
  processor has AVX2 is the argument \<open>avx2\<close> of \<open>kernels_select\<close>. A vector register is a 256-bit
  word with the first of its four 64-bit lanes in the low bits, as the load and store
  instructions define it; the bitwise instructions act on all 256 bits.
\<close>

section \<open>Selection\<close>

datatype cpu_mode = Scalar | Auto | Avx2

datatype bitmap_op = Intersection | Union | Difference

datatype kernel_error = UnsupportedCpu | LengthMismatch

datatype backend = ScalarBackend | Avx2Backend

record kernels =
  backend :: backend

definition kernels_scalar :: kernels where
  "kernels_scalar = \<lparr>backend = ScalarBackend\<rparr>"

definition kernels_select :: "bool \<Rightarrow> cpu_mode \<Rightarrow> kernel_error + kernels" where
  "kernels_select avx2 mode =
     (if mode = Scalar then Inr kernels_scalar
      else if avx2 then Inr \<lparr>backend = Avx2Backend\<rparr>
      else if mode = Avx2 then Inl UnsupportedCpu
      else Inr kernels_scalar)"

definition kernels_mode :: "kernels \<Rightarrow> cpu_mode" where
  "kernels_mode self = (case backend self of ScalarBackend \<Rightarrow> Scalar | Avx2Backend \<Rightarrow> Avx2)"

section \<open>Combination\<close>

text \<open>The word loop over the zipped slices; output words beyond the shorter input stay.\<close>

fun scalar_combine :: "bool \<Rightarrow> bool \<Rightarrow> u64 list \<Rightarrow> u64 list \<Rightarrow> u64 list \<Rightarrow> u64 list" where
  "scalar_combine UNION DIFFERENCE (l # left) (r # right) (w # output) =
     (if UNION then l OR r else if DIFFERENCE then l AND NOT r else l AND r)
       # scalar_combine UNION DIFFERENCE left right output"
| "scalar_combine UNION DIFFERENCE left right output = output"

text \<open>\<open>as_chunks::<4>\<close>: the full chunks and the tail.\<close>

fun as_chunks4 :: "u64 list \<Rightarrow> u64 list list \<times> u64 list" where
  "as_chunks4 (a # b # c # d # xs) = (let (cs, tail) = as_chunks4 xs in ([a, b, c, d] # cs, tail))"
| "as_chunks4 xs = ([], xs)"

definition mm256_load :: "u64 list \<Rightarrow> 256 word" where
  "mm256_load ws = ucast (ws ! 0) OR push_bit 64 (ucast (ws ! 1)) OR push_bit 128 (ucast (ws ! 2)) OR
     push_bit 192 (ucast (ws ! 3))"

definition mm256_store :: "256 word \<Rightarrow> u64 list" where
  "mm256_store v = map (\<lambda>i. ucast (drop_bit (64 * i) v)) [0..<4]"

fun avx2_chunks :: "bool \<Rightarrow> bool \<Rightarrow> u64 list list \<Rightarrow> u64 list list \<Rightarrow> u64 list list \<Rightarrow> u64 list list" where
  "avx2_chunks UNION DIFFERENCE (l # left) (r # right) (w # output) =
     (let lv = mm256_load l; rv = mm256_load r;
          value = (if UNION then lv OR rv else if DIFFERENCE then NOT rv AND lv else lv AND rv)
      in mm256_store value # avx2_chunks UNION DIFFERENCE left right output)"
| "avx2_chunks UNION DIFFERENCE left right output = output"

definition avx2_combine :: "bool \<Rightarrow> bool \<Rightarrow> u64 list \<Rightarrow> u64 list \<Rightarrow> u64 list \<Rightarrow> u64 list" where
  "avx2_combine UNION DIFFERENCE left right output =
     (let (left, left_tail) = as_chunks4 left; (right, right_tail) = as_chunks4 right;
          (output, output_tail) = as_chunks4 output
      in concat (avx2_chunks UNION DIFFERENCE left right output) @
         scalar_combine UNION DIFFERENCE left_tail right_tail output_tail)"

definition kernels_apply :: "kernels \<Rightarrow> bool \<Rightarrow> bool \<Rightarrow> u64 list \<Rightarrow> u64 list \<Rightarrow> u64 list \<Rightarrow> u64 list" where
  "kernels_apply self UNION DIFFERENCE left right output =
     (case backend self of
        ScalarBackend \<Rightarrow> scalar_combine UNION DIFFERENCE left right output
      | Avx2Backend \<Rightarrow> avx2_combine UNION DIFFERENCE left right output)"

definition kernels_combine ::
  "kernels \<Rightarrow> bitmap_op \<Rightarrow> u64 list \<Rightarrow> u64 list \<Rightarrow> u64 list \<Rightarrow> kernel_error + u64 list" where
  "kernels_combine self operation left right output =
     (if length left \<noteq> length right \<or> length left \<noteq> length output then Inl LengthMismatch
      else Inr (case operation of
        Intersection \<Rightarrow> kernels_apply self False False left right output
      | Union \<Rightarrow> kernels_apply self True False left right output
      | Difference \<Rightarrow> kernels_apply self False True left right output))"

section \<open>Page pruning\<close>

definition PAGE_WORDS :: nat where
  "PAGE_WORDS = 4"

definition OFFSET_WORDS :: nat where
  "OFFSET_WORDS = 8"

type_synonym page_mask = "u64 list"
type_synonym offset_mask = "u64 list"

definition candidates :: "bitmap_op \<Rightarrow> page_mask \<Rightarrow> page_mask \<Rightarrow> page_mask \<Rightarrow> page_mask" where
  "candidates operation left right live =
     map (\<lambda>index.
       (case operation of
          Intersection \<Rightarrow> left ! index AND right ! index
        | Union \<Rightarrow> left ! index OR right ! index
        | Difference \<Rightarrow> left ! index) AND live ! index) [0..<PAGE_WORDS]"

definition offsets :: "bitmap_op \<Rightarrow> offset_mask \<Rightarrow> offset_mask \<Rightarrow> offset_mask \<Rightarrow> offset_mask" where
  "offsets operation left right live =
     map (\<lambda>index.
       (case operation of
          Intersection \<Rightarrow> left ! index AND right ! index
        | Union \<Rightarrow> left ! index OR right ! index
        | Difference \<Rightarrow> left ! index AND NOT (right ! index)) AND live ! index) [0..<OFFSET_WORDS]"

record pages =
  pg_mask :: page_mask
  pg_word :: nat

definition pages_new :: "page_mask \<Rightarrow> pages" where
  "pages_new m = \<lparr>pg_mask = m, pg_word = 0\<rparr>"

function pages_next :: "pages \<Rightarrow> u8 option \<times> pages" where
  "pages_next self =
     (if pg_word self < PAGE_WORDS then
        let pending = pg_mask self ! pg_word self in
        if pending \<noteq> 0 then
          let b = trailing_zeros pending in
          (Some (of_nat (pg_word self * 64 + b)),
           self\<lparr>pg_mask := (pg_mask self)[pg_word self := pending AND (pending - 1)]\<rparr>)
        else pages_next (self\<lparr>pg_word := pg_word self + 1\<rparr>)
      else (None, self))"
  by pat_completeness auto
termination
  by (relation "measure (\<lambda>p. PAGE_WORDS - pg_word p)") auto

declare pages_next.simps [simp del]

section \<open>Both backends compute the word-wise operation\<close>

definition word_op :: "bool \<Rightarrow> bool \<Rightarrow> u64 \<Rightarrow> u64 \<Rightarrow> u64" where
  "word_op UNION DIFFERENCE l r = (if UNION then l OR r else if DIFFERENCE then l AND NOT r else l AND r)"

lemma scalar_combine_map2:
  "length left = length right \<Longrightarrow> length left = length output \<Longrightarrow>
    scalar_combine U D left right output = map2 (word_op U D) left right"
  by (induction U D left right "output" rule: scalar_combine.induct) (auto simp: word_op_def)

lemma as_chunks4_parts:
  "as_chunks4 xs = (cs, t) \<Longrightarrow> concat cs @ t = xs \<and> (\<forall>c \<in> set cs. length c = 4) \<and>
    length cs = length xs div 4"
  by (induction xs arbitrary: cs rule: as_chunks4.induct) (auto split: prod.splits)

lemma bit_mm256_load:
  assumes "length ws = 4" "k < 256"
  shows "bit (mm256_load ws) k \<longleftrightarrow> bit (ws ! (k div 64)) (k mod 64)"
proof -
  consider "k < 64" | "64 \<le> k" "k < 128" | "128 \<le> k" "k < 192" | "192 \<le> k" "k < 256"
    using assms(2) by linarith
  then show ?thesis
  proof cases
    case 1
    then show ?thesis by (auto simp: mm256_load_def bit_or_iff bit_push_bit_iff bit_ucast_iff)
  next
    case 2
    then have "k div 64 = 1" "k mod 64 = k - 64" by (auto simp: le_div_geq le_mod_geq)
    with 2 show ?thesis
      by (auto simp: mm256_load_def bit_or_iff bit_push_bit_iff bit_ucast_iff dest: bit_imp_le_length)
  next
    case 3
    then have "k div 64 = 2" "k mod 64 = k - 128" by (auto simp: le_div_geq le_mod_geq)
    with 3 show ?thesis
      by (auto simp: mm256_load_def bit_or_iff bit_push_bit_iff bit_ucast_iff dest: bit_imp_le_length)
  next
    case 4
    then have "k div 64 = 3" "k mod 64 = k - 192" by (auto simp: le_div_geq le_mod_geq)
    with 4 show ?thesis
      by (auto simp: mm256_load_def bit_or_iff bit_push_bit_iff bit_ucast_iff dest: bit_imp_le_length)
  qed
qed

lemma mm256_store_bits:
  assumes "length ws = 4" "\<And>k. k < 256 \<Longrightarrow> bit v k \<longleftrightarrow> bit (ws ! (k div 64)) (k mod 64)"
  shows "mm256_store v = ws"
proof (rule nth_equalityI)
  fix i assume "i < length (mm256_store v)"
  then have i: "i < 4" by (simp add: mm256_store_def)
  show "mm256_store v ! i = ws ! i"
  proof (rule bit_word_eqI)
    fix j assume "j < LENGTH(64)"
    then have j: "j < 64" by simp
    then have "(64 * i + j) div 64 = i" "(64 * i + j) mod 64 = j" by simp_all
    then show "bit (mm256_store v ! i) j = bit (ws ! i) j"
      using i j assms(2)[of "64 * i + j"]
      by (simp add: mm256_store_def bit_ucast_iff bit_drop_bit_eq)
  qed
qed (simp add: mm256_store_def assms)

lemma avx2_chunk:
  assumes "length l = 4" "length r = 4"
  shows "mm256_store (if U then mm256_load l OR mm256_load r
      else if D then NOT (mm256_load r) AND mm256_load l else mm256_load l AND mm256_load r)
    = map2 (word_op U D) l r"
proof (rule mm256_store_bits)
  fix k :: nat assume k: "k < 256"
  then have q: "k div 64 < 4" "k mod 64 < 64" by auto
  show "bit (if U then mm256_load l OR mm256_load r
      else if D then NOT (mm256_load r) AND mm256_load l else mm256_load l AND mm256_load r) k
    \<longleftrightarrow> bit (map2 (word_op U D) l r ! (k div 64)) (k mod 64)"
    using k q assms
    by (auto simp: bit_or_iff bit_and_iff bit_not_iff bit_mm256_load word_op_def)
qed (simp add: assms)

lemma avx2_chunks_map2:
  assumes "\<forall>c \<in> set left. length c = 4" "\<forall>c \<in> set right. length c = 4"
    and "length left = length right" "length left = length output"
  shows "concat (avx2_chunks U D left right output) = map2 (word_op U D) (concat left) (concat right)"
  using assms
proof (induction U D left right "output" rule: avx2_chunks.induct)
  case (1 U D l left r right w out)
  then show ?case using avx2_chunk[of l r U D] by (simp add: Let_def)
qed auto

lemma avx2_combine_map2:
  assumes "length left = length right" "length left = length output"
  shows "avx2_combine U D left right output = map2 (word_op U D) left right"
proof -
  obtain lc lt where l: "as_chunks4 left = (lc, lt)" by (cases "as_chunks4 left")
  obtain rc rt where r: "as_chunks4 right = (rc, rt)" by (cases "as_chunks4 right")
  obtain oc ot where o: "as_chunks4 output = (oc, ot)" by (cases "as_chunks4 output")
  note parts = as_chunks4_parts[OF l] as_chunks4_parts[OF r] as_chunks4_parts[OF o]
  have len: "length (concat cs) = length cs * 4" if "\<forall>c \<in> set cs. length c = 4" for cs :: "u64 list list"
    using that by (induction cs) auto
  have cl: "length lc = length rc" "length lc = length oc" using parts assms by auto
  have cc: "length (concat lc) = length (concat rc)" "length (concat lc) = length (concat oc)"
    using len parts cl by auto
  have tl: "length lt = length rt" "length lt = length ot"
    using parts assms cc by (metis add_left_cancel length_append)+
  have "avx2_combine U D left right output =
      map2 (word_op U D) (concat lc) (concat rc) @ map2 (word_op U D) lt rt"
    using parts cl tl by (simp add: avx2_combine_def l r o avx2_chunks_map2 scalar_combine_map2)
  also have "\<dots> = map2 (word_op U D) (concat lc @ lt) (concat rc @ rt)" using cc by simp
  finally show ?thesis using parts by simp
qed

lemma kernels_apply_map2:
  "length left = length right \<Longrightarrow> length left = length output \<Longrightarrow>
    kernels_apply self U D left right output = map2 (word_op U D) left right"
  by (simp add: kernels_apply_def scalar_combine_map2 avx2_combine_map2 split: backend.splits)

section \<open>Page iteration\<close>

definition pages_pending :: "pages \<Rightarrow> u8 list" where
  "pages_pending p = map (\<lambda>k. of_nat (64 * pg_word p + k)) (mask_list (drop (pg_word p) (pg_mask p)))"

definition pages_ok :: "pages \<Rightarrow> bool" where
  "pages_ok p \<longleftrightarrow> length (pg_mask p) = PAGE_WORDS \<and> pg_word p \<le> PAGE_WORDS"

lemma pages_next_pending:
  assumes "pages_ok p"
  shows "fst (pages_next p) = (case pages_pending p of [] \<Rightarrow> None | x # xs \<Rightarrow> Some x) \<and>
    pages_pending (snd (pages_next p)) = tl (pages_pending p) \<and> pages_ok (snd (pages_next p))"
  using assms
proof (induction p rule: pages_next.induct)
  case (1 p)
  let ?w = "pg_word p" and ?m = "pg_mask p"
  show ?case
  proof (cases "?w < PAGE_WORDS")
    case True
    then have dr: "drop ?w ?m = ?m ! ?w # drop (Suc ?w) ?m"
      using "1.prems" by (simp add: pages_ok_def Cons_nth_drop_Suc)
    show ?thesis
    proof (cases "?m ! ?w = 0")
      case zero: True
      then have "pages_next p = pages_next (p\<lparr>pg_word := ?w + 1\<rparr>)"
        using True by (subst pages_next.simps) simp
      moreover have "pages_pending (p\<lparr>pg_word := ?w + 1\<rparr>) = pages_pending p"
        using zero by (simp add: pages_pending_def dr mask_list_Cons word_bits_Nil_iff[THEN iffD2]
            o_def algebra_simps)
      moreover have "pages_ok (p\<lparr>pg_word := ?w + 1\<rparr>)" using "1.prems" True by (simp add: pages_ok_def)
      ultimately show ?thesis using "1.IH"[OF True refl] zero by simp
    next
      case False
      let ?q = "p\<lparr>pg_mask := ?m[?w := ?m ! ?w AND (?m ! ?w - 1)]\<rparr>"
      have nx: "pages_next p = (Some (of_nat (?w * 64 + trailing_zeros (?m ! ?w))), ?q)"
        using True False by (subst pages_next.simps) (simp add: Let_def)
      obtain b bs where b: "word_bits (?m ! ?w) = b # bs"
        using False by (metis list.exhaust word_bits_Nil_iff)
      have "drop ?w (pg_mask ?q) = (?m ! ?w AND (?m ! ?w - 1)) # drop (Suc ?w) ?m"
        using "1.prems" True by (simp add: pages_ok_def Cons_nth_drop_Suc[symmetric])
      then have "pages_pending ?q = tl (pages_pending p)"
        using b by (simp add: pages_pending_def dr mask_list_Cons word_bits_clear_lowest[OF False])
      moreover have "pages_pending p \<noteq> []" "hd (pages_pending p) = of_nat (?w * 64 + trailing_zeros (?m ! ?w))"
        using b by (simp_all add: pages_pending_def dr mask_list_Cons trailing_zeros_hd[OF False] mult.commute)
      ultimately show ?thesis
        using nx "1.prems" by (cases "pages_pending p") (auto simp: pages_ok_def)
    qed
  next
    case False
    then show ?thesis using "1.prems"
      by (subst pages_next.simps, subst pages_next.simps, subst pages_next.simps)
        (simp add: pages_ok_def pages_pending_def)
  qed
qed

interpretation page_iter: fused_iterator pages_ok pages_pending pages_next
  using pages_next_pending by unfold_locales (auto split: list.splits)

lemma pages_collect:
  assumes "length m = PAGE_WORDS"
  shows "map unat (fst (iter_take pages_next 257 (pages_new m))) = mask_list m"
proof -
  have ok: "pages_ok (pages_new m)" using assms by (simp add: pages_ok_def pages_new_def)
  have p: "pages_pending (pages_new m) = map of_nat (mask_list m)"
    by (simp add: pages_pending_def pages_new_def)
  have "length (mask_list m) < 257"
    using length_mask_list_le[of m] assms by (simp add: PAGE_WORDS_def)
  then have "fst (iter_take pages_next 257 (pages_new m)) = map of_nat (mask_list m)"
    using page_iter.collect[OF ok, of 257] p by simp
  moreover have "unat (of_nat k :: u8) = k" if "mask_bit m k" for k
    using mask_bit_lt[OF that] assms by (simp add: PAGE_WORDS_def unat_u8_of_nat)
  then have "map (\<lambda>k. unat (of_nat k :: u8)) (mask_list m) = mask_list m"
    by (intro map_idI) (simp add: mask_set_def)
  ultimately show ?thesis by (simp add: o_def)
qed

section \<open>Properties\<close>

text \<open>C22: for slices of equal length the scalar and the vector backend both compute the word-wise
  operation, so the selected processor path never changes a result; unequal lengths are rejected.\<close>

theorem combine_backends_agree:
  "kernels_combine k operation left right output =
    (if length left = length right \<and> length left = length output
     then Inr (map2 (case operation of Intersection \<Rightarrow> (AND) | Union \<Rightarrow> (OR)
       | Difference \<Rightarrow> (\<lambda>l r. l AND NOT r)) left right)
     else Inl LengthMismatch)"
  by (auto simp: kernels_combine_def kernels_apply_map2 word_op_def[abs_def] split: bitmap_op.splits)

text \<open>C24: iterating over a page mask yields exactly the numbers of its set bits, in ascending
  order, each as an eight-bit page number without wrap-around.\<close>

theorem pages_enumerate:
  assumes "length m = PAGE_WORDS"
  shows "map unat (fst (iter_take pages_next 257 (pages_new m))) = mask_list m"
  using assms by (rule pages_collect)

theorem pages_enumerate_witness:
  "map unat (fst (iter_take pages_next 257 (pages_new [5, 0, 0, 2]))) = mask_list [5, 0, 0, 2]"
  by (rule pages_enumerate) (simp add: PAGE_WORDS_def)

text \<open>C23: page pruning is conservative: whenever the exact operation on the live offsets of a page
  has a result, the page is among the candidates computed from the page summaries alone.\<close>

theorem candidates_conservative:
  assumes sizes: "length L = PAGE_WORDS" "length R = PAGE_WORDS" "length V = PAGE_WORDS"
    and masks: "\<And>p. length (l p) = OFFSET_WORDS \<and> length (r p) = OFFSET_WORDS \<and> length (v p) = OFFSET_WORDS"
    and left: "\<And>p k. p < 256 \<Longrightarrow> mask_bit (l p) k \<Longrightarrow> mask_bit L p"
    and right: "\<And>p k. p < 256 \<Longrightarrow> mask_bit (r p) k \<Longrightarrow> mask_bit R p"
    and live: "\<And>p k. p < 256 \<Longrightarrow> mask_bit (v p) k \<Longrightarrow> mask_bit V p"
    and hit: "p < 256" "mask_bit (offsets operation (l p) (r p) (v p)) k"
  shows "mask_bit (candidates operation L R V) p"
proof -
  have k: "k div 64 < 8" using mask_bit_lt[OF hit(2)] by (simp add: offsets_def OFFSET_WORDS_def)
  have lv: "mask_bit (v p) k"
    using hit(2) k masks[of p] by (auto simp: offsets_def mask_bit_def bit_and_iff OFFSET_WORDS_def)
  have p: "p div 64 < 4" using hit(1) by simp
  have "case operation of Intersection \<Rightarrow> mask_bit (l p) k \<and> mask_bit (r p) k
      | Union \<Rightarrow> mask_bit (l p) k \<or> mask_bit (r p) k | Difference \<Rightarrow> mask_bit (l p) k"
    using hit(2) k masks[of p]
    by (auto simp: offsets_def mask_bit_def bit_and_iff bit_or_iff OFFSET_WORDS_def split: bitmap_op.splits)
  then have "case operation of Intersection \<Rightarrow> mask_bit L p \<and> mask_bit R p
      | Union \<Rightarrow> mask_bit L p \<or> mask_bit R p | Difference \<Rightarrow> mask_bit L p"
    using left[OF hit(1)] right[OF hit(1)] by (auto split: bitmap_op.splits)
  then show ?thesis
    using live[OF hit(1) lv] p sizes
    by (auto simp: candidates_def mask_bit_def bit_and_iff bit_or_iff PAGE_WORDS_def split: bitmap_op.splits)
qed

theorem candidates_conservative_witness:
  "mask_bit (candidates Difference [1, 0, 0, 0] [1, 0, 0, 0] [1, 0, 0, 0]) 0"
proof (rule candidates_conservative)
  let ?f = "\<lambda>(a :: u64) (p :: nat). if p = 0 then a # replicate 7 0 else replicate 8 (0 :: u64)"
  show "length (?f 3 p) = OFFSET_WORDS \<and> length (?f 1 p) = OFFSET_WORDS \<and> length (?f 3 p) = OFFSET_WORDS" for p
    by (simp add: OFFSET_WORDS_def)
  have z: "\<not> mask_bit (replicate 8 0) k" for k by (simp add: mask_bit_def)
  show "mask_bit (?f 3 p) k \<Longrightarrow> mask_bit [1, 0, 0, 0] p" "mask_bit (?f 1 p) k \<Longrightarrow> mask_bit [1, 0, 0, 0] p"
    "mask_bit (?f 3 p) k \<Longrightarrow> mask_bit [1, 0, 0, 0] p" for p k
    by (auto simp: mask_bit_Cons z split: if_splits)
  show "mask_bit (offsets Difference (?f 3 0) (?f 1 0) (?f 3 0)) 1"
    by (simp add: offsets_def OFFSET_WORDS_def mask_bit_def upt_rec bit_and_iff bit_not_iff)
qed (simp_all add: PAGE_WORDS_def)

end
