(* ===== verification/Offsets.thy ===== *)
theory Offsets
  imports Kernels Bytes Identity
begin

text \<open>
  Sets of page-local heap offsets and their three encodings
  (crates/pin-core/src/codec/offsets.rs). The abstraction \<open>os_set\<close> reads the bitmap as a set of
  offsets starting at one; the set interface is the locale \<open>bounded_set\<close>, which the loops of the
  decoder rely on.
\<close>

section \<open>Operations\<close>

datatype encoding = Sparse | Bitmap | Runs

record offset_set =
  os_words :: "u64 list"
  os_domain :: u16

definition offset_set_new :: "heap_layout \<Rightarrow> offset_set" where
  "offset_set_new layout = \<lparr>os_words = replicate 8 0, os_domain = max_offset layout\<rparr>"

definition offset_set_len :: "offset_set \<Rightarrow> u16" where
  "offset_set_len self = sum_list (map (\<lambda>word. of_nat (count_ones word)) (os_words self))"

definition offset_set_is_empty :: "offset_set \<Rightarrow> bool" where
  "offset_set_is_empty self = list_all (\<lambda>word. word = 0) (os_words self)"

definition offset_set_contains :: "offset_set \<Rightarrow> u16 \<Rightarrow> bool" where
  "offset_set_contains self offset =
     (if offset = 0 \<or> offset > os_domain self then False
      else let b = unat (offset - 1) in
        os_words self ! (b div 64) AND push_bit (b mod 64) 1 \<noteq> 0)"

definition offset_set_insert :: "offset_set \<Rightarrow> u16 \<Rightarrow> (bool \<times> offset_set) codec_result" where
  "offset_set_insert self offset =
     (if offset = 0 \<or> offset > os_domain self then codec_fail 0 InvalidValue
      else
        let b = unat (offset - 1); m = push_bit (b mod 64) 1; word = os_words self ! (b div 64) in
        Inr (word AND m = 0, self\<lparr>os_words := (os_words self)[b div 64 := word OR m]\<rparr>))"

record offset_iter =
  oi_words :: "u64 list"
  oi_word :: nat
  oi_pending :: u64

definition offset_set_iter :: "offset_set \<Rightarrow> offset_iter" where
  "offset_set_iter self = \<lparr>oi_words = os_words self, oi_word = 0, oi_pending = os_words self ! 0\<rparr>"

function offset_iter_next :: "offset_iter \<Rightarrow> u16 option \<times> offset_iter" where
  "offset_iter_next self =
     (if oi_word self \<ge> length (oi_words self) then (None, self)
      else if oi_pending self = 0 then
        let self = self\<lparr>oi_word := oi_word self + 1\<rparr> in
        if oi_word self < length (oi_words self)
        then offset_iter_next (self\<lparr>oi_pending := oi_words self ! oi_word self\<rparr>)
        else (None, self)
      else
        let b = trailing_zeros (oi_pending self) in
        (Some (of_nat (oi_word self * 64 + b + 1)),
         self\<lparr>oi_pending := oi_pending self AND (oi_pending self - 1)\<rparr>))"
  by pat_completeness auto
termination
  by (relation "measure (\<lambda>it. length (oi_words it) - oi_word it)") auto

declare offset_iter_next.simps [simp del]

text \<open>All items of the iterator; 513 calls reach the end of a domain of at most 512 offsets.\<close>

definition offset_items :: "offset_set \<Rightarrow> u16 list" where
  "offset_items self = fst (iter_take offset_iter_next 513 (offset_set_iter self))"

definition offset_set_combine :: "offset_set \<Rightarrow> offset_set \<Rightarrow> (u64 \<Rightarrow> u64 \<Rightarrow> u64) \<Rightarrow> offset_set codec_result" where
  "offset_set_combine self other op =
     (if os_domain self \<noteq> os_domain other then codec_fail 0 InvalidValue
      else Inr (self\<lparr>os_words := map (\<lambda>index. op (os_words self ! index) (os_words other ! index))
                                   [0..<length (os_words self)]\<rparr>))"

definition offset_set_intersection :: "offset_set \<Rightarrow> offset_set \<Rightarrow> offset_set codec_result" where
  "offset_set_intersection self other = offset_set_combine self other (\<lambda>left right. left AND right)"

definition offset_set_union :: "offset_set \<Rightarrow> offset_set \<Rightarrow> offset_set codec_result" where
  "offset_set_union self other = offset_set_combine self other (\<lambda>left right. left OR right)"

definition offset_set_difference :: "offset_set \<Rightarrow> offset_set \<Rightarrow> offset_set codec_result" where
  "offset_set_difference self other = offset_set_combine self other (\<lambda>left right. left AND NOT right)"

definition offset_set_combine_with ::
  "offset_set \<Rightarrow> offset_set \<Rightarrow> bitmap_op \<Rightarrow> kernels \<Rightarrow> offset_set codec_result" where
  "offset_set_combine_with self other operation kernels =
     (if os_domain self \<noteq> os_domain other then codec_fail 0 InvalidValue
      else and_then (map_err (\<lambda>_. CodecError 0 InvalidValue)
             (kernels_combine kernels operation (os_words self) (os_words other) (replicate 8 0)))
           (\<lambda>words. Inr \<lparr>os_words = words, os_domain = os_domain self\<rparr>))"

text \<open>The loop of \<open>run_count\<close>: the runs so far and the carry of the previous word.\<close>

fun run_count_loop :: "u64 list \<Rightarrow> u16 \<Rightarrow> u64 \<Rightarrow> u16" where
  "run_count_loop [] runs carry = runs"
| "run_count_loop (word # words) runs carry =
     run_count_loop words (runs + of_nat (count_ones (word AND NOT (push_bit 1 word OR carry))))
       (drop_bit 63 word)"

definition offset_set_run_count :: "offset_set \<Rightarrow> u16" where
  "offset_set_run_count self = run_count_loop (os_words self) 0 0"

definition encoded_len :: "offset_set \<Rightarrow> encoding \<Rightarrow> nat" where
  "encoded_len self encoding =
     (case encoding of
        Sparse \<Rightarrow> 6 + unat (offset_set_len self) * 2
      | Bitmap \<Rightarrow> 6 + div_ceil (unat (os_domain self)) 8
      | Runs \<Rightarrow> 8 + unat (offset_set_run_count self) * 4)"

definition preferred_encoding :: "offset_set \<Rightarrow> encoding" where
  "preferred_encoding self =
     (let sparse = encoded_len self Sparse; bitmap = encoded_len self Bitmap; runs = encoded_len self Runs in
      if sparse \<le> bitmap \<and> sparse \<le> runs then Sparse
      else if bitmap \<le> runs then Bitmap
      else Runs)"

text \<open>The inner loop over the peekable iterator: extend a run while the next offset continues it.\<close>

fun run_extend :: "u16 \<Rightarrow> u16 list \<Rightarrow> u16 \<times> u16 list" where
  "run_extend e [] = (e, [])"
| "run_extend e (x # xs) = (if x = e + 1 then run_extend (e + 1) xs else (e, x # xs))"

lemma length_run_extend: "length (snd (run_extend e xs)) \<le> length xs"
  by (induction xs arbitrary: e) (auto intro: le_SucI)

function encode_runs :: "writer \<Rightarrow> u16 list \<Rightarrow> writer codec_result" where
  "encode_runs writer [] = Inr writer"
| "encode_runs writer (s # items) =
     and_then (writer_u16 writer s) (\<lambda>writer.
     and_then (writer_u16 writer (fst (run_extend s items) - s + 1)) (\<lambda>writer.
     encode_runs writer (snd (run_extend s items))))"
  by pat_completeness auto
termination
  by (relation "measure (\<lambda>(w, xs). length xs)") (auto simp: length_run_extend le_imp_less_Suc)

definition encode_as :: "offset_set \<Rightarrow> encoding \<Rightarrow> bytes \<Rightarrow> (nat \<times> bytes) codec_result" where
  "encode_as self encoding output =
     (if length output < encoded_len self encoding then codec_fail 0 Truncated else
      and_then (writer_u16 (writer_new output) (os_domain self)) (\<lambda>writer.
      and_then (writer_u16 writer (offset_set_len self)) (\<lambda>writer.
      and_then (writer_u8 writer (case encoding of Sparse \<Rightarrow> 0 | Bitmap \<Rightarrow> 1 | Runs \<Rightarrow> 2)) (\<lambda>writer.
      and_then (writer_u8 writer 0) (\<lambda>writer.
      and_then
        (case encoding of
           Sparse \<Rightarrow> try_fold writer_u16 writer (offset_items self)
         | Bitmap \<Rightarrow>
             try_fold (\<lambda>writer byte.
               writer_u8 writer (ucast (drop_bit ((byte mod 8) * 8) (os_words self ! (byte div 8)))))
               writer [0..<div_ceil (unat (os_domain self)) 8]
         | Runs \<Rightarrow>
             and_then (writer_u16 writer (offset_set_run_count self)) (\<lambda>writer.
             encode_runs writer (offset_items self))) (\<lambda>writer.
      Inr (wr_offset writer, wr_bytes writer)))))))"

definition offset_set_encode :: "offset_set \<Rightarrow> bytes \<Rightarrow> (nat \<times> bytes) codec_result" where
  "offset_set_encode self output = encode_as self (preferred_encoding self) output"

text \<open>The three branches of \<open>parse\<close>.\<close>

definition parse_sparse_step ::
  "reader \<times> offset_set \<times> u16 \<Rightarrow> nat \<Rightarrow> (reader \<times> offset_set \<times> u16) codec_result" where
  "parse_sparse_step st i =
     (let (reader, res, previous) = st in
      and_then (reader_u16 reader) (\<lambda>(offset, reader).
      if offset \<le> previous then codec_fail (rd_offset reader - 2) InvalidOrder else
      and_then (offset_set_insert res offset) (\<lambda>(_, res). Inr (reader, res, offset))))"

definition parse_bitmap :: "reader \<Rightarrow> offset_set \<Rightarrow> (reader \<times> offset_set) codec_result" where
  "parse_bitmap reader res =
     and_then (reader_take reader (div_ceil (unat (os_domain res)) 8)) (\<lambda>(bs, reader).
     let words = fold (\<lambda>(index, byte) words.
           words[index div 8 := words ! (index div 8) OR push_bit ((index mod 8) * 8) (ucast byte)])
           (enumerate 0 bs) (os_words res);
         tail = unat (os_domain res mod 8) in
     if tail \<noteq> 0 \<and> bs \<noteq> [] \<and> drop_bit tail (last bs) \<noteq> 0
     then codec_fail (rd_offset reader - 1) NonCanonical
     else Inr (reader, res\<lparr>os_words := words\<rparr>))"

definition parse_run_step ::
  "reader \<times> offset_set \<times> u16 \<Rightarrow> nat \<Rightarrow> (reader \<times> offset_set \<times> u16) codec_result" where
  "parse_run_step st i =
     (let (reader, res, previous) = st in
      and_then (reader_u16 reader) (\<lambda>(s, reader).
      and_then (reader_u16 reader) (\<lambda>(len, reader).
      if s = 0 \<or> len = 0 \<or> (previous \<noteq> 0 \<and> s \<le> previous + 1)
      then codec_fail (rd_offset reader - 4) InvalidOrder else
      and_then (ok_or (CodecError (rd_offset reader - 4) Overflow) (checked_add_w s (len - 1))) (\<lambda>e.
      if e > os_domain res then codec_fail (rd_offset reader - 4) InvalidValue else
      and_then (try_fold (\<lambda>res offset. and_then (offset_set_insert res offset) (\<lambda>(_, res). Inr res))
        res (map of_nat [unat s..<Suc (unat e)])) (\<lambda>res. Inr (reader, res, e))))))"

definition parse_body :: "u8 \<Rightarrow> u16 \<Rightarrow> reader \<Rightarrow> offset_set \<Rightarrow> (reader \<times> offset_set) codec_result" where
  "parse_body tag count reader res =
     (if tag = 0 then
        and_then (try_fold parse_sparse_step (reader, res, 0) [0..<unat count])
          (\<lambda>(reader, res, _). Inr (reader, res))
      else if tag = 1 then parse_bitmap reader res
      else if tag = 2 then
        and_then (reader_u16 reader) (\<lambda>(runs, reader).
        if runs > count then codec_fail 6 InvalidValue else
        and_then (try_fold parse_run_step (reader, res, 0) [0..<unat runs])
          (\<lambda>(reader, res, _). Inr (reader, res)))
      else codec_fail 4 UnknownTag)"

definition offset_set_parse :: "bytes \<Rightarrow> heap_layout \<Rightarrow> offset_set codec_result" where
  "offset_set_parse bs layout =
     and_then (reader_u16 (reader_new bs)) (\<lambda>(domain, reader).
     if domain \<noteq> max_offset layout then codec_fail 0 InvalidValue else
     and_then (reader_u16 reader) (\<lambda>(count, reader).
     if count > max_offset layout then codec_fail 2 InvalidValue else
     and_then (reader_u8 reader) (\<lambda>(tag, reader).
     and_then (reader_u8 reader) (\<lambda>(reserved, reader).
     if reserved \<noteq> 0 then codec_fail 5 NonCanonical else
     let res = offset_set_new layout in
     and_then (parse_body tag count reader res) (\<lambda>(reader, res).
     and_then (reader_finish reader) (\<lambda>_.
     if offset_set_len res \<noteq> count then codec_fail 2 InvalidValue else Inr res))))))"

section \<open>Abstraction\<close>

definition os_ok :: "offset_set \<Rightarrow> bool" where
  "os_ok s \<longleftrightarrow> length (os_words s) = 8 \<and> 1 \<le> unat (os_domain s) \<and> unat (os_domain s) \<le> 512 \<and>
     (\<forall>k. mask_bit (os_words s) k \<longrightarrow> k < unat (os_domain s))"

definition os_set :: "offset_set \<Rightarrow> nat set" where
  "os_set s = Suc ` mask_set (os_words s)"

definition os_list :: "offset_set \<Rightarrow> nat list" where
  "os_list s = map Suc (mask_list (os_words s))"

lemma set_os_list [simp]: "set (os_list s) = os_set s"
  by (simp add: os_list_def os_set_def)

lemma os_list_ascending: "sorted_wrt (<) (os_list s)"
  by (simp add: os_list_def sorted_wrt_map)

lemma os_set_iff: "n \<in> os_set s \<longleftrightarrow> 0 < n \<and> mask_bit (os_words s) (n - 1)"
  by (cases n) (auto simp: os_set_def mask_set_def)

lemma os_set_bound: "os_ok s \<Longrightarrow> n \<in> os_set s \<Longrightarrow> 1 \<le> n \<and> n \<le> unat (os_domain s)"
  by (fastforce simp: os_set_iff os_ok_def)

lemma os_set_512: "os_ok s \<Longrightarrow> n \<in> os_set s \<Longrightarrow> n \<le> 512"
  using os_set_bound[of s n] by (simp add: os_ok_def)

lemma os_eqI:
  assumes "os_ok s" "os_ok t" "os_domain s = os_domain t" "os_set s = os_set t"
  shows "s = t"
proof -
  have "os_words s = os_words t"
  proof (rule mask_eqI)
    show "length (os_words s) = length (os_words t)" using assms(1,2) by (simp add: os_ok_def)
    show "mask_bit (os_words s) k = mask_bit (os_words t) k" for k
      using os_set_iff[of "Suc k" s] os_set_iff[of "Suc k" t] assms(4) by simp
  qed
  then show ?thesis using assms(3) by (cases s, cases t) simp
qed

lemma new_ok: "layout_ok l \<Longrightarrow> os_ok (offset_set_new l) \<and> os_set (offset_set_new l) = {}"
proof -
  assume l: "layout_ok l"
  have z: "\<not> mask_bit (replicate 8 0) k" for k by (simp add: mask_bit_def)
  have "unat (max_offset l) \<le> 512" "1 \<le> unat (max_offset l)"
    using l by (simp_all add: layout_ok_def word_le_nat_alt Suc_le_eq unat_gt_0)
  then show ?thesis by (simp add: os_ok_def os_set_def mask_set_def offset_set_new_def z)
qed

lemma zero_set_ok: "os_ok \<lparr>os_words = replicate 8 0, os_domain = 16\<rparr>"
  using new_ok[of "\<lparr>max_offset = 16\<rparr>"] by (simp add: layout_ok_def offset_set_new_def)

lemma word_sub_1: "x \<noteq> 0 \<Longrightarrow> unat (x - 1 :: 'a::len word) = unat x - 1"
  by (rule unat_minus_one)

lemma offset_index:
  assumes "os_ok s" "offset \<noteq> 0" "offset \<le> os_domain s"
  shows "unat (offset - 1) = unat offset - 1" "unat (offset - 1) div 64 < length (os_words s)"
    "1 \<le> unat offset" "unat offset \<le> unat (os_domain s)"
proof -
  show u: "unat (offset - 1) = unat offset - 1" using assms(2) by (rule unat_minus_one)
  show b: "1 \<le> unat offset" "unat offset \<le> unat (os_domain s)"
    using assms by (simp_all add: word_le_nat_alt Suc_le_eq unat_gt_0)
  show "unat (offset - 1) div 64 < length (os_words s)" using u b assms(1) by (simp add: os_ok_def) linarith
qed

lemma and_bit_iff: "(w :: u64) AND push_bit n 1 \<noteq> 0 \<longleftrightarrow> bit w n"
  by (simp add: push_bit_eq_mult and_exp_eq_0_iff_not_bit)

lemma contains_iff:
  assumes "os_ok s"
  shows "offset_set_contains s offset \<longleftrightarrow> unat offset \<in> os_set s"
proof (cases "offset = 0 \<or> offset > os_domain s")
  case True
  then have "unat offset \<notin> os_set s"
    using os_set_bound[OF assms, of "unat offset"] by (auto simp: word_less_nat_alt)
  then show ?thesis using True by (auto simp: offset_set_contains_def)
next
  case False
  then have i: "unat (offset - 1) = unat offset - 1" "unat (offset - 1) div 64 < length (os_words s)"
    "1 \<le> unat offset" using offset_index[OF assms, of offset] by auto
  show ?thesis
    using False i by (simp add: offset_set_contains_def Let_def and_exp_eq_0_iff_not_bit os_set_iff mask_bit_def)
qed

lemma insert_Inr:
  assumes "os_ok s" "1 \<le> unat offset" "unat offset \<le> unat (os_domain s)"
  shows "\<exists>t. offset_set_insert s offset = Inr (unat offset \<notin> os_set s, t) \<and> os_ok t \<and>
    os_set t = insert (unat offset) (os_set s) \<and> os_domain t = os_domain s"
proof -
  have nz: "offset \<noteq> 0" "offset \<le> os_domain s" using assms by (auto simp: word_le_nat_alt)
  note i = offset_index[OF assms(1) nz]
  define b where "b = unat offset - 1"
  define w where "w = os_words s ! (b div 64)"
  define t where "t = s\<lparr>os_words := (os_words s)[b div 64 := w OR push_bit (b mod 64) 1]\<rparr>"
  have ub: "unat (offset - 1) = b" "unat offset = Suc b" using i(1) assms(2) by (simp_all add: b_def)
  have bl: "b div 64 < length (os_words s)" using i(2) ub(1) by simp
  have mb: "mask_bit (os_words t) k \<longleftrightarrow> mask_bit (os_words s) k \<or> k = b" for k
  proof (cases "k div 64 = b div 64")
    case True
    then have "k = b \<longleftrightarrow> k mod 64 = b mod 64" by (metis div_mult_mod_eq)
    then show ?thesis using True bl
      by (auto simp: t_def w_def mask_bit_update bit_or_iff bit_exp_iff) (auto simp: mask_bit_def)
  qed (use bl in \<open>auto simp: t_def mask_bit_update\<close>)
  have "os_set t = insert (unat offset) (os_set s)"
    unfolding ub(2) by (auto simp: os_set_iff mb)
  moreover have "os_ok t"
    using assms mb ub(2) by (auto simp: os_ok_def t_def)
  moreover have "offset_set_insert s offset = Inr (unat offset \<notin> os_set s, t)"
  proof -
    have "w AND push_bit (b mod 64) 1 = 0 \<longleftrightarrow> unat offset \<notin> os_set s"
      using and_bit_iff[of w "b mod 64"] bl ub(2) by (auto simp: os_set_iff mask_bit_def w_def)
    then show ?thesis using nz ub(1) by (simp add: offset_set_insert_def Let_def w_def t_def)
  qed
  moreover have "os_domain t = os_domain s" by (simp add: t_def)
  ultimately show ?thesis by blast
qed

text \<open>The contract of a set of offsets with a bounded domain.\<close>

locale bounded_set =
  fixes invar :: "'s \<Rightarrow> bool"
    and elements :: "'s \<Rightarrow> nat set"
    and bound :: "'s \<Rightarrow> nat"
    and contains :: "'s \<Rightarrow> u16 \<Rightarrow> bool"
    and add :: "'s \<Rightarrow> u16 \<Rightarrow> (bool \<times> 's) codec_result"
  assumes contains_correct: "invar s \<Longrightarrow> contains s x \<longleftrightarrow> unat x \<in> elements s"
    and add_inside: "invar s \<Longrightarrow> 1 \<le> unat x \<Longrightarrow> unat x \<le> bound s \<Longrightarrow>
      \<exists>t. add s x = Inr (unat x \<notin> elements s, t) \<and> invar t \<and>
        elements t = insert (unat x) (elements s) \<and> bound t = bound s"
    and add_outside: "invar s \<Longrightarrow> \<not> (1 \<le> unat x \<and> unat x \<le> bound s) \<Longrightarrow> add s x = codec_fail 0 InvalidValue"
begin

lemma add_Inr:
  assumes "invar s" "add s x = Inr (fresh, t)"
  shows "invar t" "elements t = insert (unat x) (elements s)" "bound t = bound s"
    "1 \<le> unat x" "unat x \<le> bound s" "fresh \<longleftrightarrow> unat x \<notin> elements s"
proof -
  have r: "1 \<le> unat x \<and> unat x \<le> bound s" using add_outside[OF assms(1), of x] assms(2) by auto
  then show "1 \<le> unat x" "unat x \<le> bound s" by auto
  from add_inside[OF assms(1)] r assms(2)
  show "invar t" "elements t = insert (unat x) (elements s)" "bound t = bound s"
    "fresh \<longleftrightarrow> unat x \<notin> elements s" by fastforce+
qed

text \<open>Inserting a list of offsets in a loop.\<close>

lemma add_all:
  assumes "invar s" "\<And>x. x \<in> set xs \<Longrightarrow> 1 \<le> unat x \<and> unat x \<le> bound s"
  shows "\<exists>t. try_fold (\<lambda>s x. and_then (add s x) (\<lambda>(_, s). Inr s)) s xs = Inr t \<and> invar t \<and>
    elements t = elements s \<union> unat ` set xs \<and> bound t = bound s"
  using assms
proof (induction xs arbitrary: s)
  case (Cons x xs)
  obtain u where u: "add s x = Inr (unat x \<notin> elements s, u)" "invar u"
    "elements u = insert (unat x) (elements s)" "bound u = bound s"
    using add_inside[OF Cons.prems(1)] Cons.prems(2) by (meson list.set_intros(1))
  obtain t where "try_fold (\<lambda>s x. and_then (add s x) (\<lambda>(_, s). Inr s)) u xs = Inr t" "invar t"
    "elements t = elements u \<union> unat ` set xs" "bound t = bound u"
    using Cons.IH[OF u(2)] Cons.prems(2) u(4) by auto
  then show ?case using u by auto
qed auto

lemma add_all_Inr:
  assumes "invar s" "try_fold (\<lambda>s x. and_then (add s x) (\<lambda>(_, s). Inr s)) s xs = Inr t"
  shows "invar t \<and> elements t = elements s \<union> unat ` set xs \<and> bound t = bound s \<and>
    (\<forall>x \<in> set xs. 1 \<le> unat x \<and> unat x \<le> bound s)"
  using assms
proof (induction xs arbitrary: s)
  case (Cons x xs)
  then obtain f u where u: "add s x = Inr (f, u)"
    "try_fold (\<lambda>s x. and_then (add s x) (\<lambda>(_, s). Inr s)) u xs = Inr t"
    by (auto simp: res_simps)
  note a = add_Inr[OF Cons.prems(1) u(1)]
  from Cons.IH[OF a(1) u(2)] a show ?case by auto
qed auto

end

interpretation offset_bits: bounded_set os_ok os_set "\<lambda>s. unat (os_domain s)" offset_set_contains offset_set_insert
proof (unfold_locales, goal_cases)
  case (1 s x)
  then show ?case by (rule contains_iff)
next
  case (2 s x)
  then show ?case using insert_Inr[of s x] by auto
next
  case (3 s x)
  then show ?case by (auto simp: offset_set_insert_def word_less_nat_alt Suc_le_eq unat_gt_0)
qed

section \<open>Iteration and cardinality\<close>

definition oi_ok :: "offset_iter \<Rightarrow> bool" where
  "oi_ok it \<longleftrightarrow> length (oi_words it) = 8"

definition oi_rest :: "offset_iter \<Rightarrow> u16 list" where
  "oi_rest it = (if oi_word it < length (oi_words it) then
     map (\<lambda>k. of_nat (64 * oi_word it + k + 1))
       (word_bits (oi_pending it) @ map ((+) 64) (mask_list (drop (Suc (oi_word it)) (oi_words it)))) else [])"

lemma offset_iter_next_rest:
  "fst (offset_iter_next it) = (case oi_rest it of [] \<Rightarrow> None | x # xs \<Rightarrow> Some x) \<and>
    oi_rest (snd (offset_iter_next it)) = tl (oi_rest it) \<and>
    (oi_ok it \<longrightarrow> oi_ok (snd (offset_iter_next it)))"
proof (induction it rule: offset_iter_next.induct)
  case (1 it)
  let ?w = "oi_word it" and ?ws = "oi_words it"
  show ?case
  proof (cases "?w < length ?ws")
    case True
    show ?thesis
    proof (cases "oi_pending it = 0")
      case zero: True
      show ?thesis
      proof (cases "?w + 1 < length ?ws")
        case more: True
        let ?it = "it\<lparr>oi_word := ?w + 1, oi_pending := ?ws ! (?w + 1)\<rparr>"
        have nx: "offset_iter_next it = offset_iter_next ?it"
          using True zero more by (subst offset_iter_next.simps) simp
        have "drop (Suc ?w) ?ws = ?ws ! Suc ?w # drop (Suc (Suc ?w)) ?ws"
          using more by (simp add: Cons_nth_drop_Suc)
        then have "oi_rest ?it = oi_rest it"
          using True zero more
          by (simp add: oi_rest_def mask_list_Cons word_bits_Nil_iff[THEN iffD2] o_def algebra_simps)
        moreover have "oi_ok ?it \<longleftrightarrow> oi_ok it" by (simp add: oi_ok_def)
        ultimately show ?thesis using "1.IH"[of "it\<lparr>oi_word := ?w + 1\<rparr>"] True zero more nx by simp
      next
        case False
        then have "offset_iter_next it = (None, it\<lparr>oi_word := ?w + 1\<rparr>)"
          using True zero by (subst offset_iter_next.simps) simp
        then show ?thesis using True zero False
          by (simp add: oi_rest_def oi_ok_def word_bits_Nil_iff[THEN iffD2])
      qed
    next
      case False
      obtain b bs where b: "word_bits (oi_pending it) = b # bs"
        using False by (metis list.exhaust word_bits_Nil_iff)
      have "offset_iter_next it = (Some (of_nat (?w * 64 + b + 1)),
          it\<lparr>oi_pending := oi_pending it AND (oi_pending it - 1)\<rparr>)"
        using True False b by (subst offset_iter_next.simps) (simp add: trailing_zeros_hd)
      then show ?thesis
        using True b by (simp add: oi_rest_def oi_ok_def word_bits_clear_lowest[OF False] mult.commute)
    qed
  next
    case False
    then have "offset_iter_next it = (None, it)" by (subst offset_iter_next.simps) simp
    then show ?thesis using False by (simp add: oi_rest_def)
  qed
qed

interpretation offset_items: fused_iterator oi_ok oi_rest offset_iter_next
  using offset_iter_next_rest by unfold_locales (auto split: list.splits)

lemma offset_items_eq:
  assumes "os_ok s" shows "offset_items s = map of_nat (os_list s)"
proof -
  let ?it = "offset_set_iter s"
  have w: "length (os_words s) = 8" using assms by (simp add: os_ok_def)
  then have "os_words s = os_words s ! 0 # drop 1 (os_words s)"
    by (metis Cons_nth_drop_Suc One_nat_def drop0 zero_less_numeral)
  then have m: "mask_list (os_words s) = word_bits (os_words s ! 0) @ map ((+) 64) (mask_list (drop 1 (os_words s)))"
    using mask_list_Cons by metis
  have r: "oi_rest ?it = map of_nat (os_list s)"
    using w by (simp add: oi_rest_def offset_set_iter_def os_list_def m)
  have "length (os_list s) < 513"
    using length_mask_list_le[of "os_words s"] w by (simp add: os_list_def)
  then show ?thesis
    using offset_items.collect[of ?it 513] r w by (simp add: offset_items_def oi_ok_def offset_set_iter_def)
qed

lemma unat_items:
  assumes "os_ok s" shows "map unat (offset_items s) = os_list s"
  unfolding offset_items_eq[OF assms] map_map
  by (rule map_idI) (use os_set_512[OF assms] in \<open>fastforce simp: unat_u16_of_nat\<close>)

lemma len_card:
  assumes "os_ok s" shows "unat (offset_set_len s) = card (os_set s)" "card (os_set s) \<le> 512"
proof -
  have c: "card (os_set s) = length (mask_list (os_words s))"
    unfolding os_set_def by (simp add: card_image card_mask_set)
  show le: "card (os_set s) \<le> 512"
    unfolding c using length_mask_list_le[of "os_words s"] assms by (simp add: os_ok_def)
  have "offset_set_len s = of_nat (sum_list (map count_ones (os_words s)))"
    unfolding offset_set_len_def using sum_list_of_nat[of "map count_ones (os_words s)", where ?'a = u16]
    by (simp add: o_def)
  then show "unat (offset_set_len s) = card (os_set s)"
    using le c length_mask_list[of "os_words s"] by (simp add: unat_u16_of_nat)
qed

section \<open>Runs\<close>

text \<open>The loops of the run encoder on natural numbers.\<close>

fun run_ext :: "nat \<Rightarrow> nat list \<Rightarrow> nat \<times> nat list" where
  "run_ext e [] = (e, [])"
| "run_ext e (x # xs) = (if x = e + 1 then run_ext (e + 1) xs else (e, x # xs))"

lemma run_ext_split:
  assumes "run_ext e xs = (e', ys)" "sorted_wrt (<) (e # xs)"
  shows "e \<le> e'" "xs = [Suc e..<Suc e'] @ ys" "sorted_wrt (<) (e' # ys)" "\<forall>y \<in> set ys. Suc e' < y"
proof -
  have "e \<le> e' \<and> xs = [Suc e..<Suc e'] @ ys \<and> sorted_wrt (<) (e' # ys) \<and> (\<forall>y \<in> set ys. Suc e' < y)"
    using assms
  proof (induction e xs rule: run_ext.induct)
    case (2 e x xs)
    show ?case
    proof (cases "x = e + 1")
      case True
      then have IH: "Suc e \<le> e'" "xs = [Suc (Suc e)..<Suc e'] @ ys" "sorted_wrt (<) (e' # ys)"
        "\<forall>y \<in> set ys. Suc e' < y" using 2 by auto
      have "[Suc e..<Suc e'] = Suc e # [Suc (Suc e)..<Suc e']" using IH(1) by (simp add: upt_rec)
      then show ?thesis using True IH by simp
    next
      case False
      then have "e' = e" "ys = x # xs" using 2(2) by auto
      then show ?thesis using False 2(3) by fastforce
    qed
  qed auto
  then show "e \<le> e'" "xs = [Suc e..<Suc e'] @ ys" "sorted_wrt (<) (e' # ys)" "\<forall>y \<in> set ys. Suc e' < y"
    by auto
qed

lemma length_run_ext: "length (snd (run_ext e xs)) \<le> length xs"
  by (induction e xs rule: run_ext.induct) auto

function runs_of :: "nat list \<Rightarrow> (nat \<times> nat) list" where
  "runs_of [] = []"
| "runs_of (s # xs) = (s, fst (run_ext s xs) - s + 1) # runs_of (snd (run_ext s xs))"
  by pat_completeness auto
termination
  by (relation "measure length") (auto simp: length_run_ext le_imp_less_Suc)

fun runs_ok :: "nat \<Rightarrow> nat \<Rightarrow> (nat \<times> nat) list \<Rightarrow> bool" where
  "runs_ok previous domain [] = True"
| "runs_ok previous domain ((s, l) # rs) =
     (1 \<le> s \<and> 1 \<le> l \<and> (previous \<noteq> 0 \<longrightarrow> previous + 1 < s) \<and> s + l - 1 \<le> domain \<and>
      runs_ok (s + l - 1) domain rs)"

definition runs_elems :: "(nat \<times> nat) list \<Rightarrow> nat set" where
  "runs_elems rs = (\<Union>(s, l) \<in> set rs. {s..<s + l})"

lemma runs_of_ok:
  assumes "sorted_wrt (<) xs" "\<forall>x \<in> set xs. 1 \<le> x \<and> x \<le> domain \<and> (previous \<noteq> 0 \<longrightarrow> previous + 1 < x)"
  shows "runs_ok previous domain (runs_of xs) \<and> runs_elems (runs_of xs) = set xs"
  using assms
proof (induction xs arbitrary: previous rule: runs_of.induct)
  case (2 s xs)
  obtain e ys where e: "run_ext s xs = (e, ys)" by (cases "run_ext s xs")
  note sp = run_ext_split[OF e 2(2)]
  have ed: "e \<le> domain" "1 \<le> s" using 2(3) sp(1,2) by (cases "e = s", auto)
  have "\<forall>x \<in> set ys. 1 \<le> x \<and> x \<le> domain \<and> (e \<noteq> 0 \<longrightarrow> e + 1 < x)" "sorted_wrt (<) ys"
    using sp(2-4) 2(3) by auto
  then have IH: "runs_ok e domain (runs_of ys)" "runs_elems (runs_of ys) = set ys"
    using "2.IH"[of e] e by auto
  have "set (s # xs) = {s..<s + (e - s + 1)} \<union> set ys" using sp(1,2) by auto
  moreover have "s + (e - s + 1) - 1 = e" "previous \<noteq> 0 \<longrightarrow> previous + 1 < s" using sp(1) 2(3) by auto
  ultimately show ?case using e ed IH by (simp add: runs_elems_def)
qed (simp add: runs_elems_def)

lemma length_runs_of:
  assumes "sorted_wrt (<) xs" "\<forall>x \<in> set xs. 1 \<le> x"
  shows "length (runs_of xs) = card {x \<in> set xs. x - 1 \<notin> set xs}"
  using assms
proof (induction xs rule: runs_of.induct)
  case (2 s xs)
  obtain e ys where e: "run_ext s xs = (e, ys)" by (cases "run_ext s xs")
  note sp = run_ext_split[OF e 2(2)]
  have all: "set (s # xs) = {s..e} \<union> set ys" using sp(1,2) by auto
  have "{x \<in> set (s # xs). x - 1 \<notin> set (s # xs)} = insert s {x \<in> set ys. x - 1 \<notin> set ys}"
  proof (intro set_eqI iffI)
    fix x assume x: "x \<in> {x \<in> set (s # xs). x - 1 \<notin> set (s # xs)}"
    show "x \<in> insert s {x \<in> set ys. x - 1 \<notin> set ys}"
    proof (cases "x \<in> set ys")
      case False
      have "x \<in> {s..e} \<union> set ys" "x - 1 \<notin> {s..e} \<union> set ys"
        using x unfolding all mem_Collect_eq by blast+
      then have r: "s \<le> x" "x \<le> e" "x - 1 \<notin> {s..e}" using False by auto
      then have "x = s" by (simp only: atLeastAtMost_iff) linarith
      then show ?thesis by simp
    next
      case True
      have "set ys \<subseteq> set (s # xs)" using all by simp
      then have "x - 1 \<notin> set ys" using x by (simp only: mem_Collect_eq) blast
      then show ?thesis using True by simp
    qed
  next
    fix x assume x: "x \<in> insert s {x \<in> set ys. x - 1 \<notin> set ys}"
    show "x \<in> {x \<in> set (s # xs). x - 1 \<notin> set (s # xs)}"
    proof (cases "x = s")
      case True
      have "1 \<le> s" "\<forall>y \<in> set xs. s < y" using 2(2,3) by auto
      then show ?thesis using True by fastforce
    next
      case False
      then have "x \<in> set ys" "x - 1 \<notin> set ys" "Suc e < x" using x sp(4) by auto
      then show ?thesis unfolding all by auto
    qed
  qed
  moreover have "s \<notin> set ys" using sp(1,4) by auto
  moreover have "length (runs_of ys) = card {x \<in> set ys. x - 1 \<notin> set ys}"
    using "2.IH" sp(2,3) 2(3) e by auto
  ultimately show ?case using e by simp
qed simp

definition run_bytes :: "nat \<times> nat \<Rightarrow> bytes" where
  "run_bytes r = le_bytes 2 (of_nat (fst r) :: u16) @ le_bytes 2 (of_nat (snd r) :: u16)"

lemma length_run_bytes [simp]: "length (run_bytes r) = 4"
  by (simp add: run_bytes_def)

lemma length_runs_bytes [simp]: "length (concat (map run_bytes rs)) = length rs * 4"
  by (rule concat_fixed_length) simp

lemma run_extend_nat:
  assumes "\<forall>x \<in> set xs. x < 65535" "e < 65535"
  shows "run_extend (of_nat e) (map of_nat xs) =
    (of_nat (fst (run_ext e xs)), map of_nat (snd (run_ext e xs)))"
  using assms
proof (induction e xs rule: run_ext.induct)
  case (2 e x xs)
  have "(of_nat x :: u16) = of_nat e + 1 \<longleftrightarrow> x = e + 1"
  proof
    assume "(of_nat x :: u16) = of_nat e + 1"
    then have "(of_nat x :: u16) = of_nat (Suc e)" by (simp add: add.commute)
    then have "unat (of_nat x :: u16) = unat (of_nat (Suc e) :: u16)" by simp
    then show "x = e + 1" using 2(2,3) unat_u16_of_nat[of x] unat_u16_of_nat[of "Suc e"] by simp
  qed simp
  moreover have "(of_nat e + 1 :: u16) = of_nat (e + 1)" by simp
  ultimately show ?case using 2 by (auto simp del: of_nat_add of_nat_Suc)
qed simp

lemma encode_runs_eq:
  assumes "sorted_wrt (<) xs" "\<forall>x \<in> set xs. x \<le> 512" "wr_ok w" "length (runs_of xs) * 4 \<le> wr_room w"
  shows "encode_runs w (map of_nat xs) = Inr (wr_append w (concat (map run_bytes (runs_of xs))))"
  using assms
proof (induction xs arbitrary: w rule: runs_of.induct)
  case (2 s xs)
  obtain e ys where e: "run_ext s xs = (e, ys)" by (cases "run_ext s xs")
  note sp = run_ext_split[OF e 2(2)]
  have ext: "run_extend (of_nat s) (map of_nat xs) = (of_nat e, map of_nat ys)"
    using run_extend_nat[of xs s] 2(3) e by (fastforce simp: order_le_less_trans)
  have len: "(of_nat e - of_nat s + 1 :: u16) = of_nat (e - s + 1)"
    using sp(1) by (simp add: of_nat_diff)
  have room: "4 \<le> wr_room w" "length (runs_of ys) * 4 \<le> wr_room w - 4" using 2(5) e by simp_all
  let ?w = "wr_append w (run_bytes (s, e - s + 1))"
  have "encode_runs ?w (map of_nat ys) = Inr (wr_append ?w (concat (map run_bytes (runs_of ys))))"
    using "2.IH"[of ?w] sp(2,3) 2(3) 2(4) room e by auto
  moreover have "encode_runs w (map of_nat (s # xs)) = encode_runs ?w (map of_nat ys)"
    using 2(4) room(1) by (simp add: ext len codec_simps run_bytes_def del: of_nat_add)
  ultimately show ?case using e 2(4) room by simp
qed simp

text \<open>The carry loop counts the starts of runs.\<close>

fun start_words :: "u64 list \<Rightarrow> u64 \<Rightarrow> u64 list" where
  "start_words [] carry = []"
| "start_words (w # ws) carry = (w AND NOT (push_bit 1 w OR carry)) # start_words ws (drop_bit 63 w)"

lemma run_count_loop_words:
  "run_count_loop ws runs carry = runs + of_nat (sum_list (map count_ones (start_words ws carry)))"
  by (induction ws runs carry rule: run_count_loop.induct) (simp_all add: add.assoc)

lemma mask_bit_start_words:
  assumes "\<And>j. bit carry j \<Longrightarrow> j = 0"
  shows "mask_bit (start_words ws carry) k \<longleftrightarrow>
    mask_bit ws k \<and> (if k = 0 then \<not> bit carry 0 else \<not> mask_bit ws (k - 1))"
  using assms
proof (induction ws arbitrary: carry k)
  case (Cons w ws)
  have c: "bit (drop_bit 63 w) j \<longleftrightarrow> j = 0 \<and> bit w 63" for j
    using bit_imp_le_length[of w "63 + j"] by (cases j) (auto simp: bit_drop_bit_eq)
  show ?case
  proof (cases "k < 64")
    case True
    have nc: "k \<noteq> 0 \<Longrightarrow> \<not> bit carry k" using Cons.prems by blast
    have sh: "bit (push_bit (Suc 0) w) k \<longleftrightarrow> k \<noteq> 0 \<and> bit w (k - 1)"
      using True by (auto simp only: bit_push_bit_iff) simp_all
    show ?thesis using True nc
      by (auto simp: mask_bit_Cons bit_and_iff bit_not_iff bit_or_iff sh simp del: push_bit_Suc push_bit_numeral)
  next
    case False
    have IH: "mask_bit (start_words ws (drop_bit 63 w)) (k - 64) \<longleftrightarrow>
      mask_bit ws (k - 64) \<and> (if k - 64 = 0 then \<not> bit (drop_bit 63 w) 0 else \<not> mask_bit ws (k - 64 - 1))"
      by (rule Cons.IH) (use c in blast)
    show ?thesis
    proof (cases "k = 64")
      case True
      then show ?thesis using IH c by (simp add: mask_bit_Cons)
    next
      case k: False
      then have "k - 64 - 1 = k - 1 - 64" "\<not> k - 1 < 64" using False by auto
      then show ?thesis using IH False k by (simp add: mask_bit_Cons)
    qed
  qed
qed simp

lemma length_start_words [simp]: "length (start_words ws c) = length ws"
  by (induction ws c rule: start_words.induct) auto

lemma run_count_card:
  assumes "os_ok s"
  shows "unat (offset_set_run_count s) = card {x \<in> os_set s. x - 1 \<notin> os_set s}"
proof -
  let ?sw = "start_words (os_words s) 0"
  have mb: "mask_bit ?sw k \<longleftrightarrow> mask_bit (os_words s) k \<and> (k = 0 \<or> \<not> mask_bit (os_words s) (k - 1))" for k
    using mask_bit_start_words[of 0 "os_words s" k] by simp
  have "{x \<in> os_set s. x - 1 \<notin> os_set s} = Suc ` mask_set ?sw"
  proof (intro set_eqI iffI)
    fix x assume "x \<in> {x \<in> os_set s. x - 1 \<notin> os_set s}"
    then have "0 < x" "mask_bit ?sw (x - 1)" by (auto simp: os_set_iff mb)
    then show "x \<in> Suc ` mask_set ?sw" by (intro image_eqI[of _ _ "x - 1"]) (auto simp: mask_set_def)
  next
    fix x assume "x \<in> Suc ` mask_set ?sw"
    then show "x \<in> {x \<in> os_set s. x - 1 \<notin> os_set s}" by (auto simp: os_set_iff mask_set_def mb)
  qed
  then have c: "card {x \<in> os_set s. x - 1 \<notin> os_set s} = sum_list (map count_ones ?sw)"
    by (simp add: card_image card_mask_set length_mask_list)
  have "sum_list (map count_ones ?sw) \<le> 512"
    using length_mask_list_le[of ?sw] length_mask_list[of ?sw] assms by (simp add: os_ok_def)
  then show ?thesis
    unfolding c offset_set_run_count_def run_count_loop_words by (simp add: unat_u16_of_nat)
qed

lemma run_count_runs:
  assumes "os_ok s" shows "unat (offset_set_run_count s) = length (runs_of (os_list s))"
  using run_count_card[OF assms] length_runs_of[OF os_list_ascending] os_set_bound[OF assms] by simp

lemma runs_le_len:
  assumes "os_ok s" shows "offset_set_run_count s \<le> offset_set_len s"
  unfolding word_le_nat_alt run_count_card[OF assms] len_card(1)[OF assms]
  by (rule card_mono) (auto simp flip: set_os_list)

section \<open>The bitmap encoding\<close>

lemma mask_bit_bytes:
  "mask_bit ws k \<longleftrightarrow> k div 64 < length ws \<and> bit (ws ! (k div 8 div 8)) ((k div 8 mod 8) * 8 + k mod 8)"
proof -
  have "k div 64 = k div 8 div 8" "k mod 64 = (k div 8 mod 8) * 8 + k mod 8"
    by (simp_all add: div_mult2_eq[of k 8 8, simplified] mod_mult2_eq[of k 8 8, simplified])
  then show ?thesis by (simp add: mask_bit_def)
qed

lemma or_byte:
  assumes "length ws = 8" "i < 64"
  shows "mask_bit (ws[i div 8 := ws ! (i div 8) OR push_bit ((i mod 8) * 8) (ucast (b :: u8))]) k \<longleftrightarrow>
    mask_bit ws k \<or> (k div 8 = i \<and> bit b (k mod 8))"
proof (cases "k div 64 = i div 8")
  case True
  have k: "k div 8 div 8 = i div 8" using True by (simp flip: div_mult2_eq)
  have b8: "bit b j \<Longrightarrow> j < 8" for j using bit_imp_le_length[of b j] by simp
  have "bit (push_bit ((i mod 8) * 8) (ucast b :: u64)) (k mod 64) \<longleftrightarrow> k div 8 = i \<and> bit b (k mod 8)"
  proof -
    have m: "k mod 64 = (k div 8 mod 8) * 8 + k mod 8"
      by (simp add: mod_mult2_eq[of k 8 8, simplified])
    have "bit (push_bit ((i mod 8) * 8) (ucast b :: u64)) (k mod 64) \<longleftrightarrow>
        (i mod 8) * 8 \<le> k mod 64 \<and> bit b (k mod 64 - (i mod 8) * 8)"
      by (auto simp: bit_push_bit_iff bit_ucast_iff dest: b8)
    also have "\<dots> \<longleftrightarrow> k div 8 mod 8 = i mod 8 \<and> bit b (k mod 8)"
    proof
      assume a: "(i mod 8) * 8 \<le> k mod 64 \<and> bit b (k mod 64 - (i mod 8) * 8)"
      then have "k mod 64 - (i mod 8) * 8 < 8" using b8 by blast
      with a m have "k div 8 mod 8 = i mod 8" by linarith
      then show "k div 8 mod 8 = i mod 8 \<and> bit b (k mod 8)" using a m by simp
    qed (simp add: m)
    also have "k div 8 mod 8 = i mod 8 \<longleftrightarrow> k div 8 = i" using k by (metis div_mult_mod_eq)
    finally show ?thesis .
  qed
  moreover have "i div 8 < length ws" using assms by simp
  ultimately show ?thesis using True by (auto simp: mask_bit_update bit_or_iff mask_bit_def)
next
  case False
  then have "k div 8 \<noteq> i" by (auto simp: div_mult2_eq[of k 8 8, simplified])
  then show ?thesis using False assms by (simp add: mask_bit_update)
qed

lemma fold_bytes:
  assumes "length ws = 8" "i + length bs \<le> 64"
  shows "length (fold (\<lambda>(index, byte) words.
      words[index div 8 := words ! (index div 8) OR push_bit ((index mod 8) * 8) (ucast (byte :: u8))])
      (enumerate i bs) ws) = 8 \<and>
    (mask_bit (fold (\<lambda>(index, byte) words.
      words[index div 8 := words ! (index div 8) OR push_bit ((index mod 8) * 8) (ucast byte)])
      (enumerate i bs) ws) k \<longleftrightarrow>
     mask_bit ws k \<or> (i \<le> k div 8 \<and> k div 8 - i < length bs \<and> bit (bs ! (k div 8 - i)) (k mod 8)))"
  using assms
proof (induction bs arbitrary: i ws)
  case (Cons b bs)
  let ?ws = "ws[i div 8 := ws ! (i div 8) OR push_bit ((i mod 8) * 8) (ucast b)]"
  have i: "i < 64" using Cons.prems(2) by simp
  note IH = Cons.IH[of ?ws "Suc i"]
  have "i \<le> k div 8 \<and> k div 8 - i < length (b # bs) \<and> bit ((b # bs) ! (k div 8 - i)) (k mod 8) \<longleftrightarrow>
      (k div 8 = i \<and> bit b (k mod 8)) \<or>
      (Suc i \<le> k div 8 \<and> k div 8 - Suc i < length bs \<and> bit (bs ! (k div 8 - Suc i)) (k mod 8))"
  proof (cases "k div 8 - i")
    case 0
    then show ?thesis by auto
  next
    case (Suc m)
    then have "k div 8 - Suc i = m" "k div 8 \<noteq> i" "i \<le> k div 8" "Suc i \<le> k div 8" by auto
    then show ?thesis using Suc by auto
  qed
  then show ?case using IH Cons.prems or_byte[OF Cons.prems(1) i, of b k] by auto
qed simp

definition bitmap_bytes :: "offset_set \<Rightarrow> bytes" where
  "bitmap_bytes s = map (\<lambda>byte. ucast (drop_bit ((byte mod 8) * 8) (os_words s ! (byte div 8))))
     [0..<div_ceil (unat (os_domain s)) 8]"

lemma ceil8: "div_ceil d 8 = d div 8 + (if d mod 8 = 0 then 0 else 1)"
proof -
  define q r where "q = d div 8" and "r = d mod 8"
  have d: "d = 8 * q + r" "r < 8" by (simp_all add: q_def r_def)
  then have "d + 8 - 1 = 8 * q + (r + 7)" by simp
  then have "(d + 8 - 1) div 8 = q + (r + 7) div 8" by simp
  moreover have "(r + 7) div 8 = (if r = 0 then 0 else 1)" using d(2) by (simp add: div_nat_eqI)
  ultimately show ?thesis by (simp add: div_ceil_def q_def r_def)
qed

lemma ceil8_tail:
  assumes "k div 8 < div_ceil d 8" "\<not> k < d"
  shows "d mod 8 \<noteq> 0" "k div 8 = div_ceil d 8 - 1" "d mod 8 \<le> k mod 8"
proof -
  have le: "d div 8 \<le> k div 8" using assms(2) by (simp add: div_le_mono)
  then have e: "k div 8 = d div 8" "d mod 8 \<noteq> 0" using assms(1) by (auto simp: ceil8 split: if_splits)
  then show "d mod 8 \<noteq> 0" "k div 8 = div_ceil d 8 - 1" by (simp_all add: ceil8)
  show "d mod 8 \<le> k mod 8"
    using e(1) assms(2) div_mult_mod_eq[of d 8] div_mult_mod_eq[of k 8] by linarith
qed

lemma ceil8_last: "d mod 8 \<noteq> 0 \<Longrightarrow> d \<le> 8 * (div_ceil d 8 - 1) + (d mod 8 + j)"
  using div_mult_mod_eq[of d 8] by (simp add: ceil8)

lemma bitmap_size: "os_ok s \<Longrightarrow> div_ceil (unat (os_domain s)) 8 \<le> 64"
  unfolding os_ok_def div_ceil_def by linarith

lemma bit_bitmap_bytes:
  assumes ok: "os_ok s" and i: "i < div_ceil (unat (os_domain s)) 8" and j: "j < 8"
  shows "bit (bitmap_bytes s ! i) j \<longleftrightarrow> mask_bit (os_words s) (8 * i + j)"
proof -
  have "i < 64" using i bitmap_size[OF ok] by simp
  then have "i div 8 < 8" by simp
  moreover have "(8 * i + j) div 8 = i" "(8 * i + j) mod 8 = j" using j by simp_all
  moreover have "(8 * i + j) div 64 = i div 8" using j by (simp add: div_mult2_eq[of _ 8 8, simplified])
  ultimately show ?thesis using i j ok
    by (simp add: bitmap_bytes_def mask_bit_bytes bit_ucast_iff bit_drop_bit_eq os_ok_def add.commute)
qed

text \<open>What the bitmap branch accepts, and what it builds.\<close>

lemma parse_bitmap_sound:
  assumes l: "layout_ok l" and r: "parse_bitmap reader (offset_set_new l) = Inr (reader', res)"
    and ok: "rd_ok reader"
  shows "os_ok res" "os_domain res = max_offset l"
proof -
  let ?s = "offset_set_new l" and ?d = "unat (max_offset l)"
  note n = new_ok[OF l]
  let ?n = "div_ceil ?d 8"
  have dom: "os_domain ?s = max_offset l" by (simp add: offset_set_new_def)
  have d: "1 \<le> ?d" "?d \<le> 512" using n by (auto simp: os_ok_def dom)
  from r obtain bs where bs: "reader_take reader ?n = Inr (bs, reader')"
    and tail: "unat (max_offset l mod 8) \<noteq> 0 \<Longrightarrow> bs \<noteq> [] \<Longrightarrow> drop_bit (unat (max_offset l mod 8)) (last bs) = 0"
    and res: "res = ?s\<lparr>os_words := fold (\<lambda>(index, byte) words.
           words[index div 8 := words ! (index div 8) OR push_bit ((index mod 8) * 8) (ucast byte)])
           (enumerate 0 bs) (os_words ?s)\<rparr>"
    by (auto simp: parse_bitmap_def res_simps Let_def dom split: if_splits)
  have len: "length bs = ?n" using reader_take_consumes[OF ok bs] by simp
  have n64: "?n \<le> 64" using d by (simp add: div_ceil_def)
  have w8: "length (os_words ?s) = 8" using n by (simp add: os_ok_def)
  have empty: "\<not> mask_bit (os_words ?s) k" for k using n by (auto simp: os_set_def mask_set_def)
  have mb: "mask_bit (os_words res) k \<longleftrightarrow> k div 8 < ?n \<and> bit (bs ! (k div 8)) (k mod 8)" for k
    using fold_bytes[of "os_words ?s" 0 bs k] w8 n64 len empty by (simp add: res)
  have "k < ?d" if k: "mask_bit (os_words res) k" for k
  proof (rule ccontr)
    assume ge: "\<not> k < ?d"
    have kn: "k div 8 < ?n" "bit (bs ! (k div 8)) (k mod 8)" using mb k by auto
    have t: "unat (max_offset l mod 8) = ?d mod 8" by (simp add: unat_mod)
    note td = ceil8_tail[OF kn(1) ge]
    have ne: "bs \<noteq> []" using kn(1) len by auto
    have "drop_bit (?d mod 8) (last bs) = 0" using tail td(1) ne by (simp add: t)
    then have "\<not> bit (drop_bit (?d mod 8) (last bs)) (k mod 8 - ?d mod 8)" by simp
    then have "\<not> bit (last bs) (?d mod 8 + (k mod 8 - ?d mod 8))"
      by (simp only: bit_drop_bit_eq comp_apply) simp
    moreover have "last bs = bs ! (k div 8)" using ne len td(2) by (simp add: last_conv_nth)
    ultimately show False using kn(2) td(3) by simp
  qed
  moreover have "length (os_words res) = 8"
    using fold_bytes[of "os_words ?s" 0 bs 0] w8 n64 len by (simp add: res)
  ultimately show "os_ok res" using d by (simp add: os_ok_def res dom)
  show "os_domain res = max_offset l" by (simp add: res dom)
qed

lemma parse_bitmap_bytes:
  assumes ok: "os_ok s" and l: "layout_ok l" "max_offset l = os_domain s"
    and c: "consumes reader (bitmap_bytes s) reader'"
  shows "parse_bitmap reader (offset_set_new l) = Inr (reader', s)"
proof -
  let ?s = "offset_set_new l" and ?d = "unat (os_domain s)"
  let ?n = "div_ceil ?d 8" and ?bs = "bitmap_bytes s"
  note n = new_ok[OF l(1)]
  have dom: "os_domain ?s = os_domain s" using l(2) by (simp add: offset_set_new_def)
  have len: "length ?bs = ?n" by (simp add: bitmap_bytes_def)
  have d: "1 \<le> ?d" "?d \<le> 512" using ok by (auto simp: os_ok_def)
  have n1: "1 \<le> ?n" using d by (simp add: div_ceil_def)
  have take: "reader_take reader ?n = Inr (?bs, reader')"
    using c len by (auto simp: consumes_def reader_take_eq)
  define res where "res = ?s\<lparr>os_words := fold (\<lambda>(index, byte) words.
           words[index div 8 := words ! (index div 8) OR push_bit ((index mod 8) * 8) (ucast byte)])
           (enumerate 0 ?bs) (os_words ?s)\<rparr>"
  have tail: "drop_bit (?d mod 8) (last ?bs) = 0" if "?d mod 8 \<noteq> 0"
  proof (rule bit_word_eqI)
    fix j assume "j < LENGTH(8)"
    show "bit (drop_bit (?d mod 8) (last ?bs)) j = bit (0 :: u8) j"
    proof (cases "?d mod 8 + j < 8")
      case True
      have "8 * (?n - 1) + (?d mod 8 + j) \<ge> ?d" using ceil8_last[OF that] .
      then have "\<not> mask_bit (os_words s) (8 * (?n - 1) + (?d mod 8 + j))" using ok by (auto simp: os_ok_def)
      then have "\<not> bit (?bs ! (?n - 1)) (?d mod 8 + j)"
        using bit_bitmap_bytes[OF ok, of "?n - 1" "?d mod 8 + j"] True n1 by simp
      moreover have "last ?bs = ?bs ! (?n - 1)" using len n1 by (metis last_conv_nth length_0_conv not_one_le_zero)
      ultimately show ?thesis by (simp add: bit_drop_bit_eq)
    next
      case False
      then have "\<not> bit (last ?bs) (?d mod 8 + j)" using bit_imp_le_length[of "last ?bs" "?d mod 8 + j"] by auto
      then show ?thesis by (simp add: bit_drop_bit_eq)
    qed
  qed
  have parsed: "parse_bitmap reader ?s = Inr (reader', res)"
    using take tail by (auto simp: parse_bitmap_def dom res_def unat_mod Let_def)
  have rok: "rd_ok reader" using c by (simp add: consumes_def)
  note snd = parse_bitmap_sound[OF l(1) parsed rok]
  have mb: "mask_bit (os_words res) k \<longleftrightarrow> mask_bit (os_words s) k" for k
  proof -
    have "mask_bit (os_words res) k \<longleftrightarrow> k div 8 < ?n \<and> bit (?bs ! (k div 8)) (k mod 8)"
      using fold_bytes[of "os_words ?s" 0 ?bs k] n len bitmap_size[OF ok]
      by (auto simp: res_def os_ok_def os_set_def mask_set_def)
    also have "\<dots> \<longleftrightarrow> k div 8 < ?n \<and> mask_bit (os_words s) k"
      using bit_bitmap_bytes[OF ok, of "k div 8" "k mod 8"] by auto
    also have "\<dots> \<longleftrightarrow> mask_bit (os_words s) k"
      using ok by (auto simp: os_ok_def div_ceil_def)
    finally show ?thesis .
  qed
  have "res = s" by (rule os_eqI[OF snd(1) ok]) (use snd(2) l(2) mb in \<open>auto simp: os_set_def mask_set_def\<close>)
  then show ?thesis using parsed by simp
qed

section \<open>The sparse and run encodings\<close>

definition item_bytes :: "nat \<Rightarrow> bytes" where
  "item_bytes n = le_bytes 2 (of_nat n :: u16)"

lemma length_item_bytes [simp]: "length (item_bytes n) = 2"
  by (simp add: item_bytes_def)

lemma length_items_bytes [simp]: "length (concat (map item_bytes xs)) = length xs * 2"
  by (rule concat_fixed_length) simp

lemma parse_sparse_items:
  assumes "consumes r (concat (map item_bytes xs)) r'" "length is = length xs" "os_ok res"
    and "sorted_wrt (<) (unat previous # xs)" "\<forall>x \<in> set xs. x \<le> unat (os_domain res)"
  shows "\<exists>res' p. try_fold parse_sparse_step (r, res, previous) is = Inr (r', res', p) \<and> os_ok res' \<and>
    os_domain res' = os_domain res \<and> os_set res' = os_set res \<union> set xs"
  using assms
proof (induction xs arbitrary: r "is" res previous)
  case Nil
  then show ?case by (auto simp: consumes_def)
next
  case (Cons x xs)
  then obtain i is' where i: "is = i # is'" by (cases "is") auto
  have x: "unat previous < x" "x \<le> unat (os_domain res)" "x \<le> 512" "sorted_wrt (<) (x # xs)"
    using Cons.prems by (auto simp: os_ok_def)
  have ux: "unat (of_nat x :: u16) = x" using x(3) by (simp add: unat_u16_of_nat)
  let ?r = "rd_skip r 2"
  have rest: "rd_rest r = le_bytes 2 (of_nat x :: u16) @ concat (map item_bytes xs) @ rd_rest r'"
    using consumes_rest[OF Cons.prems(1)] by (simp add: item_bytes_def[of x])
  have rok: "rd_ok r" using Cons.prems(1) by (simp add: consumes_def)
  have rd: "reader_u16 r = Inr (of_nat x, ?r)" using u16_field.dec_enc[OF rok rest] by simp
  have c: "consumes ?r (concat (map item_bytes xs)) r'"
    using consumes_append[of r "item_bytes x" _ r'] Cons.prems(1) by simp
  obtain u where u: "offset_set_insert res (of_nat x) = Inr (x \<notin> os_set res, u)" "os_ok u"
    "os_set u = insert x (os_set res)" "os_domain u = os_domain res"
    using offset_bits.add_inside[OF Cons.prems(3), of "of_nat x"] ux x
    by (auto simp: word_unat_eq_iff[of "os_domain _"])
  have "\<not> of_nat x \<le> previous" using x(1) ux by (simp add: word_le_nat_alt)
  then have "parse_sparse_step (r, res, previous) i = Inr (?r, u, of_nat x)"
    by (simp add: parse_sparse_step_def rd u(1))
  moreover obtain res' p where "try_fold parse_sparse_step (?r, u, of_nat x) is' = Inr (r', res', p)"
    "os_ok res'" "os_domain res' = os_domain u" "os_set res' = os_set u \<union> set xs"
    using Cons.IH[OF c _ u(2), of is' "of_nat x"] Cons.prems(2,5) i x(4) u(4) ux by auto
  ultimately show ?case using i u by auto
qed

lemma parse_run_items:
  assumes "consumes r (concat (map run_bytes rs)) r'" "length is = length rs" "os_ok res"
    and "runs_ok (unat previous) (unat (os_domain res)) rs" "unat previous \<le> 512"
  shows "\<exists>res' p. try_fold parse_run_step (r, res, previous) is = Inr (r', res', p) \<and> os_ok res' \<and>
    os_domain res' = os_domain res \<and> os_set res' = os_set res \<union> runs_elems rs"
  using assms
proof (induction rs arbitrary: r "is" res previous)
  case Nil
  then show ?case by (auto simp: consumes_def runs_elems_def)
next
  case (Cons sl rs)
  obtain s l where sl: "sl = (s, l)" by (cases sl)
  from Cons.prems(2) obtain i is' where i: "is = i # is'" by (cases "is") auto
  have d: "unat (os_domain res) \<le> 512" using Cons.prems(3) by (simp add: os_ok_def)
  have ok: "1 \<le> s" "1 \<le> l" "unat previous \<noteq> 0 \<longrightarrow> unat previous + 1 < s" "s + l - 1 \<le> unat (os_domain res)"
    "runs_ok (s + l - 1) (unat (os_domain res)) rs" using Cons.prems(4) by (auto simp: sl)
  define e where "e = s + l - 1"
  note ok = ok[folded e_def]
  have el: "s \<le> e" "l = e - s + 1" "s + l = Suc e" using ok(1,2) by (simp_all add: e_def)
  have u: "unat (of_nat s :: u16) = s" "unat (of_nat l :: u16) = l" "unat (of_nat e :: u16) = e"
    by (rule unat_u16_of_nat, use ok(4) d el in simp)+
  let ?r = "rd_skip r 4"
  have rest: "rd_rest r = le_bytes 2 (of_nat s :: u16) @ le_bytes 2 (of_nat l :: u16) @
      concat (map run_bytes rs) @ rd_rest r'"
    using consumes_rest[OF Cons.prems(1)] by (simp add: sl run_bytes_def[of "(s, l)"])
  have rok: "rd_ok r" using Cons.prems(1) by (simp add: consumes_def)
  have rd: "reader_u16 r = Inr (of_nat s, rd_skip r 2)" "reader_u16 (rd_skip r 2) = Inr (of_nat l, ?r)"
    using u16_field.dec_enc[OF rok rest] u16_field.dec_enc[of "rd_skip r 2" "of_nat l" "concat (map run_bytes rs) @ rd_rest r'"]
      rok rest by simp_all
  have c: "consumes ?r (concat (map run_bytes rs)) r'"
    using consumes_append[of r "run_bytes sl" _ r'] Cons.prems(1) by simp
  have add: "checked_add_w (of_nat s) (of_nat l - 1) = Some (of_nat e :: u16)"
  proof -
    have l1: "(of_nat l - 1 :: u16) = of_nat e - of_nat s" using el by (simp add: of_nat_diff)
    have "(of_nat s :: u16) \<le> of_nat e" using el(1) u by (simp add: word_le_nat_alt)
    then show ?thesis
      using u(1,3) el(1) unat_sub[of "of_nat s :: u16" "of_nat e"] unat_lt2p[of "of_nat e :: u16"]
      by (simp add: checked_add_w_def l1)
  qed
  have guard: "of_nat s \<noteq> (0 :: u16)" "of_nat l \<noteq> (0 :: u16)" "\<not> (previous \<noteq> 0 \<and> of_nat s \<le> previous + 1)"
    "\<not> of_nat e > os_domain res"
  proof -
    show "of_nat s \<noteq> (0 :: u16)" "of_nat l \<noteq> (0 :: u16)" using u ok(1,2) by (metis not_one_le_zero unat_0)+
    have "unat (previous + 1) = unat previous + 1"
      using Cons.prems(5) by (simp add: unat_word_ariths)
    then show "\<not> (previous \<noteq> 0 \<and> of_nat s \<le> previous + 1)"
      using ok(3) u(1) by (auto simp: word_le_nat_alt unat_eq_zero)
    show "\<not> of_nat e > os_domain res" using ok(4) u(3) by (simp add: word_less_nat_alt)
  qed
  have rng: "set [s..<Suc e] = {s..<s + l}" using el(3) by auto
  have ur: "unat ` set (map of_nat [s..<Suc e] :: u16 list) = {s..<s + l}"
  proof -
    have "unat (of_nat k :: u16) = k" if "k \<in> {s..<s + l}" for k
      using that ok(4) d el(3) by (intro unat_u16_of_nat) auto
    then show ?thesis by (simp only: set_map rng image_image) simp
  qed
  have inside: "1 \<le> unat x \<and> unat x \<le> unat (os_domain res)"
    if "x \<in> set (map of_nat [s..<Suc e])" for x :: u16
  proof -
    have "unat x \<in> {s..<s + l}" using imageI[OF that, of unat] unfolding ur .
    then show ?thesis using ok(1,4) el(3) by auto
  qed
  obtain w where w: "try_fold (\<lambda>res offset. and_then (offset_set_insert res offset) (\<lambda>(_, res). Inr res)) res
      (map of_nat [s..<Suc e]) = Inr w" "os_ok w" "os_set w = os_set res \<union> {s..<s + l}"
      "unat (os_domain w) = unat (os_domain res)"
  proof -
    have "\<exists>t. try_fold (\<lambda>res offset. and_then (offset_set_insert res offset) (\<lambda>(_, res). Inr res)) res
      (map of_nat [s..<Suc e]) = Inr t \<and> os_ok t \<and>
      os_set t = os_set res \<union> unat ` set (map of_nat [s..<Suc e] :: u16 list) \<and>
      unat (os_domain t) = unat (os_domain res)"
      by (rule offset_bits.add_all[OF Cons.prems(3)]) (rule inside)
    then show ?thesis unfolding ur using that by blast
  qed
  have "parse_run_step (r, res, previous) i = Inr (?r, w, of_nat e)"
    using guard w(1) by (simp add: parse_run_step_def rd add u del: upt_Suc of_nat_add)
  moreover obtain res' p where "try_fold parse_run_step (?r, w, of_nat e) is' = Inr (r', res', p)"
    "os_ok res'" "os_domain res' = os_domain w" "os_set res' = os_set w \<union> runs_elems rs"
    using Cons.IH[OF c _ w(2), of is' "of_nat e"] Cons.prems(2) i ok d u(3) w(4) by auto
  ultimately show ?case using i w sl by (auto simp: runs_elems_def word_unat_eq_iff)
qed

section \<open>Encoding and parsing\<close>

definition encoding_tag :: "encoding \<Rightarrow> u8" where
  "encoding_tag enc = (case enc of Sparse \<Rightarrow> 0 | Bitmap \<Rightarrow> 1 | Runs \<Rightarrow> 2)"

definition offset_body :: "offset_set \<Rightarrow> encoding \<Rightarrow> bytes" where
  "offset_body s enc =
     (case enc of
        Sparse \<Rightarrow> concat (map item_bytes (os_list s))
      | Bitmap \<Rightarrow> bitmap_bytes s
      | Runs \<Rightarrow> le_bytes 2 (offset_set_run_count s) @ concat (map run_bytes (runs_of (os_list s))))"

definition offset_bytes :: "offset_set \<Rightarrow> encoding \<Rightarrow> bytes" where
  "offset_bytes s enc = le_bytes 2 (os_domain s) @ le_bytes 2 (offset_set_len s) @ [encoding_tag enc, 0] @
     offset_body s enc"

lemma length_os_list: "os_ok s \<Longrightarrow> length (os_list s) = unat (offset_set_len s)"
  using len_card(1)[of s] by (metis distinct_card os_list_ascending set_os_list strict_sorted_iff)

lemma length_offset_bytes:
  assumes "os_ok s" shows "length (offset_bytes s enc) = encoded_len s enc"
  using length_os_list[OF assms] run_count_runs[OF assms]
  by (cases enc) (simp_all add: offset_bytes_def offset_body_def encoded_len_def bitmap_bytes_def)

lemma write_items:
  assumes "wr_ok w" "length xs * 2 \<le> wr_room w"
  shows "try_fold writer_u16 w (map of_nat xs) = Inr (wr_append w (concat (map item_bytes xs)))"
  using assms
proof (induction xs arbitrary: w)
  case (Cons x xs)
  have "writer_u16 w (of_nat x) = Inr (wr_append w (item_bytes x))"
    using Cons.prems by (simp add: codec_simps item_bytes_def)
  then show ?case using Cons by simp
qed simp

lemma write_bytes:
  assumes "wr_ok w" "length xs \<le> wr_room w"
  shows "try_fold (\<lambda>w x. writer_u8 w (f x)) w xs = Inr (wr_append w (map f xs))"
  using assms by (induction xs arbitrary: w) (simp_all add: codec_simps)

lemma encode_as_eq:
  assumes ok: "os_ok s" and out: "slice_ok output" "encoded_len s enc \<le> length output"
  shows "encode_as s enc output =
    Inr (encoded_len s enc, offset_bytes s enc @ drop (encoded_len s enc) output)"
proof -
  note len = length_offset_bytes[OF ok, of enc]
  have it: "offset_items s = map of_nat (os_list s)" by (rule offset_items_eq[OF ok])
  have l512: "\<forall>x \<in> set (os_list s). x \<le> 512" using os_set_512[OF ok] by simp
  let ?w = "wr_append (writer_new output)
    (le_bytes 2 (os_domain s) @ le_bytes 2 (offset_set_len s) @ [encoding_tag enc, 0])"
  have w: "wr_ok ?w" "wr_room ?w = length output - 6"
    using out by (cases enc; simp add: encoded_len_def)+
  have el: "6 \<le> encoded_len s enc" by (cases enc) (simp_all add: encoded_len_def)
  have bl: "length (offset_body s enc) + 6 = encoded_len s enc" using len by (simp add: offset_bytes_def)
  have body: "(case enc of
           Sparse \<Rightarrow> try_fold writer_u16 ?w (offset_items s)
         | Bitmap \<Rightarrow>
             try_fold (\<lambda>writer byte.
               writer_u8 writer (ucast (drop_bit ((byte mod 8) * 8) (os_words s ! (byte div 8)))))
               ?w [0..<div_ceil (unat (os_domain s)) 8]
         | Runs \<Rightarrow>
             and_then (writer_u16 ?w (offset_set_run_count s)) (\<lambda>writer.
             encode_runs writer (offset_items s))) = Inr (wr_append ?w (offset_body s enc))"
  proof (cases enc)
    case Sparse
    then show ?thesis using write_items[OF w(1)] w(2) out bl by (simp add: it offset_body_def)
  next
    case Bitmap
    then show ?thesis
      using write_bytes[OF w(1), of "[0..<div_ceil (unat (os_domain s)) 8]"
          "\<lambda>byte. ucast (drop_bit ((byte mod 8) * 8) (os_words s ! (byte div 8)))"] w(2) out bl
      by (simp add: offset_body_def bitmap_bytes_def)
  next
    case Runs
    let ?w2 = "wr_append ?w (le_bytes 2 (offset_set_run_count s))"
    have room: "2 + length (runs_of (os_list s)) * 4 \<le> wr_room ?w"
      using w(2) out bl Runs by (simp add: offset_body_def)
    then have "encode_runs ?w2 (offset_items s) = Inr (wr_append ?w2 (concat (map run_bytes (runs_of (os_list s)))))"
      unfolding it using w(1) by (intro encode_runs_eq os_list_ascending l512) simp_all
    moreover have "writer_u16 ?w (offset_set_run_count s) = Inr ?w2"
      using room w(1) by (simp only: writer_u16_def writer_put_eq length_le_bytes add_leD1)
    ultimately show ?thesis using Runs room w(1) by (simp add: offset_body_def)
  qed
  have tag: "(case enc of Sparse \<Rightarrow> 0 | Bitmap \<Rightarrow> 1 | Runs \<Rightarrow> 2) = encoding_tag enc"
    by (simp add: encoding_tag_def)
  have "writer_u16 (writer_new output) (os_domain s) = Inr (wr_append (writer_new output) (le_bytes 2 (os_domain s)))"
    "writer_u16 (wr_append (writer_new output) (le_bytes 2 (os_domain s))) (offset_set_len s) =
      Inr (wr_append (writer_new output) (le_bytes 2 (os_domain s) @ le_bytes 2 (offset_set_len s)))"
    "writer_u8 (wr_append (writer_new output) (le_bytes 2 (os_domain s) @ le_bytes 2 (offset_set_len s))) (encoding_tag enc) =
      Inr (wr_append (writer_new output) (le_bytes 2 (os_domain s) @ le_bytes 2 (offset_set_len s) @ [encoding_tag enc]))"
    "writer_u8 (wr_append (writer_new output) (le_bytes 2 (os_domain s) @ le_bytes 2 (offset_set_len s) @
      [encoding_tag enc])) 0 = Inr ?w"
    using out el by (simp_all add: codec_simps)
  note steps = this
  show ?thesis
    unfolding encode_as_def tag steps and_then.simps body
    using out bl[symmetric] w by (simp add: offset_bytes_def eval_nat_numeral)
qed

lemma offset_parse_bytes:
  assumes ok: "os_ok s" and l: "max_offset l = os_domain s"
  shows "offset_set_parse (offset_bytes s enc) l = Inr s"
proof -
  let ?bs = "offset_bytes s enc"
  have lok: "layout_ok l" using ok l by (auto simp: layout_ok_def os_ok_def word_le_nat_alt)
  have el: "encoded_len s enc \<le> 8 + 512 * 4"
    using len_card[OF ok] bitmap_size[OF ok] runs_le_len[OF ok]
    by (cases enc) (simp_all add: encoded_len_def word_le_nat_alt)
  then have sl: "slice_ok ?bs" using length_offset_bytes[OF ok, of enc] by (simp add: slice_ok_def)
  let ?r = "rd_skip (reader_new ?bs) 6" and ?r' = "rd_skip (reader_new ?bs) (length ?bs)"
  have c: "consumes ?r (offset_body s enc) ?r'"
    using sl by (auto simp: consumes_def offset_bytes_def)
  have fin: "rd_rest ?r' = []" by simp
  have cnt: "offset_set_len s \<le> max_offset l"
  proof -
    have "os_set s \<subseteq> {1..unat (os_domain s)}" using os_set_bound[OF ok] by auto
    then have "card (os_set s) \<le> unat (os_domain s)" using card_mono[of "{1..unat (os_domain s)}"] by simp
    then show ?thesis using len_card(1)[OF ok] l by (simp add: word_le_nat_alt)
  qed
  note new = new_ok[OF lok]
  have dom: "os_domain (offset_set_new l) = os_domain s" using l by (simp add: offset_set_new_def)
  have branch: "parse_body (encoding_tag enc) (offset_set_len s) ?r (offset_set_new l) = Inr (?r', s)"
  proof (cases enc)
    case Sparse
    have "\<exists>res p. try_fold parse_sparse_step (?r, offset_set_new l, 0) [0..<unat (offset_set_len s)] = Inr (?r', res, p) \<and>
        os_ok res \<and> os_domain res = os_domain (offset_set_new l) \<and>
        os_set res = os_set (offset_set_new l) \<union> set (os_list s)"
      by (rule parse_sparse_items)
        (use c Sparse new length_os_list[OF ok] os_list_ascending[of s] os_set_bound[OF ok] dom in
          \<open>auto simp: offset_body_def os_set_iff\<close>)
    then obtain res p where res: "try_fold parse_sparse_step (?r, offset_set_new l, 0) [0..<unat (offset_set_len s)] =
        Inr (?r', res, p)" "os_ok res" "os_domain res = os_domain s" "os_set res = os_set s"
      using new dom by auto
    have "res = s" by (rule os_eqI[OF res(2) ok res(3,4)])
    then show ?thesis using res(1) Sparse by (simp add: parse_body_def encoding_tag_def)
  next
    case Bitmap
    then show ?thesis
      using parse_bitmap_bytes[OF ok lok l] c by (simp add: parse_body_def offset_body_def encoding_tag_def)
  next
    case Runs
    let ?rs = "runs_of (os_list s)"
    note rc = consumes_append[of ?r "le_bytes 2 (offset_set_run_count s)" "concat (map run_bytes ?rs)" ?r']
    have c2: "consumes ?r (le_bytes 2 (offset_set_run_count s)) (rd_skip ?r 2)"
      "consumes (rd_skip ?r 2) (concat (map run_bytes ?rs)) ?r'"
      using rc c Runs by (simp_all add: offset_body_def)
    have rd: "reader_u16 ?r = Inr (offset_set_run_count s, rd_skip ?r 2)"
      using u16_field.consumes_dec[OF c2(1)] .
    have ro: "runs_ok 0 (unat (os_domain s)) ?rs" "runs_elems ?rs = os_set s"
      using runs_of_ok[OF os_list_ascending, of s "unat (os_domain s)" 0] os_set_bound[OF ok] by auto
    have "\<exists>res p. try_fold parse_run_step (rd_skip ?r 2, offset_set_new l, 0) [0..<unat (offset_set_run_count s)] =
        Inr (?r', res, p) \<and> os_ok res \<and> os_domain res = os_domain (offset_set_new l) \<and>
        os_set res = os_set (offset_set_new l) \<union> runs_elems ?rs"
      by (rule parse_run_items[OF c2(2)]) (use new run_count_runs[OF ok] ro dom in auto)
    then obtain res p where res: "try_fold parse_run_step (rd_skip ?r 2, offset_set_new l, 0)
        [0..<unat (offset_set_run_count s)] = Inr (?r', res, p)" "os_ok res" "os_domain res = os_domain s"
        "os_set res = os_set s"
      using new dom ro by auto
    have "res = s" by (rule os_eqI[OF res(2) ok res(3,4)])
    then show ?thesis using res(1) Runs rd runs_le_len[OF ok]
      by (simp add: parse_body_def encoding_tag_def not_less)
  qed
  have rd: "reader_u16 (reader_new ?bs) = Inr (os_domain s, rd_skip (reader_new ?bs) 2)"
    "reader_u16 (rd_skip (reader_new ?bs) 2) = Inr (offset_set_len s, rd_skip (reader_new ?bs) 4)"
    "reader_u8 (rd_skip (reader_new ?bs) 4) = Inr (encoding_tag enc, rd_skip (reader_new ?bs) 5)"
    "reader_u8 (rd_skip (reader_new ?bs) 5) = Inr (0, ?r)"
    using sl by (simp_all add: codec_simps offset_bytes_def)
  show ?thesis
    unfolding offset_set_parse_def rd and_then.simps prod.case Let_def
    using cnt l branch fin by (simp add: not_less reader_finish_eq)
qed

lemma sparse_step_inv:
  assumes "parse_sparse_step (r, res, p) i = Inr (r', res', p')" "os_ok res"
  shows "os_ok res' \<and> os_domain res' = os_domain res"
  using assms offset_bits.add_Inr(1,3)[OF assms(2)]
  by (fastforce simp: parse_sparse_step_def res_simps word_unat_eq_iff split: if_splits)

lemma run_step_inv:
  assumes "parse_run_step (r, res, p) i = Inr (r', res', p')" "os_ok res"
  shows "os_ok res' \<and> os_domain res' = os_domain res"
proof -
  from assms(1) obtain xs where
    "try_fold (\<lambda>res offset. and_then (offset_set_insert res offset) (\<lambda>(_, res). Inr res)) res xs = Inr res'"
    by (auto simp: parse_run_step_def res_simps simp del: upt_Suc split: if_splits)
  from offset_bits.add_all_Inr[OF assms(2) this] show ?thesis by (simp add: word_unat_eq_iff)
qed

lemma offset_parse_ok:
  assumes p: "offset_set_parse bs l = Inr s" and l: "layout_ok l" and sl: "slice_ok bs"
  shows "os_ok s" "os_domain s = max_offset l"
proof -
  note new = new_ok[OF l]
  have dom: "os_domain (offset_set_new l) = max_offset l" by (simp add: offset_set_new_def)
  from p obtain d c t z r1 r2 r3 r4 r5 where
    r: "reader_u16 (reader_new bs) = Inr (d, r1)" "reader_u16 r1 = Inr (c, r2)" "reader_u8 r2 = Inr (t, r3)"
      "reader_u8 r3 = Inr (z, r4)"
    and b: "parse_body t c r4 (offset_set_new l) = Inr (r5, s)"
    by (auto simp: offset_set_parse_def res_simps Let_def split: if_splits prod.splits)
  have ok4: "rd_ok r4"
    using u8_field.dec_ok[OF _ r(4)] u8_field.dec_ok[OF _ r(3)] u16_field.dec_ok[OF _ r(2)]
      u16_field.dec_ok[OF _ r(1)] sl by simp
  let ?P = "\<lambda>(r :: reader, res, p :: u16). os_ok res \<and> os_domain res = max_offset l"
  have init: "?P (r, offset_set_new l, 0)" for r using new dom by simp
  consider "t = 0" | "t = 1" | "t = 2" using b by (auto simp: parse_body_def split: if_splits)
  then have "os_ok s \<and> os_domain s = max_offset l"
  proof cases
    case 1
    then obtain q where "try_fold parse_sparse_step (r4, offset_set_new l, 0) [0..<unat c] = Inr (r5, s, q)"
      using b by (auto simp: parse_body_def res_simps)
    from try_fold_invariant[where P = ?P, OF this init] show ?thesis
      using sparse_step_inv by fastforce
  next
    case 2
    then show ?thesis using parse_bitmap_sound[OF l _ ok4] b by (auto simp: parse_body_def)
  next
    case 3
    then obtain runs :: u16 and r q where
      "try_fold parse_run_step (r, offset_set_new l, 0) [0..<unat runs] = Inr (r5, s, q)"
      using b by (auto simp: parse_body_def res_simps split: if_splits)
    from try_fold_invariant[where P = ?P, OF this init] show ?thesis
      using run_step_inv by fastforce
  qed
  then show "os_ok s" "os_domain s = max_offset l" by auto
qed

section \<open>Properties\<close>

text \<open>C19: each of the three encodings of an offset set parses back to the same set, occupies exactly
  the number of bytes computed in advance, and the preferred encoding is the shortest of the three.\<close>

theorem offset_set_round_trip:
  assumes "os_ok s" "max_offset layout = os_domain s" "slice_ok output" "encoded_len s enc \<le> length output"
  shows "\<exists>out. encode_as s enc output = Inr (encoded_len s enc, out) \<and>
    offset_set_parse (take (encoded_len s enc) out) layout = Inr s \<and>
    encoded_len s (preferred_encoding s) \<le> encoded_len s enc"
proof -
  have "encoded_len s (preferred_encoding s) \<le> encoded_len s enc"
    by (cases enc) (auto simp: preferred_encoding_def Let_def)
  then show ?thesis
    using encode_as_eq[OF assms(1,3,4)] offset_parse_bytes[OF assms(1,2), of enc]
      length_offset_bytes[OF assms(1), of enc] by simp
qed

theorem offset_set_round_trip_witness:
  "\<exists>out. encode_as \<lparr>os_words = [7, 0, 0, 0, 0, 0, 0, 0], os_domain = 16\<rparr> Bitmap (replicate 20 0) =
      Inr (encoded_len \<lparr>os_words = [7, 0, 0, 0, 0, 0, 0, 0], os_domain = 16\<rparr> Bitmap, out)"
proof -
  let ?s = "\<lparr>os_words = [7, 0, 0, 0, 0, 0, 0, 0], os_domain = 16\<rparr> :: offset_set"
  have "mask_bit (os_words ?s) k \<Longrightarrow> k < 16" for k
  proof -
    assume "mask_bit (os_words ?s) k"
    then have "bit (7 :: u64) k" by (auto simp: mask_bit_Cons split: if_splits)
    moreover have "(7 :: u64) = mask 3" by (simp add: mask_eq_exp_minus_1)
    ultimately show "k < 16" by (simp only: bit_mask_iff) simp
  qed
  then have ok: "os_ok ?s" by (simp add: os_ok_def)
  have "encoded_len ?s Bitmap \<le> length (replicate 20 (0 :: u8))"
    by (simp add: encoded_len_def div_ceil_def)
  from offset_set_round_trip[OF ok _ _ this, of "\<lparr>max_offset = 16\<rparr>"] show ?thesis
    by (auto simp: slice_ok_def)
qed

text \<open>On one domain both paths compute the set operation.\<close>

lemma offset_set_combined:
  assumes "os_ok s" "os_ok t" "os_domain s = os_domain t"
  shows "\<exists>r. offset_set_combine_with s t operation kernels = Inr r \<and> os_ok r \<and>
    os_set r = (case operation of Intersection \<Rightarrow> os_set s \<inter> os_set t | Union \<Rightarrow> os_set s \<union> os_set t
      | Difference \<Rightarrow> os_set s - os_set t) \<and>
    (case operation of Intersection \<Rightarrow> offset_set_intersection s t | Union \<Rightarrow> offset_set_union s t
      | Difference \<Rightarrow> offset_set_difference s t) = Inr r \<and>
    unat (offset_set_len r) = card (os_set r) \<and>
    (\<forall>x. offset_set_contains r x \<longleftrightarrow> unat x \<in> os_set r) \<and>
    map unat (offset_items r) = sorted_list_of_set (os_set r)"
proof -
  let ?f = "case operation of Intersection \<Rightarrow> (AND) | Union \<Rightarrow> (OR) | Difference \<Rightarrow> (\<lambda>l r :: u64. l AND NOT r)"
  let ?g = "case operation of Intersection \<Rightarrow> (\<and>) | Union \<Rightarrow> (\<or>) | Difference \<Rightarrow> (\<lambda>a b. a \<and> \<not> b)"
  define r where "r = \<lparr>os_words = map2 ?f (os_words s) (os_words t), os_domain = os_domain s\<rparr>"
  have len: "length (os_words s) = 8" "length (os_words t) = 8" using assms by (simp_all add: os_ok_def)
  have mb: "mask_bit (os_words r) k \<longleftrightarrow> ?g (mask_bit (os_words s) k) (mask_bit (os_words t) k)" for k
    unfolding r_def offset_set.simps
    by (rule mask_bit_map2) (auto simp: len bit_and_iff bit_or_iff bit_not_iff split: bitmap_op.splits)
  have okr: "os_ok r"
    using assms len mb by (auto simp: os_ok_def r_def split: bitmap_op.splits)
  have set: "os_set r = (case operation of Intersection \<Rightarrow> os_set s \<inter> os_set t | Union \<Rightarrow> os_set s \<union> os_set t
      | Difference \<Rightarrow> os_set s - os_set t)"
    by (auto simp: os_set_iff mb split: bitmap_op.splits)
  have cw: "offset_set_combine_with s t operation kernels = Inr r"
    using assms(3) len by (simp add: offset_set_combine_with_def kernels_combine_def kernels_apply_map2
        word_op_def[abs_def] r_def split: bitmap_op.splits)
  have nth: "map (\<lambda>i. op (os_words s ! i) (os_words t ! i)) [0..<8] = map2 op (os_words s) (os_words t)" for op :: "u64 \<Rightarrow> u64 \<Rightarrow> u64"
    by (rule nth_equalityI) (simp_all add: len)
  have ops: "(case operation of Intersection \<Rightarrow> offset_set_intersection s t | Union \<Rightarrow> offset_set_union s t
      | Difference \<Rightarrow> offset_set_difference s t) = Inr r"
    using assms(3) len(1)
    by (cases operation) (simp_all add: offset_set_intersection_def offset_set_union_def
        offset_set_difference_def offset_set_combine_def nth[of "\<lambda>l r. l AND r"] nth[of "\<lambda>l r. l OR r"]
        nth[of "\<lambda>l r. l AND NOT r"] r_def)
  have items: "map unat (offset_items r) = sorted_list_of_set (os_set r)"
    unfolding unat_items[OF okr] using os_list_ascending[of r]
    by (metis set_os_list sorted_list_of_set.idem_if_sorted_distinct strict_sorted_iff)
  show ?thesis
    using okr set cw ops len_card(1)[OF okr] contains_iff[OF okr] items by blast
qed

text \<open>C20: on well-formed sets the operations compute set union, intersection and difference when both operands have the
  same domain, and reject operands of different domains, whichever kernel is selected and on the scalar
  path alike; membership, cardinality and iteration of the result agree with the set.\<close>

theorem offset_set_operations:
  assumes "os_ok s" "os_ok t"
  shows "(os_domain s = os_domain t \<longrightarrow> (\<exists>r. offset_set_combine_with s t operation kernels = Inr r \<and> os_ok r \<and>
      os_set r = (case operation of Intersection \<Rightarrow> os_set s \<inter> os_set t | Union \<Rightarrow> os_set s \<union> os_set t
        | Difference \<Rightarrow> os_set s - os_set t) \<and>
      (case operation of Intersection \<Rightarrow> offset_set_intersection s t | Union \<Rightarrow> offset_set_union s t
        | Difference \<Rightarrow> offset_set_difference s t) = Inr r \<and>
      unat (offset_set_len r) = card (os_set r) \<and>
      (\<forall>x. offset_set_contains r x \<longleftrightarrow> unat x \<in> os_set r) \<and>
      map unat (offset_items r) = sorted_list_of_set (os_set r))) \<and>
    (os_domain s \<noteq> os_domain t \<longrightarrow>
      offset_set_combine_with s t operation kernels = Inl (CodecError 0 InvalidValue) \<and>
      (case operation of Intersection \<Rightarrow> offset_set_intersection s t | Union \<Rightarrow> offset_set_union s t
        | Difference \<Rightarrow> offset_set_difference s t) = Inl (CodecError 0 InvalidValue))"
proof (intro conjI impI)
  assume d: "os_domain s \<noteq> os_domain t"
  show "offset_set_combine_with s t operation kernels = Inl (CodecError 0 InvalidValue)"
    using d by (simp add: offset_set_combine_with_def codec_fail_def)
  show "(case operation of Intersection \<Rightarrow> offset_set_intersection s t | Union \<Rightarrow> offset_set_union s t
        | Difference \<Rightarrow> offset_set_difference s t) = Inl (CodecError 0 InvalidValue)"
    using d by (cases operation) (simp_all add: offset_set_intersection_def offset_set_union_def offset_set_difference_def
        offset_set_combine_def codec_fail_def)
qed (rule offset_set_combined[OF assms])

theorem offset_set_operations_witness:
  "(\<exists>r. offset_set_combine_with \<lparr>os_words = 5 # replicate 7 0, os_domain = 16\<rparr>
      \<lparr>os_words = 6 # replicate 7 0, os_domain = 16\<rparr> Union kernels_scalar = Inr r \<and> os_ok r \<and>
      os_set r = os_set \<lparr>os_words = 5 # replicate 7 0, os_domain = 16\<rparr> \<union> os_set \<lparr>os_words = 6 # replicate 7 0, os_domain = 16\<rparr>) \<and>
   offset_set_combine_with \<lparr>os_words = replicate 8 0, os_domain = 16\<rparr>
      \<lparr>os_words = replicate 8 0, os_domain = 17\<rparr> Union kernels_scalar = Inl (CodecError 0 InvalidValue)"
proof -
  have b: "bit (5 :: u64) k \<Longrightarrow> k < 16" "bit (6 :: u64) k \<Longrightarrow> k < 16" for k
    by (auto simp: bit_numeral_rec bit_1_iff split: nat.splits)
  have z: "\<not> mask_bit (replicate n 0) k" for n k by (induction n arbitrary: k) (simp_all add: mask_bit_Cons)
  have ok: "os_ok \<lparr>os_words = 5 # replicate 7 0, os_domain = 16\<rparr>" "os_ok \<lparr>os_words = 6 # replicate 7 0, os_domain = 16\<rparr>"
    using b by (auto simp: os_ok_def mask_bit_Cons z simp del: replicate.simps split: if_splits)
  have ok2: "os_ok \<lparr>os_words = replicate 8 0, os_domain = 17\<rparr>" by (simp add: os_ok_def z del: replicate.simps)
  show ?thesis
    using offset_set_operations[OF ok, of Union kernels_scalar] offset_set_operations[OF zero_set_ok ok2, of Union kernels_scalar]
    by (simp del: replicate.simps) blast
qed

text \<open>C21: whatever bytes parse as an offset set, the result has the domain of the layout and no
  member outside it, so later bit operations stay in range.\<close>

theorem offset_set_parse_sound:
  assumes "offset_set_parse bs layout = Inr s" "layout_ok layout" "slice_ok bs"
  shows "os_domain s = max_offset layout \<and> os_set s \<subseteq> {1..unat (max_offset layout)} \<and>
    length (os_words s) = 8"
proof -
  note ok = offset_parse_ok[OF assms]
  have "os_set s \<subseteq> {1..unat (max_offset layout)}" using os_set_bound[OF ok(1)] ok(2) by auto
  then show ?thesis using ok by (simp add: os_ok_def)
qed

theorem offset_set_parse_sound_witness:
  "\<exists>s. offset_set_parse (offset_bytes \<lparr>os_words = replicate 8 0, os_domain = 16\<rparr> Sparse) \<lparr>max_offset = 16\<rparr> = Inr s \<and>
    os_set s \<subseteq> {1..unat (max_offset \<lparr>max_offset = 16\<rparr>)}"
proof -
  let ?s = "\<lparr>os_words = replicate 8 0, os_domain = 16\<rparr> :: offset_set"
  have ok: "os_ok ?s" by (rule zero_set_ok)
  have p: "offset_set_parse (offset_bytes ?s Sparse) \<lparr>max_offset = 16\<rparr> = Inr ?s"
    by (rule offset_parse_bytes[OF ok]) simp
  have l: "layout_ok \<lparr>max_offset = 16\<rparr>" by (simp add: layout_ok_def)
  have "encoded_len ?s Sparse \<le> 1030"
    unfolding encoded_len_def encoding.case len_card(1)[OF ok] using len_card(2)[OF ok] by linarith
  then have "slice_ok (offset_bytes ?s Sparse)"
    using length_offset_bytes[OF ok, of Sparse] by (simp add: slice_ok_def)
  from offset_set_parse_sound[OF p l this] p show ?thesis by blast
qed

end
