(* ===== verification/Budget.thy ===== *)
theory Budget
  imports Errors
begin

text \<open>
  Memory accounting: the counter \<open>MemoryBudget\<close> (crates/pin-core/src/budget.rs) and the
  fallible, charged buffers of memory.rs (\<open>reserve\<close>, \<open>vector\<close>, \<open>release\<close>, \<open>copy_text\<close>, \<open>Work\<close>).
  A \<open>Vec\<close> is its elements and its capacity. How much capacity the allocator grants is not
  determined by the sources: it is the parameter \<open>alloc\<close>, a function of the element size and
  of the capacity asked for, with \<open>None\<close> for a failed allocation; \<open>alloc_ok\<close> is the documented
  contract of \<open>Vec::try_reserve_exact\<close>. Element sizes are arguments.
\<close>

section \<open>The counter\<close>

record memory_budget =
  mb_limit :: nat
  mb_used :: nat
  mb_peak :: nat

definition budget_new :: "nat \<Rightarrow> memory_budget" where
  "budget_new limit = \<lparr>mb_limit = limit, mb_used = 0, mb_peak = 0\<rparr>"

definition budget_charge :: "memory_budget \<Rightarrow> nat \<Rightarrow> budget_error + memory_budget" where
  "budget_charge self bytes =
     and_then (ok_or ArithmeticOverflow (checked_add (mb_used self) bytes)) (\<lambda>nxt.
       if nxt > mb_limit self then Inl BudgetLimitExceeded
       else Inr (self\<lparr>mb_used := nxt, mb_peak := max (mb_peak self) nxt\<rparr>))"

definition budget_charge_array :: "memory_budget \<Rightarrow> nat \<Rightarrow> nat \<Rightarrow> budget_error + memory_budget" where
  "budget_charge_array self sz count =
     and_then (ok_or ArithmeticOverflow (checked_mul count sz)) (\<lambda>bytes.
       budget_charge self bytes)"

definition budget_release :: "memory_budget \<Rightarrow> nat \<Rightarrow> budget_error + memory_budget" where
  "budget_release self bytes =
     and_then (ok_or InvalidRelease (checked_sub (mb_used self) bytes)) (\<lambda>nxt.
       Inr (self\<lparr>mb_used := nxt\<rparr>))"

definition budget_remaining :: "memory_budget \<Rightarrow> nat" where
  "budget_remaining self = mb_limit self - mb_used self"

section \<open>Charged buffers\<close>

record 'a vec =
  elems :: "'a list"
  capacity :: nat

definition vec_new :: "'a vec" where
  "vec_new = \<lparr>elems = [], capacity = 0\<rparr>"

definition vec_len :: "'a vec \<Rightarrow> nat" where
  "vec_len v = length (elems v)"

text \<open>Appending within the reserved capacity.\<close>

definition vec_extend :: "'a vec \<Rightarrow> 'a list \<Rightarrow> 'a vec" where
  "vec_extend v xs = v\<lparr>elems := elems v @ xs, capacity := max (capacity v) (length (elems v @ xs))\<rparr>"

abbreviation vec_push :: "'a vec \<Rightarrow> 'a \<Rightarrow> 'a vec" where
  "vec_push v x \<equiv> vec_extend v [x]"

text \<open>\<open>Vec::try_reserve_exact\<close>: nothing to do when the spare capacity is enough.\<close>

type_synonym allocator = "nat \<Rightarrow> nat \<Rightarrow> nat option"

definition try_reserve_exact :: "allocator \<Rightarrow> nat \<Rightarrow> 'a vec \<Rightarrow> nat \<Rightarrow> 'a vec option" where
  "try_reserve_exact alloc sz v additional =
     (if additional \<le> capacity v - vec_len v then Some v
      else map_option (\<lambda>c. v\<lparr>capacity := c\<rparr>) (alloc sz (vec_len v + additional)))"

definition alloc_ok :: "allocator \<Rightarrow> bool" where
  "alloc_ok alloc \<longleftrightarrow> (\<forall>sz n c. alloc sz n = Some c \<longrightarrow> n \<le> c)"

text \<open>The capacity \<open>reserve\<close> asks for: doubling within the limit, the exact need when doubling
  does not fit the budget, \<open>None\<close> when neither fits.\<close>

definition reserve_target :: "nat \<Rightarrow> nat \<Rightarrow> nat \<Rightarrow> nat \<Rightarrow> nat \<Rightarrow> nat option" where
  "reserve_target sz old required limit remaining =
     (let exceeds = (\<lambda>c. case checked_mul (c - old) sz of None \<Rightarrow> True | Some n \<Rightarrow> n > remaining);
          target = min (max (saturating_mul old 2) required) limit;
          target = (if exceeds target then required else target)
      in if exceeds target then None else Some target)"

definition reserve ::
  "allocator \<Rightarrow> nat \<Rightarrow> 'a vec \<Rightarrow> nat \<Rightarrow> nat \<Rightarrow> memory_budget \<Rightarrow> ('a vec \<times> memory_budget) result" where
  "reserve alloc sz values additional limit budget =
     and_then (ok_or (Limit ''element count'') (checked_add (vec_len values) additional)) (\<lambda>required.
     if required > limit then Inl (Limit ''element count'')
     else let old = capacity values in
     if required \<le> old then Inr (values, budget)
     else
     and_then (ok_or (Budget BudgetLimitExceeded)
                 (reserve_target sz old required limit (budget_remaining budget))) (\<lambda>target.
     and_then (ok_or Allocation
                 (try_reserve_exact alloc sz values (target - vec_len values))) (\<lambda>values.
     and_then (from_budget (budget_charge_array budget sz (capacity values - old))) (\<lambda>budget.
       Inr (values, budget)))))"

definition vector ::
  "allocator \<Rightarrow> nat \<Rightarrow> nat \<Rightarrow> memory_budget \<Rightarrow> ('a vec \<times> memory_budget) result" where
  "vector alloc sz cap budget = reserve alloc sz vec_new cap cap budget"

definition release :: "nat \<Rightarrow> 'a vec \<Rightarrow> memory_budget \<Rightarrow> memory_budget result" where
  "release sz values budget =
     and_then (ok_or (Limit ''allocation bytes'') (checked_mul (capacity values) sz)) (\<lambda>bytes.
       from_budget (budget_release budget bytes))"

text \<open>A \<open>String\<close> is a vector of bytes that has passed \<open>String::from_utf8\<close>.\<close>

definition copy_text :: "allocator \<Rightarrow> str \<Rightarrow> memory_budget \<Rightarrow> (u8 vec \<times> memory_budget) result" where
  "copy_text alloc text budget =
     and_then (vector alloc 1 (length text) budget) (\<lambda>(bytes, budget).
     let bytes = vec_extend bytes text in
     and_then (from_utf8 InvalidDocument (elems bytes)) (\<lambda>_. Inr (bytes, budget)))"

section \<open>Search work\<close>

definition work_charge :: "nat \<Rightarrow> nat \<Rightarrow> nat result" where
  "work_charge remaining units = ok_or (Limit ''search work'') (checked_sub remaining units)"

section \<open>Invariant\<close>

definition budget_inv :: "memory_budget \<Rightarrow> bool" where
  "budget_inv b \<longleftrightarrow> mb_used b \<le> mb_peak b \<and> mb_peak b \<le> mb_limit b"

definition vec_inv :: "'a vec \<Rightarrow> bool" where
  "vec_inv v \<longleftrightarrow> vec_len v \<le> capacity v"

lemma budget_new_inv [simp, intro]: "budget_inv (budget_new n)"
  by (simp add: budget_inv_def budget_new_def)

lemma budget_charge_Inr:
  assumes "budget_charge b n = Inr b'" "budget_inv b"
  shows "budget_inv b'" "mb_used b' = mb_used b + n" "mb_limit b' = mb_limit b"
    "mb_peak b' = max (mb_peak b) (mb_used b')"
  using assms
  by (auto simp: budget_charge_def checked_add_def budget_inv_def res_simps split: if_splits)

lemma budget_charge_array_Inr:
  assumes "budget_charge_array b sz n = Inr b'" "budget_inv b"
  shows "budget_inv b'" "mb_used b' = mb_used b + n * sz" "mb_limit b' = mb_limit b"
    "mb_peak b \<le> mb_peak b'"
  using assms budget_charge_Inr[of b "n * sz" b']
  by (auto simp: budget_charge_array_def checked_mul_def res_simps split: if_splits)

lemma budget_release_Inr:
  assumes "budget_release b n = Inr b'" "budget_inv b"
  shows "budget_inv b'" "mb_used b = mb_used b' + n" "mb_limit b' = mb_limit b" "mb_peak b' = mb_peak b"
  using assms
  by (auto simp: budget_release_def checked_sub_def budget_inv_def res_simps split: if_splits)

lemma vec_new_inv [simp, intro]: "vec_inv vec_new" "vec_len vec_new = 0" "elems vec_new = []"
  by (simp_all add: vec_inv_def vec_new_def vec_len_def)

lemma vec_extend_simps [simp]:
  "elems (vec_extend v xs) = elems v @ xs" "vec_inv (vec_extend v xs)"
  by (simp_all add: vec_extend_def vec_inv_def vec_len_def)

lemma reserve_target_Some:
  "reserve_target sz old required limit remaining = Some t \<Longrightarrow> required \<le> limit \<Longrightarrow> required \<le> t"
  by (auto simp: reserve_target_def Let_def split: if_splits)

text \<open>Everything a successful \<open>reserve\<close> guarantees: the elements are untouched, the capacity
  suffices and the budget grew by exactly the bytes of the new capacity.\<close>

lemma reserve_Inr:
  assumes r: "reserve alloc sz v additional limit b = Inr (v', b')"
    and inv: "budget_inv b" "vec_inv v" "alloc_ok alloc"
  shows "elems v' = elems v" "vec_len v + additional \<le> capacity v'" "vec_inv v'"
    "budget_inv b'" "mb_limit b' = mb_limit b" "mb_peak b \<le> mb_peak b'"
    "mb_used b' + capacity v * sz = mb_used b + capacity v' * sz"
    "vec_len v + additional \<le> limit"
proof -
  let ?req = "vec_len v + additional"
  have req: "checked_add (vec_len v) additional = Some ?req" "?req \<le> limit"
    using r by (auto simp: reserve_def res_simps checked_add_def split: if_splits)
  have "elems v' = elems v \<and> ?req \<le> capacity v' \<and> vec_inv v' \<and> budget_inv b' \<and>
      mb_limit b' = mb_limit b \<and> mb_peak b \<le> mb_peak b' \<and>
      mb_used b' + capacity v * sz = mb_used b + capacity v' * sz"
  proof (cases "?req \<le> capacity v")
    case True
    then have "v' = v" "b' = b" using r req by (auto simp: reserve_def)
    with True inv show ?thesis by simp
  next
    case False
    then obtain target w b2 where t: "?req \<le> target"
      and w: "try_reserve_exact alloc sz v (target - vec_len v) = Some w"
      and c: "budget_charge_array b sz (capacity w - capacity v) = Inr b2"
      and vb: "v' = w" "b' = b2"
      using r req
      by (auto simp: reserve_def Let_def res_simps dest!: reserve_target_Some split: if_splits)
    have old: "capacity v < target" using False t by simp
    then have "alloc sz target \<noteq> None \<and> capacity w = the (alloc sz target) \<and> elems w = elems v"
      using w t inv(2) by (auto simp: try_reserve_exact_def vec_inv_def split: if_splits)
    then have wt: "target \<le> capacity w" "elems w = elems v"
      using inv(3) by (auto simp: alloc_ok_def)
    have "(capacity w - capacity v) * sz + capacity v * sz = capacity w * sz"
      using old wt by (simp flip: add_mult_distrib)
    then show ?thesis
      using budget_charge_array_Inr[OF c inv(1)] wt t old vb
      by (auto simp: vec_inv_def vec_len_def)
  qed
  then show "elems v' = elems v" "?req \<le> capacity v'" "vec_inv v'"
    "budget_inv b'" "mb_limit b' = mb_limit b" "mb_peak b \<le> mb_peak b'"
    "mb_used b' + capacity v * sz = mb_used b + capacity v' * sz" by auto
  show "?req \<le> limit" by (rule req(2))
qed

lemma reserve_elems: "reserve alloc sz v additional limit b = Inr (v', b') \<Longrightarrow> elems v' = elems v"
  by (auto simp: reserve_def try_reserve_exact_def res_simps Let_def split: if_splits)

lemma reserve_limit: "reserve alloc sz v additional limit b = Inr (v', b') \<Longrightarrow> vec_len v + additional \<le> limit"
  by (auto simp: reserve_def checked_add_def res_simps Let_def split: if_splits)

lemma vector_elems: "vector alloc sz n b = Inr (v, b') \<Longrightarrow> elems v = []"
  by (auto simp: vector_def dest!: reserve_elems)

lemma copy_text_elems: "copy_text alloc t b = Inr (v, b') \<Longrightarrow> elems v = t"
  by (auto simp: copy_text_def res_simps Let_def dest!: vector_elems)

lemma vector_Inr:
  assumes "vector alloc sz n b = Inr (v, b')" "budget_inv b" "alloc_ok alloc"
  shows "elems v = []" "n \<le> capacity v" "vec_inv v" "budget_inv b'" "mb_limit b' = mb_limit b"
    "mb_used b' = mb_used b + capacity v * sz"
  using reserve_Inr[OF assms(1)[unfolded vector_def] assms(2) vec_new_inv(1) assms(3)]
  by (auto simp: vec_new_def)

lemma work_charge_Inr: "work_charge w n = Inr w' \<longleftrightarrow> n \<le> w \<and> w' = w - n"
  by (auto simp: work_charge_def checked_sub_def)

section \<open>Properties\<close>

text \<open>C34: a successful reservation leaves the elements alone, provides room for the requested
  elements within the element limit, keeps the budget within its limit, and charges exactly the
  bytes by which the allocation grew.\<close>

theorem reserve_accounts:
  assumes "reserve alloc sz v additional limit b = Inr (v', b')"
    and "budget_inv b" "vec_inv v" "alloc_ok alloc"
  shows "elems v' = elems v \<and> vec_len v + additional \<le> min limit (capacity v') \<and>
    vec_inv v' \<and> budget_inv b' \<and> mb_limit b' = mb_limit b \<and>
    mb_used b' + capacity v * sz = mb_used b + capacity v' * sz"
  using reserve_Inr[OF assms(1-4)] reserve_Inr(8)[OF assms] by simp

theorem reserve_accounts_witness:
  "\<exists>v' b'. reserve (\<lambda>sz n. Some n) 4 \<lparr>elems = [7, 8 :: u32], capacity = 2\<rparr> 1 10 (budget_new 64) =
      Inr (v', b') \<and> vec_len \<lparr>elems = [7, 8 :: u32], capacity = 2\<rparr> + 1 \<le> min 10 (capacity v') \<and>
      mb_used b' + 2 * 4 = 0 + capacity v' * 4"
proof -
  let ?v = "\<lparr>elems = [7, 8 :: u32], capacity = 2\<rparr>"
  let ?v' = "\<lparr>elems = [7, 8 :: u32], capacity = 4\<rparr>"
  let ?b' = "\<lparr>mb_limit = 64, mb_used = 8, mb_peak = 8\<rparr>"
  have r: "reserve (\<lambda>sz n. Some n) 4 ?v 1 10 (budget_new 64) = Inr (?v', ?b')"
    by (simp add: reserve_def vec_len_def checked_add_def usize_max_def reserve_target_def
        budget_remaining_def budget_new_def checked_mul_def saturating_mul_def
        try_reserve_exact_def budget_charge_array_def budget_charge_def)
  from reserve_accounts[OF r] show ?thesis
    using r by (auto simp: vec_inv_def vec_len_def alloc_ok_def budget_new_def)
qed

end
