(* ===== verification/Unicode.thy ===== *)
theory Unicode
  imports Budget "HOL-Library.Code_Target_Numeral"
begin

text \<open>
  What the text pipeline takes from outside the repository: the tables of the Unicode crates and
  the allocator, as the fields of one record that every definition of the pipeline receives, with
  the documented facts about them that theorems name as hypotheses; and the UTF-8 functions of
  the standard library.
\<close>

section \<open>The environment\<close>

text \<open>A \<open>char\<close> is its scalar value.\<close>

type_synonym uchar = u32

record env =
  env_alloc :: allocator
  env_size :: "string \<Rightarrow> nat"  \<comment> \<open>\<open>size_of\<close> the named type\<close>
  env_class :: "uchar \<Rightarrow> u8"  \<comment> \<open>\<open>canonical_combining_class\<close>\<close>
  env_compose :: "uchar \<Rightarrow> uchar \<Rightarrow> uchar option"  \<comment> \<open>\<open>compose\<close>\<close>
  env_decompose :: "uchar \<Rightarrow> uchar list"  \<comment> \<open>the calls of \<open>decompose_canonical\<close>\<close>
  env_case_folded :: "uchar \<Rightarrow> u32 option"  \<comment> \<open>\<open>unicode_case_mapping::case_folded\<close>\<close>
  env_words :: "str \<Rightarrow> (nat \<times> str) list"  \<comment> \<open>\<open>unicode_word_indices\<close>\<close>
  env_versions :: "(nat \<times> nat \<times> nat) list"  \<comment> \<open>\<open>UNICODE_VERSION\<close> of the three crates\<close>

text \<open>Word segmentation yields slices of its argument with their byte offsets.\<close>

definition words_ok :: "env \<Rightarrow> bool" where
  "words_ok env \<longleftrightarrow> (\<forall>t. \<forall>(s, w) \<in> set (env_words env t). take (length w) (drop s t) = w)"

definition ascii :: "u8 \<Rightarrow> bool" where
  "ascii b \<longleftrightarrow> b < 0x80"

definition is_ascii :: "str \<Rightarrow> bool" where
  "is_ascii t = list_all ascii t"

definition to_ascii_lowercase :: "u8 \<Rightarrow> u8" where
  "to_ascii_lowercase b = (if 0x41 \<le> b \<and> b \<le> 0x5A then b + 32 else b)"

definition eq_ignore_ascii_case :: "str \<Rightarrow> str \<Rightarrow> bool" where
  "eq_ignore_ascii_case a b \<longleftrightarrow> map to_ascii_lowercase a = map to_ascii_lowercase b"

text \<open>The tables on ASCII: starters that neither decompose nor compose, folded like ASCII letters.\<close>

definition ascii_tables_ok :: "env \<Rightarrow> bool" where
  "ascii_tables_ok env \<longleftrightarrow>
     (\<forall>a. ascii a \<longrightarrow> env_class env (ucast a) = 0 \<and> env_decompose env (ucast a) = [ucast a] \<and>
        (case env_case_folded env (ucast a) of None \<Rightarrow> ucast a | Some m \<Rightarrow> m) = ucast (to_ascii_lowercase a)) \<and>
     (\<forall>a b. ascii a \<longrightarrow> ascii b \<longrightarrow> env_compose env (ucast a) (ucast b) = None)"

text \<open>Lowercasing ASCII text does not move word boundaries.\<close>

definition ascii_words_ok :: "env \<Rightarrow> bool" where
  "ascii_words_ok env \<longleftrightarrow>
     (\<forall>t. is_ascii t \<longrightarrow> env_words env (map to_ascii_lowercase t) =
        map (\<lambda>(s, w). (s, map to_ascii_lowercase w)) (env_words env t))"

section \<open>UTF-8\<close>

definition utf8_len :: "u8 \<Rightarrow> nat" where
  "utf8_len b = (if b < 0x80 then 1 else if b < 0xE0 then 2 else if b < 0xF0 then 3 else 4)"

text \<open>\<open>str::chars\<close> on valid UTF-8.\<close>

fun chars :: "str \<Rightarrow> uchar list" where
  "chars [] = []"
| "chars (b # bs) =
     (if b < 0x80 then ucast b # chars bs
      else if b < 0xE0 then
        (case bs of c # r \<Rightarrow>
           (push_bit 6 (ucast (b AND 0x1F)) OR ucast (c AND 0x3F)) # chars r | _ \<Rightarrow> [])
      else if b < 0xF0 then
        (case bs of c # d # r \<Rightarrow>
           (push_bit 12 (ucast (b AND 0x0F)) OR push_bit 6 (ucast (c AND 0x3F)) OR
            ucast (d AND 0x3F)) # chars r | _ \<Rightarrow> [])
      else
        (case bs of c # d # e # r \<Rightarrow>
           (push_bit 18 (ucast (b AND 0x07)) OR push_bit 12 (ucast (c AND 0x3F)) OR
            push_bit 6 (ucast (d AND 0x3F)) OR ucast (e AND 0x3F)) # chars r | _ \<Rightarrow> []))"

definition encode_utf8 :: "uchar \<Rightarrow> bytes" where
  "encode_utf8 c =
     (if c < 0x80 then [ucast c]
      else if c < 0x800 then [0xC0 OR ucast (drop_bit 6 c), 0x80 OR ucast (c AND 0x3F)]
      else if c < 0x10000 then
        [0xE0 OR ucast (drop_bit 12 c), 0x80 OR ucast (drop_bit 6 c AND 0x3F), 0x80 OR ucast (c AND 0x3F)]
      else
        [0xF0 OR ucast (drop_bit 18 c), 0x80 OR ucast (drop_bit 12 c AND 0x3F),
         0x80 OR ucast (drop_bit 6 c AND 0x3F), 0x80 OR ucast (c AND 0x3F)])"

text \<open>\<open>char::from_u32\<close>.\<close>

definition char_from_u32 :: "u32 \<Rightarrow> uchar option" where
  "char_from_u32 v = (if v < 0x110000 \<and> \<not> (0xD800 \<le> v \<and> v \<le> 0xDFFF) then Some v else None)"

lemma is_ascii_Cons [simp]: "is_ascii (b # bs) \<longleftrightarrow> ascii b \<and> is_ascii bs" "is_ascii []"
  by (simp_all add: is_ascii_def)

lemma ascii_utf8: "is_ascii t \<Longrightarrow> utf8_valid t"
  by (induction t) (simp_all add: ascii_def)

lemma ascii_chars: "is_ascii t \<Longrightarrow> chars t = map ucast t"
  by (induction t) (simp_all add: ascii_def)

lemma ascii_unat: "ascii b \<longleftrightarrow> unat b < 128"
  by (simp add: ascii_def word_less_nat_alt)

lemma ascii_lowercase: "ascii b \<Longrightarrow> ascii (to_ascii_lowercase b)"
proof -
  assume "ascii b"
  moreover have "unat (b + 32) = unat b + 32" if "b \<le> 0x5A"
    using that by (simp add: unat_word_ariths word_le_nat_alt)
  ultimately show ?thesis
    by (auto simp: ascii_unat to_ascii_lowercase_def word_le_nat_alt)
qed

lemma lowercase_idem: "to_ascii_lowercase (to_ascii_lowercase b) = to_ascii_lowercase b"
proof (cases "0x41 \<le> b \<and> b \<le> 0x5A")
  case True
  then have "unat (b + 32) = unat b + 32" by (simp add: unat_word_ariths word_le_nat_alt)
  then show ?thesis using True by (simp add: to_ascii_lowercase_def word_le_nat_alt)
qed (simp add: to_ascii_lowercase_def)

lemma ucast_u8_u32 [simp]: "(ucast (ucast (b :: u8) :: u32) :: u8) = b"
  by (rule bit_word_eqI) (auto simp: bit_ucast_iff)

lemma encode_utf8_ascii: "ascii b \<Longrightarrow> encode_utf8 (ucast b) = [b]"
proof -
  assume "ascii b"
  then have "(ucast b :: u32) < 0x80" by (simp add: ascii_unat word_less_nat_alt unat_ucast_up)
  then show ?thesis by (simp add: encode_utf8_def)
qed

section \<open>A concrete environment\<close>

text \<open>An allocator that grants what is asked, tables for text without combining marks, and words
  separated by spaces: an environment in which the hypotheses above hold.\<close>

fun scan_words :: "nat \<Rightarrow> str \<Rightarrow> str \<Rightarrow> (nat \<times> str) list" where
  "scan_words i w [] = (if w = [] then [] else [(i - length w, w)])"
| "scan_words i w (b # bs) =
     (if b = 32 then (if w = [] then [] else [(i - length w, w)]) @ scan_words (Suc i) [] bs
      else scan_words (Suc i) (w @ [b]) bs)"

definition plain_env :: env where
  "plain_env = \<lparr>env_alloc = (\<lambda>sz n. Some n), env_size = (\<lambda>_. 8), env_class = (\<lambda>_. 0),
     env_compose = (\<lambda>_ _. None), env_decompose = (\<lambda>c. [c]),
     env_case_folded = (\<lambda>c. if 0x41 \<le> c \<and> c \<le> 0x5A then Some (c + 32) else None),
     env_words = scan_words 0 [], env_versions = [(16, 0, 0), (16, 0, 0), (16, 0, 0)]\<rparr>"

lemmas plain_env_simps = plain_env_def env.simps

lemma scan_words_slices:
  "length p + length w = i \<Longrightarrow> \<forall>(s, x) \<in> set (scan_words i w bs). take (length x) (drop s (p @ w @ bs)) = x"
proof (induction i w bs arbitrary: p rule: scan_words.induct)
  case (1 i w)
  then show ?case by auto
next
  case (2 i w b bs)
  show ?case
  proof (cases "b = 32")
    case True
    have "\<forall>(s, x) \<in> set (scan_words (Suc i) [] bs). take (length x) (drop s ((p @ w @ [b]) @ [] @ bs)) = x"
      using 2 True by (intro 2(1)) auto
    then show ?thesis using True 2(3) by auto
  next
    case False
    have "\<forall>(s, x) \<in> set (scan_words (Suc i) (w @ [b]) bs). take (length x) (drop s (p @ (w @ [b]) @ bs)) = x"
      using 2 False by (intro 2(2)) auto
    then show ?thesis using False by simp
  qed
qed

lemma lowercase_space: "to_ascii_lowercase b = 32 \<longleftrightarrow> b = 32"
proof (cases "0x41 \<le> b \<and> b \<le> 0x5A")
  case True
  then have "unat (b + 32) = unat b + 32" by (simp add: unat_word_ariths word_le_nat_alt)
  then have "b + 32 \<noteq> 32" using True by (auto simp: word_le_nat_alt dest: arg_cong[of _ _ unat])
  then show ?thesis using True by (auto simp: to_ascii_lowercase_def)
qed (auto simp: to_ascii_lowercase_def)

lemma scan_words_lowercase:
  "scan_words i (map to_ascii_lowercase w) (map to_ascii_lowercase bs) =
     map (\<lambda>(s, x). (s, map to_ascii_lowercase x)) (scan_words i w bs)"
proof (induction i w bs rule: scan_words.induct)
  case (2 i w b bs)
  then show ?case by (cases "b = 32") (auto simp: lowercase_space)
qed auto

lemma plain_env_ok:
  "alloc_ok (env_alloc plain_env)" "words_ok plain_env" "ascii_words_ok plain_env" "ascii_tables_ok plain_env"
proof -
  show "alloc_ok (env_alloc plain_env)" by (simp add: alloc_ok_def plain_env_def)
  show "words_ok plain_env"
    using scan_words_slices[of "[]" "[]" 0] by (simp add: words_ok_def plain_env_def)
  show "ascii_words_ok plain_env"
    using scan_words_lowercase[of 0 "[]"] by (simp add: ascii_words_ok_def plain_env_def)
  have f: "(if 0x41 \<le> (ucast a :: u32) \<and> (ucast a :: u32) \<le> 0x5A then ucast a + 32 else ucast a) =
      (ucast (to_ascii_lowercase a) :: u32)" for a :: u8
  proof -
    have u: "0x41 \<le> (ucast a :: u32) \<longleftrightarrow> 0x41 \<le> a" "(ucast a :: u32) \<le> 0x5A \<longleftrightarrow> a \<le> 0x5A"
      by (simp_all add: word_le_nat_alt unat_ucast_up)
    have "ucast (a + 32) = (ucast a + 32 :: u32)" if "a \<le> 0x5A"
    proof (rule word_unat_eq_iff[THEN iffD2])
      have "unat (a + 32) = unat a + 32" using that by (simp add: unat_word_ariths word_le_nat_alt)
      then show "unat (ucast (a + 32) :: u32) = unat (ucast a + 32 :: u32)"
        using that by (simp add: unat_ucast_up unat_word_ariths word_le_nat_alt)
    qed
    then show ?thesis by (simp add: u to_ascii_lowercase_def)
  qed
  show "ascii_tables_ok plain_env"
    by (auto simp: ascii_tables_ok_def plain_env_def f[symmetric])
qed

end
