(* ===== verification/Normalize.thy ===== *)
theory Normalize
  imports Unicode
begin

text \<open>
  The streaming normaliser (crates/pin-core/src/normalize.rs): canonical composition, case folding
  and composition again, within a memory budget. An \<open>emit\<close> closure is a function on its captured
  state and the budget; the two normalisers of \<open>profile_text\<close> are chained through the captured
  state of the closure \<open>folded\<close>.
\<close>

section \<open>Composition\<close>

record scalar =
  sc_value :: uchar
  sc_order :: u32

record nfc =
  nfc_pending :: "scalar vec"

definition nfc_default :: nfc where
  "nfc_default = \<lparr>nfc_pending = vec_new\<rparr>"

type_synonym 's sink = "uchar \<Rightarrow> 's \<times> memory_budget \<Rightarrow> ('s \<times> memory_budget) result"

text \<open>The composition loop: the scalars kept behind the starter; \<open>write\<close> never overtakes \<open>read\<close>.\<close>

fun compose_loop :: "env \<Rightarrow> scalar \<Rightarrow> u8 \<Rightarrow> scalar list \<Rightarrow> scalar list \<Rightarrow> scalar list" where
  "compose_loop env starter previous [] kept = starter # kept"
| "compose_loop env starter previous (sc # rest) kept =
     (let current = env_class env (sc_value sc) in
      case (if previous = 0 \<or> previous < current
            then env_compose env (sc_value starter) (sc_value sc) else None) of
        Some joined \<Rightarrow> compose_loop env (starter\<lparr>sc_value := joined\<rparr>) previous rest kept
      | None \<Rightarrow> compose_loop env starter current rest (kept @ [sc]))"

definition nfc_compose :: "env \<Rightarrow> nfc \<Rightarrow> nfc" where
  "nfc_compose env self =
     (let p = elems (nfc_pending self) in
      if p = [] then self else
      let from = (if env_class env (sc_value (hd p)) = 0 then 1 else 0);
          p = take from p @ sort_key (\<lambda>sc. (env_class env (sc_value sc), sc_order sc)) (drop from p) in
      if from = 0 then self\<lparr>nfc_pending := (nfc_pending self)\<lparr>elems := p\<rparr>\<rparr>
      else self\<lparr>nfc_pending := (nfc_pending self)\<lparr>elems := compose_loop env (hd p) 0 (tl p) []\<rparr>\<rparr>)"

definition nfc_emit :: "'s sink \<Rightarrow> nfc \<Rightarrow> 's \<times> memory_budget \<Rightarrow> (nfc \<times> 's \<times> memory_budget) result" where
  "nfc_emit emit self st =
     and_then (try_fold (\<lambda>st sc. emit (sc_value sc) st) st (elems (nfc_pending self))) (\<lambda>st.
       Inr (self\<lparr>nfc_pending := (nfc_pending self)\<lparr>elems := []\<rparr>\<rparr>, st))"

definition nfc_append ::
  "env \<Rightarrow> nfc \<Rightarrow> uchar \<Rightarrow> 's \<times> memory_budget \<Rightarrow> (nfc \<times> 's \<times> memory_budget) result" where
  "nfc_append env self value st =
     and_then (ok_or (Limit ''combining sequence'') (u32_try_from (vec_len (nfc_pending self)))) (\<lambda>order.
     and_then (reserve (env_alloc env) (env_size env ''Scalar'') (nfc_pending self) 1 (2 ^ 32 - 1) (snd st))
       (\<lambda>(pending, budget).
       Inr (self\<lparr>nfc_pending := vec_push pending \<lparr>sc_value = value, sc_order = order\<rparr>\<rparr>, (fst st, budget))))"

definition nfc_decomposed ::
  "env \<Rightarrow> 's sink \<Rightarrow> nfc \<Rightarrow> uchar \<Rightarrow> 's \<times> memory_budget \<Rightarrow> (nfc \<times> 's \<times> memory_budget) result" where
  "nfc_decomposed env emit self value st =
     (if env_class env value = 0 \<and> elems (nfc_pending self) \<noteq> [] then
        let self = nfc_compose env self; p = elems (nfc_pending self) in
        case (if length p = 1 \<and> env_class env (sc_value (hd p)) = 0
              then env_compose env (sc_value (hd p)) value else None) of
          Some joined \<Rightarrow>
            Inr (self\<lparr>nfc_pending := (nfc_pending self)\<lparr>elems := [(hd p)\<lparr>sc_value := joined\<rparr>]\<rparr>\<rparr>, st)
        | None \<Rightarrow>
            and_then (nfc_emit emit self st) (\<lambda>(self, st). nfc_append env self value st)
      else nfc_append env self value st)"

definition nfc_push ::
  "env \<Rightarrow> 's sink \<Rightarrow> nfc \<Rightarrow> uchar \<Rightarrow> 's \<times> memory_budget \<Rightarrow> (nfc \<times> 's \<times> memory_budget) result" where
  "nfc_push env emit self value st =
     try_fold (\<lambda>(self, st) value. nfc_decomposed env emit self value st) (self, st) (env_decompose env value)"

definition nfc_finish ::
  "env \<Rightarrow> 's sink \<Rightarrow> nfc \<Rightarrow> 's \<times> memory_budget \<Rightarrow> (nfc \<times> 's \<times> memory_budget) result" where
  "nfc_finish env emit self st = nfc_emit emit (nfc_compose env self) st"

definition nfc_release :: "env \<Rightarrow> nfc \<Rightarrow> memory_budget \<Rightarrow> memory_budget result" where
  "nfc_release env self budget =
     from_budget (budget_release budget (capacity (nfc_pending self) * env_size env ''Scalar''))"

section \<open>The profile\<close>

definition fold_char :: "env \<Rightarrow> uchar \<Rightarrow> uchar result" where
  "fold_char env value =
     (case env_case_folded env value of
        None \<Rightarrow> Inr value
      | Some mapped \<Rightarrow> ok_or InvalidProfile (char_from_u32 mapped))"

definition output_char :: "env \<Rightarrow> nat \<Rightarrow> u8 vec sink" where
  "output_char env limit value st =
     (let encoded = encode_utf8 value in
      and_then (reserve (env_alloc env) 1 (fst st) (length encoded) limit (snd st)) (\<lambda>(bytes, budget).
        Inr (vec_extend bytes encoded, budget)))"

definition folded_char :: "env \<Rightarrow> nat \<Rightarrow> (nfc \<times> u8 vec) sink" where
  "folded_char env limit value st =
     and_then (fold_char env value) (\<lambda>value.
     and_then (nfc_push env (output_char env limit) (fst (fst st)) value (snd (fst st), snd st))
       (\<lambda>(second, bytes, budget). Inr ((second, bytes), budget)))"

text \<open>The path for text that is not ASCII, from the reserved output buffer on.\<close>

definition profile_unicode ::
  "env \<Rightarrow> str \<Rightarrow> nat \<Rightarrow> u8 vec \<times> memory_budget \<Rightarrow> ((u8 vec \<times> nat) \<times> memory_budget) result" where
  "profile_unicode env text limit st =
     (let folded = folded_char env limit in
      and_then (try_fold (\<lambda>(first, st) value. nfc_push env folded first value st)
        (nfc_default, (nfc_default, fst st), snd st) (chars text)) (\<lambda>(first, st).
      and_then (nfc_finish env folded first st) (\<lambda>(first, (second, bytes), budget).
      and_then (nfc_finish env (output_char env limit) second (bytes, budget)) (\<lambda>(second, bytes, budget).
      let peak = mb_used budget in
      and_then (nfc_release env first budget) (\<lambda>budget.
      and_then (nfc_release env second budget) (\<lambda>budget.
      and_then (from_utf8 InvalidDocument (elems bytes)) (\<lambda>_. Inr ((bytes, peak), budget))))))))"

definition profile_text ::
  "env \<Rightarrow> str \<Rightarrow> nat \<Rightarrow> memory_budget \<Rightarrow> ((u8 vec \<times> nat) \<times> memory_budget) result" where
  "profile_text env text limit budget =
     and_then (reserve (env_alloc env) 1 vec_new (min (length text) limit) limit budget) (\<lambda>(bytes, budget).
     if is_ascii text then
       if length text > limit then Inl (Limit ''normalized bytes'')
       else
         let bytes = vec_extend bytes (map to_ascii_lowercase text); peak = mb_used budget in
         and_then (from_utf8 InvalidDocument (elems bytes)) (\<lambda>_. Inr ((bytes, peak), budget))
     else profile_unicode env text limit (bytes, budget))"

section \<open>Accounting\<close>

text \<open>The contract of a sink: it keeps its state well formed and charges the budget by exactly
  what its state grew.\<close>

locale charged_sink =
  fixes emit :: "'s sink"
    and invar :: "'s \<Rightarrow> bool"
    and weight :: "'s \<Rightarrow> nat"
  assumes emit_charges: "emit v (s, b) = Inr (s', b') \<Longrightarrow> invar s \<Longrightarrow> budget_inv b \<Longrightarrow>
    invar s' \<and> budget_inv b' \<and> mb_limit b' = mb_limit b \<and> mb_used b' + weight s = mb_used b + weight s'"
begin

lemma emits_charge:
  "try_fold (\<lambda>st sc. emit (f sc) st) (s, b) xs = Inr (s', b') \<Longrightarrow> invar s \<Longrightarrow> budget_inv b \<Longrightarrow>
    invar s' \<and> budget_inv b' \<and> mb_limit b' = mb_limit b \<and> mb_used b' + weight s = mb_used b + weight s'"
proof (induction xs arbitrary: s b)
  case (Cons x xs)
  then obtain s1 b1 where e: "emit (f x) (s, b) = Inr (s1, b1)"
    "try_fold (\<lambda>st sc. emit (f sc) st) (s1, b1) xs = Inr (s', b')"
    by (auto simp: res_simps)
  note c = emit_charges[OF e(1) Cons.prems(2,3)]
  with Cons.IH[OF e(2)] show ?case by auto
qed simp

end

definition pending_bytes :: "env \<Rightarrow> nfc \<Rightarrow> nat" where
  "pending_bytes env n = capacity (nfc_pending n) * env_size env ''Scalar''"

definition nfc_ok :: "env \<Rightarrow> nfc \<Rightarrow> bool" where
  "nfc_ok env n \<longleftrightarrow> vec_inv (nfc_pending n) \<and> alloc_ok (env_alloc env)"

lemma length_compose_loop: "length (compose_loop env st p xs kept) \<le> Suc (length kept + length xs)"
proof (induction xs arbitrary: st p kept)
  case (Cons x xs)
  show ?case
    using Cons.IH[of _ p kept] Cons.IH[of st "env_class env (sc_value x)" "kept @ [x]"]
    by (auto simp: Let_def le_SucI split: option.splits)
qed simp

lemma nfc_compose_ok:
  assumes "nfc_ok env n"
  shows "nfc_ok env (nfc_compose env n)" "pending_bytes env (nfc_compose env n) = pending_bytes env n"
proof -
  let ?p = "elems (nfc_pending n)"
  have "length (elems (nfc_pending (nfc_compose env n))) \<le> length ?p \<and>
      capacity (nfc_pending (nfc_compose env n)) = capacity (nfc_pending n)"
  proof (cases "?p = [] \<or> env_class env (sc_value (hd ?p)) \<noteq> 0")
    case False
    let ?q = "sort_key (\<lambda>sc. (env_class env (sc_value sc), sc_order sc)) (drop 1 ?p)"
    have "length (compose_loop env (hd ?p) 0 ?q []) \<le> Suc (length ?q)"
      using length_compose_loop[of env "hd ?p" 0 ?q "[]"] by simp
    then show ?thesis using False
      by (cases ?p) (auto simp: nfc_compose_def Let_def)
  qed (auto simp: nfc_compose_def Let_def)
  then show "nfc_ok env (nfc_compose env n)" "pending_bytes env (nfc_compose env n) = pending_bytes env n"
    using assms by (auto simp: nfc_ok_def vec_inv_def vec_len_def pending_bytes_def)
qed

lemma vec_push_capacity:
  "vec_len v + 1 \<le> capacity v \<Longrightarrow> capacity (vec_push v x) = capacity v"
  by (simp add: vec_extend_def vec_len_def)

lemma nfc_append_charges:
  assumes "nfc_append env n v (s, b) = Inr (n', s', b')" "nfc_ok env n" "budget_inv b"
  shows "nfc_ok env n'" "budget_inv b'" "mb_limit b' = mb_limit b" "s' = s"
    "mb_used b' + pending_bytes env n = mb_used b + pending_bytes env n'"
proof -
  from assms(1) obtain order pend where
    r: "reserve (env_alloc env) (env_size env ''Scalar'') (nfc_pending n) 1 (2 ^ 32 - 1) b = Inr (pend, b')"
    and n': "n' = n\<lparr>nfc_pending := vec_push pend \<lparr>sc_value = v, sc_order = order\<rparr>\<rparr>" and s: "s' = s"
    by (auto simp: nfc_append_def res_simps)
  have inv: "vec_inv (nfc_pending n)" "alloc_ok (env_alloc env)" using assms(2) by (auto simp: nfc_ok_def)
  note q = reserve_Inr[OF r assms(3) inv]
  have "vec_len pend + 1 \<le> capacity pend" using q(1,2) by (simp add: vec_len_def)
  then have c: "capacity (nfc_pending n') = capacity pend"
    using vec_push_capacity[of pend] n' by simp
  show "nfc_ok env n'" using n' inv by (simp add: nfc_ok_def)
  show "budget_inv b'" "mb_limit b' = mb_limit b" using q by auto
  show "s' = s" by (rule s)
  show "mb_used b' + pending_bytes env n = mb_used b + pending_bytes env n'"
    using q(7) c by (simp add: pending_bytes_def)
qed

context charged_sink
begin

lemma nfc_emit_charges:
  assumes "nfc_emit emit n (s, b) = Inr (n', s', b')" "invar s" "nfc_ok env n" "budget_inv b"
  shows "invar s' \<and> nfc_ok env n' \<and> budget_inv b' \<and> mb_limit b' = mb_limit b \<and>
    mb_used b' + weight s = mb_used b + weight s' \<and> pending_bytes env n' = pending_bytes env n"
proof -
  from assms(1) have e: "try_fold (\<lambda>st sc. emit (sc_value sc) st) (s, b) (elems (nfc_pending n)) = Inr (s', b')"
    and n': "n' = n\<lparr>nfc_pending := (nfc_pending n)\<lparr>elems := []\<rparr>\<rparr>"
    by (auto simp: nfc_emit_def res_simps)
  from emits_charge[OF e assms(2,4)] show ?thesis
    using assms(3) n' by (simp add: nfc_ok_def vec_inv_def vec_len_def pending_bytes_def)
qed

lemma nfc_decomposed_charges:
  assumes d: "nfc_decomposed env emit n v (s, b) = Inr (n', s', b')" and i: "invar s" "nfc_ok env n" "budget_inv b"
  shows "invar s' \<and> nfc_ok env n' \<and> budget_inv b' \<and> mb_limit b' = mb_limit b \<and>
    mb_used b' + (weight s + pending_bytes env n) = mb_used b + (weight s' + pending_bytes env n')"
proof (cases "env_class env v = 0 \<and> elems (nfc_pending n) \<noteq> []")
  case False
  then have a: "nfc_append env n v (s, b) = Inr (n', s', b')" using d by (auto simp: nfc_decomposed_def)
  show ?thesis using nfc_append_charges[OF a i(2,3)] i(1) by simp
next
  case True
  let ?m = "nfc_compose env n"
  note m = nfc_compose_ok[OF i(2)]
  let ?p = "elems (nfc_pending ?m)"
  let ?j = "if length ?p = 1 \<and> env_class env (sc_value (hd ?p)) = 0 then env_compose env (sc_value (hd ?p)) v else None"
  show ?thesis
  proof (cases ?j)
    case (Some joined)
    then have one: "length ?p = 1" by (auto split: if_splits)
    have "(n', s', b') = (?m\<lparr>nfc_pending := (nfc_pending ?m)\<lparr>elems := [(hd ?p)\<lparr>sc_value := joined\<rparr>]\<rparr>\<rparr>, s, b)"
      using d True Some by (simp add: nfc_decomposed_def Let_def)
    then show ?thesis using i m one by (auto simp: nfc_ok_def vec_inv_def vec_len_def pending_bytes_def)
  next
    case None
    then obtain n1 s1 b1 where e: "nfc_emit emit ?m (s, b) = Inr (n1, s1, b1)"
      and a: "nfc_append env n1 v (s1, b1) = Inr (n', s', b')"
      using d True by (auto simp: nfc_decomposed_def Let_def res_simps)
    have c: "invar s1 \<and> nfc_ok env n1 \<and> budget_inv b1 \<and> mb_limit b1 = mb_limit b \<and>
        mb_used b1 + weight s = mb_used b + weight s1 \<and> pending_bytes env n1 = pending_bytes env ?m"
      by (rule nfc_emit_charges[OF e i(1) m(1) i(3)])
    then show ?thesis using nfc_append_charges[OF a] m(2) by auto
  qed
qed

lemma nfc_decomposed_list_charges:
  "try_fold (\<lambda>(n, st) v. nfc_decomposed env emit n v st) (n, s, b) vs = Inr (n', s', b') \<Longrightarrow>
    invar s \<Longrightarrow> nfc_ok env n \<Longrightarrow> budget_inv b \<Longrightarrow>
    invar s' \<and> nfc_ok env n' \<and> budget_inv b' \<and> mb_limit b' = mb_limit b \<and>
    mb_used b' + (weight s + pending_bytes env n) = mb_used b + (weight s' + pending_bytes env n')"
proof (induction vs arbitrary: n s b)
  case (Cons v vs)
  then obtain n1 s1 b1 where e: "nfc_decomposed env emit n v (s, b) = Inr (n1, s1, b1)"
    "try_fold (\<lambda>(n, st) v. nfc_decomposed env emit n v st) (n1, s1, b1) vs = Inr (n', s', b')"
    by (auto simp: res_simps)
  note c = nfc_decomposed_charges[OF e(1) Cons.prems(2-4)]
  with Cons.IH[OF e(2)] show ?case by auto
qed simp

lemma nfc_push_charges:
  "nfc_push env emit n v (s, b) = Inr (n', s', b') \<Longrightarrow> invar s \<Longrightarrow> nfc_ok env n \<Longrightarrow> budget_inv b \<Longrightarrow>
    invar s' \<and> nfc_ok env n' \<and> budget_inv b' \<and> mb_limit b' = mb_limit b \<and>
    mb_used b' + (weight s + pending_bytes env n) = mb_used b + (weight s' + pending_bytes env n')"
  unfolding nfc_push_def by (rule nfc_decomposed_list_charges)

lemma nfc_push_list_charges:
  "try_fold (\<lambda>(n, st) v. nfc_push env emit n v st) (n, s, b) vs = Inr (n', s', b') \<Longrightarrow>
    invar s \<Longrightarrow> nfc_ok env n \<Longrightarrow> budget_inv b \<Longrightarrow>
    invar s' \<and> nfc_ok env n' \<and> budget_inv b' \<and> mb_limit b' = mb_limit b \<and>
    mb_used b' + (weight s + pending_bytes env n) = mb_used b + (weight s' + pending_bytes env n')"
proof (induction vs arbitrary: n s b)
  case (Cons v vs)
  then obtain n1 s1 b1 where e: "nfc_push env emit n v (s, b) = Inr (n1, s1, b1)"
    "try_fold (\<lambda>(n, st) v. nfc_push env emit n v st) (n1, s1, b1) vs = Inr (n', s', b')"
    by (auto simp: res_simps)
  note c = nfc_push_charges[OF e(1) Cons.prems(2-4)]
  with Cons.IH[OF e(2)] show ?case by auto
qed simp

lemma nfc_finish_charges:
  assumes "nfc_finish env emit n (s, b) = Inr (n', s', b')" "invar s" "nfc_ok env n" "budget_inv b"
  shows "invar s' \<and> nfc_ok env n' \<and> budget_inv b' \<and> mb_limit b' = mb_limit b \<and>
    mb_used b' + (weight s + pending_bytes env n) = mb_used b + (weight s' + pending_bytes env n')"
  using nfc_emit_charges[OF assms(1)[unfolded nfc_finish_def] assms(2) nfc_compose_ok(1)[OF assms(3)] assms(4)]
    nfc_compose_ok(2)[OF assms(3)] by auto

end

interpretation output_sink: charged_sink "output_char env limit"
  "\<lambda>bytes. vec_inv bytes \<and> alloc_ok (env_alloc env)" capacity for env limit
proof
  fix v s b s' b'
  assume o: "output_char env limit v (s, b) = Inr (s', b')" and i: "vec_inv s \<and> alloc_ok (env_alloc env)" "budget_inv b"
  then obtain w where r: "reserve (env_alloc env) 1 s (length (encode_utf8 v)) limit b = Inr (w, b')"
    and s': "s' = vec_extend w (encode_utf8 v)"
    by (auto simp: output_char_def res_simps Let_def)
  note q = reserve_Inr[OF r i(2)]
  have "elems w = elems s" "vec_len s + length (encode_utf8 v) \<le> capacity w" using q i by auto
  then have "capacity s' = capacity w" by (simp add: s' vec_extend_def vec_len_def)
  then show "(vec_inv s' \<and> alloc_ok (env_alloc env)) \<and> budget_inv b' \<and> mb_limit b' = mb_limit b \<and>
      mb_used b' + capacity s = mb_used b + capacity s'"
    using q i s' by simp
qed

interpretation folded_sink: charged_sink "folded_char env limit"
  "\<lambda>(second, bytes). nfc_ok env second \<and> vec_inv bytes" "\<lambda>(second, bytes). pending_bytes env second + capacity bytes"
  for env limit
proof
  fix v s b s' b'
  assume f: "folded_char env limit v (s, b) = Inr (s', b')"
    and i: "case s of (second, bytes) \<Rightarrow> nfc_ok env second \<and> vec_inv bytes" "budget_inv b"
  obtain second bytes where s: "s = (second, bytes)" by (cases s)
  from f obtain w second' bytes' where
    p: "nfc_push env (output_char env limit) second w (bytes, b) = Inr (second', bytes', b')" "s' = (second', bytes')"
    by (auto simp: folded_char_def res_simps s)
  from output_sink.nfc_push_charges[OF p(1)] i s p(2)
  show "(case s' of (second, bytes) \<Rightarrow> nfc_ok env second \<and> vec_inv bytes) \<and> budget_inv b' \<and>
      mb_limit b' = mb_limit b \<and>
      mb_used b' + (case s of (second, bytes) \<Rightarrow> pending_bytes env second + capacity bytes) =
      mb_used b + (case s' of (second, bytes) \<Rightarrow> pending_bytes env second + capacity bytes)"
    by (auto simp: nfc_ok_def)
qed

lemma nfc_default_ok [simp]: "nfc_ok env nfc_default \<longleftrightarrow> alloc_ok (env_alloc env)" "pending_bytes env nfc_default = 0"
  by (simp_all add: nfc_ok_def nfc_default_def pending_bytes_def vec_new_def vec_inv_def vec_len_def)

lemma nfc_release_Inr:
  assumes "nfc_release env n b = Inr b'" "budget_inv b"
  shows "budget_inv b' \<and> mb_limit b' = mb_limit b \<and> mb_used b = mb_used b' + pending_bytes env n"
  using assms budget_release_Inr[of b "pending_bytes env n" b']
  by (simp add: nfc_release_def res_simps pending_bytes_def)

lemma profile_unicode_charges:
  assumes p: "profile_unicode env text limit (v, b) = Inr ((bytes, peak), b')"
    and i: "vec_inv v" "alloc_ok (env_alloc env)" "budget_inv b"
  shows "budget_inv b'" "mb_limit b' = mb_limit b" "mb_used b' + capacity v = mb_used b + capacity bytes"
    "utf8_valid (elems bytes)"
proof -
  let ?f = "folded_char env limit"
  from p obtain n1 s1 v1 b1 n2 s2 v2 b2 s3 b3 b4 where
    l: "try_fold (\<lambda>(first, st) value. nfc_push env ?f first value st) (nfc_default, (nfc_default, v), b) (chars text) =
      Inr (n1, (s1, v1), b1)"
    and f1: "nfc_finish env ?f n1 ((s1, v1), b1) = Inr (n2, (s2, v2), b2)"
    and f2: "nfc_finish env (output_char env limit) s2 (v2, b2) = Inr (s3, bytes, b3)"
    and r: "nfc_release env n2 b3 = Inr b4" "nfc_release env s3 b4 = Inr b'"
    and u: "utf8_valid (elems bytes)"
    by (auto simp: profile_unicode_def Let_def res_simps from_utf8_def split: if_splits)
  have c1: "(nfc_ok env s1 \<and> vec_inv v1) \<and> nfc_ok env n1 \<and> budget_inv b1 \<and> mb_limit b1 = mb_limit b \<and>
      mb_used b1 + capacity v = mb_used b + (pending_bytes env s1 + capacity v1 + pending_bytes env n1)"
    using folded_sink.nfc_push_list_charges[OF l] i by auto
  have c2: "(nfc_ok env s2 \<and> vec_inv v2) \<and> nfc_ok env n2 \<and> budget_inv b2 \<and> mb_limit b2 = mb_limit b1 \<and>
      mb_used b2 + (pending_bytes env s1 + capacity v1 + pending_bytes env n1) =
      mb_used b1 + (pending_bytes env s2 + capacity v2 + pending_bytes env n2)"
    using folded_sink.nfc_finish_charges[OF f1] c1 by auto
  have c3: "nfc_ok env s3 \<and> budget_inv b3 \<and> mb_limit b3 = mb_limit b2 \<and>
      mb_used b3 + (capacity v2 + pending_bytes env s2) = mb_used b2 + (capacity bytes + pending_bytes env s3)"
    using output_sink.nfc_finish_charges[OF f2] c2 i(2) by auto
  note r1 = nfc_release_Inr[OF r(1)] nfc_release_Inr[OF r(2)]
  show "budget_inv b'" "mb_limit b' = mb_limit b" "mb_used b' + capacity v = mb_used b + capacity bytes"
    using c1 c2 c3 r1 by auto
  show "utf8_valid (elems bytes)" by (rule u)
qed

lemma profile_text_charges:
  assumes p: "profile_text env text limit b = Inr ((bytes, peak), b')"
    and i: "alloc_ok (env_alloc env)" "budget_inv b"
  shows "budget_inv b'" "mb_limit b' = mb_limit b" "mb_used b' = mb_used b + capacity bytes"
    "utf8_valid (elems bytes)"
proof -
  from p obtain v :: "u8 vec" and b1 where r: "reserve (env_alloc env) 1 vec_new (min (length text) limit) limit b = Inr (v, b1)"
    by (auto simp: profile_text_def res_simps simp del: One_nat_def)
  note q = reserve_Inr[OF r i(2) vec_new_inv(1) i(1)]
  have used: "mb_used b1 = mb_used b + capacity v" using q(7) by (simp add: vec_new_def)
  have "budget_inv b' \<and> mb_limit b' = mb_limit b \<and> mb_used b' = mb_used b + capacity bytes \<and> utf8_valid (elems bytes)"
  proof (cases "is_ascii text")
    case True
    then have "bytes = vec_extend v (map to_ascii_lowercase text)" "b' = b1" "length text \<le> limit"
      "utf8_valid (elems bytes)"
      using p unfolding profile_text_def r
      by (auto simp: Let_def res_simps from_utf8_def split: if_splits)
    moreover have "capacity (vec_extend v (map to_ascii_lowercase text)) = capacity v"
      using q(1,2) calculation(3) by (simp add: vec_extend_def)
    ultimately show ?thesis using q used by simp
  next
    case False
    then have "profile_unicode env text limit (v, b1) = Inr ((bytes, peak), b')"
      using p unfolding profile_text_def r by simp
    from profile_unicode_charges[OF this q(3) i(1) q(4)] show ?thesis using q used by auto
  qed
  then show "budget_inv b'" "mb_limit b' = mb_limit b" "mb_used b' = mb_used b + capacity bytes"
    "utf8_valid (elems bytes)" by auto
qed

section \<open>ASCII text on the general path\<close>

text \<open>On ASCII a normaliser holds back at most one starter.\<close>

definition pend_ascii :: "nfc \<Rightarrow> bytes \<Rightarrow> bool" where
  "pend_ascii n xs \<longleftrightarrow> map sc_value (elems (nfc_pending n)) = map ucast xs \<and> length xs \<le> 1 \<and> is_ascii xs"

lemma pend_ascii_bytes:
  "pend_ascii n xs \<Longrightarrow> map (\<lambda>sc. ucast (sc_value sc) :: u8) (elems (nfc_pending n)) = xs"
proof -
  assume "pend_ascii n xs"
  then have m: "map sc_value (elems (nfc_pending n)) = map ucast xs" by (simp add: pend_ascii_def)
  have "map (\<lambda>sc. ucast (sc_value sc) :: u8) (elems (nfc_pending n)) =
      map ucast (map sc_value (elems (nfc_pending n)))" by simp
  also have "\<dots> = xs" unfolding m by (simp add: comp_def ucast_u8_u32)
  finally show ?thesis .
qed

lemma nfc_append_pending:
  assumes "nfc_append env n (ucast c) (s, b) = Inr (n', s', b')" "elems (nfc_pending n) = []" "ascii c"
  shows "s' = s \<and> pend_ascii n' [c]"
  using assms by (auto simp: nfc_append_def res_simps pend_ascii_def dest!: reserve_elems)

locale ascii_sink =
  fixes emit :: "'s sink"
    and invar :: "'s \<Rightarrow> bool"
    and out :: "'s \<Rightarrow> bytes"
    and g :: "u8 \<Rightarrow> u8"
  assumes emit_ascii: "ascii a \<Longrightarrow> invar s \<Longrightarrow> emit (ucast a) (s, b) = Inr (s', b') \<Longrightarrow>
    invar s' \<and> out s' = out s @ [g a]"
begin

lemma emit_pending:
  assumes "pend_ascii n xs" "invar s" "nfc_emit emit n (s, b) = Inr (n', s', b')"
  shows "invar s' \<and> out s' = out s @ map g xs \<and> pend_ascii n' []"
proof -
  from assms(3) have e: "try_fold (\<lambda>st sc. emit (sc_value sc) st) (s, b) (elems (nfc_pending n)) = Inr (s', b')"
    and n': "n' = n\<lparr>nfc_pending := (nfc_pending n)\<lparr>elems := []\<rparr>\<rparr>" by (auto simp: nfc_emit_def res_simps)
  have "try_fold (\<lambda>st v. emit v st) (s, b) (map sc_value (elems (nfc_pending n))) = Inr (s', b')"
    using e by (simp add: try_fold_map)
  then have f: "try_fold (\<lambda>st v. emit v st) (s, b) (map ucast xs) = Inr (s', b')"
    using assms(1) by (simp add: pend_ascii_def)
  consider "xs = []" | a where "xs = [a]" "ascii a"
    using assms(1) by (cases xs) (auto simp: pend_ascii_def)
  then have "invar s' \<and> out s' = out s @ map g xs"
  proof cases
    case 1
    then show ?thesis using assms(2) f by simp
  next
    case (2 a)
    then have "emit (ucast a) (s, b) = Inr (s', b')" using f by (auto simp: res_simps)
    from emit_ascii[OF 2(2) assms(2) this] show ?thesis by (simp add: 2(1))
  qed
  then show ?thesis by (simp add: n' pend_ascii_def)
qed

lemma compose_pending:
  assumes "ascii_tables_ok env" "pend_ascii n xs" shows "nfc_compose env n = n"
proof -
  consider "elems (nfc_pending n) = []" | x a where "elems (nfc_pending n) = [x]" "sc_value x = ucast a" "ascii a"
    using assms(2) by (cases xs; cases "elems (nfc_pending n)") (auto simp: pend_ascii_def)
  then show ?thesis
  proof cases
    case (2 x a)
    then have "env_class env (sc_value x) = 0" using assms(1) by (simp add: ascii_tables_ok_def)
    then show ?thesis using 2 by (cases n; cases "nfc_pending n") (simp add: nfc_compose_def Let_def)
  qed (simp add: nfc_compose_def)
qed

lemma push_pending:
  assumes t: "ascii_tables_ok env" and n: "pend_ascii n xs" and c: "ascii c" and s: "invar s"
    and p: "nfc_push env emit n (ucast c) (s, b) = Inr (n', s', b')"
  shows "invar s' \<and> out s' = out s @ map g xs \<and> pend_ascii n' [c]"
proof -
  have tc: "env_class env (ucast c) = 0" "env_decompose env (ucast c) = [ucast c]"
    using t c by (auto simp: ascii_tables_ok_def)
  have d: "nfc_decomposed env emit n (ucast c) (s, b) = Inr (n', s', b')"
    using p by (auto simp: nfc_push_def tc res_simps)
  show ?thesis
  proof (cases xs)
    case Nil
    then have e: "elems (nfc_pending n) = []" using n by (simp add: pend_ascii_def)
    then have "nfc_append env n (ucast c) (s, b) = Inr (n', s', b')"
      using d by (simp add: nfc_decomposed_def)
    from nfc_append_pending[OF this e c] show ?thesis using s Nil by simp
  next
    case (Cons a ys)
    then have xs: "xs = [a]" "ascii a" using n by (auto simp: pend_ascii_def)
    then obtain x where x: "elems (nfc_pending n) = [x]" "sc_value x = ucast a"
      using n by (auto simp: pend_ascii_def)
    have no: "env_compose env (ucast a) (ucast c) = None" "env_class env (ucast a) = 0"
      using t xs(2) c by (simp_all add: ascii_tables_ok_def)
    obtain n1 s1 b1 where e: "nfc_emit emit n (s, b) = Inr (n1, s1, b1)"
      and a: "nfc_append env n1 (ucast c) (s1, b1) = Inr (n', s', b')"
      using d unfolding nfc_decomposed_def compose_pending[OF t n] Let_def
      by (simp add: tc x no res_simps) (auto simp: res_simps)
    note q = emit_pending[OF n s e]
    then have "elems (nfc_pending n1) = []" by (simp add: pend_ascii_def)
    from nfc_append_pending[OF a this c] q show ?thesis by simp
  qed
qed

lemma push_list_pending:
  "ascii_tables_ok env \<Longrightarrow> pend_ascii n xs \<Longrightarrow> is_ascii cs \<Longrightarrow> invar s \<Longrightarrow>
    try_fold (\<lambda>(n, st) v. nfc_push env emit n v st) (n, s, b) (map ucast cs) = Inr (n', s', b') \<Longrightarrow>
    \<exists>ys. invar s' \<and> out s' @ map g ys = out s @ map g (xs @ cs) \<and> pend_ascii n' ys"
proof (induction cs arbitrary: n xs s b)
  case Nil
  then show ?case by auto
next
  case (Cons c cs)
  then obtain n1 s1 b1 where p: "nfc_push env emit n (ucast c) (s, b) = Inr (n1, s1, b1)"
    and r: "try_fold (\<lambda>(n, st) v. nfc_push env emit n v st) (n1, s1, b1) (map ucast cs) = Inr (n', s', b')"
    by (auto simp: res_simps)
  have c: "ascii c" "is_ascii cs" using Cons.prems(3) by auto
  note q = push_pending[OF Cons.prems(1,2) c(1) Cons.prems(4) p]
  from Cons.IH[OF Cons.prems(1) _ c(2) _ r, of "[c]"] q show ?case by auto
qed

lemma finish_pending:
  assumes "ascii_tables_ok env" "pend_ascii n xs" "invar s" "nfc_finish env emit n (s, b) = Inr (n', s', b')"
  shows "invar s' \<and> out s' = out s @ map g xs \<and> pend_ascii n' []"
  using emit_pending[OF assms(2,3)] assms(4) by (simp add: nfc_finish_def compose_pending[OF assms(1,2)])

end

interpretation ascii_output: ascii_sink "output_char env limit" "\<lambda>_. True" elems "\<lambda>a. a" for env limit
proof
  fix a s b s' b'
  assume a: "ascii a" and o: "output_char env limit (ucast a) (s, b) = Inr (s', b')"
  then obtain w where "reserve (env_alloc env) 1 s 1 limit b = Inr (w, b')" "s' = vec_extend w [a]"
    by (auto simp: output_char_def res_simps Let_def encode_utf8_ascii)
  then show "True \<and> elems s' = elems s @ [a]" by (simp add: reserve_elems)
qed

definition folded_out :: "nfc \<times> u8 vec \<Rightarrow> bytes" where
  "folded_out st = elems (snd st) @ map (\<lambda>sc. ucast (sc_value sc)) (elems (nfc_pending (fst st)))"

interpretation ascii_folded: ascii_sink "folded_char env limit"
  "\<lambda>(second, bytes). ascii_tables_ok env \<and> (\<exists>xs. pend_ascii second xs)" folded_out to_ascii_lowercase
  for env limit
proof
  fix a s b s' b'
  assume a: "ascii a" and i: "case s of (second, bytes) \<Rightarrow> ascii_tables_ok env \<and> (\<exists>xs. pend_ascii second xs)"
    and f: "folded_char env limit (ucast a) (s, b) = Inr (s', b')"
  obtain second bytes xs where s: "s = (second, bytes)" "ascii_tables_ok env" "pend_ascii second xs"
    using i by (cases s) auto
  have l: "ascii (to_ascii_lowercase a)" by (rule ascii_lowercase[OF a])
  have "fold_char env (ucast a) = Inr (ucast (to_ascii_lowercase a)) \<or> fold_char env (ucast a) = Inl InvalidProfile"
    using s(2) a by (auto simp: fold_char_def ascii_tables_ok_def char_from_u32_def split: option.splits)
  then obtain second' bytes' where
    p: "nfc_push env (output_char env limit) second (ucast (to_ascii_lowercase a)) (bytes, b) = Inr (second', bytes', b')"
    and s': "s' = (second', bytes')"
    using f by (auto simp: folded_char_def res_simps s)
  have q: "elems bytes' = elems bytes @ xs" "pend_ascii second' [to_ascii_lowercase a]"
    using ascii_output.push_pending[OF s(2,3) l _ p] by auto
  then show "(case s' of (second, bytes) \<Rightarrow> ascii_tables_ok env \<and> (\<exists>xs. pend_ascii second xs)) \<and>
      folded_out s' = folded_out s @ [to_ascii_lowercase a]"
    using s s' by (auto simp: folded_out_def pend_ascii_bytes)
qed

lemma profile_unicode_ascii:
  assumes p: "profile_unicode env text limit (v, b) = Inr ((bytes, peak), b')"
    and t: "ascii_tables_ok env" "is_ascii text"
  shows "elems bytes = elems v @ map to_ascii_lowercase text"
proof -
  let ?f = "folded_char env limit"
  from p obtain n1 s1 v1 b1 n2 s2 v2 b2 s3 b3 where
    l: "try_fold (\<lambda>(first, st) value. nfc_push env ?f first value st) (nfc_default, (nfc_default, v), b) (map ucast text) =
      Inr (n1, (s1, v1), b1)"
    and f1: "nfc_finish env ?f n1 ((s1, v1), b1) = Inr (n2, (s2, v2), b2)"
    and f2: "nfc_finish env (output_char env limit) s2 (v2, b2) = Inr (s3, bytes, b3)"
    by (auto simp: profile_unicode_def Let_def res_simps ascii_chars[OF t(2)] from_utf8_def split: if_splits)
  have d: "pend_ascii nfc_default []" by (simp add: pend_ascii_def nfc_default_def)
  obtain ys where y: "case (s1, v1) of (second, bytes) \<Rightarrow> ascii_tables_ok env \<and> (\<exists>xs. pend_ascii second xs)"
    "folded_out (s1, v1) @ map to_ascii_lowercase ys = folded_out (nfc_default, v) @ map to_ascii_lowercase text"
    "pend_ascii n1 ys"
    using ascii_folded.push_list_pending[OF t(1) d t(2) _ l] d t(1) by auto
  from ascii_folded.finish_pending[OF t(1) y(3,1) f1] obtain zs where
    "folded_out (s2, v2) = folded_out (s1, v1) @ map to_ascii_lowercase ys" "pend_ascii s2 zs" by auto
  moreover from this(2) have "elems bytes = elems v2 @ zs"
    using ascii_output.finish_pending[OF t(1) _ _ f2] by simp
  ultimately show ?thesis using y(2) by (simp add: folded_out_def pend_ascii_bytes nfc_default_def)
qed

section \<open>Properties\<close>

text \<open>C18: normalising a text charges the budget with exactly the capacity of the returned string:
  the buffers of the two composition passes are released again, whatever the tables say; the
  budget keeps its invariant and the returned bytes are valid UTF-8.\<close>

theorem profile_text_accounts:
  assumes "profile_text env text limit b = Inr ((bytes, peak), b')"
    and "alloc_ok (env_alloc env)" "budget_inv b"
  shows "budget_inv b' \<and> mb_limit b' = mb_limit b \<and> mb_used b' = mb_used b + capacity bytes \<and>
    utf8_valid (elems bytes)"
  using profile_text_charges[OF assms] by simp

theorem profile_text_accounts_witness:
  "\<exists>bytes peak b'. profile_text plain_env [0xC3, 0xA9, 0x41] 64 (budget_new 100) = Inr ((bytes, peak), b') \<and>
     elems bytes = [0xC3, 0xA9, 0x61] \<and> mb_used b' = 0 + capacity bytes"
proof -
  have r: "profile_text plain_env [0xC3, 0xA9, 0x41] 64 (budget_new 100) =
      Inr ((\<lparr>elems = [0xC3, 0xA9, 0x61], capacity = 3\<rparr>, 19), \<lparr>mb_limit = 100, mb_used = 3, mb_peak = 19\<rparr>)"
    by code_simp
  from profile_text_accounts[OF r plain_env_ok(1)] r show ?thesis by (auto simp: budget_new_def)
qed

text \<open>C17: the fast path for ASCII text is an optimisation only: where both return, it yields the
  bytes of the general path, two composition passes around case folding, and these are the
  lowercased input.\<close>

theorem ascii_fast_path:
  assumes "ascii_tables_ok env" "is_ascii text"
    and "profile_text env text limit b = Inr ((bytes, peak), b')"
    and "profile_unicode env text limit (vec_new, c) = Inr ((general, peak'), c')"
  shows "elems bytes = elems general \<and> elems bytes = map to_ascii_lowercase text"
proof -
  have "elems bytes = map to_ascii_lowercase text"
    using assms(2,3) by (auto simp: profile_text_def res_simps Let_def from_utf8_def split: if_splits dest!: reserve_elems)
  then show ?thesis using profile_unicode_ascii[OF assms(4,1,2)] by simp
qed

theorem ascii_fast_path_witness:
  "\<exists>bytes peak b' general peak' c'.
     profile_text plain_env [0x42, 0x41] 64 (budget_new 100) = Inr ((bytes, peak), b') \<and>
     profile_unicode plain_env [0x42, 0x41] 64 (vec_new, budget_new 100) = Inr ((general, peak'), c') \<and>
     elems bytes = elems general \<and> elems bytes = map to_ascii_lowercase [0x42, 0x41]"
proof -
  have a: "is_ascii [0x42, 0x41]" by (simp add: ascii_def)
  have r: "profile_text plain_env [0x42, 0x41] 64 (budget_new 100) =
      Inr ((\<lparr>elems = [0x62, 0x61], capacity = 2\<rparr>, 2), \<lparr>mb_limit = 100, mb_used = 2, mb_peak = 2\<rparr>)"
    by code_simp
  have g: "profile_unicode plain_env [0x42, 0x41] 64 (vec_new, budget_new 100) =
      Inr ((\<lparr>elems = [0x62, 0x61], capacity = 2\<rparr>, 18), \<lparr>mb_limit = 100, mb_used = 2, mb_peak = 18\<rparr>)"
    by code_simp
  from ascii_fast_path[OF plain_env_ok(4) a r g] r g show ?thesis by blast
qed

end
