(* ===== verification/Analysis.thy ===== *)
theory Analysis
  imports Normalize
begin

text \<open>
  Document analysis (crates/pin-core/src/analysis.rs): the profile gate, normalisation and the
  token ranges of the normalised text, within the limits of a caller. The buffers behind the
  result are its bytes and its ranges; their capacities only enter the accounting.
\<close>

section \<open>Definitions\<close>

definition PROFILE_ID :: u32 where
  "PROFILE_ID = 1"

record analysis_limits =
  al_input_bytes :: nat
  al_normalized_bytes :: nat
  al_tokens :: u32
  al_term_bytes :: nat
  al_memory_bytes :: nat

definition analysis_limits_default :: analysis_limits where
  "analysis_limits_default = \<lparr>al_input_bytes = 2 ^ 20, al_normalized_bytes = 2 * 2 ^ 20,
     al_tokens = 262144, al_term_bytes = 1024, al_memory_bytes = 8 * 2 ^ 20\<rparr>"

record token_range =
  tr_start :: u32
  tr_end :: u32

record token =
  tk_term :: str
  tk_position :: u32

record analyzed =
  an_normalized :: str
  an_tokens :: "token_range list"
  an_retained_bytes :: nat
  an_peak_bytes :: nat

definition check_input :: "env \<Rightarrow> str \<Rightarrow> analysis_limits \<Rightarrow> unit result" where
  "check_input env text limits =
     (if \<not> list_all (\<lambda>v. v = (16, 0, 0)) (env_versions env) then Inl InvalidProfile
      else if length text > al_input_bytes limits then Inl (Limit ''document bytes'')
      else Inr ())"

definition word_range :: "nat \<times> str \<Rightarrow> token_range" where
  "word_range w = \<lparr>tr_start = of_nat (fst w), tr_end = of_nat (fst w + length (snd w))\<rparr>"

definition analyze_word ::
  "env \<Rightarrow> analysis_limits \<Rightarrow> token_range vec \<times> memory_budget \<Rightarrow> nat \<times> str \<Rightarrow>
    (token_range vec \<times> memory_budget) result" where
  "analyze_word env limits st w =
     (if length (snd w) > al_term_bytes limits then Inl (Limit ''term bytes'')
      else and_then (reserve (env_alloc env) (env_size env ''TokenRange'') (fst st) 1
             (unat (al_tokens limits)) (snd st)) (\<lambda>(tokens, budget).
        Inr (vec_push tokens (word_range w), budget)))"

definition analyze :: "env \<Rightarrow> str \<Rightarrow> analysis_limits \<Rightarrow> analyzed result" where
  "analyze env text limits =
     and_then (check_input env text limits) (\<lambda>_.
     and_then (profile_text env text (al_normalized_bytes limits) (budget_new (al_memory_bytes limits)))
       (\<lambda>((normalized, peak), budget).
     and_then (ok_or (Limit ''normalized bytes'') (u32_try_from (vec_len normalized))) (\<lambda>_.
     and_then (try_fold (analyze_word env limits) (vec_new, budget) (env_words env (elems normalized)))
       (\<lambda>(tokens, budget).
     Inr \<lparr>an_normalized = elems normalized, an_tokens = elems tokens,
          an_retained_bytes = mb_used budget, an_peak_bytes = max peak (mb_used budget)\<rparr>))))"

definition analyzed_profile :: "analyzed \<Rightarrow> u32" where
  "analyzed_profile self = PROFILE_ID"

definition analyzed_len :: "analyzed \<Rightarrow> u32" where
  "analyzed_len self = of_nat (length (an_tokens self))"

definition slice_range :: "str \<Rightarrow> token_range \<Rightarrow> str" where
  "slice_range t r = take (unat (tr_end r) - unat (tr_start r)) (drop (unat (tr_start r)) t)"

definition analyzed_token :: "analyzed \<Rightarrow> nat \<Rightarrow> token option" where
  "analyzed_token self index =
     (if index < length (an_tokens self)
      then Some \<lparr>tk_term = slice_range (an_normalized self) (an_tokens self ! index),
                 tk_position = of_nat index\<rparr>
      else None)"

definition analyzed_tokens :: "analyzed \<Rightarrow> token list" where
  "analyzed_tokens self =
     map (\<lambda>(index, r). \<lparr>tk_term = slice_range (an_normalized self) r, tk_position = of_nat index\<rparr>)
       (enumerate 0 (an_tokens self))"

section \<open>Lemmas\<close>

definition terms_of :: "analyzed \<Rightarrow> str list" where
  "terms_of a = map (slice_range (an_normalized a)) (an_tokens a)"

lemma analyzed_tokens_terms: "map tk_term (analyzed_tokens a) = terms_of a"
  by (simp add: analyzed_tokens_def terms_of_def enumerate_eq_zip case_prod_unfold comp_def
      flip: map_map[of _ snd, unfolded comp_def])

lemma length_analyzed_tokens [simp]: "length (analyzed_tokens a) = length (terms_of a)"
  by (simp add: analyzed_tokens_def terms_of_def)

lemma analyzed_token_terms:
  "analyzed_token a i = (if i < length (terms_of a) then Some \<lparr>tk_term = terms_of a ! i, tk_position = of_nat i\<rparr> else None)"
  by (simp add: analyzed_token_def terms_of_def)

lemma analyzed_token_nth: "i < length (terms_of a) \<Longrightarrow> analyzed_token a i = Some (analyzed_tokens a ! i)"
  by (simp add: analyzed_token_def analyzed_tokens_def terms_of_def nth_enumerate_eq)

lemma analyze_word_Inr:
  assumes "analyze_word env limits (v, b) x = Inr (v', b')" "budget_inv b" "vec_inv v" "alloc_ok (env_alloc env)"
  shows "elems v' = elems v @ [word_range x] \<and> length (snd x) \<le> al_term_bytes limits \<and> budget_inv b' \<and>
    vec_inv v' \<and> mb_limit b' = mb_limit b \<and> vec_len v' \<le> unat (al_tokens limits) \<and>
    mb_used b' + capacity v * env_size env ''TokenRange'' = mb_used b + capacity v' * env_size env ''TokenRange''"
proof -
  from assms(1) obtain v1 where
    w: "length (snd x) \<le> al_term_bytes limits"
    and r: "reserve (env_alloc env) (env_size env ''TokenRange'') v 1 (unat (al_tokens limits)) b = Inr (v1, b')"
    and v': "v' = vec_push v1 (word_range x)"
    by (auto simp: analyze_word_def res_simps simp del: One_nat_def split: if_splits)
  note q = reserve_Inr[OF r assms(2-4)]
  have "capacity v' = capacity v1" unfolding v' using q(1,2) by (intro vec_push_capacity) (simp add: vec_len_def)
  then show ?thesis using q w by (simp add: v' vec_len_def)
qed

lemma analyze_words_Inr:
  "try_fold (analyze_word env limits) (v, b) ws = Inr (v', b') \<Longrightarrow> budget_inv b \<Longrightarrow> vec_inv v \<Longrightarrow>
    alloc_ok (env_alloc env) \<Longrightarrow> vec_len v \<le> unat (al_tokens limits) \<Longrightarrow>
    elems v' = elems v @ map word_range ws \<and>
    budget_inv b' \<and> vec_inv v' \<and> mb_limit b' = mb_limit b \<and> vec_len v' \<le> unat (al_tokens limits) \<and>
    (\<forall>(s, w) \<in> set ws. length w \<le> al_term_bytes limits) \<and>
    mb_used b' + capacity v * env_size env ''TokenRange'' = mb_used b + capacity v' * env_size env ''TokenRange''"
proof (induction ws arbitrary: v b)
  case (Cons x ws)
  from Cons.prems(1) obtain v1 b1 where e: "analyze_word env limits (v, b) x = Inr (v1, b1)"
    and t: "try_fold (analyze_word env limits) (v1, b1) ws = Inr (v', b')"
    by (auto simp: res_simps)
  note q = analyze_word_Inr[OF e Cons.prems(2-4)]
  have "vec_len v1 \<le> unat (al_tokens limits)" using q by blast
  from Cons.IH[OF t _ _ Cons.prems(4) this] q show ?case by (auto simp: case_prod_unfold)
qed auto

text \<open>The ranges of words that are slices of the text select these words.\<close>

lemma slice_word:
  assumes "take (length w) (drop s t) = w" "length t < 2 ^ 32"
  shows "slice_range t (word_range (s, w)) = w"
proof (cases "w = []")
  case True
  then show ?thesis by (simp add: slice_range_def word_range_def)
next
  case False
  then have "length w \<le> length t - s" "s < length t"
    using assms(1) by (metis length_drop length_take min.absorb_iff1 min.commute,
      metis append_take_drop_id drop_all leI list.size(3) take_Nil)
  then have "unat (of_nat s :: u32) = s" "unat (of_nat (s + length w) :: u32) = s + length w"
    using assms(2) by (intro unat_u32_of_nat, simp)+
  then show ?thesis using assms(1) unfolding slice_range_def word_range_def by simp
qed

lemma analyze_word_ranges:
  assumes a: "analyze env text limits = Inr doc" and ok: "alloc_ok (env_alloc env)"
  shows "an_tokens doc = map word_range (env_words env (an_normalized doc))"
proof -
  from a obtain norm peak b tokens b' where
    p: "profile_text env text (al_normalized_bytes limits) (budget_new (al_memory_bytes limits)) = Inr ((norm, peak), b)"
    and f: "try_fold (analyze_word env limits) (vec_new, b) (env_words env (elems norm)) = Inr (tokens, b')"
    and doc: "an_normalized doc = elems norm" "an_tokens doc = elems tokens"
    by (auto simp: analyze_def res_simps)
  show ?thesis using analyze_words_Inr[OF f profile_text_charges(1)[OF p ok budget_new_inv] _ ok] doc by auto
qed

lemma analyze_Inr:
  assumes a: "analyze env text limits = Inr doc" and ok: "alloc_ok (env_alloc env)" "words_ok env"
  shows "terms_of doc = map snd (env_words env (an_normalized doc))"
    "\<forall>w \<in> set (terms_of doc). length w \<le> al_term_bytes limits"
    "length (terms_of doc) \<le> unat (al_tokens limits)"
    "length (an_normalized doc) < 2 ^ 32" "utf8_valid (an_normalized doc)"
    "an_retained_bytes doc \<le> al_memory_bytes limits"
proof -
  from a obtain norm peak b tokens b' where
    p: "profile_text env text (al_normalized_bytes limits) (budget_new (al_memory_bytes limits)) = Inr ((norm, peak), b)"
    and n: "length (elems norm) < 2 ^ 32"
    and f: "try_fold (analyze_word env limits) (vec_new, b) (env_words env (elems norm)) = Inr (tokens, b')"
    and doc: "an_normalized doc = elems norm" "an_tokens doc = elems tokens" "an_retained_bytes doc = mb_used b'"
    by (auto simp: analyze_def res_simps u32_try_from_def vec_len_def split: if_splits)
  note c = profile_text_charges[OF p ok(1) budget_new_inv]
  have w: "elems tokens = map word_range (env_words env (elems norm)) \<and>
      budget_inv b' \<and> mb_limit b' = mb_limit b \<and> vec_len tokens \<le> unat (al_tokens limits) \<and>
      (\<forall>(s, w) \<in> set (env_words env (elems norm)). length w \<le> al_term_bytes limits)"
    using analyze_words_Inr[OF f c(1) _ ok(1)] by auto
  have "slice_range (elems norm) (word_range (s, w)) = w"
    if "(s, w) \<in> set (env_words env (elems norm))" for s w
    using that ok(2) n by (intro slice_word) (auto simp: words_ok_def)
  then show t: "terms_of doc = map snd (env_words env (an_normalized doc))"
    using w by (auto simp: terms_of_def doc)
  show "\<forall>w \<in> set (terms_of doc). length w \<le> al_term_bytes limits" using w by (auto simp: t doc)
  show "length (terms_of doc) \<le> unat (al_tokens limits)" using w by (auto simp: terms_of_def doc vec_len_def)
  show "length (an_normalized doc) < 2 ^ 32" "utf8_valid (an_normalized doc)" using n c doc by auto
  show "an_retained_bytes doc \<le> al_memory_bytes limits"
    using w c(2) doc by (auto simp: budget_inv_def budget_new_def)
qed

text \<open>A word that is a non-empty slice ends in the text, and so does its range.\<close>

lemma word_range_inside:
  assumes "take (length w) (drop s t) = w" "length t < 2 ^ 32" "slice_range t (word_range (s, w)) \<noteq> []"
  shows "tr_start (word_range (s, w)) < tr_end (word_range (s, w)) \<and> unat (tr_end (word_range (s, w))) \<le> length t"
proof -
  have w: "w \<noteq> []" using assms slice_word by metis
  then have l: "length w \<le> length t - s" "s < length t"
    using assms(1) by (metis length_drop length_take min.absorb_iff1 min.commute,
      metis append_take_drop_id drop_all leI list.size(3) take_Nil)
  then have u: "unat (of_nat s :: u32) = s" "unat (of_nat (s + length w) :: u32) = s + length w"
    using assms(2) by (intro unat_u32_of_nat, simp)+
  show ?thesis using u l w unfolding word_range_def by (simp add: word_less_nat_alt)
qed

lemma analyze_ranges:
  assumes "analyze env text limits = Inr doc" "alloc_ok (env_alloc env)" "words_ok env"
  shows "\<forall>r \<in> set (an_tokens doc). slice_range (an_normalized doc) r \<noteq> [] \<longrightarrow>
    tr_start r < tr_end r \<and> unat (tr_end r) \<le> length (an_normalized doc)"
proof -
  have t: "an_tokens doc = map word_range (env_words env (an_normalized doc))" using analyze_word_ranges[OF assms(1,2)] .
  show ?thesis
  proof (intro ballI impI)
    fix r
    assume r: "r \<in> set (an_tokens doc)" "slice_range (an_normalized doc) r \<noteq> []"
    then obtain s w where w: "(s, w) \<in> set (env_words env (an_normalized doc))" "r = word_range (s, w)" using t by auto
    then have "take (length w) (drop s (an_normalized doc)) = w" using assms(3) by (auto simp: words_ok_def)
    then show "tr_start r < tr_end r \<and> unat (tr_end r) \<le> length (an_normalized doc)"
      using word_range_inside analyze_Inr(4)[OF assms] r(2) w(2) by blast
  qed
qed

lemma profile_text_ascii:
  "is_ascii text \<Longrightarrow> profile_text env text limit b = Inr ((bytes, peak), b') \<Longrightarrow>
    elems bytes = map to_ascii_lowercase text \<and> length text \<le> limit"
  by (auto simp: profile_text_def res_simps Let_def from_utf8_def split: if_splits dest!: reserve_elems)

lemma analyze_ascii:
  assumes "analyze env text limits = Inr doc" "is_ascii text"
  shows "an_normalized doc = map to_ascii_lowercase text"
  using assms profile_text_ascii[OF assms(2)] by (auto simp: analyze_def res_simps)

text \<open>What every successful analysis has passed, for the gates that rechecks share with it.\<close>

lemma analyze_gates:
  assumes "analyze env text limits = Inr doc"
  shows "check_input env text limits = Inr ()"
    "\<exists>norm peak b. profile_text env text (al_normalized_bytes limits) (budget_new (al_memory_bytes limits)) =
      Inr ((norm, peak), b) \<and> an_normalized doc = elems norm \<and> vec_len norm < 2 ^ 32"
  using assms by (auto simp: analyze_def res_simps u32_try_from_def vec_len_def split: if_splits)

section \<open>Properties\<close>

text \<open>C16: the tokens of an analysed document are the words of its normalised text, numbered in order;
  every token and the token count respect the caller's limits, the stored range of every non-empty
  token lies in the normalised text and ends after its start, the text is valid UTF-8, and the retained
  memory fits the memory limit. It is assumed that the allocator grants what it is asked for and that
  word segmentation yields slices.\<close>

theorem analyze_tokens:
  assumes "analyze env text limits = Inr doc" "alloc_ok (env_alloc env)" "words_ok env"
  shows "map tk_term (analyzed_tokens doc) = map snd (env_words env (an_normalized doc)) \<and>
    (\<forall>i < length (analyzed_tokens doc). analyzed_token doc i = Some (analyzed_tokens doc ! i) \<and>
       unat (tk_position (analyzed_tokens doc ! i)) = i \<and>
       length (tk_term (analyzed_tokens doc ! i)) \<le> al_term_bytes limits) \<and>
    length (analyzed_tokens doc) \<le> unat (al_tokens limits) \<and>
    unat (analyzed_len doc) = length (analyzed_tokens doc) \<and>
    (\<forall>r \<in> set (an_tokens doc). slice_range (an_normalized doc) r \<noteq> [] \<longrightarrow>
       tr_start r < tr_end r \<and> unat (tr_end r) \<le> length (an_normalized doc)) \<and>
    utf8_valid (an_normalized doc) \<and> an_retained_bytes doc \<le> al_memory_bytes limits"
proof -
  note a = analyze_Inr[OF assms]
  have n: "length (terms_of doc) < 2 ^ 32" using a(3) unat_lt2p[of "al_tokens limits"] by simp
  have tok: "analyzed_token doc i = Some (analyzed_tokens doc ! i) \<and>
      unat (tk_position (analyzed_tokens doc ! i)) = i \<and>
      length (tk_term (analyzed_tokens doc ! i)) \<le> al_term_bytes limits" if i: "i < length (terms_of doc)" for i
  proof -
    have e: "analyzed_tokens doc ! i = \<lparr>tk_term = terms_of doc ! i, tk_position = of_nat i\<rparr>"
      using i by (simp add: analyzed_tokens_def terms_of_def nth_enumerate_eq)
    have "unat (of_nat i :: u32) = i" using i n by (intro unat_u32_of_nat) simp
    then show ?thesis using a(2) i by (simp add: e analyzed_token_terms)
  qed
  have "unat (analyzed_len doc) = length (terms_of doc)"
    using n by (simp add: analyzed_len_def terms_of_def unat_u32_of_nat)
  then show ?thesis using a tok analyze_ranges[OF assms] by (simp add: analyzed_tokens_terms)
qed

theorem analyze_tokens_witness:
  "\<exists>doc. analyze plain_env [0x41, 0x20, 0x62] analysis_limits_default = Inr doc \<and>
     map tk_term (analyzed_tokens doc) = [[0x61], [0x62]] \<and> length (analyzed_tokens doc) \<le> 262144 \<and>
     (\<forall>r \<in> set (an_tokens doc). slice_range (an_normalized doc) r \<noteq> [] \<longrightarrow> unat (tr_end r) \<le> length (an_normalized doc))"
proof -
  have r: "analyze plain_env [0x41, 0x20, 0x62] analysis_limits_default =
      Inr \<lparr>an_normalized = [0x61, 0x20, 0x62],
        an_tokens = [\<lparr>tr_start = 0, tr_end = 1\<rparr>, \<lparr>tr_start = 2, tr_end = 3\<rparr>],
        an_retained_bytes = 19, an_peak_bytes = 19\<rparr>"
    by code_simp
  have t: "map tk_term (analyzed_tokens doc) = [[0x61], [0x62]]" if "analyze plain_env [0x41, 0x20, 0x62] analysis_limits_default = Inr doc" for doc
    using that r by (auto simp: analyzed_tokens_def slice_range_def)
  from analyze_tokens[OF r plain_env_ok(1,2)] r t[OF r] show ?thesis
    by (intro exI[of _ "\<lparr>an_normalized = [0x61, 0x20, 0x62], an_tokens = [\<lparr>tr_start = 0, tr_end = 1\<rparr>, \<lparr>tr_start = 2, tr_end = 3\<rparr>],
        an_retained_bytes = 19, an_peak_bytes = 19\<rparr>"]) (simp add: analysis_limits_default_def)
qed

end
