(* ===== verification/Query.thy ===== *)
theory Query
  imports Analysis Records
begin

text \<open>
  Queries (crates/pin-core/src/query.rs): the bounded operator-precedence parser into a flat tree
  and the versioned codec of the source text. A \<open>String\<close> inside a node is its bytes; the loops of
  the parser are functions whose measures are the unread input and the operator stack.
\<close>

section \<open>Data\<close>

record query_limits =
  ql_bytes :: nat
  ql_nodes :: nat
  ql_depth :: u16
  ql_terms :: nat
  ql_term_bytes :: nat
  ql_memory_bytes :: nat

definition query_limits_default :: query_limits where
  "query_limits_default = \<lparr>ql_bytes = 16384, ql_nodes = 1024, ql_depth = 64, ql_terms = 256,
     ql_term_bytes = 1024, ql_memory_bytes = 2 ^ 20\<rparr>"

datatype kind =
    KNone
  | KTerm str
  | KPrefix str
  | KPhrase "str list"
  | KNot nat
  | KAnd nat nat
  | KOr nat nat

record node =
  nd_kind :: kind
  nd_depth :: u16

record query =
  q_nodes :: "node list"
  q_root :: nat
  q_source :: str
  q_terms :: nat
  q_retained_bytes :: nat

datatype operator_kind = OpOpen | OpNot | OpAnd | OpOr

record operator =
  op_kind :: operator_kind
  op_offset :: nat

fun precedence :: "operator_kind \<Rightarrow> u8" where
  "precedence OpOpen = 0"
| "precedence OpOr = 1"
| "precedence OpAnd = 2"
| "precedence OpNot = 3"

record builder =
  bl_limits :: query_limits
  bl_budget :: memory_budget
  bl_nodes :: "node vec"
  bl_values :: "nat vec"
  bl_operators :: "operator vec"
  bl_terms :: nat

text \<open>\<open>Vec::pop\<close>.\<close>

definition vec_pop :: "'a vec \<Rightarrow> ('a \<times> 'a vec) option" where
  "vec_pop v = (if elems v = [] then None else Some (last (elems v), v\<lparr>elems := butlast (elems v)\<rparr>))"

section \<open>The builder\<close>

definition node_depth :: "node list \<Rightarrow> kind \<Rightarrow> u16 option" where
  "node_depth nodes kind =
     (case kind of
        KNot child \<Rightarrow> checked_add_w (nd_depth (nodes ! child)) 1
      | KAnd left right \<Rightarrow> checked_add_w (max (nd_depth (nodes ! left)) (nd_depth (nodes ! right))) 1
      | KOr left right \<Rightarrow> checked_add_w (max (nd_depth (nodes ! left)) (nd_depth (nodes ! right))) 1
      | _ \<Rightarrow> Some 1)"

definition add_node :: "env \<Rightarrow> builder \<Rightarrow> kind \<Rightarrow> builder result" where
  "add_node env self kind =
     and_then (ok_or (Limit ''query depth'') (node_depth (elems (bl_nodes self)) kind)) (\<lambda>depth.
     if depth > ql_depth (bl_limits self) then Inl (Limit ''query depth'') else
     and_then (reserve (env_alloc env) (env_size env ''Node'') (bl_nodes self) 1
       (ql_nodes (bl_limits self)) (bl_budget self)) (\<lambda>(nodes, budget).
     and_then (reserve (env_alloc env) (env_size env ''usize'') (bl_values self) 1
       (ql_nodes (bl_limits self)) budget) (\<lambda>(values, budget).
     Inr (self\<lparr>bl_budget := budget, bl_values := vec_push values (vec_len nodes),
               bl_nodes := vec_push nodes \<lparr>nd_kind = kind, nd_depth = depth\<rparr>\<rparr>))))"

definition reduce :: "env \<Rightarrow> builder \<Rightarrow> operator \<Rightarrow> builder result" where
  "reduce env self operator =
     (let error = QuerySyntax (op_offset operator) in
      and_then (ok_or error (vec_pop (bl_values self))) (\<lambda>(right, values).
      case op_kind operator of
        OpNot \<Rightarrow> add_node env (self\<lparr>bl_values := values\<rparr>) (KNot right)
      | OpAnd \<Rightarrow> and_then (ok_or error (vec_pop values)) (\<lambda>(left, values).
          add_node env (self\<lparr>bl_values := values\<rparr>) (KAnd left right))
      | OpOr \<Rightarrow> and_then (ok_or error (vec_pop values)) (\<lambda>(left, values).
          add_node env (self\<lparr>bl_values := values\<rparr>) (KOr left right))
      | OpOpen \<Rightarrow> Inl error))"

lemma vec_pop_Some:
  "vec_pop v = Some (x, w) \<longleftrightarrow> (\<exists>xs. elems v = xs @ [x] \<and> w = v\<lparr>elems := xs\<rparr>)"
  by (auto simp: vec_pop_def split: if_splits) (metis append_butlast_last_id)

lemma vec_pop_None [simp]: "vec_pop v = None \<longleftrightarrow> elems v = []"
  by (simp add: vec_pop_def)

lemma add_node_operators: "add_node env self kind = Inr self' \<Longrightarrow> bl_operators self' = bl_operators self"
  by (auto simp: add_node_def res_simps split: if_splits)

lemma reduce_operators: "reduce env self operator = Inr self' \<Longrightarrow> bl_operators self' = bl_operators self"
  by (cases "op_kind operator") (auto simp: reduce_def Let_def res_simps dest!: add_node_operators)

text \<open>The \<open>while\<close> loop of \<open>operator\<close>: reduce while the top of the stack binds at least as tightly.\<close>

function operator_loop :: "env \<Rightarrow> operator \<Rightarrow> builder \<Rightarrow> builder result" where
  "operator_loop env operator self =
     (case vec_pop (bl_operators self) of
        None \<Rightarrow> Inr self
      | Some (top_op, operators) \<Rightarrow>
          if precedence (op_kind top_op) \<ge> precedence (op_kind operator)
          then and_then (reduce env (self\<lparr>bl_operators := operators\<rparr>) top_op) (\<lambda>self.
            operator_loop env operator self)
          else Inr self)"
  by pat_completeness auto
termination
  by (relation "measure (\<lambda>(env, operator, self). vec_len (bl_operators self))")
    (auto simp: vec_pop_Some vec_len_def dest!: reduce_operators)

declare operator_loop.simps [simp del]

definition builder_operator :: "env \<Rightarrow> builder \<Rightarrow> operator \<Rightarrow> builder result" where
  "builder_operator env self operator =
     and_then (if op_kind operator = OpAnd \<or> op_kind operator = OpOr then operator_loop env operator self
               else Inr self) (\<lambda>self.
     and_then (reserve (env_alloc env) (env_size env ''Operator'') (bl_operators self) 1
       (ql_nodes (bl_limits self)) (bl_budget self)) (\<lambda>(operators, budget).
     Inr (self\<lparr>bl_budget := budget, bl_operators := vec_push operators operator\<rparr>)))"

function builder_close :: "env \<Rightarrow> nat \<Rightarrow> builder \<Rightarrow> builder result" where
  "builder_close env offset self =
     (case vec_pop (bl_operators self) of
        None \<Rightarrow> Inl (QuerySyntax offset)
      | Some (operator, operators) \<Rightarrow>
          let self = self\<lparr>bl_operators := operators\<rparr> in
          if op_kind operator = OpOpen then Inr self
          else and_then (reduce env self operator) (\<lambda>self. builder_close env offset self))"
  by pat_completeness auto
termination
  by (relation "measure (\<lambda>(env, offset, self). vec_len (bl_operators self))")
    (auto simp: vec_pop_Some vec_len_def dest!: reduce_operators)

declare builder_close.simps [simp del]

text \<open>The terms of a phrase, each copied on the builder's budget.\<close>

definition copy_terms :: "env \<Rightarrow> str list \<Rightarrow> memory_budget \<Rightarrow> (str list \<times> memory_budget) result" where
  "copy_terms env terms budget =
     and_then (vector (env_alloc env) (env_size env ''String'') (length terms) budget) (\<lambda>(out :: str vec, budget).
     and_then (try_fold (\<lambda>(out, budget) term.
         and_then (copy_text (env_alloc env) term budget) (\<lambda>(text, budget). Inr (vec_push out (elems text), budget)))
       (out, budget) terms) (\<lambda>(out, budget). Inr (elems out, budget)))"

definition literal_kind ::
  "env \<Rightarrow> bool \<Rightarrow> bool \<Rightarrow> nat \<Rightarrow> analyzed \<Rightarrow> memory_budget \<Rightarrow> (kind \<times> memory_budget) result" where
  "literal_kind env quoted prefix offset analyzed budget =
     (if quoted then
        if unat (analyzed_len analyzed) = 0 then Inr (KNone, budget)
        else and_then (copy_terms env (map tk_term (analyzed_tokens analyzed)) budget) (\<lambda>(terms, budget).
          Inr (KPhrase terms, budget))
      else
        and_then (ok_or (QuerySyntax offset) (analyzed_token analyzed 0)) (\<lambda>token.
        and_then (copy_text (env_alloc env) (tk_term token) budget) (\<lambda>(term, budget).
          Inr (if prefix then KPrefix (elems term) else KTerm (elems term), budget))))"

definition literal :: "env \<Rightarrow> builder \<Rightarrow> str \<Rightarrow> bool \<Rightarrow> bool \<Rightarrow> nat \<Rightarrow> builder result" where
  "literal env self text quoted prefix offset =
     and_then (ok_or (Limit ''query bytes'') (checked_mul (ql_bytes (bl_limits self)) 4)) (\<lambda>normalized_bytes.
     and_then (ok_or (Limit ''query terms'') (u32_try_from (ql_terms (bl_limits self)))) (\<lambda>tokens.
     and_then (analyze env text
       \<lparr>al_input_bytes = ql_bytes (bl_limits self), al_normalized_bytes = normalized_bytes, al_tokens = tokens,
        al_term_bytes = ql_term_bytes (bl_limits self), al_memory_bytes = budget_remaining (bl_budget self)\<rparr>)
       (\<lambda>analyzed.
     let count = unat (analyzed_len analyzed) in
     if \<not> quoted \<and> count \<noteq> 1 then Inl (QuerySyntax offset) else
     and_then (ok_or (Limit ''query terms'') (checked_add (bl_terms self) count)) (\<lambda>terms.
     if terms > ql_terms (bl_limits self) then Inl (Limit ''query terms'') else
     let bytes = an_retained_bytes analyzed in
     and_then (from_budget (budget_charge (bl_budget self) bytes)) (\<lambda>budget.
     and_then (literal_kind env quoted prefix offset analyzed budget) (\<lambda>(kind, budget).
     and_then (from_budget (budget_release budget bytes)) (\<lambda>budget.
     add_node env (self\<lparr>bl_budget := budget, bl_terms := terms\<rparr>) kind)))))))"

section \<open>Lexing\<close>

definition is_ascii_whitespace :: "u8 \<Rightarrow> bool" where
  "is_ascii_whitespace b \<longleftrightarrow> b = 0x20 \<or> b = 0x09 \<or> b = 0x0A \<or> b = 0x0C \<or> b = 0x0D"

text \<open>The loop of \<open>quoted\<close>, from the cursor behind the opening quotation mark at \<open>from\<close>. The next scalar
  of valid UTF-8 has the length its first byte announces.\<close>

function quoted_loop ::
  "env \<Rightarrow> str \<Rightarrow> nat \<Rightarrow> nat \<Rightarrow> nat \<Rightarrow> u8 vec \<Rightarrow> memory_budget \<Rightarrow> (u8 vec \<times> nat \<times> memory_budget) result" where
  "quoted_loop env input from limit cursor bytes budget =
     (if cursor < length input then
        let byte = input ! cursor in
        if byte = 0x22 then
          and_then (from_utf8 InvalidDocument (elems bytes)) (\<lambda>_. Inr (bytes, cursor + 1, budget))
        else if byte = 0x5C then
          (if cursor + 1 < length input then
             let nxt = input ! (cursor + 1) in
             if nxt \<noteq> 0x22 \<and> nxt \<noteq> 0x5C then Inl (QuerySyntax (cursor + 1))
             else and_then (reserve (env_alloc env) 1 bytes 1 limit budget) (\<lambda>(bytes, budget).
               quoted_loop env input from limit (cursor + 2) (vec_push bytes nxt) budget)
           else Inl (QuerySyntax from))
        else
          let len = utf8_len byte in
          and_then (reserve (env_alloc env) 1 bytes len limit budget) (\<lambda>(bytes, budget).
            quoted_loop env input from limit (cursor + len)
              (vec_extend bytes (take len (drop cursor input))) budget)
      else Inl (QuerySyntax from))"
  by pat_completeness auto

lemma utf8_len_pos [simp]: "0 < utf8_len b"
  by (simp add: utf8_len_def)

termination quoted_loop
  by (relation "measure (\<lambda>(env, input, from, limit, cursor, bytes, budget). length input - cursor)")
    (use utf8_len_pos in \<open>auto intro!: diff_less_mono2\<close>)

declare quoted_loop.simps [simp del]

definition quoted ::
  "env \<Rightarrow> str \<Rightarrow> nat \<Rightarrow> nat \<Rightarrow> memory_budget \<Rightarrow> (u8 vec \<times> nat \<times> memory_budget) result" where
  "quoted env input cursor limit budget = quoted_loop env input cursor limit (cursor + 1) vec_new budget"

definition word_byte :: "u8 \<Rightarrow> bool" where
  "word_byte b \<longleftrightarrow> \<not> (is_ascii_whitespace b \<or> b = 0x28 \<or> b = 0x29 \<or> b = 0x22)"

text \<open>The match on \<open>"NOT"\<close>, \<open>"AND"\<close> and \<open>"OR"\<close>.\<close>

definition operator_word :: "str \<Rightarrow> operator_kind option" where
  "operator_word raw =
     (if raw = [0x4E, 0x4F, 0x54] then Some OpNot else if raw = [0x41, 0x4E, 0x44] then Some OpAnd
      else if raw = [0x4F, 0x52] then Some OpOr else None)"

text \<open>\<open>strip_suffix('*')\<close>.\<close>

definition strip_star :: "str \<Rightarrow> str \<times> bool" where
  "strip_star raw = (if raw \<noteq> [] \<and> last raw = 0x2A then (butlast raw, True) else (raw, False))"

section \<open>Parsing\<close>

record parser =
  ps_cursor :: nat
  ps_need_operand :: bool
  ps_parentheses :: u16
  ps_builder :: builder

text \<open>A word: an operator, or a term or prefix.\<close>

definition parse_word :: "env \<Rightarrow> str \<Rightarrow> parser \<Rightarrow> parser result" where
  "parse_word env input st =
     (let offset = ps_cursor st;
          raw = takeWhile word_byte (drop offset input);
          st = st\<lparr>ps_cursor := offset + length raw\<rparr> in
      case operator_word raw of
        Some kind \<Rightarrow>
          if (kind = OpNot) \<noteq> ps_need_operand st then Inl (QuerySyntax offset)
          else and_then (builder_operator env (ps_builder st) \<lparr>op_kind = kind, op_offset = offset\<rparr>) (\<lambda>builder.
            Inr (st\<lparr>ps_builder := builder, ps_need_operand := True\<rparr>))
      | None \<Rightarrow>
          if \<not> ps_need_operand st then Inl (QuerySyntax offset)
          else let (text, prefix) = strip_star raw in
            if text = [] \<or> 0x2A \<in> set text \<or> 0x5C \<in> set text then Inl (QuerySyntax offset)
            else and_then (literal env (ps_builder st) text False prefix offset) (\<lambda>builder.
              Inr (st\<lparr>ps_builder := builder, ps_need_operand := False\<rparr>)))"

text \<open>One pass through the body of the main loop.\<close>

definition parse_step :: "env \<Rightarrow> str \<Rightarrow> query_limits \<Rightarrow> parser \<Rightarrow> parser result" where
  "parse_step env input limits st =
     (let offset = ps_cursor st; byte = input ! offset in
      if is_ascii_whitespace byte then Inr (st\<lparr>ps_cursor := offset + 1\<rparr>)
      else if byte = 0x28 then
        if \<not> ps_need_operand st then Inl (QuerySyntax offset) else
        and_then (ok_or (Limit ''query depth'') (checked_add_w (ps_parentheses st) 1)) (\<lambda>parentheses.
        if parentheses > ql_depth limits then Inl (Limit ''query depth'') else
        and_then (builder_operator env (ps_builder st) \<lparr>op_kind = OpOpen, op_offset = offset\<rparr>) (\<lambda>builder.
          Inr (st\<lparr>ps_parentheses := parentheses, ps_builder := builder, ps_cursor := offset + 1\<rparr>)))
      else if byte = 0x29 then
        if ps_need_operand st then Inl (QuerySyntax offset) else
        and_then (builder_close env offset (ps_builder st)) (\<lambda>builder.
        and_then (ok_or (QuerySyntax offset) (checked_sub_w (ps_parentheses st) 1)) (\<lambda>parentheses.
          Inr (st\<lparr>ps_parentheses := parentheses, ps_builder := builder, ps_cursor := offset + 1\<rparr>)))
      else if byte = 0x22 then
        if \<not> ps_need_operand st then Inl (QuerySyntax offset) else
        and_then (quoted env input offset (ql_bytes limits) (bl_budget (ps_builder st))) (\<lambda>(text, cursor, budget).
        and_then (literal env ((ps_builder st)\<lparr>bl_budget := budget\<rparr>) (elems text) True False offset) (\<lambda>builder.
        and_then (from_budget (budget_release (bl_budget builder) (capacity text))) (\<lambda>budget.
          Inr (st\<lparr>ps_builder := builder\<lparr>bl_budget := budget\<rparr>, ps_cursor := cursor, ps_need_operand := False\<rparr>))))
      else parse_word env input st)"

lemma quoted_loop_cursor:
  "quoted_loop env input from limit cursor bytes budget = Inr (text, cursor', budget') \<Longrightarrow>
    cursor < cursor' \<and> cursor' \<le> length input"
proof (induction env input "from" limit cursor bytes budget rule: quoted_loop.induct)
  case (1 env input "from" limit cursor bytes budget)
  note q = 1(3)[unfolded quoted_loop.simps[of env input "from" limit cursor bytes budget]]
  have lt: "cursor < length input" using q by (auto split: if_splits)
  show ?case
  proof (cases "input ! cursor = 0x22")
    case True
    then show ?thesis using q lt by (auto simp: res_simps Let_def)
  next
    case False
    show ?thesis
    proof (cases "input ! cursor = 0x5C")
      case True
      then show ?thesis using q lt 1(1)[OF lt refl False True] False
        by (fastforce simp: res_simps Let_def split: if_splits)
    next
      case False2: False
      then show ?thesis using q lt 1(2)[OF lt refl False False2 refl] False
        by (fastforce simp: res_simps Let_def split: if_splits)
    qed
  qed
qed

lemma parse_word_cursor:
  assumes "parse_word env input st = Inr st'" "ps_cursor st < length input" "word_byte (input ! ps_cursor st)"
  shows "ps_cursor st < ps_cursor st'" "ps_cursor st' \<le> length input"
proof -
  let ?raw = "takeWhile word_byte (drop (ps_cursor st) input)"
  have c: "ps_cursor st' = ps_cursor st + length ?raw"
    using assms(1) by (auto simp: parse_word_def Let_def res_simps split: option.splits if_splits prod.splits)
  have "?raw \<noteq> []" using assms(2,3) by (simp add: Cons_nth_drop_Suc[symmetric])
  then show "ps_cursor st < ps_cursor st'" by (simp add: c)
  show "ps_cursor st' \<le> length input" using length_takeWhile_le[of word_byte "drop (ps_cursor st) input"] assms(2)
    unfolding c by simp
qed

lemma parse_step_cursor:
  assumes s: "parse_step env input limits st = Inr st'" and c: "ps_cursor st < length input"
  shows "ps_cursor st < ps_cursor st' \<and> ps_cursor st' \<le> length input"
proof (cases "word_byte (input ! ps_cursor st)")
  case True
  then have "parse_word env input st = Inr st'"
    using s by (simp add: parse_step_def Let_def word_byte_def)
  from parse_word_cursor[OF this c True] show ?thesis by simp
next
  case False
  then consider "is_ascii_whitespace (input ! ps_cursor st)" | "input ! ps_cursor st = 0x28"
    | "input ! ps_cursor st = 0x29" | "input ! ps_cursor st = 0x22" by (auto simp: word_byte_def)
  then show ?thesis
    using s c
    by cases (auto simp: parse_step_def Let_def res_simps is_ascii_whitespace_def quoted_def
        dest!: quoted_loop_cursor split: if_splits)
qed

function parse_loop :: "env \<Rightarrow> str \<Rightarrow> query_limits \<Rightarrow> parser \<Rightarrow> parser result" where
  "parse_loop env input limits st =
     (if ps_cursor st < length input
      then and_then (parse_step env input limits st) (\<lambda>st. parse_loop env input limits st)
      else Inr st)"
  by pat_completeness auto
termination
  by (relation "measure (\<lambda>(env, input, limits, st). length input - ps_cursor st)")
    (auto dest!: parse_step_cursor)

declare parse_loop.simps [simp del]

text \<open>The final \<open>while let\<close> loop: reduce what is left on the operator stack.\<close>

function reduce_all :: "env \<Rightarrow> builder \<Rightarrow> builder result" where
  "reduce_all env self =
     (case vec_pop (bl_operators self) of
        None \<Rightarrow> Inr self
      | Some (operator, operators) \<Rightarrow>
          and_then (reduce env (self\<lparr>bl_operators := operators\<rparr>) operator) (\<lambda>self. reduce_all env self))"
  by pat_completeness auto
termination
  by (relation "measure (\<lambda>(env, self). vec_len (bl_operators self))")
    (auto simp: vec_pop_Some vec_len_def dest!: reduce_operators)

declare reduce_all.simps [simp del]

definition builder_new :: "query_limits \<Rightarrow> builder" where
  "builder_new limits = \<lparr>bl_limits = limits, bl_budget = budget_new (ql_memory_bytes limits),
     bl_nodes = vec_new, bl_values = vec_new, bl_operators = vec_new, bl_terms = 0\<rparr>"

text \<open>From the end of the input to the query.\<close>

definition parse_finish :: "env \<Rightarrow> str \<Rightarrow> parser \<Rightarrow> query result" where
  "parse_finish env input st =
     (let builder = ps_builder st in
      and_then
        (if elems (bl_nodes builder) = [] \<and> elems (bl_operators builder) = [] then add_node env builder KNone
         else if ps_need_operand st then Inl (QuerySyntax (length input))
         else Inr builder) (\<lambda>builder.
      and_then (reduce_all env builder) (\<lambda>builder.
      if vec_len (bl_values builder) \<noteq> 1 \<or> ps_parentheses st \<noteq> 0 then Inl (QuerySyntax (length input)) else
      let root = elems (bl_values builder) ! 0;
          scratch = capacity (bl_values builder) * env_size env ''usize'' +
                    capacity (bl_operators builder) * env_size env ''Operator'' in
      and_then (from_budget (budget_release (bl_budget builder) scratch)) (\<lambda>budget.
      and_then (copy_text (env_alloc env) input budget) (\<lambda>(source, budget).
      Inr \<lparr>q_nodes = elems (bl_nodes builder), q_root = root, q_source = elems source,
           q_terms = bl_terms builder, q_retained_bytes = mb_used budget\<rparr>)))))"

definition query_parse :: "env \<Rightarrow> str \<Rightarrow> query_limits \<Rightarrow> query result" where
  "query_parse env input limits =
     (if length input > ql_bytes limits then Inl (Limit ''query bytes'')
      else and_then (parse_loop env input limits
        \<lparr>ps_cursor = 0, ps_need_operand = True, ps_parentheses = 0, ps_builder = builder_new limits\<rparr>)
        (\<lambda>st. parse_finish env input st))"

section \<open>The codec\<close>

definition query_profile :: "query \<Rightarrow> u32" where
  "query_profile self = PROFILE_ID"

definition query_node_count :: "query \<Rightarrow> nat" where
  "query_node_count self = length (q_nodes self)"

definition query_encode :: "query \<Rightarrow> bytes \<Rightarrow> nat \<Rightarrow> (nat \<times> bytes) result" where
  "query_encode self output max_bytes =
     and_then (ok_or (Limit ''query bytes'') (checked_add (length (q_source self)) 12)) (\<lambda>len.
     if (case checked_add len HEADER_BYTES of None \<Rightarrow> True | Some n \<Rightarrow> n > max_bytes)
     then Inl (Limit ''query bytes'') else
     and_then (ok_or (Limit ''query bytes'') (u32_try_from (length (q_source self)))) (\<lambda>text_len.
     from_codec (
       and_then (start output 5 len) (\<lambda>writer.
       and_then (writer_u32 writer PROFILE_ID) (\<lambda>writer.
       and_then (writer_u16 writer 1) (\<lambda>writer.
       and_then (writer_u16 writer 0) (\<lambda>writer.
       and_then (writer_u32 writer text_len) (\<lambda>writer.
       and_then (writer_put writer (q_source self)) (\<lambda>writer.
         Inr (wr_offset writer, wr_bytes writer))))))))))"

definition query_decode :: "env \<Rightarrow> bytes \<Rightarrow> query_limits \<Rightarrow> query result" where
  "query_decode env bs limits =
     and_then (ok_or (Limit ''query bytes'') (checked_add (ql_bytes limits) 28)) (\<lambda>max_bytes.
     and_then (from_codec (payload bs 5 max_bytes)) (\<lambda>body.
     and_then (from_codec (reader_u32 (reader_new body))) (\<lambda>(profile, reader).
     if profile \<noteq> PROFILE_ID then Inl InvalidProfile else
     and_then (from_codec (reader_u16 reader)) (\<lambda>(version, reader).
     if version \<noteq> 1 then Inl (Codec (CodecError 4 UnsupportedVersion)) else
     and_then (from_codec (reader_u16 reader)) (\<lambda>(z, reader).
     if z \<noteq> 0 then Inl (Codec (CodecError 6 NonCanonical)) else
     and_then (from_codec (reader_u32 reader)) (\<lambda>(len, reader).
     and_then (from_codec (reader_take reader (unat len))) (\<lambda>(text, reader).
     and_then (from_utf8 (Codec (CodecError 12 InvalidUtf8)) text) (\<lambda>text.
     and_then (from_codec (reader_finish reader)) (\<lambda>_.
     query_parse env text limits)))))))))"

section \<open>Properties of the codec\<close>

definition query_body :: "str \<Rightarrow> bytes" where
  "query_body source = le_bytes 4 PROFILE_ID @ le_bytes 2 (1 :: u16) @ le_bytes 2 (0 :: u16) @
     le_bytes 4 (of_nat (length source) :: u32) @ source"

lemma length_query_body [simp]: "length (query_body s) = 12 + length s"
  by (simp add: query_body_def)

lemma query_encode_eq:
  assumes l: "length (q_source q) + 12 < 2 ^ 32" "28 + length (q_source q) \<le> max_bytes"
    and out: "slice_ok output" "28 + length (q_source q) \<le> length output"
  shows "query_encode q output max_bytes =
    Inr (28 + length (q_source q), frame 5 (query_body (q_source q)) @ drop (28 + length (q_source q)) output)"
proof -
  let ?l = "length (q_source q)"
  have st: "start output 5 (?l + 12) = Inr (wr_append (writer_new output) (frame_header 5 (?l + 12)))"
    using l out by (intro start_eq) simp_all
  have c: "checked_add ?l 12 = Some (?l + 12)" "checked_add (?l + 12) HEADER_BYTES = Some (?l + 28)"
    "u32_try_from ?l = Some (of_nat ?l)"
    using l by (simp_all add: checked_add_def usize_max_def HEADER_BYTES_def u32_try_from_def)
  show ?thesis
    using l out by (simp add: query_encode_def c st[unfolded add.commute[of _ 12]] st codec_simps
        query_body_def frame_def ac_simps not_less)
qed

lemma query_decode_frame:
  assumes l: "length source + 12 < 2 ^ 32" "length source \<le> ql_bytes limits" "ql_bytes limits + 28 \<le> usize_max"
    and u: "utf8_valid source"
  shows "query_decode env (frame 5 (query_body source)) limits = query_parse env source limits"
proof -
  have p: "payload (frame 5 (query_body source)) 5 (ql_bytes limits + 28) = Inr (query_body source)"
    using l by (intro payload_frame) simp_all
  have "slice_ok (query_body source)" using l by (simp add: slice_ok_def)
  moreover have "unat (of_nat (length source) :: u32) = length source" using l by (intro unat_u32_of_nat) simp
  moreover have "checked_add (ql_bytes limits) 28 = Some (ql_bytes limits + 28)" using l by (simp add: checked_add_def)
  ultimately show ?thesis
    using u unfolding query_decode_def
    by (simp add: p) (simp add: codec_simps query_body_def from_utf8_def)
qed

lemma query_parse_source:
  assumes "query_parse env input limits = Inr q"
  shows "q_source q = input" "utf8_valid input" "length input \<le> ql_bytes limits"
  using assms
  by (auto simp: query_parse_def parse_finish_def copy_text_def from_utf8_def res_simps Let_def
      dest!: vector_elems split: if_splits)

text \<open>C12: a parsed query survives storage: it encodes into any buffer with room for its source and
  the 28 header bytes, the rest of the buffer is left alone, and decoding with the limits it
  was parsed with yields the same query, node for node.\<close>

theorem query_round_trip:
  assumes "query_parse env input limits = Inr q" "ql_bytes limits + 28 \<le> usize_max"
    and "length input + 12 < 2 ^ 32" "slice_ok output"
    and "28 + length input \<le> length output" "28 + length input \<le> max_bytes"
  shows "\<exists>out. query_encode q output max_bytes = Inr (28 + length input, out) \<and>
    drop (28 + length input) out = drop (28 + length input) output \<and>
    query_decode env (take (28 + length input) out) limits = Inr q"
  using query_encode_eq[of q max_bytes "output"] query_decode_frame[of input limits env]
    query_parse_source[OF assms(1)] assms by simp

theorem query_round_trip_witness:
  "\<exists>q out. query_parse plain_env [0x61] query_limits_default = Inr q \<and>
     query_encode q (replicate 40 0) 64 = Inr (29, out) \<and>
     query_decode plain_env (take 29 out) query_limits_default = Inr q"
proof -
  let ?q = "\<lparr>q_nodes = [\<lparr>nd_kind = KTerm [0x61], nd_depth = 1\<rparr>], q_root = 0, q_source = [0x61],
    q_terms = 1, q_retained_bytes = 10\<rparr>"
  have p: "query_parse plain_env [0x61] query_limits_default = Inr ?q" by code_simp
  have "\<exists>out. query_encode ?q (replicate 40 0) 64 = Inr (28 + length [0x61 :: u8], out) \<and>
      drop (28 + length [0x61 :: u8]) out = drop (28 + length [0x61 :: u8]) (replicate 40 0) \<and>
      query_decode plain_env (take (28 + length [0x61 :: u8]) out) query_limits_default = Inr ?q"
    by (rule query_round_trip[OF p]) (simp_all add: query_limits_default_def usize_max_def slice_ok_def)
  then show ?thesis using p by auto
qed

end
