(* ===== verification/QueryTree.thy ===== *)
theory QueryTree
  imports Query
begin

text \<open>
  What the parser builds: query expressions as trees, the flat post-order layout of a forest of
  them, and the invariant that ties the node and value stacks of the builder to such a forest.
\<close>

section \<open>Expressions\<close>

datatype expr =
    ENone
  | ETerm str
  | EPrefix str
  | EPhrase "str list"
  | ENot expr
  | EAnd expr expr
  | EOr expr expr

fun height :: "expr \<Rightarrow> nat" where
  "height (ENot e) = Suc (height e)"
| "height (EAnd l r) = Suc (max (height l) (height r))"
| "height (EOr l r) = Suc (max (height l) (height r))"
| "height _ = 1"

fun expr_size :: "expr \<Rightarrow> nat" where
  "expr_size (ENot e) = Suc (expr_size e)"
| "expr_size (EAnd l r) = Suc (expr_size l + expr_size r)"
| "expr_size (EOr l r) = Suc (expr_size l + expr_size r)"
| "expr_size _ = 1"

fun expr_terms :: "expr \<Rightarrow> str list" where
  "expr_terms ENone = []"
| "expr_terms (ETerm t) = [t]"
| "expr_terms (EPrefix t) = [t]"
| "expr_terms (EPhrase ts) = ts"
| "expr_terms (ENot e) = expr_terms e"
| "expr_terms (EAnd l r) = expr_terms l @ expr_terms r"
| "expr_terms (EOr l r) = expr_terms l @ expr_terms r"

fun phrases_ok :: "expr \<Rightarrow> bool" where
  "phrases_ok (EPhrase ts) \<longleftrightarrow> ts \<noteq> []"
| "phrases_ok (ENot e) \<longleftrightarrow> phrases_ok e"
| "phrases_ok (EAnd l r) \<longleftrightarrow> phrases_ok l \<and> phrases_ok r"
| "phrases_ok (EOr l r) \<longleftrightarrow> phrases_ok l \<and> phrases_ok r"
| "phrases_ok _ \<longleftrightarrow> True"

text \<open>The kind of the root of an expression laid out from index \<open>b\<close> on.\<close>

fun root_kind :: "nat \<Rightarrow> expr \<Rightarrow> kind" where
  "root_kind b ENone = KNone"
| "root_kind b (ETerm t) = KTerm t"
| "root_kind b (EPrefix t) = KPrefix t"
| "root_kind b (EPhrase ts) = KPhrase ts"
| "root_kind b (ENot e) = KNot (b + expr_size e - 1)"
| "root_kind b (EAnd l r) = KAnd (b + expr_size l - 1) (b + expr_size l + expr_size r - 1)"
| "root_kind b (EOr l r) = KOr (b + expr_size l - 1) (b + expr_size l + expr_size r - 1)"

definition root_node :: "nat \<Rightarrow> expr \<Rightarrow> node" where
  "root_node b e = \<lparr>nd_kind = root_kind b e, nd_depth = of_nat (height e)\<rparr>"

fun flatten :: "nat \<Rightarrow> expr \<Rightarrow> node list" where
  "flatten b (ENot e) = flatten b e @ [root_node b (ENot e)]"
| "flatten b (EAnd l r) = flatten b l @ flatten (b + expr_size l) r @ [root_node b (EAnd l r)]"
| "flatten b (EOr l r) = flatten b l @ flatten (b + expr_size l) r @ [root_node b (EOr l r)]"
| "flatten b e = [root_node b e]"

fun flatten_all :: "nat \<Rightarrow> expr list \<Rightarrow> node list" where
  "flatten_all b [] = []"
| "flatten_all b (e # es) = flatten b e @ flatten_all (b + expr_size e) es"

fun ends :: "nat \<Rightarrow> expr list \<Rightarrow> nat list" where
  "ends b [] = []"
| "ends b (e # es) = (b + expr_size e - 1) # ends (b + expr_size e) es"

lemma expr_size_pos [simp]: "0 < expr_size e"
  by (cases e) auto

lemma expr_size_ne [simp]: "expr_size e \<noteq> 0"
  using expr_size_pos[of e] by linarith

lemma height_pos [simp]: "0 < height e"
  by (cases e) auto

lemma length_flatten [simp]: "length (flatten b e) = expr_size e"
  by (induction e arbitrary: b) auto

lemma flatten_ne [simp]: "flatten b e \<noteq> []"
  using length_flatten[of b e] expr_size_pos[of e] by (metis list.size(3) less_irrefl)

lemma last_flatten: "last (flatten b e) = root_node b e"
  by (cases e) auto

lemma length_flatten_all [simp]: "length (flatten_all b es) = sum_list (map expr_size es)"
  by (induction es arbitrary: b) auto

lemma flatten_all_append:
  "flatten_all b (xs @ ys) = flatten_all b xs @ flatten_all (b + sum_list (map expr_size xs)) ys"
  by (induction xs arbitrary: b) (auto simp: add.assoc)

lemma ends_append: "ends b (xs @ ys) = ends b xs @ ends (b + sum_list (map expr_size xs)) ys"
  by (induction xs arbitrary: b) (auto simp: add.assoc)

lemma length_ends [simp]: "length (ends b es) = length es"
  by (induction es arbitrary: b) auto

lemma nth_flatten_root: "flatten b e ! (expr_size e - 1) = root_node b e"
  using last_flatten[of b e] by (simp add: last_conv_nth)

text \<open>Pushing a tree whose parts are the last trees of the forest adds one node behind them.\<close>

fun parts :: "expr \<Rightarrow> expr list" where
  "parts (ENot e) = [e]"
| "parts (EAnd l r) = [l, r]"
| "parts (EOr l r) = [l, r]"
| "parts _ = []"

lemma flatten_parts: "flatten b e = flatten_all b (parts e) @ [root_node b e]"
  by (cases e) auto

lemma expr_size_parts: "expr_size e = Suc (sum_list (map expr_size (parts e)))"
  by (cases e) auto

lemma flatten_all_part_root:
  "flatten_all 0 (xs @ e # ys) ! (sum_list (map expr_size xs) + expr_size e - 1) =
     root_node (sum_list (map expr_size xs)) e"
proof -
  let ?b = "sum_list (map expr_size xs)"
  have i: "?b + expr_size e - 1 = length (flatten_all 0 xs) + (expr_size e - 1)"
    unfolding length_flatten_all using expr_size_pos[of e] by linarith
  have "flatten_all 0 (xs @ e # ys) ! (?b + expr_size e - 1) =
      (flatten ?b e @ flatten_all (?b + expr_size e) ys) ! (expr_size e - 1)"
    unfolding i flatten_all_append nth_append_length_plus by simp
  also have "\<dots> = flatten ?b e ! (expr_size e - 1)" by (subst nth_append) simp
  finally show ?thesis by (simp only: nth_flatten_root)
qed

text \<open>A value for every subexpression, in the order of the nodes.\<close>

fun flat :: "(expr \<Rightarrow> 'v) \<Rightarrow> expr \<Rightarrow> 'v list" where
  "flat f (ENot e) = flat f e @ [f (ENot e)]"
| "flat f (EAnd l r) = flat f l @ flat f r @ [f (EAnd l r)]"
| "flat f (EOr l r) = flat f l @ flat f r @ [f (EOr l r)]"
| "flat f e = [f e]"

lemma flat_parts: "flat f e = concat (map (flat f) (parts e)) @ [f e]"
  by (cases e) auto

lemma length_flat [simp]: "length (flat f e) = expr_size e"
  by (induction e) auto

lemma nth_flat: "flat f e ! (expr_size e - 1) = f e"
  by (cases e) (simp_all add: nth_append)

lemma nth_flat_at: "length vs = b \<Longrightarrow> (vs @ flat f e @ rest) ! (b + expr_size e - 1) = f e"
proof -
  assume "length vs = b"
  moreover have "b + expr_size e - 1 = b + (expr_size e - 1)" using expr_size_pos[of e] by linarith
  ultimately show ?thesis using nth_flat[of f e] by (simp add: nth_append)
qed

lemma nth_flat_parts:
  assumes "length vs = b"
  shows "parts e = [x] \<Longrightarrow> (vs @ concat (map (flat f) (parts e))) ! (b + expr_size x - 1) = f x"
    "parts e = [l, r] \<Longrightarrow> (vs @ concat (map (flat f) (parts e))) ! (b + expr_size l - 1) = f l"
    "parts e = [l, r] \<Longrightarrow> (vs @ concat (map (flat f) (parts e))) ! (b + expr_size l + expr_size r - 1) = f r"
  using nth_flat_at[OF assms, of f x "[]"] nth_flat_at[OF assms, of f l "flat f r"]
    nth_flat_at[of "vs @ flat f l" "b + expr_size l" f r "[]"] assms by simp_all

text \<open>A loop over the nodes that appends a value for each: if every node yields the value of its
  expression from the values of its parts, the loop yields the values of all subexpressions.\<close>

locale flat_eval =
  fixes step :: "'v list \<Rightarrow> node \<Rightarrow> 'v result"
    and good :: "expr \<Rightarrow> bool"
    and sem :: "expr \<Rightarrow> 'v"
  assumes step_sem: "good e \<Longrightarrow> length vs = b \<Longrightarrow>
      step (vs @ concat (map (flat sem) (parts e))) (root_node b e) = Inr (sem e)"
    and good_parts: "good e \<Longrightarrow> x \<in> set (parts e) \<Longrightarrow> good x"
begin

lemma eval_nodes:
  "good e \<Longrightarrow> length vs = b \<Longrightarrow>
    try_fold (\<lambda>vs n. and_then (step vs n) (\<lambda>v. Inr (vs @ [v]))) vs (flatten b e) = Inr (vs @ flat sem e)"
proof (induction e arbitrary: b vs)
  case (ENot e)
  have "good e" using good_parts[OF ENot.prems(1)] by simp
  from ENot.IH[OF this ENot.prems(2)] step_sem[OF ENot.prems] show ?case by (simp add: try_fold_append)
next
  case (EAnd l r)
  have g: "good l" "good r" using good_parts[OF EAnd.prems(1)] by simp_all
  have "length (vs @ flat sem l) = b + expr_size l" using EAnd.prems by simp
  from EAnd.IH(1)[OF g(1) EAnd.prems(2)] EAnd.IH(2)[OF g(2) this] step_sem[OF EAnd.prems] show ?case
    by (simp add: try_fold_append)
next
  case (EOr l r)
  have g: "good l" "good r" using good_parts[OF EOr.prems(1)] by simp_all
  have "length (vs @ flat sem l) = b + expr_size l" using EOr.prems by simp
  from EOr.IH(1)[OF g(1) EOr.prems(2)] EOr.IH(2)[OF g(2) this] step_sem[OF EOr.prems] show ?case
    by (simp add: try_fold_append)
qed (use step_sem in fastforce)+

end

text \<open>The depth \<open>add_node\<close> computes from the children is the height of the new tree.\<close>

lemma node_depth_height:
  assumes "\<forall>e \<in> set (parts e). height e < 2 ^ 16"
  shows "node_depth (flatten_all 0 (xs @ parts e)) (root_kind (sum_list (map expr_size xs)) e) = Some d \<Longrightarrow>
    d = of_nat (height e) \<and> height e < 2 ^ 16"
proof -
  let ?b = "sum_list (map expr_size xs)"
  have two: "flatten_all 0 (xs @ [l, r]) ! (?b + expr_size l - 1) = root_node ?b l"
    "flatten_all 0 (xs @ [l, r]) ! (?b + expr_size l + expr_size r - 1) = root_node (?b + expr_size l) r" for l r
    using flatten_all_part_root[of xs l "[r]"] flatten_all_part_root[of "xs @ [l]" r "[]"] by simp_all
  have mx: "max (of_nat a :: u16) (of_nat c) = of_nat (max a c)" if "a < 2 ^ 16" "c < 2 ^ 16" for a c
    using unat_u16_of_nat[OF that(1)] unat_u16_of_nat[OF that(2)] by (simp add: max_def word_le_nat_alt)
  have add: "d = of_nat (Suc a) \<and> Suc a < 2 ^ 16" if "checked_add_w (of_nat a :: u16) 1 = Some d" "a < 2 ^ 16" for a
  proof -
    have u: "unat d = Suc a" using checked_add_w_Some[OF that(1)] unat_u16_of_nat[OF that(2)] by simp
    have "d = of_nat (unat d)" by simp
    then show ?thesis using unat_lt2p[of d] unfolding u by simp
  qed
  have mlt: "max a c < 2 ^ 16" if "a < 2 ^ 16" "c < 2 ^ 16" for a c :: nat using that by simp
  assume nd: "node_depth (flatten_all 0 (xs @ parts e)) (root_kind ?b e) = Some d"
  show ?thesis
  proof (cases e)
    case (ENot c)
    then have h: "height c < 2 ^ 16" using assms by simp
    have "checked_add_w (of_nat (height c) :: u16) 1 = Some d"
      using nd unfolding ENot node_depth_def parts.simps root_kind.simps kind.case flatten_all_part_root
      by (simp add: root_node_def)
    from add[OF this h] show ?thesis by (simp add: ENot)
  next
    case (EAnd l r)
    then have h: "height l < 2 ^ 16" "height r < 2 ^ 16" using assms by simp_all
    have "checked_add_w (of_nat (max (height l) (height r)) :: u16) 1 = Some d"
      using nd unfolding EAnd node_depth_def parts.simps root_kind.simps kind.case two mx[OF h, symmetric]
      by (simp add: root_node_def)
    from add[OF this mlt[OF h]] show ?thesis by (simp add: EAnd)
  next
    case (EOr l r)
    then have h: "height l < 2 ^ 16" "height r < 2 ^ 16" using assms by simp_all
    have "checked_add_w (of_nat (max (height l) (height r)) :: u16) 1 = Some d"
      using nd unfolding EOr node_depth_def parts.simps root_kind.simps kind.case two mx[OF h, symmetric]
      by (simp add: root_node_def)
    from add[OF this mlt[OF h]] show ?thesis by (simp add: EOr)
  qed (use nd in \<open>auto simp: node_depth_def\<close>)
qed

section \<open>The builder invariant\<close>

definition expr_ok :: "query_limits \<Rightarrow> expr \<Rightarrow> bool" where
  "expr_ok limits e \<longleftrightarrow> height e \<le> unat (ql_depth limits) \<and> phrases_ok e \<and>
     (\<forall>t \<in> set (expr_terms e). length t \<le> ql_term_bytes limits)"

definition builds :: "builder \<Rightarrow> expr list \<Rightarrow> bool" where
  "builds b es \<longleftrightarrow> elems (bl_nodes b) = flatten_all 0 es \<and> elems (bl_values b) = ends 0 es \<and>
     (\<forall>e \<in> set es. expr_ok (bl_limits b) e) \<and>
     bl_terms b = sum_list (map (\<lambda>e. length (expr_terms e)) es) \<and> bl_terms b \<le> ql_terms (bl_limits b) \<and>
     vec_len (bl_nodes b) \<le> ql_nodes (bl_limits b)"

lemma expr_ok_height: "expr_ok limits e \<Longrightarrow> height e < 2 ^ 16"
  using unat_u16_lt[of "ql_depth limits"] by (simp add: expr_ok_def)

lemma add_node_builds:
  assumes a: "add_node env b (root_kind (sum_list (map expr_size xs)) e) = Inr b'"
    and n: "elems (bl_nodes b) = flatten_all 0 (xs @ parts e)" and v: "elems (bl_values b) = ends 0 xs"
    and ok: "\<forall>x \<in> set (xs @ parts e). expr_ok (bl_limits b) x"
    and e: "phrases_ok e" "\<forall>t \<in> set (expr_terms e). length t \<le> ql_term_bytes (bl_limits b)"
    and t: "bl_terms b = sum_list (map (\<lambda>e. length (expr_terms e)) (xs @ [e]))" "bl_terms b \<le> ql_terms (bl_limits b)"
  shows "builds b' (xs @ [e])" "bl_limits b' = bl_limits b"
proof -
  let ?b = "sum_list (map expr_size xs)"
  from a obtain d nodes vals b1 b2 where
    d: "node_depth (elems (bl_nodes b)) (root_kind ?b e) = Some d" "d \<le> ql_depth (bl_limits b)"
    and r1: "reserve (env_alloc env) (env_size env ''Node'') (bl_nodes b) 1 (ql_nodes (bl_limits b)) (bl_budget b) =
      Inr (nodes, b1)"
    and r2: "reserve (env_alloc env) (env_size env ''usize'') (bl_values b) 1 (ql_nodes (bl_limits b)) b1 = Inr (vals, b2)"
    and b': "b' = b\<lparr>bl_budget := b2, bl_values := vec_push vals (vec_len nodes),
               bl_nodes := vec_push nodes \<lparr>nd_kind = root_kind ?b e, nd_depth = d\<rparr>\<rparr>"
    by (auto simp: add_node_def res_simps not_less simp del: One_nat_def split: if_splits)
  have el: "elems nodes = elems (bl_nodes b)" "elems vals = elems (bl_values b)"
    using r1 r2 by (simp_all add: reserve_elems)
  have h: "d = of_nat (height e) \<and> height e < 2 ^ 16"
    using d(1) ok expr_ok_height unfolding n by (intro node_depth_height) auto
  then have "unat d = height e" using unat_u16_of_nat[of "height e"] by simp
  then have hl: "height e \<le> unat (ql_depth (bl_limits b))" using d(2) by (simp add: word_le_nat_alt)
  have len: "length (elems (bl_nodes b)) = ?b + expr_size e - 1"
    unfolding n by (simp add: expr_size_parts[of e])
  have "flatten_all 0 (xs @ [e]) = elems (bl_nodes b) @ [root_node ?b e]"
    unfolding n by (simp add: flatten_all_append flatten_parts[of _ e])
  then have nodes': "elems (bl_nodes b') = flatten_all 0 (xs @ [e])"
    using h by (simp add: b' el root_node_def)
  have vals': "elems (bl_values b') = ends 0 (xs @ [e])"
    using len by (simp add: b' el v ends_append vec_len_def)
  have "vec_len (bl_nodes b') \<le> ql_nodes (bl_limits b)"
    using reserve_limit[OF r1] by (simp add: b' vec_len_def el)
  then show "builds b' (xs @ [e])" "bl_limits b' = bl_limits b"
    using nodes' vals' ok e hl t by (auto simp: builds_def expr_ok_def b')
qed

lemma add_leaf_builds:
  assumes "add_node env b (root_kind 0 e) = Inr b'" "builds b0 es" "parts e = []" "phrases_ok e"
    and "b = b0\<lparr>bl_budget := bud, bl_terms := bl_terms b0 + length (expr_terms e)\<rparr>"
    and "\<forall>t \<in> set (expr_terms e). length t \<le> ql_term_bytes (bl_limits b0)"
    and "bl_terms b0 + length (expr_terms e) \<le> ql_terms (bl_limits b0)"
  shows "builds b' (es @ [e])" "bl_limits b' = bl_limits b0"
proof -
  have k: "root_kind 0 e = root_kind (sum_list (map expr_size es)) e" using assms(3) by (cases e) auto
  show "builds b' (es @ [e])" "bl_limits b' = bl_limits b0"
    using add_node_builds[OF assms(1)[unfolded k]] assms(2-) by (auto simp: builds_def)
qed

lemma expr_terms_parts: "parts e \<noteq> [] \<Longrightarrow> expr_terms e = concat (map expr_terms (parts e))"
  by (cases e) auto

lemma phrases_ok_parts: "parts e \<noteq> [] \<Longrightarrow> phrases_ok e \<longleftrightarrow> list_all phrases_ok (parts e)"
  by (cases e) auto

lemma join_builds:
  assumes a: "add_node env (b\<lparr>bl_values := v\<rparr>) (root_kind (sum_list (map expr_size xs)) e) = Inr b'"
    and b: "builds b (xs @ parts e)" and v: "elems v = ends 0 xs" and ne: "parts e \<noteq> []"
  shows "builds b' (xs @ [e]) \<and> bl_limits b' = bl_limits b"
proof -
  have t: "length (expr_terms e) = sum_list (map (\<lambda>e. length (expr_terms e)) (parts e))"
    by (simp add: expr_terms_parts[OF ne] length_concat comp_def)
  have o: "\<forall>x \<in> set (xs @ parts e). expr_ok (bl_limits b) x" using b by (auto simp: builds_def)
  then have p: "phrases_ok e" "\<forall>t \<in> set (expr_terms e). length t \<le> ql_term_bytes (bl_limits b)"
    by (auto simp: phrases_ok_parts[OF ne] expr_terms_parts[OF ne] expr_ok_def list_all_iff)
  show ?thesis
    using add_node_builds[OF a] o p t b v by (simp add: builds_def)
qed

fun reduced :: "operator_kind \<Rightarrow> expr list \<Rightarrow> expr" where
  "reduced OpNot es = ENot (es ! 0)"
| "reduced OpAnd es = EAnd (es ! 0) (es ! 1)"
| "reduced OpOr es = EOr (es ! 0) (es ! 1)"
| "reduced OpOpen es = ENone"

definition arity :: "operator_kind \<Rightarrow> nat" where
  "arity k = (if k = OpNot then 1 else 2)"

lemma reduce_builds:
  assumes r: "reduce env b op = Inr b'" and b: "builds b es"
  obtains xs ps where "es = xs @ ps" "length ps = arity (op_kind op)" "op_kind op \<noteq> OpOpen"
    "builds b' (xs @ [reduced (op_kind op) ps])" "bl_limits b' = bl_limits b"
proof -
  note fin = that
  have un: thesis if "op_kind op = OpNot"
  proof -
    from r that obtain right vs where p: "elems (bl_values b) = vs @ [right]"
      and a: "add_node env (b\<lparr>bl_values := (bl_values b)\<lparr>elems := vs\<rparr>\<rparr>) (KNot right) = Inr b'"
      by (auto simp: reduce_def Let_def res_simps vec_pop_Some)
    from p b have "es \<noteq> []" by (auto simp: builds_def)
    then obtain xs e where es: "es = xs @ [e]" by (metis append_butlast_last_id)
    have v: "elems ((bl_values b)\<lparr>elems := vs\<rparr>) = ends 0 xs" "KNot right = root_kind (sum_list (map expr_size xs)) (ENot e)"
      using p b es by (simp_all add: builds_def ends_append)
    from join_builds[OF a[unfolded v(2)] _ v(1)] b es
    have "builds b' (xs @ [ENot e])" "bl_limits b' = bl_limits b" by simp_all
    then show thesis using that es by (intro fin[of xs "[e]"]) (simp_all add: arity_def)
  qed
  have bin: thesis if k: "op_kind op = OpAnd \<or> op_kind op = OpOr"
  proof -
    let ?K = "if op_kind op = OpAnd then KAnd else KOr"
    let ?E = "if op_kind op = OpAnd then EAnd else EOr"
    from r k obtain right left vs where p: "elems (bl_values b) = vs @ [left, right]"
      and a: "add_node env (b\<lparr>bl_values := (bl_values b)\<lparr>elems := vs\<rparr>\<rparr>) (?K left right) = Inr b'"
      by (elim disjE) (auto simp: reduce_def Let_def res_simps vec_pop_Some)
    have "length es = Suc (Suc (length vs))" using arg_cong[OF p, of length] b by (simp add: builds_def)
    then obtain ys r where "es = ys @ [r]" "length ys = Suc (length vs)" by (cases es rule: rev_cases) auto
    then obtain xs l where es: "es = xs @ [l, r]" by (cases ys rule: rev_cases) auto
    have v: "elems ((bl_values b)\<lparr>elems := vs\<rparr>) = ends 0 xs" "?K left right = root_kind (sum_list (map expr_size xs)) (?E l r)"
      using p b es by (auto simp: builds_def ends_append)
    have ps: "parts (?E l r) = [l, r]" by simp
    note q = join_builds[OF a[unfolded v(2)] _ v(1), unfolded ps, OF b[unfolded es]]
    then have "builds b' (xs @ [?E l r])" "bl_limits b' = bl_limits b" by simp_all
    then show thesis using k es by (intro fin[of xs "[l, r]"]) (auto simp: arity_def)
  qed
  show thesis using un bin r by (cases "op_kind op") (auto simp: reduce_def Let_def res_simps)
qed

end
