(* ===== verification/QueryGrammar.thy ===== *)
theory QueryGrammar
  imports QueryTree
begin

text \<open>
  The query language: its tokens, its grammar with NOT binding tighter than AND and AND tighter
  than OR, both associating to the left, and the proof that the operator-precedence parser accepts
  only sentences of the grammar and builds their trees.
\<close>

section \<open>Tokens and grammar\<close>

datatype tok = TOpen | TClose | TOp operator_kind | TLit expr

fun lvl :: "operator_kind \<Rightarrow> nat" where
  "lvl OpOpen = 0"
| "lvl OpOr = 1"
| "lvl OpAnd = 2"
| "lvl OpNot = 3"

text \<open>Level 3 are operands, level 2 conjunctions, level 1 disjunctions.\<close>

inductive derives :: "nat \<Rightarrow> tok list \<Rightarrow> expr \<Rightarrow> bool" where
  lit: "parts e = [] \<Longrightarrow> derives 3 [TLit e] e"
| paren: "derives 1 ts e \<Longrightarrow> derives 3 (TOpen # ts @ [TClose]) e"
| neg: "derives 3 ts e \<Longrightarrow> derives 3 (TOp OpNot # ts) (ENot e)"
| conj: "derives 2 l a \<Longrightarrow> derives 3 r b \<Longrightarrow> derives 2 (l @ TOp OpAnd # r) (EAnd a b)"
| disj: "derives 1 l a \<Longrightarrow> derives 2 r b \<Longrightarrow> derives 1 (l @ TOp OpOr # r) (EOr a b)"
| up: "derives (Suc p) ts e \<Longrightarrow> 0 < p \<Longrightarrow> derives p ts e"

lemma derives_mono: "derives p ts e \<Longrightarrow> 0 < q \<Longrightarrow> q \<le> p \<Longrightarrow> derives q ts e"
proof (induction "p - q" arbitrary: q)
  case (Suc n)
  then have "derives (Suc q) ts e" by auto
  then show ?case using Suc.prems(2) by (rule up)
qed simp

section \<open>The stacks\<close>

text \<open>What the operator and value stacks say about the tokens read so far, where an operand must
  follow. A conjunction or disjunction is only pushed above an operator that binds less tightly.\<close>

inductive awaits :: "operator_kind list \<Rightarrow> expr list \<Rightarrow> tok list \<Rightarrow> bool" where
  empty: "awaits [] [] []"
| opened: "awaits ops es ts \<Longrightarrow> awaits (ops @ [OpOpen]) es (ts @ [TOpen])"
| negated: "awaits ops es ts \<Longrightarrow> awaits (ops @ [OpNot]) es (ts @ [TOp OpNot])"
| joined: "awaits ops es ts \<Longrightarrow> k = OpAnd \<or> k = OpOr \<Longrightarrow> ops = [] \<or> lvl (last ops) < lvl k \<Longrightarrow>
    derives (lvl k) r e \<Longrightarrow> awaits (ops @ [k]) (es @ [e]) (ts @ r @ [TOp k])"

inductive_cases awaits_Nil: "awaits [] es ts"

lemma awaits_snoc:
  assumes "awaits (ops @ [k]) es ts"
  obtains (opened) ts1 where "k = OpOpen" "ts = ts1 @ [TOpen]" "awaits ops es ts1"
  | (negated) ts1 where "k = OpNot" "ts = ts1 @ [TOp OpNot]" "awaits ops es ts1"
  | (joined) es1 ts1 r1 e1 where "k = OpAnd \<or> k = OpOr" "es = es1 @ [e1]" "ts = ts1 @ r1 @ [TOp k]"
      "awaits ops es1 ts1" "ops = [] \<or> lvl (last ops) < lvl k" "derives (lvl k) r1 e1"
  using assms
proof (cases rule: awaits.cases)
  case (opened ops' ts')
  then show thesis by (intro that(1)[of ts']) simp_all
next
  case (negated ops' ts')
  then show thesis by (intro that(2)[of ts']) simp_all
next
  case (joined ops' es' ts' k' r e)
  then show thesis by (intro that(3)[of es' e ts' r]) simp_all
qed simp

text \<open>The level an operand must have to be reduced under the top operator.\<close>

definition operand_level :: "operator_kind list \<Rightarrow> nat" where
  "operand_level ops = (if ops = [] then 1 else if last ops = OpNot then 3 else Suc (lvl (last ops)))"

definition reading :: "builder \<Rightarrow> operator_kind list \<Rightarrow> nat \<Rightarrow> tok list \<Rightarrow> bool" where
  "reading b ops p ts \<longleftrightarrow> (\<exists>es ts0 r e. awaits ops es ts0 \<and> derives p r e \<and> operand_level ops \<le> p \<and>
     builds b (es @ [e]) \<and> ts = ts0 @ r)"

lemma readingI:
  "awaits ops es ts \<Longrightarrow> derives p r e \<Longrightarrow> operand_level ops \<le> p \<Longrightarrow> builds b (es @ [e]) \<Longrightarrow>
    reading b ops p (ts @ r)"
  unfolding reading_def by blast

lemma operand_level_le: "operand_level ops \<le> 3"
  by (cases "last ops") (simp_all add: operand_level_def)

abbreviation op_kinds :: "builder \<Rightarrow> operator_kind list" where
  "op_kinds b \<equiv> map op_kind (elems (bl_operators b))"

lemma precedence_lvl: "precedence k \<le> precedence k' \<longleftrightarrow> lvl k \<le> lvl k'"
  by (cases k; cases k') (auto simp: word_le_nat_alt)

lemma builds_operators [simp]: "builds (b\<lparr>bl_operators := v\<rparr>) es \<longleftrightarrow> builds b es"
  by (simp add: builds_def)

lemma reading_operators [simp]: "reading (b\<lparr>bl_operators := v\<rparr>) ops p ts \<longleftrightarrow> reading b ops p ts"
  by (simp add: reading_def)

lemma reduce_reading:
  assumes r: "reduce env b op = Inr b'" and b: "reading b (ops @ [op_kind op]) p ts"
  shows "reading b' ops (lvl (op_kind op)) ts \<and> op_kind op \<noteq> OpOpen \<and> bl_limits b' = bl_limits b"
proof -
  let ?k = "op_kind op"
  from b obtain es ts0 r e where pe: "awaits (ops @ [?k]) es ts0" and d: "derives p r e"
    and l: "operand_level (ops @ [?k]) \<le> p" and bu: "builds b (es @ [e])" and ts: "ts = ts0 @ r"
    by (auto simp: reading_def)
  obtain xs ps where x: "es @ [e] = xs @ ps" "length ps = arity ?k" "?k \<noteq> OpOpen"
    "builds b' (xs @ [reduced ?k ps])" "bl_limits b' = bl_limits b"
    by (rule reduce_builds[OF r bu])
  from pe show ?thesis
  proof (cases rule: awaits_snoc)
    case opened
    then show ?thesis using x(3) by simp
  next
    case (negated ts1)
    then have k: "?k = OpNot" by simp
    then have x': "ps = [e]" "xs = es" using x(1,2) by (auto simp: arity_def length_Suc_conv)
    have "derives 3 r e" using derives_mono[OF d] l k by (simp add: operand_level_def)
    then have "derives 3 (TOp OpNot # r) (ENot e)" by (rule neg)
    from readingI[OF negated(3) this operand_level_le] x(4,5) x' k negated(2) ts
    show ?thesis by simp
  next
    case (joined es1 ts1 r1 e1)
    then have two: "arity ?k = 2" "?k = OpAnd \<or> ?k = OpOr" by (auto simp: arity_def)
    have x': "xs = es1" "ps = [e1, e]"
      using x(1,2) two joined by (auto simp: numeral_2_eq_2 length_Suc_conv)
    have "derives (Suc (lvl ?k)) r e" using derives_mono[OF d] l two by (auto simp: operand_level_def)
    then have d': "derives (lvl ?k) (r1 @ TOp ?k # r) (reduced ?k ps)"
      using two(2) joined(6) derives.conj[of r1 e1 r e] derives.disj[of r1 e1 r e]
      unfolding x'(2) by (elim disjE) (simp_all add: numeral_2_eq_2 numeral_3_eq_3)
    have "operand_level ops \<le> lvl ?k" using joined two by (cases "last ops") (auto simp: operand_level_def)
    from readingI[OF joined(4) d' this, of b'] x(3-5) x' joined(3) ts
    show ?thesis by simp
  qed
qed

lemma operator_loop_reading:
  assumes "operator_loop env op b = Inr b'" "reading b (op_kinds b) p ts" "op_kind op = OpAnd \<or> op_kind op = OpOr"
    "lvl (op_kind op) \<le> p"
  shows "\<exists>q. reading b' (op_kinds b') q ts \<and> lvl (op_kind op) \<le> q \<and>
    (op_kinds b' = [] \<or> lvl (last (op_kinds b')) < lvl (op_kind op)) \<and> bl_limits b' = bl_limits b"
  using assms
proof (induction env op b arbitrary: p rule: operator_loop.induct)
  case (1 env op b)
  show ?case
  proof (cases "vec_pop (bl_operators b)")
    case None
    then have e: "elems (bl_operators b) = []" by simp
    have "b' = b" using 1(2) None by (simp only: operator_loop.simps[of env op b]) simp
    then show ?thesis using 1(3-) e by auto
  next
    case (Some tv)
    then obtain t v where tv: "vec_pop (bl_operators b) = Some (t, v)" by (cases tv) auto
    then obtain xs where xs: "elems (bl_operators b) = xs @ [t]" "elems v = xs" by (auto simp: vec_pop_Some)
    show ?thesis
    proof (cases "precedence (op_kind op) \<le> precedence (op_kind t)")
      case True
      then obtain b1 where r: "reduce env (b\<lparr>bl_operators := v\<rparr>) t = Inr b1" "operator_loop env op b1 = Inr b'"
        using 1(2) tv by (auto simp: operator_loop.simps[of env op b] res_simps)
      have o: "op_kinds b1 = map op_kind xs" using reduce_operators[OF r(1)] xs by simp
      have "reading b1 (op_kinds b1) (lvl (op_kind t)) ts \<and> bl_limits b1 = bl_limits b"
        using reduce_reading[OF r(1), of "map op_kind xs" p ts] 1(3) xs o by simp
      then show ?thesis using 1(1)[OF tv refl True r(1,2), of "lvl (op_kind t)"] 1(4) True by (simp add: precedence_lvl)
    next
      case False
      then show ?thesis using 1(2-) tv xs by (auto simp: operator_loop.simps[of env op b] precedence_lvl)
    qed
  qed
qed

text \<open>Between two steps the parser either needs an operand or has just read one.\<close>

definition needs :: "builder \<Rightarrow> operator_kind list \<Rightarrow> tok list \<Rightarrow> bool" where
  "needs b ops ts \<longleftrightarrow> (\<exists>es. awaits ops es ts \<and> builds b es)"

lemma builds_budget [simp]: "builds (b\<lparr>bl_budget := x\<rparr>) es \<longleftrightarrow> builds b es"
  by (simp add: builds_def)

lemma builder_operator_operand:
  assumes o: "builder_operator env b op = Inr b'" and n: "needs b (op_kinds b) ts"
    and k: "op_kind op = OpOpen \<or> op_kind op = OpNot"
  shows "needs b' (op_kinds b') (ts @ [if op_kind op = OpOpen then TOpen else TOp OpNot]) \<and> bl_limits b' = bl_limits b"
proof -
  from o k have b': "op_kinds b' = op_kinds b @ [op_kind op]" "bl_limits b' = bl_limits b"
    "builds b' es = builds b es" for es
    by (auto simp: builder_operator_def res_simps builds_def reserve_elems)
  from n obtain es where p: "awaits (op_kinds b) es ts" "builds b es" by (auto simp: needs_def)
  from awaits.opened[OF p(1)] awaits.negated[OF p(1)] p(2) k show ?thesis
    by (elim disjE) (auto simp: needs_def b')
qed

lemma builder_operator_binary:
  assumes o: "builder_operator env b op = Inr b'" and n: "reading b (op_kinds b) 3 ts"
    and k: "op_kind op = OpAnd \<or> op_kind op = OpOr"
  shows "needs b' (op_kinds b') (ts @ [TOp (op_kind op)]) \<and> bl_limits b' = bl_limits b"
proof -
  from o k obtain b1 where l: "operator_loop env op b = Inr b1"
    and b': "op_kinds b' = op_kinds b1 @ [op_kind op]" "bl_limits b' = bl_limits b1" "\<And>es. builds b' es = builds b1 es"
    by (auto simp: builder_operator_def res_simps builds_def reserve_elems)
  have "lvl (op_kind op) \<le> 3" by (cases "op_kind op") auto
  from operator_loop_reading[OF l n k this] obtain q es ts0 r e where
    q: "awaits (op_kinds b1) es ts0" "derives q r e" "builds b1 (es @ [e])" "ts = ts0 @ r" "lvl (op_kind op) \<le> q"
      "op_kinds b1 = [] \<or> lvl (last (op_kinds b1)) < lvl (op_kind op)" "bl_limits b1 = bl_limits b"
    unfolding reading_def by blast
  have "derives (lvl (op_kind op)) r e" using derives_mono[OF q(2) _ q(5)] k by auto
  from awaits.joined[OF q(1) k q(6) this] q(3,4,7) show ?thesis
    by (auto simp: needs_def b')
qed

lemma builder_close_reading:
  "builder_close env offset b = Inr b' \<Longrightarrow> reading b (op_kinds b) p ts \<Longrightarrow>
    reading b' (op_kinds b') 3 (ts @ [TClose]) \<and> bl_limits b' = bl_limits b"
proof (induction env offset b arbitrary: p rule: builder_close.induct)
  case (1 env offset b)
  from 1(2) obtain t v where tv: "vec_pop (bl_operators b) = Some (t, v)"
    by (auto simp: builder_close.simps[of env offset b] split: option.splits)
  then obtain xs where xs: "elems (bl_operators b) = xs @ [t]" "elems v = xs" by (auto simp: vec_pop_Some)
  show ?case
  proof (cases "op_kind t = OpOpen")
    case True
    then have b': "b' = b\<lparr>bl_operators := v\<rparr>"
      using 1(2) tv by (auto simp: builder_close.simps[of env offset b])
    from 1(3) obtain es ts0 r e where q: "awaits (map op_kind xs @ [OpOpen]) es ts0" "derives p r e" "0 < p"
      "builds b (es @ [e])" "ts = ts0 @ r"
      using xs True by (auto simp: reading_def operand_level_def)
    have "derives 3 (TOpen # r @ [TClose]) e" using derives_mono[OF q(2), of 1] q(3) by (auto intro: paren)
    moreover from q(1) obtain ts1 where "ts0 = ts1 @ [TOpen]" "awaits (map op_kind xs) es ts1"
      by (cases rule: awaits_snoc) auto
    ultimately show ?thesis
      using readingI[of "map op_kind xs" es ts1 3 _ e b] operand_level_le q(4,5) xs b' by simp
  next
    case False
    then obtain b1 where r: "reduce env (b\<lparr>bl_operators := v\<rparr>) t = Inr b1" "builder_close env offset b1 = Inr b'"
      using 1(2) tv by (auto simp: builder_close.simps[of env offset b] res_simps Let_def)
    have o: "op_kinds b1 = map op_kind xs" using reduce_operators[OF r(1)] xs by simp
    have "reading b1 (op_kinds b1) (lvl (op_kind t)) ts \<and> bl_limits b1 = bl_limits b"
      using reduce_reading[OF r(1), of "map op_kind xs" p ts] 1(3) xs o by simp
    then show ?thesis using 1(1)[OF tv refl refl False r(1,2)] by auto
  qed
qed

lemma reduce_all_reading:
  "reduce_all env b = Inr b' \<Longrightarrow> reading b (op_kinds b) p ts \<Longrightarrow>
    (\<exists>e. derives 1 ts e \<and> builds b' [e]) \<and> bl_limits b' = bl_limits b"
proof (induction env b arbitrary: p rule: reduce_all.induct)
  case (1 env b)
  show ?case
  proof (cases "vec_pop (bl_operators b)")
    case None
    then have "b' = b" using 1(2) by (simp add: reduce_all.simps[of env b] vec_pop_def)
    moreover obtain es ts0 r e where "awaits [] es ts0" "derives p r e" "0 < p" "builds b (es @ [e])" "ts = ts0 @ r"
      using 1(3) None by (auto simp: reading_def operand_level_def)
    ultimately show ?thesis using derives_mono[of p r e 1] by (auto elim!: awaits_Nil)
  next
    case (Some tv)
    then obtain t v where tv: "vec_pop (bl_operators b) = Some (t, v)" by (cases tv) auto
    then obtain xs where xs: "elems (bl_operators b) = xs @ [t]" "elems v = xs" by (auto simp: vec_pop_Some)
    from 1(2) tv obtain b1 where r: "reduce env (b\<lparr>bl_operators := v\<rparr>) t = Inr b1" "reduce_all env b1 = Inr b'"
      by (auto simp: reduce_all.simps[of env b] res_simps)
    have o: "op_kinds b1 = map op_kind xs" using reduce_operators[OF r(1)] xs by simp
    have "reading b1 (op_kinds b1) (lvl (op_kind t)) ts \<and> bl_limits b1 = bl_limits b"
      using reduce_reading[OF r(1), of "map op_kind xs" p ts] 1(3) xs o by simp
    then show ?thesis using 1(1)[OF tv refl r(1,2)] by auto
  qed
qed

section \<open>Literals\<close>

definition literal_expr :: "bool \<Rightarrow> bool \<Rightarrow> str list \<Rightarrow> expr" where
  "literal_expr qt prefix terms =
     (if qt then (if terms = [] then ENone else EPhrase terms)
      else if prefix then EPrefix (hd terms) else ETerm (hd terms))"

lemma copy_terms_elems: "copy_terms env terms b = Inr (out, b') \<Longrightarrow> out = terms"
proof -
  let ?f = "\<lambda>(out, budget) term. and_then (copy_text (env_alloc env) term budget)
    (\<lambda>(text, budget). Inr (vec_push out (elems text), budget))"
  have loop: "try_fold ?f (v, b) ts = Inr (w, b') \<Longrightarrow> elems w = elems v @ ts" for v b ts w b'
    by (induction ts arbitrary: v b) (auto simp: res_simps dest!: copy_text_elems)
  assume "copy_terms env terms b = Inr (out, b')"
  then show ?thesis by (auto simp: copy_terms_def res_simps dest!: vector_elems loop)
qed

lemma analyzed_len_terms: "length (terms_of a) < 2 ^ 32 \<Longrightarrow> unat (analyzed_len a) = length (terms_of a)"
  by (simp add: analyzed_len_def terms_of_def unat_u32_of_nat)

lemma literal_kind_root:
  assumes "literal_kind env qt prefix offset a b = Inr (k, b')" "length (terms_of a) < 2 ^ 32"
    "\<not> qt \<Longrightarrow> length (terms_of a) = 1"
  shows "k = root_kind 0 (literal_expr qt prefix (terms_of a))"
proof (cases qt)
  case True
  then show ?thesis using assms(1) analyzed_len_terms[OF assms(2)]
    by (auto simp: literal_kind_def literal_expr_def res_simps analyzed_tokens_terms dest!: copy_terms_elems split: if_splits)
next
  case False
  then obtain t where t: "terms_of a = [t]" using assms(3) by (auto simp: length_Suc_conv)
  then have "analyzed_token a 0 = Some \<lparr>tk_term = t, tk_position = 0\<rparr>" by (simp add: analyzed_token_terms)
  then show ?thesis using assms(1) False t
    by (auto simp: literal_kind_def literal_expr_def res_simps dest!: copy_text_elems)
qed

lemma literal_expr_simps:
  assumes "\<not> qt \<Longrightarrow> length ts = 1"
  shows "parts (literal_expr qt prefix ts) = []" "phrases_ok (literal_expr qt prefix ts)"
    "expr_terms (literal_expr qt prefix ts) = ts"
proof -
  have "ts = [hd ts]" if "\<not> qt" using assms[OF that] by (cases ts) auto
  then show "parts (literal_expr qt prefix ts) = []" "phrases_ok (literal_expr qt prefix ts)"
    "expr_terms (literal_expr qt prefix ts) = ts"
    by (auto simp: literal_expr_def)
qed

lemma literal_builds:
  assumes l: "literal env b text qt prefix offset = Inr b'" and b: "builds b es"
    and ok: "alloc_ok (env_alloc env)" "words_ok env"
  shows "\<exists>lim a. analyze env text lim = Inr a \<and> builds b' (es @ [literal_expr qt prefix (terms_of a)]) \<and>
    parts (literal_expr qt prefix (terms_of a)) = [] \<and> (\<not> qt \<longrightarrow> length (terms_of a) = 1) \<and>
    bl_limits b' = bl_limits b \<and> bl_operators b' = bl_operators b"
proof -
  from l obtain lim a k b1 b2 b3 where an: "analyze env text lim = Inr a"
    and lim: "al_term_bytes lim = ql_term_bytes (bl_limits b)"
    and one: "\<not> qt \<Longrightarrow> unat (analyzed_len a) = 1"
    and tb: "bl_terms b + unat (analyzed_len a) \<le> ql_terms (bl_limits b)"
    and lk: "literal_kind env qt prefix offset a b1 = Inr (k, b2)"
    and ad: "add_node env (b\<lparr>bl_budget := b3, bl_terms := bl_terms b + unat (analyzed_len a)\<rparr>) k = Inr b'"
    by (auto simp: literal_def Let_def res_simps checked_add_def split: if_splits)
  note q = analyze_Inr[OF an ok]
  let ?ts = "terms_of a"
  let ?e = "literal_expr qt prefix ?ts"
  have n: "length ?ts < 2 ^ 32" using q(3) unat_u32_lt[of "al_tokens lim"] by simp
  note ln = analyzed_len_terms[OF n]
  have one': "\<not> qt \<Longrightarrow> length ?ts = 1" using one ln by simp
  have es: "parts ?e = []" "phrases_ok ?e" "expr_terms ?e = ?ts"
    using literal_expr_simps[of qt ?ts] one' by auto
  have k: "k = root_kind 0 ?e" by (rule literal_kind_root[OF lk n]) (rule one')
  have "builds b' (es @ [?e])" "bl_limits b' = bl_limits b"
    using add_leaf_builds[OF ad[unfolded k] b es(1,2)] tb ln lim q(2) by (simp_all add: es(3))
  moreover have "bl_operators b' = bl_operators b" using add_node_operators[OF ad] by simp
  ultimately show ?thesis using an es(1) one' by blast
qed

lemma literal_reading:
  assumes l: "literal env b text qt prefix offset = Inr b'" and b: "needs b (op_kinds b) ts"
    and ok: "alloc_ok (env_alloc env)" "words_ok env"
  shows "\<exists>lim a. analyze env text lim = Inr a \<and> (\<not> qt \<longrightarrow> length (terms_of a) = 1) \<and>
    reading b' (op_kinds b') 3 (ts @ [TLit (literal_expr qt prefix (terms_of a))]) \<and> bl_limits b' = bl_limits b"
proof -
  from b obtain es where es: "awaits (op_kinds b) es ts" "builds b es" by (auto simp: needs_def)
  from literal_builds[OF l es(2) ok] obtain lim a where
    a: "analyze env text lim = Inr a" "builds b' (es @ [literal_expr qt prefix (terms_of a)])"
      "parts (literal_expr qt prefix (terms_of a)) = []" "bl_limits b' = bl_limits b" "bl_operators b' = bl_operators b"
      "\<not> qt \<longrightarrow> length (terms_of a) = 1"
    by blast
  from readingI[OF es(1) lit[OF a(3)] operand_level_le a(2)] a show ?thesis by auto
qed

section \<open>Scanning\<close>

text \<open>The text behind an opening quotation mark and what follows its closing one.\<close>

function unquote :: "str \<Rightarrow> (str \<times> str) option" where
  "unquote [] = None"
| "unquote (b # bs) =
     (if b = 0x22 then Some ([], bs)
      else if b = 0x5C then
        (case bs of
           c # cs \<Rightarrow> if c = 0x22 \<or> c = 0x5C then map_option (\<lambda>(t, r). (c # t, r)) (unquote cs) else None
         | [] \<Rightarrow> None)
      else map_option (\<lambda>(t, r). (take (utf8_len b) (b # bs) @ t, r)) (unquote (drop (utf8_len b) (b # bs))))"
  by pat_completeness auto
termination
proof (relation "measure length")
  fix b :: u8 and bs :: str
  have "0 < utf8_len b" by simp
  then show "(drop (utf8_len b) (b # bs), b # bs) \<in> measure length" by (simp only: in_measure length_drop) simp
qed auto

declare unquote.simps [simp del]

text \<open>The tokens of the input up to an index.\<close>

inductive scans :: "env \<Rightarrow> str \<Rightarrow> nat \<Rightarrow> tok list \<Rightarrow> bool" for env input where
  scan_start: "scans env input 0 []"
| scan_space: "scans env input i ts \<Longrightarrow> i < length input \<Longrightarrow> is_ascii_whitespace (input ! i) \<Longrightarrow>
    scans env input (Suc i) ts"
| scan_open: "scans env input i ts \<Longrightarrow> i < length input \<Longrightarrow> input ! i = 0x28 \<Longrightarrow>
    scans env input (Suc i) (ts @ [TOpen])"
| scan_close: "scans env input i ts \<Longrightarrow> i < length input \<Longrightarrow> input ! i = 0x29 \<Longrightarrow>
    scans env input (Suc i) (ts @ [TClose])"
| scan_quoted: "scans env input i ts \<Longrightarrow> i < length input \<Longrightarrow> input ! i = 0x22 \<Longrightarrow>
    unquote (drop (Suc i) input) = Some (text, drop j input) \<Longrightarrow> j \<le> length input \<Longrightarrow>
    analyze env text lim = Inr a \<Longrightarrow>
    scans env input j (ts @ [TLit (literal_expr True False (terms_of a))])"
| scan_operator: "scans env input i ts \<Longrightarrow> raw = takeWhile word_byte (drop i input) \<Longrightarrow>
    operator_word raw = Some k \<Longrightarrow> scans env input (i + length raw) (ts @ [TOp k])"
| scan_word: "scans env input i ts \<Longrightarrow> raw = takeWhile word_byte (drop i input) \<Longrightarrow>
    operator_word raw = None \<Longrightarrow> strip_star raw = (text, prefix) \<Longrightarrow> text \<noteq> [] \<Longrightarrow>
    0x2A \<notin> set text \<Longrightarrow> 0x5C \<notin> set text \<Longrightarrow> analyze env text lim = Inr a \<Longrightarrow> length (terms_of a) = 1 \<Longrightarrow>
    scans env input (i + length raw) (ts @ [TLit (literal_expr False prefix (terms_of a))])"

lemma quoted_loop_unquote:
  "quoted_loop env input from limit cursor bytes budget = Inr (text, cursor', budget') \<Longrightarrow>
    \<exists>t. elems text = elems bytes @ t \<and> unquote (drop cursor input) = Some (t, drop cursor' input)"
proof (induction env input "from" limit cursor bytes budget rule: quoted_loop.induct)
  case (1 env input "from" limit cursor bytes budget)
  note q = 1(3)[unfolded quoted_loop.simps[of env input "from" limit cursor bytes budget]]
  let ?b = "input ! cursor"
  have lt: "cursor < length input" using q by (auto split: if_splits)
  then have d: "drop cursor input = ?b # drop (Suc cursor) input" by (simp add: Cons_nth_drop_Suc)
  consider "?b = 0x22" | (esc) "?b \<noteq> 0x22" "?b = 0x5C" | (plain) "?b \<noteq> 0x22" "?b \<noteq> 0x5C" by blast
  then show ?case
  proof cases
    case 1
    then show ?thesis using q lt d by (auto simp: res_simps Let_def unquote.simps)
  next
    case esc
    let ?c = "input ! (cursor + 1)"
    from q lt esc obtain v b1 where l: "cursor + 1 < length input" "\<not> (?c \<noteq> 0x22 \<and> ?c \<noteq> 0x5C)"
      and r: "reserve (env_alloc env) 1 bytes 1 limit budget = Inr (v, b1)"
      and n: "quoted_loop env input from limit (cursor + 2) (vec_push v ?c) b1 = Inr (text, cursor', budget')"
      by (auto simp: res_simps Let_def simp del: One_nat_def split: if_splits)
    from 1(1)[OF lt refl esc l(1) refl l(2) r refl n] obtain t where
      t: "elems text = elems bytes @ ?c # t" "unquote (drop (cursor + 2) input) = Some (t, drop cursor' input)"
      using reserve_elems[OF r] by auto
    have "drop (Suc cursor) input = ?c # drop (cursor + 2) input"
      using l(1) by (simp add: Cons_nth_drop_Suc)
    then show ?thesis using t esc l(2) d by (auto simp: unquote.simps)
  next
    case plain
    let ?n = "utf8_len ?b"
    from q lt plain obtain v b1 where r: "reserve (env_alloc env) 1 bytes ?n limit budget = Inr (v, b1)"
      and n: "quoted_loop env input from limit (cursor + ?n) (vec_extend v (take ?n (drop cursor input))) b1 =
        Inr (text, cursor', budget')"
      by (auto simp: res_simps Let_def simp del: One_nat_def)
    from 1(2)[OF lt refl plain refl r refl n] obtain t where
      t: "elems text = elems bytes @ take ?n (drop cursor input) @ t"
        "unquote (drop (cursor + ?n) input) = Some (t, drop cursor' input)"
      using reserve_elems[OF r] by auto
    have "unquote (drop cursor input) = Some (take ?n (drop cursor input) @ t, drop cursor' input)"
      using t(2) plain unquote.simps(2)[of ?b "drop (Suc cursor) input"]
      by (simp only: d[symmetric] drop_drop add.commute) simp
    then show ?thesis using t(1) by simp
  qed
qed

section \<open>The parser\<close>

definition parser_ok :: "env \<Rightarrow> str \<Rightarrow> query_limits \<Rightarrow> parser \<Rightarrow> tok list \<Rightarrow> bool" where
  "parser_ok env input limits st ts \<longleftrightarrow>
     (let b = ps_builder st in
      scans env input (ps_cursor st) ts \<and> ps_cursor st \<le> length input \<and> bl_limits b = limits \<and>
      (if ps_need_operand st then needs b (op_kinds b) ts else reading b (op_kinds b) 3 ts))"

lemma budget_irrelevant [simp]:
  "needs (b\<lparr>bl_budget := x\<rparr>) ops ts \<longleftrightarrow> needs b ops ts" "reading (b\<lparr>bl_budget := x\<rparr>) ops p ts \<longleftrightarrow> reading b ops p ts"
  by (simp_all add: needs_def reading_def)

lemma parse_word_ok:
  assumes s: "parse_word env input st = Inr st'" and i: "parser_ok env input limits st ts"
    and ok: "alloc_ok (env_alloc env)" "words_ok env"
  shows "\<exists>t. scans env input (ps_cursor st') (ts @ [t]) \<and> bl_limits (ps_builder st') = limits \<and>
    (if ps_need_operand st' then needs (ps_builder st') (op_kinds (ps_builder st')) (ts @ [t])
     else reading (ps_builder st') (op_kinds (ps_builder st')) 3 (ts @ [t]))"
proof -
  define raw where "raw = takeWhile word_byte (drop (ps_cursor st) input)"
  let ?b = "ps_builder st"
  have sc: "scans env input (ps_cursor st) ts" and lim: "bl_limits ?b = limits"
    using i by (auto simp: parser_ok_def Let_def)
  show ?thesis
  proof (cases "operator_word raw")
    case (Some k)
    let ?op = "\<lparr>op_kind = k, op_offset = ps_cursor st\<rparr>"
    from s Some obtain b where n: "(k = OpNot) = ps_need_operand st"
      and o: "builder_operator env ?b ?op = Inr b"
      and st': "st' = st\<lparr>ps_cursor := ps_cursor st + length raw, ps_builder := b, ps_need_operand := True\<rparr>"
      by (auto simp: parse_word_def Let_def res_simps raw_def[symmetric] split: if_splits)
    have k: "k = OpNot \<or> k = OpAnd \<or> k = OpOr" using Some by (auto simp: operator_word_def split: if_splits)
    have "needs b (op_kinds b) (ts @ [TOp k]) \<and> bl_limits b = bl_limits ?b"
    proof (cases "k = OpNot")
      case True
      then show ?thesis using builder_operator_operand[OF o, of ts] i n by (simp add: parser_ok_def Let_def)
    next
      case False
      then show ?thesis using builder_operator_binary[OF o, of ts] i n k by (simp add: parser_ok_def Let_def)
    qed
    then show ?thesis using scan_operator[OF sc raw_def Some] lim st' by auto
  next
    case None
    obtain body prefix where ss: "strip_star raw = (body, prefix)" by fastforce
    from s None ss obtain b where n: "ps_need_operand st" "body \<noteq> []" "0x2A \<notin> set body" "0x5C \<notin> set body"
      and l: "literal env ?b body False prefix (ps_cursor st) = Inr b"
      and st': "st' = st\<lparr>ps_cursor := ps_cursor st + length raw, ps_builder := b, ps_need_operand := False\<rparr>"
      by (auto simp: parse_word_def Let_def res_simps raw_def[symmetric] split: if_splits)
    have "needs ?b (op_kinds ?b) ts" using i n(1) by (simp add: parser_ok_def Let_def)
    from literal_reading[OF l this ok] obtain lm a where a: "analyze env body lm = Inr a"
      "reading b (op_kinds b) 3 (ts @ [TLit (literal_expr False prefix (terms_of a))])" "bl_limits b = bl_limits ?b" "length (terms_of a) = 1"
      by blast
    then show ?thesis using scan_word[OF sc raw_def None ss n(2-4) a(1,4)] lim st' by auto
  qed
qed

lemma parse_step_ok:
  assumes s: "parse_step env input limits st = Inr st'" and i: "parser_ok env input limits st ts"
    and c: "ps_cursor st < length input" and ok: "alloc_ok (env_alloc env)" "words_ok env"
  shows "\<exists>ts'. parser_ok env input limits st' ts'"
proof -
  let ?b = "ps_builder st" and ?x = "input ! ps_cursor st"
  have sc: "scans env input (ps_cursor st) ts" and lim: "bl_limits ?b = limits"
    and st: "ps_need_operand st \<Longrightarrow> needs ?b (op_kinds ?b) ts" "\<not> ps_need_operand st \<Longrightarrow> reading ?b (op_kinds ?b) 3 ts"
    using i by (auto simp: parser_ok_def Let_def)
  have cu: "ps_cursor st' \<le> length input" using parse_step_cursor[OF s c] by simp
  consider (space) "is_ascii_whitespace ?x" | (opn) "\<not> is_ascii_whitespace ?x" "?x = 0x28"
    | (cls) "\<not> is_ascii_whitespace ?x" "?x = 0x29" | (quot) "\<not> is_ascii_whitespace ?x" "?x = 0x22"
    | (word) "word_byte ?x" unfolding word_byte_def by blast
  then show ?thesis
  proof cases
    case space
    then have "st' = st\<lparr>ps_cursor := Suc (ps_cursor st)\<rparr>" using s by (simp add: parse_step_def Let_def)
    then show ?thesis using scan_space[OF sc c space] i cu by (auto simp: parser_ok_def Let_def)
  next
    case opn
    from s opn obtain par b where n: "ps_need_operand st"
      and o: "builder_operator env ?b \<lparr>op_kind = OpOpen, op_offset = ps_cursor st\<rparr> = Inr b"
      and st': "st' = st\<lparr>ps_parentheses := par, ps_builder := b, ps_cursor := Suc (ps_cursor st)\<rparr>"
      by (auto simp: parse_step_def Let_def res_simps split: if_splits)
    from builder_operator_operand[OF o st(1)[OF n]] scan_open[OF sc c opn(2)] n st' cu lim
    show ?thesis by (auto simp: parser_ok_def Let_def)
  next
    case cls
    from s cls obtain par b where n: "\<not> ps_need_operand st"
      and o: "builder_close env (ps_cursor st) ?b = Inr b"
      and st': "st' = st\<lparr>ps_parentheses := par, ps_builder := b, ps_cursor := Suc (ps_cursor st)\<rparr>"
      by (auto simp: parse_step_def Let_def res_simps split: if_splits)
    from builder_close_reading[OF o st(2)[OF n]] scan_close[OF sc c cls(2)] n st' cu lim
    show ?thesis by (auto simp: parser_ok_def Let_def)
  next
    case quot
    from s quot obtain body j bud b bud' where n: "ps_need_operand st"
      and q: "quoted env input (ps_cursor st) (ql_bytes limits) (bl_budget ?b) = Inr (body, j, bud)"
      and l: "literal env (?b\<lparr>bl_budget := bud\<rparr>) (elems body) True False (ps_cursor st) = Inr b"
      and st': "st' = st\<lparr>ps_builder := b\<lparr>bl_budget := bud'\<rparr>, ps_cursor := j, ps_need_operand := False\<rparr>"
      by (auto simp: parse_step_def Let_def res_simps split: if_splits)
    have u: "unquote (drop (Suc (ps_cursor st)) input) = Some (elems body, drop j input)" "j \<le> length input"
      using quoted_loop_unquote[OF q[unfolded quoted_def]] quoted_loop_cursor[OF q[unfolded quoted_def]] by auto
    from literal_reading[OF l _ ok, of ts] st(1)[OF n] obtain lm a where a: "analyze env (elems body) lm = Inr a"
      "reading b (op_kinds b) 3 (ts @ [TLit (literal_expr True False (terms_of a))])" "bl_limits b = bl_limits ?b"
      by auto
    from scan_quoted[OF sc c quot(2) u a(1)] a st' lim u(2) show ?thesis
      by (auto simp: parser_ok_def Let_def)
  next
    case word
    then have "parse_word env input st = Inr st'" using s by (simp add: parse_step_def Let_def word_byte_def)
    from parse_word_ok[OF this i ok] cu show ?thesis by (auto simp: parser_ok_def Let_def)
  qed
qed

lemma parse_loop_ok:
  "parse_loop env input limits st = Inr st' \<Longrightarrow> parser_ok env input limits st ts \<Longrightarrow>
    alloc_ok (env_alloc env) \<Longrightarrow> words_ok env \<Longrightarrow>
    \<exists>ts'. parser_ok env input limits st' ts' \<and> ps_cursor st' = length input"
proof (induction env input limits st arbitrary: ts rule: parse_loop.induct)
  case (1 env input limits st)
  show ?case
  proof (cases "ps_cursor st < length input")
    case True
    then obtain s1 where s: "parse_step env input limits st = Inr s1" "parse_loop env input limits s1 = Inr st'"
      using 1(2) by (auto simp: parse_loop.simps[of env input limits st] res_simps)
    from parse_step_ok[OF s(1) 1(3) True 1(4,5)] obtain ts1 where "parser_ok env input limits s1 ts1" by blast
    from 1(1)[OF True s(1,2) this 1(4,5)] show ?thesis .
  next
    case False
    then have "st' = st" using 1(2) by (simp add: parse_loop.simps[of env input limits st])
    then show ?thesis using False 1(3) by (auto simp: parser_ok_def Let_def)
  qed
qed

text \<open>The sentence and the tree of a parsed query.\<close>

definition query_sentence :: "env \<Rightarrow> str \<Rightarrow> tok list \<Rightarrow> expr \<Rightarrow> bool" where
  "query_sentence env input ts e \<longleftrightarrow> scans env input (length input) ts \<and>
     (if ts = [] then e = ENone else derives 1 ts e)"

lemma derives_ne: "derives p ts e \<Longrightarrow> ts \<noteq> []"
  by (induction rule: derives.induct) auto

lemma query_parse_builds:
  assumes p: "query_parse env input limits = Inr q" and ok: "alloc_ok (env_alloc env)" "words_ok env"
  obtains ts e b where "query_sentence env input ts e" "builds b [e]" "bl_limits b = limits"
    "q_nodes q = elems (bl_nodes b)" "q_root q = elems (bl_values b) ! 0" "q_terms q = bl_terms b" "q_source q = input"
proof -
  let ?s0 = "\<lparr>ps_cursor = 0, ps_need_operand = True, ps_parentheses = 0, ps_builder = builder_new limits\<rparr>"
  from p obtain st where l: "parse_loop env input limits ?s0 = Inr st" and f: "parse_finish env input st = Inr q"
    by (auto simp: query_parse_def res_simps split: if_splits)
  have "builds (builder_new limits) []"
    by (simp add: builds_def builder_new_def vec_len_def)
  then have "parser_ok env input limits ?s0 []"
    using awaits.empty by (auto simp: parser_ok_def needs_def builder_new_def intro: scan_start)
  from parse_loop_ok[OF l this ok] obtain ts where st: "parser_ok env input limits st ts" "ps_cursor st = length input"
    by blast
  let ?b = "ps_builder st"
  from f obtain b1 b2 where
    b1: "(if elems (bl_nodes ?b) = [] \<and> elems (bl_operators ?b) = [] then add_node env ?b KNone
         else if ps_need_operand st then Inl (QuerySyntax (length input)) else Inr ?b) = Inr b1"
    and b2: "reduce_all env b1 = Inr b2"
    and q: "q_nodes q = elems (bl_nodes b2)" "q_root q = elems (bl_values b2) ! 0" "q_terms q = bl_terms b2" "q_source q = input"
    by (auto simp: parse_finish_def Let_def res_simps dest!: copy_text_elems split: if_splits)
  have "\<exists>e. query_sentence env input ts e \<and> builds b2 [e] \<and> bl_limits b2 = limits"
  proof (cases "elems (bl_nodes ?b) = [] \<and> elems (bl_operators ?b) = []")
    case True
    have ts: "builds ?b [] \<and> ts = [] \<and> bl_limits ?b = limits"
    proof (cases "ps_need_operand st")
      case need: True
      then show ?thesis using st True by (auto simp: parser_ok_def Let_def needs_def elim!: awaits_Nil)
    next
      case False
      then obtain es e where "builds ?b (es @ [e])" using st by (auto simp: parser_ok_def Let_def reading_def)
      then show ?thesis using True by (auto simp: builds_def flatten_all_append)
    qed
    have a: "add_node env ?b (root_kind 0 ENone) = Inr b1" using b1 True by simp
    have "builds b1 ([] @ [ENone])" "bl_limits b1 = bl_limits ?b"
      using add_leaf_builds[OF a, of ?b "[]" "bl_budget ?b"] ts by (auto simp: builds_def)
    moreover have "b2 = b1"
      using b2 True add_node_operators[OF a] by (simp add: reduce_all.simps[of env b1] vec_pop_def)
    ultimately show ?thesis using st ts by (auto simp: query_sentence_def parser_ok_def Let_def)
  next
    case False
    then have n: "\<not> ps_need_operand st" "b1 = ?b" using b1 by (auto split: if_splits)
    then have "reading b1 (op_kinds b1) 3 ts" "bl_limits b1 = limits" using st by (auto simp: parser_ok_def Let_def)
    from reduce_all_reading[OF b2 this(1)] this(2) st show ?thesis
      by (auto simp: query_sentence_def parser_ok_def Let_def dest: derives_ne)
  qed
  then show thesis using that q by blast
qed

section \<open>Properties\<close>

lemma builds_single:
  "builds b [e] \<Longrightarrow> elems (bl_nodes b) = flatten 0 e \<and> elems (bl_values b) ! 0 = expr_size e - 1 \<and>
    expr_ok (bl_limits b) e \<and> expr_size e \<le> ql_nodes (bl_limits b) \<and> bl_terms b = length (expr_terms e) \<and>
    bl_terms b \<le> ql_terms (bl_limits b)"
  by (auto simp: builds_def vec_len_def)

text \<open>C3: the parser is sound for the query language: whatever it accepts scans into a sentence of
  the grammar, in which NOT binds tighter than AND and AND tighter than OR, and the nodes it
  returns are the post-order layout of the tree of that sentence, with the root last, every
  recorded depth the height of its subtree, and nodes, depth, terms and term lengths within the
  limits; input without tokens is the query that matches nothing.\<close>

theorem query_parse_sound:
  assumes "query_parse env input limits = Inr q" "alloc_ok (env_alloc env)" "words_ok env"
  shows "\<exists>ts e. query_sentence env input ts e \<and> q_nodes q = flatten 0 e \<and> q_root q = expr_size e - 1 \<and>
    q_source q = input \<and> expr_size e \<le> ql_nodes limits \<and> height e \<le> unat (ql_depth limits) \<and>
    q_terms q = length (expr_terms e) \<and> q_terms q \<le> ql_terms limits \<and>
    (\<forall>t \<in> set (expr_terms e). length t \<le> ql_term_bytes limits)"
proof -
  obtain ts e b where q: "query_sentence env input ts e" "builds b [e]" "bl_limits b = limits"
    "q_nodes q = elems (bl_nodes b)" "q_root q = elems (bl_values b) ! 0" "q_terms q = bl_terms b" "q_source q = input"
    by (rule query_parse_builds[OF assms])
  with builds_single[OF q(2)] show ?thesis by (auto simp: expr_ok_def intro!: exI[of _ ts] exI[of _ e])
qed

theorem query_parse_sound_witness:
  "\<exists>q ts e. query_parse plain_env [0x4E, 0x4F, 0x54, 0x20, 0x61, 0x20, 0x41, 0x4E, 0x44, 0x20, 0x62] query_limits_default = Inr q \<and>
     query_sentence plain_env [0x4E, 0x4F, 0x54, 0x20, 0x61, 0x20, 0x41, 0x4E, 0x44, 0x20, 0x62] ts e \<and>
     map nd_kind (flatten 0 e) = [KTerm [0x61], KNot 0, KTerm [0x62], KAnd 1 2]"
proof -
  let ?i = "[0x4E, 0x4F, 0x54, 0x20, 0x61, 0x20, 0x41, 0x4E, 0x44, 0x20, 0x62] :: str"
  have "(case query_parse plain_env ?i query_limits_default of Inl _ \<Rightarrow> [] | Inr q \<Rightarrow> map nd_kind (q_nodes q)) =
      [KTerm [0x61], KNot 0, KTerm [0x62], KAnd 1 2]" by code_simp
  then obtain q where q: "query_parse plain_env ?i query_limits_default = Inr q"
    "map nd_kind (q_nodes q) = [KTerm [0x61], KNot 0, KTerm [0x62], KAnd 1 2]" by (auto split: sum.splits)
  from query_parse_sound[OF q(1) plain_env_ok(1,2)] q show ?thesis by fastforce
qed

end
