(* ===== verification/Work.thy ===== *)
theory Work
  imports Budget
begin

text \<open>
  Computations that charge search work (\<open>memory::Work\<close>, crates/pin-core/src/memory.rs): a function
  from the work left to a result and the work left after it, or the search-work error. \<open>costs c v\<close>
  is the computation that takes exactly \<open>c\<close> units and yields \<open>v\<close>; \<open>runs m v\<close> says that \<open>m\<close> is such a
  computation for some \<open>c\<close>: it yields \<open>v\<close> whenever the work suffices and that error otherwise.
\<close>

type_synonym 'a worker = "nat \<Rightarrow> ('a \<times> nat) result"

definition costs :: "nat \<Rightarrow> 'a \<Rightarrow> 'a worker" where
  "costs c v work = (if c \<le> work then Inr (v, work - c) else Inl (Limit ''search work''))"

definition runs :: "'a worker \<Rightarrow> 'a \<Rightarrow> bool" where
  "runs m v \<longleftrightarrow> (\<exists>c. m = costs c v)"

lemma costs_bind: "and_then (costs c v work) (\<lambda>(v, w). costs d (f v) w) = costs (c + d) (f v) work"
  by (auto simp: costs_def)

lemma runs_ret [intro]: "runs (\<lambda>w. Inr (v, w)) v"
  unfolding runs_def by (rule exI[of _ 0]) (simp add: costs_def fun_eq_iff)

lemma runs_bind:
  assumes "runs m v" "runs (f v) u"
  shows "runs (\<lambda>w. and_then (m w) (\<lambda>(v, w). f v w)) u"
proof -
  from assms obtain c d where "m = costs c v" "f v = costs d u" by (auto simp: runs_def)
  then show ?thesis unfolding runs_def by (intro exI[of _ "c + d"]) (auto simp: costs_def fun_eq_iff)
qed

lemma runs_charge:
  assumes "runs f u"
  shows "runs (\<lambda>w. and_then (work_charge w n) (\<lambda>w. f w)) u"
proof -
  from assms obtain d where "f = costs d u" by (auto simp: runs_def)
  then show ?thesis unfolding runs_def
    by (intro exI[of _ "n + d"]) (auto simp: costs_def work_charge_def checked_sub_def fun_eq_iff)
qed

lemma runs_Inr: "runs m v \<Longrightarrow> m w = Inr (u, w') \<Longrightarrow> u = v"
  by (auto simp: runs_def costs_def split: if_splits)

lemma runs_Inl: "runs m v \<Longrightarrow> m w = Inl e \<Longrightarrow> e = Limit ''search work''"
  by (auto simp: runs_def costs_def split: if_splits)

lemma runs_enough: "runs m v \<Longrightarrow> \<exists>c. \<forall>w \<ge> c. m w = Inr (v, w - c)"
  by (auto simp: runs_def costs_def)

text \<open>A computation that fails whatever the work, or runs to a value with a property.\<close>

definition settles :: "'a worker \<Rightarrow> ('a \<Rightarrow> bool) \<Rightarrow> bool" where
  "settles m p \<longleftrightarrow> (\<exists>v. runs m v \<and> p v) \<or> (\<forall>w. \<exists>e. m w = Inl e)"

lemma settlesI: "runs m v \<Longrightarrow> p v \<Longrightarrow> settles m p"
  by (auto simp: settles_def)

lemma settles_fail: "(\<And>w. \<exists>e. m w = Inl e) \<Longrightarrow> settles m p"
  by (auto simp: settles_def)

lemma settles_mono: "settles m p \<Longrightarrow> (\<And>v. p v \<Longrightarrow> q v) \<Longrightarrow> settles m q"
  by (auto simp: settles_def)

lemma settles_bind:
  assumes "settles m p" "\<And>v. p v \<Longrightarrow> settles (f v) q"
  shows "settles (\<lambda>w. and_then (m w) (\<lambda>(v, w). f v w)) q"
proof (cases "\<forall>w. \<exists>e. m w = Inl e")
  case True
  have "\<exists>e. and_then (m w) (\<lambda>(v, w). f v w) = Inl e" for w
    using spec[OF True, of w] by auto
  then show ?thesis by (rule settles_fail)
next
  case False
  then obtain v where v: "runs m v" "p v" using assms(1) by (auto simp: settles_def)
  show ?thesis
  proof (cases "\<forall>w. \<exists>e. f v w = Inl e")
    case True
    obtain c where c: "m = costs c v" using v(1) by (auto simp: runs_def)
    have "\<exists>e. and_then (m w) (\<lambda>(v, w). f v w) = Inl e" for w
      using spec[OF True, of "w - c"] by (auto simp: c costs_def)
    then show ?thesis by (rule settles_fail)
  next
    case False
    then obtain u where u: "runs (f v) u" "q u" using assms(2)[OF v(2)] by (auto simp: settles_def)
    show ?thesis by (rule settlesI[where p = q, OF _ u(2)]) (rule runs_bind[of m v f, OF v(1) u(1)])
  qed
qed

lemma settles_charge:
  assumes "settles f q"
  shows "settles (\<lambda>w. and_then (work_charge w n) (\<lambda>w. f w)) q"
proof (cases "\<forall>w. \<exists>e. f w = Inl e")
  case True
  have "\<exists>e. and_then (work_charge w n) (\<lambda>w. f w) = Inl e" for w
    using True by (cases "work_charge w n") simp_all
  then show ?thesis by (rule settles_fail)
next
  case False
  then obtain u where u: "runs f u" "q u" using assms by (auto simp: settles_def)
  show ?thesis by (rule settlesI[where p = q, OF _ u(2)]) (rule runs_charge[of f, OF u(1)])
qed

lemma settles_Inr:
  assumes "settles m p" "m w = Inr (v, w')"
  shows "runs m v \<and> p v"
proof -
  have "\<not> (\<forall>w. \<exists>e. m w = Inl e)" using assms(2) by (metis sum.distinct(1))
  then obtain u where u: "runs m u" "p u" using assms(1) by (auto simp: settles_def)
  then show ?thesis using runs_Inr[of m u w v w'] assms(2) by simp
qed

end
