(* ===== verification/Oracle.thy ===== *)
theory Oracle
  imports QueryGrammar Work
begin

text \<open>
  The document-at-a-time oracle (crates/pin-core/src/oracle.rs), which defines what a query matches:
  the evaluation loop with its work accounting, the meaning of expressions on the terms of a
  document, and the proof that the loop computes that meaning at an exact cost.
\<close>

section \<open>Definitions\<close>

text \<open>The loops of the \<open>Term\<close> and \<open>Prefix\<close> arms.\<close>

fun find_token :: "(token \<Rightarrow> bool) \<Rightarrow> token list \<Rightarrow> nat \<Rightarrow> (bool \<times> nat) result" where
  "find_token p [] work = Inr (False, work)"
| "find_token p (token # tokens) work =
     and_then (work_charge work 1) (\<lambda>work.
       if p token then Inr (True, work) else find_token p tokens work)"

text \<open>The inner loop of the \<open>Phrase\<close> arm, over the terms with their distances.\<close>

fun phrase_at :: "analyzed \<Rightarrow> nat \<Rightarrow> (nat \<times> str) list \<Rightarrow> nat \<Rightarrow> (bool \<times> nat) result" where
  "phrase_at document first [] work = Inr (True, work)"
| "phrase_at document first ((distance, term) # rest) work =
     and_then (work_charge work 1) (\<lambda>work.
       if (case analyzed_token document (first + distance) of None \<Rightarrow> True | Some token \<Rightarrow> tk_term token \<noteq> term)
       then Inr (False, work) else phrase_at document first rest work)"

fun find_phrase :: "analyzed \<Rightarrow> str list \<Rightarrow> nat list \<Rightarrow> nat \<Rightarrow> (bool \<times> nat) result" where
  "find_phrase document terms [] work = Inr (False, work)"
| "find_phrase document terms (first # starts) work =
     (if length terms > unat (analyzed_len document) - first then Inr (False, work)
      else and_then (phrase_at document first (enumerate 0 terms) work) (\<lambda>(equal, work).
        if equal then Inr (True, work) else find_phrase document terms starts work))"

definition oracle_node :: "analyzed \<Rightarrow> bool list \<times> nat \<Rightarrow> node \<Rightarrow> (bool list \<times> nat) result" where
  "oracle_node document st node =
     (let vals = fst st in
      and_then (work_charge (snd st) 1) (\<lambda>work.
      and_then
        (case nd_kind node of
           KNone \<Rightarrow> Inr (False, work)
         | KTerm term \<Rightarrow> find_token (\<lambda>token. tk_term token = term) (analyzed_tokens document) work
         | KPrefix prefix \<Rightarrow> find_token (\<lambda>token. starts_with (tk_term token) prefix) (analyzed_tokens document) work
         | KPhrase terms \<Rightarrow> find_phrase document terms [0..<unat (analyzed_len document)] work
         | KNot child \<Rightarrow> Inr (\<not> vals ! child, work)
         | KAnd left right \<Rightarrow> Inr (vals ! left \<and> vals ! right, work)
         | KOr left right \<Rightarrow> Inr (vals ! left \<or> vals ! right, work)) (\<lambda>(value, work).
      Inr (vals @ [value], work))))"

definition oracle_matches :: "env \<Rightarrow> analyzed \<Rightarrow> query \<Rightarrow> nat \<Rightarrow> nat \<Rightarrow> bool result" where
  "oracle_matches env document query memory_bytes max_steps =
     (if analyzed_profile document \<noteq> query_profile query then Inl InvalidProfile else
      and_then (vector (env_alloc env) 1 (query_node_count query) (budget_new memory_bytes)) (\<lambda>(vals :: bool vec, _).
      and_then (try_fold (oracle_node document) (elems vals, max_steps) (q_nodes query)) (\<lambda>(vals, _).
      Inr (vals ! q_root query))))"

definition matches_nullable :: "env \<Rightarrow> analyzed option \<Rightarrow> query \<Rightarrow> nat \<Rightarrow> nat \<Rightarrow> bool option result" where
  "matches_nullable env document query memory_bytes max_steps =
     (case document of
        None \<Rightarrow> Inr None
      | Some document \<Rightarrow> and_then (oracle_matches env document query memory_bytes max_steps) (\<lambda>b. Inr (Some b)))"

section \<open>Meaning and cost\<close>

definition phrase_occurs :: "str list \<Rightarrow> str list \<Rightarrow> nat \<Rightarrow> bool" where
  "phrase_occurs ws ts s \<longleftrightarrow> take (length ts) (drop s ws) = ts"

fun holds :: "str list \<Rightarrow> expr \<Rightarrow> bool" where
  "holds ws ENone \<longleftrightarrow> False"
| "holds ws (ETerm t) \<longleftrightarrow> t \<in> set ws"
| "holds ws (EPrefix p) \<longleftrightarrow> (\<exists>w \<in> set ws. starts_with w p)"
| "holds ws (EPhrase ts) \<longleftrightarrow> (\<exists>s < length ws. phrase_occurs ws ts s)"
| "holds ws (ENot e) \<longleftrightarrow> \<not> holds ws e"
| "holds ws (EAnd l r) \<longleftrightarrow> holds ws l \<and> holds ws r"
| "holds ws (EOr l r) \<longleftrightarrow> holds ws l \<or> holds ws r"

text \<open>Tokens looked at until the first hit, terms compared until the first difference, and
  comparisons made over the windows of a phrase until the first occurrence.\<close>

fun scan_cost :: "('a \<Rightarrow> bool) \<Rightarrow> 'a list \<Rightarrow> nat" where
  "scan_cost p [] = 0"
| "scan_cost p (x # xs) = (if p x then 1 else Suc (scan_cost p xs))"

fun compare_cost :: "str list \<Rightarrow> str list \<Rightarrow> nat" where
  "compare_cost ws [] = 0"
| "compare_cost [] (t # ts) = 1"
| "compare_cost (w # ws) (t # ts) = (if w = t then Suc (compare_cost ws ts) else 1)"

fun phrase_cost :: "str list \<Rightarrow> str list \<Rightarrow> nat list \<Rightarrow> nat" where
  "phrase_cost ws ts [] = 0"
| "phrase_cost ws ts (s # ss) =
     (if length ts > length ws - s then 0
      else compare_cost (drop s ws) ts + (if phrase_occurs ws ts s then 0 else phrase_cost ws ts ss))"

fun eval_cost :: "str list \<Rightarrow> expr \<Rightarrow> nat" where
  "eval_cost ws ENone = 1"
| "eval_cost ws (ETerm t) = Suc (scan_cost (\<lambda>w. w = t) ws)"
| "eval_cost ws (EPrefix p) = Suc (scan_cost (\<lambda>w. starts_with w p) ws)"
| "eval_cost ws (EPhrase ts) = Suc (phrase_cost ws ts [0..<length ws])"
| "eval_cost ws (ENot e) = Suc (eval_cost ws e)"
| "eval_cost ws (EAnd l r) = Suc (eval_cost ws l + eval_cost ws r)"
| "eval_cost ws (EOr l r) = Suc (eval_cost ws l + eval_cost ws r)"

lemma find_token_costs:
  "find_token p ts work = costs (scan_cost p ts) (list_ex p ts) work"
proof (induction ts arbitrary: work)
  case (Cons t ts)
  then show ?case by (cases work) (auto simp: costs_def work_charge_def checked_sub_def)
qed (simp add: costs_def)

lemma scan_cost_map: "scan_cost p (map f xs) = scan_cost (\<lambda>x. p (f x)) xs"
  by (induction xs) auto

lemma phrase_at_costs:
  "phrase_at a s (enumerate d ts) work =
     costs (compare_cost (drop (s + d) (terms_of a)) ts) (take (length ts) (drop (s + d) (terms_of a)) = ts) work"
proof (induction ts arbitrary: d work)
  case (Cons t ts)
  show ?case
  proof (cases "s + d < length (terms_of a)")
    case True
    then have "drop (s + d) (terms_of a) = terms_of a ! (s + d) # drop (s + Suc d) (terms_of a)"
      by (simp add: Cons_nth_drop_Suc)
    then show ?thesis using True Cons[of "Suc d"]
      by (cases work) (auto simp: analyzed_token_terms costs_def work_charge_def checked_sub_def)
  next
    case False
    then show ?thesis by (cases work) (auto simp: analyzed_token_terms costs_def work_charge_def checked_sub_def)
  qed
qed (simp add: costs_def)

lemma find_phrase_costs:
  assumes n: "unat (analyzed_len a) = length (terms_of a)"
  shows "sorted_wrt (<) ss \<Longrightarrow>
    find_phrase a ts ss work = costs (phrase_cost (terms_of a) ts ss) (\<exists>s \<in> set ss. phrase_occurs (terms_of a) ts s) work"
proof (induction ss arbitrary: work)
  case (Cons s ss)
  let ?ws = "terms_of a"
  have no: "\<not> phrase_occurs ?ws ts x" if "length ts > length ?ws - s" "x \<in> set (s # ss)" for x
  proof
    assume "phrase_occurs ?ws ts x"
    then have "length ts \<le> length ?ws - x"
      unfolding phrase_occurs_def by (metis length_drop length_take min.cobounded1 min.commute)
    moreover have "s \<le> x" using that Cons.prems by auto
    ultimately show False using that(1) by simp
  qed
  show ?case
  proof (cases "length ts > length ?ws - s")
    case True
    then show ?thesis using no[OF True] n by (auto simp: costs_def)
  next
    case False
    then show ?thesis
      using Cons n phrase_at_costs[of a s 0 ts work]
      by (auto simp: costs_def phrase_occurs_def split: if_splits)
  qed
qed (simp add: costs_def)

lemma oracle_leaf:
  assumes "parts e = []" "unat (analyzed_len a) = length (terms_of a)"
  shows "oracle_node a (vs, work) (root_node b e) = costs (eval_cost (terms_of a) e) (vs @ [holds (terms_of a) e]) work"
proof -
  have tok: "find_token (\<lambda>t. p (tk_term t)) (analyzed_tokens a) w = costs (scan_cost p (terms_of a)) (list_ex p (terms_of a)) w" for p w
    unfolding find_token_costs analyzed_tokens_terms[symmetric] scan_cost_map by (simp add: list_ex_iff)
  have ph: "find_phrase a ts [0..<unat (analyzed_len a)] w =
      costs (phrase_cost (terms_of a) ts [0..<length (terms_of a)]) (\<exists>s < length (terms_of a). phrase_occurs (terms_of a) ts s) w" for ts w
    using find_phrase_costs[OF assms(2), of "[0..<length (terms_of a)]" ts w] by (simp add: assms(2) atLeast0LessThan Bex_def)
  show ?thesis
    using assms(1) tok[of "\<lambda>w. w = t" for t] tok[of "\<lambda>w. starts_with w t" for t] ph
    by (cases e; cases work) (auto simp: oracle_node_def Let_def root_node_def costs_def work_charge_def checked_sub_def list_ex_iff)
qed

lemma oracle_inner:
  assumes "parts e \<noteq> []" "length vs = b"
  shows "oracle_node a (vs @ concat (map (flat (holds ws)) (parts e)), work) (root_node b e) =
    costs 1 (vs @ concat (map (flat (holds ws)) (parts e)) @ [holds ws e]) work"
  using assms nth_flat_at[OF assms(2), of "holds ws" _ "[]"] nth_flat_at[OF assms(2), of "holds ws"]
    nth_flat_at[of "vs @ flat (holds ws) l" "b + expr_size l" "holds ws" r "[]" for l r]
  by (cases e; cases work) (auto simp: oracle_node_def Let_def root_node_def costs_def work_charge_def checked_sub_def)

lemma oracle_flatten:
  assumes n: "unat (analyzed_len a) = length (terms_of a)" and "length vs = b"
  shows "try_fold (oracle_node a) (vs, work) (flatten b e) =
    costs (eval_cost (terms_of a) e) (vs @ flat (holds (terms_of a)) e) work"
  using assms(2)
proof (induction e arbitrary: b vs work)
  case (ENot e)
  show ?case
    using oracle_inner[of "ENot e" vs b a "terms_of a"] ENot
    by (auto simp: try_fold_append costs_def)
next
  case (EAnd l r)
  have "length (vs @ flat (holds (terms_of a)) l) = b + expr_size l" using EAnd.prems by simp
  then show ?case
    using oracle_inner[of "EAnd l r" vs b a "terms_of a"] EAnd
    by (auto simp: try_fold_append costs_def)
next
  case (EOr l r)
  have "length (vs @ flat (holds (terms_of a)) l) = b + expr_size l" using EOr.prems by simp
  then show ?case
    using oracle_inner[of "EOr l r" vs b a "terms_of a"] EOr
    by (auto simp: try_fold_append costs_def)
qed (use oracle_leaf[OF _ n] in \<open>auto simp: costs_def\<close>)

text \<open>A query laid out from an expression.\<close>

definition lays_out :: "query \<Rightarrow> expr \<Rightarrow> bool" where
  "lays_out q e \<longleftrightarrow> q_nodes q = flatten 0 e \<and> q_root q = expr_size e - 1"

lemma oracle_eval:
  assumes q: "lays_out q e" and n: "unat (analyzed_len a) = length (terms_of a)"
    and v: "vector (env_alloc env) 1 (query_node_count q) (budget_new memory) = Inr (v :: bool vec, b)"
  shows "oracle_matches env a q memory steps =
    (if eval_cost (terms_of a) e \<le> steps then Inr (holds (terms_of a) e) else Inl (Limit ''search work''))"
proof -
  have "try_fold (oracle_node a) (elems v, steps) (q_nodes q) = costs (eval_cost (terms_of a) e) (flat (holds (terms_of a)) e) steps"
    using oracle_flatten[OF n, of "[]" 0 steps e] q vector_elems[OF v] by (simp add: lays_out_def)
  moreover have "flat (holds (terms_of a)) e ! q_root q = holds (terms_of a) e"
    using q nth_flat by (simp add: lays_out_def)
  ultimately show ?thesis
    by (simp add: oracle_matches_def analyzed_profile_def query_profile_def v costs_def del: One_nat_def)
qed

lemma analyze_len:
  "analyze env text limits = Inr doc \<Longrightarrow> alloc_ok (env_alloc env) \<Longrightarrow> words_ok env \<Longrightarrow>
    unat (analyzed_len doc) = length (terms_of doc)"
  using analyze_Inr(3)[of env "text" limits doc] unat_u32_lt[of "al_tokens limits"]
  by (intro analyzed_len_terms) simp

lemma query_parse_lays_out:
  assumes "query_parse env input limits = Inr q" "alloc_ok (env_alloc env)" "words_ok env"
  obtains ts e where "query_sentence env input ts e" "lays_out q e" "expr_ok limits e"
proof -
  obtain ts e b where q: "query_sentence env input ts e" "builds b [e]" "bl_limits b = limits"
    "q_nodes q = elems (bl_nodes b)" "q_root q = elems (bl_values b) ! 0"
    by (rule query_parse_builds[OF assms])
  with builds_single[OF q(2)] show thesis by (intro that[of ts e]) (simp_all add: lays_out_def)
qed

section \<open>Properties\<close>

text \<open>C4: the oracle decides what a query means: on an analysed document and a parsed query it returns
  whether the sentence's expression holds of the document's terms (membership, prefix, consecutive
  occurrence, and the Boolean connectives), exactly when the step limit covers the exact cost of
  the evaluation, and the search-work error otherwise.\<close>

theorem oracle_decides:
  assumes "query_parse env input limits = Inr q" "analyze env text al = Inr doc"
    and "alloc_ok (env_alloc env)" "words_ok env"
    and "vector (env_alloc env) 1 (query_node_count q) (budget_new memory) = Inr (v :: bool vec, b)"
  shows "\<exists>ts e. query_sentence env input ts e \<and> q_nodes q = flatten 0 e \<and>
    oracle_matches env doc q memory steps =
      (if eval_cost (map tk_term (analyzed_tokens doc)) e \<le> steps
       then Inr (holds (map tk_term (analyzed_tokens doc)) e) else Inl (Limit ''search work''))"
proof -
  obtain ts e where q: "query_sentence env input ts e" "lays_out q e"
    using query_parse_lays_out[OF assms(1,3,4)] by blast
  from oracle_eval[OF q(2) analyze_len[OF assms(2-4)] assms(5)] q show ?thesis
    by (auto simp: analyzed_tokens_terms lays_out_def)
qed

theorem oracle_decides_witness:
  "\<exists>q doc ts e. query_parse plain_env [0x61, 0x2A] query_limits_default = Inr q \<and>
     analyze plain_env [0x41, 0x62] analysis_limits_default = Inr doc \<and> query_sentence plain_env [0x61, 0x2A] ts e \<and>
     oracle_matches plain_env doc q 16 2 = Inr (holds (map tk_term (analyzed_tokens doc)) e)"
proof -
  let ?q = "\<lparr>q_nodes = [\<lparr>nd_kind = KPrefix [0x61], nd_depth = 1\<rparr>], q_root = 0, q_source = [0x61, 0x2A],
    q_terms = 1, q_retained_bytes = 11\<rparr>"
  let ?d = "\<lparr>an_normalized = [0x61, 0x62], an_tokens = [\<lparr>tr_start = 0, tr_end = 2\<rparr>],
    an_retained_bytes = 10, an_peak_bytes = 10\<rparr>"
  have p: "query_parse plain_env [0x61, 0x2A] query_limits_default = Inr ?q" by code_simp
  have a: "analyze plain_env [0x41, 0x62] analysis_limits_default = Inr ?d" by code_simp
  have "vector (env_alloc plain_env) 1 (query_node_count ?q) (budget_new 16) =
      Inr (\<lparr>elems = [], capacity = 1\<rparr> :: bool vec, \<lparr>mb_limit = 16, mb_used = 1, mb_peak = 1\<rparr>)" by code_simp
  from oracle_decides[OF p a plain_env_ok(1,2) this, of 2] obtain ts e where
    e: "query_sentence plain_env [0x61, 0x2A] ts e"
      "oracle_matches plain_env ?d ?q 16 2 =
        (if eval_cost (map tk_term (analyzed_tokens ?d)) e \<le> 2
         then Inr (holds (map tk_term (analyzed_tokens ?d)) e) else Inl (Limit ''search work''))" by blast
  moreover have "oracle_matches plain_env ?d ?q 16 2 = Inr True" by code_simp
  ultimately show ?thesis using p a by (auto split: if_splits)
qed

end
