(* ===== verification/Candidate.thy ===== *)
theory Candidate
  imports Oracle
begin

text \<open>
  Candidate covers (crates/pin-core/src/candidate.rs): the cost of covering each node, and the walk
  that collects the terms of a cheapest cover. The stack of the walk is a list with its top in
  front. On an arbitrary node list the walk need not end, so it is a partial function whose value
  \<open>None\<close> is divergence; on the queries the parser builds it returns.
\<close>

section \<open>Definitions\<close>

datatype candidate_plan = CEmpty | CUniverse | CTerms "str list"

definition COST_ALL :: nat where
  "COST_ALL = usize_max"

definition cover_cost :: "nat list \<Rightarrow> node \<Rightarrow> nat result" where
  "cover_cost cs node =
     (case nd_kind node of
        KNone \<Rightarrow> Inr 0
      | KTerm _ \<Rightarrow> Inr 1
      | KPhrase terms \<Rightarrow> Inr (if terms \<noteq> [] then 1 else 0)
      | KPrefix _ \<Rightarrow> Inr COST_ALL
      | KNot _ \<Rightarrow> Inr COST_ALL
      | KAnd left right \<Rightarrow> Inr (min (cs ! left) (cs ! right))
      | KOr left right \<Rightarrow>
          if cs ! left = COST_ALL \<or> cs ! right = COST_ALL then Inr COST_ALL
          else ok_or (Limit ''candidate covers'') (checked_add (cs ! left) (cs ! right)))"

partial_function (option) cover_walk ::
  "node list \<Rightarrow> nat list \<Rightarrow> nat list \<Rightarrow> str list \<Rightarrow> str list result option" where
  "cover_walk nodes cs pending terms =
     (case pending of
        [] \<Rightarrow> Some (Inr terms)
      | index # pending \<Rightarrow>
          if cs ! index = 0 then cover_walk nodes cs pending terms
          else case nd_kind (nodes ! index) of
            KTerm term \<Rightarrow> cover_walk nodes cs pending (terms @ [term])
          | KPhrase phrase \<Rightarrow>
              (case phrase of
                 [] \<Rightarrow> cover_walk nodes cs pending terms
               | term # _ \<Rightarrow> cover_walk nodes cs pending (terms @ [term]))
          | KAnd left right \<Rightarrow>
              cover_walk nodes cs ((if cs ! left \<le> cs ! right then left else right) # pending) terms
          | KOr left right \<Rightarrow> cover_walk nodes cs (left # right # pending) terms
          | _ \<Rightarrow> Some (Inl InvalidState))"

declare cover_walk.simps [code]

definition candidate_build :: "env \<Rightarrow> query \<Rightarrow> nat \<Rightarrow> candidate_plan result option" where
  "candidate_build env query memory_bytes =
     (case and_then (vector (env_alloc env) (env_size env ''usize'') (query_node_count query) (budget_new memory_bytes))
             (\<lambda>(cs :: nat vec, budget).
           and_then (try_fold (\<lambda>cs n. and_then (cover_cost cs n) (\<lambda>c. Inr (cs @ [c]))) (elems cs) (q_nodes query))
             (\<lambda>cs. Inr (cs, budget))) of
        Inl e \<Rightarrow> Some (Inl e)
      | Inr (cs, budget) \<Rightarrow>
          if cs ! q_root query = 0 then Some (Inr CEmpty)
          else if cs ! q_root query = COST_ALL then Some (Inr CUniverse)
          else case and_then (vector (env_alloc env) (env_size env ''usize'') (query_node_count query) budget)
                      (\<lambda>(_ :: nat vec, budget).
                    and_then (vector (env_alloc env) (env_size env ''&str'') (cs ! q_root query) budget)
                      (\<lambda>(terms :: str vec, budget). Inr terms)) of
              Inl e \<Rightarrow> Some (Inl e)
            | Inr terms \<Rightarrow>
                map_option (\<lambda>r. and_then r (\<lambda>terms. Inr (CTerms (remdups_adj (sort terms)))))
                  (cover_walk (q_nodes query) cs [q_root query] (elems terms)))"

section \<open>Covers of expressions\<close>

fun ccost :: "expr \<Rightarrow> nat" where
  "ccost ENone = 0"
| "ccost (ETerm t) = 1"
| "ccost (EPhrase ts) = (if ts \<noteq> [] then 1 else 0)"
| "ccost (EPrefix p) = COST_ALL"
| "ccost (ENot e) = COST_ALL"
| "ccost (EAnd l r) = min (ccost l) (ccost r)"
| "ccost (EOr l r) = (if ccost l = COST_ALL \<or> ccost r = COST_ALL then COST_ALL else ccost l + ccost r)"

text \<open>The terms the walk collects for an expression, in its order.\<close>

fun chosen :: "expr \<Rightarrow> str list" where
  "chosen (ETerm t) = [t]"
| "chosen (EPhrase (t # ts)) = [t]"
| "chosen (EAnd l r) = (if min (ccost l) (ccost r) = 0 then [] else if ccost l \<le> ccost r then chosen l else chosen r)"
| "chosen (EOr l r) = chosen l @ chosen r"
| "chosen _ = []"

lemma ccost_bound: "ccost e = COST_ALL \<or> ccost e \<le> expr_size e"
  by (induction e) auto

lemma ccost_0_chosen: "ccost e = 0 \<Longrightarrow> chosen e = []"
proof (induction e)
  case (EPhrase ts)
  then show ?case by (cases ts) auto
qed (auto simp: COST_ALL_def usize_max_def split: if_splits)

lemma ccost_0_holds: "ccost e = 0 \<Longrightarrow> phrases_ok e \<Longrightarrow> \<not> holds ws e"
  by (induction e) (auto simp: COST_ALL_def usize_max_def min_def split: if_splits)

lemma chosen_covers:
  "holds ws e \<Longrightarrow> ccost e \<noteq> COST_ALL \<Longrightarrow> phrases_ok e \<Longrightarrow> \<exists>t \<in> set (chosen e). t \<in> set ws"
proof (induction e)
  case (EPhrase ts)
  then obtain t us where ts: "ts = t # us" by (cases ts) auto
  from EPhrase.prems(1) obtain s where "s < length ws" "take (length ts) (drop s ws) = ts"
    by (auto simp: phrase_occurs_def)
  then have "t \<in> set ws" by (metis in_set_dropD in_set_takeD list.set_intros(1) ts)
  then show ?case by (simp add: ts)
next
  case (EAnd l r)
  have "ccost l \<noteq> 0" "ccost r \<noteq> 0" using EAnd.prems ccost_0_holds by auto
  then show ?case using EAnd by (auto simp: min_def split: if_splits)
qed (auto split: if_splits)

lemma chosen_terms: "set (chosen e) \<subseteq> set (expr_terms e)"
proof (induction e)
  case (EPhrase ts)
  then show ?case by (cases ts) auto
qed auto

interpretation cover_eval: flat_eval cover_cost "\<lambda>e. expr_size e < usize_max" ccost
proof
  fix e b and vs :: "nat list"
  assume g: "expr_size e < usize_max" and b: "length vs = b"
  note n = nth_flat_parts[OF b, where f = ccost and e = e]
  show "cover_cost (vs @ concat (map (flat ccost) (parts e))) (root_node b e) = Inr (ccost e)"
  proof (cases e)
    case (EOr l r)
    have c: "checked_add (ccost l) (ccost r) = Some (ccost l + ccost r)" if "ccost l \<noteq> COST_ALL" "ccost r \<noteq> COST_ALL"
      using that ccost_bound[of l] ccost_bound[of r] g EOr by (simp add: checked_add_def)
    show ?thesis using EOr n(2,3)[where l = l and r = r] c
      by (cases "ccost l = COST_ALL \<or> ccost r = COST_ALL") (auto simp: cover_cost_def root_node_def)
  next
    case (EAnd l r)
    then show ?thesis using n(2,3)[where l = l and r = r]
      by (auto simp: cover_cost_def root_node_def)
  qed (auto simp: cover_cost_def root_node_def)
next
  fix e x
  show "expr_size e < usize_max \<Longrightarrow> x \<in> set (parts e) \<Longrightarrow> expr_size x < usize_max"
    by (cases e) auto
qed

section \<open>The walk\<close>

text \<open>An expression laid out at index \<open>b\<close> of the nodes, with its costs.\<close>

definition laid_at :: "node list \<Rightarrow> nat list \<Rightarrow> nat \<Rightarrow> expr \<Rightarrow> bool" where
  "laid_at nodes cs b e \<longleftrightarrow> (\<exists>n1 n2 c1 c2. nodes = n1 @ flatten b e @ n2 \<and> length n1 = b \<and>
     cs = c1 @ flat ccost e @ c2 \<and> length c1 = b)"

lemma laid_at_root:
  assumes "laid_at nodes cs b e"
  shows "nodes ! (b + expr_size e - 1) = root_node b e" "cs ! (b + expr_size e - 1) = ccost e"
proof -
  from assms obtain n1 n2 c1 c2 where l: "nodes = n1 @ flatten b e @ n2" "length n1 = b"
    "cs = c1 @ flat ccost e @ c2" "length c1 = b" unfolding laid_at_def by blast
  show "cs ! (b + expr_size e - 1) = ccost e" using nth_flat_at[OF l(4)] l(3) by simp
  have "b + expr_size e - 1 = length n1 + (expr_size e - 1)" using expr_size_pos[of e] l(2) by linarith
  then have "nodes ! (b + expr_size e - 1) = (flatten b e @ n2) ! (expr_size e - 1)"
    unfolding l(1) by (simp only: nth_append_length_plus)
  then show "nodes ! (b + expr_size e - 1) = root_node b e"
    by (subst (asm) nth_append) (simp add: nth_flatten_root[unfolded One_nat_def])
qed

lemma laid_at_parts:
  "parts e = [l, r] \<Longrightarrow> laid_at nodes cs b e \<Longrightarrow> laid_at nodes cs b l \<and> laid_at nodes cs (b + expr_size l) r"
proof -
  assume p: "parts e = [l, r]" and "laid_at nodes cs b e"
  then obtain n1 n2 c1 c2 where a: "nodes = n1 @ flatten b e @ n2" "length n1 = b"
    "cs = c1 @ flat ccost e @ c2" "length c1 = b" unfolding laid_at_def by blast
  have "nodes = n1 @ flatten b l @ (flatten (b + expr_size l) r @ root_node b e # n2)"
    "nodes = (n1 @ flatten b l) @ flatten (b + expr_size l) r @ (root_node b e # n2)"
    "cs = c1 @ flat ccost l @ (flat ccost r @ ccost e # c2)" "cs = (c1 @ flat ccost l) @ flat ccost r @ (ccost e # c2)"
    "length (n1 @ flatten b l) = b + expr_size l" "length (c1 @ flat ccost l) = b + expr_size l"
    using a p by (simp_all add: flatten_parts[of b e] flat_parts[of ccost e])
  then show ?thesis using a(2,4) unfolding laid_at_def by blast
qed

lemma cover_walk_chosen:
  "laid_at nodes cs b e \<Longrightarrow> ccost e \<noteq> COST_ALL \<Longrightarrow>
    cover_walk nodes cs ((b + expr_size e - 1) # pending) terms = cover_walk nodes cs pending (terms @ chosen e)"
proof (induction e arbitrary: b pending terms)
  case (EAnd l r)
  note a = laid_at_parts[OF _ EAnd.prems(1), of l r] laid_at_root[OF EAnd.prems(1)]
  note c = laid_at_root(2)[OF conjunct1[OF a(1)]] laid_at_root(2)[OF conjunct2[OF a(1)]]
  have m: "ccost l \<le> ccost r \<Longrightarrow> ccost l \<noteq> COST_ALL" "\<not> ccost l \<le> ccost r \<Longrightarrow> ccost r \<noteq> COST_ALL"
    using EAnd.prems(2) by (auto simp: min_def)
  show ?case
    using EAnd.IH(1)[of b pending terms] EAnd.IH(2)[of "b + expr_size l" pending terms] a c m
    by (subst cover_walk.simps) (auto simp: root_node_def ac_simps ccost_0_chosen)
next
  case (EOr l r)
  note a = laid_at_parts[OF _ EOr.prems(1), of l r] laid_at_root[OF EOr.prems(1)]
  have m: "ccost l \<noteq> COST_ALL" "ccost r \<noteq> COST_ALL" using EOr.prems(2) by (auto split: if_splits)
  show ?case
    using EOr.IH(1)[OF _ m(1), of b "(b + expr_size l + expr_size r - 1) # pending" terms]
      EOr.IH(2)[OF _ m(2), of "b + expr_size l" pending "terms @ chosen l"] a m
    by (subst cover_walk.simps) (auto simp: root_node_def ccost_0_chosen)
next
  case (EPhrase ts)
  show ?case using laid_at_root[OF EPhrase.prems(1)]
    by (subst cover_walk.simps) (cases ts; simp add: root_node_def)
qed (use laid_at_root in \<open>subst cover_walk.simps, fastforce simp: root_node_def\<close>)+

section \<open>The plan\<close>

text \<open>The documents a plan selects, by their terms.\<close>

fun covered :: "candidate_plan \<Rightarrow> str list \<Rightarrow> bool" where
  "covered CEmpty ws \<longleftrightarrow> False"
| "covered CUniverse ws \<longleftrightarrow> True"
| "covered (CTerms ts) ws \<longleftrightarrow> (\<exists>t \<in> set ts. t \<in> set ws)"

lemma vector_not_InvalidState: "vector alloc sz n b \<noteq> Inl InvalidState"
  by (auto simp: vector_def reserve_def Let_def and_then_Inl_iff ok_or_Inl_iff map_err_Inl_iff split: if_splits)

lemma sort_remdups_sorted: "sorted_wrt (<) (remdups_adj (sort (xs :: str list)))"
proof -
  have "sorted_wrt (<) (remdups_adj ys)" if "sorted ys" for ys :: "str list"
    using that
  proof (induction ys rule: remdups_adj.induct)
    case (3 x y xs)
    then show ?case by (cases "x = y") (auto simp: less_le)
  qed auto
  then show ?thesis by simp
qed

lemma candidate_build_plan:
  assumes q: "lays_out q e" and s: "expr_size e < usize_max" and p: "phrases_ok e"
  obtains r where "candidate_build env q memory = Some r" "r \<noteq> Inl InvalidState"
    "\<And>plan. r = Inr plan \<Longrightarrow> plan =
       (if ccost e = 0 then CEmpty else if ccost e = COST_ALL then CUniverse else CTerms (remdups_adj (sort (chosen e))))"
proof -
  have root: "flat ccost e ! q_root q = ccost e" using q nth_flat by (simp add: lays_out_def)
  have nodes: "q_nodes q = flatten 0 e" using q by (simp add: lays_out_def)
  have loop: "try_fold (\<lambda>cs n. and_then (cover_cost cs n) (\<lambda>c. Inr (cs @ [c]))) [] (flatten 0 e) = Inr (flat ccost e)"
    using cover_eval.eval_nodes[OF s, of "[]" 0] by simp
  have "laid_at (flatten 0 e) (flat ccost e) 0 e" unfolding laid_at_def by fastforce
  from cover_walk_chosen[OF this, of "[]" "[]"] have walk:
    "cover_walk (q_nodes q) (flat ccost e) [q_root q] [] = Some (Inr (chosen e))" if "ccost e \<noteq> COST_ALL"
    using that q by (simp add: lays_out_def cover_walk.simps[of _ _ "[]"])
  show thesis
  proof (cases "vector (env_alloc env) (env_size env ''usize'') (query_node_count q) (budget_new memory) :: (nat vec \<times> memory_budget) result")
    case (Inl x)
    then have "x \<noteq> InvalidState" using vector_not_InvalidState by metis
    then show thesis using Inl by (intro that[of "Inl x"]) (auto simp: candidate_build_def)
  next
    case (Inr vb)
    then obtain v b where v: "vector (env_alloc env) (env_size env ''usize'') (query_node_count q) (budget_new memory) = Inr (v :: nat vec, b)"
      by (cases vb) auto
    have e: "elems v = []" using vector_elems[OF v] .
    have build: "candidate_build env q memory =
      (if ccost e = 0 then Some (Inr CEmpty) else if ccost e = COST_ALL then Some (Inr CUniverse)
       else case and_then (vector (env_alloc env) (env_size env ''usize'') (query_node_count q) b) (\<lambda>(_ :: nat vec, budget).
                 and_then (vector (env_alloc env) (env_size env ''&str'') (ccost e) budget)
                   (\<lambda>(terms :: str vec, budget). Inr terms)) of
              Inl e \<Rightarrow> Some (Inl e)
            | Inr terms \<Rightarrow> map_option (\<lambda>r. and_then r (\<lambda>terms. Inr (CTerms (remdups_adj (sort terms)))))
                  (cover_walk (q_nodes q) (flat ccost e) [q_root q] (elems terms)))"
      unfolding candidate_build_def v by (simp add: e nodes loop root)
    consider (zero) "ccost e = 0" | (universe) "ccost e = COST_ALL" "ccost e \<noteq> 0"
      | (terms) "ccost e \<noteq> 0" "ccost e \<noteq> COST_ALL" by blast
    then show thesis
    proof cases
      case zero
      then show thesis by (intro that[of "Inr CEmpty"]) (auto simp: build)
    next
      case universe
      then show thesis by (intro that[of "Inr CUniverse"]) (auto simp: build)
    next
      case terms
      show thesis
      proof (cases "and_then (vector (env_alloc env) (env_size env ''usize'') (query_node_count q) b) (\<lambda>(_ :: nat vec, budget).
          and_then (vector (env_alloc env) (env_size env ''&str'') (ccost e) budget) (\<lambda>(terms :: str vec, budget). Inr terms))")
        case (Inl x)
        then have "x \<noteq> InvalidState" by (auto simp: and_then_Inl_iff vector_not_InvalidState split: prod.splits)
        then show thesis using Inl terms by (intro that[of "Inl x"]) (auto simp: build)
      next
        case (Inr ts)
        then have "elems ts = []" by (auto simp: res_simps dest!: vector_elems)
        then show thesis using Inr terms walk
          by (intro that[of "Inr (CTerms (remdups_adj (sort (chosen e))))"]) (auto simp: build)
      qed
    qed
  qed
qed

section \<open>Properties\<close>

text \<open>C5: a candidate plan is a sound cover: for a parsed query the plan is always computed (the
  walk ends and never meets a node without a cover) unless memory runs out, every document the query
  holds of is selected by the plan, and a plan of terms lists terms of the query in strictly
  ascending order.\<close>

theorem candidate_covers:
  assumes "query_parse env input limits = Inr q" "alloc_ok (env_alloc env)" "words_ok env"
    and "ql_nodes limits < usize_max"
  shows "\<exists>ts e r. query_sentence env input ts e \<and> q_nodes q = flatten 0 e \<and>
    candidate_build env q memory = Some r \<and> r \<noteq> Inl InvalidState \<and>
    (\<forall>plan ws. r = Inr plan \<and> holds ws e \<longrightarrow> covered plan ws) \<and>
    (\<forall>us. r = Inr (CTerms us) \<longrightarrow> sorted_wrt (<) us \<and> set us \<subseteq> set (expr_terms e))"
proof -
  obtain ts e b where s: "query_sentence env input ts e" "builds b [e]" "bl_limits b = limits"
    "q_nodes q = elems (bl_nodes b)" "q_root q = elems (bl_values b) ! 0"
    by (rule query_parse_builds[OF assms(1-3)])
  then have e: "lays_out q e" "phrases_ok e" "expr_size e < usize_max"
    using builds_single[OF s(2)] assms(4) by (auto simp: lays_out_def expr_ok_def)
  obtain r where r: "candidate_build env q memory = Some r" "r \<noteq> Inl InvalidState"
    "\<And>plan. r = Inr plan \<Longrightarrow> plan =
       (if ccost e = 0 then CEmpty else if ccost e = COST_ALL then CUniverse else CTerms (remdups_adj (sort (chosen e))))"
    using candidate_build_plan[OF e(1,3,2)] by blast
  have "covered plan ws" if "r = Inr plan" "holds ws e" for plan ws
    using r(3)[OF that(1)] that(2) ccost_0_holds[OF _ e(2)] chosen_covers[OF that(2) _ e(2)]
    by (cases "ccost e = 0"; cases "ccost e = COST_ALL") auto
  moreover have "sorted_wrt (<) us \<and> set us \<subseteq> set (expr_terms e)" if "r = Inr (CTerms us)" for us
    using r(3)[OF that] sort_remdups_sorted chosen_terms[of e] by (auto split: if_splits)
  moreover have "q_nodes q = flatten 0 e" using e(1) by (simp add: lays_out_def)
  ultimately show ?thesis using s(1) r(1,2) by blast
qed

theorem candidate_covers_witness:
  "\<exists>q ts e r. query_parse plain_env [0x61, 0x20, 0x41, 0x4E, 0x44, 0x20, 0x62, 0x2A] query_limits_default = Inr q \<and>
     query_sentence plain_env [0x61, 0x20, 0x41, 0x4E, 0x44, 0x20, 0x62, 0x2A] ts e \<and>
     candidate_build plain_env q 1000 = Some (Inr (CTerms [[0x61]])) \<and>
     (\<forall>ws. holds ws e \<longrightarrow> covered (CTerms [[0x61]]) ws)"
proof -
  let ?i = "[0x61, 0x20, 0x41, 0x4E, 0x44, 0x20, 0x62, 0x2A] :: str"
  have "(case query_parse plain_env ?i query_limits_default of Inl _ \<Rightarrow> None | Inr q \<Rightarrow> candidate_build plain_env q 1000) =
      Some (Inr (CTerms [[0x61]]))" by code_simp
  then obtain q where q: "query_parse plain_env ?i query_limits_default = Inr q"
    "candidate_build plain_env q 1000 = Some (Inr (CTerms [[0x61]]))" by (auto split: sum.splits)
  have "ql_nodes query_limits_default < usize_max" by (simp add: query_limits_default_def usize_max_def)
  from candidate_covers[OF q(1) plain_env_ok(1,2) this, of 1000] q show ?thesis by auto
qed

end
