(* ===== verification/Recheck.thy ===== *)
theory Recheck
  imports Oracle
begin

text \<open>
  Streaming rechecks (crates/pin-core/src/recheck.rs): single-term and phrase matchers that walk the
  words of a text without a token buffer, and the proof that they return what the oracle returns
  on the analysed text, errors included. \<open>unicode_words\<close> yields the words of \<open>unicode_word_indices\<close>.
\<close>

section \<open>Definitions\<close>

record single_term_matcher =
  stm_term :: str

definition single_term_new :: "query \<Rightarrow> single_term_matcher option" where
  "single_term_new query =
     (if query_node_count query \<noteq> 1 then None
      else case nd_kind (q_nodes query ! q_root query) of
        KTerm term \<Rightarrow> Some \<lparr>stm_term = term\<rparr>
      | _ \<Rightarrow> None)"

record word_scan =
  ws_tokens :: u32
  ws_first_match :: "u32 option"
  ws_left :: nat

definition match_word :: "analysis_limits \<Rightarrow> (str \<Rightarrow> bool) \<Rightarrow> word_scan \<Rightarrow> str \<Rightarrow> word_scan result" where
  "match_word limits equal st word =
     (if length word > al_term_bytes limits then Inl (Limit ''term bytes'')
      else if ws_tokens st = al_tokens limits then Inl (Limit ''element count'')
      else let st = st\<lparr>ws_tokens := ws_tokens st + 1\<rparr> in
        if ws_first_match st = None \<and> ws_left st \<noteq> 0 then
          let st = st\<lparr>ws_left := ws_left st - 1\<rparr> in
          Inr (if equal word then st\<lparr>ws_first_match := Some (ws_tokens st)\<rparr> else st)
        else Inr st)"

definition match_words :: "env \<Rightarrow> str \<Rightarrow> analysis_limits \<Rightarrow> nat \<Rightarrow> (str \<Rightarrow> bool) \<Rightarrow> bool result" where
  "match_words env text limits max_steps equal =
     and_then (try_fold (match_word limits equal)
       \<lparr>ws_tokens = 0, ws_first_match = None, ws_left = max_steps - 1\<rparr> (map snd (env_words env text))) (\<lambda>st.
     let comparisons = unat (case ws_first_match st of Some n \<Rightarrow> n | None \<Rightarrow> ws_tokens st) in
     and_then (work_charge max_steps 1) (\<lambda>work.
     and_then (work_charge work comparisons) (\<lambda>_.
     Inr (ws_first_match st \<noteq> None))))"

text \<open>The gates in front of both matchers: borrowed ASCII text, or the normalised text.\<close>

definition recheck_text ::
  "env \<Rightarrow> str \<Rightarrow> analysis_limits \<Rightarrow> bool result \<Rightarrow> (str \<Rightarrow> bool result) \<Rightarrow> bool result" where
  "recheck_text env text limits borrowed owned =
     and_then (check_input env text limits) (\<lambda>_.
     if is_ascii text then
       if length text > al_normalized_bytes limits then Inl (Limit ''normalized bytes'')
       else and_then (ok_or (Limit ''normalized bytes'') (u32_try_from (length text))) (\<lambda>_. borrowed)
     else
       and_then (profile_text env text (al_normalized_bytes limits) (budget_new (al_memory_bytes limits)))
         (\<lambda>((normalized, _), _).
       and_then (ok_or (Limit ''normalized bytes'') (u32_try_from (vec_len normalized))) (\<lambda>_.
         owned (elems normalized))))"

definition single_term_matches ::
  "env \<Rightarrow> single_term_matcher \<Rightarrow> str \<Rightarrow> analysis_limits \<Rightarrow> nat \<Rightarrow> bool result" where
  "single_term_matches env self text limits max_steps =
     recheck_text env text limits
       (match_words env text limits max_steps (\<lambda>word. eq_ignore_ascii_case word (stm_term self)))
       (\<lambda>normalized. match_words env normalized limits max_steps (\<lambda>word. word = stm_term self))"

record phrase_matcher =
  pm_terms :: "str list"

definition phrase_new :: "query \<Rightarrow> phrase_matcher option" where
  "phrase_new query =
     (if query_node_count query \<noteq> 1 then None
      else case nd_kind (q_nodes query ! q_root query) of
        KPhrase terms \<Rightarrow> if terms \<noteq> [] \<and> length terms \<le> 64 then Some \<lparr>pm_terms = terms\<rparr> else None
      | _ \<Rightarrow> None)"

record phrase_scan =
  ph_window :: "str list"
  ph_cursor :: nat
  ph_filled :: nat
  ph_found :: bool
  ph_work :: nat
  ph_exhausted :: "error option"

text \<open>The comparison of a full window with the terms: whether it matches, the work left and the
  error that stopped it.\<close>

fun compare_window ::
  "(str \<Rightarrow> str \<Rightarrow> bool) \<Rightarrow> (str \<times> str) list \<Rightarrow> nat \<Rightarrow> bool \<times> nat \<times> error option" where
  "compare_window equal [] work = (True, work, None)"
| "compare_window equal ((word, term) # rest) work =
     (case work_charge work 1 of
        Inl error \<Rightarrow> (False, work, Some error)
      | Inr work \<Rightarrow> if \<not> equal word term then (False, work, None) else compare_window equal rest work)"

definition match_phrase_word ::
  "str list \<Rightarrow> analysis_limits \<Rightarrow> (str \<Rightarrow> str \<Rightarrow> bool) \<Rightarrow> phrase_scan \<Rightarrow> nat \<times> str \<Rightarrow> phrase_scan result" where
  "match_phrase_word terms limits equal st tok =
     (let (token_index, word) = tok; width = length terms in
      if length word > al_term_bytes limits then Inl (Limit ''term bytes'')
      else if token_index = unat (al_tokens limits) then Inl (Limit ''element count'')
      else if ph_found st \<or> ph_exhausted st \<noteq> None then Inr st
      else
        let st = st\<lparr>ph_window := (ph_window st)[ph_cursor st := word],
                    ph_cursor := (if ph_cursor st + 1 = width then 0 else ph_cursor st + 1),
                    ph_filled := min (ph_filled st + 1) width\<rparr> in
        if ph_filled st \<noteq> width then Inr st
        else
          let (matches, work, exhausted) =
            compare_window equal
              (zip (drop (ph_cursor st) (take width (ph_window st)) @ take (ph_cursor st) (ph_window st)) terms)
              (ph_work st) in
          Inr (st\<lparr>ph_found := matches, ph_work := work, ph_exhausted := exhausted\<rparr>))"

definition match_phrase_words ::
  "env \<Rightarrow> str \<Rightarrow> str list \<Rightarrow> analysis_limits \<Rightarrow> nat \<Rightarrow> (str \<Rightarrow> str \<Rightarrow> bool) \<Rightarrow> bool result" where
  "match_phrase_words env text terms limits max_steps equal =
     (let (work, exhausted) = (case work_charge max_steps 1 of Inl e \<Rightarrow> (max_steps, Some e) | Inr w \<Rightarrow> (w, None)) in
      and_then (try_fold (match_phrase_word terms limits equal)
        \<lparr>ph_window = replicate 64 [], ph_cursor = 0, ph_filled = 0, ph_found = False, ph_work = work,
         ph_exhausted = exhausted\<rparr> (enumerate 0 (map snd (env_words env text)))) (\<lambda>st.
      case ph_exhausted st of Some error \<Rightarrow> Inl error | None \<Rightarrow> Inr (ph_found st)))"

definition phrase_matches ::
  "env \<Rightarrow> phrase_matcher \<Rightarrow> str \<Rightarrow> analysis_limits \<Rightarrow> nat \<Rightarrow> bool result" where
  "phrase_matches env self text limits max_steps =
     recheck_text env text limits
       (match_phrase_words env text (pm_terms self) limits max_steps eq_ignore_ascii_case)
       (\<lambda>normalized. match_phrase_words env normalized (pm_terms self) limits max_steps (\<lambda>word term. word = term))"

section \<open>Words\<close>

lemma match_words_found:
  assumes "ws_first_match st = Some n" "\<forall>w \<in> set ws. length w \<le> al_term_bytes limits"
    "unat (ws_tokens st) + length ws \<le> unat (al_tokens limits)"
  shows "\<exists>st'. try_fold (match_word limits equal) st ws = Inr st' \<and> ws_first_match st' = Some n"
  using assms
proof (induction ws arbitrary: st)
  case (Cons w ws)
  let ?st = "st\<lparr>ws_tokens := ws_tokens st + 1\<rparr>"
  have ne: "ws_tokens st \<noteq> al_tokens limits" using Cons.prems(3) by auto
  have "unat (ws_tokens st + 1) = unat (ws_tokens st) + 1"
    using Cons.prems(3) unat_u32_lt[of "al_tokens limits"] by (simp add: unat_word_ariths)
  then have "\<exists>st'. try_fold (match_word limits equal) ?st ws = Inr st' \<and> ws_first_match st' = Some n"
    using Cons.prems by (intro Cons.IH) auto
  moreover have "match_word limits equal st w = Inr ?st"
    using Cons.prems ne by (simp add: match_word_def Let_def not_less)
  ultimately show ?case by simp
qed simp

lemma match_words_scan:
  assumes "ws_first_match st = None" "\<forall>w \<in> set ws. length w \<le> al_term_bytes limits"
    "unat (ws_tokens st) + length ws \<le> unat (al_tokens limits)"
  shows "\<exists>st'. try_fold (match_word limits equal) st ws = Inr st' \<and>
    (if scan_cost equal ws \<le> ws_left st \<and> list_ex equal ws
     then \<exists>n. ws_first_match st' = Some n \<and> unat n = unat (ws_tokens st) + scan_cost equal ws
     else ws_first_match st' = None \<and> unat (ws_tokens st') = unat (ws_tokens st) + length ws)"
  using assms
proof (induction ws arbitrary: st)
  case (Cons w ws)
  have ne: "ws_tokens st \<noteq> al_tokens limits" using Cons.prems(3) by auto
  have t: "unat (ws_tokens st + 1) = unat (ws_tokens st) + 1"
    using Cons.prems(3) unat_u32_lt[of "al_tokens limits"] by (simp add: unat_word_ariths)
  let ?a = "st\<lparr>ws_tokens := ws_tokens st + 1\<rparr>"
  let ?b = "?a\<lparr>ws_left := ws_left st - 1\<rparr>"
  have step: "match_word limits equal st w =
      Inr (if ws_left st = 0 then ?a else if equal w then ?b\<lparr>ws_first_match := Some (ws_tokens st + 1)\<rparr> else ?b)"
    using Cons.prems ne by (auto simp: match_word_def Let_def not_less)
  consider (stop) "ws_left st = 0" | (hit) "ws_left st \<noteq> 0" "equal w" | (miss) "ws_left st \<noteq> 0" "\<not> equal w" by blast
  then show ?case
  proof cases
    case stop
    have pos: "0 < scan_cost equal (w # ws)" by simp
    from Cons.IH[of ?a] Cons.prems t stop obtain st' where
      "try_fold (match_word limits equal) ?a ws = Inr st'" "ws_first_match st' = None \<or> scan_cost equal ws = 0 \<and> list_ex equal ws"
      "ws_first_match st' = None \<Longrightarrow> unat (ws_tokens st') = unat (ws_tokens st) + Suc (length ws)"
      by (auto split: if_splits)
    moreover have "\<not> (scan_cost equal ws = 0 \<and> list_ex equal ws)" by (cases ws) auto
    ultimately show ?thesis using stop pos step by (auto split: if_splits)
  next
    case hit
    let ?c = "?b\<lparr>ws_first_match := Some (ws_tokens st + 1)\<rparr>"
    from match_words_found[of ?c "ws_tokens st + 1" ws limits equal] Cons.prems t obtain st' where
      "try_fold (match_word limits equal) ?c ws = Inr st'" "ws_first_match st' = Some (ws_tokens st + 1)" by auto
    then show ?thesis using hit step t by auto
  next
    case miss
    have "unat (ws_tokens ?b) + length ws \<le> unat (al_tokens limits)" using Cons.prems(3) t by simp
    from Cons.IH[of ?b, OF _ _ this] Cons.prems(1,2) obtain st' where
      s: "try_fold (match_word limits equal) ?b ws = Inr st'"
        "if scan_cost equal ws \<le> ws_left st - 1 \<and> list_ex equal ws
         then \<exists>n. ws_first_match st' = Some n \<and> unat n = unat (ws_tokens st) + 1 + scan_cost equal ws
         else ws_first_match st' = None \<and> unat (ws_tokens st') = unat (ws_tokens st) + 1 + length ws"
      using t by (simp split del: if_split cong: if_cong) blast
    have "scan_cost equal ws \<le> ws_left st - 1 \<longleftrightarrow> scan_cost equal (w # ws) \<le> ws_left st" using miss by auto
    then show ?thesis using s miss step by (auto split: if_splits)
  qed
qed simp

lemma scan_cost_absent: "\<not> list_ex p xs \<Longrightarrow> scan_cost p xs = length xs"
  by (induction xs) auto

lemma scan_cost_le: "scan_cost p xs \<le> length xs"
  by (induction xs) auto

lemma match_words_eval:
  assumes "\<forall>w \<in> snd ` set (env_words env t). length w \<le> al_term_bytes limits"
    "length (env_words env t) \<le> unat (al_tokens limits)"
  shows "match_words env t limits steps equal =
    (if Suc (scan_cost equal (map snd (env_words env t))) \<le> steps
     then Inr (list_ex equal (map snd (env_words env t))) else Inl (Limit ''search work''))"
proof -
  let ?ws = "map snd (env_words env t)"
  let ?s = "\<lparr>ws_tokens = 0, ws_first_match = None, ws_left = steps - 1\<rparr>"
  obtain st where st: "try_fold (match_word limits equal) ?s ?ws = Inr st"
    "if scan_cost equal ?ws \<le> steps - 1 \<and> list_ex equal ?ws
     then \<exists>n. ws_first_match st = Some n \<and> unat n = scan_cost equal ?ws
     else ws_first_match st = None \<and> unat (ws_tokens st) = length ?ws"
    using match_words_scan[of ?s ?ws limits equal] assms
    by (simp split del: if_split cong: if_cong) blast
  have r: "match_words env t limits steps equal =
      (if Suc (unat (case ws_first_match st of Some n \<Rightarrow> n | None \<Rightarrow> ws_tokens st)) \<le> steps
       then Inr (ws_first_match st \<noteq> None) else Inl (Limit ''search work''))"
    unfolding match_words_def st(1) by (auto simp: Let_def work_charge_def checked_sub_def)
  show ?thesis
    using st(2) scan_cost_absent[of equal ?ws] scan_cost_le[of equal ?ws] unfolding r
    by (cases "list_ex equal ?ws"; cases "Suc (scan_cost equal ?ws) \<le> steps") (auto split: if_splits)
qed

section \<open>Windows\<close>

text \<open>The ring of the last words, oldest first.\<close>

definition ring :: "nat \<Rightarrow> phrase_scan \<Rightarrow> str list" where
  "ring width st = drop (ph_cursor st) (take width (ph_window st)) @ take (ph_cursor st) (ph_window st)"

text \<open>The state after the words \<open>xs\<close>, none of whose windows matched.\<close>

definition window_ok :: "nat \<Rightarrow> str list \<Rightarrow> phrase_scan \<Rightarrow> bool" where
  "window_ok width xs st \<longleftrightarrow> length (ph_window st) = 64 \<and> ph_cursor st < width \<and>
     ph_filled st = min (length xs) width \<and>
     (if length xs < width then ph_cursor st = length xs \<and> take (length xs) (ph_window st) = xs
      else ring width st = drop (length xs - width) xs)"

lemma window_ok_irrelevant [simp]:
  "window_ok width xs (st\<lparr>ph_found := a, ph_work := b, ph_exhausted := c\<rparr>) \<longleftrightarrow> window_ok width xs st"
  by (simp add: window_ok_def ring_def)

lemma ring_push:
  assumes "c < width" "width \<le> length win"
  shows "drop (if c + 1 = width then 0 else c + 1) (take width (win[c := w])) @
      take (if c + 1 = width then 0 else c + 1) (win[c := w]) =
    tl (drop c (take width win) @ take c win) @ [w]"
proof -
  have d: "drop c (take width win) = win ! c # drop (Suc c) (take width win)"
    using assms by (subst Cons_nth_drop_Suc[symmetric]) auto
  have t: "take (Suc c) (win[c := w]) = take c win @ [w]"
    using assms by (simp add: take_Suc_conv_app_nth)
  show ?thesis
  proof (cases "c + 1 = width")
    case True
    then show ?thesis using t d assms by simp
  next
    case False
    have "drop (c + 1) (take width (win[c := w])) = drop (Suc c) (take width win)"
      using assms by (simp add: drop_update_cancel take_update_swap)
    then show ?thesis using False t d by simp
  qed
qed

text \<open>What a new word does to the window.\<close>

definition push_word :: "nat \<Rightarrow> phrase_scan \<Rightarrow> str \<Rightarrow> phrase_scan" where
  "push_word width st word = st\<lparr>ph_window := (ph_window st)[ph_cursor st := word],
     ph_cursor := (if ph_cursor st + 1 = width then 0 else ph_cursor st + 1),
     ph_filled := min (ph_filled st + 1) width\<rparr>"

lemma push_word_ok:
  assumes "window_ok width xs st" "0 < width" "width \<le> 64"
  shows "window_ok width (xs @ [w]) (push_word width st w)"
proof -
  let ?st = "push_word width st w" and ?c = "ph_cursor st" and ?n = "length xs"
  have c: "?c < width" "length (ph_window st) = 64" "ph_filled st = min ?n width"
    using assms(1) by (auto simp: window_ok_def)
  have ring: "ring width ?st = tl (ring width st) @ [w]"
    using ring_push[of ?c width "ph_window st" w] c assms(3) by (simp add: ring_def push_word_def)
  have base: "length (ph_window ?st) = 64" "ph_cursor ?st < width" "ph_filled ?st = min (Suc ?n) width"
    using c assms(2) by (auto simp: push_word_def)
  consider (small) "Suc ?n < width" | (fill) "Suc ?n = width" | (full) "width \<le> ?n" by linarith
  then show ?thesis
  proof cases
    case small
    then have "?c = ?n" "take ?n (ph_window st) = xs" using assms(1) by (auto simp: window_ok_def)
    moreover have "?n < 64" using small assms(3) by simp
    ultimately show ?thesis using base small c by (simp add: window_ok_def push_word_def take_Suc_conv_app_nth)
  next
    case fill
    then have "?c = ?n" "take ?n (ph_window st) = xs" using assms(1) by (auto simp: window_ok_def)
    moreover from this fill have "ring width ?st = xs @ [w]"
      using c assms(3) by (simp add: ring_def push_word_def take_Suc_conv_app_nth flip: fill)
    ultimately show ?thesis using base fill by (simp add: window_ok_def)
  next
    case full
    then have "ring width st = drop (?n - width) xs" using assms(1) by (auto simp: window_ok_def)
    then have "ring width ?st = drop (Suc ?n - width) (xs @ [w])"
      using ring full assms(2) by (simp add: tl_drop Suc_diff_le drop_Suc flip: drop_Suc)
    then show ?thesis using base full by (simp add: window_ok_def)
  qed
qed

lemma compare_window_costs:
  assumes "\<And>w t. t \<in> set ts \<Longrightarrow> equal w t \<longleftrightarrow> f w = t" "length ws = length ts"
  shows "compare_window equal (zip ws ts) work =
    (if compare_cost (map f ws) ts \<le> work then (map f ws = ts, work - compare_cost (map f ws) ts, None)
     else (False, 0, Some (Limit ''search work'')))"
  using assms
proof (induction ts arbitrary: ws work)
  case (Cons t ts)
  then obtain w vs where ws: "ws = w # vs" "length vs = length ts" by (cases ws) auto
  show ?case
    using Cons.IH[OF _ ws(2), of "work - 1"] Cons.prems(1)
    by (cases work) (auto simp: ws work_charge_def checked_sub_def)
qed simp

lemma match_phrase_word_step:
  assumes "length w \<le> al_term_bytes limits" "i \<noteq> unat (al_tokens limits)" "\<not> ph_found st" "ph_exhausted st = None"
  shows "match_phrase_word ts limits equal st (i, w) =
    (let s = push_word (length ts) st w in
     if ph_filled s \<noteq> length ts then Inr s
     else let (m, work, ex) = compare_window equal (zip (ring (length ts) s) ts) (ph_work s) in
       Inr (s\<lparr>ph_found := m, ph_work := work, ph_exhausted := ex\<rparr>))"
  using assms by (simp add: match_phrase_word_def push_word_def ring_def Let_def)

lemma match_phrase_stopped:
  assumes "ph_found st \<or> ph_exhausted st \<noteq> None" "\<forall>w \<in> set ws. length w \<le> al_term_bytes limits"
    "i + length ws \<le> unat (al_tokens limits)"
  shows "try_fold (match_phrase_word ts limits equal) st (enumerate i ws) = Inr st"
  using assms
proof (induction ws arbitrary: i)
  case (Cons w ws)
  then show ?case by (auto simp: match_phrase_word_def Let_def)
qed simp

lemma phrase_occurs_window:
  "length xs = s + length ts \<Longrightarrow> phrase_occurs (xs @ ys) ts s \<longleftrightarrow> drop s xs = ts"
  by (simp add: phrase_occurs_def)

lemma compare_cost_take: "compare_cost (take (length ts) ws) ts = compare_cost ws ts"
  by (induction ws ts rule: compare_cost.induct) auto

lemma compare_cost_window:
  "length xs = s + length ts \<Longrightarrow> compare_cost (drop s (xs @ ys)) ts = compare_cost (drop s xs) ts"
  using compare_cost_take[of ts "drop s (xs @ ys)"] by simp

lemma phrase_cost_short: "length ws - s < length ts \<Longrightarrow> phrase_cost ws ts [s..<n] = 0"
  by (cases "s < n") (simp_all add: upt_conv_Cons)

text \<open>The scan over the words that follow: the windows from \<open>s\<close> on decide.\<close>

lemma match_phrase_scan:
  assumes eq: "\<And>w t. t \<in> set ts \<Longrightarrow> equal w t \<longleftrightarrow> f w = t" and width: "ts \<noteq> []" "length ts \<le> 64"
    and ok: "\<forall>w \<in> set ys. length w \<le> al_term_bytes limits" "length xs + length ys \<le> unat (al_tokens limits)"
    and st: "window_ok (length ts) xs st" "\<not> ph_found st" "ph_exhausted st = None"
    and s: "s = Suc (length xs) - length ts" and ws: "ws = map f (xs @ ys)"
  shows "\<exists>st'. try_fold (match_phrase_word ts limits equal) st (enumerate (length xs) ys) = Inr st' \<and>
    (if phrase_cost ws ts [s..<length ws] \<le> ph_work st
     then ph_exhausted st' = None \<and> (ph_found st' \<longleftrightarrow> (\<exists>i \<in> {s..<length ws}. phrase_occurs ws ts i))
     else ph_exhausted st' = Some (Limit ''search work''))"
  using ok st s ws
proof (induction ys arbitrary: xs st s)
  case Nil
  have "length ws - s < length ts" using Nil width(1) by (cases ts) auto
  moreover from this have "\<not> phrase_occurs ws ts i" if "s \<le> i" for i
  proof -
    have "length (take (length ts) (drop i ws)) < length ts" using that \<open>length ws - s < length ts\<close> by simp
    then show ?thesis by (auto simp: phrase_occurs_def)
  qed
  ultimately show ?case using Nil by (auto simp: phrase_cost_short)
next
  case (Cons y ys)
  let ?w = "length ts" and ?p = "push_word (length ts) st y" and ?zs = "xs @ [y]"
  have ne: "length xs \<noteq> unat (al_tokens limits)" "length y \<le> al_term_bytes limits" using Cons.prems by auto
  have pw: "0 < ?w" using width(1) by simp
  have wp: "window_ok ?w ?zs ?p" by (rule push_word_ok[OF Cons.prems(3) pw width(2)])
  have p: "\<not> ph_found ?p" "ph_exhausted ?p = None" "ph_work ?p = ph_work st"
    using Cons.prems(4,5) by (simp_all add: push_word_def)
  note step = match_phrase_word_step[OF ne(2,1) Cons.prems(4,5), of ts equal, unfolded Let_def]
  have rest: "\<forall>w \<in> set ys. length w \<le> al_term_bytes limits" "length ?zs + length ys \<le> unat (al_tokens limits)"
    "ws = map f (?zs @ ys)" using Cons.prems by simp_all
  show ?case
  proof (cases "length ?zs < ?w")
    case True
    then have "ph_filled ?p \<noteq> ?w" using wp by (simp add: window_ok_def)
    moreover have "s = Suc (length ?zs) - ?w" using True Cons.prems(6) by simp
    ultimately show ?thesis using Cons.IH[OF rest(1,2) wp p(1,2) _ rest(3), of s] step p(3) by simp
  next
    case False
    have s: "s + ?w = length ?zs" using False Cons.prems(6) by simp
    have sl: "s < length ws" using s width(1) rest(3) by (cases ts) auto
    have "s = length ?zs - ?w" using s by simp
    then have r: "ring ?w ?p = drop s ?zs" "ph_filled ?p = ?w"
      using wp False by (auto simp: window_ok_def)
    have len: "length (drop s ?zs) = ?w" using s by simp
    note cw = compare_window_costs[where f = f and ts = ts, OF eq len, of "ph_work st", unfolded drop_map[symmetric]]
    have oc: "phrase_occurs ws ts s \<longleftrightarrow> drop s (map f ?zs) = ts"
      and cc: "compare_cost (drop s ws) ts = compare_cost (drop s (map f ?zs)) ts"
      using phrase_occurs_window[of "map f ?zs" s ts "map f ys"] compare_cost_window[of "map f ?zs" s ts "map f ys"]
        s rest(3) by simp_all
    have up: "[s..<length ws] = s # [Suc s..<length ws]" using sl by (simp add: upt_conv_Cons)
    have fits: "\<not> ?w > length ws - s" using s rest(3) by simp
    let ?c = "compare_cost (drop s ws) ts"
    have pc: "phrase_cost ws ts [s..<length ws] = ?c + (if phrase_occurs ws ts s then 0 else phrase_cost ws ts [Suc s..<length ws])"
      unfolding up using fits by simp
    have set: "(\<exists>i \<in> {s..<length ws}. phrase_occurs ws ts i) \<longleftrightarrow>
        phrase_occurs ws ts s \<or> (\<exists>i \<in> {Suc s..<length ws}. phrase_occurs ws ts i)"
      using sl by (metis atLeastLessThan_iff le_eq_less_or_eq Suc_le_eq)
    let ?q = "?p\<lparr>ph_found := phrase_occurs ws ts s, ph_work := ph_work st - ?c, ph_exhausted := None\<rparr>"
    show ?thesis
    proof (cases "?c \<le> ph_work st")
      case False
      let ?x = "?p\<lparr>ph_found := False, ph_work := 0, ph_exhausted := Some (Limit ''search work'')\<rparr>"
      have "match_phrase_word ts limits equal st (length xs, y) = Inr ?x"
        using step r cw p(3) False cc by simp
      moreover have "try_fold (match_phrase_word ts limits equal) ?x (enumerate (Suc (length xs)) ys) = Inr ?x"
        using rest by (intro match_phrase_stopped) auto
      ultimately show ?thesis using False pc by simp
    next
      case True
      have m: "match_phrase_word ts limits equal st (length xs, y) = Inr ?q"
        using step r cw p(3) True cc oc by simp
      show ?thesis
      proof (cases "phrase_occurs ws ts s")
        case hit: True
        have "try_fold (match_phrase_word ts limits equal) ?q (enumerate (Suc (length xs)) ys) = Inr ?q"
          using rest hit by (intro match_phrase_stopped) auto
        then show ?thesis using m hit True pc set by simp
      next
        case miss: False
        have w: "window_ok ?w ?zs ?q" using wp by simp
        have "Suc s = Suc (length ?zs) - ?w" using s by simp
        from Cons.IH[OF rest(1,2) w _ _ this rest(3)] miss obtain st' where
          "try_fold (match_phrase_word ts limits equal) ?q (enumerate (Suc (length xs)) ys) = Inr st'"
          "if phrase_cost ws ts [Suc s..<length ws] \<le> ph_work st - ?c
           then ph_exhausted st' = None \<and> (ph_found st' \<longleftrightarrow> (\<exists>i \<in> {Suc s..<length ws}. phrase_occurs ws ts i))
           else ph_exhausted st' = Some (Limit ''search work'')"
          by (simp split del: if_split cong: if_cong) blast
        moreover have "phrase_cost ws ts [Suc s..<length ws] \<le> ph_work st - ?c \<longleftrightarrow>
            phrase_cost ws ts [s..<length ws] \<le> ph_work st" using True miss pc by auto
        ultimately show ?thesis using m set miss by (auto split: if_splits)
      qed
    qed
  qed
qed

lemma match_phrase_words_eval:
  assumes eq: "\<And>w t. t \<in> set ts \<Longrightarrow> equal w t \<longleftrightarrow> f w = t" and width: "ts \<noteq> []" "length ts \<le> 64"
    and ok: "\<forall>w \<in> snd ` set (env_words env t). length w \<le> al_term_bytes limits"
      "length (env_words env t) \<le> unat (al_tokens limits)"
    and ws: "ws = map f (map snd (env_words env t))"
  shows "match_phrase_words env t ts limits steps equal =
    (if Suc (phrase_cost ws ts [0..<length ws]) \<le> steps then Inr (\<exists>i < length ws. phrase_occurs ws ts i)
     else Inl (Limit ''search work''))"
proof -
  let ?ys = "map snd (env_words env t)"
  let ?s = "\<lambda>w ex. \<lparr>ph_window = replicate 64 [], ph_cursor = 0, ph_filled = 0, ph_found = False, ph_work = w, ph_exhausted = ex\<rparr>"
  have ok': "\<forall>w \<in> set ?ys. length w \<le> al_term_bytes limits" "length ([] :: str list) + length ?ys \<le> unat (al_tokens limits)"
    using ok by auto
  show ?thesis
  proof (cases steps)
    case 0
    have "try_fold (match_phrase_word ts limits equal) (?s 0 (Some (Limit ''search work''))) (enumerate 0 ?ys) =
        Inr (?s 0 (Some (Limit ''search work'')))"
      using ok' by (intro match_phrase_stopped) auto
    then show ?thesis by (simp add: match_phrase_words_def 0 work_charge_def checked_sub_def)
  next
    case (Suc n)
    have "window_ok (length ts) [] (?s n None)" using width by (simp add: window_ok_def)
    moreover have "ts \<noteq> [] \<Longrightarrow> 0 = Suc (length ([] :: str list)) - length ts" by (cases ts) auto
    moreover have "ws = map f ([] @ ?ys)" using ws by simp
    ultimately obtain st' where
      "try_fold (match_phrase_word ts limits equal) (?s n None) (enumerate 0 ?ys) = Inr st'"
      "if phrase_cost ws ts [0..<length ws] \<le> n
       then ph_exhausted st' = None \<and> (ph_found st' \<longleftrightarrow> (\<exists>i \<in> {0..<length ws}. phrase_occurs ws ts i))
       else ph_exhausted st' = Some (Limit ''search work'')"
      using match_phrase_scan[where equal = equal and f = f and ts = ts and xs = "[]" and ys = ?ys and limits = limits
          and st = "?s n None" and s = 0 and ws = ws, OF eq width ok'] width(1)
      by (simp split del: if_split cong: if_cong) blast
    then show ?thesis
      by (auto simp: match_phrase_words_def Suc work_charge_def checked_sub_def split: if_splits)
  qed
qed

section \<open>Canonical terms\<close>

text \<open>A term that ASCII lowercasing leaves alone; a text of bytes below 128 has only such words once
  it is normalised.\<close>

definition canonical :: "str \<Rightarrow> bool" where
  "canonical t \<longleftrightarrow> map to_ascii_lowercase t = t"

lemma eq_ignore_canonical: "canonical t \<Longrightarrow> eq_ignore_ascii_case w t \<longleftrightarrow> map to_ascii_lowercase w = t"
  by (simp add: eq_ignore_ascii_case_def canonical_def)

lemma analyze_canonical:
  assumes "analyze env text limits = Inr doc" "is_ascii text"
  shows "t \<in> set (terms_of doc) \<Longrightarrow> canonical t"
proof -
  assume "t \<in> set (terms_of doc)"
  then obtain a n where t: "t = take n (drop a (map to_ascii_lowercase text))"
    using analyze_ascii[OF assms] by (auto simp: terms_of_def slice_range_def)
  show "canonical t" unfolding canonical_def t take_map drop_map by (simp add: lowercase_idem)
qed

lemma is_ascii_set: "is_ascii t \<longleftrightarrow> (\<forall>b \<in> set t. ascii b)"
  by (simp add: is_ascii_def list_all_iff)

lemma unquote_ascii: "unquote bs = Some (t, r) \<Longrightarrow> is_ascii bs \<Longrightarrow> is_ascii t"
proof (induction bs arbitrary: t r rule: unquote.induct)
  case (2 b bs)
  show ?case
  proof (cases "b = 0x22 \<or> b = 0x5C")
    case True
    then consider "t = []" | c cs t' where "b \<noteq> 0x22" "b = 0x5C" "bs = c # cs" "c = 0x22 \<or> c = 0x5C"
        "unquote cs = Some (t', r)" "t = c # t'"
      using 2(3) by (auto simp: unquote.simps(2)[of b bs] split: list.splits if_splits)
    then show ?thesis
    proof cases
      case (2 c cs t')
      then show ?thesis using "2.IH"(1)[OF 2(1-5)] "2.prems"(2) by simp
    qed simp
  next
    case False
    then obtain t' where t: "t = take (utf8_len b) (b # bs) @ t'" "unquote (drop (utf8_len b) (b # bs)) = Some (t', r)"
      using 2(3) by (auto simp: unquote.simps)
    have "is_ascii (drop (utf8_len b) (b # bs))" "is_ascii (take (utf8_len b) (b # bs))"
      using 2(4) unfolding is_ascii_set by (meson in_set_dropD in_set_takeD)+
    then show ?thesis using 2(2)[OF _ _ t(2)] False t(1) by (auto simp: is_ascii_set)
  qed
qed (simp add: unquote.simps)

lemma literal_expr_terms: "set (expr_terms (literal_expr qt prefix ts)) \<subseteq> insert (hd ts) (set ts)"
  by (auto simp: literal_expr_def)

lemma literal_canonical:
  assumes "analyze env text lim = Inr a" "is_ascii text" "qt \<or> terms_of a \<noteq> []" "t \<in> set (expr_terms (literal_expr qt prefix (terms_of a)))"
  shows "canonical t"
proof -
  have "t \<in> set (terms_of a)"
    using assms(3,4) literal_expr_terms[of qt prefix "terms_of a"]
    by (cases "terms_of a = []") (auto simp: literal_expr_def split: if_splits)
  then show ?thesis using analyze_canonical[OF assms(1,2)] by simp
qed

text \<open>The literals of an ASCII input are canonical.\<close>

lemma scans_canonical:
  "scans env input i ts \<Longrightarrow> is_ascii input \<Longrightarrow> TLit e \<in> set ts \<Longrightarrow> \<forall>t \<in> set (expr_terms e). canonical t"
proof (induction rule: scans.induct)
  case (scan_quoted i ts body j lim a)
  have "is_ascii (drop (Suc i) input)" using scan_quoted.prems(1) unfolding is_ascii_set by (meson in_set_dropD)
  from unquote_ascii[OF scan_quoted.hyps(4) this] have "is_ascii body" .
  then have "canonical t" if "t \<in> set (expr_terms (literal_expr True False (terms_of a)))" for t
    using literal_canonical[OF scan_quoted.hyps(6) _ _ that] by simp
  then show ?case using scan_quoted.IH scan_quoted.prems by auto
next
  case (scan_word i ts raw body prefix lim a)
  have "set body \<subseteq> set raw" using scan_word.hyps(4) by (auto simp: strip_star_def split: if_splits dest: in_set_butlastD)
  moreover have "set raw \<subseteq> set input" unfolding scan_word.hyps(2) by (meson in_set_dropD set_takeWhileD subsetI)
  ultimately have "is_ascii body" using scan_word.prems(1) by (auto simp: is_ascii_set)
  then have "canonical t" if "t \<in> set (expr_terms (literal_expr False prefix (terms_of a)))" for t
    using literal_canonical[OF scan_word.hyps(8) _ _ that] scan_word.hyps(9) by force
  then show ?case using scan_word.IH scan_word.prems by auto
qed auto

lemma derives_terms: "derives p ts e \<Longrightarrow> t \<in> set (expr_terms e) \<Longrightarrow> \<exists>l. TLit l \<in> set ts \<and> t \<in> set (expr_terms l)"
proof (induction arbitrary: t rule: derives.induct)
  case (lit e)
  then show ?case by auto
qed fastforce+

lemma sentence_canonical:
  assumes "query_sentence env input ts e" "is_ascii input" "t \<in> set (expr_terms e)"
  shows "canonical t"
proof (cases "ts = []")
  case True
  then show ?thesis using assms by (simp add: query_sentence_def)
next
  case False
  then obtain l where "TLit l \<in> set ts" "t \<in> set (expr_terms l)"
    using assms(1,3) derives_terms[of 1 ts e t] by (auto simp: query_sentence_def)
  then show ?thesis using scans_canonical[of env input _ ts l] assms(1,2) by (auto simp: query_sentence_def)
qed

section \<open>Rechecks against the oracle\<close>

text \<open>The words a recheck walks, seen through the comparison it uses: they are the terms of the
  analysed document.\<close>

lemma recheck_words:
  assumes a: "analyze env text limits = Inr doc" and ok: "alloc_ok (env_alloc env)" "words_ok env" "ascii_words_ok env"
    and w: "words = (if is_ascii text then text else an_normalized doc)"
    and f: "f = (if is_ascii text then map to_ascii_lowercase else (\<lambda>w. w))"
  shows "map f (map snd (env_words env words)) = terms_of doc"
    "\<forall>w \<in> snd ` set (env_words env words). length w \<le> al_term_bytes limits"
    "length (env_words env words) \<le> unat (al_tokens limits)"
proof -
  note q = analyze_Inr[OF a ok(1,2)]
  have n: "is_ascii text \<Longrightarrow> an_normalized doc = map to_ascii_lowercase text" by (rule analyze_ascii[OF a])
  show t: "map f (map snd (env_words env words)) = terms_of doc"
    using q(1) n ok(3) by (cases "is_ascii text") (auto simp: w f ascii_words_ok_def)
  have len: "length (f w) = length w" for w by (simp add: f)
  show "\<forall>w \<in> snd ` set (env_words env words). length w \<le> al_term_bytes limits"
    using q(2) len unfolding t[symmetric] by auto
  show "length (env_words env words) \<le> unat (al_tokens limits)" using q(3) unfolding t[symmetric] by simp
qed

text \<open>The gates in front of the walk have passed once the text is analysed.\<close>

lemma recheck_text_eval:
  assumes a: "analyze env text limits = Inr doc"
  shows "recheck_text env text limits borrowed owned = (if is_ascii text then borrowed else owned (an_normalized doc))"
proof -
  from analyze_gates[OF a] obtain norm peak b where g: "check_input env text limits = Inr ()"
    "profile_text env text (al_normalized_bytes limits) (budget_new (al_memory_bytes limits)) = Inr ((norm, peak), b)"
    "an_normalized doc = elems norm" "vec_len norm < 2 ^ 32" by blast
  then show ?thesis
    using profile_text_ascii[OF _ g(2)]
    by (auto simp: recheck_text_def u32_try_from_def vec_len_def)
qed

lemma single_term_eval:
  assumes a: "analyze env text limits = Inr doc" and ok: "alloc_ok (env_alloc env)" "words_ok env" "ascii_words_ok env"
    and c: "canonical t"
  shows "single_term_matches env \<lparr>stm_term = t\<rparr> text limits steps =
    (if eval_cost (terms_of doc) (ETerm t) \<le> steps then Inr (holds (terms_of doc) (ETerm t)) else Inl (Limit ''search work''))"
proof -
  let ?W = "if is_ascii text then text else an_normalized doc"
  let ?f = "if is_ascii text then map to_ascii_lowercase else (\<lambda>w. w)"
  note r = recheck_words[OF a ok refl refl]
  have m: "single_term_matches env \<lparr>stm_term = t\<rparr> text limits steps = match_words env ?W limits steps (\<lambda>w. ?f w = t)"
    unfolding single_term_matches_def recheck_text_eval[OF a] by (simp add: eq_ignore_canonical[OF c])
  have "scan_cost (\<lambda>w. ?f w = t) (map snd (env_words env ?W)) = scan_cost (\<lambda>w. w = t) (terms_of doc)"
    unfolding r(1)[symmetric] by (simp only: scan_cost_map)
  moreover have "list_ex (\<lambda>w. ?f w = t) (map snd (env_words env ?W)) \<longleftrightarrow> t \<in> set (terms_of doc)"
    unfolding r(1)[symmetric] by (auto simp: list_ex_iff)
  ultimately show ?thesis unfolding m match_words_eval[OF r(2,3)] by simp
qed

lemma phrase_eval:
  assumes a: "analyze env text limits = Inr doc" and ok: "alloc_ok (env_alloc env)" "words_ok env" "ascii_words_ok env"
    and c: "\<forall>t \<in> set ts. canonical t" and width: "ts \<noteq> []" "length ts \<le> 64"
  shows "phrase_matches env \<lparr>pm_terms = ts\<rparr> text limits steps =
    (if eval_cost (terms_of doc) (EPhrase ts) \<le> steps then Inr (holds (terms_of doc) (EPhrase ts)) else Inl (Limit ''search work''))"
proof -
  let ?W = "if is_ascii text then text else an_normalized doc"
  let ?f = "if is_ascii text then map to_ascii_lowercase else (\<lambda>w. w)"
  let ?eq = "if is_ascii text then eq_ignore_ascii_case else (\<lambda>w t. w = t)"
  note r = recheck_words[OF a ok refl refl]
  have m: "phrase_matches env \<lparr>pm_terms = ts\<rparr> text limits steps = match_phrase_words env ?W ts limits steps ?eq"
    unfolding phrase_matches_def recheck_text_eval[OF a] by simp
  have eq: "?eq w t \<longleftrightarrow> ?f w = t" if "t \<in> set ts" for w t using c that by (simp add: eq_ignore_canonical)
  show ?thesis
    using match_phrase_words_eval[where equal = ?eq and f = ?f, OF eq width r(2,3) r(1)[symmetric]]
    unfolding m by simp
qed

lemma single_node_query:
  assumes "lays_out q e" "query_node_count q = 1"
  shows "parts e = []" "nd_kind (q_nodes q ! q_root q) = root_kind 0 e"
proof -
  have one: "expr_size e = 1" using assms by (simp add: lays_out_def query_node_count_def)
  then show "parts e = []" by (cases e) auto
  show "nd_kind (q_nodes q ! q_root q) = root_kind 0 e"
    using assms(1) nth_flatten_root[of 0 e] by (simp add: lays_out_def root_node_def)
qed

section \<open>Properties\<close>

text \<open>C11: the single-term matcher is the oracle: for a parsed query it applies to, and a text that the
  document analysis accepts, it returns exactly what the oracle returns on the analysed document,
  the search-work error included, although it keeps no tokens and lowercases nothing. The terms of
  an ASCII query are canonical by themselves; for other queries that is a hypothesis.\<close>

theorem single_term_recheck:
  assumes "query_parse env input ql = Inr q" "single_term_new q = Some m" "analyze env text al = Inr doc"
    and "alloc_ok (env_alloc env)" "words_ok env" "ascii_words_ok env" "is_ascii input \<or> canonical (stm_term m)"
    and "vector (env_alloc env) 1 (query_node_count q) (budget_new memory) = Inr (v :: bool vec, b)"
  shows "single_term_matches env m text al steps = oracle_matches env doc q memory steps"
proof -
  obtain ts e where q: "query_sentence env input ts e" "lays_out q e"
    using query_parse_lays_out[OF assms(1,4,5)] by blast
  have n: "query_node_count q = 1" using assms(2) by (auto simp: single_term_new_def split: if_splits)
  obtain t where e: "e = ETerm t" "m = \<lparr>stm_term = t\<rparr>"
    using assms(2) n single_node_query[OF q(2) n] by (cases e) (auto simp: single_term_new_def)
  have "canonical t" using assms(7) sentence_canonical[OF q(1), of t] e by auto
  from single_term_eval[OF assms(3-6) this] oracle_eval[OF q(2) analyze_len[OF assms(3-5)] assms(8)]
  show ?thesis by (simp add: e)
qed

theorem single_term_recheck_witness:
  "\<exists>q m doc. query_parse plain_env [0x61] query_limits_default = Inr q \<and> single_term_new q = Some m \<and>
     analyze plain_env [0x62, 0x20, 0x41] analysis_limits_default = Inr doc \<and>
     single_term_matches plain_env m [0x62, 0x20, 0x41] analysis_limits_default 3 = oracle_matches plain_env doc q 16 3"
proof -
  let ?q = "\<lparr>q_nodes = [\<lparr>nd_kind = KTerm [0x61], nd_depth = 1\<rparr>], q_root = 0, q_source = [0x61],
    q_terms = 1, q_retained_bytes = 10\<rparr>"
  let ?d = "\<lparr>an_normalized = [0x62, 0x20, 0x61], an_tokens = [\<lparr>tr_start = 0, tr_end = 1\<rparr>, \<lparr>tr_start = 2, tr_end = 3\<rparr>],
    an_retained_bytes = 19, an_peak_bytes = 19\<rparr>"
  have p: "query_parse plain_env [0x61] query_limits_default = Inr ?q" by code_simp
  have s: "single_term_new ?q = Some \<lparr>stm_term = [0x61]\<rparr>" by code_simp
  have a: "analyze plain_env [0x62, 0x20, 0x41] analysis_limits_default = Inr ?d" by code_simp
  have v: "vector (env_alloc plain_env) 1 (query_node_count ?q) (budget_new 16) =
      Inr (\<lparr>elems = [], capacity = 1\<rparr> :: bool vec, \<lparr>mb_limit = 16, mb_used = 1, mb_peak = 1\<rparr>)" by code_simp
  have "is_ascii [0x61] \<or> canonical (stm_term \<lparr>stm_term = [0x61]\<rparr>)" by (simp add: ascii_def)
  from single_term_recheck[OF p s a plain_env_ok(1,2,3) this v, of 3] p s a show ?thesis by blast
qed

text \<open>C10: the phrase matcher, which keeps a ring of the last words instead of a token list, is the oracle:
  for a parsed query it applies to (one phrase of at most 64 terms) and a text that the document
  analysis accepts, it returns exactly what the oracle returns on the analysed document, the
  search-work error included. It is assumed that the oracle's node buffer can be allocated within its
  memory and that a granted capacity is enough, that word segmentation yields slices and treats ASCII
  letters alike in both cases, and that the query is ASCII or, otherwise, that its terms are canonical.\<close>

theorem phrase_recheck:
  assumes "query_parse env input ql = Inr q" "phrase_new q = Some m" "analyze env text al = Inr doc"
    and "alloc_ok (env_alloc env)" "words_ok env" "ascii_words_ok env"
    and "is_ascii input \<or> list_all canonical (pm_terms m)"
    and "vector (env_alloc env) 1 (query_node_count q) (budget_new memory) = Inr (v :: bool vec, b)"
  shows "phrase_matches env m text al steps = oracle_matches env doc q memory steps"
proof -
  obtain ts e where q: "query_sentence env input ts e" "lays_out q e"
    using query_parse_lays_out[OF assms(1,4,5)] by blast
  have n: "query_node_count q = 1" using assms(2) by (auto simp: phrase_new_def split: if_splits)
  obtain us where e: "e = EPhrase us" "m = \<lparr>pm_terms = us\<rparr>" "us \<noteq> []" "length us \<le> 64"
    using assms(2) n single_node_query[OF q(2) n] by (cases e) (auto simp: phrase_new_def split: if_splits)
  have "\<forall>t \<in> set us. canonical t" using assms(7) sentence_canonical[OF q(1)] e by (auto simp: list_all_iff)
  from phrase_eval[OF assms(3-6) this e(3,4)] oracle_eval[OF q(2) analyze_len[OF assms(3-5)] assms(8)]
  show ?thesis by (simp add: e)
qed

theorem phrase_recheck_witness:
  "\<exists>q m doc. query_parse plain_env [0x22, 0x61, 0x20, 0x62, 0x22] query_limits_default = Inr q \<and> phrase_new q = Some m \<and>
     analyze plain_env [0x61, 0x20, 0x41, 0x20, 0x62] analysis_limits_default = Inr doc \<and>
     phrase_matches plain_env m [0x61, 0x20, 0x41, 0x20, 0x62] analysis_limits_default 5 = oracle_matches plain_env doc q 16 5"
proof -
  have "(case query_parse plain_env [0x22, 0x61, 0x20, 0x62, 0x22] query_limits_default of
      Inl _ \<Rightarrow> None | Inr q \<Rightarrow> Some (map nd_kind (q_nodes q), q_root q)) = Some ([KPhrase [[0x61], [0x62]]], 0)" by code_simp
  then obtain q where q: "query_parse plain_env [0x22, 0x61, 0x20, 0x62, 0x22] query_limits_default = Inr q"
    "map nd_kind (q_nodes q) = [KPhrase [[0x61], [0x62]]]" "q_root q = 0" by (auto split: sum.splits)
  then have n: "query_node_count q = 1" "phrase_new q = Some \<lparr>pm_terms = [[0x61], [0x62]]\<rparr>"
    by (auto simp: query_node_count_def phrase_new_def)
  have "(case analyze plain_env [0x61, 0x20, 0x41, 0x20, 0x62] analysis_limits_default of Inl _ \<Rightarrow> False | Inr _ \<Rightarrow> True)"
    by code_simp
  then obtain doc where a: "analyze plain_env [0x61, 0x20, 0x41, 0x20, 0x62] analysis_limits_default = Inr doc"
    by (auto split: sum.splits)
  have v: "vector (env_alloc plain_env) 1 (query_node_count q) (budget_new 16) =
      Inr (\<lparr>elems = [], capacity = 1\<rparr> :: bool vec, \<lparr>mb_limit = 16, mb_used = 1, mb_peak = 1\<rparr>)"
    unfolding n(1) by code_simp
  have "is_ascii [0x22, 0x61, 0x20, 0x62, 0x22] \<or> list_all canonical (pm_terms \<lparr>pm_terms = [[0x61], [0x62]]\<rparr>)"
    by (simp add: ascii_def)
  from phrase_recheck[OF q(1) n(2) a plain_env_ok(1,2,3) this v, of 5] q(1) n(2) a show ?thesis by blast
qed

end
