(* ===== verification/Index.thy ===== *)
theory Index
  imports Oracle
begin

text \<open>
  The reference index (crates/pin-core/src/index.rs): documents, the sorted postings and the
  dictionary over them, and the search that evaluates a compiled query document by document within
  a work limit. A \<open>Range<usize>\<close> is the pair of its bounds.
\<close>

section \<open>Documents and limits\<close>

record document =
  ix_identity :: document_ref
  ix_text :: analyzed

definition document_new :: "relation_generation \<Rightarrow> document_record \<Rightarrow> analyzed \<Rightarrow> document result" where
  "document_new relation rec text =
     (if doc_publication rec \<noteq> Published \<or> \<not> doc_live rec then Inl InvalidState
      else if doc_profile rec \<noteq> analyzed_profile text then Inl InvalidProfile
      else if doc_token_count rec \<noteq> analyzed_len text then Inl InvalidDocument
      else Inr \<lparr>ix_identity = \<lparr>dr_relation = relation, dr_segment = doc_segment rec,
                               dr_incarnation = doc_incarnation rec, dr_root = doc_root rec\<rparr>,
                ix_text = text\<rparr>)"

definition document_length :: "document \<Rightarrow> u32" where
  "document_length self = analyzed_len (ix_text self)"

record index_limits =
  il_documents :: nat
  il_tokens :: nat
  il_terms :: nat
  il_term_bytes :: nat
  il_memory_bytes :: nat

definition index_limits_default :: index_limits where
  "index_limits_default = \<lparr>il_documents = 65536, il_tokens = 4000000, il_terms = 1000000,
     il_term_bytes = 1024, il_memory_bytes = 128 * 2 ^ 20\<rparr>"

record search_limits =
  sl_expanded_terms :: nat
  sl_memory_bytes :: nat
  sl_work_steps :: nat

definition search_limits_default :: search_limits where
  "search_limits_default = \<lparr>sl_expanded_terms = 4096, sl_memory_bytes = 8 * 2 ^ 20, sl_work_steps = 100000000\<rparr>"

section \<open>Building\<close>

type_synonym range = "nat \<times> nat"

definition range_len :: "range \<Rightarrow> nat" where
  "range_len r = snd r - fst r"

definition range_is_empty :: "range \<Rightarrow> bool" where
  "range_is_empty r \<longleftrightarrow> snd r \<le> fst r"

definition slice :: "'a list \<Rightarrow> range \<Rightarrow> 'a list" where
  "slice xs r = take (snd r - fst r) (drop (fst r) xs)"

record posting =
  po_term :: str
  po_document :: u32
  po_position :: u32

record index_term =
  ie_text :: str
  ie_postings :: range
  ie_frequency :: u64

record reference_index =
  ri_relation :: relation_generation
  ri_documents :: "document list"
  ri_postings :: "posting list"
  ri_terms :: "index_term list"
  ri_total_length :: u64
  ri_retained_bytes :: nat

definition check_document ::
  "relation_generation \<Rightarrow> index_limits \<Rightarrow> nat \<Rightarrow> document \<Rightarrow> nat result" where
  "check_document relation limits acc doc =
     (if dr_relation (ix_identity doc) \<noteq> relation then Inl ForeignRelation else
      and_then (ok_or (Limit ''tokens'') (checked_add acc (unat (document_length doc)))) (\<lambda>acc.
      if acc > il_tokens limits then Inl (Limit ''tokens'')
      else if list_ex (\<lambda>token. length (tk_term token) > il_term_bytes limits) (analyzed_tokens (ix_text doc))
      then Inl (Limit ''term bytes'')
      else Inr acc))"

definition document_root :: "document \<Rightarrow> root_tid" where
  "document_root doc = dr_root (ix_identity doc)"

definition document_tokens :: "nat \<times> document \<Rightarrow> posting list" where
  "document_tokens d = map (\<lambda>token. \<lparr>po_term = tk_term token, po_document = of_nat (fst d),
     po_position = tk_position token\<rparr>) (analyzed_tokens (ix_text (snd d)))"

definition posting_key :: "posting \<Rightarrow> str \<times> u32 \<times> u32" where
  "posting_key p = (po_term p, po_document p, po_position p)"

definition count_distinct :: "posting list \<Rightarrow> nat" where
  "count_distinct ps = (if ps \<noteq> [] then 1 else 0) +
     length (filter (\<lambda>(a, b). po_term a \<noteq> po_term b) (windows2 ps))"

text \<open>The inner loop over the postings of one term.\<close>

function term_end :: "posting list \<Rightarrow> str \<Rightarrow> nat \<Rightarrow> u64 \<Rightarrow> nat \<times> u64" where
  "term_end ps text e frequency =
     (if e < length ps \<and> po_term (ps ! e) = text
      then term_end ps text (e + 1)
        (if po_document (ps ! (e - 1)) \<noteq> po_document (ps ! e) then frequency + 1 else frequency)
      else (e, frequency))"
  by pat_completeness auto
termination by (relation "measure (\<lambda>(ps, text, e, f). length ps - e)") auto

declare term_end.simps [simp del]

lemma term_end_ge: "e \<le> fst (term_end ps text e f)"
proof (induction ps "text" e f rule: term_end.induct)
  case (1 ps "text" e f)
  then show ?case by (subst term_end.simps) auto
qed

function build_terms :: "posting list \<Rightarrow> nat \<Rightarrow> index_term list" where
  "build_terms ps from =
     (if from < length ps then
        let text = po_term (ps ! from); (e, frequency) = term_end ps text (from + 1) 1 in
        \<lparr>ie_text = text, ie_postings = (from, e), ie_frequency = frequency\<rparr> # build_terms ps e
      else [])"
  by pat_completeness auto
termination
  by (relation "measure (\<lambda>(ps, from). length ps - from)")
    (auto intro!: diff_less_mono2 dest!: arg_cong[where f = fst] intro: less_le_trans[OF _ term_end_ge])

declare build_terms.simps [simp del]

definition index_build ::
  "env \<Rightarrow> relation_generation \<Rightarrow> document list \<Rightarrow> index_limits \<Rightarrow> reference_index result" where
  "index_build env relation documents limits =
     (if length documents > il_documents limits \<or> u32_try_from (length documents) = None
      then Inl (Limit ''documents'') else
      and_then (try_fold (check_document relation limits) 0 documents) (\<lambda>acc.
      and_then (vector (env_alloc env) (env_size env ''Document'') (length documents) (budget_new (il_memory_bytes limits)))
        (\<lambda>(ordered :: document vec, budget).
      let ordered = sort_key document_root (elems ordered @ documents) in
      if list_ex (\<lambda>(a, b). document_root a = document_root b) (windows2 ordered) then Inl DuplicateDocument else
      and_then (vector (env_alloc env) (env_size env ''Posting'') acc budget) (\<lambda>(postings :: posting vec, budget).
      let postings = sort_key posting_key (elems postings @ concat (map document_tokens (enumerate 0 ordered)));
          distinct = count_distinct postings in
      if distinct > il_terms limits then Inl (Limit ''dictionary terms'') else
      and_then (vector (env_alloc env) (env_size env ''Term'') distinct budget) (\<lambda>(terms :: index_term vec, budget).
      Inr \<lparr>ri_relation = relation, ri_documents = ordered, ri_postings = postings,
           ri_terms = elems terms @ build_terms postings 0, ri_total_length = of_nat acc,
           ri_retained_bytes = mb_used budget\<rparr>)))))"

section \<open>Lookup\<close>

text \<open>The loop of \<open>lower_bound\<close>.\<close>

function lower_bound_worker :: "'a list \<Rightarrow> ('a \<Rightarrow> bool) \<Rightarrow> nat \<Rightarrow> nat \<Rightarrow> nat worker" where
  "lower_bound_worker xs before low high work =
     (if low < high then
        and_then (work_charge work 1) (\<lambda>work.
          let middle = low + (high - low) div 2 in
          if before (xs ! middle) then lower_bound_worker xs before (middle + 1) high work
          else lower_bound_worker xs before low middle work)
      else Inr (low, work))"
  by pat_completeness auto
termination by (relation "measure (\<lambda>(xs, before, low, high, work). high - low)") auto

declare lower_bound_worker.simps [simp del]

definition lower_bound :: "'a list \<Rightarrow> ('a \<Rightarrow> bool) \<Rightarrow> nat worker" where
  "lower_bound xs before work = lower_bound_worker xs before 0 (length xs) work"

text \<open>\<open>slice::binary_search_by\<close>, with the comparison given as the key of an entry and the target.\<close>

function binary_search_loop :: "('a \<Rightarrow> 'k::linorder) \<Rightarrow> 'a list \<Rightarrow> 'k \<Rightarrow> nat \<Rightarrow> nat \<Rightarrow> nat option" where
  "binary_search_loop key xs k low high =
     (if low < high then
        let middle = low + (high - low) div 2 in
        if key (xs ! middle) = k then Some middle
        else if key (xs ! middle) < k then binary_search_loop key xs k (middle + 1) high
        else binary_search_loop key xs k low middle
      else None)"
  by pat_completeness auto
termination by (relation "measure (\<lambda>(key, xs, k, low, high). high - low)") auto

declare binary_search_loop.simps [simp del]

definition document_frequency :: "reference_index \<Rightarrow> str \<Rightarrow> u64" where
  "document_frequency self term =
     (case binary_search_loop ie_text (ri_terms self) term 0 (length (ri_terms self)) of
        None \<Rightarrow> 0 | Some index \<Rightarrow> ie_frequency (ri_terms self ! index))"

definition index_lookup :: "reference_index \<Rightarrow> str \<Rightarrow> nat option worker" where
  "index_lookup self term work =
     and_then (lower_bound (ri_terms self) (\<lambda>entry. ie_text entry < term) work) (\<lambda>(from, work).
       Inr (if from < length (ri_terms self) \<and> ie_text (ri_terms self ! from) = term then Some from else None, work))"

definition index_prefix :: "reference_index \<Rightarrow> str \<Rightarrow> range worker" where
  "index_prefix self prefix work =
     and_then (lower_bound (ri_terms self) (\<lambda>entry. ie_text entry < prefix) work) (\<lambda>(from, work).
     and_then (lower_bound (drop from (ri_terms self)) (\<lambda>entry. starts_with (ie_text entry) prefix) work)
       (\<lambda>(count, work). Inr ((from, from + count), work)))"

definition document_postings :: "reference_index \<Rightarrow> nat \<Rightarrow> u32 \<Rightarrow> range worker" where
  "document_postings self term document work =
     (let r = ie_postings (ri_terms self ! term); postings = slice (ri_postings self) r in
      and_then (lower_bound postings (\<lambda>p. po_document p < document) work) (\<lambda>(from, work).
      and_then (lower_bound (drop from postings) (\<lambda>p. po_document p = document) work) (\<lambda>(count, work).
        Inr ((fst r + from, fst r + from + count), work))))"

definition has_position :: "reference_index \<Rightarrow> range \<Rightarrow> u32 \<Rightarrow> bool worker" where
  "has_position self r position work =
     (let postings = slice (ri_postings self) r in
      and_then (lower_bound postings (\<lambda>p. po_position p < position) work) (\<lambda>(index, work).
        Inr (index < length postings \<and> po_position (postings ! index) = position, work)))"

section \<open>Searching\<close>

datatype bound =
    BNever
  | BTerm "nat option"
  | BPrefix range
  | BPhrase range
  | BNot nat
  | BAnd nat nat
  | BOr nat nat

record phrase_term =
  pt_term :: "nat option"
  pt_offset :: u32

record candidate =
  cd_document :: document_ref
  cd_ordinal :: u32

record search =
  se_index :: reference_index
  se_nodes :: "bound list"
  se_phrase_terms :: "phrase_term list"
  se_values :: "bool list"
  se_ranges :: "range list"
  se_root :: nat
  se_next_document :: nat
  se_failed :: bool
  se_budget :: memory_budget
  se_work :: nat

text \<open>The local state of the compilation loop.\<close>

record compile =
  cp_nodes :: "bound list"
  cp_phrase_terms :: "phrase_term list"
  cp_longest :: nat
  cp_expanded :: nat
  cp_work :: nat

definition compile_phrase_term ::
  "reference_index \<Rightarrow> phrase_term list \<times> nat \<Rightarrow> nat \<times> str \<Rightarrow> (phrase_term list \<times> nat) result" where
  "compile_phrase_term self st item =
     and_then (work_charge (snd st) 1) (\<lambda>work.
     and_then (index_lookup self (snd item) work) (\<lambda>(term, work).
     and_then (ok_or (Limit ''phrase positions'') (u32_try_from (fst item))) (\<lambda>offset.
       Inr (fst st @ [\<lparr>pt_term = term, pt_offset = offset\<rparr>], work))))"

definition compile_node :: "reference_index \<Rightarrow> search_limits \<Rightarrow> compile \<Rightarrow> node \<Rightarrow> compile result" where
  "compile_node self limits st node =
     and_then (work_charge (cp_work st) 1) (\<lambda>work.
     let emit = (\<lambda>bound st. Inr (st\<lparr>cp_nodes := cp_nodes st @ [bound]\<rparr>)); st = st\<lparr>cp_work := work\<rparr> in
     case nd_kind node of
       KNone \<Rightarrow> emit BNever st
     | KTerm term \<Rightarrow> and_then (index_lookup self term work) (\<lambda>(t, work). emit (BTerm t) (st\<lparr>cp_work := work\<rparr>))
     | KPrefix prefix \<Rightarrow>
         and_then (index_prefix self prefix work) (\<lambda>(r, work).
         and_then (ok_or (Limit ''prefix expansion'') (checked_add (cp_expanded st) (range_len r))) (\<lambda>expanded.
         if expanded > sl_expanded_terms limits then Inl (Limit ''prefix expansion'')
         else emit (BPrefix r) (st\<lparr>cp_work := work, cp_expanded := expanded\<rparr>)))
     | KPhrase terms \<Rightarrow>
         (let from = length (cp_phrase_terms st) in
          and_then (try_fold (compile_phrase_term self) (cp_phrase_terms st, work) (enumerate 0 terms)) (\<lambda>(pts, work).
          emit (BPhrase (from, length pts))
            (st\<lparr>cp_work := work, cp_phrase_terms := pts, cp_longest := max (cp_longest st) (length terms)\<rparr>)))
     | KNot child \<Rightarrow> emit (BNot child) st
     | KAnd left right \<Rightarrow> emit (BAnd left right) st
     | KOr left right \<Rightarrow> emit (BOr left right) st)"

definition phrase_total :: "nat \<Rightarrow> node \<Rightarrow> nat result" where
  "phrase_total count node =
     ok_or (Limit ''phrase terms'')
       (checked_add count (case nd_kind node of KPhrase terms \<Rightarrow> length terms | _ \<Rightarrow> 0))"

definition index_search :: "env \<Rightarrow> reference_index \<Rightarrow> query \<Rightarrow> search_limits \<Rightarrow> search result" where
  "index_search env self query limits =
     and_then (vector (env_alloc env) (env_size env ''Bound'') (query_node_count query) (budget_new (sl_memory_bytes limits)))
       (\<lambda>(nodes :: bound vec, budget).
     and_then (try_fold phrase_total 0 (q_nodes query)) (\<lambda>phrase_count.
     and_then (vector (env_alloc env) (env_size env ''PhraseTerm'') phrase_count budget) (\<lambda>(pts :: phrase_term vec, budget).
     and_then (try_fold (compile_node self limits)
       \<lparr>cp_nodes = elems nodes, cp_phrase_terms = elems pts, cp_longest = 0, cp_expanded = 0,
        cp_work = sl_work_steps limits\<rparr> (q_nodes query)) (\<lambda>st.
     and_then (vector (env_alloc env) 1 (query_node_count query) budget) (\<lambda>(vals :: bool vec, budget).
     and_then (vector (env_alloc env) (env_size env ''Range'') (cp_longest st) budget) (\<lambda>(ranges :: range vec, budget).
     Inr \<lparr>se_index = self, se_nodes = cp_nodes st, se_phrase_terms = cp_phrase_terms st,
          se_values = replicate (query_node_count query) False, se_ranges = replicate (cp_longest st) (0, 0),
          se_root = q_root query, se_next_document = 0, se_failed = False, se_budget = budget,
          se_work = cp_work st\<rparr>))))))"

text \<open>The first loop of \<open>phrase\<close>: the postings of every term in the document and the slot with the
  fewest, or \<open>None\<close> where the function returns \<open>false\<close>.\<close>

fun phrase_ranges ::
  "reference_index \<Rightarrow> u32 \<Rightarrow> (nat \<times> phrase_term) list \<Rightarrow> nat \<Rightarrow> range list \<Rightarrow> (nat option \<times> range list) worker" where
  "phrase_ranges index document [] anchor ranges work = Inr ((Some anchor, ranges), work)"
| "phrase_ranges index document ((slot, term) # rest) anchor ranges work =
     and_then (work_charge work 1) (\<lambda>work.
       case pt_term term of
         None \<Rightarrow> Inr ((None, ranges), work)
       | Some t \<Rightarrow>
           and_then (document_postings index t document work) (\<lambda>(r, work).
             let ranges = ranges[slot := r] in
             if range_is_empty r then Inr ((None, ranges), work)
             else phrase_ranges index document rest
               (if range_len (ranges ! slot) < range_len (ranges ! anchor) then slot else anchor) ranges work))"

fun probe_slots ::
  "reference_index \<Rightarrow> range list \<Rightarrow> u32 \<Rightarrow> nat \<Rightarrow> (nat \<times> phrase_term) list \<Rightarrow> bool worker" where
  "probe_slots index ranges from anchor [] work = Inr (True, work)"
| "probe_slots index ranges from anchor ((slot, term) # rest) work =
     (if slot = anchor then probe_slots index ranges from anchor rest work
      else and_then (work_charge work 1) (\<lambda>work.
        case checked_add_w from (pt_offset term) of
          None \<Rightarrow> Inr (False, work)
        | Some position \<Rightarrow>
            and_then (has_position index (ranges ! slot) position work) (\<lambda>(found, work).
              if \<not> found then Inr (False, work) else probe_slots index ranges from anchor rest work)))"

fun probe_anchor ::
  "reference_index \<Rightarrow> phrase_term list \<Rightarrow> range list \<Rightarrow> nat \<Rightarrow> posting list \<Rightarrow> bool worker" where
  "probe_anchor index terms ranges anchor [] work = Inr (False, work)"
| "probe_anchor index terms ranges anchor (posting # rest) work =
     and_then (work_charge work 1) (\<lambda>work.
       case checked_sub_w (po_position posting) (pt_offset (terms ! anchor)) of
         None \<Rightarrow> probe_anchor index terms ranges anchor rest work
       | Some from \<Rightarrow>
           and_then (probe_slots index ranges from anchor (enumerate 0 terms) work) (\<lambda>(matched, work).
             if matched then Inr (True, work) else probe_anchor index terms ranges anchor rest work))"

definition search_phrase ::
  "reference_index \<Rightarrow> phrase_term list \<Rightarrow> range list \<Rightarrow> u32 \<Rightarrow> (bool \<times> range list) worker" where
  "search_phrase index terms ranges document work =
     and_then (phrase_ranges index document (enumerate 0 terms) 0 ranges work) (\<lambda>((a, ranges), work).
       case a of
         None \<Rightarrow> Inr ((False, ranges), work)
       | Some anchor \<Rightarrow>
           and_then (probe_anchor index terms ranges anchor (slice (ri_postings index) (ranges ! anchor)) work)
             (\<lambda>(b, work). Inr ((b, ranges), work)))"

text \<open>The loop over the expansion of a prefix.\<close>

fun any_term :: "reference_index \<Rightarrow> u32 \<Rightarrow> nat list \<Rightarrow> bool worker" where
  "any_term index document [] work = Inr (False, work)"
| "any_term index document (term # terms) work =
     and_then (work_charge work 1) (\<lambda>work.
     and_then (document_postings index term document work) (\<lambda>(r, work).
       if \<not> range_is_empty r then Inr (True, work) else any_term index document terms work))"

definition search_node ::
  "reference_index \<Rightarrow> phrase_term list \<Rightarrow> u32 \<Rightarrow> bool list \<times> range list \<Rightarrow> nat \<times> bound \<Rightarrow> (bool list \<times> range list) worker" where
  "search_node index pts document st item work =
     (let (vals, ranges) = st; (slot, node) = item in
      and_then (work_charge work 1) (\<lambda>work.
      let assign = (\<lambda>v work. Inr ((vals[slot := v], ranges), work)) in
      case node of
        BNever \<Rightarrow> assign False work
      | BTerm None \<Rightarrow> assign False work
      | BTerm (Some term) \<Rightarrow>
          and_then (document_postings index term document work) (\<lambda>(r, work). assign (\<not> range_is_empty r) work)
      | BPrefix r \<Rightarrow> and_then (any_term index document [fst r..<snd r] work) (\<lambda>(found, work). assign found work)
      | BPhrase r \<Rightarrow>
          and_then (search_phrase index (slice pts r) ranges document work) (\<lambda>((b, ranges), work).
            Inr ((vals[slot := b], ranges), work))
      | BNot child \<Rightarrow> assign (\<not> vals ! child) work
      | BAnd left right \<Rightarrow> assign (vals ! left \<and> vals ! right) work
      | BOr left right \<Rightarrow> assign (vals ! left \<or> vals ! right) work))"

fun search_nodes ::
  "reference_index \<Rightarrow> phrase_term list \<Rightarrow> u32 \<Rightarrow> (nat \<times> bound) list \<Rightarrow> bool list \<times> range list \<Rightarrow> (bool list \<times> range list) worker" where
  "search_nodes index pts document [] st work = Inr (st, work)"
| "search_nodes index pts document (item # items) st work =
     and_then (search_node index pts document st item work) (\<lambda>(st, work).
       search_nodes index pts document items st work)"

definition search_matches :: "search \<Rightarrow> u32 \<Rightarrow> (bool \<times> search) result" where
  "search_matches self document =
     and_then (search_nodes (se_index self) (se_phrase_terms self) document (enumerate 0 (se_nodes self))
       (se_values self, se_ranges self) (se_work self)) (\<lambda>((vals, ranges), work).
     Inr (vals ! se_root self, self\<lparr>se_values := vals, se_ranges := ranges, se_work := work\<rparr>))"

text \<open>\<open>Iterator::next\<close>: what an error leaves in the scratch buffers is never read again.\<close>

lemma search_matches_next:
  "search_matches self document = Inr (b, self') \<Longrightarrow>
    se_next_document self' = se_next_document self \<and> se_index self' = se_index self"
  by (auto simp: search_matches_def res_simps)

function next_loop :: "search \<Rightarrow> candidate result option \<times> search" where
  "next_loop self =
     (if se_next_document self < length (ri_documents (se_index self)) then
        let ordinal = se_next_document self; self = self\<lparr>se_next_document := ordinal + 1\<rparr> in
        case search_matches self (of_nat ordinal) of
          Inr (matched, self) \<Rightarrow>
            if matched
            then (Some (Inr \<lparr>cd_document = ix_identity (ri_documents (se_index self) ! ordinal), cd_ordinal = of_nat ordinal\<rparr>), self)
            else next_loop self
        | Inl error \<Rightarrow> (Some (Inl error), self\<lparr>se_failed := True\<rparr>)
      else (None, self))"
  by pat_completeness auto
termination
  by (relation "measure (\<lambda>self. length (ri_documents (se_index self)) - se_next_document self)")
    (auto dest!: search_matches_next)

declare next_loop.simps [simp del]

definition search_next :: "search \<Rightarrow> candidate result option \<times> search" where
  "search_next self = (if se_failed self then (None, self) else next_loop self)"

lemma next_loop_advances:
  "next_loop self = (Some r, self') \<Longrightarrow>
    se_next_document self < se_next_document self' \<and> se_next_document self' \<le> length (ri_documents (se_index self)) \<and>
    se_index self' = se_index self"
proof (induction self rule: next_loop.induct)
  case (1 self)
  let ?s = "self\<lparr>se_next_document := se_next_document self + 1\<rparr>"
  have lt: "se_next_document self < length (ri_documents (se_index self))"
    using 1(2) by (subst (asm) next_loop.simps) (auto split: if_splits)
  show ?case
  proof (cases "search_matches ?s (of_nat (se_next_document self))")
    case (Inl e)
    then show ?thesis using 1(2) lt by (subst (asm) next_loop.simps) (auto simp: Let_def)
  next
    case (Inr ms)
    obtain m s where ms: "search_matches ?s (of_nat (se_next_document self)) = Inr (m, s)" using Inr by (cases ms) auto
    note n = search_matches_next[OF ms]
    show ?thesis
    proof (cases m)
      case True
      then show ?thesis using 1(2) lt ms n by (subst (asm) next_loop.simps) (auto simp: Let_def)
    next
      case False
      then have "next_loop s = (Some r, self')" using 1(2) lt ms by (subst (asm) next_loop.simps) (simp add: Let_def)
      from 1(1)[OF lt refl refl ms refl False this] n show ?thesis by auto
    qed
  qed
qed

lemma search_next_advances:
  "search_next self = (Some r, self') \<Longrightarrow>
    se_next_document self < se_next_document self' \<and> se_next_document self' \<le> length (ri_documents (se_index self)) \<and>
    se_index self' = se_index self"
  by (auto simp: search_next_def dest: next_loop_advances split: if_splits)

text \<open>The loop of \<open>candidate_count\<close>.\<close>

function count_loop :: "search \<Rightarrow> u64 \<Rightarrow> u64 result" where
  "count_loop self count =
     (case search_next self of
        (None, _) \<Rightarrow> Inr count
      | (Some (Inl error), _) \<Rightarrow> Inl error
      | (Some (Inr _), self) \<Rightarrow> count_loop self (count + 1))"
  by pat_completeness auto
termination
  by (relation "measure (\<lambda>(self, count). length (ri_documents (se_index self)) - se_next_document self)")
    (auto dest!: search_next_advances[OF sym] intro!: diff_less_mono2)

declare count_loop.simps [simp del]

definition candidate_count :: "env \<Rightarrow> reference_index \<Rightarrow> query \<Rightarrow> search_limits \<Rightarrow> u64 result" where
  "candidate_count env self query limits = and_then (index_search env self query limits) (\<lambda>s. count_loop s 0)"

text \<open>Everything a caller of the iterator sees: the candidates, and the error that ended it.\<close>

function search_drain :: "search \<Rightarrow> candidate list \<times> error option" where
  "search_drain self =
     (case search_next self of
        (None, _) \<Rightarrow> ([], None)
      | (Some (Inl error), _) \<Rightarrow> ([], Some error)
      | (Some (Inr c), self) \<Rightarrow> map_prod (\<lambda>cs. c # cs) id (search_drain self))"
  by pat_completeness auto
termination
  by (relation "measure (\<lambda>self. length (ri_documents (se_index self)) - se_next_document self)")
    (auto dest!: search_next_advances[OF sym] intro!: diff_less_mono2)

declare search_drain.simps [simp del]

end
