(* ===== verification/IndexSpec.thy ===== *)
theory IndexSpec
  imports Index
begin

text \<open>
  What the reference index stores: every dictionary entry owns exactly the postings of its term, in
  document and position order, and the bisections find the entries, prefixes, document runs and
  positions they look for, at a cost that depends on the searched lists only.
\<close>

section \<open>Bisection\<close>

definition partitioned :: "('a \<Rightarrow> bool) \<Rightarrow> 'a list \<Rightarrow> bool" where
  "partitioned p xs \<longleftrightarrow> sorted_wrt (\<lambda>x y. p y \<longrightarrow> p x) xs"

lemma partitioned_split:
  "partitioned p xs \<Longrightarrow> takeWhile p xs = filter p xs \<and> dropWhile p xs = filter (\<lambda>x. \<not> p x) xs"
proof (induction xs)
  case (Cons x xs)
  show ?case
  proof (cases "p x")
    case True
    then show ?thesis using Cons by (simp add: partitioned_def)
  next
    case False
    then have "\<forall>y \<in> set xs. \<not> p y" using Cons.prems by (auto simp: partitioned_def)
    then show ?thesis using False by simp
  qed
qed simp

lemma partitioned_nth:
  assumes "partitioned p xs" "i < length xs"
  shows "p (xs ! i) \<longleftrightarrow> i < length (filter p xs)"
proof -
  have e: "filter p xs = takeWhile p xs" using partitioned_split[OF assms(1)] by simp
  show ?thesis
  proof
    assume p: "p (xs ! i)"
    show "i < length (filter p xs)"
    proof (rule ccontr)
      assume "\<not> i < length (filter p xs)"
      then have k: "length (takeWhile p xs) \<le> i" by (simp add: e)
      then have l: "length (takeWhile p xs) < length xs" using assms(2) by simp
      have "\<not> p (xs ! length (takeWhile p xs))" by (rule nth_length_takeWhile[OF l])
      moreover have "p (xs ! length (takeWhile p xs))"
      proof (cases "length (takeWhile p xs) = i")
        case False
        with k have "length (takeWhile p xs) < i" by simp
        from sorted_wrt_nth_less[OF assms(1)[unfolded partitioned_def] this assms(2)] p show ?thesis by blast
      qed (use p in simp)
      ultimately show False by blast
    qed
  next
    assume "i < length (filter p xs)"
    then show "p (xs ! i)" unfolding e using nth_mem[of i "takeWhile p xs"] set_takeWhileD takeWhile_nth by metis
  qed
qed

lemma lower_bound_worker_runs:
  assumes "\<And>i. i < length xs \<Longrightarrow> before (xs ! i) \<longleftrightarrow> i < k" "low \<le> k" "k \<le> high" "high \<le> length xs"
  shows "runs (lower_bound_worker xs before low high) k"
  using assms(2-4)
proof (induction "high - low" arbitrary: low high rule: less_induct)
  case less
  show ?case
  proof (cases "low < high")
    case True
    let ?m = "low + (high - low) div 2"
    have m: "low \<le> ?m" "?m < high" using True by auto
    have "runs (\<lambda>work. if before (xs ! ?m) then lower_bound_worker xs before (?m + 1) high work
        else lower_bound_worker xs before low ?m work) k"
      using less.hyps[of high "?m + 1"] less.hyps[of ?m low] less.prems m assms(1)[of ?m] by auto
    from runs_charge[OF this, of 1] show ?thesis
      by (subst lower_bound_worker.simps[abs_def]) (simp add: True Let_def del: One_nat_def)
  next
    case False
    then have "low = k" using less.prems by simp
    then show ?thesis using False runs_ret[of k] by (subst lower_bound_worker.simps[abs_def]) simp
  qed
qed

lemma lower_bound_runs: "partitioned p xs \<Longrightarrow> runs (lower_bound xs p) (length (filter p xs))"
  unfolding lower_bound_def[abs_def]
  by (rule lower_bound_worker_runs) (simp_all add: partitioned_nth)

lemma partitioned_drop: "partitioned p xs \<Longrightarrow> drop (length (filter p xs)) xs = filter (\<lambda>x. \<not> p x) xs"
  using partitioned_split[of p xs] by (metis dropWhile_eq_drop)

text \<open>Two bisections in a row delimit the block of a key.\<close>

lemma sorted_block:
  assumes "sorted (map f xs)"
  shows "partitioned (\<lambda>x. f x < k) xs" "partitioned (\<lambda>x. f x = k) (filter (\<lambda>x. \<not> f x < k) xs)"
    "take (length (filter (\<lambda>x. f x = k) xs)) (drop (length (filter (\<lambda>x. f x < k) xs)) xs) = filter (\<lambda>x. f x = k) xs"
proof -
  have s: "sorted_wrt (\<lambda>x y. f x \<le> f y) xs" using assms by (simp add: sorted_map)
  show p1: "partitioned (\<lambda>x. f x < k) xs"
    unfolding partitioned_def using s by (rule sorted_wrt_mono_rel[rotated]) auto
  show p2: "partitioned (\<lambda>x. f x = k) (filter (\<lambda>x. \<not> f x < k) xs)"
    unfolding partitioned_def using sorted_wrt_filter[OF s, of "\<lambda>x. \<not> f x < k"]
    by (rule sorted_wrt_mono_rel[rotated]) auto
  have e: "filter (\<lambda>x. f x = k) xs = filter (\<lambda>x. f x = k) (filter (\<lambda>x. \<not> f x < k) xs)"
    by (auto intro: filter_cong)
  have "takeWhile (\<lambda>x. f x = k) (filter (\<lambda>x. \<not> f x < k) xs) = filter (\<lambda>x. f x = k) (filter (\<lambda>x. \<not> f x < k) xs)"
    using partitioned_split[OF p2] by simp
  then show "take (length (filter (\<lambda>x. f x = k) xs)) (drop (length (filter (\<lambda>x. f x < k) xs)) xs) = filter (\<lambda>x. f x = k) xs"
    unfolding partitioned_drop[OF p1] e by (metis takeWhile_eq_take)
qed

section \<open>Dictionary entries\<close>

lemma term_end_run:
  assumes "0 < e" "po_term (ps ! (e - 1)) = t"
  shows "term_end ps t e f =
    (e + length (takeWhile (\<lambda>p. po_term p = t) (drop e ps)),
     f + of_nat (length (remdups_adj (map po_document (ps ! (e - 1) # takeWhile (\<lambda>p. po_term p = t) (drop e ps))))) - 1)"
  using assms
proof (induction ps t e f rule: term_end.induct)
  case (1 ps t e f)
  show ?case
  proof (cases "e < length ps \<and> po_term (ps ! e) = t")
    case True
    then have d: "drop e ps = ps ! e # drop (e + 1) ps" by (simp add: Cons_nth_drop_Suc)
    have c: "length (remdups_adj (x # y # zs)) = (if x = y then 0 else 1) + length (remdups_adj (y # zs))"
      for x y :: u32 and zs by simp
    show ?thesis
      using 1(1)[OF True] True 1(2) unfolding d by (subst term_end.simps) (simp add: c del: remdups_adj.simps)
  next
    case False
    then have "takeWhile (\<lambda>p. po_term p = t) (drop e ps) = []"
      by (cases "e < length ps") (simp_all add: Cons_nth_drop_Suc[symmetric])
    then show ?thesis using False by (subst term_end.simps) auto
  qed
qed

text \<open>What a dictionary over the postings \<open>rest\<close> consists of.\<close>

definition entry_ok :: "posting list \<Rightarrow> posting list \<Rightarrow> index_term \<Rightarrow> bool" where
  "entry_ok ps rest entry \<longleftrightarrow>
     slice ps (ie_postings entry) = filter (\<lambda>p. po_term p = ie_text entry) rest \<and>
     fst (ie_postings entry) \<le> snd (ie_postings entry) \<and> snd (ie_postings entry) \<le> length ps \<and>
     ie_frequency entry = of_nat (card (po_document ` set (slice ps (ie_postings entry))))"

lemma length_remdups_adj_card: "sorted (xs :: 'a::linorder list) \<Longrightarrow> length (remdups_adj xs) = card (set xs)"
proof (induction xs rule: remdups_adj.induct)
  case (3 x y xs)
  then show ?case by (cases "x = y") (auto simp: card_insert_if)
qed auto

lemma sorted_key_term: "sorted (map posting_key ps) \<Longrightarrow> sorted (map po_term ps)"
  unfolding sorted_map by (erule sorted_wrt_mono_rel[rotated]) (auto simp: posting_key_def)

lemma sorted_key_document:
  "sorted (map posting_key ps) \<Longrightarrow> sorted (map po_document (filter (\<lambda>p. po_term p = t) ps))"
  unfolding sorted_map
  by (drule sorted_wrt_filter[where P = "\<lambda>p. po_term p = t"], erule sorted_wrt_mono_rel[rotated])
    (auto simp: posting_key_def)

lemma sorted_key_position:
  "sorted (map posting_key ps) \<Longrightarrow> sorted (map po_position (filter (\<lambda>p. po_term p = t \<and> po_document p = d) ps))"
  unfolding sorted_map
  by (drule sorted_wrt_filter[where P = "\<lambda>p. po_term p = t \<and> po_document p = d"], erule sorted_wrt_mono_rel[rotated])
    (auto simp: posting_key_def)

lemma first_run:
  assumes "sorted (map posting_key ps)" "from < length ps"
  defines "t \<equiv> po_term (ps ! from)" and "rest \<equiv> drop from ps"
  shows "filter (\<lambda>p. po_term p = t) rest = ps ! from # takeWhile (\<lambda>p. po_term p = t) (drop (from + 1) ps)"
    "drop (from + length (filter (\<lambda>p. po_term p = t) rest)) ps = filter (\<lambda>p. t < po_term p) rest"
    "slice ps (from, from + length (filter (\<lambda>p. po_term p = t) rest)) = filter (\<lambda>p. po_term p = t) rest"
proof -
  have r: "rest = ps ! from # drop (from + 1) ps" using assms(2) by (simp add: rest_def Cons_nth_drop_Suc)
  have "sorted (map po_term rest)" using sorted_key_term[OF assms(1)] by (simp add: rest_def flip: drop_map)
  then have ge: "\<forall>p \<in> set rest. t \<le> po_term p" and s: "sorted_wrt (\<lambda>x y. po_term x \<le> po_term y) rest"
    unfolding r by (auto simp: t_def sorted_map)
  have p: "partitioned (\<lambda>p. po_term p = t) rest"
    unfolding partitioned_def using s by (rule sorted_wrt_mono_rel[rotated]) (use ge in force)
  show "filter (\<lambda>p. po_term p = t) rest = ps ! from # takeWhile (\<lambda>p. po_term p = t) (drop (from + 1) ps)"
    using conjunct1[OF partitioned_split[OF p], symmetric] unfolding r by (simp add: t_def)
  have "filter (\<lambda>p. t < po_term p) rest = filter (\<lambda>p. \<not> po_term p = t) rest"
    using ge by (intro filter_cong) auto
  then show "drop (from + length (filter (\<lambda>p. po_term p = t) rest)) ps = filter (\<lambda>p. t < po_term p) rest"
    using partitioned_drop[OF p] by (simp add: rest_def add.commute)
  show "slice ps (from, from + length (filter (\<lambda>p. po_term p = t) rest)) = filter (\<lambda>p. po_term p = t) rest"
    using conjunct1[OF partitioned_split[OF p]] takeWhile_eq_take[of "\<lambda>p. po_term p = t" rest]
    by (simp add: slice_def rest_def)
qed

lemma build_terms_step:
  assumes s: "sorted (map posting_key ps)" and l: "from < length ps"
  defines "t \<equiv> po_term (ps ! from)" and "rest \<equiv> drop from ps"
  defines "run \<equiv> filter (\<lambda>p. po_term p = t) rest"
  shows "build_terms ps from = \<lparr>ie_text = t, ie_postings = (from, from + length run),
      ie_frequency = of_nat (card (po_document ` set run))\<rparr> # build_terms ps (from + length run)"
    "entry_ok ps rest \<lparr>ie_text = t, ie_postings = (from, from + length run),
      ie_frequency = of_nat (card (po_document ` set run))\<rparr>"
proof -
  note f = first_run[OF s l, folded t_def rest_def, folded run_def]
  have "sorted (map po_document run)"
    unfolding run_def using s by (intro sorted_key_document) (simp add: rest_def sorted_wrt_drop flip: drop_map)
  then have c: "length (remdups_adj (map po_document run)) = card (po_document ` set run)"
    by (simp add: length_remdups_adj_card)
  show "build_terms ps from = \<lparr>ie_text = t, ie_postings = (from, from + length run),
      ie_frequency = of_nat (card (po_document ` set run))\<rparr> # build_terms ps (from + length run)"
    using term_end_run[of "from + 1" ps t 1] l c
    by (subst build_terms.simps) (simp add: t_def[symmetric] f(1) del: remdups_adj.simps)
  have "length run \<le> length ps - from" unfolding run_def rest_def by (metis length_drop length_filter_le)
  then show "entry_ok ps rest \<lparr>ie_text = t, ie_postings = (from, from + length run),
      ie_frequency = of_nat (card (po_document ` set run))\<rparr>"
    using f(3) l by (simp add: entry_ok_def run_def[symmetric])
qed

lemma build_terms_entries:
  assumes s: "sorted (map posting_key ps)"
  shows "sorted_wrt (<) (map ie_text (build_terms ps from)) \<and>
    ie_text ` set (build_terms ps from) = po_term ` set (drop from ps) \<and>
    (\<forall>entry \<in> set (build_terms ps from). entry_ok ps (drop from ps) entry)"
proof (induction "length ps - from" arbitrary: "from" rule: less_induct)
  case less
  show ?case
  proof (cases "from < length ps")
    case False
    then show ?thesis by (simp add: build_terms.simps[of ps])
  next
    case True
    define t where "t = po_term (ps ! from)"
    define rest where "rest = drop from ps"
    define run where "run = filter (\<lambda>p. po_term p = t) rest"
    note st = build_terms_step[OF s True, folded t_def rest_def, folded run_def]
    note f = first_run[OF s True, folded t_def rest_def, folded run_def]
    have "length ps - (from + length run) < length ps - from" using True unfolding f(1) by simp
    then have ih: "sorted_wrt (<) (map ie_text (build_terms ps (from + length run)))"
      "ie_text ` set (build_terms ps (from + length run)) = po_term ` set (filter (\<lambda>p. t < po_term p) rest)"
      "\<forall>entry \<in> set (build_terms ps (from + length run)). entry_ok ps (filter (\<lambda>p. t < po_term p) rest) entry"
      using less[of "from + length run"] unfolding f(2) by blast+
    have gt: "t < ie_text entry" if "entry \<in> set (build_terms ps (from + length run))" for entry
      using imageI[OF that, of ie_text] unfolding ih(2) by auto
    have "entry_ok ps rest entry" if "entry \<in> set (build_terms ps (from + length run))" for entry
    proof -
      have "filter (\<lambda>p. po_term p = ie_text entry) (filter (\<lambda>p. t < po_term p) rest) =
          filter (\<lambda>p. po_term p = ie_text entry) rest"
        using gt[OF that] by (auto intro: filter_cong)
      then show ?thesis using ih(3) that by (simp add: entry_ok_def)
    qed
    moreover have "po_term ` set rest = insert t (po_term ` set (filter (\<lambda>p. t < po_term p) rest))"
    proof -
      have "set rest = set run \<union> set (filter (\<lambda>p. t < po_term p) rest)"
        using f(2,3) by (metis append_take_drop_id drop_drop rest_def set_append slice_def fst_conv snd_conv add.commute add_diff_cancel_left')
      moreover have "po_term ` set run = {t}"
      proof -
        have "ps ! from \<in> set run" using f(1) by simp
        then show ?thesis by (auto simp: run_def)
      qed
      ultimately show ?thesis by (metis image_Un insert_is_Un)
    qed
    ultimately show ?thesis using st ih gt unfolding st(1) rest_def[symmetric] by auto
  qed
qed

section \<open>A well-formed index\<close>

definition doc_terms :: "reference_index \<Rightarrow> nat \<Rightarrow> str list" where
  "doc_terms ix d = terms_of (ix_text (ri_documents ix ! d))"

definition index_ok :: "reference_index \<Rightarrow> bool" where
  "index_ok ix \<longleftrightarrow> length (ri_documents ix) < 2 ^ 32 \<and>
     (\<forall>d < length (ri_documents ix). length (doc_terms ix d) < 2 ^ 32) \<and>
     sorted (map posting_key (ri_postings ix)) \<and>
     (\<forall>p. p \<in> set (ri_postings ix) \<longleftrightarrow> unat (po_document p) < length (ri_documents ix) \<and>
        unat (po_position p) < length (doc_terms ix (unat (po_document p))) \<and>
        po_term p = doc_terms ix (unat (po_document p)) ! unat (po_position p)) \<and>
     ri_terms ix = build_terms (ri_postings ix) 0"

lemma index_okD:
  assumes "index_ok ix"
  shows "length (ri_documents ix) < 2 ^ 32"
    "d < length (ri_documents ix) \<Longrightarrow> length (doc_terms ix d) < 2 ^ 32"
    "sorted (map posting_key (ri_postings ix))"
    "p \<in> set (ri_postings ix) \<longleftrightarrow> unat (po_document p) < length (ri_documents ix) \<and>
        unat (po_position p) < length (doc_terms ix (unat (po_document p))) \<and>
        po_term p = doc_terms ix (unat (po_document p)) ! unat (po_position p)"
    "sorted_wrt (<) (map ie_text (ri_terms ix))"
    "ie_text ` set (ri_terms ix) = po_term ` set (ri_postings ix)"
    "entry \<in> set (ri_terms ix) \<Longrightarrow> entry_ok (ri_postings ix) (ri_postings ix) entry"
  using assms build_terms_entries[of "ri_postings ix" 0] by (auto simp: index_ok_def)

text \<open>The postings of a term in a document and their positions.\<close>

definition occurrences :: "reference_index \<Rightarrow> str \<Rightarrow> u32 \<Rightarrow> posting list" where
  "occurrences ix t d = filter (\<lambda>p. po_term p = t \<and> po_document p = d) (ri_postings ix)"

lemma occurrences_positions:
  assumes "index_ok ix" "unat d < length (ri_documents ix)"
  shows "po_position ` set (occurrences ix t d) =
    {w. unat w < length (doc_terms ix (unat d)) \<and> doc_terms ix (unat d) ! unat w = t}"
proof -
  have "w \<in> po_position ` set (occurrences ix t d) \<longleftrightarrow>
      unat w < length (doc_terms ix (unat d)) \<and> doc_terms ix (unat d) ! unat w = t" for w
  proof -
    have "w \<in> po_position ` set (occurrences ix t d) \<longleftrightarrow>
        \<lparr>po_term = t, po_document = d, po_position = w\<rparr> \<in> set (ri_postings ix)"
      (is "?l \<longleftrightarrow> ?r")
    proof
      assume ?l
      then obtain p where "p \<in> set (ri_postings ix)" "po_term p = t" "po_document p = d" "po_position p = w"
        by (auto simp: occurrences_def)
      moreover have "p = \<lparr>po_term = po_term p, po_document = po_document p, po_position = po_position p\<rparr>" by simp
      ultimately show ?r by metis
    next
      assume ?r
      then show ?l unfolding occurrences_def by (intro image_eqI[of w po_position "\<lparr>po_term = t, po_document = d, po_position = w\<rparr>"]) auto
    qed
    then show ?thesis using index_okD(4)[OF assms(1), of "\<lparr>po_term = t, po_document = d, po_position = w\<rparr>"] assms(2)
      by auto
  qed
  then show ?thesis by blast
qed

lemma occurrences_empty:
  assumes "index_ok ix" "unat d < length (ri_documents ix)"
  shows "occurrences ix t d = [] \<longleftrightarrow> t \<notin> set (doc_terms ix (unat d))"
proof -
  have l: "length (doc_terms ix (unat d)) < 2 ^ 32" using index_okD(2)[OF assms] .
  have "occurrences ix t d = [] \<longleftrightarrow> po_position ` set (occurrences ix t d) = {}" by simp
  also have "\<dots> \<longleftrightarrow> t \<notin> set (doc_terms ix (unat d))"
  proof -
    have "unat (of_nat i :: u32) = i" if "i < length (doc_terms ix (unat d))" for i
      using that l by (simp add: unat_u32_of_nat)
    then show ?thesis unfolding occurrences_positions[OF assms] by (auto simp: in_set_conv_nth) metis
  qed
  finally show ?thesis .
qed

section \<open>Lookups\<close>

definition entry_index :: "reference_index \<Rightarrow> str \<Rightarrow> nat option" where
  "entry_index ix t = (let k = length (filter (\<lambda>e. ie_text e < t) (ri_terms ix)) in
     if k < length (ri_terms ix) \<and> ie_text (ri_terms ix ! k) = t then Some k else None)"

lemma index_lookup_runs: "index_ok ix \<Longrightarrow> runs (index_lookup ix t) (entry_index ix t)"
proof -
  assume "index_ok ix"
  then have "sorted (map ie_text (ri_terms ix))" using index_okD(5) strict_sorted_imp_sorted by blast
  note lower_bound_runs[OF sorted_block(1)[OF this, of t]]
  then show ?thesis unfolding index_lookup_def[abs_def] entry_index_def Let_def
    by (rule runs_bind) (rule runs_ret)
qed

lemma entry_index_Some:
  assumes "entry_index ix t = Some k"
  shows "k < length (ri_terms ix)" "ie_text (ri_terms ix ! k) = t"
  using assms by (auto simp: entry_index_def Let_def split: if_splits)

lemma entry_index_None:
  assumes "index_ok ix"
  shows "entry_index ix t = None \<longleftrightarrow> t \<notin> po_term ` set (ri_postings ix)"
proof
  assume n: "entry_index ix t = None"
  let ?es = "ri_terms ix" and ?k = "length (filter (\<lambda>e. ie_text e < t) (ri_terms ix))"
  have s: "sorted (map ie_text ?es)" using index_okD(5)[OF assms] strict_sorted_imp_sorted by blast
  show "t \<notin> po_term ` set (ri_postings ix)"
  proof
    assume "t \<in> po_term ` set (ri_postings ix)"
    then have "filter (\<lambda>e. ie_text e = t) ?es \<noteq> []"
      unfolding index_okD(6)[OF assms, symmetric] by (auto simp: filter_empty_conv)
    then obtain e es where e: "filter (\<lambda>e. ie_text e = t) ?es = e # es" by (cases "filter (\<lambda>e. ie_text e = t) ?es") auto
    then have "take (length (e # es)) (drop ?k ?es) = e # es" using sorted_block(3)[OF s, of t] by simp
    then have "?k < length ?es" "?es ! ?k = e"
      by (metis drop_all list.distinct(1) not_le take_Nil, metis drop_all hd_drop_conv_nth list.distinct(1) list.sel(1) not_le take_Nil hd_take length_greater_0_conv)
    moreover have "ie_text e = t" using filter_eq_ConsD[OF e] by auto
    ultimately show False using n by (simp add: entry_index_def Let_def)
  qed
next
  assume "t \<notin> po_term ` set (ri_postings ix)"
  then show "entry_index ix t = None"
    unfolding index_okD(6)[OF assms, symmetric] by (auto simp: entry_index_def Let_def image_iff) (metis nth_mem)
qed

lemma slice_sub:
  assumes "a + c \<le> length (slice xs (f, l))"
  shows "slice xs (f + a, f + a + c) = take c (drop a (slice xs (f, l)))"
  using assms by (auto simp: slice_def drop_take min_def add.commute split: if_splits)

lemma document_postings_runs:
  assumes ix: "index_ok ix" and k: "k < length (ri_terms ix)"
  obtains r where "runs (document_postings ix k d) r"
    "range_is_empty r \<longleftrightarrow> occurrences ix (ie_text (ri_terms ix ! k)) d = []"
    "slice (ri_postings ix) r = occurrences ix (ie_text (ri_terms ix ! k)) d"
proof -
  let ?e = "ri_terms ix ! k" and ?ps = "ri_postings ix"
  let ?s = "filter (\<lambda>p. po_term p = ie_text ?e) ?ps"
  have e: "slice ?ps (ie_postings ?e) = ?s" "fst (ie_postings ?e) \<le> snd (ie_postings ?e)"
    using index_okD(7)[OF ix nth_mem[OF k]] by (simp_all add: entry_ok_def)
  have s: "sorted (map po_document ?s)" using sorted_key_document[OF index_okD(3)[OF ix]] .
  let ?a = "length (filter (\<lambda>p. po_document p < d) ?s)" and ?c = "length (filter (\<lambda>p. po_document p = d) ?s)"
  let ?r = "(fst (ie_postings ?e) + ?a, fst (ie_postings ?e) + ?a + ?c)"
  have c: "length (filter (\<lambda>p. po_document p = d) (drop ?a ?s)) = ?c"
    unfolding partitioned_drop[OF sorted_block(1)[OF s, of d]] by (auto intro!: arg_cong[of _ _ length] filter_cong)
  have p: "runs (lower_bound (drop ?a ?s) (\<lambda>p. po_document p = d)) ?c"
    using lower_bound_runs[OF sorted_block(2)[OF s, of d]]
    unfolding partitioned_drop[OF sorted_block(1)[OF s, of d], symmetric] c .
  have "runs (document_postings ix k d) ?r"
    unfolding document_postings_def[abs_def] Let_def e
    by (rule runs_bind[OF lower_bound_runs[OF sorted_block(1)[OF s]]], rule runs_bind[OF p], rule runs_ret)
  moreover have "slice ?ps ?r = occurrences ix (ie_text ?e) d"
  proof -
    let ?f = "fst (ie_postings ?e)" and ?l = "snd (ie_postings ?e)"
    have len: "?a + ?c \<le> length ?s"
      using sum_length_filter_compl[of "\<lambda>p. po_document p < d" ?s] length_filter_le[of "\<lambda>p. po_document p = d" "filter (\<lambda>p. \<not> po_document p < d) ?s"]
        c partitioned_drop[OF sorted_block(1)[OF s, of d]] by simp
    have "slice ?ps ?r = take ?c (drop ?a (slice ?ps (?f, ?l)))" using len e(1) by (intro slice_sub) simp
    also have "\<dots> = filter (\<lambda>p. po_document p = d) ?s"
      using sorted_block(3)[OF s, of d] e(1) by simp
    also have "\<dots> = occurrences ix (ie_text ?e) d" by (auto simp: occurrences_def intro!: filter_cong)
    finally show ?thesis .
  qed
  moreover have "range_is_empty ?r \<longleftrightarrow> occurrences ix (ie_text ?e) d = []"
    by (auto simp: range_is_empty_def occurrences_def filter_empty_conv)
  ultimately show thesis using that by blast
qed

lemma has_position_runs:
  assumes "index_ok ix" "slice (ri_postings ix) r = occurrences ix t d"
  shows "runs (has_position ix r w) (w \<in> po_position ` set (occurrences ix t d))"
proof -
  let ?o = "occurrences ix t d" and ?k = "length (filter (\<lambda>p. po_position p < w) (occurrences ix t d))"
  have s: "sorted (map po_position ?o)"
    unfolding occurrences_def by (rule sorted_key_position[OF index_okD(3)[OF assms(1)]])
  have "w \<in> po_position ` set ?o \<longleftrightarrow> ?k < length ?o \<and> po_position (?o ! ?k) = w"
  proof
    assume "w \<in> po_position ` set ?o"
    then obtain i where i: "i < length ?o" "po_position (?o ! i) = w" by (auto simp: in_set_conv_nth)
    then have "?k \<le> i" using partitioned_nth[OF sorted_block(1)[OF s] i(1), of w] by simp
    moreover have "\<not> po_position (?o ! ?k) < w"
      using partitioned_nth[OF sorted_block(1)[OF s], of ?k w] i(1) \<open>?k \<le> i\<close> by simp
    moreover have "po_position (?o ! ?k) \<le> w"
      using sorted_nth_mono[OF s \<open>?k \<le> i\<close>] i \<open>?k \<le> i\<close> by simp
    ultimately show "?k < length ?o \<and> po_position (?o ! ?k) = w" using i(1) by simp
  qed (metis image_eqI nth_mem)
  then show ?thesis
    unfolding has_position_def[abs_def] Let_def assms(2)
    by (intro runs_bind[OF lower_bound_runs[OF sorted_block(1)[OF s]]]) (simp add: runs_ret)
qed

lemma index_prefix_runs:
  assumes ix: "index_ok ix"
  obtains r where "runs (index_prefix ix p) r" "fst r \<le> snd r" "snd r \<le> length (ri_terms ix)"
    "\<And>k. k < length (ri_terms ix) \<Longrightarrow> starts_with (ie_text (ri_terms ix ! k)) p \<longleftrightarrow> fst r \<le> k \<and> k < snd r"
proof -
  let ?es = "ri_terms ix"
  let ?a = "length (filter (\<lambda>e. ie_text e < p) ?es)" and ?rest = "filter (\<lambda>e. \<not> ie_text e < p) ?es"
  let ?c = "length (filter (\<lambda>e. starts_with (ie_text e) p) ?rest)"
  have s: "sorted (map ie_text ?es)" using index_okD(5)[OF ix] strict_sorted_imp_sorted by blast
  note b = sorted_block(1)[OF s, of p]
  have d: "drop ?a ?es = ?rest" by (rule partitioned_drop[OF b])
  have p2: "partitioned (\<lambda>e. starts_with (ie_text e) p) ?rest"
    unfolding partitioned_def using sorted_wrt_filter[OF s[unfolded sorted_map], of "\<lambda>e. \<not> ie_text e < p"]
    by (rule sorted_wrt_mono_rel[rotated]) (auto intro: starts_with_convex simp: not_less)
  have runs: "runs (index_prefix ix p) (?a, ?a + ?c)"
    unfolding index_prefix_def[abs_def]
    by (rule runs_bind[OF lower_bound_runs[OF b]], rule runs_bind[OF lower_bound_runs[OF p2, folded d]], unfold d, rule runs_ret)
  have len: "?a + length ?rest = length ?es" by (rule sum_length_filter_compl)
  have "starts_with (ie_text (?es ! k)) p \<longleftrightarrow> ?a \<le> k \<and> k < ?a + ?c" if k: "k < length ?es" for k
  proof (cases "k < ?a")
    case True
    then have "ie_text (?es ! k) < p" using partitioned_nth[OF b k] by simp
    then have "\<not> starts_with (ie_text (?es ! k)) p" using starts_with_ge by fastforce
    then show ?thesis using True by simp
  next
    case False
    then have "?es ! k = ?rest ! (k - ?a)" unfolding d[symmetric] using k by simp
    then show ?thesis using partitioned_nth[OF p2, of "k - ?a"] False k len by auto
  qed
  moreover have "?a + ?c \<le> length ?es" using len length_filter_le[of "\<lambda>e. starts_with (ie_text e) p" ?rest] by linarith
  ultimately show thesis using that[OF runs] by simp
qed

section \<open>Document frequencies\<close>

lemma binary_search_found:
  assumes "sorted_wrt (<) (map key xs)" "i < length xs" "key (xs ! i) = k" "low \<le> i" "i < high" "high \<le> length xs"
  shows "binary_search_loop key xs k low high = Some i"
  using assms(4-6)
proof (induction "high - low" arbitrary: low high rule: less_induct)
  case less
  let ?m = "low + (high - low) div 2"
  have m: "low \<le> ?m" "?m < high" "?m < length xs" using less.prems by auto
  have mono: "key (xs ! a) < key (xs ! b)" if "a < b" "b < length xs" for a b
    using sorted_wrt_nth_less[OF assms(1), of a b] that by simp
  consider "?m = i" | "?m < i" | "i < ?m" by linarith
  then show ?case
  proof cases
    case 1
    then show ?thesis using assms(3) less.prems by (subst binary_search_loop.simps) (simp add: Let_def)
  next
    case 2
    then have "key (xs ! ?m) < k" using mono[OF 2 assms(2)] assms(3) by simp
    then show ?thesis using less.hyps[of high "?m + 1"] less.prems m 2
      by (subst binary_search_loop.simps) (simp add: Let_def)
  next
    case 3
    then have "k < key (xs ! ?m)" using mono[OF 3 m(3)] assms(3) by simp
    then show ?thesis using less.hyps[of ?m low] less.prems m 3
      by (subst binary_search_loop.simps) (auto simp: Let_def)
  qed
qed

lemma binary_search_Some:
  "binary_search_loop key xs k low high = Some i \<Longrightarrow> low \<le> i \<and> i < high \<and> key (xs ! i) = k"
proof (induction key xs k low high rule: binary_search_loop.induct)
  case (1 key xs k low high)
  then show ?case by (subst (asm) (3) binary_search_loop.simps) (auto simp: Let_def split: if_splits)
qed

lemma document_frequency_card:
  assumes ix: "index_ok ix"
  shows "document_frequency ix t = of_nat (card {d. d < length (ri_documents ix) \<and> t \<in> set (doc_terms ix d)})"
proof -
  let ?D = "{d. d < length (ri_documents ix) \<and> t \<in> set (doc_terms ix d)}"
  have D: "?D = unat ` po_document ` set (filter (\<lambda>p. po_term p = t) (ri_postings ix))"
  proof -
    have "d \<in> unat ` po_document ` set (filter (\<lambda>p. po_term p = t) (ri_postings ix)) \<longleftrightarrow> d \<in> ?D" for d
    proof
      assume "d \<in> ?D"
      then have d: "d < length (ri_documents ix)" "t \<in> set (doc_terms ix d)" by auto
      then have u: "unat (of_nat d :: u32) = d" using index_okD(1)[OF ix] by (simp add: unat_u32_of_nat)
      have "occurrences ix t (of_nat d) \<noteq> []" using occurrences_empty[OF ix, of "of_nat d" t] d u by simp
      then obtain p where "p \<in> set (ri_postings ix)" "po_term p = t" "po_document p = of_nat d"
        by (auto simp: occurrences_def filter_empty_conv)
      then show "d \<in> unat ` po_document ` set (filter (\<lambda>p. po_term p = t) (ri_postings ix))" using u
        by (force simp: image_iff)
    qed (use index_okD(4)[OF ix] in auto)
    then show ?thesis by blast
  qed
  have card: "card ?D = card (po_document ` set (filter (\<lambda>p. po_term p = t) (ri_postings ix)))"
    unfolding D by (rule card_image) (simp add: inj_on_def word_unat_eq_iff)
  show ?thesis
  proof (cases "binary_search_loop ie_text (ri_terms ix) t 0 (length (ri_terms ix))")
    case None
    have "t \<notin> ie_text ` set (ri_terms ix)"
      using binary_search_found[OF index_okD(5)[OF ix], of _ t 0 "length (ri_terms ix)"] None by (fastforce simp: in_set_conv_nth)
    then have "filter (\<lambda>p. po_term p = t) (ri_postings ix) = []"
      unfolding index_okD(6)[OF ix] by (auto simp: filter_empty_conv)
    then show ?thesis unfolding card using None by (simp add: document_frequency_def)
  next
    case (Some i)
    then have i: "i < length (ri_terms ix)" "ie_text (ri_terms ix ! i) = t" using binary_search_Some by blast+
    then show ?thesis unfolding card using Some index_okD(7)[OF ix nth_mem[OF i(1)]]
      by (simp add: document_frequency_def entry_ok_def)
  qed
qed

section \<open>Building\<close>

lemma analyzed_tokens_conv:
  "analyzed_tokens a = map (\<lambda>i. \<lparr>tk_term = terms_of a ! i, tk_position = of_nat i\<rparr>) [0..<length (terms_of a)]"
  by (rule nth_equalityI) (simp_all add: analyzed_tokens_def terms_of_def nth_enumerate_eq)

lemma document_tokens_all:
  "set (concat (map document_tokens (enumerate 0 ds))) = (\<Union>d < length ds.
     (\<lambda>token. \<lparr>po_term = tk_term token, po_document = of_nat d, po_position = tk_position token\<rparr>) ` set (analyzed_tokens (ix_text (ds ! d))))"
proof -
  have "map document_tokens (enumerate 0 ds) = map (\<lambda>d. document_tokens (d, ds ! d)) [0..<length ds]"
    by (rule nth_equalityI) (simp_all add: nth_enumerate_eq)
  then show ?thesis by (simp add: document_tokens_def atLeast0LessThan)
qed

lemma document_tokens_mem:
  assumes "length ds < 2 ^ 32" "\<forall>d \<in> set ds. length (terms_of (ix_text d)) < 2 ^ 32"
  shows "p \<in> set (concat (map document_tokens (enumerate 0 ds))) \<longleftrightarrow>
    unat (po_document p) < length ds \<and> unat (po_position p) < length (terms_of (ix_text (ds ! unat (po_document p)))) \<and>
    po_term p = terms_of (ix_text (ds ! unat (po_document p))) ! unat (po_position p)" (is "?l \<longleftrightarrow> ?r")
proof -
  have p: "p = \<lparr>po_term = po_term p, po_document = po_document p, po_position = po_position p\<rparr>" by simp
  have "?l \<longleftrightarrow> (\<exists>d i. d < length ds \<and> i < length (terms_of (ix_text (ds ! d))) \<and>
      p = \<lparr>po_term = terms_of (ix_text (ds ! d)) ! i, po_document = of_nat d, po_position = of_nat i\<rparr>)"
    unfolding document_tokens_all UN_iff Bex_def by (simp add: analyzed_tokens_conv image_image image_iff Bex_def)
  also have "\<dots> \<longleftrightarrow> ?r"
  proof
    assume "\<exists>d i. d < length ds \<and> i < length (terms_of (ix_text (ds ! d))) \<and>
      p = \<lparr>po_term = terms_of (ix_text (ds ! d)) ! i, po_document = of_nat d, po_position = of_nat i\<rparr>"
    then obtain d i where di: "d < length ds" "i < length (terms_of (ix_text (ds ! d)))"
      "p = \<lparr>po_term = terms_of (ix_text (ds ! d)) ! i, po_document = of_nat d, po_position = of_nat i\<rparr>" by blast
    moreover have "length (terms_of (ix_text (ds ! d))) < 2 ^ 32" using assms(2) di(1) by simp
    then have "unat (of_nat d :: u32) = d" "unat (of_nat i :: u32) = i"
      using di(1,2) assms(1) by (auto intro!: unat_u32_of_nat)
    ultimately show ?r by simp
  next
    assume ?r
    then show "\<exists>d i. d < length ds \<and> i < length (terms_of (ix_text (ds ! d))) \<and>
      p = \<lparr>po_term = terms_of (ix_text (ds ! d)) ! i, po_document = of_nat d, po_position = of_nat i\<rparr>"
      using p by (intro exI[of _ "unat (po_document p)"] exI[of _ "unat (po_position p)"]) simp
  qed
  finally show ?thesis .
qed

lemma windows2_distinct:
  "sorted (map f xs) \<Longrightarrow> \<not> list_ex (\<lambda>(a, b). f a = f b) (windows2 xs) \<Longrightarrow> distinct (map f xs)"
proof (induction xs rule: induct_list012)
  case (3 x y zs)
  then show ?case by (fastforce simp: windows2_def)
qed auto

lemma count_distinct_runs: "count_distinct ps = length (remdups_adj (map po_term ps))"
proof (induction ps rule: induct_list012)
  case (3 x y zs)
  then show ?case by (auto simp: count_distinct_def windows2_def)
qed (simp_all add: count_distinct_def windows2_def)

lemma index_build_ok:
  assumes b: "index_build env relation documents limits = Inr ix"
    and l: "\<forall>d \<in> set documents. length (terms_of (ix_text d)) < 2 ^ 32"
  shows "index_ok ix" "ri_documents ix = sort_key document_root documents"
    "distinct (map document_root documents)" "ri_relation ix = relation"
    "length documents \<le> il_documents limits" "length (ri_terms ix) \<le> il_terms limits"
    "set (ri_postings ix) = set (concat (map document_tokens (enumerate 0 (ri_documents ix))))"
proof -
  let ?ds = "sort_key document_root documents"
  let ?ps = "sort_key posting_key (concat (map document_tokens (enumerate 0 ?ds)))"
  from b have ix: "ri_relation ix = relation" "ri_documents ix = ?ds" "ri_postings ix = ?ps" "ri_terms ix = build_terms ?ps 0"
    and d: "\<not> list_ex (\<lambda>(a, b). document_root a = document_root b) (windows2 ?ds)"
    and n: "length documents \<le> il_documents limits" "length documents < 2 ^ 32"
    and c: "count_distinct ?ps \<le> il_terms limits"
    by (auto simp: index_build_def Let_def res_simps u32_try_from_def not_less dest!: vector_elems split: if_splits)
  show "ri_documents ix = ?ds" "ri_relation ix = relation" "length documents \<le> il_documents limits" by fact+
  show "set (ri_postings ix) = set (concat (map document_tokens (enumerate 0 (ri_documents ix))))"
    unfolding ix by simp
  have "distinct (map document_root ?ds)" using windows2_distinct[OF _ d] by simp
  then show "distinct (map document_root documents)"
    by (simp add: distinct_map)
  show ok: "index_ok ix"
    using document_tokens_mem[of ?ds] n l nth_mem[of _ ?ds] unfolding index_ok_def doc_terms_def ix by auto
  have "length (ri_terms ix) = card (ie_text ` set (ri_terms ix))"
    using index_okD(5)[OF ok] by (metis distinct_card length_map list.set_map strict_sorted_iff)
  also have "\<dots> = count_distinct ?ps"
    using length_remdups_adj_card[OF sorted_key_term[OF index_okD(3)[OF ok]]] index_okD(6)[OF ok]
    by (simp add: count_distinct_runs ix)
  finally show "length (ri_terms ix) \<le> il_terms limits" using c by simp
qed

end
