(* ===== verification/IndexSearch.thy ===== *)
theory IndexSearch
  imports IndexSpec
begin

text \<open>
  What a search of the reference index yields: the compiled nodes bind the query to the dictionary,
  their evaluation on a document computes the meaning of every subexpression on its terms, and the
  iterator yields the documents of which the query holds, in root order, as far as the work lasts.
\<close>

lemma checked_add_w_SomeI: "unat a + unat b = unat c \<Longrightarrow> checked_add_w a b = Some (c :: 'a::len word)"
  using unat_lt2p[of c] by (auto simp: checked_add_w_def word_unat_eq_iff unat_word_ariths)

lemma checked_sub_w_SomeI: "unat b + unat c = unat a \<Longrightarrow> checked_sub_w a b = Some (c :: 'a::len word)"
  by (auto simp: checked_sub_w_def word_le_nat_alt word_unat_eq_iff unat_sub)

section \<open>Phrases\<close>

lemma phrase_occurs_nth:
  "phrase_occurs ws ts s \<longleftrightarrow> (\<forall>k < length ts. s + k < length ws \<and> ws ! (s + k) = ts ! k)"
proof
  assume p: "phrase_occurs ws ts s"
  then have l: "length (take (length ts) (drop s ws)) = length ts" by (simp add: phrase_occurs_def)
  show "\<forall>k < length ts. s + k < length ws \<and> ws ! (s + k) = ts ! k"
  proof (intro allI impI)
    fix k assume "k < length ts"
    then have "s + k < length ws" using l by simp
    moreover have "take (length ts) (drop s ws) ! k = ws ! (s + k)" using \<open>k < length ts\<close> \<open>s + k < length ws\<close> by simp
    ultimately show "s + k < length ws \<and> ws ! (s + k) = ts ! k" using p by (simp add: phrase_occurs_def)
  qed
next
  assume a: "\<forall>k < length ts. s + k < length ws \<and> ws ! (s + k) = ts ! k"
  have "length (take (length ts) (drop s ws)) = length ts"
    using a by (cases "length ts") (auto simp: min_def)
  then show "phrase_occurs ws ts s"
    unfolding phrase_occurs_def using a by (intro nth_equalityI) auto
qed

text \<open>The compiled terms of a phrase.\<close>

definition binds_terms :: "reference_index \<Rightarrow> str list \<Rightarrow> phrase_term list \<Rightarrow> bool" where
  "binds_terms ix ts pts \<longleftrightarrow> length pts = length ts \<and>
     (\<forall>k < length ts. pt_term (pts ! k) = entry_index ix (ts ! k) \<and> unat (pt_offset (pts ! k)) = k)"

definition holds_postings :: "reference_index \<Rightarrow> str list \<Rightarrow> u32 \<Rightarrow> range list \<Rightarrow> nat \<Rightarrow> bool" where
  "holds_postings ix ts d ranges k \<longleftrightarrow> slice (ri_postings ix) (ranges ! k) = occurrences ix (ts ! k) d"

lemma binds_terms_entry:
  assumes "binds_terms ix ts pts" "k < length ts" "index_ok ix"
  shows "pt_term (pts ! k) = None \<Longrightarrow> occurrences ix (ts ! k) d = []"
    "pt_term (pts ! k) = Some j \<Longrightarrow> j < length (ri_terms ix) \<and> ie_text (ri_terms ix ! j) = ts ! k"
  using assms entry_index_None[OF assms(3), of "ts ! k"] entry_index_Some[of ix "ts ! k" j]
  by (auto simp: binds_terms_def occurrences_def filter_empty_conv image_iff)

definition ranges_found :: "reference_index \<Rightarrow> str list \<Rightarrow> u32 \<Rightarrow> nat option \<times> range list \<Rightarrow> bool" where
  "ranges_found ix ts d v \<longleftrightarrow> (case fst v of
     None \<Rightarrow> \<exists>k < length ts. occurrences ix (ts ! k) d = []
   | Some anchor \<Rightarrow> anchor < length ts \<and> (\<forall>k < length ts. holds_postings ix ts d (snd v) k))"

lemma phrase_ranges_runs:
  assumes ix: "index_ok ix" and b: "binds_terms ix ts pts"
  shows "pts = before @ rest \<Longrightarrow> anchor < length ts \<Longrightarrow> length ts \<le> length ranges \<Longrightarrow>
    \<forall>k < length before. holds_postings ix ts d ranges k \<Longrightarrow>
    \<exists>v. runs (phrase_ranges ix d (enumerate (length before) rest) anchor ranges) v \<and>
      ranges_found ix ts d v \<and> length (snd v) = length ranges"
proof (induction rest arbitrary: before anchor ranges)
  case Nil
  then have "ranges_found ix ts d (Some anchor, ranges)" using b by (simp add: ranges_found_def binds_terms_def)
  moreover have "runs (phrase_ranges ix d (enumerate (length before) []) anchor ranges) (Some anchor, ranges)"
    using runs_ret[of "(Some anchor, ranges)"] by (simp add: phrase_ranges.simps[abs_def])
  ultimately show ?case by (metis snd_conv)
next
  case (Cons pt rest)
  let ?k = "length before"
  have k: "?k < length ts" "pts ! ?k = pt" using Cons.prems(1) b by (auto simp: binds_terms_def)
  note en = binds_terms_entry[OF b k(1) ix, unfolded k(2)]
  let ?step = "\<lambda>r. if range_is_empty r then (\<lambda>w. Inr ((None, ranges[?k := r]), w))
    else phrase_ranges ix d (enumerate (Suc ?k) rest)
      (if range_len (ranges[?k := r] ! ?k) < range_len (ranges[?k := r] ! anchor) then ?k else anchor) (ranges[?k := r])"
  show ?case
  proof (cases "pt_term pt")
    case None
    have "runs (phrase_ranges ix d (enumerate ?k (pt # rest)) anchor ranges) (None, ranges)"
      using runs_charge[OF runs_ret, of 1 "(None, ranges)"] None
      by (simp add: phrase_ranges.simps[abs_def] del: One_nat_def)
    moreover have "ranges_found ix ts d (None, ranges)" using en(1)[OF None] k(1) by (auto simp: ranges_found_def)
    ultimately show ?thesis by (metis snd_conv)
  next
    case (Some j)
    note j = en(2)[OF Some]
    obtain r where r: "runs (document_postings ix j d) r" "range_is_empty r \<longleftrightarrow> occurrences ix (ts ! ?k) d = []"
      "slice (ri_postings ix) r = occurrences ix (ts ! ?k) d"
      using document_postings_runs[OF ix, of j d] j by metis
    have "\<exists>v. runs (?step r) v \<and> ranges_found ix ts d v \<and> length (snd v) = length ranges"
    proof (cases "range_is_empty r")
      case True
      then show ?thesis using r(2) k(1) runs_ret[of "(None, ranges[?k := r])"]
        by (intro exI[of _ "(None, ranges[?k := r])"]) (auto simp: ranges_found_def)
    next
      case False
      have "\<forall>l < length (before @ [pt]). holds_postings ix ts d (ranges[?k := r]) l"
        using Cons.prems(3,4) k(1) r(3) by (auto simp: holds_postings_def less_Suc_eq nth_list_update)
      from Cons.IH[OF _ _ _ this, of "if range_len (ranges[?k := r] ! ?k) < range_len (ranges[?k := r] ! anchor) then ?k else anchor"]
      show ?thesis using False Cons.prems k by auto
    qed
    then obtain v where v: "runs (?step r) v" "ranges_found ix ts d v \<and> length (snd v) = length ranges" by blast
    have "runs (phrase_ranges ix d (enumerate ?k (pt # rest)) anchor ranges) v"
      using runs_charge[OF runs_bind[where f = ?step, OF r(1) v(1)], of 1] Some
      by (simp add: phrase_ranges.simps[abs_def] Let_def if_distrib[of "\<lambda>f. f _"] del: One_nat_def cong: if_cong)
    then show ?thesis using v(2) by blast
  qed
qed

definition phrase_fits :: "reference_index \<Rightarrow> str list \<Rightarrow> u32 \<Rightarrow> u32 \<Rightarrow> nat \<Rightarrow> nat \<times> phrase_term \<Rightarrow> bool" where
  "phrase_fits ix ts d from anchor item \<longleftrightarrow> fst item = anchor \<or>
     (\<exists>w. checked_add_w from (pt_offset (snd item)) = Some w \<and> w \<in> po_position ` set (occurrences ix (ts ! fst item) d))"

lemma phrase_fits_pair:
  "phrase_fits ix ts d from anchor (slot, pt) \<longleftrightarrow> slot = anchor \<or>
     (\<exists>w. checked_add_w from (pt_offset pt) = Some w \<and> w \<in> po_position ` set (occurrences ix (ts ! slot) d))"
  by (simp add: phrase_fits_def)

lemma probe_slots_runs:
  assumes ix: "index_ok ix"
  shows "\<forall>item \<in> set items. holds_postings ix ts d ranges (fst item) \<Longrightarrow>
    runs (probe_slots ix ranges from anchor items) (list_all (phrase_fits ix ts d from anchor) items)"
proof (induction items)
  case Nil
  then show ?case using runs_ret[of True] by (simp add: probe_slots.simps[abs_def])
next
  case (Cons item items)
  obtain slot pt where item: "item = (slot, pt)" by fastforce
  show ?case
  proof (cases "slot = anchor")
    case True
    then show ?thesis using Cons by (simp add: item probe_slots.simps[abs_def] phrase_fits_pair)
  next
    case ne: False
    show ?thesis
    proof (cases "checked_add_w from (pt_offset pt)")
      case None
      then show ?thesis using runs_charge[OF runs_ret, of 1 False] ne
        by (simp add: item probe_slots.simps[abs_def] phrase_fits_pair del: One_nat_def)
    next
      case (Some w)
      let ?f = "w \<in> po_position ` set (occurrences ix (ts ! slot) d)"
      have h: "runs (has_position ix (ranges ! slot) w) ?f"
        using has_position_runs[OF ix] Cons.prems by (simp add: item holds_postings_def)
      let ?step = "\<lambda>found. if \<not> found then (\<lambda>w. Inr (False, w)) else probe_slots ix ranges from anchor items"
      have "runs (?step ?f) (?f \<and> list_all (phrase_fits ix ts d from anchor) items)"
        using Cons runs_ret[of False] by simp
      from runs_charge[OF runs_bind[where f = ?step, OF h this], of 1] show ?thesis
        using ne Some by (simp add: item probe_slots.simps[abs_def] phrase_fits_pair if_distrib[of "\<lambda>f. f _"] del: One_nat_def cong: if_cong)
    qed
  qed
qed

lemma probe_anchor_runs:
  assumes ix: "index_ok ix" and h: "\<forall>k < length pts. holds_postings ix ts d ranges k"
  shows "runs (probe_anchor ix pts ranges anchor ps)
    (\<exists>p \<in> set ps. \<exists>from. checked_sub_w (po_position p) (pt_offset (pts ! anchor)) = Some from \<and>
       list_all (phrase_fits ix ts d from anchor) (enumerate 0 pts))"
proof (induction ps)
  case Nil
  then show ?case using runs_ret[of False] by (simp add: probe_anchor.simps[abs_def])
next
  case (Cons p ps)
  let ?rest = "\<exists>p \<in> set ps. \<exists>from. checked_sub_w (po_position p) (pt_offset (pts ! anchor)) = Some from \<and>
       list_all (phrase_fits ix ts d from anchor) (enumerate 0 pts)"
  show ?case
  proof (cases "checked_sub_w (po_position p) (pt_offset (pts ! anchor))")
    case None
    then show ?thesis using runs_charge[OF Cons, of 1]
      by (simp add: probe_anchor.simps[abs_def] del: One_nat_def)
  next
    case (Some s)
    let ?f = "list_all (phrase_fits ix ts d s anchor) (enumerate 0 pts)"
    have "\<forall>item \<in> set (enumerate 0 pts). holds_postings ix ts d ranges (fst item)"
      using h by (auto simp: enumerate_eq_zip set_zip)
    from probe_slots_runs[OF ix this, of s anchor] have r: "runs (probe_slots ix ranges s anchor (enumerate 0 pts)) ?f" .
    let ?step = "\<lambda>m. if m then (\<lambda>w. Inr (True, w)) else probe_anchor ix pts ranges anchor ps"
    have "runs (?step ?f) (?f \<or> ?rest)" using Cons runs_ret[of True] by auto
    from runs_charge[OF runs_bind[where f = ?step, OF r this], of 1] show ?thesis
      using Some by (simp add: probe_anchor.simps[abs_def] if_distrib[of "\<lambda>f. f _"] del: One_nat_def cong: if_cong)
  qed
qed

lemma phrase_probe:
  assumes ix: "index_ok ix" and d: "unat d < length (ri_documents ix)" and b: "binds_terms ix ts pts" and a: "anchor < length ts"
  shows "(\<exists>p \<in> set (occurrences ix (ts ! anchor) d). \<exists>from.
      checked_sub_w (po_position p) (pt_offset (pts ! anchor)) = Some from \<and>
      list_all (phrase_fits ix ts d from anchor) (enumerate 0 pts)) \<longleftrightarrow>
    (\<exists>s < length (doc_terms ix (unat d)). phrase_occurs (doc_terms ix (unat d)) ts s)" (is "?l \<longleftrightarrow> ?r")
proof
  let ?ws = "doc_terms ix (unat d)"
  note pos = occurrences_positions[OF ix d]
  {
    assume ?l
    then obtain p s where p: "p \<in> set (occurrences ix (ts ! anchor) d)"
      and s: "checked_sub_w (po_position p) (pt_offset (pts ! anchor)) = Some s"
      and f: "list_all (phrase_fits ix ts d s anchor) (enumerate 0 pts)" by blast
    have anchor: "unat (po_position p) = unat s + anchor"
      using checked_sub_w_Some[OF s] b a by (auto simp: binds_terms_def word_le_nat_alt)
    have "po_position p \<in> po_position ` set (occurrences ix (ts ! anchor) d)" using p by simp
    then have pa: "unat s + anchor < length ?ws" "?ws ! (unat s + anchor) = ts ! anchor"
      unfolding pos by (auto simp: anchor)
    have "unat s + k < length ?ws \<and> ?ws ! (unat s + k) = ts ! k" if k: "k < length ts" for k
    proof (cases "k = anchor")
      case False
      have "phrase_fits ix ts d s anchor (k, pts ! k)"
        using f k b unfolding list_all_iff by (force simp: in_set_enumerate_eq binds_terms_def)
      then obtain w where "checked_add_w s (pt_offset (pts ! k)) = Some w" "w \<in> po_position ` set (occurrences ix (ts ! k) d)"
        using False by (auto simp: phrase_fits_def)
      then show ?thesis using checked_add_w_Some[of s "pt_offset (pts ! k)" w] b k unfolding pos by (simp add: binds_terms_def)
    qed (use pa in simp)
    then show ?r using pa(1) by (intro exI[of _ "unat s"]) (simp add: phrase_occurs_nth)
  }
  {
    assume ?r
    then obtain s where s: "s < length ?ws" "\<forall>k < length ts. s + k < length ?ws \<and> ?ws ! (s + k) = ts ! k"
      by (auto simp: phrase_occurs_nth)
    have u: "unat (of_nat (s + k) :: u32) = s + k" if "k < length ts" for k
      using s(2) that index_okD(2)[OF ix d] by (intro unat_u32_of_nat) auto
    have us: "unat (of_nat s :: u32) = s" using u[OF a] s(1) index_okD(2)[OF ix d] by (intro unat_u32_of_nat) auto
    have m: "of_nat (s + k) \<in> po_position ` set (occurrences ix (ts ! k) d)" if "k < length ts" for k
      unfolding pos using s(2) u[OF that] that by simp
    obtain p where p: "p \<in> set (occurrences ix (ts ! anchor) d)" "po_position p = of_nat (s + anchor)" using m[OF a] by auto
    have off: "unat (pt_offset (pts ! k)) = k" if "k < length ts" for k using b that by (simp add: binds_terms_def)
    have "checked_sub_w (po_position p) (pt_offset (pts ! anchor)) = Some (of_nat s)"
      using u[OF a] us off[OF a] p(2) by (intro checked_sub_w_SomeI) simp
    moreover have "phrase_fits ix ts d (of_nat s) anchor (k, pts ! k)" if k: "k < length ts" for k
      using checked_add_w_SomeI[of "of_nat s" "pt_offset (pts ! k)" "of_nat (s + k)"] m[OF k] u[OF k] us off[OF k]
      by (simp add: phrase_fits_pair)
    then have "list_all (phrase_fits ix ts d (of_nat s) anchor) (enumerate 0 pts)"
      using b by (auto simp: list_all_iff in_set_enumerate_eq binds_terms_def)
    ultimately show ?l using p(1) by blast
  }
qed

lemma search_phrase_runs:
  assumes ix: "index_ok ix" and d: "unat d < length (ri_documents ix)" and b: "binds_terms ix ts pts" and ts: "ts \<noteq> []"
    and l: "length ts \<le> length ranges"
  shows "\<exists>ranges'. runs (search_phrase ix pts ranges d)
      (\<exists>s < length (doc_terms ix (unat d)). phrase_occurs (doc_terms ix (unat d)) ts s, ranges') \<and> length ranges' = length ranges"
proof -
  let ?r = "\<exists>s < length (doc_terms ix (unat d)). phrase_occurs (doc_terms ix (unat d)) ts s"
  have "0 < length ts" using ts by simp
  from phrase_ranges_runs[OF ix b, of "[]" pts 0 ranges d] this l obtain v where
    v: "runs (phrase_ranges ix d (enumerate 0 pts) 0 ranges) v" "ranges_found ix ts d v" "length (snd v) = length ranges" by auto
  obtain a rs where av: "v = (a, rs)" by fastforce
  let ?step = "\<lambda>(a, ranges). case a of None \<Rightarrow> (\<lambda>w. Inr ((False, ranges), w))
    | Some anchor \<Rightarrow> \<lambda>w. and_then (probe_anchor ix pts ranges anchor (slice (ri_postings ix) (ranges ! anchor)) w)
        (\<lambda>(b, w). Inr ((b, ranges), w))"
  have "runs (?step v) (?r, rs)"
  proof (cases a)
    case None
    then obtain k where k: "k < length ts" "occurrences ix (ts ! k) d = []" using v(2) av by (auto simp: ranges_found_def)
    then have "ts ! k \<notin> set (doc_terms ix (unat d))" using occurrences_empty[OF ix d] by simp
    then have no: "?r \<longleftrightarrow> False" using k(1) by (metis nth_mem phrase_occurs_nth)
    show ?thesis unfolding no using None av runs_ret[of "(False, rs)"] by simp
  next
    case (Some anchor)
    then have s: "anchor < length ts" "\<forall>k < length pts. holds_postings ix ts d rs k"
      using v(2) av b by (auto simp: ranges_found_def binds_terms_def)
    have sl: "slice (ri_postings ix) (rs ! anchor) = occurrences ix (ts ! anchor) d"
      using s b by (simp add: holds_postings_def binds_terms_def)
    have "runs (probe_anchor ix pts rs anchor (slice (ri_postings ix) (rs ! anchor))) ?r"
      using probe_anchor_runs[OF ix s(2), of anchor "occurrences ix (ts ! anchor) d"]
      unfolding sl phrase_probe[OF ix d b s(1)] .
    from runs_bind[where f = "\<lambda>b w. Inr ((b, rs), w)", OF this runs_ret] show ?thesis using Some av by simp
  qed
  from runs_bind[where f = ?step, OF v(1) this] have "runs (search_phrase ix pts ranges d) (?r, rs)"
    unfolding search_phrase_def[abs_def] by (simp add: case_prod_unfold option.case_distrib[of "\<lambda>f. f _"] cong: option.case_cong)
  then show ?thesis using v(3) av by auto
qed

section \<open>Nodes\<close>

text \<open>What a compiled node has to do with the kind it was compiled from; \<open>m\<close> bounds the length of phrases.\<close>

fun binds :: "reference_index \<Rightarrow> phrase_term list \<Rightarrow> nat \<Rightarrow> kind \<Rightarrow> bound \<Rightarrow> bool" where
  "binds ix pts m KNone bd \<longleftrightarrow> bd = BNever"
| "binds ix pts m (KTerm t) bd \<longleftrightarrow> bd = BTerm (entry_index ix t)"
| "binds ix pts m (KPrefix p) bd \<longleftrightarrow> (\<exists>r. bd = BPrefix r \<and> snd r \<le> length (ri_terms ix) \<and>
     (\<forall>k < length (ri_terms ix). starts_with (ie_text (ri_terms ix ! k)) p \<longleftrightarrow> fst r \<le> k \<and> k < snd r))"
| "binds ix pts m (KPhrase ts) bd \<longleftrightarrow> (\<exists>r. bd = BPhrase r \<and> binds_terms ix ts (slice pts r) \<and> length ts \<le> m)"
| "binds ix pts m (KNot c) bd \<longleftrightarrow> bd = BNot c"
| "binds ix pts m (KAnd l r) bd \<longleftrightarrow> bd = BAnd l r"
| "binds ix pts m (KOr l r) bd \<longleftrightarrow> bd = BOr l r"

lemma term_in_document:
  assumes ix: "index_ok ix" and d: "unat d < length (ri_documents ix)" and j: "j < length (ri_terms ix)"
  obtains r where "runs (document_postings ix j d) r"
    "\<not> range_is_empty r \<longleftrightarrow> ie_text (ri_terms ix ! j) \<in> set (doc_terms ix (unat d))"
  using document_postings_runs[OF ix j, of d] occurrences_empty[OF ix d] by metis

lemma any_term_runs:
  assumes ix: "index_ok ix" and d: "unat d < length (ri_documents ix)"
  shows "\<forall>j \<in> set js. j < length (ri_terms ix) \<Longrightarrow>
    runs (any_term ix d js) (\<exists>j \<in> set js. ie_text (ri_terms ix ! j) \<in> set (doc_terms ix (unat d)))"
proof (induction js)
  case Nil
  then show ?case using runs_ret[of False] by (simp add: any_term.simps[abs_def])
next
  case (Cons j js)
  let ?rest = "\<exists>j \<in> set js. ie_text (ri_terms ix ! j) \<in> set (doc_terms ix (unat d))"
  let ?step = "\<lambda>r. if \<not> range_is_empty r then (\<lambda>w. Inr (True, w)) else any_term ix d js"
  have "j < length (ri_terms ix)" using Cons.prems by simp
  from term_in_document[OF ix d this] obtain r where r: "runs (document_postings ix j d) r"
    "\<not> range_is_empty r \<longleftrightarrow> ie_text (ri_terms ix ! j) \<in> set (doc_terms ix (unat d))" .
  have "runs (?step r) (\<not> range_is_empty r \<or> ?rest)" using Cons runs_ret[of True] by auto
  from runs_charge[OF runs_bind[where f = ?step, OF r(1) this], of 1] show ?case
    by (simp add: any_term.simps[abs_def] r(2) if_distrib[of "\<lambda>f. f _"] del: One_nat_def cong: if_cong)
qed

lemma prefix_in_document:
  assumes ix: "index_ok ix" and d: "unat (d :: u32) < length (ri_documents ix)" and b: "binds ix pts m (KPrefix p) (BPrefix r)"
  shows "(\<exists>j \<in> set [fst r..<snd r]. ie_text (ri_terms ix ! j) \<in> set (doc_terms ix (unat d))) \<longleftrightarrow>
    (\<exists>w \<in> set (doc_terms ix (unat d)). starts_with w p)"
proof
  assume "\<exists>j \<in> set [fst r..<snd r]. ie_text (ri_terms ix ! j) \<in> set (doc_terms ix (unat d))"
  then obtain j where "fst r \<le> j" "j < snd r" "ie_text (ri_terms ix ! j) \<in> set (doc_terms ix (unat d))" by auto
  moreover from this have "starts_with (ie_text (ri_terms ix ! j)) p" using b by simp
  ultimately show "\<exists>w \<in> set (doc_terms ix (unat d)). starts_with w p" by blast
next
  assume "\<exists>w \<in> set (doc_terms ix (unat d)). starts_with w p"
  then obtain w where w: "w \<in> set (doc_terms ix (unat d))" "starts_with w p" by blast
  then have "occurrences ix w d \<noteq> []" using occurrences_empty[OF ix d] by simp
  then have "w \<in> ie_text ` set (ri_terms ix)" unfolding index_okD(6)[OF ix] by (auto simp: occurrences_def filter_empty_conv)
  then obtain j where "j < length (ri_terms ix)" "ie_text (ri_terms ix ! j) = w" by (auto simp: in_set_conv_nth)
  then show "\<exists>j \<in> set [fst r..<snd r]. ie_text (ri_terms ix ! j) \<in> set (doc_terms ix (unat d))" using b w by auto
qed

lemma search_leaf:
  assumes ix: "index_ok ix" and d: "unat d < length (ri_documents ix)" and e: "parts e = []" "phrases_ok e"
    and b: "binds ix pts m (root_kind base e) bd" and m: "m \<le> length ranges"
  shows "\<exists>ranges'. runs (search_node ix pts d (vals, ranges) (slot, bd)) (vals[slot := holds (doc_terms ix (unat d)) e], ranges') \<and>
    length ranges' = length ranges"
proof (cases e)
  case ENone
  then show ?thesis using b runs_charge[OF runs_ret, of 1 "(vals[slot := False], ranges)"]
    by (auto simp: search_node_def[abs_def] Let_def simp del: One_nat_def)
next
  case (ETerm t)
  show ?thesis
  proof (cases "entry_index ix t")
    case None
    then have "occurrences ix t d = []" using entry_index_None[OF ix] by (auto simp: occurrences_def filter_empty_conv image_iff)
    then have "t \<notin> set (doc_terms ix (unat d))" using occurrences_empty[OF ix d] by simp
    then show ?thesis using ETerm None b runs_charge[OF runs_ret, of 1 "(vals[slot := False], ranges)"]
      by (auto simp: search_node_def[abs_def] Let_def simp del: One_nat_def)
  next
    case (Some j)
    note j = entry_index_Some[OF Some]
    from term_in_document[OF ix d j(1)] obtain r where r: "runs (document_postings ix j d) r"
      "\<not> range_is_empty r \<longleftrightarrow> t \<in> set (doc_terms ix (unat d))" using j(2) by metis
    from runs_charge[OF runs_bind[where f = "\<lambda>r w. Inr ((vals[slot := \<not> range_is_empty r], ranges), w)", OF r(1) runs_ret], of 1]
    show ?thesis using ETerm Some b by (auto simp: search_node_def[abs_def] Let_def r(2) simp del: One_nat_def)
  qed
next
  case (EPrefix p)
  then obtain r where r: "bd = BPrefix r" "binds ix pts m (KPrefix p) (BPrefix r)" using b by auto
  have "\<forall>j \<in> set [fst r..<snd r]. j < length (ri_terms ix)" using r(2) by auto
  from runs_charge[OF runs_bind[where f = "\<lambda>b w. Inr ((vals[slot := b], ranges), w)", OF any_term_runs[OF ix d this] runs_ret], of 1]
  show ?thesis unfolding prefix_in_document[OF ix d r(2)]
    using EPrefix r(1) by (auto simp: search_node_def[abs_def] Let_def simp del: One_nat_def)
next
  case (EPhrase ts)
  then obtain r where r: "bd = BPhrase r" "binds_terms ix ts (slice pts r)" "length ts \<le> length ranges" "ts \<noteq> []"
    using b m e by auto
  obtain ranges' where s: "runs (search_phrase ix (slice pts r) ranges d) (holds (doc_terms ix (unat d)) e, ranges')"
    "length ranges' = length ranges"
    using search_phrase_runs[OF ix d r(2,4,3)] EPhrase by auto
  from runs_charge[OF runs_bind[where f = "\<lambda>(b, ranges) w. Inr ((vals[slot := b], ranges), w)", OF s(1)], of _ 1]
  show ?thesis using r(1) s(2) runs_ret[of "(vals[slot := holds (doc_terms ix (unat d)) e], ranges')"]
    by (auto simp: search_node_def[abs_def] Let_def case_prod_unfold simp del: One_nat_def)
qed (use e in auto)

lemma search_inner:
  assumes "parts e \<noteq> []" "length vs = base" "binds ix pts m (root_kind base e) bd"
    and "take slot vals = vs @ concat (map (flat (holds ws)) (parts e))" "slot = base + expr_size e - 1" "slot < length vals"
  shows "runs (search_node ix pts d (vals, ranges) (slot, bd)) (vals[slot := holds ws e], ranges)"
proof -
  have nth: "vals ! i = (vs @ concat (map (flat (holds ws)) (parts e))) ! i" if "i < slot" for i
    using assms(4) that by (metis nth_take)
  have two: "vals ! (base + expr_size l - 1) = holds ws l \<and> vals ! (base + expr_size l + expr_size r - 1) = holds ws r"
    if p: "parts e = [l, r]" for l r
  proof -
    have "slot = base + expr_size l + expr_size r" using assms(5) expr_size_parts[of e] p by simp
    then have "base + expr_size l - 1 < slot" "base + expr_size l + expr_size r - 1 < slot"
      using expr_size_pos[of l] expr_size_pos[of r] by linarith+
    then show ?thesis using nth_flat_parts(2,3)[OF assms(2) p, of "holds ws"] nth by simp
  qed
  show ?thesis
  proof (cases e)
    case (ENot c)
    have "vals ! (base + expr_size c - 1) = holds ws c"
      using nth_flat_parts(1)[OF assms(2), of e c "holds ws"] nth[of "base + expr_size c - 1"] assms(5) ENot
      by (simp add: ENot)
    then show ?thesis using assms(3) runs_charge[OF runs_ret, of 1 "(vals[slot := holds ws e], ranges)"] ENot
      by (simp add: search_node_def[abs_def] Let_def del: One_nat_def)
  next
    case (EAnd l r)
    then show ?thesis using two[of l r] assms(3) runs_charge[OF runs_ret, of 1 "(vals[slot := holds ws e], ranges)"] EAnd
      by (simp add: search_node_def[abs_def] Let_def del: One_nat_def)
  next
    case (EOr l r)
    then show ?thesis using two[of l r] assms(3) runs_charge[OF runs_ret, of 1 "(vals[slot := holds ws e], ranges)"] EOr
      by (simp add: search_node_def[abs_def] Let_def del: One_nat_def)
  qed (use assms(1) in auto)
qed

lemma search_nodes_append:
  "search_nodes ix pts d (xs @ ys) st work =
     and_then (search_nodes ix pts d xs st work) (\<lambda>(st, work). search_nodes ix pts d ys st work)"
  by (induction xs arbitrary: st work) (auto simp: and_then_assoc case_prod_unfold)

lemma search_nodes_runs_append:
  assumes "runs (search_nodes ix pts d xs st) st1" "runs (search_nodes ix pts d ys st1) st2"
  shows "runs (search_nodes ix pts d (xs @ ys) st) st2"
  using runs_bind[where f = "search_nodes ix pts d ys", OF assms] by (simp add: search_nodes_append[abs_def])

lemma search_nodes_runs_single:
  "runs (search_node ix pts d st item) st1 \<Longrightarrow> runs (search_nodes ix pts d [item] st) st1"
  using runs_bind[where f = "\<lambda>st w. Inr (st, w)", OF _ runs_ret] by (simp add: search_nodes.simps[abs_def])

text \<open>The value buffer after the nodes of an expression laid out from \<open>base\<close>.\<close>

definition evaluated :: "str list \<Rightarrow> nat \<Rightarrow> expr list \<Rightarrow> bool list \<times> range list \<Rightarrow> bool list \<times> range list \<Rightarrow> bool" where
  "evaluated ws base es st st' \<longleftrightarrow> length (fst st') = length (fst st) \<and> length (snd st') = length (snd st) \<and>
     take (base + sum_list (map expr_size es)) (fst st') = take base (fst st) @ concat (map (flat (holds ws)) es)"

lemma evaluated_root:
  assumes "evaluated ws base (parts e) st st'" "base + expr_size e \<le> length (fst st)"
  shows "evaluated ws base [e] st ((fst st')[base + expr_size e - 1 := holds ws e], snd st')"
proof -
  let ?s = "base + expr_size e - 1"
  have s: "base + sum_list (map expr_size (parts e)) = ?s" "base + expr_size e = Suc ?s"
    using expr_size_parts[of e] by simp_all
  have "length (fst st') = length (fst st)" using assms(1) by (simp add: evaluated_def)
  then have l: "?s < length (fst st')" using assms(2) expr_size_pos[of e] by linarith
  have "take (Suc i) (xs[i := v]) = take i xs @ [v]" if "i < length xs" for i v and xs :: "bool list"
    using that by (simp add: take_Suc_conv_app_nth)
  from this[OF l, of "holds ws e"] show ?thesis using assms(1) s by (simp add: evaluated_def flat_parts[of _ e])
qed

definition evaluates :: "reference_index \<Rightarrow> phrase_term list \<Rightarrow> nat \<Rightarrow> u32 \<Rightarrow> expr \<Rightarrow> bool" where
  "evaluates ix pts m d e \<longleftrightarrow> (\<forall>base bds st. list_all2 (\<lambda>n. binds ix pts m (nd_kind n)) (flatten base e) bds \<longrightarrow>
     m \<le> length (snd st) \<longrightarrow> base + expr_size e \<le> length (fst st) \<longrightarrow>
     (\<exists>st'. runs (search_nodes ix pts d (enumerate base bds) st) st' \<and> evaluated (doc_terms ix (unat d)) base [e] st st'))"

lemma search_forest:
  "\<forall>e \<in> set es. evaluates ix pts m d e \<Longrightarrow> list_all2 (\<lambda>n. binds ix pts m (nd_kind n)) (flatten_all base es) bds \<Longrightarrow>
    m \<le> length (snd st) \<Longrightarrow> base + sum_list (map expr_size es) \<le> length (fst st) \<Longrightarrow>
    \<exists>st'. runs (search_nodes ix pts d (enumerate base bds) st) st' \<and> evaluated (doc_terms ix (unat d)) base es st st'"
proof (induction es arbitrary: base bds st)
  case Nil
  then show ?case using runs_ret[of st] by (intro exI[of _ st]) (simp add: search_nodes.simps[abs_def] evaluated_def)
next
  case (Cons e es)
  let ?ws = "doc_terms ix (unat d)"
  from Cons.prems(2) obtain bs cs where bds: "bds = bs @ cs" and
    b: "list_all2 (\<lambda>n. binds ix pts m (nd_kind n)) (flatten base e) bs"
      "list_all2 (\<lambda>n. binds ix pts m (nd_kind n)) (flatten_all (base + expr_size e) es) cs"
    by (auto simp: list_all2_append1)
  have len: "length bs = expr_size e" using list_all2_lengthD[OF b(1)] by simp
  from Cons.prems(1,4) have "evaluates ix pts m d e" "base + expr_size e \<le> length (fst st)" by simp_all
  then obtain st1 where st1: "runs (search_nodes ix pts d (enumerate base bs) st) st1" "evaluated ?ws base [e] st st1"
    unfolding evaluates_def using b(1) Cons.prems(3) by blast
  have "m \<le> length (snd st1)" "base + expr_size e + sum_list (map expr_size es) \<le> length (fst st1)"
    using st1(2) Cons.prems(3,4) by (simp_all add: evaluated_def)
  from Cons.IH[OF _ b(2) this] Cons.prems(1) obtain st2 where
    st2: "runs (search_nodes ix pts d (enumerate (base + expr_size e) cs) st1) st2" "evaluated ?ws (base + expr_size e) es st1 st2" by auto
  have "runs (search_nodes ix pts d (enumerate base bds) st) st2"
    using search_nodes_runs_append[OF st1(1) st2(1)] by (simp add: bds len enumerate_append_eq)
  moreover have "evaluated ?ws base (e # es) st st2"
    using st1(2) st2(2) by (simp add: evaluated_def add.assoc)
  ultimately show ?case by blast
qed

lemma search_evaluates:
  assumes ix: "index_ok ix" and d: "unat d < length (ri_documents ix)"
  shows "phrases_ok e \<Longrightarrow> evaluates ix pts m d e"
proof (induction e rule: measure_induct_rule[of expr_size])
  case (less e)
  let ?ws = "doc_terms ix (unat d)"
  have "evaluates ix pts m d x" if "x \<in> set (parts e)" for x
    using that less by (cases e) auto
  then have pe: "\<forall>x \<in> set (parts e). evaluates ix pts m d x" by blast
  show ?case unfolding evaluates_def
  proof (intro allI impI)
    fix base bds and st :: "bool list \<times> range list"
    assume b: "list_all2 (\<lambda>n. binds ix pts m (nd_kind n)) (flatten base e) bds"
      and m: "m \<le> length (snd st)" and l: "base + expr_size e \<le> length (fst st)"
    from b obtain bs bd where bds: "bds = bs @ [bd]" "binds ix pts m (root_kind base e) bd"
      and bs: "list_all2 (\<lambda>n. binds ix pts m (nd_kind n)) (flatten_all base (parts e)) bs"
      by (auto simp: flatten_parts list_all2_append1 list_all2_Cons1 root_node_def)
    let ?s = "base + expr_size e - 1"
    have s: "base + sum_list (map expr_size (parts e)) = ?s" "base + length bs = ?s"
      using expr_size_parts[of e] list_all2_lengthD[OF bs] by simp_all
    from search_forest[OF pe bs m] l expr_size_parts[of e] obtain st1 where
      st1: "runs (search_nodes ix pts d (enumerate base bs) st) st1" "evaluated ?ws base (parts e) st st1" by auto
    have len: "m \<le> length (snd st1)" "?s < length (fst st1)"
      using st1(2) m l expr_size_pos[of e] by (simp_all add: evaluated_def del: expr_size_pos) 
    obtain r where r: "runs (search_node ix pts d (fst st1, snd st1) (?s, bd)) ((fst st1)[?s := holds ?ws e], r)" "length r = length (snd st1)"
    proof (cases "parts e = []")
      case True
      then show thesis using search_leaf[OF ix d True less.prems bds(2) len(1), of "fst st1" ?s] that by blast
    next
      case False
      have "take ?s (fst st1) = take base (fst st) @ concat (map (flat (holds ?ws)) (parts e))"
        using st1(2) s(1) by (simp add: evaluated_def)
      moreover have "length (take base (fst st)) = base" using l by simp
      ultimately show thesis using search_inner[OF False _ bds(2) _ refl len(2), of "take base (fst st)" ?ws] that by blast
    qed
    have "evaluated ?ws base [e] st ((fst st1)[?s := holds ?ws e], r)"
      using evaluated_root[OF st1(2) l] r(2) by (simp add: evaluated_def)
    moreover have "runs (search_nodes ix pts d (enumerate base bds) st) ((fst st1)[?s := holds ?ws e], r)"
      using search_nodes_runs_append[OF st1(1) search_nodes_runs_single[OF r(1)[simplified]]] s(2)
      by (simp add: bds enumerate_append_eq)
    ultimately show "\<exists>st'. runs (search_nodes ix pts d (enumerate base bds) st) st' \<and> evaluated ?ws base [e] st st'" by blast
  qed
qed

section \<open>The iterator\<close>

text \<open>A search in progress: its nodes are bound to the expression and its buffers are long enough.\<close>

definition search_ok :: "search \<Rightarrow> expr \<Rightarrow> bool" where
  "search_ok s e \<longleftrightarrow> index_ok (se_index s) \<and> phrases_ok e \<and>
     list_all2 (\<lambda>n. binds (se_index s) (se_phrase_terms s) (length (se_ranges s)) (nd_kind n)) (flatten 0 e) (se_nodes s) \<and>
     length (se_values s) = expr_size e \<and> se_root s = expr_size e - 1"

lemma search_matches_costs:
  assumes s: "search_ok s e" and d: "unat d < length (ri_documents (se_index s))"
  obtains c s' where "\<And>w. search_matches (s\<lparr>se_work := w\<rparr>) d =
      (if c \<le> w then Inr (holds (doc_terms (se_index s) (unat d)) e, s'\<lparr>se_work := w - c\<rparr>) else Inl (Limit ''search work''))"
    "search_ok s' e" "se_index s' = se_index s" "se_next_document s' = se_next_document s" "se_failed s' = se_failed s"
proof -
  let ?ix = "se_index s"
  have ev: "evaluates ?ix (se_phrase_terms s) (length (se_ranges s)) d e"
    using s by (intro search_evaluates) (simp_all add: search_ok_def d)
  then obtain vals ranges where r: "runs (search_nodes ?ix (se_phrase_terms s) d (enumerate 0 (se_nodes s)) (se_values s, se_ranges s)) (vals, ranges)"
    and e: "evaluated (doc_terms ?ix (unat d)) 0 [e] (se_values s, se_ranges s) (vals, ranges)"
    using s unfolding evaluates_def search_ok_def by (metis add_0 fst_conv order_refl snd_conv surj_pair)
  then have l: "length vals = expr_size e" "length ranges = length (se_ranges s)" "vals = flat (holds (doc_terms ?ix (unat d))) e"
    using s by (auto simp: evaluated_def search_ok_def)
  obtain c where c: "search_nodes ?ix (se_phrase_terms s) d (enumerate 0 (se_nodes s)) (se_values s, se_ranges s) = costs c (vals, ranges)"
    using r by (auto simp: runs_def)
  have root: "vals ! se_root s = holds (doc_terms ?ix (unat d)) e" using s nth_flat by (simp add: l(3) search_ok_def)
  show thesis
    by (rule that[of c "s\<lparr>se_values := vals, se_ranges := ranges\<rparr>"])
      (use s l(1,2) root in \<open>auto simp: search_matches_def c costs_def search_ok_def\<close>)
qed

definition answers :: "reference_index \<Rightarrow> expr \<Rightarrow> nat \<Rightarrow> candidate list" where
  "answers ix e k = map (\<lambda>d. \<lparr>cd_document = ix_identity (ri_documents ix ! d), cd_ordinal = of_nat d\<rparr>)
     (filter (\<lambda>d. holds (doc_terms ix d) e) [k..<length (ri_documents ix)])"

lemma answers_step:
  assumes "k < length (ri_documents ix)"
  shows "answers ix e k = (if holds (doc_terms ix k) e
    then [\<lparr>cd_document = ix_identity (ri_documents ix ! k), cd_ordinal = of_nat k\<rparr>] else []) @ answers ix e (k + 1)"
  using assms by (simp add: answers_def upt_conv_Cons)

lemma answers_end: "length (ri_documents ix) \<le> k \<Longrightarrow> answers ix e k = []"
  by (simp add: answers_def)

text \<open>What the iterator yields from a position on as a function of the work left.\<close>

lemma search_drain_step:
  assumes "\<not> se_failed s" "se_next_document s < length (ri_documents (se_index s))"
  shows "search_drain s =
    (case search_matches (s\<lparr>se_next_document := se_next_document s + 1\<rparr>) (of_nat (se_next_document s)) of
       Inl error \<Rightarrow> ([], Some error)
     | Inr (matched, s') \<Rightarrow>
         (if matched then map_prod (\<lambda>cs. \<lparr>cd_document = ix_identity (ri_documents (se_index s) ! se_next_document s),
              cd_ordinal = of_nat (se_next_document s)\<rparr> # cs) id (search_drain s')
          else search_drain s'))"
proof -
  let ?s = "s\<lparr>se_next_document := se_next_document s + 1\<rparr>"
  have n: "search_next s = next_loop s" using assms(1) by (simp add: search_next_def)
  show ?thesis
  proof (cases "search_matches ?s (of_nat (se_next_document s))")
    case (Inl e)
    then show ?thesis using assms(2) by (subst search_drain.simps, subst n, subst next_loop.simps) (simp add: Let_def)
  next
    case (Inr ms)
    obtain m s' where ms: "search_matches ?s (of_nat (se_next_document s)) = Inr (m, s')" using Inr by (cases ms) auto
    have f: "se_index s' = se_index s" "se_failed s' = se_failed s"
      using ms by (auto simp: search_matches_def res_simps)
    then have n': "search_next s' = next_loop s'" using assms(1) by (simp add: search_next_def)
    show ?thesis using ms assms(2) f
      by (subst search_drain.simps, subst n, subst next_loop.simps)
        (auto simp: Let_def search_drain.simps[of s'] n')
  qed
qed

lemma search_drain_end:
  "length (ri_documents (se_index s)) \<le> se_next_document s \<Longrightarrow> search_drain s = ([], None)"
  by (subst search_drain.simps) (simp add: search_next_def next_loop.simps)

definition drains :: "search \<Rightarrow> expr \<Rightarrow> nat \<Rightarrow> bool" where
  "drains s e c \<longleftrightarrow> (\<forall>w. if c \<le> w then search_drain (s\<lparr>se_work := w\<rparr>) = (answers (se_index s) e (se_next_document s), None)
    else \<exists>cs rest. search_drain (s\<lparr>se_work := w\<rparr>) = (cs, Some (Limit ''search work'')) \<and>
      answers (se_index s) e (se_next_document s) = cs @ rest)"

lemma search_drain_costs:
  assumes "search_ok s e" "\<not> se_failed s"
  shows "\<exists>c. drains s e c"
  using assms
proof (induction "length (ri_documents (se_index s)) - se_next_document s" arbitrary: s rule: less_induct)
  case less
  let ?ix = "se_index s" and ?k = "se_next_document s"
  show ?case
  proof (cases "?k < length (ri_documents ?ix)")
    case False
    then have "drains s e 0" by (simp add: drains_def search_drain_end answers_end)
    then show ?thesis by blast
  next
    case True
    have u: "unat (of_nat ?k :: u32) = ?k"
      using True less.prems index_okD(1)[of ?ix] by (intro unat_u32_of_nat) (simp add: search_ok_def)
    let ?s = "s\<lparr>se_next_document := ?k + 1\<rparr>"
    have ok: "search_ok ?s e" using less.prems(1) by (simp add: search_ok_def)
    have dl: "unat (of_nat ?k :: u32) < length (ri_documents (se_index ?s))" using True u by simp
    obtain c s' where c: "\<And>w. search_matches (?s\<lparr>se_work := w\<rparr>) (of_nat ?k) =
        (if c \<le> w then Inr (holds (doc_terms (se_index ?s) (unat (of_nat ?k :: u32))) e, s'\<lparr>se_work := w - c\<rparr>)
         else Inl (Limit ''search work''))"
      and t: "search_ok s' e" "se_index s' = se_index ?s" "se_next_document s' = se_next_document ?s" "se_failed s' = se_failed ?s"
      by (rule search_matches_costs[OF ok dl]) blast
    from t less.prems(2) have s': "search_ok s' e" "se_index s' = ?ix" "se_next_document s' = ?k + 1" "\<not> se_failed s'" by simp_all
    have "length (ri_documents (se_index s')) - se_next_document s' < length (ri_documents ?ix) - ?k" using s' True by simp
    from less.hyps[OF this s'(1,4)] obtain c' where c': "drains s' e c'" by blast
    have sw: "s\<lparr>se_work := w, se_next_document := n\<rparr> = s\<lparr>se_next_document := n, se_work := w\<rparr>" for w n by (cases s) simp
    have step: "search_drain (s\<lparr>se_work := w\<rparr>) =
      (if c \<le> w then (if holds (doc_terms ?ix ?k) e then map_prod (\<lambda>cs. \<lparr>cd_document = ix_identity (ri_documents ?ix ! ?k),
              cd_ordinal = of_nat ?k\<rparr> # cs) id (search_drain (s'\<lparr>se_work := w - c\<rparr>)) else search_drain (s'\<lparr>se_work := w - c\<rparr>))
       else ([], Some (Limit ''search work'')))" for w
      using search_drain_step[of "s\<lparr>se_work := w\<rparr>"] True less.prems(2) c[of w] by (simp add: u sw)
    have "drains s e (c + c')" unfolding drains_def
    proof
      fix w
      show "if c + c' \<le> w then search_drain (s\<lparr>se_work := w\<rparr>) = (answers ?ix e ?k, None)
        else \<exists>cs rest. search_drain (s\<lparr>se_work := w\<rparr>) = (cs, Some (Limit ''search work'')) \<and> answers ?ix e ?k = cs @ rest"
      proof (cases "c \<le> w")
        case True
        then have "c + c' \<le> w \<longleftrightarrow> c' \<le> w - c" by auto
        then show ?thesis using c'[unfolded drains_def, THEN spec, of "w - c"] True s'(2,3)
          by (auto simp: step answers_step[OF \<open>?k < length (ri_documents ?ix)\<close>] split: if_splits)
      qed (simp add: step)
    qed
    then show ?thesis by blast
  qed
qed

section \<open>Compilation\<close>

text \<open>The compilation state without its work, and the state it reaches on a prefix of the nodes.\<close>

definition compiled :: "reference_index \<Rightarrow> node list \<Rightarrow> compile \<Rightarrow> bool" where
  "compiled ix ns st \<longleftrightarrow> (\<forall>m pts. cp_longest st \<le> m \<longrightarrow> take (length (cp_phrase_terms st)) pts = cp_phrase_terms st \<longrightarrow>
     list_all2 (\<lambda>n. binds ix pts m (nd_kind n)) ns (cp_nodes st))"

lemma compile_terms_settles:
  assumes ix: "index_ok ix"
  shows "settles (\<lambda>w. try_fold (compile_phrase_term ix) (pts, w) (enumerate k ts))
    (\<lambda>pts'. \<exists>us. pts' = pts @ us \<and> length us = length ts \<and>
      (\<forall>i < length ts. pt_term (us ! i) = entry_index ix (ts ! i) \<and> unat (pt_offset (us ! i)) = k + i))"
proof (induction ts arbitrary: pts k)
  case Nil
  then show ?case by (intro settlesI[of _ pts]) (auto intro: runs_ret)
next
  case (Cons t ts)
  show ?case
  proof (cases "u32_try_from k")
    case None
    have "\<exists>e. try_fold (compile_phrase_term ix) (pts, w) (enumerate k (t # ts)) = Inl e" for w
    proof (cases "work_charge w 1")
      case (Inr w1)
      then show ?thesis using None by (cases "index_lookup ix t w1") (auto simp: compile_phrase_term_def simp del: One_nat_def)
    qed (simp add: compile_phrase_term_def del: One_nat_def)
    then show ?thesis by (rule settles_fail)
  next
    case (Some o')
    then have o: "unat o' = k" using unat_u32_of_nat[of k] by (simp add: u32_try_from_Some)
    let ?pt = "\<lparr>pt_term = entry_index ix t, pt_offset = o'\<rparr>"
    have "runs (\<lambda>w. compile_phrase_term ix (pts, w) (k, t)) (pts @ [?pt])"
      using runs_charge[OF runs_bind[where f = "\<lambda>v w. Inr (pts @ [\<lparr>pt_term = v, pt_offset = o'\<rparr>], w)", OF index_lookup_runs[OF ix, of t] runs_ret], of 1] Some
      by (simp add: compile_phrase_term_def del: One_nat_def)
    then have a: "settles (\<lambda>w. compile_phrase_term ix (pts, w) (k, t)) (\<lambda>v. v = pts @ [?pt])" by (rule settlesI) simp
    have "settles (\<lambda>w. try_fold (compile_phrase_term ix) (v, w) (enumerate (Suc k) ts))
        (\<lambda>pts'. \<exists>us. pts' = pts @ us \<and> length us = length (t # ts) \<and>
          (\<forall>i < length (t # ts). pt_term (us ! i) = entry_index ix ((t # ts) ! i) \<and> unat (pt_offset (us ! i)) = k + i))"
      if "v = pts @ [?pt]" for v
    proof -
      have w: "(pts @ [?pt]) @ us = pts @ ?pt # us \<and> length (?pt # us) = length (t # ts) \<and>
          (\<forall>i < length (t # ts). pt_term ((?pt # us) ! i) = entry_index ix ((t # ts) ! i) \<and> unat (pt_offset ((?pt # us) ! i)) = k + i)"
        if "length us = length ts"
          "\<forall>i < length ts. pt_term (us ! i) = entry_index ix (ts ! i) \<and> unat (pt_offset (us ! i)) = Suc k + i" for us
        using that o by (auto simp: nth_Cons split: nat.splits)
      show ?thesis unfolding that by (rule settles_mono[OF Cons.IH[of "pts @ [?pt]" "Suc k"]]) (use w in blast)
    qed
    from settles_bind[where f = "\<lambda>v w. try_fold (compile_phrase_term ix) (v, w) (enumerate (Suc k) ts)", OF a this]
    show ?thesis by (simp add: case_prod_unfold)
  qed
qed

lemma compiled_snoc:
  assumes "compiled ix ns st"
    and "cp_nodes st' = cp_nodes st @ [bd]" "cp_phrase_terms st' = cp_phrase_terms st @ pt"
    and "cp_longest st \<le> cp_longest st'"
    and "\<And>m pts. cp_longest st' \<le> m \<Longrightarrow> take (length (cp_phrase_terms st')) pts = cp_phrase_terms st' \<Longrightarrow> binds ix pts m (nd_kind n) bd"
  shows "compiled ix (ns @ [n]) st'"
  unfolding compiled_def
proof (intro allI impI)
  fix m pts
  assume m: "cp_longest st' \<le> m" and p: "take (length (cp_phrase_terms st')) pts = cp_phrase_terms st'"
  have "take (length (cp_phrase_terms st)) pts = cp_phrase_terms st"
    using p assms(3) by (metis append_eq_conv_conj length_append min.absorb1 le_add1 take_take)
  then show "list_all2 (\<lambda>n. binds ix pts m (nd_kind n)) (ns @ [n]) (cp_nodes st')"
    using assms m p by (auto simp: compiled_def intro!: list_all2_appendI)
qed

definition unwork :: "compile result \<Rightarrow> (compile \<times> nat) result" where
  "unwork r = and_then r (\<lambda>st. Inr (st\<lparr>cp_work := 0\<rparr>, cp_work st))"

lemma unwork_simps [simp]: "unwork (Inl e) = Inl e" "unwork (Inr st) = Inr (st\<lparr>cp_work := 0\<rparr>, cp_work st)"
  "unwork (and_then m f) = and_then m (\<lambda>x. unwork (f x))"
  by (simp_all add: unwork_def and_then_assoc)

lemma compile_leaf:
  assumes c: "compiled ix ns st" and b: "\<And>m pts. binds ix pts m (nd_kind n) bd"
  shows "compiled ix (ns @ [n]) (st\<lparr>cp_expanded := x, cp_nodes := cp_nodes st @ [bd], cp_work := 0\<rparr>)"
  by (rule compiled_snoc[OF c, where pt = "[]" and bd = bd]) (simp_all add: b)

lemma compile_node_settles:
  assumes ix: "index_ok ix" and c: "compiled ix ns st"
  shows "settles (\<lambda>w. unwork (compile_node ix limits (st\<lparr>cp_work := w\<rparr>) n)) (compiled ix (ns @ [n]))"
proof -
  let ?emit = "\<lambda>bd. st\<lparr>cp_nodes := cp_nodes st @ [bd], cp_work := 0\<rparr>"
  have leaf: "settles (\<lambda>w. Inr (?emit bd, w)) (compiled ix (ns @ [n]))" if "\<And>m pts. binds ix pts m (nd_kind n) bd" for bd
    using compile_leaf[OF c that, of "cp_expanded st"] by (intro settlesI[OF runs_ret]) (simp add: compiled_def)
  show ?thesis
  proof (cases "nd_kind n")
    case KNone
    then show ?thesis using settles_charge[OF leaf[of BNever], of 1] by (simp add: compile_node_def Let_def del: One_nat_def)
  next
    case (KTerm t)
    have "settles (index_lookup ix t) (\<lambda>v. v = entry_index ix t)" by (rule settlesI[OF index_lookup_runs[OF ix]]) simp
    from settles_charge[OF settles_bind[where f = "\<lambda>v w. Inr (?emit (BTerm v), w)", OF this leaf], of 1] KTerm show ?thesis
      by (simp add: compile_node_def Let_def case_prod_unfold del: One_nat_def)
  next
    case (KPrefix p)
    obtain r where r: "runs (index_prefix ix p) r" "\<And>m pts. binds ix pts m (KPrefix p) (BPrefix r)"
    proof -
      obtain r where "runs (index_prefix ix p) r" "snd r \<le> length (ri_terms ix)"
        "\<forall>k < length (ri_terms ix). starts_with (ie_text (ri_terms ix ! k)) p \<longleftrightarrow> fst r \<le> k \<and> k < snd r"
        by (rule index_prefix_runs[OF ix, of p]) blast
      then show thesis by (intro that[of r]) simp_all
    qed
    let ?f = "\<lambda>r w. and_then (ok_or (Limit ''prefix expansion'') (checked_add (cp_expanded st) (range_len r))) (\<lambda>expanded.
        if expanded > sl_expanded_terms limits then Inl (Limit ''prefix expansion'')
        else Inr (st\<lparr>cp_expanded := expanded, cp_nodes := cp_nodes st @ [BPrefix r], cp_work := 0\<rparr>, w))"
    have "settles (?f r) (compiled ix (ns @ [n]))"
    proof (cases "\<exists>x. checked_add (cp_expanded st) (range_len r) = Some x \<and> x \<le> sl_expanded_terms limits")
      case True
      then obtain x where "checked_add (cp_expanded st) (range_len r) = Some x" "x \<le> sl_expanded_terms limits" by blast
      then show ?thesis using compile_leaf[OF c, of n "BPrefix r" x] r(2) KPrefix
        by (intro settlesI[of _ "st\<lparr>cp_expanded := x, cp_nodes := cp_nodes st @ [BPrefix r], cp_work := 0\<rparr>"]) (auto intro: runs_ret)
    next
      case False
      then show ?thesis by (intro settles_fail) (cases "checked_add (cp_expanded st) (range_len r)"; auto)
    qed
    then have "\<And>v. v = r \<Longrightarrow> settles (?f v) (compiled ix (ns @ [n]))" by simp
    from settles_charge[OF settles_bind[where f = ?f, OF settlesI[where p = "\<lambda>v. v = r", OF r(1) refl] this], of 1] KPrefix
    show ?thesis by (simp add: compile_node_def Let_def case_prod_unfold if_distrib[of unwork] del: One_nat_def cong: if_cong)
  next
    case (KPhrase ts)
    let ?from = "length (cp_phrase_terms st)"
    let ?st = "\<lambda>pts. st\<lparr>cp_phrase_terms := pts, cp_longest := max (cp_longest st) (length ts),
      cp_nodes := cp_nodes st @ [BPhrase (?from, length pts)], cp_work := 0\<rparr>"
    have "settles (\<lambda>w. Inr (?st pts, w)) (compiled ix (ns @ [n]))"
      if "\<exists>us. pts = cp_phrase_terms st @ us \<and> length us = length ts \<and>
        (\<forall>i < length ts. pt_term (us ! i) = entry_index ix (ts ! i) \<and> unat (pt_offset (us ! i)) = 0 + i)" for pts
    proof -
      from that obtain us where us: "pts = cp_phrase_terms st @ us" "binds_terms ix ts us" by (auto simp: binds_terms_def)
      have "slice ps (?from, length pts) = us" if "take (length pts) ps = pts" for ps
        using that us(1) by (simp add: slice_def) (metis append_eq_conv_conj drop_take add_diff_cancel_left' length_append)
      then have "compiled ix (ns @ [n]) (?st pts)"
        using us KPhrase by (intro compiled_snoc[OF c, of _ "BPhrase (?from, length pts)" us]) (auto simp: binds_terms_def)
      then show ?thesis by (intro settlesI[OF runs_ret])
    qed
    from settles_charge[OF settles_bind[where f = "\<lambda>pts w. Inr (?st pts, w)", OF compile_terms_settles[OF ix, of "cp_phrase_terms st" 0 ts] this], of 1] KPhrase
    show ?thesis by (simp add: compile_node_def Let_def case_prod_unfold del: One_nat_def)
  next
    case (KNot x)
    then show ?thesis using settles_charge[OF leaf[of "BNot x"], of 1] by (simp add: compile_node_def Let_def del: One_nat_def)
  next
    case (KAnd l r)
    then show ?thesis using settles_charge[OF leaf[of "BAnd l r"], of 1] by (simp add: compile_node_def Let_def del: One_nat_def)
  next
    case (KOr l r)
    then show ?thesis using settles_charge[OF leaf[of "BOr l r"], of 1] by (simp add: compile_node_def Let_def del: One_nat_def)
  qed
qed

lemma compile_nodes_settles:
  assumes ix: "index_ok ix"
  shows "compiled ix ms st \<Longrightarrow>
    settles (\<lambda>w. unwork (try_fold (compile_node ix limits) (st\<lparr>cp_work := w\<rparr>) ns)) (compiled ix (ms @ ns))"
proof (induction ns arbitrary: ms st)
  case Nil
  then show ?case by (intro settlesI[of _ "st\<lparr>cp_work := 0\<rparr>"]) (simp_all add: runs_ret compiled_def)
next
  case (Cons n ns)
  let ?f = "\<lambda>st w. unwork (try_fold (compile_node ix limits) (st\<lparr>cp_work := w\<rparr>) ns)"
  have "settles (?f v) (compiled ix (ms @ n # ns))" if "compiled ix (ms @ [n]) v" for v
    using Cons.IH[OF that] by simp
  from settles_bind[where f = ?f, OF compile_node_settles[OF ix Cons.prems, of limits n] this] show ?case
    by (simp add: unwork_def and_then_assoc)
qed

text \<open>The buffers a search allocates before and after the compilation.\<close>

definition search_prepare :: "env \<Rightarrow> query \<Rightarrow> search_limits \<Rightarrow> memory_budget result" where
  "search_prepare env q limits =
     and_then (vector (env_alloc env) (env_size env ''Bound'') (query_node_count q) (budget_new (sl_memory_bytes limits)))
       (\<lambda>(_ :: bound vec, budget).
     and_then (try_fold phrase_total 0 (q_nodes q)) (\<lambda>phrase_count.
     and_then (vector (env_alloc env) (env_size env ''PhraseTerm'') phrase_count budget) (\<lambda>(_ :: phrase_term vec, budget). Inr budget)))"

definition search_start :: "env \<Rightarrow> reference_index \<Rightarrow> query \<Rightarrow> memory_budget \<Rightarrow> compile \<Rightarrow> search result" where
  "search_start env ix q budget st =
     and_then (vector (env_alloc env) 1 (query_node_count q) budget) (\<lambda>(_ :: bool vec, budget).
     and_then (vector (env_alloc env) (env_size env ''Range'') (cp_longest st) budget) (\<lambda>(_ :: range vec, budget).
     Inr \<lparr>se_index = ix, se_nodes = cp_nodes st, se_phrase_terms = cp_phrase_terms st,
          se_values = replicate (query_node_count q) False, se_ranges = replicate (cp_longest st) (0, 0),
          se_root = q_root q, se_next_document = 0, se_failed = False, se_budget = budget, se_work = 0\<rparr>))"

definition compile_empty :: compile where
  "compile_empty = \<lparr>cp_nodes = [], cp_phrase_terms = [], cp_longest = 0, cp_expanded = 0, cp_work = 0\<rparr>"

lemma vector_fst: "vector alloc sz k b = Inr a \<Longrightarrow> elems (fst a) = []"
  using vector_elems[of alloc sz k b "fst a" "snd a"] by simp

lemma index_search_split:
  "index_search env ix q limits = and_then (search_prepare env q limits) (\<lambda>budget.
     and_then (unwork (try_fold (compile_node ix limits) (compile_empty\<lparr>cp_work := sl_work_steps limits\<rparr>) (q_nodes q))) (\<lambda>(st, w).
     and_then (search_start env ix q budget st) (\<lambda>s. Inr (s\<lparr>se_work := w\<rparr>))))"
proof -
  show ?thesis
    unfolding index_search_def search_prepare_def search_start_def unwork_def compile_empty_def
    by (simp add: and_then_assoc case_prod_unfold del: One_nat_def)
      (rule and_then_cong[OF refl], rule and_then_cong[OF refl], rule and_then_cong[OF refl],
        drule vector_fst, drule vector_fst, simp)
qed

lemma index_search_ok:
  assumes ix: "index_ok ix" and q: "lays_out q e" "phrases_ok e"
  shows "(\<forall>w s. index_search env ix q (limits\<lparr>sl_work_steps := w\<rparr>) \<noteq> Inr s) \<or>
    (\<exists>c s. search_ok s e \<and> se_index s = ix \<and> \<not> se_failed s \<and> se_next_document s = 0 \<and>
       (\<forall>w s'. index_search env ix q (limits\<lparr>sl_work_steps := w\<rparr>) = Inr s' \<longrightarrow> c \<le> w \<and> s' = s\<lparr>se_work := w - c\<rparr>))"
proof -
  let ?g = "\<lambda>w. unwork (try_fold (compile_node ix limits) (compile_empty\<lparr>cp_work := w\<rparr>) (q_nodes q))"
  have "compiled ix [] compile_empty" by (simp add: compiled_def compile_empty_def)
  from compile_nodes_settles[OF ix this, of limits "q_nodes q"] have g: "settles ?g (compiled ix (q_nodes q))" by simp
  have cn: "compile_node ix (limits\<lparr>sl_work_steps := w\<rparr>) = compile_node ix limits" for w
  proof -
    have x: "sl_expanded_terms (limits\<lparr>sl_work_steps := w\<rparr>) = sl_expanded_terms limits" by simp
    show ?thesis by (intro ext) (simp only: compile_node_def x)
  qed
  have eq: "index_search env ix q (limits\<lparr>sl_work_steps := w\<rparr>) = and_then (search_prepare env q limits) (\<lambda>budget.
     and_then (?g w) (\<lambda>(st, w). and_then (search_start env ix q budget st) (\<lambda>s. Inr (s\<lparr>se_work := w\<rparr>))))" for w
    unfolding index_search_split cn by (simp add: search_prepare_def)
  consider (fail) "\<forall>w s. index_search env ix q (limits\<lparr>sl_work_steps := w\<rparr>) \<noteq> Inr s"
    | (ok) budget st c s where "search_prepare env q limits = Inr budget" "?g = costs c st" "compiled ix (q_nodes q) st"
        "search_start env ix q budget st = Inr s"
  proof (cases "\<exists>w s. index_search env ix q (limits\<lparr>sl_work_steps := w\<rparr>) = Inr s")
    case True
    then obtain w s budget st w' s0 where "search_prepare env q limits = Inr budget" "?g w = Inr (st, w')"
      "search_start env ix q budget st = Inr s0" unfolding eq by (auto simp: res_simps)
    then show thesis using settles_Inr[OF g, of w st w'] ok by (auto simp: runs_def)
  qed (use fail in blast)
  then show ?thesis
  proof cases
    case ok
    have s: "se_index s = ix" "\<not> se_failed s" "se_next_document s = 0" "se_nodes s = cp_nodes st" "se_phrase_terms s = cp_phrase_terms st"
      "length (se_values s) = length (q_nodes q)" "length (se_ranges s) = cp_longest st" "se_root s = q_root q"
      using ok(4) by (auto simp: search_start_def res_simps query_node_count_def simp del: One_nat_def)
    have "search_ok s e" using ix q ok(3) by (simp add: search_ok_def s lays_out_def compiled_def)
    moreover have "c \<le> w \<and> s' = s\<lparr>se_work := w - c\<rparr>" if "index_search env ix q (limits\<lparr>sl_work_steps := w\<rparr>) = Inr s'" for w s'
      using that unfolding eq ok(1) fun_cong[OF ok(2)] by (auto simp: res_simps costs_def ok(4) split: if_splits)
    ultimately show ?thesis using s(1-3) by blast
  qed blast
qed

lemma count_loop_drain:
  "count_loop s n = (case search_drain s of (cs, None) \<Rightarrow> Inr (n + of_nat (length cs)) | (cs, Some error) \<Rightarrow> Inl error)"
proof (induction s n rule: count_loop.induct)
  case (1 s n)
  show ?case
  proof (cases "search_next s")
    case (Pair r s')
    show ?thesis
    proof (cases r)
      case None
      then show ?thesis using Pair by (simp add: count_loop.simps[of s] search_drain.simps[of s])
    next
      case (Some x)
      show ?thesis
      proof (cases x)
        case (Inl e)
        then show ?thesis using Pair Some by (simp add: count_loop.simps[of s] search_drain.simps[of s])
      next
        case (Inr c)
        have "count_loop s' (n + 1) = (case search_drain s' of (cs, None) \<Rightarrow> Inr (n + 1 + of_nat (length cs)) | (cs, Some error) \<Rightarrow> Inl error)"
          by (rule 1[OF Pair[symmetric] Some Inr])
        then show ?thesis using Pair Some Inr
          by (simp add: count_loop.simps[of s] search_drain.simps[of s] case_prod_unfold add.assoc split: option.splits prod.splits)
      qed
    qed
  qed
qed

lemma answers_documents:
  "map cd_document (answers ix e 0) = map ix_identity (filter (\<lambda>d. holds (terms_of (ix_text d)) e) (ri_documents ix))"
proof -
  let ?ds = "ri_documents ix"
  have "filter (\<lambda>d. holds (terms_of (ix_text d)) e) ?ds =
      map (\<lambda>i. ?ds ! i) (filter (\<lambda>i. holds (doc_terms ix i) e) [0..<length ?ds])"
    using filter_map[of "\<lambda>d. holds (terms_of (ix_text d)) e" "(!) ?ds" "[0..<length ?ds]"]
    by (simp add: map_nth doc_terms_def comp_def)
  then show ?thesis by (simp add: answers_def comp_def)
qed

text \<open>A search that has been started, and what it yields with the work it has.\<close>

lemma index_search_drains:
  assumes "index_ok ix" "lays_out q e" "phrases_ok e"
  shows "\<exists>steps. \<forall>w s. index_search env ix q (limits\<lparr>sl_work_steps := w\<rparr>) = Inr s \<longrightarrow>
    (if steps \<le> w then search_drain s = (answers ix e 0, None)
     else \<exists>cs rest. search_drain s = (cs, Some (Limit ''search work'')) \<and> answers ix e 0 = cs @ rest)"
proof (cases "\<forall>w s. index_search env ix q (limits\<lparr>sl_work_steps := w\<rparr>) \<noteq> Inr s")
  case False
  then obtain c s where s: "search_ok s e" "se_index s = ix" "\<not> se_failed s" "se_next_document s = 0"
    and c: "\<And>w s'. index_search env ix q (limits\<lparr>sl_work_steps := w\<rparr>) = Inr s' \<Longrightarrow> c \<le> w \<and> s' = s\<lparr>se_work := w - c\<rparr>"
    using index_search_ok[OF assms, of env limits] by blast
  obtain c' where d: "drains s e c'" using search_drain_costs[OF s(1,3)] by blast
  have "if c + c' \<le> w then search_drain s' = (answers ix e 0, None)
     else \<exists>cs rest. search_drain s' = (cs, Some (Limit ''search work'')) \<and> answers ix e 0 = cs @ rest"
    if i: "index_search env ix q (limits\<lparr>sl_work_steps := w\<rparr>) = Inr s'" for w s'
  proof -
    have "c + c' \<le> w \<longleftrightarrow> c' \<le> w - c" using c[OF i] by auto
    then show ?thesis using d[unfolded drains_def, THEN spec, of "w - c"] c[OF i] s(2,4) by (auto split: if_splits)
  qed
  then show ?thesis by blast
qed blast

lemma analyzed_documents_small:
  assumes "alloc_ok (env_alloc env)" "words_ok env" "\<forall>d \<in> set documents. \<exists>text al. analyze env text al = Inr (ix_text d)"
  shows "\<forall>d \<in> set documents. length (terms_of (ix_text d)) < 2 ^ 32"
proof
  fix d assume "d \<in> set documents"
  then obtain x al where "analyze env x al = Inr (ix_text d)" using assms(3) by blast
  from analyze_len[OF this assms(1,2)] unat_u32_lt[of "analyzed_len (ix_text d)"]
  show "length (terms_of (ix_text d)) < 2 ^ 32" by (simp del: length_analyzed_tokens)
qed

lemma built_index_ok:
  assumes "index_build env relation documents il = Inr ix" "alloc_ok (env_alloc env)" "words_ok env"
    and "\<forall>d \<in> set documents. \<exists>text al. analyze env text al = Inr (ix_text d)"
  shows "index_ok ix" "ri_documents ix = sort_key document_root documents"
proof -
  have "\<forall>d \<in> set documents. length (terms_of (ix_text d)) < 2 ^ 32" by (rule analyzed_documents_small[OF assms(2-4)])
  then show "index_ok ix" "ri_documents ix = sort_key document_root documents" using index_build_ok[OF assms(1)] by auto
qed

lemma parsed_expr:
  assumes "query_parse env input limits = Inr q" "alloc_ok (env_alloc env)" "words_ok env"
  obtains ts e where "query_sentence env input ts e" "lays_out q e" "phrases_ok e"
  using query_parse_lays_out[OF assms] by (metis expr_ok_def)

text \<open>What the checks of \<open>build\<close> establish.\<close>

lemma check_documents:
  "try_fold (check_document relation limits) acc ds = Inr n \<Longrightarrow>
    n = acc + sum_list (map (\<lambda>d. unat (document_length d)) ds) \<and> (ds \<noteq> [] \<longrightarrow> n \<le> il_tokens limits \<and> n \<le> usize_max) \<and>
    (\<forall>d \<in> set ds. dr_relation (ix_identity d) = relation \<and>
       (\<forall>t \<in> set (terms_of (ix_text d)). length t \<le> il_term_bytes limits))"
proof (induction ds arbitrary: acc)
  case (Cons d ds)
  from Cons.prems obtain m where m: "check_document relation limits acc d = Inr m"
    "try_fold (check_document relation limits) m ds = Inr n" by (auto simp: res_simps)
  from m(1) have d: "dr_relation (ix_identity d) = relation" "m = acc + unat (document_length d)" "m \<le> il_tokens limits" "m \<le> usize_max"
    "\<forall>token \<in> set (analyzed_tokens (ix_text d)). length (tk_term token) \<le> il_term_bytes limits"
    by (auto simp: check_document_def res_simps checked_add_def list_ex_iff not_less split: if_splits)
  have "\<forall>t \<in> set (terms_of (ix_text d)). length t \<le> il_term_bytes limits"
    using d(5) unfolding analyzed_tokens_terms[symmetric] by simp
  then show ?case using Cons.IH[OF m(2)] d by (cases ds) auto
qed auto

lemma index_build_checks:
  assumes b: "index_build env relation documents limits = Inr ix"
  shows "unat (ri_total_length ix) = sum_list (map (\<lambda>d. unat (document_length d)) documents)"
    "\<forall>d \<in> set documents. dr_relation (ix_identity d) = relation \<and>
       (\<forall>t \<in> set (terms_of (ix_text d)). length t \<le> il_term_bytes limits)"
proof -
  from b obtain n where n: "try_fold (check_document relation limits) 0 documents = Inr n" "ri_total_length ix = of_nat n"
    by (auto simp: index_build_def Let_def res_simps split: if_splits)
  note c = check_documents[OF n(1)]
  have "n < 2 ^ 64" using c by (cases documents) (auto simp: usize_max_def)
  then show "unat (ri_total_length ix) = sum_list (map (\<lambda>d. unat (document_length d)) documents)"
    using c n(2) by (simp add: unat_of_nat take_bit_nat_eq_self)
  show "\<forall>d \<in> set documents. dr_relation (ix_identity d) = relation \<and>
       (\<forall>t \<in> set (terms_of (ix_text d)). length t \<le> il_term_bytes limits)" using c by blast
qed

section \<open>A small index\<close>

text \<open>Two documents, given out of root order, for the witnesses below.\<close>

definition sample_relation :: relation_generation where
  "sample_relation = \<lparr>rg_database = 1, rg_tablespace = 1, rg_relfilenumber = 1, rg_generation = 1\<rparr>"

definition sample_document :: "u32 \<Rightarrow> analyzed \<Rightarrow> document" where
  "sample_document block a = \<lparr>ix_identity = \<lparr>dr_relation = sample_relation, dr_segment = 1, dr_incarnation = 1,
     dr_root = RootTid block 1\<rparr>, ix_text = a\<rparr>"

definition sample_short :: analyzed where
  "sample_short = \<lparr>an_normalized = [0x62, 0x20, 0x61],
     an_tokens = [\<lparr>tr_start = 0, tr_end = 1\<rparr>, \<lparr>tr_start = 2, tr_end = 3\<rparr>], an_retained_bytes = 19, an_peak_bytes = 19\<rparr>"

definition sample_long :: analyzed where
  "sample_long = \<lparr>an_normalized = [0x61, 0x20, 0x62, 0x20, 0x61],
     an_tokens = [\<lparr>tr_start = 0, tr_end = 1\<rparr>, \<lparr>tr_start = 2, tr_end = 3\<rparr>, \<lparr>tr_start = 4, tr_end = 5\<rparr>],
     an_retained_bytes = 37, an_peak_bytes = 37\<rparr>"

definition sample_documents :: "document list" where
  "sample_documents = [sample_document 7 sample_short, sample_document 3 sample_long]"

definition sample_index :: reference_index where
  "sample_index = \<lparr>ri_relation = sample_relation,
     ri_documents = [sample_document 3 sample_long, sample_document 7 sample_short],
     ri_postings =
       [\<lparr>po_term = [0x61], po_document = 0, po_position = 0\<rparr>, \<lparr>po_term = [0x61], po_document = 0, po_position = 2\<rparr>,
        \<lparr>po_term = [0x61], po_document = 1, po_position = 1\<rparr>, \<lparr>po_term = [0x62], po_document = 0, po_position = 1\<rparr>,
        \<lparr>po_term = [0x62], po_document = 1, po_position = 0\<rparr>],
     ri_terms = [\<lparr>ie_text = [0x61], ie_postings = (0, 3), ie_frequency = 2\<rparr>,
       \<lparr>ie_text = [0x62], ie_postings = (3, 5), ie_frequency = 2\<rparr>],
     ri_total_length = 5, ri_retained_bytes = 72\<rparr>"

lemma sample_index_built: "index_build plain_env sample_relation sample_documents index_limits_default = Inr sample_index"
  by code_simp

lemma sample_documents_analyzed: "\<forall>d \<in> set sample_documents. \<exists>text al. analyze plain_env text al = Inr (ix_text d)"
proof -
  have "analyze plain_env [0x62, 0x20, 0x61] analysis_limits_default = Inr sample_short" by code_simp
  moreover have "analyze plain_env [0x61, 0x20, 0x62, 0x20, 0x61] analysis_limits_default = Inr sample_long" by code_simp
  ultimately show ?thesis unfolding sample_documents_def sample_document_def by auto
qed

lemmas sample_ok = sample_index_built plain_env_ok(1,2) sample_documents_analyzed

section \<open>Properties\<close>

text \<open>C8: a search of the reference index is exact: on an index built over analysed documents and a
  parsed query, the iterator yields the documents whose terms satisfy the query's expression, each
  once, in the order of their roots, either all of them, or a prefix of them followed by the
  search-work error; and for every choice of the other limits there is a number of work steps from
  which on no started search runs out.\<close>

theorem index_search_exact:
  assumes "index_build env relation documents il = Inr ix" "query_parse env input ql = Inr q"
    and "alloc_ok (env_alloc env)" "words_ok env"
    and "\<forall>d \<in> set documents. \<exists>text al. analyze env text al = Inr (ix_text d)"
  shows "\<exists>ts e. query_sentence env input ts e \<and>
    (\<forall>limits. (\<forall>s. index_search env ix q limits = Inr s \<longrightarrow>
        (\<exists>cs rest. map cd_document cs @ rest = map ix_identity (filter (\<lambda>d. holds (map tk_term (analyzed_tokens (ix_text d))) e) (sort_key document_root documents)) \<and>
           (search_drain s = (cs, None) \<and> rest = [] \<or> search_drain s = (cs, Some (Limit ''search work''))))) \<and>
      (\<exists>steps. \<forall>w \<ge> steps. \<forall>s. index_search env ix q (limits\<lparr>sl_work_steps := w\<rparr>) = Inr s \<longrightarrow> snd (search_drain s) = None))"
proof -
  obtain ts e where e: "query_sentence env input ts e" "lays_out q e" "phrases_ok e"
    by (rule parsed_expr[OF assms(2-4)])
  note ix = built_index_ok[OF assms(1,3-5)]
  let ?all = "map ix_identity (filter (\<lambda>d. holds (terms_of (ix_text d)) e) (sort_key document_root documents))"
  have all: "map cd_document (answers ix e 0) = ?all" by (simp add: answers_documents ix(2))
  have "(\<forall>s. index_search env ix q limits = Inr s \<longrightarrow>
        (\<exists>cs rest. map cd_document cs @ rest = ?all \<and>
           (search_drain s = (cs, None) \<and> rest = [] \<or> search_drain s = (cs, Some (Limit ''search work''))))) \<and>
      (\<exists>steps. \<forall>w \<ge> steps. \<forall>s. index_search env ix q (limits\<lparr>sl_work_steps := w\<rparr>) = Inr s \<longrightarrow> snd (search_drain s) = None)"
    for limits
  proof -
    obtain steps where d: "\<And>w s. index_search env ix q (limits\<lparr>sl_work_steps := w\<rparr>) = Inr s \<Longrightarrow>
      (if steps \<le> w then search_drain s = (answers ix e 0, None)
       else \<exists>cs rest. search_drain s = (cs, Some (Limit ''search work'')) \<and> answers ix e 0 = cs @ rest)"
      using index_search_drains[OF ix(1) e(2,3), of env limits] by blast
    have l: "limits\<lparr>sl_work_steps := sl_work_steps limits\<rparr> = limits" by simp
    have "\<exists>cs rest. map cd_document cs @ rest = ?all \<and>
        (search_drain s = (cs, None) \<and> rest = [] \<or> search_drain s = (cs, Some (Limit ''search work'')))"
      if run: "index_search env ix q limits = Inr s" for s
    proof (cases "steps \<le> sl_work_steps limits")
      case True
      then have "search_drain s = (answers ix e 0, None)" using d[of "sl_work_steps limits" s, unfolded l, OF run] by simp
      then show ?thesis using all by auto
    next
      case False
      then obtain cs rest where "search_drain s = (cs, Some (Limit ''search work''))" "answers ix e 0 = cs @ rest"
        using d[of "sl_work_steps limits" s, unfolded l, OF run] by auto
      then show ?thesis using all by (intro exI[of _ cs] exI[of _ "map cd_document rest"]) (auto simp flip: map_append)
    qed
    moreover have "snd (search_drain s) = None" if "steps \<le> w" "index_search env ix q (limits\<lparr>sl_work_steps := w\<rparr>) = Inr s" for w s
      using d[OF that(2)] that(1) by simp
    ultimately show ?thesis by blast
  qed
  then show ?thesis using e(1) unfolding analyzed_tokens_terms by blast
qed

theorem index_search_exact_witness:
  "\<exists>q s ts e. query_parse plain_env [0x22, 0x62, 0x20, 0x61, 0x22] query_limits_default = Inr q \<and>
     query_sentence plain_env [0x22, 0x62, 0x20, 0x61, 0x22] ts e \<and>
     index_search plain_env sample_index q search_limits_default = Inr s \<and>
     map (\<lambda>c. tid_block (dr_root (cd_document c))) (fst (search_drain s)) = [3, 7] \<and>
     map ix_identity (filter (\<lambda>d. holds (map tk_term (analyzed_tokens (ix_text d))) e) (sort_key document_root sample_documents)) =
       map cd_document (fst (search_drain s))"
proof -
  let ?i = "[0x22, 0x62, 0x20, 0x61, 0x22] :: str"
  have "(case query_parse plain_env ?i query_limits_default of Inl _ \<Rightarrow> False | Inr q \<Rightarrow>
      (case index_search plain_env sample_index q search_limits_default of Inl _ \<Rightarrow> False
       | Inr s \<Rightarrow> map (\<lambda>c. tid_block (dr_root (cd_document c))) (fst (search_drain s)) = [3, 7] \<and> snd (search_drain s) = None))"
    by code_simp
  then obtain q s where q: "query_parse plain_env ?i query_limits_default = Inr q"
    "index_search plain_env sample_index q search_limits_default = Inr s"
    "map (\<lambda>c. tid_block (dr_root (cd_document c))) (fst (search_drain s)) = [3, 7]" "snd (search_drain s) = None"
    by (auto split: sum.splits)
  from index_search_exact[OF sample_ok(1) q(1) sample_ok(2-4)] q(2-4) show ?thesis using q(1) by fastforce
qed

text \<open>C14: counting agrees with searching: candidate_count is the number of documents of which the
  query holds (it never wraps), or an error; and it fails with the search-work error only when the
  iterator of the same search does.\<close>

theorem candidate_count_exact:
  assumes "index_build env relation documents il = Inr ix" "query_parse env input ql = Inr q"
    and "alloc_ok (env_alloc env)" "words_ok env"
    and "\<forall>d \<in> set documents. \<exists>text al. analyze env text al = Inr (ix_text d)"
    and "index_search env ix q limits = Inr s"
  shows "\<exists>ts e. query_sentence env input ts e \<and>
    (case search_drain s of
       (_, None) \<Rightarrow> \<exists>n. candidate_count env ix q limits = Inr n \<and>
         unat n = length (filter (\<lambda>d. holds (map tk_term (analyzed_tokens (ix_text d))) e) documents)
     | (_, Some error) \<Rightarrow> candidate_count env ix q limits = Inl error)"
proof -
  obtain ts e where e: "query_sentence env input ts e" "lays_out q e" "phrases_ok e"
    by (rule parsed_expr[OF assms(2-4)])
  note ix = built_index_ok[OF assms(1,3-5)]
  have l: "limits\<lparr>sl_work_steps := sl_work_steps limits\<rparr> = limits" by simp
  from index_search_drains[OF ix(1) e(2,3), of env limits] obtain steps where
    d: "if steps \<le> sl_work_steps limits then search_drain s = (answers ix e 0, None)
      else \<exists>cs rest. search_drain s = (cs, Some (Limit ''search work'')) \<and> answers ix e 0 = cs @ rest"
    using assms(6) l by metis
  have c: "candidate_count env ix q limits = (case search_drain s of (cs, None) \<Rightarrow> Inr (of_nat (length cs)) | (cs, Some error) \<Rightarrow> Inl error)"
    by (simp add: candidate_count_def assms(6) count_loop_drain)
  have n: "length (answers ix e 0) = length (filter (\<lambda>d. holds (terms_of (ix_text d)) e) documents)"
    using arg_cong[OF answers_documents[of ix e], of length] unfolding ix(2)
    by (simp add: filter_sort)
  have "length (answers ix e 0) \<le> length (ri_documents ix)"
    unfolding answers_def by (metis length_filter_le length_map diff_zero length_upt)
  then have "length (answers ix e 0) < 2 ^ 64" using index_okD(1)[OF ix(1)] by simp
  then have u: "unat (of_nat (length (answers ix e 0)) :: u64) = length (answers ix e 0)"
    by (simp add: unat_of_nat take_bit_nat_eq_self)
  have "case search_drain s of
       (_, None) \<Rightarrow> \<exists>n. candidate_count env ix q limits = Inr n \<and>
         unat n = length (filter (\<lambda>d. holds (terms_of (ix_text d)) e) documents)
     | (_, Some error) \<Rightarrow> candidate_count env ix q limits = Inl error"
    using d u n unfolding c by (auto split: if_splits)
  then show ?thesis using e(1) unfolding analyzed_tokens_terms by (intro exI[of _ ts] exI[of _ e] conjI)
qed

theorem candidate_count_exact_witness:
  "\<exists>q ts e n. query_parse plain_env [0x62] query_limits_default = Inr q \<and> query_sentence plain_env [0x62] ts e \<and>
     candidate_count plain_env sample_index q search_limits_default = Inr n \<and>
     unat n = length (filter (\<lambda>d. holds (map tk_term (analyzed_tokens (ix_text d))) e) sample_documents)"
proof -
  have "(case query_parse plain_env [0x62] query_limits_default of Inl _ \<Rightarrow> False | Inr q \<Rightarrow>
      (case index_search plain_env sample_index q search_limits_default of Inl _ \<Rightarrow> False | Inr s \<Rightarrow> snd (search_drain s) = None))"
    by code_simp
  then obtain q s where q: "query_parse plain_env [0x62] query_limits_default = Inr q"
    "index_search plain_env sample_index q search_limits_default = Inr s" "snd (search_drain s) = None"
    by (auto split: sum.splits)
  from candidate_count_exact[OF sample_ok(1) q(1) sample_ok(2-4) q(2)] q(3) show ?thesis
    using q(1) by (cases "search_drain s") auto
qed

text \<open>C15: the dictionary counts documents: the frequency of a term in a built index is the number of
  documents that contain it.\<close>

theorem document_frequency_exact:
  assumes "index_build env relation documents il = Inr ix" "alloc_ok (env_alloc env)" "words_ok env"
    and "\<forall>d \<in> set documents. \<exists>text al. analyze env text al = Inr (ix_text d)"
  shows "unat (document_frequency ix t) = length (filter (\<lambda>d. t \<in> set (map tk_term (analyzed_tokens (ix_text d)))) documents)"
proof -
  note ix = built_index_ok[OF assms]
  let ?ds = "ri_documents ix" and ?p = "\<lambda>d. t \<in> set (terms_of (ix_text d))"
  have "card {d. d < length ?ds \<and> t \<in> set (doc_terms ix d)} = length (filter ?p ?ds)"
    unfolding length_filter_conv_card doc_terms_def ..
  moreover have "length (filter ?p ?ds) = length (filter ?p documents)"
    unfolding ix(2) by (simp add: filter_sort)
  moreover have "length (filter ?p ?ds) < 2 ^ 64"
    by (rule le_less_trans[OF length_filter_le]) (use index_okD(1)[OF ix(1)] in simp)
  ultimately show ?thesis unfolding document_frequency_card[OF ix(1)] analyzed_tokens_terms
    by (simp add: unat_of_nat take_bit_nat_eq_self)
qed

theorem document_frequency_exact_witness:
  "unat (document_frequency sample_index [0x61]) = 2 \<and>
     length (filter (\<lambda>d. [0x61] \<in> set (map tk_term (analyzed_tokens (ix_text d)))) sample_documents) = 2"
proof -
  have "document_frequency sample_index [0x61] = 2" by code_simp
  then show ?thesis using document_frequency_exact[OF sample_ok, of "[0x61]"] by simp
qed

text \<open>C13: what building guarantees: a built index lists the given documents in strictly ascending
  root order (so a duplicate root is refused), all of the index's relation generation; its total
  length is the number of tokens of all documents; the postings are sorted by term, document and
  position and are exactly the token occurrences; and the dictionary is strictly ascending and its
  entry for a term delimits exactly the postings of that term.\<close>

theorem index_build_sound:
  assumes "index_build env relation documents il = Inr ix" "alloc_ok (env_alloc env)" "words_ok env"
    and "\<forall>d \<in> set documents. \<exists>text al. analyze env text al = Inr (ix_text d)"
  shows "sorted_wrt (<) (map document_root (ri_documents ix)) \<and> set (ri_documents ix) = set documents \<and>
    (\<forall>d \<in> set documents. dr_relation (ix_identity d) = relation) \<and>
    unat (ri_total_length ix) = sum_list (map (\<lambda>d. length (analyzed_tokens (ix_text d))) documents) \<and>
    sorted (map posting_key (ri_postings ix)) \<and>
    (\<forall>p. p \<in> set (ri_postings ix) \<longleftrightarrow> (\<exists>d < length (ri_documents ix). \<exists>token \<in> set (analyzed_tokens (ix_text (ri_documents ix ! d))).
       p = \<lparr>po_term = tk_term token, po_document = of_nat d, po_position = tk_position token\<rparr>)) \<and>
    sorted_wrt (<) (map ie_text (ri_terms ix)) \<and> ie_text ` set (ri_terms ix) = po_term ` set (ri_postings ix) \<and>
    (\<forall>entry \<in> set (ri_terms ix). slice (ri_postings ix) (ie_postings entry) =
       filter (\<lambda>p. po_term p = ie_text entry) (ri_postings ix))"
proof (intro conjI)
  note ix = built_index_ok[OF assms] and ch = index_build_checks[OF assms(1)]
  have small: "\<forall>d \<in> set documents. unat (analyzed_len (ix_text d)) = length (terms_of (ix_text d))"
    using assms(2-4) analyze_len by blast
  note ib = index_build_ok[OF assms(1) analyzed_documents_small[OF assms(2-4)]]
  from ib(3) show "sorted_wrt (<) (map document_root (ri_documents ix))"
    unfolding ix(2) strict_sorted_iff by (simp add: distinct_map)
  show "set (ri_documents ix) = set documents" unfolding ix(2) by simp
  show "\<forall>d \<in> set documents. dr_relation (ix_identity d) = relation" using ch(2) by blast
  show "unat (ri_total_length ix) = sum_list (map (\<lambda>d. length (analyzed_tokens (ix_text d))) documents)"
    unfolding ch(1) by (intro arg_cong[of _ _ sum_list] map_cong refl) (use small in \<open>simp add: document_length_def\<close>)
  show "sorted (map posting_key (ri_postings ix))" "sorted_wrt (<) (map ie_text (ri_terms ix))"
    "ie_text ` set (ri_terms ix) = po_term ` set (ri_postings ix)" using index_okD(3,5,6)[OF ix(1)] by auto
  show "\<forall>entry \<in> set (ri_terms ix). slice (ri_postings ix) (ie_postings entry) =
      filter (\<lambda>p. po_term p = ie_text entry) (ri_postings ix)"
    using index_okD(7)[OF ix(1)] by (simp add: entry_ok_def)
  show "\<forall>p. p \<in> set (ri_postings ix) \<longleftrightarrow> (\<exists>d < length (ri_documents ix). \<exists>token \<in> set (analyzed_tokens (ix_text (ri_documents ix ! d))).
       p = \<lparr>po_term = tk_term token, po_document = of_nat d, po_position = tk_position token\<rparr>)"
    unfolding ib(7) document_tokens_all by auto
qed

theorem index_build_sound_witness:
  "map (\<lambda>d. tid_block (document_root d)) (ri_documents sample_index) = [3, 7] \<and>
     map ie_text (ri_terms sample_index) = [[0x61], [0x62]] \<and>
     sorted_wrt (<) (map ie_text (ri_terms sample_index)) \<and> sorted (map posting_key (ri_postings sample_index))"
proof -
  have "map (\<lambda>d. tid_block (document_root d)) (ri_documents sample_index) = [3, 7]"
    "map ie_text (ri_terms sample_index) = [[0x61], [0x62]]" by code_simp+
  then show ?thesis using index_build_sound[OF sample_ok] by blast
qed

end
