(* ===== verification/GroupKeys.thy ===== *)
theory GroupKeys
  imports Offsets
begin

text \<open>
  Identity and headers of the grouped records (crates/pin-core/src/grouped/mod.rs): a group is 256
  consecutive heap pages of one segment; every record of it opens with the same 72-byte header.
\<close>

section \<open>Definitions\<close>

definition GROUP_VERSION :: u16 where
  "GROUP_VERSION = 1"

definition GROUP_PAGES :: nat where
  "GROUP_PAGES = 256"

definition HEADER_BYTES :: nat where
  "HEADER_BYTES = 72"

text \<open>\<open>b"PNG9"\<close>.\<close>

definition GROUP_MAGIC :: bytes where
  "GROUP_MAGIC = [0x50, 0x4E, 0x47, 0x39]"

definition MEMBERS :: u8 where
  "MEMBERS = 3"

record group_key =
  gk_relation :: generation
  gk_segment :: segment_id
  gk_base :: u32
  gk_layout :: heap_layout

definition group_key_new :: "generation \<Rightarrow> segment_id \<Rightarrow> u32 \<Rightarrow> heap_layout \<Rightarrow> group_key result" where
  "group_key_new relation segment base layout =
     (if base AND 255 \<noteq> 0 then Inl InvalidParameters
      else Inr \<lparr>gk_relation = relation, gk_segment = segment, gk_base = base, gk_layout = layout\<rparr>)"

definition group_block :: "group_key \<Rightarrow> u8 \<Rightarrow> u32 result" where
  "group_block self page =
     (let block = gk_base self OR ucast page in
      if block = 0xFFFFFFFF then Inl InvalidState else Inr block)"

record header =
  hd_key :: group_key
  hd_kind :: u8
  hd_count :: u32
  hd_mask :: page_mask

definition page_count :: "page_mask \<Rightarrow> u16" where
  "page_count m = sum_list (map (\<lambda>word. of_nat (count_ones word)) m)"

definition mask_contains :: "page_mask \<Rightarrow> u8 \<Rightarrow> bool" where
  "mask_contains m page \<longleftrightarrow> m ! (unat page div 64) AND push_bit (unat page mod 64) 1 \<noteq> 0"

definition mask_insert :: "page_mask \<Rightarrow> u8 \<Rightarrow> page_mask" where
  "mask_insert m page = m[unat page div 64 := m ! (unat page div 64) OR push_bit (unat page mod 64) 1]"

definition header_read :: "bytes \<Rightarrow> header result" where
  "header_read bytes =
     and_then (from_codec (reader_take (reader_new bytes) 4)) (\<lambda>(magic, reader).
     if magic \<noteq> GROUP_MAGIC then Inl InvalidState else
     and_then (from_codec (reader_u16 reader)) (\<lambda>(version, reader).
     if version \<noteq> GROUP_VERSION then Inl InvalidState else
     and_then (from_codec (reader_u8 reader)) (\<lambda>(kind, reader).
     if \<not> (1 \<le> kind \<and> kind \<le> 3) then Inl InvalidState else
     and_then (from_codec (reader_u8 reader)) (\<lambda>(flags, reader).
     if flags \<noteq> 0 then Inl InvalidState else
     and_then (from_codec (reader_u32 reader)) (\<lambda>(len, reader).
     if unat len \<noteq> length bytes then Inl InvalidState else
     and_then (from_codec (reader_u32 reader)) (\<lambda>(base, reader).
     and_then (from_codec (reader_u64 reader)) (\<lambda>(v, reader).
     and_then (map_err (\<lambda>_. InvalidState) (identifier_new v)) (\<lambda>relation.
     and_then (from_codec (reader_u64 reader)) (\<lambda>(v, reader).
     and_then (map_err (\<lambda>_. InvalidState) (identifier_new v)) (\<lambda>segment.
     and_then (from_codec (reader_u16 reader)) (\<lambda>(v, reader).
     and_then (map_err (\<lambda>_. InvalidState) (heap_layout_new v)) (\<lambda>layout.
     and_then (from_codec (reader_u16 reader)) (\<lambda>(pages, reader).
     and_then (from_codec (reader_u32 reader)) (\<lambda>(count, reader).
     and_then (try_fold (\<lambda>(m, reader) _. and_then (from_codec (reader_u64 reader)) (\<lambda>(word, reader). Inr (m @ [word], reader)))
       ([], reader) [0..<4]) (\<lambda>(m, reader).
     and_then (group_key_new relation segment base layout) (\<lambda>key.
     if pages \<noteq> page_count m \<or> (base = 0xFFFFFFFF - 255 \<and> drop_bit 63 (m ! 3) \<noteq> 0) then Inl InvalidState
     else Inr \<lparr>hd_key = key, hd_kind = kind, hd_count = count, hd_mask = m\<rparr>))))))))))))))))"

definition header_write :: "header \<Rightarrow> writer \<Rightarrow> nat \<Rightarrow> writer result" where
  "header_write self writer len =
     and_then (from_codec (writer_put writer GROUP_MAGIC)) (\<lambda>writer.
     and_then (from_codec (writer_u16 writer GROUP_VERSION)) (\<lambda>writer.
     and_then (from_codec (writer_u8 writer (hd_kind self))) (\<lambda>writer.
     and_then (from_codec (writer_u8 writer 0)) (\<lambda>writer.
     and_then (ok_or (Limit ''group bytes'') (u32_try_from len)) (\<lambda>len.
     and_then (from_codec (writer_u32 writer len)) (\<lambda>writer.
     and_then (from_codec (writer_u32 writer (gk_base (hd_key self)))) (\<lambda>writer.
     and_then (from_codec (writer_u64 writer (gk_relation (hd_key self)))) (\<lambda>writer.
     and_then (from_codec (writer_u64 writer (gk_segment (hd_key self)))) (\<lambda>writer.
     and_then (from_codec (writer_u16 writer (max_offset (gk_layout (hd_key self))))) (\<lambda>writer.
     and_then (from_codec (writer_u16 writer (page_count (hd_mask self)))) (\<lambda>writer.
     and_then (from_codec (writer_u32 writer (hd_count self))) (\<lambda>writer.
     try_fold (\<lambda>writer word. from_codec (writer_u64 writer word)) writer (hd_mask self)))))))))))))"

text \<open>A \<open>for\<close> loop over the pages of a mask; 257 calls reach the end.\<close>

definition page_items :: "page_mask \<Rightarrow> u8 list" where
  "page_items m = fst (iter_take pages_next 257 (pages_new m))"

end
