(* ===== verification/GroupBitmap.thy ===== *)
theory GroupBitmap
  imports GroupKeys
begin

text \<open>
  Bitmap records of a group (crates/pin-core/src/grouped/bitmap.rs): a page summary in the header, a
  directory with one entry per present page, and the packed offset masks of these pages. A callback
  of the source is a function that passes its own state along.
\<close>

section \<open>Definitions\<close>

definition DIRECTORY_BYTES :: nat where
  "DIRECTORY_BYTES = 4"

definition MAX_BITMAP_BYTES :: nat where
  "MAX_BITMAP_BYTES = HEADER_BYTES + GROUP_PAGES * (DIRECTORY_BYTES + 64)"

datatype bitmap_kind = Posting | Liveness

text \<open>\<open>kind as u8\<close>.\<close>

fun bitmap_kind_tag :: "bitmap_kind \<Rightarrow> u8" where
  "bitmap_kind_tag Posting = 1"
| "bitmap_kind_tag Liveness = 2"

record page_offsets =
  pf_page :: u8
  pf_offsets :: offset_mask

record bitmap =
  bm_bytes :: bytes
  bm_header :: header
  bm_body :: nat
  bm_prefixes :: "u16 list"

text \<open>One directory entry: its payload starts where the previous one ended.\<close>

definition directory_step :: "header \<Rightarrow> nat \<Rightarrow> bytes \<Rightarrow> nat result" where
  "directory_step header e entry =
     (let from = unat (from_le [entry ! 0, entry ! 1] :: u16); len = unat (entry ! 2) in
      if from \<noteq> e \<or> len = 0 \<or> len > div_ceil (unat (max_offset (gk_layout (hd_key header)))) 8 \<or> entry ! 3 \<noteq> 0
      then Inl InvalidState else Inr (e + len))"

definition bitmap_open :: "bytes \<Rightarrow> bitmap result" where
  "bitmap_open bytes =
     (if length bytes > MAX_BITMAP_BYTES then Inl (Limit ''bitmap group bytes'') else
      and_then (header_read bytes) (\<lambda>header.
      if \<not> (hd_kind header = 1 \<or> hd_kind header = 2) \<or> hd_count header \<noteq> 0 then Inl InvalidState else
      let pages = unat (page_count (hd_mask header)); body = HEADER_BYTES + pages * DIRECTORY_BYTES in
      if body > length bytes then Inl InvalidState else
      and_then (try_fold (directory_step header) 0
        (chunks DIRECTORY_BYTES (take (body - HEADER_BYTES) (drop HEADER_BYTES bytes)))) (\<lambda>e.
      if e \<noteq> length bytes - body then Inl InvalidState
      else Inr \<lparr>bm_bytes = bytes, bm_header = header, bm_body = body,
        bm_prefixes = fold (\<lambda>index prefixes.
          prefixes[index := prefixes ! (index - 1) + of_nat (count_ones (hd_mask header ! (index - 1)))]) [1..<4] (replicate 4 0)\<rparr>)))"

definition bitmap_key :: "bitmap \<Rightarrow> group_key" where
  "bitmap_key self = hd_key (bm_header self)"

definition bitmap_kind_of :: "bitmap \<Rightarrow> bitmap_kind" where
  "bitmap_kind_of self = (if hd_kind (bm_header self) = 1 then Posting else Liveness)"

definition bitmap_pages :: "bitmap \<Rightarrow> page_mask" where
  "bitmap_pages self = hd_mask (bm_header self)"

definition bitmap_span :: "bitmap \<Rightarrow> u8 \<Rightarrow> (nat \<times> nat) option" where
  "bitmap_span self page =
     (if \<not> mask_contains (hd_mask (bm_header self)) page then None else
      let word = unat page div 64; lower = push_bit (unat page mod 64) 1 - 1;
          rank = unat (bm_prefixes self ! word) + count_ones (hd_mask (bm_header self) ! word AND lower);
          entry = HEADER_BYTES + rank * DIRECTORY_BYTES;
          from = unat (from_le [bm_bytes self ! entry, bm_bytes self ! (entry + 1)] :: u16)
      in Some (bm_body self + from, unat (bm_bytes self ! (entry + 2))))"

definition bitmap_offsets :: "bitmap \<Rightarrow> u8 \<Rightarrow> offset_mask result" where
  "bitmap_offsets self page =
     (case bitmap_span self page of
        None \<Rightarrow> Inr (replicate 8 0)
      | Some (from, len) \<Rightarrow>
          let bytes = take len (drop from (bm_bytes self)); last_byte = bytes ! (len - 1);
              domain = unat (max_offset (gk_layout (bitmap_key self)))
          in if (bitmap_kind_of self = Posting \<and> last_byte = 0) \<or>
                (len * 8 > domain \<and> drop_bit (domain mod 8) last_byte \<noteq> 0)
             then Inl InvalidState else
             let words = chunks 8 (take (length bytes - length bytes mod 8) bytes);
                 tail = drop (length bytes - length bytes mod 8) bytes;
                 result = fold (\<lambda>(index, word) result. result[index := from_le word])
                   (zip [0..<8] words) (replicate 8 0)
             in Inr (if tail \<noteq> [] then result[length words := from_le (tail @ replicate (8 - length tail) 0)] else result))"

definition payload_bytes :: "bitmap \<Rightarrow> u8 \<Rightarrow> nat" where
  "payload_bytes self page = (case bitmap_span self page of None \<Rightarrow> 0 | Some (_, len) \<Rightarrow> len)"

definition bitmap_validate_all :: "bitmap \<Rightarrow> unit result" where
  "bitmap_validate_all self =
     try_fold (\<lambda>_ page. and_then (bitmap_offsets self page) (\<lambda>_. Inr ())) () (page_items (hd_mask (bm_header self)))"

text \<open>\<open>rposition\<close>: the last index whose element satisfies the predicate.\<close>

definition rposition :: "('a \<Rightarrow> bool) \<Rightarrow> 'a list \<Rightarrow> nat option" where
  "rposition p xs = (case filter (\<lambda>i. p (xs ! i)) [0..<length xs] of [] \<Rightarrow> None | is \<Rightarrow> Some (last is))"

definition bitmap_len :: "group_key \<Rightarrow> offset_mask \<Rightarrow> nat result" where
  "bitmap_len key offs =
     (case rposition (\<lambda>word. word \<noteq> 0) offs of
        None \<Rightarrow> Inl InvalidState
      | Some lst \<Rightarrow>
          let bits = lst * 64 + (64 - leading_zeros (offs ! lst)) in
          if bits > unat (max_offset (gk_layout key)) then Inl InvalidState
          else Inr (div_ceil bits 8))"

type_synonym 's page_source = "'s \<Rightarrow> u8 \<Rightarrow> (offset_mask \<times> 's) result"

text \<open>The three passes over the pages: the total length, the directory, the payloads.\<close>

definition measure_step :: "group_key \<Rightarrow> 's page_source \<Rightarrow> nat \<times> 's \<Rightarrow> u8 \<Rightarrow> (nat \<times> 's) result" where
  "measure_step key offsets_of st page =
     and_then (group_block key page) (\<lambda>_.
     and_then (offsets_of (snd st) page) (\<lambda>(words, s).
     and_then (bitmap_len key words) (\<lambda>len. Inr (fst st + len, s))))"

definition directory_write ::
  "group_key \<Rightarrow> 's page_source \<Rightarrow> writer \<times> nat \<times> 's \<Rightarrow> u8 \<Rightarrow> (writer \<times> nat \<times> 's) result" where
  "directory_write key offsets_of st page =
     (let (writer, from, s) = st in
      and_then (offsets_of s page) (\<lambda>(words, s).
      and_then (bitmap_len key words) (\<lambda>len.
      and_then (from_codec (writer_u16 writer (of_nat from))) (\<lambda>writer.
      and_then (from_codec (writer_u8 writer (of_nat len))) (\<lambda>writer.
      and_then (from_codec (writer_u8 writer 0)) (\<lambda>writer.
      Inr (writer, from + len, s)))))))"

definition payload_write :: "group_key \<Rightarrow> 's page_source \<Rightarrow> writer \<times> 's \<Rightarrow> u8 \<Rightarrow> (writer \<times> 's) result" where
  "payload_write key offsets_of st page =
     (let (writer, s) = st in
      and_then (offsets_of s page) (\<lambda>(words, s).
      and_then (bitmap_len key words) (\<lambda>len.
      and_then (try_fold (\<lambda>writer index. from_codec
          (writer_u8 writer (ucast (drop_bit ((index mod 8) * 8) (words ! (index div 8)))))) writer [0..<len]) (\<lambda>writer.
      Inr (writer, s)))))"

definition encode_with ::
  "group_key \<Rightarrow> bitmap_kind \<Rightarrow> page_mask \<Rightarrow> bytes \<Rightarrow> 's page_source \<Rightarrow> 's \<Rightarrow> ((nat \<times> bytes) \<times> 's) result" where
  "encode_with key kind m output offsets_of s =
     (let body = HEADER_BYTES + unat (page_count m) * DIRECTORY_BYTES in
      and_then (try_fold (measure_step key offsets_of) (body, s) (page_items m)) (\<lambda>(len, s).
      if len > length output then Inl (Limit ''bitmap group output'') else
      and_then (header_write \<lparr>hd_key = key, hd_kind = bitmap_kind_tag kind, hd_count = 0, hd_mask = m\<rparr>
        (writer_new (take len output)) len) (\<lambda>writer.
      and_then (try_fold (directory_write key offsets_of) (writer, 0, s) (page_items m)) (\<lambda>(writer, _, s).
      and_then (try_fold (payload_write key offsets_of) (writer, s) (page_items m)) (\<lambda>(writer, s).
      Inr ((len, wr_bytes writer @ drop len output), s))))))"

definition encode_bitmap_step ::
  "group_key \<Rightarrow> page_mask \<times> u8 option \<Rightarrow> page_offsets \<Rightarrow> (page_mask \<times> u8 option) result" where
  "encode_bitmap_step key st page =
     (if (case snd st of None \<Rightarrow> False | Some previous \<Rightarrow> previous \<ge> pf_page page) then Inl InvalidState else
      and_then (group_block key (pf_page page)) (\<lambda>_.
      and_then (bitmap_len key (pf_offsets page)) (\<lambda>_.
      Inr (mask_insert (fst st) (pf_page page), Some (pf_page page)))))"

text \<open>\<open>binary_search_by_key\<close> over the checked strictly ascending pages.\<close>

function page_search :: "page_offsets list \<Rightarrow> u8 \<Rightarrow> nat \<Rightarrow> nat \<Rightarrow> nat option" where
  "page_search pages page low high =
     (if low < high then
        let middle = low + (high - low) div 2; found = pf_page (pages ! middle) in
        if found = page then Some middle
        else if found < page then page_search pages page (middle + 1) high
        else page_search pages page low middle
      else None)"
  by pat_completeness auto
termination by (relation "measure (\<lambda>(pages, page, low, high). high - low)") auto

declare page_search.simps [simp del]

definition encode_bitmap :: "group_key \<Rightarrow> bitmap_kind \<Rightarrow> page_offsets list \<Rightarrow> bytes \<Rightarrow> (nat \<times> bytes) result" where
  "encode_bitmap key kind pages output =
     and_then (try_fold (encode_bitmap_step key) (replicate 4 0, None) pages) (\<lambda>(m, _).
     and_then (encode_with key kind m output
       (\<lambda>s page. and_then (ok_or InvalidState (page_search pages page 0 (length pages))) (\<lambda>index.
          Inr (pf_offsets (pages ! index), s))) ()) (\<lambda>(r, _). Inr r))"

end
