(* ===== verification/GroupMembers.thy ===== *)
theory GroupMembers
  imports GroupBitmap
begin

text \<open>
  Membership of a group and the shared liveness image (crates/pin-core/src/grouped/members.rs and
  retire.rs): sorted owner records, the bitmaps derived from them, the checked pair of membership and
  liveness, and retirement, which only clears bits of a private copy of the liveness record.
\<close>

section \<open>Members\<close>

definition MEMBER_BYTES :: nat where
  "MEMBER_BYTES = 16"

record member =
  me_root :: root_tid
  me_incarnation :: incarnation

record members =
  mm_bytes :: bytes
  mm_header :: header

definition members_key :: "members \<Rightarrow> group_key" where
  "members_key self = hd_key (mm_header self)"

definition members_len :: "members \<Rightarrow> nat" where
  "members_len self = unat (hd_count (mm_header self))"

definition members_get :: "members \<Rightarrow> nat \<Rightarrow> member result" where
  "members_get self index =
     (if index \<ge> members_len self then Inl InvalidParameters else
      let from = HEADER_BYTES + index * MEMBER_BYTES in
      and_then (from_codec (reader_u32 (reader_new (take MEMBER_BYTES (drop from (mm_bytes self)))))) (\<lambda>(block, reader).
      and_then (from_codec (reader_u16 reader)) (\<lambda>(offset, reader).
      and_then (from_codec (reader_u16 reader)) (\<lambda>(zero, reader).
      if zero \<noteq> 0 then Inl InvalidState else
      and_then (map_err (\<lambda>_. InvalidState) (root_tid_new block offset (gk_layout (members_key self)))) (\<lambda>root.
      and_then (from_codec (reader_u64 reader)) (\<lambda>(v, reader).
      and_then (map_err (\<lambda>_. InvalidState) (identifier_new v)) (\<lambda>incarnation.
      Inr \<lparr>me_root = root, me_incarnation = incarnation\<rparr>)))))))"

definition validate_root :: "group_key \<Rightarrow> root_tid \<Rightarrow> unit result" where
  "validate_root key root =
     (if tid_block root AND NOT 255 \<noteq> gk_base key \<or> tid_offset root > max_offset (gk_layout key)
      then Inl InvalidState else Inr ())"

text \<open>\<open>previous.is_some_and(|previous| previous >= root)\<close>.\<close>

definition not_above :: "root_tid option \<Rightarrow> root_tid \<Rightarrow> bool" where
  "not_above previous root = (case previous of None \<Rightarrow> False | Some previous \<Rightarrow> previous \<ge> root)"

definition collect_root ::
  "group_key \<Rightarrow> page_mask \<times> root_tid option \<Rightarrow> root_tid \<Rightarrow> (page_mask \<times> root_tid option) result" where
  "collect_root key st root =
     and_then (validate_root key root) (\<lambda>_.
     if not_above (snd st) root then Inl DuplicateDocument
     else Inr (mask_insert (fst st) (ucast (tid_block root)), Some root))"

definition members_open :: "bytes \<Rightarrow> members result" where
  "members_open bytes =
     and_then (header_read bytes) (\<lambda>header.
     if hd_kind header \<noteq> MEMBERS \<or>
        unat (hd_count header) > GROUP_PAGES * unat (max_offset (gk_layout (hd_key header))) \<or>
        length bytes \<noteq> HEADER_BYTES + unat (hd_count header) * MEMBER_BYTES
     then Inl InvalidState else
     let result = \<lparr>mm_bytes = bytes, mm_header = header\<rparr> in
     and_then (try_fold (\<lambda>st index. and_then (members_get result index) (\<lambda>member.
         collect_root (hd_key header) st (me_root member))) (replicate 4 0, None) [0..<members_len result]) (\<lambda>(m, _).
     if m \<noteq> hd_mask header then Inl InvalidState else Inr result))"

definition members_lower_bound :: "members \<Rightarrow> u64 \<Rightarrow> nat result" where
  "members_lower_bound self key =
     lower_bound_loop (\<lambda>middle. and_then (members_get self middle) (\<lambda>member. Inr (tid_key (me_root member) < key)))
       0 (members_len self)"

definition members_find :: "members \<Rightarrow> root_tid \<Rightarrow> member option result" where
  "members_find self root =
     and_then (members_lower_bound self (tid_key root)) (\<lambda>index.
     if index = members_len self then Inr None else
     and_then (members_get self index) (\<lambda>member.
     Inr (if me_root member = root then Some member else None)))"

text \<open>Setting the bit of a root's offset.\<close>

definition offset_insert :: "offset_mask \<Rightarrow> root_tid \<Rightarrow> offset_mask" where
  "offset_insert m root =
     (let b = unat (tid_offset root - 1) in m[b div 64 := m ! (b div 64) OR push_bit (b mod 64) 1])"

text \<open>The loop of \<open>page_offsets\<close>.\<close>

function page_offsets_loop :: "members \<Rightarrow> u32 \<Rightarrow> nat \<Rightarrow> offset_mask \<Rightarrow> offset_mask result" where
  "page_offsets_loop self block index m =
     (if index < members_len self then
        and_then (members_get self index) (\<lambda>member.
          if tid_block (me_root member) \<noteq> block then Inr m
          else page_offsets_loop self block (index + 1) (offset_insert m (me_root member)))
      else Inr m)"
  by pat_completeness auto
termination by (relation "measure (\<lambda>(self, block, index, m). members_len self - index)") auto

declare page_offsets_loop.simps [simp del]

definition members_page_offsets :: "members \<Rightarrow> u8 \<Rightarrow> offset_mask result" where
  "members_page_offsets self page =
     and_then (group_block (members_key self) page) (\<lambda>block.
     and_then (members_lower_bound self (push_bit 16 (ucast block))) (\<lambda>index.
     page_offsets_loop self block index (replicate 8 0)))"

definition members_encode_liveness :: "members \<Rightarrow> bytes \<Rightarrow> (nat \<times> bytes) result" where
  "members_encode_liveness self output =
     and_then (encode_with (members_key self) Liveness (hd_mask (mm_header self)) output
       (\<lambda>s page. and_then (members_page_offsets self page) (\<lambda>m. Inr (m, s))) ()) (\<lambda>(r, _). Inr r)"

text \<open>The loop over the members of one block from the partition point on.\<close>

fun posting_offsets :: "u32 \<Rightarrow> member list \<Rightarrow> offset_mask \<Rightarrow> offset_mask" where
  "posting_offsets block [] m = m"
| "posting_offsets block (member # members) m =
     (if tid_block (me_root member) \<noteq> block then m
      else posting_offsets block members (offset_insert m (me_root member)))"

definition members_encode_posting :: "members \<Rightarrow> member list \<Rightarrow> bytes \<Rightarrow> (nat \<times> bytes) result" where
  "members_encode_posting self ms output =
     (if length ms > members_len self then Inl (Limit ''term group members'') else
      and_then (try_fold (\<lambda>st member.
          if not_above (snd st) (me_root member) then Inl InvalidState else
          and_then (members_find self (me_root member)) (\<lambda>found.
          if found \<noteq> Some member then Inl InvalidState
          else Inr (mask_insert (fst st) (ucast (tid_block (me_root member))), Some (me_root member))))
        (replicate 4 0, None) ms) (\<lambda>(m, _).
      and_then (encode_with (members_key self) Posting m output
        (\<lambda>s page. and_then (group_block (members_key self) page) (\<lambda>block.
           let from = partition_point (\<lambda>i. tid_block (me_root (ms ! i)) < block) (length ms) in
           Inr (posting_offsets block (drop from ms) (replicate 8 0), s))) ()) (\<lambda>(r, _). Inr r)))"

definition member_write :: "writer \<Rightarrow> member \<Rightarrow> writer result" where
  "member_write writer member =
     and_then (from_codec (writer_u32 writer (tid_block (me_root member)))) (\<lambda>writer.
     and_then (from_codec (writer_u16 writer (tid_offset (me_root member)))) (\<lambda>writer.
     and_then (from_codec (writer_u16 writer 0)) (\<lambda>writer.
     from_codec (writer_u64 writer (me_incarnation member)))))"

definition encode_members :: "group_key \<Rightarrow> member list \<Rightarrow> bytes \<Rightarrow> (nat \<times> bytes) result" where
  "encode_members key ms output =
     (if length ms > GROUP_PAGES * unat (max_offset (gk_layout key)) then Inl (Limit ''group members'') else
      let len = HEADER_BYTES + length ms * MEMBER_BYTES in
      if len > length output then Inl (Limit ''group membership output'') else
      and_then (try_fold (\<lambda>st member. collect_root key st (me_root member)) (replicate 4 0, None) ms) (\<lambda>(m, _).
      and_then (header_write \<lparr>hd_key = key, hd_kind = MEMBERS, hd_count = of_nat (length ms), hd_mask = m\<rparr>
        (writer_new (take len output)) len) (\<lambda>writer.
      and_then (try_fold member_write writer ms) (\<lambda>writer.
      Inr (len, wr_bytes writer @ drop len output)))))"

section \<open>Segment groups\<close>

record segment_group =
  sg_members :: members
  sg_live :: bitmap

text \<open>\<open>current.iter().zip(all).any(|(&live, all)| live & !all != 0)\<close>.\<close>

definition outside :: "offset_mask \<Rightarrow> offset_mask \<Rightarrow> bool" where
  "outside current all \<longleftrightarrow> list_ex (\<lambda>(live, a). live AND NOT a \<noteq> 0) (zip current all)"

definition check_live_page :: "members \<Rightarrow> bitmap \<Rightarrow> u8 \<Rightarrow> unit result" where
  "check_live_page ms live page =
     and_then (members_page_offsets ms page) (\<lambda>all.
     and_then (bitmap_offsets live page) (\<lambda>current.
     and_then (bitmap_len (members_key ms) all) (\<lambda>len.
     if payload_bytes live page \<noteq> len \<or> outside current all then Inl InvalidState else Inr ())))"

definition segment_group_open :: "bytes \<Rightarrow> bytes \<Rightarrow> segment_group result" where
  "segment_group_open members_bytes live_bytes =
     and_then (members_open members_bytes) (\<lambda>ms.
     and_then (bitmap_open live_bytes) (\<lambda>live.
     if bitmap_kind_of live \<noteq> Liveness \<or> bitmap_key live \<noteq> members_key ms \<or> bitmap_pages live \<noteq> hd_mask (mm_header ms)
     then Inl InvalidState else
     and_then (try_fold (\<lambda>_ page. check_live_page ms live page) () (page_items (hd_mask (mm_header ms)))) (\<lambda>_.
     Inr \<lparr>sg_members = ms, sg_live = live\<rparr>)))"

definition segment_group_key :: "segment_group \<Rightarrow> group_key" where
  "segment_group_key self = members_key (sg_members self)"

section \<open>Retirement\<close>

definition retire :: "members \<Rightarrow> bytes \<Rightarrow> member \<Rightarrow> (bool \<times> bytes) result" where
  "retire ms live member =
     and_then (members_find ms (me_root member)) (\<lambda>found.
     if found \<noteq> Some member then Inl InvalidState else
     and_then (bitmap_open live) (\<lambda>view.
     if bitmap_kind_of view \<noteq> Liveness \<or> bitmap_key view \<noteq> members_key ms \<or> bitmap_pages view \<noteq> hd_mask (mm_header ms)
     then Inl InvalidState else
     let page = ucast (tid_block (me_root member)) in
     and_then (bitmap_offsets view page) (\<lambda>current.
     and_then (members_page_offsets ms page) (\<lambda>all.
     if outside current all then Inl InvalidState else
     and_then (ok_or InvalidState (bitmap_span view page)) (\<lambda>(from, len).
     and_then (bitmap_len (members_key ms) all) (\<lambda>expected.
     if len \<noteq> expected then Inl InvalidState else
     let b = unat (tid_offset (me_root member) - 1); byte = from + b div 8; m = push_bit (b mod 8) 1 in
     Inr (live ! byte AND m \<noteq> 0, live[byte := live ! byte AND NOT m])))))))"

text \<open>\<open>retire_roots\<close>: the loop over the set bits of one word, then the words of a page, then the pages.\<close>

type_synonym 'r removable = "'r \<Rightarrow> root_tid \<Rightarrow> (bool \<times> 'r) result"

function retire_word ::
  "group_key \<Rightarrow> 'r removable \<Rightarrow> u8 \<Rightarrow> nat \<Rightarrow> nat \<Rightarrow> u64 \<Rightarrow> bytes \<times> u32 \<times> 'r \<Rightarrow> (bytes \<times> u32 \<times> 'r) result" where
  "retire_word key removable page from word pending st =
     (if pending \<noteq> 0 then
        let b = word * 64 + trailing_zeros pending; pending = pending AND (pending - 1); (clear, removed, r) = st in
        and_then (group_block key page) (\<lambda>block.
        and_then (map_err (\<lambda>_. InvalidState) (root_tid_new block (of_nat (b + 1)) (gk_layout key))) (\<lambda>root.
        and_then (removable r root) (\<lambda>(gone, r).
          retire_word key removable page from word pending
            (if gone then (clear[from + b div 8 := clear ! (from + b div 8) OR push_bit (b mod 8) 1], removed + 1, r)
             else (clear, removed, r)))))
      else Inr st)"
  by pat_completeness auto
termination
proof (relation "measure (\<lambda>(key, removable, page, from, word, pending, st). length (word_bits pending))", simp)
  fix pending :: u64 and x xa xb y
  assume "pending \<noteq> 0" "xa = pending AND (pending - 1)"
  then have "length (word_bits xa) < length (word_bits pending)"
    using word_bits_clear_lowest[of pending] word_bits_Nil_iff[of pending] by (cases "word_bits pending") auto
  then show "((key, removable, page, from, word, xa, z), key, removable, page, from, word, pending, st)
      \<in> measure (\<lambda>(key, removable, page, from, word, pending, st). length (word_bits pending))"
    for key :: group_key and removable :: "'r removable" and page :: u8 and "from" word :: nat and z st :: "bytes \<times> u32 \<times> 'r"
    by simp
qed

declare retire_word.simps [simp del]

definition retire_page ::
  "bitmap \<Rightarrow> group_key \<Rightarrow> 'r removable \<Rightarrow> bytes \<times> u32 \<times> 'r \<Rightarrow> u8 \<Rightarrow> (bytes \<times> u32 \<times> 'r) result" where
  "retire_page view key removable st page =
     and_then (bitmap_offsets view page) (\<lambda>offs.
     and_then (ok_or InvalidState (bitmap_span view page)) (\<lambda>(from, _).
     try_fold (\<lambda>st (word, value). retire_word key removable page from word value st) st (enumerate 0 offs)))"

definition retire_roots :: "bytes \<Rightarrow> group_key \<Rightarrow> 'r removable \<Rightarrow> 'r \<Rightarrow> (u32 \<times> bytes \<times> 'r) result" where
  "retire_roots bytes key removable r =
     and_then (bitmap_open bytes) (\<lambda>view.
     if bitmap_kind_of view \<noteq> Liveness \<or> bitmap_key view \<noteq> key then Inl InvalidState else
     and_then (try_fold (retire_page view key removable) (replicate (72 + 256 * 68) 0, 0, r) (page_items (bitmap_pages view)))
       (\<lambda>(clear, removed, r).
     Inr (removed, map2 (\<lambda>byte clear. byte AND NOT clear) bytes clear, r)))"

end
