(* ===== verification/GroupQuery.thy ===== *)
theory GroupQuery
  imports GroupMembers
begin

text \<open>
  Boolean evaluation inside one segment group (crates/pin-core/src/grouped/query.rs): the program is
  first evaluated on page summaries, then exactly on the candidate pages, decoding only the payloads
  a candidate page depends on. The trait \<open>Source\<close> is a record of its methods over a source state;
  the callbacks pass their own states along.
\<close>

section \<open>Definitions\<close>

definition MAX_NODES :: nat where
  "MAX_NODES = 64"

datatype group_node =
    GTerm nat
  | GAll
  | GAnd nat nat
  | GOr nat nat
  | GDifference nat nat
  | GNot nat

record query_scratch =
  qs_pages :: "page_mask list"
  qs_offsets :: "offset_mask list"

definition query_scratch_default :: query_scratch where
  "query_scratch_default = \<lparr>qs_pages = replicate MAX_NODES (replicate 4 0), qs_offsets = replicate MAX_NODES (replicate 8 0)\<rparr>"

record query_stats =
  st_candidate_pages :: u16
  st_live_pages :: u16
  st_term_payloads :: u32
  st_term_bytes :: u32
  st_emitted_tids :: u32

definition query_stats_default :: query_stats where
  "query_stats_default = \<lparr>st_candidate_pages = 0, st_live_pages = 0, st_term_payloads = 0, st_term_bytes = 0, st_emitted_tids = 0\<rparr>"

record 's group_source =
  gs_key :: "'s \<Rightarrow> group_key"
  gs_terms :: "'s \<Rightarrow> nat"
  gs_live_pages :: "'s \<Rightarrow> page_mask"
  gs_term_pages :: "'s \<Rightarrow> nat \<Rightarrow> page_mask"
  gs_live_offsets :: "'s \<Rightarrow> u8 \<Rightarrow> (offset_mask \<times> 's) result"
  gs_term_offsets :: "'s \<Rightarrow> nat \<Rightarrow> u8 \<Rightarrow> ((offset_mask \<times> nat) \<times> 's) result"
  gs_interrupt :: "'s \<Rightarrow> 's result"

text \<open>The operation of a binary node; the source panics on the others, which never reach it.\<close>

fun operation :: "group_node \<Rightarrow> bitmap_op" where
  "operation (GAnd _ _) = Intersection"
| "operation (GOr _ _) = Union"
| "operation (GDifference _ _) = Difference"

definition valid_node :: "nat \<Rightarrow> nat \<Rightarrow> group_node \<Rightarrow> bool" where
  "valid_node terms index node =
     (case node of
        GTerm term \<Rightarrow> term < terms
      | GAll \<Rightarrow> True
      | GNot child \<Rightarrow> child < index
      | GAnd left right \<Rightarrow> left < index \<and> right < index
      | GOr left right \<Rightarrow> left < index \<and> right < index
      | GDifference left right \<Rightarrow> left < index \<and> right < index)"

definition validate_program :: "nat \<Rightarrow> group_node list \<Rightarrow> unit result" where
  "validate_program terms program =
     (if program = [] \<or> length program > MAX_NODES \<or> terms > MAX_NODES then Inl (Limit ''group query nodes'')
      else if list_all (\<lambda>(index, node). valid_node terms index node) (enumerate 0 program) then Inr ()
      else Inl InvalidParameters)"

text \<open>The candidate pages of one node from those of its children.\<close>

definition page_node :: "(nat \<Rightarrow> page_mask) \<Rightarrow> page_mask \<Rightarrow> page_mask list \<Rightarrow> group_node \<Rightarrow> page_mask" where
  "page_node term_pages live pages node =
     (case node of
        GTerm term \<Rightarrow> candidates Intersection (term_pages term) live live
      | GAll \<Rightarrow> live
      | GNot _ \<Rightarrow> live
      | GAnd left right \<Rightarrow> candidates (operation node) (pages ! left) (pages ! right) live
      | GOr left right \<Rightarrow> candidates (operation node) (pages ! left) (pages ! right) live
      | GDifference left right \<Rightarrow> candidates (operation node) (pages ! left) (pages ! right) live)"

definition eval_pages :: "(nat \<Rightarrow> page_mask) \<Rightarrow> page_mask \<Rightarrow> group_node list \<Rightarrow> page_mask list \<Rightarrow> page_mask list" where
  "eval_pages term_pages live program pages =
     fold (\<lambda>(index, node) pages. pages[index := page_node term_pages live pages node]) (enumerate 0 program) pages"

definition children :: "group_node \<Rightarrow> nat list" where
  "children node =
     (case node of GNot child \<Rightarrow> [child] | GAnd left right \<Rightarrow> [left, right] | GOr left right \<Rightarrow> [left, right]
      | GDifference left right \<Rightarrow> [left, right] | GTerm _ \<Rightarrow> [] | GAll \<Rightarrow> [])"

definition dependencies :: "group_node list \<Rightarrow> page_mask list \<Rightarrow> u8 \<Rightarrow> u64" where
  "dependencies program pages page =
     fold (\<lambda>(index, node) needed.
       if needed AND push_bit index 1 = 0 \<or> \<not> mask_contains (pages ! index) page then needed
       else fold (\<lambda>child needed. needed OR push_bit child 1) (children node) needed)
       (rev (enumerate 0 program)) (push_bit (length program - 1) 1)"

text \<open>One node of the exact pass over a page.\<close>

definition offset_node ::
  "'s group_source \<Rightarrow> page_mask list \<Rightarrow> offset_mask \<Rightarrow> u64 \<Rightarrow> u8 \<Rightarrow> offset_mask list \<times> query_stats \<times> 's \<Rightarrow>
    nat \<times> group_node \<Rightarrow> (offset_mask list \<times> query_stats \<times> 's) result" where
  "offset_node ops pages live needed page st item =
     (let (offs, stats, source) = st; (index, node) = item in
      if needed AND push_bit index 1 = 0 then Inr st
      else if \<not> mask_contains (pages ! index) page then Inr (offs[index := replicate 8 0], stats, source)
      else case node of
        GTerm term \<Rightarrow>
          and_then (gs_term_offsets ops source term page) (\<lambda>((words, bytes), source).
          let stats = (if bytes \<noteq> 0
            then stats\<lparr>st_term_payloads := st_term_payloads stats + 1, st_term_bytes := st_term_bytes stats + of_nat bytes\<rparr>
            else stats) in
          Inr (offs[index := offsets Intersection words live live], stats, source))
      | GAll \<Rightarrow> Inr (offs[index := live], stats, source)
      | GNot child \<Rightarrow> Inr (offs[index := offsets Difference live (offs ! child) live], stats, source)
      | GAnd left right \<Rightarrow> Inr (offs[index := offsets (operation node) (offs ! left) (offs ! right) live], stats, source)
      | GOr left right \<Rightarrow> Inr (offs[index := offsets (operation node) (offs ! left) (offs ! right) live], stats, source)
      | GDifference left right \<Rightarrow> Inr (offs[index := offsets (operation node) (offs ! left) (offs ! right) live], stats, source))"

text \<open>The state of the page loop, and one candidate page.\<close>

record ('s, 'e) evaluation =
  ev_offsets :: "offset_mask list"
  ev_stats :: query_stats
  ev_source :: 's
  ev_emit :: 'e

type_synonym 'e emit = "'e \<Rightarrow> u32 \<Rightarrow> offset_mask \<Rightarrow> 'e result"

definition evaluate_page ::
  "'s group_source \<Rightarrow> 'e emit \<Rightarrow> group_node list \<Rightarrow> page_mask list \<Rightarrow> ('s, 'e) evaluation \<Rightarrow> u8 \<Rightarrow> ('s, 'e) evaluation result" where
  "evaluate_page ops emit program pages st page =
     and_then (gs_interrupt ops (ev_source st)) (\<lambda>source.
     let stats = (ev_stats st)\<lparr>st_candidate_pages := st_candidate_pages (ev_stats st) + 1\<rparr> in
     and_then (gs_live_offsets ops source page) (\<lambda>(live, source).
     if list_all (\<lambda>word. word = 0) live then Inr (st\<lparr>ev_stats := stats, ev_source := source\<rparr>) else
     let stats = stats\<lparr>st_live_pages := st_live_pages stats + 1\<rparr>; needed = dependencies program pages page in
     and_then (try_fold (offset_node ops pages live needed page) (ev_offsets st, stats, source) (enumerate 0 program))
       (\<lambda>(offs, stats, source).
     let result = offs ! (length program - 1); count = sum_list (map (\<lambda>word. of_nat (count_ones word)) result) :: u32 in
     if count \<noteq> 0 then
       and_then (group_block (gs_key ops source) page) (\<lambda>block.
       and_then (emit (ev_emit st) block result) (\<lambda>e.
       Inr \<lparr>ev_offsets = offs, ev_stats = stats\<lparr>st_emitted_tids := st_emitted_tids stats + count\<rparr>, ev_source = source, ev_emit = e\<rparr>))
     else Inr (st\<lparr>ev_offsets := offs, ev_stats := stats, ev_source := source\<rparr>))))"

definition evaluate_source ::
  "'s group_source \<Rightarrow> 'e emit \<Rightarrow> 's \<Rightarrow> group_node list \<Rightarrow> query_scratch \<Rightarrow> 'e \<Rightarrow>
    (query_stats \<times> query_scratch \<times> 's \<times> 'e) result" where
  "evaluate_source ops emit source program scratch e =
     and_then (gs_interrupt ops source) (\<lambda>source.
     and_then (validate_program (gs_terms ops source) program) (\<lambda>_.
     let live_pages = gs_live_pages ops source;
         pages = eval_pages (gs_term_pages ops source) live_pages program (qs_pages scratch) in
     and_then (try_fold (evaluate_page ops emit program pages)
         \<lparr>ev_offsets = qs_offsets scratch, ev_stats = query_stats_default, ev_source = source, ev_emit = e\<rparr>
         (page_items (pages ! (length program - 1)))) (\<lambda>st.
     Inr (ev_stats st, \<lparr>qs_pages = pages, qs_offsets = ev_offsets st\<rparr>, ev_source st, ev_emit st))))"

section \<open>The in-memory source\<close>

record 'i memory_source =
  ms_segment :: segment_group
  ms_terms :: "bitmap list"
  ms_interrupt :: 'i

definition memory_source_ops :: "('i \<Rightarrow> 'i result) \<Rightarrow> 'i memory_source group_source" where
  "memory_source_ops interrupt = \<lparr>
     gs_key = \<lambda>s. segment_group_key (ms_segment s),
     gs_terms = \<lambda>s. length (ms_terms s),
     gs_live_pages = \<lambda>s. bitmap_pages (sg_live (ms_segment s)),
     gs_term_pages = \<lambda>s term. bitmap_pages (ms_terms s ! term),
     gs_live_offsets = \<lambda>s page. and_then (bitmap_offsets (sg_live (ms_segment s)) page) (\<lambda>m. Inr (m, s)),
     gs_term_offsets = \<lambda>s term page. and_then (bitmap_offsets (ms_terms s ! term) page) (\<lambda>m.
       Inr ((m, payload_bytes (ms_terms s ! term) page), s)),
     gs_interrupt = \<lambda>s. and_then (interrupt (ms_interrupt s)) (\<lambda>i. Inr (s\<lparr>ms_interrupt := i\<rparr>))\<rparr>"

definition evaluate ::
  "segment_group \<Rightarrow> bitmap list \<Rightarrow> group_node list \<Rightarrow> query_scratch \<Rightarrow> ('i \<Rightarrow> 'i result) \<Rightarrow> 'i \<Rightarrow> 'e emit \<Rightarrow> 'e \<Rightarrow>
    (query_stats \<times> query_scratch \<times> 'i memory_source \<times> 'e) result" where
  "evaluate segment terms program scratch interrupt i emit e =
     (if list_ex (\<lambda>term. bitmap_key term \<noteq> segment_group_key segment \<or> bitmap_kind_of term \<noteq> Posting) terms
      then Inl InvalidState
      else evaluate_source (memory_source_ops interrupt) emit
        \<lparr>ms_segment = segment, ms_terms = terms, ms_interrupt = i\<rparr> program scratch e)"

section \<open>Demand\<close>

text \<open>The reverse pass of \<open>needed_terms\<close>.\<close>

definition demand_step ::
  "page_mask list \<Rightarrow> nat \<times> group_node \<Rightarrow> page_mask list \<times> u64 \<Rightarrow> page_mask list \<times> u64" where
  "demand_step pages item st =
     (let (demanded, terms) = st; (index, node) = item;
          active = map (\<lambda>word. demanded ! index ! word AND pages ! index ! word) [0..<4];
          demand = (\<lambda>child demanded. demanded[child := map (\<lambda>word. demanded ! child ! word OR active ! word) [0..<4]]) in
      if active = replicate 4 0 then (demanded, terms)
      else case node of
        GTerm term \<Rightarrow> (demanded, terms OR push_bit term 1)
      | GAll \<Rightarrow> (demanded, terms)
      | GNot child \<Rightarrow> (demand child demanded, terms)
      | GAnd left right \<Rightarrow> (demand right (demand left demanded), terms)
      | GOr left right \<Rightarrow> (demand right (demand left demanded), terms)
      | GDifference left right \<Rightarrow> (demand right (demand left demanded), terms))"

definition needed_terms ::
  "group_node list \<Rightarrow> page_mask \<Rightarrow> page_mask list \<Rightarrow> query_scratch \<Rightarrow> ((page_mask \<times> u64) \<times> query_scratch) result" where
  "needed_terms program live terms scratch =
     and_then (validate_program (length terms) program) (\<lambda>_.
     let pages = eval_pages (\<lambda>term. terms ! term) live program (qs_pages scratch);
         root = pages ! (length program - 1);
         (_, needed) = fold (demand_step pages) (rev (enumerate 0 program))
           ((replicate MAX_NODES (replicate 4 0))[length program - 1 := root], 0) in
     Inr ((root, needed), scratch\<lparr>qs_pages := pages\<rparr>))"

end
