(* ===== verification/Evaluation.thy ===== *)
theory Evaluation
  imports Prelude "HOL-Library.Code_Target_Numeral"
begin

text \<open>
  Code equations for the evaluation of words by the simplifier. The generic equations of words leave
  shifts and disjunctions as unevaluated terms, which a decoded value then repeats at every use; the
  equations here compute the bits and the little-endian values on integers first.
\<close>

lemma of_nat_word_code [code_unfold]: "(of_nat n :: 'a::len word) = word_of_int (int n)"
  by simp

lemma push_bit_word_code [code]: "push_bit n (w :: 'a::len word) = word_of_int (push_bit n (uint w))"
  by (simp add: push_bit_eq_mult)

lemma and_then_code [code_unfold]: "and_then x f = (case x of Inl e \<Rightarrow> Inl e | Inr v \<Rightarrow> f v)"
  by (cases x) simp_all

primrec bits_from :: "nat \<Rightarrow> nat \<Rightarrow> int \<Rightarrow> nat list" where
  "bits_from 0 i n = []"
| "bits_from (Suc k) i n =
     (if n = 0 then [] else if n mod 2 = 1 then i # bits_from k (i + 1) (n div 2) else bits_from k (i + 1) (n div 2))"

lemma bits_from_filter: "bits_from k i n = map ((+) i) (filter (bit n) [0..<k])"
proof (induction k arbitrary: i n)
  case (Suc k)
  have "[0..<Suc k] = 0 # map Suc [0..<k]" by (simp only: upt_conv_Cons zero_less_Suc map_Suc_upt)
  moreover have "bit n \<circ> Suc = bit (n div 2)" by (auto simp: bit_Suc)
  ultimately show ?case using Suc.IH[of "Suc i" "n div 2"]
    by (auto simp: filter_map o_def bit_0 odd_iff_mod_2_eq_one simp del: upt_Suc)
qed simp

lemma word_bits_code [code]: "word_bits (w :: 'a::len word) = bits_from LENGTH('a) 0 (uint w)"
proof -
  have "filter (bit w) [0..<LENGTH('a)] = filter (bit (uint w)) [0..<LENGTH('a)]"
    by (intro filter_cong) (auto simp: bit_uint_iff)
  moreover have "(+) (0 :: nat) = (\<lambda>x. x)" by auto
  ultimately show ?thesis by (simp add: word_bits_def bits_from_filter)
qed

lemma takeWhile_filter: "length (takeWhile (\<lambda>i. \<not> P i) [k..<n]) + k = (case filter P [k..<n] of [] \<Rightarrow> max k n | b # _ \<Rightarrow> b)"
proof (induction "n - k" arbitrary: k)
  case (Suc m)
  then have "[k..<n] = k # [Suc k..<n]" by (simp add: upt_conv_Cons)
  with Suc(1)[of "Suc k"] Suc(2) show ?case by (auto simp: max_def split: list.splits)
qed simp

lemma trailing_zeros_code [code]:
  "trailing_zeros (w :: 'a::len word) = (case word_bits w of [] \<Rightarrow> LENGTH('a) | b # _ \<Rightarrow> b)"
  using takeWhile_filter[of "bit w" 0 "LENGTH('a)"] by (simp add: trailing_zeros_def word_bits_def)

primrec le_int :: "bytes \<Rightarrow> int" where
  "le_int [] = 0"
| "le_int (b # bs) = uint b + 256 * le_int bs"

lemma from_le_code [code]: "from_le bs = word_of_int (le_int bs)"
proof (induction bs)
  case (Cons b bs)
  have "uint b AND push_bit 8 (le_int bs) = 0"
    by (rule bit_eqI) (auto simp: bit_and_iff bit_push_bit_iff bit_uint_iff dest: bit_u8_bound)
  then have "uint b + push_bit 8 (le_int bs) = uint b OR push_bit 8 (le_int bs)"
    by (rule disjunctive_add_eq_or)
  moreover have "word_of_int (uint b OR push_bit 8 (le_int bs)) = (ucast b OR push_bit 8 (word_of_int (le_int bs)) :: 'a word)"
    by (simp add: of_int_or_eq push_bit_of_int)
  ultimately show ?case using Cons by (simp add: push_bit_eq_mult mult.commute[of _ 256])
qed simp

end
