(* ===== verification/GroupEval.thy ===== *)
theory GroupEval
  imports GroupQuery Evaluation
begin

text \<open>
  What a program means on the documents of a group, and that the pruned two-pass evaluation computes
  it: page summaries never exclude a page with a match, every node the result of a page depends on is
  computed there, and the emitted masks are the exact matches. The contract of the trait \<open>Source\<close> is
  the locale \<open>source_laws\<close>, interpreted for the in-memory source.
\<close>

declare push_bit_of_1 [simp del]

section \<open>Masks\<close>

lemma mask_contains_bit: "length m = 4 \<Longrightarrow> mask_contains m page \<longleftrightarrow> mask_bit m (unat page)"
  unfolding mask_contains_def and_bit_iff mask_bit_def using unat_u8_lt[of page] by auto

lemma length_candidates [simp]: "length (candidates op l r v) = 4"
  by (simp add: candidates_def PAGE_WORDS_def)

lemma length_offsets [simp]: "length (offsets op l r v) = 8"
  by (simp add: offsets_def OFFSET_WORDS_def)

fun op_holds :: "bitmap_op \<Rightarrow> bool \<Rightarrow> bool \<Rightarrow> bool" where
  "op_holds Intersection a b \<longleftrightarrow> a \<and> b"
| "op_holds Union a b \<longleftrightarrow> a \<or> b"
| "op_holds Difference a b \<longleftrightarrow> a \<and> \<not> b"

lemma mask_bit_offsets:
  assumes "length l = 8" "length r = 8" "length v = 8"
  shows "mask_bit (offsets op l r v) k \<longleftrightarrow> op_holds op (mask_bit l k) (mask_bit r k) \<and> mask_bit v k"
  using assms
  by (cases "k div 64 < 8"; cases op)
    (auto simp: offsets_def mask_bit_def bit_and_iff bit_or_iff bit_not_iff OFFSET_WORDS_def)

lemma mask_bit_candidates:
  assumes "length l = 4" "length r = 4" "length v = 4"
  shows "mask_bit (candidates op l r v) k \<longleftrightarrow>
    (case op of Intersection \<Rightarrow> mask_bit l k \<and> mask_bit r k | Union \<Rightarrow> mask_bit l k \<or> mask_bit r k
     | Difference \<Rightarrow> mask_bit l k) \<and> mask_bit v k"
  using assms
  by (cases "k div 64 < 4"; cases op)
    (auto simp: candidates_def mask_bit_def bit_and_iff bit_or_iff PAGE_WORDS_def)

lemma mask_bit_zero [simp]: "\<not> mask_bit (replicate n 0) k"
  by (simp add: mask_bit_def)

lemma mask_zero_iff: "list_all (\<lambda>word. word = 0) m \<longleftrightarrow> (\<forall>k. \<not> mask_bit m k)"
proof
  assume z: "\<forall>k. \<not> mask_bit m k"
  have "w = 0" if w: "w \<in> set m" for w
  proof -
    obtain i where i: "i < length m" "m ! i = w" using w by (auto simp: in_set_conv_nth)
    have "\<not> bit w j" if "j < 64" for j
      using z[THEN spec, of "i * 64 + j"] i that by (simp add: mask_bit_def)
    then show "w = 0" by (intro bit_word_eqI) simp
  qed
  then show "list_all (\<lambda>word. word = 0) m" by (simp add: list_all_iff)
qed (auto simp: list_all_iff mask_bit_def dest!: bspec[OF _ nth_mem])

lemma page_items_unat: "length m = 4 \<Longrightarrow> map unat (page_items m) = mask_list m"
  unfolding page_items_def by (rule pages_collect) (simp add: PAGE_WORDS_def)

lemma sum_list_bounded: "\<forall>x \<in> set xs. f x \<le> c \<Longrightarrow> sum_list (map f xs) \<le> length xs * (c :: nat)"
  by (induction xs) auto

section \<open>Meaning\<close>

text \<open>Whether the node at an index holds of the document at bit \<open>b\<close> of page \<open>p\<close>; every node is
  relative to the live documents.\<close>

declare conj_cong [fundef_cong]

function node_holds ::
  "(nat \<Rightarrow> nat \<Rightarrow> nat \<Rightarrow> bool) \<Rightarrow> (nat \<Rightarrow> nat \<Rightarrow> bool) \<Rightarrow> group_node list \<Rightarrow> nat \<Rightarrow> nat \<Rightarrow> nat \<Rightarrow> bool" where
  "node_holds posted live program i p b \<longleftrightarrow> live p b \<and>
     (case program ! i of
        GTerm t \<Rightarrow> posted t p b
      | GAll \<Rightarrow> True
      | GNot c \<Rightarrow> \<not> (c < i \<and> node_holds posted live program c p b)
      | GAnd l r \<Rightarrow> (l < i \<and> node_holds posted live program l p b) \<and> (r < i \<and> node_holds posted live program r p b)
      | GOr l r \<Rightarrow> (l < i \<and> node_holds posted live program l p b) \<or> (r < i \<and> node_holds posted live program r p b)
      | GDifference l r \<Rightarrow> (l < i \<and> node_holds posted live program l p b) \<and> \<not> (r < i \<and> node_holds posted live program r p b))"
  by pat_completeness auto
termination by (relation "measure (\<lambda>(posted, live, program, i, p, b). i)") auto

declare node_holds.simps [simp del]

definition program_ok :: "nat \<Rightarrow> group_node list \<Rightarrow> bool" where
  "program_ok terms program \<longleftrightarrow> program \<noteq> [] \<and> length program \<le> 64 \<and>
     (\<forall>i < length program. valid_node terms i (program ! i))"

lemma validate_program_Inr: "validate_program terms program = Inr u \<longleftrightarrow> program_ok terms program \<and> terms \<le> 64"
  by (auto simp: validate_program_def program_ok_def MAX_NODES_def list_all_iff in_set_enumerate_eq all_set_conv_all_nth nth_enumerate_eq
      split: if_splits)

lemma node_children:
  assumes "program_ok terms program" "i < length program" "c \<in> set (children (program ! i))"
  shows "c < i"
  using assms by (auto simp: program_ok_def valid_node_def children_def split: group_node.splits)

section \<open>The summary pass\<close>

lemma fold_update_enumerate:
  assumes "\<And>i xs ys. i < n \<Longrightarrow> length xs = length ys \<Longrightarrow> (\<forall>j < i. xs ! j = ys ! j) \<Longrightarrow> f xs (p ! i) = f ys (p ! i)"
    and "n = length p" "n \<le> length xs0"
  defines "res \<equiv> fold (\<lambda>(i, x) xs. xs[i := f xs x]) (enumerate 0 p) xs0"
  shows "length res = length xs0 \<and> (\<forall>i < n. res ! i = f res (p ! i))"
proof -
  let ?g = "\<lambda>k. fold (\<lambda>(i, x) xs. xs[i := f xs x]) (enumerate 0 (take k p)) xs0"
  have st: "?g (Suc k) = (?g k)[k := f (?g k) (p ! k)]" if "k < n" for k
    using that assms(2) by (simp add: take_Suc_conv_app_nth enumerate_append_eq)
  have len: "k \<le> n \<Longrightarrow> length (?g k) = length xs0" for k
    by (induction k) (simp_all add: st Suc_le_eq)
  have keep: "i < k \<Longrightarrow> k \<le> m \<Longrightarrow> m \<le> n \<Longrightarrow> ?g m ! i = ?g k ! i" for i k m
    by (induction m) (auto simp: st Suc_le_eq le_Suc_eq)
  have "res = ?g n" using assms(2) by (simp add: res_def)
  moreover have "?g n ! i = f (?g n) (p ! i)" if "i < n" for i
  proof -
    have "?g n ! i = ?g (Suc i) ! i" using keep[of i "Suc i" n] that by simp
    also have "\<dots> = f (?g i) (p ! i)" using st[OF that] len[of i] that assms(3) by simp
    also have "\<dots> = f (?g n) (p ! i)"
      using assms(1)[OF that, of "?g i" "?g n"] len[of i] len[of n] keep[of _ i n] that by simp
    finally show ?thesis .
  qed
  ultimately show ?thesis using len[of n] by simp
qed

lemma eval_pages_nodes:
  fixes term_pages live
  assumes "program_ok terms program" "length program \<le> length pages"
  defines "res \<equiv> eval_pages term_pages live program pages"
  shows "length res = length pages" "i < length program \<Longrightarrow> res ! i = page_node term_pages live res (program ! i)"
proof -
  have "page_node term_pages live xs (program ! i) = page_node term_pages live ys (program ! i)"
    if "i < length program" "\<forall>j < i. xs ! j = ys ! j" for i xs ys
    using that node_children[OF assms(1) that(1)] by (auto simp: page_node_def children_def split: group_node.splits)
  then have "length res = length pages \<and> (\<forall>i < length program. res ! i = page_node term_pages live res (program ! i))"
    unfolding res_def eval_pages_def using assms(2) by (intro fold_update_enumerate) auto
  then show "length res = length pages" "i < length program \<Longrightarrow> res ! i = page_node term_pages live res (program ! i)" by auto
qed

lemma length_page_node: "length live = 4 \<Longrightarrow> length (page_node term_pages live pages node) = 4"
  by (cases node) (simp_all add: page_node_def)

text \<open>Summaries never exclude a page with a match.\<close>

lemma summary_covers:
  fixes live_pages term_pages posted live
  assumes ok: "program_ok terms program" "length program \<le> length pages0"
    and live: "length live_pages = 4" "\<And>p b. p < 256 \<Longrightarrow> live p b \<Longrightarrow> mask_bit live_pages p"
    and tp: "\<And>t. t < terms \<Longrightarrow> length (term_pages t) = 4" "\<And>t p b. t < terms \<Longrightarrow> p < 256 \<Longrightarrow> posted t p b \<Longrightarrow> mask_bit (term_pages t) p"
  defines "pages \<equiv> eval_pages term_pages live_pages program pages0"
  shows "i < length program \<Longrightarrow> p < 256 \<Longrightarrow> node_holds posted live program i p b \<Longrightarrow> mask_bit (pages ! i) p"
proof (induction i rule: less_induct)
  case (less i)
  note ev = eval_pages_nodes[OF ok, where term_pages = term_pages and live = live_pages, folded pages_def]
  have l4: "length (pages ! c) = 4" if "c < length program" for c
    using ev(2)[OF that] length_page_node[OF live(1)] by simp
  have lv: "live p b" using less.prems(3) by (subst (asm) node_holds.simps) simp
  note lm = live(2)[OF less.prems(2) lv]
  have cl: "c < length program" if "c < i" for c using that less.prems(1) by simp
  have v: "valid_node terms i (program ! i)" using ok(1) less.prems(1) by (simp add: program_ok_def)
  show ?case
  proof (cases "program ! i")
    case (GTerm t)
    then have t: "t < terms" "posted t p b" using v less.prems(3) by (auto simp: valid_node_def node_holds.simps[of _ _ _ i])
    then show ?thesis using GTerm ev(2)[OF less.prems(1)] tp(2)[OF t(1) less.prems(2) t(2)] lm tp(1)[OF t(1)] live(1)
      by (simp add: page_node_def mask_bit_candidates)
  next
    case GAll
    then show ?thesis using ev(2)[OF less.prems(1)] lm by (simp add: page_node_def)
  next
    case (GNot c)
    then show ?thesis using ev(2)[OF less.prems(1)] lm by (simp add: page_node_def)
  next
    case (GAnd l r)
    then have "l < i" "r < i" "node_holds posted live program l p b" "node_holds posted live program r p b"
      using less.prems(3) by (auto simp: node_holds.simps[of _ _ _ i])
    then show ?thesis using GAnd ev(2)[OF less.prems(1)] lm less.IH cl l4 less.prems(2) live(1)
      by (simp add: page_node_def mask_bit_candidates)
  next
    case (GOr l r)
    then have lr: "l < i" "r < i" using v by (simp_all add: valid_node_def)
    have "node_holds posted live program l p b \<or> node_holds posted live program r p b"
      using less.prems(3) GOr by (auto simp: node_holds.simps[of _ _ _ i])
    then show ?thesis using lr GOr ev(2)[OF less.prems(1)] lm less.IH cl l4 less.prems(2) live(1)
      by (auto simp: page_node_def mask_bit_candidates)
  next
    case (GDifference l r)
    then have lr: "l < i" "r < i" using v by (simp_all add: valid_node_def)
    have "node_holds posted live program l p b" using less.prems(3) GDifference by (auto simp: node_holds.simps[of _ _ _ i])
    then show ?thesis using lr GDifference ev(2)[OF less.prems(1)] lm less.IH cl l4 less.prems(2) live(1)
      by (simp add: page_node_def mask_bit_candidates)
  qed
qed

section \<open>Dependencies\<close>

lemma bit_needed: "(needed :: u64) AND push_bit i 1 = 0 \<longleftrightarrow> \<not> bit needed i"
  using and_bit_iff[of needed i] by blast

lemma bit_single: "i < 64 \<Longrightarrow> bit (push_bit i (1 :: u64)) j \<longleftrightarrow> j = i"
  by (auto simp: bit_push_bit_iff bit_1_iff)

lemma bit_fold_children:
  "\<forall>c \<in> set cs. c < 64 \<Longrightarrow>
    bit (fold (\<lambda>c needed. needed OR push_bit c 1) cs (needed :: u64)) j \<longleftrightarrow> bit needed j \<or> j \<in> set cs"
  by (induction cs arbitrary: needed) (auto simp: bit_or_iff bit_single)

text \<open>The reverse pass marks the root and the children of every marked node that can match on the page.\<close>

lemma dependencies_closed:
  fixes page :: u8 and pages :: "page_mask list"
  assumes ok: "program_ok terms program"
  defines "needed \<equiv> dependencies program pages page"
  shows "bit needed (length program - 1)"
    "i < length program \<Longrightarrow> bit needed i \<Longrightarrow> mask_contains (pages ! i) page \<Longrightarrow> c \<in> set (children (program ! i)) \<Longrightarrow> bit needed c"
proof -
  let ?f = "\<lambda>(index, node) needed. if needed AND push_bit index 1 = 0 \<or> \<not> mask_contains (pages ! index) page then needed
       else fold (\<lambda>child needed. needed OR push_bit child 1) (children node) needed"
  let ?n = "length program"
  let ?g = "\<lambda>k. fold ?f (rev (enumerate k (drop k program))) (push_bit (?n - 1) (1 :: u64))"
  have n: "?n \<le> 64" "0 < ?n" using ok by (auto simp: program_ok_def)
  have st: "?g k = ?f (k, program ! k) (?g (Suc k))" if "k < ?n" for k
    using that by (simp add: Cons_nth_drop_Suc[symmetric] del: Cons_nth_drop_Suc)
  have c64: "\<forall>c \<in> set (children (program ! k)). c < 64" if "k < ?n" for k
    using node_children[OF ok that] that n by fastforce
  have step: "bit (?g k) j \<longleftrightarrow> bit (?g (Suc k)) j \<or>
      (bit (?g (Suc k)) k \<and> mask_contains (pages ! k) page \<and> j \<in> set (children (program ! k)))" if "k < ?n" for k j
  proof -
    have "bit (?f (k, node) x) j \<longleftrightarrow> bit x j \<or> (bit x k \<and> mask_contains (pages ! k) page \<and> j \<in> set (children node))"
      if "\<forall>c \<in> set (children node). c < 64" for node and x :: u64
      using bit_fold_children[OF that, of x j] by (auto simp: bit_needed)
    from this[OF c64[OF that]] show ?thesis unfolding st[OF that] .
  qed
  have up: "bit (?g (Suc k)) j \<Longrightarrow> bit (?g k) j" for k j
    using step[of k j] by (cases "k < ?n") auto
  have mono: "k \<le> m \<Longrightarrow> bit (?g m) j \<Longrightarrow> bit (?g k) j" for k m j
  proof (induction m)
    case (Suc m)
    then show ?case using up[of m j] by (cases "k = Suc m") auto
  qed simp
  have low: "bit (?g k) j \<longleftrightarrow> bit (?g (Suc k)) j" if "k < ?n" "k \<le> j" for k j
    using step[OF that(1), of j] node_children[OF ok that(1), of j] that(2) by auto
  have stable: "k \<le> m \<Longrightarrow> m \<le> ?n \<Longrightarrow> m \<le> Suc j \<Longrightarrow> bit (?g k) j \<longleftrightarrow> bit (?g m) j" for k m j
  proof (induction m)
    case (Suc m)
    show ?case
    proof (cases "k = Suc m")
      case False
      then have "bit (?g k) j \<longleftrightarrow> bit (?g m) j" using Suc by simp
      then show ?thesis using low[of m j] Suc.prems by simp
    qed simp
  qed simp
  have nd: "needed = ?g 0" by (simp add: needed_def dependencies_def)
  show "bit needed (?n - 1)" unfolding nd using mono[of 0 ?n "?n - 1"] n by (simp add: bit_single)
  show "bit needed c" if i: "i < ?n" "bit needed i" "mask_contains (pages ! i) page" "c \<in> set (children (program ! i))"
  proof -
    have "bit (?g (Suc i)) i" using i(1,2) stable[of 0 "Suc i" i] unfolding nd by simp
    then have "bit (?g i) c" using step[OF i(1), of c] i(3,4) by blast
    then show ?thesis unfolding nd using mono[of 0 i c] by simp
  qed
qed

section \<open>The exact pass\<close>

text \<open>What a source promises: its geometry does not change, and the decoded masks of a page are
  the live documents and the postings of a term on it, which the page summaries cover.\<close>

locale source_laws =
  fixes ops :: "'s group_source"
    and invar :: "'s \<Rightarrow> bool"
    and key :: group_key
    and terms :: nat
    and live_pages :: page_mask
    and term_pages :: "nat \<Rightarrow> page_mask"
    and live :: "nat \<Rightarrow> nat \<Rightarrow> bool"
    and posted :: "nat \<Rightarrow> nat \<Rightarrow> nat \<Rightarrow> bool"
  assumes geometry: "invar s \<Longrightarrow> gs_key ops s = key \<and> gs_terms ops s = terms \<and> gs_live_pages ops s = live_pages \<and>
      gs_term_pages ops s = term_pages"
    and interrupt: "invar s \<Longrightarrow> gs_interrupt ops s = Inr s' \<Longrightarrow> invar s'"
    and live_offsets: "invar s \<Longrightarrow> gs_live_offsets ops s p = Inr (m, s') \<Longrightarrow>
      invar s' \<and> length m = 8 \<and> (\<forall>b. mask_bit m b \<longleftrightarrow> live (unat p) b)"
    and term_offsets: "invar s \<Longrightarrow> t < terms \<Longrightarrow> gs_term_offsets ops s t p = Inr ((m, n), s') \<Longrightarrow>
      invar s' \<and> length m = 8 \<and> (\<forall>b. mask_bit m b \<longleftrightarrow> posted t (unat p) b)"
    and live_summary: "invar s \<Longrightarrow> length live_pages = 4 \<and> (\<forall>p < 256. \<forall>b. live p b \<longrightarrow> mask_bit live_pages p)"
    and term_summary: "invar s \<Longrightarrow> t < terms \<Longrightarrow>
      length (term_pages t) = 4 \<and> (\<forall>p < 256. \<forall>b. posted t p b \<longrightarrow> mask_bit (term_pages t) p)"
begin

definition exact :: "group_node list \<Rightarrow> nat \<Rightarrow> nat \<Rightarrow> offset_mask \<Rightarrow> bool" where
  "exact program i p m \<longleftrightarrow> length m = 8 \<and> (\<forall>b. mask_bit m b \<longleftrightarrow> node_holds posted live program i p b)"

lemma exact_node:
  assumes ok: "program_ok terms program" and pages: "pages = eval_pages term_pages live_pages program pages0" "length program \<le> length pages0"
    and m: "length m = 8" "\<forall>b. mask_bit m b \<longleftrightarrow> live (unat page) b"
    and needed: "needed = dependencies program pages page"
    and k: "k < length program" "k < length offs" and s: "invar s"
    and prev: "\<forall>i < k. bit needed i \<longrightarrow> exact program i (unat page) (offs ! i)"
    and st: "offset_node ops pages m needed page (offs, stats, s) (k, program ! k) = Inr (offs', stats', s')"
  shows "invar s' \<and> st_emitted_tids stats' = st_emitted_tids stats \<and> (offs' = offs \<or> (\<exists>v. offs' = offs[k := v])) \<and>
    (bit needed k \<longrightarrow> exact program k (unat page) (offs' ! k))"
proof (cases "bit needed k")
  case False
  then show ?thesis using st s by (simp add: offset_node_def bit_needed)
next
  case nb: True
  have cover: "mask_bit (pages ! k) (unat page)" if "node_holds posted live program k (unat page) b" for b
    unfolding pages(1)
    by (rule summary_covers[OF ok pages(2), of live_pages live term_pages posted])
      (use live_summary[OF s] term_summary[OF s] k(1) that unat_u8_lt[of page] in auto)
  have l4: "length (pages ! k) = 4"
    using eval_pages_nodes(2)[OF ok pages(2) k(1)] length_page_node live_summary[OF s] unfolding pages(1) by metis
  show ?thesis
  proof (cases "mask_contains (pages ! k) page")
    case False
    then have "\<not> node_holds posted live program k (unat page) b" for b
      using cover[of b] mask_contains_bit[OF l4] by blast
    then show ?thesis using st s nb False k(2) by (auto simp: offset_node_def bit_needed exact_def)
  next
    case True
    have ch: "exact program c (unat page) (offs ! c) \<and> c < k" if "c \<in> set (children (program ! k))" for c
      using dependencies_closed(2)[OF ok k(1), of pages page c] nb True that prev node_children[OF ok k(1) that]
      unfolding needed by auto
    have v: "valid_node terms k (program ! k)" using ok k(1) by (simp add: program_ok_def)
    note nh = node_holds.simps[of posted live program k "unat page"]
    show ?thesis
    proof (cases "program ! k")
      case (GTerm t)
      then have t: "t < terms" using v by (simp add: valid_node_def)
      from st GTerm nb True obtain w n where w: "gs_term_offsets ops s t page = Inr ((w, n), s')"
        "offs' = offs[k := offsets Intersection w m m]" "st_emitted_tids stats' = st_emitted_tids stats"
        by (auto simp: offset_node_def bit_needed Let_def res_simps split: if_splits)
      show ?thesis using term_offsets[OF s t w(1)] w(2,3) k(2) m by (auto simp: exact_def mask_bit_offsets nh GTerm)
    next
      case GAll
      have e: "offs' = offs[k := m]" "stats' = stats" "s' = s"
        using st nb True by (simp_all add: offset_node_def bit_needed GAll)
      show ?thesis using e s k(2) m  by (auto simp: exact_def mask_bit_offsets nh GAll)
    next
      case (GNot c)
      have e: "offs' = offs[k := offsets Difference m (offs ! c) m]" "stats' = stats" "s' = s"
        using st nb True by (simp_all add: offset_node_def bit_needed GNot)
      show ?thesis using e s k(2) m ch[of c] by (auto simp: exact_def mask_bit_offsets nh GNot children_def)
    next
      case (GAnd l r)
      have e: "offs' = offs[k := offsets Intersection (offs ! l) (offs ! r) m]" "stats' = stats" "s' = s"
        using st nb True by (simp_all add: offset_node_def bit_needed GAnd)
      show ?thesis using e s k(2) m ch[of l] ch[of r] by (auto simp: exact_def mask_bit_offsets nh GAnd children_def)
    next
      case (GOr l r)
      have e: "offs' = offs[k := offsets Union (offs ! l) (offs ! r) m]" "stats' = stats" "s' = s"
        using st nb True by (simp_all add: offset_node_def bit_needed GOr)
      show ?thesis using e s k(2) m ch[of l] ch[of r] by (auto simp: exact_def mask_bit_offsets nh GOr children_def)
    next
      case (GDifference l r)
      have e: "offs' = offs[k := offsets Difference (offs ! l) (offs ! r) m]" "stats' = stats" "s' = s"
        using st nb True by (simp_all add: offset_node_def bit_needed GDifference)
      show ?thesis using e s k(2) m ch[of l] ch[of r] by (auto simp: exact_def mask_bit_offsets nh GDifference children_def)
    qed
  qed
qed

lemma exact_pass:
  assumes ok: "program_ok terms program" and pages: "pages = eval_pages term_pages live_pages program pages0" "length program \<le> length pages0"
    and m: "length m = 8" "\<forall>b. mask_bit m b \<longleftrightarrow> live (unat page) b"
  defines "needed \<equiv> dependencies program pages page"
  shows "k \<le> length program \<Longrightarrow> invar s \<Longrightarrow> length program \<le> length offs \<Longrightarrow>
    try_fold (offset_node ops pages m needed page) (offs, stats, s) (enumerate 0 (take k program)) = Inr (offs', stats', s') \<Longrightarrow>
    invar s' \<and> length offs' = length offs \<and> st_emitted_tids stats' = st_emitted_tids stats \<and>
    (\<forall>i < k. bit needed i \<longrightarrow> exact program i (unat page) (offs' ! i))"
proof (induction k arbitrary: offs' stats' s')
  case (Suc k)
  have k: "k < length program" using Suc.prems(1) by simp
  from Suc.prems(4) obtain o1 t1 s1 where
    f: "try_fold (offset_node ops pages m needed page) (offs, stats, s) (enumerate 0 (take k program)) = Inr (o1, t1, s1)"
    and st: "offset_node ops pages m needed page (o1, t1, s1) (k, program ! k) = Inr (offs', stats', s')"
    using k by (auto simp: take_Suc_conv_app_nth enumerate_append_eq try_fold_append res_simps)
  from Suc.IH[OF _ Suc.prems(2,3) f] k have ih: "invar s1" "length o1 = length offs" "st_emitted_tids t1 = st_emitted_tids stats"
    "\<forall>i < k. bit needed i \<longrightarrow> exact program i (unat page) (o1 ! i)" by auto
  have "k < length o1" using k Suc.prems(3) ih(2) by simp
  note e = exact_node[OF ok pages m needed_def[THEN meta_eq_to_obj_eq] k this ih(1,4) st]
  then show ?case using ih(2-4) by (auto simp: less_Suc_eq nth_list_update)
qed auto

lemma exact_unique: "exact program i p m \<Longrightarrow> exact program i p m' \<Longrightarrow> m = m'"
  by (rule mask_eqI) (simp_all add: exact_def)

definition match_mask :: "group_node list \<Rightarrow> nat \<Rightarrow> offset_mask" where
  "match_mask program p = (SOME m. exact program (length program - 1) p m)"

definition matched :: "group_node list \<Rightarrow> nat \<Rightarrow> bool" where
  "matched program p \<longleftrightarrow> (\<exists>b. node_holds posted live program (length program - 1) p b)"

lemma match_maskI: "exact program (length program - 1) p m \<Longrightarrow> match_mask program p = m"
  unfolding match_mask_def by (rule some_equality) (auto intro: exact_unique)

lemma mask_count:
  assumes "length m = 8"
  shows "sum_list (map (\<lambda>word. of_nat (count_ones word)) m) = (of_nat (length (mask_list m)) :: u32)"
    "(of_nat (length (mask_list m)) :: u32) = 0 \<longleftrightarrow> (\<forall>b. \<not> mask_bit m b)"
proof -
  have "sum_list (map (\<lambda>word. of_nat (count_ones word)) ws) = (of_nat (sum_list (map count_ones ws)) :: u32)" for ws :: "u64 list"
    by (induction ws) simp_all
  then show "sum_list (map (\<lambda>word. of_nat (count_ones word)) m) = (of_nat (length (mask_list m)) :: u32)"
    by (simp add: length_mask_list)
  have "length (mask_list m) \<le> 512" using length_mask_list_le[of m] assms by simp
  then have "(of_nat (length (mask_list m)) :: u32) = 0 \<longleftrightarrow> length (mask_list m) = 0"
    using unat_u32_of_nat[of "length (mask_list m)"] unat_eq_zero[of "of_nat (length (mask_list m)) :: u32"] by simp
  moreover have "length (mask_list m) = 0 \<longleftrightarrow> (\<forall>b. \<not> mask_bit m b)"
    using set_mask_list[of m] by (auto simp: mask_set_def simp del: set_mask_list)
  ultimately show "(of_nat (length (mask_list m)) :: u32) = 0 \<longleftrightarrow> (\<forall>b. \<not> mask_bit m b)" by simp
qed

lemma page_exact:
  assumes ok: "program_ok terms program" and pages: "pages = eval_pages term_pages live_pages program pages0" "length program \<le> length pages0"
    and s: "invar (ev_source st)" "length program \<le> length (ev_offsets st)"
    and e: "evaluate_page ops (\<lambda>out block m. Inr (out @ [(block, m)])) program pages st page = Inr st'"
  shows "invar (ev_source st') \<and> length (ev_offsets st') = length (ev_offsets st) \<and>
    exact program (length program - 1) (unat page) (match_mask program (unat page)) \<and>
    ev_emit st' = ev_emit st @ (if matched program (unat page) then [(gk_base key OR ucast page, match_mask program (unat page))] else []) \<and>
    st_emitted_tids (ev_stats st') = st_emitted_tids (ev_stats st) + of_nat (length (mask_list (match_mask program (unat page))))"
proof -
  let ?n = "length program" and ?p = "unat page"
  have n: "0 < ?n" using ok by (auto simp: program_ok_def)
  let ?stats = "(ev_stats st)\<lparr>st_candidate_pages := st_candidate_pages (ev_stats st) + 1\<rparr>"
  let ?count = "\<lambda>offs. sum_list (map (\<lambda>word. of_nat (count_ones word)) (offs ! (?n - 1))) :: u32"
  let ?fin = "\<lambda>offs stats source. if ?count offs \<noteq> 0 then
       and_then (group_block (gs_key ops source) page) (\<lambda>block.
       Inr \<lparr>ev_offsets = offs, ev_stats = stats\<lparr>st_emitted_tids := st_emitted_tids stats + ?count offs\<rparr>, ev_source = source,
         ev_emit = ev_emit st @ [(block, offs ! (?n - 1))]\<rparr>)
     else Inr (st\<lparr>ev_offsets := offs, ev_stats := stats, ev_source := source\<rparr>)"
  let ?rest = "\<lambda>live s2. if list_all (\<lambda>word. word = 0) live then Inr (st\<lparr>ev_stats := ?stats, ev_source := s2\<rparr>) else
     and_then (try_fold (offset_node ops pages live (dependencies program pages page) page)
         (ev_offsets st, ?stats\<lparr>st_live_pages := st_live_pages ?stats + 1\<rparr>, s2) (enumerate 0 program))
       (\<lambda>(offs, stats, source). ?fin offs stats source)"
  from e obtain s1 m s2 where s1: "gs_interrupt ops (ev_source st) = Inr s1" and s2: "gs_live_offsets ops s1 page = Inr (m, s2)"
    and r: "?rest m s2 = Inr st'"
    by (simp only: evaluate_page_def Let_def and_then.simps and_then_Inr_iff split_paired_Ex prod.case) blast
  have i1: "invar s1" by (rule interrupt[OF s(1) s1])
  note lv = live_offsets[OF i1 s2]
  show ?thesis
  proof (cases "list_all (\<lambda>word. word = 0) m")
    case True
    then have z: "\<not> live ?p b" for b using lv by (simp add: mask_zero_iff)
    then have nh: "\<not> node_holds posted live program (?n - 1) ?p b" for b by (subst node_holds.simps) simp
    then have ex: "exact program (?n - 1) ?p (replicate 8 0)" by (simp add: exact_def)
    have "st' = st\<lparr>ev_stats := ?stats, ev_source := s2\<rparr>" using r True by simp
    then show ?thesis using lv nh ex match_maskI[OF ex] mask_list_zero[of "replicate 8 0"] by (simp add: matched_def)
  next
    case False
    then obtain offs stats s3 where f: "try_fold (offset_node ops pages m (dependencies program pages page) page)
         (ev_offsets st, ?stats\<lparr>st_live_pages := st_live_pages ?stats + 1\<rparr>, s2) (enumerate 0 program) = Inr (offs, stats, s3)"
      and r2: "?fin offs stats s3 = Inr st'"
      using r by (simp only: if_False and_then_Inr_iff split_paired_Ex prod.case) blast
    have m8: "length m = 8" "\<forall>b. mask_bit m b \<longleftrightarrow> live ?p b" "invar s2" using lv by auto
    have "invar s3 \<and> length offs = length (ev_offsets st) \<and> st_emitted_tids stats = st_emitted_tids (ev_stats st) \<and>
        (\<forall>i < ?n. bit (dependencies program pages page) i \<longrightarrow> exact program i ?p (offs ! i))"
      using exact_pass[OF ok pages m8(1,2), of ?n s2 "ev_offsets st"] f m8(3) s(2) by simp
    then have x: "invar s3" "length offs = length (ev_offsets st)" "st_emitted_tids stats = st_emitted_tids (ev_stats st)"
      "exact program (?n - 1) ?p (offs ! (?n - 1))"
      using dependencies_closed(1)[OF ok, of pages page] n by auto
    note mm = match_maskI[OF x(4)]
    have l8: "length (offs ! (?n - 1)) = 8" using x(4) by (simp add: exact_def)
    have mt: "matched program ?p \<longleftrightarrow> (\<exists>b. mask_bit (offs ! (?n - 1)) b)" using x(4) by (simp add: matched_def exact_def)
    note c = mask_count[OF l8]
    show ?thesis
    proof (cases "matched program ?p")
      case True
      then have "(of_nat (length (mask_list (offs ! (?n - 1)))) :: u32) \<noteq> 0" using c(2) mt by blast
      then show ?thesis using r2 True x mm geometry[OF x(1)] unfolding c(1)
        by (auto simp: Let_def res_simps group_block_def split: if_splits)
    next
      case False
      then have z: "(of_nat (length (mask_list (offs ! (?n - 1)))) :: u32) = 0" using c(2) mt by blast
      then show ?thesis using r2 False x mm unfolding c(1) by (auto simp: Let_def)
    qed
  qed
qed

lemma pages_exact:
  assumes ok: "program_ok terms program" and pages: "pages = eval_pages term_pages live_pages program pages0" "length program \<le> length pages0"
  shows "invar (ev_source st) \<Longrightarrow> length program \<le> length (ev_offsets st) \<Longrightarrow>
    try_fold (evaluate_page ops (\<lambda>out block m. Inr (out @ [(block, m)])) program pages) st ps = Inr st' \<Longrightarrow>
    (\<forall>p \<in> set ps. exact program (length program - 1) (unat p) (match_mask program (unat p))) \<and>
    ev_emit st' = ev_emit st @ map (\<lambda>p. (gk_base key OR ucast p, match_mask program (unat p))) (filter (\<lambda>p. matched program (unat p)) ps) \<and>
    st_emitted_tids (ev_stats st') = st_emitted_tids (ev_stats st) +
      of_nat (sum_list (map (\<lambda>p. length (mask_list (match_mask program (unat p)))) ps))"
proof (induction ps arbitrary: st)
  case (Cons p ps)
  from Cons.prems(3) obtain st1 where
    e: "evaluate_page ops (\<lambda>out block m. Inr (out @ [(block, m)])) program pages st p = Inr st1"
    and r: "try_fold (evaluate_page ops (\<lambda>out block m. Inr (out @ [(block, m)])) program pages) st1 ps = Inr st'"
    by (auto simp: res_simps)
  note x = page_exact[OF ok pages Cons.prems(1,2) e]
  have "invar (ev_source st1)" "length program \<le> length (ev_offsets st1)" using x Cons.prems(2) by auto
  from Cons.IH[OF this r] x show ?case by auto
qed auto

lemma evaluate_exact_source:
  assumes s: "invar s" and sc: "length (qs_pages scratch) = 64" "length (qs_offsets scratch) = 64"
    and e: "evaluate_source ops (\<lambda>out block m. Inr (out @ [(block, m)])) s program scratch [] = Inr (stats, scratch', s', out)"
  shows "program_ok terms program"
    "out = map (\<lambda>p. (gk_base key OR of_nat p, match_mask program p)) (filter (matched program) [0..<256])"
    "p < 256 \<Longrightarrow> matched program p \<Longrightarrow> exact program (length program - 1) p (match_mask program p)"
    "unat (st_emitted_tids stats) = sum_list (map (\<lambda>(_, m). length (mask_list m)) out)"
proof -
  let ?emit = "\<lambda>out block m. Inr (out @ [(block :: u32, m :: offset_mask)])"
  let ?pages = "eval_pages term_pages live_pages program (qs_pages scratch)"
  from e obtain s1 st where s1: "gs_interrupt ops s = Inr s1" and v: "validate_program (gs_terms ops s1) program = Inr ()"
    and f: "try_fold (evaluate_page ops ?emit program (eval_pages (gs_term_pages ops s1) (gs_live_pages ops s1) program (qs_pages scratch)))
        \<lparr>ev_offsets = qs_offsets scratch, ev_stats = query_stats_default, ev_source = s1, ev_emit = []\<rparr>
        (page_items (eval_pages (gs_term_pages ops s1) (gs_live_pages ops s1) program (qs_pages scratch) ! (length program - 1))) = Inr st"
    and o: "stats = ev_stats st" "out = ev_emit st"
    by (auto simp: evaluate_source_def Let_def res_simps)
  have i1: "invar s1" by (rule interrupt[OF s s1])
  show ok: "program_ok terms program" using v geometry[OF i1] by (simp add: validate_program_Inr)
  have n: "0 < length program" "length program \<le> 64" using ok by (auto simp: program_ok_def)
  let ?root = "?pages ! (length program - 1)"
  have pn: "length program \<le> length (qs_pages scratch)" using n sc by simp
  have "length ?root = 4"
    using eval_pages_nodes(2)[OF ok pn, of "length program - 1"] n(1) length_page_node live_summary[OF i1] by (metis diff_less zero_less_one)
  then have ps: "map unat (page_items ?root) = mask_list ?root"
    by (rule page_items_unat)
  have g: "gs_term_pages ops s1 = term_pages" "gs_live_pages ops s1 = live_pages" using geometry[OF i1] by auto
  have no: "length program \<le> length (qs_offsets scratch)" using n sc by simp
  note x = pages_exact[OF ok refl pn _ _ f[unfolded g], simplified, OF i1 no]
  have cover: "mask_bit ?root p" if "p < 256" "matched program p" for p
    using that summary_covers[OF ok pn, of live_pages live term_pages posted "length program - 1" p] live_summary[OF i1] term_summary[OF i1] n(1)
    by (auto simp: matched_def)
  have fl: "filter (matched program) [0..<256] = filter (matched program) (mask_list ?root)"
  proof (rule ascending_unique)
    show "set (filter (matched program) [0..<256]) = set (filter (matched program) (mask_list ?root))"
      using cover mask_bit_lt[of ?root] \<open>length ?root = 4\<close> by (auto simp: mask_set_def)
  qed (simp_all add: sorted_wrt_filter)
  have pm: "map (\<lambda>p. (gk_base key OR ucast p, match_mask program (unat p))) (filter (\<lambda>p. matched program (unat p)) qs) =
      map (\<lambda>p. (gk_base key OR of_nat p, match_mask program p)) (filter (matched program) (map unat qs))" for qs :: "u8 list"
    by (induction qs) auto
  show out: "out = map (\<lambda>p. (gk_base key OR of_nat p, match_mask program p)) (filter (matched program) [0..<256])"
    using x unfolding o(2) fl ps[symmetric] by (simp add: pm)
  show ex: "exact program (length program - 1) p (match_mask program p)" if "p < 256" "matched program p" for p
  proof -
    have "p \<in> set (map unat (page_items ?root))" unfolding ps using cover[OF that] by (simp add: mask_set_def)
    then show ?thesis using x by auto
  qed
  have z: "length (mask_list (match_mask program (unat p))) = 0" if "p \<in> set (page_items ?root)" "\<not> matched program (unat p)" for p
    using x that by (auto simp: exact_def matched_def mask_list_def)
  have "sum_list (map (\<lambda>p. length (mask_list (match_mask program (unat p)))) qs) =
      sum_list (map (\<lambda>(_, m). length (mask_list m)) (map (\<lambda>p. (gk_base key OR ucast p, match_mask program (unat p))) (filter (\<lambda>p. matched program (unat p)) qs)))"
    if "set qs \<subseteq> set (page_items ?root)" for qs :: "u8 list"
    using that by (induction qs) (auto simp: z)
  from this[OF subset_refl] x have em: "st_emitted_tids stats = of_nat (sum_list (map (\<lambda>(_, m). length (mask_list m)) out))"
    unfolding o by (simp add: query_stats_default_def)
  have "sum_list (map (\<lambda>(_, m). length (mask_list m)) out) \<le> length out * 512"
  proof -
    have "length (mask_list m) \<le> 512" if m: "(b, m) \<in> set out" for b m
    proof -
      obtain p where "p < 256" "matched program p" "m = match_mask program p" using m unfolding out by auto
      then have "length m = 8" using ex[of p] by (simp add: exact_def)
      then show ?thesis using length_mask_list_le[of m] by simp
    qed
    then show ?thesis by (intro sum_list_bounded) auto
  qed
  moreover have "length out \<le> 256" unfolding out by (metis (no_types, lifting) diff_zero length_filter_le length_map length_upt)
  ultimately show "unat (st_emitted_tids stats) = sum_list (map (\<lambda>(_, m). length (mask_list m)) out)"
    unfolding em by (intro unat_u32_of_nat) simp
qed

end

text \<open>The masks a bitmap decodes to.\<close>

definition offset_bit :: "bitmap \<Rightarrow> nat \<Rightarrow> nat \<Rightarrow> bool" where
  "offset_bit bm p b = (case bitmap_offsets bm (of_nat p) of Inl _ \<Rightarrow> False | Inr m \<Rightarrow> mask_bit m b)"

lemma fold_update_length: "length (fold (\<lambda>(index, word) result. result[index := f word]) xs r) = length r"
  by (induction xs arbitrary: r) auto

lemma guarded_update_length: "(if c then Inl e else Inr (if t then r[i := v] else r)) = Inr m \<Longrightarrow> length m = length r"
  by (auto split: if_splits)

lemma bitmap_offsets_length:
  assumes "bitmap_offsets bm page = Inr m"
  shows "length m = 8"
proof (cases "bitmap_span bm page")
  case None
  then show ?thesis using assms by (auto simp: bitmap_offsets_def)
next
  case (Some r)
  obtain s len where r: "bitmap_span bm page = Some (s, len)" using Some by (cases r) auto
  from guarded_update_length[OF assms[unfolded bitmap_offsets_def r option.case prod.case Let_def]]
  show ?thesis by (simp only: fold_update_length length_replicate)
qed

lemma offset_bit_mask: "bitmap_offsets bm page = Inr m \<Longrightarrow> mask_bit m b \<longleftrightarrow> offset_bit bm (unat page) b"
  by (simp add: offset_bit_def)

lemma offset_bit_page:
  assumes "length (bitmap_pages bm) = 4" "p < 256" "offset_bit bm p b"
  shows "mask_bit (bitmap_pages bm) p"
proof (rule ccontr)
  assume n: "\<not> mask_bit (bitmap_pages bm) p"
  have "unat (of_nat p :: u8) = p" using assms(2) by (simp add: unat_u8_of_nat)
  then have "bitmap_span bm (of_nat p) = None"
    using n mask_contains_bit[OF assms(1), of "of_nat p"] by (simp add: bitmap_span_def bitmap_pages_def)
  then show False using assms(3) by (simp add: offset_bit_def bitmap_offsets_def)
qed

definition memory_ok :: "segment_group \<Rightarrow> bitmap list \<Rightarrow> 'i memory_source \<Rightarrow> bool" where
  "memory_ok seg terms s \<longleftrightarrow> ms_segment s = seg \<and> ms_terms s = terms \<and>
     length (bitmap_pages (sg_live seg)) = 4 \<and> (\<forall>t \<in> set terms. length (bitmap_pages t) = 4)"

interpretation memory: source_laws "memory_source_ops interrupt" "memory_ok seg terms" "segment_group_key seg" "length terms"
  "bitmap_pages (sg_live seg)" "\<lambda>t. bitmap_pages (terms ! t)" "offset_bit (sg_live seg)" "\<lambda>t. offset_bit (terms ! t)"
  for interrupt :: "'i \<Rightarrow> 'i result" and seg terms
  by unfold_locales
    (auto simp: memory_source_ops_def memory_ok_def res_simps bitmap_offsets_length offset_bit_mask intro: offset_bit_page)

lemma read_words:
  "try_fold (\<lambda>(m, reader) _. and_then (from_codec (reader_u64 reader)) (\<lambda>(word, reader). Inr (m @ [word], reader))) (m0, r) is = Inr (m, r') \<Longrightarrow>
    length m = length m0 + length is"
  by (induction "is" arbitrary: m0 r) (fastforce simp: res_simps)+

lemma header_read_mask: "header_read bs = Inr h \<Longrightarrow> length (hd_mask h) = 4"
  by (auto simp: header_read_def res_simps simp del: try_fold.simps upt_rec_numeral dest!: read_words split: if_splits)

lemma bitmap_open_mask: "bitmap_open bs = Inr bm \<Longrightarrow> length (bitmap_pages bm) = 4"
  by (auto simp: bitmap_open_def Let_def res_simps bitmap_pages_def dest!: header_read_mask split: if_splits)

lemma segment_live_mask: "segment_group_open mb lb = Inr seg \<Longrightarrow> length (bitmap_pages (sg_live seg)) = 4"
  by (auto simp: segment_group_open_def res_simps dest!: bitmap_open_mask split: if_splits)

section \<open>A small group\<close>

text \<open>Three members on two pages, all live, and a term of the last two, for the witnesses.\<close>

definition sample_group :: group_key where
  "sample_group = \<lparr>gk_relation = 1, gk_segment = 1, gk_base = 256, gk_layout = \<lparr>max_offset = 16\<rparr>\<rparr>"

definition sample_header :: "u8 \<Rightarrow> u8 \<Rightarrow> u8 \<Rightarrow> bytes" where
  "sample_header kind len count = [80, 78, 71, 57, 1, 0, kind, 0, len, 0, 0, 0, 0, 1, 0, 0, 1, 0, 0, 0, 0,
     0, 0, 0, 1, 0, 0, 0, 0, 0, 0, 0, 16, 0, 2, 0, count, 0, 0, 0, 2, 0, 0, 0, 0, 16, 0, 0] @ replicate 24 0"

definition sample_member_bytes :: bytes where
  "sample_member_bytes = sample_header 3 120 3 @ [1, 1, 0, 0, 1, 0, 0, 0, 5, 0, 0, 0, 0, 0, 0, 0,
     1, 1, 0, 0, 9, 0, 0, 0, 6, 0, 0, 0, 0, 0, 0, 0, 44, 1, 0, 0, 2, 0, 0, 0, 7, 0, 0, 0, 0, 0, 0, 0]"

definition sample_live_bytes :: bytes where
  "sample_live_bytes = sample_header 2 83 0 @ [0, 0, 2, 0, 2, 0, 1, 0, 1, 1, 2]"

definition sample_posting_bytes :: bytes where
  "sample_posting_bytes = sample_header 1 83 0 @ [0, 0, 2, 0, 2, 0, 1, 0, 0, 1, 2]"

definition sample_head :: "u8 \<Rightarrow> u32 \<Rightarrow> header" where
  "sample_head kind count = \<lparr>hd_key = sample_group, hd_kind = kind, hd_count = count, hd_mask = [17592186044418, 0, 0, 0]\<rparr>"

definition sample_segment :: segment_group where
  "sample_segment =
     \<lparr>sg_members = \<lparr>mm_bytes = sample_member_bytes, mm_header = sample_head 3 3\<rparr>,
      sg_live = \<lparr>bm_bytes = sample_live_bytes, bm_header = sample_head 2 0, bm_body = 80, bm_prefixes = [0, 2, 2, 2]\<rparr>\<rparr>"

definition sample_posting :: bitmap where
  "sample_posting = \<lparr>bm_bytes = sample_posting_bytes, bm_header = sample_head 1 0, bm_body = 80, bm_prefixes = [0, 2, 2, 2]\<rparr>"

lemma sample_segment_open: "segment_group_open sample_member_bytes sample_live_bytes = Inr sample_segment"
  by code_simp

lemma sample_posting_open: "bitmap_open sample_posting_bytes = Inr sample_posting"
  by code_simp

section \<open>Properties\<close>

text \<open>C36: the pruned evaluation of a Boolean program over a segment group is exact: when it
  returns, the emitted pages are exactly the pages with a match, in heap order and once each under
  their block numbers, the mask emitted for a page has exactly the offsets of which the program's
  last node holds (relative to the live documents, with the terms' decoded postings), and the number
  of emitted coordinates it reports is the size of these masks.\<close>

theorem evaluate_exact:
  assumes "segment_group_open mb lb = Inr seg" "\<forall>t \<in> set terms. \<exists>bs. bitmap_open bs = Inr t"
    and "length (qs_pages scratch) = MAX_NODES" "length (qs_offsets scratch) = MAX_NODES"
    and "evaluate seg terms program scratch interrupt i (\<lambda>out block m. Inr (out @ [(block, m)])) [] = Inr (stats, scratch', s, out)"
  shows "\<exists>M. out = map (\<lambda>p. (gk_base (segment_group_key seg) OR of_nat p, M p))
        (filter (\<lambda>p. \<exists>b. node_holds (\<lambda>t. offset_bit (terms ! t)) (offset_bit (sg_live seg)) program (length program - 1) p b) [0..<256]) \<and>
    (\<forall>p b. p < 256 \<and> node_holds (\<lambda>t. offset_bit (terms ! t)) (offset_bit (sg_live seg)) program (length program - 1) p b \<longrightarrow>
       length (M p) = OFFSET_WORDS \<and>
       (\<forall>b. mask_bit (M p) b \<longleftrightarrow> node_holds (\<lambda>t. offset_bit (terms ! t)) (offset_bit (sg_live seg)) program (length program - 1) p b)) \<and>
    unat (st_emitted_tids stats) = sum_list (map (\<lambda>(_, m). card (mask_set m)) out)"
proof -
  let ?s = "\<lparr>ms_segment = seg, ms_terms = terms, ms_interrupt = i\<rparr>"
  have "memory_ok seg terms ?s"
    using segment_live_mask[OF assms(1)] assms(2) bitmap_open_mask by (auto simp: memory_ok_def)
  note x = memory.evaluate_exact_source[OF this, of scratch interrupt program stats scratch' s out]
  have e: "evaluate_source (memory_source_ops interrupt) (\<lambda>out block m. Inr (out @ [(block, m)])) ?s program scratch [] =
      Inr (stats, scratch', s, out)"
    using assms(5) by (simp add: evaluate_def split: if_splits)
  have sc: "length (qs_pages scratch) = 64" "length (qs_offsets scratch) = 64" using assms(3,4) by (simp_all add: MAX_NODES_def)
  note y = x[OF sc e]
  have m: "memory.matched seg terms program =
      (\<lambda>p. \<exists>b. node_holds (\<lambda>t. offset_bit (terms ! t)) (offset_bit (sg_live seg)) program (length program - 1) p b)"
    by (rule ext) (simp add: memory.matched_def)
  show ?thesis
    by (rule exI[of _ "memory.match_mask seg terms program"])
      (use y[unfolded m memory.exact_def] in \<open>auto simp: OFFSET_WORDS_def card_mask_set case_prod_unfold\<close>)
qed

theorem evaluate_exact_witness:
  "\<exists>stats scratch' s.
     evaluate sample_segment [sample_posting] [GTerm 0, GNot 0] query_scratch_default (\<lambda>i. Inr i) ()
       (\<lambda>out block m. Inr (out @ [(block, m)])) [] = Inr (stats, scratch', s, [(257, [1, 0, 0, 0, 0, 0, 0, 0])]) \<and>
     unat (st_emitted_tids stats) = 1 \<and>
     filter (\<lambda>p. \<exists>b. node_holds (\<lambda>k. offset_bit ([sample_posting] ! k)) (offset_bit (sg_live sample_segment)) [GTerm 0, GNot 0] 1 p b)
       [0..<256] = [1]"
proof -
  have "(case evaluate sample_segment [sample_posting] [GTerm 0, GNot 0] query_scratch_default (\<lambda>i. Inr i) ()
      (\<lambda>out block m. Inr (out @ [(block, m)])) [] of
        Inl _ \<Rightarrow> None | Inr (stats, scratch', s, out) \<Rightarrow> Some (out, st_emitted_tids stats)) = Some ([(257, [1, 0, 0, 0, 0, 0, 0, 0])], 1)"
    by code_simp
  then obtain stats scratch' s where x: "st_emitted_tids stats = 1"
    "evaluate sample_segment [sample_posting] [GTerm 0, GNot 0] query_scratch_default (\<lambda>i. Inr i) () (\<lambda>out block m. Inr (out @ [(block, m)])) [] =
       Inr (stats, scratch', s, [(257, [1, 0, 0, 0, 0, 0, 0, 0])])"
    by (auto split: sum.splits prod.splits)
  let ?f = "filter (\<lambda>p. \<exists>b. node_holds (\<lambda>k. offset_bit ([sample_posting] ! k)) (offset_bit (sg_live sample_segment)) [GTerm 0, GNot 0] 1 p b) [0..<256]"
  have b: "gk_base (segment_group_key sample_segment) = 256"
    by (simp add: segment_group_key_def members_key_def sample_segment_def sample_head_def sample_group_def)
  have "\<forall>t \<in> set [sample_posting]. \<exists>bs. bitmap_open bs = Inr t" using sample_posting_open by auto
  from evaluate_exact[OF sample_segment_open this _ _ x(2)] obtain M where
    "[(257 :: u32, [1, 0, 0, 0, 0, 0, 0, 0])] = map (\<lambda>p. (256 OR of_nat p, M p)) ?f"
    by (auto simp: query_scratch_default_def MAX_NODES_def b simp del: upt_rec_numeral)
  then obtain p where p: "?f = [p]" "(257 :: u32) = 256 OR of_nat p" by (cases ?f) auto
  have "p < 256" using p(1) by (metis (no_types, lifting) atLeastLessThan_iff filter_is_subset list.set_intros(1) set_upt subsetD)
  have "take_bit 8 (257 :: u32) = take_bit 8 (of_nat p)"
    unfolding p(2) by (simp add: take_bit_or)
  then have "unat (of_nat p :: u32) mod 256 = 1"
    by (simp add: word_unat_eq_iff unsigned_take_bit_eq take_bit_eq_mod unat_mod)
  then have "p = 1" using unat_u32_of_nat[of p] \<open>p < 256\<close> by simp
  then show ?thesis using x p(1) by auto
qed

end
