(* ===== verification/PageBase.thy ===== *)
theory PageBase
  imports Records Analysis
begin

text \<open>
  Private page images (crates/pin-core/src/mutable/page.rs, first part): constants, page kinds, owner
  and term references, the image itself with its header, and the checked field accessors.

  An operation on \<open>&mut self\<close> returns the changed image. When it fails the caller abandons the whole
  host operation together with the private image, so a failure returns no image; only \<open>reload_with\<close>,
  whose failure invalidates a reused buffer, returns one in both cases. A closure that fills a
  caller's buffer is a function on that buffer.
\<close>

section \<open>Constants\<close>

definition MAX_TERM_BYTES :: nat where
  "MAX_TERM_BYTES = 1024"

definition MAX_DOCUMENT_TOKENS :: u32 where
  "MAX_DOCUMENT_TOKENS = 262144"

definition MAX_DOCUMENT_BYTES :: nat where
  "MAX_DOCUMENT_BYTES = 8388608"

definition NO_BLOCK :: u32 where
  "NO_BLOCK = 0xFFFFFFFF"

definition CAPACITY :: nat where
  "CAPACITY = 8192 - 24"

definition BUCKETS :: nat where
  "BUCKETS = 512"

definition MAX_WAL_PAGES :: nat where
  "MAX_WAL_PAGES = 3"

definition PAGE_HEADER :: nat where
  "PAGE_HEADER = 16"

definition META_HEADER :: nat where
  "META_HEADER = 64"

definition OWNER_HEADER :: nat where
  "OWNER_HEADER = 20"

definition OWNER_BYTES :: nat where
  "OWNER_BYTES = 40"

definition DICTIONARY_ENTRY :: nat where
  "DICTIONARY_ENTRY = 32"

definition POSTING_HEADER :: nat where
  "POSTING_HEADER = 24"

definition DIRECT_HEADER :: nat where
  "DIRECT_HEADER = POSTING_HEADER + 32"

definition FRAGMENT_HEADER :: nat where
  "FRAGMENT_HEADER = 36"

definition FRAGMENT_BYTES :: nat where
  "FRAGMENT_BYTES = CAPACITY - FRAGMENT_HEADER"

definition INLINE_BYTES :: nat where
  "INLINE_BYTES = CAPACITY - OWNER_HEADER - OWNER_BYTES"

text \<open>The literals of the page header.\<close>

definition PIN2 :: bytes where
  "PIN2 = [0x50, 0x49, 0x4E, 0x32]"

datatype page_kind =
    Zero | Meta | Owners | DictionaryPage | Postings | SealedPostings | DirectPostings | Grouped | Fragment | Free

definition corrupt :: "nat \<Rightarrow> error" where
  "corrupt offset = Codec (CodecError offset InvalidValue)"

definition block_valid :: "u32 \<Rightarrow> bool" where
  "block_valid block \<longleftrightarrow> block \<noteq> 0 \<and> block \<noteq> NO_BLOCK"

definition posting_pair_valid :: "u32 \<Rightarrow> u32 \<Rightarrow> bool" where
  "posting_pair_valid head tail \<longleftrightarrow>
     (head = NO_BLOCK \<and> tail = NO_BLOCK) \<or> (block_valid head \<and> block_valid tail)"

definition pair_valid :: "u32 \<Rightarrow> u32 \<Rightarrow> bool" where
  "pair_valid head tail \<longleftrightarrow>
     (head = NO_BLOCK \<and> tail = NO_BLOCK) \<or> (block_valid head \<and> block_valid tail \<and> tail \<ge> head)"

datatype rewrite_phase = Building | Retiring

record rewrite_journal =
  rj_head :: u32
  rj_tail :: u32
  rj_phase :: rewrite_phase

text \<open>\<open>phase as u32\<close>.\<close>

fun rewrite_phase_tag :: "rewrite_phase \<Rightarrow> u32" where
  "rewrite_phase_tag Building = 1"
| "rewrite_phase_tag Retiring = 2"

section \<open>References\<close>

record owner_ref =
  or_page :: u32
  or_slot :: u16
  or_incarnation :: incarnation

text \<open>The number of slots of an owner page: \<open>(CAPACITY - OWNER_HEADER) / OWNER_BYTES\<close>.\<close>

definition OWNER_SLOTS :: nat where
  "OWNER_SLOTS = (CAPACITY - OWNER_HEADER) div OWNER_BYTES"

definition owner_ref_read :: "reader \<Rightarrow> (owner_ref \<times> reader) result" where
  "owner_ref_read reader =
     and_then (from_codec (reader_u32 reader)) (\<lambda>(page, reader).
     and_then (from_codec (reader_u16 reader)) (\<lambda>(slot, reader).
     and_then (from_codec (reader_u16 reader)) (\<lambda>(reserved, reader).
     and_then (from_codec (reader_u64 reader)) (\<lambda>(v, reader).
     and_then (map_err (\<lambda>_. corrupt (rd_offset reader)) (identifier_new v)) (\<lambda>incarnation.
     if \<not> block_valid page \<or> unat slot \<ge> OWNER_SLOTS \<or> reserved \<noteq> 0 then Inl (corrupt (rd_offset reader))
     else Inr (\<lparr>or_page = page, or_slot = slot, or_incarnation = incarnation\<rparr>, reader))))))"

definition owner_ref_write :: "owner_ref \<Rightarrow> writer \<Rightarrow> writer result" where
  "owner_ref_write self writer =
     (if \<not> block_valid (or_page self) \<or> unat (or_slot self) \<ge> OWNER_SLOTS then Inl (corrupt (wr_offset writer)) else
      and_then (from_codec (writer_u32 writer (or_page self))) (\<lambda>writer.
      and_then (from_codec (writer_u16 writer (or_slot self))) (\<lambda>writer.
      and_then (from_codec (writer_u16 writer 0)) (\<lambda>writer.
      from_codec (writer_u64 writer (or_incarnation self))))))"

text \<open>\<open>(a.page, a.slot) <= (b.page, b.slot)\<close>.\<close>

definition slot_le :: "owner_ref \<Rightarrow> owner_ref \<Rightarrow> bool" where
  "slot_le a b \<longleftrightarrow> or_page a < or_page b \<or> (or_page a = or_page b \<and> or_slot a \<le> or_slot b)"

text \<open>\<open>(a.page, a.slot) <= (b.page, b.slot) || a.incarnation <= b.incarnation\<close>: not after.\<close>

definition not_after :: "owner_ref \<Rightarrow> owner_ref \<Rightarrow> bool" where
  "not_after a b \<longleftrightarrow> slot_le a b \<or> or_incarnation a \<le> or_incarnation b"

record term_ref =
  tr_page :: u32
  tr_offset :: u16

record owner =
  ow_reference :: owner_ref
  ow_root :: root_tid
  ow_publication :: publication
  ow_live :: bool
  ow_tokens :: u32
  ow_terms :: u32
  ow_data_head :: u32
  ow_data_bytes :: u32
  ow_inline :: bytes

record dict_term =
  te_reference :: term_ref
  te_term :: str
  te_first :: owner_ref
  te_head :: u32
  te_tail :: u32
  te_inline_second :: "owner_ref option"
  te_shadow_second :: "owner_ref option"

datatype owner_change = PayloadReady u32 | Publish | Remove | Abandon

section \<open>Images\<close>

record page =
  pg_block :: u32
  pg_kind :: page_kind
  pg_len :: nat
  pg_initialize :: bool
  pg_bytes :: bytes

definition page_used :: "page \<Rightarrow> bytes" where
  "page_used self = take (pg_len self) (pg_bytes self)"

text \<open>\<open>slice.get(from..)\<close> and \<open>slice.get(from..to)\<close>.\<close>

definition get_from :: "bytes \<Rightarrow> nat \<Rightarrow> bytes option" where
  "get_from xs from = (if from \<le> length xs then Some (drop from xs) else None)"

definition get_range :: "bytes \<Rightarrow> nat \<Rightarrow> nat \<Rightarrow> bytes option" where
  "get_range xs from to = (if from \<le> to \<and> to \<le> length xs then Some (take (to - from) (drop from xs)) else None)"

definition page_u16 :: "page \<Rightarrow> nat \<Rightarrow> u16 result" where
  "page_u16 self offset =
     and_then (ok_or (corrupt offset) (get_from (page_used self) offset)) (\<lambda>bytes.
     and_then (from_codec (reader_u16 (reader_new bytes))) (\<lambda>(v, _). Inr v))"

definition page_u32 :: "page \<Rightarrow> nat \<Rightarrow> u32 result" where
  "page_u32 self offset =
     and_then (ok_or (corrupt offset) (get_from (page_used self) offset)) (\<lambda>bytes.
     and_then (from_codec (reader_u32 (reader_new bytes))) (\<lambda>(v, _). Inr v))"

definition page_u64 :: "page \<Rightarrow> nat \<Rightarrow> u64 result" where
  "page_u64 self offset =
     and_then (ok_or (corrupt offset) (get_from (page_used self) offset)) (\<lambda>bytes.
     and_then (from_codec (reader_u64 (reader_new bytes))) (\<lambda>(v, _). Inr v))"

text \<open>\<open>is_some_and\<close>.\<close>

definition is_some_and :: "'a option \<Rightarrow> ('a \<Rightarrow> bool) \<Rightarrow> bool" where
  "is_some_and x p \<longleftrightarrow> (case x of None \<Rightarrow> False | Some v \<Rightarrow> p v)"

text \<open>
  What a fallible iterator yields: the good items and, when it fails, the error that ends it. A loop
  \<open>for item in it { let item = item?; ... }\<close> runs its body on the items and then returns the error.
\<close>

type_synonym 'a items = "'a list \<times> error option"

definition for_items :: "('s \<Rightarrow> 'a \<Rightarrow> 's result) \<Rightarrow> 's \<Rightarrow> 'a items \<Rightarrow> 's result" where
  "for_items f s it =
     and_then (try_fold f s (fst it)) (\<lambda>s. case snd it of None \<Rightarrow> Inr s | Some e \<Rightarrow> Inl e)"

text \<open>A writer over \<open>&mut self.bytes[from..from + len]\<close>.\<close>

definition page_write :: "page \<Rightarrow> nat \<Rightarrow> nat \<Rightarrow> (writer \<Rightarrow> writer result) \<Rightarrow> page result" where
  "page_write self from len f =
     and_then (f (writer_new (take len (drop from (pg_bytes self))))) (\<lambda>writer.
     Inr (self\<lparr>pg_bytes := take from (pg_bytes self) @ wr_bytes writer @ drop (from + len) (pg_bytes self)\<rparr>))"

text \<open>\<open>self.bytes[from..to].copy_from_slice(bytes)\<close>.\<close>

definition page_copy :: "page \<Rightarrow> nat \<Rightarrow> bytes \<Rightarrow> page" where
  "page_copy self from bytes =
     self\<lparr>pg_bytes := take from (pg_bytes self) @ bytes @ drop (from + length bytes) (pg_bytes self)\<rparr>"

definition page_put_u16 :: "page \<Rightarrow> nat \<Rightarrow> u16 \<Rightarrow> page result" where
  "page_put_u16 self offset v =
     (if offset + 2 \<le> length (pg_bytes self) then page_write self offset 2 (\<lambda>w. from_codec (writer_u16 w v))
      else Inl (corrupt offset))"

definition page_put_u32 :: "page \<Rightarrow> nat \<Rightarrow> u32 \<Rightarrow> page result" where
  "page_put_u32 self offset v =
     (if offset + 4 \<le> length (pg_bytes self) then page_write self offset 4 (\<lambda>w. from_codec (writer_u32 w v))
      else Inl (corrupt offset))"

definition page_put_u64 :: "page \<Rightarrow> nat \<Rightarrow> u64 \<Rightarrow> page result" where
  "page_put_u64 self offset v =
     (if offset + 8 \<le> length (pg_bytes self) then page_write self offset 8 (\<lambda>w. from_codec (writer_u64 w v))
      else Inl (corrupt offset))"

definition page_require :: "page \<Rightarrow> page_kind \<Rightarrow> unit result" where
  "page_require self kind = (if pg_kind self \<noteq> kind then Inl (corrupt 6) else Inr ())"

definition page_next :: "page \<Rightarrow> u32 result" where
  "page_next self = page_u32 self 12"

definition page_check_next :: "page \<Rightarrow> unit result" where
  "page_check_next self =
     and_then (page_next self) (\<lambda>nxt.
     if nxt = NO_BLOCK then Inr () else
     if \<not> block_valid nxt \<or> nxt = pg_block self \<or> pg_kind self = Meta then Inl (corrupt 12) else
     if (pg_kind self = Owners \<or> pg_kind self = DictionaryPage) \<and> nxt \<le> pg_block self then Inl (corrupt 12)
     else Inr ())"

definition page_set_next :: "page \<Rightarrow> u32 \<Rightarrow> page result" where
  "page_set_next self nxt =
     and_then (page_put_u32 self 12 nxt) (\<lambda>self.
     and_then (page_check_next self) (\<lambda>_. Inr self))"

section \<open>Reading a host page\<close>

text \<open>The two matches on the kind byte.\<close>

definition page_kind_of_tag :: "u8 \<Rightarrow> page_kind option" where
  "page_kind_of_tag tag =
     (if tag = 1 then Some Meta else if tag = 2 then Some Owners else if tag = 3 then Some DictionaryPage
      else if tag = 4 then Some Postings else if tag = 5 then Some Fragment else if tag = 6 then Some Free
      else if tag = 7 then Some SealedPostings else if tag = 9 then Some DirectPostings
      else if tag = 10 then Some Grouped else None)"

fun page_kind_tag :: "page_kind \<Rightarrow> u8 option" where
  "page_kind_tag Zero = None"
| "page_kind_tag Meta = Some 1"
| "page_kind_tag Owners = Some 2"
| "page_kind_tag DictionaryPage = Some 3"
| "page_kind_tag Postings = Some 4"
| "page_kind_tag SealedPostings = Some 7"
| "page_kind_tag DirectPostings = Some 9"
| "page_kind_tag Grouped = Some 10"
| "page_kind_tag Fragment = Some 5"
| "page_kind_tag Free = Some 6"

text \<open>The closure of \<open>reload_with\<close> after the read: the checks of the fixed header.\<close>

definition header_check :: "page \<Rightarrow> page result" where
  "header_check self =
     (if pg_len self = 0 then Inr self else
      if pg_len self > CAPACITY then Inl (corrupt 0) else
      and_then (from_codec (reader_take (reader_new (page_used self)) 4)) (\<lambda>(magic, reader).
      if magic \<noteq> PIN2 then Inl (Codec (CodecError 0 BadMagic)) else
      and_then (from_codec (reader_u16 reader)) (\<lambda>(version, reader).
      if version \<noteq> 2 then Inl (Codec (CodecError 4 UnsupportedVersion)) else
      and_then (from_codec (reader_u8 reader)) (\<lambda>(tag, reader).
      and_then (ok_or (Codec (CodecError 6 UnknownTag)) (page_kind_of_tag tag)) (\<lambda>kind.
      and_then (from_codec (reader_u8 reader)) (\<lambda>(flags, reader).
      if flags > 1 \<or> (flags \<noteq> 0 \<and> kind \<noteq> DictionaryPage) then Inl (corrupt 7) else
      and_then (from_codec (reader_u32 reader)) (\<lambda>(block, reader).
      if block \<noteq> pg_block self then Inl (corrupt 7) else
      and_then (from_codec (reader_u32 reader)) (\<lambda>_.
      let self = self\<lparr>pg_kind := kind\<rparr> in
      and_then (page_check_next self) (\<lambda>_. Inr self)))))))))"

type_synonym host_read = "bytes \<Rightarrow> bytes \<times> nat result"

definition page_reload_with :: "page \<Rightarrow> u32 \<Rightarrow> host_read \<Rightarrow> page \<times> unit result" where
  "page_reload_with self block read =
     (let self = \<lparr>pg_block = block, pg_kind = Zero, pg_len = 0, pg_initialize = False, pg_bytes = replicate CAPACITY 0\<rparr>;
          invalid = (\<lambda>bytes. \<lparr>pg_block = NO_BLOCK, pg_kind = Zero, pg_len = 0, pg_initialize = False, pg_bytes = bytes\<rparr>)
      in if block = NO_BLOCK then (invalid (pg_bytes self), Inl (corrupt 8)) else
      case read (pg_bytes self) of
        (bytes, Inl e) \<Rightarrow> (invalid bytes, Inl e)
      | (bytes, Inr len) \<Rightarrow>
          (case header_check (self\<lparr>pg_len := len, pg_bytes := bytes\<rparr>) of
             Inl e \<Rightarrow> (invalid bytes, Inl e)
           | Inr self \<Rightarrow> (self, Inr ())))"

definition page_read_with :: "u32 \<Rightarrow> host_read \<Rightarrow> page result" where
  "page_read_with block read =
     (let (page, r) = page_reload_with
        \<lparr>pg_block = NO_BLOCK, pg_kind = Zero, pg_len = 0, pg_initialize = False, pg_bytes = replicate CAPACITY 0\<rparr> block read
      in and_then r (\<lambda>_. Inr page))"

section \<open>New images\<close>

definition page_new :: "u32 \<Rightarrow> page_kind \<Rightarrow> page result" where
  "page_new block kind =
     (if block = NO_BLOCK \<or> (block = 0) \<noteq> (kind = Meta) then Inl (corrupt 8) else
      and_then (ok_or (corrupt 6) (page_kind_tag kind)) (\<lambda>tag.
      page_write \<lparr>pg_block = block, pg_kind = kind, pg_len = PAGE_HEADER, pg_initialize = False,
          pg_bytes = replicate CAPACITY 0\<rparr> 0 CAPACITY (\<lambda>writer.
        and_then (from_codec (writer_put writer PIN2)) (\<lambda>writer.
        and_then (from_codec (writer_u16 writer 2)) (\<lambda>writer.
        and_then (from_codec (writer_u8 writer tag)) (\<lambda>writer.
        and_then (from_codec (writer_u8 writer 0)) (\<lambda>writer.
        and_then (from_codec (writer_u32 writer block)) (\<lambda>writer.
        from_codec (writer_u32 writer NO_BLOCK)))))))))"

definition page_owners :: "u32 \<Rightarrow> page result" where
  "page_owners block = and_then (page_new block Owners) (\<lambda>page. Inr (page\<lparr>pg_len := OWNER_HEADER\<rparr>))"

definition page_dictionary :: "u32 \<Rightarrow> page result" where
  "page_dictionary block = page_new block DictionaryPage"

definition page_packed_dictionary :: "u32 \<Rightarrow> page result" where
  "page_packed_dictionary block =
     and_then (page_dictionary block) (\<lambda>page. Inr (page\<lparr>pg_bytes := (pg_bytes page)[7 := 1]\<rparr>))"

definition page_packed_dictionary_format :: "page \<Rightarrow> bool" where
  "page_packed_dictionary_format self \<longleftrightarrow> pg_kind self = DictionaryPage \<and> pg_bytes self ! 7 = 1"

definition page_postings :: "u32 \<Rightarrow> term_ref \<Rightarrow> page result" where
  "page_postings block posted =
     (if \<not> block_valid (tr_page posted) \<or> unat (tr_offset posted) < PAGE_HEADER then Inl (corrupt 16) else
      and_then (page_new block Postings) (\<lambda>page.
      let page = page\<lparr>pg_len := POSTING_HEADER\<rparr> in
      and_then (page_put_u32 page 16 (tr_page posted)) (\<lambda>page.
      page_put_u16 page 20 (tr_offset posted))))"

definition page_fragment :: "u32 \<Rightarrow> owner_ref \<Rightarrow> u32 \<Rightarrow> u32 \<Rightarrow> bytes \<Rightarrow> page result" where
  "page_fragment block owner nxt offset data =
     (if data = [] \<or> length data > FRAGMENT_BYTES then Inl (corrupt FRAGMENT_HEADER) else
      and_then (page_new block Fragment) (\<lambda>page.
      let page = page\<lparr>pg_len := FRAGMENT_HEADER + length data\<rparr> in
      and_then (page_write page PAGE_HEADER (CAPACITY - PAGE_HEADER) (\<lambda>writer.
        and_then (owner_ref_write owner writer) (\<lambda>writer.
        and_then (from_codec (writer_u32 writer offset)) (\<lambda>writer.
        from_codec (writer_put writer data))))) (\<lambda>page.
      page_set_next page nxt)))"

definition page_free :: "u32 \<Rightarrow> u32 \<Rightarrow> page result" where
  "page_free block nxt = and_then (page_new block Free) (\<lambda>page. page_set_next page nxt)"

definition page_free_from_zero :: "u32 \<Rightarrow> u32 \<Rightarrow> page result" where
  "page_free_from_zero block nxt = and_then (page_free block nxt) (\<lambda>page. Inr (page\<lparr>pg_initialize := True\<rparr>))"

section \<open>The metapage\<close>

definition page_bucket :: "page \<Rightarrow> nat \<Rightarrow> (u32 \<times> u32) result" where
  "page_bucket self bucket =
     and_then (page_require self Meta) (\<lambda>_.
     if bucket \<ge> BUCKETS then Inl (corrupt META_HEADER) else
     let offset = META_HEADER + bucket * 8 in
     and_then (page_u32 self offset) (\<lambda>head.
     and_then (page_u32 self (offset + 4)) (\<lambda>tail.
     if \<not> pair_valid head tail then Inl (corrupt offset) else Inr (head, tail))))"

definition page_set_bucket :: "page \<Rightarrow> nat \<Rightarrow> u32 \<Rightarrow> u32 \<Rightarrow> page result" where
  "page_set_bucket self bucket head tail =
     and_then (page_require self Meta) (\<lambda>_.
     if bucket \<ge> BUCKETS \<or> \<not> pair_valid head tail then Inl (corrupt META_HEADER) else
     let offset = META_HEADER + bucket * 8 in
     and_then (page_put_u32 self offset head) (\<lambda>self.
     page_put_u32 self (offset + 4) tail))"

definition page_metadata :: "heap_layout \<Rightarrow> page result" where
  "page_metadata layout =
     and_then (page_new 0 Meta) (\<lambda>page.
     let page = page\<lparr>pg_len := META_HEADER + BUCKETS * 8\<rparr> in
     and_then (page_put_u32 page 16 PROFILE_ID) (\<lambda>page.
     and_then (page_put_u32 page 20 8192) (\<lambda>page.
     and_then (page_put_u16 page 24 (max_offset layout)) (\<lambda>page.
     and_then (page_put_u16 page 26 (of_nat BUCKETS)) (\<lambda>page.
     and_then (page_put_u64 page 32 1) (\<lambda>page.
     and_then (try_fold (\<lambda>page offset. page_put_u32 page offset NO_BLOCK) page [40, 44, 48]) (\<lambda>page.
     try_fold (\<lambda>page bucket. page_set_bucket page bucket NO_BLOCK NO_BLOCK) page [0..<BUCKETS])))))))"

definition page_reserve_incarnation :: "page \<Rightarrow> (incarnation \<times> page) result" where
  "page_reserve_incarnation self =
     and_then (page_require self Meta) (\<lambda>_.
     and_then (page_u64 self 32) (\<lambda>v.
     and_then (ok_or (Limit ''incarnation space'') (checked_add_w v 1)) (\<lambda>nxt.
     and_then (map_err (\<lambda>_. corrupt 32) (identifier_new v)) (\<lambda>incarnation.
     and_then (page_put_u64 self 32 nxt) (\<lambda>self.
     Inr (incarnation, self))))))"

definition page_packed_postings :: "page \<Rightarrow> bool result" where
  "page_packed_postings self =
     and_then (page_require self Meta) (\<lambda>_.
     and_then (page_u32 self 28) (\<lambda>flags. Inr (flags AND 4 \<noteq> 0)))"

definition page_enable_packed_postings :: "page \<Rightarrow> page result" where
  "page_enable_packed_postings self =
     and_then (page_require self Meta) (\<lambda>_.
     and_then (page_u32 self 28) (\<lambda>flags. page_put_u32 self 28 (flags OR 4)))"

definition page_owner_chain :: "page \<Rightarrow> (u32 \<times> u32) result" where
  "page_owner_chain self =
     and_then (page_require self Meta) (\<lambda>_.
     and_then (page_u32 self 40) (\<lambda>head.
     and_then (page_u32 self 44) (\<lambda>tail.
     if \<not> pair_valid head tail then Inl (corrupt 40) else Inr (head, tail))))"

definition page_set_owner_chain :: "page \<Rightarrow> u32 \<Rightarrow> u32 \<Rightarrow> page result" where
  "page_set_owner_chain self head tail =
     and_then (page_require self Meta) (\<lambda>_.
     if \<not> pair_valid head tail then Inl (corrupt 40) else
     and_then (page_put_u32 self 40 head) (\<lambda>self.
     page_put_u32 self 44 tail))"

definition page_free_head :: "page \<Rightarrow> u32 result" where
  "page_free_head self =
     and_then (page_require self Meta) (\<lambda>_.
     and_then (page_u32 self 48) (\<lambda>v.
     if v \<noteq> NO_BLOCK \<and> \<not> block_valid v then Inl (corrupt 48) else Inr v))"

definition page_set_free_head :: "page \<Rightarrow> u32 \<Rightarrow> page result" where
  "page_set_free_head self block =
     and_then (page_require self Meta) (\<lambda>_.
     if block \<noteq> NO_BLOCK \<and> \<not> block_valid block then Inl (corrupt 48) else page_put_u32 self 48 block)"

definition page_rewrite_journal :: "page \<Rightarrow> rewrite_journal option result" where
  "page_rewrite_journal self =
     and_then (page_require self Meta) (\<lambda>_.
     and_then (page_u32 self 52) (\<lambda>head.
     and_then (page_u32 self 56) (\<lambda>tail.
     and_then (page_u32 self 60) (\<lambda>tag.
     if tag = 0 \<and> head = 0 \<and> tail = 0 then Inr None else
     and_then (if tag = 1 then Inr Building else if tag = 2 then Inr Retiring else Inl (corrupt 60)) (\<lambda>phase.
     if \<not> block_valid head \<or> \<not> block_valid tail then Inl (corrupt 52)
     else Inr (Some \<lparr>rj_head = head, rj_tail = tail, rj_phase = phase\<rparr>))))))"

definition page_set_rewrite_journal :: "page \<Rightarrow> rewrite_journal option \<Rightarrow> page result" where
  "page_set_rewrite_journal self journal =
     and_then (page_require self Meta) (\<lambda>_.
     and_then (case journal of
         Some journal \<Rightarrow>
           if \<not> block_valid (rj_head journal) \<or> \<not> block_valid (rj_tail journal) then Inl (corrupt 52)
           else Inr (rj_head journal, rj_tail journal, rewrite_phase_tag (rj_phase journal))
       | None \<Rightarrow> Inr (0, 0, 0)) (\<lambda>(head, tail, phase).
     and_then (page_put_u32 self 52 head) (\<lambda>self.
     and_then (page_put_u32 self 56 tail) (\<lambda>self.
     page_put_u32 self 60 phase))))"

end
