(* ===== verification/PageLaws.thy ===== *)
theory PageLaws
  imports PageBase
begin

text \<open>
  Laws of page images: a field reads what was last written at its place, writes at other places do
  not change it, and owner references are fields of sixteen bytes.
\<close>

section \<open>Patches\<close>

definition patch :: "nat \<Rightarrow> 'a list \<Rightarrow> 'a list \<Rightarrow> 'a list" where
  "patch k v bs = take k bs @ v @ drop (k + length v) bs"

lemma length_patch [simp]: "k + length v \<le> length bs \<Longrightarrow> length (patch k v bs) = length bs"
  by (simp add: patch_def)

lemma patch_Nil [simp]: "patch k [] bs = bs"
  by (simp add: patch_def)

lemma nth_patch:
  "k + length v \<le> length bs \<Longrightarrow> i < length bs \<Longrightarrow>
    patch k v bs ! i = (if k \<le> i \<and> i < k + length v then v ! (i - k) else bs ! i)"
  by (auto simp: patch_def nth_append min_def)

lemma slice_patch_disjoint:
  "k + length v \<le> length bs \<Longrightarrow> i + n \<le> k \<or> k + length v \<le> i \<Longrightarrow> i + n \<le> length bs \<Longrightarrow>
    take n (drop i (patch k v bs)) = take n (drop i bs)"
  by (intro nth_equalityI) (auto simp: nth_patch)

lemma slice_patch_same:
  "k + length v \<le> length bs \<Longrightarrow> n = length v \<Longrightarrow> take n (drop k (patch k v bs)) = v"
  by (simp add: patch_def)

lemma take_patch_before: "n \<le> k \<Longrightarrow> k + length v \<le> length bs \<Longrightarrow> take n (patch k v bs) = take n bs"
  by (simp add: patch_def)

lemma drop_patch_behind: "k + length v \<le> n \<Longrightarrow> k + length v \<le> length bs \<Longrightarrow> drop n (patch k v bs) = drop n bs"
  by (simp add: patch_def)

lemma drop_patch: "n \<le> k \<Longrightarrow> k + length v \<le> length bs \<Longrightarrow> drop n (patch k v bs) = patch (k - n) v (drop n bs)"
  by (simp add: patch_def drop_take min_def)

lemma take_patch: "k + length v \<le> n \<Longrightarrow> n \<le> length bs \<Longrightarrow> take n (patch k v bs) = patch k v (take n bs)"
  by (cases "n = k") (auto simp: patch_def take_drop min_def)

lemma patch_append_left: "k + length v \<le> length xs \<Longrightarrow> patch k v (xs @ ys) = patch k v xs @ ys"
  by (simp add: patch_def)

lemma patch_append_right: "length xs \<le> k \<Longrightarrow> patch k v (xs @ ys) = xs @ patch (k - length xs) v ys"
  by (simp add: patch_def)

lemma patch_update: "k < length bs \<Longrightarrow> bs[k := v] = patch k [v] bs"
  by (simp add: patch_def upd_conv_take_nth_drop)

section \<open>Fields of an image\<close>

definition page_ok :: "page \<Rightarrow> bool" where
  "page_ok p \<longleftrightarrow> length (pg_bytes p) = CAPACITY \<and> pg_len p \<le> CAPACITY"

lemma CAPACITY_value: "CAPACITY = 8168"
  by (simp add: CAPACITY_def)

lemma page_ok_slice [simp]: "page_ok p \<Longrightarrow> slice_ok (take n (drop k (pg_bytes p)))"
  by (auto simp: page_ok_def slice_ok_def CAPACITY_value)

lemma length_page_used [simp]: "page_ok p \<Longrightarrow> length (page_used p) = pg_len p"
  by (simp add: page_ok_def page_used_def)

lemma page_used_ok [simp]: "page_ok p \<Longrightarrow> slice_ok (page_used p)" "page_ok p \<Longrightarrow> slice_ok (drop k (page_used p))"
  by (auto simp: page_used_def slice_ok_def page_ok_def CAPACITY_value)

lemma field_slice: "page_ok p \<Longrightarrow> o' + n \<le> pg_len p \<Longrightarrow> take n (drop o' (page_used p)) = take n (drop o' (pg_bytes p))"
  by (simp add: page_used_def drop_take min_def)

lemma page_u16_eq:
  "page_ok p \<Longrightarrow> page_u16 p k = (if k + 2 \<le> pg_len p then Inr (from_le (take 2 (drop k (pg_bytes p))))
    else Inl (if k \<le> pg_len p then Codec (CodecError 0 Truncated) else corrupt k))"
  using field_slice[of p k 2]
  by (auto simp: page_u16_def get_from_def reader_u16_eq codec_fail_def)

lemma page_u32_eq:
  "page_ok p \<Longrightarrow> page_u32 p k = (if k + 4 \<le> pg_len p then Inr (from_le (take 4 (drop k (pg_bytes p))))
    else Inl (if k \<le> pg_len p then Codec (CodecError 0 Truncated) else corrupt k))"
  using field_slice[of p k 4]
  by (auto simp: page_u32_def get_from_def reader_u32_eq codec_fail_def)

lemma page_u64_eq:
  "page_ok p \<Longrightarrow> page_u64 p k = (if k + 8 \<le> pg_len p then Inr (from_le (take 8 (drop k (pg_bytes p))))
    else Inl (if k \<le> pg_len p then Codec (CodecError 0 Truncated) else corrupt k))"
  using field_slice[of p k 8]
  by (auto simp: page_u64_def get_from_def reader_u64_eq codec_fail_def)

text \<open>The same fields, read from the used bytes.\<close>

lemma page_used_fields:
  "page_ok p \<Longrightarrow> k + 2 \<le> pg_len p \<Longrightarrow> page_u16 p k = Inr (from_le (take 2 (drop k (page_used p))))"
  "page_ok p \<Longrightarrow> k + 4 \<le> pg_len p \<Longrightarrow> page_u32 p k = Inr (from_le (take 4 (drop k (page_used p))))"
  "page_ok p \<Longrightarrow> k + 8 \<le> pg_len p \<Longrightarrow> page_u64 p k = Inr (from_le (take 8 (drop k (page_used p))))"
  by (simp_all add: page_u16_eq page_u32_eq page_u64_eq field_slice)

lemma page_copy_patch: "page_copy p k v = p\<lparr>pg_bytes := patch k v (pg_bytes p)\<rparr>"
  by (simp add: page_copy_def patch_def)

text \<open>A writer that fills exactly its slice.\<close>

lemma page_write_patch:
  assumes "page_ok p" "k + n \<le> CAPACITY" "f (writer_new (take n (drop k (pg_bytes p)))) = Inr (wr_append (writer_new (take n (drop k (pg_bytes p)))) v)"
    "length v \<le> n"
  shows "page_write p k n f = Inr (p\<lparr>pg_bytes := patch k v (pg_bytes p)\<rparr>)"
proof -
  have "drop (length v) (take n (drop k (pg_bytes p))) @ drop (k + n) (pg_bytes p) = drop (k + length v) (pg_bytes p)"
  proof -
    have "drop (length v) (take n (drop k (pg_bytes p))) = take (n - length v) (drop (k + length v) (pg_bytes p))"
      by (simp add: drop_take drop_drop ac_simps)
    moreover have "drop (k + n) (pg_bytes p) = drop (n - length v) (drop (k + length v) (pg_bytes p))"
      using assms(4) by (simp add: ac_simps)
    ultimately show ?thesis by (simp only: append_take_drop_id)
  qed
  then show ?thesis using assms(1-3) by (simp add: page_write_def patch_def)
qed

lemma page_put_u16_eq:
  "page_ok p \<Longrightarrow> k + 2 \<le> CAPACITY \<Longrightarrow> page_put_u16 p k v = Inr (p\<lparr>pg_bytes := patch k (le_bytes 2 v) (pg_bytes p)\<rparr>)"
  unfolding page_put_u16_def by (simp add: page_write_patch[where v = "le_bytes 2 v"] page_ok_def codec_simps)

lemma page_put_u32_eq:
  "page_ok p \<Longrightarrow> k + 4 \<le> CAPACITY \<Longrightarrow> page_put_u32 p k v = Inr (p\<lparr>pg_bytes := patch k (le_bytes 4 v) (pg_bytes p)\<rparr>)"
  unfolding page_put_u32_def by (simp add: page_write_patch[where v = "le_bytes 4 v"] page_ok_def codec_simps)

lemma page_put_u64_eq:
  "page_ok p \<Longrightarrow> k + 8 \<le> CAPACITY \<Longrightarrow> page_put_u64 p k v = Inr (p\<lparr>pg_bytes := patch k (le_bytes 8 v) (pg_bytes p)\<rparr>)"
  unfolding page_put_u64_def by (simp add: page_write_patch[where v = "le_bytes 8 v"] page_ok_def codec_simps)

lemma page_ok_patch [simp]: "page_ok p \<Longrightarrow> k + length v \<le> CAPACITY \<Longrightarrow> page_ok (p\<lparr>pg_bytes := patch k v (pg_bytes p)\<rparr>)"
  by (simp add: page_ok_def)

section \<open>The fixed header\<close>

definition page_head :: "u8 \<Rightarrow> u8 \<Rightarrow> u32 \<Rightarrow> u32 \<Rightarrow> bytes" where
  "page_head tag flags block nxt = PIN2 @ le_bytes 2 (2 :: u16) @ [tag, flags] @ le_bytes 4 block @ le_bytes 4 nxt"

lemma length_page_head [simp]: "length (page_head tag flags block nxt) = 16"
  by (simp add: page_head_def PIN2_def)

lemma page_new_eq:
  "page_new block kind =
    (if block = NO_BLOCK \<or> (block = 0) \<noteq> (kind = Meta) then Inl (corrupt 8) else
     case page_kind_tag kind of
       None \<Rightarrow> Inl (corrupt 6)
     | Some tag \<Rightarrow> Inr \<lparr>pg_block = block, pg_kind = kind, pg_len = PAGE_HEADER, pg_initialize = False,
         pg_bytes = page_head tag 0 block NO_BLOCK @ replicate (CAPACITY - 16) 0\<rparr>)"
proof -
  let ?p = "\<lparr>pg_block = block, pg_kind = kind, pg_len = PAGE_HEADER, pg_initialize = False, pg_bytes = replicate CAPACITY 0\<rparr>"
  have "page_write ?p 0 CAPACITY (\<lambda>writer.
        and_then (from_codec (writer_put writer PIN2)) (\<lambda>writer.
        and_then (from_codec (writer_u16 writer 2)) (\<lambda>writer.
        and_then (from_codec (writer_u8 writer tag)) (\<lambda>writer.
        and_then (from_codec (writer_u8 writer 0)) (\<lambda>writer.
        and_then (from_codec (writer_u32 writer block)) (\<lambda>writer.
        from_codec (writer_u32 writer NO_BLOCK))))))) = Inr (?p\<lparr>pg_bytes := patch 0 (page_head tag 0 block NO_BLOCK) (pg_bytes ?p)\<rparr>)" for tag
    by (rule page_write_patch) (simp_all add: page_ok_def CAPACITY_value PAGE_HEADER_def codec_simps slice_ok_def page_head_def PIN2_def)
  then show ?thesis by (auto simp: page_new_def patch_def split: option.splits)
qed

section \<open>Owner references\<close>

definition owner_ref_bytes :: "owner_ref \<Rightarrow> bytes" where
  "owner_ref_bytes o' = le_bytes 4 (or_page o') @ le_bytes 2 (or_slot o') @ le_bytes 2 (0 :: u16) @ le_bytes 8 (or_incarnation o')"

definition owner_ref_ok :: "owner_ref \<Rightarrow> bool" where
  "owner_ref_ok o' \<longleftrightarrow> block_valid (or_page o') \<and> unat (or_slot o') < OWNER_SLOTS \<and> or_incarnation o' \<noteq> 0"

lemma length_owner_ref_bytes [simp]: "length (owner_ref_bytes o') = 16"
  by (simp add: owner_ref_bytes_def)

lemma owner_ref_write_eq:
  "wr_ok w \<Longrightarrow> 16 \<le> wr_room w \<Longrightarrow> block_valid (or_page o') \<Longrightarrow> unat (or_slot o') < OWNER_SLOTS \<Longrightarrow>
    owner_ref_write o' w = Inr (wr_append w (owner_ref_bytes o'))"
  by (simp add: owner_ref_write_def owner_ref_bytes_def codec_simps)

lemma owner_ref_write_Inr:
  "wr_ok w \<Longrightarrow> 16 \<le> wr_room w \<Longrightarrow> owner_ref_write o' w = Inr w' \<Longrightarrow>
    block_valid (or_page o') \<and> unat (or_slot o') < OWNER_SLOTS \<and> w' = wr_append w (owner_ref_bytes o')"
  using owner_ref_write_eq[of w o'] by (auto simp: owner_ref_write_def split: if_splits)

lemma owner_ref_read_eq:
  assumes "consumes r (owner_ref_bytes o') r'" "owner_ref_ok o'"
  shows "owner_ref_read r = Inr (o', r')"
proof -
  let ?a = "rd_skip r 4" let ?b = "rd_skip r 6" let ?c = "rd_skip r 8"
  have c: "consumes r (le_bytes 4 (or_page o')) ?a" "consumes ?a (le_bytes 2 (or_slot o')) ?b"
    "consumes ?b (le_bytes 2 (0 :: u16)) ?c" "consumes ?c (le_bytes 8 (or_incarnation o')) r'"
    using assms(1) by (auto simp: owner_ref_bytes_def consumes_def)
  show ?thesis
    using assms(2)
    by (simp add: owner_ref_read_def u32_field.consumes_dec[OF c(1)] u16_field.consumes_dec[OF c(2)]
        u16_field.consumes_dec[OF c(3)] u64_field.consumes_dec[OF c(4)] owner_ref_ok_def identifier_new_def)
qed

lemma owner_ref_read_Inr:
  assumes "rd_ok r" "owner_ref_read r = Inr (o', r')"
  shows "consumes r (owner_ref_bytes o') r'" "owner_ref_ok o'"
proof -
  from assms(2) obtain p a s b z c v where x: "reader_u32 r = Inr (p, a)" "reader_u16 a = Inr (s, b)"
    "reader_u16 b = Inr (z, c)" "reader_u64 c = Inr (v, r')" and i: "identifier_new v = Inr (or_incarnation o')"
    and o': "o' = \<lparr>or_page = p, or_slot = s, or_incarnation = or_incarnation o'\<rparr>" "z = 0" and ok: "block_valid p" "unat s < OWNER_SLOTS"
    by (auto simp: owner_ref_read_def res_simps split: if_splits)
  have v: "v \<noteq> 0" "or_incarnation o' = v" using i by (auto simp: identifier_new_def split: if_splits)
  note c1 = u32_field.dec_consumes[OF assms(1) x(1)]
  note c2 = u16_field.dec_consumes[OF consumes_ok[OF c1] x(2)]
  note c3 = u16_field.dec_consumes[OF consumes_ok[OF c2] x(3)]
  note c4 = u64_field.dec_consumes[OF consumes_ok[OF c3] x(4)]
  show "consumes r (owner_ref_bytes o') r'"
    using consumes_trans[OF c1 consumes_trans[OF c2 consumes_trans[OF c3 c4]]] o' v
    unfolding owner_ref_bytes_def by (metis owner_ref.select_convs(1) owner_ref.select_convs(2))
  show "owner_ref_ok o'" using ok v o'(1) by (metis owner_ref_ok_def owner_ref.select_convs(1) owner_ref.select_convs(2))
qed

end
