(* ===== verification/PageGrouped.thy ===== *)
theory PageGrouped
  imports PageBase
begin

text \<open>
  The physical envelopes of grouped records (crates/pin-core/src/mutable/page_grouped.rs): the grouped
  state in the tail of the metapage in its three formats, record fragments and catalog nodes.
\<close>

section \<open>Constants\<close>

definition META_LEGACY_BYTES :: nat where
  "META_LEGACY_BYTES = META_HEADER + BUCKETS * 8"

definition META_GROUPED_BYTES :: nat where
  "META_GROUPED_BYTES = META_LEGACY_BYTES + 72"

definition GROUP_DELTA_SEGMENTS :: nat where
  "GROUP_DELTA_SEGMENTS = 16"

definition GROUP_RETIRED_SEGMENTS :: nat where
  "GROUP_RETIRED_SEGMENTS = GROUP_DELTA_SEGMENTS + 1"

definition SNAPSHOT_BYTES :: nat where
  "SNAPSHOT_BYTES = 48"

definition DELTA_BYTES :: nat where
  "DELTA_BYTES = SNAPSHOT_BYTES + 24"

definition JOURNAL_BYTES :: nat where
  "JOURNAL_BYTES = 24"

definition RETIRED_BYTES :: nat where
  "RETIRED_BYTES = 16"

definition META_GROUPED_V3_BYTES :: nat where
  "META_GROUPED_V3_BYTES = META_LEGACY_BYTES + 8 + SNAPSHOT_BYTES + JOURNAL_BYTES +
     GROUP_DELTA_SEGMENTS * DELTA_BYTES + GROUP_RETIRED_SEGMENTS * RETIRED_BYTES"

definition GROUP_HEADER :: nat where
  "GROUP_HEADER = PAGE_HEADER + 16"

definition DATA_HEADER :: nat where
  "DATA_HEADER = GROUP_HEADER + 24"

definition NODE_HEADER :: nat where
  "NODE_HEADER = GROUP_HEADER + 8"

definition ENTRY_BYTES :: nat where
  "ENTRY_BYTES = 80"

definition GROUP_DATA_BYTES :: nat where
  "GROUP_DATA_BYTES = CAPACITY - DATA_HEADER"

definition CATALOG_ENTRIES :: nat where
  "CATALOG_ENTRIES = (CAPACITY - NODE_HEADER) div ENTRY_BYTES"

definition MAX_CATALOG_LEVEL :: u8 where
  "MAX_CATALOG_LEVEL = 7"

definition PG09 :: bytes where
  "PG09 = [0x50, 0x47, 0x30, 0x39]"

definition PG10 :: bytes where
  "PG10 = [0x50, 0x47, 0x31, 0x30]"

definition G9PG :: bytes where
  "G9PG = [0x47, 0x39, 0x50, 0x47]"

section \<open>Grouped state\<close>

record group_snapshot =
  gn_id :: segment_id
  gn_head :: u32
  gn_tail :: u32
  gn_root :: u32
  gn_after :: "owner_ref option"
  gn_frontier_root :: "u32 option"
  gn_frontier_valid :: bool

record group_journal =
  gj_id :: segment_id
  gj_head :: u32
  gj_tail :: u32
  gj_phase :: rewrite_phase

record group_delta =
  gd_snapshot :: group_snapshot
  gd_before :: "owner_ref option"
  gd_level :: u8

record group_retired =
  gr_id :: segment_id
  gr_head :: u32
  gr_tail :: u32

record group_state =
  gt_active :: "group_snapshot option"
  gt_journal :: "group_journal option"
  gt_deltas :: "group_delta option list"
  gt_retired :: "group_retired option list"

definition group_state_default :: group_state where
  "group_state_default = \<lparr>gt_active = None, gt_journal = None, gt_deltas = replicate GROUP_DELTA_SEGMENTS None,
     gt_retired = replicate GROUP_RETIRED_SEGMENTS None\<rparr>"

text \<open>\<open>iter().flatten()\<close> over options.\<close>

definition somes :: "'a option list \<Rightarrow> 'a list" where
  "somes xs = List.map_filter (\<lambda>x. x) xs"

definition group_state_latest :: "group_state \<Rightarrow> group_snapshot option" where
  "group_state_latest self =
     (case rev (somes (gt_deltas self)) of
        delta # _ \<Rightarrow> Some (gd_snapshot delta)
      | [] \<Rightarrow> gt_active self)"

definition group_state_delta_count :: "group_state \<Rightarrow> nat" where
  "group_state_delta_count self = length (somes (gt_deltas self))"

definition validate_snapshot :: "group_snapshot \<Rightarrow> bool \<Rightarrow> unit result" where
  "validate_snapshot snapshot allow_frontier =
     (if \<not> posting_pair_valid (gn_head snapshot) (gn_tail snapshot) \<or>
         (gn_head snapshot = NO_BLOCK) \<noteq>
           (gn_root snapshot = NO_BLOCK \<and> (case gn_frontier_root snapshot of None \<Rightarrow> NO_BLOCK | Some r \<Rightarrow> r) = NO_BLOCK) \<or>
         (\<not> allow_frontier \<and> gn_frontier_root snapshot \<noteq> None) \<or>
         (gn_frontier_root snapshot = None \<and> gn_root snapshot \<noteq> gn_tail snapshot) \<or>
         (gn_root snapshot \<noteq> NO_BLOCK \<and> \<not> block_valid (gn_root snapshot)) \<or>
         is_some_and (gn_frontier_root snapshot) (\<lambda>root. root \<noteq> NO_BLOCK \<and> (\<not> block_valid root \<or> root = gn_root snapshot)) \<or>
         (gn_frontier_valid snapshot \<and> gn_frontier_root snapshot = None) \<or>
         is_some_and (gn_after snapshot) (\<lambda>owner. or_incarnation owner \<ge> gn_id snapshot)
      then Inl InvalidState else Inr ())"

record delta_scan =
  ds_after :: "owner_ref option"
  ds_id :: "segment_id option"
  ds_level :: "u8 option"
  ds_gap :: bool

definition delta_step :: "group_state \<Rightarrow> delta_scan \<Rightarrow> group_delta option \<Rightarrow> delta_scan result" where
  "delta_step self st slot =
     (case slot of
        None \<Rightarrow> Inr (st\<lparr>ds_gap := True\<rparr>)
      | Some delta \<Rightarrow>
          if ds_gap st \<or> gt_active self = None then Inl InvalidState else
          and_then (validate_snapshot (gd_snapshot delta) False) (\<lambda>_.
          let after = gn_after (gd_snapshot delta) in
          if gn_frontier_valid (gd_snapshot delta) \<or> unat (gd_level delta) \<ge> GROUP_DELTA_SEGMENTS \<or>
             is_some_and (ds_level st) (\<lambda>level. level \<le> gd_level delta) \<or>
             gd_before delta \<noteq> ds_after st \<or> after = None \<or> after = gd_before delta \<or>
             is_some_and (gd_before delta) (\<lambda>before. is_some_and after (\<lambda>after. or_incarnation before \<ge> or_incarnation after)) \<or>
             is_some_and (ds_id st) (\<lambda>ident. ident \<ge> gn_id (gd_snapshot delta))
          then Inl InvalidState
          else Inr \<lparr>ds_after = after, ds_id = Some (gn_id (gd_snapshot delta)), ds_level = Some (gd_level delta), ds_gap = False\<rparr>))"

definition retired_step :: "group_state \<Rightarrow> bool \<Rightarrow> group_retired option \<Rightarrow> bool result" where
  "retired_step self gap slot =
     (case slot of
        None \<Rightarrow> Inr True
      | Some retired \<Rightarrow>
          if gap \<or> gr_head retired = NO_BLOCK \<or> \<not> posting_pair_valid (gr_head retired) (gr_tail retired) then Inl InvalidState else
          if is_some_and (gt_active self) (\<lambda>active. gn_id active = gr_id retired) \<or>
             list_ex (\<lambda>delta. gn_id (gd_snapshot delta) = gr_id retired) (somes (gt_deltas self)) \<or>
             is_some_and (gt_journal self) (\<lambda>journal. gj_id journal = gr_id retired)
          then Inl InvalidState else Inr gap)"

definition journal_check :: "group_state \<Rightarrow> segment_id option \<Rightarrow> group_journal \<Rightarrow> unit result" where
  "journal_check self previous_id journal =
     (if \<not> posting_pair_valid (gj_head journal) (gj_tail journal) then Inl InvalidState else
      case gj_phase journal of
        Building \<Rightarrow> if is_some_and previous_id (\<lambda>ident. gj_id journal \<le> ident) then Inl InvalidState else Inr ()
      | Retiring \<Rightarrow>
          if group_state_delta_count self \<noteq> 0 \<or> list_ex (\<lambda>r. r \<noteq> None) (gt_retired self) \<or>
             gj_head journal = NO_BLOCK \<or> gt_active self = None \<or>
             is_some_and (gt_active self) (\<lambda>active. gj_id journal \<ge> gn_id active)
          then Inl InvalidState else Inr ())"

definition group_state_validate :: "group_state \<Rightarrow> unit result" where
  "group_state_validate self =
     and_then (case gt_active self of None \<Rightarrow> Inr () | Some active \<Rightarrow> validate_snapshot active True) (\<lambda>_.
     and_then (try_fold (delta_step self)
       \<lparr>ds_after = Option.bind (gt_active self) gn_after, ds_id = map_option gn_id (gt_active self), ds_level = None, ds_gap = False\<rparr>
       (gt_deltas self)) (\<lambda>st.
     and_then (case gt_journal self of None \<Rightarrow> Inr () | Some journal \<Rightarrow> journal_check self (ds_id st) journal) (\<lambda>_.
     and_then (try_fold (retired_step self) False (gt_retired self)) (\<lambda>_. Inr ()))))"

section \<open>Grouped state in the metapage\<close>

definition page_grouped_delta_span :: "page \<Rightarrow> group_snapshot \<Rightarrow> u64 result" where
  "page_grouped_delta_span self snapshot =
     and_then (page_require self Meta) (\<lambda>_.
     and_then (page_u64 self 32) (\<lambda>nxt.
     if nxt \<le> gn_id snapshot then Inl InvalidState else Inr (nxt - gn_id snapshot - 1)))"

definition page_grouped_has_delta :: "page \<Rightarrow> group_snapshot \<Rightarrow> bool result" where
  "page_grouped_has_delta self snapshot = and_then (page_grouped_delta_span self snapshot) (\<lambda>span. Inr (span \<noteq> 0))"

text \<open>An optional owner reference, sixteen zero bytes when absent.\<close>

definition read_optional_owner :: "reader \<Rightarrow> (owner_ref option \<times> reader) result" where
  "read_optional_owner reader =
     and_then (from_codec (reader_take reader 16)) (\<lambda>(owner, reader).
     if owner = replicate 16 0 then Inr (None, reader) else
     and_then (owner_ref_read (reader_new owner)) (\<lambda>(owner, _). Inr (Some owner, reader)))"

definition write_optional_owner :: "owner_ref option \<Rightarrow> writer \<Rightarrow> writer result" where
  "write_optional_owner owner writer =
     (case owner of Some owner \<Rightarrow> owner_ref_write owner writer
      | None \<Rightarrow> from_codec (writer_put writer (replicate 16 0)))"

definition read_snapshot :: "reader \<Rightarrow> (group_snapshot option \<times> reader) result" where
  "read_snapshot reader =
     and_then (from_codec (reader_u64 reader)) (\<lambda>(ident, reader).
     and_then (from_codec (reader_u32 reader)) (\<lambda>(head, reader).
     and_then (from_codec (reader_u32 reader)) (\<lambda>(tail, reader).
     and_then (from_codec (reader_u32 reader)) (\<lambda>(root, reader).
     and_then (from_codec (reader_u32 reader)) (\<lambda>(frontier, reader).
     and_then (from_codec (reader_u32 reader)) (\<lambda>(flags, reader).
     and_then (from_codec (reader_u32 reader)) (\<lambda>(zero, reader).
     if zero \<noteq> 0 \<or> flags > 1 then Inl InvalidState else
     and_then (read_optional_owner reader) (\<lambda>(after, reader).
     if ident = 0 then
       (if head \<noteq> NO_BLOCK \<or> tail \<noteq> NO_BLOCK \<or> root \<noteq> NO_BLOCK \<or> frontier \<noteq> 0 \<or> flags \<noteq> 0 \<or> after \<noteq> None
        then Inl InvalidState else Inr (None, reader))
     else
     and_then (map_err (\<lambda>_. InvalidState) (identifier_new ident)) (\<lambda>ident.
     Inr (Some \<lparr>gn_id = ident, gn_head = head, gn_tail = tail, gn_root = root, gn_after = after,
       gn_frontier_root = (if frontier \<noteq> 0 then Some frontier else None), gn_frontier_valid = (flags = 1)\<rparr>, reader))))))))))"

definition write_snapshot :: "writer \<Rightarrow> group_snapshot option \<Rightarrow> writer result" where
  "write_snapshot writer snapshot =
     and_then (from_codec (writer_u64 writer (case snapshot of None \<Rightarrow> 0 | Some s \<Rightarrow> gn_id s))) (\<lambda>writer.
     and_then (from_codec (writer_u32 writer (case snapshot of None \<Rightarrow> NO_BLOCK | Some s \<Rightarrow> gn_head s))) (\<lambda>writer.
     and_then (from_codec (writer_u32 writer (case snapshot of None \<Rightarrow> NO_BLOCK | Some s \<Rightarrow> gn_tail s))) (\<lambda>writer.
     and_then (from_codec (writer_u32 writer (case snapshot of None \<Rightarrow> NO_BLOCK | Some s \<Rightarrow> gn_root s))) (\<lambda>writer.
     and_then (from_codec (writer_u32 writer (case Option.bind snapshot gn_frontier_root of None \<Rightarrow> 0 | Some r \<Rightarrow> r))) (\<lambda>writer.
     and_then (from_codec (writer_u32 writer (if is_some_and snapshot gn_frontier_valid then 1 else 0))) (\<lambda>writer.
     and_then (from_codec (writer_u32 writer 0)) (\<lambda>writer.
     write_optional_owner (Option.bind snapshot gn_after) writer)))))))"

definition journal_fields :: "reader \<Rightarrow> ((u64 \<times> u32 \<times> u32 \<times> u32) \<times> reader) result" where
  "journal_fields reader =
     and_then (from_codec (reader_u64 reader)) (\<lambda>(ident, reader).
     and_then (from_codec (reader_u32 reader)) (\<lambda>(head, reader).
     and_then (from_codec (reader_u32 reader)) (\<lambda>(tail, reader).
     and_then (from_codec (reader_u32 reader)) (\<lambda>(phase, reader).
     and_then (from_codec (reader_u32 reader)) (\<lambda>(zero, reader).
     if zero \<noteq> 0 then Inl InvalidState else Inr ((ident, head, tail, phase), reader))))))"

definition journal_of :: "u64 \<times> u32 \<times> u32 \<times> u32 \<Rightarrow> group_journal option result" where
  "journal_of raw =
     (let (ident, head, tail, phase) = raw in
      if ident = 0 then
        (if head \<noteq> NO_BLOCK \<or> tail \<noteq> NO_BLOCK \<or> phase \<noteq> 0 then Inl InvalidState else Inr None)
      else
      and_then (map_err (\<lambda>_. InvalidState) (identifier_new ident)) (\<lambda>ident.
      and_then (if phase = 1 then Inr Building else if phase = 2 then Inr Retiring else Inl InvalidState) (\<lambda>phase.
      Inr (Some \<lparr>gj_id = ident, gj_head = head, gj_tail = tail, gj_phase = phase\<rparr>))))"

definition write_journal :: "writer \<Rightarrow> group_journal option \<Rightarrow> writer result" where
  "write_journal writer journal =
     and_then (from_codec (writer_u64 writer (case journal of None \<Rightarrow> 0 | Some j \<Rightarrow> gj_id j))) (\<lambda>writer.
     and_then (from_codec (writer_u32 writer (case journal of None \<Rightarrow> NO_BLOCK | Some j \<Rightarrow> gj_head j))) (\<lambda>writer.
     and_then (from_codec (writer_u32 writer (case journal of None \<Rightarrow> NO_BLOCK | Some j \<Rightarrow> gj_tail j))) (\<lambda>writer.
     and_then (from_codec (writer_u32 writer (case journal of None \<Rightarrow> 0 | Some j \<Rightarrow> rewrite_phase_tag (gj_phase j)))) (\<lambda>writer.
     from_codec (writer_u32 writer 0)))))"

definition read_old_grouped_state :: "page \<Rightarrow> group_state result" where
  "read_old_grouped_state self =
     and_then (from_codec (reader_take (reader_new (drop META_LEGACY_BYTES (page_used self))) 4)) (\<lambda>(magic, reader).
     if magic \<noteq> PG09 then Inl InvalidState else
     and_then (from_codec (reader_u16 reader)) (\<lambda>(version, reader).
     and_then (from_codec (reader_u16 reader)) (\<lambda>(flags, reader).
     if \<not> ((version = 1 \<and> flags = 0) \<or> (version = 2 \<and> flags \<le> 1)) then Inl InvalidState else
     and_then (from_codec (reader_u64 reader)) (\<lambda>(ident, reader).
     and_then (from_codec (reader_u32 reader)) (\<lambda>(head, reader).
     and_then (from_codec (reader_u32 reader)) (\<lambda>(tail, reader).
     and_then (from_codec (reader_u32 reader)) (\<lambda>(root, reader).
     and_then (from_codec (reader_u32 reader)) (\<lambda>(frontier, reader).
     if version = 1 \<and> frontier \<noteq> 0 then Inl InvalidState else
     let frontier_root = (if version = 2 then Some frontier else None) in
     and_then (read_optional_owner reader) (\<lambda>(after, reader).
     and_then (if ident = 0 then
         (if head \<noteq> NO_BLOCK \<or> tail \<noteq> NO_BLOCK \<or> root \<noteq> NO_BLOCK \<or> after \<noteq> None \<or> version \<noteq> 1
          then Inl InvalidState else Inr None)
       else and_then (map_err (\<lambda>_. InvalidState) (identifier_new ident)) (\<lambda>ident.
         Inr (Some \<lparr>gn_id = ident, gn_head = head, gn_tail = tail, gn_root = root, gn_after = after,
           gn_frontier_root = frontier_root, gn_frontier_valid = (flags = 1)\<rparr>))) (\<lambda>active.
     and_then (journal_fields reader) (\<lambda>(raw, reader).
     and_then (from_codec (reader_finish reader)) (\<lambda>_.
     and_then (journal_of raw) (\<lambda>journal.
     Inr (group_state_default\<lparr>gt_active := active, gt_journal := journal\<rparr>))))))))))))))"

definition read_delta_slot :: "reader \<Rightarrow> (group_delta option \<times> reader) result" where
  "read_delta_slot reader =
     and_then (read_snapshot reader) (\<lambda>(snapshot, reader).
     and_then (read_optional_owner reader) (\<lambda>(before, reader).
     and_then (from_codec (reader_u8 reader)) (\<lambda>(level, reader).
     and_then (from_codec (reader_take reader 7)) (\<lambda>(zeros, reader).
     if zeros \<noteq> replicate 7 0 then Inl InvalidState else
     if snapshot = None \<and> (before \<noteq> None \<or> level \<noteq> 0) then Inl InvalidState
     else Inr (map_option (\<lambda>snapshot. \<lparr>gd_snapshot = snapshot, gd_before = before, gd_level = level\<rparr>) snapshot, reader)))))"

definition read_retired_slot :: "reader \<Rightarrow> (group_retired option \<times> reader) result" where
  "read_retired_slot reader =
     and_then (from_codec (reader_u64 reader)) (\<lambda>(ident, reader).
     and_then (from_codec (reader_u32 reader)) (\<lambda>(head, reader).
     and_then (from_codec (reader_u32 reader)) (\<lambda>(tail, reader).
     if ident = 0 then
       (if head \<noteq> NO_BLOCK \<or> tail \<noteq> NO_BLOCK then Inl InvalidState else Inr (None, reader))
     else
     and_then (map_err (\<lambda>_. InvalidState) (identifier_new ident)) (\<lambda>ident.
     Inr (Some \<lparr>gr_id = ident, gr_head = head, gr_tail = tail\<rparr>, reader)))))"

text \<open>A \<open>for slot in &mut array\<close> loop that fills the array in order.\<close>

fun read_slots :: "(reader \<Rightarrow> ('a \<times> reader) result) \<Rightarrow> nat \<Rightarrow> reader \<Rightarrow> ('a list \<times> reader) result" where
  "read_slots f 0 reader = Inr ([], reader)"
| "read_slots f (Suc n) reader =
     and_then (f reader) (\<lambda>(x, reader).
     and_then (read_slots f n reader) (\<lambda>(xs, reader). Inr (x # xs, reader)))"

definition read_new_grouped_state :: "page \<Rightarrow> group_state result" where
  "read_new_grouped_state self =
     and_then (from_codec (reader_take (reader_new (drop META_LEGACY_BYTES (page_used self))) 4)) (\<lambda>(magic, reader).
     if magic \<noteq> PG10 then Inl InvalidState else
     and_then (from_codec (reader_u16 reader)) (\<lambda>(version, reader).
     if version \<noteq> 1 then Inl InvalidState else
     and_then (from_codec (reader_u16 reader)) (\<lambda>(flags, reader).
     if flags \<noteq> 0 then Inl InvalidState else
     and_then (read_snapshot reader) (\<lambda>(active, reader).
     and_then (journal_fields reader) (\<lambda>(raw, reader).
     and_then (journal_of raw) (\<lambda>journal.
     and_then (read_slots read_delta_slot GROUP_DELTA_SEGMENTS reader) (\<lambda>(deltas, reader).
     and_then (read_slots read_retired_slot GROUP_RETIRED_SEGMENTS reader) (\<lambda>(retired, reader).
     and_then (from_codec (reader_finish reader)) (\<lambda>_.
     Inr \<lparr>gt_active = active, gt_journal = journal, gt_deltas = deltas, gt_retired = retired\<rparr>)))))))))"

text \<open>No identity of the state is at or above the next incarnation.\<close>

definition unallocated :: "group_state \<Rightarrow> u64 \<Rightarrow> bool" where
  "unallocated self nxt \<longleftrightarrow>
     is_some_and (gt_active self) (\<lambda>active. gn_id active \<ge> nxt) \<or>
     list_ex (\<lambda>delta. gn_id (gd_snapshot delta) \<ge> nxt) (somes (gt_deltas self)) \<or>
     is_some_and (gt_journal self) (\<lambda>journal. gj_id journal \<ge> nxt) \<or>
     list_ex (\<lambda>retired. gr_id retired \<ge> nxt) (somes (gt_retired self))"

definition page_grouped_state :: "page \<Rightarrow> group_state result" where
  "page_grouped_state self =
     and_then (page_require self Meta) (\<lambda>_.
     if pg_len self = META_LEGACY_BYTES then Inr group_state_default else
     and_then (if pg_len self = META_GROUPED_BYTES then read_old_grouped_state self
       else if pg_len self = META_GROUPED_V3_BYTES then read_new_grouped_state self
       else Inl InvalidState) (\<lambda>state.
     and_then (group_state_validate state) (\<lambda>_.
     and_then (page_u64 self 32) (\<lambda>nxt.
     if unallocated state nxt then Inl InvalidState else Inr state))))"

definition write_old_grouped_state :: "group_state \<Rightarrow> writer \<Rightarrow> writer result" where
  "write_old_grouped_state state writer =
     (let frontier = Option.bind (gt_active state) gn_frontier_root in
      and_then (from_codec (writer_put writer PG09)) (\<lambda>writer.
      and_then (from_codec (writer_u16 writer (if frontier \<noteq> None then 2 else 1))) (\<lambda>writer.
      and_then (from_codec (writer_u16 writer (if is_some_and (gt_active state) gn_frontier_valid then 1 else 0))) (\<lambda>writer.
      and_then (from_codec (writer_u64 writer (case gt_active state of None \<Rightarrow> 0 | Some a \<Rightarrow> gn_id a))) (\<lambda>writer.
      and_then (from_codec (writer_u32 writer (case gt_active state of None \<Rightarrow> NO_BLOCK | Some a \<Rightarrow> gn_head a))) (\<lambda>writer.
      and_then (from_codec (writer_u32 writer (case gt_active state of None \<Rightarrow> NO_BLOCK | Some a \<Rightarrow> gn_tail a))) (\<lambda>writer.
      and_then (from_codec (writer_u32 writer (case gt_active state of None \<Rightarrow> NO_BLOCK | Some a \<Rightarrow> gn_root a))) (\<lambda>writer.
      and_then (from_codec (writer_u32 writer (case frontier of None \<Rightarrow> 0 | Some r \<Rightarrow> r))) (\<lambda>writer.
      and_then (write_optional_owner (Option.bind (gt_active state) gn_after) writer) (\<lambda>writer.
      write_journal writer (gt_journal state)))))))))))"

definition write_delta_slot :: "writer \<Rightarrow> group_delta option \<Rightarrow> writer result" where
  "write_delta_slot writer delta =
     and_then (write_snapshot writer (map_option gd_snapshot delta)) (\<lambda>writer.
     and_then (write_optional_owner (Option.bind delta gd_before) writer) (\<lambda>writer.
     and_then (from_codec (writer_u8 writer (case delta of None \<Rightarrow> 0 | Some d \<Rightarrow> gd_level d))) (\<lambda>writer.
     from_codec (writer_put writer (replicate 7 0)))))"

definition write_retired_slot :: "writer \<Rightarrow> group_retired option \<Rightarrow> writer result" where
  "write_retired_slot writer retired =
     and_then (from_codec (writer_u64 writer (case retired of None \<Rightarrow> 0 | Some r \<Rightarrow> gr_id r))) (\<lambda>writer.
     and_then (from_codec (writer_u32 writer (case retired of None \<Rightarrow> NO_BLOCK | Some r \<Rightarrow> gr_head r))) (\<lambda>writer.
     from_codec (writer_u32 writer (case retired of None \<Rightarrow> NO_BLOCK | Some r \<Rightarrow> gr_tail r))))"

definition write_new_grouped_state :: "group_state \<Rightarrow> writer \<Rightarrow> writer result" where
  "write_new_grouped_state state writer =
     and_then (from_codec (writer_put writer PG10)) (\<lambda>writer.
     and_then (from_codec (writer_u16 writer 1)) (\<lambda>writer.
     and_then (from_codec (writer_u16 writer 0)) (\<lambda>writer.
     and_then (write_snapshot writer (gt_active state)) (\<lambda>writer.
     and_then (write_journal writer (gt_journal state)) (\<lambda>writer.
     and_then (try_fold write_delta_slot writer (gt_deltas state)) (\<lambda>writer.
     and_then (try_fold write_retired_slot writer (gt_retired state)) (\<lambda>writer.
     if wr_offset writer \<noteq> length (wr_bytes writer) then Inl InvalidState else Inr writer)))))))"

definition page_set_grouped_state :: "page \<Rightarrow> group_state \<Rightarrow> page result" where
  "page_set_grouped_state self state =
     and_then (page_require self Meta) (\<lambda>_.
     and_then (group_state_validate state) (\<lambda>_.
     and_then (page_u64 self 32) (\<lambda>nxt.
     if unallocated state nxt then Inl InvalidState else
     if \<not> (group_state_delta_count state \<noteq> 0 \<or> list_ex (\<lambda>r. r \<noteq> None) (gt_retired state)) then
       and_then (write_old_grouped_state state (writer_new (replicate 72 0))) (\<lambda>writer.
       Inr ((page_copy self META_LEGACY_BYTES (wr_bytes writer))\<lparr>pg_len := META_GROUPED_BYTES\<rparr>))
     else
       and_then (write_new_grouped_state state (writer_new (replicate (META_GROUPED_V3_BYTES - META_LEGACY_BYTES) 0))) (\<lambda>writer.
       Inr ((page_copy self META_LEGACY_BYTES (wr_bytes writer))\<lparr>pg_len := META_GROUPED_V3_BYTES\<rparr>)))))"

section \<open>Record fragments\<close>

datatype group_page_kind = MembersPage | LivenessPage | PostingPage | LeafPage | BranchPage

fun group_page_tag :: "group_page_kind \<Rightarrow> u8" where
  "group_page_tag MembersPage = 1"
| "group_page_tag LivenessPage = 2"
| "group_page_tag PostingPage = 3"
| "group_page_tag LeafPage = 4"
| "group_page_tag BranchPage = 5"

definition group_page_of_tag :: "u8 \<Rightarrow> group_page_kind option" where
  "group_page_of_tag tag =
     (if tag = 1 then Some MembersPage else if tag = 2 then Some LivenessPage else if tag = 3 then Some PostingPage
      else if tag = 4 then Some LeafPage else if tag = 5 then Some BranchPage else None)"

text \<open>A catalog key is the pair \<open>[u64; 2]\<close>; arrays compare lexicographically.\<close>

type_synonym catalog_key = "u64 \<times> u64"

definition catalog_key_le :: "catalog_key \<Rightarrow> catalog_key \<Rightarrow> bool" where
  "catalog_key_le a b \<longleftrightarrow> fst a < fst b \<or> (fst a = fst b \<and> snd a \<le> snd b)"

record catalog_entry =
  ce_key :: catalog_key
  ce_value :: bytes

definition catalog_entry_default :: catalog_entry where
  "catalog_entry_default = \<lparr>ce_key = (0, 0), ce_value = replicate 64 0\<rparr>"

record group_data =
  dt_id :: segment_id
  dt_kind :: group_page_kind
  dt_key :: catalog_key
  dt_total :: u32
  dt_offset :: u32
  dt_bytes :: bytes

definition valid_key :: "catalog_key \<Rightarrow> bool" where
  "valid_key key \<longleftrightarrow>
     snd key \<le> 0xFFFFFFFF - 255 \<and> snd key AND 255 = 0 \<and>
     (fst key = 0 \<or>
      (drop_bit 16 (fst key) > 0 \<and> drop_bit 16 (fst key) < ucast NO_BLOCK \<and>
       (ucast (fst key) :: u16) \<ge> of_nat PAGE_HEADER \<and> unat (ucast (fst key) :: u16) < CAPACITY))"

definition page_new_grouped :: "u32 \<Rightarrow> segment_id \<Rightarrow> group_page_kind \<Rightarrow> page result" where
  "page_new_grouped block ident kind =
     and_then (page_new block Grouped) (\<lambda>page.
     and_then (page_write page PAGE_HEADER (CAPACITY - PAGE_HEADER) (\<lambda>writer.
       and_then (from_codec (writer_put writer G9PG)) (\<lambda>writer.
       and_then (from_codec (writer_u16 writer 1)) (\<lambda>writer.
       and_then (from_codec (writer_u8 writer (group_page_tag kind))) (\<lambda>writer.
       and_then (from_codec (writer_u8 writer 0)) (\<lambda>writer.
       from_codec (writer_u64 writer ident))))))) (\<lambda>page.
     Inr (page\<lparr>pg_len := GROUP_HEADER\<rparr>)))"

definition page_group_identity :: "page \<Rightarrow> (segment_id \<times> group_page_kind) result" where
  "page_group_identity self =
     and_then (page_require self Grouped) (\<lambda>_.
     and_then (ok_or InvalidState (get_from (page_used self) PAGE_HEADER)) (\<lambda>bytes.
     and_then (from_codec (reader_take (reader_new bytes) 4)) (\<lambda>(magic, reader).
     if magic \<noteq> G9PG then Inl InvalidState else
     and_then (from_codec (reader_u16 reader)) (\<lambda>(version, reader).
     if version \<noteq> 1 then Inl InvalidState else
     and_then (from_codec (reader_u8 reader)) (\<lambda>(tag, reader).
     and_then (ok_or InvalidState (group_page_of_tag tag)) (\<lambda>kind.
     and_then (from_codec (reader_u8 reader)) (\<lambda>(zero, reader).
     if zero \<noteq> 0 then Inl InvalidState else
     and_then (from_codec (reader_u64 reader)) (\<lambda>(v, reader).
     and_then (map_err (\<lambda>_. InvalidState) (identifier_new v)) (\<lambda>ident.
     Inr (ident, kind))))))))))"

definition page_group_data :: "page \<Rightarrow> group_data result" where
  "page_group_data self =
     and_then (page_group_identity self) (\<lambda>(ident, kind).
     if \<not> (kind = MembersPage \<or> kind = LivenessPage \<or> kind = PostingPage) then Inl InvalidState else
     and_then (from_codec (reader_u64 (reader_new (drop GROUP_HEADER (page_used self))))) (\<lambda>(k0, reader).
     and_then (from_codec (reader_u64 reader)) (\<lambda>(k1, reader).
     and_then (from_codec (reader_u32 reader)) (\<lambda>(total, reader).
     and_then (from_codec (reader_u32 reader)) (\<lambda>(offset, reader).
     and_then (ok_or InvalidState (get_from (page_used self) DATA_HEADER)) (\<lambda>bytes.
     let maximum = (if kind = MembersPage then 72 + 256 * 512 * 16 else 72 + 256 * 68) in
     if \<not> valid_key (k0, k1) \<or> (kind = PostingPage) \<noteq> (k0 \<noteq> 0) \<or> total < 72 \<or> unat total > maximum \<or>
        offset \<ge> total \<or> unat offset mod GROUP_DATA_BYTES \<noteq> 0 \<or>
        length bytes \<noteq> min (unat (total - offset)) GROUP_DATA_BYTES
     then Inl InvalidState
     else Inr \<lparr>dt_id = ident, dt_kind = kind, dt_key = (k0, k1), dt_total = total, dt_offset = offset, dt_bytes = bytes\<rparr>))))))"

definition page_group_record ::
  "u32 \<Rightarrow> segment_id \<Rightarrow> group_page_kind \<Rightarrow> catalog_key \<Rightarrow> u32 \<Rightarrow> u32 \<Rightarrow> bytes \<Rightarrow> page result" where
  "page_group_record block ident kind key len offset bytes =
     and_then (page_new_grouped block ident kind) (\<lambda>page.
     if length bytes > GROUP_DATA_BYTES then Inl (Limit ''group fragment'') else
     and_then (page_write page GROUP_HEADER (CAPACITY - GROUP_HEADER) (\<lambda>writer.
       and_then (from_codec (writer_u64 writer (fst key))) (\<lambda>writer.
       and_then (from_codec (writer_u64 writer (snd key))) (\<lambda>writer.
       and_then (from_codec (writer_u32 writer len)) (\<lambda>writer.
       and_then (from_codec (writer_u32 writer offset)) (\<lambda>writer.
       from_codec (writer_put writer bytes))))))) (\<lambda>page.
     let page = page\<lparr>pg_len := DATA_HEADER + length bytes\<rparr> in
     and_then (page_group_data page) (\<lambda>_. Inr page)))"

section \<open>Catalog nodes\<close>

record group_node_view =
  nv_bytes :: bytes
  nv_level :: u8
  nv_count :: u16

definition node_key :: "group_node_view \<Rightarrow> u16 \<Rightarrow> catalog_key result" where
  "node_key self index =
     (if index \<ge> nv_count self then Inl InvalidParameters else
      and_then (from_codec (reader_u64 (reader_new (take 16 (drop (unat index * ENTRY_BYTES) (nv_bytes self)))))) (\<lambda>(k0, reader).
      and_then (from_codec (reader_u64 reader)) (\<lambda>(k1, _). Inr (k0, k1))))"

definition node_entry :: "group_node_view \<Rightarrow> u16 \<Rightarrow> catalog_entry result" where
  "node_entry self index =
     and_then (node_key self index) (\<lambda>key.
     Inr \<lparr>ce_key = key, ce_value = take 64 (drop (unat index * ENTRY_BYTES + 16) (nv_bytes self))\<rparr>)"

definition page_group_node_info :: "page \<Rightarrow> (u8 \<times> u16) result" where
  "page_group_node_info self =
     and_then (page_group_identity self) (\<lambda>(_, kind).
     and_then (ok_or InvalidState (get_from (page_used self) GROUP_HEADER)) (\<lambda>bytes.
     and_then (case bytes of [] \<Rightarrow> Inl InvalidState | level # _ \<Rightarrow> Inr level) (\<lambda>level.
     and_then (page_u16 self (GROUP_HEADER + 2)) (\<lambda>count.
     if level > MAX_CATALOG_LEVEL \<or> count = 0 \<or> unat count > CATALOG_ENTRIES \<or> pg_bytes self ! (GROUP_HEADER + 1) \<noteq> 0
     then Inl InvalidState else
     and_then (page_u32 self (GROUP_HEADER + 4)) (\<lambda>zero.
     if zero \<noteq> 0 \<or> pg_len self \<noteq> NODE_HEADER + unat count * ENTRY_BYTES \<or>
        kind \<noteq> (if level = 0 then LeafPage else BranchPage)
     then Inl InvalidState else Inr (level, count))))))"

definition page_group_node_view :: "page \<Rightarrow> group_node_view result" where
  "page_group_node_view self =
     and_then (page_group_node_info self) (\<lambda>(level, count).
     Inr \<lparr>nv_bytes = drop NODE_HEADER (page_used self), nv_level = level, nv_count = count\<rparr>)"

definition page_group_entry :: "page \<Rightarrow> u16 \<Rightarrow> catalog_entry result" where
  "page_group_entry self index = and_then (page_group_node_view self) (\<lambda>node. node_entry node index)"

definition group_node_step ::
  "page \<Rightarrow> group_node_view \<Rightarrow> catalog_key option \<Rightarrow> nat \<Rightarrow> catalog_key option result" where
  "group_node_step self node previous index =
     and_then (node_key node (of_nat index)) (\<lambda>key.
     if \<not> valid_key key \<or> is_some_and previous (\<lambda>previous. catalog_key_le key previous) then Inl InvalidState else
     if nv_level node \<noteq> 0 then
       and_then (node_entry node (of_nat index)) (\<lambda>entry.
       let child = (from_le (take 4 (ce_value entry)) :: u32) in
       if \<not> block_valid child \<or> child = pg_block self \<or> drop 4 (ce_value entry) \<noteq> replicate 60 0
       then Inl InvalidState else Inr (Some key))
     else Inr (Some key))"

definition page_validate_group_node :: "page \<Rightarrow> unit result" where
  "page_validate_group_node self =
     and_then (page_group_node_view self) (\<lambda>node.
     and_then (try_fold (group_node_step self node) None [0..<unat (nv_count node)]) (\<lambda>_. Inr ()))"

definition page_group_node :: "u32 \<Rightarrow> segment_id \<Rightarrow> u8 \<Rightarrow> catalog_entry list \<Rightarrow> page result" where
  "page_group_node block ident level entries =
     (if level > MAX_CATALOG_LEVEL \<or> entries = [] \<or> length entries > CATALOG_ENTRIES
      then Inl (Limit ''group catalog node'') else
      and_then (page_new_grouped block ident (if level = 0 then LeafPage else BranchPage)) (\<lambda>page.
      and_then (page_write page GROUP_HEADER (CAPACITY - GROUP_HEADER) (\<lambda>writer.
        and_then (from_codec (writer_u8 writer level)) (\<lambda>writer.
        and_then (from_codec (writer_u8 writer 0)) (\<lambda>writer.
        and_then (from_codec (writer_u16 writer (of_nat (length entries)))) (\<lambda>writer.
        and_then (from_codec (writer_u32 writer 0)) (\<lambda>writer.
        try_fold (\<lambda>writer entry.
          and_then (from_codec (writer_u64 writer (fst (ce_key entry)))) (\<lambda>writer.
          and_then (from_codec (writer_u64 writer (snd (ce_key entry)))) (\<lambda>writer.
          from_codec (writer_put writer (ce_value entry))))) writer entries))))))
        (\<lambda>page.
      let page = page\<lparr>pg_len := NODE_HEADER + length entries * ENTRY_BYTES\<rparr> in
      and_then (page_validate_group_node page) (\<lambda>_. Inr page))))"

definition page_validate_grouped :: "page \<Rightarrow> heap_layout \<Rightarrow> unit result" where
  "page_validate_grouped self layout =
     and_then (page_group_identity self) (\<lambda>(_, kind).
     if kind = LeafPage \<or> kind = BranchPage then page_validate_group_node self
     else and_then (page_group_data self) (\<lambda>_. Inr ()))"

end
