(* ===== verification/PageOwners.thy ===== *)
theory PageOwners
  imports PageBase
begin

text \<open>
  Owner pages (crates/pin-core/src/mutable/page.rs, \<open>owner_count\<close>, \<open>owner\<close>, \<open>append_owner\<close> and
  \<open>change_owner\<close>): fixed slots in front, the packed payloads of small documents behind them.
\<close>

section \<open>Definitions\<close>

definition page_owner_count :: "page \<Rightarrow> u16 result" where
  "page_owner_count self =
     and_then (page_require self Owners) (\<lambda>_.
     and_then (page_u16 self 16) (\<lambda>count.
     and_then (page_u16 self 18) (\<lambda>zero.
     if zero \<noteq> 0 \<or> OWNER_HEADER + unat count * OWNER_BYTES > pg_len self then Inl (corrupt 16) else Inr count)))"

definition slot_offset :: "u16 \<Rightarrow> nat" where
  "slot_offset slot = OWNER_HEADER + unat slot * OWNER_BYTES"

text \<open>The checks of \<open>owner\<close> after the fixed record is read.\<close>

definition owner_inline :: "page \<Rightarrow> nat \<Rightarrow> nat \<Rightarrow> nat \<Rightarrow> u32 \<Rightarrow> u32 \<Rightarrow> bytes result" where
  "owner_inline self offset inline_offset inline_len data_head data_bytes =
     (if inline_len = 0 then (if inline_offset \<noteq> 0 then Inl (corrupt (offset + 32)) else Inr []) else
      and_then (page_owner_count self) (\<lambda>count.
      if inline_len \<noteq> unat data_bytes \<or> data_head \<noteq> NO_BLOCK \<or> inline_offset < OWNER_HEADER + unat count * OWNER_BYTES
      then Inl (corrupt (offset + 32))
      else ok_or (corrupt (offset + 32)) (get_range (page_used self) inline_offset (inline_offset + inline_len))))"

definition page_owner :: "page \<Rightarrow> u16 \<Rightarrow> heap_layout \<Rightarrow> owner result" where
  "page_owner self slot layout =
     and_then (page_owner_count self) (\<lambda>count.
     if slot \<ge> count then Inl (corrupt 16) else
     let offset = slot_offset slot in
     and_then (from_codec (reader_u64 (reader_new (take OWNER_BYTES (drop offset (pg_bytes self)))))) (\<lambda>(v, reader).
     and_then (map_err (\<lambda>_. corrupt offset) (identifier_new v)) (\<lambda>incarnation.
     and_then (from_codec (reader_u32 reader)) (\<lambda>(block, reader).
     and_then (from_codec (reader_u16 reader)) (\<lambda>(off, reader).
     and_then (map_err (\<lambda>_. corrupt (offset + 8)) (root_tid_new block off layout)) (\<lambda>root.
     and_then (from_codec (reader_u8 reader)) (\<lambda>(tag, reader).
     and_then (ok_or (corrupt (offset + 14)) (publication_of_tag tag)) (\<lambda>publication.
     and_then (from_codec (reader_u8 reader)) (\<lambda>(flag, reader).
     and_then (if flag = 0 then Inr False else if flag = 1 \<and> publication = Published then Inr True
               else Inl (corrupt (offset + 15))) (\<lambda>live.
     and_then (from_codec (reader_u32 reader)) (\<lambda>(tokens, reader).
     and_then (from_codec (reader_u32 reader)) (\<lambda>(terms, reader).
     and_then (from_codec (reader_u32 reader)) (\<lambda>(data_head, reader).
     and_then (from_codec (reader_u32 reader)) (\<lambda>(data_bytes, reader).
     and_then (from_codec (reader_u16 reader)) (\<lambda>(inline_offset, reader).
     and_then (from_codec (reader_u16 reader)) (\<lambda>(inline_len, reader).
     and_then (from_codec (reader_u32 reader)) (\<lambda>(zero, reader).
     if zero \<noteq> 0 \<or> tokens > MAX_DOCUMENT_TOKENS \<or> terms > tokens \<or>
        \<not> (16 \<le> unat data_bytes \<and> unat data_bytes \<le> MAX_DOCUMENT_BYTES) \<or>
        (data_head \<noteq> NO_BLOCK \<and> \<not> block_valid data_head)
     then Inl (corrupt (offset + 16)) else
     and_then (owner_inline self offset (unat inline_offset) (unat inline_len) data_head data_bytes) (\<lambda>inline.
     if (publication = FragmentsWritten \<or> live) \<and> inline = [] \<and> data_head = NO_BLOCK then Inl (corrupt (offset + 24)) else
     if publication = Allocated \<and> data_head \<noteq> NO_BLOCK then Inl (corrupt (offset + 24))
     else Inr \<lparr>ow_reference = \<lparr>or_page = pg_block self, or_slot = slot, or_incarnation = incarnation\<rparr>, ow_root = root,
       ow_publication = publication, ow_live = live, ow_tokens = tokens, ow_terms = terms, ow_data_head = data_head,
       ow_data_bytes = data_bytes, ow_inline = inline\<rparr>))))))))))))))))))"

text \<open>\<open>bytes.copy_within(from..to, dest)\<close>.\<close>

definition page_copy_within :: "page \<Rightarrow> nat \<Rightarrow> nat \<Rightarrow> nat \<Rightarrow> page" where
  "page_copy_within self from to dest = page_copy self dest (take (to - from) (drop from (pg_bytes self)))"

definition shift_inline :: "page \<Rightarrow> nat \<Rightarrow> page result" where
  "shift_inline self slot =
     (let record = OWNER_HEADER + slot * OWNER_BYTES in
      and_then (page_u16 self (record + 32)) (\<lambda>inline_offset.
      if inline_offset \<noteq> 0 then
        and_then (ok_or (corrupt (record + 32)) (checked_add_w inline_offset (of_nat OWNER_BYTES))) (\<lambda>moved.
        page_put_u16 self (record + 32) moved)
      else Inr self))"

definition owner_record_write ::
  "incarnation \<Rightarrow> root_tid \<Rightarrow> u32 \<Rightarrow> u32 \<Rightarrow> nat \<Rightarrow> nat \<Rightarrow> nat \<Rightarrow> writer \<Rightarrow> writer result" where
  "owner_record_write incarnation root tokens terms data_len inline_offset inline_len writer =
     and_then (from_codec (writer_u64 writer incarnation)) (\<lambda>writer.
     and_then (from_codec (writer_u32 writer (tid_block root))) (\<lambda>writer.
     and_then (from_codec (writer_u16 writer (tid_offset root))) (\<lambda>writer.
     and_then (from_codec (writer_u8 writer 0)) (\<lambda>writer.
     and_then (from_codec (writer_u8 writer 0)) (\<lambda>writer.
     and_then (from_codec (writer_u32 writer tokens)) (\<lambda>writer.
     and_then (from_codec (writer_u32 writer terms)) (\<lambda>writer.
     and_then (from_codec (writer_u32 writer NO_BLOCK)) (\<lambda>writer.
     and_then (from_codec (writer_u32 writer (of_nat data_len))) (\<lambda>writer.
     and_then (from_codec (writer_u16 writer (if inline_len = 0 then 0 else of_nat inline_offset))) (\<lambda>writer.
     and_then (from_codec (writer_u16 writer (of_nat inline_len))) (\<lambda>writer.
     from_codec (writer_u32 writer 0))))))))))))"

definition page_append_owner ::
  "page \<Rightarrow> incarnation \<Rightarrow> root_tid \<Rightarrow> u32 \<Rightarrow> u32 \<Rightarrow> bytes \<Rightarrow> (owner_ref option \<times> page) result" where
  "page_append_owner self incarnation root tokens terms data =
     and_then (page_owner_count self) (\<lambda>count.
     if tokens > MAX_DOCUMENT_TOKENS \<or> terms > tokens \<or> \<not> (16 \<le> length data \<and> length data \<le> MAX_DOCUMENT_BYTES)
     then Inl InvalidDocument else
     let inline = (if length data \<le> INLINE_BYTES then data else []);
         new_len = pg_len self + OWNER_BYTES + length inline in
     if new_len > CAPACITY then Inr (None, self) else
     let offset = slot_offset count; self = page_copy_within self offset (pg_len self) (offset + OWNER_BYTES) in
     and_then (try_fold shift_inline self [0..<unat count]) (\<lambda>self.
     let inline_offset = pg_len self + OWNER_BYTES; self = self\<lparr>pg_len := new_len\<rparr> in
     and_then (page_write self offset OWNER_BYTES
       (owner_record_write incarnation root tokens terms (length data) inline_offset (length inline))) (\<lambda>self.
     and_then (page_put_u16 (page_copy self inline_offset inline) 16 (count + 1)) (\<lambda>self.
     Inr (Some \<lparr>or_page = pg_block self, or_slot = count, or_incarnation = incarnation\<rparr>, self)))))"

text \<open>The match of \<open>change_owner\<close>: the new state byte, liveness and payload head.\<close>

definition owner_transition :: "owner \<Rightarrow> owner_change \<Rightarrow> (u8 \<times> bool \<times> u32) result" where
  "owner_transition owner change =
     (case change of
        PayloadReady head \<Rightarrow>
          if ow_publication owner \<noteq> Allocated then Inl InvalidState
          else if (ow_inline owner = [] \<and> \<not> block_valid head) \<or> (ow_inline owner \<noteq> [] \<and> head \<noteq> NO_BLOCK)
          then Inl (corrupt 24) else Inr (1, False, head)
      | Publish \<Rightarrow> if ow_publication owner = FragmentsWritten then Inr (2, True, ow_data_head owner) else Inl InvalidState
      | Remove \<Rightarrow> if ow_publication owner = Published \<and> ow_live owner then Inr (2, False, NO_BLOCK) else Inl InvalidState
      | Abandon \<Rightarrow>
          if ow_publication owner = Allocated \<or> ow_publication owner = FragmentsWritten then Inr (3, False, NO_BLOCK)
          else Inl InvalidState)"

definition page_change_owner :: "page \<Rightarrow> owner_ref \<Rightarrow> owner_change \<Rightarrow> heap_layout \<Rightarrow> page result" where
  "page_change_owner self reference change layout =
     and_then (page_owner self (or_slot reference) layout) (\<lambda>owner.
     if ow_reference owner \<noteq> reference then Inl (corrupt 16) else
     and_then (owner_transition owner change) (\<lambda>(state, live, head).
     let offset = slot_offset (or_slot reference) in
     page_put_u32 (self\<lparr>pg_bytes := (pg_bytes self)[offset + 14 := state, offset + 15 := bool_tag live]\<rparr>)
       (offset + 24) head))"

end
