(* ===== verification/PageTerms.thy ===== *)
theory PageTerms
  imports PageBase
begin

text \<open>
  Dictionary pages (crates/pin-core/src/mutable/page.rs, \<open>terms\<close> to \<open>set_inline_second\<close> and the
  iterator \<open>Terms\<close>): entries of a term, its first owner and its posting chain; packed pages hold a
  second owner inside the entry.
\<close>

section \<open>The iterator\<close>

record terms =
  ts_page :: u32
  ts_reader :: reader
  ts_packed :: bool
  ts_failed :: bool

text \<open>The part of an entry behind its text.\<close>

definition term_second ::
  "u32 \<Rightarrow> bool \<Rightarrow> nat \<Rightarrow> u32 \<Rightarrow> u32 \<Rightarrow> u32 \<Rightarrow> owner_ref \<Rightarrow> reader \<Rightarrow> ((owner_ref option \<times> owner_ref option) \<times> reader) result" where
  "term_second page packed failure inline head tail first reader =
     (if packed then
        and_then (from_codec (reader_take reader 16)) (\<lambda>(bytes, reader).
        if inline \<noteq> 0 then
          and_then (owner_ref_read (reader_new bytes)) (\<lambda>(second, _).
          if slot_le second first \<or> or_incarnation second \<le> or_incarnation first \<or>
             (inline = 1 \<and> \<not> (head = page \<and> tail = page)) \<or>
             (inline = 2 \<and> (head = NO_BLOCK \<or> tail = NO_BLOCK \<or> head = page \<or> tail = page))
          then Inl (corrupt failure)
          else Inr (if inline = 1 then (Some second, None) else (None, Some second), reader))
        else if bytes \<noteq> replicate 16 0 \<or> head = page \<or> tail = page then Inl (corrupt failure)
        else Inr ((None, None), reader))
      else Inr ((None, None), reader))"

text \<open>The closure of \<open>Terms::next\<close>.\<close>

definition term_entry :: "u32 \<Rightarrow> bool \<Rightarrow> reader \<Rightarrow> (dict_term \<times> reader) result" where
  "term_entry page packed reader =
     (let offset = rd_offset reader + PAGE_HEADER in
      and_then (from_codec (reader_u16 reader)) (\<lambda>(len, reader).
      if len = 0 \<or> unat len > MAX_TERM_BYTES then Inl (corrupt offset) else
      and_then (from_codec (reader_u16 reader)) (\<lambda>(zero, reader).
      if zero \<noteq> 0 then Inl (corrupt offset) else
      and_then (from_codec (reader_u32 reader)) (\<lambda>(head, reader).
      and_then (from_codec (reader_u32 reader)) (\<lambda>(tail, reader).
      and_then (owner_ref_read reader) (\<lambda>(first, reader).
      and_then (from_codec (reader_u32 reader)) (\<lambda>(inline, reader).
      if \<not> posting_pair_valid head tail \<or> inline > (if packed then 2 else 0) then Inl (corrupt (offset + 4)) else
      and_then (from_codec (reader_take reader (unat len))) (\<lambda>(text, reader).
      and_then (from_utf8 (corrupt (offset + DICTIONARY_ENTRY)) text) (\<lambda>text.
      and_then (term_second page packed (offset + DICTIONARY_ENTRY + unat len) inline head tail first reader)
        (\<lambda>((inline_second, shadow_second), reader).
      Inr (\<lparr>te_reference = \<lparr>tr_page = page, tr_offset = of_nat offset\<rparr>, te_term = text, te_first = first, te_head = head,
        te_tail = tail, te_inline_second = inline_second, te_shadow_second = shadow_second\<rparr>, reader)))))))))))"

definition terms_next :: "terms \<Rightarrow> dict_term result option \<times> terms" where
  "terms_next self =
     (if ts_failed self \<or> reader_remaining (ts_reader self) = 0 then (None, self) else
      case term_entry (ts_page self) (ts_packed self) (ts_reader self) of
        Inl e \<Rightarrow> (Some (Inl e), self\<lparr>ts_failed := True\<rparr>)
      | Inr (entry, reader) \<Rightarrow> (Some (Inr entry), self\<lparr>ts_reader := reader\<rparr>))"

text \<open>Every read moves the cursor forward within the buffer.\<close>

lemma reader_take_progress:
  "reader_take r n = Inr (bs, r') \<Longrightarrow> rd_bytes r' = rd_bytes r \<and> rd_offset r' = rd_offset r + n \<and> rd_offset r' \<le> length (rd_bytes r)"
  by (auto simp: reader_take_def checked_add_def codec_fail_def res_simps split: if_splits)

lemma reader_take_remaining:
  "reader_take r n = Inr (bs, r') \<Longrightarrow> reader_remaining r' + n = reader_remaining r"
  by (auto dest!: reader_take_progress simp: reader_remaining_def)

lemmas reader_remaining_dest = reader_take_remaining[of _ 1, simplified] reader_take_remaining

lemma reader_word_remaining:
  "reader_u8 r = Inr (b, r') \<Longrightarrow> reader_remaining r' + 1 = reader_remaining r"
  "reader_u16 r = Inr (v16, r') \<Longrightarrow> reader_remaining r' + 2 = reader_remaining r"
  "reader_u32 r = Inr (v32, r') \<Longrightarrow> reader_remaining r' + 4 = reader_remaining r"
  "reader_u64 r = Inr (v64, r') \<Longrightarrow> reader_remaining r' + 8 = reader_remaining r"
  by (auto simp: reader_u8_def reader_u16_def reader_u32_def reader_u64_def res_simps dest!: reader_take_remaining)

lemma owner_ref_read_remaining: "owner_ref_read r = Inr (o', r') \<Longrightarrow> reader_remaining r' + 16 = reader_remaining r"
  by (auto simp: owner_ref_read_def res_simps dest!: reader_word_remaining split: if_splits)

lemma term_second_remaining: "term_second page packed f inline head tail first r = Inr (x, r') \<Longrightarrow> reader_remaining r' \<le> reader_remaining r"
  by (auto simp: term_second_def res_simps dest!: reader_take_remaining split: if_splits)

lemma term_entry_remaining: "term_entry page packed r = Inr (entry, r') \<Longrightarrow> reader_remaining r' < reader_remaining r"
  by (auto simp: term_entry_def Let_def res_simps dest!: reader_word_remaining owner_ref_read_remaining reader_take_remaining
      term_second_remaining split: if_splits)

function terms_items :: "terms \<Rightarrow> dict_term items" where
  "terms_items self =
     (case terms_next self of
        (None, _) \<Rightarrow> ([], None)
      | (Some (Inl e), _) \<Rightarrow> ([], Some e)
      | (Some (Inr entry), self') \<Rightarrow> (let (entries, e) = terms_items self' in (entry # entries, e)))"
  by pat_completeness auto
termination
  by (relation "measure (\<lambda>self. reader_remaining (ts_reader self))")
    (auto simp: terms_next_def dest: term_entry_remaining split: if_splits sum.splits)

declare terms_items.simps [simp del]

section \<open>Operations\<close>

definition page_terms :: "page \<Rightarrow> terms result" where
  "page_terms self =
     and_then (page_require self DictionaryPage) (\<lambda>_.
     Inr \<lparr>ts_page = pg_block self, ts_reader = reader_new (drop PAGE_HEADER (page_used self)),
       ts_packed = page_packed_dictionary_format self, ts_failed = False\<rparr>)"

definition page_append_term :: "page \<Rightarrow> str \<Rightarrow> owner_ref \<Rightarrow> (term_ref option \<times> page) result" where
  "page_append_term self text first =
     and_then (page_require self DictionaryPage) (\<lambda>_.
     if text = [] \<or> length text > MAX_TERM_BYTES then Inl InvalidDocument else
     let packed = page_packed_dictionary_format self;
         nxt = pg_len self + DICTIONARY_ENTRY + length text + (if packed then 16 else 0) in
     if nxt > CAPACITY then Inr (None, self) else
     let reference = \<lparr>tr_page = pg_block self, tr_offset = of_nat (pg_len self)\<rparr> in
     and_then (page_write self (pg_len self) (nxt - pg_len self) (\<lambda>writer.
       and_then (from_codec (writer_u16 writer (of_nat (length text)))) (\<lambda>writer.
       and_then (from_codec (writer_u16 writer 0)) (\<lambda>writer.
       and_then (from_codec (writer_u32 writer NO_BLOCK)) (\<lambda>writer.
       and_then (from_codec (writer_u32 writer NO_BLOCK)) (\<lambda>writer.
       and_then (owner_ref_write first writer) (\<lambda>writer.
       and_then (from_codec (writer_u32 writer 0)) (\<lambda>writer.
       and_then (from_codec (writer_put writer text)) (\<lambda>writer.
       if packed then from_codec (writer_put writer (replicate 16 0)) else Inr writer)))))))))
       (\<lambda>self.
     Inr (Some reference, self\<lparr>pg_len := nxt\<rparr>)))"

definition page_term :: "page \<Rightarrow> term_ref \<Rightarrow> dict_term result" where
  "page_term self reference =
     (if tr_page reference \<noteq> pg_block self then Inl (corrupt 8) else
      and_then (page_terms self) (\<lambda>it.
      let (entries, e) = terms_items it in
      case find (\<lambda>entry. te_reference entry = reference) entries of
        Some entry \<Rightarrow> Inr entry
      | None \<Rightarrow> Inl (case e of Some e \<Rightarrow> e | None \<Rightarrow> corrupt (unat (tr_offset reference)))))"

definition page_set_posting_chain :: "page \<Rightarrow> term_ref \<Rightarrow> u32 \<Rightarrow> u32 \<Rightarrow> page result" where
  "page_set_posting_chain self reference head tail =
     and_then (page_term self reference) (\<lambda>entry.
     if te_inline_second entry \<noteq> None then Inl InvalidState else
     if \<not> posting_pair_valid head tail then Inl (corrupt (unat (tr_offset reference))) else
     and_then (page_put_u32 self (unat (tr_offset reference) + 4) head) (\<lambda>self.
     page_put_u32 self (unat (tr_offset reference) + 8) tail))"

definition page_promote_inline_second :: "page \<Rightarrow> term_ref \<Rightarrow> u32 \<Rightarrow> (owner_ref \<times> page) result" where
  "page_promote_inline_second self reference block =
     and_then (page_term self reference) (\<lambda>entry.
     and_then (ok_or InvalidState (te_inline_second entry)) (\<lambda>second.
     if \<not> block_valid block \<or> block = pg_block self then Inl InvalidState else
     and_then (page_put_u32 self (unat (tr_offset reference) + 28) 2) (\<lambda>self.
     and_then (page_put_u32 self (unat (tr_offset reference) + 4) block) (\<lambda>self.
     and_then (page_put_u32 self (unat (tr_offset reference) + 8) block) (\<lambda>self.
     Inr (second, self))))))"

definition page_set_inline_second :: "page \<Rightarrow> term_ref \<Rightarrow> owner_ref option \<Rightarrow> page result" where
  "page_set_inline_second self reference second =
     (if \<not> page_packed_dictionary_format self then Inl InvalidState else
      and_then (page_term self reference) (\<lambda>entry.
      let at = unat (tr_offset reference) + DICTIONARY_ENTRY + length (te_term entry) in
      case second of
        Some owner \<Rightarrow>
          if te_inline_second entry \<noteq> None \<or> te_head entry \<noteq> NO_BLOCK \<or> te_tail entry \<noteq> NO_BLOCK \<or>
             slot_le owner (te_first entry) \<or> or_incarnation owner \<le> or_incarnation (te_first entry)
          then Inl InvalidState else
          and_then (page_write self at 16 (owner_ref_write owner)) (\<lambda>self.
          and_then (page_put_u32 self (unat (tr_offset reference) + 28) 1) (\<lambda>self.
          and_then (page_put_u32 self (unat (tr_offset reference) + 4) (pg_block self)) (\<lambda>self.
          page_put_u32 self (unat (tr_offset reference) + 8) (pg_block self))))
      | None \<Rightarrow>
          if te_inline_second entry = None \<or> te_head entry \<noteq> pg_block self \<or> te_tail entry \<noteq> pg_block self
          then Inl InvalidState else
          and_then (page_put_u32 self (unat (tr_offset reference) + 28) 0) (\<lambda>self.
          let self = page_copy self at (replicate 16 0) in
          and_then (page_put_u32 self (unat (tr_offset reference) + 4) NO_BLOCK) (\<lambda>self.
          page_put_u32 self (unat (tr_offset reference) + 8) NO_BLOCK))))"

text \<open>FNV-1a routing of a term to its bucket.\<close>

definition bucket_for :: "str \<Rightarrow> nat" where
  "bucket_for text =
     unat (fold (\<lambda>byte hash. (hash XOR ucast byte) * 0x100000001b3) text (0xcbf29ce484222325 :: u64) AND of_nat (BUCKETS - 1))"

end
