(* ===== verification/PagePostings.thy ===== *)
theory PagePostings
  imports PageBase
begin

text \<open>
  Posting and fragment pages (crates/pin-core/src/mutable/page.rs, from \<open>posting_term\<close> on): appendable
  pages of plain references, sealed pages of delta-encoded references, direct pages that add heap
  coordinates, their builder and the iterators over all three.
\<close>

section \<open>Delta codec\<close>

definition write_delta :: "writer \<Rightarrow> owner_ref \<Rightarrow> owner_ref option \<Rightarrow> writer result" where
  "write_delta writer owner previous =
     and_then (case previous of
         Some previous \<Rightarrow>
           if or_page owner < or_page previous \<or> (or_page owner = or_page previous \<and> or_slot owner \<le> or_slot previous) \<or>
              or_incarnation owner \<le> or_incarnation previous
           then Inl InvalidState
           else Inr (or_page owner - or_page previous,
             if or_page owner = or_page previous then or_slot owner - or_slot previous else or_slot owner,
             or_incarnation owner - or_incarnation previous)
       | None \<Rightarrow> Inr (or_page owner, or_slot owner, or_incarnation owner)) (\<lambda>(page, slot, incarnation).
     if \<not> block_valid (or_page owner) \<or> unat (or_slot owner) \<ge> OWNER_SLOTS then Inl InvalidState else
     and_then (from_codec (writer_var_u32 writer page)) (\<lambda>writer.
     and_then (from_codec (writer_var_u32 writer (ucast slot))) (\<lambda>writer.
     from_codec (writer_var_u64 writer incarnation))))"

definition read_delta :: "reader \<Rightarrow> owner_ref option \<Rightarrow> (owner_ref \<times> reader) result" where
  "read_delta reader previous =
     (let failure = corrupt (rd_offset reader) in
      and_then (from_codec (reader_var_u32 reader)) (\<lambda>(page_delta, reader).
      and_then (from_codec (reader_var_u32 reader)) (\<lambda>(slot_delta, reader).
      and_then (from_codec (reader_var_u64 reader)) (\<lambda>(incarnation_delta, reader).
      and_then (case previous of
          Some previous \<Rightarrow>
            if incarnation_delta = 0 \<or> (page_delta = 0 \<and> slot_delta = 0) then Inl failure else
            and_then (ok_or failure (checked_add_w (or_page previous) page_delta)) (\<lambda>page.
            and_then (if page_delta = 0 then ok_or failure (checked_add_w (ucast (or_slot previous)) slot_delta)
                      else Inr slot_delta) (\<lambda>slot.
            and_then (ok_or failure (checked_add_w (or_incarnation previous) incarnation_delta)) (\<lambda>incarnation.
            Inr (page, slot, incarnation))))
        | None \<Rightarrow> Inr (page_delta, slot_delta, incarnation_delta)) (\<lambda>(page, slot, incarnation).
      if \<not> block_valid page \<or> unat (slot :: u32) \<ge> OWNER_SLOTS then Inl failure else
      and_then (map_err (\<lambda>_. failure) (identifier_new incarnation)) (\<lambda>incarnation.
      Inr (\<lparr>or_page = page, or_slot = ucast slot, or_incarnation = incarnation\<rparr>, reader)))))))"

section \<open>The iterator\<close>

record postings =
  po_reader :: reader
  po_compressed :: bool
  po_remaining :: u16
  po_previous :: "owner_ref option"
  po_failed :: bool

text \<open>
  A step that fails marks the iterator; it yields nothing from then on, so the cursor it leaves behind
  is never read again and stays where it was.
\<close>

definition postings_next :: "postings \<Rightarrow> owner_ref result option \<times> postings" where
  "postings_next self =
     (if po_failed self then (None, self) else
      if po_remaining self = 0 then
        (if reader_remaining (po_reader self) = 0 then (None, self)
         else (Some (Inl (corrupt (rd_offset (po_reader self)))), self\<lparr>po_failed := True\<rparr>))
      else
        case (if po_compressed self then read_delta (po_reader self) (po_previous self) else owner_ref_read (po_reader self)) of
          Inr (owner, reader) \<Rightarrow>
            (Some (Inr owner), self\<lparr>po_reader := reader, po_remaining := po_remaining self - 1, po_previous := Some owner\<rparr>)
        | Inl e \<Rightarrow> (Some (Inl e), self\<lparr>po_remaining := po_remaining self - 1, po_failed := True\<rparr>))"

lemma postings_next_remaining:
  "postings_next self = (Some (Inr owner), self') \<Longrightarrow> unat (po_remaining self') < unat (po_remaining self)"
  by (auto simp: postings_next_def unat_minus_one word_neq_0_conv[symmetric] unat_gt_0 split: if_splits sum.splits prod.splits)

function postings_items :: "postings \<Rightarrow> owner_ref items" where
  "postings_items self =
     (case postings_next self of
        (None, _) \<Rightarrow> ([], None)
      | (Some (Inl e), _) \<Rightarrow> ([], Some e)
      | (Some (Inr owner), self') \<Rightarrow> (let (owners, e) = postings_items self' in (owner # owners, e)))"
  by pat_completeness auto
termination
  by (relation "measure (\<lambda>self. unat (po_remaining self))") (auto dest: postings_next_remaining[OF sym])

declare postings_items.simps [simp del]

section \<open>Operations\<close>

definition page_posting_term :: "page \<Rightarrow> term_ref result" where
  "page_posting_term self =
     (if \<not> (pg_kind self = Postings \<or> pg_kind self = SealedPostings \<or> pg_kind self = DirectPostings) then Inl (corrupt 6) else
      and_then (if pg_kind self = Postings then
          and_then (page_u16 self 22) (\<lambda>zero. if zero \<noteq> 0 then Inl (corrupt 22) else Inr ())
        else Inr ()) (\<lambda>_.
      and_then (page_u32 self 16) (\<lambda>page.
      and_then (page_u16 self 20) (\<lambda>offset.
      Inr \<lparr>tr_page = page, tr_offset = offset\<rparr>))))"

definition page_posting_start :: "page \<Rightarrow> nat result" where
  "page_posting_start self =
     (if pg_kind self = DirectPostings then
        and_then (page_u16 self 22) (\<lambda>count. Inr (DIRECT_HEADER + unat count * 8))
      else Inr POSTING_HEADER)"

definition page_posting_refs :: "page \<Rightarrow> postings result" where
  "page_posting_refs self =
     and_then (page_posting_term self) (\<lambda>_.
     let compressed = (pg_kind self \<noteq> Postings) in
     and_then (if compressed then
         and_then (page_u16 self 22) (\<lambda>count.
         if count = 0 \<or> unat count > (pg_len self - POSTING_HEADER) div 3 then Inl (corrupt 22) else Inr count)
       else if (pg_len self - POSTING_HEADER) mod 16 \<noteq> 0 then Inl (corrupt POSTING_HEADER)
       else Inr (of_nat ((pg_len self - POSTING_HEADER) div 16))) (\<lambda>count.
     and_then (page_posting_start self) (\<lambda>from.
     and_then (ok_or (corrupt 22) (get_from (page_used self) from)) (\<lambda>bytes.
     Inr \<lparr>po_reader = reader_new bytes, po_compressed = compressed, po_remaining = count, po_previous = None, po_failed = False\<rparr>))))"

definition page_posting_records :: "page \<Rightarrow> nat result" where
  "page_posting_records self = and_then (page_posting_refs self) (\<lambda>it. Inr (unat (po_remaining it)))"

definition page_posting_count :: "page \<Rightarrow> u16 result" where
  "page_posting_count self = and_then (page_require self DirectPostings) (\<lambda>_. page_u16 self 22)"

definition page_direct_endpoints :: "page \<Rightarrow> (owner_ref \<times> owner_ref) result" where
  "page_direct_endpoints self =
     and_then (page_require self DirectPostings) (\<lambda>_.
     and_then (ok_or (corrupt POSTING_HEADER) (get_range (page_used self) POSTING_HEADER (POSTING_HEADER + 16))) (\<lambda>first.
     and_then (ok_or (corrupt (POSTING_HEADER + 16)) (get_range (page_used self) (POSTING_HEADER + 16) DIRECT_HEADER)) (\<lambda>lst.
     and_then (owner_ref_read (reader_new first)) (\<lambda>(first, _).
     and_then (owner_ref_read (reader_new lst)) (\<lambda>(lst, _).
     Inr (first, lst))))))"

definition page_direct_root :: "page \<Rightarrow> u16 \<Rightarrow> heap_layout \<Rightarrow> root_tid option result" where
  "page_direct_root self slot layout =
     and_then (page_require self DirectPostings) (\<lambda>_.
     and_then (page_u16 self 22) (\<lambda>count.
     if slot \<ge> count then Inl (corrupt 22) else
     let offset = DIRECT_HEADER + unat slot * 8 in
     and_then (ok_or (corrupt offset) (get_range (page_used self) offset (offset + 8))) (\<lambda>bytes.
     and_then (from_codec (reader_u32 (reader_new bytes))) (\<lambda>(block, reader).
     and_then (from_codec (reader_u16 reader)) (\<lambda>(off, reader).
     and_then (from_codec (reader_u8 reader)) (\<lambda>(live, reader).
     if live > 1 then Inl (corrupt POSTING_HEADER) else
     and_then (from_codec (reader_u8 reader)) (\<lambda>(zero, reader).
     if zero \<noteq> 0 then Inl (corrupt POSTING_HEADER) else
     and_then (map_err (\<lambda>_. corrupt POSTING_HEADER) (root_tid_new block off layout)) (\<lambda>root.
     Inr (if live = 1 then Some root else None)))))))))"

definition page_remove_direct_root :: "page \<Rightarrow> u16 \<Rightarrow> heap_layout \<Rightarrow> page result" where
  "page_remove_direct_root self slot layout =
     and_then (page_direct_root self slot layout) (\<lambda>_.
     Inr (self\<lparr>pg_bytes := (pg_bytes self)[DIRECT_HEADER + unat slot * 8 + 6 := 0]\<rparr>))"

definition page_append_posting :: "page \<Rightarrow> owner_ref \<Rightarrow> (bool \<times> page) result" where
  "page_append_posting self owner =
     and_then (page_require self Postings) (\<lambda>_.
     if pg_len self + 16 > CAPACITY then Inr (False, self) else
     and_then (page_write self (pg_len self) 16 (owner_ref_write owner)) (\<lambda>self.
     Inr (True, self\<lparr>pg_len := pg_len self + 16\<rparr>)))"

definition page_fragment_data :: "page \<Rightarrow> (owner_ref \<times> u32 \<times> bytes) result" where
  "page_fragment_data self =
     and_then (page_require self Fragment) (\<lambda>_.
     and_then (owner_ref_read (reader_new (drop PAGE_HEADER (page_used self)))) (\<lambda>(owner, reader).
     and_then (from_codec (reader_u32 reader)) (\<lambda>(offset, reader).
     and_then (from_codec (reader_take reader (reader_remaining reader))) (\<lambda>(bytes, reader).
     Inr (owner, offset, bytes)))))"

section \<open>The builder\<close>

record sealed_builder =
  sb_page :: page
  sb_previous :: "owner_ref option"
  sb_count :: u16

definition sealed_new :: "u32 \<Rightarrow> term_ref \<Rightarrow> sealed_builder result" where
  "sealed_new block posted =
     and_then (page_postings block posted) (\<lambda>page.
     Inr \<lparr>sb_page = page\<lparr>pg_kind := SealedPostings, pg_bytes := (pg_bytes page)[6 := 7]\<rparr>, sb_previous = None, sb_count = 0\<rparr>)"

definition sealed_new_direct :: "u32 \<Rightarrow> term_ref \<Rightarrow> sealed_builder result" where
  "sealed_new_direct block posted =
     and_then (sealed_new block posted) (\<lambda>builder.
     Inr (builder\<lparr>sb_page := (sb_page builder)\<lparr>pg_kind := DirectPostings, pg_bytes := (pg_bytes (sb_page builder))[6 := 9],
       pg_len := DIRECT_HEADER\<rparr>\<rparr>))"

text \<open>The bytes a twenty-byte scratch writer holds after one delta.\<close>

definition delta_scratch :: "owner_ref \<Rightarrow> owner_ref option \<Rightarrow> bytes result" where
  "delta_scratch owner previous =
     and_then (write_delta (writer_new (replicate 20 0)) owner previous) (\<lambda>writer.
     Inr (take (wr_offset writer) (wr_bytes writer)))"

definition coordinate_write :: "root_tid \<Rightarrow> writer \<Rightarrow> writer result" where
  "coordinate_write root writer =
     and_then (from_codec (writer_u32 writer (tid_block root))) (\<lambda>writer.
     and_then (from_codec (writer_u16 writer (tid_offset root))) (\<lambda>writer.
     and_then (from_codec (writer_u8 writer 1)) (\<lambda>writer.
     from_codec (writer_u8 writer 0))))"

definition sealed_push_direct :: "sealed_builder \<Rightarrow> owner_ref \<Rightarrow> root_tid \<Rightarrow> (bool \<times> sealed_builder) result" where
  "sealed_push_direct self owner root =
     and_then (page_require (sb_page self) DirectPostings) (\<lambda>_.
     and_then (delta_scratch owner (sb_previous self)) (\<lambda>bytes.
     if pg_len (sb_page self) + length bytes + 8 > CAPACITY then Inr (False, self) else
     let from = DIRECT_HEADER + unat (sb_count self) * 8; page = sb_page self;
         page = page_copy page (from + 8) (take (pg_len page - from) (drop from (pg_bytes page))) in
     and_then (page_write page from 8 (coordinate_write root)) (\<lambda>page.
     let page = page\<lparr>pg_len := pg_len page + 8\<rparr>;
         page = (page_copy page (pg_len page) bytes)\<lparr>pg_len := pg_len page + length bytes\<rparr> in
     and_then (if sb_count self = 0 then page_write page POSTING_HEADER 16 (owner_ref_write owner) else Inr page) (\<lambda>page.
     and_then (page_write page (POSTING_HEADER + 16) (DIRECT_HEADER - (POSTING_HEADER + 16)) (owner_ref_write owner)) (\<lambda>page.
     and_then (page_put_u16 page 22 (sb_count self + 1)) (\<lambda>page.
     Inr (True, \<lparr>sb_page = page, sb_previous = Some owner, sb_count = sb_count self + 1\<rparr>)))))))"

definition sealed_push :: "sealed_builder \<Rightarrow> owner_ref \<Rightarrow> (bool \<times> sealed_builder) result" where
  "sealed_push self owner =
     and_then (page_require (sb_page self) SealedPostings) (\<lambda>_.
     and_then (delta_scratch owner (sb_previous self)) (\<lambda>bytes.
     if pg_len (sb_page self) + length bytes > CAPACITY then Inr (False, self) else
     let page = sb_page self;
         page = (page_copy page (pg_len page) bytes)\<lparr>pg_len := pg_len page + length bytes\<rparr> in
     and_then (page_put_u16 page 22 (sb_count self + 1)) (\<lambda>page.
     Inr (True, \<lparr>sb_page = page, sb_previous = Some owner, sb_count = sb_count self + 1\<rparr>))))"

definition sealed_finish :: "sealed_builder \<Rightarrow> page result" where
  "sealed_finish self = (if sb_count self = 0 then Inl InvalidState else Inr (sb_page self))"

section \<open>The owning iterator\<close>

record owned_postings =
  op_page :: page
  op_offset :: nat
  op_compressed :: bool
  op_remaining :: u16
  op_previous :: "owner_ref option"
  op_failed :: bool

definition owned_postings_new :: "page \<Rightarrow> owned_postings result" where
  "owned_postings_new page =
     and_then (page_posting_refs page) (\<lambda>postings.
     and_then (page_posting_start page) (\<lambda>offset.
     Inr \<lparr>op_page = page, op_offset = offset, op_compressed = po_compressed postings, op_remaining = po_remaining postings,
       op_previous = None, op_failed = False\<rparr>))"

definition owned_current_direct :: "owned_postings \<Rightarrow> heap_layout \<Rightarrow> root_tid option option result" where
  "owned_current_direct self layout =
     (if pg_kind (op_page self) \<noteq> DirectPostings then Inr None else
      and_then (page_u16 (op_page self) 22) (\<lambda>count.
      and_then (ok_or InvalidState (checked_sub_w count (op_remaining self + 1))) (\<lambda>slot.
      and_then (page_direct_root (op_page self) slot layout) (\<lambda>root. Inr (Some root)))))"

definition owned_postings_next :: "owned_postings \<Rightarrow> owner_ref result option \<times> owned_postings" where
  "owned_postings_next self =
     (if op_failed self then (None, self) else
      case get_from (page_used (op_page self)) (op_offset self) of
        None \<Rightarrow> (Some (Inl InvalidState), self\<lparr>op_failed := True\<rparr>)
      | Some bytes \<Rightarrow>
          (case postings_next \<lparr>po_reader = reader_new bytes, po_compressed = op_compressed self, po_remaining = op_remaining self,
              po_previous = op_previous self, po_failed = False\<rparr> of
             (v, postings) \<Rightarrow>
               (v, self\<lparr>op_offset := op_offset self + rd_offset (po_reader postings), op_remaining := po_remaining postings,
                 op_previous := po_previous postings, op_failed := po_failed postings\<rparr>)))"

end
