(* ===== verification/PageValidate.thy ===== *)
theory PageValidate
  imports PageGrouped PageOwners PageTerms PagePostings
begin

text \<open>
  \<open>Page::validate\<close> (crates/pin-core/src/mutable/page.rs): every used byte and record boundary of an
  image is checked before it is traversed.
\<close>

definition validate_meta :: "page \<Rightarrow> heap_layout \<Rightarrow> unit result" where
  "validate_meta self layout =
     (if \<not> (pg_len self = META_LEGACY_BYTES \<or> pg_len self = META_GROUPED_BYTES \<or> pg_len self = META_GROUPED_V3_BYTES)
      then Inl (corrupt 16) else
      and_then (page_u32 self 16) (\<lambda>profile. if profile \<noteq> PROFILE_ID then Inl (corrupt 16) else
      and_then (page_u32 self 20) (\<lambda>size. if size \<noteq> 8192 then Inl (corrupt 16) else
      and_then (page_u16 self 24) (\<lambda>max. if max \<noteq> max_offset layout then Inl (corrupt 16) else
      and_then (page_u16 self 26) (\<lambda>buckets. if unat buckets \<noteq> BUCKETS then Inl (corrupt 16) else
      and_then (page_u32 self 28) (\<lambda>flags. if flags AND NOT 4 \<noteq> 0 then Inl (corrupt 16) else
      and_then (page_u64 self 32) (\<lambda>nxt. if nxt = 0 then Inl (corrupt 16) else
      and_then (page_owner_chain self) (\<lambda>_.
      and_then (page_free_head self) (\<lambda>_.
      and_then (page_rewrite_journal self) (\<lambda>_.
      and_then (page_grouped_state self) (\<lambda>_.
      try_fold (\<lambda>_ bucket. and_then (page_bucket self bucket) (\<lambda>_. Inr ())) () [0..<BUCKETS])))))))))))"

definition validate_owner_step :: "page \<Rightarrow> heap_layout \<Rightarrow> nat \<Rightarrow> nat \<Rightarrow> nat result" where
  "validate_owner_step self layout position slot =
     and_then (page_owner self (of_nat slot) layout) (\<lambda>owner.
     if ow_inline owner \<noteq> [] then
       let offset = OWNER_HEADER + slot * OWNER_BYTES in
       and_then (page_u16 self (offset + 32)) (\<lambda>inline_offset.
       if unat inline_offset \<noteq> position then Inl (corrupt (offset + 32))
       else Inr (position + length (ow_inline owner)))
     else Inr position)"

definition validate_owners :: "page \<Rightarrow> heap_layout \<Rightarrow> unit result" where
  "validate_owners self layout =
     and_then (page_owner_count self) (\<lambda>count.
     and_then (try_fold (validate_owner_step self layout) (OWNER_HEADER + unat count * OWNER_BYTES) [0..<unat count]) (\<lambda>position.
     if position \<noteq> pg_len self then Inl (corrupt position) else Inr ()))"

definition validate_dictionary :: "page \<Rightarrow> unit result" where
  "validate_dictionary self =
     and_then (page_terms self) (\<lambda>it. for_items (\<lambda>_ _. Inr ()) () (terms_items it))"

definition validate_posting_step ::
  "owner_ref option \<times> owner_ref option \<Rightarrow> owner_ref \<Rightarrow> (owner_ref option \<times> owner_ref option) result" where
  "validate_posting_step st reference =
     (let (first, previous) = st in
      if is_some_and previous (\<lambda>previous. not_after reference previous) then Inl (corrupt POSTING_HEADER)
      else Inr (case first of None \<Rightarrow> Some reference | Some first \<Rightarrow> Some first, Some reference))"

definition validate_postings :: "page \<Rightarrow> heap_layout \<Rightarrow> unit result" where
  "validate_postings self layout =
     and_then (page_posting_term self) (\<lambda>posted.
     if \<not> block_valid (tr_page posted) \<or> unat (tr_offset posted) < PAGE_HEADER then Inl (corrupt 16) else
     and_then (page_posting_refs self) (\<lambda>it.
     and_then (for_items validate_posting_step (None, None) (postings_items it)) (\<lambda>(first, previous).
     if pg_kind self = DirectPostings then
       and_then (page_direct_endpoints self) (\<lambda>(header_first, header_last).
       if first \<noteq> Some header_first \<or> previous \<noteq> Some header_last then Inl (corrupt POSTING_HEADER) else
       and_then (page_u16 self 22) (\<lambda>count.
       try_fold (\<lambda>_ slot. and_then (page_direct_root self (of_nat slot) layout) (\<lambda>_. Inr ())) () [0..<unat count]))
     else Inr ())))"

definition validate_fragment :: "page \<Rightarrow> unit result" where
  "validate_fragment self =
     and_then (page_fragment_data self) (\<lambda>(_, offset, data).
     if data = [] \<or> (case checked_add (unat offset) (length data) of None \<Rightarrow> True | Some e \<Rightarrow> e > MAX_DOCUMENT_BYTES)
     then Inl (corrupt 32) else Inr ())"

definition page_validate :: "page \<Rightarrow> heap_layout \<Rightarrow> unit result" where
  "page_validate self layout =
     (if pg_kind self = Zero then Inr () else
      and_then (page_check_next self) (\<lambda>_.
      if (pg_block self = 0) \<noteq> (pg_kind self = Meta) then Inl (corrupt 8) else
      case pg_kind self of
        Meta \<Rightarrow> validate_meta self layout
      | Grouped \<Rightarrow> page_validate_grouped self layout
      | Owners \<Rightarrow> validate_owners self layout
      | DictionaryPage \<Rightarrow> validate_dictionary self
      | Postings \<Rightarrow> validate_postings self layout
      | SealedPostings \<Rightarrow> validate_postings self layout
      | DirectPostings \<Rightarrow> validate_postings self layout
      | Fragment \<Rightarrow> validate_fragment self
      | Free \<Rightarrow> if pg_len self \<noteq> PAGE_HEADER then Inl (corrupt PAGE_HEADER) else Inr ()
      | Zero \<Rightarrow> Inr ()))"

end
