(* ===== verification/SealedPages.thy ===== *)
theory SealedPages
  imports PageLaws PageValidate
begin

text \<open>
  Sealed posting pages: the builder's pages hold exactly the pushed references in order, and they pass
  validation. The delta codec is inverse on ascending references.
\<close>

section \<open>Deltas\<close>

lemma unat_slot_u32 [simp]: "unat (ucast (s :: u16) :: u32) = unat s"
  by (rule unat_ucast_up) simp

lemma slot_u32_u16 [simp]: "ucast (ucast (s :: u16) :: u32) = s"
  by transfer (simp add: take_bit_take_bit)

definition after_ref :: "owner_ref option \<Rightarrow> owner_ref \<Rightarrow> bool" where
  "after_ref previous o' \<longleftrightarrow> (case previous of None \<Rightarrow> True | Some p \<Rightarrow> \<not> not_after o' p)"

definition ref_deltas :: "owner_ref option \<Rightarrow> owner_ref \<Rightarrow> u32 \<times> u16 \<times> u64" where
  "ref_deltas previous o' =
     (case previous of
        None \<Rightarrow> (or_page o', or_slot o', or_incarnation o')
      | Some p \<Rightarrow> (or_page o' - or_page p, if or_page o' = or_page p then or_slot o' - or_slot p else or_slot o',
          or_incarnation o' - or_incarnation p))"

definition delta_ref_bytes :: "owner_ref option \<Rightarrow> owner_ref \<Rightarrow> bytes" where
  "delta_ref_bytes previous o' =
     (let (page, slot, incarnation) = ref_deltas previous o'
      in var_bytes page @ var_bytes (ucast slot :: u32) @ var_bytes incarnation)"

lemma length_delta_ref_bytes: "3 \<le> length (delta_ref_bytes previous o')" "length (delta_ref_bytes previous o') \<le> 20"
proof -
  obtain p s i where d: "ref_deltas previous o' = (p, s, i)" by (metis prod_cases3)
  have "var_bytes v \<noteq> []" for v :: "'a::len word" by simp
  then have ne: "length (var_bytes p) \<ge> 1" "length (var_bytes (ucast s :: u32)) \<ge> 1" "length (var_bytes i) \<ge> 1"
    by (simp_all add: Suc_le_eq)
  show "3 \<le> length (delta_ref_bytes previous o')" using ne by (simp add: delta_ref_bytes_def d)
  show "length (delta_ref_bytes previous o') \<le> 20"
    using length_var_u32_le[of p] length_var_u32_le[of "ucast s"] length_var_u64_le[of i] by (simp add: delta_ref_bytes_def d)
qed

lemma write_delta_eq:
  assumes "wr_ok w" "20 \<le> wr_room w"
  shows "write_delta w o' previous =
    (if after_ref previous o' \<and> block_valid (or_page o') \<and> unat (or_slot o') < OWNER_SLOTS
     then Inr (wr_append w (delta_ref_bytes previous o')) else Inl InvalidState)"
proof -
  obtain p s i where d: "ref_deltas previous o' = (p, s, i)" by (metis prod_cases3)
  have l: "length (var_bytes p) + length (var_bytes (ucast s :: u32)) + length (var_bytes i) \<le> 20"
    using length_var_u32_le[of p] length_var_u32_le[of "ucast s"] length_var_u64_le[of i] by simp
  have "write_delta w o' previous = (if after_ref previous o' \<and> block_valid (or_page o') \<and> unat (or_slot o') < OWNER_SLOTS
     then and_then (from_codec (writer_var_u32 w p)) (\<lambda>writer.
     and_then (from_codec (writer_var_u32 writer (ucast s))) (\<lambda>writer. from_codec (writer_var_u64 writer i))) else Inl InvalidState)"
    using d by (auto simp: write_delta_def after_ref_def not_after_def slot_le_def ref_deltas_def split: option.splits if_splits)
  then show ?thesis using assms l by (simp add: codec_simps delta_ref_bytes_def d)
qed

lemma checked_add_diff: "p \<le> v \<Longrightarrow> checked_add_w p (v - p) = Some (v :: 'a::len word)"
  by (simp add: checked_add_w_def word_le_nat_alt unat_sub) 

lemma slot_delta_u32:
  assumes "p \<le> (s :: u16)"
  shows "checked_add_w (ucast p) (ucast (s - p) :: u32) = Some (ucast s)"
proof -
  have "ucast (s - p) = (ucast s - ucast p :: u32)"
    using assms by (simp add: word_unat_eq_iff unat_sub word_le_nat_alt)
  moreover have "(ucast p :: u32) \<le> ucast s" using assms by (simp add: word_le_nat_alt)
  ultimately show ?thesis by (simp add: checked_add_diff)
qed

lemma read_delta_eq:
  assumes c: "consumes r (delta_ref_bytes previous o') r'" and a: "after_ref previous o'" and ok: "owner_ref_ok o'"
  shows "read_delta r previous = Inr (o', r')"
proof -
  obtain p s i where d: "ref_deltas previous o' = (p, s, i)" by (metis prod_cases3)
  obtain a b where c1: "consumes r (var_bytes p) a" and c2: "consumes a (var_bytes (ucast s :: u32)) b"
      and c3: "consumes b (var_bytes i) r'"
    using c unfolding delta_ref_bytes_def d by (auto dest!: consumes_append)
  note reads = var_u32_field.consumes_dec[OF c1] var_u32_field.consumes_dec[OF c2] var_u64_field.consumes_dec[OF c3]
  have slot: "(ucast (ucast (or_slot o') :: u32) :: u16) = or_slot o'" "unat (ucast (or_slot o') :: u32) = unat (or_slot o')"
    by simp_all
  have inc: "identifier_new (or_incarnation o') = Inr (or_incarnation o')"
    using ok by (simp add: identifier_new_def owner_ref_ok_def)
  show ?thesis
  proof (cases previous)
    case None
    then have e: "or_page o' = p" "or_slot o' = s" "or_incarnation o' = i" using d by (auto simp: ref_deltas_def)
    have w: "\<lparr>or_page = p, or_slot = s, or_incarnation = i\<rparr> = o'" using e by (intro owner_ref.equality) simp_all
    show ?thesis
      using ok None slot[unfolded e] inc[unfolded e] unfolding owner_ref_ok_def e
      by (simp add: read_delta_def reads not_less[symmetric] w)
  next
    case (Some q)
    have q: "p = or_page o' - or_page q" "s = (if or_page o' = or_page q then or_slot o' - or_slot q else or_slot o')"
      "i = or_incarnation o' - or_incarnation q" using d Some by (auto simp: ref_deltas_def)
    have o: "or_page q \<le> or_page o'" "or_page o' = or_page q \<Longrightarrow> or_slot q < or_slot o'" "or_incarnation q < or_incarnation o'"
      using a Some by (auto simp: after_ref_def not_after_def slot_le_def not_less not_le)
    have i: "i \<noteq> 0" using o(3) q(3) by auto
    have nz: "\<not> (p = 0 \<and> (ucast s :: u32) = 0)"
    proof
      assume z: "p = 0 \<and> (ucast s :: u32) = 0"
      then have e: "or_page o' = or_page q" using q(1) by simp
      have "unat s = 0" using z by (metis unat_0 unat_slot_u32)
      then show False using q(2) e o(2) by (simp add: unat_eq_zero)
    qed
    have sl: "(if p = 0 then ok_or e (checked_add_w (ucast (or_slot q)) (ucast s :: u32)) else Inr (ucast s)) = Inr (ucast (or_slot o'))" for e :: error
      using q o(2) slot_delta_u32[of "or_slot q" "or_slot o'"] by auto
    have pg: "checked_add_w (or_page q) p = Some (or_page o')" using checked_add_diff[OF o(1)] q(1) by simp
    have ic: "checked_add_w (or_incarnation q) i = Some (or_incarnation o')" using checked_add_diff[of "or_incarnation q" "or_incarnation o'"] o(3) q(3) by simp
    show ?thesis
      using ok i nz slot inc by (simp add: read_delta_def Let_def reads Some pg ic sl owner_ref_ok_def not_less[symmetric])
  qed
qed

section \<open>Streams\<close>

fun ref_stream :: "owner_ref option \<Rightarrow> owner_ref list \<Rightarrow> bytes" where
  "ref_stream previous [] = []"
| "ref_stream previous (o' # os) = delta_ref_bytes previous o' @ ref_stream (Some o') os"

fun refs_ok :: "owner_ref option \<Rightarrow> owner_ref list \<Rightarrow> bool" where
  "refs_ok previous [] \<longleftrightarrow> True"
| "refs_ok previous (o' # os) \<longleftrightarrow> after_ref previous o' \<and> owner_ref_ok o' \<and> refs_ok (Some o') os"

definition last_ref :: "owner_ref option \<Rightarrow> owner_ref list \<Rightarrow> owner_ref option" where
  "last_ref previous os = (if os = [] then previous else Some (last os))"

lemma last_ref_simps [simp]:
  "last_ref previous [] = previous" "last_ref previous (os @ [o']) = Some o'" "last_ref previous (o' # os) = last_ref (Some o') os"
  by (simp_all add: last_ref_def)

lemma ref_stream_append: "ref_stream previous (os @ [o']) = ref_stream previous os @ delta_ref_bytes (last_ref previous os) o'"
  by (induction os arbitrary: previous) simp_all

lemma refs_ok_append: "refs_ok previous (os @ [o']) \<longleftrightarrow> refs_ok previous os \<and> after_ref (last_ref previous os) o' \<and> owner_ref_ok o'"
  by (induction os arbitrary: previous) auto

lemma length_ref_stream: "3 * length os \<le> length (ref_stream previous os)"
proof (induction os arbitrary: previous)
  case (Cons o' os)
  have "3 + 3 * length os \<le> length (delta_ref_bytes previous o') + length (ref_stream (Some o') os)"
    by (rule add_mono[OF length_delta_ref_bytes(1) Cons.IH])
  then show ?case by simp
qed simp

lemma postings_items_stream:
  assumes "refs_ok previous os" "rd_ok r" "rd_rest r = ref_stream previous os" "length os < 2 ^ 16"
  shows "postings_items \<lparr>po_reader = r, po_compressed = True, po_remaining = of_nat (length os), po_previous = previous, po_failed = False\<rparr> =
    (os, None)"
  using assms
proof (induction os arbitrary: previous r)
  case Nil
  then have "reader_remaining r = 0" by (simp add: reader_remaining_rest)
  then show ?case by (subst postings_items.simps) (simp add: postings_next_def)
next
  case (Cons o' os)
  let ?r = "rd_skip r (length (delta_ref_bytes previous o'))"
  have c: "consumes r (delta_ref_bytes previous o') ?r" using Cons.prems by (simp add: consumes_def)
  have n: "(of_nat (length (o' # os)) :: u16) \<noteq> 0"
    using Cons.prems(4) by (metis length_Cons nat.distinct(1) unat_0 unat_u16_of_nat)
  have m: "(of_nat (length (o' # os)) :: u16) - 1 = of_nat (length os)" by simp
  have "postings_items \<lparr>po_reader = ?r, po_compressed = True, po_remaining = of_nat (length os), po_previous = Some o', po_failed = False\<rparr> = (os, None)"
  proof (rule Cons.IH)
    show "rd_rest ?r = ref_stream (Some o') os" using Cons.prems(3) by simp
  qed (use Cons.prems in simp_all)
  moreover have "read_delta r previous = Inr (o', ?r)" using read_delta_eq[OF c] Cons.prems(1) by simp
  ultimately show ?case using n m by (subst postings_items.simps) (simp add: postings_next_def del: of_nat_Suc)
qed

section \<open>The builder\<close>

text \<open>What a builder for a term holds after pushing the references \<open>os\<close>.\<close>

definition posting_head :: "u8 \<Rightarrow> u32 \<Rightarrow> term_ref \<Rightarrow> u16 \<Rightarrow> bytes" where
  "posting_head tag block posted count =
     page_head tag 0 block NO_BLOCK @ le_bytes 4 (tr_page posted) @ le_bytes 2 (tr_offset posted) @ le_bytes 2 count"

definition term_ref_ok :: "term_ref \<Rightarrow> bool" where
  "term_ref_ok posted \<longleftrightarrow> block_valid (tr_page posted) \<and> PAGE_HEADER \<le> unat (tr_offset posted)"

definition sealed_rep :: "u32 \<Rightarrow> term_ref \<Rightarrow> owner_ref list \<Rightarrow> sealed_builder \<Rightarrow> bool" where
  "sealed_rep block posted os b \<longleftrightarrow>
     page_ok (sb_page b) \<and> pg_kind (sb_page b) = SealedPostings \<and> pg_block (sb_page b) = block \<and>
     page_used (sb_page b) = posting_head 7 block posted (of_nat (length os)) @ ref_stream None os \<and>
     sb_count b = of_nat (length os) \<and> sb_previous b = last_ref None os \<and>
     refs_ok None os \<and> block_valid block \<and> term_ref_ok posted"

lemma length_posting_head [simp]: "length (posting_head tag block posted count) = 24"
  by (simp add: posting_head_def)

lemma page_postings_eq:
  "page_postings block posted =
    (if \<not> term_ref_ok posted then Inl (corrupt 16) else
     if \<not> block_valid block then Inl (corrupt 8) else
     Inr \<lparr>pg_block = block, pg_kind = Postings, pg_len = POSTING_HEADER, pg_initialize = False,
       pg_bytes = posting_head 4 block posted 0 @ replicate (CAPACITY - 24) 0\<rparr>)"
proof -
  have r: "patch 16 (le_bytes 4 a) (page_head 4 0 block NO_BLOCK @ replicate 8152 0) =
      page_head 4 0 block NO_BLOCK @ le_bytes 4 a @ replicate 8148 0" for a :: u32
    by (simp add: patch_append_right) (simp add: patch_def)
  have s: "patch 20 (le_bytes 2 b) (page_head 4 0 block NO_BLOCK @ le_bytes 4 a @ replicate 8148 0) =
      page_head 4 0 block NO_BLOCK @ le_bytes 4 a @ le_bytes 2 b @ le_bytes 2 (0 :: u16) @ replicate 8144 0"
    for a :: u32 and b :: u16
    by (simp add: patch_append_right) (simp add: patch_def le_bytes_def numeral_nat)
  show ?thesis
    by (auto simp: page_postings_def page_new_eq term_ref_ok_def block_valid_def page_put_u32_eq page_put_u16_eq page_ok_def
        CAPACITY_value POSTING_HEADER_def posting_head_def r s)
qed

lemma sealed_new_rep:
  assumes "sealed_new block posted = Inr b"
  shows "sealed_rep block posted [] b"
proof -
  have "(posting_head 4 block posted 0 @ xs)[6 := 7] = posting_head 7 block posted 0 @ xs" for xs
    by (simp add: posting_head_def page_head_def PIN2_def list_update_append)
  with assms show ?thesis
    by (auto simp: sealed_new_def page_postings_eq sealed_rep_def page_ok_def CAPACITY_value POSTING_HEADER_def
        page_used_def split: if_splits)
qed

lemma delta_scratch_eq:
  "delta_scratch o' previous =
    (if after_ref previous o' \<and> block_valid (or_page o') \<and> unat (or_slot o') < OWNER_SLOTS
     then Inr (delta_ref_bytes previous o') else Inl InvalidState)"
  by (simp add: delta_scratch_def write_delta_eq slice_ok_def writer_new_def[THEN arg_cong[where f = wr_offset]])

lemma sealed_push_rep:
  assumes r: "sealed_rep block posted os b" and i: "or_incarnation o' \<noteq> 0" and p: "sealed_push b o' = Inr (True, b')"
  shows "sealed_rep block posted (os @ [o']) b'"
proof -
  let ?p = "sb_page b" let ?d = "delta_ref_bytes (last_ref None os) o'" let ?n = "of_nat (length os) :: u16"
  let ?q = "?p\<lparr>pg_bytes := patch (pg_len ?p) ?d (pg_bytes ?p), pg_len := pg_len ?p + length ?d\<rparr>"
  let ?w = "?q\<lparr>pg_bytes := patch 22 (le_bytes 2 (?n + 1)) (pg_bytes ?q)\<rparr>"
  have k: "page_ok ?p" "pg_kind ?p = SealedPostings" "sb_count b = ?n" "sb_previous b = last_ref None os"
    and u: "page_used ?p = posting_head 7 block posted ?n @ ref_stream None os" using r by (simp_all add: sealed_rep_def)
  have l: "pg_len ?p = 24 + length (ref_stream None os)" using u length_page_used[OF k(1)] by simp
  have o': "after_ref (last_ref None os) o'" "owner_ref_ok o'" and c: "pg_len ?p + length ?d \<le> CAPACITY"
    using p k i by (auto simp: sealed_push_def delta_scratch_eq page_require_def owner_ref_ok_def split: if_splits)
  have q: "page_ok ?q" using k(1) c by (simp add: page_ok_def)
  have b': "b' = \<lparr>sb_page = ?w, sb_previous = Some o', sb_count = ?n + 1\<rparr>"
    using p k o' c page_put_u16_eq[OF q, of 22 "?n + 1"]
    by (auto simp: sealed_push_def delta_scratch_eq page_require_def owner_ref_ok_def page_copy_patch CAPACITY_value Let_def split: if_splits)
  have "page_used ?q = page_used ?p @ ?d"
    using k(1) c by (simp add: page_used_def page_ok_def patch_def)
  then have "page_used ?w = patch 22 (le_bytes 2 (?n + 1)) (page_used ?p @ ?d)"
    using take_patch[of 22 "le_bytes 2 (?n + 1)" "pg_len ?q" "pg_bytes ?q"] q l by (simp add: page_used_def page_ok_def)
  also have "\<dots> = posting_head 7 block posted (?n + 1) @ ref_stream None os @ ?d"
    by (simp add: u patch_append_left posting_head_def patch_append_right) (simp add: patch_def)
  finally have "page_used ?w = posting_head 7 block posted (of_nat (length (os @ [o']))) @ ref_stream None (os @ [o'])"
    by (simp add: ref_stream_append add.commute)
  moreover have "page_ok ?w" using page_ok_patch[OF q, of 22 "le_bytes 2 (?n + 1)"] by (simp add: CAPACITY_value)
  ultimately show ?thesis using r o' by (simp add: sealed_rep_def b' refs_ok_append)
qed

lemma refs_ok_validate:
  "refs_ok previous os \<Longrightarrow> try_fold validate_posting_step (first, previous) os \<noteq> Inl e"
  by (induction os arbitrary: previous first)
    (auto simp: validate_posting_step_def after_ref_def is_some_and_def split: option.splits)

lemma sealed_finish_rep:
  assumes r: "sealed_rep block posted os b" and f: "sealed_finish b = Inr p"
  shows "page_posting_term p = Inr posted" "page_next p = Inr NO_BLOCK" "os \<noteq> []"
    "\<exists>it. page_posting_refs p = Inr it \<and> postings_items it = (os, None)" "page_validate p layout = Inr ()"
proof -
  have b: "b = b\<lparr>sb_page := p\<rparr>" and p: "p = sb_page b" and c: "sb_count b \<noteq> 0" using f by (auto simp: sealed_finish_def split: if_splits)
  have k: "page_ok p" "pg_kind p = SealedPostings" "pg_block p = block" "sb_count b = of_nat (length os)"
    and u: "page_used p = posting_head 7 block posted (of_nat (length os)) @ ref_stream None os"
    and ok: "refs_ok None os" "block_valid block" "term_ref_ok posted" using r by (simp_all add: sealed_rep_def p)
  have l: "pg_len p = 24 + length (ref_stream None os)" using u length_page_used[OF k(1)] by simp
  show ne: "os \<noteq> []" using c k(4) by auto
  have small: "length os < 2 ^ 16" "3 * length os \<le> pg_len p - 24" using length_ref_stream[of os None] l k(1) by (simp_all add: page_ok_def CAPACITY_value)
  have f: "page_u32 p 12 = Inr NO_BLOCK" "page_u32 p 16 = Inr (tr_page posted)" "page_u16 p 20 = Inr (tr_offset posted)"
    "page_u16 p 22 = Inr (of_nat (length os))"
    using l by (simp_all add: page_used_fields k(1) u posting_head_def page_head_def PIN2_def)
  show t: "page_posting_term p = Inr posted" by (simp add: page_posting_term_def k f)
  show n: "page_next p = Inr NO_BLOCK" by (simp add: page_next_def f)
  let ?it = "\<lparr>po_reader = reader_new (ref_stream None os), po_compressed = True, po_remaining = of_nat (length os), po_previous = None, po_failed = False\<rparr>"
  have c: "unat (of_nat (length os) :: u16) = length os" using small(1) by (rule unat_u16_of_nat)
  have it: "page_posting_refs p = Inr ?it"
    using c ne small(2) k u l f t
    by (simp add: page_posting_refs_def page_posting_start_def POSTING_HEADER_def get_from_def Let_def unat_eq_zero[symmetric] not_less less_eq_div_iff_mult_less_eq mult.commute)
  have items: "postings_items ?it = (os, None)"
  proof (rule postings_items_stream[OF ok(1) _ _ small(1)])
    show "rd_ok (reader_new (ref_stream None os))" using page_used_ok(2)[OF k(1), of 24] u by simp
  qed simp
  show "\<exists>it. page_posting_refs p = Inr it \<and> postings_items it = (os, None)" using it items by blast
  obtain st where "try_fold validate_posting_step (None, None) os = Inr st"
    using refs_ok_validate[OF ok(1)] by (cases "try_fold validate_posting_step (None, None) os") auto
  then have "validate_postings p layout = Inr ()"
    using ok(3) by (cases st) (simp add: validate_postings_def t it items for_items_def k term_ref_ok_def not_less[symmetric])
  then show "page_validate p layout = Inr ()"
    using n ok(2) k by (simp add: page_validate_def page_check_next_def block_valid_def)
qed

lemma sealed_push_succeeds:
  assumes r: "sealed_rep block posted os b" and i: "or_incarnation o' \<noteq> 0"
  shows "(\<exists>b'. sealed_push b o' = Inr (True, b')) \<longleftrightarrow>
    after_ref (last_ref None os) o' \<and> owner_ref_ok o' \<and> 24 + length (ref_stream None (os @ [o'])) \<le> CAPACITY"
proof -
  let ?p = "sb_page b" let ?d = "delta_ref_bytes (last_ref None os) o'"
  have k: "page_ok ?p" "pg_kind ?p = SealedPostings" "sb_previous b = last_ref None os"
    and u: "page_used ?p = posting_head 7 block posted (of_nat (length os)) @ ref_stream None os" using r by (simp_all add: sealed_rep_def)
  have l: "pg_len ?p = 24 + length (ref_stream None os)" using u length_page_used[OF k(1)] by simp
  have put: "page_put_u16 (page_copy ?p (pg_len ?p) ?d\<lparr>pg_len := pg_len ?p + length ?d\<rparr>) 22 n =
      Inr ((page_copy ?p (pg_len ?p) ?d\<lparr>pg_len := pg_len ?p + length ?d\<rparr>)\<lparr>pg_bytes := patch 22 (le_bytes 2 n) (patch (pg_len ?p) ?d (pg_bytes ?p))\<rparr>)"
    if "\<not> CAPACITY < pg_len ?p + length ?d" for n
    using that k(1) by (subst page_put_u16_eq) (auto simp: page_copy_patch page_ok_def CAPACITY_value)
  show ?thesis
    using k i l put by (auto simp: sealed_push_def delta_scratch_eq page_require_def owner_ref_ok_def ref_stream_append Let_def)
qed

text \<open>All references of a list, pushed in order; a page without room fails.\<close>

definition sealed_push_all :: "sealed_builder \<Rightarrow> owner_ref list \<Rightarrow> sealed_builder result" where
  "sealed_push_all =
     try_fold (\<lambda>b o'. and_then (sealed_push b o') (\<lambda>(room, b). if room then Inr b else Inl InvalidState))"

lemma sealed_push_all_rep:
  assumes "sealed_rep block posted os b" "\<forall>o' \<in> set new. or_incarnation o' \<noteq> 0" "sealed_push_all b new = Inr b'"
  shows "sealed_rep block posted (os @ new) b'"
  using assms
proof (induction new arbitrary: os b)
  case (Cons o' new)
  then obtain c where "sealed_push b o' = Inr (True, c)" "sealed_push_all c new = Inr b'"
    by (auto simp: sealed_push_all_def res_simps split: if_splits)
  with Cons show ?case using sealed_push_rep[OF Cons.prems(1), of o' c] Cons.IH[of "os @ [o']" c] by simp
qed (simp add: sealed_push_all_def)

lemma sealed_push_all_succeeds:
  assumes "sealed_rep block posted os b" "\<forall>o' \<in> set new. or_incarnation o' \<noteq> 0"
    "refs_ok (last_ref None os) new" "24 + length (ref_stream None (os @ new)) \<le> CAPACITY"
  shows "\<exists>b'. sealed_push_all b new = Inr b'"
  using assms
proof (induction new arbitrary: os b)
  case (Cons o' new)
  have "length (ref_stream None (os @ [o'])) \<le> length (ref_stream None ((os @ [o']) @ new))" for new
    by (induction new rule: rev_induct) (simp, subst append_assoc[symmetric], subst ref_stream_append, simp)
  from this[of new] have "\<exists>c. sealed_push b o' = Inr (True, c)"
    using sealed_push_succeeds[OF Cons.prems(1), of o'] Cons.prems by auto
  then obtain c where c: "sealed_push b o' = Inr (True, c)" by blast
  then have "\<exists>b'. sealed_push_all c new = Inr b'"
    using Cons.prems sealed_push_rep[OF Cons.prems(1) _ c] by (intro Cons.IH[of "os @ [o']"]) simp_all
  with c show ?case by (auto simp: sealed_push_all_def)
qed (simp add: sealed_push_all_def)

text \<open>C37: sealed posting pages are exact. A builder for a term accepts a list of references exactly
  when they are valid, ascend in slot and incarnation and fit one page; the finished page then passes
  validation, names the term, ends its chain, and its iterator yields those references in that order
  without an error.\<close>

theorem sealed_round_trip:
  assumes "sealed_new block posted = Inr b" "\<forall>o' \<in> set os. or_incarnation o' \<noteq> 0" "os \<noteq> []"
  shows "(case sealed_push_all b os of
      Inl _ \<Rightarrow> \<not> (refs_ok None os \<and> 24 + length (ref_stream None os) \<le> CAPACITY)
    | Inr b' \<Rightarrow> refs_ok None os \<and> 24 + length (ref_stream None os) \<le> CAPACITY \<and>
        (\<exists>p it. sealed_finish b' = Inr p \<and> page_validate p layout = Inr () \<and> page_posting_term p = Inr posted \<and>
          page_next p = Inr NO_BLOCK \<and> page_posting_refs p = Inr it \<and> postings_items it = (os, None)))"
proof (cases "sealed_push_all b os")
  case (Inl e)
  then show ?thesis using sealed_push_all_succeeds[OF sealed_new_rep[OF assms(1)] assms(2)] by auto
next
  case (Inr b')
  have r: "sealed_rep block posted os b'" using sealed_push_all_rep[OF sealed_new_rep[OF assms(1)] assms(2) Inr] by simp
  then have l: "24 + length (ref_stream None os) \<le> CAPACITY"
    using length_page_used[of "sb_page b'"] by (simp add: sealed_rep_def page_ok_def)
  then have "length os < 2 ^ 16" using length_ref_stream[of os None] by (simp add: CAPACITY_value)
  then have "unat (of_nat (length os) :: u16) \<noteq> 0" using assms(3) by (simp add: unat_u16_of_nat)
  then have f: "sealed_finish b' = Inr (sb_page b')" using r by (auto simp: sealed_finish_def sealed_rep_def)
  show ?thesis using sealed_finish_rep[OF r f] l r f Inr by (auto simp: sealed_rep_def)
qed

definition sample_posted :: term_ref where
  "sample_posted = \<lparr>tr_page = 2, tr_offset = 16\<rparr>"

definition sample_refs :: "owner_ref list" where
  "sample_refs = [\<lparr>or_page = 1, or_slot = 3, or_incarnation = 4\<rparr>, \<lparr>or_page = 1, or_slot = 9, or_incarnation = 300\<rparr>,
     \<lparr>or_page = 7, or_slot = 0, or_incarnation = 301\<rparr>]"

theorem sealed_round_trip_witness:
  "\<exists>b b' p it. sealed_new 5 sample_posted = Inr b \<and> sealed_push_all b sample_refs = Inr b' \<and> sealed_finish b' = Inr p \<and>
    page_posting_refs p = Inr it \<and> postings_items it = (sample_refs, None)"
proof -
  have "term_ref_ok sample_posted" "block_valid 5"
    by (simp_all add: term_ref_ok_def block_valid_def sample_posted_def NO_BLOCK_def PAGE_HEADER_def)
  then obtain b where b: "sealed_new 5 sample_posted = Inr b" by (auto simp: sealed_new_def page_postings_eq)
  have r: "refs_ok None sample_refs"
    by (simp add: sample_refs_def after_ref_def not_after_def slot_le_def owner_ref_ok_def block_valid_def NO_BLOCK_def
        OWNER_SLOTS_def CAPACITY_value OWNER_HEADER_def OWNER_BYTES_def)
  have "length (ref_stream previous os) \<le> 20 * length os" for previous os
    by (induction os arbitrary: previous) (simp, metis (no_types) length_delta_ref_bytes(2) add_mono length_append length_Cons mult_Suc_right ref_stream.simps(2))
  from this[of None sample_refs] have l: "24 + length (ref_stream None sample_refs) \<le> CAPACITY"
    by (simp add: sample_refs_def CAPACITY_value)
  have i: "\<forall>o' \<in> set sample_refs. or_incarnation o' \<noteq> 0" and ne: "sample_refs \<noteq> []" by (simp_all add: sample_refs_def)
  show ?thesis
    using sealed_round_trip[OF b i ne, of "\<lparr>max_offset = 291\<rparr>"] b r l by (auto split: sum.splits)
qed

end
