(* ===== verification/Store.thy ===== *)
theory Store
  imports PageValidate
begin

text \<open>
  The page store (crates/pin-core/src/mutable/mod.rs): the trait \<open>PageStore\<close> as a record of host
  operations, and the traversals that every reader and writer shares. A computation on the host keeps
  the host's state also when it fails, since completed commits stay durable. Loops over page chains
  are total for every host: owner and dictionary blocks increase along a chain, and posting chains are
  bounded by the captured relation size.
\<close>

section \<open>Host computations\<close>

type_synonym ('s, 'a) io = "'s \<Rightarrow> 'a result \<times> 's"

definition io_bind :: "('s, 'a) io \<Rightarrow> ('a \<Rightarrow> ('s, 'b) io) \<Rightarrow> ('s, 'b) io" where
  "io_bind m f s = (case m s of (Inl e, s) \<Rightarrow> (Inl e, s) | (Inr a, s) \<Rightarrow> f a s)"

definition io_lift :: "'a result \<Rightarrow> ('s, 'a) io" where
  "io_lift r s = (r, s)"

abbreviation io_return :: "'a \<Rightarrow> ('s, 'a) io" where
  "io_return a \<equiv> io_lift (Inr a)"

abbreviation io_fail :: "error \<Rightarrow> ('s, 'a) io" where
  "io_fail e \<equiv> io_lift (Inl e)"

fun io_fold :: "('a \<Rightarrow> 'x \<Rightarrow> ('s, 'a) io) \<Rightarrow> 'a \<Rightarrow> 'x list \<Rightarrow> ('s, 'a) io" where
  "io_fold f a [] = io_return a"
| "io_fold f a (x # xs) = io_bind (f a x) (\<lambda>a. io_fold f a xs)"

definition io_items :: "('a \<Rightarrow> 'x \<Rightarrow> ('s, 'a) io) \<Rightarrow> 'a \<Rightarrow> 'x items \<Rightarrow> ('s, 'a) io" where
  "io_items f a it = io_bind (io_fold f a (fst it)) (\<lambda>a. case snd it of None \<Rightarrow> io_return a | Some e \<Rightarrow> io_fail e)"

lemma io_bind_cong [fundef_cong]:
  "m s = m' s' \<Longrightarrow> (\<And>a s1. m' s' = (Inr a, s1) \<Longrightarrow> f a s1 = f' a s1) \<Longrightarrow> io_bind m f s = io_bind m' f' s'"
  by (auto simp: io_bind_def split: prod.splits sum.splits)

lemma io_bind_lift [simp]:
  "io_bind (io_lift (Inr a)) f = f a" "io_bind (io_lift (Inl e)) f = io_lift (Inl e)"
  by (simp_all add: fun_eq_iff io_bind_def io_lift_def)

lemma io_bind_Inr: "io_bind m f s = (Inr b, s2) \<longleftrightarrow> (\<exists>a s1. m s = (Inr a, s1) \<and> f a s1 = (Inr b, s2))"
  by (auto simp: io_bind_def split: prod.splits sum.splits)

lemma io_lift_Inr [simp]: "io_lift r s = (Inr a, s1) \<longleftrightarrow> r = Inr a \<and> s1 = s"
  by (auto simp: io_lift_def)

section \<open>The store\<close>

datatype stage =
    StAllocation | StOwnerReserved | StFragmentStored | StPayloadReady | StTermLinked | StPublished | StOwnerRemoved
  | StPageReclaimed | StSegmentStored | StReplacementPublished | StSegmentReclaimed | StReaderPinned
  | StCountOwnerPinned | StCountBeforeVisibility | StCountAfterVisibility | StDirectRemoved | StGroupReserved
  | StGroupStored | StGroupPublished | StGroupReclaimed | StGroupRetired | StGroupScan | StGroupSortReady
  | StFrontierInvalidated | StFrontierSeek | StOwnerFrontierScan | StGroupCountProtected

record 's page_store =
  ps_layout :: "'s \<Rightarrow> heap_layout"
  ps_packed_postings :: "'s \<Rightarrow> bool"
  ps_frontier_anchors :: "'s \<Rightarrow> bool"
  ps_owner_frontier :: "'s \<Rightarrow> bool"
  ps_blocks :: "('s, u32) io"
  ps_read :: "u32 \<Rightarrow> ('s, page) io"
  ps_read_into :: "u32 \<Rightarrow> page \<Rightarrow> ('s, page) io"
  ps_extend :: "('s, u32) io"
  ps_commit :: "page list \<Rightarrow> ('s, unit) io"
  ps_remove_owners :: "page \<Rightarrow> ('s, unit) io"
  ps_interrupt :: "('s, unit) io"
  ps_event :: "stage \<Rightarrow> ('s, unit) io"

definition load_any :: "'s page_store \<Rightarrow> u32 \<Rightarrow> ('s, page) io" where
  "load_any store block =
     io_bind (ps_interrupt store) (\<lambda>_.
     io_bind (ps_blocks store) (\<lambda>blocks.
     if block \<ge> blocks then io_fail InvalidState else
     io_bind (ps_read store block) (\<lambda>page.
     if pg_block page \<noteq> block then io_fail InvalidState else
     (\<lambda>s. io_bind (io_lift (page_validate page (ps_layout store s))) (\<lambda>_. io_return page) s))))"

definition load :: "'s page_store \<Rightarrow> u32 \<Rightarrow> page_kind \<Rightarrow> ('s, page) io" where
  "load store block kind =
     io_bind (load_any store block) (\<lambda>page.
     if pg_kind page \<noteq> kind then io_fail InvalidState else io_return page)"

definition load_into :: "'s page_store \<Rightarrow> u32 \<Rightarrow> page_kind \<Rightarrow> page \<Rightarrow> ('s, page) io" where
  "load_into store block kind page =
     io_bind (ps_interrupt store) (\<lambda>_.
     io_bind (ps_blocks store) (\<lambda>blocks.
     if block \<ge> blocks then io_fail InvalidState else
     io_bind (ps_read_into store block page) (\<lambda>page.
     if pg_block page \<noteq> block \<or> pg_kind page \<noteq> kind then io_fail InvalidState else
     (\<lambda>s. io_bind (io_lift (page_validate page (ps_layout store s))) (\<lambda>_. io_return page) s))))"

definition allocate :: "'s page_store \<Rightarrow> ('s, u32) io" where
  "allocate store =
     io_bind (ps_interrupt store) (\<lambda>_.
     io_bind (ps_blocks store) (\<lambda>expected.
     io_bind (ps_extend store) (\<lambda>block.
     if block \<noteq> expected \<or> block = NO_BLOCK then io_fail InvalidState else
     io_bind (ps_event store StAllocation) (\<lambda>_. io_return block))))"

definition following :: "page \<Rightarrow> u32 \<Rightarrow> u32 option result" where
  "following page tail =
     (if pg_block page = tail then Inr None else
      and_then (page_next page) (\<lambda>nxt.
      if nxt = NO_BLOCK \<or> nxt > tail \<or> nxt \<le> pg_block page then Inl InvalidState else Inr (Some nxt)))"

definition posting_next :: "page \<Rightarrow> u32 \<Rightarrow> u32 \<Rightarrow> (u32 option \<times> u32) result" where
  "posting_next page tail remaining =
     and_then (ok_or InvalidState (checked_sub_w remaining 1)) (\<lambda>remaining.
     if pg_block page = tail then Inr (None, remaining) else
     and_then (page_next page) (\<lambda>nxt.
     if nxt = NO_BLOCK \<or> remaining = 0 then Inl InvalidState else Inr (Some nxt, remaining)))"

lemma load_any_block: "load_any store block s = (Inr page, s') \<Longrightarrow> pg_block page = block"
  by (auto simp: load_any_def io_bind_Inr split: if_splits)

lemma load_block: "load store block kind s = (Inr page, s') \<Longrightarrow> pg_block page = block \<and> pg_kind page = kind"
  by (auto simp: load_def io_bind_Inr dest: load_any_block split: if_splits)

lemma following_Some: "following page tail = Inr (Some nxt) \<Longrightarrow> pg_block page < nxt \<and> nxt \<le> tail"
  by (auto simp: following_def res_simps split: if_splits)

lemma posting_next_remaining: "posting_next page tail remaining = Inr (nxt, left) \<Longrightarrow> unat left < unat remaining"
proof -
  have "1 \<le> w \<Longrightarrow> unat (w - 1) < unat w" for w :: u32
    by (simp add: word_le_nat_alt unat_sub)
  then show "posting_next page tail remaining = Inr (nxt, left) \<Longrightarrow> unat left < unat remaining"
    by (auto simp: posting_next_def checked_sub_w_def res_simps split: if_splits)
qed

section \<open>Dictionary chains\<close>

text \<open>The entries of one page: they all belong to the bucket, at most one is the term.\<close>

definition find_step ::
  "nat \<Rightarrow> str \<Rightarrow> bool \<Rightarrow> term_ref option \<Rightarrow> dict_term \<Rightarrow> term_ref option result" where
  "find_step bucket text found reference entry =
     (if bucket_for (te_term entry) \<noteq> bucket then Inl InvalidState else
      if te_term entry = text then
        (if reference \<noteq> None \<or> found then Inl InvalidState else Inr (Some (te_reference entry)))
      else Inr reference)"

function find_term_loop ::
  "'s page_store \<Rightarrow> nat \<Rightarrow> str \<Rightarrow> u32 \<Rightarrow> (page \<times> term_ref) option \<Rightarrow> u32 \<Rightarrow> 's \<Rightarrow> (page \<times> term_ref) option result \<times> 's" where
  "find_term_loop store bucket text tail found block s =
     io_bind (load store block DictionaryPage) (\<lambda>page.
     io_bind (io_lift (and_then (page_terms page) (\<lambda>it. for_items (find_step bucket text (found \<noteq> None)) None (terms_items it))))
       (\<lambda>reference.
     io_bind (io_lift (following page tail)) (\<lambda>nxt.
     let found = (case reference of Some reference \<Rightarrow> Some (page, reference) | None \<Rightarrow> found) in
     case nxt of
       Some nxt \<Rightarrow> find_term_loop store bucket text tail found nxt
     | None \<Rightarrow> io_return found))) s"
  by pat_completeness auto
termination
  by (relation "measure (\<lambda>(store, bucket, text, tail, found, block, s). 2 ^ 32 - unat block)")
    (auto dest!: load_block following_Some simp: word_less_nat_alt intro!: diff_less_mono2 unat_lt2p[where 'a = 32, simplified])

declare find_term_loop.simps [simp del]

definition find_term :: "'s page_store \<Rightarrow> page \<Rightarrow> str \<Rightarrow> ('s, (page \<times> term_ref) option) io" where
  "find_term store meta text =
     (let bucket = bucket_for text in
      io_bind (io_lift (page_bucket meta bucket)) (\<lambda>(head, tail).
      if head = NO_BLOCK then io_return None else find_term_loop store bucket text tail None head))"

definition load_posting :: "'s page_store \<Rightarrow> u32 \<Rightarrow> term_ref \<Rightarrow> ('s, page) io" where
  "load_posting store block posted =
     io_bind (load_any store block) (\<lambda>page.
     if pg_kind page = DictionaryPage then
       io_lift (and_then (page_term page posted) (\<lambda>entry.
         and_then (ok_or InvalidState (case te_inline_second entry of Some second \<Rightarrow> Some second | None \<Rightarrow> te_shadow_second entry)) (\<lambda>second.
         if te_inline_second entry \<noteq> None \<and> (te_head entry \<noteq> block \<or> te_tail entry \<noteq> block) then Inl InvalidState else
         and_then (page_postings block posted) (\<lambda>virtual.
         and_then (page_append_posting virtual second) (\<lambda>(room, virtual).
         if \<not> room then Inl InvalidState else Inr virtual)))))
     else
     io_bind (io_lift (page_posting_term page)) (\<lambda>owner.
     if owner \<noteq> posted then io_fail InvalidState else io_return page))"

section \<open>The store of the test suite\<close>

text \<open>
  \<open>MemoryStore\<close> (crates/pin-core/tests/support/mutable_store.rs): one commit is one indivisible
  record; an event may be set to fail, which interrupts an operation between two commits. Its
  assertions on the batch are failures here.
\<close>

record memory_store =
  mt_pages :: "bytes list"
  mt_events :: "stage list"
  mt_fail_at :: "nat option"
  mt_packed_postings :: bool
  mt_frontier_anchors :: bool

definition memory_layout :: heap_layout where
  "memory_layout = \<lparr>max_offset = 291\<rparr>"

text \<open>The closure that copies a stored image into the output buffer.\<close>

definition memory_fill :: "bytes \<Rightarrow> host_read" where
  "memory_fill bytes output =
     (if length bytes > length output then (output, Inl InvalidState)
      else (bytes @ drop (length bytes) output, Inr (length bytes)))"

definition memory_read :: "u32 \<Rightarrow> (memory_store, page) io" where
  "memory_read block s =
     (if unat block < length (mt_pages s) then (page_read_with block (memory_fill (mt_pages s ! unat block)), s)
      else (Inl InvalidState, s))"

definition memory_read_into :: "u32 \<Rightarrow> page \<Rightarrow> (memory_store, page) io" where
  "memory_read_into block page s =
     (if unat block < length (mt_pages s) then
        (let (page, r) = page_reload_with page block (memory_fill (mt_pages s ! unat block)) in (and_then r (\<lambda>_. Inr page), s))
      else (Inl InvalidState, s))"

definition memory_commit :: "page list \<Rightarrow> (memory_store, unit) io" where
  "memory_commit pages s =
     (if pages = [] \<or> length pages > MAX_WAL_PAGES then (Inl InvalidState, s) else
      case try_fold (\<lambda>_ page. page_validate page memory_layout) () pages of
        Inl e \<Rightarrow> (Inl e, s)
      | Inr _ \<Rightarrow>
          if list_ex (\<lambda>page. unat (pg_block page) \<ge> length (mt_pages s)) pages \<or> \<not> distinct (map pg_block pages)
          then (Inl InvalidState, s)
          else (Inr (), s\<lparr>mt_pages := fold (\<lambda>page images. images[unat (pg_block page) := page_used page]) pages (mt_pages s)\<rparr>))"

definition memory_event :: "stage \<Rightarrow> (memory_store, unit) io" where
  "memory_event st s =
     (let s = s\<lparr>mt_events := mt_events s @ [st]\<rparr> in
      if mt_fail_at s = Some (length (mt_events s) - 1) then (Inl InvalidState, s) else (Inr (), s))"

definition memory_store_ops :: "memory_store page_store" where
  "memory_store_ops =
     \<lparr>ps_layout = (\<lambda>_. memory_layout), ps_packed_postings = mt_packed_postings, ps_frontier_anchors = mt_frontier_anchors,
      ps_owner_frontier = (\<lambda>_. False),
      ps_blocks = (\<lambda>s. (Inr (of_nat (length (mt_pages s))), s)),
      ps_read = memory_read, ps_read_into = memory_read_into,
      ps_extend = (\<lambda>s. (Inr (of_nat (length (mt_pages s))), s\<lparr>mt_pages := mt_pages s @ [[]]\<rparr>)),
      ps_commit = memory_commit, ps_remove_owners = (\<lambda>page. memory_commit [page]),
      ps_interrupt = (\<lambda>s. (Inr (), s)), ps_event = memory_event\<rparr>"

end
