(* ===== verification/Chains.thy ===== *)
theory Chains
  imports Store Candidate
begin

text \<open>
  Readers over page chains: candidate streaming (crates/pin-core/src/mutable/reader.rs), owner streaming
  for counts (count.rs) and page-sized work units (work.rs). The callback \<open>emit\<close> is a host computation.
  The loops over an owner chain and over a posting chain are the same in all of them.
\<close>

section \<open>Chain loops\<close>

definition with_layout :: "'s page_store \<Rightarrow> (heap_layout \<Rightarrow> ('s, 'a) io) \<Rightarrow> ('s, 'a) io" where
  "with_layout store f s = f (ps_layout store s) s"

text \<open>\<open>loop { let page = load(..)?; body; match following(&page, tail)? { Some(next) => block = next, None => break } }\<close>\<close>

function walk_owners :: "'s page_store \<Rightarrow> ('a \<Rightarrow> page \<Rightarrow> ('s, 'a) io) \<Rightarrow> u32 \<Rightarrow> 'a \<Rightarrow> u32 \<Rightarrow> 's \<Rightarrow> 'a result \<times> 's" where
  "walk_owners store body tail acc block s =
     io_bind (load store block Owners) (\<lambda>page.
     io_bind (body acc page) (\<lambda>acc.
     io_bind (io_lift (following page tail)) (\<lambda>nxt.
     case nxt of Some nxt \<Rightarrow> walk_owners store body tail acc nxt | None \<Rightarrow> io_return acc))) s"
  by pat_completeness auto
termination
  by (relation "measure (\<lambda>(store, body, tail, acc, block, s). 2 ^ 32 - unat block)")
    (auto dest!: load_block following_Some simp: word_less_nat_alt intro!: diff_less_mono2 unat_lt2p[where 'a = 32, simplified])

declare walk_owners.simps [simp del]

text \<open>The same loop over a posting chain, with \<open>posting_next\<close> and the captured bound.\<close>

function walk_postings ::
  "'s page_store \<Rightarrow> term_ref \<Rightarrow> ('a \<Rightarrow> page \<Rightarrow> ('s, 'a) io) \<Rightarrow> u32 \<Rightarrow> u32 \<Rightarrow> 'a \<Rightarrow> u32 \<Rightarrow> 's \<Rightarrow> 'a result \<times> 's" where
  "walk_postings store posted body tail remaining acc block s =
     io_bind (load_posting store block posted) (\<lambda>page.
     io_bind (body acc page) (\<lambda>acc.
     io_bind (io_lift (posting_next page tail remaining)) (\<lambda>(nxt, remaining).
     case nxt of Some nxt \<Rightarrow> walk_postings store posted body tail remaining acc nxt | None \<Rightarrow> io_return acc))) s"
  by pat_completeness auto
termination
  by (relation "measure (\<lambda>(store, posted, body, tail, remaining, acc, block, s). unat remaining)")
    (auto dest!: posting_next_remaining)

declare walk_postings.simps [simp del]

section \<open>Candidate streaming\<close>

definition count_up :: "string \<Rightarrow> u64 \<Rightarrow> ('s, u64) io" where
  "count_up what count = io_lift (ok_or (Limit what) (checked_add_w count 1))"

definition resolve :: "'s page_store \<Rightarrow> page option \<Rightarrow> owner_ref \<Rightarrow> ('s, root_tid option \<times> page option) io" where
  "resolve store cache reference =
     io_bind (case cache of
         Some page \<Rightarrow>
           if pg_block page = or_page reference
           then io_lift (and_then (page_owner_count page) (\<lambda>count. Inr (or_slot reference \<ge> count)))
           else io_return True
       | None \<Rightarrow> io_return True) (\<lambda>reload.
     io_bind (if reload then
         (case cache of
            Some page \<Rightarrow> load_into store (or_page reference) Owners page
          | None \<Rightarrow> load store (or_page reference) Owners)
       else io_lift (ok_or InvalidState cache)) (\<lambda>page.
     with_layout store (\<lambda>layout.
     io_bind (io_lift (page_owner page (or_slot reference) layout)) (\<lambda>owner.
     if ow_reference owner \<noteq> reference then io_fail InvalidState
     else io_return (if ow_live owner \<and> ow_publication owner = Published then Some (ow_root owner) else None, Some page)))))"

definition scan_owner ::
  "'s page_store \<Rightarrow> (root_tid \<Rightarrow> ('s, unit) io) \<Rightarrow> page \<Rightarrow> u64 \<Rightarrow> nat \<Rightarrow> ('s, u64) io" where
  "scan_owner store emit page count slot =
     with_layout store (\<lambda>layout.
     io_bind (io_lift (page_owner page (of_nat slot) layout)) (\<lambda>owner.
     if ow_publication owner = Published \<and> ow_live owner then
       io_bind (emit (ow_root owner)) (\<lambda>_. count_up ''candidate count'' count)
     else io_return count))"

definition scan_owner_page ::
  "'s page_store \<Rightarrow> (root_tid \<Rightarrow> ('s, unit) io) \<Rightarrow> u64 \<Rightarrow> page \<Rightarrow> ('s, u64) io" where
  "scan_owner_page store emit count page =
     io_bind (io_lift (page_owner_count page)) (\<lambda>slots. io_fold (scan_owner store emit page) count [0..<unat slots])"

definition scan_reference ::
  "'s page_store \<Rightarrow> (root_tid \<Rightarrow> ('s, unit) io) \<Rightarrow> page option \<times> u64 \<Rightarrow> owner_ref \<Rightarrow> ('s, page option \<times> u64) io" where
  "scan_reference store emit st reference =
     io_bind (resolve store (fst st) reference) (\<lambda>(root, cache).
     case root of
       Some root \<Rightarrow> io_bind (emit root) (\<lambda>_. io_bind (count_up ''candidate count'' (snd st)) (\<lambda>count. io_return (cache, count)))
     | None \<Rightarrow> io_return (cache, snd st))"

definition scan_posting_page ::
  "'s page_store \<Rightarrow> (root_tid \<Rightarrow> ('s, unit) io) \<Rightarrow> page option \<times> u64 \<Rightarrow> page \<Rightarrow> ('s, page option \<times> u64) io" where
  "scan_posting_page store emit st page =
     io_bind (io_lift (page_posting_refs page)) (\<lambda>it. io_items (scan_reference store emit) st (postings_items it))"

definition scan_term ::
  "'s page_store \<Rightarrow> (root_tid \<Rightarrow> ('s, unit) io) \<Rightarrow> page \<Rightarrow> page option \<times> u64 \<Rightarrow> str \<Rightarrow> ('s, page option \<times> u64) io" where
  "scan_term store emit meta st text =
     io_bind (find_term store meta text) (\<lambda>found.
     case found of
       None \<Rightarrow> io_return st
     | Some (dictionary, reference) \<Rightarrow>
         io_bind (io_lift (page_term dictionary reference)) (\<lambda>entry.
         io_bind (scan_reference store emit st (te_first entry)) (\<lambda>st.
         case te_inline_second entry of
           Some second \<Rightarrow> scan_reference store emit st second
         | None \<Rightarrow>
             if te_head entry = NO_BLOCK then io_return st else
             io_bind (ps_blocks store) (\<lambda>remaining.
             walk_postings store reference (scan_posting_page store emit) (te_tail entry) remaining st (te_head entry)))))"

definition scan :: "'s page_store \<Rightarrow> candidate_plan \<Rightarrow> (root_tid \<Rightarrow> ('s, unit) io) \<Rightarrow> ('s, u64) io" where
  "scan store plan emit =
     io_bind (load store 0 Meta) (\<lambda>meta.
     case plan of
       CEmpty \<Rightarrow> io_return 0
     | CUniverse \<Rightarrow>
         io_bind (io_lift (page_owner_chain meta)) (\<lambda>(head, tail).
         if head = NO_BLOCK then io_return 0 else walk_owners store (scan_owner_page store emit) tail 0 head)
     | CTerms terms \<Rightarrow>
         io_bind (io_fold (scan_term store emit meta) (None, 0) terms) (\<lambda>(_, count). io_return count))"

section \<open>Owner streaming\<close>

record count_candidate =
  cc_owner :: owner_ref
  cc_sealed_term :: bool

definition count_send ::
  "(count_candidate \<Rightarrow> ('s, unit) io) \<Rightarrow> u64 \<Rightarrow> owner_ref \<Rightarrow> bool \<Rightarrow> ('s, u64) io" where
  "count_send emit count owner sealed_term =
     io_bind (emit \<lparr>cc_owner = owner, cc_sealed_term = sealed_term\<rparr>) (\<lambda>_. count_up ''count candidates'' count)"

definition sealed_page :: "page \<Rightarrow> bool" where
  "sealed_page page \<longleftrightarrow> pg_kind page = SealedPostings \<or> pg_kind page = DirectPostings"

definition count_posting_page ::
  "(count_candidate \<Rightarrow> ('s, unit) io) \<Rightarrow> owner_ref \<times> u64 \<Rightarrow> page \<Rightarrow> ('s, owner_ref \<times> u64) io" where
  "count_posting_page emit st page =
     io_bind (io_lift (page_posting_refs page)) (\<lambda>it.
     io_items (\<lambda>(previous, count) owner.
       if not_after owner previous then io_fail InvalidState
       else io_bind (count_send emit count owner (sealed_page page)) (\<lambda>count. io_return (owner, count)))
       st (postings_items it))"

definition count_owner_page ::
  "'s page_store \<Rightarrow> (count_candidate \<Rightarrow> ('s, unit) io) \<Rightarrow> u64 \<Rightarrow> page \<Rightarrow> ('s, u64) io" where
  "count_owner_page store emit count page =
     io_bind (io_lift (page_owner_count page)) (\<lambda>slots.
     io_fold (\<lambda>count slot.
       with_layout store (\<lambda>layout.
       io_bind (io_lift (page_owner page (of_nat slot) layout)) (\<lambda>owner.
       if ow_live owner \<and> ow_publication owner = Published then count_send emit count (ow_reference owner) False
       else io_return count))) count [0..<unat slots])"

definition scan_count :: "'s page_store \<Rightarrow> query \<Rightarrow> (count_candidate \<Rightarrow> ('s, unit) io) \<Rightarrow> ('s, u64) io" where
  "scan_count store query emit =
     (case nd_kind (q_nodes query ! q_root query) of
        KNone \<Rightarrow> io_return 0
      | KTerm text \<Rightarrow>
          io_bind (load store 0 Meta) (\<lambda>meta.
          io_bind (find_term store meta text) (\<lambda>found.
          case found of
            None \<Rightarrow> io_return 0
          | Some (dictionary, reference) \<Rightarrow>
              io_bind (io_lift (page_term dictionary reference)) (\<lambda>entry.
              io_bind (count_send emit 0 (te_first entry) False) (\<lambda>count.
              case te_inline_second entry of
                Some second \<Rightarrow> count_send emit count second False
              | None \<Rightarrow>
                  if te_head entry = NO_BLOCK then io_return count else
                  io_bind (ps_blocks store) (\<lambda>remaining.
                  io_bind (walk_postings store reference (count_posting_page emit) (te_tail entry) remaining
                    (te_first entry, count) (te_head entry)) (\<lambda>(_, count). io_return count))))))
      | _ \<Rightarrow>
          io_bind (load store 0 Meta) (\<lambda>meta.
          io_bind (io_lift (page_owner_chain meta)) (\<lambda>(head, tail).
          if head = NO_BLOCK then io_return 0 else walk_owners store (count_owner_page store emit) tail 0 head)))"

end
