(* ===== verification/WorkUnits.thy ===== *)
theory WorkUnits
  imports Chains
begin

text \<open>
  Page-sized work for serial and parallel readers (crates/pin-core/src/mutable/work.rs). A state is the
  eleven words the host shares between its workers; a claimed batch is one page or one inline reference.
\<close>

section \<open>States\<close>

definition WORK_WORDS :: nat where
  "WORK_WORDS = 11"

type_synonym work_state = "u64 list"

definition WORK_DONE :: work_state where
  "WORK_DONE = replicate WORK_WORDS 0"

record work_batch =
  wb_page :: "page option"
  wb_inline :: "owner_ref option"
  wb_sealed_term :: bool

text \<open>\<open>u32::try_from\<close> and \<open>u16::try_from\<close> of a word.\<close>

definition narrow_u32 :: "u64 \<Rightarrow> u32 result" where
  "narrow_u32 w = (if w \<le> 0xFFFFFFFF then Inr (ucast w) else Inl InvalidState)"

definition narrow_u16 :: "u64 \<Rightarrow> u16 result" where
  "narrow_u16 w = (if w \<le> 0xFFFF then Inr (ucast w) else Inl InvalidState)"

definition work_previous :: "work_state \<Rightarrow> owner_ref result" where
  "work_previous self =
     and_then (narrow_u32 (self ! 6)) (\<lambda>page.
     and_then (narrow_u16 (self ! 7)) (\<lambda>slot.
     and_then (map_err (\<lambda>_. InvalidState) (identifier_new (self ! 8))) (\<lambda>incarnation.
     Inr \<lparr>or_page = page, or_slot = slot, or_incarnation = incarnation\<rparr>)))"

definition work_from_words :: "u64 list \<Rightarrow> work_state result" where
  "work_from_words words =
     (if words ! 0 = 0 then (if words = WORK_DONE then Inr words else Inl InvalidState) else
      if words ! 0 > 3 \<or> words ! 9 = 0 \<or> words ! 9 \<ge> ucast NO_BLOCK \<or> words ! 3 = 0 \<or> words ! 3 > words ! 9 \<or> words ! 10 > 1
      then Inl InvalidState else
      let valid_block = (\<lambda>word. word > 0 \<and> word < words ! 9);
          empty = (words ! 1 = ucast NO_BLOCK \<and> words ! 2 = ucast NO_BLOCK) in
      if \<not> (valid_block (words ! 1) \<and> valid_block (words ! 2)) \<and> \<not> (words ! 0 = 1 \<and> empty) then Inl InvalidState else
      if words ! 0 = 3 then
        (if words ! 1 > words ! 2 \<or> list_ex (\<lambda>word. word \<noteq> 0) (take 5 (drop 4 words)) \<or> words ! 10 \<noteq> 0
         then Inl InvalidState else Inr words)
      else if \<not> valid_block (words ! 4) \<or> \<not> valid_block (words ! 6) \<or> words ! 5 > 0xFFFF \<or> words ! 7 > 0xFFFF
      then Inl InvalidState
      else and_then (work_previous words) (\<lambda>_. Inr words))"

text \<open>\<open>Query::is_single_term\<close>.\<close>

definition is_single_term :: "query \<Rightarrow> bool" where
  "is_single_term query = (case nd_kind (q_nodes query ! q_root query) of KTerm _ \<Rightarrow> True | _ \<Rightarrow> False)"

definition capture_owners :: "page \<Rightarrow> u64 list \<Rightarrow> work_state result" where
  "capture_owners meta words =
     and_then (page_owner_chain meta) (\<lambda>(head, tail).
     if head = NO_BLOCK then Inr WORK_DONE
     else work_from_words (words[0 := 3, 1 := ucast head, 2 := ucast tail]))"

definition capture_cover :: "'s page_store \<Rightarrow> query \<Rightarrow> candidate_plan \<Rightarrow> ('s, work_state) io" where
  "capture_cover store query cover =
     (if cover = CEmpty then io_return WORK_DONE else
      io_bind (load store 0 Meta) (\<lambda>meta.
      io_bind (ps_blocks store) (\<lambda>blocks.
      let words = (replicate WORK_WORDS 0)[3 := ucast blocks, 9 := ucast blocks] in
      case cover of
        CTerms [text] \<Rightarrow>
          io_bind (find_term store meta text) (\<lambda>found.
          case found of
            None \<Rightarrow> io_return WORK_DONE
          | Some (dictionary, reference) \<Rightarrow>
              io_lift (and_then (page_term dictionary reference) (\<lambda>entry.
              work_from_words (words[0 := 1, 1 := ucast (te_head entry), 2 := ucast (te_tail entry),
                4 := ucast (tr_page reference), 5 := ucast (tr_offset reference), 6 := ucast (or_page (te_first entry)),
                7 := ucast (or_slot (te_first entry)), 8 := or_incarnation (te_first entry),
                10 := (if is_single_term query then 1 else 0)]))))
      | _ \<Rightarrow> io_lift (capture_owners meta words))))"

text \<open>\<open>None\<close> when the plan's work list does not end, which a parsed query excludes.\<close>

definition capture :: "env \<Rightarrow> 's page_store \<Rightarrow> query \<Rightarrow> nat \<Rightarrow> ('s, work_state) io option" where
  "capture env store query memory_bytes =
     map_option (\<lambda>cover. io_bind (io_lift cover) (capture_cover store query)) (candidate_build env query memory_bytes)"

section \<open>Claims\<close>

text \<open>The page of a claim, its successor's previous owner and chain position.\<close>

definition prepare_owners :: "'s page_store \<Rightarrow> u32 \<Rightarrow> u32 \<Rightarrow> u32 \<Rightarrow> ('s, page \<times> u32 option \<times> u32) io" where
  "prepare_owners store block tail remaining =
     io_bind (load store block Owners) (\<lambda>page.
     io_lift (and_then (following page tail) (\<lambda>nxt.
     and_then (ok_or InvalidState (checked_sub_w remaining 1)) (\<lambda>remaining.
     Inr (page, nxt, remaining)))))"

definition prepare_postings ::
  "work_state \<Rightarrow> 's page_store \<Rightarrow> u32 \<Rightarrow> u32 \<Rightarrow> u32 \<Rightarrow> ('s, page \<times> owner_ref \<times> u32 option \<times> u32) io" where
  "prepare_postings self store block tail remaining =
     io_bind (io_lift (narrow_u32 (self ! 4))) (\<lambda>page.
     io_bind (io_lift (narrow_u16 (self ! 5))) (\<lambda>offset.
     io_bind (load_posting store block \<lparr>tr_page = page, tr_offset = offset\<rparr>) (\<lambda>page.
     io_lift (and_then (work_previous self) (\<lambda>previous.
     and_then (page_posting_refs page) (\<lambda>it.
     and_then (for_items (\<lambda>previous owner. if not_after owner previous then Inl InvalidState else Inr owner)
       previous (postings_items it)) (\<lambda>previous.
     and_then (posting_next page tail remaining) (\<lambda>(nxt, remaining).
     Inr (page, previous, nxt, remaining)))))))))"

definition work_successor :: "u64 list \<Rightarrow> u32 option \<Rightarrow> u32 \<Rightarrow> work_state result" where
  "work_successor words nxt remaining =
     (case nxt of
        Some block \<Rightarrow> work_from_words (words[1 := ucast block, 3 := ucast remaining])
      | None \<Rightarrow> Inr WORK_DONE)"

definition work_prepare :: "work_state \<Rightarrow> 's page_store \<Rightarrow> ('s, (work_state \<times> work_batch) option) io" where
  "work_prepare self store =
     (if self = WORK_DONE then io_return None else
      if self ! 0 = 1 then
        io_lift (and_then (work_previous self) (\<lambda>owner.
        Inr (Some (if self ! 1 = ucast NO_BLOCK then WORK_DONE else self[0 := 2],
          \<lparr>wb_page = None, wb_inline = Some owner, wb_sealed_term = False\<rparr>))))
      else
      io_bind (io_lift (narrow_u32 (self ! 1))) (\<lambda>block.
      io_bind (io_lift (narrow_u32 (self ! 2))) (\<lambda>tail.
      io_bind (io_lift (narrow_u32 (self ! 3))) (\<lambda>remaining.
      if self ! 0 = 3 then
        io_bind (prepare_owners store block tail remaining) (\<lambda>(page, nxt, remaining).
        io_lift (and_then (work_successor self nxt remaining) (\<lambda>successor.
        Inr (Some (successor, \<lparr>wb_page = Some page, wb_inline = None, wb_sealed_term = self ! 10 = 1 \<and> sealed_page page\<rparr>)))))
      else
        io_bind (prepare_postings self store block tail remaining) (\<lambda>(page, previous, nxt, remaining).
        io_lift (and_then (work_successor (self[6 := ucast (or_page previous), 7 := ucast (or_slot previous),
            8 := or_incarnation previous]) nxt remaining) (\<lambda>successor.
        Inr (Some (successor, \<lparr>wb_page = Some page, wb_inline = None, wb_sealed_term = self ! 10 = 1 \<and> sealed_page page\<rparr>)))))))))"

section \<open>Batches\<close>

definition batch_for_each ::
  "work_batch \<Rightarrow> heap_layout \<Rightarrow> ('a \<Rightarrow> count_candidate \<Rightarrow> ('s, 'a) io) \<Rightarrow> 'a \<Rightarrow> ('s, 'a) io" where
  "batch_for_each self layout emit acc =
     (case wb_inline self of
        Some owner \<Rightarrow> emit acc \<lparr>cc_owner = owner, cc_sealed_term = False\<rparr>
      | None \<Rightarrow>
          io_bind (io_lift (ok_or InvalidState (wb_page self))) (\<lambda>page.
          if pg_kind page = Owners then
            io_bind (io_lift (page_owner_count page)) (\<lambda>slots.
            io_fold (\<lambda>acc slot.
              io_bind (io_lift (page_owner page (of_nat slot) layout)) (\<lambda>owner.
              if ow_live owner \<and> ow_publication owner = Published
              then emit acc \<lparr>cc_owner = ow_reference owner, cc_sealed_term = False\<rparr> else io_return acc)) acc [0..<unat slots])
          else
            io_bind (io_lift (page_posting_refs page)) (\<lambda>it.
            io_items (\<lambda>acc owner. emit acc \<lparr>cc_owner = owner, cc_sealed_term = wb_sealed_term self\<rparr>) acc (postings_items it))))"

definition batch_for_each_root :: "work_batch \<Rightarrow> 's page_store \<Rightarrow> (root_tid \<Rightarrow> ('s, unit) io) \<Rightarrow> ('s, unit) io" where
  "batch_for_each_root self store emit =
     with_layout store (\<lambda>layout.
     io_bind (batch_for_each self layout (\<lambda>cache candidate.
       io_bind (resolve store cache (cc_owner candidate)) (\<lambda>(root, cache).
       case root of Some root \<Rightarrow> io_bind (emit root) (\<lambda>_. io_return cache) | None \<Rightarrow> io_return cache)) None) (\<lambda>_. io_return ()))"

end
