(* ===== verification/WorkRuns.thy ===== *)
theory WorkRuns
  imports WorkUnits
begin

text \<open>
  Runs of work units: any interleaving of claims, over whatever states the store has at each of them,
  ends within the captured number of blocks and emits every owner at most once.
\<close>

section \<open>Valid states\<close>

definition work_ok :: "work_state \<Rightarrow> bool" where
  "work_ok w \<longleftrightarrow> length w = WORK_WORDS \<and> work_from_words w = Inr w"

definition work_measure :: "work_state \<Rightarrow> nat" where
  "work_measure w = (if w = WORK_DONE then 0 else unat (w ! 3) + (if w ! 0 = 1 then 1 else 0))"

lemma work_ok_done [simp]: "work_ok WORK_DONE"
  by (simp add: work_ok_def WORK_DONE_def WORK_WORDS_def work_from_words_def)

lemma work_measure_done [simp]: "work_measure WORK_DONE = 0"
  by (simp add: work_measure_def)

lemma work_from_words_Inr: "work_from_words words = Inr w \<Longrightarrow> w = words"
  by (auto simp: work_from_words_def Let_def res_simps split: if_splits)

lemma work_ok_fields:
  assumes "work_ok w" "w \<noteq> WORK_DONE"
  shows "w ! 0 \<noteq> 0" "w ! 3 \<noteq> 0" "w ! 3 \<le> w ! 9" "w ! 0 = 1 \<or> w ! 0 = 2 \<or> w ! 0 = 3"
    "w ! 0 \<noteq> 3 \<Longrightarrow> \<exists>q. work_previous w = Inr q"
proof -
  from assms show n: "w ! 0 \<noteq> 0" "w ! 3 \<noteq> 0" "w ! 3 \<le> w ! 9"
    by (auto simp: work_ok_def work_from_words_def Let_def res_simps not_less split: if_splits)
  have "w ! 0 \<le> 3" using assms by (auto simp: work_ok_def work_from_words_def Let_def res_simps not_less split: if_splits)
  then have "unat (w ! 0) \<le> 3" by (simp add: word_le_nat_alt)
  then have "unat (w ! 0) = 0 \<or> unat (w ! 0) = 1 \<or> unat (w ! 0) = 2 \<or> unat (w ! 0) = 3" by linarith
  then show "w ! 0 = 1 \<or> w ! 0 = 2 \<or> w ! 0 = 3" using n(1) by (simp add: word_unat_eq_iff)
  show "\<exists>q. work_previous w = Inr q" if "w ! 0 \<noteq> 3"
    using assms that by (auto simp: work_ok_def work_from_words_def Let_def res_simps split: if_splits)
qed

lemma work_ok_second:
  assumes "work_ok w" "w ! 0 = 1" "w ! 1 \<noteq> ucast NO_BLOCK"
  shows "work_ok (w[0 := 2])"
proof -
  have l: "length w = 11" using assms(1) by (simp add: work_ok_def WORK_WORDS_def)
  have p: "work_previous (w[0 := 2]) = work_previous w" by (simp add: work_previous_def)
  show ?thesis using assms l p
    by (auto simp: work_ok_def work_from_words_def Let_def res_simps split: if_splits)
qed

lemma work_successor_ok:
  assumes "work_successor words nxt remaining = Inr w" "length words = WORK_WORDS" "words ! 0 \<noteq> 0" "words ! 0 \<noteq> 1"
  shows "work_ok w" "work_measure w \<le> unat remaining"
    "w \<noteq> WORK_DONE \<Longrightarrow> \<exists>block. nxt = Some block \<and> w = words[1 := ucast block, 3 := ucast remaining]"
proof -
  have "(w = WORK_DONE) \<or> (\<exists>block. nxt = Some block \<and> w = words[1 := ucast block, 3 := ucast remaining] \<and> work_ok w)"
    using assms(1,2) by (auto simp: work_successor_def work_ok_def split: option.splits dest: work_from_words_Inr)
  moreover have "work_measure (words[1 := ucast block, 3 := ucast remaining]) \<le> unat remaining" for block :: u32
    using assms(2-4) by (simp add: work_measure_def WORK_WORDS_def unat_ucast_up)
  ultimately show "work_ok w" "work_measure w \<le> unat remaining"
    "w \<noteq> WORK_DONE \<Longrightarrow> \<exists>block. nxt = Some block \<and> w = words[1 := ucast block, 3 := ucast remaining]"
    by auto
qed

section \<open>Claims\<close>

text \<open>The owners that a claimed batch emits, in order.\<close>

definition batch_owners :: "work_batch \<Rightarrow> heap_layout \<Rightarrow> owner_ref list result" where
  "batch_owners batch layout =
     fst (batch_for_each batch layout (\<lambda>owners candidate. io_return (owners @ [cc_owner candidate])) [] ())"

text \<open>\<open>(a.page, a.slot) < (b.page, b.slot)\<close>.\<close>

definition slot_less :: "owner_ref \<Rightarrow> owner_ref \<Rightarrow> bool" where
  "slot_less a b \<longleftrightarrow> \<not> slot_le b a"

lemma slot_less_trans: "slot_less a b \<Longrightarrow> slot_less b c \<Longrightarrow> slot_less a c"
  by (auto simp: slot_less_def slot_le_def)

lemma slot_le_less: "slot_le a b \<Longrightarrow> slot_less b c \<Longrightarrow> slot_less a c"
  by (auto simp: slot_less_def slot_le_def)

lemma slot_le_refl [simp]: "slot_le a a"
  by (simp add: slot_le_def)

lemma slot_le_trans: "slot_le a b \<Longrightarrow> slot_le b c \<Longrightarrow> slot_le a c"
  by (auto simp: slot_le_def)

lemma slot_less_le: "slot_less a b \<Longrightarrow> slot_le a b"
  by (auto simp: slot_less_def slot_le_def)

text \<open>The order check of a posting page.\<close>

lemma posting_check:
  assumes "try_fold (\<lambda>previous owner. if not_after owner previous then Inl e else Inr owner) previous os = Inr q"
  shows "sorted_wrt slot_less os \<and> (\<forall>o' \<in> set os. slot_less previous o' \<and> slot_le o' q) \<and> slot_le previous q"
  using assms
proof (induction os arbitrary: previous)
  case (Cons o' os)
  have n: "slot_less previous o'" and r: "try_fold (\<lambda>previous owner. if not_after owner previous then Inl e else Inr owner) o' os = Inr q"
    using Cons.prems by (auto simp: not_after_def slot_less_def split: if_splits)
  show ?case using Cons.IH[OF r] n by (auto intro: slot_less_trans slot_le_trans slot_less_le)
qed simp

lemma io_fold_collect:
  "io_fold (\<lambda>acc x. io_return (acc @ [f x])) acc xs s = (Inr (acc @ map f xs), s)"
  by (induction xs arbitrary: acc) (simp_all add: io_lift_def)

lemma batch_owners_posting:
  assumes "pg_kind page \<noteq> Owners" "page_posting_refs page = Inr it" "postings_items it = (refs, None)"
  shows "batch_owners \<lparr>wb_page = Some page, wb_inline = None, wb_sealed_term = b\<rparr> layout = Inr refs"
  using io_fold_collect[of "\<lambda>o'. o'" "[]" refs "()"] assms
  by (simp add: batch_owners_def batch_for_each_def io_items_def io_bind_def io_lift_def)

text \<open>The live owners of an owner page ascend by slot.\<close>

lemma owner_fold_sorted:
  assumes "io_fold (\<lambda>acc slot. io_bind (io_lift (page_owner page (of_nat slot) layout)) (\<lambda>owner.
      if ow_live owner \<and> ow_publication owner = Published then io_return (acc @ [ow_reference owner]) else io_return acc)) acc [i..<n] s = (Inr os, s')"
    and "n < 2 ^ 16" "sorted_wrt slot_less acc" "\<forall>o' \<in> set acc. or_page o' = pg_block page \<and> unat (or_slot o') < i"
  shows "sorted_wrt slot_less os \<and> (\<forall>o' \<in> set os. or_page o' = pg_block page)"
  using assms
proof (induction "n - i" arbitrary: i acc s)
  case (Suc k)
  then have i: "[i..<n] = i # [Suc i..<n]" by (simp add: upt_rec)
  from Suc.prems(1) i obtain ow where ow: "page_owner page (of_nat i) layout = Inr ow" and
    r: "io_fold (\<lambda>acc slot. io_bind (io_lift (page_owner page (of_nat slot) layout)) (\<lambda>owner.
      if ow_live owner \<and> ow_publication owner = Published then io_return (acc @ [ow_reference owner]) else io_return acc))
      (if ow_live ow \<and> ow_publication ow = Published then acc @ [ow_reference ow] else acc) [Suc i..<n] s = (Inr os, s')"
    by (auto simp: io_bind_Inr split: if_splits)
  have ref: "or_page (ow_reference ow) = pg_block page" "unat (or_slot (ow_reference ow)) = i"
    using ow Suc.prems(2) Suc.hyps(2) by (auto simp: page_owner_def Let_def res_simps unat_u16_of_nat split: if_splits)
  show ?case
  proof (rule Suc.hyps(1)[OF _ r])
    show "k = n - Suc i" using Suc.hyps(2) by simp
    show "n < 2 ^ 16" by (rule Suc.prems(2))
    show "sorted_wrt slot_less (if ow_live ow \<and> ow_publication ow = Published then acc @ [ow_reference ow] else acc)"
      using Suc.prems(3,4) ref by (auto simp: sorted_wrt_append slot_less_def slot_le_def word_le_nat_alt)
    show "\<forall>o' \<in> set (if ow_live ow \<and> ow_publication ow = Published then acc @ [ow_reference ow] else acc).
        or_page o' = pg_block page \<and> unat (or_slot o') < Suc i"
      using Suc.prems(4) ref by auto
  qed
qed (simp add: io_lift_def)

lemma batch_owners_page:
  assumes "pg_kind page = Owners" "batch_owners \<lparr>wb_page = Some page, wb_inline = None, wb_sealed_term = b\<rparr> layout = Inr os"
  shows "sorted_wrt slot_less os \<and> (\<forall>o' \<in> set os. or_page o' = pg_block page)"
proof -
  from assms obtain c where c: "page_owner_count page = Inr c"
    by (auto simp: batch_owners_def batch_for_each_def io_bind_def io_lift_def split: sum.splits prod.splits)
  have "io_fold (\<lambda>acc slot. io_bind (io_lift (page_owner page (of_nat slot) layout)) (\<lambda>owner.
      if ow_live owner \<and> ow_publication owner = Published then io_return (acc @ [ow_reference owner]) else io_return acc)) [] [0..<unat c] () = (Inr os, ())"
    using assms c by (simp add: batch_owners_def batch_for_each_def prod_eq_iff cong: if_cong)
  from owner_fold_sorted[OF this] show ?thesis using unat_lt2p[of c] by simp
qed

lemma narrow_u32_Inr: "narrow_u32 w = Inr v \<Longrightarrow> unat w = unat v"
  by (auto simp: narrow_u32_def word_le_nat_alt unsigned_ucast_eq take_bit_nat_eq_self split: if_splits)

lemma unat_ucast_u64 [simp]: "unat (ucast (v :: u32) :: u64) = unat v"
  by (rule unat_ucast_up) simp

lemma ucast_round [simp]:
  "ucast (ucast (v :: u32) :: u64) = v" "ucast (ucast (h :: u16) :: u64) = h"
  by (transfer, simp add: take_bit_take_bit)+

lemma work_previous_stored:
  assumes "length w = WORK_WORDS" "work_previous (w[6 := ucast (or_page q), 7 := ucast (or_slot q), 8 := or_incarnation q, 1 := a, 3 := b]) = Inr r"
  shows "r = q"
proof -
  have p: "narrow_u32 (ucast (or_page q)) = Inr (or_page q)"
    using unat_lt2p[of "or_page q"] by (auto simp: narrow_u32_def word_le_nat_alt)
  have s: "narrow_u16 (ucast (or_slot q)) = Inr (or_slot q)"
    using unat_lt2p[of "or_slot q"] by (auto simp: narrow_u16_def word_le_nat_alt unat_ucast_up)
  show ?thesis
    using assms p s by (auto simp: work_previous_def WORK_WORDS_def identifier_new_def res_simps split: if_splits)
qed

text \<open>The three kinds of claims. A successor is either the end or a valid state further down the chain.\<close>

lemma claim_inline:
  assumes "work_ok w" "w ! 0 = 1" "work_prepare w store s = (Inr (Some (w', b)), s')"
  obtains q where "work_previous w = Inr q" "batch_owners b layout = Inr [q]"
    "work_ok w'" "work_measure w' < work_measure w" "w' \<noteq> WORK_DONE \<Longrightarrow> w' = w[0 := 2]"
proof -
  have d: "w \<noteq> WORK_DONE" using assms(2) by (auto simp: WORK_DONE_def WORK_WORDS_def)
  from assms(2,3) d obtain q where q: "work_previous w = Inr q" "b = \<lparr>wb_page = None, wb_inline = Some q, wb_sealed_term = False\<rparr>"
    "w' = (if w ! 1 = ucast NO_BLOCK then WORK_DONE else w[0 := 2])"
    by (auto simp: work_prepare_def io_lift_def res_simps)
  have "work_measure (w[0 := 2]) < work_measure w"
    using assms(1,2) d work_ok_fields(2)[OF assms(1) d] by (auto simp: work_measure_def work_ok_def WORK_WORDS_def)
  moreover have "0 < work_measure w" using d assms(2) by (simp add: work_measure_def)
  ultimately have m: "work_measure w' < work_measure w" using q(3) by (simp split: if_split)
  show ?thesis
  proof (rule that[OF q(1) _ _ m])
    show "batch_owners b layout = Inr [q]" by (simp add: q(2) batch_owners_def batch_for_each_def io_lift_def)
    show "work_ok w'" using q(3) work_ok_second[OF assms(1,2)] by (simp split: if_split)
    show "w' = w[0 := 2]" if "w' \<noteq> WORK_DONE" using that q(3) by (simp split: if_splits)
  qed
qed

lemma claim_owners:
  assumes "work_ok w" "w ! 0 = 3" "work_prepare w store s = (Inr (Some (w', b)), s')" "batch_owners b layout = Inr os"
  shows "sorted_wrt slot_less os" "\<forall>o' \<in> set os. unat (or_page o') = unat (w ! 1)"
    "work_ok w'" "work_measure w' < work_measure w" "w' \<noteq> WORK_DONE \<Longrightarrow> w' ! 0 = 3 \<and> unat (w ! 1) < unat (w' ! 1)"
proof -
  have d: "w \<noteq> WORK_DONE" using assms(2) by (auto simp: WORK_DONE_def WORK_WORDS_def)
  have l: "length w = 11" using assms(1) by (simp add: work_ok_def WORK_WORDS_def)
  from assms(2,3) d obtain block tail remaining page nxt left st where
    n: "narrow_u32 (w ! 1) = Inr block" "narrow_u32 (w ! 3) = Inr remaining"
    and page: "load store block Owners s = (Inr page, st)" "following page tail = Inr nxt" "checked_sub_w remaining 1 = Some left"
    and w': "work_successor w nxt left = Inr w'" and b: "b = \<lparr>wb_page = Some page, wb_inline = None, wb_sealed_term = w ! 10 = 1 \<and> sealed_page page\<rparr>"
    by (auto simp: work_prepare_def prepare_owners_def io_bind_Inr res_simps)
  note pg = load_block[OF page(1)]
  show s: "sorted_wrt slot_less os" "\<forall>o' \<in> set os. unat (or_page o') = unat (w ! 1)"
    using batch_owners_page[OF _ assms(4)[unfolded b]] pg narrow_u32_Inr[OF n(1)] by auto
  have r: "unat left < unat (w ! 3)" using page(3) narrow_u32_Inr[OF n(2)]
    by (auto simp: checked_sub_w_def word_le_nat_alt unat_sub split: if_splits)
  have k: "length w = WORK_WORDS" "w ! 0 \<noteq> 0" "w ! 0 \<noteq> 1" using assms(2) l by (simp_all add: WORK_WORDS_def)
  note su = work_successor_ok[OF w' k]
  show "work_ok w'" by (rule su(1))
  show "work_measure w' < work_measure w" using su(2) r d by (simp add: work_measure_def)
  show "w' ! 0 = 3 \<and> unat (w ! 1) < unat (w' ! 1)" if "w' \<noteq> WORK_DONE"
    using su(3)[OF that] assms(2) l following_Some[of page tail] page(2) pg narrow_u32_Inr[OF n(1)]
    by (auto simp: word_less_nat_alt)
qed

lemma claim_postings:
  assumes "work_ok w" "w ! 0 = 2" "work_prepare w store s = (Inr (Some (w', b)), s')" "batch_owners b layout = Inr os"
    and q: "work_previous w = Inr q"
  obtains q' where "sorted_wrt slot_less os" "\<forall>o' \<in> set os. slot_less q o' \<and> slot_le o' q'" "slot_le q q'"
    "work_ok w'" "work_measure w' < work_measure w" "w' \<noteq> WORK_DONE \<Longrightarrow> w' ! 0 = 2 \<and> work_previous w' = Inr q'"
proof -
  have d: "w \<noteq> WORK_DONE" using assms(2) by (auto simp: WORK_DONE_def WORK_WORDS_def)
  have l: "length w = 11" using assms(1) by (simp add: work_ok_def WORK_WORDS_def)
  from assms(2,3) d q obtain block tail remaining page posted it q' nxt left where
    n: "narrow_u32 (w ! 3) = Inr remaining" and it: "page_posting_refs page = Inr it" "snd (postings_items it) = None"
      "try_fold (\<lambda>previous owner. if not_after owner previous then Inl InvalidState else Inr owner) q (fst (postings_items it)) = Inr q'"
    and nx: "posting_next page tail remaining = Inr (nxt, left)"
    and w': "work_successor (w[6 := ucast (or_page q'), 7 := ucast (or_slot q'), 8 := or_incarnation q']) nxt left = Inr w'"
    and b: "b = \<lparr>wb_page = Some page, wb_inline = None, wb_sealed_term = w ! 10 = 1 \<and> sealed_page page\<rparr>"
    by (auto simp: work_prepare_def prepare_postings_def io_bind_Inr res_simps for_items_def split: option.splits)
  let ?w = "w[6 := ucast (or_page q'), 7 := ucast (or_slot q'), 8 := or_incarnation q']"
  have "pg_kind page \<noteq> Owners" using it(1) by (auto simp: page_posting_refs_def page_posting_term_def res_simps split: if_splits)
  from batch_owners_posting[OF this it(1), of "fst (postings_items it)"] have os: "os = fst (postings_items it)"
    using assms(4) it(2) by (simp add: b prod_eq_iff)
  have r: "unat left < unat (w ! 3)" using posting_next_remaining[OF nx] narrow_u32_Inr[OF n] by simp
  have k: "length ?w = WORK_WORDS" "?w ! 0 \<noteq> 0" "?w ! 0 \<noteq> 1" using assms(2) l by (simp_all add: WORK_WORDS_def)
  note su = work_successor_ok[OF w' k]
  have "w' ! 0 = 2 \<and> work_previous w' = Inr q'" if ne: "w' \<noteq> WORK_DONE"
  proof -
    obtain nb where nb: "w' = ?w[1 := ucast (nb :: u32), 3 := ucast left]" using su(3)[OF ne] by blast
    have z: "w' ! 0 = 2" using nb assms(2) l by simp
    obtain r where "work_previous w' = Inr r" using work_ok_fields(5)[OF su(1) ne] z by auto
    with work_previous_stored[of w q' "ucast nb" "ucast left" r] show ?thesis using z nb l by (simp add: WORK_WORDS_def)
  qed
  moreover have "work_measure w' < work_measure w" using su(2) r d by (simp add: work_measure_def)
  ultimately show ?thesis using that[of q'] posting_check[OF it(3)] os su(1) by blast
qed

section \<open>Runs\<close>

text \<open>
  Claims in any order of the workers: each is prepared from the current shared state, on whatever the
  store holds at that moment, and the shared state is replaced by the successor.
\<close>

inductive work_run :: "'s page_store \<Rightarrow> heap_layout \<Rightarrow> work_state \<Rightarrow> owner_ref list list \<Rightarrow> work_state \<Rightarrow> bool"
  for store layout origin where
  run_start: "work_run store layout origin [] origin"
| run_claim: "work_run store layout origin oss w \<Longrightarrow> work_prepare w store s = (Inr (Some (w', b)), s') \<Longrightarrow>
    batch_owners b layout = Inr os \<Longrightarrow> work_run store layout origin (oss @ [os]) w'"

definition run_invariant :: "work_state \<Rightarrow> owner_ref list list \<Rightarrow> work_state \<Rightarrow> bool" where
  "run_invariant origin oss w \<longleftrightarrow>
     work_ok w \<and> length oss + work_measure w \<le> work_measure origin \<and> sorted_wrt slot_less (concat oss) \<and>
     (w ! 0 = 1 \<longrightarrow> oss = []) \<and>
     (w ! 0 = 2 \<longrightarrow> (\<exists>q. work_previous w = Inr q \<and> (\<forall>o' \<in> set (concat oss). slot_le o' q))) \<and>
     (w ! 0 = 3 \<longrightarrow> (\<forall>o' \<in> set (concat oss). unat (or_page o') < unat (w ! 1)))"

lemma done_kind [simp]: "WORK_DONE ! 0 = 0"
  by (simp add: WORK_DONE_def WORK_WORDS_def)

lemma run_invariant_start:
  assumes "work_ok origin"
  shows "run_invariant origin [] origin"
proof (cases "origin = WORK_DONE")
  case False
  then show ?thesis using work_ok_fields(5)[OF assms False] assms by (auto simp: run_invariant_def)
qed (simp add: run_invariant_def)

lemma run_invariant_step:
  assumes inv: "run_invariant origin oss w" and p: "work_prepare w store s = (Inr (Some (w', b)), s')" and os: "batch_owners b layout = Inr os"
  shows "run_invariant origin (oss @ [os]) w'"
proof -
  have ok: "work_ok w" and m: "length oss + work_measure w \<le> work_measure origin" and so: "sorted_wrt slot_less (concat oss)"
    using inv by (simp_all add: run_invariant_def)
  have "w \<noteq> WORK_DONE" using p by (auto simp: work_prepare_def io_lift_def)
  from work_ok_fields(4)[OF ok this] consider "w ! 0 = 1" | "w ! 0 = 2" | "w ! 0 = 3" by blast
  then show ?thesis
  proof cases
    case 1
    obtain q where q: "work_previous w = Inr q" "os = [q]" "work_ok w'" "work_measure w' < work_measure w" "w' \<noteq> WORK_DONE \<Longrightarrow> w' = w[0 := 2]"
      using claim_inline[OF ok 1 p, of layout] os by auto
    have "work_previous w' = Inr q" if "w' \<noteq> WORK_DONE" using q(1,5) that by (simp add: work_previous_def)
    moreover have "oss = []" using inv 1 by (simp add: run_invariant_def)
    moreover have "w' ! 0 = 0 \<or> (w' ! 0 = 2 \<and> w' \<noteq> WORK_DONE)"
      using q(5) ok by (cases "w' = WORK_DONE") (auto simp: work_ok_def WORK_WORDS_def)
    ultimately show ?thesis using q m by (auto simp: run_invariant_def)
  next
    case 2
    obtain q where q: "work_previous w = Inr q" "\<forall>o' \<in> set (concat oss). slot_le o' q" using inv 2 by (auto simp: run_invariant_def)
    obtain q' where c: "sorted_wrt slot_less os" "\<forall>o' \<in> set os. slot_less q o' \<and> slot_le o' q'" "slot_le q q'" "work_ok w'"
      "work_measure w' < work_measure w" "w' \<noteq> WORK_DONE \<Longrightarrow> w' ! 0 = 2 \<and> work_previous w' = Inr q'"
      using claim_postings[OF ok 2 p os q(1)] by blast
    have "sorted_wrt slot_less (concat oss @ os)" using so c(1,2) q(2) by (auto simp: sorted_wrt_append intro: slot_le_less)
    moreover have "\<forall>o' \<in> set (concat oss) \<union> set os. slot_le o' q'" using q(2) c(2,3) slot_le_trans by blast
    moreover have "w' ! 0 = 0 \<or> (w' ! 0 = 2 \<and> work_previous w' = Inr q')" using c(6) by (cases "w' = WORK_DONE") auto
    ultimately show ?thesis using c(4,5) m by (auto simp: run_invariant_def)
  next
    case 3
    note c = claim_owners[OF ok 3 p os]
    have "\<forall>o' \<in> set (concat oss). unat (or_page o') < unat (w ! 1)" using inv 3 by (simp add: run_invariant_def)
    then have "sorted_wrt slot_less (concat oss @ os)" using so c(1,2)
      by (auto simp: sorted_wrt_append slot_less_def slot_le_def word_less_nat_alt word_le_nat_alt)
        (metis less_irrefl less_trans less_not_sym)+
    moreover have "w' ! 0 = 0 \<or> (w' ! 0 = 3 \<and> unat (w ! 1) < unat (w' ! 1))" using c(5) by (cases "w' = WORK_DONE") auto
    moreover note \<open>\<forall>o' \<in> set (concat oss). _ o'\<close>
    ultimately show ?thesis using c(2-4) m by (fastforce simp: run_invariant_def)
  qed
qed

lemma work_run_invariant: "work_run store layout origin oss w \<Longrightarrow> work_ok origin \<Longrightarrow> run_invariant origin oss w"
  by (induction rule: work_run.induct) (simp_all add: run_invariant_start run_invariant_step)

text \<open>C39: work units are claimed finitely often and without duplicates. From a valid captured state, any
  sequence of claims, each prepared on an arbitrary state of the store, has at most as many claims as
  the captured relation has blocks and one more, every intermediate state passes the checks of
  from_words, and the owners emitted by all claims together ascend strictly by page and slot, so no
  two workers emit the same owner.\<close>

theorem work_run_bounded:
  assumes "work_run store layout origin oss w" "length origin = WORK_WORDS" "work_from_words origin = Inr origin"
  shows "length oss \<le> unat (origin ! 9) + 1 \<and> work_from_words w = Inr w \<and>
    sorted_wrt slot_less (concat oss) \<and> distinct (concat oss)"
proof -
  have ok: "work_ok origin" using assms(2,3) by (simp add: work_ok_def)
  note inv = work_run_invariant[OF assms(1) ok]
  have "work_measure origin \<le> unat (origin ! 9) + 1"
  proof (cases "origin = WORK_DONE")
    case False
    then show ?thesis using work_ok_fields(3)[OF ok False] by (simp add: work_measure_def word_le_nat_alt)
  qed simp
  moreover have "sorted_wrt slot_less os \<Longrightarrow> distinct os" for os
    by (induction os) (auto simp: slot_less_def)
  ultimately show ?thesis using inv by (simp add: run_invariant_def work_ok_def)
qed

definition sample_work :: work_state where
  "sample_work = [1, 0xFFFFFFFF, 0xFFFFFFFF, 3, 2, 16, 1, 0, 7, 3, 1]"

theorem work_run_bounded_witness:
  "\<exists>oss w. work_run memory_store_ops memory_layout sample_work oss w \<and> length oss = 1 \<and>
    length oss \<le> unat (sample_work ! 9) + 1 \<and> work_from_words w = Inr w \<and> distinct (concat oss)"
proof -
  let ?s = "\<lparr>mt_pages = [], mt_events = [], mt_fail_at = None, mt_packed_postings = False, mt_frontier_anchors = False\<rparr>"
  have w: "length sample_work = WORK_WORDS" "work_from_words sample_work = Inr sample_work" by code_simp+
  then have ok: "work_ok sample_work" "sample_work ! 0 = 1" by (simp_all add: work_ok_def sample_work_def)
  have "\<exists>w' b. work_prepare sample_work memory_store_ops ?s = (Inr (Some (w', b)), ?s)"
    using work_ok_fields(5)[OF ok(1)] ok(2) by (auto simp: work_prepare_def io_lift_def)
  then obtain w' b where p: "work_prepare sample_work memory_store_ops ?s = (Inr (Some (w', b)), ?s)" by blast
  obtain q where "batch_owners b memory_layout = Inr [q]" using claim_inline[OF ok p] by metis
  from run_claim[OF run_start p this] have r: "work_run memory_store_ops memory_layout sample_work [[q]] w'" by simp
  show ?thesis using work_run_bounded[OF r w] r by (intro exI[of _ "[[q]]"] exI[of _ w']) simp
qed

end
