(* ===== verification/Document.thy ===== *)
theory Document
  imports PageBase Positions Unicode
begin

text \<open>
  Complete document payloads (crates/pin-core/src/mutable/document.rs): preparation of the sorted
  term directory with its positions, the checked iterator over a stored payload, validation, phrase
  matching on selected streams and term membership.
\<close>

section \<open>Preparation\<close>

record prepared_document =
  pd_bytes :: bytes
  pd_tokens :: u32
  pd_terms :: u32

definition DOCUMENT_HEADER :: nat where
  "DOCUMENT_HEADER = 16"

definition PD02 :: bytes where
  "PD02 = [0x50, 0x44, 0x30, 0x32]"

text \<open>\<open>slice::chunk_by\<close>.\<close>

fun chunk_by :: "('a \<Rightarrow> 'a \<Rightarrow> bool) \<Rightarrow> 'a list \<Rightarrow> 'a list list" where
  "chunk_by f [] = []"
| "chunk_by f [x] = [[x]]"
| "chunk_by f (x # y # xs) =
     (case chunk_by f (y # xs) of
        g # gs \<Rightarrow> if f x y then (x # g) # gs else [x] # g # gs
      | [] \<Rightarrow> [[x]])"

definition same_term :: "token \<Rightarrow> token \<Rightarrow> bool" where
  "same_term a b \<longleftrightarrow> tk_term a = tk_term b"

text \<open>The loop over the tokens of a term: bytes of the deltas and the previous position.\<close>

definition delta_size :: "token list \<Rightarrow> nat" where
  "delta_size grp =
     fst (fold (\<lambda>token (bytes, previous). (bytes + var_u32_len (tk_position token - previous), tk_position token)) grp (4, 0))"

definition prepare_measure :: "u32 \<times> nat \<Rightarrow> token list \<Rightarrow> (u32 \<times> nat) result" where
  "prepare_measure st grp =
     (let (terms, len) = st; text = tk_term (hd grp) in
      if text = [] \<or> length text > MAX_TERM_BYTES then Inl (Limit ''term bytes'') else
      and_then (ok_or (Limit ''document terms'') (checked_add_w terms 1)) (\<lambda>terms.
      and_then (ok_or (Limit ''document payload'') (checked_add len (8 + length text + delta_size grp))) (\<lambda>len.
      Inr (terms, len))))"

definition prepare_write :: "writer \<Rightarrow> token list \<Rightarrow> writer result" where
  "prepare_write writer grp =
     (let text = tk_term (hd grp) in
      and_then (from_codec (writer_u16 writer (of_nat (length text)))) (\<lambda>writer.
      and_then (from_codec (writer_u16 writer 0)) (\<lambda>writer.
      and_then (from_codec (writer_u32 writer (of_nat (delta_size grp)))) (\<lambda>writer.
      and_then (from_codec (writer_put writer text)) (\<lambda>writer.
      and_then (from_codec (writer_u32 writer (of_nat (length grp)))) (\<lambda>writer.
      and_then (try_fold (\<lambda>(writer, previous) token.
          and_then (from_codec (writer_var_u32 writer (tk_position token - previous))) (\<lambda>writer. Inr (writer, tk_position token)))
        (writer, 0) grp) (\<lambda>(writer, _).
      Inr writer)))))))"

definition prepare :: "env \<Rightarrow> analyzed \<Rightarrow> nat \<Rightarrow> prepared_document result" where
  "prepare env document memory_bytes =
     (if analyzed_len document > MAX_DOCUMENT_TOKENS then Inl (Limit ''document positions'') else
      and_then (from_budget (budget_charge (budget_new memory_bytes) (an_retained_bytes document))) (\<lambda>budget.
      and_then (vector (env_alloc env) (env_size env ''Token'') (unat (analyzed_len document)) budget) (\<lambda>(tokens, budget).
      let tokens = sort_key (\<lambda>token. (tk_term token, tk_position token)) (elems tokens @ analyzed_tokens document);
          grps = chunk_by same_term tokens in
      and_then (try_fold prepare_measure (0, DOCUMENT_HEADER) grps) (\<lambda>(terms, len).
      if len > MAX_DOCUMENT_BYTES then Inl (Limit ''document payload'') else
      and_then (vector (env_alloc env) 1 len budget) (\<lambda>(bytes, budget).
      and_then (from_codec (writer_put (writer_new (elems bytes @ replicate len 0)) PD02)) (\<lambda>writer.
      and_then (from_codec (writer_u32 writer PROFILE_ID)) (\<lambda>writer.
      and_then (from_codec (writer_u32 writer (analyzed_len document))) (\<lambda>writer.
      and_then (from_codec (writer_u32 writer terms)) (\<lambda>writer.
      and_then (try_fold prepare_write writer grps) (\<lambda>writer.
      Inr \<lparr>pd_bytes = wr_bytes writer, pd_tokens = analyzed_len document, pd_terms = terms\<rparr>))))))))))"

section \<open>Stored payloads\<close>

record document_term =
  dc_term :: str
  dc_positions :: bytes

definition document_term_positions :: "document_term \<Rightarrow> positions result" where
  "document_term_positions self = from_codec (positions_parse (dc_positions self) MAX_DOCUMENT_TOKENS)"

record document_terms =
  dm_reader :: reader
  dm_remaining :: u32

definition document_term_entry :: "u32 \<Rightarrow> reader \<Rightarrow> (document_term \<times> reader) result" where
  "document_term_entry remaining reader =
     and_then (from_codec (reader_u16 reader)) (\<lambda>(len, reader).
     if len = 0 \<or> unat len > MAX_TERM_BYTES then Inl InvalidDocument else
     and_then (from_codec (reader_u16 reader)) (\<lambda>(zero, reader).
     if zero \<noteq> 0 then Inl InvalidDocument else
     and_then (from_codec (reader_u32 reader)) (\<lambda>(position_bytes, reader).
     and_then (from_codec (reader_take reader (unat len))) (\<lambda>(text, reader).
     and_then (from_utf8 InvalidDocument text) (\<lambda>text.
     and_then (from_codec (reader_take reader (unat position_bytes))) (\<lambda>(stream, reader).
     and_then (if remaining = 1 then from_codec (reader_finish reader) else Inr ()) (\<lambda>_.
     Inr (\<lparr>dc_term = text, dc_positions = stream\<rparr>, reader))))))))"

definition document_terms_next :: "document_terms \<Rightarrow> document_term result option \<times> document_terms" where
  "document_terms_next self =
     (if dm_remaining self = 0 then (None, self) else
      case document_term_entry (dm_remaining self) (dm_reader self) of
        Inl e \<Rightarrow> (Some (Inl e), self\<lparr>dm_remaining := 0\<rparr>)
      | Inr (entry, reader) \<Rightarrow> (Some (Inr entry), self\<lparr>dm_reader := reader, dm_remaining := dm_remaining self - 1\<rparr>))"

lemma document_terms_next_remaining:
  "document_terms_next self = (Some (Inr entry), self') \<Longrightarrow> unat (dm_remaining self') < unat (dm_remaining self)"
  by (auto simp: document_terms_next_def unat_minus_one unat_gt_0 split: if_splits sum.splits)

function document_terms_items :: "document_terms \<Rightarrow> document_term items" where
  "document_terms_items self =
     (case document_terms_next self of
        (None, _) \<Rightarrow> ([], None)
      | (Some (Inl e), _) \<Rightarrow> ([], Some e)
      | (Some (Inr entry), self') \<Rightarrow> (let (entries, e) = document_terms_items self' in (entry # entries, e)))"
  by pat_completeness auto
termination
  by (relation "measure (\<lambda>self. unat (dm_remaining self))") (auto dest: document_terms_next_remaining[OF sym])

declare document_terms_items.simps [simp del]

definition prepared_terms :: "prepared_document \<Rightarrow> document_terms" where
  "prepared_terms self = \<lparr>dm_reader = reader_new (drop DOCUMENT_HEADER (pd_bytes self)), dm_remaining = pd_terms self\<rparr>"

text \<open>The items of a position stream.\<close>

function position_items :: "position_iter \<Rightarrow> u32 items" where
  "position_items iter =
     (case position_iter_next iter of
        (None, _) \<Rightarrow> ([], None)
      | (Some (Inl e), _) \<Rightarrow> ([], Some (Codec e))
      | (Some (Inr position), iter') \<Rightarrow> (let (ps, e) = position_items iter' in (position # ps, e)))"
  by pat_completeness auto
termination
  by (relation "measure (\<lambda>iter. unat (it_remaining iter))") (auto dest: position_iter_next_remaining[OF sym])

declare position_items.simps [simp del]

section \<open>Validation\<close>

definition mark_position :: "u32 \<Rightarrow> u64 list \<times> u32 \<Rightarrow> u32 \<Rightarrow> (u64 list \<times> u32) result" where
  "mark_position tokens st position =
     (let (seen, total) = st; word = unat position div 64; m = push_bit (unat position mod 64) 1 in
      if position \<ge> tokens then Inl InvalidDocument else
      if seen ! word AND m \<noteq> 0 then Inl InvalidDocument
      else Inr (seen[word := seen ! word OR m], total + 1))"

definition validate_term ::
  "('t \<Rightarrow> str \<Rightarrow> positions \<Rightarrow> 't result) \<Rightarrow> u32 \<Rightarrow> str \<times> u64 list \<times> u32 \<times> 't \<Rightarrow> document_term \<Rightarrow>
    (str \<times> u64 list \<times> u32 \<times> 't) result" where
  "validate_term on_term tokens st entry =
     (let (previous, seen, total, t) = st in
      if dc_term entry \<le> previous then Inl InvalidDocument else
      and_then (document_term_positions entry) (\<lambda>ps.
      if pos_count ps = 0 then Inl InvalidDocument else
      and_then (on_term t (dc_term entry) ps) (\<lambda>t.
      and_then (for_items (mark_position tokens) (seen, total) (position_items (positions_iter ps))) (\<lambda>(seen, total).
      Inr (dc_term entry, seen, total, t)))))"

definition validate_inner ::
  "env \<Rightarrow> bytes \<Rightarrow> nat \<Rightarrow> ('t \<Rightarrow> str \<Rightarrow> positions \<Rightarrow> 't result) \<Rightarrow> 't \<Rightarrow> ((u32 \<times> u32) \<times> 't) result" where
  "validate_inner env bytes memory_bytes on_term t =
     (if length bytes > MAX_DOCUMENT_BYTES then Inl (Limit ''document payload'') else
      and_then (from_codec (reader_take (reader_new bytes) 4)) (\<lambda>(magic, reader).
      if magic \<noteq> PD02 then Inl InvalidProfile else
      and_then (from_codec (reader_u32 reader)) (\<lambda>(profile, reader).
      if profile \<noteq> PROFILE_ID then Inl InvalidProfile else
      and_then (from_codec (reader_u32 reader)) (\<lambda>(tokens, reader).
      and_then (from_codec (reader_u32 reader)) (\<lambda>(terms, reader).
      if tokens > MAX_DOCUMENT_TOKENS \<or> terms > tokens then Inl InvalidDocument else
      if terms = 0 then
        and_then (from_codec (reader_finish reader)) (\<lambda>_.
        if tokens = 0 then Inr ((0, 0), t) else Inl InvalidDocument)
      else
      let words = div_ceil (unat tokens) 64 in
      and_then (vector (env_alloc env) 8 words (budget_new memory_bytes)) (\<lambda>(seen, budget).
      and_then (for_items (validate_term on_term tokens) ([], elems seen @ replicate words 0, 0, t)
        (document_terms_items \<lparr>dm_reader = reader, dm_remaining = terms\<rparr>)) (\<lambda>(_, _, total, t).
      if total \<noteq> tokens then Inl InvalidDocument else Inr ((tokens, terms), t))))))))"

definition document_validate :: "env \<Rightarrow> bytes \<Rightarrow> nat \<Rightarrow> (u32 \<times> u32) result" where
  "document_validate env bytes memory_bytes =
     and_then (validate_inner env bytes memory_bytes (\<lambda>_ _ _. Inr ()) ()) (\<lambda>(r, _). Inr r)"

definition copy_from_bytes :: "env \<Rightarrow> bytes \<Rightarrow> nat \<Rightarrow> prepared_document result" where
  "copy_from_bytes env input memory_bytes =
     and_then (document_validate env input memory_bytes) (\<lambda>(tokens, terms).
     and_then (vector (env_alloc env) 1 (length input) (budget_new memory_bytes)) (\<lambda>(bytes, budget).
     Inr \<lparr>pd_bytes = elems bytes @ input, pd_tokens = tokens, pd_terms = terms\<rparr>))"

definition validated_terms :: "env \<Rightarrow> bytes \<Rightarrow> u32 \<Rightarrow> u32 \<Rightarrow> nat \<Rightarrow> document_terms result" where
  "validated_terms env bytes expected_tokens expected_terms memory_bytes =
     and_then (document_validate env bytes memory_bytes) (\<lambda>(tokens, terms).
     if tokens \<noteq> expected_tokens \<or> terms \<noteq> expected_terms then Inl InvalidDocument
     else Inr \<lparr>dm_reader = reader_new (drop DOCUMENT_HEADER bytes), dm_remaining = terms\<rparr>)"

section \<open>Phrases\<close>

text \<open>The inner loop: advance one cursor to the target position.\<close>

function seek_position :: "u32 \<Rightarrow> position_iter \<Rightarrow> u32 option \<Rightarrow> (bool \<times> position_iter \<times> u32 option) result" where
  "seek_position target cursor current =
     (case current of
        Some v \<Rightarrow>
          if v < target then seek_position target cursor None else Inr (v = target, cursor, Some v)
      | None \<Rightarrow>
          (case position_iter_next cursor of
             (None, cursor) \<Rightarrow> Inr (False, cursor, None)
           | (Some (Inl e), _) \<Rightarrow> Inl (Codec e)
           | (Some (Inr v), cursor') \<Rightarrow>
               if v < target then seek_position target cursor' None else Inr (v = target, cursor', Some v)))"
  by pat_completeness auto
termination
  by (relation "measure (\<lambda>(target, cursor, current). 2 * unat (it_remaining cursor) + (if current = None then 0 else 1))")
    (auto dest: position_iter_next_remaining[OF sym])

declare seek_position.simps [simp del]

text \<open>
  The loop over the other terms of the phrase: \<open>Some b\<close> tells whether all of them match, \<open>None\<close> is
  the early return \<open>Ok(false)\<close> on overflow.
\<close>

fun phrase_terms ::
  "nat \<Rightarrow> u32 \<Rightarrow> nat list \<Rightarrow> position_iter list \<Rightarrow> u32 option list \<Rightarrow> (bool option \<times> position_iter list \<times> u32 option list) result" where
  "phrase_terms anchor origin [] cursors current = Inr (Some True, cursors, current)"
| "phrase_terms anchor origin (index # indexes) cursors current =
     (if index = anchor then phrase_terms anchor origin indexes cursors current else
      case checked_add_w origin (of_nat index) of
        None \<Rightarrow> Inr (None, cursors, current)
      | Some target \<Rightarrow>
          and_then (seek_position target (cursors ! index) (current ! index)) (\<lambda>(matched, cursor, value).
          let cursors = cursors[index := cursor]; current = current[index := value] in
          if matched then phrase_terms anchor origin indexes cursors current
          else Inr (Some False, cursors, current)))"

fun phrase_anchors ::
  "nat \<Rightarrow> nat \<Rightarrow> u32 list \<Rightarrow> error option \<Rightarrow> position_iter list \<Rightarrow> u32 option list \<Rightarrow> bool result" where
  "phrase_anchors n anchor [] e cursors current = (case e of Some e \<Rightarrow> Inl e | None \<Rightarrow> Inr False)"
| "phrase_anchors n anchor (position # ps) e cursors current =
     (case checked_sub_w position (of_nat anchor) of
        None \<Rightarrow> phrase_anchors n anchor ps e cursors current
      | Some origin \<Rightarrow>
          and_then (phrase_terms anchor origin [0..<n] cursors current) (\<lambda>(matched, cursors, current).
          case matched of
            None \<Rightarrow> Inr False
          | Some True \<Rightarrow> Inr True
          | Some False \<Rightarrow> phrase_anchors n anchor ps e cursors current))"

text \<open>\<open>min_by_key\<close>: the first index of a least length.\<close>

definition rarest :: "positions list \<Rightarrow> nat option" where
  "rarest ps =
     (if ps = [] then None
      else Some (fold (\<lambda>i best. if pos_count (ps ! i) < pos_count (ps ! best) then i else best) [1..<length ps] 0))"

definition match_phrase :: "positions option list \<Rightarrow> bool result" where
  "match_phrase ps =
     (if list_ex (\<lambda>p. p = None) ps then Inr False else
      let ps = map the ps in
      and_then (ok_or InvalidState (rarest ps)) (\<lambda>anchor.
      let (items, e) = position_items (positions_iter (ps ! anchor)) in
      phrase_anchors (length ps) anchor items e (map positions_iter ps) (replicate (length ps) None)))"

text \<open>The closure that keeps the streams of the wanted terms.\<close>

definition select_positions :: "str list \<Rightarrow> positions option list \<Rightarrow> str \<Rightarrow> positions \<Rightarrow> positions option list" where
  "select_positions wanted slots text view =
     map2 (\<lambda>name slot. if name = text then Some view else slot) wanted slots"

definition document_phrase_matches :: "env \<Rightarrow> bytes \<Rightarrow> u32 \<Rightarrow> u32 \<Rightarrow> str list \<Rightarrow> nat \<Rightarrow> bool result" where
  "document_phrase_matches env bytes expected_tokens expected_terms phrase memory_bytes =
     (if phrase = [] \<or> length phrase > 64 then Inl (Limit ''phrase terms'') else
      and_then (validate_inner env bytes memory_bytes (\<lambda>slots text view. Inr (select_positions phrase slots text view))
        (replicate (length phrase) None)) (\<lambda>((tokens, terms), slots).
      if tokens \<noteq> expected_tokens \<or> terms \<noteq> expected_terms then Inl InvalidDocument else match_phrase slots))"

section \<open>Selected positions\<close>

record selected_positions =
  sp_positions :: "positions option list"
  sp_directory_terms :: u32
  sp_selected_positions :: u32

definition selected_step ::
  "str list \<Rightarrow> u32 \<Rightarrow> str \<times> u32 \<times> selected_positions \<Rightarrow> document_term \<Rightarrow> (str \<times> u32 \<times> selected_positions) result" where
  "selected_step wanted tokens st entry =
     (let (previous, total, result) = st in
      if dc_term entry \<le> previous then Inl InvalidDocument else
      and_then (from_codec (reader_u32 (reader_new (dc_positions entry)))) (\<lambda>(count, encoded).
      if count = 0 \<or> count > tokens \<or> unat count > reader_remaining encoded then Inl InvalidDocument else
      and_then (ok_or InvalidDocument (checked_add_w total count)) (\<lambda>total.
      if \<not> list_ex (\<lambda>name. name = dc_term entry) wanted then Inr (dc_term entry, total, result) else
      and_then (document_term_positions entry) (\<lambda>view.
      and_then (for_items (\<lambda>_ position. if position \<ge> tokens then Inl InvalidDocument else Inr ()) ()
        (position_items (positions_iter view))) (\<lambda>_.
      and_then (ok_or InvalidDocument (checked_add_w (sp_selected_positions result) count)) (\<lambda>selected.
      Inr (dc_term entry, total, result\<lparr>sp_selected_positions := selected,
        sp_positions := select_positions wanted (sp_positions result) (dc_term entry) view\<rparr>)))))))"

definition selected_read :: "bytes \<Rightarrow> u32 \<Rightarrow> u32 \<Rightarrow> str list \<Rightarrow> selected_positions result" where
  "selected_read bytes expected_tokens expected_terms wanted =
     (if wanted = [] \<or> length wanted > 64 \<or> length bytes > MAX_DOCUMENT_BYTES then Inl (Limit ''selected positions'') else
      and_then (from_codec (reader_take (reader_new bytes) 4)) (\<lambda>(magic, reader).
      if magic \<noteq> PD02 then Inl InvalidProfile else
      and_then (from_codec (reader_u32 reader)) (\<lambda>(profile, reader).
      if profile \<noteq> PROFILE_ID then Inl InvalidProfile else
      and_then (from_codec (reader_u32 reader)) (\<lambda>(tokens, reader).
      and_then (from_codec (reader_u32 reader)) (\<lambda>(terms, reader).
      if tokens \<noteq> expected_tokens \<or> terms \<noteq> expected_terms \<or> tokens > MAX_DOCUMENT_TOKENS \<or> terms > tokens
      then Inl InvalidDocument else
      and_then (if terms = 0 then from_codec (reader_finish reader) else Inr ()) (\<lambda>_.
      and_then (for_items (selected_step wanted tokens)
        ([], 0, \<lparr>sp_positions = replicate (length wanted) None, sp_directory_terms = terms, sp_selected_positions = 0\<rparr>)
        (document_terms_items \<lparr>dm_reader = reader, dm_remaining = terms\<rparr>)) (\<lambda>(_, total, result).
      if total \<noteq> tokens then Inl InvalidDocument else Inr result)))))))"

definition selected_phrase_matches :: "selected_positions \<Rightarrow> bool result" where
  "selected_phrase_matches self = match_phrase (sp_positions self)"

section \<open>Term membership\<close>

record term_membership =
  tm_names :: "str option list"
  tm_order :: "nat list"

text \<open>
  The insertion loop: the entries of \<open>order\<close> in front of \<open>position\<close> are kept as a list, those behind
  it have been shifted.
\<close>

fun membership_place :: "str option list \<Rightarrow> str \<Rightarrow> nat list \<Rightarrow> nat list \<Rightarrow> (nat list \<times> nat list) result" where
  "membership_place names name [] shifted = Inr ([], shifted)"
| "membership_place names name (previous # before) shifted =
     and_then (ok_or InvalidState (names ! previous)) (\<lambda>previous_name.
     if previous_name \<le> name then Inr (previous # before, shifted)
     else membership_place names name before (previous # shifted))"

definition membership_insert :: "str option list \<Rightarrow> nat list \<Rightarrow> nat \<Rightarrow> nat list result" where
  "membership_insert names order index =
     (case names ! index of
        None \<Rightarrow> Inr order
      | Some name \<Rightarrow>
          and_then (membership_place names name (rev order) []) (\<lambda>(before, shifted).
          Inr (rev before @ [index] @ shifted)))"

definition membership_new :: "str option list \<Rightarrow> term_membership result" where
  "membership_new names =
     (if length names > 64 then Inl (Limit ''document membership'') else
      and_then (try_fold (membership_insert names) [] [0..<length names]) (\<lambda>order.
      Inr \<lparr>tm_names = names, tm_order = order\<rparr>))"

text \<open>The inner loop of \<open>read\<close> over the ordered names that are not behind the current term.\<close>

fun membership_advance :: "str option list \<Rightarrow> str \<Rightarrow> nat list \<Rightarrow> u64 \<Rightarrow> (nat list \<times> u64) result" where
  "membership_advance names text [] membership = Inr ([], membership)"
| "membership_advance names text (index # order) membership =
     and_then (ok_or InvalidState (names ! index)) (\<lambda>name.
     if name < text then membership_advance names text order membership
     else if name \<noteq> text then Inr (index # order, membership)
     else membership_advance names text order (membership OR push_bit index 1))"

definition membership_step ::
  "str option list \<Rightarrow> u32 \<Rightarrow> u64 \<times> nat list \<times> str option \<times> u32 \<times> reader \<Rightarrow> nat \<Rightarrow>
    (u64 \<times> nat list \<times> str option \<times> u32 \<times> reader) result" where
  "membership_step names tokens st _ =
     (let (membership, order, previous, ps, reader) = st in
      and_then (from_codec (reader_u16 reader)) (\<lambda>(len, reader).
      if len = 0 \<or> unat len > MAX_TERM_BYTES then Inl InvalidDocument else
      and_then (from_codec (reader_u16 reader)) (\<lambda>(zero, reader).
      if zero \<noteq> 0 then Inl InvalidDocument else
      and_then (from_codec (reader_u32 reader)) (\<lambda>(position_bytes, reader).
      and_then (from_codec (reader_take reader (unat len))) (\<lambda>(text, reader).
      and_then (from_utf8 InvalidDocument text) (\<lambda>text.
      if is_some_and previous (\<lambda>previous. previous \<ge> text) then Inl InvalidDocument else
      and_then (from_codec (reader_take reader (unat position_bytes))) (\<lambda>(stream, reader).
      and_then (from_codec (reader_u32 (reader_new stream))) (\<lambda>(count, encoded).
      if count = 0 \<or> count > tokens \<or> unat count > reader_remaining encoded then Inl InvalidDocument else
      and_then (ok_or InvalidDocument (checked_add_w ps count)) (\<lambda>ps.
      and_then (membership_advance names text order membership) (\<lambda>(order, membership).
      Inr (membership, order, Some text, ps, reader)))))))))))"

definition membership_read :: "term_membership \<Rightarrow> bytes \<Rightarrow> u32 \<Rightarrow> u32 \<Rightarrow> u64 result" where
  "membership_read self bytes expected_tokens expected_terms =
     (if length bytes > MAX_DOCUMENT_BYTES then Inl (Limit ''document membership'') else
      and_then (from_codec (reader_take (reader_new bytes) 4)) (\<lambda>(magic, reader).
      if magic \<noteq> PD02 then Inl InvalidProfile else
      and_then (from_codec (reader_u32 reader)) (\<lambda>(profile, reader).
      if profile \<noteq> PROFILE_ID then Inl InvalidProfile else
      and_then (from_codec (reader_u32 reader)) (\<lambda>(tokens, reader).
      and_then (from_codec (reader_u32 reader)) (\<lambda>(terms, reader).
      if tokens \<noteq> expected_tokens \<or> terms \<noteq> expected_terms \<or> tokens > MAX_DOCUMENT_TOKENS \<or> terms > tokens
      then Inl InvalidDocument else
      and_then (try_fold (membership_step (tm_names self) tokens) (0, tm_order self, None, 0, reader) [0..<unat terms])
        (\<lambda>(membership, _, _, ps, reader).
      and_then (from_codec (reader_finish reader)) (\<lambda>_.
      if ps \<noteq> tokens then Inl InvalidDocument else Inr membership)))))))"

end
