(* ===== verification/Publish.thy ===== *)
theory Publish
  imports Store Document
begin

text \<open>
  Publication of documents (crates/pin-core/src/mutable/writer.rs, with \<open>invalidate\<close> of
  mutable/grouped/anchors.rs): an owner slot is reserved, the payload is stored, every term is linked,
  and only the last commit makes the owner live.
\<close>

definition initialize :: "'s page_store \<Rightarrow> ('s, unit) io" where
  "initialize store =
     io_bind (ps_blocks store) (\<lambda>blocks.
     if blocks \<noteq> 0 then io_fail InvalidState else
     io_bind (allocate store) (\<lambda>block.
     if block \<noteq> 0 then io_fail InvalidState else
     (\<lambda>s. io_bind (io_lift (page_metadata (ps_layout store s))) (\<lambda>meta.
     io_bind (io_lift (if ps_packed_postings store s then page_enable_packed_postings meta else Inr meta)) (\<lambda>meta.
     ps_commit store [meta])) s)))"

definition invalidate :: "'s page_store \<Rightarrow> page \<Rightarrow> ('s, page) io" where
  "invalidate store meta =
     io_bind (io_lift (page_grouped_state meta)) (\<lambda>state.
     case gt_active state of
       Some active \<Rightarrow>
         if gn_frontier_valid active then
           io_bind (io_lift (page_set_grouped_state meta (state\<lparr>gt_active := Some (active\<lparr>gn_frontier_valid := False\<rparr>)\<rparr>))) (\<lambda>meta.
           io_bind (ps_commit store [meta]) (\<lambda>_.
           io_bind (ps_event store StFrontierInvalidated) (\<lambda>_. io_return meta)))
         else io_return meta
     | None \<Rightarrow> io_return meta)"

section \<open>Reserving an owner\<close>

definition append_document ::
  "page \<Rightarrow> incarnation \<Rightarrow> root_tid \<Rightarrow> prepared_document \<Rightarrow> (owner_ref option \<times> page) result" where
  "append_document page incarnation root document =
     page_append_owner page incarnation root (pd_tokens document) (pd_terms document) (pd_bytes document)"

text \<open>A fresh owner page with the document in its first slot.\<close>

definition fresh_owner_page ::
  "'s page_store \<Rightarrow> incarnation \<Rightarrow> root_tid \<Rightarrow> prepared_document \<Rightarrow> ('s, owner_ref \<times> page) io" where
  "fresh_owner_page store incarnation root document =
     io_bind (allocate store) (\<lambda>block.
     io_lift (and_then (page_owners block) (\<lambda>page.
     and_then (append_document page incarnation root document) (\<lambda>(owner, page).
     and_then (ok_or InvalidState owner) (\<lambda>owner. Inr (owner, page))))))"

definition reserve_owner ::
  "'s page_store \<Rightarrow> page \<Rightarrow> root_tid \<Rightarrow> prepared_document \<Rightarrow> ('s, owner_ref \<times> page) io" where
  "reserve_owner store meta root document =
     io_bind (io_lift (page_reserve_incarnation meta)) (\<lambda>(incarnation, meta).
     io_bind (io_lift (page_owner_chain meta)) (\<lambda>(head, tail).
     if head = NO_BLOCK then
       io_bind (fresh_owner_page store incarnation root document) (\<lambda>(owner, page).
       io_bind (io_lift (page_set_owner_chain meta (pg_block page) (pg_block page))) (\<lambda>meta.
       io_bind (ps_commit store [meta, page]) (\<lambda>_. io_return (owner, meta))))
     else
       io_bind (load store tail Owners) (\<lambda>page.
       io_bind (io_lift (append_document page incarnation root document)) (\<lambda>(owner, appended).
       case owner of
         Some owner \<Rightarrow> io_bind (ps_commit store [meta, appended]) (\<lambda>_. io_return (owner, meta))
       | None \<Rightarrow>
           io_bind (fresh_owner_page store incarnation root document) (\<lambda>(owner, nxt).
           io_bind (io_lift (page_set_next appended (pg_block nxt))) (\<lambda>page.
           io_bind (io_lift (page_set_owner_chain meta head (pg_block nxt))) (\<lambda>meta.
           io_bind (ps_commit store [meta, page, nxt]) (\<lambda>_. io_return (owner, meta)))))))))"

section \<open>Linking a term\<close>

text \<open>A fresh posting page of the given references.\<close>

definition fresh_posting_page :: "'s page_store \<Rightarrow> term_ref \<Rightarrow> owner_ref list \<Rightarrow> ('s, page) io" where
  "fresh_posting_page store reference owners =
     io_bind (allocate store) (\<lambda>block.
     io_lift (and_then (page_postings block reference) (\<lambda>page.
     try_fold (\<lambda>page owner.
       and_then (page_append_posting page owner) (\<lambda>(room, page). if room then Inr page else Inl InvalidState)) page owners)))"

definition extend_term :: "'s page_store \<Rightarrow> page \<Rightarrow> page \<Rightarrow> term_ref \<Rightarrow> owner_ref \<Rightarrow> ('s, page) io" where
  "extend_term store meta dictionary reference owner =
     io_bind (io_lift (page_term dictionary reference)) (\<lambda>entry.
     case te_inline_second entry of
       Some second \<Rightarrow>
         io_bind (invalidate store meta) (\<lambda>meta.
         io_bind (fresh_posting_page store reference [second, owner]) (\<lambda>page.
         io_bind (io_lift (page_promote_inline_second dictionary reference (pg_block page))) (\<lambda>(_, dictionary).
         io_bind (ps_commit store [dictionary, page]) (\<lambda>_. io_return meta))))
     | None \<Rightarrow>
         if te_head entry = NO_BLOCK then
           if page_packed_dictionary_format dictionary then
             io_bind (io_lift (page_set_inline_second dictionary reference (Some owner))) (\<lambda>dictionary.
             io_bind (ps_commit store [dictionary]) (\<lambda>_. io_return meta))
           else
             io_bind (fresh_posting_page store reference [owner]) (\<lambda>page.
             io_bind (io_lift (page_set_posting_chain dictionary reference (pg_block page) (pg_block page))) (\<lambda>dictionary.
             io_bind (ps_commit store [dictionary, page]) (\<lambda>_. io_return meta)))
         else
           io_bind (load_posting store (te_tail entry) reference) (\<lambda>page.
           io_bind (io_lift (page_next page)) (\<lambda>nxt.
           if nxt \<noteq> NO_BLOCK then io_fail InvalidState else
           io_bind (io_lift (if pg_kind page = Postings then page_append_posting page owner else Inr (False, page))) (\<lambda>(room, page).
           if room then io_bind (ps_commit store [page]) (\<lambda>_. io_return meta) else
           io_bind (fresh_posting_page store reference [owner]) (\<lambda>fresh.
           io_bind (io_lift (page_set_next page (pg_block fresh))) (\<lambda>page.
           io_bind (io_lift (page_set_posting_chain dictionary reference (te_head entry) (pg_block fresh))) (\<lambda>dictionary.
           io_bind (ps_commit store [dictionary, page, fresh]) (\<lambda>_. io_return meta))))))))"

definition fresh_dictionary_page :: "'s page_store \<Rightarrow> page \<Rightarrow> str \<Rightarrow> owner_ref \<Rightarrow> ('s, page) io" where
  "fresh_dictionary_page store meta text owner =
     io_bind (io_lift (page_packed_postings meta)) (\<lambda>packed.
     io_bind (allocate store) (\<lambda>block.
     io_lift (and_then (if packed then page_packed_dictionary block else page_dictionary block) (\<lambda>page.
     and_then (page_append_term page text owner) (\<lambda>(reference, page).
     and_then (ok_or InvalidState reference) (\<lambda>_. Inr page))))))"

definition add_term :: "'s page_store \<Rightarrow> page \<Rightarrow> str \<Rightarrow> owner_ref \<Rightarrow> ('s, page) io" where
  "add_term store meta text owner =
     (let bucket = bucket_for text in
      io_bind (io_lift (page_bucket meta bucket)) (\<lambda>(head, tail).
      if head = NO_BLOCK then
        io_bind (fresh_dictionary_page store meta text owner) (\<lambda>page.
        io_bind (io_lift (page_set_bucket meta bucket (pg_block page) (pg_block page))) (\<lambda>meta.
        io_bind (ps_commit store [meta, page]) (\<lambda>_. io_return meta)))
      else
        io_bind (load store tail DictionaryPage) (\<lambda>page.
        io_bind (io_lift (page_append_term page text owner)) (\<lambda>(reference, page).
        if reference \<noteq> None then io_bind (ps_commit store [page]) (\<lambda>_. io_return meta) else
        io_bind (fresh_dictionary_page store meta text owner) (\<lambda>nxt.
        io_bind (io_lift (page_set_next page (pg_block nxt))) (\<lambda>page.
        io_bind (io_lift (page_set_bucket meta bucket head (pg_block nxt))) (\<lambda>meta.
        io_bind (ps_commit store [meta, page, nxt]) (\<lambda>_. io_return meta))))))))"

definition link_term :: "'s page_store \<Rightarrow> page \<Rightarrow> str \<Rightarrow> owner_ref \<Rightarrow> ('s, page) io" where
  "link_term store meta text owner =
     io_bind (find_term store meta text) (\<lambda>found.
     case found of
       Some (dictionary, reference) \<Rightarrow> extend_term store meta dictionary reference owner
     | None \<Rightarrow> add_term store meta text owner)"

section \<open>Insertion\<close>

text \<open>One fragment; the meta image, the chain built so far and the index from the end.\<close>

definition store_fragment ::
  "'s page_store \<Rightarrow> owner_ref \<Rightarrow> bytes \<Rightarrow> page \<times> u32 \<Rightarrow> nat \<Rightarrow> ('s, page \<times> u32) io" where
  "store_fragment store owner bytes st index =
     (let (meta, data_head) = st; offset = index * FRAGMENT_BYTES; e = min (offset + FRAGMENT_BYTES) (length bytes) in
      io_bind (io_lift (page_free_head meta)) (\<lambda>free.
      io_bind (if free = NO_BLOCK then io_bind (allocate store) (\<lambda>block. io_return (block, meta))
        else io_bind (load store free Free) (\<lambda>page.
          io_lift (and_then (page_next page) (\<lambda>nxt. and_then (page_set_free_head meta nxt) (\<lambda>meta. Inr (free, meta)))))) (\<lambda>(block, meta).
      io_bind (io_lift (page_fragment block owner data_head (of_nat offset) (take (e - offset) (drop offset bytes)))) (\<lambda>page.
      io_bind (if free = NO_BLOCK then ps_commit store [page] else ps_commit store [meta, page]) (\<lambda>_.
      io_bind (ps_event store StFragmentStored) (\<lambda>_. io_return (meta, block)))))))"

definition store_payload :: "'s page_store \<Rightarrow> page \<Rightarrow> owner_ref \<Rightarrow> bytes \<Rightarrow> ('s, page \<times> u32) io" where
  "store_payload store meta owner bytes =
     (if length bytes > INLINE_BYTES then
        io_fold (store_fragment store owner bytes) (meta, NO_BLOCK) (rev [0..<div_ceil (length bytes) FRAGMENT_BYTES])
      else io_return (meta, NO_BLOCK))"

definition change_stored_owner :: "'s page_store \<Rightarrow> owner_ref \<Rightarrow> owner_change \<Rightarrow> ('s, unit) io" where
  "change_stored_owner store owner change =
     io_bind (load store (or_page owner) Owners) (\<lambda>owners.
     (\<lambda>s. io_bind (io_lift (page_change_owner owners owner change (ps_layout store s))) (\<lambda>owners.
     ps_commit store [owners]) s))"

definition insert_document :: "'s page_store \<Rightarrow> root_tid \<Rightarrow> prepared_document \<Rightarrow> ('s, owner_ref) io" where
  "insert_document store root document =
     io_bind (load store 0 Meta) (\<lambda>meta.
     io_bind (reserve_owner store meta root document) (\<lambda>(owner, meta).
     io_bind (ps_event store StOwnerReserved) (\<lambda>_.
     io_bind (store_payload store meta owner (pd_bytes document)) (\<lambda>(meta, data_head).
     io_bind (change_stored_owner store owner (PayloadReady data_head)) (\<lambda>_.
     io_bind (ps_event store StPayloadReady) (\<lambda>_.
     io_bind (io_items (\<lambda>meta entry.
         io_bind (link_term store meta (dc_term entry) owner) (\<lambda>meta.
         io_bind (ps_event store StTermLinked) (\<lambda>_. io_return meta)))
       meta (document_terms_items (prepared_terms document))) (\<lambda>_.
     io_bind (change_stored_owner store owner Publish) (\<lambda>_.
     io_bind (ps_event store StPublished) (\<lambda>_. io_return owner)))))))))"

end
