(* ===== verification/Compact.thy ===== *)
theory Compact
  imports Publish Chains
begin

text \<open>
  Replacement of posting chains (crates/pin-core/src/mutable/compact.rs): a chain is inspected, its live
  references are copied into sealed pages that a journal in the metapage owns, one commit switches the
  dictionary to them and turns the journal on the old chain, and recovery frees what the journal owns.
\<close>

section \<open>Data\<close>

datatype compact_mode = Copy | RetainSealedPrefix | DirectTid

record compact_stats =
  cs_rewritten_terms :: u64
  cs_removed_postings :: u64
  cs_written_pages :: u32
  cs_reused_pages :: u32
  cs_reclaimed_pages :: u32
  cs_retained_pages :: u32

definition compact_stats_default :: compact_stats where
  "compact_stats_default = \<lparr>cs_rewritten_terms = 0, cs_removed_postings = 0, cs_written_pages = 0, cs_reused_pages = 0,
     cs_reclaimed_pages = 0, cs_retained_pages = 0\<rparr>"

record retained_prefix =
  rp_boundary :: u32
  rp_rewrite_head :: u32
  rp_pages :: u32

record chain_stats =
  cn_mutable_pages :: u32
  cn_indirect_pages :: u32
  cn_dead :: u64
  cn_prefix :: "retained_prefix option"

definition chain_stats_default :: chain_stats where
  "chain_stats_default = \<lparr>cn_mutable_pages = 0, cn_indirect_pages = 0, cn_dead = 0, cn_prefix = None\<rparr>"

section \<open>Inspection\<close>

record inspection =
  in_stats :: chain_stats
  in_previous :: "owner_ref option"
  in_cache :: "page option"
  in_prefix_open :: bool
  in_prefix_tail :: "u32 option"
  in_prefix_pages :: u32

definition inspect_reference ::
  "'s page_store \<Rightarrow> bool \<Rightarrow> bool \<times> inspection \<Rightarrow> owner_ref \<Rightarrow> ('s, bool \<times> inspection) io" where
  "inspect_reference store liveness st reference =
     (let (page_live, st) = st in
      if is_some_and (in_previous st) (\<lambda>previous. not_after reference previous) then io_fail InvalidState else
      let st = st\<lparr>in_previous := Some reference\<rparr> in
      if \<not> liveness then io_return (page_live, st) else
      io_bind (resolve store (in_cache st) reference) (\<lambda>(root, cache).
      let st = st\<lparr>in_cache := cache\<rparr> in
      if root = None then
        io_return (False, st\<lparr>in_stats := (in_stats st)\<lparr>cn_dead := cn_dead (in_stats st) + 1\<rparr>\<rparr>)
      else io_return (page_live, st)))"

definition inspect_prefix :: "u32 \<Rightarrow> bool \<Rightarrow> inspection \<Rightarrow> inspection result" where
  "inspect_prefix block page_live st =
     (if in_prefix_open st \<and> page_live then
        let st = st\<lparr>in_stats := (in_stats st)\<lparr>cn_prefix := map_option (\<lambda>boundary.
              \<lparr>rp_boundary = boundary, rp_rewrite_head = block, rp_pages = in_prefix_pages st\<rparr>) (in_prefix_tail st)\<rparr>,
            in_prefix_tail := Some block\<rparr> in
        and_then (ok_or (Limit ''compaction pages'') (checked_add_w (in_prefix_pages st) 1)) (\<lambda>pages.
        Inr (st\<lparr>in_prefix_pages := pages\<rparr>))
      else Inr (st\<lparr>in_prefix_open := False\<rparr>))"

definition inspect_page :: "'s page_store \<Rightarrow> bool \<Rightarrow> inspection \<Rightarrow> page \<Rightarrow> ('s, inspection) io" where
  "inspect_page store liveness st page =
     (let stats = in_stats st;
          st = st\<lparr>in_stats := stats\<lparr>cn_mutable_pages := cn_mutable_pages stats + (if pg_kind page = Postings then 1 else 0),
            cn_indirect_pages := cn_indirect_pages stats + (if pg_kind page \<noteq> DirectPostings then 1 else 0)\<rparr>\<rparr> in
      io_bind (io_lift (page_posting_refs page)) (\<lambda>it.
      io_bind (io_items (inspect_reference store liveness) (pg_kind page = SealedPostings, st) (postings_items it)) (\<lambda>(page_live, st).
      io_lift (inspect_prefix (pg_block page) page_live st))))"

text \<open>The loop: the last page of the chain must be its end.\<close>

function inspect_loop ::
  "'s page_store \<Rightarrow> term_ref \<Rightarrow> bool \<Rightarrow> u32 \<Rightarrow> u32 \<Rightarrow> inspection \<Rightarrow> u32 \<Rightarrow> 's \<Rightarrow> inspection result \<times> 's" where
  "inspect_loop store posted liveness tail remaining st block s =
     io_bind (load_posting store block posted) (\<lambda>page.
     io_bind (inspect_page store liveness st page) (\<lambda>st.
     io_bind (io_lift (posting_next page tail remaining)) (\<lambda>(nxt, remaining).
     case nxt of
       Some nxt \<Rightarrow> inspect_loop store posted liveness tail remaining st nxt
     | None \<Rightarrow>
         io_bind (io_lift (page_next page)) (\<lambda>nxt.
         if nxt \<noteq> NO_BLOCK then io_fail InvalidState else io_return st)))) s"
  by pat_completeness auto
termination
  by (relation "measure (\<lambda>(store, posted, liveness, tail, remaining, st, block, s). unat remaining)")
    (auto dest!: posting_next_remaining)

declare inspect_loop.simps [simp del]

definition inspect ::
  "'s page_store \<Rightarrow> term_ref \<Rightarrow> u32 \<Rightarrow> u32 \<Rightarrow> owner_ref option \<Rightarrow> bool \<Rightarrow> ('s, chain_stats) io" where
  "inspect store posted head tail previous liveness =
     (if head = NO_BLOCK then
        (if tail \<noteq> NO_BLOCK then io_fail InvalidState else io_return chain_stats_default)
      else
      io_bind (ps_blocks store) (\<lambda>remaining.
      io_bind (inspect_loop store posted liveness tail remaining \<lparr>in_stats = chain_stats_default, in_previous = previous,
        in_cache = None, in_prefix_open = liveness, in_prefix_tail = None, in_prefix_pages = 0\<rparr> head) (\<lambda>st.
      io_return (in_stats st))))"

section \<open>Rewriting\<close>

definition output_block :: "'s page_store \<Rightarrow> page \<Rightarrow> ('s, u32 \<times> page) io" where
  "output_block store meta =
     io_bind (io_lift (page_free_head meta)) (\<lambda>free.
     if free = NO_BLOCK then io_bind (allocate store) (\<lambda>block. io_return (block, meta))
     else io_bind (load store free Free) (\<lambda>page.
       io_lift (and_then (page_next page) (\<lambda>nxt. and_then (page_set_free_head meta nxt) (\<lambda>meta. Inr (free, meta))))))"

definition persist_output :: "'s page_store \<Rightarrow> page \<Rightarrow> page \<Rightarrow> ('s, page) io" where
  "persist_output store meta page =
     io_bind (io_bind (io_lift (page_rewrite_journal meta)) (\<lambda>journal.
       case journal of
         None \<Rightarrow>
           io_bind (io_lift (page_set_rewrite_journal meta
             (Some \<lparr>rj_head = pg_block page, rj_tail = pg_block page, rj_phase = Building\<rparr>))) (\<lambda>meta.
           io_bind (ps_commit store [meta, page]) (\<lambda>_. io_return meta))
       | Some journal \<Rightarrow>
           if rj_phase journal \<noteq> Building then io_fail InvalidState else
           io_bind (io_lift (page_posting_term page)) (\<lambda>posted.
           io_bind (load_posting store (rj_tail journal) posted) (\<lambda>previous.
           io_bind (io_lift (page_next previous)) (\<lambda>nxt.
           if nxt \<noteq> NO_BLOCK \<or> \<not> sealed_page previous then io_fail InvalidState else
           io_bind (io_lift (page_set_next previous (pg_block page))) (\<lambda>previous.
           io_bind (io_lift (page_set_rewrite_journal meta (Some (journal\<lparr>rj_tail := pg_block page\<rparr>)))) (\<lambda>meta.
           io_bind (ps_commit store [meta, previous, page]) (\<lambda>_. io_return meta))))))))
     (\<lambda>meta. io_bind (ps_event store StSegmentStored) (\<lambda>_. io_return meta))"

record rewriting =
  rw_meta :: page
  rw_cache :: "page option"
  rw_output :: "sealed_builder option"
  rw_written :: u32
  rw_reused :: u32

definition builder_push :: "bool \<Rightarrow> sealed_builder \<Rightarrow> owner_ref \<Rightarrow> root_tid \<Rightarrow> (bool \<times> sealed_builder) result" where
  "builder_push direct builder reference root =
     (if direct then sealed_push_direct builder reference root else sealed_push builder reference)"

text \<open>A fresh output page for a reference that no open page has room for.\<close>

definition open_output ::
  "'s page_store \<Rightarrow> term_ref \<Rightarrow> bool \<Rightarrow> rewriting \<Rightarrow> owner_ref \<Rightarrow> root_tid \<Rightarrow> ('s, rewriting) io" where
  "open_output store posted direct st reference root =
     io_bind (io_lift (page_free_head (rw_meta st))) (\<lambda>free.
     let reused = rw_reused st + (if free \<noteq> NO_BLOCK then 1 else 0) in
     io_bind (output_block store (rw_meta st)) (\<lambda>(block, meta).
     io_bind (io_lift (if direct then sealed_new_direct block posted else sealed_new block posted)) (\<lambda>builder.
     io_bind (io_lift (builder_push direct builder reference root)) (\<lambda>(room, builder).
     if \<not> room then io_fail InvalidState
     else io_return (st\<lparr>rw_meta := meta, rw_output := Some builder, rw_reused := reused\<rparr>)))))"

definition close_output :: "'s page_store \<Rightarrow> rewriting \<Rightarrow> sealed_builder \<Rightarrow> ('s, rewriting) io" where
  "close_output store st builder =
     io_bind (io_lift (sealed_finish builder)) (\<lambda>page.
     io_bind (persist_output store (rw_meta st) page) (\<lambda>meta.
     io_return (st\<lparr>rw_meta := meta, rw_output := None, rw_written := rw_written st + 1\<rparr>)))"

definition rewrite_reference ::
  "'s page_store \<Rightarrow> term_ref \<Rightarrow> bool \<Rightarrow> rewriting \<Rightarrow> owner_ref \<Rightarrow> ('s, rewriting) io" where
  "rewrite_reference store posted direct st reference =
     io_bind (resolve store (rw_cache st) reference) (\<lambda>(root, cache).
     let st = st\<lparr>rw_cache := cache\<rparr> in
     case root of
       None \<Rightarrow> io_return st
     | Some root \<Rightarrow>
         (case rw_output st of
            Some builder \<Rightarrow>
              io_bind (io_lift (builder_push direct builder reference root)) (\<lambda>(room, builder).
              if room then io_return (st\<lparr>rw_output := Some builder\<rparr>) else
              io_bind (close_output store st builder) (\<lambda>st. open_output store posted direct st reference root))
          | None \<Rightarrow> open_output store posted direct st reference root))"

definition rewrite_page :: "'s page_store \<Rightarrow> term_ref \<Rightarrow> bool \<Rightarrow> rewriting \<Rightarrow> page \<Rightarrow> ('s, rewriting) io" where
  "rewrite_page store posted direct st page =
     io_bind (io_lift (page_posting_refs page)) (\<lambda>it. io_items (rewrite_reference store posted direct) st (postings_items it))"

text \<open>The publication at the end of \<open>rewrite\<close>.\<close>

definition publish_rewrite ::
  "'s page_store \<Rightarrow> page \<Rightarrow> term_ref \<Rightarrow> u32 \<Rightarrow> u32 \<Rightarrow> u32 \<Rightarrow> retained_prefix option \<Rightarrow> ('s, page) io" where
  "publish_rewrite store meta posted head tail rewrite_head prefix =
     io_bind (io_lift (page_rewrite_journal meta)) (\<lambda>replacement.
     io_bind (load store (tr_page posted) DictionaryPage) (\<lambda>dictionary.
     io_bind (io_lift (page_term dictionary posted)) (\<lambda>current.
     if \<not> (te_head current = head \<and> te_tail current = tail) then io_fail InvalidState else
     io_bind (io_lift (case replacement of
         Some journal \<Rightarrow> if rj_phase journal = Building then Inr (rj_head journal, rj_tail journal) else Inl InvalidState
       | None \<Rightarrow> Inr (NO_BLOCK, NO_BLOCK))) (\<lambda>(new_head, new_tail).
     io_bind (io_lift (page_set_rewrite_journal meta (Some \<lparr>rj_head = rewrite_head, rj_tail = tail, rj_phase = Retiring\<rparr>))) (\<lambda>meta.
     case prefix of
       Some prefix \<Rightarrow>
         io_bind (load_posting store (rp_boundary prefix) posted) (\<lambda>boundary.
         io_bind (io_lift (if pg_kind boundary \<noteq> SealedPostings then Inl InvalidState else page_next boundary)) (\<lambda>nxt.
         if nxt \<noteq> rewrite_head then io_fail InvalidState else
         io_bind (io_lift (page_set_next boundary new_head)) (\<lambda>boundary.
         io_bind (io_lift (page_set_posting_chain dictionary posted head
           (if new_tail = NO_BLOCK then rp_boundary prefix else new_tail))) (\<lambda>dictionary.
         io_bind (ps_commit store [meta, dictionary, boundary]) (\<lambda>_. io_return meta)))))
     | None \<Rightarrow>
         io_bind (io_lift (page_set_posting_chain dictionary posted new_head new_tail)) (\<lambda>dictionary.
         io_bind (ps_commit store [meta, dictionary]) (\<lambda>_. io_return meta)))))))"

definition rewrite ::
  "'s page_store \<Rightarrow> page \<Rightarrow> term_ref \<Rightarrow> u32 \<Rightarrow> u32 \<Rightarrow> retained_prefix option \<Rightarrow> bool \<Rightarrow> ('s, (u32 \<times> u32) \<times> page) io" where
  "rewrite store meta posted head tail prefix direct =
     io_bind (io_lift (page_rewrite_journal meta)) (\<lambda>journal.
     if journal \<noteq> None then io_fail InvalidState else
     let rewrite_head = (case prefix of None \<Rightarrow> head | Some prefix \<Rightarrow> rp_rewrite_head prefix) in
     io_bind (ps_blocks store) (\<lambda>remaining.
     io_bind (walk_postings store posted (rewrite_page store posted direct) tail remaining
       \<lparr>rw_meta = meta, rw_cache = None, rw_output = None, rw_written = 0, rw_reused = 0\<rparr> rewrite_head) (\<lambda>st.
     io_bind (case rw_output st of Some builder \<Rightarrow> close_output store st builder | None \<Rightarrow> io_return st) (\<lambda>st.
     io_bind (publish_rewrite store (rw_meta st) posted head tail rewrite_head prefix) (\<lambda>meta.
     io_bind (ps_event store StReplacementPublished) (\<lambda>_.
     io_return ((rw_written st, rw_reused st), meta)))))))"

section \<open>Recovery\<close>

text \<open>The reclaiming loop: two retired pages and the metapage fit one batch.\<close>

function reclaim_loop ::
  "'s page_store \<Rightarrow> term_ref \<Rightarrow> rewrite_journal \<Rightarrow> page \<Rightarrow> u32 \<Rightarrow> u32 \<Rightarrow> u32 \<Rightarrow> 's \<Rightarrow> u32 result \<times> 's" where
  "reclaim_loop store posted journal meta remaining reclaimed block s =
     io_bind (load_posting store block posted) (\<lambda>page.
     io_bind (io_lift (posting_next page (rj_tail journal) remaining)) (\<lambda>(nxt, remaining).
     io_bind (io_lift (and_then (page_free_head meta) (page_free block))) (\<lambda>free.
     \<lambda>s. case nxt of
       None \<Rightarrow>
         io_bind (io_lift (and_then (page_set_rewrite_journal meta None) (\<lambda>meta. page_set_free_head meta block))) (\<lambda>meta.
         io_bind (ps_commit store [meta, free]) (\<lambda>_.
         io_bind (ps_event store StSegmentReclaimed) (\<lambda>_. io_return (reclaimed + 1)))) s
     | Some second_block \<Rightarrow>
         io_bind (load_posting store second_block posted) (\<lambda>second.
         io_bind (io_lift (posting_next second (rj_tail journal) remaining)) (\<lambda>(nxt, remaining).
         io_bind (io_lift (page_free second_block block)) (\<lambda>second_free.
         io_bind (io_lift (and_then (page_set_rewrite_journal meta (map_option (\<lambda>head. journal\<lparr>rj_head := head\<rparr>) nxt))
           (\<lambda>meta. page_set_free_head meta second_block))) (\<lambda>meta.
         io_bind (ps_commit store [meta, free, second_free]) (\<lambda>_.
         io_bind (ps_event store StSegmentReclaimed) (\<lambda>_.
         case nxt of
           Some nxt \<Rightarrow> reclaim_loop store posted journal meta remaining (reclaimed + 2) nxt
         | None \<Rightarrow> io_return (reclaimed + 2))))))) s))) s"
  by pat_completeness auto
termination
  by (relation "measure (\<lambda>(store, posted, journal, meta, remaining, reclaimed, block, s). unat remaining)")
    (auto dest!: posting_next_remaining)

declare reclaim_loop.simps [simp del]

definition recover :: "'s page_store \<Rightarrow> ('s, u32) io" where
  "recover store =
     io_bind (load store 0 Meta) (\<lambda>meta.
     io_bind (io_lift (page_rewrite_journal meta)) (\<lambda>journal.
     case journal of
       None \<Rightarrow> io_return 0
     | Some journal \<Rightarrow>
         io_bind (io_lift (page_grouped_state meta)) (\<lambda>state.
         if is_some_and (gt_active state) gn_frontier_valid then io_fail InvalidState else
         io_bind (load_any store (rj_head journal)) (\<lambda>first.
         io_bind (io_lift (page_posting_term first)) (\<lambda>posted.
         io_bind (load store (tr_page posted) DictionaryPage) (\<lambda>dictionary.
         io_bind (io_lift (page_term dictionary posted)) (\<lambda>active.
         io_bind (inspect store posted (rj_head journal) (rj_tail journal) None False) (\<lambda>_.
         io_bind (inspect store posted (te_head active) (te_tail active) (Some (te_first active)) False) (\<lambda>_.
         if te_tail active = rj_tail journal then io_fail InvalidState else
         io_bind (ps_blocks store) (\<lambda>remaining.
         reclaim_loop store posted journal meta remaining 0 (rj_head journal)))))))))))"

section \<open>Compaction\<close>

definition add_pages :: "u32 \<Rightarrow> u32 \<Rightarrow> u32 result" where
  "add_pages a b = ok_or (Limit ''compaction pages'') (checked_add_w a b)"

definition compact_inline ::
  "'s page_store \<Rightarrow> u32 \<Rightarrow> dict_term \<Rightarrow> owner_ref \<Rightarrow> compact_stats \<times> page \<Rightarrow> ('s, compact_stats \<times> page) io" where
  "compact_inline store block entry second st =
     (let (stats, meta) = st in
      io_bind (resolve store None second) (\<lambda>(root, _).
      if root \<noteq> None then io_return (stats, meta) else
      io_bind (invalidate store meta) (\<lambda>meta.
      io_bind (load store block DictionaryPage) (\<lambda>current.
      io_bind (io_lift (page_term current (te_reference entry))) (\<lambda>reread.
      if te_inline_second reread \<noteq> Some second then io_fail InvalidState else
      io_bind (io_lift (page_set_inline_second current (te_reference entry) None)) (\<lambda>current.
      io_bind (ps_commit store [current]) (\<lambda>_.
      io_return (stats\<lparr>cs_removed_postings := cs_removed_postings stats + 1,
        cs_rewritten_terms := cs_rewritten_terms stats + 1\<rparr>, meta))))))))"

definition compact_chain ::
  "'s page_store \<Rightarrow> compact_mode \<Rightarrow> dict_term \<Rightarrow> compact_stats \<times> page \<Rightarrow> ('s, compact_stats \<times> page) io" where
  "compact_chain store mode entry st =
     (let (stats, meta) = st in
      io_bind (inspect store (te_reference entry) (te_head entry) (te_tail entry) (Some (te_first entry)) True) (\<lambda>summary.
      if cn_mutable_pages summary = 0 \<and> cn_dead summary = 0 \<and> \<not> (mode = DirectTid \<and> cn_indirect_pages summary \<noteq> 0)
      then io_return (stats, meta) else
      let prefix = (if mode = RetainSealedPrefix then cn_prefix summary else None) in
      io_bind (invalidate store meta) (\<lambda>meta.
      io_bind (rewrite store meta (te_reference entry) (te_head entry) (te_tail entry) prefix (mode = DirectTid))
        (\<lambda>((written, reused), meta).
      io_bind (io_lift (add_pages (cs_retained_pages stats) (case prefix of None \<Rightarrow> 0 | Some p \<Rightarrow> rp_pages p))) (\<lambda>retained_pages.
      io_bind (io_lift (add_pages (cs_written_pages stats) written)) (\<lambda>written_pages.
      io_bind (io_lift (add_pages (cs_reused_pages stats) reused)) (\<lambda>reused_pages.
      io_bind (io_lift (ok_or (Limit ''compaction postings'') (checked_add_w (cs_removed_postings stats) (cn_dead summary)))) (\<lambda>removed.
      io_bind (recover store) (\<lambda>recovered.
      io_bind (io_lift (add_pages (cs_reclaimed_pages stats) recovered)) (\<lambda>reclaimed.
      io_bind (load store 0 Meta) (\<lambda>meta.
      io_return (\<lparr>cs_rewritten_terms = cs_rewritten_terms stats + 1, cs_removed_postings = removed, cs_written_pages = written_pages,
        cs_reused_pages = reused_pages, cs_reclaimed_pages = reclaimed, cs_retained_pages = retained_pages\<rparr>, meta))))))))))))"

definition compact_entry ::
  "'s page_store \<Rightarrow> compact_mode \<Rightarrow> nat \<Rightarrow> u32 \<Rightarrow> compact_stats \<times> page \<Rightarrow> dict_term \<Rightarrow> ('s, compact_stats \<times> page) io" where
  "compact_entry store mode bucket block st entry =
     (if bucket_for (te_term entry) \<noteq> bucket then io_fail InvalidState else
      if te_head entry = NO_BLOCK then io_return st else
      case te_inline_second entry of
        Some second \<Rightarrow> compact_inline store block entry second st
      | None \<Rightarrow> compact_chain store mode entry st)"

function compact_dictionary ::
  "'s page_store \<Rightarrow> compact_mode \<Rightarrow> nat \<Rightarrow> u32 \<Rightarrow> compact_stats \<times> page \<Rightarrow> u32 \<Rightarrow> 's \<Rightarrow> (compact_stats \<times> page) result \<times> 's" where
  "compact_dictionary store mode bucket tail st block s =
     io_bind (load store block DictionaryPage) (\<lambda>dictionary.
     io_bind (io_lift (page_terms dictionary)) (\<lambda>it.
     io_bind (io_items (compact_entry store mode bucket block) st (terms_items it)) (\<lambda>st.
     io_bind (io_lift (following dictionary tail)) (\<lambda>nxt.
     case nxt of Some nxt \<Rightarrow> compact_dictionary store mode bucket tail st nxt | None \<Rightarrow> io_return st)))) s"
  by pat_completeness auto
termination
  by (relation "measure (\<lambda>(store, mode, bucket, tail, st, block, s). 2 ^ 32 - unat block)")
    (auto dest!: load_block following_Some simp: word_less_nat_alt intro!: diff_less_mono2 unat_lt2p[where 'a = 32, simplified])

declare compact_dictionary.simps [simp del]

definition compact_bucket ::
  "'s page_store \<Rightarrow> compact_mode \<Rightarrow> compact_stats \<times> page \<Rightarrow> nat \<Rightarrow> ('s, compact_stats \<times> page) io" where
  "compact_bucket store mode st bucket =
     io_bind (ps_interrupt store) (\<lambda>_.
     io_bind (io_lift (page_bucket (snd st) bucket)) (\<lambda>(head, tail).
     if head = NO_BLOCK then io_return st else compact_dictionary store mode bucket tail st head))"

definition compact_with_mode :: "'s page_store \<Rightarrow> compact_mode \<Rightarrow> ('s, compact_stats) io" where
  "compact_with_mode store mode =
     io_bind (recover store) (\<lambda>reclaimed.
     io_bind (load store 0 Meta) (\<lambda>meta.
     io_bind (io_fold (compact_bucket store mode) (compact_stats_default\<lparr>cs_reclaimed_pages := reclaimed\<rparr>, meta) [0..<BUCKETS])
       (\<lambda>(stats, _). io_return stats)))"

definition compact :: "'s page_store \<Rightarrow> ('s, compact_stats) io" where
  "compact store = compact_with_mode store Copy"

end
