(* ===== verification/OwnerPages.thy ===== *)
theory OwnerPages
  imports PageLaws PageValidate
begin

text \<open>
  Owner pages as lists of owners: a validated owner page holds exactly one list, every slot decodes to
  its element, appending adds one element and a change updates one, and both keep the page valid.
\<close>

section \<open>Slot records\<close>

record slot_fields =
  sf_incarnation :: u64
  sf_block :: u32
  sf_offset :: u16
  sf_state :: u8
  sf_live :: u8
  sf_tokens :: u32
  sf_terms :: u32
  sf_head :: u32
  sf_bytes :: u32
  sf_inline_offset :: u16
  sf_inline_len :: u16
  sf_zero :: u32

definition slot_bytes :: "slot_fields \<Rightarrow> bytes" where
  "slot_bytes f =
     le_bytes 8 (sf_incarnation f) @ le_bytes 4 (sf_block f) @ le_bytes 2 (sf_offset f) @ [sf_state f] @ [sf_live f] @
     le_bytes 4 (sf_tokens f) @ le_bytes 4 (sf_terms f) @ le_bytes 4 (sf_head f) @ le_bytes 4 (sf_bytes f) @
     le_bytes 2 (sf_inline_offset f) @ le_bytes 2 (sf_inline_len f) @ le_bytes 4 (sf_zero f)"

lemma length_slot_bytes [simp]: "length (slot_bytes f) = 40"
  by (simp add: slot_bytes_def)

lemma slot_bytes_cases:
  assumes "length bs = 40"
  obtains f where "bs = slot_bytes f"
proof
  have piece: "le_bytes n (from_le (take n (drop k bs)) :: 'a::len word) = take n (drop k bs)"
    if "LENGTH('a) = 8 * n" "k + n \<le> 40" for k n
    using that assms by (intro le_bytes_from_le) simp_all
  let ?f = "\<lparr>sf_incarnation = from_le (take 8 (drop 0 bs)), sf_block = from_le (take 4 (drop 8 bs)), sf_offset = from_le (take 2 (drop 12 bs)),
      sf_state = bs ! 14, sf_live = bs ! 15, sf_tokens = from_le (take 4 (drop 16 bs)), sf_terms = from_le (take 4 (drop 20 bs)),
      sf_head = from_le (take 4 (drop 24 bs)), sf_bytes = from_le (take 4 (drop 28 bs)), sf_inline_offset = from_le (take 2 (drop 32 bs)),
      sf_inline_len = from_le (take 2 (drop 34 bs)), sf_zero = from_le (take 4 (drop 36 bs))\<rparr>"
  have join: "take n (drop k bs) @ drop (k + n) bs = drop k bs" for n k
    by (metis append_take_drop_id drop_drop add.commute)
  have one: "[bs ! k] = take 1 (drop k bs)" if "k < 40" for k
    using that assms by (simp add: take_Suc hd_drop_conv_nth)
  have "slot_bytes ?f = take 8 (drop 0 bs) @ take 4 (drop 8 bs) @ take 2 (drop 12 bs) @ take 1 (drop 14 bs) @ take 1 (drop 15 bs) @
      take 4 (drop 16 bs) @ take 4 (drop 20 bs) @ take 4 (drop 24 bs) @ take 4 (drop 28 bs) @ take 2 (drop 32 bs) @
      take 2 (drop 34 bs) @ take 4 (drop 36 bs)"
    by (simp only: slot_bytes_def slot_fields.simps) (simp add: piece one le_bytes_take le_bytes_from_le assms)
  also have "take 4 (drop 36 bs) = drop 36 bs" using assms by simp
  finally show "bs = slot_bytes ?f"
    using join[of 8 0] join[of 4 8] join[of 2 12] join[of 1 14] join[of 1 15] join[of 4 16] join[of 4 20] join[of 4 24]
      join[of 4 28] join[of 2 32] join[of 2 34] assms by simp
qed

text \<open>The checks of \<open>owner\<close> on the fields of its record.\<close>

definition owner_of_fields :: "page \<Rightarrow> u16 \<Rightarrow> heap_layout \<Rightarrow> slot_fields \<Rightarrow> owner result" where
  "owner_of_fields p slot layout f =
     and_then (map_err (\<lambda>_. corrupt (slot_offset slot)) (identifier_new (sf_incarnation f))) (\<lambda>incarnation.
     and_then (map_err (\<lambda>_. corrupt (slot_offset slot + 8)) (root_tid_new (sf_block f) (sf_offset f) layout)) (\<lambda>root.
     and_then (ok_or (corrupt (slot_offset slot + 14)) (publication_of_tag (sf_state f))) (\<lambda>publication.
     and_then (if sf_live f = 0 then Inr False else if sf_live f = 1 \<and> publication = Published then Inr True
               else Inl (corrupt (slot_offset slot + 15))) (\<lambda>live.
     if sf_zero f \<noteq> 0 \<or> sf_tokens f > MAX_DOCUMENT_TOKENS \<or> sf_terms f > sf_tokens f \<or>
        \<not> (16 \<le> unat (sf_bytes f) \<and> unat (sf_bytes f) \<le> MAX_DOCUMENT_BYTES) \<or>
        (sf_head f \<noteq> NO_BLOCK \<and> \<not> block_valid (sf_head f))
     then Inl (corrupt (slot_offset slot + 16)) else
     and_then (owner_inline p (slot_offset slot) (unat (sf_inline_offset f)) (unat (sf_inline_len f)) (sf_head f) (sf_bytes f)) (\<lambda>inline.
     if (publication = FragmentsWritten \<or> live) \<and> inline = [] \<and> sf_head f = NO_BLOCK then Inl (corrupt (slot_offset slot + 24)) else
     if publication = Allocated \<and> sf_head f \<noteq> NO_BLOCK then Inl (corrupt (slot_offset slot + 24))
     else Inr \<lparr>ow_reference = \<lparr>or_page = pg_block p, or_slot = slot, or_incarnation = incarnation\<rparr>, ow_root = root,
       ow_publication = publication, ow_live = live, ow_tokens = sf_tokens f, ow_terms = sf_terms f, ow_data_head = sf_head f,
       ow_data_bytes = sf_bytes f, ow_inline = inline\<rparr>)))))"

lemma page_owner_eq:
  assumes "page_owner_count p = Inr n" "slot < n" "take 40 (drop (slot_offset slot) (pg_bytes p)) = slot_bytes f"
  shows "page_owner p slot layout = owner_of_fields p slot layout f"
proof -
  have "\<not> n \<le> slot" using assms(2) by simp
  then show ?thesis
    using assms(1) unfolding page_owner_def owner_of_fields_def Let_def OWNER_BYTES_def assms(3)
    by (simp add: codec_simps slice_ok_def slot_bytes_def)
qed

section \<open>Owners and their records\<close>

definition owner_ok :: "heap_layout \<Rightarrow> owner \<Rightarrow> bool" where
  "owner_ok layout ow \<longleftrightarrow>
     or_incarnation (ow_reference ow) \<noteq> 0 \<and> tid_ok layout (ow_root ow) \<and> (ow_live ow \<longrightarrow> ow_publication ow = Published) \<and>
     ow_tokens ow \<le> MAX_DOCUMENT_TOKENS \<and> ow_terms ow \<le> ow_tokens ow \<and>
     16 \<le> unat (ow_data_bytes ow) \<and> unat (ow_data_bytes ow) \<le> MAX_DOCUMENT_BYTES \<and>
     (ow_data_head ow = NO_BLOCK \<or> block_valid (ow_data_head ow)) \<and>
     (ow_inline ow \<noteq> [] \<longrightarrow> length (ow_inline ow) = unat (ow_data_bytes ow) \<and> ow_data_head ow = NO_BLOCK) \<and>
     \<not> ((ow_publication ow = FragmentsWritten \<or> ow_live ow) \<and> ow_inline ow = [] \<and> ow_data_head ow = NO_BLOCK) \<and>
     \<not> (ow_publication ow = Allocated \<and> ow_data_head ow \<noteq> NO_BLOCK)"

definition owner_fields :: "nat \<Rightarrow> owner \<Rightarrow> slot_fields" where
  "owner_fields io ow =
     \<lparr>sf_incarnation = or_incarnation (ow_reference ow), sf_block = tid_block (ow_root ow), sf_offset = tid_offset (ow_root ow),
      sf_state = publication_tag (ow_publication ow), sf_live = bool_tag (ow_live ow), sf_tokens = ow_tokens ow, sf_terms = ow_terms ow,
      sf_head = ow_data_head ow, sf_bytes = ow_data_bytes ow, sf_inline_offset = (if ow_inline ow = [] then 0 else of_nat io),
      sf_inline_len = of_nat (length (ow_inline ow)), sf_zero = 0\<rparr>"

text \<open>Where the payload of a slot is.\<close>

definition inline_at :: "page \<Rightarrow> u16 \<Rightarrow> nat \<Rightarrow> bytes \<Rightarrow> bool" where
  "inline_at p n io data \<longleftrightarrow>
     (data \<noteq> [] \<longrightarrow> OWNER_HEADER + unat n * OWNER_BYTES \<le> io \<and> get_range (page_used p) io (io + length data) = Some data)"

lemma get_range_Some: "get_range xs a b = Some ys \<longleftrightarrow> a \<le> b \<and> b \<le> length xs \<and> ys = take (b - a) (drop a xs)"
  by (auto simp: get_range_def)

lemma inline_at_bounds:
  assumes "page_ok p" "inline_at p n io data" "data \<noteq> []"
  shows "io + length data \<le> pg_len p" "io < 2 ^ 16" "length data < 2 ^ 16" "io \<noteq> 0"
  using assms length_page_used[OF assms(1)]
  by (auto simp: inline_at_def get_range_def page_ok_def CAPACITY_value OWNER_HEADER_def split: if_splits)

lemma publication_of_tag_inverse [simp]: "publication_of_tag (publication_tag st) = Some st"
  by (cases st) (simp_all add: publication_of_tag_def)

lemma owner_tag_Some: "publication_of_tag tag = Some st \<Longrightarrow> tag = publication_tag st"
  by (auto simp: publication_of_tag_def split: if_splits)

lemma owner_of_owner_fields:
  assumes "page_ok p" "page_owner_count p = Inr n" "owner_ok layout ow" "inline_at p n io (ow_inline ow)"
    "or_page (ow_reference ow) = pg_block p" "or_slot (ow_reference ow) = slot"
  shows "owner_of_fields p slot layout (owner_fields io ow) = Inr ow"
proof -
  have io: "owner_inline p (slot_offset slot) (unat (sf_inline_offset (owner_fields io ow))) (unat (sf_inline_len (owner_fields io ow)))
      (ow_data_head ow) (ow_data_bytes ow) = Inr (ow_inline ow)"
  proof (cases "ow_inline ow = []")
    case False
    note b = inline_at_bounds[OF assms(1,4) False]
    have u: "unat (sf_inline_offset (owner_fields io ow)) = io" "unat (sf_inline_len (owner_fields io ow)) = length (ow_inline ow)"
      using False b(2,3) by (simp_all add: owner_fields_def unat_u16_of_nat)
    have d: "length (ow_inline ow) = unat (ow_data_bytes ow)" "ow_data_head ow = NO_BLOCK" using assms(3) False by (simp_all add: owner_ok_def)
    moreover have "unat (ow_data_bytes ow) \<noteq> 0" using d(1) False by (metis length_0_conv)
    ultimately show ?thesis using False assms(2,4) d unfolding owner_inline_def u by (simp add: inline_at_def)
  qed (simp add: owner_inline_def owner_fields_def)
  have ref: "ow_reference ow = \<lparr>or_page = pg_block p, or_slot = slot, or_incarnation = or_incarnation (ow_reference ow)\<rparr>"
    using assms(5,6) by (intro owner_ref.equality) simp_all
  have ow: "\<lparr>ow_reference = \<lparr>or_page = pg_block p, or_slot = slot, or_incarnation = or_incarnation (ow_reference ow)\<rparr>,
      ow_root = ow_root ow, ow_publication = ow_publication ow, ow_live = ow_live ow, ow_tokens = ow_tokens ow, ow_terms = ow_terms ow,
      ow_data_head = ow_data_head ow, ow_data_bytes = ow_data_bytes ow, ow_inline = ow_inline ow\<rparr> = ow"
    by (intro owner.equality) (simp_all add: ref[symmetric])
  have f: "sf_incarnation (owner_fields io ow) = or_incarnation (ow_reference ow)" "sf_block (owner_fields io ow) = tid_block (ow_root ow)"
    "sf_offset (owner_fields io ow) = tid_offset (ow_root ow)" "sf_state (owner_fields io ow) = publication_tag (ow_publication ow)"
    "sf_live (owner_fields io ow) = bool_tag (ow_live ow)" "sf_tokens (owner_fields io ow) = ow_tokens ow" "sf_terms (owner_fields io ow) = ow_terms ow"
    "sf_head (owner_fields io ow) = ow_data_head ow" "sf_bytes (owner_fields io ow) = ow_data_bytes ow" "sf_zero (owner_fields io ow) = 0"
    by (simp_all add: owner_fields_def)
  have lv: "(if bool_tag (ow_live ow) = 0 then Inr False else if bool_tag (ow_live ow) = 1 \<and> ow_publication ow = Published then Inr True
      else Inl e) = Inr (ow_live ow)" for e :: error
    using assms(3) by (simp add: owner_ok_def bool_tag_def)
  show ?thesis
    using assms(3) root_tid_new_Inr[of layout "ow_root ow"] io ow unfolding owner_of_fields_def f
    by (auto simp: owner_ok_def identifier_new_def lv)
qed

lemma owner_of_fields_Inr:
  assumes "page_ok p" "page_owner_count p = Inr n" "owner_of_fields p slot layout f = Inr ow"
  obtains io where "f = owner_fields io ow" "owner_ok layout ow" "inline_at p n io (ow_inline ow)" "io = unat (sf_inline_offset f)"
    "or_page (ow_reference ow) = pg_block p" "or_slot (ow_reference ow) = slot"
proof -
  let ?io = "unat (sf_inline_offset f)"
  from assms(3) have ok: "sf_incarnation f \<noteq> 0" "ow_reference ow = \<lparr>or_page = pg_block p, or_slot = slot, or_incarnation = sf_incarnation f\<rparr>"
      "ow_root ow = RootTid (sf_block f) (sf_offset f)" "tid_ok layout (ow_root ow)"
      "publication_of_tag (sf_state f) = Some (ow_publication ow)" "sf_live f = bool_tag (ow_live ow)" "ow_live ow \<longrightarrow> ow_publication ow = Published"
    and eq: "ow_tokens ow = sf_tokens f" "ow_terms ow = sf_terms f" "ow_data_head ow = sf_head f" "ow_data_bytes ow = sf_bytes f" "sf_zero f = 0"
    and b: "sf_tokens f \<le> MAX_DOCUMENT_TOKENS" "sf_terms f \<le> sf_tokens f" "16 \<le> unat (sf_bytes f)" "unat (sf_bytes f) \<le> MAX_DOCUMENT_BYTES"
      "sf_head f = NO_BLOCK \<or> block_valid (sf_head f)"
    and i: "owner_inline p (slot_offset slot) ?io (unat (sf_inline_len f)) (sf_head f) (sf_bytes f) = Inr (ow_inline ow)"
    and l: "\<not> ((ow_publication ow = FragmentsWritten \<or> ow_live ow) \<and> ow_inline ow = [] \<and> sf_head f = NO_BLOCK)"
      "\<not> (ow_publication ow = Allocated \<and> sf_head f \<noteq> NO_BLOCK)"
    by (auto simp: owner_of_fields_def res_simps identifier_new_def root_tid_new_iff bool_tag_def not_less split: if_splits)
  have il: "(ow_inline ow = [] \<longrightarrow> ?io = 0) \<and> unat (sf_inline_len f) = length (ow_inline ow) \<and> inline_at p n ?io (ow_inline ow) \<and>
      (ow_inline ow \<noteq> [] \<longrightarrow> length (ow_inline ow) = unat (sf_bytes f) \<and> sf_head f = NO_BLOCK)"
  proof (cases "unat (sf_inline_len f) = 0")
    case True
    then show ?thesis using i by (auto simp: owner_inline_def inline_at_def split: if_splits)
  next
    case False
    then have "unat (sf_inline_len f) = unat (sf_bytes f)" "sf_head f = NO_BLOCK" "OWNER_HEADER + unat n * OWNER_BYTES \<le> ?io"
      "get_range (page_used p) ?io (?io + unat (sf_inline_len f)) = Some (ow_inline ow)"
      using i assms(2) by (auto simp: owner_inline_def res_simps split: if_splits)
    moreover from this(4) have "length (ow_inline ow) = unat (sf_inline_len f)" by (auto simp: get_range_Some)
    ultimately show ?thesis using False by (auto simp: inline_at_def)
  qed
  have "sf_inline_offset f = (if ow_inline ow = [] then 0 else of_nat ?io)" using il by (auto simp: unat_eq_zero)
  moreover have "length (ow_inline ow) < 2 ^ 16" using il unat_lt2p[of "sf_inline_len f"] by simp
  then have "sf_inline_len f = of_nat (length (ow_inline ow))" using il by (simp add: word_unat_eq_iff unat_u16_of_nat)
  ultimately have "f = owner_fields ?io ow"
    using ok eq owner_tag_Some[OF ok(5)] by (intro slot_fields.equality) (simp_all add: owner_fields_def)
  moreover have "owner_ok layout ow" using ok eq b il l by (simp add: owner_ok_def)
  ultimately show ?thesis using that[of ?io] il ok(2) by simp
qed

section \<open>Pages\<close>

text \<open>The slots of a list of owners whose payloads start at \<open>io\<close>.\<close>

fun owner_slots :: "nat \<Rightarrow> owner list \<Rightarrow> bytes" where
  "owner_slots io [] = []"
| "owner_slots io (ow # os) = slot_bytes (owner_fields io ow) @ owner_slots (io + length (ow_inline ow)) os"

definition inlines :: "owner list \<Rightarrow> bytes" where
  "inlines os = concat (map ow_inline os)"

lemma inlines_simps [simp]: "inlines [] = []" "inlines (ow # os) = ow_inline ow @ inlines os" "inlines (os @ ps) = inlines os @ inlines ps"
  by (simp_all add: inlines_def)

lemma length_owner_slots [simp]: "length (owner_slots io os) = 40 * length os"
  by (induction os arbitrary: io) simp_all

lemma owner_slots_append:
  "owner_slots io (os @ ps) = owner_slots io os @ owner_slots (io + length (inlines os)) ps"
  by (induction os arbitrary: io) (simp_all add: ac_simps)

lemma owner_slots_nth:
  assumes "i < length os"
  shows "take 40 (drop (40 * i) (owner_slots io os)) = slot_bytes (owner_fields (io + length (inlines (take i os))) (os ! i))"
proof -
  have "os = take i os @ os ! i # drop (Suc i) os" using assms by (rule id_take_nth_drop)
  then have "owner_slots io os = owner_slots io (take i os) @
      slot_bytes (owner_fields (io + length (inlines (take i os))) (os ! i)) @
      owner_slots (io + length (inlines (take i os)) + length (ow_inline (os ! i))) (drop (Suc i) os)"
    by (metis owner_slots_append owner_slots.simps(2))
  then show ?thesis using assms by simp
qed

definition owner_body :: "owner list \<Rightarrow> bytes" where
  "owner_body os =
     le_bytes 2 (of_nat (length os) :: u16) @ le_bytes 2 (0 :: u16) @ owner_slots (20 + 40 * length os) os @ inlines os"

definition slot_owner :: "heap_layout \<Rightarrow> u32 \<Rightarrow> nat \<Rightarrow> owner \<Rightarrow> bool" where
  "slot_owner layout block i ow \<longleftrightarrow>
     owner_ok layout ow \<and> or_page (ow_reference ow) = block \<and> or_slot (ow_reference ow) = of_nat i"

definition owner_page :: "heap_layout \<Rightarrow> page \<Rightarrow> owner list \<Rightarrow> bool" where
  "owner_page layout p os \<longleftrightarrow>
     page_ok p \<and> pg_kind p = Owners \<and> drop 16 (page_used p) = owner_body os \<and>
     (\<forall>i < length os. slot_owner layout (pg_block p) i (os ! i))"

lemma length_owner_body [simp]: "length (owner_body os) = 4 + 40 * length os + length (inlines os)"
  by (simp add: owner_body_def)

lemma owner_page_len:
  assumes "owner_page layout p os"
  shows "pg_len p = 20 + 40 * length os + length (inlines os)" "length os \<le> 203"
proof -
  have "length (drop 16 (page_used p)) = length (owner_body os)" "pg_len p \<le> 8168" "page_ok p"
    using assms by (simp_all add: owner_page_def page_ok_def CAPACITY_value)
  then have "pg_len p - 16 = 4 + 40 * length os + length (inlines os)" by simp
  with \<open>pg_len p \<le> 8168\<close> show "pg_len p = 20 + 40 * length os + length (inlines os)" "length os \<le> 203" by simp_all
qed

lemma owner_page_used:
  assumes "owner_page layout p os" "16 \<le> k"
  shows "drop k (page_used p) = drop (k - 16) (owner_body os)"
  using assms by (metis owner_page_def drop_drop le_add_diff_inverse2)

lemma owner_page_count:
  assumes "owner_page layout p os"
  shows "page_owner_count p = Inr (of_nat (length os))" "unat (of_nat (length os) :: u16) = length os"
proof -
  note l = owner_page_len[OF assms]
  show u: "unat (of_nat (length os) :: u16) = length os" using l by (intro unat_u16_of_nat) simp
  have "page_u16 p 16 = Inr (of_nat (length os))" "page_u16 p 18 = Inr 0"
    using l assms by (simp_all add: page_used_fields owner_page_def[of _ p] owner_page_used[OF assms] owner_body_def)
  then show "page_owner_count p = Inr (of_nat (length os))"
    using assms l u by (simp add: page_owner_count_def owner_page_def page_require_def OWNER_HEADER_def OWNER_BYTES_def)
qed

lemma owner_page_inline:
  assumes "owner_page layout p os" "i < length os"
  shows "inline_at p (of_nat (length os)) (20 + 40 * length os + length (inlines (take i os))) (ow_inline (os ! i))"
proof -
  let ?io = "20 + 40 * length os + length (inlines (take i os))"
  have "os = take i os @ os ! i # drop (Suc i) os" using assms(2) by (rule id_take_nth_drop)
  then have e: "inlines os = inlines (take i os) @ ow_inline (os ! i) @ inlines (drop (Suc i) os)"
    by (metis inlines_simps(2,3))
  have k: "page_ok p" using assms(1) by (simp add: owner_page_def)
  have "drop ?io (page_used p) = ow_inline (os ! i) @ inlines (drop (Suc i) os)"
    by (simp add: owner_page_used[OF assms(1)] owner_body_def e)
  moreover have "?io + length (ow_inline (os ! i)) \<le> length (page_used p)"
    using owner_page_len[OF assms(1)] e k by simp
  ultimately show ?thesis
    using owner_page_count(2)[OF assms(1)] by (simp add: inline_at_def get_range_Some OWNER_HEADER_def OWNER_BYTES_def)
qed

lemma owner_page_slot:
  assumes "owner_page layout p os" "i < length os"
  shows "take 40 (drop (slot_offset (of_nat i)) (pg_bytes p)) =
    slot_bytes (owner_fields (20 + 40 * length os + length (inlines (take i os))) (os ! i))"
proof -
  note l = owner_page_len[OF assms(1)]
  have k: "page_ok p" using assms(1) by (simp add: owner_page_def)
  have u: "unat (of_nat i :: u16) = i" using l(2) assms(2) by (intro unat_u16_of_nat) simp
  have "take 40 (drop (20 + 40 * i) (pg_bytes p)) = take 40 (drop (20 + 40 * i) (page_used p))"
    using field_slice[OF k, of "20 + 40 * i" 40] l(1) assms(2) by simp
  also have "drop (20 + 40 * i) (page_used p) = drop (40 * i) (owner_slots (20 + 40 * length os) os) @ inlines os"
    using assms(2) by (simp add: owner_page_used[OF assms(1)] owner_body_def)
  also have "take 40 \<dots> = slot_bytes (owner_fields (20 + 40 * length os + length (inlines (take i os))) (os ! i))"
    using owner_slots_nth[OF assms(2)] assms(2) by simp
  finally show ?thesis by (simp add: slot_offset_def u OWNER_HEADER_def OWNER_BYTES_def mult.commute)
qed

text \<open>Every slot reads its owner.\<close>

lemma owner_page_owner:
  assumes "owner_page layout p os" "i < length os"
  shows "page_owner p (of_nat i) layout = Inr (os ! i)"
proof -
  note c = owner_page_count[OF assms(1)] and l = owner_page_len[OF assms(1)]
  have k: "page_ok p" "slot_owner layout (pg_block p) i (os ! i)" using assms by (simp_all add: owner_page_def)
  have u: "unat (of_nat i :: u16) = i" using l(2) assms(2) by (intro unat_u16_of_nat) simp
  have "(of_nat i :: u16) < of_nat (length os)" using assms(2) u c(2) by (simp add: word_less_nat_alt)
  from page_owner_eq[OF c(1) this owner_page_slot[OF assms]] owner_of_owner_fields[OF k(1) c(1) _ owner_page_inline[OF assms], of layout "of_nat i"] k(2)
  show ?thesis by (simp add: slot_owner_def)
qed

section \<open>Validation\<close>

lemma owner_page_inline_offset:
  assumes "owner_page layout p os" "i < length os"
  shows "page_u16 p (20 + 40 * i + 32) =
    Inr (if ow_inline (os ! i) = [] then 0 else of_nat (20 + 40 * length os + length (inlines (take i os))))"
proof -
  note l = owner_page_len[OF assms(1)]
  have k: "page_ok p" using assms(1) by (simp add: owner_page_def)
  have "take 2 (drop (20 + 40 * i + 32) (page_used p)) = take 2 (drop 32 (take 40 (drop (20 + 40 * i) (page_used p))))"
    by (simp add: drop_take ac_simps)
  also have "take 40 (drop (20 + 40 * i) (page_used p)) = take 40 (drop (slot_offset (of_nat i)) (pg_bytes p))"
    using field_slice[OF k, of "20 + 40 * i" 40] l assms(2)
    by (simp add: slot_offset_def OWNER_HEADER_def OWNER_BYTES_def unat_u16_of_nat mult.commute)
  also have "take 2 (drop 32 \<dots>) = le_bytes 2 (sf_inline_offset (owner_fields (20 + 40 * length os + length (inlines (take i os))) (os ! i)))"
    unfolding owner_page_slot[OF assms] by (simp add: slot_bytes_def)
  finally show ?thesis using l assms(2) k by (simp add: page_used_fields owner_fields_def)
qed

lemma owner_page_validate:
  assumes "owner_page layout p os"
  shows "validate_owners p layout = Inr ()"
proof -
  note c = owner_page_count[OF assms] and l = owner_page_len[OF assms]
  have "try_fold (validate_owner_step p layout) (20 + 40 * length os + length (inlines (take i os))) [i..<length os] = Inr (pg_len p)"
    if "i \<le> length os" for i
    using that
  proof (induction "length os - i" arbitrary: i)
    case 0
    then show ?case using l(1) by simp
  next
    case (Suc k)
    then have i: "i < length os" "[i..<length os] = i # [Suc i..<length os]" by (simp_all add: upt_rec)
    let ?io = "20 + 40 * length os + length (inlines (take i os))"
    have t: "inlines (take (Suc i) os) = inlines (take i os) @ ow_inline (os ! i)" using i(1) by (simp add: take_Suc_conv_app_nth)
    have k: "page_ok p" using assms by (simp add: owner_page_def)
    have "unat (of_nat ?io :: u16) = ?io" if "ow_inline (os ! i) \<noteq> []"
      using inline_at_bounds(2)[OF k owner_page_inline[OF assms i(1)] that] by (rule unat_u16_of_nat)
    then have "validate_owner_step p layout ?io i = Inr (20 + 40 * length os + length (inlines (take (Suc i) os)))"
      using owner_page_owner[OF assms i(1)] owner_page_inline_offset[OF assms i(1)] t
      by (simp add: validate_owner_step_def OWNER_HEADER_def OWNER_BYTES_def mult.commute)
    then show ?case using Suc.hyps(1)[of "Suc i"] Suc.hyps(2) i by simp
  qed
  from this[of 0] show ?thesis
    using c by (simp add: validate_owners_def OWNER_HEADER_def OWNER_BYTES_def mult.commute)
qed

text \<open>A validated owner page holds a list of owners.\<close>

lemma validated_slots:
  assumes "page_ok p" "page_owner_count p = Inr n" "pg_kind p = Owners"
    "try_fold (validate_owner_step p layout) io [i..<unat n] = Inr fin" "i \<le> unat n" "io \<le> pg_len p"
  shows "\<exists>os. length os = unat n - i \<and> take (40 * (unat n - i)) (drop (20 + 40 * i) (page_used p)) = owner_slots io os \<and>
    take (fin - io) (drop io (page_used p)) = inlines os \<and> fin = io + length (inlines os) \<and> fin \<le> pg_len p \<and>
    (\<forall>k < length os. slot_owner layout (pg_block p) (i + k) (os ! k))"
  using assms(4-6)
proof (induction "unat n - i" arbitrary: i io)
  case 0
  then show ?case by (intro exI[of _ "[]"]) simp
next
  case (Suc m)
  have n: "20 + 40 * unat n \<le> pg_len p" using assms(2) by (auto simp: page_owner_count_def res_simps OWNER_HEADER_def OWNER_BYTES_def split: if_splits)
  have i: "i < unat n" "[i..<unat n] = i # [Suc i..<unat n]" using Suc.hyps(2) by (simp_all add: upt_rec)
  from Suc.prems(1) i obtain io' where st: "validate_owner_step p layout io i = Inr io'" and rest: "try_fold (validate_owner_step p layout) io' [Suc i..<unat n] = Inr fin"
    by (auto simp: res_simps)
  from st obtain ow where ow: "page_owner p (of_nat i) layout = Inr ow" by (auto simp: validate_owner_step_def res_simps)
  have u: "unat (of_nat i :: u16) = i" using i(1) unat_lt2p[of n] by (intro unat_u16_of_nat) simp
  have so: "slot_offset (of_nat i) = 20 + 40 * i" by (simp add: slot_offset_def u OWNER_HEADER_def OWNER_BYTES_def)
  have fit: "20 + 40 * i + 40 \<le> pg_len p" using i(1) n by simp
  then have "length (take 40 (drop (20 + 40 * i) (pg_bytes p))) = 40" using assms(1) by (auto simp: page_ok_def)
  then obtain f where f: "take 40 (drop (20 + 40 * i) (pg_bytes p)) = slot_bytes f" by (rule slot_bytes_cases)
  have "(of_nat i :: u16) < n" using i(1) u by (simp add: word_less_nat_alt)
  from page_owner_eq[OF assms(2) this, of f layout] f so ow have "owner_of_fields p (of_nat i) layout f = Inr ow" by simp
  from owner_of_fields_Inr[OF assms(1,2) this] obtain jo where w: "f = owner_fields jo ow" "owner_ok layout ow"
    "inline_at p n jo (ow_inline ow)" "jo = unat (sf_inline_offset f)" "or_page (ow_reference ow) = pg_block p" "or_slot (ow_reference ow) = of_nat i"
    by blast
  have used: "take 40 (drop (20 + 40 * i) (page_used p)) = slot_bytes f" using f field_slice[OF assms(1) fit] by simp
  have "take 2 (drop (20 + 40 * i + 32) (page_used p)) = take 2 (drop 32 (take 40 (drop (20 + 40 * i) (page_used p))))"
    by (simp add: drop_take ac_simps)
  then have io2: "page_u16 p (20 + 40 * i + 32) = Inr (sf_inline_offset f)"
    using fit assms(1) unfolding used by (simp add: page_used_fields slot_bytes_def)
  have same: "owner_fields jo ow = owner_fields io ow" "io' = io + length (ow_inline ow)" "ow_inline ow \<noteq> [] \<Longrightarrow> jo = io"
    using st ow io2 w(4) by (auto simp: validate_owner_step_def OWNER_HEADER_def OWNER_BYTES_def mult.commute owner_fields_def split: if_splits)
  have at: "take (length (ow_inline ow)) (drop io (page_used p)) = ow_inline ow" "io' \<le> pg_len p"
    using w(3) same Suc.prems(3) assms(1) by (cases "ow_inline ow = []"; auto simp: inline_at_def get_range_Some)+
  have m: "m = unat n - Suc i" using Suc.hyps(2) by simp
  from Suc.hyps(1)[OF m rest _ at(2)] i(1) obtain os where
    os: "length os = unat n - Suc i" "take (40 * (unat n - Suc i)) (drop (20 + 40 * Suc i) (page_used p)) = owner_slots io' os"
      "take (fin - io') (drop io' (page_used p)) = inlines os" "fin = io' + length (inlines os)" "fin \<le> pg_len p"
      "\<forall>k < length os. slot_owner layout (pg_block p) (Suc i + k) (os ! k)" by auto
  have "take (40 * (unat n - i)) (drop (20 + 40 * i) (page_used p)) = take (40 + 40 * (unat n - Suc i)) (drop (20 + 40 * i) (page_used p))"
    using i(1) by (metis Suc_diff_Suc mult_Suc_right)
  also have "\<dots> = slot_bytes f @ owner_slots io' os"
    using used os(2) by (simp add: take_add ac_simps)
  finally have "take (40 * (unat n - i)) (drop (20 + 40 * i) (page_used p)) = owner_slots io (ow # os)" using w(1) same by simp
  moreover have "take (fin - io) (drop io (page_used p)) = inlines (ow # os)"
  proof -
    have "fin - io = length (ow_inline ow) + (fin - io')" using os(4) same(2) by simp
    then show ?thesis using at(1) os(3) same(2) by (simp add: take_add ac_simps)
  qed
  moreover have "slot_owner layout (pg_block p) (i + k) ((ow # os) ! k)" if "k < length (ow # os)" for k
    using that os(6) w(2,5,6) by (cases k) (auto simp: slot_owner_def)
  ultimately show ?case using os(1,4,5) same(2) i(1) by (intro exI[of _ "ow # os"]) auto
qed

lemma validated_owner_page:
  assumes "page_ok p" "pg_kind p = Owners" "validate_owners p layout = Inr ()"
  obtains os where "owner_page layout p os"
proof -
  from assms(3) obtain n where n: "page_owner_count p = Inr n"
    and f: "try_fold (validate_owner_step p layout) (20 + 40 * unat n) [0..<unat n] = Inr (pg_len p)"
    by (auto simp: validate_owners_def res_simps OWNER_HEADER_def OWNER_BYTES_def mult.commute split: if_splits)
  have c: "page_u16 p 16 = Inr n" "page_u16 p 18 = Inr 0" "20 + 40 * unat n \<le> pg_len p"
    using n by (auto simp: page_owner_count_def res_simps OWNER_HEADER_def OWNER_BYTES_def split: if_splits)
  from validated_slots[OF assms(1) n assms(2) f] c(3) obtain os where
    os: "length os = unat n" "take (40 * unat n) (drop 20 (page_used p)) = owner_slots (20 + 40 * unat n) os"
      "take (pg_len p - (20 + 40 * unat n)) (drop (20 + 40 * unat n) (page_used p)) = inlines os"
      "\<forall>k < length os. slot_owner layout (pg_block p) k (os ! k)" by auto
  have tl: "drop (20 + 40 * unat n) (page_used p) = inlines os" using os(3) assms(1) by simp
  have "drop 20 (page_used p) = take (40 * unat n) (drop 20 (page_used p)) @ drop (20 + 40 * unat n) (page_used p)"
    by (metis append_take_drop_id drop_drop add.commute)
  then have d20: "drop 20 (page_used p) = owner_slots (20 + 40 * length os) os @ inlines os" using os(1,2) tl by simp
  have l: "length (page_used p) = pg_len p" using assms(1) by simp
  have h: "take 2 (drop 16 (page_used p)) = le_bytes 2 n" "take 2 (drop 18 (page_used p)) = le_bytes 2 (0 :: u16)"
    using c assms(1) le_bytes_take[of 2 "drop 16 (page_used p)", where 'a = 16] le_bytes_take[of 2 "drop 18 (page_used p)", where 'a = 16] l
    by (simp_all add: page_used_fields)
  have "drop 16 (page_used p) = take 2 (drop 16 (page_used p)) @ take 2 (drop 18 (page_used p)) @ drop 20 (page_used p)"
    using append_take_drop_id[of 2 "drop 16 (page_used p)"] append_take_drop_id[of 2 "drop 18 (page_used p)"] by simp
  then have "drop 16 (page_used p) = owner_body os" using h d20 os(1) by (simp add: owner_body_def)
  then show ?thesis using that[of os] assms(1,2) os(4) by (simp add: owner_page_def)
qed

section \<open>Changes\<close>

text \<open>The abstract lifecycle of an owner: when a change is allowed and what it makes of the owner.\<close>

fun change_allowed :: "owner \<Rightarrow> owner_change \<Rightarrow> bool" where
  "change_allowed ow (PayloadReady head) \<longleftrightarrow> ow_publication ow = Allocated \<and>
     (if ow_inline ow = [] then block_valid head else head = NO_BLOCK)"
| "change_allowed ow Publish \<longleftrightarrow> ow_publication ow = FragmentsWritten"
| "change_allowed ow Remove \<longleftrightarrow> ow_publication ow = Published \<and> ow_live ow"
| "change_allowed ow Abandon \<longleftrightarrow> ow_publication ow = Allocated \<or> ow_publication ow = FragmentsWritten"

fun owner_after :: "owner \<Rightarrow> owner_change \<Rightarrow> owner" where
  "owner_after ow (PayloadReady head) = ow\<lparr>ow_publication := FragmentsWritten, ow_live := False, ow_data_head := head\<rparr>"
| "owner_after ow Publish = ow\<lparr>ow_publication := Published, ow_live := True\<rparr>"
| "owner_after ow Remove = ow\<lparr>ow_publication := Published, ow_live := False, ow_data_head := NO_BLOCK\<rparr>"
| "owner_after ow Abandon = ow\<lparr>ow_publication := Abandoned, ow_live := False, ow_data_head := NO_BLOCK\<rparr>"

lemma owner_transition_allowed:
  "owner_transition ow change = Inr r \<longleftrightarrow> change_allowed ow change \<and>
    r = (publication_tag (ow_publication (owner_after ow change)), ow_live (owner_after ow change), ow_data_head (owner_after ow change))"
  by (cases change) (auto simp: owner_transition_def)

lemma owner_after_simps [simp]:
  "ow_reference (owner_after ow change) = ow_reference ow" "ow_root (owner_after ow change) = ow_root ow"
  "ow_tokens (owner_after ow change) = ow_tokens ow" "ow_terms (owner_after ow change) = ow_terms ow"
  "ow_data_bytes (owner_after ow change) = ow_data_bytes ow" "ow_inline (owner_after ow change) = ow_inline ow"
  by (cases change; simp)+

lemma owner_after_ok: "owner_ok layout ow \<Longrightarrow> change_allowed ow change \<Longrightarrow> owner_ok layout (owner_after ow change)"
  by (cases change) (auto simp: owner_ok_def block_valid_def split: if_splits)

text \<open>Overwriting a slot.\<close>

lemma owner_slots_update:
  assumes "i < length os" "ow_inline ow = ow_inline (os ! i)"
  shows "patch (40 * i) (slot_bytes (owner_fields (io + length (inlines (take i os))) ow)) (owner_slots io os) = owner_slots io (os[i := ow])"
    "inlines (os[i := ow]) = inlines os"
proof -
  let ?j = "io + length (inlines (take i os))"
  have d: "os = take i os @ os ! i # drop (Suc i) os" using assms(1) by (rule id_take_nth_drop)
  have u: "os[i := ow] = take i os @ ow # drop (Suc i) os" using assms(1) by (rule upd_conv_take_nth_drop)
  have "owner_slots io os = owner_slots io (take i os) @ slot_bytes (owner_fields ?j (os ! i)) @ owner_slots (?j + length (ow_inline (os ! i))) (drop (Suc i) os)"
    by (subst d) (simp add: owner_slots_append)
  moreover have "owner_slots io (os[i := ow]) = owner_slots io (take i os) @ slot_bytes (owner_fields ?j ow) @ owner_slots (?j + length (ow_inline (os ! i))) (drop (Suc i) os)"
    using assms(2) by (simp add: u owner_slots_append)
  ultimately show "patch (40 * i) (slot_bytes (owner_fields ?j ow)) (owner_slots io os) = owner_slots io (os[i := ow])"
    using assms(1) by (simp add: patch_append_right) (simp add: patch_def)
  show "inlines (os[i := ow]) = inlines os" using assms(2) d by (metis inlines_simps(2,3) u)
qed

lemma owner_page_update:
  assumes r: "owner_page layout p os" and i: "i < length os" "ow_inline ow = ow_inline (os ! i)" and s: "slot_owner layout (pg_block p) i ow"
  defines "io \<equiv> 20 + 40 * length os + length (inlines (take i os))"
  shows "owner_page layout (p\<lparr>pg_bytes := patch (20 + 40 * i) (slot_bytes (owner_fields io ow)) (pg_bytes p)\<rparr>) (os[i := ow])"
proof -
  let ?v = "slot_bytes (owner_fields io ow)" let ?p = "p\<lparr>pg_bytes := patch (20 + 40 * i) ?v (pg_bytes p)\<rparr>"
  note l = owner_page_len[OF r]
  have k: "page_ok p" "pg_kind p = Owners" "\<forall>i < length os. slot_owner layout (pg_block p) i (os ! i)" using r by (simp_all add: owner_page_def)
  have b: "20 + 40 * i + 40 \<le> pg_len p" "pg_len p \<le> length (pg_bytes p)" using l(1) i(1) k(1) by (simp_all add: page_ok_def)
  have "page_used ?p = patch (20 + 40 * i) ?v (page_used p)" using b by (simp add: page_used_def take_patch)
  then have "drop 16 (page_used ?p) = patch (4 + 40 * i) ?v (owner_body os)"
    using b k(1) owner_page_used[OF r, of 16] by (simp add: drop_patch)
  also have "\<dots> = owner_body (os[i := ow])"
    using owner_slots_update(1)[OF i, of "20 + 40 * length os"] owner_slots_update(2)[OF i] i(1)
    by (simp add: owner_body_def patch_append_right patch_append_left io_def)
  finally have "drop 16 (page_used ?p) = owner_body (os[i := ow])" .
  moreover have "page_ok ?p" using k(1) b by (intro page_ok_patch) (simp_all add: page_ok_def)
  moreover have "\<forall>j < length (os[i := ow]). slot_owner layout (pg_block p) j (os[i := ow] ! j)" using k(3) s i(1) by (auto simp: nth_list_update)
  ultimately show ?thesis using k(2) by (simp add: owner_page_def)
qed

lemma slot_bytes_update:
  assumes "off + 40 \<le> length bs" "take 40 (drop off bs) = slot_bytes f"
  shows "patch (off + 24) (le_bytes 4 head) (bs[off + 14 := st, off + 15 := lv]) =
    patch off (slot_bytes (f\<lparr>sf_state := st, sf_live := lv, sf_head := head\<rparr>)) bs"
proof -
  have b: "bs = take off bs @ slot_bytes f @ drop (off + 40) bs"
    by (metis append_take_drop_id assms(2) drop_drop add.commute)
  have l: "length (take off bs) = off" using assms(1) by simp
  have "patch (off + 24) (le_bytes 4 head) ((a @ slot_bytes f @ c)[off + 14 := st, off + 15 := lv]) =
      patch off (slot_bytes (f\<lparr>sf_state := st, sf_live := lv, sf_head := head\<rparr>)) (a @ slot_bytes f @ c)" if "length a = off" for a c
    using that
    by (simp add: list_update_append slot_bytes_def patch_append_right) (simp add: patch_def)
  from this[OF l] show ?thesis using b by metis
qed

lemma page_change_owner_rep:
  assumes r: "owner_page layout p os" and c: "page_change_owner p reference change layout = Inr p'"
  defines "i \<equiv> unat (or_slot reference)"
  shows "i < length os" "ow_reference (os ! i) = reference" "change_allowed (os ! i) change"
    "owner_page layout p' (os[i := owner_after (os ! i) change])"
    "\<exists>v. p' = p\<lparr>pg_bytes := patch (20 + 40 * i) v (pg_bytes p)\<rparr> \<and> length v = 40"
proof -
  note n = owner_page_count[OF r] and l = owner_page_len[OF r]
  have slot: "of_nat i = or_slot reference" by (simp add: i_def)
  from c obtain ow where ow: "page_owner p (or_slot reference) layout = Inr ow" "ow_reference ow = reference"
    by (auto simp: page_change_owner_def res_simps split: if_splits)
  show i: "i < length os" using ow(1) n by (auto simp: page_owner_def res_simps i_def word_le_nat_alt not_le split: if_splits)
  have e: "ow = os ! i" using owner_page_owner[OF r i] ow(1) slot by simp
  show "ow_reference (os ! i) = reference" using ow(2) e by simp
  let ?n = "owner_after (os ! i) change" let ?o = "20 + 40 * i"
  have so: "slot_offset (or_slot reference) = ?o" by (simp add: slot_offset_def i_def OWNER_HEADER_def OWNER_BYTES_def)
  let ?q = "p\<lparr>pg_bytes := (pg_bytes p)[?o + 14 := publication_tag (ow_publication ?n), ?o + 15 := bool_tag (ow_live ?n)]\<rparr>"
  have a: "change_allowed (os ! i) change \<and> page_put_u32 ?q (?o + 24) (ow_data_head ?n) = Inr p'"
    using c ow e by (auto simp: page_change_owner_def owner_transition_allowed Let_def so res_simps)
  then show al: "change_allowed (os ! i) change" by simp
  have k: "page_ok p" "slot_owner layout (pg_block p) i (os ! i)" using r i by (simp_all add: owner_page_def)
  have b: "?o + 40 \<le> length (pg_bytes p)" using l(1) i k(1) by (simp add: page_ok_def)
  have q: "page_ok ?q" using k(1) by (simp add: page_ok_def)
  let ?io = "20 + 40 * length os + length (inlines (take i os))"
  have f: "(owner_fields ?io (os ! i))\<lparr>sf_state := publication_tag (ow_publication ?n), sf_live := bool_tag (ow_live ?n), sf_head := ow_data_head ?n\<rparr> =
      owner_fields ?io ?n" by (simp add: owner_fields_def)
  have "p' = p\<lparr>pg_bytes := patch ?o (slot_bytes (owner_fields ?io ?n)) (pg_bytes p)\<rparr>"
    using a page_put_u32_eq[OF q, of "?o + 24"] b k(1) slot_bytes_update[OF b, of "owner_fields ?io (os ! i)"] owner_page_slot[OF r i] f
    by (simp add: page_ok_def slot so)
  moreover have "slot_owner layout (pg_block p) i ?n" using k(2) al by (simp add: slot_owner_def owner_after_ok)
  ultimately show "owner_page layout p' (os[i := ?n])" "\<exists>v. p' = p\<lparr>pg_bytes := patch ?o v (pg_bytes p)\<rparr> \<and> length v = 40"
    using owner_page_update[OF r i, of ?n] by auto
qed

end
