(* ===== verification/OwnerAppend.thy ===== *)
theory OwnerAppend
  imports OwnerPages
begin

text \<open>
  Appending an owner: the payloads move behind the new slot, the offsets of all slots move with them,
  and the page holds the list with the new owner at its end.
\<close>

section \<open>Moving the payload offsets\<close>

lemma slot_bytes_offset:
  "length a = k \<Longrightarrow> patch (k + 32) (le_bytes 2 v) (a @ slot_bytes f @ b) = a @ slot_bytes (f\<lparr>sf_inline_offset := v\<rparr>) @ b"
  by (simp add: patch_append_right slot_bytes_def) (simp add: patch_def)

lemma slot_bytes_offset_field: "take 2 (drop 32 (slot_bytes f)) = le_bytes 2 (sf_inline_offset f)"
  by (simp add: slot_bytes_def)

lemma shift_inline_slot:
  assumes q: "page_ok q" "20 + 40 * j + 40 \<le> pg_len q" "pg_bytes q = a @ slot_bytes (owner_fields io ow) @ b" "length a = 20 + 40 * j"
    and io: "io \<noteq> 0" "io + 40 < 2 ^ 16"
  shows "shift_inline q j = Inr (q\<lparr>pg_bytes := a @ slot_bytes (owner_fields (io + 40) ow) @ b\<rparr>)"
proof -
  let ?f = "owner_fields io ow"
  have r: "page_u16 q (20 + j * 40 + 32) = Inr (sf_inline_offset ?f)"
    using q by (simp add: page_u16_eq slot_bytes_offset_field mult.commute)
  show ?thesis
  proof (cases "ow_inline ow = []")
    case True
    then have "owner_fields (io + 40) ow = ?f" by (simp add: owner_fields_def)
    moreover have "q\<lparr>pg_bytes := a @ slot_bytes ?f @ b\<rparr> = q" using q(3) by simp
    ultimately show ?thesis using r True by (simp add: shift_inline_def Let_def OWNER_HEADER_def OWNER_BYTES_def owner_fields_def)
  next
    case False
    have u: "unat (of_nat io :: u16) = io" "unat (of_nat (io + 40) :: u16) = io + 40" using io(2) by (simp_all only: unat_u16_of_nat)
    have nz: "(of_nat io :: u16) \<noteq> 0" using u(1) io(1) by auto
    have add: "checked_add_w (of_nat io :: u16) (of_nat 40) = Some (of_nat (io + 40))"
      using u io(2) by (simp add: checked_add_w_def)
    have f: "?f\<lparr>sf_inline_offset := of_nat (io + 40)\<rparr> = owner_fields (io + 40) ow" using False by (simp add: owner_fields_def)
    have "20 + 40 * j + 34 \<le> CAPACITY" using q(1,2) by (simp add: page_ok_def)
    then have "page_put_u16 q (20 + j * 40 + 32) (of_nat (io + 40)) = Inr (q\<lparr>pg_bytes := a @ slot_bytes (owner_fields (io + 40) ow) @ b\<rparr>)"
      using slot_bytes_offset[OF q(4), of "of_nat (io + 40)" ?f b] f q(3)
      by (subst page_put_u16_eq[OF q(1)]) (simp_all add: mult.commute)
    then show ?thesis
      using r nz add False by (simp add: shift_inline_def Let_def OWNER_HEADER_def OWNER_BYTES_def owner_fields_def del: of_nat_add)
  qed
qed

lemma shift_inline_all:
  assumes "page_ok q" "20 + 40 * (j + length os) \<le> pg_len q" "pg_bytes q = a @ owner_slots io os @ b" "length a = 20 + 40 * j"
    "io \<noteq> 0" "io + length (inlines os) + 40 < 2 ^ 16"
  shows "try_fold shift_inline q [j..<j + length os] = Inr (q\<lparr>pg_bytes := a @ owner_slots (io + 40) os @ b\<rparr>)"
  using assms
proof (induction os arbitrary: q j a io)
  case Nil
  then have "q\<lparr>pg_bytes := a @ b\<rparr> = q" by simp
  then show ?case by simp
next
  case (Cons ow os)
  let ?s = "slot_bytes (owner_fields (io + 40) ow)"
  let ?q = "q\<lparr>pg_bytes := a @ ?s @ owner_slots (io + length (ow_inline ow)) os @ b\<rparr>"
  have st: "shift_inline q j = Inr ?q"
    using Cons.prems by (intro shift_inline_slot) simp_all
  have e: "[j..<j + length (ow # os)] = j # [Suc j..<Suc j + length os]" by (simp add: upt_rec)
  have ok: "page_ok ?q" using Cons.prems(1,3) by (simp add: page_ok_def)
  have "try_fold shift_inline ?q [Suc j..<Suc j + length os] =
      Inr (?q\<lparr>pg_bytes := (a @ ?s) @ owner_slots (io + length (ow_inline ow) + 40) os @ b\<rparr>)"
    using Cons.prems ok by (intro Cons.IH) simp_all
  then show ?case unfolding e by (simp add: st ac_simps)
qed

section \<open>The record of a new owner\<close>

definition new_owner :: "u32 \<Rightarrow> nat \<Rightarrow> incarnation \<Rightarrow> root_tid \<Rightarrow> u32 \<Rightarrow> u32 \<Rightarrow> bytes \<Rightarrow> owner" where
  "new_owner block slot incarnation root tokens terms data =
     \<lparr>ow_reference = \<lparr>or_page = block, or_slot = of_nat slot, or_incarnation = incarnation\<rparr>, ow_root = root,
      ow_publication = Allocated, ow_live = False, ow_tokens = tokens, ow_terms = terms, ow_data_head = NO_BLOCK,
      ow_data_bytes = of_nat (length data), ow_inline = (if length data \<le> INLINE_BYTES then data else [])\<rparr>"

definition append_fits :: "page \<Rightarrow> bytes \<Rightarrow> bool" where
  "append_fits p data \<longleftrightarrow>
     pg_len p + 40 + (if length data \<le> INLINE_BYTES then length data else 0) \<le> CAPACITY"

definition payload_ok :: "u32 \<Rightarrow> u32 \<Rightarrow> bytes \<Rightarrow> bool" where
  "payload_ok tokens terms data \<longleftrightarrow>
     tokens \<le> MAX_DOCUMENT_TOKENS \<and> terms \<le> tokens \<and> 16 \<le> length data \<and> length data \<le> MAX_DOCUMENT_BYTES"

lemma new_owner_ok:
  assumes "payload_ok tokens terms data" "incarnation \<noteq> 0" "tid_ok layout root"
  shows "slot_owner layout block i (new_owner block i incarnation root tokens terms data)"
proof -
  have "unat (of_nat (length data) :: u32) = length data"
    using assms(1) by (intro unat_u32_of_nat) (simp add: payload_ok_def MAX_DOCUMENT_BYTES_def)
  then show ?thesis using assms by (auto simp: slot_owner_def owner_ok_def new_owner_def payload_ok_def)
qed

lemma owner_record_write_eq:
  assumes "wr_ok w" "40 \<le> wr_room w"
  shows "owner_record_write incarnation root tokens terms (length data) io
      (length (ow_inline (new_owner block slot incarnation root tokens terms data))) w =
    Inr (wr_append w (slot_bytes (owner_fields io (new_owner block slot incarnation root tokens terms data))))"
  using assms by (simp add: owner_record_write_def codec_simps slot_bytes_def owner_fields_def new_owner_def bool_tag_def)

section \<open>The append\<close>

lemma owner_page_pieces:
  assumes "owner_page layout p os"
  obtains h z where "length h = 16" "length z = CAPACITY - pg_len p" "take 16 (page_used p) = h"
    "pg_bytes p = h @ le_bytes 2 (of_nat (length os) :: u16) @ le_bytes 2 (0 :: u16) @ owner_slots (20 + 40 * length os) os @ inlines os @ z"
proof -
  have k: "page_ok p" "drop 16 (page_used p) = owner_body os" using assms by (simp_all add: owner_page_def)
  have "pg_bytes p = page_used p @ drop (pg_len p) (pg_bytes p)" by (simp add: page_used_def)
  also have "page_used p = take 16 (page_used p) @ owner_body os" using k(2) by (metis append_take_drop_id)
  finally have "pg_bytes p = take 16 (page_used p) @ owner_body os @ drop (pg_len p) (pg_bytes p)" by simp
  moreover have "16 \<le> pg_len p" using owner_page_len(1)[OF assms] by simp
  ultimately show ?thesis
    using that[of "take 16 (page_used p)" "drop (pg_len p) (pg_bytes p)"] k(1) by (simp add: owner_body_def page_ok_def)
qed

lemma page_append_owner_rep:
  assumes r: "owner_page layout p os" and d: "payload_ok tokens terms data" and f: "append_fits p data"
    and i: "incarnation \<noteq> 0" and t: "tid_ok layout root"
  defines "new \<equiv> new_owner (pg_block p) (length os) incarnation root tokens terms data"
  shows "\<exists>bs. page_append_owner p incarnation root tokens terms data =
      Inr (Some (ow_reference new), p\<lparr>pg_len := pg_len p + 40 + length (ow_inline new), pg_bytes := bs\<rparr>) \<and>
    owner_page layout (p\<lparr>pg_len := pg_len p + 40 + length (ow_inline new), pg_bytes := bs\<rparr>) (os @ [new]) \<and> take 16 bs = take 16 (pg_bytes p)"
proof -
  note n = owner_page_count[OF r] and l = owner_page_len[OF r]
  have k: "page_ok p" "pg_kind p = Owners" "\<forall>i < length os. slot_owner layout (pg_block p) i (os ! i)" using r by (simp_all add: owner_page_def)
  obtain h z where z: "length h = 16" "length z = CAPACITY - pg_len p" "take 16 (page_used p) = h"
    "pg_bytes p = h @ le_bytes 2 (of_nat (length os) :: u16) @ le_bytes 2 (0 :: u16) @ owner_slots (20 + 40 * length os) os @ inlines os @ z"
    by (rule owner_page_pieces[OF r])
  let ?c = "of_nat (length os) :: u16" let ?off = "20 + 40 * length os" let ?inl = "ow_inline new" let ?len = "pg_len p + 40 + length ?inl"
  let ?x = "h @ le_bytes 2 ?c @ le_bytes 2 (0 :: u16)" let ?z = "drop 40 z"
  let ?v = "slot_bytes (owner_fields (pg_len p + 40) new)"
  have inl: "?inl = (if length data \<le> INLINE_BYTES then data else [])" by (simp add: new_def new_owner_def)
  have fit: "?len \<le> CAPACITY" using f by (simp add: append_fits_def inl split: if_splits)
  have lz: "40 + length ?inl \<le> length z" using fit z(2) by simp
  define g where "g = take 40 (inlines os @ z)"
  have lg: "length g = 40" using lz by (simp add: g_def)
  have so: "slot_offset ?c = ?off" by (simp add: slot_offset_def n(2) OWNER_HEADER_def OWNER_BYTES_def)
  have b: "pg_bytes p = ?x @ owner_slots ?off os @ inlines os @ z" using z(4) by simp
  have lx: "length ?x = 20" using z(1) by simp
  define p1 where "p1 = p\<lparr>pg_bytes := ?x @ owner_slots ?off os @ g @ inlines os @ ?z\<rparr>"
  have "take (pg_len p - ?off) (drop ?off (pg_bytes p)) = inlines os" using l(1) lx by (simp add: b)
  then have c1: "page_copy_within p ?off (pg_len p) (?off + 40) = p1"
    using lx lz by (simp add: page_copy_within_def page_copy_patch p1_def b patch_append_right) (simp add: patch_def g_def)
  have ok1: "page_ok p1" using k(1) lz lg arg_cong[OF b, of length] l(1) lx by (simp add: p1_def page_ok_def)
  define p2 where "p2 = p\<lparr>pg_bytes := ?x @ owner_slots (?off + 40) os @ g @ inlines os @ ?z\<rparr>"
  have c2: "try_fold shift_inline p1 [0..<length os] = Inr p2"
    using shift_inline_all[OF ok1, of 0 os ?x ?off "g @ inlines os @ ?z"] lx l(1) fit by (simp add: p1_def p2_def CAPACITY_value)
  define p3 where "p3 = p\<lparr>pg_len := ?len, pg_bytes := ?x @ owner_slots (?off + 40) os @ ?v @ inlines os @ ?z\<rparr>"
  have ok2: "page_ok (p2\<lparr>pg_len := ?len\<rparr>)" using ok1 fit by (simp add: p1_def p2_def page_ok_def)
  have w: "owner_record_write incarnation root tokens terms (length data) io (length ?inl) w = Inr (wr_append w (slot_bytes (owner_fields io new)))"
    if "wr_ok w" "40 \<le> wr_room w" for io w
    using owner_record_write_eq[OF that] unfolding new_def by blast
  have c3: "page_write (p2\<lparr>pg_len := ?len\<rparr>) ?off 40 (owner_record_write incarnation root tokens terms (length data) (pg_len p + 40) (length ?inl)) = Inr p3"
  proof (subst page_write_patch[OF ok2, where v = ?v])
    show "?off + 40 \<le> CAPACITY" using fit l(1) by simp
    show "owner_record_write incarnation root tokens terms (length data) (pg_len p + 40) (length ?inl)
        (writer_new (take 40 (drop ?off (pg_bytes (p2\<lparr>pg_len := ?len\<rparr>))))) =
      Inr (wr_append (writer_new (take 40 (drop ?off (pg_bytes (p2\<lparr>pg_len := ?len\<rparr>))))) ?v)"
      using page_ok_slice[OF ok2, of 40 ?off] lx lg by (intro w) (simp_all add: p2_def)
    show "Inr (p2\<lparr>pg_len := ?len, pg_bytes := patch ?off ?v (pg_bytes (p2\<lparr>pg_len := ?len\<rparr>))\<rparr>) = Inr p3"
      using lx lg by (simp add: p2_def p3_def patch_append_right) (simp add: patch_def)
  qed simp
  define p4 where "p4 = p\<lparr>pg_len := ?len, pg_bytes := ?x @ owner_slots (?off + 40) os @ ?v @ inlines os @ ?inl @ drop (length ?inl) ?z\<rparr>"
  have c4: "page_copy p3 (pg_len p + 40) ?inl = p4"
    using lx l(1) by (simp add: page_copy_patch p3_def p4_def patch_append_right) (simp add: patch_def)
  have ok4: "page_ok p4" using ok2 lz lg by (simp add: p4_def p2_def page_ok_def)
  let ?y = "h @ le_bytes 2 (?c + 1) @ le_bytes 2 (0 :: u16)"
  let ?bs = "?y @ owner_slots (?off + 40) os @ ?v @ inlines os @ ?inl @ drop (length ?inl) ?z" let ?p = "p\<lparr>pg_len := ?len, pg_bytes := ?bs\<rparr>"
  have c5: "page_put_u16 p4 16 (?c + 1) = Inr ?p"
    using z(1) by (subst page_put_u16_eq[OF ok4]) (simp_all add: CAPACITY_value p4_def patch_append_right, simp add: patch_def)
  have ref: "ow_reference new = \<lparr>or_page = pg_block p, or_slot = ?c, or_incarnation = incarnation\<rparr>" by (simp add: new_def new_owner_def)
  have dd: "\<not> (MAX_DOCUMENT_TOKENS < tokens \<or> tokens < terms \<or> \<not> (16 \<le> length data \<and> length data \<le> MAX_DOCUMENT_BYTES))"
    using d by (auto simp: payload_ok_def)
  have pl: "pg_len p2 = pg_len p" by (simp add: p2_def)
  have eq: "page_append_owner p incarnation root tokens terms data = Inr (Some (ow_reference new), ?p)"
    unfolding page_append_owner_def Let_def n(1)
    using dd fit c1 c2 c3 c4 c5 ref by (simp add: n(2) so OWNER_BYTES_def pl inl[symmetric])
  have used: "page_used ?p = ?y @ owner_slots (?off + 40) os @ ?v @ inlines os @ ?inl"
    using z(1) l(1) by (simp add: page_used_def)
  then have "drop 16 (page_used ?p) = owner_body (os @ [new])"
    using z(1) l(1) by (simp add: owner_body_def owner_slots_append ac_simps)
  moreover have "page_ok ?p" using ok4 by (simp add: p4_def page_ok_def)
  moreover have "\<forall>j < length (os @ [new]). slot_owner layout (pg_block p) j ((os @ [new]) ! j)"
    using k(3) new_owner_ok[OF d i t, of "pg_block p" "length os"] by (auto simp: nth_append new_def less_Suc_eq)
  ultimately have "owner_page layout ?p (os @ [new])" using k(2) by (simp add: owner_page_def)
  moreover have "take 16 ?bs = take 16 (pg_bytes p)" using z(1) by (simp add: b)
  ultimately show ?thesis using eq by blast
qed

section \<open>Owner pages as lists\<close>

lemma page_change_owner_succeeds:
  assumes r: "owner_page layout p os" and i: "unat (or_slot reference) < length os" "ow_reference (os ! unat (or_slot reference)) = reference"
    and a: "change_allowed (os ! unat (or_slot reference)) change"
  shows "\<exists>p'. page_change_owner p reference change layout = Inr p'"
proof -
  let ?i = "unat (or_slot reference)"
  have o': "page_owner p (or_slot reference) layout = Inr (os ! ?i)" using owner_page_owner[OF r i(1)] by simp
  have k: "page_ok p" "20 + 40 * ?i + 40 \<le> CAPACITY" using r owner_page_len(1)[OF r] i(1) by (auto simp: owner_page_def page_ok_def)
  let ?n = "owner_after (os ! ?i) change"
  let ?q = "p\<lparr>pg_bytes := (pg_bytes p)[slot_offset (or_slot reference) + 14 := publication_tag (ow_publication ?n),
    slot_offset (or_slot reference) + 15 := bool_tag (ow_live ?n)]\<rparr>"
  have t: "owner_transition (os ! ?i) change = Inr (publication_tag (ow_publication ?n), ow_live ?n, ow_data_head ?n)"
    using a by (simp add: owner_transition_allowed)
  have "page_ok ?q" using k(1) by (simp add: page_ok_def)
  from page_put_u32_eq[OF this, of "slot_offset (or_slot reference) + 24" "ow_data_head ?n"] k(2)
  have "\<exists>p'. page_put_u32 ?q (slot_offset (or_slot reference) + 24) (ow_data_head ?n) = Inr p'"
    by (auto simp: slot_offset_def OWNER_HEADER_def OWNER_BYTES_def)
  then show ?thesis using o' i(2) t by (simp add: page_change_owner_def Let_def)
qed

text \<open>C38: owner pages refine lists of owners. A page that passes the owner checks of validate holds one list
  of owners: its slots read exactly the elements and its count is the length. Appending a document to
  it fails on an invalid document, leaves the page alone when it is full, and otherwise yields a valid
  page of the list with one allocated, not yet live owner at the end. A change succeeds exactly when
  the lifecycle allows it for the referenced owner, and then yields a valid page in which that owner
  alone has changed.\<close>

theorem owner_page_refines:
  assumes "page_ok p" "pg_kind p = Owners" "validate_owners p layout = Inr ()" "incarnation \<noteq> 0" "tid_ok layout root"
  shows "\<exists>os. page_owner_count p = Inr (of_nat (length os)) \<and> (\<forall>i < length os. page_owner p (of_nat i) layout = Inr (os ! i)) \<and>
    (if \<not> payload_ok tokens terms data then page_append_owner p incarnation root tokens terms data = Inl InvalidDocument
     else if \<not> append_fits p data then page_append_owner p incarnation root tokens terms data = Inr (None, p)
     else let new = new_owner (pg_block p) (length os) incarnation root tokens terms data in
       \<exists>p'. page_append_owner p incarnation root tokens terms data = Inr (Some (ow_reference new), p') \<and>
         validate_owners p' layout = Inr () \<and> page_owner_count p' = Inr (of_nat (length os + 1)) \<and>
         (\<forall>i \<le> length os. page_owner p' (of_nat i) layout = Inr ((os @ [new]) ! i))) \<and>
    (let i = unat (or_slot reference) in
     if i < length os \<and> ow_reference (os ! i) = reference \<and> change_allowed (os ! i) change
     then \<exists>p'. page_change_owner p reference change layout = Inr p' \<and> validate_owners p' layout = Inr () \<and>
       (\<forall>j < length os. page_owner p' (of_nat j) layout = Inr (if j = i then owner_after (os ! i) change else os ! j))
     else \<exists>e. page_change_owner p reference change layout = Inl e)"
proof -
  obtain os where r: "owner_page layout p os" by (rule validated_owner_page[OF assms(1-3)])
  note n = owner_page_count[OF r] and l = owner_page_len[OF r]
  let ?new = "new_owner (pg_block p) (length os) incarnation root tokens terms data" let ?i = "unat (or_slot reference)"
  have a: "page_append_owner p incarnation root tokens terms data = Inl InvalidDocument" if "\<not> payload_ok tokens terms data"
    using that n(1) by (auto simp: page_append_owner_def payload_ok_def not_le)
  have b: "page_append_owner p incarnation root tokens terms data = Inr (None, p)" if "payload_ok tokens terms data" "\<not> append_fits p data"
    using that n(1) by (auto simp: page_append_owner_def payload_ok_def append_fits_def OWNER_BYTES_def Let_def)
  have c: "\<exists>p'. page_append_owner p incarnation root tokens terms data = Inr (Some (ow_reference ?new), p') \<and>
      validate_owners p' layout = Inr () \<and> page_owner_count p' = Inr (of_nat (length os + 1)) \<and>
      (\<forall>i \<le> length os. page_owner p' (of_nat i) layout = Inr ((os @ [?new]) ! i))" if "payload_ok tokens terms data" "append_fits p data"
  proof -
    from page_append_owner_rep[OF r that assms(4,5)] obtain p' where p':
      "page_append_owner p incarnation root tokens terms data = Inr (Some (ow_reference ?new), p')" "owner_page layout p' (os @ [?new])" by blast
    show ?thesis
      using p' owner_page_validate[OF p'(2)] owner_page_count(1)[OF p'(2)] owner_page_owner[OF p'(2)] by (auto simp: add.commute)
  qed
  have d: "\<exists>p'. page_change_owner p reference change layout = Inr p' \<and> validate_owners p' layout = Inr () \<and>
      (\<forall>j < length os. page_owner p' (of_nat j) layout = Inr (if j = ?i then owner_after (os ! ?i) change else os ! j))"
    if g: "?i < length os" "ow_reference (os ! ?i) = reference" "change_allowed (os ! ?i) change"
  proof -
    obtain p' where p': "page_change_owner p reference change layout = Inr p'" using page_change_owner_succeeds[OF r g] by blast
    note q = page_change_owner_rep(4)[OF r p']
    show ?thesis using p' owner_page_validate[OF q] owner_page_owner[OF q] g(1) by (auto simp: nth_list_update)
  qed
  have e: "\<exists>e. page_change_owner p reference change layout = Inl e"
    if "\<not> (?i < length os \<and> ow_reference (os ! ?i) = reference \<and> change_allowed (os ! ?i) change)"
    using that page_change_owner_rep(1-3)[OF r] by (cases "page_change_owner p reference change layout") auto
  show ?thesis
    using n(1) owner_page_owner[OF r] a b c d e by (intro exI[of _ os]) (simp add: Let_def)
qed

text \<open>A fresh owner page is the empty list.\<close>

lemma page_owners_rep:
  assumes "page_owners block = Inr p"
  shows "owner_page layout p []" "take 16 (pg_bytes p) = page_head 2 0 block NO_BLOCK" "pg_block p = block" "pg_len p = 20"
    "block \<noteq> NO_BLOCK" "block \<noteq> 0"
proof -
  from assms have p: "block \<noteq> NO_BLOCK" "block \<noteq> 0" "p = \<lparr>pg_block = block, pg_kind = Owners, pg_len = 20, pg_initialize = False,
      pg_bytes = page_head 2 0 block NO_BLOCK @ replicate (CAPACITY - 16) 0\<rparr>"
    by (auto simp: page_owners_def page_new_eq OWNER_HEADER_def split: if_splits)
  have z: "le_bytes 2 (0 :: u16) @ le_bytes 2 (0 :: u16) = replicate 4 0" by (simp add: le_bytes_def numeral_nat)
  show "owner_page layout p []"
    using p(3) by (simp add: owner_page_def page_ok_def CAPACITY_value page_used_def owner_body_def z)
  show "take 16 (pg_bytes p) = page_head 2 0 block NO_BLOCK" "pg_block p = block" "pg_len p = 20" "block \<noteq> NO_BLOCK" "block \<noteq> 0"
    using p by simp_all
qed

definition sample_layout :: heap_layout where
  "sample_layout = \<lparr>max_offset = 291\<rparr>"

theorem owner_page_refines_witness:
  "\<exists>p p' new. page_owners 1 = Inr p \<and>
    page_append_owner p 5 (RootTid 3 1) 2 1 (replicate 16 0) = Inr (Some (ow_reference new), p') \<and>
    page_owner p' 0 sample_layout = Inr new \<and> ow_publication new = Allocated \<and> \<not> ow_live new"
proof -
  obtain p where p: "page_owners 1 = Inr p" by (auto simp: page_owners_def page_new_eq NO_BLOCK_def)
  note r = page_owners_rep[OF p] and v = owner_page_validate[OF page_owners_rep(1)[OF p, of sample_layout]]
  have k: "page_ok p" "pg_kind p = Owners" using r(1) by (simp_all add: owner_page_def)
  have t: "tid_ok sample_layout (RootTid 3 1)" by (simp add: tid_ok_def sample_layout_def)
  have d: "payload_ok 2 1 (replicate 16 0)" "append_fits p (replicate 16 0)"
    using r(4) by (simp_all add: payload_ok_def append_fits_def MAX_DOCUMENT_TOKENS_def MAX_DOCUMENT_BYTES_def CAPACITY_value)
  obtain os p' where os: "page_owner_count p = Inr (of_nat (length os))" and
    p': "page_append_owner p 5 (RootTid 3 1) 2 1 (replicate 16 0) = Inr (Some (ow_reference (new_owner (pg_block p) (length os) 5 (RootTid 3 1) 2 1 (replicate 16 0))), p')"
      "\<forall>i \<le> length os. page_owner p' (of_nat i) sample_layout = Inr ((os @ [new_owner (pg_block p) (length os) 5 (RootTid 3 1) 2 1 (replicate 16 0)]) ! i)"
    using owner_page_refines[OF k v _ t, of 5 2 1 "replicate 16 0" "\<lparr>or_page = 1, or_slot = 0, or_incarnation = 5\<rparr>" Abandon] d
    unfolding Let_def by auto
  have "of_nat (length os) = (0 :: u16)" using os owner_page_count(1)[OF r(1)] by simp
  then have "page_owner p' 0 sample_layout = Inr (new_owner (pg_block p) (length os) 5 (RootTid 3 1) 2 1 (replicate 16 0))"
    using p'(2)[rule_format, of "length os"] by simp
  then show ?thesis using p p'(1) by (auto simp: new_owner_def)
qed

end
