(* ===== verification/Hosts.thy ===== *)
theory Hosts
  imports OwnerAppend SealedPages Publish
begin

text \<open>
  Durable images: what a host stores for a block and what a later read of it yields, pages whose kind
  is the one their header names, and the interface of a host that the writer relies on.
\<close>

section \<open>Stored images\<close>

definition stored_page :: "u32 \<Rightarrow> bytes \<Rightarrow> page result" where
  "stored_page b bs = page_read_with b (memory_fill bs)"

definition settled :: "u32 \<Rightarrow> page_kind \<Rightarrow> bytes \<Rightarrow> page" where
  "settled b kind bs = \<lparr>pg_block = b, pg_kind = kind, pg_len = length bs, pg_initialize = False,
     pg_bytes = bs @ replicate (CAPACITY - length bs) 0\<rparr>"

lemma settled_simps [simp]:
  "pg_block (settled b kind bs) = b" "pg_kind (settled b kind bs) = kind" "pg_len (settled b kind bs) = length bs"
  "page_used (settled b kind bs) = bs"
  by (simp_all add: settled_def page_used_def)

lemma page_ok_settled: "length bs \<le> CAPACITY \<Longrightarrow> page_ok (settled b kind bs)"
  by (simp add: page_ok_def settled_def)

lemma stored_page_header:
  "stored_page b bs = Inr p \<longleftrightarrow> b \<noteq> NO_BLOCK \<and> length bs \<le> CAPACITY \<and> header_check (settled b Zero bs) = Inr p"
proof -
  have "memory_fill bs (replicate CAPACITY 0) =
      (if length bs > CAPACITY then (replicate CAPACITY 0, Inl InvalidState) else (bs @ replicate (CAPACITY - length bs) 0, Inr (length bs)))"
    by (simp add: memory_fill_def)
  then show ?thesis
    by (auto simp: stored_page_def page_read_with_def page_reload_with_def Let_def settled_def split: sum.splits)
qed

lemma page_head_pieces:
  assumes "16 \<le> length bs" "take 4 bs = PIN2" "from_le (take 2 (drop 4 bs)) = (2 :: u16)" "from_le (take 4 (drop 8 bs)) = b"
  shows "take 16 bs = page_head (bs ! 6) (bs ! 7) b (from_le (take 4 (drop 12 bs)))"
proof -
  have w: "take 2 (drop 4 bs) = le_bytes 2 (2 :: u16)" "take 4 (drop 8 bs) = le_bytes 4 b"
    "take 4 (drop 12 bs) = le_bytes 4 (from_le (take 4 (drop 12 bs)) :: u32)"
    using assms le_bytes_take[of 2 "drop 4 bs", where 'a = 16] le_bytes_take[of 4 "drop 8 bs", where 'a = 32]
      le_bytes_take[of 4 "drop 12 bs", where 'a = 32] by simp_all
  have c: "take 2 (drop 6 bs) = [bs ! 6, bs ! 7]"
    using assms(1) by (simp add: numeral_2_eq_2 take_Suc_conv_app_nth)
  have s: "take (i + j) bs = take i bs @ take j (drop i bs)" for i j by (rule take_add)
  have "take 16 bs = take 4 bs @ take 2 (drop 4 bs) @ take 2 (drop 6 bs) @ take 4 (drop 8 bs) @ take 4 (drop 12 bs)"
    using s[of 4 2] s[of 6 2] s[of 8 4] s[of 12 4] by simp
  then show ?thesis using assms(2) w c by (simp add: page_head_def)
qed

lemma stored_page_Inr:
  assumes "stored_page b bs = Inr p"
  shows "\<exists>kind. p = settled b kind bs \<and> b \<noteq> NO_BLOCK \<and> length bs \<le> CAPACITY \<and>
    (bs = [] \<and> kind = Zero \<or>
     16 \<le> length bs \<and> page_kind_of_tag (bs ! 6) = Some kind \<and> page_check_next p = Inr () \<and>
     (bs ! 7 = 0 \<or> kind = DictionaryPage) \<and> (\<exists>nxt. take 16 bs = page_head (bs ! 6) (bs ! 7) b nxt))"
proof -
  let ?p = "settled b Zero bs"
  have h: "b \<noteq> NO_BLOCK" "length bs \<le> CAPACITY" "header_check ?p = Inr p" using assms by (simp_all add: stored_page_header)
  show ?thesis
  proof (cases "bs = []")
    case True
    then show ?thesis using h by (auto simp: header_check_def)
  next
    case False
    have so: "slice_ok bs" using h(2) by (simp add: slice_ok_def CAPACITY_value)
    have l: "16 \<le> length bs"
      using h(3) False
      by (auto simp: header_check_def res_simps reader_remaining_rest[of "reader_new bs"] dest!: reader_take_remaining reader_word_remaining split: if_splits)
    have n: "drop 6 bs = bs ! 6 # drop 7 bs" "drop 7 bs = bs ! 7 # drop 8 bs" using Cons_nth_drop_Suc[of 6 bs] Cons_nth_drop_Suc[of 7 bs] l by simp_all
    from h(3) False so l n obtain kind where k: "take 4 bs = PIN2" "from_le (take 2 (drop 4 bs)) = (2 :: u16)"
      "page_kind_of_tag (bs ! 6) = Some kind" "bs ! 7 = 0 \<or> kind = DictionaryPage" "from_le (take 4 (drop 8 bs)) = b"
      "page_check_next (?p\<lparr>pg_kind := kind\<rparr>) = Inr ()" "p = ?p\<lparr>pg_kind := kind\<rparr>"
      by (auto simp: header_check_def codec_simps codec_fail_def Let_def res_simps split: if_splits)
    have "p = settled b kind bs" using k(7) by (simp add: settled_def)
    then show ?thesis using k h(1,2) l page_head_pieces[OF l k(1,2,5)] by auto
  qed
qed

text \<open>An owner page is read back as it was stored.\<close>

lemma stored_owner_page:
  assumes "b \<noteq> NO_BLOCK" "16 \<le> length bs" "length bs \<le> CAPACITY" "take 16 bs = page_head 2 0 b nxt"
    "page_check_next (settled b Owners bs) = Inr ()"
  shows "stored_page b bs = Inr (settled b Owners bs)"
proof -
  have so: "slice_ok bs" using assms(3) by (simp add: slice_ok_def CAPACITY_value)
  obtain t where bs: "bs = page_head 2 0 b nxt @ t" using assms(4) by (metis append_take_drop_id)
  have p: "(settled b Zero bs)\<lparr>pg_kind := Owners\<rparr> = settled b Owners bs" by (simp add: settled_def)
  have "header_check (settled b Zero bs) = Inr (settled b Owners bs)"
    using assms(3,5) so p unfolding bs
    by (simp add: header_check_def codec_simps Let_def page_kind_of_tag_def page_head_def PIN2_def)
  then show ?thesis using assms(1,3) by (simp add: stored_page_header)
qed

section \<open>Pages whose header names their kind\<close>

definition is_page :: "page_kind \<Rightarrow> u32 \<Rightarrow> page \<Rightarrow> bool" where
  "is_page kind b p \<longleftrightarrow>
     pg_kind p = kind \<and> pg_block p = b \<and> 7 \<le> length (pg_bytes p) \<and> page_kind_tag kind = Some (pg_bytes p ! 6)"

lemma page_kind_tag_inverse: "page_kind_tag kind = Some tag \<longleftrightarrow> page_kind_of_tag tag = Some kind"
  by (cases kind) (auto simp: page_kind_of_tag_def)

lemma is_page_simps [simp]:
  "is_page kind b (p\<lparr>pg_len := n\<rparr>) = is_page kind b p" "is_page kind b (p\<lparr>pg_initialize := f\<rparr>) = is_page kind b p"
  by (simp_all add: is_page_def)

lemma is_page_prefix: "is_page kind b p \<Longrightarrow> 7 \<le> k \<Longrightarrow> is_page kind b (p\<lparr>pg_bytes := take k (pg_bytes p) @ xs\<rparr>)"
  by (auto simp: is_page_def nth_append min_def)

named_theorems kept

lemma is_page_write [kept]: "page_write p k n f = Inr p' \<Longrightarrow> is_page kind b p \<Longrightarrow> 7 \<le> k \<Longrightarrow> is_page kind b p'"
  by (auto simp: page_write_def res_simps intro: is_page_prefix)

lemma is_page_copy [kept]: "is_page kind b p \<Longrightarrow> 7 \<le> k \<Longrightarrow> is_page kind b (page_copy p k v)"
  by (auto simp: page_copy_def intro: is_page_prefix)

lemma is_page_put [kept]:
  "page_put_u16 p k v16 = Inr p' \<Longrightarrow> is_page kind b p \<Longrightarrow> 7 \<le> k \<Longrightarrow> is_page kind b p'"
  "page_put_u32 p k v32 = Inr p' \<Longrightarrow> is_page kind b p \<Longrightarrow> 7 \<le> k \<Longrightarrow> is_page kind b p'"
  "page_put_u64 p k v64 = Inr p' \<Longrightarrow> is_page kind b p \<Longrightarrow> 7 \<le> k \<Longrightarrow> is_page kind b p'"
  by (auto simp: page_put_u16_def page_put_u32_def page_put_u64_def dest: is_page_write split: if_splits)

lemma page_new_is_page: "page_new b kind = Inr p \<Longrightarrow> is_page kind b p"
  by (auto simp: page_new_eq is_page_def nth_append page_head_def PIN2_def CAPACITY_value split: if_splits option.splits)

lemma page_set_next_kept [kept]: "page_set_next p nxt = Inr p' \<Longrightarrow> is_page kind b p \<Longrightarrow> is_page kind b p'"
  by (auto simp: page_set_next_def res_simps intro: is_page_put)

lemma meta_kept [kept]:
  "page_reserve_incarnation p = Inr (v, p') \<Longrightarrow> is_page kind b p \<Longrightarrow> is_page kind b p'"
  "page_set_owner_chain p head tail = Inr p' \<Longrightarrow> is_page kind b p \<Longrightarrow> is_page kind b p'"
  "page_set_free_head p block = Inr p' \<Longrightarrow> is_page kind b p \<Longrightarrow> is_page kind b p'"
  "page_set_bucket p bucket head tail = Inr p' \<Longrightarrow> is_page kind b p \<Longrightarrow> is_page kind b p'"
  "page_set_rewrite_journal p journal = Inr p' \<Longrightarrow> is_page kind b p \<Longrightarrow> is_page kind b p'"
  by (auto simp: page_reserve_incarnation_def page_set_owner_chain_def page_set_free_head_def page_set_bucket_def
      page_set_rewrite_journal_def META_HEADER_def Let_def res_simps dest!: is_page_put split: if_splits option.splits)

lemma page_set_grouped_state_kept [kept]: "page_set_grouped_state p state = Inr p' \<Longrightarrow> is_page kind b p \<Longrightarrow> is_page kind b p'"
  by (auto simp: page_set_grouped_state_def META_LEGACY_BYTES_def META_HEADER_def BUCKETS_def res_simps intro!: is_page_copy split: if_splits)

lemma page_append_posting_kept [kept]:
  "page_append_posting p o' = Inr (room, p') \<Longrightarrow> is_page kind b p \<Longrightarrow> 7 \<le> pg_len p \<Longrightarrow> is_page kind b p' \<and> 7 \<le> pg_len p'"
  by (auto simp: page_append_posting_def res_simps page_write_def is_page_prefix split: if_splits)

lemma page_append_term_kept [kept]:
  "page_append_term p text first = Inr (r, p') \<Longrightarrow> is_page kind b p \<Longrightarrow> 7 \<le> pg_len p \<Longrightarrow> is_page kind b p'"
  by (auto simp: page_append_term_def Let_def res_simps dest: is_page_write split: if_splits)

lemma new_pages [kept]:
  "page_fragment b o' nxt offset data = Inr p \<Longrightarrow> is_page Fragment b p"
  "page_postings b posted = Inr p \<Longrightarrow> is_page Postings b p \<and> 7 \<le> pg_len p"
  "page_dictionary b = Inr p \<Longrightarrow> is_page DictionaryPage b p \<and> 7 \<le> pg_len p"
  "page_packed_dictionary b = Inr p \<Longrightarrow> is_page DictionaryPage b p \<and> 7 \<le> pg_len p"
proof -
  show "page_fragment b o' nxt offset data = Inr p \<Longrightarrow> is_page Fragment b p"
    by (auto simp: page_fragment_def Let_def PAGE_HEADER_def res_simps dest!: page_new_is_page is_page_write page_set_next_kept split: if_splits)
  show "page_postings b posted = Inr p \<Longrightarrow> is_page Postings b p \<and> 7 \<le> pg_len p"
    by (auto simp: page_postings_eq is_page_def posting_head_def page_head_def PIN2_def nth_append CAPACITY_value POSTING_HEADER_def split: if_splits)
  show d: "page_dictionary b = Inr p \<Longrightarrow> is_page DictionaryPage b p \<and> 7 \<le> pg_len p" for p
    by (auto simp: page_dictionary_def dest: page_new_is_page) (auto simp: page_new_eq PAGE_HEADER_def split: if_splits)
  show "page_packed_dictionary b = Inr p \<Longrightarrow> is_page DictionaryPage b p \<and> 7 \<le> pg_len p"
    by (auto simp: page_packed_dictionary_def res_simps is_page_def dest!: d)
qed

section \<open>Term references\<close>

lemma reader_keeps_bytes:
  "reader_take r n = Inr (bs, r') \<Longrightarrow> rd_bytes r' = rd_bytes r" "reader_u16 r = Inr (v16, r') \<Longrightarrow> rd_bytes r' = rd_bytes r"
  "reader_u32 r = Inr (v32, r') \<Longrightarrow> rd_bytes r' = rd_bytes r" "reader_u64 r = Inr (v64, r') \<Longrightarrow> rd_bytes r' = rd_bytes r"
  by (auto simp: reader_u16_def reader_u32_def reader_u64_def res_simps dest!: reader_take_progress)

lemma owner_ref_read_bytes: "owner_ref_read r = Inr (o', r') \<Longrightarrow> rd_bytes r' = rd_bytes r"
  by (auto simp: owner_ref_read_def res_simps dest!: reader_keeps_bytes split: if_splits)

lemma term_entry_bytes:
  assumes "term_entry page packed r = Inr (e, r')"
  shows "rd_bytes r' = rd_bytes r" "tr_offset (te_reference e) = of_nat (rd_offset r + PAGE_HEADER)"
  using assms
  by (auto simp: term_entry_def term_second_def Let_def res_simps dest!: reader_keeps_bytes owner_ref_read_bytes split: if_splits)

lemma terms_items_offset:
  assumes "e \<in> set (fst (terms_items it))" "length (rd_bytes (ts_reader it)) < 2 ^ 16 - 16"
  shows "16 \<le> unat (tr_offset (te_reference e))"
  using assms
proof (induction it rule: terms_items.induct)
  case (1 it)
  show ?case
  proof (cases "terms_next it")
    case (Pair r it')
    show ?thesis
    proof (cases "\<exists>entry. r = Some (Inr entry)")
      case False
      then show ?thesis using 1(2) Pair by (subst (asm) terms_items.simps) (auto split: option.splits sum.splits)
    next
      case True
      then obtain entry where r: "r = Some (Inr entry)" by blast
      from Pair r obtain rd where n: "reader_remaining (ts_reader it) \<noteq> 0" "term_entry (ts_page it) (ts_packed it) (ts_reader it) = Inr (entry, rd)"
        "it' = it\<lparr>ts_reader := rd\<rparr>"
        by (auto simp: terms_next_def split: if_splits sum.splits)
      have o': "rd_offset (ts_reader it) + 16 < 2 ^ 16" using n(1) 1(3) by (simp add: reader_remaining_def)
      then have "unat (tr_offset (te_reference entry)) = rd_offset (ts_reader it) + 16"
        unfolding term_entry_bytes(2)[OF n(2)] PAGE_HEADER_def by (rule unat_u16_of_nat)
      moreover have "e = entry \<or> e \<in> set (fst (terms_items it'))"
        using 1(2) Pair r by (subst (asm) terms_items.simps) (auto split: prod.splits)
      ultimately show ?thesis using 1(1)[OF Pair[symmetric] r] 1(3) term_entry_bytes(1)[OF n(2)] n(3) by auto
    qed
  qed
qed

lemma page_term_offset:
  assumes "page_ok p" "page_term p reference = Inr e"
  shows "16 \<le> unat (tr_offset reference)"
proof -
  from assms(2) obtain it where p: "page_terms p = Inr it" by (auto simp: page_term_def res_simps split: if_splits)
  obtain entries err where i: "terms_items it = (entries, err)" by (cases "terms_items it")
  have it: "page_terms p = Inr it" "find (\<lambda>entry. te_reference entry = reference) (fst (terms_items it)) = Some e"
    using assms(2) p i by (auto simp: page_term_def split: if_splits option.splits)
  have "length (rd_bytes (ts_reader it)) < 2 ^ 16 - 16"
    using it(1) assms(1) by (auto simp: page_terms_def res_simps reader_new_def page_used_def page_ok_def CAPACITY_value)
  then show ?thesis using terms_items_offset[of e it] it(2) by (auto simp: find_Some_iff)
qed

lemma is_page_put_term:
  assumes "page_put_u32 p (unat (tr_offset reference) + k) v = Inr p'" "is_page kind b p" "16 \<le> unat (tr_offset reference)"
  shows "is_page kind b p'"
  using is_page_put(2)[OF assms(1,2)] assms(3) by simp

lemma page_set_posting_chain_kept [kept]:
  assumes "page_set_posting_chain p reference head tail = Inr p'" "is_page kind b p" "page_ok p"
  shows "is_page kind b p'"
proof -
  from assms(1) obtain e p1 where e: "page_term p reference = Inr e" "page_put_u32 p (unat (tr_offset reference) + 4) head = Inr p1"
    "page_put_u32 p1 (unat (tr_offset reference) + 8) tail = Inr p'"
    by (auto simp: page_set_posting_chain_def res_simps split: if_splits)
  note o' = page_term_offset[OF assms(3) e(1)]
  show ?thesis by (rule is_page_put_term[OF e(3) is_page_put_term[OF e(2) assms(2) o'] o'])
qed

lemma page_promote_inline_second_kept [kept]:
  assumes "page_promote_inline_second p reference block = Inr (second, p')" "is_page kind b p" "page_ok p"
  shows "is_page kind b p'"
proof -
  from assms(1) obtain e p1 p2 where e: "page_term p reference = Inr e" "page_put_u32 p (unat (tr_offset reference) + 28) 2 = Inr p1"
    "page_put_u32 p1 (unat (tr_offset reference) + 4) block = Inr p2" "page_put_u32 p2 (unat (tr_offset reference) + 8) block = Inr p'"
    by (auto simp: page_promote_inline_second_def res_simps split: if_splits)
  note o' = page_term_offset[OF assms(3) e(1)]
  show ?thesis by (rule is_page_put_term[OF e(4) is_page_put_term[OF e(3) is_page_put_term[OF e(2) assms(2) o'] o'] o'])
qed

lemma page_set_inline_second_kept [kept]:
  assumes "page_set_inline_second p reference (Some o') = Inr p'" "is_page kind b p" "page_ok p"
  shows "is_page kind b p'"
proof -
  from assms(1) obtain e p1 p2 p3 where e: "page_term p reference = Inr e"
    "page_write p (unat (tr_offset reference) + DICTIONARY_ENTRY + length (te_term e)) 16 (owner_ref_write o') = Inr p1"
    "page_put_u32 p1 (unat (tr_offset reference) + 28) 1 = Inr p2"
    "page_put_u32 p2 (unat (tr_offset reference) + 4) (pg_block p2) = Inr p3" "page_put_u32 p3 (unat (tr_offset reference) + 8) (pg_block p3) = Inr p'"
    by (auto simp: page_set_inline_second_def Let_def res_simps split: if_splits)
  note o' = page_term_offset[OF assms(3) e(1)]
  have "is_page kind b p1" using is_page_write[OF e(2) assms(2)] o' by simp
  then show ?thesis by (rule is_page_put_term[OF e(5) is_page_put_term[OF e(4) is_page_put_term[OF e(3) _ o'] o'] o'])
qed

end
