(* ===== verification/Quiet.thy ===== *)
theory Quiet
  imports Hosts
begin

text \<open>
  The interface between the writer and its host, and steps that leave every owner page alone. The
  locale states what a durable page store promises; a step is calm when it keeps the images of all
  owner pages, whether it succeeds or fails.
\<close>

section \<open>Published owners\<close>

type_synonym images = "u32 \<Rightarrow> bytes option"

definition owner_images :: "images \<Rightarrow> images" where
  "owner_images m b =
     (case m b of
        None \<Rightarrow> None
      | Some bs \<Rightarrow> (case stored_page b bs of Inl _ \<Rightarrow> None | Inr p \<Rightarrow> if pg_kind p = Owners then Some bs else None))"

text \<open>The live published owners that the image of a block holds, with their roots.\<close>

definition live_at :: "heap_layout \<Rightarrow> u32 \<Rightarrow> bytes \<Rightarrow> (owner_ref \<times> root_tid) set" where
  "live_at layout b bs =
     {(ow_reference ow, ow_root ow) |ow p slot. stored_page b bs = Inr p \<and> pg_kind p = Owners \<and>
       page_owner p slot layout = Inr ow \<and> ow_live ow \<and> ow_publication ow = Published}"

definition published :: "heap_layout \<Rightarrow> images \<Rightarrow> (owner_ref \<times> root_tid) set" where
  "published layout m = {x. \<exists>b bs. m b = Some bs \<and> x \<in> live_at layout b bs}"

lemma owner_images_Some:
  "owner_images m b = Some bs \<longleftrightarrow> m b = Some bs \<and> (\<exists>p. stored_page b bs = Inr p \<and> pg_kind p = Owners)"
  by (auto simp: owner_images_def split: option.splits sum.splits if_splits)

lemma published_owner_images: "published layout (owner_images m) = published layout m"
  by (auto simp: published_def owner_images_Some live_at_def) blast+

lemma owner_images_update:
  "owner_images (m(b \<mapsto> bs)) = (owner_images m)(b := owner_images [b \<mapsto> bs] b)"
  by (rule ext) (simp add: owner_images_def)

lemma owner_images_plain:
  assumes "owner_images m b = None" "owner_images [b \<mapsto> bs] b = None"
  shows "owner_images (m(b \<mapsto> bs)) = owner_images m"
  using assms by (subst owner_images_update) (auto simp: fun_eq_iff)

lemma is_page_image:
  assumes "is_page kind b p" "kind \<noteq> Owners"
  shows "owner_images [b' \<mapsto> page_used p] b' = None"
proof -
  have "pg_kind q \<noteq> Owners" if q: "stored_page b' (page_used p) = Inr q" for q
  proof -
    from stored_page_Inr[OF q] obtain k where k: "q = settled b' k (page_used p)" "page_used p = [] \<and> k = Zero \<or> 16 \<le> length (page_used p) \<and> page_kind_of_tag (page_used p ! 6) = Some k"
      by blast
    have "16 \<le> length (page_used p) \<Longrightarrow> page_used p ! 6 = pg_bytes p ! 6" by (simp add: page_used_def)
    then show ?thesis using k assms by (auto simp: is_page_def page_kind_tag_inverse)
  qed
  then show ?thesis by (auto simp: owner_images_def split: sum.splits)
qed

lemma empty_image: "owner_images [b \<mapsto> []] b = None"
proof -
  have "pg_kind q \<noteq> Owners" if "stored_page b [] = Inr q" for q
    using stored_page_Inr[OF that] by auto
  then show ?thesis by (auto simp: owner_images_def split: sum.splits)
qed

text \<open>A page that may be written without touching an owner page.\<close>

definition plain :: "images \<Rightarrow> page \<Rightarrow> bool" where
  "plain os p \<longleftrightarrow> (\<exists>kind b. is_page kind b p \<and> kind \<noteq> Owners \<and> os b = None)"

lemma owner_images_batch:
  assumes "\<forall>p \<in> set ps. plain (owner_images m) p"
  shows "owner_images (m ++ map_of (map (\<lambda>p. (pg_block p, page_used p)) ps)) = owner_images m"
  using assms
proof (induction ps)
  case (Cons p ps)
  let ?m = "m ++ map_of (map (\<lambda>p. (pg_block p, page_used p)) ps)"
  from Cons.prems obtain kind b where p: "is_page kind b p" "kind \<noteq> Owners" "owner_images m b = None" by (auto simp: plain_def)
  have b: "pg_block p = b" using p(1) by (simp add: is_page_def)
  have ih: "owner_images ?m = owner_images m" using Cons by simp
  have "owner_images (?m(b \<mapsto> page_used p)) = owner_images ?m"
    using ih p(3) is_page_image[OF p(1,2)] by (intro owner_images_plain) simp_all
  moreover have "m ++ map_of (map (\<lambda>p. (pg_block p, page_used p)) (p # ps)) = ?m(b \<mapsto> page_used p)" using b by simp
  ultimately show ?case using ih by (simp only:)
qed simp

section \<open>The host\<close>

text \<open>
  \<open>image\<close> is what the host has durably stored for each block and \<open>ready\<close> says that it can still be
  extended. Reads yield stored images, an extension adds an empty block, a commit stores all of a
  batch of valid pages or nothing, and all other operations keep the images, also when they fail.
\<close>

locale page_host =
  fixes store :: "'s page_store" and layout :: heap_layout and image :: "'s \<Rightarrow> images" and ready :: "'s \<Rightarrow> bool"
  assumes host_layout: "ps_layout store s = layout"
    and host_blocks: "ps_blocks store s = (r1, s') \<Longrightarrow> image s' = image s \<and> (ready s \<longrightarrow> ready s')"
    and host_interrupt: "ps_interrupt store s = (r2, s') \<Longrightarrow> image s' = image s \<and> (ready s \<longrightarrow> ready s')"
    and host_event: "ps_event store st s = (r3, s') \<Longrightarrow> image s' = image s \<and> (ready s \<longrightarrow> ready s')"
    and host_read: "ps_read store b s = (r4, s') \<Longrightarrow> image s' = image s \<and> (ready s \<longrightarrow> ready s') \<and>
      (\<forall>p. r4 = Inr p \<longrightarrow> (\<exists>bs. image s b = Some bs \<and> stored_page b bs = Inr p))"
    and host_read_into: "ps_read_into store b p s = (r7, s') \<Longrightarrow> image s' = image s \<and> (ready s \<longrightarrow> ready s')"
    and host_extend: "ps_extend store s = (r5, s') \<Longrightarrow> ready s \<Longrightarrow>
      (\<exists>e. r5 = Inl e \<and> image s' = image s) \<or>
      (\<exists>b. r5 = Inr b \<and> image s b = None \<and> image s' = (image s)(b \<mapsto> []) \<and> (b \<noteq> NO_BLOCK \<longrightarrow> ready s'))"
    and host_commit: "ps_commit store ps s = (r6, s') \<Longrightarrow>
      (\<exists>e. r6 = Inl e \<and> image s' = image s) \<or>
      (r6 = Inr () \<and> (\<forall>p \<in> set ps. page_validate p layout = Inr ()) \<and> distinct (map pg_block ps) \<and> (ready s \<longrightarrow> ready s') \<and>
       image s' = image s ++ map_of (map (\<lambda>p. (pg_block p, page_used p)) ps))"
    and host_remove: "ps_remove_owners store p s = (r6, s') \<Longrightarrow>
      (\<exists>e. r6 = Inl e \<and> image s' = image s) \<or>
      (r6 = Inr () \<and> page_validate p layout = Inr () \<and> (ready s \<longrightarrow> ready s') \<and> image s' = (image s)(pg_block p \<mapsto> page_used p))"
begin

text \<open>A calm step keeps the owner images \<open>os\<close>; when it succeeds its result satisfies \<open>Q\<close>.\<close>

definition calm :: "images \<Rightarrow> ('s, 'a) io \<Rightarrow> ('a \<Rightarrow> bool) \<Rightarrow> bool" where
  "calm os m Q \<longleftrightarrow>
     (\<forall>s r s'. ready s \<longrightarrow> owner_images (image s) = os \<longrightarrow> m s = (r, s') \<longrightarrow>
       owner_images (image s') = os \<and> (\<forall>a. r = Inr a \<longrightarrow> Q a \<and> ready s'))"

lemma calmI:
  assumes "\<And>s r s'. ready s \<Longrightarrow> owner_images (image s) = os \<Longrightarrow> m s = (r, s') \<Longrightarrow>
    owner_images (image s') = os \<and> (\<forall>a. r = Inr a \<longrightarrow> Q a \<and> ready s')"
  shows "calm os m Q"
  unfolding calm_def using assms by blast

lemma calmD:
  assumes "calm os m Q" "ready s" "owner_images (image s) = os" "m s = (r, s')"
  shows "owner_images (image s') = os" "r = Inr a \<Longrightarrow> Q a" "r = Inr a \<Longrightarrow> ready s'"
  using assms unfolding calm_def by blast+

lemma calm_apply:
  assumes "calm os m Q" "ready s" "owner_images (image s) = os" "m s = (r, s')"
  shows "owner_images (image s') = os \<and> (\<forall>a. r = Inr a \<longrightarrow> Q a \<and> ready s')"
  using assms unfolding calm_def by blast

lemma calm_bind:
  assumes m: "calm os m Q" and f: "\<And>a. Q a \<Longrightarrow> calm os (f a) R"
  shows "calm os (io_bind m f) R"
proof (rule calmI)
  fix s r s' assume a: "ready s" "owner_images (image s) = os" "io_bind m f s = (r, s')"
  obtain r1 s1 where x: "m s = (r1, s1)" by (cases "m s")
  note d = calmD[OF m a(1,2) x]
  show "owner_images (image s') = os \<and> (\<forall>a. r = Inr a \<longrightarrow> R a \<and> ready s')"
  proof (cases r1)
    case (Inl e)
    then have "r = Inl e" "s' = s1" using a(3) x by (simp_all add: io_bind_def)
    then show ?thesis using d(1) by simp
  next
    case (Inr v)
    then have e: "f v s1 = (r, s')" using a(3) x by (simp add: io_bind_def)
    show ?thesis by (rule calm_apply[OF f[OF d(2)[OF Inr]] d(3)[OF Inr] d(1) e])
  qed
qed

lemma calm_lift:
  assumes "\<And>a. r = Inr a \<Longrightarrow> Q a"
  shows "calm os (io_lift r) Q"
  using assms by (intro calmI) (auto simp: io_lift_def)

lemma calm_weaken:
  assumes "calm os m Q" "\<And>a. Q a \<Longrightarrow> R a"
  shows "calm os m R"
  using calmD[OF assms(1)] assms(2) by (intro calmI) blast

lemma calm_state:
  assumes "\<And>s. calm os (f s) Q"
  shows "calm os (\<lambda>s. f s s) Q"
  using calmD[OF assms] by (intro calmI) blast

lemma calm_still:
  assumes "\<And>s r s'. m s = (r, s') \<Longrightarrow> image s' = image s \<and> (ready s \<longrightarrow> ready s')"
  shows "calm os m (\<lambda>_. True)"
proof (rule calmI)
  fix s r s' assume a: "ready s" "owner_images (image s) = os" "m s = (r, s')"
  show "owner_images (image s') = os \<and> (\<forall>a. r = Inr a \<longrightarrow> True \<and> ready s')" using assms[OF a(3)] a(1,2) by simp
qed

lemma calm_blocks: "calm os (ps_blocks store) (\<lambda>_. True)"
  by (rule calm_still) (rule host_blocks)

lemma calm_interrupt: "calm os (ps_interrupt store) (\<lambda>_. True)"
  by (rule calm_still) (rule host_interrupt)

lemma calm_event: "calm os (ps_event store st) (\<lambda>_. True)"
  by (rule calm_still) (rule host_event)

lemma calm_read: "calm os (ps_read store b) (\<lambda>p. (pg_kind p = Owners \<longrightarrow> (\<exists>bs. os b = Some bs \<and> stored_page b bs = Inr p)) \<and>
    (pg_kind p \<noteq> Owners \<longrightarrow> os b = None) \<and> (\<exists>bs. stored_page b bs = Inr p))"
proof (rule calmI)
  fix s r s' assume a: "ready s" "owner_images (image s) = os" "ps_read store b s = (r, s')"
  note h = host_read[OF a(3)]
  have "(pg_kind p = Owners \<longrightarrow> (\<exists>bs. os b = Some bs \<and> stored_page b bs = Inr p)) \<and> (pg_kind p \<noteq> Owners \<longrightarrow> os b = None) \<and> (\<exists>bs. stored_page b bs = Inr p)"
    if "r = Inr p" for p
  proof -
    obtain bs where "image s b = Some bs" "stored_page b bs = Inr p" using h \<open>r = Inr p\<close> by blast
    then show ?thesis using a(2) by (auto simp: owner_images_def)
  qed
  then show "owner_images (image s') = os \<and> (\<forall>p. r = Inr p \<longrightarrow> ((pg_kind p = Owners \<longrightarrow> (\<exists>bs. os b = Some bs \<and> stored_page b bs = Inr p)) \<and>
      (pg_kind p \<noteq> Owners \<longrightarrow> os b = None) \<and> (\<exists>bs. stored_page b bs = Inr p)) \<and> ready s')"
    using h a(1,2) by auto
qed

lemma calm_read_into: "calm os (ps_read_into store b p) (\<lambda>_. True)"
  by (rule calm_still) (rule host_read_into)

lemma calm_commit: "\<forall>p \<in> set ps. plain os p \<Longrightarrow> calm os (ps_commit store ps) (\<lambda>_. True)"
proof (rule calmI)
  fix s r s' assume p: "\<forall>p \<in> set ps. plain os p" and a: "ready s" "owner_images (image s) = os" "ps_commit store ps s = (r, s')"
  show "owner_images (image s') = os \<and> (\<forall>a. r = Inr a \<longrightarrow> True \<and> ready s')"
    using host_commit[OF a(3)] owner_images_batch[of ps "image s"] p a(1,2) by auto
qed

lemma calm_allocate: "calm os (allocate store) (\<lambda>b. os b = None)"
proof -
  have ext: "owner_images (image s') = owner_images (image s) \<and> (\<forall>b. r = Inr b \<longrightarrow> owner_images (image s) b = None \<and> (b \<noteq> NO_BLOCK \<longrightarrow> ready s'))"
    if "ready s" "ps_extend store s = (r, s')" for s r s'
  proof -
    from host_extend[OF that(2,1)] consider e where "r = Inl e" "image s' = image s"
      | b where "r = Inr b" "image s b = None" "image s' = (image s)(b \<mapsto> [])" "b \<noteq> NO_BLOCK \<longrightarrow> ready s'" by blast
    then show ?thesis
    proof cases
      case 2
      have n: "owner_images (image s) b = None" using 2(2) by (simp add: owner_images_def)
      show ?thesis using 2 n owner_images_plain[OF n empty_image] by simp
    qed simp
  qed
  have "calm os (\<lambda>s. io_bind (ps_extend store) (\<lambda>block. if block \<noteq> expected \<or> block = NO_BLOCK then io_fail InvalidState else
      io_bind (ps_event store StAllocation) (\<lambda>_. io_return block)) s) (\<lambda>b. os b = None)" for expected
  proof (rule calmI)
    fix s r s' assume a: "ready s" "owner_images (image s) = os"
      "io_bind (ps_extend store) (\<lambda>block. if block \<noteq> expected \<or> block = NO_BLOCK then io_fail InvalidState else
        io_bind (ps_event store StAllocation) (\<lambda>_. io_return block)) s = (r, s')"
    obtain r1 s1 where x: "ps_extend store s = (r1, s1)" by (cases "ps_extend store s")
    note e = ext[OF a(1) x]
    show "owner_images (image s') = os \<and> (\<forall>b. r = Inr b \<longrightarrow> os b = None \<and> ready s')"
    proof (cases "\<exists>b. r1 = Inr b \<and> b = expected \<and> b \<noteq> NO_BLOCK")
      case True
      then obtain b where b: "r1 = Inr b" "b = expected" "b \<noteq> NO_BLOCK" by blast
      then have y: "io_bind (ps_event store StAllocation) (\<lambda>_. io_return b) s1 = (r, s')" using a(3) x by (simp add: io_bind_def[of "ps_extend store"])
      have c: "calm os (io_bind (ps_event store StAllocation) (\<lambda>_. io_return b)) (\<lambda>b. os b = None)"
      proof (intro calm_bind[OF calm_event] calm_lift)
        show "os v = None" if "Inr b = Inr v" for v using that e b(1) a(2) by simp
      qed
      have i: "owner_images (image s1) = os" "ready s1" using e b a(2) by simp_all
      show ?thesis by (rule calm_apply[OF c i(2,1) y])
    next
      case False
      then have "s' = s1" "\<exists>e. r = Inl e" using a(3) x by (auto simp: io_bind_def[of "ps_extend store"] io_lift_def split: sum.splits if_splits)
      then show ?thesis using e a(2) by auto
    qed
  qed
  then show ?thesis unfolding allocate_def by (intro calm_bind[OF calm_interrupt] calm_bind[OF calm_blocks]) simp
qed

end

end
