(* ===== verification/OwnerImages.thy ===== *)
theory OwnerImages
  imports Quiet
begin

text \<open>
  The published owners of a set of page images, and how storing an owner page changes them: a page
  with a new slot or a new successor publishes nothing, a changed slot adds or removes its owner only.
\<close>

section \<open>Owner pages with their header\<close>

definition owner_file :: "heap_layout \<Rightarrow> page \<Rightarrow> owner list \<Rightarrow> bool" where
  "owner_file layout p ows \<longleftrightarrow> owner_page layout p ows \<and> (\<exists>nxt. take 16 (pg_bytes p) = page_head 2 0 (pg_block p) nxt)"

definition live_owners :: "owner list \<Rightarrow> (owner_ref \<times> root_tid) set" where
  "live_owners ows = (\<lambda>ow. (ow_reference ow, ow_root ow)) ` {ow \<in> set ows. ow_live ow \<and> ow_publication ow = Published}"

lemma live_owners_append: "live_owners (ows @ ows') = live_owners ows \<union> live_owners ows'"
  by (auto simp: live_owners_def)

lemma stored_owner_file:
  assumes "stored_page b bs = Inr p" "pg_kind p = Owners" "page_validate p layout = Inr ()"
  obtains ows where "owner_file layout p ows" "pg_block p = b" "page_used p = bs" "b \<noteq> NO_BLOCK"
proof -
  obtain nxt where p: "p = settled b Owners bs" "b \<noteq> NO_BLOCK" "length bs \<le> CAPACITY" "16 \<le> length bs" "page_kind_of_tag (bs ! 6) = Some Owners"
    "bs ! 7 = 0" "take 16 bs = page_head (bs ! 6) (bs ! 7) b nxt"
    using stored_page_Inr[OF assms(1)] assms(2) by (auto simp: page_kind_of_tag_def)
  have t: "bs ! 6 = 2" using p(5) by (auto simp: page_kind_of_tag_def split: if_splits)
  have k: "page_ok p" using p(1,3) by (simp add: page_ok_settled)
  have v: "validate_owners p layout = Inr ()" using assms(2,3) by (auto simp: page_validate_def res_simps split: if_splits)
  obtain ows where "owner_page layout p ows" by (rule validated_owner_page[OF k assms(2) v])
  moreover have "take 16 (pg_bytes p) = page_head 2 0 (pg_block p) nxt" using p t by (simp add: settled_def)
  ultimately show ?thesis using that p(1,2) by (auto simp: owner_file_def)
qed

lemma owner_file_image:
  assumes "owner_file layout p ows" "page_validate p layout = Inr ()" "pg_block p \<noteq> NO_BLOCK"
  shows "stored_page (pg_block p) (page_used p) = Inr (settled (pg_block p) Owners (page_used p))"
    "owner_file layout (settled (pg_block p) Owners (page_used p)) ows"
proof -
  let ?q = "settled (pg_block p) Owners (page_used p)"
  from assms(1) obtain nxt where p: "owner_page layout p ows" "take 16 (pg_bytes p) = page_head 2 0 (pg_block p) nxt" by (auto simp: owner_file_def)
  have k: "page_ok p" "pg_kind p = Owners" "20 \<le> pg_len p" using p(1) owner_page_len(1)[OF p(1)] by (simp_all add: owner_page_def)
  have u: "length (page_used p) = pg_len p" "pg_len p \<le> CAPACITY" using k(1) by (simp_all add: page_ok_def page_used_def)
  have q: "page_ok ?q" using u by (intro page_ok_settled) simp
  have h: "take 16 (page_used p) = page_head 2 0 (pg_block p) nxt" using p(2) k(3) by (simp add: page_used_def min_def)
  have "page_u32 ?q 12 = page_u32 p 12" using k(1,3) q u by (simp add: page_used_fields)
  then have "page_check_next ?q = page_check_next p" using k(2) by (simp add: page_check_next_def page_next_def cong: if_cong)
  moreover have "page_check_next p = Inr ()" using assms(2) k(2) by (auto simp: page_validate_def res_simps)
  ultimately show "stored_page (pg_block p) (page_used p) = Inr ?q" using u k(3) h by (intro stored_owner_page[OF assms(3)]) simp_all
  have "owner_page layout ?q ows" using p(1) q by (simp add: owner_page_def)
  moreover have "take 16 (pg_bytes ?q) = page_head 2 0 (pg_block p) nxt" using h u k(3) by (simp add: settled_def)
  ultimately show "owner_file layout ?q ows" by (auto simp: owner_file_def)
qed

lemma live_at_owner_file:
  assumes "owner_file layout p ows" "page_validate p layout = Inr ()" "pg_block p \<noteq> NO_BLOCK"
  shows "live_at layout (pg_block p) (page_used p) = live_owners ows"
proof -
  let ?q = "settled (pg_block p) Owners (page_used p)"
  have o': "owner_page layout ?q ows" using owner_file_image(2)[OF assms] by (simp add: owner_file_def)
  note n = owner_page_count[OF o']
  have "page_owner ?q slot layout = Inr ow \<longleftrightarrow> unat slot < length ows \<and> ow = ows ! unat slot" for slot ow
  proof (cases "unat slot < length ows")
    case True
    then show ?thesis using owner_page_owner[OF o' True] by auto
  next
    case False
    then show ?thesis using n by (auto simp: page_owner_def word_le_nat_alt not_less)
  qed
  moreover have "ow \<in> set ows \<longleftrightarrow> (\<exists>slot :: u16. unat slot < length ows \<and> ow = ows ! unat slot)" for ow
  proof
    assume "ow \<in> set ows"
    then obtain i where i: "i < length ows" "ow = ows ! i" by (auto simp: in_set_conv_nth)
    have "unat (of_nat i :: u16) = i" using i(1) n(2) unat_lt2p[of "of_nat (length ows) :: u16"] by (intro unat_u16_of_nat) simp
    then show "\<exists>slot :: u16. unat slot < length ows \<and> ow = ows ! unat slot" using i by (intro exI[of _ "of_nat i"]) simp
  qed auto
  ultimately show ?thesis
    unfolding live_at_def live_owners_def owner_file_image(1)[OF assms] by auto
qed

lemma live_at_block: "x \<in> live_at layout b bs \<Longrightarrow> or_page (fst x) = b"
proof -
  assume "x \<in> live_at layout b bs"
  then obtain ow p slot where x: "x = (ow_reference ow, ow_root ow)" "stored_page b bs = Inr p" "page_owner p slot layout = Inr ow"
    by (auto simp: live_at_def)
  have "pg_block p = b" using stored_page_Inr[OF x(2)] by auto
  then show ?thesis using x(1,3) by (auto simp: page_owner_def Let_def res_simps split: if_splits)
qed

section \<open>Storing an owner page\<close>

definition live_in :: "heap_layout \<Rightarrow> images \<Rightarrow> u32 \<Rightarrow> (owner_ref \<times> root_tid) set" where
  "live_in layout m b = (case m b of None \<Rightarrow> {} | Some bs \<Rightarrow> live_at layout b bs)"

lemma published_live_in: "published layout m = (\<Union>b. live_in layout m b)"
  by (force simp: published_def live_in_def split: option.splits)

lemma live_in_block: "x \<in> live_in layout m b \<Longrightarrow> or_page (fst x) = b"
  by (auto simp: live_in_def dest: live_at_block split: option.splits)

lemma live_in_published: "live_in layout m b = {x \<in> published layout m. or_page (fst x) = b}"
  using live_in_block by (fastforce simp: published_live_in)

lemma published_update:
  "published layout (m(b \<mapsto> bs)) = {x \<in> published layout m. or_page (fst x) \<noteq> b} \<union> live_at layout b bs"
proof (rule set_eqI)
  fix x
  have "x \<in> published layout (m(b \<mapsto> bs)) \<longleftrightarrow> x \<in> live_in layout (m(b \<mapsto> bs)) (or_page (fst x))" by (simp add: live_in_published)
  also have "\<dots> \<longleftrightarrow> (if or_page (fst x) = b then x \<in> live_at layout b bs else x \<in> live_in layout m (or_page (fst x)))" by (simp add: live_in_def)
  also have "\<dots> \<longleftrightarrow> x \<in> {x \<in> published layout m. or_page (fst x) \<noteq> b} \<union> live_at layout b bs" using live_at_block[of x layout b bs] by (auto simp: live_in_published)
  finally show "x \<in> published layout (m(b \<mapsto> bs)) \<longleftrightarrow> x \<in> {x \<in> published layout m. or_page (fst x) \<noteq> b} \<union> live_at layout b bs" .
qed

lemma published_same:
  assumes "live_at layout b bs = live_in layout m b"
  shows "published layout (m(b \<mapsto> bs)) = published layout m"
  unfolding published_update assms live_in_published by auto

section \<open>Operations\<close>

lemma owner_file_append:
  assumes f: "owner_file layout p ows" and a: "page_append_owner p incarnation root tokens terms data = Inr (Some reference, p')"
    and i: "incarnation \<noteq> 0" "tid_ok layout root"
  shows "\<exists>ow. owner_file layout p' (ows @ [ow]) \<and> ow_reference ow = reference \<and> ow_root ow = root \<and> ow_publication ow = Allocated \<and>
    \<not> ow_live ow \<and> pg_block p' = pg_block p \<and> or_page reference = pg_block p \<and> or_slot reference = of_nat (length ows) \<and> length ows < 2 ^ 16"
proof -
  from f obtain nxt where r: "owner_page layout p ows" "take 16 (pg_bytes p) = page_head 2 0 (pg_block p) nxt" by (auto simp: owner_file_def)
  note n = owner_page_count[OF r(1)]
  have d: "payload_ok tokens terms data" "append_fits p data"
    using a n(1) by (auto simp: page_append_owner_def payload_ok_def append_fits_def Let_def OWNER_BYTES_def split: if_splits)
  let ?new = "new_owner (pg_block p) (length ows) incarnation root tokens terms data"
  from page_append_owner_rep[OF r(1) d i] a have "reference = ow_reference ?new" "owner_page layout p' (ows @ [?new])"
    "pg_block p' = pg_block p" "take 16 (pg_bytes p') = take 16 (pg_bytes p)" by auto
  moreover have "length ows < 2 ^ 16" using n(2) unat_lt2p[of "of_nat (length ows) :: u16"] by simp
  ultimately show ?thesis using r(2) by (intro exI[of _ ?new]) (auto simp: owner_file_def new_owner_def)
qed

lemma append_owner_full: "page_append_owner p incarnation root tokens terms data = Inr (None, p') \<Longrightarrow> p' = p"
  by (auto simp: page_append_owner_def Let_def res_simps split: if_splits)

lemma owner_file_next:
  assumes f: "owner_file layout p ows" and s: "page_set_next p nxt = Inr p'"
  shows "owner_file layout p' ows" "pg_block p' = pg_block p"
proof -
  from f obtain old where r: "owner_page layout p ows" "take 16 (pg_bytes p) = page_head 2 0 (pg_block p) old" by (auto simp: owner_file_def)
  have k: "page_ok p" "20 \<le> pg_len p" "pg_len p \<le> CAPACITY" using r(1) owner_page_len(1)[OF r(1)] by (auto simp: owner_page_def page_ok_def)
  have p': "p' = p\<lparr>pg_bytes := patch 12 (le_bytes 4 nxt) (pg_bytes p)\<rparr>"
    using s k by (auto simp: page_set_next_def page_put_u32_eq res_simps)
  obtain t where t: "pg_bytes p = page_head 2 0 (pg_block p) old @ t" using r(2) by (metis append_take_drop_id)
  have b: "pg_bytes p' = page_head 2 0 (pg_block p) nxt @ t"
    unfolding p' t by (simp add: page_head_def PIN2_def patch_append_right) (simp add: patch_def)
  have "drop 16 (page_used p') = drop 16 (page_used p)" using b t p' by (simp add: page_used_def)
  moreover have "page_ok p'" using k p' by simp
  ultimately have "owner_page layout p' ows" using r(1) p' by (simp add: owner_page_def)
  then show "owner_file layout p' ows" "pg_block p' = pg_block p" using b p' by (auto simp: owner_file_def)
qed

lemma owner_file_change:
  assumes f: "owner_file layout p ows" and c: "page_change_owner p reference change layout = Inr p'"
  defines "i \<equiv> unat (or_slot reference)"
  shows "owner_file layout p' (ows[i := owner_after (ows ! i) change])" "pg_block p' = pg_block p" "i < length ows"
    "change_allowed (ows ! i) change" "ow_reference (ows ! i) = reference"
proof -
  from f obtain nxt where r: "owner_page layout p ows" "take 16 (pg_bytes p) = page_head 2 0 (pg_block p) nxt" by (auto simp: owner_file_def)
  note q = page_change_owner_rep[OF r(1) c, folded i_def]
  obtain v where v: "p' = p\<lparr>pg_bytes := patch (20 + 40 * i) v (pg_bytes p)\<rparr>" "length v = 40" using q(5) by blast
  have "20 \<le> pg_len p" "pg_len p \<le> length (pg_bytes p)" using r(1) owner_page_len(1)[OF r(1)] by (auto simp: owner_page_def page_ok_def)
  then have "take 16 (pg_bytes p') = take 16 (pg_bytes p)" using v by (simp add: patch_def)
  then show "owner_file layout p' (ows[i := owner_after (ows ! i) change])" using q(4) v(1) r(2) by (auto simp: owner_file_def)
  show "pg_block p' = pg_block p" "i < length ows" "change_allowed (ows ! i) change" "ow_reference (ows ! i) = reference" using v(1) q by simp_all
qed

lemma image_filter: "{x \<in> f ` A. P x} = f ` {y \<in> A. P (f y)}"
  by auto

lemma collect_or: "{y. (y = a \<or> Q y) \<and> P y} = {y. Q y \<and> P y} \<union> (if P a then {a} else {})"
  by auto

lemma live_owners_update:
  assumes f: "owner_file layout p ows" and i: "i < length ows" and r: "ow_reference ow = ow_reference (ows ! i)"
  shows "live_owners (ows[i := ow]) =
    {x \<in> live_owners ows. fst x \<noteq> ow_reference ow} \<union> (if ow_live ow \<and> ow_publication ow = Published then {(ow_reference ow, ow_root ow)} else {})"
proof -
  from f have o': "owner_page layout p ows" by (simp add: owner_file_def)
  have s: "or_slot (ow_reference (ows ! j)) = of_nat j" if "j < length ows" for j
    using o' that by (auto simp: owner_page_def slot_owner_def)
  have u: "unat (of_nat j :: u16) = j" if "j < length ows" for j
    using that owner_page_count(2)[OF o'] unat_lt2p[of "of_nat (length ows) :: u16"] by (intro unat_u16_of_nat) simp
  have inj: "ow_reference (ows ! j) \<noteq> ow_reference (ows ! i)" if "j < length ows" "j \<noteq> i" for j
    using that i s[OF that(1)] s[OF i] u[OF that(1)] u[OF i] by metis
  have mem: "y \<in> set (ows[i := ow]) \<longleftrightarrow> y = ow \<or> (\<exists>j < length ows. j \<noteq> i \<and> y = ows ! j)" for y
    using i by (auto simp: in_set_conv_nth nth_list_update)
  have old: "(\<exists>j < length ows. j \<noteq> i \<and> y = ows ! j) \<longleftrightarrow> y \<in> set ows \<and> ow_reference y \<noteq> ow_reference ow" for y
    using inj r by (auto simp: in_set_conv_nth)
  let ?f = "\<lambda>ow. (ow_reference ow, ow_root ow)" and ?p = "\<lambda>ow. ow_live ow \<and> ow_publication ow = Published"
  have others: "?f ` {y \<in> set ows. ow_reference y \<noteq> ow_reference ow \<and> ?p y} = {x \<in> live_owners ows. fst x \<noteq> ow_reference ow}"
    unfolding live_owners_def image_filter by (rule arg_cong[where f = "(`) ?f"]) (simp only: mem_Collect_eq fst_conv conj_ac)
  have "live_owners (ows[i := ow]) = ?f ` {y. (y = ow \<or> y \<in> set ows \<and> ow_reference y \<noteq> ow_reference ow) \<and> ?p y}"
    unfolding live_owners_def mem old by simp
  also have "{y. (y = ow \<or> y \<in> set ows \<and> ow_reference y \<noteq> ow_reference ow) \<and> ?p y} =
      {y \<in> set ows. ow_reference y \<noteq> ow_reference ow \<and> ?p y} \<union> (if ?p ow then {ow} else {})"
    unfolding collect_or by (simp only: conj_assoc)
  also have "?f ` \<dots> = {x \<in> live_owners ows. fst x \<noteq> ow_reference ow} \<union> (if ?p ow then {?f ow} else {})"
    by (simp only: image_Un others) simp
  finally show ?thesis .
qed

end
