(* ===== verification/Preparation.thy ===== *)
theory Preparation
  imports Quiet
begin

text \<open>
  The preparation of a document is calm: loading pages, storing fragments and linking terms never
  touch an owner page, on any host that keeps its promises.
\<close>

context page_host
begin

section \<open>Rules\<close>

lemma calm_bind_lift:
  assumes "\<And>a. r = Inr a \<Longrightarrow> calm os (f a) R"
  shows "calm os (io_bind (io_lift r) f) R"
  using assms by (intro calm_bind[where Q = "\<lambda>a. r = Inr a"] calm_lift) simp_all

lemma calm_if:
  assumes "P \<Longrightarrow> calm os m Q" "\<not> P \<Longrightarrow> calm os n Q"
  shows "calm os (if P then m else n) Q"
  using assms by simp

lemma calm_option:
  assumes "x = None \<Longrightarrow> calm os m Q" "\<And>y. x = Some y \<Longrightarrow> calm os (f y) Q"
  shows "calm os (case x of None \<Rightarrow> m | Some y \<Rightarrow> f y) Q"
  using assms by (cases x) simp_all

lemma calm_pair:
  assumes "\<And>x y. p = (x, y) \<Longrightarrow> calm os (f x y) Q"
  shows "calm os (case p of (x, y) \<Rightarrow> f x y) Q"
  using assms by (cases p) simp

lemmas calm_control = calm_bind_lift calm_if calm_option calm_pair calm_lift
  calm_bind[OF calm_blocks] calm_bind[OF calm_interrupt] calm_bind[OF calm_event] calm_bind[OF calm_allocate] calm_bind[OF calm_commit]

lemma plainI: "is_page kind b p \<Longrightarrow> kind \<noteq> Owners \<Longrightarrow> os b = None \<Longrightarrow> plain os p"
  by (auto simp: plain_def)

lemma plain_kept:
  assumes "plain os p" "\<And>kind b. is_page kind b p \<Longrightarrow> is_page kind b p'"
  shows "plain os p'"
  using assms by (auto simp: plain_def)

section \<open>Loading\<close>

lemma stored_is_page:
  assumes "stored_page b bs = Inr p" "pg_kind p \<noteq> Zero"
  shows "is_page (pg_kind p) b p" "page_ok p" "16 \<le> pg_len p"
  using stored_page_Inr[OF assms(1)] assms(2) page_ok_settled[of bs b]
  by (auto simp: is_page_def settled_def nth_append page_kind_tag_inverse)

lemma calm_load_any:
  "calm os (load_any store b) (\<lambda>p. pg_block p = b \<and> page_validate p layout = Inr () \<and> (\<exists>bs. stored_page b bs = Inr p) \<and>
    (pg_kind p = Owners \<longrightarrow> (\<exists>bs. os b = Some bs \<and> stored_page b bs = Inr p)) \<and> (pg_kind p \<noteq> Owners \<longrightarrow> os b = None))"
  unfolding load_any_def host_layout
  by (intro calm_control calm_bind[OF calm_read]) auto

lemma calm_load:
  assumes "kind \<noteq> Owners" "kind \<noteq> Zero"
  shows "calm os (load store b kind) (\<lambda>p. is_page kind b p \<and> page_ok p \<and> 16 \<le> pg_len p \<and> os b = None)"
  unfolding load_def using assms
  by (intro calm_control calm_bind[OF calm_load_any]) (auto simp: stored_is_page)

lemma calm_load_owners:
  "calm os (load store b Owners) (\<lambda>p. \<exists>bs. os b = Some bs \<and> stored_page b bs = Inr p \<and> pg_kind p = Owners \<and> page_validate p layout = Inr ())"
  unfolding load_def
  by (intro calm_control calm_bind[OF calm_load_any]) auto

lemma append_posting_page:
  assumes "page_append_posting p o' = Inr (room, p')" "is_page kind b p" "16 \<le> pg_len p"
  shows "is_page kind b p' \<and> 16 \<le> pg_len p'"
  using assms by (auto simp: page_append_posting_def res_simps page_write_def is_page_prefix split: if_splits)

lemma fresh_postings: "page_postings b posted = Inr p \<Longrightarrow> is_page Postings b p \<and> 16 \<le> pg_len p"
  using new_pages(2)[of b posted p] by (auto simp: page_postings_eq POSTING_HEADER_def split: if_splits)

lemma posting_term_kind: "page_posting_term p = Inr t \<Longrightarrow> pg_kind p \<noteq> Owners \<and> pg_kind p \<noteq> Zero"
  by (auto simp: page_posting_term_def res_simps split: if_splits)

lemma calm_load_posting:
  "calm os (load_posting store b posted) (\<lambda>p. plain os p \<and> 16 \<le> pg_len p \<and> pg_block p = b)"
  unfolding load_posting_def
proof (intro calm_control calm_bind[OF calm_load_any], goal_cases)
  case (1 page r)
  then obtain v second room where v: "page_postings b posted = Inr v" "page_append_posting v second = Inr (room, r)"
    by (auto simp: res_simps split: if_splits)
  then show ?case using append_posting_page[OF v(2)] fresh_postings[OF v(1)] 1(1,2) by (auto simp: plain_def is_page_def)
next
  case (2 page t)
  then show ?case by simp
next
  case (3 page t r)
  then show ?case using posting_term_kind[of page] stored_is_page[of b _ page] by (auto simp: plain_def)
qed

text \<open>The dictionary chain of a term.\<close>

definition plain_dictionary :: "images \<Rightarrow> page \<Rightarrow> bool" where
  "plain_dictionary os d \<longleftrightarrow> (\<exists>b. is_page DictionaryPage b d \<and> os b = None) \<and> page_ok d \<and> 16 \<le> pg_len d"

lemma calm_find_term_loop:
  assumes "case found of None \<Rightarrow> True | Some (d, _) \<Rightarrow> plain_dictionary os d"
  shows "calm os (find_term_loop store bucket text tail found block) (\<lambda>r. case r of None \<Rightarrow> True | Some (d, _) \<Rightarrow> plain_dictionary os d)"
  using assms
proof (induction "2 ^ 32 - unat block" arbitrary: block found rule: less_induct)
  case less
  let ?Q = "\<lambda>r. case r of None \<Rightarrow> True | Some (d, _) \<Rightarrow> plain_dictionary os d"
  have eq: "find_term_loop store bucket text tail found block =
     io_bind (load store block DictionaryPage) (\<lambda>page.
     io_bind (io_lift (and_then (page_terms page) (\<lambda>it. for_items (find_step bucket text (found \<noteq> None)) None (terms_items it)))) (\<lambda>reference.
     io_bind (io_lift (following page tail)) (\<lambda>nxt.
     let found = (case reference of Some reference \<Rightarrow> Some (page, reference) | None \<Rightarrow> found) in
     case nxt of Some nxt \<Rightarrow> find_term_loop store bucket text tail found nxt | None \<Rightarrow> io_return found)))"
    by (rule ext) (subst find_term_loop.simps, rule refl)
  show ?case
    unfolding eq Let_def
  proof (intro calm_control calm_bind[OF calm_load], goal_cases)
    case (3 page reference nxt r)
    then show ?case using less.prems by (auto simp: plain_dictionary_def split: option.splits)
  next
    case (4 page reference nxt n)
    have "block < n" using following_Some[of page tail n] 4 by (auto simp: is_page_def)
    then have "2 ^ 32 - unat n < 2 ^ 32 - unat block" by (simp add: word_less_nat_alt unat_lt2p[where 'a = 32, simplified] diff_less_mono2)
    then show ?case using 4 less.prems by (intro less.hyps) (auto simp: plain_dictionary_def split: option.splits)
  qed simp_all
qed

lemma calm_find_term:
  "calm os (find_term store meta text) (\<lambda>r. case r of None \<Rightarrow> True | Some (d, _) \<Rightarrow> plain_dictionary os d)"
  unfolding find_term_def Let_def by (intro calm_control calm_find_term_loop) simp_all

section \<open>Terms\<close>

lemma calm_invalidate:
  assumes "plain os meta"
  shows "calm os (invalidate store meta) (plain os)"
  unfolding invalidate_def using assms
  by (intro calm_control) (auto dest: page_set_grouped_state_kept intro: plain_kept)

lemma fresh_posting_fold:
  assumes "try_fold (\<lambda>page owner. and_then (page_append_posting page owner) (\<lambda>(room, page). if room then Inr page else Inl InvalidState)) p os = Inr p'"
    "is_page Postings b p" "16 \<le> pg_len p"
  shows "is_page Postings b p'"
  using assms by (induction os arbitrary: p) (auto simp: res_simps dest: append_posting_page split: if_splits)

lemma calm_fresh_posting_page: "calm os (fresh_posting_page store reference owners) (plain os)"
  unfolding fresh_posting_page_def
  by (intro calm_control) (auto simp: res_simps intro!: plainI dest!: fresh_postings dest: fresh_posting_fold)

lemma plain_dictionary_plain: "plain_dictionary os d \<Longrightarrow> plain os d"
  by (auto simp: plain_dictionary_def intro: plainI)

lemma plain_dictionary_kept:
  assumes "plain_dictionary os d" "\<And>b. is_page DictionaryPage b d \<Longrightarrow> page_ok d \<Longrightarrow> is_page DictionaryPage b d'"
  shows "plain os d'"
  using assms by (auto simp: plain_dictionary_def intro: plainI)

lemma plain_next: "page_set_next p nxt = Inr p' \<Longrightarrow> plain os p \<Longrightarrow> plain os p'"
  by (auto simp: plain_def dest: page_set_next_kept)

lemma plain_append: "page_append_posting p o' = Inr (room, p') \<Longrightarrow> plain os p \<Longrightarrow> 16 \<le> pg_len p \<Longrightarrow> plain os p'"
  by (auto simp: plain_def dest: append_posting_page)

lemma calm_extend_term:
  assumes m: "plain os meta" and d: "plain_dictionary os dictionary"
  shows "calm os (extend_term store meta dictionary reference o') (plain os)"
proof -
  note chain = plain_dictionary_kept[OF d, OF page_set_posting_chain_kept]
    and promote = plain_dictionary_kept[OF d, OF page_promote_inline_second_kept]
    and inline = plain_dictionary_kept[OF d, OF page_set_inline_second_kept]
  show ?thesis
    unfolding extend_term_def
    by (intro calm_control calm_bind[OF calm_fresh_posting_page] calm_bind[OF calm_invalidate[OF m]] calm_bind[OF calm_load_posting])
      (auto simp: m intro: chain promote inline plain_next plain_append split: if_splits)
qed

lemma calm_fresh_dictionary_page: "calm os (fresh_dictionary_page store meta text o') (plain os)"
  unfolding fresh_dictionary_page_def
  by (intro calm_control) (auto simp: res_simps intro!: plainI[where kind = DictionaryPage] dest!: new_pages(3,4) page_append_term_kept split: if_splits)

lemma calm_add_term:
  assumes m: "plain os meta"
  shows "calm os (add_term store meta text o') (plain os)"
proof -
  have b: "page_set_bucket meta bucket head tail = Inr p' \<Longrightarrow> plain os p'" for bucket head tail p'
    using plain_kept[OF m] meta_kept(4) by blast
  have a: "page_append_term p text o' = Inr (r, p') \<Longrightarrow> is_page DictionaryPage k p \<Longrightarrow> 16 \<le> pg_len p \<Longrightarrow> os k = None \<Longrightarrow> plain os p'" for p r p' k
    using page_append_term_kept[of p "text" o' r p' DictionaryPage k] by (auto intro: plainI)
  show ?thesis
    unfolding add_term_def Let_def
    by (intro calm_control calm_bind[OF calm_fresh_dictionary_page] calm_bind[OF calm_load])
      (auto simp: m intro: a b plain_next)
qed

lemma calm_link_term:
  assumes "plain os meta"
  shows "calm os (link_term store meta text o') (plain os)"
  unfolding link_term_def
  by (intro calm_control calm_bind[OF calm_find_term] calm_extend_term calm_add_term assms) simp_all

section \<open>Fragments\<close>

lemma calm_fold:
  assumes "\<And>a x. Q a \<Longrightarrow> calm os (f a x) Q" "Q a"
  shows "calm os (io_fold f a xs) Q"
  using assms(2) by (induction xs arbitrary: a) (auto intro!: calm_lift calm_bind[OF assms(1)])

lemma calm_items:
  assumes "\<And>a x. Q a \<Longrightarrow> calm os (f a x) Q" "Q a"
  shows "calm os (io_items f a it) Q"
  unfolding io_items_def by (intro calm_bind[OF calm_fold[OF assms]] calm_control) simp_all

lemma calm_store_fragment:
  assumes m: "plain os (fst st)"
  shows "calm os (store_fragment store o' bytes st index) (\<lambda>st. plain os (fst st))"
proof -
  obtain meta head where st: "st = (meta, head)" by (cases st)
  have block: "calm os (if free = NO_BLOCK then io_bind (allocate store) (\<lambda>block. io_return (block, meta))
      else io_bind (load store free Free) (\<lambda>page. io_lift (and_then (page_next page) (\<lambda>nxt. and_then (page_set_free_head meta nxt) (\<lambda>meta. Inr (free, meta))))))
      (\<lambda>(block, meta). plain os meta \<and> os block = None)" for free
    using m st by (intro calm_control calm_bind[OF calm_load]) (auto simp: res_simps dest: meta_kept(3) intro: plain_kept)
  show ?thesis
    unfolding store_fragment_def Let_def st prod.case
  proof (intro calm_control calm_bind[OF block], goal_cases)
    case (1 free bm block meta page)
    have "plain os page" "plain os meta" using 1 plainI[OF new_pages(1)] by auto
    then have c: "calm os (if free = NO_BLOCK then ps_commit store [page] else ps_commit store [meta, page]) (\<lambda>_. True)"
      by (intro calm_if calm_commit) auto
    show ?case using \<open>plain os meta\<close> by (intro calm_bind[OF c] calm_control) auto
  qed
qed

lemma calm_store_payload:
  assumes "plain os meta"
  shows "calm os (store_payload store meta o' bytes) (\<lambda>st. plain os (fst st))"
  unfolding store_payload_def using assms by (intro calm_control calm_fold calm_store_fragment) auto

end

end
