(* ===== verification/Insertion.thy ===== *)
theory Insertion
  imports OwnerImages Preparation
begin

text \<open>
  Insertion is atomic. On any host that keeps its promises, the insertion of a document leaves the set
  of published owners as it was until its last commit, which adds the new owner and nothing else; a
  failure at any earlier step, or a stop before it, publishes nothing.
\<close>

text \<open>An insertion up to its last commit, which the publication event follows.\<close>

definition insert_until_published :: "'s page_store \<Rightarrow> root_tid \<Rightarrow> prepared_document \<Rightarrow> ('s, owner_ref) io" where
  "insert_until_published store root document =
     io_bind (load store 0 Meta) (\<lambda>meta.
     io_bind (reserve_owner store meta root document) (\<lambda>(owner, meta).
     io_bind (ps_event store StOwnerReserved) (\<lambda>_.
     io_bind (store_payload store meta owner (pd_bytes document)) (\<lambda>(meta, data_head).
     io_bind (change_stored_owner store owner (PayloadReady data_head)) (\<lambda>_.
     io_bind (ps_event store StPayloadReady) (\<lambda>_.
     io_bind (io_items (\<lambda>meta entry.
         io_bind (link_term store meta (dc_term entry) owner) (\<lambda>meta.
         io_bind (ps_event store StTermLinked) (\<lambda>_. io_return meta)))
       meta (document_terms_items (prepared_terms document))) (\<lambda>_.
     io_bind (change_stored_owner store owner Publish) (\<lambda>_. io_return owner))))))))"

lemma io_bind_assoc: "io_bind (io_bind m f) g = io_bind m (\<lambda>a. io_bind (f a) g)"
  by (auto simp: io_bind_def fun_eq_iff split: prod.splits sum.splits)

lemma insert_document_split:
  "insert_document store root document =
     io_bind (insert_until_published store root document) (\<lambda>owner. io_bind (ps_event store StPublished) (\<lambda>_. io_return owner))"
  by (simp add: insert_document_def insert_until_published_def io_bind_assoc case_prod_unfold)

context page_host
begin

section \<open>Steps that write owner pages\<close>

text \<open>From the owner images \<open>os\<close> the step ends in images that satisfy \<open>Q\<close> with its result, or fails in
  images that satisfy \<open>E\<close>.\<close>

definition step :: "images \<Rightarrow> ('s, 'a) io \<Rightarrow> ('a \<Rightarrow> images \<Rightarrow> bool) \<Rightarrow> (images \<Rightarrow> bool) \<Rightarrow> bool" where
  "step os m Q E \<longleftrightarrow>
     (\<forall>s r s'. ready s \<longrightarrow> owner_images (image s) = os \<longrightarrow> m s = (r, s') \<longrightarrow>
       (case r of Inl _ \<Rightarrow> E (owner_images (image s')) | Inr a \<Rightarrow> ready s' \<and> Q a (owner_images (image s'))))"

lemma stepI:
  assumes "\<And>s r s'. ready s \<Longrightarrow> owner_images (image s) = os \<Longrightarrow> m s = (r, s') \<Longrightarrow>
    (case r of Inl _ \<Rightarrow> E (owner_images (image s')) | Inr a \<Rightarrow> ready s' \<and> Q a (owner_images (image s')))"
  shows "step os m Q E"
  unfolding step_def using assms by blast

lemma stepD:
  assumes "step os m Q E" "ready s" "owner_images (image s) = os" "m s = (r, s')"
  shows "case r of Inl _ \<Rightarrow> E (owner_images (image s')) | Inr a \<Rightarrow> ready s' \<and> Q a (owner_images (image s'))"
  using assms unfolding step_def by blast

lemma step_bind:
  assumes m: "step os m Q E" and f: "\<And>a os'. Q a os' \<Longrightarrow> step os' (f a) R E"
  shows "step os (io_bind m f) R E"
proof (rule stepI)
  fix s r s' assume a: "ready s" "owner_images (image s) = os" "io_bind m f s = (r, s')"
  obtain r1 s1 where x: "m s = (r1, s1)" by (cases "m s")
  note d = stepD[OF m a(1,2) x]
  show "case r of Inl _ \<Rightarrow> E (owner_images (image s')) | Inr a \<Rightarrow> ready s' \<and> R a (owner_images (image s'))"
  proof (cases r1)
    case (Inl e)
    then show ?thesis using a(3) x d by (auto simp: io_bind_def)
  next
    case (Inr v)
    then have e: "f v s1 = (r, s')" and q: "ready s1" "Q v (owner_images (image s1))" using a(3) x d by (simp_all add: io_bind_def)
    show ?thesis by (rule stepD[OF f[OF q(2)] q(1) refl e])
  qed
qed

lemma calm_step:
  assumes "calm os m Q" "\<And>a. Q a \<Longrightarrow> R a os" "E os"
  shows "step os m R E"
proof (rule stepI)
  fix s r s' assume a: "ready s" "owner_images (image s) = os" "m s = (r, s')"
  show "case r of Inl _ \<Rightarrow> E (owner_images (image s')) | Inr a \<Rightarrow> ready s' \<and> R a (owner_images (image s'))"
    using calm_apply[OF assms(1) a] assms(2,3) by (cases r) auto
qed

lemma step_bind_calm:
  assumes m: "calm os m Q" and f: "\<And>a. Q a \<Longrightarrow> step os (f a) R E" and e: "E os"
  shows "step os (io_bind m f) R E"
  by (rule step_bind[where Q = "\<lambda>a os'. Q a \<and> os' = os"]) (use f e in \<open>auto intro: calm_step[OF m]\<close>)

lemma step_bind_lift:
  assumes "\<And>a. r = Inr a \<Longrightarrow> step os (f a) R E" "E os"
  shows "step os (io_bind (io_lift r) f) R E"
  using assms by (intro step_bind_calm[where Q = "\<lambda>a. r = Inr a"] calm_lift) simp_all

lemma step_return: "Q a os \<Longrightarrow> step os (io_return a) Q E"
  by (auto simp: step_def io_lift_def)

lemma step_if:
  assumes "P \<Longrightarrow> step os m Q E" "\<not> P \<Longrightarrow> step os n Q E"
  shows "step os (if P then m else n) Q E"
  using assms by simp

lemma step_option:
  assumes "x = None \<Longrightarrow> step os m Q E" "\<And>y. x = Some y \<Longrightarrow> step os (f y) Q E"
  shows "step os (case x of None \<Rightarrow> m | Some y \<Rightarrow> f y) Q E"
  using assms by (cases x) simp_all

lemma step_pair:
  assumes "\<And>x y. p = (x, y) \<Longrightarrow> step os (f x y) Q E"
  shows "step os (case p of (x, y) \<Rightarrow> f x y) Q E"
  using assms by (cases p) simp

lemma step_weaken:
  assumes "step os m Q E" "\<And>a os'. Q a os' \<Longrightarrow> R a os'" "\<And>os'. E os' \<Longrightarrow> F os'"
  shows "step os m R F"
proof (rule stepI)
  fix s r s' assume a: "ready s" "owner_images (image s) = os" "m s = (r, s')"
  show "case r of Inl _ \<Rightarrow> F (owner_images (image s')) | Inr a \<Rightarrow> ready s' \<and> R a (owner_images (image s'))"
    using stepD[OF assms(1) a] assms(2,3) by (cases r) auto
qed

section \<open>Commits\<close>

text \<open>A page whose stored image is an owner page exactly when its kind says so.\<close>

definition fit :: "images \<Rightarrow> page \<Rightarrow> bool" where
  "fit os p \<longleftrightarrow> plain os p \<or> (\<exists>ows. owner_file layout p ows \<and> pg_block p \<noteq> NO_BLOCK)"

lemma owner_file_kind: "owner_file layout p ows \<Longrightarrow> pg_kind p = Owners"
  by (simp add: owner_file_def owner_page_def)

lemma plain_kind: "plain os p \<Longrightarrow> pg_kind p \<noteq> Owners \<and> os (pg_block p) = None"
  by (auto simp: plain_def is_page_def)

lemma owner_images_commit:
  assumes "\<forall>p \<in> set ps. fit (owner_images m) p \<and> page_validate p layout = Inr ()" "distinct (map pg_block ps)"
  shows "owner_images (m ++ map_of (map (\<lambda>p. (pg_block p, page_used p)) ps)) =
    owner_images m ++ map_of (map (\<lambda>p. (pg_block p, page_used p)) (filter (\<lambda>p. pg_kind p = Owners) ps))"
  using assms
proof (induction ps)
  case (Cons p ps)
  let ?f = "\<lambda>ps. map_of (map (\<lambda>p. (pg_block p, page_used p)) ps)"
  have ih: "owner_images (m ++ ?f ps) = owner_images m ++ ?f (filter (\<lambda>p. pg_kind p = Owners) ps)" using Cons by simp
  have up: "owner_images (m ++ ?f (p # ps)) = (owner_images m ++ ?f (filter (\<lambda>p. pg_kind p = Owners) ps))(pg_block p := owner_images [pg_block p \<mapsto> page_used p] (pg_block p))"
    using ih owner_images_update[of "m ++ ?f ps" "pg_block p" "page_used p"] by simp
  from Cons.prems(1) consider "plain (owner_images m) p" | ows where "owner_file layout p ows" "pg_block p \<noteq> NO_BLOCK" "page_validate p layout = Inr ()"
    by (auto simp: fit_def)
  then show ?case
  proof cases
    case 1
    note k = plain_kind[OF 1]
    have i: "owner_images [pg_block p \<mapsto> page_used p] (pg_block p) = None" using 1 by (auto simp: plain_def intro: is_page_image)
    have "pg_block p \<notin> pg_block ` set ps" using Cons.prems(2) by simp
    then have "?f (filter (\<lambda>p. pg_kind p = Owners) ps) (pg_block p) = None" by (auto simp: map_of_eq_None_iff)
    then have "(owner_images m ++ ?f (filter (\<lambda>p. pg_kind p = Owners) ps))(pg_block p := None) = owner_images m ++ ?f (filter (\<lambda>p. pg_kind p = Owners) ps)"
      using k by (intro fun_upd_idem) (simp add: map_add_None)
    then show ?thesis using up i k by (simp only: filter.simps if_False)
  next
    case 2
    have "owner_images [pg_block p \<mapsto> page_used p] (pg_block p) = Some (page_used p)"
      using owner_file_image(1)[OF 2(1,3,2)] by (simp add: owner_images_def)
    then show ?thesis using up owner_file_kind[OF 2(1)] by (simp only: filter.simps list.map map_of.simps fst_conv snd_conv simp_thms if_True map_add_upd)
  qed
qed simp

lemma step_commit:
  assumes f: "\<forall>p \<in> set ps. fit os p"
    and q: "distinct (map pg_block ps) \<Longrightarrow> \<forall>p \<in> set ps. page_validate p layout = Inr () \<Longrightarrow>
      Q () (os ++ map_of (map (\<lambda>p. (pg_block p, page_used p)) (filter (\<lambda>p. pg_kind p = Owners) ps)))"
    and e: "E os"
  shows "step os (ps_commit store ps) Q E"
proof (rule stepI)
  fix s r s' assume a: "ready s" "owner_images (image s) = os" "ps_commit store ps s = (r, s')"
  from host_commit[OF a(3)] consider er where "r = Inl er" "image s' = image s"
    | "r = Inr ()" "\<forall>p \<in> set ps. page_validate p layout = Inr ()" "distinct (map pg_block ps)" "ready s'"
      "image s' = image s ++ map_of (map (\<lambda>p. (pg_block p, page_used p)) ps)" using a(1) by blast
  then show "case r of Inl _ \<Rightarrow> E (owner_images (image s')) | Inr a \<Rightarrow> ready s' \<and> Q a (owner_images (image s'))"
  proof cases
    case 1
    then show ?thesis using e a(2) by simp
  next
    case 2
    then have "owner_images (image s') = os ++ map_of (map (\<lambda>p. (pg_block p, page_used p)) (filter (\<lambda>p. pg_kind p = Owners) ps))"
      using owner_images_commit[of ps "image s"] f a(2) by simp
    then show ?thesis using 2 q by simp
  qed
qed

section \<open>One slot\<close>

text \<open>The owner that the images hold for a reference.\<close>

definition slot_holds :: "images \<Rightarrow> owner_ref \<Rightarrow> owner \<Rightarrow> bool" where
  "slot_holds os reference ow \<longleftrightarrow>
     (\<exists>bs p ows. os (or_page reference) = Some bs \<and> stored_page (or_page reference) bs = Inr p \<and> owner_file layout p ows \<and>
       unat (or_slot reference) < length ows \<and> ows ! unat (or_slot reference) = ow \<and> ow_reference ow = reference)"

lemma owner_page_unique:
  assumes "owner_file layout p ows" "owner_file layout p ows'"
  shows "ows = ows'"
proof -
  from assms have o': "owner_page layout p ows" "owner_page layout p ows'" by (simp_all add: owner_file_def)
  have l: "length ows = length ows'" using owner_page_count[OF o'(1)] owner_page_count[OF o'(2)] by (metis Inr_inject)
  show ?thesis
  proof (rule nth_equalityI[OF l])
    fix i assume i: "i < length ows"
    show "ows ! i = ows' ! i" using owner_page_owner[OF o'(1) i] owner_page_owner[OF o'(2), of i] i l by simp
  qed
qed

lemma step_change:
  fixes change :: owner_change
  assumes h: "slot_holds os reference ow"
  defines "ow' \<equiv> owner_after ow change"
  shows "step os (change_stored_owner store reference change)
    (\<lambda>_ os'. slot_holds os' reference ow' \<and> dom os' = dom os \<and>
      published layout os' = {x \<in> published layout os. fst x \<noteq> reference} \<union>
        (if ow_live ow' \<and> ow_publication ow' = Published then {(reference, ow_root ow)} else {}))
    (\<lambda>os'. os' = os)"
  unfolding change_stored_owner_def host_layout
proof (intro step_bind_calm[OF calm_load_owners] step_bind_lift, goal_cases)
  case (1 page page')
  let ?b = "or_page reference" let ?i = "unat (or_slot reference)"
  from 1 obtain bs where bs: "os ?b = Some bs" "stored_page ?b bs = Inr page" "pg_kind page = Owners" "page_validate page layout = Inr ()"
    and c: "page_change_owner page reference change layout = Inr page'" by auto
  obtain ows where f: "owner_file layout page ows" "pg_block page = ?b" "page_used page = bs" "?b \<noteq> NO_BLOCK"
    by (rule stored_owner_file[OF bs(2-4)])
  note g = owner_file_change[OF f(1) c]
  obtain ows2 where "owner_file layout page ows2" "ows2 ! ?i = ow" "ow_reference ow = reference" using h bs(1,2) by (auto simp: slot_holds_def)
  then have ow: "ows ! ?i = ow" "ow_reference ow = reference" using owner_page_unique[OF f(1)] by auto
  have k: "pg_kind page' = Owners" "pg_block page' = ?b" "pg_block page' \<noteq> NO_BLOCK" using owner_file_kind[OF g(1)] g(2) f(2,4) by simp_all
  show ?case
  proof (rule step_commit)
    show "\<forall>p \<in> set [page']. fit os p" using g(1) k by (auto simp: fit_def)
  next
    assume v: "\<forall>p \<in> set [page']. page_validate p layout = Inr ()"
    then have v': "page_validate page' layout = Inr ()" by simp
    let ?os = "os(?b \<mapsto> page_used page')"
    have n: "ows ! ?i = ow" "ow_reference ow' = reference" "ow_root ow' = ow_root ow" "ow' = owner_after (ows ! ?i) change" using ow by (simp_all add: ow'_def)
    note im = owner_file_image[OF g(1) v' k(3)]
    have s: "slot_holds ?os reference ow'" using im g(3) n(2,4) k(2) unfolding slot_holds_def by (auto simp: nth_list_update)
    have l: "live_at layout ?b bs = live_owners ows" using live_at_owner_file[OF f(1) bs(4)] f by simp
    have "live_at layout ?b (page_used page') = live_owners (ows[?i := ow'])"
      using live_at_owner_file[OF g(1) v' k(3)] k(2) n(4) by simp
    also have "\<dots> = {x \<in> live_owners ows. fst x \<noteq> reference} \<union> (if ow_live ow' \<and> ow_publication ow' = Published then {(reference, ow_root ow)} else {})"
      using live_owners_update[OF f(1) g(3), of ow'] n ow(2) by simp
    finally have l': "live_at layout ?b (page_used page') =
      {x \<in> live_owners ows. fst x \<noteq> reference} \<union> (if ow_live ow' \<and> ow_publication ow' = Published then {(reference, ow_root ow)} else {})" .
    have li: "live_owners ows = {x \<in> published layout os. or_page (fst x) = ?b}" using l bs(1) live_in_published[of layout os ?b] by (simp add: live_in_def)
    have "published layout ?os = {x \<in> published layout os. fst x \<noteq> reference} \<union>
        (if ow_live ow' \<and> ow_publication ow' = Published then {(reference, ow_root ow)} else {})"
      unfolding published_update l' li by auto
    moreover have "os ++ map_of (map (\<lambda>p. (pg_block p, page_used p)) (filter (\<lambda>p. pg_kind p = Owners) [page'])) = ?os" using k by simp
    moreover have "dom ?os = dom os" using bs(1) by auto
    ultimately show "slot_holds (os ++ map_of (map (\<lambda>p. (pg_block p, page_used p)) (filter (\<lambda>p. pg_kind p = Owners) [page']))) reference ow' \<and>
        dom (os ++ map_of (map (\<lambda>p. (pg_block p, page_used p)) (filter (\<lambda>p. pg_kind p = Owners) [page']))) = dom os \<and>
        published layout (os ++ map_of (map (\<lambda>p. (pg_block p, page_used p)) (filter (\<lambda>p. pg_kind p = Owners) [page']))) =
          {x \<in> published layout os. fst x \<noteq> reference} \<union> (if ow_live ow' \<and> ow_publication ow' = Published then {(reference, ow_root ow)} else {})"
      using s by simp
  qed simp
qed simp_all

section \<open>Reserving a slot\<close>

text \<open>What the reservation has reached: nothing new is published, the slot of the new owner holds an
  allocated owner of the root, and its reference was not published before.\<close>

definition reserved :: "images \<Rightarrow> root_tid \<Rightarrow> owner_ref \<times> page \<Rightarrow> images \<Rightarrow> bool" where
  "reserved os root result os' \<longleftrightarrow>
     (\<exists>ow. slot_holds os' (fst result) ow \<and> ow_root ow = root \<and> \<not> ow_live ow) \<and> published layout os' = published layout os \<and>
     plain os' (snd result) \<and> fst result \<notin> fst ` published layout os"

lemma live_owners_dead: "\<not> ow_live ow \<Longrightarrow> live_owners [ow] = {}"
  by (auto simp: live_owners_def)

lemma append_slot:
  assumes f: "owner_file layout p ows" and a: "append_document p incarnation root document = Inr (Some reference, p')"
    and i: "incarnation \<noteq> 0" "tid_ok layout root" and v: "page_validate p' layout = Inr ()" and b: "pg_block p \<noteq> NO_BLOCK"
    and m: "os' (pg_block p) = Some (page_used p')"
  shows "\<exists>ow. slot_holds os' reference ow \<and> ow_root ow = root \<and> \<not> ow_live ow"
    "live_at layout (pg_block p) (page_used p') = live_owners ows"
    "or_page reference = pg_block p" "reference \<notin> fst ` live_owners ows"
proof -
  from owner_file_append[OF f a[unfolded append_document_def] i] obtain ow where
    ow: "owner_file layout p' (ows @ [ow])" "ow_reference ow = reference" "ow_root ow = root" "\<not> ow_live ow" "pg_block p' = pg_block p"
      "or_page reference = pg_block p" "or_slot reference = of_nat (length ows)" "length ows < 2 ^ 16" by blast
  have b': "pg_block p' \<noteq> NO_BLOCK" using ow(5) b by simp
  note im = owner_file_image[OF ow(1) v b']
  have u: "unat (or_slot reference) = length ows" using ow(7,8) by (simp only: unat_u16_of_nat)
  have "slot_holds os' reference ow"
    unfolding slot_holds_def using im m ow u by (intro exI[of _ "page_used p'"] exI[of _ "settled (pg_block p') Owners (page_used p')"] exI[of _ "ows @ [ow]"]) simp
  then show "\<exists>ow. slot_holds os' reference ow \<and> ow_root ow = root \<and> \<not> ow_live ow" using ow by blast
  show "live_at layout (pg_block p) (page_used p') = live_owners ows"
    using live_at_owner_file[OF ow(1) v b'] ow(5) live_owners_append[of ows "[ow]"] live_owners_dead[OF ow(4)] by simp
  show "or_page reference = pg_block p" by (rule ow(6))
  have "or_slot (ow_reference x) \<noteq> or_slot reference" if x: "x \<in> set ows" for x
  proof -
    obtain j where j: "j < length ows" "x = ows ! j" using x by (auto simp: in_set_conv_nth)
    then have "or_slot (ow_reference x) = of_nat j" using f by (auto simp: owner_file_def owner_page_def slot_owner_def)
    moreover have "unat (of_nat j :: u16) = j" using j(1) ow(8) by (intro unat_u16_of_nat) simp
    ultimately show ?thesis using u j(1) by auto
  qed
  then show "reference \<notin> fst ` live_owners ows" unfolding live_owners_def by force
qed

lemma calm_fresh_owner:
  "calm os (fresh_owner_page store incarnation root document) (\<lambda>(reference, p'). \<exists>p. page_owners (pg_block p) = Inr p \<and>
     append_document p incarnation root document = Inr (Some reference, p') \<and> os (pg_block p) = None)"
  unfolding fresh_owner_page_def
  by (intro calm_control) (auto simp: res_simps dest: page_owners_rep(3))

lemma reserve_fresh:
  assumes m: "plain os meta" and f: "page_owners (pg_block p) = Inr p" "append_document p incarnation root document = Inr (Some reference, p')" "os (pg_block p) = None"
    and i: "incarnation \<noteq> 0" "tid_ok layout root"
    and s: "\<forall>q \<in> set rest. (\<exists>ows. owner_file layout q ows \<and> live_in layout os (pg_block q) = live_owners ows \<and> pg_block q \<noteq> NO_BLOCK) \<and> os (pg_block q) \<noteq> None" "length rest \<le> 1"
  shows "step os (io_bind (ps_commit store (meta # rest @ [p'])) (\<lambda>_. io_return (reference, meta))) (reserved os root) (\<lambda>os'. os' = os)"
proof -
  note r = page_owners_rep[OF f(1)]
  have o': "owner_file layout p []" using r(1,2) by (auto simp: owner_file_def)
  from owner_file_append[OF o' f(2)[unfolded append_document_def] i] obtain ows where
    ows: "owner_file layout p' ows" "pg_block p' = pg_block p" by blast
  have k: "pg_kind meta \<noteq> Owners" "pg_kind p' = Owners" "\<forall>q \<in> set rest. pg_kind q = Owners"
    using plain_kind[OF m] owner_file_kind[OF ows(1)] s(1) owner_file_kind by auto
  show ?thesis
  proof (rule step_bind[OF step_commit[where Q = "\<lambda>_ os'. reserved os root (reference, meta) os'"]])
    show "\<forall>q \<in> set (meta # rest @ [p']). fit os q" using m ows s(1) r(5) by (auto simp: fit_def)
  next
    assume d: "distinct (map pg_block (meta # rest @ [p']))" and v: "\<forall>q \<in> set (meta # rest @ [p']). page_validate q layout = Inr ()"
    define os1 where "os1 = os(pg_block p \<mapsto> page_used p')"
    have fl: "filter (\<lambda>p. pg_kind p = Owners) (meta # rest @ [p']) = rest @ [p']" using k by simp
    have p1: "published layout os1 = published layout os"
      unfolding os1_def
      using append_slot(2)[OF o' f(2) i _ r(5), of os1] v f(3) by (intro published_same) (simp add: os1_def live_in_def live_owners_def)
    let ?os = "os ++ map_of (map (\<lambda>p. (pg_block p, page_used p)) (rest @ [p']))"
    have eq: "?os (pg_block p) = Some (page_used p')" "published layout ?os = published layout os" "?os (pg_block meta) = None"
    proof -
      have "?os (pg_block p) = Some (page_used p') \<and> published layout ?os = published layout os \<and> ?os (pg_block meta) = None"
      proof (cases rest)
        case Nil
        have "?os = os1" using Nil ows(2) by (simp add: os1_def)
        then show ?thesis using p1 plain_kind[OF m] d Nil ows(2) by (simp add: os1_def)
      next
        case (Cons q qs)
        then have rq: "rest = [q]" using s(2) by simp
        from s(1) rq obtain qs where q: "owner_file layout q qs" "live_in layout os (pg_block q) = live_owners qs" "pg_block q \<noteq> NO_BLOCK" by auto
        have e: "?os = os1(pg_block q \<mapsto> page_used q)" using rq ows(2) by (simp add: os1_def)
        have "live_at layout (pg_block q) (page_used q) = live_in layout os1 (pg_block q)"
          using live_at_owner_file[OF q(1) _ q(3)] v q(2) rq d ows(2) by (simp add: live_in_def os1_def)
        then have "published layout ?os = published layout os" using p1 e by (simp add: published_same)
        then show ?thesis using e rq d ows(2) plain_kind[OF m] by (auto simp: os1_def)
      qed
      then show "?os (pg_block p) = Some (page_used p')" "published layout ?os = published layout os" "?os (pg_block meta) = None" by simp_all
    qed
    have v': "page_validate p' layout = Inr ()" using v by simp
    note a = append_slot[where os' = ?os, OF o' f(2) i v' r(5) eq(1)]
    have "reference \<notin> fst ` published layout os"
    proof
      assume "reference \<in> fst ` published layout os"
      then obtain x where "x \<in> published layout os" "fst x = reference" by auto
      then have "x \<in> live_in layout os (pg_block p)" using a(3) by (simp add: live_in_published)
      then show False using f(3) by (simp add: live_in_def)
    qed
    moreover have "plain ?os meta" using m eq(3) by (auto simp: plain_def is_page_def)
    ultimately show "reserved os root (reference, meta) (os ++ map_of (map (\<lambda>p. (pg_block p, page_used p)) (filter (\<lambda>p. pg_kind p = Owners) (meta # rest @ [p']))))"
      unfolding fl reserved_def using a(1) eq(2) by simp
  qed (simp_all add: step_return)
qed

lemma reserved_incarnation: "page_reserve_incarnation meta = Inr (incarnation, meta') \<Longrightarrow> incarnation \<noteq> 0"
  by (auto simp: page_reserve_incarnation_def res_simps identifier_new_iff id_ok_def)

lemma reserve_append:
  assumes m: "plain os meta" and f: "owner_file layout p ows" and a: "append_document p incarnation root document = Inr (Some reference, p')"
    and i: "incarnation \<noteq> 0" "tid_ok layout root"
    and s: "live_in layout os (pg_block p) = live_owners ows" "pg_block p \<noteq> NO_BLOCK"
  shows "step os (io_bind (ps_commit store [meta, p']) (\<lambda>_. io_return (reference, meta))) (reserved os root) (\<lambda>os'. os' = os)"
proof -
  from owner_file_append[OF f a[unfolded append_document_def] i] obtain new where new: "owner_file layout p' new" "pg_block p' = pg_block p" by blast
  have k: "pg_kind meta \<noteq> Owners" "pg_kind p' = Owners" using plain_kind[OF m] owner_file_kind[OF new(1)] by simp_all
  show ?thesis
  proof (rule step_bind[OF step_commit[where Q = "\<lambda>_ os'. reserved os root (reference, meta) os'"]])
    show "\<forall>q \<in> set [meta, p']. fit os q" using m new s(2) by (auto simp: fit_def)
  next
    assume d: "distinct (map pg_block [meta, p'])" and v: "\<forall>q \<in> set [meta, p']. page_validate q layout = Inr ()"
    let ?os = "os(pg_block p \<mapsto> page_used p')"
    have v': "page_validate p' layout = Inr ()" using v by simp
    note b = append_slot[OF f a i v' s(2), of ?os, simplified]
    have "published layout ?os = published layout os" using b(2) s(1) by (intro published_same) simp
    moreover have "reference \<notin> fst ` published layout os"
    proof
      assume "reference \<in> fst ` published layout os"
      then obtain x where "x \<in> published layout os" "fst x = reference" by auto
      then have "x \<in> live_in layout os (pg_block p)" using b(3) by (simp add: live_in_published)
      then have "x \<in> live_owners ows" using s(1) by simp
      then show False using b(4) \<open>fst x = reference\<close> by blast
    qed
    moreover have "plain ?os meta" using m d new(2) by (auto simp: plain_def is_page_def)
    moreover have "os ++ map_of (map (\<lambda>p. (pg_block p, page_used p)) (filter (\<lambda>p. pg_kind p = Owners) [meta, p'])) = ?os" using k new(2) by simp
    ultimately show "reserved os root (reference, meta) (os ++ map_of (map (\<lambda>p. (pg_block p, page_used p)) (filter (\<lambda>p. pg_kind p = Owners) [meta, p'])))"
      unfolding reserved_def using b(1) by simp
  qed (simp_all add: step_return)
qed

lemma step_reserve_owner:
  assumes m: "plain os meta" and t: "tid_ok layout root"
  shows "step os (reserve_owner store meta root document) (reserved os root) (\<lambda>os'. os' = os)"
  unfolding reserve_owner_def
proof (intro step_bind_lift step_pair step_if, goal_cases)
  case (1 x incarnation meta1 y head tail)
  then have i: "incarnation \<noteq> 0" and m1: "plain os meta1"
    using reserved_incarnation[of meta] plain_kept[OF m] meta_kept(1) by blast+
  show ?case
  proof (intro step_bind_calm[OF calm_fresh_owner] step_pair step_bind_lift, goal_cases)
    case (1 z reference p' meta2)
    then obtain p where p: "page_owners (pg_block p) = Inr p" "append_document p incarnation root document = Inr (Some reference, p')" "os (pg_block p) = None" by auto
    have "plain os meta2" using 1 plain_kept[OF m1] meta_kept(2) by blast
    from reserve_fresh[OF this p i t, of "[]"] show ?case by simp
  qed simp_all
next
  case (2 x incarnation meta1 y head tail)
  then have i: "incarnation \<noteq> 0" and m1: "plain os meta1"
    using reserved_incarnation[of meta] plain_kept[OF m] meta_kept(1) by blast+
  show ?case
  proof (intro step_bind_calm[OF calm_load_owners] step_bind_lift step_pair step_option, goal_cases)
    case (1 page z result appended)
    then obtain bs where bs: "os tail = Some bs" "stored_page tail bs = Inr page" "pg_kind page = Owners" "page_validate page layout = Inr ()" by auto
    have a: "appended = page" using 1 append_owner_full by (auto simp: append_document_def)
    obtain ows where f: "owner_file layout page ows" "pg_block page = tail" "page_used page = bs" "tail \<noteq> NO_BLOCK" by (rule stored_owner_file[OF bs(2-4)])
    have l: "live_in layout os tail = live_owners ows" using live_at_owner_file[OF f(1) bs(4)] f bs(1) by (simp add: live_in_def)
    show ?case
    proof (intro step_bind_calm[OF calm_fresh_owner] step_pair step_bind_lift, goal_cases)
      case (1 w reference p' linked meta2)
      then obtain p where p: "page_owners (pg_block p) = Inr p" "append_document p incarnation root document = Inr (Some reference, p')" "os (pg_block p) = None" by auto
      have m2: "plain os meta2" using 1 plain_kept[OF m1] meta_kept(2) by blast
      have s: "page_set_next page (pg_block p') = Inr linked" using 1 a by simp
      have "\<forall>q \<in> set [linked]. (\<exists>ows. owner_file layout q ows \<and> live_in layout os (pg_block q) = live_owners ows \<and> pg_block q \<noteq> NO_BLOCK) \<and> os (pg_block q) \<noteq> None"
        using owner_file_next[OF f(1) s] f(2,4) l bs(1) by auto
      from reserve_fresh[OF m2 p i t this] show ?case by simp
    qed simp_all
  next
    case (2 page z result appended reference)
    then obtain bs where bs: "os tail = Some bs" "stored_page tail bs = Inr page" "pg_kind page = Owners" "page_validate page layout = Inr ()"
      and a: "append_document page incarnation root document = Inr (Some reference, appended)" by auto
    obtain ows where f: "owner_file layout page ows" "pg_block page = tail" "page_used page = bs" "tail \<noteq> NO_BLOCK" by (rule stored_owner_file[OF bs(2-4)])
    have l: "live_in layout os tail = live_owners ows" using live_at_owner_file[OF f(1) bs(4)] f bs(1) by (simp add: live_in_def)
    show ?case by (rule reserve_append[OF m1 f(1) a i t]) (use f bs(1) l in auto)
  qed simp_all
qed simp_all

section \<open>Insertion\<close>

lemma plain_dom: "dom os' = dom os \<Longrightarrow> plain os p \<Longrightarrow> plain os' p"
  by (auto simp: plain_def)

text \<open>The images in which exactly one more owner is published than in \<open>os\<close>.\<close>

definition gained :: "images \<Rightarrow> root_tid \<Rightarrow> owner_ref \<Rightarrow> images \<Rightarrow> bool" where
  "gained os root reference os' \<longleftrightarrow>
     published layout os' = insert (reference, root) (published layout os) \<and> reference \<notin> fst ` published layout os"

text \<open>The condition \<open>E\<close> on failures has to hold when nothing more is published.\<close>

lemma step_insert:
  assumes t: "tid_ok layout root" and e: "\<And>os'. published layout os' = published layout os \<Longrightarrow> E os'"
  shows "step os (insert_until_published store root document) (gained os root) E"
  unfolding insert_until_published_def
proof (intro step_bind_calm[OF calm_load], goal_cases)
  case (3 meta)
  let ?S = "\<lambda>os'. published layout os' = published layout os"
  have res: "step os (reserve_owner store meta root document) (reserved os root) E"
    using 3 e by (intro step_weaken[OF step_reserve_owner[OF plainI t]]) auto
  show ?case
  proof (rule step_bind[OF res], intro step_pair, goal_cases)
    case (1 result os1 reference meta1)
    then obtain ow where ow: "slot_holds os1 reference ow" "ow_root ow = root" "\<not> ow_live ow" and p1: "?S os1" "plain os1 meta1" "reference \<notin> fst ` published layout os"
      by (auto simp: reserved_def)
    have e1: "E os1" using p1(1) by (rule e)
    show ?case
    proof (intro step_bind_calm[OF calm_event] step_bind_calm[OF calm_store_payload[OF p1(2)]] step_pair, goal_cases)
      case (1 u st meta2 head)
      then have m2: "plain os1 meta2" by simp
      have c1: "step os1 (change_stored_owner store reference (PayloadReady head))
          (\<lambda>_ os2. (\<exists>ow. slot_holds os2 reference ow \<and> ow_root ow = root) \<and> plain os2 meta2 \<and> ?S os2) E"
      proof (rule step_weaken[OF step_change[OF ow(1), of "PayloadReady head"]])
        fix a os2
        assume "slot_holds os2 reference (owner_after ow (PayloadReady head)) \<and> dom os2 = dom os1 \<and>
          published layout os2 = {x \<in> published layout os1. fst x \<noteq> reference} \<union>
            (if ow_live (owner_after ow (PayloadReady head)) \<and> ow_publication (owner_after ow (PayloadReady head)) = Published then {(reference, ow_root ow)} else {})"
        then show "(\<exists>ow. slot_holds os2 reference ow \<and> ow_root ow = root) \<and> plain os2 meta2 \<and> ?S os2"
          using ow(2) p1 plain_dom[OF _ m2] by (intro conjI exI[of _ "owner_after ow (PayloadReady head)"]) auto
      qed (use p1(1) e in auto)
      show ?case
      proof (rule step_bind[OF c1], goal_cases)
        case (1 a os2)
        then obtain ow2 where ow2: "slot_holds os2 reference ow2" "ow_root ow2 = root" and p2: "plain os2 meta2" "?S os2" by blast
        have e2: "E os2" using p2(2) by (rule e)
        have link: "calm os2 (io_items (\<lambda>meta entry. io_bind (link_term store meta (dc_term entry) reference) (\<lambda>meta.
            io_bind (ps_event store StTermLinked) (\<lambda>_. io_return meta))) meta2 (document_terms_items (prepared_terms document))) (plain os2)"
          by (intro calm_items calm_bind[OF calm_link_term] calm_control p2(1)) auto
        have c2: "step os2 (change_stored_owner store reference Publish) (\<lambda>_ os3. gained os root reference os3) E"
          using ow2(2) p2(2) p1(3) by (intro step_weaken[OF step_change[OF ow2(1), of Publish]]) (auto simp: gained_def rev_image_eqI e)
        show ?case
        proof (rule step_bind_calm[OF calm_event], rule step_bind_calm[OF link], rule step_bind[OF c2], goal_cases)
          case (1 _ _ _ os3)
          show ?case using 1(3) by (rule step_return)
        qed (rule e2)+
      qed
    qed (rule e1)+
  qed
qed (simp_all add: e)

lemma step_insert_published:
  assumes "tid_ok layout root"
  shows "step os (insert_until_published store root document) (gained os root) (\<lambda>os'. published layout os' = published layout os)"
  using assms by (rule step_insert)

end

section \<open>The store in memory\<close>

definition memory_images :: "bytes list \<Rightarrow> images" where
  "memory_images pages b = (if unat b < length pages then Some (pages ! unat b) else None)"

lemma memory_images_update:
  assumes "unat b < length pages"
  shows "memory_images (pages[unat b := bs]) = (memory_images pages)(b \<mapsto> bs)"
  using assms by (auto simp: memory_images_def fun_eq_iff word_unat_eq_iff nth_list_update)

lemma memory_images_batch:
  assumes "distinct (map pg_block ps)" "\<forall>p \<in> set ps. unat (pg_block p) < length pages"
  shows "memory_images (fold (\<lambda>page images. images[unat (pg_block page) := page_used page]) ps pages) =
    memory_images pages ++ map_of (map (\<lambda>p. (pg_block p, page_used p)) ps)"
  using assms
proof (induction ps arbitrary: pages)
  case (Cons p ps)
  have "pg_block p \<notin> dom (map_of (map (\<lambda>p. (pg_block p, page_used p)) ps))"
    using Cons.prems(1) by (auto simp: dom_map_of_conv_image_fst)
  from map_add_upd_left[OF this, of "memory_images pages" "page_used p"]
  have "(memory_images pages)(pg_block p \<mapsto> page_used p) ++ map_of (map (\<lambda>p. (pg_block p, page_used p)) ps) =
      memory_images pages ++ map_of (map (\<lambda>p. (pg_block p, page_used p)) (p # ps))"
    by (simp only: list.map map_of.simps fst_conv snd_conv map_add_upd)
  moreover have "memory_images (fold (\<lambda>page images. images[unat (pg_block page) := page_used page]) (p # ps) pages) =
      memory_images (pages[unat (pg_block p) := page_used p]) ++ map_of (map (\<lambda>p. (pg_block p, page_used p)) ps)"
    using Cons by simp
  ultimately show ?case using Cons.prems(2) by (simp only: memory_images_update list.set_intros)
qed simp

lemma memory_images_extend:
  assumes "length pages < 2 ^ 32"
  shows "memory_images (pages @ [[]]) = (memory_images pages)(of_nat (length pages) \<mapsto> [])" "memory_images pages (of_nat (length pages)) = None"
proof -
  have "unat (of_nat (length pages) :: u32) = length pages" using assms by (rule unat_u32_of_nat)
  then show "memory_images (pages @ [[]]) = (memory_images pages)(of_nat (length pages) \<mapsto> [])" "memory_images pages (of_nat (length pages)) = None"
    by (auto simp: memory_images_def fun_eq_iff nth_append word_unat_eq_iff)
qed

definition has_room :: "memory_store \<Rightarrow> bool" where
  "has_room s \<longleftrightarrow> length (mt_pages s) < 2 ^ 32"

lemma memory_commit_images:
  assumes "memory_commit ps s = (r, s')"
  shows "(\<exists>e. r = Inl e \<and> s' = s) \<or>
    (r = Inr () \<and> (\<forall>p \<in> set ps. page_validate p memory_layout = Inr ()) \<and> distinct (map pg_block ps) \<and>
     length (mt_pages s') = length (mt_pages s) \<and> mt_fail_at s' = mt_fail_at s \<and>
     memory_images (mt_pages s') = memory_images (mt_pages s) ++ map_of (map (\<lambda>p. (pg_block p, page_used p)) ps))"
proof -
  have v: "try_fold (\<lambda>_ page. page_validate page memory_layout) () qs = Inr u \<Longrightarrow> \<forall>p \<in> set qs. page_validate p memory_layout = Inr ()" for qs u
    by (induction qs) (auto simp: res_simps)
  have l: "length (fold (\<lambda>page images. images[unat (pg_block page) := page_used page]) qs xs) = length xs" for qs and xs :: "bytes list"
    by (induction qs arbitrary: xs) simp_all
  show ?thesis
  proof (cases "try_fold (\<lambda>_ page. page_validate page memory_layout) () ps")
    case (Inl e)
    show ?thesis using assms unfolding memory_commit_def Inl by (auto split: if_splits)
  next
    case (Inr u)
    show ?thesis
      using assms memory_images_batch[of ps "mt_pages s"] v[OF Inr] unfolding memory_commit_def Inr
      by (auto simp: l list_ex_iff not_le split: if_splits)
  qed
qed

lemma memory_extend_room:
  assumes "has_room s" "of_nat (length (mt_pages s)) \<noteq> NO_BLOCK"
  shows "length (mt_pages s) + 1 < 2 ^ 32"
proof (rule ccontr)
  assume "\<not> length (mt_pages s) + 1 < 2 ^ 32"
  then have "length (mt_pages s) = 2 ^ 32 - 1" using assms(1) by (simp add: has_room_def)
  then show False using assms(2) by (simp add: NO_BLOCK_def)
qed

lemmas memory_ops_simps = memory_store_ops_def memory_read_def memory_event_def Let_def

interpretation mem: page_host memory_store_ops memory_layout "\<lambda>s. memory_images (mt_pages s)" has_room
proof
  fix s s' :: memory_store
  show "ps_layout memory_store_ops s = memory_layout" by (simp add: memory_store_ops_def)
  show "ps_blocks memory_store_ops s = (r1, s') \<Longrightarrow> memory_images (mt_pages s') = memory_images (mt_pages s) \<and> (has_room s \<longrightarrow> has_room s')" for r1
    by (simp add: memory_store_ops_def)
  show "ps_interrupt memory_store_ops s = (r2, s') \<Longrightarrow> memory_images (mt_pages s') = memory_images (mt_pages s) \<and> (has_room s \<longrightarrow> has_room s')" for r2
    by (simp add: memory_store_ops_def)
  show "ps_event memory_store_ops st s = (r3, s') \<Longrightarrow> memory_images (mt_pages s') = memory_images (mt_pages s) \<and> (has_room s \<longrightarrow> has_room s')" for r3 st
    by (auto simp: memory_ops_simps has_room_def split: if_splits)
  show "ps_read memory_store_ops b s = (r4, s') \<Longrightarrow> memory_images (mt_pages s') = memory_images (mt_pages s) \<and> (has_room s \<longrightarrow> has_room s') \<and>
      (\<forall>p. r4 = Inr p \<longrightarrow> (\<exists>bs. memory_images (mt_pages s) b = Some bs \<and> stored_page b bs = Inr p))" for r4 b
    by (auto simp: memory_ops_simps memory_images_def stored_page_def split: if_splits)
  show "ps_read_into memory_store_ops b p s = (r7, s') \<Longrightarrow> memory_images (mt_pages s') = memory_images (mt_pages s) \<and> (has_room s \<longrightarrow> has_room s')" for r7 b p
    by (auto simp: memory_store_ops_def memory_read_into_def split: if_splits prod.splits)
  show "ps_remove_owners memory_store_ops p s = (r6, s') \<Longrightarrow>
      (\<exists>e. r6 = Inl e \<and> memory_images (mt_pages s') = memory_images (mt_pages s)) \<or>
      (r6 = Inr () \<and> page_validate p memory_layout = Inr () \<and> (has_room s \<longrightarrow> has_room s') \<and>
       memory_images (mt_pages s') = (memory_images (mt_pages s))(pg_block p \<mapsto> page_used p))" for r6 p
    using memory_commit_images[of "[p]" s r6 s'] by (auto simp: memory_store_ops_def has_room_def)
  show "ps_extend memory_store_ops s = (r5, s') \<Longrightarrow> has_room s \<Longrightarrow>
      (\<exists>e. r5 = Inl e \<and> memory_images (mt_pages s') = memory_images (mt_pages s)) \<or>
      (\<exists>b. r5 = Inr b \<and> memory_images (mt_pages s) b = None \<and> memory_images (mt_pages s') = (memory_images (mt_pages s))(b \<mapsto> []) \<and> (b \<noteq> NO_BLOCK \<longrightarrow> has_room s'))" for r5
    using memory_images_extend[of "mt_pages s"] memory_extend_room[of s] by (auto simp: memory_store_ops_def has_room_def)
  show "ps_commit memory_store_ops ps s = (r6, s') \<Longrightarrow>
      (\<exists>e. r6 = Inl e \<and> memory_images (mt_pages s') = memory_images (mt_pages s)) \<or>
      (r6 = Inr () \<and> (\<forall>p \<in> set ps. page_validate p memory_layout = Inr ()) \<and> distinct (map pg_block ps) \<and> (has_room s \<longrightarrow> has_room s') \<and>
       memory_images (mt_pages s') = memory_images (mt_pages s) ++ map_of (map (\<lambda>p. (pg_block p, page_used p)) ps))" for r6 ps
    using memory_commit_images[of ps s r6 s'] by (auto simp: memory_store_ops_def has_room_def)
qed

text \<open>The same host with its injected failure as part of what every step keeps.\<close>

interpretation armed: page_host memory_store_ops memory_layout "\<lambda>s. memory_images (mt_pages s)" "\<lambda>s. has_room s \<and> mt_fail_at s = k" for k
proof
  fix s s' :: memory_store
  show "ps_layout memory_store_ops s = memory_layout" by (rule mem.host_layout)
  show "ps_blocks memory_store_ops s = (r1, s') \<Longrightarrow> memory_images (mt_pages s') = memory_images (mt_pages s) \<and>
      (has_room s \<and> mt_fail_at s = k \<longrightarrow> has_room s' \<and> mt_fail_at s' = k)" for r1
    by (simp add: memory_store_ops_def)
  show "ps_interrupt memory_store_ops s = (r2, s') \<Longrightarrow> memory_images (mt_pages s') = memory_images (mt_pages s) \<and>
      (has_room s \<and> mt_fail_at s = k \<longrightarrow> has_room s' \<and> mt_fail_at s' = k)" for r2
    by (simp add: memory_store_ops_def)
  show "ps_event memory_store_ops st s = (r3, s') \<Longrightarrow> memory_images (mt_pages s') = memory_images (mt_pages s) \<and>
      (has_room s \<and> mt_fail_at s = k \<longrightarrow> has_room s' \<and> mt_fail_at s' = k)" for r3 st
    by (auto simp: memory_ops_simps has_room_def split: if_splits)
  show "ps_read memory_store_ops b s = (r4, s') \<Longrightarrow> memory_images (mt_pages s') = memory_images (mt_pages s) \<and>
      (has_room s \<and> mt_fail_at s = k \<longrightarrow> has_room s' \<and> mt_fail_at s' = k) \<and>
      (\<forall>p. r4 = Inr p \<longrightarrow> (\<exists>bs. memory_images (mt_pages s) b = Some bs \<and> stored_page b bs = Inr p))" for r4 b
    by (auto simp: memory_ops_simps memory_images_def stored_page_def split: if_splits)
  show "ps_read_into memory_store_ops b p s = (r7, s') \<Longrightarrow> memory_images (mt_pages s') = memory_images (mt_pages s) \<and>
      (has_room s \<and> mt_fail_at s = k \<longrightarrow> has_room s' \<and> mt_fail_at s' = k)" for r7 b p
    by (auto simp: memory_store_ops_def memory_read_into_def split: if_splits prod.splits)
  show "ps_remove_owners memory_store_ops p s = (r6, s') \<Longrightarrow>
      (\<exists>e. r6 = Inl e \<and> memory_images (mt_pages s') = memory_images (mt_pages s)) \<or>
      (r6 = Inr () \<and> page_validate p memory_layout = Inr () \<and> (has_room s \<and> mt_fail_at s = k \<longrightarrow> has_room s' \<and> mt_fail_at s' = k) \<and>
       memory_images (mt_pages s') = (memory_images (mt_pages s))(pg_block p \<mapsto> page_used p))" for r6 p
    using memory_commit_images[of "[p]" s r6 s'] by (auto simp: memory_store_ops_def has_room_def)
  show "ps_extend memory_store_ops s = (r5, s') \<Longrightarrow> has_room s \<and> mt_fail_at s = k \<Longrightarrow>
      (\<exists>e. r5 = Inl e \<and> memory_images (mt_pages s') = memory_images (mt_pages s)) \<or>
      (\<exists>b. r5 = Inr b \<and> memory_images (mt_pages s) b = None \<and> memory_images (mt_pages s') = (memory_images (mt_pages s))(b \<mapsto> []) \<and>
        (b \<noteq> NO_BLOCK \<longrightarrow> has_room s' \<and> mt_fail_at s' = k))" for r5
    using mem.host_extend[of s r5 s'] by (auto simp: memory_store_ops_def)
  show "ps_commit memory_store_ops ps s = (r6, s') \<Longrightarrow>
      (\<exists>e. r6 = Inl e \<and> memory_images (mt_pages s') = memory_images (mt_pages s)) \<or>
      (r6 = Inr () \<and> (\<forall>p \<in> set ps. page_validate p memory_layout = Inr ()) \<and> distinct (map pg_block ps) \<and>
       (has_room s \<and> mt_fail_at s = k \<longrightarrow> has_room s' \<and> mt_fail_at s' = k) \<and>
       memory_images (mt_pages s') = memory_images (mt_pages s) ++ map_of (map (\<lambda>p. (pg_block p, page_used p)) ps))" for r6 ps
    using memory_commit_images[of ps s r6 s'] by (auto simp: memory_store_ops_def has_room_def)
qed

text \<open>The owners that a store has published.\<close>

definition store_published :: "memory_store \<Rightarrow> (owner_ref \<times> root_tid) set" where
  "store_published s = published memory_layout (memory_images (mt_pages s))"

text \<open>C1: insertion is atomic. Whatever a store of the test host with fewer than 2^32 pages holds, and wherever
  a failure is injected, an insertion of a valid root that returns a reference publishes exactly that reference with its root, and the reference
  is new. One that fails leaves the published owners as they were, with one exception: it has published
  one new owner of the root when the injected failure struck the event that follows the last commit,
  that is, when the last recorded event is the publication event and its number is the one at which
  the store was set to fail.\<close>

theorem insert_document_atomic:
  assumes "length (mt_pages s) < 2 ^ 32" "tid_ok memory_layout root" "insert_document memory_store_ops root document s = (r, s')"
  shows "case r of
      Inr reference \<Rightarrow> store_published s' = insert (reference, root) (store_published s) \<and> reference \<notin> fst ` store_published s
    | Inl _ \<Rightarrow> store_published s' = store_published s \<or>
        (\<exists>earlier. mt_events s' = earlier @ [StPublished] \<and> mt_fail_at s = Some (length earlier)) \<and>
        (\<exists>reference. store_published s' = insert (reference, root) (store_published s) \<and> reference \<notin> fst ` store_published s)"
proof -
  have h: "has_room s \<and> mt_fail_at s = mt_fail_at s" using assms(1) by (simp add: has_room_def)
  note p = store_published_def published_owner_images
  obtain r1 s1 where m: "insert_until_published memory_store_ops root document s = (r1, s1)" by (cases "insert_until_published memory_store_ops root document s")
  note a = armed.stepD[OF armed.step_insert_published[OF assms(2)] h refl m]
  show ?thesis
  proof (cases r1)
    case (Inl e)
    then have "r = Inl e" "s' = s1" using assms(3) m by (simp_all add: insert_document_split io_bind_def)
    then show ?thesis using a Inl by (simp add: p)
  next
    case (Inr reference)
    then have g: "store_published s1 = insert (reference, root) (store_published s)" "reference \<notin> fst ` store_published s" "mt_fail_at s1 = mt_fail_at s"
      using a by (simp_all add: armed.gained_def p)
    have ev: "io_bind (memory_event StPublished) (\<lambda>_. io_return reference) s1 = (r, s')"
      using assms(3) m Inr by (simp add: insert_document_split io_bind_def[of "insert_until_published _ _ _"] memory_store_ops_def)
    have "mt_pages s' = mt_pages s1" using ev by (auto simp: memory_event_def io_bind_def io_lift_def Let_def split: if_splits)
    then have s': "store_published s' = store_published s1" by (simp add: store_published_def)
    show ?thesis
    proof (cases "mt_fail_at s1 = Some (length (mt_events s1))")
      case True
      then have "r = Inl InvalidState" "mt_events s' = mt_events s1 @ [StPublished]"
        using ev by (auto simp: memory_event_def io_bind_def io_lift_def Let_def)
      then show ?thesis using True g s' by auto
    next
      case False
      then have "r = Inr reference" using ev by (auto simp: memory_event_def io_bind_def io_lift_def Let_def)
      then show ?thesis using g s' by simp
    qed
  qed
qed

definition empty_store :: memory_store where
  "empty_store = \<lparr>mt_pages = [], mt_events = [], mt_fail_at = None, mt_packed_postings = False, mt_frontier_anchors = False\<rparr>"

definition initialized_store :: memory_store where
  "initialized_store = snd (initialize memory_store_ops empty_store)"

lemma initialized_room: "length (mt_pages initialized_store) < 2 ^ 32" "mt_fail_at initialized_store = None"
proof -
  have c: "length (mt_pages (snd (memory_commit ps s))) = length (mt_pages s)" "mt_fail_at (snd (memory_commit ps s)) = mt_fail_at s" for ps s
    using memory_commit_images[of ps s "fst (memory_commit ps s)" "snd (memory_commit ps s)"] by auto
  have "length (mt_pages initialized_store) < 2 ^ 32 \<and> mt_fail_at initialized_store = None"
    unfolding initialized_store_def initialize_def allocate_def
    by (simp add: memory_store_ops_def memory_event_def empty_store_def io_bind_def io_lift_def NO_BLOCK_def Let_def c split: sum.splits)
  then show "length (mt_pages initialized_store) < 2 ^ 32" "mt_fail_at initialized_store = None" by simp_all
qed

theorem insert_document_atomic_witness:
  "\<exists>s'. insert_document memory_store_ops (RootTid 3 1) \<lparr>pd_bytes = replicate 16 0, pd_tokens = 0, pd_terms = 0\<rparr> empty_store = (Inl InvalidState, s') \<and>
     store_published s' = store_published empty_store"
proof -
  let ?m = "insert_document memory_store_ops (RootTid 3 1) \<lparr>pd_bytes = replicate 16 0, pd_tokens = 0, pd_terms = 0\<rparr> empty_store"
  have t: "tid_ok memory_layout (RootTid 3 1)" by (simp add: tid_ok_def memory_layout_def)
  have l: "length (mt_pages empty_store) < 2 ^ 32" "mt_fail_at empty_store = None" by (simp_all add: empty_store_def)
  have m: "?m = (Inl InvalidState, snd ?m)"
    by (simp add: insert_document_def load_def load_any_def memory_store_ops_def empty_store_def io_bind_def io_lift_def)
  from insert_document_atomic[OF l(1) t m] l(2) have "store_published (snd ?m) = store_published empty_store" by simp
  with m show ?thesis by (intro exI[of _ "snd ?m"] conjI)
qed

end
