(* ===== verification/GroupValues.thy ===== *)
theory GroupValues
  imports PageGrouped GroupBitmap Evaluation
begin

text \<open>
  Values of the catalog of a grouped generation (crates/pin-core/src/mutable/grouped/storage.rs and
  anchors.rs): the record of a group, with sparse postings embedded in the entry itself, and the anchors
  that tie a term to the canonical chain it was copied from.
\<close>

section \<open>Values\<close>

definition BITMAP_BYTES :: nat where
  "BITMAP_BYTES = 72 + 256 * 68"

definition LEVELS :: nat where
  "LEVELS = unat MAX_CATALOG_LEVEL + 1"

definition INLINE_POSTINGS :: nat where
  "INLINE_POSTINGS = 18"

record catalog_value =
  cv_len :: u32
  cv_blocks :: "u32 list"
  cv_pages :: page_mask
  cv_members :: u32
  cv_member_bytes :: u32
  cv_count :: u32
  cv_inline :: "bytes option"

text \<open>The bytes of the coordinates; the old format keeps at most six of them in the block fields.\<close>

definition inline_bytes :: "catalog_value \<Rightarrow> bytes" where
  "inline_bytes self =
     (case cv_inline self of
        Some bytes \<Rightarrow> bytes
      | None \<Rightarrow> concat (map (le_bytes 4) (cv_blocks self)) @ le_bytes 4 (cv_members self) @ le_bytes 4 (cv_member_bytes self) @
          replicate (INLINE_POSTINGS * 3 - 20) 0)"

definition coordinate_of :: "bytes \<Rightarrow> u32" where
  "coordinate_of chunk = ucast (chunk ! 0) OR push_bit 8 (ucast (chunk ! 1)) OR push_bit 16 (ucast (chunk ! 2))"

text \<open>The used prefix of the array of pages, the previous coordinate and the page mask.\<close>

record inline_scan =
  is_pages :: "page_offsets list"
  is_previous :: "u32 option"
  is_mask :: page_mask

definition set_offset :: "page_offsets \<Rightarrow> nat \<Rightarrow> page_offsets" where
  "set_offset page b = page\<lparr>pf_offsets := (pf_offsets page)[b div 64 := pf_offsets page ! (b div 64) OR push_bit (b mod 64) 1]\<rparr>"

definition inline_step :: "u16 \<Rightarrow> inline_scan \<Rightarrow> bytes \<Rightarrow> inline_scan result" where
  "inline_step limit st chunk =
     (let coordinate = coordinate_of chunk; page = ucast (drop_bit 9 coordinate); offset = ucast (coordinate AND 511) + 1 in
      if offset > limit \<or> is_some_and (is_previous st) (\<lambda>old. old \<ge> coordinate) then Inl InvalidState else
      let pages = (if is_pages st = [] \<or> pf_page (last (is_pages st)) \<noteq> page
                   then is_pages st @ [\<lparr>pf_page = page, pf_offsets = replicate 8 0\<rparr>] else is_pages st)
      in Inr \<lparr>is_pages = butlast pages @ [set_offset (last pages) (unat (offset - 1))], is_previous = Some coordinate,
           is_mask = mask_insert (is_mask st) page\<rparr>)"

definition inline_pages :: "catalog_value \<Rightarrow> u16 \<Rightarrow> page_offsets list result" where
  "inline_pages self limit =
     (let count = unat (cv_count self) in
      if cv_len self \<noteq> 0 \<or> count = 0 \<or> count > (case cv_inline self of None \<Rightarrow> 6 | Some _ \<Rightarrow> INLINE_POSTINGS) then Inl InvalidState else
      let bytes = inline_bytes self in
      if list_ex (\<lambda>byte. byte \<noteq> 0) (drop (count * 3) bytes) then Inl InvalidState else
      and_then (try_fold (inline_step limit) \<lparr>is_pages = [], is_previous = None, is_mask = replicate 4 0\<rparr>
        (chunks 3 (take (count * 3) bytes))) (\<lambda>st.
      if cv_inline self = None \<and> is_mask st \<noteq> cv_pages self then Inl InvalidState else Inr (is_pages st)))"

definition value_entry :: "catalog_value \<Rightarrow> catalog_key \<Rightarrow> catalog_entry" where
  "value_entry self key =
     (case cv_inline self of
        Some inline \<Rightarrow>
          \<lparr>ce_key = key, ce_value = le_bytes 4 (cv_len self) @ inline @ replicate 2 0 @ le_bytes 4 (cv_count self)\<rparr>
      | None \<Rightarrow>
          \<lparr>ce_key = key, ce_value = le_bytes 4 (cv_len self) @ concat (map (le_bytes 4) (cv_blocks self)) @
             concat (map (le_bytes 8) (cv_pages self)) @ le_bytes 4 (cv_members self) @ le_bytes 4 (cv_member_bytes self) @
             le_bytes 4 (cv_count self) @ replicate 4 0\<rparr>)"

text \<open>The first branch of \<open>read\<close>, an embedded posting list.\<close>

definition read_inline :: "catalog_entry \<Rightarrow> catalog_value result" where
  "read_inline entry =
     (if fst (ce_key entry) = 0 \<or> take 2 (drop 58 (ce_value entry)) \<noteq> replicate 2 0 then Inl InvalidState else
      let self = \<lparr>cv_len = 0, cv_blocks = replicate 3 NO_BLOCK, cv_pages = replicate 4 0, cv_members = NO_BLOCK, cv_member_bytes = 0,
        cv_count = from_le (take 4 (drop 60 (ce_value entry))), cv_inline = Some (take 54 (drop 4 (ce_value entry)))\<rparr> in
      and_then (inline_pages self 512) (\<lambda>pages.
      Inr (self\<lparr>cv_pages := fold (\<lambda>page m. mask_insert m (pf_page page)) pages (cv_pages self)\<rparr>)))"

definition read_words :: "(reader \<Rightarrow> ('a \<times> reader) codec_result) \<Rightarrow> nat \<Rightarrow> reader \<Rightarrow> ('a list \<times> reader) result" where
  "read_words f n reader =
     try_fold (\<lambda>(words, reader) _. and_then (from_codec (f reader)) (\<lambda>(word, reader). Inr (words @ [word], reader))) ([], reader) [0..<n]"

definition blocks_ok :: "catalog_value \<Rightarrow> bool" where
  "blocks_ok self \<longleftrightarrow>
     (let used = div_ceil (unat (cv_len self)) GROUP_DATA_BYTES in
      list_all (\<lambda>index.
        if index < used then cv_blocks self ! index \<noteq> 0 \<and> cv_blocks self ! index \<noteq> NO_BLOCK \<and>
          cv_blocks self ! index \<notin> set (take index (cv_blocks self))
        else cv_blocks self ! index = NO_BLOCK) [0..<length (cv_blocks self)])"

definition value_read :: "catalog_entry \<Rightarrow> catalog_value result" where
  "value_read entry =
     (if take 4 (ce_value entry) = replicate 4 0 \<and> take 4 (drop 60 (ce_value entry)) \<noteq> replicate 4 0 then read_inline entry else
      and_then (from_codec (reader_u32 (reader_new (ce_value entry)))) (\<lambda>(len, reader).
      and_then (read_words reader_u32 3 reader) (\<lambda>(blocks, reader).
      and_then (read_words reader_u64 4 reader) (\<lambda>(pages, reader).
      and_then (from_codec (reader_u32 reader)) (\<lambda>(members, reader).
      and_then (from_codec (reader_u32 reader)) (\<lambda>(member_bytes, reader).
      and_then (from_codec (reader_u32 reader)) (\<lambda>(count, reader).
      and_then (from_codec (reader_u32 reader)) (\<lambda>(zero, reader).
      if zero \<noteq> 0 then Inl InvalidState else
      let self = \<lparr>cv_len = len, cv_blocks = blocks, cv_pages = pages, cv_members = members, cv_member_bytes = member_bytes,
        cv_count = count, cv_inline = None\<rparr> in
      if len = 0 then
        (if fst (ce_key entry) = 0 then Inl InvalidState else and_then (inline_pages self 512) (\<lambda>_. Inr self))
      else
      if \<not> (72 \<le> unat len \<and> unat len \<le> BITMAP_BYTES) \<or> \<not> blocks_ok self then Inl InvalidState else
      if fst (ce_key entry) = 0 then
        (if members = 0 \<or> members = NO_BLOCK \<or> count = 0 \<or> unat count > 256 * 512 \<or> member_bytes \<noteq> 72 + count * 16 \<or> members \<in> set blocks
         then Inl InvalidState else if pages = replicate 4 0 then Inl InvalidState else Inr self)
      else if members \<noteq> NO_BLOCK \<or> member_bytes \<noteq> 0 \<or> count \<noteq> 0 then Inl InvalidState
      else if pages = replicate 4 0 then Inl InvalidState else Inr self))))))))"

section \<open>Embedding sparse postings\<close>

record inlining =
  il_bytes :: bytes
  il_mask :: page_mask
  il_count :: nat
  il_previous :: "u8 option"

text \<open>The loop over the set bits of one word; \<open>None\<close> is the early return when the entry is full.\<close>

function inline_word :: "heap_layout \<Rightarrow> u8 \<Rightarrow> nat \<Rightarrow> u64 \<Rightarrow> inlining \<Rightarrow> inlining option result" where
  "inline_word layout page word remaining st =
     (if remaining = 0 then Inr (Some st) else
      let b = trailing_zeros remaining; offset = word * 64 + b + 1 in
      if offset > unat (max_offset layout) then Inl InvalidState else
      if il_count st = INLINE_POSTINGS then Inr None else
      let coordinate = push_bit 9 (ucast page) OR (of_nat (offset - 1) :: u32) in
      inline_word layout page word (remaining AND (remaining - 1))
        (st\<lparr>il_bytes := take (il_count st * 3) (il_bytes st) @ take 3 (le_bytes 4 coordinate) @ drop (il_count st * 3 + 3) (il_bytes st),
           il_count := il_count st + 1\<rparr>))"
  by pat_completeness auto
termination
proof (relation "measure (\<lambda>(layout, page, word, remaining, st). length (word_bits remaining))", simp)
  fix remaining :: u64
  assume "remaining \<noteq> 0"
  then have "length (word_bits (remaining AND (remaining - 1))) < length (word_bits remaining)"
    using word_bits_clear_lowest[of remaining] word_bits_Nil_iff[of remaining] by (cases "word_bits remaining") auto
  then show "((layout, page, word, remaining AND (remaining - 1), st'), layout, page, word, remaining, st)
      \<in> measure (\<lambda>(layout, page, word, remaining, st). length (word_bits remaining))"
    for layout :: heap_layout and page :: u8 and word :: nat and st st' :: inlining by simp
qed

declare inline_word.simps [simp del]

text \<open>A fold whose accumulator may stop it early.\<close>

fun stop_fold :: "('a \<Rightarrow> 'x \<Rightarrow> 'a option result) \<Rightarrow> 'a \<Rightarrow> 'x list \<Rightarrow> 'a option result" where
  "stop_fold f a [] = Inr (Some a)"
| "stop_fold f a (x # xs) = and_then (f a x) (\<lambda>r. case r of None \<Rightarrow> Inr None | Some a \<Rightarrow> stop_fold f a xs)"

definition inline_page :: "heap_layout \<Rightarrow> inlining \<Rightarrow> page_offsets \<Rightarrow> inlining option result" where
  "inline_page layout st page =
     (if is_some_and (il_previous st) (\<lambda>old. old \<ge> pf_page page) then Inl InvalidState else
      stop_fold (\<lambda>st (index, word). inline_word layout (pf_page page) index word st)
        (st\<lparr>il_previous := Some (pf_page page), il_mask := mask_insert (il_mask st) (pf_page page)\<rparr>)
        (enumerate 0 (pf_offsets page)))"

definition inline_postings :: "catalog_key \<Rightarrow> page_offsets list \<Rightarrow> heap_layout \<Rightarrow> catalog_entry option result" where
  "inline_postings key pages layout =
     (if fst key = 0 \<or> pages = [] then Inl InvalidState else
      and_then (stop_fold (inline_page layout)
        \<lparr>il_bytes = replicate (INLINE_POSTINGS * 3) 0, il_mask = replicate 4 0, il_count = 0, il_previous = None\<rparr> pages) (\<lambda>r.
      case r of
        None \<Rightarrow> Inr None
      | Some st \<Rightarrow>
          if il_count st = 0 then Inl InvalidState else
          let self = \<lparr>cv_len = 0, cv_blocks = replicate 3 NO_BLOCK, cv_pages = il_mask st, cv_members = NO_BLOCK, cv_member_bytes = 0,
            cv_count = of_nat (il_count st), cv_inline = Some (il_bytes st)\<rparr> in
          and_then (inline_pages self (max_offset layout)) (\<lambda>_. Inr (Some (value_entry self key)))))"

section \<open>Anchors\<close>

text \<open>\<open>b"FSA1"\<close>.\<close>

definition ANCHOR_MAGIC :: bytes where
  "ANCHOR_MAGIC = [0x46, 0x53, 0x41, 0x31]"

record anchor =
  ac_head :: u32
  ac_tail :: u32
  ac_last :: u64

definition term_key :: "term_ref \<Rightarrow> u64" where
  "term_key reference = push_bit 16 (ucast (tr_page reference)) OR ucast (tr_offset reference)"

definition valid_term :: "u64 \<Rightarrow> bool" where
  "valid_term key \<longleftrightarrow>
     drop_bit 16 key > 0 \<and> drop_bit 16 key < ucast NO_BLOCK \<and> (ucast key :: u16) \<ge> 16 \<and> unat (ucast key :: u16) < CAPACITY"

definition anchor_new :: "u32 \<Rightarrow> u32 \<Rightarrow> u64 \<Rightarrow> anchor result" where
  "anchor_new head tail last_id =
     (if last_id = 0 \<or> head = 0 \<or> tail = 0 \<or> (head = NO_BLOCK) \<noteq> (tail = NO_BLOCK) then Inl InvalidState
      else Inr \<lparr>ac_head = head, ac_tail = tail, ac_last = last_id\<rparr>)"

text \<open>A sort record is 32 bytes, four big-endian words.\<close>

definition be_bytes :: "nat \<Rightarrow> 'a::len word \<Rightarrow> bytes" where
  "be_bytes n w = rev (le_bytes n w)"

definition from_be :: "bytes \<Rightarrow> 'a::len word" where
  "from_be bs = from_le (rev bs)"

definition anchor_sort_record :: "anchor \<Rightarrow> u64 \<Rightarrow> bytes" where
  "anchor_sort_record self posted =
     be_bytes 8 posted @ be_bytes 8 (0 :: u64) @
     be_bytes 8 (push_bit 32 (ucast (ac_head self)) OR ucast (ac_tail self) :: u64) @ be_bytes 8 (ac_last self)"

definition anchor_from_sort :: "bytes \<Rightarrow> (u64 \<times> anchor) option result" where
  "anchor_from_sort record =
     (if (from_be (take 8 (drop 8 record)) :: u64) \<noteq> 0 then Inr None else
      let posted = (from_be (take 8 record) :: u64) in
      if \<not> valid_term posted then Inl InvalidState else
      let chain = (from_be (take 8 (drop 16 record)) :: u64) in
      and_then (anchor_new (ucast (drop_bit 32 chain)) (ucast chain) (from_be (take 8 (drop 24 record)))) (\<lambda>anchor.
      Inr (Some (posted, anchor))))"

definition anchor_entry :: "anchor \<Rightarrow> u64 \<Rightarrow> catalog_entry" where
  "anchor_entry self posted =
     \<lparr>ce_key = (posted, 0), ce_value = ANCHOR_MAGIC @ le_bytes 4 (ac_head self) @ le_bytes 4 (ac_tail self) @ le_bytes 8 (ac_last self) @
        replicate 44 0\<rparr>"

definition anchor_is_entry :: "catalog_entry \<Rightarrow> bool" where
  "anchor_is_entry entry \<longleftrightarrow> take 4 (ce_value entry) = ANCHOR_MAGIC"

definition anchor_read :: "catalog_entry \<Rightarrow> anchor result" where
  "anchor_read entry =
     (if \<not> valid_term (fst (ce_key entry)) \<or> snd (ce_key entry) \<noteq> 0 then Inl InvalidState else
      and_then (from_codec (reader_take (reader_new (ce_value entry)) 4)) (\<lambda>(magic, reader).
      if magic \<noteq> ANCHOR_MAGIC then Inl InvalidState else
      and_then (from_codec (reader_u32 reader)) (\<lambda>(head, reader).
      and_then (from_codec (reader_u32 reader)) (\<lambda>(tail, reader).
      and_then (from_codec (reader_u64 reader)) (\<lambda>(last_id, reader).
      and_then (anchor_new head tail last_id) (\<lambda>anchor.
      and_then (from_codec (reader_take reader 44)) (\<lambda>(zeros, reader).
      if zeros \<noteq> replicate 44 0 then Inl InvalidState else
      and_then (from_codec (reader_finish reader)) (\<lambda>_. Inr anchor))))))))"

section \<open>Inline coordinates\<close>

text \<open>The page of an inline coordinate is cast to eight bits after the comparison with the previous
  coordinate, so bits 17 to 23 of a stored coordinate are ignored: this entry is accepted although its
  two coordinates decode to the same posting, and its count is not the number of postings it holds.\<close>

lemma inline_coordinate_truncated:
  "case value_read \<lparr>ce_key = (0x10010, 0), ce_value = replicate 4 0 @ [0, 0, 0, 0, 0, 2] @ replicate 50 0 @ [2, 0, 0, 0]\<rparr> of
     Inl _ \<Rightarrow> False
   | Inr v \<Rightarrow> cv_count v = 2 \<and> inline_pages v 512 = Inr [\<lparr>pf_page = 0, pf_offsets = 1 # replicate 7 0\<rparr>]"
  by code_simp

end
