(* ===== verification/GroupStorage.thy ===== *)
theory GroupStorage
  imports GroupValues Chains
begin

text \<open>
  Storage of grouped generations (crates/pin-core/src/mutable/grouped/storage.rs): records and catalog
  nodes are appended to a chain that a journal in the metapage owns, a generation is published by one
  commit of the metapage, and recovery frees the chains of unfinished and of retired generations. The
  catalog is written bottom up and read through a cursor that keeps one leaf and a path to it.
\<close>

section \<open>Identity\<close>

definition snapshot_key :: "group_snapshot \<Rightarrow> u32 \<Rightarrow> heap_layout \<Rightarrow> group_key result" where
  "snapshot_key snapshot base layout =
     and_then (map_err (\<lambda>_. InvalidState) (identifier_new 1)) (\<lambda>relation. group_key_new relation (gn_id snapshot) base layout)"

section \<open>Inspection and recovery\<close>

function inspect_group_loop ::
  "'s page_store \<Rightarrow> segment_id \<Rightarrow> u32 \<Rightarrow> u32 \<Rightarrow> u32 \<Rightarrow> u32 \<Rightarrow> 's \<Rightarrow> u32 result \<times> 's" where
  "inspect_group_loop store ident tail remaining count block s =
     io_bind (load store block Grouped) (\<lambda>page.
     io_bind (io_lift (page_group_identity page)) (\<lambda>(found, _).
     io_bind (if found \<noteq> ident then io_return True
       else if block = tail then io_lift (and_then (page_next page) (\<lambda>nxt. Inr (nxt \<noteq> NO_BLOCK))) else io_return False) (\<lambda>bad.
     \<lambda>s. if bad then io_fail InvalidState s else
     io_bind (io_lift (ok_or (Limit ''group pages'') (checked_add_w count 1))) (\<lambda>count.
     io_bind (io_lift (posting_next page tail remaining)) (\<lambda>(nxt, remaining).
     case nxt of Some nxt \<Rightarrow> inspect_group_loop store ident tail remaining count nxt | None \<Rightarrow> io_return count)) s))) s"
  by pat_completeness auto
termination
  by (relation "measure (\<lambda>(store, ident, tail, remaining, count, block, s). unat remaining)")
    (auto dest!: posting_next_remaining)

declare inspect_group_loop.simps [simp del]

definition inspect_group :: "'s page_store \<Rightarrow> segment_id \<Rightarrow> u32 \<Rightarrow> u32 \<Rightarrow> ('s, u32) io" where
  "inspect_group store ident head tail =
     (if head = NO_BLOCK then (if tail = NO_BLOCK then io_return 0 else io_fail InvalidState) else
      io_bind (ps_blocks store) (\<lambda>remaining. inspect_group_loop store ident tail remaining 0 head))"

text \<open>The successor of a page that is about to be freed.\<close>

definition released_next :: "page \<Rightarrow> u32 \<Rightarrow> u32 \<Rightarrow> u32 result" where
  "released_next page head tail =
     (if head = tail then Inr NO_BLOCK else
      and_then (page_next page) (\<lambda>nxt. if nxt = NO_BLOCK then Inl InvalidState else Inr nxt))"

definition journal_in_use :: "group_state \<Rightarrow> group_journal \<Rightarrow> bool" where
  "journal_in_use state journal \<longleftrightarrow>
     is_some_and (gt_active state) (\<lambda>active. gn_id active = gj_id journal) \<or>
     list_ex (\<lambda>delta. gn_id (gd_snapshot delta) = gj_id journal) (somes (gt_deltas state)) \<or>
     list_ex (\<lambda>retired. gr_id retired = gj_id journal) (somes (gt_retired state))"

lemma checked_add_progress: "ok_or e (checked_add_w (w :: u32) 1) = Inr v \<Longrightarrow> unat w < unat v"
  using unat_lt2p[of w] by (auto simp: ok_or_Inr_iff checked_add_w_def unat_add_lem[THEN iffD1] split: if_splits)

text \<open>
  The first loop frees the chain of an unfinished generation. An empty journal is cleared and the
  metapage read again, at most \<open>clears\<close> times: a host that reads back what it has stored finds no
  journal then, and every other turn counts a freed page.
\<close>

function recover_journal :: "'s page_store \<Rightarrow> nat \<Rightarrow> u32 \<Rightarrow> 's \<Rightarrow> u32 result \<times> 's" where
  "recover_journal store clears reclaimed s =
     io_bind (load store 0 Meta) (\<lambda>meta.
     io_bind (io_lift (page_grouped_state meta)) (\<lambda>state.
     \<lambda>s. case gt_journal state of
       None \<Rightarrow> io_return reclaimed s
     | Some journal \<Rightarrow>
         io_bind (inspect_group store (gj_id journal) (gj_head journal) (gj_tail journal)) (\<lambda>_.
         \<lambda>s. if journal_in_use state journal then io_fail InvalidState s else
         if gj_head journal = NO_BLOCK then
           io_bind (io_lift (page_set_grouped_state meta (state\<lparr>gt_journal := None\<rparr>))) (\<lambda>meta.
           io_bind (ps_commit store [meta]) (\<lambda>_.
           case clears of 0 \<Rightarrow> io_fail InvalidState | Suc clears \<Rightarrow> recover_journal store clears reclaimed)) s
         else
           io_bind (load store (gj_head journal) Grouped) (\<lambda>page.
           io_bind (io_lift (released_next page (gj_head journal) (gj_tail journal))) (\<lambda>nxt.
           io_bind (io_lift (and_then (page_free_head meta) (page_free (gj_head journal)))) (\<lambda>free.
           io_bind (io_lift (page_set_free_head meta (gj_head journal))) (\<lambda>meta.
           io_bind (io_lift (page_set_grouped_state meta
             (state\<lparr>gt_journal := (if nxt \<noteq> NO_BLOCK then Some (journal\<lparr>gj_head := nxt\<rparr>) else None)\<rparr>))) (\<lambda>meta.
           io_bind (ps_commit store [meta, free]) (\<lambda>_.
           io_bind (ps_event store StGroupReclaimed) (\<lambda>_.
           io_bind (io_lift (ok_or (Limit ''group recovery pages'') (checked_add_w reclaimed 1))) (\<lambda>reclaimed.
           recover_journal store clears reclaimed)))))))) s) s)) s"
  by pat_completeness auto
termination
proof (relation "measures [\<lambda>(store, clears, reclaimed, s). clears, \<lambda>(store, clears, reclaimed, s). 2 ^ 32 - unat reclaimed]", goal_cases)
  case (3 store clears reclaimed)
  then show ?case
    using checked_add_progress[of _ reclaimed] unat_lt2p[of reclaimed] by (auto intro!: diff_less_mono2)
qed simp_all

declare recover_journal.simps [simp del]

definition shift_retired :: "group_state \<Rightarrow> nat \<Rightarrow> group_state" where
  "shift_retired state index =
     state\<lparr>gt_retired := (fold (\<lambda>slot retired. retired[slot := retired ! (slot + 1)]) [index..<GROUP_RETIRED_SEGMENTS - 1] (gt_retired state))
       [GROUP_RETIRED_SEGMENTS - 1 := None]\<rparr>"

definition first_retired :: "group_state \<Rightarrow> (nat \<times> group_retired) option" where
  "first_retired state =
     (case filter (\<lambda>(index, entry). entry \<noteq> None) (enumerate 0 (gt_retired state)) of
        (index, Some entry) # _ \<Rightarrow> Some (index, entry)
      | _ \<Rightarrow> None)"

text \<open>The second loop frees the chains of retired generations, the oldest first.\<close>

function recover_retired :: "'s page_store \<Rightarrow> u32 \<Rightarrow> 's \<Rightarrow> u32 result \<times> 's" where
  "recover_retired store reclaimed s =
     io_bind (load store 0 Meta) (\<lambda>meta.
     io_bind (io_lift (page_grouped_state meta)) (\<lambda>state.
     \<lambda>s. case first_retired state of
       None \<Rightarrow> io_return reclaimed s
     | Some (index, retiring) \<Rightarrow>
         io_bind (inspect_group store (gr_id retiring) (gr_head retiring) (gr_tail retiring)) (\<lambda>_.
         io_bind (load store (gr_head retiring) Grouped) (\<lambda>page.
         io_bind (io_lift (released_next page (gr_head retiring) (gr_tail retiring))) (\<lambda>nxt.
         io_bind (io_lift (and_then (page_free_head meta) (page_free (gr_head retiring)))) (\<lambda>free.
         io_bind (io_lift (page_set_free_head meta (gr_head retiring))) (\<lambda>meta.
         io_bind (io_lift (page_set_grouped_state meta (if nxt = NO_BLOCK then shift_retired state index
           else state\<lparr>gt_retired := (gt_retired state)[index := Some (retiring\<lparr>gr_head := nxt\<rparr>)]\<rparr>))) (\<lambda>meta.
         io_bind (ps_commit store [meta, free]) (\<lambda>_.
         io_bind (ps_event store StGroupReclaimed) (\<lambda>_.
         io_bind (io_lift (ok_or (Limit ''group recovery pages'') (checked_add_w reclaimed 1))) (\<lambda>reclaimed.
         recover_retired store reclaimed))))))))) s)) s"
  by pat_completeness auto
termination
proof (relation "measure (\<lambda>(store, reclaimed, s). 2 ^ 32 - unat reclaimed)", simp, goal_cases)
  case (1 store reclaimed)
  then show ?case
    using checked_add_progress[of _ reclaimed] unat_lt2p[of reclaimed] by (auto intro!: diff_less_mono2)
qed

declare recover_retired.simps [simp del]

definition JOURNAL_CLEARS :: nat where
  "JOURNAL_CLEARS = 1"

definition group_recover :: "'s page_store \<Rightarrow> ('s, u32) io" where
  "group_recover store = io_bind (recover_journal store JOURNAL_CLEARS 0) (recover_retired store)"

section \<open>Building\<close>

definition group_begin :: "'s page_store \<Rightarrow> owner_ref option \<Rightarrow> ('s, group_snapshot) io" where
  "group_begin store after =
     io_bind (group_recover store) (\<lambda>_.
     io_bind (load store 0 Meta) (\<lambda>meta.
     io_bind (io_lift (page_grouped_state meta)) (\<lambda>state.
     io_bind (io_lift (page_reserve_incarnation meta)) (\<lambda>(incarnation, meta).
     io_bind (io_lift (map_err (\<lambda>_. InvalidState) (identifier_new incarnation))) (\<lambda>ident.
     io_bind (io_lift (page_set_grouped_state meta
       (state\<lparr>gt_journal := Some \<lparr>gj_id = ident, gj_head = NO_BLOCK, gj_tail = NO_BLOCK, gj_phase = Building\<rparr>\<rparr>))) (\<lambda>meta.
     io_bind (ps_commit store [meta]) (\<lambda>_.
     io_bind (ps_event store StGroupReserved) (\<lambda>_.
     io_return \<lparr>gn_id = ident, gn_head = NO_BLOCK, gn_tail = NO_BLOCK, gn_root = NO_BLOCK, gn_after = after,
       gn_frontier_root = None, gn_frontier_valid = False\<rparr>))))))))"

definition group_append :: "'s page_store \<Rightarrow> group_snapshot \<Rightarrow> (u32 \<Rightarrow> page result) \<Rightarrow> ('s, u32 \<times> group_snapshot) io" where
  "group_append store snapshot build =
     io_bind (load store 0 Meta) (\<lambda>meta.
     io_bind (io_lift (page_grouped_state meta)) (\<lambda>state.
     io_bind (io_lift (ok_or InvalidState (gt_journal state))) (\<lambda>journal.
     if gj_id journal \<noteq> gn_id snapshot \<or> gj_phase journal \<noteq> Building \<or> gj_head journal \<noteq> gn_head snapshot \<or>
        gj_tail journal \<noteq> gn_tail snapshot
     then io_fail InvalidState else
     io_bind (io_lift (page_free_head meta)) (\<lambda>free.
     io_bind (if free = NO_BLOCK then io_bind (allocate store) (\<lambda>block. io_return (block, meta))
       else io_bind (load store free Free) (\<lambda>page.
         io_lift (and_then (page_next page) (\<lambda>nxt. and_then (page_set_free_head meta nxt) (\<lambda>meta. Inr (free, meta)))))) (\<lambda>(block, meta).
     io_bind (io_lift (build block)) (\<lambda>page.
     io_bind (io_lift (page_group_identity page)) (\<lambda>(ident, _).
     io_bind (if ident \<noteq> gn_id snapshot then io_return True else io_lift (and_then (page_next page) (\<lambda>nxt. Inr (nxt \<noteq> NO_BLOCK)))) (\<lambda>bad.
     if bad then io_fail InvalidState else
     let head = (if gj_head journal = NO_BLOCK then block else gj_head journal) in
     io_bind (io_lift (page_set_grouped_state meta (state\<lparr>gt_journal := Some (journal\<lparr>gj_head := head, gj_tail := block\<rparr>)\<rparr>))) (\<lambda>meta.
     io_bind (if gj_tail journal = NO_BLOCK then ps_commit store [meta, page] else
         io_bind (load store (gj_tail journal) Grouped) (\<lambda>previous.
         io_bind (io_lift (page_group_identity previous)) (\<lambda>(ident, _).
         io_bind (if ident \<noteq> gn_id snapshot then io_return True else io_lift (and_then (page_next previous) (\<lambda>nxt. Inr (nxt \<noteq> NO_BLOCK)))) (\<lambda>bad.
         if bad then io_fail InvalidState else
         io_bind (io_lift (page_set_next previous block)) (\<lambda>previous. ps_commit store [meta, previous, page]))))) (\<lambda>_.
     io_bind (ps_event store StGroupStored) (\<lambda>_.
     io_return (block, snapshot\<lparr>gn_head := head, gn_tail := block\<rparr>))))))))))))"

definition write_chunk ::
  "'s page_store \<Rightarrow> segment_id \<Rightarrow> group_page_kind \<Rightarrow> catalog_key \<Rightarrow> u32 \<Rightarrow> u32 \<times> u32 list \<times> group_snapshot \<Rightarrow> nat \<times> bytes \<Rightarrow>
   ('s, u32 \<times> u32 list \<times> group_snapshot) io" where
  "write_chunk store ident kind key len st chunk =
     (let (head, blocks, snapshot) = st; (index, bytes) = chunk in
      io_bind (group_append store snapshot (\<lambda>block. page_group_record block ident kind key len (of_nat (index * GROUP_DATA_BYTES)) bytes)) (\<lambda>(block, snapshot).
      io_return (if index = 0 then block else head, blocks[index := block], snapshot)))"

definition write_record ::
  "'s page_store \<Rightarrow> group_snapshot \<Rightarrow> group_page_kind \<Rightarrow> catalog_key \<Rightarrow> bytes \<Rightarrow> ('s, (u32 \<times> u32 list) \<times> group_snapshot) io" where
  "write_record store snapshot kind key bytes =
     io_bind (io_lift (ok_or (Limit ''group record'') (u32_try_from (length bytes)))) (\<lambda>len.
     io_bind (io_fold (write_chunk store (gn_id snapshot) kind key len) (NO_BLOCK, replicate 3 NO_BLOCK, snapshot)
       (enumerate 0 (chunks GROUP_DATA_BYTES bytes))) (\<lambda>(head, blocks, snapshot).
     if head = NO_BLOCK then io_fail InvalidState else io_return ((head, blocks), snapshot)))"

section \<open>Reading\<close>

text \<open>One page of a record into its part of the output; the state is the next block and the bytes so far.\<close>

definition read_chunk ::
  "'s page_store \<Rightarrow> group_snapshot \<Rightarrow> group_page_kind \<Rightarrow> catalog_key \<Rightarrow> nat \<Rightarrow> u32 list option \<Rightarrow> u32 \<times> bytes \<Rightarrow> nat \<Rightarrow> ('s, u32 \<times> bytes) io" where
  "read_chunk store snapshot kind key len expected st index =
     (let (block, bytes) = st in
      if is_some_and expected (\<lambda>blocks. \<not> (index < length blocks \<and> blocks ! index = block)) then io_fail InvalidState else
      io_bind (load store block Grouped) (\<lambda>page.
      io_bind (io_lift (page_group_data page)) (\<lambda>data.
      if dt_id data \<noteq> gn_id snapshot \<or> dt_kind data \<noteq> kind \<or> dt_key data \<noteq> key \<or> unat (dt_total data) \<noteq> len \<or>
         unat (dt_offset data) \<noteq> index * GROUP_DATA_BYTES \<or> length (dt_bytes data) \<noteq> min GROUP_DATA_BYTES (len - index * GROUP_DATA_BYTES)
      then io_fail InvalidState else
      io_bind (io_lift (page_next page)) (\<lambda>nxt. io_return (nxt, bytes @ dt_bytes data)))))"

definition read_record ::
  "'s page_store \<Rightarrow> group_snapshot \<Rightarrow> group_page_kind \<Rightarrow> catalog_key \<Rightarrow> u32 \<Rightarrow> nat \<Rightarrow> u32 list option \<Rightarrow> ('s, bytes) io" where
  "read_record store snapshot kind key head len expected =
     io_bind (io_fold (read_chunk store snapshot kind key len expected) (head, []) [0..<div_ceil len GROUP_DATA_BYTES]) (\<lambda>(_, bytes).
     io_return bytes)"

text \<open>The view is opened on the first \<open>len\<close> bytes of the output, which is returned as well.\<close>

definition read_bitmap_view ::
  "'s page_store \<Rightarrow> group_snapshot \<Rightarrow> catalog_entry \<Rightarrow> bytes \<Rightarrow> ('s, catalog_value \<times> bitmap \<times> bytes) io" where
  "read_bitmap_view store snapshot entry output =
     with_layout store (\<lambda>layout.
     io_bind (io_lift (value_read entry)) (\<lambda>v.
     if cv_len v = 0 then
       io_lift (and_then (inline_pages v (max_offset layout)) (\<lambda>pages.
         and_then (snapshot_key snapshot (ucast (snd (ce_key entry))) layout) (\<lambda>key.
         and_then (encode_bitmap key Posting pages output) (\<lambda>(len, output).
         and_then (bitmap_open (take len output)) (\<lambda>view. Inr (v, view, output))))))
     else
     if unat (cv_len v) > length output then io_fail (Limit ''group bitmap scratch'') else
     io_bind (read_record store snapshot (if fst (ce_key entry) = 0 then LivenessPage else PostingPage) (ce_key entry) (cv_blocks v ! 0)
       (unat (cv_len v)) (Some (cv_blocks v))) (\<lambda>bytes.
     io_lift (and_then (bitmap_open bytes) (\<lambda>view.
       and_then (snapshot_key snapshot (ucast (snd (ce_key entry))) layout) (\<lambda>key.
       if bitmap_key view \<noteq> key \<or> bitmap_kind_of view \<noteq> (if fst (ce_key entry) = 0 then Liveness else Posting) \<or> bitmap_pages view \<noteq> cv_pages v
       then Inl InvalidState else Inr (v, view, bytes @ drop (unat (cv_len v)) output)))))))"

definition read_bitmap ::
  "'s page_store \<Rightarrow> group_snapshot \<Rightarrow> catalog_entry \<Rightarrow> bytes \<Rightarrow> ('s, catalog_value \<times> bytes) io" where
  "read_bitmap store snapshot entry output =
     io_bind (read_bitmap_view store snapshot entry output) (\<lambda>(v, _, output). io_return (v, output))"

section \<open>Publication\<close>

definition verify_root :: "'s page_store \<Rightarrow> group_snapshot \<Rightarrow> unit \<Rightarrow> u32 \<Rightarrow> ('s, unit) io" where
  "verify_root store snapshot _ root =
     (if root = NO_BLOCK then io_return () else
      io_bind (load store root Grouped) (\<lambda>page.
      io_bind (io_lift (page_group_identity page)) (\<lambda>(ident, _).
      if ident \<noteq> gn_id snapshot then io_fail InvalidState else
      io_bind (io_lift (page_group_node_info page)) (\<lambda>_. io_return ()))))"

definition verify_build :: "'s page_store \<Rightarrow> group_state \<Rightarrow> group_snapshot \<Rightarrow> ('s, u32) io" where
  "verify_build store state snapshot =
     (if gn_frontier_root snapshot = None \<and> gn_root snapshot \<noteq> gn_tail snapshot then io_fail InvalidState else
      io_bind (inspect_group store (gn_id snapshot) (gn_head snapshot) (gn_tail snapshot)) (\<lambda>written.
      io_bind (io_fold (verify_root store snapshot) () (somes [Some (gn_root snapshot), gn_frontier_root snapshot])) (\<lambda>_.
      io_bind (io_lift (ok_or InvalidState (gt_journal state))) (\<lambda>journal.
      if gj_id journal \<noteq> gn_id snapshot \<or> gj_phase journal \<noteq> Building \<or> gj_head journal \<noteq> gn_head snapshot \<or>
         gj_tail journal \<noteq> gn_tail snapshot
      then io_fail InvalidState else io_return written))))"

definition retired_of :: "group_snapshot \<Rightarrow> group_retired option" where
  "retired_of snapshot =
     (if gn_head snapshot \<noteq> NO_BLOCK then Some \<lparr>gr_id = gn_id snapshot, gr_head = gn_head snapshot, gr_tail = gn_tail snapshot\<rparr> else None)"

text \<open>The retire queue of a list of generations, padded to its fixed size.\<close>

definition retire_queue :: "group_snapshot list \<Rightarrow> group_retired option list result" where
  "retire_queue snapshots =
     (let old = somes (map retired_of snapshots) in
      if length old > GROUP_RETIRED_SEGMENTS then Inl (Limit ''group retire queue'')
      else Inr (map Some old @ replicate (GROUP_RETIRED_SEGMENTS - length old) None))"

definition group_publish :: "'s page_store \<Rightarrow> group_snapshot \<Rightarrow> ('s, u32 \<times> u32) io" where
  "group_publish store snapshot =
     io_bind (load store 0 Meta) (\<lambda>meta.
     io_bind (io_lift (page_grouped_state meta)) (\<lambda>state.
     io_bind (verify_build store state snapshot) (\<lambda>written.
     if somes (gt_retired state) \<noteq> [] then io_fail InvalidState else
     io_bind (io_lift (retire_queue ((case gt_active state of None \<Rightarrow> [] | Some active \<Rightarrow> [active]) @ map gd_snapshot (somes (gt_deltas state))))) (\<lambda>retiring.
     io_bind (io_lift (page_set_grouped_state meta \<lparr>gt_active = Some snapshot, gt_journal = None,
       gt_deltas = replicate GROUP_DELTA_SEGMENTS None, gt_retired = retiring\<rparr>)) (\<lambda>meta.
     io_bind (ps_commit store [meta]) (\<lambda>_.
     io_bind (ps_event store StGroupPublished) (\<lambda>_.
     io_bind (group_recover store) (\<lambda>reclaimed. io_return (reclaimed, written)))))))))"

text \<open>
  A delta replaces the last ones. The source indexes the slot \<open>replace_from\<close>, which exists: the levels
  of the deltas decrease strictly, so a full list ends in level 0 and is never extended.
\<close>

definition group_publish_delta ::
  "'s page_store \<Rightarrow> group_snapshot \<Rightarrow> owner_ref option \<Rightarrow> u8 \<Rightarrow> nat \<Rightarrow> ('s, u32 \<times> u32) io" where
  "group_publish_delta store snapshot before_ref level replace_from =
     (if gn_frontier_root snapshot \<noteq> None \<or> gn_frontier_valid snapshot \<or> unat level \<ge> GROUP_DELTA_SEGMENTS then io_fail InvalidState else
      io_bind (load store 0 Meta) (\<lambda>meta.
      io_bind (io_lift (page_grouped_state meta)) (\<lambda>state.
      io_bind (verify_build store state snapshot) (\<lambda>written.
      let count = group_state_delta_count state in
      if gt_active state = None \<or> somes (gt_retired state) \<noteq> [] \<or> replace_from > count \<or>
         (replace_from = count \<and> Option.bind (group_state_latest state) gn_after \<noteq> before_ref) \<or>
         (replace_from < count \<and> (case gt_deltas state ! replace_from of None \<Rightarrow> True | Some delta \<Rightarrow> gd_before delta \<noteq> before_ref)) \<or>
         replace_from \<ge> GROUP_DELTA_SEGMENTS
      then io_fail InvalidState else
      io_bind (io_lift (retire_queue (map gd_snapshot (somes (take (count - replace_from) (drop replace_from (gt_deltas state))))))) (\<lambda>retiring.
      let deltas = (take replace_from (gt_deltas state) @ replicate (length (gt_deltas state) - replace_from) None)
        [replace_from := Some \<lparr>gd_snapshot = snapshot, gd_before = before_ref, gd_level = level\<rparr>] in
      io_bind (io_lift (page_set_grouped_state meta (state\<lparr>gt_deltas := deltas, gt_journal := None, gt_retired := retiring\<rparr>))) (\<lambda>meta.
      io_bind (ps_commit store [meta]) (\<lambda>_.
      io_bind (ps_event store StGroupPublished) (\<lambda>_.
      io_bind (group_recover store) (\<lambda>reclaimed. io_return (reclaimed, written))))))))))"

section \<open>Writing a catalog\<close>

record catalog_builder =
  cb_entries :: "catalog_entry list"
  cb_counts :: "nat list"
  cb_previous :: "catalog_key option"

text \<open>\<open>allocated\<close> is the answer of the allocator to the one reservation.\<close>

definition catalog_new :: "bool \<Rightarrow> catalog_builder result" where
  "catalog_new allocated =
     (if \<not> allocated then Inl Allocation else
      Inr \<lparr>cb_entries = replicate (LEVELS * CATALOG_ENTRIES) catalog_entry_default, cb_counts = replicate LEVELS 0, cb_previous = None\<rparr>)"

definition child :: "catalog_entry \<Rightarrow> u32 result" where
  "child entry =
     (let block = from_le (take 4 (ce_value entry)) in
      if block = 0 \<or> block = NO_BLOCK \<or> drop 4 (ce_value entry) \<noteq> replicate 60 0 then Inl InvalidState else Inr block)"

definition catalog_flush ::
  "'s page_store \<Rightarrow> catalog_builder \<Rightarrow> group_snapshot \<Rightarrow> nat \<Rightarrow> ('s, catalog_entry \<times> catalog_builder \<times> group_snapshot) io" where
  "catalog_flush store self snapshot level =
     (let entries = take (cb_counts self ! level) (drop (level * CATALOG_ENTRIES) (cb_entries self)) in
      case entries of
        [] \<Rightarrow> io_fail InvalidState
      | first # _ \<Rightarrow>
          io_bind (group_append store snapshot (\<lambda>block. page_group_node block (gn_id snapshot) (of_nat level) entries)) (\<lambda>(block, snapshot).
          io_return (\<lparr>ce_key = ce_key first, ce_value = le_bytes 4 block @ replicate 60 0\<rparr>,
            self\<lparr>cb_counts := (cb_counts self)[level := 0]\<rparr>, snapshot)))"

function catalog_add ::
  "'s page_store \<Rightarrow> catalog_builder \<Rightarrow> group_snapshot \<Rightarrow> nat \<Rightarrow> catalog_entry \<Rightarrow> 's \<Rightarrow> (catalog_builder \<times> group_snapshot) result \<times> 's" where
  "catalog_add store self snapshot level entry s =
     (if level \<ge> LEVELS then io_fail (Limit ''group catalog depth'') s else
      let self = self\<lparr>cb_entries := (cb_entries self)[level * CATALOG_ENTRIES + cb_counts self ! level := entry],
        cb_counts := (cb_counts self)[level := cb_counts self ! level + 1]\<rparr> in
      if cb_counts self ! level = CATALOG_ENTRIES then
        io_bind (catalog_flush store self snapshot level) (\<lambda>(parent, self, snapshot).
        catalog_add store self snapshot (level + 1) parent) s
      else io_return (self, snapshot) s)"
  by pat_completeness auto
termination
  by (relation "measure (\<lambda>(store, self, snapshot, level, entry, s). LEVELS - level)") auto

declare catalog_add.simps [simp del]

definition catalog_push ::
  "'s page_store \<Rightarrow> catalog_builder \<Rightarrow> group_snapshot \<Rightarrow> catalog_entry \<Rightarrow> ('s, catalog_builder \<times> group_snapshot) io" where
  "catalog_push store self snapshot entry =
     (if is_some_and (cb_previous self) (\<lambda>key. catalog_key_le (ce_key entry) key) then io_fail InvalidState
      else catalog_add store (self\<lparr>cb_previous := Some (ce_key entry)\<rparr>) snapshot 0 entry)"

text \<open>The loop of \<open>finish\<close> over the levels, with its early returns.\<close>

fun catalog_finish_levels ::
  "'s page_store \<Rightarrow> nat list \<Rightarrow> catalog_builder \<Rightarrow> group_snapshot \<Rightarrow> ('s, catalog_builder \<times> group_snapshot) io" where
  "catalog_finish_levels store [] self snapshot = io_return (self, snapshot)"
| "catalog_finish_levels store (level # levels) self snapshot =
     (if cb_counts self ! level = 0 then catalog_finish_levels store levels self snapshot else
      let higher = list_ex (\<lambda>count. count \<noteq> 0) (drop (level + 1) (cb_counts self)) in
      if level > 0 \<and> cb_counts self ! level = 1 \<and> \<not> higher then
        io_bind (io_lift (child (cb_entries self ! (level * CATALOG_ENTRIES)))) (\<lambda>root. io_return (self, snapshot\<lparr>gn_root := root\<rparr>))
      else
        io_bind (catalog_flush store self snapshot level) (\<lambda>(parent, self, snapshot).
        if \<not> higher then io_bind (io_lift (child parent)) (\<lambda>root. io_return (self, snapshot\<lparr>gn_root := root\<rparr>))
        else io_bind (catalog_add store self snapshot (level + 1) parent) (\<lambda>(self, snapshot).
          catalog_finish_levels store levels self snapshot)))"

definition catalog_finish ::
  "'s page_store \<Rightarrow> catalog_builder \<Rightarrow> group_snapshot \<Rightarrow> ('s, catalog_builder \<times> group_snapshot) io" where
  "catalog_finish store self snapshot = catalog_finish_levels store [0..<LEVELS] self snapshot"

section \<open>Reading a catalog\<close>

record cursor =
  cu_leaf :: "page option"
  cu_slot :: u16
  cu_parents :: "(u32 \<times> u16) list"
  cu_depth :: nat

definition cursor_new :: cursor where
  "cursor_new = \<lparr>cu_leaf = None, cu_slot = 0, cu_parents = replicate LEVELS (NO_BLOCK, 0), cu_depth = 0\<rparr>"

definition key_less :: "catalog_key \<Rightarrow> catalog_key \<Rightarrow> bool" where
  "key_less a b \<longleftrightarrow> \<not> catalog_key_le b a"

lemma node_search_mid:
  assumes "lo < (hi :: u16)"
  shows "unat (lo + (hi - lo) div 2) < unat hi" "unat lo \<le> unat (lo + (hi - lo) div 2)" "unat (lo + (hi - lo) div 2 + 1) = unat (lo + (hi - lo) div 2) + 1"
proof -
  have l: "unat lo < unat hi" using assms by (simp add: word_less_nat_alt)
  have d: "unat ((hi - lo) div 2) = (unat hi - unat lo) div 2" using l by (simp add: unat_div unat_sub word_le_nat_alt)
  have h: "unat hi < 2 ^ 16" using unat_lt2p[of hi] by simp
  have m: "unat (lo + (hi - lo) div 2) = unat lo + (unat hi - unat lo) div 2"
    using l h d by (subst unat_add_lem[THEN iffD1]) simp_all
  show a: "unat (lo + (hi - lo) div 2) < unat hi" "unat lo \<le> unat (lo + (hi - lo) div 2)" using m l by linarith+
  show "unat (lo + (hi - lo) div 2 + 1) = unat (lo + (hi - lo) div 2) + 1"
    using a(1) h by (subst unat_add_lem[THEN iffD1]) simp_all
qed

lemma node_info_level:
  assumes "page_group_node_info p = Inr info"
  shows "unat (fst info + 1) = unat (fst info) + 1"
proof -
  have "fst info \<le> 7" using assms by (auto simp: page_group_node_info_def MAX_CATALOG_LEVEL_def res_simps split: if_splits)
  then have "unat (fst info) + unat (1 :: u8) < 2 ^ LENGTH(8)" by (simp add: word_le_nat_alt)
  then show ?thesis using unat_add_lem[of "fst info" 1] by simp
qed

text \<open>The binary search for the first key that is not below the wanted one.\<close>

function node_search :: "group_node_view \<Rightarrow> catalog_key \<Rightarrow> u16 \<Rightarrow> u16 \<Rightarrow> u16 result" where
  "node_search node key lo hi =
     (if lo < hi then
        let mid = lo + (hi - lo) div 2 in
        and_then (node_key node mid) (\<lambda>found.
        if key_less found key then node_search node key (mid + 1) hi else node_search node key lo mid)
      else Inr lo)"
  by pat_completeness auto
termination
proof (relation "measure (\<lambda>(node, key, lo, hi). unat hi - unat lo)", simp_all only: in_measure prod.case, goal_cases)
  case 1 show ?case by simp
next
  case (2 node key lo hi mid)
  note m = node_search_mid[OF 2(1)]
  then show ?case using 2 by simp
next
  case (3 node key lo hi mid)
  note m = node_search_mid[OF 3(1)]
  then show ?case using 3 by simp
qed

declare node_search.simps [simp del]

text \<open>What \<open>seek\<close> expects of the next node on the way down.\<close>

record descent =
  de_expected :: "u8 option"
  de_lower :: "catalog_key option"
  de_upper :: "catalog_key option"

definition is_ok_and :: "'a result \<Rightarrow> ('a \<Rightarrow> bool) \<Rightarrow> bool" where
  "is_ok_and r p = (case r of Inl _ \<Rightarrow> False | Inr a \<Rightarrow> p a)"

text \<open>The checks of \<open>current\<close> on the node below an entry; the first entry of the node is needed next.\<close>

definition descend_check ::
  "group_snapshot \<Rightarrow> page \<Rightarrow> u16 \<Rightarrow> u16 \<Rightarrow> u8 \<Rightarrow> catalog_entry \<Rightarrow> page \<Rightarrow> u8 \<Rightarrow> u16 \<Rightarrow> catalog_entry result" where
  "descend_check snapshot page slot count level entry nxt next_level next_count =
     and_then (page_group_identity nxt) (\<lambda>(ident, _).
     if ident \<noteq> gn_id snapshot \<or> next_level + 1 \<noteq> level then Inl InvalidState else
     and_then (page_group_entry nxt 0) (\<lambda>first.
     if ce_key first \<noteq> ce_key entry then Inl InvalidState else
     if slot + 2 < count then
       and_then (page_group_entry nxt (next_count - 1)) (\<lambda>final.
       and_then (page_group_entry page (slot + 2)) (\<lambda>bound.
       if catalog_key_le (ce_key bound) (ce_key final) then Inl InvalidState else Inr first))
     else Inr first))"

lemma descend_check_level: "descend_check snapshot page slot count level entry nxt next_level next_count = Inr first \<Longrightarrow> level = next_level + 1"
  by (auto simp: descend_check_def res_simps split: if_splits)

text \<open>The loop of \<open>current\<close> from a branch entry down to its first leaf.\<close>

function current_descend ::
  "'s page_store \<Rightarrow> group_snapshot \<Rightarrow> page \<Rightarrow> u16 \<Rightarrow> u16 \<Rightarrow> u8 \<Rightarrow> catalog_entry \<Rightarrow> cursor \<Rightarrow> 's \<Rightarrow> (catalog_entry option \<times> cursor) result \<times> 's" where
  "current_descend store snapshot page slot count level entry self s =
     io_bind (io_lift (child entry)) (\<lambda>block.
     io_bind (load store block Grouped) (\<lambda>nxt.
     io_bind (io_lift (page_group_node_info nxt)) (\<lambda>info.
     io_bind (io_lift (descend_check snapshot page slot count level entry nxt (fst info) (snd info))) (\<lambda>first.
     \<lambda>s. if fst info = 0 then io_return (Some first, self\<lparr>cu_leaf := Some nxt, cu_slot := 0\<rparr>) s else
     if cu_depth self \<ge> LEVELS then io_fail InvalidState s else
     current_descend store snapshot page slot count (fst info) first
       (self\<lparr>cu_parents := (cu_parents self)[cu_depth self := (pg_block nxt, 0)], cu_depth := cu_depth self + 1\<rparr>) s)))) s"
  by pat_completeness auto
termination
proof (relation "measure (\<lambda>(store, snapshot, page, slot, count, level, entry, self, s). unat level)", simp, goal_cases)
  case (1 store snapshot page slot count level entry self s)
  then show ?case by (auto dest!: node_info_level descend_check_level)
qed

declare current_descend.simps [simp del]

text \<open>The loop over the path: a parent with a further entry is descended, an exhausted one is left.\<close>

function current_loop ::
  "'s page_store \<Rightarrow> group_snapshot \<Rightarrow> cursor \<Rightarrow> 's \<Rightarrow> (catalog_entry option \<times> cursor) result \<times> 's" where
  "current_loop store snapshot self s =
     (if cu_depth self = 0 then io_return (None, self\<lparr>cu_leaf := None\<rparr>) s else
      let (block, slot) = cu_parents self ! (cu_depth self - 1) in
      io_bind (load store block Grouped) (\<lambda>page.
      io_bind (io_lift (page_group_node_info page)) (\<lambda>(level, count).
      io_bind (io_lift (page_group_identity page)) (\<lambda>(ident, _).
      \<lambda>s. if ident \<noteq> gn_id snapshot \<or> level = 0 then io_fail InvalidState s else
      if slot + 1 \<ge> count then current_loop store snapshot (self\<lparr>cu_depth := cu_depth self - 1\<rparr>) s else
      io_bind (io_lift (page_group_entry page (slot + 1))) (\<lambda>entry.
      current_descend store snapshot page slot count level entry
        (self\<lparr>cu_parents := (cu_parents self)[cu_depth self - 1 := (block, slot + 1)]\<rparr>)) s))) s)"
  by pat_completeness auto
termination
  by (relation "measure (\<lambda>(store, snapshot, self, s). cu_depth self)") auto

declare current_loop.simps [simp del]

definition cursor_current :: "'s page_store \<Rightarrow> group_snapshot \<Rightarrow> cursor \<Rightarrow> ('s, catalog_entry option \<times> cursor) io" where
  "cursor_current store snapshot self =
     (case cu_leaf self of
        None \<Rightarrow> io_return (None, self)
      | Some page \<Rightarrow>
          io_bind (io_lift (page_group_node_info page)) (\<lambda>(_, count).
          if cu_slot self < count then io_bind (io_lift (page_group_entry page (cu_slot self))) (\<lambda>entry. io_return (Some entry, self))
          else current_loop store snapshot self))"

definition cursor_advance :: "'s page_store \<Rightarrow> group_snapshot \<Rightarrow> cursor \<Rightarrow> ('s, catalog_entry option \<times> cursor) io" where
  "cursor_advance store snapshot self = cursor_current store snapshot (self\<lparr>cu_slot := cu_slot self + 1\<rparr>)"

text \<open>The loop of \<open>seek\<close> from the root; the path never gets longer than \<open>LEVELS\<close>.\<close>

function seek_loop ::
  "'s page_store \<Rightarrow> group_snapshot \<Rightarrow> catalog_key \<Rightarrow> descent \<Rightarrow> u32 \<Rightarrow> cursor \<Rightarrow> 's \<Rightarrow> (catalog_entry option \<times> cursor) result \<times> 's" where
  "seek_loop store snapshot key st block self s =
     io_bind (load store block Grouped) (\<lambda>page.
     io_bind (io_lift (page_group_node_view page)) (\<lambda>node.
     io_bind (io_lift (page_group_identity page)) (\<lambda>(ident, _).
     \<lambda>s. if ident \<noteq> gn_id snapshot \<or> is_some_and (de_expected st) (\<lambda>expected. nv_level node \<noteq> expected) \<or>
        is_some_and (de_lower st) (\<lambda>key. is_ok_and (node_key node 0) (\<lambda>first. first \<noteq> key)) \<or>
        is_some_and (de_upper st) (\<lambda>key. is_ok_and (node_key node (nv_count node - 1)) (\<lambda>final. catalog_key_le key final))
     then io_fail InvalidState s else
     io_bind (io_lift (node_search node key 0 (nv_count node))) (\<lambda>lo.
     \<lambda>s. if nv_level node = 0 then cursor_current store snapshot (self\<lparr>cu_slot := lo, cu_leaf := Some page\<rparr>) s else
     io_bind (io_lift (if lo < nv_count node then and_then (node_key node lo) (\<lambda>found. Inr (if found = key then lo else if lo = 0 then 0 else lo - 1))
       else Inr (if lo = 0 then 0 else lo - 1))) (\<lambda>slot.
     io_bind (io_lift (node_entry node slot)) (\<lambda>entry.
     \<lambda>s. if cu_depth self \<ge> LEVELS then io_fail InvalidState s else
     io_bind (io_lift (if slot + 1 < nv_count node then and_then (node_key node (slot + 1)) (\<lambda>key. Inr (Some key)) else Inr (de_upper st))) (\<lambda>upper.
     io_bind (io_lift (child entry)) (\<lambda>below.
     seek_loop store snapshot key \<lparr>de_expected = Some (nv_level node - 1), de_lower = Some (ce_key entry), de_upper = upper\<rparr> below
       (self\<lparr>cu_parents := (cu_parents self)[cu_depth self := (block, slot)], cu_depth := cu_depth self + 1\<rparr>))) s)) s) s))) s"
  by pat_completeness auto
termination
  by (relation "measure (\<lambda>(store, snapshot, key, st, block, self, s). LEVELS - cu_depth self)") auto

declare seek_loop.simps [simp del]

definition cursor_seek :: "'s page_store \<Rightarrow> group_snapshot \<Rightarrow> catalog_key \<Rightarrow> cursor \<Rightarrow> ('s, catalog_entry option \<times> cursor) io" where
  "cursor_seek store snapshot key self =
     io_bind (io_lift (case cu_leaf self of
         None \<Rightarrow> Inr None
       | Some page \<Rightarrow>
           and_then (page_group_node_view page) (\<lambda>node.
           and_then (node_key node 0) (\<lambda>first.
           if \<not> catalog_key_le first key then Inr None else
           and_then (node_key node (nv_count node - 1)) (\<lambda>final.
           if \<not> catalog_key_le key final then Inr None else
           and_then (node_search node key 0 (nv_count node)) (\<lambda>lo. Inr (Some lo))))))) (\<lambda>near.
     case near of
       Some lo \<Rightarrow> cursor_current store snapshot (self\<lparr>cu_slot := lo\<rparr>)
     | None \<Rightarrow>
         let self = self\<lparr>cu_leaf := None, cu_depth := 0\<rparr> in
         if gn_root snapshot = NO_BLOCK then io_return (None, self)
         else seek_loop store snapshot key \<lparr>de_expected = None, de_lower = None, de_upper = None\<rparr> (gn_root snapshot) self)"

section \<open>Anchor lookup\<close>

definition anchor_lookup :: "'s page_store \<Rightarrow> group_snapshot \<Rightarrow> term_ref \<Rightarrow> ('s, anchor) io" where
  "anchor_lookup store snapshot posted =
     io_bind (io_lift (ok_or InvalidState (gn_frontier_root snapshot))) (\<lambda>root.
     let key = (term_key posted, 0) in
     io_bind (cursor_seek store (snapshot\<lparr>gn_root := root\<rparr>) key cursor_new) (\<lambda>(entry, _).
     io_lift (and_then (ok_or InvalidState entry) (\<lambda>entry.
       if ce_key entry \<noteq> key then Inl InvalidState else
       and_then (anchor_read entry) (\<lambda>anchor.
       if ac_last anchor \<ge> gn_id snapshot then Inl InvalidState else Inr anchor)))))"

end
