(* ===== verification/Vacuum.thy ===== *)
theory Vacuum
  imports GroupStorage GroupMembers Compact
begin

text \<open>
  Removal of documents (crates/pin-core/src/mutable/vacuum.rs and mutable/grouped/vacuum.rs): the
  liveness records of the grouped generations are cleared first, then the canonical owners are removed
  or abandoned, and then fragments of dead owners and allocation orphans return to the free list. The
  callback that certifies dead roots passes its own state along.
\<close>

section \<open>Grouped liveness\<close>

text \<open>One page of a liveness record whose bits have been cleared; the changed pages are collected.\<close>

definition retire_chunk ::
  "'s page_store \<Rightarrow> group_snapshot \<Rightarrow> catalog_entry \<Rightarrow> catalog_value \<Rightarrow> page list \<Rightarrow> nat \<times> bytes \<Rightarrow> ('s, page list) io" where
  "retire_chunk store snapshot current v changes chunk =
     (let (index, bytes) = chunk in
      io_bind (load store (cv_blocks v ! index) Grouped) (\<lambda>old.
      io_lift (and_then (page_group_data old) (\<lambda>data.
        if dt_id data \<noteq> gn_id snapshot \<or> dt_kind data \<noteq> LivenessPage \<or> dt_key data \<noteq> ce_key current \<or> dt_total data \<noteq> cv_len v \<or>
           unat (dt_offset data) \<noteq> index * GROUP_DATA_BYTES \<or> length (dt_bytes data) \<noteq> length bytes
        then Inl InvalidState else
        if list_ex (\<lambda>(new, old). new AND NOT old \<noteq> 0) (zip bytes (dt_bytes data)) then Inl InvalidState else
        if bytes \<noteq> dt_bytes data then
          and_then (page_group_record (pg_block old) (gn_id snapshot) LivenessPage (ce_key current) (cv_len v) (dt_offset data) bytes) (\<lambda>page.
          and_then (page_next old) (\<lambda>nxt.
          and_then (page_set_next page nxt) (\<lambda>page. Inr (changes @ [page]))))
        else Inr changes))))"

text \<open>The body of the loop for one liveness entry: the total, the buffer and the callback state.\<close>

definition retire_entry ::
  "'s page_store \<Rightarrow> group_snapshot \<Rightarrow> 'r removable \<Rightarrow> u64 \<times> bytes \<times> 'r \<Rightarrow> catalog_entry \<Rightarrow> ('s, u64 \<times> bytes \<times> 'r) io" where
  "retire_entry store snapshot removable st current =
     (let (count, buffer, r) = st in
      io_bind (read_bitmap store snapshot current buffer) (\<lambda>(v, buffer).
      with_layout store (\<lambda>layout.
      io_bind (io_lift (snapshot_key snapshot (ucast (snd (ce_key current))) layout)) (\<lambda>key.
      io_bind (io_lift (retire_roots (take (unat (cv_len v)) buffer) key removable r)) (\<lambda>(removed, bytes, r).
      let buffer = bytes @ drop (unat (cv_len v)) buffer in
      if removed = 0 then io_return (count, buffer, r) else
      io_bind (io_fold (retire_chunk store snapshot current v) [] (enumerate 0 (chunks GROUP_DATA_BYTES bytes))) (\<lambda>changes.
      if changes = [] then io_fail InvalidState else
      io_bind (ps_commit store changes) (\<lambda>_.
      io_bind (ps_event store StGroupRetired) (\<lambda>_.
      io_bind (io_lift (ok_or (Limit ''group retired roots'') (checked_add_w count (ucast removed)))) (\<lambda>count.
      io_return (count, buffer, r)))))))))) "

text \<open>
  The loop over the liveness entries, which come first in a catalog. \<open>steps\<close> bounds the entries that
  are visited; the cursor of a catalog that does not change never visits one twice.
\<close>

fun retire_entries ::
  "nat \<Rightarrow> 's page_store \<Rightarrow> group_snapshot \<Rightarrow> 'r removable \<Rightarrow> u64 \<times> bytes \<times> 'r \<Rightarrow> cursor \<Rightarrow> catalog_entry option \<Rightarrow> ('s, u64 \<times> 'r) io" where
  "retire_entries steps store snapshot removable st cursor None = io_return (fst st, snd (snd st))"
| "retire_entries steps store snapshot removable st cursor (Some current) =
     (if fst (ce_key current) \<noteq> 0 then io_return (fst st, snd (snd st)) else
      case steps of
        0 \<Rightarrow> io_fail InvalidState
      | Suc steps \<Rightarrow>
          io_bind (retire_entry store snapshot removable st current) (\<lambda>st.
          io_bind (cursor_advance store snapshot cursor) (\<lambda>(entry, cursor).
          retire_entries steps store snapshot removable st cursor entry)))"

definition retire_snapshot ::
  "nat \<Rightarrow> 's page_store \<Rightarrow> group_snapshot \<Rightarrow> 'r removable \<Rightarrow> 'r \<Rightarrow> ('s, u64 \<times> 'r) io" where
  "retire_snapshot steps store snapshot removable r =
     io_bind (load store 0 Meta) (\<lambda>_.
     io_bind (cursor_seek store snapshot (0, 0) cursor_new) (\<lambda>(entry, cursor).
     retire_entries steps store snapshot removable (0, replicate BITMAP_BYTES 0, r) cursor entry))"

definition group_retire :: "nat \<Rightarrow> 's page_store \<Rightarrow> 'r removable \<Rightarrow> 'r \<Rightarrow> ('s, u64 \<times> 'r) io" where
  "group_retire steps store removable r =
     io_bind (load store 0 Meta) (\<lambda>meta.
     io_bind (io_lift (page_grouped_state meta)) (\<lambda>state.
     case gt_active state of
       None \<Rightarrow> io_return (0, r)
     | Some active \<Rightarrow>
         io_bind (retire_snapshot steps store active removable r) (\<lambda>st.
         io_fold (\<lambda>(count, r) delta.
           io_bind (retire_snapshot steps store (gd_snapshot delta) removable r) (\<lambda>(more, r).
           io_bind (io_lift (ok_or (Limit ''group retired roots'') (checked_add_w count more))) (\<lambda>count. io_return (count, r))))
           st (somes (gt_deltas state)))))"

section \<open>Incoming references\<close>

definition snapshot_references :: "group_snapshot \<Rightarrow> u32 \<Rightarrow> bool" where
  "snapshot_references snapshot target \<longleftrightarrow>
     target \<in> {gn_head snapshot, gn_tail snapshot, gn_root snapshot} \<or> is_some_and (gn_after snapshot) (\<lambda>owner. or_page owner = target)"

definition state_references :: "group_state \<Rightarrow> u32 \<Rightarrow> bool" where
  "state_references state target \<longleftrightarrow>
     is_some_and (gt_active state) (\<lambda>active. snapshot_references active target \<or> gn_frontier_root active = Some target) \<or>
     list_ex (\<lambda>delta. snapshot_references (gd_snapshot delta) target \<or> is_some_and (gd_before delta) (\<lambda>owner. or_page owner = target))
       (somes (gt_deltas state)) \<or>
     is_some_and (gt_journal state) (\<lambda>journal. target = gj_head journal \<or> target = gj_tail journal) \<or>
     list_ex (\<lambda>retired. target = gr_head retired \<or> target = gr_tail retired) (somes (gt_retired state))"

definition entry_references :: "u32 \<Rightarrow> u8 \<Rightarrow> catalog_entry \<Rightarrow> bool result" where
  "entry_references target level entry =
     (if drop_bit 16 (fst (ce_key entry)) = ucast target then Inr True else
      if level \<noteq> 0 then Inr ((from_le (take 4 (ce_value entry)) :: u32) = target) else
      if anchor_is_entry entry then and_then (anchor_read entry) (\<lambda>_. Inr False) else
      and_then (value_read entry) (\<lambda>v. Inr (cv_len v \<noteq> 0 \<and> (target \<in> set (cv_blocks v) \<or> cv_members v = target))))"

definition group_references :: "page \<Rightarrow> u32 \<Rightarrow> bool result" where
  "group_references page target =
     (if pg_kind page = Meta then and_then (page_grouped_state page) (\<lambda>state. Inr (state_references state target)) else
      if pg_kind page \<noteq> Grouped then Inr False else
      and_then (page_group_identity page) (\<lambda>(_, kind).
      if kind = LeafPage \<or> kind = BranchPage then
        and_then (page_group_node_info page) (\<lambda>(level, count).
        try_fold (\<lambda>found index. if found then Inr True else
          and_then (page_group_entry page (of_nat index)) (entry_references target level)) False [0..<unat count])
      else and_then (page_group_data page) (\<lambda>data. Inr (drop_bit 16 (fst (dt_key data)) = ucast target))))"

text \<open>A page that mentions \<open>target\<close>, by kind; the source returns the error at the first mention.\<close>

definition meta_mentions :: "page \<Rightarrow> u32 \<Rightarrow> unit result" where
  "meta_mentions page target =
     and_then (page_rewrite_journal page) (\<lambda>journal.
     if is_some_and journal (\<lambda>journal. rj_head journal = target \<or> rj_tail journal = target) then Inl InvalidState else
     and_then (page_owner_chain page) (\<lambda>(head, tail).
     and_then (if head = target \<or> tail = target then Inr True else and_then (page_free_head page) (\<lambda>free. Inr (free = target))) (\<lambda>found.
     if found then Inl InvalidState else
     try_fold (\<lambda>_ bucket. and_then (page_bucket page bucket) (\<lambda>(head, tail).
       if head = target \<or> tail = target then Inl InvalidState else Inr ())) () [0..<BUCKETS])))"

definition page_mentions :: "heap_layout \<Rightarrow> page \<Rightarrow> u32 \<Rightarrow> unit result" where
  "page_mentions layout page target =
     (case pg_kind page of
        Meta \<Rightarrow> meta_mentions page target
      | Owners \<Rightarrow>
          and_then (page_owner_count page) (\<lambda>count.
          try_fold (\<lambda>_ slot. and_then (page_owner page (of_nat slot) layout) (\<lambda>owner.
            if ow_data_head owner = target then Inl InvalidState else Inr ())) () [0..<unat count])
      | DictionaryPage \<Rightarrow>
          and_then (page_terms page) (\<lambda>it.
          for_items (\<lambda>_ entry. if te_head entry = target \<or> te_tail entry = target \<or> or_page (te_first entry) = target
            then Inl InvalidState else Inr ()) () (terms_items it))
      | Fragment \<Rightarrow> and_then (page_fragment_data page) (\<lambda>(owner, _). if or_page owner = target then Inl InvalidState else Inr ())
      | _ \<Rightarrow>
          if pg_kind page = Postings \<or> pg_kind page = SealedPostings \<or> pg_kind page = DirectPostings then
            and_then (page_posting_term page) (\<lambda>posted.
            if tr_page posted = target then Inl InvalidState else
            and_then (page_posting_refs page) (\<lambda>it.
            for_items (\<lambda>_ owner. if or_page owner = target then Inl InvalidState else Inr ()) () (postings_items it)))
          else Inr ())"

definition check_block :: "'s page_store \<Rightarrow> u32 \<Rightarrow> unit \<Rightarrow> nat \<Rightarrow> ('s, unit) io" where
  "check_block store target _ block =
     io_bind (load_any store (of_nat block)) (\<lambda>page.
     if pg_kind page = Zero then io_return () else
     io_bind (io_lift (page_next page)) (\<lambda>nxt.
     io_bind (if nxt = target then io_return True else io_lift (group_references page target)) (\<lambda>found.
     if found then io_fail InvalidState else
     with_layout store (\<lambda>layout. io_lift (page_mentions layout page target)))))"

definition check_unreferenced :: "'s page_store \<Rightarrow> u32 \<Rightarrow> u32 \<Rightarrow> ('s, unit) io" where
  "check_unreferenced store target pages = io_fold (check_block store target) () [0..<unat pages]"

section \<open>Reclaiming\<close>

definition reclaim :: "'s page_store \<Rightarrow> page \<Rightarrow> u32 \<Rightarrow> bool \<Rightarrow> ('s, page) io" where
  "reclaim store meta block zero =
     io_bind (io_lift (page_free_head meta)) (\<lambda>nxt.
     io_bind (io_lift (if zero then page_free_from_zero block nxt else page_free block nxt)) (\<lambda>page.
     io_bind (io_lift (page_set_free_head meta block)) (\<lambda>meta.
     io_bind (ps_commit store [meta, page]) (\<lambda>_.
     io_bind (ps_event store StPageReclaimed) (\<lambda>_. io_return meta)))))"

record vacuum_stats =
  vs_live_documents :: u64
  vs_removed_documents :: u64
  vs_abandoned_documents :: u64
  vs_reclaimed_pages :: u32
  vs_free_pages :: u32
  vs_pages :: u32

section \<open>Owners\<close>

text \<open>The page under change, whether it was changed, the counters and the callback state.\<close>

record 'r owner_pass =
  op_page :: page
  op_changed :: bool
  op_stats :: vacuum_stats
  op_callback :: 'r

definition vacuum_slot :: "'s page_store \<Rightarrow> 'r removable \<Rightarrow> 'r owner_pass \<Rightarrow> nat \<Rightarrow> ('s, 'r owner_pass) io" where
  "vacuum_slot store removable st slot =
     with_layout store (\<lambda>layout. io_lift (
       and_then (page_owner (op_page st) (of_nat slot) layout) (\<lambda>owner.
       let stats = op_stats st in
       case ow_publication owner of
         Published \<Rightarrow>
           if ow_live owner then
             and_then (removable (op_callback st) (ow_root owner)) (\<lambda>(gone, r).
             if gone then
               and_then (page_change_owner (op_page st) (ow_reference owner) Remove layout) (\<lambda>page.
               Inr (st\<lparr>op_page := page, op_changed := True, op_callback := r,
                 op_stats := stats\<lparr>vs_removed_documents := vs_removed_documents stats + 1\<rparr>\<rparr>))
             else Inr (st\<lparr>op_callback := r, op_stats := stats\<lparr>vs_live_documents := vs_live_documents stats + 1\<rparr>\<rparr>))
           else Inr st
       | Abandoned \<Rightarrow> Inr st
       | _ \<Rightarrow>
           and_then (page_change_owner (op_page st) (ow_reference owner) Abandon layout) (\<lambda>page.
           Inr (st\<lparr>op_page := page, op_changed := True,
             op_stats := stats\<lparr>vs_abandoned_documents := vs_abandoned_documents stats + 1\<rparr>\<rparr>)))))"

definition vacuum_owner_page ::
  "'s page_store \<Rightarrow> 'r removable \<Rightarrow> vacuum_stats \<times> 'r \<Rightarrow> page \<Rightarrow> ('s, vacuum_stats \<times> 'r) io" where
  "vacuum_owner_page store removable st page =
     io_bind (io_lift (page_owner_count page)) (\<lambda>count.
     io_bind (io_fold (vacuum_slot store removable) \<lparr>op_page = page, op_changed = False, op_stats = fst st, op_callback = snd st\<rparr>
       [0..<unat count]) (\<lambda>pass.
     if op_changed pass then
       io_bind (ps_remove_owners store (op_page pass)) (\<lambda>_.
       io_bind (ps_event store StOwnerRemoved) (\<lambda>_. io_return (op_stats pass, op_callback pass)))
     else io_return (op_stats pass, op_callback pass)))"

section \<open>Pages\<close>

text \<open>A copied coordinate whose owner is gone is cleared; a trailing decoding error is raised only where
  the source evaluates it.\<close>

definition direct_slot ::
  "'s page_store \<Rightarrow> page \<Rightarrow> page \<times> bool \<times> page option \<Rightarrow> nat \<times> owner_ref result \<Rightarrow> ('s, page \<times> bool \<times> page option) io" where
  "direct_slot store page st item =
     (let (updated, changed, cache) = st; (slot, reference) = item in
      with_layout store (\<lambda>layout.
      io_bind (io_lift (page_direct_root page (of_nat slot) layout)) (\<lambda>root.
      if root = None then io_return st else
      io_bind (io_lift reference) (\<lambda>reference.
      io_bind (resolve store cache reference) (\<lambda>(live, cache).
      if live \<noteq> None then io_return (updated, changed, cache) else
      io_bind (io_lift (page_remove_direct_root updated (of_nat slot) layout)) (\<lambda>updated.
      io_return (updated, True, cache)))))))"

definition vacuum_direct :: "'s page_store \<Rightarrow> page \<Rightarrow> ('s, unit) io" where
  "vacuum_direct store page =
     io_bind (io_lift (page_posting_refs page)) (\<lambda>it.
     let (owners, err) = postings_items it;
         refs = map Inr owners @ (case err of None \<Rightarrow> [] | Some e \<Rightarrow> [Inl e]) in
     io_bind (io_fold (direct_slot store page) (page, False, None) (enumerate 0 refs)) (\<lambda>(updated, changed, _).
     if changed then io_bind (ps_commit store [updated]) (\<lambda>_. ps_event store StDirectRemoved) else io_return ()))"

record page_pass =
  pp_meta :: page
  pp_stats :: vacuum_stats
  pp_has_zero :: bool

definition count_reclaimed :: "page \<Rightarrow> page_pass \<Rightarrow> page_pass" where
  "count_reclaimed meta st =
     st\<lparr>pp_meta := meta, pp_stats := (pp_stats st)\<lparr>vs_reclaimed_pages := vs_reclaimed_pages (pp_stats st) + 1,
       vs_free_pages := vs_free_pages (pp_stats st) + 1\<rparr>\<rparr>"

definition vacuum_fragment :: "'s page_store \<Rightarrow> page_pass \<Rightarrow> u32 \<Rightarrow> page \<Rightarrow> ('s, page_pass) io" where
  "vacuum_fragment store st block page =
     io_bind (io_lift (page_fragment_data page)) (\<lambda>(reference, _).
     io_bind (load store (or_page reference) Owners) (\<lambda>owners.
     with_layout store (\<lambda>layout.
     io_bind (io_lift (page_owner owners (or_slot reference) layout)) (\<lambda>owner.
     if ow_reference owner \<noteq> reference then io_fail InvalidState else
     if ow_publication owner \<noteq> Published \<or> \<not> ow_live owner then
       io_bind (reclaim store (pp_meta st) block False) (\<lambda>meta. io_return (count_reclaimed meta st))
     else io_return st))))"

definition vacuum_block :: "'s page_store \<Rightarrow> page_pass \<Rightarrow> nat \<Rightarrow> ('s, page_pass) io" where
  "vacuum_block store st block =
     io_bind (load_any store (of_nat block)) (\<lambda>page.
     if pg_kind page = Zero then io_return (st\<lparr>pp_has_zero := True\<rparr>) else
     if pg_kind page = Free then io_return (st\<lparr>pp_stats := (pp_stats st)\<lparr>vs_free_pages := vs_free_pages (pp_stats st) + 1\<rparr>\<rparr>) else
     if pg_kind page = DirectPostings then io_bind (vacuum_direct store page) (\<lambda>_. io_return st) else
     if pg_kind page = Fragment then vacuum_fragment store st (of_nat block) page else io_return st)"

definition vacuum_zero :: "'s page_store \<Rightarrow> u32 \<Rightarrow> page_pass \<Rightarrow> nat \<Rightarrow> ('s, page_pass) io" where
  "vacuum_zero store pages st block =
     io_bind (load_any store (of_nat block)) (\<lambda>page.
     if pg_kind page \<noteq> Zero then io_return st else
     io_bind (check_unreferenced store (of_nat block) pages) (\<lambda>_.
     io_bind (reclaim store (pp_meta st) (of_nat block) True) (\<lambda>meta. io_return (count_reclaimed meta st))))"

section \<open>The pass\<close>

definition vacuum_pages :: "'s page_store \<Rightarrow> page \<Rightarrow> vacuum_stats \<Rightarrow> ('s, vacuum_stats) io" where
  "vacuum_pages store meta stats =
     io_bind (ps_blocks store) (\<lambda>pages.
     io_bind (io_fold (vacuum_block store) \<lparr>pp_meta = meta, pp_stats = stats\<lparr>vs_pages := pages\<rparr>, pp_has_zero = False\<rparr> [1..<unat pages]) (\<lambda>st.
     io_bind (if pp_has_zero st then io_fold (vacuum_zero store pages) st [1..<unat pages] else io_return st) (\<lambda>st.
     io_return (pp_stats st))))"

definition vacuum :: "nat \<Rightarrow> 's page_store \<Rightarrow> 'r removable \<Rightarrow> 'r \<Rightarrow> ('s, vacuum_stats) io" where
  "vacuum steps store removable r =
     io_bind (recover store) (\<lambda>recovered.
     io_bind (group_recover store) (\<lambda>more.
     io_bind (io_lift (ok_or (Limit ''recovered pages'') (checked_add_w recovered more))) (\<lambda>recovered.
     io_bind (group_retire steps store removable r) (\<lambda>(_, r).
     io_bind (load store 0 Meta) (\<lambda>meta.
     io_bind (io_lift (page_owner_chain meta)) (\<lambda>(head, tail).
     let stats = \<lparr>vs_live_documents = 0, vs_removed_documents = 0, vs_abandoned_documents = 0, vs_reclaimed_pages = recovered,
       vs_free_pages = 0, vs_pages = 0\<rparr> in
     io_bind (if head = NO_BLOCK then io_return (stats, r)
       else walk_owners store (vacuum_owner_page store removable) tail (stats, r) head) (\<lambda>(stats, _).
     vacuum_pages store meta stats)))))))"

end
