(* ===== verification/Maintenance.thy ===== *)
theory Maintenance
  imports Insertion Vacuum
begin

text \<open>
  Maintenance keeps the live documents. Recovery, the retirement of grouped liveness and the
  reclaiming of pages never touch an owner page; the owner pass of the vacuum removes only owners whose
  root the callback has certified as dead, and publishes none.
\<close>

text \<open>Nothing is gained, and what is lost is dead.\<close>

definition retains :: "(root_tid \<Rightarrow> bool) \<Rightarrow> (owner_ref \<times> root_tid) set \<Rightarrow> (owner_ref \<times> root_tid) set \<Rightarrow> bool" where
  "retains dead A B \<longleftrightarrow> B \<subseteq> A \<and> (\<forall>x \<in> A. \<not> dead (snd x) \<longrightarrow> x \<in> B)"

lemma retains_trans: "retains dead A B \<Longrightarrow> retains dead B C \<Longrightarrow> retains dead A C"
  by (auto simp: retains_def)

context page_host
begin

section \<open>Rules\<close>

lemma calm_layout: "(\<And>l. calm os (f l) Q) \<Longrightarrow> calm os (with_layout store f) Q"
  by (rule calmI) (auto simp: with_layout_def dest: calm_apply)

lemma calm_state_if: "calm os (if b then m else n) Q \<Longrightarrow> calm os (\<lambda>s. if b then m s else n s) Q"
  by (cases b) simp_all

lemma calm_state_option: "calm os (case x of None \<Rightarrow> m | Some y \<Rightarrow> f y) Q \<Longrightarrow> calm os (\<lambda>s. case x of None \<Rightarrow> m s | Some y \<Rightarrow> f y s) Q"
  by (cases x) simp_all

lemma calm_next: "calm os m (\<lambda>_. True) \<Longrightarrow> (\<And>a. calm os (f a) R) \<Longrightarrow> calm os (io_bind m f) R"
  by (rule calm_bind[where Q = "\<lambda>_. True"])

lemma calm_nat: "(n = 0 \<Longrightarrow> calm os m Q) \<Longrightarrow> (\<And>k. n = Suc k \<Longrightarrow> calm os (f k) Q) \<Longrightarrow> calm os (case n of 0 \<Rightarrow> m | Suc k \<Rightarrow> f k) Q"
  by (cases n) simp_all

lemma calm_fold_pair: "(\<And>c r x. calm os (f c r x) (\<lambda>_. True)) \<Longrightarrow> calm os (io_fold (\<lambda>(c, r) x. f c r x) st xs) (\<lambda>_. True)"
  by (rule calm_fold) (simp_all split: prod.split)

lemmas calm_rules = calm_control calm_layout calm_state_if calm_state_option

section \<open>Reading\<close>

lemma calm_loads: "calm os (load store b kind) (\<lambda>_. True)"
  unfolding load_def by (intro calm_rules calm_bind[OF calm_load_any]) simp_all

lemma calm_load_into: "calm os (load_into store b kind p) (\<lambda>_. True)"
  unfolding load_into_def host_layout by (intro calm_rules calm_bind[OF calm_read_into]) simp_all

lemma calm_resolve: "calm os (resolve store cache reference) (\<lambda>_. True)"
  unfolding resolve_def
  by (rule calm_bind[where Q = "\<lambda>_. True"]; intro calm_rules calm_loads calm_load_into calm_bind[where Q = "\<lambda>_. True"]) (auto intro: calm_rules calm_load_into calm_loads split: option.split)

lemmas calm_reads = calm_next[OF calm_loads] calm_next[OF calm_resolve] calm_bind[OF calm_load_posting] calm_bind[OF calm_load_any]

lemma calm_inspect_page: "calm os (inspect_page store liveness st page) (\<lambda>_. True)"
  unfolding inspect_page_def inspect_reference_def Let_def
  by (intro calm_rules calm_next[OF calm_items] calm_reads) simp_all

lemma calm_inspect_loop: "calm os (inspect_loop store posted liveness tail remaining st block) (\<lambda>_. True)"
proof (induction "unat remaining" arbitrary: remaining st block rule: less_induct)
  case less
  have eq: "inspect_loop store posted liveness tail remaining st block =
     io_bind (load_posting store block posted) (\<lambda>page.
     io_bind (inspect_page store liveness st page) (\<lambda>st.
     io_bind (io_lift (posting_next page tail remaining)) (\<lambda>(nxt, remaining).
     case nxt of
       Some nxt \<Rightarrow> inspect_loop store posted liveness tail remaining st nxt
     | None \<Rightarrow>
         io_bind (io_lift (page_next page)) (\<lambda>nxt.
         if nxt \<noteq> NO_BLOCK then io_fail InvalidState else io_return st))))"
    by (rule ext) (subst inspect_loop.simps, rule refl)
  show ?case
    unfolding eq
    by (intro calm_reads calm_next[OF calm_inspect_page] calm_rules less.hyps) (auto dest: posting_next_remaining)
qed

lemma calm_inspect: "calm os (inspect store posted head tail previous liveness) (\<lambda>_. True)"
  unfolding inspect_def by (intro calm_rules calm_next[OF calm_inspect_loop]) simp_all

section \<open>Recovery of compaction\<close>

lemma free_plain: "page_free b nxt = Inr p \<Longrightarrow> os b = None \<Longrightarrow> plain os p"
  by (auto simp: page_free_def res_simps dest!: page_new_is_page page_set_next_kept intro: plainI[where kind = Free])

lemma plain_None: "plain os p \<Longrightarrow> os (pg_block p) = None"
  by (auto simp: plain_def is_page_def)

lemma plain_meta:
  "page_set_free_head m b = Inr m' \<Longrightarrow> plain os m \<Longrightarrow> plain os m'"
  "page_set_rewrite_journal m j = Inr m' \<Longrightarrow> plain os m \<Longrightarrow> plain os m'"
  "page_set_grouped_state m g = Inr m' \<Longrightarrow> plain os m \<Longrightarrow> plain os m'"
  "page_reserve_incarnation m = Inr (v, m') \<Longrightarrow> plain os m \<Longrightarrow> plain os m'"
  by (auto simp: plain_def dest: meta_kept page_set_grouped_state_kept)

lemma calm_reclaim_loop:
  assumes "plain os meta"
  shows "calm os (reclaim_loop store posted journal meta remaining reclaimed block) (\<lambda>_. True)"
  using assms
proof (induction "unat remaining" arbitrary: remaining meta reclaimed block rule: less_induct)
  case less
  have eq: "reclaim_loop store posted journal meta remaining reclaimed block =
     io_bind (load_posting store block posted) (\<lambda>page.
     io_bind (io_lift (posting_next page (rj_tail journal) remaining)) (\<lambda>(nxt, remaining).
     io_bind (io_lift (and_then (page_free_head meta) (page_free block))) (\<lambda>free.
     \<lambda>s. case nxt of
       None \<Rightarrow>
         io_bind (io_lift (and_then (page_set_rewrite_journal meta None) (\<lambda>meta. page_set_free_head meta block))) (\<lambda>meta.
         io_bind (ps_commit store [meta, free]) (\<lambda>_.
         io_bind (ps_event store StSegmentReclaimed) (\<lambda>_. io_return (reclaimed + 1)))) s
     | Some second_block \<Rightarrow>
         io_bind (load_posting store second_block posted) (\<lambda>second.
         io_bind (io_lift (posting_next second (rj_tail journal) remaining)) (\<lambda>(nxt, remaining).
         io_bind (io_lift (page_free second_block block)) (\<lambda>second_free.
         io_bind (io_lift (and_then (page_set_rewrite_journal meta (map_option (\<lambda>head. journal\<lparr>rj_head := head\<rparr>) nxt))
           (\<lambda>meta. page_set_free_head meta second_block))) (\<lambda>meta.
         io_bind (ps_commit store [meta, free, second_free]) (\<lambda>_.
         io_bind (ps_event store StSegmentReclaimed) (\<lambda>_.
         case nxt of
           Some nxt \<Rightarrow> reclaim_loop store posted journal meta remaining (reclaimed + 2) nxt
         | None \<Rightarrow> io_return (reclaimed + 2))))))) s)))"
    by (rule ext) (subst reclaim_loop.simps, rule refl)
  have m: "and_then (page_set_rewrite_journal meta j) (\<lambda>meta. page_set_free_head meta b) = Inr m' \<Longrightarrow> plain os m'" for j b m'
    using less.prems by (auto simp: res_simps intro: plain_meta)
  have f: "and_then (page_free_head meta) (page_free b) = Inr p \<Longrightarrow> os b = None \<Longrightarrow> plain os p" for b p
    by (auto simp: res_simps intro: free_plain)
  have two: "posting_next p tl remaining = Inr (n, r1) \<Longrightarrow> posting_next q tl r1 = Inr (n', r2) \<Longrightarrow> unat r2 < unat remaining" for p q tl n n' r1 r2
    using posting_next_remaining[of p tl remaining n r1] posting_next_remaining[of q tl r1 n' r2] by simp
  show ?case
    unfolding eq
    by (intro calm_reads calm_rules less.hyps) (auto dest: plain_None free_plain f m intro: two)
qed

lemma calm_recover: "calm os (recover store) (\<lambda>_. True)"
  unfolding recover_def
  by (intro calm_bind[OF calm_load[of Meta]] calm_rules calm_reads calm_next[OF calm_inspect] calm_reclaim_loop) (auto intro: plainI)

section \<open>Recovery of grouped generations\<close>

lemma calm_inspect_group_loop: "calm os (inspect_group_loop store ident tail remaining count block) (\<lambda>_. True)"
proof (induction "unat remaining" arbitrary: remaining count block rule: less_induct)
  case less
  have eq: "inspect_group_loop store ident tail remaining count block =
     io_bind (load store block Grouped) (\<lambda>page.
     io_bind (io_lift (page_group_identity page)) (\<lambda>(found, _).
     io_bind (if found \<noteq> ident then io_return True
       else if block = tail then io_lift (and_then (page_next page) (\<lambda>nxt. Inr (nxt \<noteq> NO_BLOCK))) else io_return False) (\<lambda>bad.
     \<lambda>s. if bad then io_fail InvalidState s else
     io_bind (io_lift (ok_or (Limit ''group pages'') (checked_add_w count 1))) (\<lambda>count.
     io_bind (io_lift (posting_next page tail remaining)) (\<lambda>(nxt, remaining).
     case nxt of Some nxt \<Rightarrow> inspect_group_loop store ident tail remaining count nxt | None \<Rightarrow> io_return count)) s)))"
    by (rule ext) (subst inspect_group_loop.simps, rule refl)
  show ?case
    unfolding eq by (intro calm_reads calm_rules calm_next less.hyps) (auto dest: posting_next_remaining)
qed

lemma calm_inspect_group: "calm os (inspect_group store ident head tail) (\<lambda>_. True)"
  unfolding inspect_group_def by (intro calm_rules calm_inspect_group_loop) simp_all

lemma group_meta:
  assumes "plain os meta" "page_set_free_head meta b = Inr m1" "page_set_grouped_state m1 g = Inr m2"
  shows "plain os m2"
  using assms plain_meta by blast

lemma add_progress: "checked_add_w (w :: u32) 1 = Some v \<Longrightarrow> unat w < unat v"
  using checked_add_progress[of InvalidState w v] by simp

lemma calm_recover_journal: "calm os (recover_journal store clears reclaimed) (\<lambda>_. True)"
proof (induction "clears * 2 ^ 33 + (2 ^ 32 - unat reclaimed)" arbitrary: clears reclaimed rule: less_induct)
  case less
  have ih: "calm os (recover_journal store c r) (\<lambda>_. True)" if "c < clears \<or> c = clears \<and> unat reclaimed < unat r" for c r
  proof (rule less.hyps)
    have "unat r < 2 ^ 32" "c + 1 \<le> clears \<or> c = clears \<and> unat reclaimed < unat r" using unat_lt2p[of r] that by auto
    then show "c * 2 ^ 33 + (2 ^ 32 - unat r) < clears * 2 ^ 33 + (2 ^ 32 - unat reclaimed)" by auto
  qed
  have eq: "recover_journal store clears reclaimed =
     io_bind (load store 0 Meta) (\<lambda>meta.
     io_bind (io_lift (page_grouped_state meta)) (\<lambda>state.
     \<lambda>s. case gt_journal state of
       None \<Rightarrow> io_return reclaimed s
     | Some journal \<Rightarrow>
         io_bind (inspect_group store (gj_id journal) (gj_head journal) (gj_tail journal)) (\<lambda>_.
         \<lambda>s. if journal_in_use state journal then io_fail InvalidState s else
         if gj_head journal = NO_BLOCK then
           io_bind (io_lift (page_set_grouped_state meta (state\<lparr>gt_journal := None\<rparr>))) (\<lambda>meta.
           io_bind (ps_commit store [meta]) (\<lambda>_.
           case clears of 0 \<Rightarrow> io_fail InvalidState | Suc clears \<Rightarrow> recover_journal store clears reclaimed)) s
         else
           io_bind (load store (gj_head journal) Grouped) (\<lambda>page.
           io_bind (io_lift (released_next page (gj_head journal) (gj_tail journal))) (\<lambda>nxt.
           io_bind (io_lift (and_then (page_free_head meta) (page_free (gj_head journal)))) (\<lambda>free.
           io_bind (io_lift (page_set_free_head meta (gj_head journal))) (\<lambda>meta.
           io_bind (io_lift (page_set_grouped_state meta
             (state\<lparr>gt_journal := (if nxt \<noteq> NO_BLOCK then Some (journal\<lparr>gj_head := nxt\<rparr>) else None)\<rparr>))) (\<lambda>meta.
           io_bind (ps_commit store [meta, free]) (\<lambda>_.
           io_bind (ps_event store StGroupReclaimed) (\<lambda>_.
           io_bind (io_lift (ok_or (Limit ''group recovery pages'') (checked_add_w reclaimed 1))) (\<lambda>reclaimed.
           recover_journal store clears reclaimed)))))))) s) s))"
    by (rule ext) (subst recover_journal.simps, rule refl)
  show ?case
    unfolding eq
  proof (intro calm_bind[OF calm_load[of Meta]] calm_bind[OF calm_load[of Grouped]] calm_rules calm_next[OF calm_inspect_group] calm_nat ih, goal_cases)
  qed (auto intro: plainI group_meta free_plain plain_meta add_progress simp: res_simps)
qed

lemma calm_recover_retired: "calm os (recover_retired store reclaimed) (\<lambda>_. True)"
proof (induction "2 ^ 32 - unat reclaimed" arbitrary: reclaimed rule: less_induct)
  case less
  have ih: "calm os (recover_retired store r) (\<lambda>_. True)" if "unat reclaimed < unat r" for r
    using that unat_lt2p[of r] by (intro less.hyps diff_less_mono2) simp_all
  have eq: "recover_retired store reclaimed =
     io_bind (load store 0 Meta) (\<lambda>meta.
     io_bind (io_lift (page_grouped_state meta)) (\<lambda>state.
     \<lambda>s. case first_retired state of
       None \<Rightarrow> io_return reclaimed s
     | Some (index, retiring) \<Rightarrow>
         io_bind (inspect_group store (gr_id retiring) (gr_head retiring) (gr_tail retiring)) (\<lambda>_.
         io_bind (load store (gr_head retiring) Grouped) (\<lambda>page.
         io_bind (io_lift (released_next page (gr_head retiring) (gr_tail retiring))) (\<lambda>nxt.
         io_bind (io_lift (and_then (page_free_head meta) (page_free (gr_head retiring)))) (\<lambda>free.
         io_bind (io_lift (page_set_free_head meta (gr_head retiring))) (\<lambda>meta.
         io_bind (io_lift (page_set_grouped_state meta (if nxt = NO_BLOCK then shift_retired state index
           else state\<lparr>gt_retired := (gt_retired state)[index := Some (retiring\<lparr>gr_head := nxt\<rparr>)]\<rparr>))) (\<lambda>meta.
         io_bind (ps_commit store [meta, free]) (\<lambda>_.
         io_bind (ps_event store StGroupReclaimed) (\<lambda>_.
         io_bind (io_lift (ok_or (Limit ''group recovery pages'') (checked_add_w reclaimed 1))) (\<lambda>reclaimed.
         recover_retired store reclaimed))))))))) s))"
    by (rule ext) (subst recover_retired.simps, rule refl)
  have pair: "(\<lambda>s. case x of None \<Rightarrow> m s | Some (i, y) \<Rightarrow> f i y s) = (case x of None \<Rightarrow> m | Some (i, y) \<Rightarrow> f i y)" for x m and f :: "nat \<Rightarrow> group_retired \<Rightarrow> ('s, u32) io"
    by (auto split: option.split)
  show ?case
    unfolding eq pair
    by (intro calm_bind[OF calm_load[of Meta]] calm_bind[OF calm_load[of Grouped]] calm_rules calm_next[OF calm_inspect_group] ih)
      (auto intro: plainI group_meta free_plain add_progress simp: res_simps)
qed

lemma calm_group_recover: "calm os (group_recover store) (\<lambda>_. True)"
  unfolding group_recover_def by (rule calm_next[OF calm_recover_journal calm_recover_retired])

section \<open>Catalogs\<close>

lemma calm_current_descend: "calm os (current_descend store snapshot page slot count level entry self) (\<lambda>_. True)"
proof (induction "unat level" arbitrary: level entry self rule: less_induct)
  case less
  have eq: "current_descend store snapshot page slot count level entry self =
     io_bind (io_lift (child entry)) (\<lambda>block.
     io_bind (load store block Grouped) (\<lambda>nxt.
     io_bind (io_lift (page_group_node_info nxt)) (\<lambda>info.
     io_bind (io_lift (descend_check snapshot page slot count level entry nxt (fst info) (snd info))) (\<lambda>first.
     \<lambda>s. if fst info = 0 then io_return (Some first, self\<lparr>cu_leaf := Some nxt, cu_slot := 0\<rparr>) s else
     if cu_depth self \<ge> LEVELS then io_fail InvalidState s else
     current_descend store snapshot page slot count (fst info) first
       (self\<lparr>cu_parents := (cu_parents self)[cu_depth self := (pg_block nxt, 0)], cu_depth := cu_depth self + 1\<rparr>) s))))"
    by (rule ext) (subst current_descend.simps, rule refl)
  show ?case
    unfolding eq by (intro calm_reads calm_rules less.hyps) (auto dest!: node_info_level descend_check_level)
qed

lemma calm_current_loop: "calm os (current_loop store snapshot self) (\<lambda>_. True)"
proof (induction "cu_depth self" arbitrary: self rule: less_induct)
  case less
  have eq: "current_loop store snapshot self =
     (if cu_depth self = 0 then io_return (None, self\<lparr>cu_leaf := None\<rparr>) else
      case cu_parents self ! (cu_depth self - 1) of (block, slot) \<Rightarrow>
      io_bind (load store block Grouped) (\<lambda>page.
      io_bind (io_lift (page_group_node_info page)) (\<lambda>(level, count).
      io_bind (io_lift (page_group_identity page)) (\<lambda>(ident, _).
      \<lambda>s. if ident \<noteq> gn_id snapshot \<or> level = 0 then io_fail InvalidState s else
      if slot + 1 \<ge> count then current_loop store snapshot (self\<lparr>cu_depth := cu_depth self - 1\<rparr>) s else
      io_bind (io_lift (page_group_entry page (slot + 1))) (\<lambda>entry.
      current_descend store snapshot page slot count level entry
        (self\<lparr>cu_parents := (cu_parents self)[cu_depth self - 1 := (block, slot + 1)]\<rparr>)) s))))"
    by (rule ext, subst current_loop.simps) (simp add: Let_def split: prod.split)
  show ?case
    unfolding eq by (intro calm_reads calm_rules less.hyps calm_current_descend) auto
qed

lemma calm_cursor_current: "calm os (cursor_current store snapshot self) (\<lambda>_. True)"
  unfolding cursor_current_def by (intro calm_rules calm_current_loop) simp_all

lemma calm_cursor_advance: "calm os (cursor_advance store snapshot self) (\<lambda>_. True)"
  unfolding cursor_advance_def by (rule calm_cursor_current)

lemma calm_seek_loop: "calm os (seek_loop store snapshot key st block self) (\<lambda>_. True)"
proof (induction "LEVELS - cu_depth self" arbitrary: st block self rule: less_induct)
  case less
  have eq: "seek_loop store snapshot key st block self =
     io_bind (load store block Grouped) (\<lambda>page.
     io_bind (io_lift (page_group_node_view page)) (\<lambda>node.
     io_bind (io_lift (page_group_identity page)) (\<lambda>(ident, _).
     \<lambda>s. if ident \<noteq> gn_id snapshot \<or> is_some_and (de_expected st) (\<lambda>expected. nv_level node \<noteq> expected) \<or>
        is_some_and (de_lower st) (\<lambda>key. is_ok_and (node_key node 0) (\<lambda>first. first \<noteq> key)) \<or>
        is_some_and (de_upper st) (\<lambda>key. is_ok_and (node_key node (nv_count node - 1)) (\<lambda>final. catalog_key_le key final))
     then io_fail InvalidState s else
     io_bind (io_lift (node_search node key 0 (nv_count node))) (\<lambda>lo.
     \<lambda>s. if nv_level node = 0 then cursor_current store snapshot (self\<lparr>cu_slot := lo, cu_leaf := Some page\<rparr>) s else
     io_bind (io_lift (if lo < nv_count node then and_then (node_key node lo) (\<lambda>found. Inr (if found = key then lo else if lo = 0 then 0 else lo - 1))
       else Inr (if lo = 0 then 0 else lo - 1))) (\<lambda>slot.
     io_bind (io_lift (node_entry node slot)) (\<lambda>entry.
     \<lambda>s. if cu_depth self \<ge> LEVELS then io_fail InvalidState s else
     io_bind (io_lift (if slot + 1 < nv_count node then and_then (node_key node (slot + 1)) (\<lambda>key. Inr (Some key)) else Inr (de_upper st))) (\<lambda>upper.
     io_bind (io_lift (child entry)) (\<lambda>below.
     seek_loop store snapshot key \<lparr>de_expected = Some (nv_level node - 1), de_lower = Some (ce_key entry), de_upper = upper\<rparr> below
       (self\<lparr>cu_parents := (cu_parents self)[cu_depth self := (block, slot)], cu_depth := cu_depth self + 1\<rparr>))) s)) s) s)))"
    by (rule ext) (subst seek_loop.simps, rule refl)
  show ?case
    unfolding eq by (intro calm_reads calm_rules less.hyps calm_cursor_current) auto
qed

lemma calm_cursor_seek: "calm os (cursor_seek store snapshot key self) (\<lambda>_. True)"
  unfolding cursor_seek_def Let_def by (intro calm_rules calm_cursor_current calm_seek_loop) simp_all

lemma calm_read_bitmap: "calm os (read_bitmap store snapshot entry output) (\<lambda>_. True)"
proof -
  have c: "calm os (read_chunk store snapshot kind key len expected st index) (\<lambda>_. True)" for kind key len expected st index
    unfolding read_chunk_def Let_def by (intro calm_rules calm_reads) simp_all
  have r: "calm os (read_record store snapshot kind key head len expected) (\<lambda>_. True)" for kind key head len expected
    unfolding read_record_def by (intro calm_next[OF calm_fold] calm_rules c) simp_all
  show ?thesis
    unfolding read_bitmap_def read_bitmap_view_def
    by (rule calm_next; intro calm_rules calm_next[OF r]) simp_all
qed

section \<open>Retirement\<close>

lemma record_plain:
  assumes "page_group_record b ident kind key len offset bytes = Inr p" "os b = None"
  shows "plain os p"
proof -
  have n: "page_new_grouped b ident kind = Inr q \<Longrightarrow> is_page Grouped b q" for q
    by (auto simp: page_new_grouped_def PAGE_HEADER_def res_simps dest!: page_new_is_page is_page_write)
  show ?thesis
    using assms by (auto simp: page_group_record_def GROUP_HEADER_def PAGE_HEADER_def Let_def res_simps dest!: n is_page_write split: if_splits intro: plainI[where kind = Grouped])
qed

lemma calm_retire_chunk:
  assumes "\<forall>p \<in> set changes. plain os p"
  shows "calm os (retire_chunk store snapshot current v changes chunk) (\<lambda>ps. \<forall>p \<in> set ps. plain os p)"
  unfolding retire_chunk_def Let_def using assms
  by (intro calm_rules calm_bind[OF calm_load[of Grouped]])
    (auto simp: res_simps is_page_def intro: plain_next[OF _ record_plain] split: if_splits)

lemma calm_retire_entry: "calm os (retire_entry store snapshot removable st current) (\<lambda>_. True)"
  unfolding retire_entry_def Let_def
  by (intro calm_rules calm_next[OF calm_read_bitmap] calm_bind[OF calm_fold[where Q = "\<lambda>ps. \<forall>p \<in> set ps. plain os p"]] calm_retire_chunk) auto

lemma calm_retire_entries: "calm os (retire_entries steps store snapshot removable st cursor entry) (\<lambda>_. True)"
proof (induction steps arbitrary: st cursor entry)
  case 0
  show ?case by (cases entry) (auto intro!: calm_lift)
next
  case (Suc steps)
  show ?case
  proof (cases entry)
    case (Some current)
    show ?thesis unfolding Some retire_entries.simps nat.case
      by (intro calm_rules calm_next[OF calm_retire_entry] calm_next[OF calm_cursor_advance] Suc.IH) simp_all
  qed (auto intro!: calm_lift)
qed

lemma calm_group_retire: "calm os (group_retire steps store removable r) (\<lambda>_. True)"
proof -
  have s: "calm os (retire_snapshot steps store snapshot removable r) (\<lambda>_. True)" for snapshot r
    unfolding retire_snapshot_def by (intro calm_reads calm_next[OF calm_cursor_seek] calm_rules calm_retire_entries)
  show ?thesis
    unfolding group_retire_def by (intro calm_reads calm_rules calm_next[OF s] calm_fold_pair) simp_all
qed


section \<open>Reclaiming pages\<close>

lemma calm_check_unreferenced: "calm os (check_unreferenced store target pages) (\<lambda>_. True)"
proof -
  have f: "calm os (if c then io_return True else io_lift x) (\<lambda>_. True)" for c x
    by (intro calm_rules) simp_all
  have b: "calm os (check_block store target u block) (\<lambda>_. True)" for u block
    unfolding check_block_def by (intro calm_reads calm_next[OF f] calm_rules TrueI)
  show ?thesis unfolding check_unreferenced_def by (intro calm_fold b) simp
qed

lemma calm_reclaim:
  assumes "plain os meta" "os block = None"
  shows "calm os (reclaim store meta block zero) (plain os)"
proof -
  have f: "(if zero then page_free_from_zero block nxt else page_free block nxt) = Inr p \<Longrightarrow> plain os p" for nxt p
    using assms(2) free_plain[of block nxt] by (auto simp: page_free_from_zero_def res_simps plain_def is_page_def split: if_splits)
  show ?thesis
    unfolding reclaim_def using assms(1) by (intro calm_rules) (auto dest: f plain_meta(1))
qed

lemma plain_remove_direct: "page_remove_direct_root p slot l = Inr p' \<Longrightarrow> plain os p \<Longrightarrow> plain os p'"
  by (auto simp: page_remove_direct_root_def DIRECT_HEADER_def res_simps plain_def is_page_def)

lemma calm_vacuum_direct:
  assumes "plain os page"
  shows "calm os (vacuum_direct store page) (\<lambda>_. True)"
proof -
  have s: "calm os (direct_slot store page st item) (\<lambda>st. plain os (fst st))" if "plain os (fst st)" for st item
    unfolding direct_slot_def Let_def using that
    by (intro calm_rules calm_next[OF calm_resolve]) (auto intro: plain_remove_direct)
  show ?thesis
    unfolding vacuum_direct_def Let_def using assms
    by (intro calm_rules calm_bind[OF calm_fold[where Q = "\<lambda>st. plain os (fst st)"]] s calm_event) auto
qed

lemma stored_plain: "stored_page b bs = Inr p \<Longrightarrow> pg_kind p = DirectPostings \<Longrightarrow> os b = None \<Longrightarrow> plain os p"
  using stored_is_page(1)[of b bs p] by (auto intro: plainI)

lemma calm_vacuum_fragment:
  assumes "plain os (pp_meta st)" "os block = None"
  shows "calm os (vacuum_fragment store st block page) (\<lambda>st. plain os (pp_meta st))"
  unfolding vacuum_fragment_def using assms
  by (intro calm_rules calm_reads calm_bind[OF calm_reclaim]) (auto simp: count_reclaimed_def)

lemma calm_vacuum_block:
  assumes "plain os (pp_meta st)"
  shows "calm os (vacuum_block store st block) (\<lambda>st. plain os (pp_meta st))"
  unfolding vacuum_block_def using assms
  by (intro calm_reads calm_rules calm_next[OF calm_vacuum_direct] calm_vacuum_fragment) (auto intro: stored_plain)

lemma calm_vacuum_zero:
  assumes "plain os (pp_meta st)"
  shows "calm os (vacuum_zero store pages st block) (\<lambda>st. plain os (pp_meta st))"
  unfolding vacuum_zero_def using assms
  by (intro calm_reads calm_rules calm_next[OF calm_check_unreferenced] calm_bind[OF calm_reclaim]) (auto simp: count_reclaimed_def)

lemma calm_vacuum_pages:
  assumes "plain os meta"
  shows "calm os (vacuum_pages store meta stats) (\<lambda>_. True)"
  unfolding vacuum_pages_def using assms
  by (intro calm_rules calm_bind[OF calm_fold[where Q = "\<lambda>st. plain os (pp_meta st)"]] calm_bind[where Q = "\<lambda>_. True"] calm_vacuum_block)
    (auto intro!: calm_if calm_lift intro: calm_weaken[OF calm_fold[where Q = "\<lambda>st. plain os (pp_meta st)"]] calm_vacuum_zero)

section \<open>The owner pass\<close>

lemma owner_file_owner:
  assumes f: "owner_file layout p ows" and o': "page_owner p slot layout = Inr ow"
  shows "unat slot < length ows" "ow = ows ! unat slot"
proof -
  from f have r: "owner_page layout p ows" by (simp add: owner_file_def)
  show l: "unat slot < length ows"
    using o' owner_page_count[OF r] by (auto simp: page_owner_def word_le_nat_alt not_less split: if_splits)
  show "ow = ows ! unat slot" using owner_page_owner[OF r l] o' by simp
qed

lemma owner_file_inj:
  assumes f: "owner_file layout p ows" and i: "i < length ows" "j < length ows" "ow_reference (ows ! i) = ow_reference (ows ! j)"
  shows "i = j"
proof -
  from f have o': "owner_page layout p ows" by (simp add: owner_file_def)
  have "or_slot (ow_reference (ows ! k)) = of_nat k" "unat (of_nat k :: u16) = k" if "k < length ows" for k
    using o' that owner_page_count(2)[OF o'] unat_lt2p[of "of_nat (length ows) :: u16"]
    by (auto simp: owner_page_def slot_owner_def intro!: unat_u16_of_nat)
  then show ?thesis using i by metis
qed

lemma live_owner_unique:
  assumes f: "owner_file layout p ows" and o': "page_owner p slot layout = Inr ow" and x: "x \<in> live_owners ows" "fst x = ow_reference ow"
  shows "snd x = ow_root ow" "ow_live ow" "ow_publication ow = Published"
proof -
  note s = owner_file_owner[OF f o']
  from x(1) obtain j where j: "j < length ows" "x = (ow_reference (ows ! j), ow_root (ows ! j))" "ow_live (ows ! j)" "ow_publication (ows ! j) = Published"
    by (auto simp: live_owners_def in_set_conv_nth)
  have "j = unat slot" using owner_file_inj[OF f j(1) s(1)] j(2) x(2) s(2) by simp
  then show "snd x = ow_root ow" "ow_live ow" "ow_publication ow = Published" using j s(2) by simp_all
qed

lemma change_retains:
  assumes f: "owner_file layout p ows" and o': "page_owner p slot layout = Inr ow"
    and c: "page_change_owner p (ow_reference ow) change layout = Inr p'" and k: "change = Remove \<or> change = Abandon"
    and d: "ow_live ow \<Longrightarrow> ow_publication ow = Published \<Longrightarrow> dead (ow_root ow)"
  shows "\<exists>ows'. owner_file layout p' ows' \<and> pg_block p' = pg_block p \<and> retains dead (live_owners ows) (live_owners ows')"
proof -
  note g = owner_file_change[OF f c]
  let ?i = "unat (or_slot (ow_reference ow))"
  have "live_owners (ows[?i := owner_after (ows ! ?i) change]) = {x \<in> live_owners ows. fst x \<noteq> ow_reference ow}"
    using live_owners_update[OF f g(3), of "owner_after (ows ! ?i) change"] g(5) k by auto
  moreover have "dead (snd x)" if "x \<in> live_owners ows" "fst x = ow_reference ow" for x
    using live_owner_unique[OF f o' that] d by simp
  ultimately have "retains dead (live_owners ows) (live_owners (ows[?i := owner_after (ows ! ?i) change]))" by (auto simp: retains_def)
  then show ?thesis using g(1,2) by blast
qed

lemma calm_vacuum_slot:
  assumes dead: "\<forall>r root r'. removable r root = Inr (True, r') \<longrightarrow> dead root"
    and st: "\<exists>ows. owner_file layout (op_page st) ows \<and> pg_block (op_page st) = b \<and> retains dead L (live_owners ows)"
  shows "calm os (vacuum_slot store removable st slot)
    (\<lambda>st. \<exists>ows. owner_file layout (op_page st) ows \<and> pg_block (op_page st) = b \<and> retains dead L (live_owners ows))"
proof -
  from st obtain ows where f: "owner_file layout (op_page st) ows" "pg_block (op_page st) = b" "retains dead L (live_owners ows)" by blast
  have r: "\<exists>ows. owner_file layout p' ows \<and> pg_block p' = b \<and> retains dead L (live_owners ows)"
    if "page_owner (op_page st) s layout = Inr ow" "page_change_owner (op_page st) (ow_reference ow) change layout = Inr p'" "change = Remove \<or> change = Abandon"
      "ow_live ow \<Longrightarrow> ow_publication ow = Published \<Longrightarrow> dead (ow_root ow)" for s ow change p'
    using change_retains[where dead = dead, OF f(1) that] f(2,3) retains_trans by metis
  show ?thesis
    unfolding vacuum_slot_def with_layout_def host_layout Let_def
  proof (intro calm_lift, goal_cases)
    case (1 st')
    then obtain ow where ow: "page_owner (op_page st) (of_nat slot) layout = Inr ow" by (auto simp: res_simps)
    show ?case
    proof (cases "op_page st' = op_page st")
      case True
      then show ?thesis using st by simp
    next
      case False
      then obtain change where "page_change_owner (op_page st) (ow_reference ow) change layout = Inr (op_page st')" "change = Remove \<or> change = Abandon"
        "ow_live ow \<Longrightarrow> ow_publication ow = Published \<Longrightarrow> dead (ow_root ow)"
        using 1 ow dead by (cases "ow_publication ow") (auto simp: res_simps split: if_splits, blast)
      then show ?thesis by (intro r[OF ow]) blast+
    qed
  qed
qed

lemma step_remove_owners:
  assumes f: "owner_file layout p ows" "pg_block p \<noteq> NO_BLOCK"
    and q: "page_validate p layout = Inr () \<Longrightarrow> Q () (os(pg_block p \<mapsto> page_used p))" and e: "E os"
  shows "step os (ps_remove_owners store p) Q E"
proof (rule stepI)
  fix s r s' assume a: "ready s" "owner_images (image s) = os" "ps_remove_owners store p s = (r, s')"
  from host_remove[OF a(3)] consider er where "r = Inl er" "image s' = image s"
    | "r = Inr ()" "page_validate p layout = Inr ()" "ready s'" "image s' = (image s)(pg_block p \<mapsto> page_used p)" using a(1) by blast
  then show "case r of Inl _ \<Rightarrow> E (owner_images (image s')) | Inr a \<Rightarrow> ready s' \<and> Q a (owner_images (image s'))"
  proof cases
    case 1
    then show ?thesis using e a(2) by simp
  next
    case 2
    have "owner_images [pg_block p \<mapsto> page_used p] (pg_block p) = Some (page_used p)"
      using owner_file_image(1)[OF f(1) 2(2) f(2)] owner_file_kind[OF f(1)] by (simp add: owner_images_def)
    then have "owner_images (image s') = os(pg_block p \<mapsto> page_used p)" using 2(4) a(2) owner_images_update[of "image s"] by metis
    then show ?thesis using 2 q by simp
  qed
qed

text \<open>The images between which only owners of dead roots were lost.\<close>

definition swept :: "(root_tid \<Rightarrow> bool) \<Rightarrow> images \<Rightarrow> images \<Rightarrow> bool" where
  "swept dead os os' \<longleftrightarrow> dom os' = dom os \<and> retains dead (published layout os) (published layout os')"

lemma swept_refl: "swept dead os os"
  by (simp add: swept_def retains_def)

lemma swept_trans: "swept dead os os1 \<Longrightarrow> swept dead os1 os2 \<Longrightarrow> swept dead os os2"
  by (auto simp: swept_def intro: retains_trans)

lemma published_retains:
  assumes b: "os b = Some bs" "retains dead (live_at layout b bs) (live_at layout b bs')"
  shows "swept dead os (os(b \<mapsto> bs'))"
proof -
  have "live_at layout b bs = {x \<in> published layout os. or_page (fst x) = b}" using live_in_published[of layout os b] b(1) by (simp add: live_in_def)
  then have "retains dead (published layout os) ({x \<in> published layout os. or_page (fst x) \<noteq> b} \<union> live_at layout b bs')"
    using b(2) by (auto simp: retains_def)
  then show ?thesis using b(1) by (auto simp: swept_def published_update)
qed

lemma step_vacuum_owner_page:
  assumes dead: "\<forall>r root r'. removable r root = Inr (True, r') \<longrightarrow> dead root"
    and bs: "os b = Some bs" "stored_page b bs = Inr page" "pg_kind page = Owners" "page_validate page layout = Inr ()"
  shows "step os (vacuum_owner_page store removable st page) (\<lambda>_. swept dead os) (swept dead os)"
proof -
  obtain ows where f: "owner_file layout page ows" "pg_block page = b" "page_used page = bs" "b \<noteq> NO_BLOCK"
    by (rule stored_owner_file[OF bs(2-4)])
  let ?Q = "\<lambda>st :: 'b owner_pass. \<exists>ows'. owner_file layout (op_page st) ows' \<and> pg_block (op_page st) = b \<and> retains dead (live_owners ows) (live_owners ows')"
  have l: "live_at layout b bs = live_owners ows" using live_at_owner_file[OF f(1) bs(4)] f by simp
  have w: "step os (ps_remove_owners store p) (\<lambda>_. swept dead os) (swept dead os)"
    if "owner_file layout p ows'" "pg_block p = b" "retains dead (live_owners ows) (live_owners ows')" for p ows'
  proof (rule step_remove_owners[OF that(1)])
    assume v: "page_validate p layout = Inr ()"
    have "live_at layout b (page_used p) = live_owners ows'" using live_at_owner_file[OF that(1) v] that(2) f(4) by simp
    then show "swept dead os (os(pg_block p \<mapsto> page_used p))" using published_retains[of os b bs, OF bs(1)] l that(2,3) by simp
  qed (use that f swept_refl in auto)
  have q: "step os1 (io_bind (ps_event store st) (\<lambda>_. io_return a)) (\<lambda>_. swept dead os) (swept dead os)" if "swept dead os os1" for os1 st and a :: "vacuum_stats \<times> 'b"
    using that by (intro step_bind_calm[OF calm_event] step_return)
  show ?thesis
    unfolding vacuum_owner_page_def
  proof (intro step_bind_lift step_bind_calm[OF calm_fold[where Q = ?Q]] step_if, goal_cases)
    case (1 n st slot)
    show ?case using 1(2) by (rule calm_vacuum_slot[OF dead])
  next
    case (2 n)
    show ?case using f(1,2) by (auto simp: retains_def)
  next
    case (3 n pass)
    then show ?case by (auto intro!: step_bind[OF w] q)
  qed (auto intro: step_return swept_refl)
qed

lemma step_walk_owners:
  assumes body: "\<And>os acc page b bs. os b = Some bs \<Longrightarrow> stored_page b bs = Inr page \<Longrightarrow> pg_kind page = Owners \<Longrightarrow> page_validate page layout = Inr () \<Longrightarrow>
      step os (body acc page) (\<lambda>_. swept dead os) (swept dead os)"
    and o': "swept dead os0 os"
  shows "step os (walk_owners store body tail acc block) (\<lambda>_. swept dead os0) (swept dead os0)"
  using o'
proof (induction "2 ^ 32 - unat block" arbitrary: os acc block rule: less_induct)
  case less
  have eq: "walk_owners store body tail acc block =
     io_bind (load store block Owners) (\<lambda>page.
     io_bind (body acc page) (\<lambda>acc.
     io_bind (io_lift (following page tail)) (\<lambda>nxt.
     case nxt of Some nxt \<Rightarrow> walk_owners store body tail acc nxt | None \<Rightarrow> io_return acc)))"
    by (rule ext) (subst walk_owners.simps, rule refl)
  have down: "2 ^ 32 - unat nxt < 2 ^ 32 - unat block" if "pg_block page = block" "following page tail = Inr (Some nxt)" for page nxt
    using following_Some[OF that(2)] that(1) unat_lt2p[of nxt] by (auto simp: word_less_nat_alt)
  show ?case
    unfolding eq
  proof (rule step_bind_calm[OF calm_load_owners], goal_cases)
    case (1 page)
    then obtain bs where bs: "os block = Some bs" "stored_page block bs = Inr page" "pg_kind page = Owners" "page_validate page layout = Inr ()" by blast
    have p: "pg_block page = block" using stored_page_Inr[OF bs(2)] by auto
    have b: "step os (body acc page) (\<lambda>_. swept dead os0) (swept dead os0)"
      using body[of os block, OF bs] by (rule step_weaken) (auto intro: swept_trans less.prems)
    show ?case
      by (intro step_bind[OF b] step_bind_lift step_option less.hyps step_return) (use down[OF p] in auto)
  qed (rule less.prems)
qed

lemma step_vacuum:
  assumes dead: "\<forall>r root r'. removable r root = Inr (True, r') \<longrightarrow> dead root"
  shows "step os (vacuum steps store removable r) (\<lambda>_. swept dead os) (swept dead os)"
proof -
  have pages: "step os1 (vacuum_pages store meta stats) (\<lambda>_. swept dead os) (swept dead os)" if "plain os meta" "swept dead os os1" for os1 meta stats
    using that by (intro calm_step[OF calm_vacuum_pages]) (auto simp: swept_def intro: plain_dom)
  have walk: "step os (if head = NO_BLOCK then io_return (stats, r) else walk_owners store (vacuum_owner_page store removable) tail (stats, r) head)
      (\<lambda>_. swept dead os) (swept dead os)" for head tail stats r
    by (intro step_if step_return step_walk_owners step_vacuum_owner_page[OF dead] swept_refl)
  show ?thesis
    unfolding vacuum_def Let_def
    by (intro step_bind_calm[OF calm_recover] step_bind_calm[OF calm_group_recover] step_bind_lift step_bind_calm[OF calm_group_retire]
        step_pair step_bind_calm[OF calm_load[of Meta]] step_bind[OF walk] pages) (auto intro: plainI swept_refl)
qed

end

section \<open>The vacuum on the test host\<close>

text \<open>C2: vacuum is safe for live documents. Whatever a store of the test host holds, wherever a failure
  is injected and whether the pass succeeds, fails or is stopped, every published owner whose root the
  visibility callback may not remove is still published afterwards with its root, and no owner is
  published that was not before. The callback is only assumed to certify dead roots.\<close>

theorem vacuum_keeps_live:
  assumes "length (mt_pages s) < 2 ^ 32" "\<forall>r root r'. removable r root = Inr (True, r') \<longrightarrow> dead root"
    "vacuum steps memory_store_ops removable r s = (res, s')"
  shows "store_published s' \<subseteq> store_published s \<and> {x \<in> store_published s. \<not> dead (snd x)} \<subseteq> store_published s'"
proof -
  have h: "has_room s" using assms(1) by (simp add: has_room_def)
  have "mem.swept dead (owner_images (memory_images (mt_pages s))) (owner_images (memory_images (mt_pages s')))"
    using mem.stepD[OF mem.step_vacuum[OF assms(2)] h refl assms(3)] by (cases res) simp_all
  then show ?thesis by (auto simp: mem.swept_def retains_def store_published_def published_owner_images)
qed

text \<open>A callback that counts its calls and certifies the roots with an odd line pointer.\<close>

definition odd_removable :: "nat removable" where
  "odd_removable calls root = Inr (odd (unat (tid_offset root)), calls + 1)"

theorem vacuum_keeps_live_witness:
  "store_published (snd (vacuum 9 memory_store_ops odd_removable 0 initialized_store)) \<subseteq> store_published initialized_store \<and>
   {x \<in> store_published initialized_store. even (unat (tid_offset (snd x)))} \<subseteq>
     store_published (snd (vacuum 9 memory_store_ops odd_removable 0 initialized_store))"
proof -
  let ?m = "vacuum 9 memory_store_ops odd_removable 0 initialized_store"
  have o': "\<forall>r root r'. odd_removable r root = Inr (True, r') \<longrightarrow> odd (unat (tid_offset root))" by (simp add: odd_removable_def)
  have "?m = (fst ?m, snd ?m)" by simp
  from vacuum_keeps_live[OF initialized_room(1) o' this] show ?thesis by simp
qed

end
