(* ===== verification/GroupMerge.thy ===== *)
theory GroupMerge
  imports GroupMembers
begin

text \<open>
  Logical compaction of segment groups (crates/pin-core/src/grouped/merge.rs): a plan merges the live
  members of up to sixteen groups of the same heap pages in root order, rejects two live owners of one
  root, and encodes the merged membership, liveness and postings. Every posting is masked by the
  liveness of its own source before the union. The callback \<open>interrupt\<close> passes its own state along.
\<close>

section \<open>Definitions\<close>

definition MAX_MERGE_SOURCES :: nat where
  "MAX_MERGE_SOURCES = 16"

type_synonym 'i interrupt = "'i \<Rightarrow> 'i result"

record merge_cursor =
  mc_source :: segment_group
  mc_index :: nat
  mc_page :: "u8 option"
  mc_live :: offset_mask
  mc_current :: "member option"

definition merge_reload :: "merge_cursor \<Rightarrow> u8 \<Rightarrow> merge_cursor result" where
  "merge_reload self page =
     (if mc_page self \<noteq> Some page then
        and_then (bitmap_offsets (sg_live (mc_source self)) page) (\<lambda>live. Inr (self\<lparr>mc_live := live, mc_page := Some page\<rparr>))
      else Inr self)"

definition live_bit :: "offset_mask \<Rightarrow> member \<Rightarrow> bool" where
  "live_bit live member =
     (let b = unat (tid_offset (me_root member) - 1) in live ! (b div 64) AND push_bit (b mod 64) 1 \<noteq> 0)"

lemma merge_reload_kept:
  "merge_reload self page = Inr self' \<Longrightarrow> mc_index self' = mc_index self \<and> mc_source self' = mc_source self"
  by (auto simp: merge_reload_def res_simps split: if_splits)

function merge_advance_loop :: "'i interrupt \<Rightarrow> merge_cursor \<times> 'i \<Rightarrow> (merge_cursor \<times> 'i) result" where
  "merge_advance_loop interrupt st =
     (let self = fst st in
      if mc_index self < members_len (sg_members (mc_source self)) then
        and_then (if mc_index self mod 128 = 0 then interrupt (snd st) else Inr (snd st)) (\<lambda>i.
        and_then (members_get (sg_members (mc_source self)) (mc_index self)) (\<lambda>member.
        and_then (merge_reload (self\<lparr>mc_index := mc_index self + 1\<rparr>) (ucast (tid_block (me_root member)))) (\<lambda>self.
        if live_bit (mc_live self) member then Inr (self\<lparr>mc_current := Some member\<rparr>, i)
        else merge_advance_loop interrupt (self, i))))
      else Inr st)"
  by pat_completeness auto
termination
  by (relation "measure (\<lambda>(interrupt, st). members_len (sg_members (mc_source (fst st))) - mc_index (fst st))")
    (auto dest!: merge_reload_kept)

declare merge_advance_loop.simps [simp del]

definition merge_advance :: "'i interrupt \<Rightarrow> merge_cursor \<times> 'i \<Rightarrow> (merge_cursor \<times> 'i) result" where
  "merge_advance interrupt st = merge_advance_loop interrupt ((fst st)\<lparr>mc_current := None\<rparr>, snd st)"

text \<open>\<open>min_by_key(|member| member.root)\<close>: the first of the least elements.\<close>

definition min_step :: "member \<Rightarrow> member option \<Rightarrow> member option" where
  "min_step m best = (case best of None \<Rightarrow> Some m | Some b \<Rightarrow> if me_root m < me_root b then Some m else Some b)"

definition min_member :: "member list \<Rightarrow> member option" where
  "min_member ms = fold min_step ms None"

definition cursor_members :: "merge_cursor list \<Rightarrow> member list" where
  "cursor_members cursors = List.map_filter mc_current cursors"

definition visit_open :: "'i interrupt \<Rightarrow> merge_cursor list \<times> 'i \<Rightarrow> segment_group \<Rightarrow> (merge_cursor list \<times> 'i) result" where
  "visit_open interrupt st source =
     and_then (merge_advance interrupt (\<lparr>mc_source = source, mc_index = 0, mc_page = None, mc_live = replicate 8 0, mc_current = None\<rparr>, snd st))
       (\<lambda>(cursor, i). Inr (fst st @ [cursor], i))"

definition visit_cursor :: "'i interrupt \<Rightarrow> member \<Rightarrow> merge_cursor list \<times> 'i \<Rightarrow> merge_cursor \<Rightarrow> (merge_cursor list \<times> 'i) result" where
  "visit_cursor interrupt member st cursor =
     (case mc_current cursor of
        None \<Rightarrow> Inr (fst st @ [cursor], snd st)
      | Some current \<Rightarrow>
          if me_root current \<noteq> me_root member then Inr (fst st @ [cursor], snd st) else
          if me_incarnation current \<noteq> me_incarnation member then Inl InvalidState else
          and_then (merge_advance interrupt (cursor, snd st)) (\<lambda>(cursor, i). Inr (fst st @ [cursor], i)))"

text \<open>The members that a cursor has still to deliver, the current one included.\<close>

definition cursor_left :: "merge_cursor \<Rightarrow> nat" where
  "cursor_left self = (members_len (sg_members (mc_source self)) - mc_index self) + (if mc_current self = None then 0 else 1)"

lemma merge_advance_loop_left:
  "merge_advance_loop interrupt st = Inr st' \<Longrightarrow> mc_current (fst st) = None \<Longrightarrow> cursor_left (fst st') \<le> cursor_left (fst st)"
proof (induction interrupt st rule: merge_advance_loop.induct)
  case (1 interrupt st)
  show ?case
  proof (cases "mc_index (fst st) < members_len (sg_members (mc_source (fst st)))")
    case False
    then show ?thesis using 1(2) by (subst (asm) merge_advance_loop.simps) (simp add: Let_def)
  next
    case True
    then obtain i member self where s: "(if mc_index (fst st) mod 128 = 0 then interrupt (snd st) else Inr (snd st)) = Inr i"
      "members_get (sg_members (mc_source (fst st))) (mc_index (fst st)) = Inr member"
      "merge_reload ((fst st)\<lparr>mc_index := mc_index (fst st) + 1\<rparr>) (ucast (tid_block (me_root member))) = Inr self"
      "(if live_bit (mc_live self) member then Inr (self\<lparr>mc_current := Some member\<rparr>, i) else merge_advance_loop interrupt (self, i)) = Inr st'"
      using 1(2) by (subst (asm) merge_advance_loop.simps) (auto simp: Let_def res_simps)
    have k: "mc_index self = mc_index (fst st) + 1" "mc_source self = mc_source (fst st)" "mc_current self = None"
      using merge_reload_kept[OF s(3)] s(3) 1(3) by (auto simp: merge_reload_def res_simps split: if_splits)
    show ?thesis
    proof (cases "live_bit (mc_live self) member")
      case True
      then show ?thesis using s(4) k \<open>mc_index (fst st) < _\<close> by (auto simp: cursor_left_def)
    next
      case False
      then have "cursor_left (fst st') \<le> cursor_left self" using 1(1)[OF refl True s(1-3)] s(4) k(3) by simp
      then show ?thesis using k \<open>mc_index (fst st) < _\<close> 1(3) by (simp add: cursor_left_def)
    qed
  qed
qed

lemma merge_advance_left:
  assumes "merge_advance interrupt (cursor, i) = Inr (cursor', i')" "mc_current cursor \<noteq> None"
  shows "cursor_left cursor' < cursor_left cursor"
proof -
  have "cursor_left cursor' \<le> cursor_left (cursor\<lparr>mc_current := None\<rparr>)"
    using merge_advance_loop_left[of interrupt "(cursor\<lparr>mc_current := None\<rparr>, i)" "(cursor', i')"] assms(1) by (simp add: merge_advance_def)
  also have "\<dots> < cursor_left cursor" using assms(2) by (simp add: cursor_left_def)
  finally show ?thesis .
qed

lemma visit_cursor_left:
  assumes "visit_cursor interrupt member st cursor = Inr st'"
  shows "\<exists>c. fst st' = fst st @ [c] \<and> cursor_left c \<le> cursor_left cursor \<and> (mc_current cursor = Some member \<longrightarrow> cursor_left c < cursor_left cursor)"
  using assms by (auto simp: visit_cursor_def res_simps dest!: merge_advance_left split: option.splits if_splits)

lemma visit_cursors_left:
  assumes "try_fold (visit_cursor interrupt member) st cursors = Inr st'"
  shows "\<exists>cs. fst st' = fst st @ cs \<and> sum_list (map cursor_left cs) \<le> sum_list (map cursor_left cursors) \<and>
    (member \<in> set (cursor_members cursors) \<longrightarrow> sum_list (map cursor_left cs) < sum_list (map cursor_left cursors))"
  using assms
proof (induction cursors arbitrary: st)
  case (Cons cursor cursors)
  then obtain u where u: "visit_cursor interrupt member st cursor = Inr u" and f: "try_fold (visit_cursor interrupt member) u cursors = Inr st'"
    by (auto simp: res_simps)
  from visit_cursor_left[OF u] obtain c where c: "fst u = fst st @ [c]" "cursor_left c \<le> cursor_left cursor"
    "mc_current cursor = Some member \<Longrightarrow> cursor_left c < cursor_left cursor" by blast
  from Cons.IH[OF f] obtain cs where cs: "fst st' = fst u @ cs" "sum_list (map cursor_left cs) \<le> sum_list (map cursor_left cursors)"
    "member \<in> set (cursor_members cursors) \<Longrightarrow> sum_list (map cursor_left cs) < sum_list (map cursor_left cursors)" by blast
  have "member \<in> set (cursor_members (cursor # cursors)) \<Longrightarrow> mc_current cursor = Some member \<or> member \<in> set (cursor_members cursors)"
    by (auto simp: cursor_members_def List.map_filter_simps split: option.splits)
  then have "sum_list (map cursor_left (c # cs)) \<le> sum_list (map cursor_left (cursor # cursors)) \<and>
      (member \<in> set (cursor_members (cursor # cursors)) \<longrightarrow> sum_list (map cursor_left (c # cs)) < sum_list (map cursor_left (cursor # cursors)))"
    using c(2,3) cs(2,3) by (auto intro: add_less_le_mono add_le_less_mono)
  then show ?case using c(1) cs(1) by (intro exI[of _ "c # cs"]) simp
qed (simp add: cursor_members_def)

lemma min_step_fold:
  "fold min_step ms (Some b) = Some m \<Longrightarrow> m \<in> insert b (set ms) \<and> me_root m \<le> me_root b \<and> (\<forall>x \<in> set ms. me_root m \<le> me_root x)"
proof (induction ms arbitrary: b)
  case (Cons a ms)
  show ?case
  proof (cases "me_root a < me_root b")
    case True
    then show ?thesis using Cons.IH[of a] Cons.prems by (auto simp: min_step_def)
  next
    case False
    then show ?thesis using Cons.IH[of b] Cons.prems by (auto simp: min_step_def)
  qed
qed simp

lemma min_member_Some: "min_member ms = Some m \<Longrightarrow> m \<in> set ms \<and> (\<forall>x \<in> set ms. me_root m \<le> me_root x)"
  unfolding min_member_def by (cases ms) (auto simp: min_step_def dest: min_step_fold)

lemma min_member_None: "min_member ms = None \<longleftrightarrow> ms = []"
proof -
  have "fold min_step ms (Some b) \<noteq> None" for b ms
    by (induction ms arbitrary: b) (simp_all add: min_step_def)
  then show ?thesis unfolding min_member_def by (cases ms) (auto simp: min_step_def)
qed

function visit_loop :: "'i interrupt \<Rightarrow> ('e \<Rightarrow> member \<Rightarrow> 'e result) \<Rightarrow> merge_cursor list \<times> 'i \<Rightarrow> 'e \<Rightarrow> ('e \<times> 'i) result" where
  "visit_loop interrupt emit st e =
     (case min_member (cursor_members (fst st)) of
        None \<Rightarrow> Inr (e, snd st)
      | Some member \<Rightarrow>
          and_then (try_fold (visit_cursor interrupt member) ([], snd st) (fst st)) (\<lambda>st.
          and_then (emit e member) (\<lambda>e. visit_loop interrupt emit st e)))"
  by pat_completeness auto
termination
  by (relation "measure (\<lambda>(interrupt, emit, st, e). sum_list (map cursor_left (fst st)))")
    (auto dest!: visit_cursors_left min_member_Some)

declare visit_loop.simps [simp del]

text \<open>The array of cursors holds the sixteen sources that a plan admits.\<close>

definition visit :: "segment_group list \<Rightarrow> 'i interrupt \<Rightarrow> 'i \<Rightarrow> ('e \<Rightarrow> member \<Rightarrow> 'e result) \<Rightarrow> 'e \<Rightarrow> ('e \<times> 'i) result" where
  "visit sources interrupt i emit e =
     and_then (interrupt i) (\<lambda>i.
     and_then (try_fold (visit_open interrupt) ([], i) sources) (\<lambda>st. visit_loop interrupt emit st e))"

section \<open>Plans\<close>

record merge_plan =
  mp_key :: group_key
  mp_sources :: "segment_group list"
  mp_mask :: page_mask
  mp_count :: u32

definition merge_check :: "group_key \<Rightarrow> segment_group list \<Rightarrow> nat \<Rightarrow> bool" where
  "merge_check key sources index \<longleftrightarrow>
     (let source_key = segment_group_key (sources ! index) in
      gk_base source_key = gk_base key \<and> gk_relation source_key = gk_relation key \<and> gk_layout source_key = gk_layout key \<and>
      gk_segment source_key \<noteq> gk_segment key \<and> list_all (\<lambda>prior. segment_group_key prior \<noteq> source_key) (take index sources))"

definition merge_plan_new :: "group_key \<Rightarrow> segment_group list \<Rightarrow> 'i interrupt \<Rightarrow> 'i \<Rightarrow> (merge_plan \<times> 'i) result" where
  "merge_plan_new key sources interrupt i =
     (if length sources > MAX_MERGE_SOURCES then Inl (Limit ''group merge sources'') else
      if \<not> list_all (merge_check key sources) [0..<length sources] then Inl InvalidState else
      and_then (visit sources interrupt i (\<lambda>st member. Inr (fst st + 1, mask_insert (snd st) (ucast (tid_block (me_root member))))) (0, replicate 4 0))
        (\<lambda>((count, m), i). Inr (\<lparr>mp_key = key, mp_sources = sources, mp_mask = m, mp_count = count\<rparr>, i)))"

definition merge_is_empty :: "merge_plan \<Rightarrow> bool" where
  "merge_is_empty self \<longleftrightarrow> mp_count self = 0"

definition merge_encode_members :: "merge_plan \<Rightarrow> bytes \<Rightarrow> 'i interrupt \<Rightarrow> 'i \<Rightarrow> ((nat \<times> bytes) \<times> 'i) result" where
  "merge_encode_members self output interrupt i =
     and_then (interrupt i) (\<lambda>i.
     let len = HEADER_BYTES + unat (mp_count self) * 16 in
     if length output < len then Inl (Limit ''merged membership output'') else
     and_then (header_write \<lparr>hd_key = mp_key self, hd_kind = MEMBERS, hd_count = mp_count self, hd_mask = mp_mask self\<rparr>
       (writer_new (take len output)) len) (\<lambda>writer.
     and_then (visit (mp_sources self) interrupt i member_write writer) (\<lambda>(writer, i).
     Inr ((len, wr_bytes writer @ drop len output), i))))"

text \<open>The union of the live offsets, and of the postings masked by the liveness of their own source.\<close>

definition live_union :: "segment_group list \<Rightarrow> u8 \<Rightarrow> offset_mask result" where
  "live_union sources page =
     try_fold (\<lambda>offsets source. and_then (bitmap_offsets (sg_live source) page) (\<lambda>live. Inr (map2 (OR) offsets live)))
       (replicate 8 0) sources"

definition term_offsets :: "merge_plan \<Rightarrow> bitmap option list \<Rightarrow> u8 \<Rightarrow> offset_mask result" where
  "term_offsets self terms page =
     try_fold (\<lambda>result (source, posting).
       case posting of
         None \<Rightarrow> Inr result
       | Some posting \<Rightarrow>
           and_then (bitmap_offsets posting page) (\<lambda>offsets.
           and_then (bitmap_offsets (sg_live source) page) (\<lambda>live.
           Inr (map2 (OR) result (map2 (AND) offsets live)))))
       (replicate 8 0) (zip (mp_sources self) terms)"

definition merge_encode_liveness :: "merge_plan \<Rightarrow> bytes \<Rightarrow> 'i interrupt \<Rightarrow> 'i \<Rightarrow> ((nat \<times> bytes) \<times> 'i) result" where
  "merge_encode_liveness self output interrupt i =
     and_then (interrupt i) (\<lambda>i.
     encode_with (mp_key self) Liveness (mp_mask self) output
       (\<lambda>i page. and_then (interrupt i) (\<lambda>i. and_then (live_union (mp_sources self) page) (\<lambda>m. Inr (m, i)))) i)"

definition posting_pages ::
  "'i interrupt \<Rightarrow> page_mask \<times> 'i \<Rightarrow> segment_group \<times> bitmap option \<Rightarrow> (page_mask \<times> 'i) result" where
  "posting_pages interrupt st item =
     (case snd item of
        None \<Rightarrow> Inr st
      | Some posting \<Rightarrow>
          if bitmap_key posting \<noteq> segment_group_key (fst item) \<or> bitmap_kind_of posting \<noteq> Posting then Inl InvalidState else
          and_then (interrupt (snd st)) (\<lambda>i.
          and_then (bitmap_validate_all posting) (\<lambda>_. Inr (map2 (OR) (fst st) (bitmap_pages posting), i))))"

definition used_page :: "merge_plan \<Rightarrow> bitmap option list \<Rightarrow> 'i interrupt \<Rightarrow> page_mask \<times> 'i \<Rightarrow> u8 \<Rightarrow> (page_mask \<times> 'i) result" where
  "used_page self terms interrupt st page =
     and_then (interrupt (snd st)) (\<lambda>i.
     and_then (term_offsets self terms page) (\<lambda>words.
     Inr (if list_ex (\<lambda>word. word \<noteq> 0) words then mask_insert (fst st) page else fst st, i)))"

definition merge_encode_posting ::
  "merge_plan \<Rightarrow> bitmap option list \<Rightarrow> bytes \<Rightarrow> 'i interrupt \<Rightarrow> 'i \<Rightarrow> ((nat \<times> bytes) \<times> 'i) result" where
  "merge_encode_posting self terms output interrupt i =
     and_then (interrupt i) (\<lambda>i.
     if length terms \<noteq> length (mp_sources self) then Inl InvalidParameters else
     and_then (try_fold (posting_pages interrupt) (replicate 4 0, i) (zip (mp_sources self) terms)) (\<lambda>(pages, i).
     and_then (try_fold (used_page self terms interrupt) (replicate 4 0, i) (page_items pages)) (\<lambda>(m, i).
     encode_with (mp_key self) Posting m output
       (\<lambda>i page. and_then (interrupt i) (\<lambda>i. and_then (term_offsets self terms page) (\<lambda>words. Inr (words, i)))) i)))"

end
