(* ===== verification/MergeOrder.thy ===== *)
theory MergeOrder
  imports GroupMerge GroupEval
begin

text \<open>
  The merge of segment groups visits the live members of all sources once each in root order, and
  fails exactly when two live members of one root name different owners.
\<close>

section \<open>Opened groups\<close>

definition member_list :: "segment_group \<Rightarrow> member list" where
  "member_list g = map (\<lambda>i. projr (members_get (sg_members g) i)) [0..<members_len (sg_members g)]"

definition is_live :: "segment_group \<Rightarrow> member \<Rightarrow> bool" where
  "is_live g m \<longleftrightarrow> live_bit (projr (bitmap_offsets (sg_live g) (ucast (tid_block (me_root m))))) m"

definition live_members :: "segment_group \<Rightarrow> member list" where
  "live_members g = filter (is_live g) (member_list g)"

definition group_ok :: "segment_group \<Rightarrow> bool" where
  "group_ok g \<longleftrightarrow>
     (\<forall>i < members_len (sg_members g). \<exists>m. members_get (sg_members g) i = Inr m) \<and>
     sorted_wrt (<) (map me_root (member_list g)) \<and> (\<forall>page. \<exists>live. bitmap_offsets (sg_live g) page = Inr live)"

lemma length_member_list [simp]: "length (member_list g) = members_len (sg_members g)"
  by (simp add: member_list_def)

lemma group_ok_get:
  assumes "group_ok g" "i < members_len (sg_members g)"
  shows "members_get (sg_members g) i = Inr (member_list g ! i)"
  using assms by (auto simp: group_ok_def member_list_def)

lemma collect_roots_sorted:
  assumes "try_fold (\<lambda>st index. and_then (get index) (\<lambda>member. collect_root key st (me_root member))) (m, p) is = Inr st"
  shows "(\<forall>i \<in> set is. \<exists>x. get i = Inr x) \<and> sorted_wrt (<) (map (\<lambda>i. me_root (projr (get i))) is) \<and>
    (\<forall>q. p = Some q \<longrightarrow> (\<forall>i \<in> set is. q < me_root (projr (get i))))"
  using assms
proof (induction "is" arbitrary: m p)
  case (Cons i "is")
  then obtain x m' where x: "get i = Inr x" "\<not> not_above p (me_root x)"
    "try_fold (\<lambda>st index. and_then (get index) (\<lambda>member. collect_root key st (me_root member))) (m', Some (me_root x)) is = Inr st"
    by (auto simp: collect_root_def res_simps split: if_splits)
  show ?case using Cons.IH[OF x(3)] x(1,2) by (fastforce simp: not_above_def)
qed simp

lemma segment_group_open_ok:
  assumes "segment_group_open mb lb = Inr g"
  shows "group_ok g"
proof -
  from assms obtain ms live where o': "members_open mb = Inr ms" "bitmap_open lb = Inr live" "bitmap_pages live = hd_mask (mm_header ms)"
    "try_fold (\<lambda>_ page. check_live_page ms live page) () (page_items (hd_mask (mm_header ms))) = Inr ()" "g = \<lparr>sg_members = ms, sg_live = live\<rparr>"
    by (auto simp: segment_group_open_def res_simps split: if_splits)
  from o'(1) obtain key st where f: "try_fold (\<lambda>st index. and_then (members_get ms index) (\<lambda>member. collect_root key st (me_root member)))
      (replicate 4 0, None) [0..<members_len ms] = Inr st"
    by (auto simp: members_open_def Let_def res_simps split: if_splits)
  have "\<exists>m. bitmap_offsets live page = Inr m" for page
  proof (cases "mask_contains (bitmap_pages live) page")
    case True
    have l: "length (bitmap_pages live) = 4" using bitmap_open_mask[OF o'(2)] .
    have "mask_bit (bitmap_pages live) (unat page)" using True mask_contains_bit[OF l] by simp
    moreover have "unat page < 64 * 4" using unat_u8_lt[of page] by simp
    ultimately have "unat page \<in> set (map unat (page_items (bitmap_pages live)))"
      unfolding page_items_unat[OF l] mask_list_def l by simp
    then obtain x where "x \<in> set (page_items (bitmap_pages live))" "unat page = unat x" by auto
    then have "page \<in> set (page_items (hd_mask (mm_header ms)))" using o'(3) word_unat_eq_iff[of page x] by simp
    from try_fold_reaches[OF o'(4) this] show ?thesis by (auto simp: check_live_page_def res_simps)
  next
    case False
    then show ?thesis by (simp add: bitmap_offsets_def bitmap_span_def bitmap_pages_def)
  qed
  then show ?thesis
    using collect_roots_sorted[OF f] o'(5) by (simp add: group_ok_def member_list_def comp_def)
qed

section \<open>Cursors\<close>

definition cursor_ok :: "merge_cursor \<Rightarrow> bool" where
  "cursor_ok c \<longleftrightarrow> group_ok (mc_source c) \<and>
     (\<forall>p. mc_page c = Some p \<longrightarrow> mc_live c = projr (bitmap_offsets (sg_live (mc_source c)) p))"

definition cursor_rest :: "merge_cursor \<Rightarrow> member list" where
  "cursor_rest c = filter (is_live (mc_source c)) (drop (mc_index c) (member_list (mc_source c)))"

definition pending :: "merge_cursor \<Rightarrow> member list" where
  "pending c = (case mc_current c of None \<Rightarrow> [] | Some m \<Rightarrow> m # cursor_rest c)"

lemma merge_reload_ok:
  assumes "cursor_ok c"
  shows "\<exists>c'. merge_reload c page = Inr c' \<and> cursor_ok c' \<and> mc_live c' = projr (bitmap_offsets (sg_live (mc_source c)) page) \<and>
    mc_source c' = mc_source c \<and> mc_index c' = mc_index c \<and> mc_current c' = mc_current c"
proof -
  obtain live where "bitmap_offsets (sg_live (mc_source c)) page = Inr live" using assms unfolding cursor_ok_def group_ok_def by metis
  then show ?thesis using assms by (auto simp: merge_reload_def cursor_ok_def)
qed

lemma cursor_ok_index [simp]: "cursor_ok (c\<lparr>mc_index := n\<rparr>) = cursor_ok c" "cursor_ok (c\<lparr>mc_current := x\<rparr>) = cursor_ok c"
  by (simp_all add: cursor_ok_def)

lemma merge_advance_loop_spec:
  assumes "cursor_ok (fst st)" "mc_current (fst st) = None" "\<forall>i. \<exists>i'. interrupt i = Inr i'"
  shows "\<exists>c i. merge_advance_loop interrupt st = Inr (c, i) \<and> cursor_ok c \<and> pending c = cursor_rest (fst st)"
  using assms
proof (induction interrupt st rule: merge_advance_loop.induct)
  case (1 interrupt st)
  let ?c = "fst st" let ?g = "mc_source ?c" let ?n = "mc_index ?c"
  show ?case
  proof (cases "?n < members_len (sg_members ?g)")
    case False
    then have "merge_advance_loop interrupt st = Inr (?c, snd st)" "cursor_rest ?c = []"
      by (simp_all add: merge_advance_loop.simps[of interrupt st] Let_def cursor_rest_def)
    then show ?thesis using 1(2,3) by (intro exI[of _ "fst st"] exI[of _ "snd st"]) (simp add: pending_def)
  next
    case True
    obtain i where i: "(if ?n mod 128 = 0 then interrupt (snd st) else Inr (snd st)) = Inr i" using 1(4) by (cases "?n mod 128 = 0") auto
    have g: "group_ok ?g" using 1(2) by (simp add: cursor_ok_def)
    let ?m = "member_list ?g ! ?n"
    note m = group_ok_get[OF g True]
    obtain c where c: "merge_reload (?c\<lparr>mc_index := ?n + 1\<rparr>) (ucast (tid_block (me_root ?m))) = Inr c" "cursor_ok c"
      "mc_live c = projr (bitmap_offsets (sg_live ?g) (ucast (tid_block (me_root ?m))))" "mc_source c = ?g" "mc_index c = ?n + 1" "mc_current c = None"
      using merge_reload_ok[of "?c\<lparr>mc_index := ?n + 1\<rparr>" "ucast (tid_block (me_root ?m))"] 1(2,3) by auto
    have step: "merge_advance_loop interrupt st = (if live_bit (mc_live c) ?m then Inr (c\<lparr>mc_current := Some ?m\<rparr>, i) else merge_advance_loop interrupt (c, i))"
      using True i m c(1) by (subst merge_advance_loop.simps) (simp add: Let_def)
    have rest: "cursor_rest ?c = (if is_live ?g ?m then ?m # cursor_rest c else cursor_rest c)"
      using True c(4,5) by (simp add: cursor_rest_def Cons_nth_drop_Suc[symmetric])
    have live: "live_bit (mc_live c) ?m \<longleftrightarrow> is_live ?g ?m" by (simp add: c(3) is_live_def)
    show ?thesis
    proof (cases "is_live ?g ?m")
      case True
      then show ?thesis using step rest live c by (simp add: pending_def cursor_rest_def)
    next
      case False
      then show ?thesis using 1(1)[OF refl True i m c(1)] step rest live c(2,6) 1(4) by simp
    qed
  qed
qed

lemma merge_advance_spec:
  assumes "cursor_ok c" "\<forall>i. \<exists>i'. interrupt i = Inr i'"
  shows "\<exists>c' i'. merge_advance interrupt (c, i) = Inr (c', i') \<and> cursor_ok c' \<and> pending c' = cursor_rest c"
  using merge_advance_loop_spec[of "(c\<lparr>mc_current := None\<rparr>, i)" interrupt] assms by (simp add: merge_advance_def cursor_rest_def)

section \<open>One round\<close>

definition consistent :: "member set \<Rightarrow> bool" where
  "consistent A \<longleftrightarrow> (\<forall>x \<in> A. \<forall>y \<in> A. me_root x = me_root y \<longrightarrow> x = y)"

text \<open>What is pending after a round that delivers the root \<open>r\<close>.\<close>

definition strip :: "root_tid \<Rightarrow> member list \<Rightarrow> member list" where
  "strip r ms = (case ms of [] \<Rightarrow> [] | m # rest \<Rightarrow> if me_root m = r then rest else m # rest)"

definition clash :: "member \<Rightarrow> member \<Rightarrow> bool" where
  "clash m x \<longleftrightarrow> me_root x = me_root m \<and> x \<noteq> m"

lemma visit_cursor_clash:
  assumes "mc_current c = Some x" "clash m x"
  shows "visit_cursor interrupt m st c = Inl InvalidState"
  using assms by (auto simp: visit_cursor_def clash_def)

lemma visit_cursor_spec:
  assumes "cursor_ok c" "\<forall>i. \<exists>i'. interrupt i = Inr i'" "\<And>x. mc_current c = Some x \<Longrightarrow> \<not> clash m x"
  shows "\<exists>c' i'. visit_cursor interrupt m st c = Inr (fst st @ [c'], i') \<and> cursor_ok c' \<and> pending c' = strip (me_root m) (pending c)"
proof (cases "mc_current c = Some m")
  case True
  obtain c' i' where "merge_advance interrupt (c, snd st) = Inr (c', i')" "cursor_ok c'" "pending c' = cursor_rest c"
    using merge_advance_spec[OF assms(1,2), of "snd st"] by blast
  then show ?thesis using True by (auto simp: visit_cursor_def pending_def strip_def)
next
  case False
  then show ?thesis using assms(1,3) by (auto simp: visit_cursor_def pending_def strip_def clash_def split: option.split)
qed

lemma cursor_members_Cons: "set (cursor_members (c # cs)) = set_option (mc_current c) \<union> set (cursor_members cs)"
  by (auto simp: cursor_members_def List.map_filter_simps split: option.splits)

lemma visit_cursors_spec:
  assumes "\<forall>c \<in> set cs. cursor_ok c" "\<forall>i. \<exists>i'. interrupt i = Inr i'" "\<forall>x \<in> set (cursor_members cs). \<not> clash m x"
  shows "\<exists>cs' i'. try_fold (visit_cursor interrupt m) st cs = Inr (fst st @ cs', i') \<and> (\<forall>c \<in> set cs'. cursor_ok c) \<and>
    map pending cs' = map (\<lambda>c. strip (me_root m) (pending c)) cs"
  using assms(1,3)
proof (induction cs arbitrary: st)
  case (Cons c cs)
  obtain c' i' where c: "visit_cursor interrupt m st c = Inr (fst st @ [c'], i')" "cursor_ok c'" "pending c' = strip (me_root m) (pending c)"
    using visit_cursor_spec[of c interrupt m st] Cons.prems assms(2) by (auto simp: cursor_members_Cons)
  obtain cs' i'' where "try_fold (visit_cursor interrupt m) (fst st @ [c'], i') cs = Inr (fst (fst st @ [c'], i') @ cs', i'')"
    "\<forall>c \<in> set cs'. cursor_ok c" "map pending cs' = map (\<lambda>c. strip (me_root m) (pending c)) cs"
    using Cons.IH[of "(fst st @ [c'], i')"] Cons.prems by (auto simp: cursor_members_Cons)
  then show ?case using c by (auto intro!: exI[of _ "c' # cs'"] exI[of _ i''])
next
  case Nil
  show ?case by (intro exI[of _ "[]"] exI[of _ "snd st"]) simp
qed

lemma visit_cursors_clash:
  assumes "\<forall>c \<in> set cs. cursor_ok c" "\<forall>i. \<exists>i'. interrupt i = Inr i'" "x \<in> set (cursor_members cs)" "clash m x"
  shows "try_fold (visit_cursor interrupt m) st cs = Inl InvalidState"
  using assms(1,3)
proof (induction cs arbitrary: st)
  case (Cons c cs)
  show ?case
  proof (cases "\<exists>y. mc_current c = Some y \<and> clash m y")
    case True
    then show ?thesis using visit_cursor_clash[of c _ m interrupt st] by auto
  next
    case False
    then obtain c' i' where c: "visit_cursor interrupt m st c = Inr (fst st @ [c'], i')"
      using visit_cursor_spec[of c interrupt m st] Cons.prems assms(2) by auto
    have "x \<in> set (cursor_members cs)" using Cons.prems(2) False assms(4) by (auto simp: cursor_members_Cons)
    then show ?thesis using Cons.IH c Cons.prems(1) by simp
  qed
qed (simp add: cursor_members_def)

section \<open>The merge\<close>

text \<open>The lists still pending, each strictly ascending.\<close>

definition ascending :: "merge_cursor list \<Rightarrow> bool" where
  "ascending cs \<longleftrightarrow> (\<forall>c \<in> set cs. cursor_ok c \<and> sorted_wrt (<) (map me_root (pending c)))"

definition all_pending :: "merge_cursor list \<Rightarrow> member set" where
  "all_pending cs = (\<Union>c \<in> set cs. set (pending c))"

lemma cursor_members_hd: "x \<in> set (cursor_members cs) \<longleftrightarrow> (\<exists>c \<in> set cs. pending c \<noteq> [] \<and> hd (pending c) = x)"
  by (induction cs) (auto simp: cursor_members_Cons pending_def cursor_members_def[of "[]"] split: option.splits)

lemma strip_sorted: "sorted_wrt (<) (map me_root ms) \<Longrightarrow> sorted_wrt (<) (map me_root (strip r ms))"
  by (cases ms) (auto simp: strip_def)

lemma strip_set:
  assumes "sorted_wrt (<) (map me_root ms)" "\<forall>x \<in> set ms. r \<le> me_root x"
  shows "set (strip r ms) = {x \<in> set ms. me_root x \<noteq> r}"
  using assms by (cases ms) (force simp: strip_def)+

lemma least_pending:
  assumes "ascending cs" "min_member (cursor_members cs) = Some m" "x \<in> all_pending cs"
  shows "me_root m \<le> me_root x" "me_root x = me_root m \<Longrightarrow> x \<in> set (cursor_members cs)"
proof -
  note k = min_member_Some[OF assms(2)]
  from assms(3) obtain c where c: "c \<in> set cs" "x \<in> set (pending c)" by (auto simp: all_pending_def)
  then obtain y ys where y: "pending c = y # ys" by (cases "pending c") auto
  have s: "\<forall>z \<in> set ys. me_root y < me_root z" using assms(1) c(1) y by (auto simp: ascending_def)
  have "y \<in> set (cursor_members cs)" using c(1) y unfolding cursor_members_hd by (intro bexI[of _ c]) simp_all
  moreover from this have "me_root m \<le> me_root y" using k by blast
  ultimately show "me_root m \<le> me_root x" "me_root x = me_root m \<Longrightarrow> x \<in> set (cursor_members cs)"
    using c(2) y s by force+
qed

lemma all_pending_empty: "cursor_members cs = [] \<Longrightarrow> all_pending cs = {}"
  using cursor_members_hd[of _ cs] by (fastforce simp: all_pending_def)

lemma consistent_remove:
  assumes "\<And>x. x \<in> A \<Longrightarrow> me_root x = me_root m \<Longrightarrow> x = m"
  shows "consistent A \<longleftrightarrow> consistent {x \<in> A. me_root x \<noteq> me_root m}"
proof
  assume c: "consistent {x \<in> A. me_root x \<noteq> me_root m}"
  show "consistent A"
    unfolding consistent_def
  proof (intro ballI impI)
    fix x y assume a: "x \<in> A" "y \<in> A" "me_root x = me_root y"
    show "x = y"
    proof (cases "me_root x = me_root m")
      case True
      then show ?thesis using assms[OF a(1)] assms[OF a(2)] a(3) by metis
    next
      case False
      then have "x \<in> {x \<in> A. me_root x \<noteq> me_root m}" "y \<in> {x \<in> A. me_root x \<noteq> me_root m}" using a by simp_all
      then show ?thesis using c a(3) unfolding consistent_def by blast
    qed
  qed
qed (simp add: consistent_def)

lemma sum_list_less:
  fixes g h :: "'x \<Rightarrow> nat"
  shows "\<forall>x \<in> set xs. g x \<le> h x \<Longrightarrow> \<exists>x \<in> set xs. g x < h x \<Longrightarrow> sum_list (map g xs) < sum_list (map h xs)"
proof (induction xs)
  case (Cons x xs)
  have "sum_list (map g xs) \<le> sum_list (map h xs)" using Cons.prems(1) by (intro sum_list_mono) simp
  then show ?case using Cons by (cases "g x < h x") (auto intro: add_less_le_mono add_le_less_mono)
qed simp

lemma strip_length: "length (strip r ms) \<le> length ms" "ms \<noteq> [] \<Longrightarrow> me_root (hd ms) = r \<Longrightarrow> length (strip r ms) < length ms"
  by (cases ms; simp add: strip_def)+

text \<open>After a round without a clash.\<close>

lemma round_pending:
  assumes "ascending cs" "min_member (cursor_members cs) = Some m" "\<forall>c \<in> set cs'. cursor_ok c"
    "map pending cs' = map (\<lambda>c. strip (me_root m) (pending c)) cs"
  shows "ascending cs'" "all_pending cs' = {x \<in> all_pending cs. me_root x \<noteq> me_root m}"
    "sum_list (map (\<lambda>c. length (pending c)) cs') < sum_list (map (\<lambda>c. length (pending c)) cs)"
proof -
  note lp = least_pending[OF assms(1,2)]
  have s: "pending ` set cs' = (\<lambda>c. strip (me_root m) (pending c)) ` set cs" using arg_cong[OF assms(4), of set] by simp
  have p: "sorted_wrt (<) (map me_root (pending c))" "\<forall>x \<in> set (pending c). me_root m \<le> me_root x" if "c \<in> set cs" for c
    using that assms(1) lp(1) by (auto simp: ascending_def all_pending_def)
  show "ascending cs'"
    unfolding ascending_def
  proof (intro ballI conjI)
    fix c assume c: "c \<in> set cs'"
    then obtain d where "d \<in> set cs" "pending c = strip (me_root m) (pending d)" using s by blast
    then show "sorted_wrt (<) (map me_root (pending c))" using p(1) strip_sorted by simp
  qed (use assms(3) in blast)
  have "all_pending cs' = (\<Union>ms \<in> pending ` set cs'. set ms)" by (simp add: all_pending_def)
  also have "\<dots> = (\<Union>c \<in> set cs. {x \<in> set (pending c). me_root x \<noteq> me_root m})" unfolding s using strip_set p by simp
  finally show "all_pending cs' = {x \<in> all_pending cs. me_root x \<noteq> me_root m}" by (auto simp: all_pending_def)
  obtain c where c: "c \<in> set cs" "pending c \<noteq> []" "hd (pending c) = m" using min_member_Some[OF assms(2)] by (auto simp: cursor_members_hd)
  have "map (\<lambda>c. length (pending c)) cs' = map (\<lambda>c. length (strip (me_root m) (pending c))) cs"
    using arg_cong[OF assms(4), of "map length"] by (simp add: comp_def)
  then show "sum_list (map (\<lambda>c. length (pending c)) cs') < sum_list (map (\<lambda>c. length (pending c)) cs)"
    using c strip_length by (metis (no_types, lifting) sum_list_less)
qed

lemma visit_loop_spec:
  assumes "ascending (fst st)" "\<forall>i. \<exists>i'. interrupt i = Inr i'"
  shows "if consistent (all_pending (fst st))
    then \<exists>ms i'. visit_loop interrupt (\<lambda>e m. Inr (f e m)) st e = Inr (foldl f e ms, i') \<and> sorted_wrt (<) (map me_root ms) \<and> set ms = all_pending (fst st)
    else visit_loop interrupt (\<lambda>e m. Inr (f e m)) st e = Inl InvalidState"
  using assms(1)
proof (induction "sum_list (map (\<lambda>c. length (pending c)) (fst st))" arbitrary: st e rule: less_induct)
  case less
  let ?cs = "fst st" and ?v = "visit_loop interrupt (\<lambda>e m. Inr (f e m))"
  have ok: "\<forall>c \<in> set ?cs. cursor_ok c" using less.prems by (simp add: ascending_def)
  show ?case
  proof (cases "min_member (cursor_members ?cs)")
    case None
    then have "all_pending ?cs = {}" by (intro all_pending_empty) (simp add: min_member_None)
    then show ?thesis using None by (subst (1 2) visit_loop.simps) (simp add: consistent_def)
  next
    case (Some m)
    note mn = min_member_Some[OF Some]
    note lp = least_pending[OF less.prems Some]
    show ?thesis
    proof (cases "\<exists>x \<in> set (cursor_members ?cs). clash m x")
      case True
      then obtain x where x: "x \<in> set (cursor_members ?cs)" "clash m x" by blast
      have "?v st e = Inl InvalidState"
        using Some visit_cursors_clash[OF ok assms(2) x] by (subst visit_loop.simps) simp
      moreover have "\<not> consistent (all_pending ?cs)"
        using x mn by (auto simp: consistent_def clash_def all_pending_def cursor_members_hd) (metis list.set_sel(1))
      ultimately show ?thesis by simp
    next
      case False
      then obtain cs' i' where r: "try_fold (visit_cursor interrupt m) ([], snd st) ?cs = Inr (cs', i')" "\<forall>c \<in> set cs'. cursor_ok c"
        "map pending cs' = map (\<lambda>c. strip (me_root m) (pending c)) ?cs"
        using visit_cursors_spec[OF ok assms(2), of m "([], snd st)"] by auto
      have v: "?v st e = ?v (cs', i') (f e m)" using Some r(1) by (subst visit_loop.simps) simp
      note rp = round_pending[OF less.prems Some r(2,3)]
      have same: "x = m" if "x \<in> all_pending ?cs" "me_root x = me_root m" for x
        using lp(2)[OF that] False that(2) by (auto simp: clash_def)
      have eq: "consistent (all_pending ?cs) \<longleftrightarrow> consistent (all_pending cs')"
        unfolding rp(2) by (rule consistent_remove) (rule same)
      have "m \<in> all_pending ?cs" using mn by (auto simp: all_pending_def cursor_members_hd) (metis list.set_sel(1))
      then have un: "all_pending ?cs = insert m (all_pending cs')" unfolding rp(2) by (auto dest: same)
      have above: "\<forall>x \<in> all_pending cs'. me_root m < me_root x" unfolding rp(2) using lp(1) by (auto simp: order.strict_iff_order)
      note ih = less.hyps[of "(cs', i')" "f e m", unfolded fst_conv, OF rp(3,1)]
      show ?thesis
      proof (cases "consistent (all_pending cs')")
        case True
        then obtain ms i'' where "?v (cs', i') (f e m) = Inr (foldl f (f e m) ms, i'')" "sorted_wrt (<) (map me_root ms)" "set ms = all_pending cs'"
          using ih by auto
        then have "?v st e = Inr (foldl f e (m # ms), i'') \<and> sorted_wrt (<) (map me_root (m # ms)) \<and> set (m # ms) = all_pending ?cs"
          using v un above by simp
        then show ?thesis using True eq by (simp only: if_True) blast
      next
        case False
        then show ?thesis using ih v eq by simp
      qed
    qed
  qed
qed

lemma visit_open_spec:
  assumes "\<forall>g \<in> set sources. group_ok g" "\<forall>i. \<exists>i'. interrupt i = Inr i'"
  shows "\<exists>cs i'. try_fold (visit_open interrupt) st sources = Inr (fst st @ cs, i') \<and> (\<forall>c \<in> set cs. cursor_ok c) \<and>
    map pending cs = map live_members sources"
  using assms(1)
proof (induction sources arbitrary: st)
  case Nil
  show ?case by (intro exI[of _ "[]"] exI[of _ "snd st"]) simp
next
  case (Cons g sources)
  let ?c = "\<lparr>mc_source = g, mc_index = 0, mc_page = None, mc_live = replicate 8 0, mc_current = None\<rparr>"
  have "cursor_ok ?c" using Cons.prems by (simp add: cursor_ok_def)
  from merge_advance_spec[OF this assms(2), of "snd st"] obtain c i' where
    c: "merge_advance interrupt (?c, snd st) = Inr (c, i')" "cursor_ok c" "pending c = live_members g"
    by (auto simp: cursor_rest_def live_members_def)
  obtain cs i'' where "try_fold (visit_open interrupt) (fst st @ [c], i') sources = Inr (fst (fst st @ [c], i') @ cs, i'')"
    "\<forall>c \<in> set cs. cursor_ok c" "map pending cs = map live_members sources"
    using Cons.IH[of "(fst st @ [c], i')"] Cons.prems by auto
  moreover have "visit_open interrupt st g = Inr (fst st @ [c], i')" using c(1) by (simp add: visit_open_def)
  ultimately show ?case using c(2,3) by (auto intro!: exI[of _ "c # cs"] exI[of _ i''])
qed

text \<open>C40: the merge of segment groups is exact and rejects exactly the conflicts. For at most
  sixteen groups that were opened and a callback that never cancels, visiting the sources folds the consumer over the live
  members of all of them, each owner once and in strictly ascending root order, if no two live members
  of one root differ; and if two do, it fails with an invalid state.\<close>

theorem merge_visit_exact:
  assumes "length sources \<le> MAX_MERGE_SOURCES"
    and src: "\<forall>g \<in> set sources. \<exists>mb lb. segment_group_open mb lb = Inr g" and int: "\<forall>i. \<exists>i'. interrupt i = Inr i'"
  shows "if consistent (\<Union>g \<in> set sources. set (live_members g))
    then \<exists>ms i'. visit sources interrupt i (\<lambda>e m. Inr (f e m)) e = Inr (foldl f e ms, i') \<and> sorted_wrt (<) (map me_root ms) \<and>
      set ms = (\<Union>g \<in> set sources. set (live_members g))
    else visit sources interrupt i (\<lambda>e m. Inr (f e m)) e = Inl InvalidState"
proof -
  have ok: "\<forall>g \<in> set sources. group_ok g" using src segment_group_open_ok by blast
  obtain i1 where i1: "interrupt i = Inr i1" using int by blast
  obtain cs i2 where cs: "try_fold (visit_open interrupt) ([], i1) sources = Inr (cs, i2)" "\<forall>c \<in> set cs. cursor_ok c" "map pending cs = map live_members sources"
    using visit_open_spec[OF ok int, of "([], i1)"] by auto
  have s: "pending ` set cs = live_members ` set sources" using arg_cong[OF cs(3), of set] by simp
  have "sorted_wrt (<) (map me_root (live_members g))" if "g \<in> set sources" for g
    using ok that by (auto simp: live_members_def group_ok_def sorted_wrt_map intro: sorted_wrt_filter)
  then have a: "ascending (fst (cs, i2))" using s cs(2) by (auto simp: ascending_def) (metis (no_types, lifting) imageE imageI)
  have p: "all_pending (fst (cs, i2)) = (\<Union>g \<in> set sources. set (live_members g))"
    using arg_cong[OF s, of "\<lambda>A. \<Union>ms \<in> A. set ms"] by (simp add: all_pending_def)
  have v: "visit sources interrupt i (\<lambda>e m. Inr (f e m)) e = visit_loop interrupt (\<lambda>e m. Inr (f e m)) (cs, i2) e"
    using cs(1) i1 by (simp add: visit_def)
  show ?thesis unfolding v using visit_loop_spec[OF a int, of f e] unfolding p .
qed

text \<open>The sample group as two sources: its owners are visited once.\<close>

theorem merge_visit_exact_witness:
  "visit [sample_segment, sample_segment] (\<lambda>i. Inr i) () (\<lambda>e m. Inr (e @ [m])) [] =
     Inr ([\<lparr>me_root = RootTid 257 1, me_incarnation = 5\<rparr>, \<lparr>me_root = RootTid 257 9, me_incarnation = 6\<rparr>,
       \<lparr>me_root = RootTid 300 2, me_incarnation = 7\<rparr>], ()) \<and>
   set (live_members sample_segment) = {\<lparr>me_root = RootTid 257 1, me_incarnation = 5\<rparr>, \<lparr>me_root = RootTid 257 9, me_incarnation = 6\<rparr>,
       \<lparr>me_root = RootTid 300 2, me_incarnation = 7\<rparr>}"
proof -
  let ?ms = "[\<lparr>me_root = RootTid 257 1, me_incarnation = 5\<rparr>, \<lparr>me_root = RootTid 257 9, me_incarnation = 6\<rparr>, \<lparr>me_root = RootTid 300 2, me_incarnation = 7\<rparr>]"
  have v: "visit [sample_segment, sample_segment] (\<lambda>i. Inr i) () (\<lambda>e m. Inr (e @ [m])) [] = Inr (?ms, ())" by code_simp
  have f: "foldl (\<lambda>e m. e @ [m]) e ms = e @ ms" for e ms :: "member list" by (induction ms arbitrary: e) simp_all
  have o': "\<forall>g \<in> set [sample_segment, sample_segment]. \<exists>mb lb. segment_group_open mb lb = Inr g" using sample_segment_open by auto
  have i: "\<forall>i. \<exists>i'. (\<lambda>i. Inr i) i = (Inr i' :: unit result)" by simp
  have "set ?ms = set (live_members sample_segment)"
    using merge_visit_exact[OF _ o' i, of "()" "\<lambda>e m. e @ [m]" "[]"] v by (auto simp: f MAX_MERGE_SOURCES_def split: if_splits)
  then show ?thesis using v by simp
qed

end
