(* ===== verification/QueryPlan.thy ===== *)
theory QueryPlan
  imports Candidate PagePostings
begin

text \<open>
  Plans of the mutable index (crates/pin-core/src/mutable/query.rs, first part): a query is lowered to a
  positive Boolean combination of terms that every match satisfies, with one cursor per term that is
  used. The nodes 0 and 1 are the empty and the universal set.
\<close>

section \<open>Cursors\<close>

record chain =
  ch_reference :: term_ref
  ch_block :: u32
  ch_tail :: u32
  ch_remaining :: u32
  ch_previous :: owner_ref
  ch_inline_second :: "owner_ref option"
  ch_page :: "owned_postings option"

record query_cursor =
  qc_current :: "owner_ref option"
  qc_chain :: "chain option"

definition query_cursor_empty :: query_cursor where
  "query_cursor_empty = \<lparr>qc_current = None, qc_chain = None\<rparr>"

section \<open>Nodes\<close>

definition EMPTY :: nat where
  "EMPTY = 0"

definition UNIVERSE :: nat where
  "UNIVERSE = 1"

definition UNUSED :: nat where
  "UNUSED = usize_max"

datatype plan_node = PEmpty | PUniverse | PTerm str nat | PAnd nat nat | POr nat nat

definition plan_term :: "plan_node list \<Rightarrow> str \<Rightarrow> nat \<times> plan_node list" where
  "plan_term nodes text = (length nodes, nodes @ [PTerm text UNUSED])"

definition combine :: "plan_node list \<Rightarrow> nat \<Rightarrow> nat \<Rightarrow> bool \<Rightarrow> nat \<times> plan_node list" where
  "combine nodes left right both =
     (if nodes ! left = nodes ! right then (left, nodes) else
      let (ident, absorbing) = (if both then (UNIVERSE, EMPTY) else (EMPTY, UNIVERSE)) in
      if left = absorbing \<or> right = absorbing then (absorbing, nodes)
      else if left = ident then (right, nodes)
      else if right = ident then (left, nodes)
      else (length nodes, nodes @ [if both then PAnd left right else POr left right]))"

definition plan_word :: "nat \<times> plan_node list \<Rightarrow> str \<Rightarrow> nat \<times> plan_node list" where
  "plan_word st text = (let (nxt, nodes) = plan_term (snd st) text in combine nodes (fst st) nxt True)"

definition plan_step :: "plan_node list \<times> nat list \<Rightarrow> node \<Rightarrow> plan_node list \<times> nat list" where
  "plan_step st node =
     (let (nodes, mapped) = st;
          (index, nodes) = (case nd_kind node of
              KNone \<Rightarrow> (EMPTY, nodes)
            | KPrefix _ \<Rightarrow> (UNIVERSE, nodes)
            | KNot _ \<Rightarrow> (UNIVERSE, nodes)
            | KTerm text \<Rightarrow> plan_term nodes text
            | KPhrase terms \<Rightarrow>
                let (result, nodes) = fold (\<lambda>text st. plan_word st text) terms (UNIVERSE, nodes) in
                (if terms = [] then EMPTY else result, nodes)
            | KAnd left right \<Rightarrow> combine nodes (mapped ! left) (mapped ! right) True
            | KOr left right \<Rightarrow> combine nodes (mapped ! left) (mapped ! right) False)
      in (nodes, mapped @ [index]))"

definition plan_nodes :: "node list \<Rightarrow> plan_node list \<times> nat list" where
  "plan_nodes ns = fold (\<lambda>node st. plan_step st node) ns ([PEmpty, PUniverse], [])"

text \<open>The operands that the root reaches, and the number of terms among them.\<close>

definition mark_active :: "plan_node list \<Rightarrow> nat \<Rightarrow> bool list \<times> nat \<Rightarrow> bool list \<times> nat" where
  "mark_active nodes index st =
     (let (active, count) = st in
      if \<not> active ! index then st else
      case nodes ! index of
        PAnd left right \<Rightarrow> (active[left := True, right := True], count)
      | POr left right \<Rightarrow> (active[left := True, right := True], count)
      | PTerm _ _ \<Rightarrow> (active, count + 1)
      | PEmpty \<Rightarrow> st
      | PUniverse \<Rightarrow> st)"

definition plan_active :: "plan_node list \<Rightarrow> nat \<Rightarrow> bool list \<times> nat" where
  "plan_active nodes root =
     fold (mark_active nodes) (rev [0..<length nodes]) ((replicate (length nodes) False)[root := True], 0)"

definition assign_cursor :: "bool list \<Rightarrow> plan_node list \<times> nat \<Rightarrow> nat \<times> plan_node \<Rightarrow> plan_node list \<times> nat" where
  "assign_cursor active st item =
     (case snd item of
        PTerm text _ \<Rightarrow>
          if active ! fst item then (fst st @ [PTerm text (snd st)], snd st + 1) else (fst st @ [snd item], snd st)
      | _ \<Rightarrow> (fst st @ [snd item], snd st))"

definition assign_cursors :: "plan_node list \<Rightarrow> bool list \<Rightarrow> plan_node list \<times> nat" where
  "assign_cursors nodes active = fold (\<lambda>item st. assign_cursor active st item) (enumerate 0 nodes) ([], 0)"

definition is_term :: "plan_node \<Rightarrow> bool" where
  "is_term node = (case node of PTerm _ _ \<Rightarrow> True | _ \<Rightarrow> False)"

definition plan_direct :: "plan_node list \<Rightarrow> nat \<Rightarrow> bool" where
  "plan_direct nodes root =
     (case nodes ! root of
        PAnd left right \<Rightarrow> is_term (nodes ! left) \<and> is_term (nodes ! right)
      | POr left right \<Rightarrow> is_term (nodes ! left) \<and> is_term (nodes ! right)
      | _ \<Rightarrow> True)"

section \<open>Plans\<close>

record plan =
  pl_nodes :: "plan_node list"
  pl_cursors :: "query_cursor list"
  pl_root :: nat
  pl_scratch_bytes :: nat

definition plan_capacity :: "query \<Rightarrow> nat result" where
  "plan_capacity query =
     and_then (ok_or (Limit ''query nodes'') (checked_add (query_node_count query) 2)) (\<lambda>capacity.
     try_fold (\<lambda>capacity node.
       case nd_kind node of
         KPhrase terms \<Rightarrow>
           ok_or (Limit ''query nodes'') (Option.bind (checked_mul (length terms) 2) (\<lambda>extra. checked_add capacity extra))
       | _ \<Rightarrow> Inr capacity) capacity (q_nodes query))"

definition plan_build :: "env \<Rightarrow> query \<Rightarrow> nat \<Rightarrow> plan result" where
  "plan_build env query memory_bytes =
     and_then (plan_capacity query) (\<lambda>capacity.
     and_then (vector (env_alloc env) (env_size env ''Node'') capacity (budget_new memory_bytes)) (\<lambda>(_ :: plan_node vec, budget).
     and_then (vector (env_alloc env) (env_size env ''usize'') (query_node_count query) budget) (\<lambda>(mapped_vec :: nat vec, budget).
     let (nodes, mapped) = plan_nodes (q_nodes query); root = mapped ! q_root query in
     and_then (release (env_size env ''usize'') mapped_vec budget) (\<lambda>budget.
     and_then (vector (env_alloc env) 1 (length nodes) budget) (\<lambda>(active_vec :: bool vec, budget).
     let (active, count) = plan_active nodes root in
     and_then (vector (env_alloc env) (env_size env ''Cursor'') count budget) (\<lambda>(_ :: query_cursor vec, budget).
     let (nodes, used) = assign_cursors nodes active in
     and_then (release 1 active_vec budget) (\<lambda>budget.
     and_then (if plan_direct nodes root then Inr budget
       else and_then (vector (env_alloc env) (env_size env ''Task'') (length nodes) budget) (\<lambda>(_ :: nat vec, budget). Inr budget)) (\<lambda>budget.
     Inr \<lparr>pl_nodes = nodes, pl_cursors = replicate used query_cursor_empty, pl_root = root, pl_scratch_bytes = budget_remaining budget\<rparr>))))))))"

text \<open>\<open>recheck\<close> of \<open>scan_query_with_options\<close>: whether the plan only covers the query.\<close>

definition plan_recheck :: "query \<Rightarrow> bool" where
  "plan_recheck query \<longleftrightarrow>
     list_ex (\<lambda>node. case nd_kind node of KNone \<Rightarrow> False | KTerm _ \<Rightarrow> False | KAnd _ _ \<Rightarrow> False | KOr _ _ \<Rightarrow> False | _ \<Rightarrow> True) (q_nodes query)"

section \<open>What a plan admits\<close>

text \<open>Whether a node admits a document with the given words. Operands precede their node.\<close>

function admits :: "plan_node list \<Rightarrow> str set \<Rightarrow> nat \<Rightarrow> bool" where
  "admits nodes ws i =
     (if i < length nodes then
        case nodes ! i of
          PEmpty \<Rightarrow> False
        | PUniverse \<Rightarrow> True
        | PTerm text _ \<Rightarrow> text \<in> ws
        | PAnd l r \<Rightarrow> if l < i \<and> r < i then admits nodes ws l \<and> admits nodes ws r else False
        | POr l r \<Rightarrow> if l < i \<and> r < i then admits nodes ws l \<or> admits nodes ws r else False
      else False)"
  by pat_completeness auto
termination by (relation "measure (\<lambda>(nodes, ws, i). i)") auto

declare admits.simps [simp del]

fun operands :: "plan_node \<Rightarrow> nat list" where
  "operands (PAnd l r) = [l, r]"
| "operands (POr l r) = [l, r]"
| "operands _ = []"

definition plan_wf :: "plan_node list \<Rightarrow> bool" where
  "plan_wf nodes \<longleftrightarrow> 2 \<le> length nodes \<and> nodes ! EMPTY = PEmpty \<and> nodes ! UNIVERSE = PUniverse \<and>
     (\<forall>i < length nodes. \<forall>j \<in> set (operands (nodes ! i)). j < i)"

lemma admits_append: "i < length nodes \<Longrightarrow> admits (nodes @ ext) ws i = admits nodes ws i"
proof (induction i rule: less_induct)
  case (less i)
  show ?case
    unfolding admits.simps[of "nodes @ ext" ws i] admits.simps[of nodes ws i]
    using less by (auto simp: nth_append split: plan_node.split)
qed

lemma admits_same:
  assumes "plan_wf nodes" "i < length nodes" "j < length nodes" "nodes ! i = nodes ! j"
  shows "admits nodes ws i = admits nodes ws j"
  unfolding admits.simps[of nodes ws i] admits.simps[of nodes ws j]
  using assms by (auto simp: plan_wf_def split: plan_node.split)

lemma admits_special:
  assumes "plan_wf nodes"
  shows "\<not> admits nodes ws EMPTY" "admits nodes ws UNIVERSE" "EMPTY < length nodes" "UNIVERSE < length nodes"
  using assms admits.simps[of nodes ws EMPTY] admits.simps[of nodes ws UNIVERSE] by (auto simp: plan_wf_def EMPTY_def UNIVERSE_def)

lemma plan_wf_snoc:
  assumes "plan_wf nodes" "\<forall>j \<in> set (operands node). j < length nodes"
  shows "plan_wf (nodes @ [node])"
  using assms by (auto simp: plan_wf_def nth_append EMPTY_def UNIVERSE_def less_Suc_eq)

text \<open>A step that only appends nodes, with the index of its result and what that admits.\<close>

definition grows :: "plan_node list \<Rightarrow> nat \<times> plan_node list \<Rightarrow> (str set \<Rightarrow> bool) \<Rightarrow> bool" where
  "grows nodes r P \<longleftrightarrow> plan_wf (snd r) \<and> (\<exists>ext. snd r = nodes @ ext) \<and> fst r < length (snd r) \<and> (\<forall>ws. admits (snd r) ws (fst r) = P ws)"

lemma grows_same: "plan_wf nodes \<Longrightarrow> i < length nodes \<Longrightarrow> (\<And>ws. admits nodes ws i = P ws) \<Longrightarrow> grows nodes (i, nodes) P"
  by (simp add: grows_def)

lemma grows_term: "plan_wf nodes \<Longrightarrow> grows nodes (plan_term nodes text) (\<lambda>ws. text \<in> ws)"
  by (auto simp: grows_def plan_term_def admits.simps[of "nodes @ _" _ "length nodes"] intro: plan_wf_snoc)

lemma grows_combine:
  assumes w: "plan_wf nodes" and l: "left < length nodes" and r: "right < length nodes"
  shows "grows nodes (combine nodes left right both) (\<lambda>ws. if both then admits nodes ws left \<and> admits nodes ws right else admits nodes ws left \<or> admits nodes ws right)"
proof -
  note s = admits_special[OF w] and same = admits_same[OF w l r]
  have new: "grows nodes (length nodes, nodes @ [if both then PAnd left right else POr left right])
      (\<lambda>ws. if both then admits nodes ws left \<and> admits nodes ws right else admits nodes ws left \<or> admits nodes ws right)"
    using w l r by (auto simp: grows_def admits.simps[of "nodes @ _" _ "length nodes"] admits_append intro: plan_wf_snoc)
  show ?thesis
    using w l r s same new by (auto simp: combine_def Let_def intro!: grows_same)
qed

lemma grows_trans:
  assumes "grows nodes r P" "grows (snd r) r' Q"
  shows "grows nodes r' Q"
  using assms by (auto simp: grows_def)

lemma grows_words:
  assumes "plan_wf nodes" "i < length nodes"
  shows "grows nodes (fold (\<lambda>text st. plan_word st text) ts (i, nodes)) (\<lambda>ws. admits nodes ws i \<and> set ts \<subseteq> ws)"
  using assms
proof (induction ts arbitrary: i nodes)
  case Nil
  then show ?case by (auto intro: grows_same)
next
  case (Cons t ts)
  obtain k nodes1 where t: "plan_term nodes t = (k, nodes1)" by (cases "plan_term nodes t")
  have g: "grows nodes (k, nodes1) (\<lambda>ws. t \<in> ws)" using grows_term[OF Cons.prems(1), of t] t by simp
  then obtain ext where m: "nodes1 = nodes @ ext" "plan_wf nodes1" "k < length nodes1" "\<And>ws. admits nodes1 ws k \<longleftrightarrow> t \<in> ws" by (auto simp: grows_def)
  have i: "i < length nodes1" "\<And>ws. admits nodes1 ws i = admits nodes ws i" using m(1) Cons.prems(2) admits_append by auto
  obtain j nodes2 where c: "combine nodes1 i k True = (j, nodes2)" by (cases "combine nodes1 i k True")
  have g2: "grows nodes1 (j, nodes2) (\<lambda>ws. admits nodes ws i \<and> t \<in> ws)"
    using grows_combine[OF m(2) i(1) m(3), of True] c m(4) i(2) by (simp add: grows_def)
  then have "grows nodes2 (fold (\<lambda>text st. plan_word st text) ts (j, nodes2)) (\<lambda>ws. admits nodes2 ws j \<and> set ts \<subseteq> ws)"
    using Cons.IH by (simp add: grows_def)
  then have "grows nodes2 (fold (\<lambda>text st. plan_word st text) ts (j, nodes2)) (\<lambda>ws. admits nodes ws i \<and> set (t # ts) \<subseteq> ws)"
    using g2 by (simp add: grows_def)
  then have "grows nodes (fold (\<lambda>text st. plan_word st text) ts (j, nodes2)) (\<lambda>ws. admits nodes ws i \<and> set (t # ts) \<subseteq> ws)"
    using grows_trans[OF g] grows_trans[OF g2] by simp
  then show ?case using t c by (simp add: plan_word_def)
qed

section \<open>Plans of expressions\<close>

text \<open>The necessary condition that a plan tests.\<close>

fun necessary :: "str set \<Rightarrow> expr \<Rightarrow> bool" where
  "necessary ws ENone \<longleftrightarrow> False"
| "necessary ws (ETerm t) \<longleftrightarrow> t \<in> ws"
| "necessary ws (EPrefix p) \<longleftrightarrow> True"
| "necessary ws (EPhrase ts) \<longleftrightarrow> ts \<noteq> [] \<and> set ts \<subseteq> ws"
| "necessary ws (ENot e) \<longleftrightarrow> True"
| "necessary ws (EAnd l r) \<longleftrightarrow> necessary ws l \<and> necessary ws r"
| "necessary ws (EOr l r) \<longleftrightarrow> necessary ws l \<or> necessary ws r"

lemma plan_step_root:
  assumes w: "plan_wf nodes" and l: "length mapped = b + sum_list (map expr_size (parts e))"
    and p: "\<And>x y. parts e = [x, y] \<Longrightarrow> mapped ! (b + expr_size x - 1) < length nodes \<and> mapped ! (b + expr_size x + expr_size y - 1) < length nodes \<and>
      (\<forall>ws. admits nodes ws (mapped ! (b + expr_size x - 1)) = necessary ws x) \<and>
      (\<forall>ws. admits nodes ws (mapped ! (b + expr_size x + expr_size y - 1)) = necessary ws y)"
  shows "\<exists>k nodes'. plan_step (nodes, mapped) (root_node b e) = (nodes', mapped @ [k]) \<and> grows nodes (k, nodes') (\<lambda>ws. necessary ws e)"
proof (cases e)
  case (EPhrase ts)
  obtain k nodes' where f: "fold (\<lambda>text st. plan_word st text) ts (UNIVERSE, nodes) = (k, nodes')" by (cases "fold (\<lambda>text st. plan_word st text) ts (UNIVERSE, nodes)")
  have g: "grows nodes (k, nodes') (\<lambda>ws. set ts \<subseteq> ws)" using grows_words[OF w admits_special(4)[OF w], of ts] f admits_special(2)[OF w] by (simp add: grows_def)
  then show ?thesis using EPhrase f w admits_special[OF w]
    by (cases "ts = []") (auto simp: plan_step_def root_node_def grows_def)
next
  case (EAnd x y)
  then have q: "mapped ! (b + expr_size x - 1) < length nodes" "mapped ! (b + expr_size x + expr_size y - 1) < length nodes"
    "\<And>ws. admits nodes ws (mapped ! (b + expr_size x - 1)) = necessary ws x" "\<And>ws. admits nodes ws (mapped ! (b + expr_size x + expr_size y - 1)) = necessary ws y"
    using p[of x y] by auto
  show ?thesis using EAnd grows_combine[OF w q(1,2), of True] q(3,4)
    by (auto simp: plan_step_def root_node_def grows_def split: prod.splits)
next
  case (EOr x y)
  then have q: "mapped ! (b + expr_size x - 1) < length nodes" "mapped ! (b + expr_size x + expr_size y - 1) < length nodes"
    "\<And>ws. admits nodes ws (mapped ! (b + expr_size x - 1)) = necessary ws x" "\<And>ws. admits nodes ws (mapped ! (b + expr_size x + expr_size y - 1)) = necessary ws y"
    using p[of x y] by auto
  show ?thesis using EOr grows_combine[OF w q(1,2), of False] q(3,4)
    by (auto simp: plan_step_def root_node_def grows_def split: prod.splits)
next
  case (ETerm t)
  show ?thesis using ETerm grows_term[OF w, of t] by (auto simp: plan_step_def root_node_def split: prod.splits)
qed (use admits_special[OF w] w in \<open>auto simp: plan_step_def root_node_def intro!: grows_same\<close>)

lemma plan_step_two:
  assumes l: "\<And>b nodes mapped. plan_wf nodes \<Longrightarrow> length mapped = b \<Longrightarrow>
      \<exists>nodes' ms. fold (\<lambda>node st. plan_step st node) (flatten b l) (nodes, mapped) = (nodes', mapped @ ms) \<and> length ms = expr_size l \<and>
        grows nodes (last ms, nodes') (\<lambda>ws. necessary ws l)"
    and r: "\<And>b nodes mapped. plan_wf nodes \<Longrightarrow> length mapped = b \<Longrightarrow>
      \<exists>nodes' ms. fold (\<lambda>node st. plan_step st node) (flatten b r) (nodes, mapped) = (nodes', mapped @ ms) \<and> length ms = expr_size r \<and>
        grows nodes (last ms, nodes') (\<lambda>ws. necessary ws r)"
    and w: "plan_wf nodes" "length mapped = b" and p: "parts e = [l, r]"
  shows "\<exists>nodes' ms. fold (\<lambda>node st. plan_step st node) (flatten b e) (nodes, mapped) = (nodes', mapped @ ms) \<and> length ms = expr_size e \<and>
    grows nodes (last ms, nodes') (\<lambda>ws. necessary ws e)"
proof -
  obtain nodes1 ms where a: "fold (\<lambda>node st. plan_step st node) (flatten b l) (nodes, mapped) = (nodes1, mapped @ ms)" "length ms = expr_size l"
    "grows nodes (last ms, nodes1) (\<lambda>ws. necessary ws l)" using l[OF w] by blast
  have w1: "plan_wf nodes1" "length (mapped @ ms) = b + expr_size l" using a w(2) by (simp_all add: grows_def)
  obtain nodes2 ns where c: "fold (\<lambda>node st. plan_step st node) (flatten (b + expr_size l) r) (nodes1, mapped @ ms) = (nodes2, (mapped @ ms) @ ns)"
    "length ns = expr_size r" "grows nodes1 (last ns, nodes2) (\<lambda>ws. necessary ws r)" using r[OF w1] by blast
  have g2: "grows nodes (last ns, nodes2) (\<lambda>ws. necessary ws r)" using grows_trans[OF a(3)] c(3) by simp
  have ne: "ms \<noteq> []" "ns \<noteq> []" using a(2) c(2) expr_size_pos[of l] expr_size_pos[of r] by auto
  let ?m = "mapped @ ms @ ns"
  have i: "?m ! (b + expr_size l - 1) = last ms" "?m ! (b + expr_size l + expr_size r - 1) = last ns"
    using ne a(2)[symmetric] c(2)[symmetric] w(2) by (cases ms rule: rev_cases; cases ns rule: rev_cases; simp add: nth_append)+
  obtain ext where ext: "nodes2 = nodes1 @ ext" using c(3) by (auto simp: grows_def)
  have x: "last ms < length nodes1" "\<And>ws. admits nodes1 ws (last ms) = necessary ws l" using a(3) by (auto simp: grows_def)
  have "\<exists>k nodes3. plan_step (nodes2, ?m) (root_node b e) = (nodes3, ?m @ [k]) \<and> grows nodes2 (k, nodes3) (\<lambda>ws. necessary ws e)"
  proof (rule plan_step_root)
    show "plan_wf nodes2" using c(3) by (simp add: grows_def)
    show "length ?m = b + sum_list (map expr_size (parts e))" using p a(2) c(2) w(2) by simp
    show "?m ! (b + expr_size u - 1) < length nodes2 \<and> ?m ! (b + expr_size u + expr_size v - 1) < length nodes2 \<and>
        (\<forall>ws. admits nodes2 ws (?m ! (b + expr_size u - 1)) = necessary ws u) \<and>
        (\<forall>ws. admits nodes2 ws (?m ! (b + expr_size u + expr_size v - 1)) = necessary ws v)" if "parts e = [u, v]" for u v
      using that p i x ext admits_append[OF x(1), of ext] c(3) by (auto simp: grows_def)
  qed
  then obtain k nodes3 where s: "plan_step (nodes2, ?m) (root_node b e) = (nodes3, ?m @ [k])" "grows nodes2 (k, nodes3) (\<lambda>ws. necessary ws e)" by blast
  have "grows nodes (k, nodes3) (\<lambda>ws. necessary ws e)" using grows_trans[OF g2] s(2) by simp
  then show ?thesis using a c s p by (intro exI[of _ nodes3] exI[of _ "ms @ ns @ [k]"]) (simp add: flatten_parts[of b e] expr_size_parts[of e])
qed

lemma plan_step_leaf:
  assumes "plan_wf nodes" "length mapped = b" "parts e = []"
  shows "\<exists>nodes' ms. fold (\<lambda>node st. plan_step st node) (flatten b e) (nodes, mapped) = (nodes', mapped @ ms) \<and> length ms = expr_size e \<and>
    grows nodes (last ms, nodes') (\<lambda>ws. necessary ws e)"
proof -
  obtain k nodes' where "plan_step (nodes, mapped) (root_node b e) = (nodes', mapped @ [k])" "grows nodes (k, nodes') (\<lambda>ws. necessary ws e)"
    using plan_step_root[OF assms(1), of mapped b e] assms(2,3) by auto
  then show ?thesis using assms(3) by (intro exI[of _ nodes'] exI[of _ "[k]"]) (simp add: flatten_parts[of b e] expr_size_parts[of e])
qed

lemma plan_step_fold:
  assumes "plan_wf nodes" "length mapped = b"
  shows "\<exists>nodes' ms. fold (\<lambda>node st. plan_step st node) (flatten b e) (nodes, mapped) = (nodes', mapped @ ms) \<and> length ms = expr_size e \<and>
    grows nodes (last ms, nodes') (\<lambda>ws. necessary ws e)"
  using assms
proof (induction e arbitrary: b nodes mapped)
  case (ENot e)
  obtain nodes1 ms where a: "fold (\<lambda>node st. plan_step st node) (flatten b e) (nodes, mapped) = (nodes1, mapped @ ms)" "length ms = expr_size e"
    "grows nodes (last ms, nodes1) (\<lambda>ws. necessary ws e)" using ENot.IH[OF ENot.prems] by blast
  have "plan_wf nodes1" using a(3) by (simp add: grows_def)
  from plan_step_root[OF this, of "mapped @ ms" b "ENot e"] obtain k nodes2 where
    b: "plan_step (nodes1, mapped @ ms) (root_node b (ENot e)) = (nodes2, (mapped @ ms) @ [k])" "grows nodes1 (k, nodes2) (\<lambda>ws. necessary ws (ENot e))"
    using a(2) ENot.prems(2) by auto
  have "grows nodes (k, nodes2) (\<lambda>ws. necessary ws (ENot e))" using grows_trans[OF a(3)] b(2) by simp
  then show ?case using a b by (intro exI[of _ nodes2] exI[of _ "ms @ [k]"]) simp
next
  case (EAnd l r)
  then show ?case by (rule plan_step_two) simp_all
next
  case (EOr l r)
  then show ?case by (rule plan_step_two) simp_all
qed (rule plan_step_leaf; simp)+

section \<open>Cursors of a plan\<close>

fun same_shape :: "plan_node \<Rightarrow> plan_node \<Rightarrow> bool" where
  "same_shape (PTerm t _) (PTerm u _) \<longleftrightarrow> t = u"
| "same_shape a b \<longleftrightarrow> a = b"

lemma same_shape_refl [simp]: "same_shape a a"
  by (cases a) auto

lemma admits_shape:
  assumes "list_all2 same_shape nodes nodes'"
  shows "admits nodes ws i = admits nodes' ws i"
proof (induction i rule: less_induct)
  case (less i)
  have l: "length nodes' = length nodes" using assms by (simp add: list_all2_lengthD)
  show ?case
  proof (cases "i < length nodes")
    case True
    then have "same_shape (nodes ! i) (nodes' ! i)" by (rule list_all2_nthD[OF assms])
    then show ?thesis
      unfolding admits.simps[of nodes ws i] admits.simps[of nodes' ws i] using less l
      by (cases "nodes ! i"; cases "nodes' ! i") auto
  qed (simp add: admits.simps[of _ ws i] l)
qed

lemma assign_cursors_shape: "list_all2 same_shape nodes (fst (assign_cursors nodes active))"
proof -
  have s: "\<exists>node. fst (assign_cursor active st item) = fst st @ [node] \<and> same_shape (snd item) node" for st item
    by (auto simp: assign_cursor_def split: plan_node.split)
  have "\<exists>ns. fst (fold (\<lambda>item st. assign_cursor active st item) items st) = fst st @ ns \<and> list_all2 same_shape (map snd items) ns" for items st
  proof (induction items arbitrary: st)
    case (Cons item items)
    obtain node where n: "fst (assign_cursor active st item) = fst st @ [node]" "same_shape (snd item) node" using s by blast
    obtain ns where "fst (fold (\<lambda>item st. assign_cursor active st item) items (assign_cursor active st item)) = (fst st @ [node]) @ ns"
      "list_all2 same_shape (map snd items) ns" using Cons.IH[of "assign_cursor active st item"] n(1) by auto
    then show ?case using n(2) by (intro exI[of _ "node # ns"]) simp
  qed simp
  from this[of "enumerate 0 nodes" "([], 0)"] show ?thesis by (auto simp: assign_cursors_def)
qed

section \<open>Properties\<close>

lemma plan_build_nodes:
  assumes "plan_build env q memory = Inr pl"
  shows "pl_root pl = snd (plan_nodes (q_nodes q)) ! q_root q" "list_all2 same_shape (fst (plan_nodes (q_nodes q))) (pl_nodes pl)"
proof -
  obtain nodes mapped where n: "plan_nodes (q_nodes q) = (nodes, mapped)" by (cases "plan_nodes (q_nodes q)")
  obtain active count where a: "plan_active nodes (mapped ! q_root q) = (active, count)" by (cases "plan_active nodes (mapped ! q_root q)")
  obtain nodes' used where c: "assign_cursors nodes active = (nodes', used)" by (cases "assign_cursors nodes active")
  have "pl_root pl = mapped ! q_root q \<and> pl_nodes pl = nodes'"
    using assms unfolding plan_build_def n Let_def prod.case a c by (auto simp: res_simps)
  then show "pl_root pl = snd (plan_nodes (q_nodes q)) ! q_root q" "list_all2 same_shape (fst (plan_nodes (q_nodes q))) (pl_nodes pl)"
    using assign_cursors_shape[of nodes active] n c by simp_all
qed

lemma plan_wf_initial: "plan_wf [PEmpty, PUniverse]"
  by (auto simp: plan_wf_def EMPTY_def UNIVERSE_def less_Suc_eq)

lemma plan_build_admits:
  assumes "lays_out q e" "plan_build env q memory = Inr pl"
  shows "admits (pl_nodes pl) ws (pl_root pl) = necessary ws e"
proof -
  obtain nodes ms where f: "plan_nodes (flatten 0 e) = (nodes, ms)" "length ms = expr_size e" "grows [PEmpty, PUniverse] (last ms, nodes) (\<lambda>ws. necessary ws e)"
    using plan_step_fold[OF plan_wf_initial, of "[]" 0 e] by (auto simp: plan_nodes_def)
  have q: "q_nodes q = flatten 0 e" "q_root q = expr_size e - 1" using assms(1) by (auto simp: lays_out_def)
  have "ms \<noteq> []" using f(2) expr_size_pos[of e] by auto
  then have r: "pl_root pl = last ms" using plan_build_nodes(1)[OF assms(2)] f(1,2) q by (simp add: last_conv_nth)
  have "admits (pl_nodes pl) ws (last ms) = admits nodes ws (last ms)"
    using admits_shape plan_build_nodes(2)[OF assms(2)] f(1) q(1) by (metis fst_conv)
  then show ?thesis using f(3) r by (simp add: grows_def)
qed

text \<open>Expressions without phrase, prefix and negation.\<close>

fun positive :: "expr \<Rightarrow> bool" where
  "positive ENone \<longleftrightarrow> True"
| "positive (ETerm t) \<longleftrightarrow> True"
| "positive (EAnd l r) \<longleftrightarrow> positive l \<and> positive r"
| "positive (EOr l r) \<longleftrightarrow> positive l \<and> positive r"
| "positive _ \<longleftrightarrow> False"

lemma plan_recheck_positive: "lays_out q e \<Longrightarrow> plan_recheck q \<longleftrightarrow> \<not> positive e"
proof -
  have "list_ex (\<lambda>node. case nd_kind node of KNone \<Rightarrow> False | KTerm _ \<Rightarrow> False | KAnd _ _ \<Rightarrow> False | KOr _ _ \<Rightarrow> False | _ \<Rightarrow> True) (flatten b e) \<longleftrightarrow> \<not> positive e" for b
    by (induction e arbitrary: b) (auto simp: root_node_def)
  then show "lays_out q e \<Longrightarrow> plan_recheck q \<longleftrightarrow> \<not> positive e" by (simp add: plan_recheck_def lays_out_def)
qed

lemma necessary_positive: "positive e \<Longrightarrow> necessary (set ws) e \<longleftrightarrow> holds ws e"
  by (induction e) auto

lemma holds_necessary: "holds ws e \<Longrightarrow> phrases_ok e \<Longrightarrow> necessary (set ws) e"
proof (induction e)
  case (EPhrase ts)
  then obtain s where "take (length ts) (drop s ws) = ts" "ts \<noteq> []" by (auto simp: phrase_occurs_def)
  then show ?case by (metis in_set_dropD in_set_takeD necessary.simps(4) subsetI)
qed auto

text \<open>C6: the plan of the mutable index is a sound necessary condition and knows when it is exact: for a
  parsed query whose plan is built (the allocator grants what it is asked for, segmentation yields
  slices), every document of which the query holds is admitted by the root of the plan; a recheck
  is asked for exactly when the query has a phrase, a prefix or a negation; and when none is asked for,
  the root admits precisely the documents of which the query holds.\<close>

theorem plan_covers:
  assumes "query_parse env input limits = Inr q" "alloc_ok (env_alloc env)" "words_ok env" "plan_build env q memory = Inr pl"
  shows "\<exists>ts e. query_sentence env input ts e \<and> q_nodes q = flatten 0 e \<and>
    (\<forall>ws. holds ws e \<longrightarrow> admits (pl_nodes pl) (set ws) (pl_root pl)) \<and>
    (plan_recheck q \<longleftrightarrow> \<not> positive e) \<and>
    (\<not> plan_recheck q \<longrightarrow> (\<forall>ws. admits (pl_nodes pl) (set ws) (pl_root pl) \<longleftrightarrow> holds ws e))"
proof -
  obtain ts e b where s: "query_sentence env input ts e" "builds b [e]" "bl_limits b = limits"
    "q_nodes q = elems (bl_nodes b)" "q_root q = elems (bl_values b) ! 0"
    by (rule query_parse_builds[OF assms(1-3)])
  then have e: "lays_out q e" "phrases_ok e" using builds_single[OF s(2)] by (auto simp: lays_out_def expr_ok_def)
  note a = plan_build_admits[OF e(1) assms(4)]
  show ?thesis
    using s(1) e holds_necessary[OF _ e(2)] necessary_positive plan_recheck_positive[OF e(1)]
    by (intro exI[of _ ts] exI[of _ e]) (auto simp: a lays_out_def)
qed

theorem plan_covers_witness:
  "\<exists>q ts e pl. query_parse plain_env [0x61, 0x20, 0x4F, 0x52, 0x20, 0x62] query_limits_default = Inr q \<and>
     query_sentence plain_env [0x61, 0x20, 0x4F, 0x52, 0x20, 0x62] ts e \<and> plan_build plain_env q 1000 = Inr pl \<and>
     pl_nodes pl = [PEmpty, PUniverse, PTerm [0x61] 0, PTerm [0x62] 1, POr 2 3] \<and> \<not> plan_recheck q \<and> positive e \<and>
     (\<forall>ws. admits (pl_nodes pl) (set ws) (pl_root pl) \<longleftrightarrow> holds ws e)"
proof -
  let ?i = "[0x61, 0x20, 0x4F, 0x52, 0x20, 0x62] :: str"
  have "(case query_parse plain_env ?i query_limits_default of Inl _ \<Rightarrow> None | Inr q \<Rightarrow>
      (case plan_build plain_env q 1000 of Inl _ \<Rightarrow> None | Inr pl \<Rightarrow> Some (pl_nodes pl, plan_recheck q))) =
      Some ([PEmpty, PUniverse, PTerm [0x61] 0, PTerm [0x62] 1, POr 2 3], False)" by code_simp
  then obtain q pl where q: "query_parse plain_env ?i query_limits_default = Inr q" "plan_build plain_env q 1000 = Inr pl"
    "pl_nodes pl = [PEmpty, PUniverse, PTerm [0x61] 0, PTerm [0x62] 1, POr 2 3]" "\<not> plan_recheck q" by (auto split: sum.splits)
  from plan_covers[OF q(1) plain_env_ok(1,2) q(2)] q show ?thesis by blast
qed

end
