(* ===== verification/QueryCursors.thy ===== *)
theory QueryCursors
  imports QueryPlan Chains
begin

text \<open>
  Cursors of the mutable index (crates/pin-core/src/mutable/query.rs, middle part): the owners of one
  posting chain, the intersection and union of two of them, and the interpreter of nested plans. A chain
  yields ascending owners, which ends every cursor loop. The interpreter is a partial function whose
  value \<open>None\<close> is divergence; it is shown to return on every plan that \<open>Plan::build\<close> makes.
\<close>

section \<open>Order of owners\<close>

datatype ordering = Less | Equal | Greater

definition owner_compare :: "owner_ref \<Rightarrow> owner_ref \<Rightarrow> ordering result" where
  "owner_compare left right =
     (let order = (if or_page left < or_page right \<or> or_page left = or_page right \<and> or_slot left < or_slot right then Less
        else if or_page left = or_page right \<and> or_slot left = or_slot right then Equal else Greater) in
      if order = Equal \<and> or_incarnation left \<noteq> or_incarnation right then Inl InvalidState else Inr order)"

definition owner_rank :: "owner_ref \<Rightarrow> nat" where
  "owner_rank owner = unat (or_page owner) * 2 ^ 16 + unat (or_slot owner)"

lemma owner_compare_rank:
  "owner_compare a b = Inr order \<Longrightarrow>
    order = (if owner_rank a < owner_rank b then Less else if owner_rank a = owner_rank b then Equal else Greater)"
proof -
  have s: "unat (or_slot x) < 2 ^ 16" for x :: owner_ref using unat_lt2p[of "or_slot x"] by simp
  have m1: "p * 2 ^ 16 + i < q * 2 ^ 16 + j \<longleftrightarrow> p < q \<or> p = q \<and> i < j" if "i < 2 ^ 16" "j < 2 ^ 16" for p q i j :: nat
    using that by auto
  have m2: "p * 2 ^ 16 + i = q * 2 ^ 16 + j \<longleftrightarrow> p = q \<and> i = j" if "i < 2 ^ 16" "j < 2 ^ 16" for p q i j :: nat
    using m1[OF that, of p q] m1[OF that(2,1), of q p] by (metis linorder_neqE_nat nat_neq_iff)
  note r = m1[OF s s, of "unat (or_page a)" a "unat (or_page b)" b] m2[OF s s, of "unat (or_page a)" a "unat (or_page b)" b]
  show "owner_compare a b = Inr order \<Longrightarrow> ?thesis"
    using r by (auto simp: owner_compare_def owner_rank_def Let_def word_less_nat_alt word_unat_eq_iff split: if_splits)
qed

lemma owner_rank_bound: "owner_rank a < 2 ^ 48"
proof -
  have "unat (or_page a) \<le> 2 ^ 32 - 1" "unat (or_slot a) \<le> 2 ^ 16 - 1"
    using unat_lt2p[of "or_page a"] unat_lt2p[of "or_slot a"] by simp_all
  then have "owner_rank a \<le> (2 ^ 32 - 1) * 2 ^ 16 + (2 ^ 16 - 1)" unfolding owner_rank_def by (intro add_mono mult_right_mono) simp_all
  then show ?thesis by simp
qed

section \<open>Chains\<close>

definition chain_check :: "chain \<Rightarrow> owner_ref \<Rightarrow> unit result" where
  "chain_check self owner =
     and_then (owner_compare (ch_previous self) owner) (\<lambda>order.
     if order \<noteq> Less \<or> or_incarnation owner \<le> or_incarnation (ch_previous self) then Inl InvalidState else Inr ())"

definition chain_leave :: "chain \<Rightarrow> page \<Rightarrow> chain result" where
  "chain_leave self page =
     and_then (posting_next page (ch_tail self) (ch_remaining self)) (\<lambda>(nxt, remaining).
     Inr (self\<lparr>ch_block := (case nxt of Some nxt \<Rightarrow> nxt | None \<Rightarrow> NO_BLOCK), ch_remaining := remaining, ch_page := None\<rparr>))"

definition skip_direct_before :: "chain \<Rightarrow> owner_ref \<Rightarrow> bool \<Rightarrow> chain result" where
  "skip_direct_before self target exclusive =
     (case ch_page self of
        None \<Rightarrow> Inr self
      | Some page \<Rightarrow>
          if pg_kind (op_page page) \<noteq> DirectPostings then Inr self else
          and_then (page_direct_endpoints (op_page page)) (\<lambda>(_, lst).
          and_then (owner_compare lst target) (\<lambda>order.
          if order = Greater \<or> order = Equal \<and> \<not> exclusive then Inr self else
          and_then (owner_compare (ch_previous self) lst) (\<lambda>order.
          if order = Greater \<or> or_incarnation (ch_previous self) > or_incarnation lst then Inl InvalidState else
          chain_leave (self\<lparr>ch_previous := lst\<rparr>) (op_page page)))))"

text \<open>The open page of a chain: its next owner, or the page is left.\<close>

definition chain_page_next :: "chain \<Rightarrow> (owner_ref option \<times> chain) result" where
  "chain_page_next self =
     (case ch_page self of
        None \<Rightarrow> Inr (None, self)
      | Some page \<Rightarrow>
          (case owned_postings_next page of
             (Some owner, page) \<Rightarrow>
               and_then owner (\<lambda>owner.
               and_then (chain_check self owner) (\<lambda>_. Inr (Some owner, self\<lparr>ch_previous := owner, ch_page := Some page\<rparr>)))
           | (None, page) \<Rightarrow> and_then (chain_leave self (op_page page)) (\<lambda>self. Inr (None, self))))"

lemma chain_page_next_None:
  "chain_page_next self = Inr (None, self') \<Longrightarrow> ch_previous self' = ch_previous self \<and> ch_page self' = None \<and>
    (self' = self \<or> unat (ch_remaining self') < unat (ch_remaining self))"
  by (auto simp: chain_page_next_def chain_leave_def res_simps dest!: posting_next_remaining split: option.splits prod.splits)

function chain_advance_loop :: "'s page_store \<Rightarrow> chain \<Rightarrow> 's \<Rightarrow> (owner_ref option \<times> chain) result \<times> 's" where
  "chain_advance_loop store self s =
     io_bind (io_lift (chain_page_next self)) (\<lambda>r.
     \<lambda>s. if fst r \<noteq> None \<or> ch_block (snd r) = NO_BLOCK then io_return r s else
     io_bind (load_posting store (ch_block (snd r)) (ch_reference (snd r))) (\<lambda>page.
     io_bind (io_lift (owned_postings_new page)) (\<lambda>page.
     chain_advance_loop store ((snd r)\<lparr>ch_page := Some page\<rparr>))) s) s"
  by pat_completeness auto
termination
proof (relation "measure (\<lambda>(store, self, s). 2 * unat (ch_remaining self) + (if ch_page self = None then 1 else 0))", simp)
  fix store :: "'s page_store" and self :: chain and s s1 s2 s3 :: 's and r :: "owner_ref option \<times> chain" and page page'
  assume "io_lift (chain_page_next self) s = (Inr r, s1)" "\<not> (fst r \<noteq> None \<or> ch_block (snd r) = NO_BLOCK)"
  then have "chain_page_next self = Inr (None, snd r)" by (cases r) simp
  from chain_page_next_None[OF this] show "((store, (snd r)\<lparr>ch_page := Some page'\<rparr>, s3), store, self, s)
      \<in> measure (\<lambda>(store, self, s). 2 * unat (ch_remaining self) + (if ch_page self = None then 1 else 0))"
    by auto
qed

declare chain_advance_loop.simps [simp del]

definition chain_advance :: "'s page_store \<Rightarrow> chain \<Rightarrow> ('s, owner_ref option \<times> chain) io" where
  "chain_advance store self =
     (case ch_inline_second self of
        Some second \<Rightarrow>
          io_bind (io_lift (chain_check self second)) (\<lambda>_.
          io_return (Some second, self\<lparr>ch_inline_second := None, ch_previous := second\<rparr>))
      | None \<Rightarrow> chain_advance_loop store self)"

lemma chain_check_rank: "chain_check self owner = Inr u \<Longrightarrow> owner_rank (ch_previous self) < owner_rank owner"
  by (auto simp: chain_check_def res_simps dest!: owner_compare_rank split: if_splits)

lemma chain_page_next_Some:
  "chain_page_next self = Inr (Some owner, self') \<Longrightarrow> owner_rank (ch_previous self) < owner_rank (ch_previous self')"
  by (auto simp: chain_page_next_def res_simps dest!: chain_check_rank split: option.splits prod.splits)

lemma chain_advance_loop_rank:
  "chain_advance_loop store self s = (Inr (Some owner, self'), s') \<Longrightarrow> owner_rank (ch_previous self) < owner_rank (ch_previous self')"
proof (induction store self s rule: chain_advance_loop.induct)
  case (1 store self s)
  from 1(2) obtain r where r: "chain_page_next self = Inr r"
    by (subst (asm) chain_advance_loop.simps) (auto simp: io_bind_Inr)
  show ?case
  proof (cases "fst r \<noteq> None \<or> ch_block (snd r) = NO_BLOCK")
    case True
    then have "r = (Some owner, self')" using 1(2) r by (subst (asm) chain_advance_loop.simps) (auto simp: io_bind_Inr)
    then show ?thesis using r chain_page_next_Some by simp
  next
    case False
    then obtain page page' s1 where n: "load_posting store (ch_block (snd r)) (ch_reference (snd r)) s = (Inr page, s1)"
      "owned_postings_new page = Inr page'" "chain_advance_loop store ((snd r)\<lparr>ch_page := Some page'\<rparr>) s1 = (Inr (Some owner, self'), s')"
      using 1(2) r by (subst (asm) chain_advance_loop.simps) (auto simp: io_bind_Inr)
    have "ch_previous (snd r) = ch_previous self" using chain_page_next_None[of self "snd r"] r False by (cases r) simp
    then show ?thesis using 1(1)[of r s page s1 page' s1] r False n by simp
  qed
qed

lemma chain_advance_rank:
  "chain_advance store self s = (Inr (Some owner, self'), s') \<Longrightarrow> owner_rank (ch_previous self) < owner_rank (ch_previous self')"
  by (auto simp: chain_advance_def io_bind_Inr dest: chain_advance_loop_rank chain_check_rank split: option.splits)

lemma skip_direct_rank:
  "skip_direct_before self target exclusive = Inr self' \<Longrightarrow> owner_rank (ch_previous self) \<le> owner_rank (ch_previous self')"
  by (auto simp: skip_direct_before_def chain_leave_def res_simps dest!: owner_compare_rank split: option.splits if_splits)

section \<open>Cursors\<close>

definition cursor_done :: "query_cursor \<Rightarrow> owner_ref option \<Rightarrow> bool \<Rightarrow> bool result" where
  "cursor_done self target exclusive =
     (case (qc_current self, target) of
        (Some current, Some target) \<Rightarrow>
          and_then (owner_compare current target) (\<lambda>order. Inr (order = Greater \<or> order = Equal \<and> \<not> exclusive))
      | _ \<Rightarrow> Inr True)"

function query_cursor_seek ::
  "'s page_store \<Rightarrow> owner_ref option \<Rightarrow> bool \<Rightarrow> query_cursor \<Rightarrow> 's \<Rightarrow> (owner_ref option \<times> query_cursor) result \<times> 's" where
  "query_cursor_seek store target exclusive self s =
     io_bind (io_lift (cursor_done self target exclusive)) (\<lambda>found.
     \<lambda>s. if found then io_return (qc_current self, self) s else
     io_bind (io_lift (ok_or InvalidState (qc_chain self))) (\<lambda>chain.
     io_bind (io_lift (skip_direct_before chain (the target) exclusive)) (\<lambda>chain.
     io_bind (chain_advance store chain) (\<lambda>r.
     query_cursor_seek store target exclusive (self\<lparr>qc_current := fst r, qc_chain := Some (snd r)\<rparr>)))) s) s"
  by pat_completeness auto
termination
proof (relation "measure (\<lambda>(store, target, exclusive, self, s).
    if qc_current self = None then 0 else 1 + (2 ^ 48 - owner_rank (ch_previous (the (qc_chain self)))))", simp)
  fix store :: "'s page_store" and target exclusive self and s s1 s2 s3 s4 :: 's and found chain chain' and r :: "owner_ref option \<times> chain"
  assume a: "io_lift (cursor_done self target exclusive) s = (Inr found, s1)" "\<not> found"
    "io_lift (ok_or InvalidState (qc_chain self)) s1 = (Inr chain, s2)" "io_lift (skip_direct_before chain (the target) exclusive) s2 = (Inr chain', s3)"
    "chain_advance store chain' s3 = (Inr r, s4)"
  have c: "qc_current self \<noteq> None" "qc_chain self = Some chain" using a(1-3) by (auto simp: cursor_done_def res_simps split: option.splits)
  have "owner_rank (ch_previous chain) < owner_rank (ch_previous (snd r))" if "fst r \<noteq> None"
    using skip_direct_rank[of chain "the target" exclusive chain'] chain_advance_rank[of store chain' s3 "the (fst r)" "snd r" s4] a(4,5) that by (cases r) auto
  then show "((store, target, exclusive, self\<lparr>qc_current := fst r, qc_chain := Some (snd r)\<rparr>, s4), store, target, exclusive, self, s)
      \<in> measure (\<lambda>(store, target, exclusive, self, s).
        if qc_current self = None then 0 else 1 + (2 ^ 48 - owner_rank (ch_previous (the (qc_chain self)))))"
    using c owner_rank_bound[of "ch_previous (snd r)"] by auto
qed

declare query_cursor_seek.simps [simp del]

lemma cursor_done_rank:
  "cursor_done self (Some t) exclusive = Inr True \<Longrightarrow> qc_current self = Some c \<Longrightarrow> owner_rank t \<le> owner_rank c"
  by (auto simp: cursor_done_def res_simps dest!: owner_compare_rank split: if_splits)

lemma query_cursor_seek_result:
  "query_cursor_seek store target exclusive self s = (Inr (v, self'), s') \<Longrightarrow>
    v = qc_current self' \<and> (\<forall>t c. target = Some t \<longrightarrow> v = Some c \<longrightarrow> owner_rank t \<le> owner_rank c)"
proof (induction store target exclusive self s rule: query_cursor_seek.induct)
  case (1 store target exclusive self s)
  from 1(2) obtain found where f: "cursor_done self target exclusive = Inr found"
    by (subst (asm) query_cursor_seek.simps) (auto simp: io_bind_Inr)
  show ?case
  proof (cases found)
    case True
    then have "v = qc_current self \<and> self' = self" using 1(2) f by (subst (asm) query_cursor_seek.simps) (auto simp: io_bind_Inr)
    then show ?thesis using f True cursor_done_rank by auto
  next
    case False
    then obtain chain chain' r s1 where n: "qc_chain self = Some chain" "skip_direct_before chain (the target) exclusive = Inr chain'"
      "chain_advance store chain' s = (Inr r, s1)"
      "query_cursor_seek store target exclusive (self\<lparr>qc_current := fst r, qc_chain := Some (snd r)\<rparr>) s1 = (Inr (v, self'), s')"
      using 1(2) f by (subst (asm) query_cursor_seek.simps) (auto simp: io_bind_Inr res_simps)
    then show ?thesis using 1(1)[of found s chain s chain' s r s1] f False by simp
  qed
qed

section \<open>Two terms\<close>

definition cursor_weight :: "query_cursor \<Rightarrow> nat" where
  "cursor_weight c = (case qc_current c of None \<Rightarrow> 0 | Some owner \<Rightarrow> 1 + (2 ^ 48 - owner_rank owner))"

lemma cursor_weight_seek:
  assumes "query_cursor_seek store (Some t) exclusive c s = (Inr r, s')" "qc_current c = Some x" "owner_rank x < owner_rank t"
  shows "cursor_weight (snd r) < cursor_weight c"
proof -
  obtain v c' where r: "r = (v, c')" by (cases r)
  note q = query_cursor_seek_result[OF assms(1)[unfolded r]]
  show ?thesis
  proof (cases v)
    case None
    then show ?thesis using q r assms(2) by (simp add: cursor_weight_def)
  next
    case (Some y)
    then have "owner_rank t \<le> owner_rank y" using q by blast
    moreover have "qc_current c' = Some y" using q Some by simp
    ultimately show ?thesis using r assms(2,3) owner_rank_bound[of y] by (simp add: cursor_weight_def)
  qed
qed

text \<open>One step: the cursor that is behind seeks the owner of the other.\<close>

definition pair_step :: "'s page_store \<Rightarrow> query_cursor \<times> query_cursor \<Rightarrow> owner_ref \<Rightarrow> owner_ref \<Rightarrow> ordering \<Rightarrow> ('s, query_cursor \<times> query_cursor) io" where
  "pair_step store pair left right order =
     (if order = Less then io_bind (query_cursor_seek store (Some right) False (fst pair)) (\<lambda>r. io_return (snd r, snd pair))
      else io_bind (query_cursor_seek store (Some left) False (snd pair)) (\<lambda>r. io_return (fst pair, snd r)))"

lemma pair_step_weight:
  assumes "pair_step store pair left right order s = (Inr pair', s')" "qc_current (fst pair) = Some left" "qc_current (snd pair) = Some right"
    "owner_compare left right = Inr order" "order \<noteq> Equal"
  shows "cursor_weight (fst pair') + cursor_weight (snd pair') < cursor_weight (fst pair) + cursor_weight (snd pair)"
  using assms owner_compare_rank[OF assms(4)]
  by (auto simp: pair_step_def io_bind_Inr dest: cursor_weight_seek split: if_splits)

function pair_and_loop :: "'s page_store \<Rightarrow> u8 \<Rightarrow> query_cursor \<times> query_cursor \<Rightarrow> 's \<Rightarrow> (owner_ref option \<times> query_cursor \<times> query_cursor) result \<times> 's" where
  "pair_and_loop store work pair s =
     (case (qc_current (fst pair), qc_current (snd pair)) of
        (Some left, Some right) \<Rightarrow>
          io_bind (io_lift (owner_compare left right)) (\<lambda>order.
          \<lambda>s. if order = Equal then io_return (Some left, pair) s else
          io_bind (pair_step store pair left right order) (\<lambda>pair.
          io_bind (if work + 1 = 0 then ps_interrupt store else io_return ()) (\<lambda>_.
          pair_and_loop store (work + 1) pair)) s) s
      | _ \<Rightarrow> io_return (None, pair) s)"
  by pat_completeness auto
termination
proof (relation "measure (\<lambda>(store, work, pair, s). cursor_weight (fst pair) + cursor_weight (snd pair))", goal_cases)
  case 2
  then show ?case using pair_step_weight by fastforce
qed simp

declare pair_and_loop.simps [simp del]

definition cursor_pair :: "query_cursor list \<Rightarrow> nat \<Rightarrow> nat \<Rightarrow> (query_cursor \<times> query_cursor) result" where
  "cursor_pair cursors left right =
     (if left = right \<or> left \<ge> length cursors \<or> right \<ge> length cursors then Inl InvalidState
      else Inr (cursors ! left, cursors ! right))"

definition seek_pair_and ::
  "'s page_store \<Rightarrow> query_cursor list \<Rightarrow> nat \<Rightarrow> nat \<Rightarrow> owner_ref option \<Rightarrow> ('s, owner_ref option \<times> query_cursor list) io" where
  "seek_pair_and store cursors left right target =
     io_bind (io_lift (cursor_pair cursors left right)) (\<lambda>(l, r).
     io_bind (query_cursor_seek store target True l) (\<lambda>(_, l).
     io_bind (query_cursor_seek store target True r) (\<lambda>(_, r).
     io_bind (pair_and_loop store 0 (l, r)) (\<lambda>(v, l, r).
     io_return (v, cursors[left := l, right := r])))))"

text \<open>The smaller of two owners that may be absent.\<close>

definition union_value :: "owner_ref option \<Rightarrow> owner_ref option \<Rightarrow> owner_ref option result" where
  "union_value left right =
     (case (left, right) of
        (Some l, Some r) \<Rightarrow> and_then (owner_compare l r) (\<lambda>order. Inr (Some (if order = Greater then r else l)))
      | (None, _) \<Rightarrow> Inr right
      | _ \<Rightarrow> Inr left)"

definition seek_pair_or ::
  "'s page_store \<Rightarrow> query_cursor list \<Rightarrow> nat \<Rightarrow> nat \<Rightarrow> owner_ref option \<Rightarrow> ('s, owner_ref option \<times> query_cursor list) io" where
  "seek_pair_or store cursors left right target =
     io_bind (io_lift (cursor_pair cursors left right)) (\<lambda>(l, r).
     io_bind (query_cursor_seek store target True l) (\<lambda>(lv, l).
     io_bind (query_cursor_seek store target True r) (\<lambda>(rv, r).
     io_bind (io_lift (union_value lv rv)) (\<lambda>v.
     io_return (v, cursors[left := l, right := r])))))"

section \<open>Opening a plan\<close>

text \<open>Every cursor of one term starts at its first owner.\<close>

definition open_cursor ::
  "str \<Rightarrow> dict_term \<Rightarrow> term_ref \<Rightarrow> u32 \<Rightarrow> plan_node \<Rightarrow> query_cursor list \<Rightarrow> query_cursor list" where
  "open_cursor text entry reference remaining node cursors =
     (case node of
        PTerm duplicate cursor \<Rightarrow>
          if cursor \<noteq> UNUSED \<and> duplicate = text then
            cursors[cursor := \<lparr>qc_current = Some (te_first entry), qc_chain = Some
              \<lparr>ch_reference = reference, ch_block = (if te_inline_second entry \<noteq> None then NO_BLOCK else te_head entry),
               ch_tail = te_tail entry, ch_remaining = remaining, ch_previous = te_first entry,
               ch_inline_second = te_inline_second entry, ch_page = None\<rparr>\<rparr>]
          else cursors
      | _ \<Rightarrow> cursors)"

definition opened_before :: "plan_node list \<Rightarrow> nat \<Rightarrow> str \<Rightarrow> bool" where
  "opened_before nodes index text =
     list_ex (\<lambda>node. case node of PTerm previous cursor \<Rightarrow> cursor \<noteq> UNUSED \<and> previous = text | _ \<Rightarrow> False) (take index nodes)"

definition open_node :: "'s page_store \<Rightarrow> page \<Rightarrow> plan \<Rightarrow> nat \<Rightarrow> ('s, plan) io" where
  "open_node store meta self index =
     (case pl_nodes self ! index of
        PTerm text cursor \<Rightarrow>
          if cursor = UNUSED \<or> opened_before (pl_nodes self) index text then io_return self else
          io_bind (ps_interrupt store) (\<lambda>_.
          io_bind (find_term store meta text) (\<lambda>found.
          case found of
            None \<Rightarrow> io_return self
          | Some (dictionary, reference) \<Rightarrow>
              io_bind (io_lift (page_term dictionary reference)) (\<lambda>entry.
              io_bind (ps_blocks store) (\<lambda>remaining.
              io_return (self\<lparr>pl_cursors := fold (open_cursor text entry reference remaining) (drop index (pl_nodes self)) (pl_cursors self)\<rparr>)))))
      | _ \<Rightarrow> io_return self)"

definition plan_open :: "'s page_store \<Rightarrow> plan \<Rightarrow> ('s, plan) io" where
  "plan_open store self =
     io_bind (load store 0 Meta) (\<lambda>meta. io_fold (open_node store meta) self [0..<length (pl_nodes self)])"

section \<open>The interpreter\<close>

datatype task =
    TSeek nat "owner_ref option" bool
  | TAndLeft nat nat
  | TAndRight nat owner_ref
  | TOrLeft nat "owner_ref option" bool
  | TOrRight "owner_ref option"

record seek_state =
  sk_cursors :: "query_cursor list"
  sk_tasks :: "task list"
  sk_value :: "owner_ref option"

text \<open>One task, already taken from the stack; the head of \<open>sk_tasks\<close> is the top.\<close>

definition seek_node :: "'s page_store \<Rightarrow> plan_node list \<Rightarrow> nat \<Rightarrow> owner_ref option \<Rightarrow> bool \<Rightarrow> seek_state \<Rightarrow> ('s, seek_state) io" where
  "seek_node store nodes node target exclusive st =
     (case nodes ! node of
        PTerm _ cursor \<Rightarrow>
          io_bind (query_cursor_seek store target exclusive (sk_cursors st ! cursor)) (\<lambda>(v, c).
          io_return (st\<lparr>sk_value := v, sk_cursors := (sk_cursors st)[cursor := c]\<rparr>))
      | PAnd left right \<Rightarrow> io_return (st\<lparr>sk_tasks := TSeek left target exclusive # TAndLeft node right # sk_tasks st\<rparr>)
      | POr left right \<Rightarrow> io_return (st\<lparr>sk_tasks := TSeek left target exclusive # TOrLeft right target exclusive # sk_tasks st\<rparr>)
      | PEmpty \<Rightarrow> io_return (st\<lparr>sk_value := None\<rparr>)
      | PUniverse \<Rightarrow> io_fail InvalidState)"

definition seek_task :: "'s page_store \<Rightarrow> plan_node list \<Rightarrow> task \<Rightarrow> seek_state \<Rightarrow> ('s, seek_state) io" where
  "seek_task store nodes task st =
     (case task of
        TSeek node target exclusive \<Rightarrow> seek_node store nodes node target exclusive st
      | TAndLeft node right \<Rightarrow>
          (case sk_value st of
             Some left \<Rightarrow> io_return (st\<lparr>sk_tasks := TSeek right (Some left) False # TAndRight node left # sk_tasks st\<rparr>)
           | None \<Rightarrow> io_return st)
      | TAndRight node left \<Rightarrow>
          (case sk_value st of
             Some right \<Rightarrow>
               io_bind (io_lift (owner_compare left right)) (\<lambda>order.
               case order of
                 Equal \<Rightarrow> io_return (st\<lparr>sk_value := Some left\<rparr>)
               | Less \<Rightarrow> io_return (st\<lparr>sk_tasks := TSeek node (Some right) False # sk_tasks st\<rparr>)
               | Greater \<Rightarrow> io_fail InvalidState)
           | None \<Rightarrow> io_return st)
      | TOrLeft right target exclusive \<Rightarrow>
          io_return (st\<lparr>sk_tasks := TSeek right target exclusive # TOrRight (sk_value st) # sk_tasks st\<rparr>)
      | TOrRight left \<Rightarrow>
          io_bind (io_lift (union_value left (sk_value st))) (\<lambda>v. io_return (st\<lparr>sk_value := v\<rparr>)))"

definition seek_round :: "'s page_store \<Rightarrow> plan_node list \<Rightarrow> u8 \<Rightarrow> task \<Rightarrow> seek_state \<Rightarrow> ('s, seek_state) io" where
  "seek_round store nodes work task st =
     io_bind (if work = 0 then ps_interrupt store else io_return ()) (\<lambda>_. seek_task store nodes task st)"

partial_function (option) seek_tasks ::
  "'s page_store \<Rightarrow> plan_node list \<Rightarrow> u8 \<Rightarrow> seek_state \<Rightarrow> 's \<Rightarrow> (seek_state result \<times> 's) option" where
  "seek_tasks store nodes work st s =
     (case sk_tasks st of
        [] \<Rightarrow> Some (Inr st, s)
      | task # tasks \<Rightarrow>
          (case seek_round store nodes (work + 1) task (st\<lparr>sk_tasks := tasks\<rparr>) s of
             (Inl e, s) \<Rightarrow> Some (Inl e, s)
           | (Inr st, s) \<Rightarrow> seek_tasks store nodes (work + 1) st s))"

declare seek_tasks.simps [code]

definition plan_interpret :: "'s page_store \<Rightarrow> plan \<Rightarrow> owner_ref option \<Rightarrow> 's \<Rightarrow> ((owner_ref option \<times> plan) result \<times> 's) option" where
  "plan_interpret store self target s =
     map_option (\<lambda>(r, s). (and_then r (\<lambda>st. Inr (sk_value st, self\<lparr>pl_cursors := sk_cursors st\<rparr>)), s))
       (seek_tasks store (pl_nodes self) 0
          \<lparr>sk_cursors = pl_cursors self, sk_tasks = [TSeek (pl_root self) target True], sk_value = None\<rparr> s)"

definition plan_pair ::
  "('s, owner_ref option \<times> query_cursor list) io \<Rightarrow> plan \<Rightarrow> ('s, owner_ref option \<times> plan) io" where
  "plan_pair m self = io_bind m (\<lambda>(v, cursors). io_return (v, self\<lparr>pl_cursors := cursors\<rparr>))"

definition plan_seek :: "'s page_store \<Rightarrow> plan \<Rightarrow> owner_ref option \<Rightarrow> 's \<Rightarrow> ((owner_ref option \<times> plan) result \<times> 's) option" where
  "plan_seek store self target s =
     (let nodes = pl_nodes self; cursors = pl_cursors self in
      case nodes ! pl_root self of
        PTerm _ cursor \<Rightarrow>
          Some (plan_pair (io_bind (query_cursor_seek store target True (cursors ! cursor)) (\<lambda>(v, c).
            io_return (v, cursors[cursor := c]))) self s)
      | PAnd left right \<Rightarrow>
          (case (nodes ! left, nodes ! right) of
             (PTerm _ l, PTerm _ r) \<Rightarrow> Some (plan_pair (seek_pair_and store cursors l r target) self s)
           | _ \<Rightarrow> plan_interpret store self target s)
      | POr left right \<Rightarrow>
          (case (nodes ! left, nodes ! right) of
             (PTerm _ l, PTerm _ r) \<Rightarrow> Some (plan_pair (seek_pair_or store cursors l r target) self s)
           | _ \<Rightarrow> plan_interpret store self target s)
      | PEmpty \<Rightarrow> Some (Inl InvalidState, s)
      | PUniverse \<Rightarrow> Some (Inl InvalidState, s))"

section \<open>The interpreter returns\<close>

text \<open>
  Tasks are carried out when the interpreter either stops with an error or comes to the tasks below
  them, with a value that is not before the target.
\<close>

definition reaches :: "owner_ref option \<Rightarrow> owner_ref option \<Rightarrow> bool" where
  "reaches target v \<longleftrightarrow> (\<forall>t c. target = Some t \<longrightarrow> v = Some c \<longrightarrow> owner_rank t \<le> owner_rank c)"

definition carried ::
  "'s page_store \<Rightarrow> plan_node list \<Rightarrow> owner_ref option \<Rightarrow> task list \<Rightarrow> task list \<Rightarrow> u8 \<Rightarrow> seek_state \<Rightarrow> 's \<Rightarrow> bool" where
  "carried store nodes target tasks rest work st s \<longleftrightarrow>
     (\<exists>e s'. seek_tasks store nodes work (st\<lparr>sk_tasks := tasks @ rest\<rparr>) s = Some (Inl e, s')) \<or>
     (\<exists>work' st' s'. seek_tasks store nodes work (st\<lparr>sk_tasks := tasks @ rest\<rparr>) s =
        seek_tasks store nodes work' (st'\<lparr>sk_tasks := rest\<rparr>) s' \<and> reaches target (sk_value st'))"

lemma reaches_simps [simp]: "reaches None v" "reaches target None" "reaches (Some t) (Some c) \<longleftrightarrow> owner_rank t \<le> owner_rank c"
  by (auto simp: reaches_def)

lemma carried_Nil: "reaches target (sk_value st) \<Longrightarrow> carried store nodes target [] rest work st s"
  unfolding carried_def by (metis append_Nil)

lemma carried_weaken:
  "carried store nodes target tasks rest work st s \<Longrightarrow> (\<And>v. reaches target v \<Longrightarrow> reaches target' v) \<Longrightarrow>
    carried store nodes target' tasks rest work st s"
  unfolding carried_def by blast

lemma carried_Cons:
  assumes "\<And>rest work st s. carried store nodes target [task] rest work st s"
    and "\<And>work st s. reaches target (sk_value st) \<Longrightarrow> carried store nodes target' tasks rest work st s"
  shows "carried store nodes target' (task # tasks) rest work st s"
  using assms(1)[of "tasks @ rest" work st s] assms(2) unfolding carried_def by (metis append_Cons append_Nil)

lemma seek_tasks_Cons:
  "seek_tasks store nodes work (st\<lparr>sk_tasks := task # tasks\<rparr>) s =
     (case seek_round store nodes (work + 1) task (st\<lparr>sk_tasks := tasks\<rparr>) s of
        (Inl e, s) \<Rightarrow> Some (Inl e, s)
      | (Inr st, s) \<Rightarrow> seek_tasks store nodes (work + 1) st s)"
  by (subst seek_tasks.simps) simp

text \<open>One round of the interpreter.\<close>

lemma carried_step:
  assumes "\<And>s1 st' s'. seek_task store nodes task (st\<lparr>sk_tasks := rest\<rparr>) s1 = (Inr st', s') \<Longrightarrow>
    \<exists>tasks st2. st' = st2\<lparr>sk_tasks := tasks @ rest\<rparr> \<and> carried store nodes target tasks rest (work + 1) st2 s'"
  shows "carried store nodes target [task] rest work st s"
proof (cases "seek_round store nodes (work + 1) task (st\<lparr>sk_tasks := rest\<rparr>) s")
  case (Pair r s')
  show ?thesis
  proof (cases r)
    case (Inl e)
    then show ?thesis using Pair by (auto simp: carried_def seek_tasks_Cons)
  next
    case (Inr st')
    then obtain s1 where "seek_task store nodes task (st\<lparr>sk_tasks := rest\<rparr>) s1 = (Inr st', s')"
      using Pair by (auto simp: seek_round_def io_bind_Inr)
    from assms[OF this] show ?thesis using Pair Inr by (auto simp: carried_def seek_tasks_Cons)
  qed
qed

text \<open>A node is carried out for every target and every limit of the stack.\<close>

definition carries :: "'s page_store \<Rightarrow> plan_node list \<Rightarrow> nat \<Rightarrow> bool" where
  "carries store nodes node \<longleftrightarrow>
     (\<forall>target exclusive rest work st s. carried store nodes target [TSeek node target exclusive] rest work st s)"

lemma carries_term:
  assumes "nodes ! node = PTerm text cursor"
  shows "carries store nodes node"
  unfolding carries_def
proof (intro allI carried_step)
  fix target exclusive rest and work :: u8 and st s1 st' s'
  assume "seek_task store nodes (TSeek node target exclusive) (st\<lparr>sk_tasks := rest\<rparr>) s1 = (Inr st', s')"
  then obtain v c where q: "query_cursor_seek store target exclusive (sk_cursors st ! cursor) s1 = (Inr (v, c), s')"
    "st' = st\<lparr>sk_tasks := rest, sk_value := v, sk_cursors := (sk_cursors st)[cursor := c]\<rparr>"
    using assms by (auto simp: seek_task_def seek_node_def io_bind_Inr)
  have "reaches target v" using query_cursor_seek_result[OF q(1)] by (simp add: reaches_def)
  then show "\<exists>tasks st2. st' = st2\<lparr>sk_tasks := tasks @ rest\<rparr> \<and> carried store nodes target tasks rest (work + 1) st2 s'"
    using q(2) by (intro exI[of _ "[]"] exI[of _ st']) (simp add: carried_Nil)
qed

lemma carries_or:
  assumes "nodes ! node = POr left right" and l: "carries store nodes left" and r: "carries store nodes right"
  shows "carries store nodes node"
  unfolding carries_def
proof (intro allI carried_step)
  fix target exclusive rest and work :: u8 and st s1 st' s'
  have u: "carried store nodes target [TOrRight lv] rest work st s" if "reaches target lv" "reaches target (sk_value st)" for lv rest and work :: u8 and st s
  proof (rule carried_step)
    fix s1 st' s'
    assume "seek_task store nodes (TOrRight lv) (st\<lparr>sk_tasks := rest\<rparr>) s1 = (Inr st', s')"
    then obtain v where v: "union_value lv (sk_value st) = Inr v" "st' = (st\<lparr>sk_value := v\<rparr>)\<lparr>sk_tasks := [] @ rest\<rparr>"
      by (auto simp: seek_task_def io_bind_Inr)
    have "reaches target v" using v(1) that by (auto simp: union_value_def res_simps split: option.splits if_splits)
    then show "\<exists>tasks st2. st' = st2\<lparr>sk_tasks := tasks @ rest\<rparr> \<and> carried store nodes target tasks rest (work + 1) st2 s'"
      using v(2) carried_Nil[of target "st\<lparr>sk_value := v\<rparr>"] by fastforce
  qed
  have m: "carried store nodes target [TOrLeft right target exclusive] rest work st s" if "reaches target (sk_value st)" for rest and work :: u8 and st s
  proof (rule carried_step)
    fix s1 st' s'
    assume "seek_task store nodes (TOrLeft right target exclusive) (st\<lparr>sk_tasks := rest\<rparr>) s1 = (Inr st', s')"
    then have v: "st' = st\<lparr>sk_tasks := [TSeek right target exclusive, TOrRight (sk_value st)] @ rest\<rparr>" by (auto simp: seek_task_def)
    have "carried store nodes target [TSeek right target exclusive, TOrRight (sk_value st)] rest (work + 1) st s'"
      by (rule carried_Cons[where target = target]) (use r u that in \<open>simp_all add: carries_def\<close>)
    then show "\<exists>tasks st2. st' = st2\<lparr>sk_tasks := tasks @ rest\<rparr> \<and> carried store nodes target tasks rest (work + 1) st2 s'"
      using v by blast
  qed
  assume "seek_task store nodes (TSeek node target exclusive) (st\<lparr>sk_tasks := rest\<rparr>) s1 = (Inr st', s')"
  then have v: "st' = st\<lparr>sk_tasks := [TSeek left target exclusive, TOrLeft right target exclusive] @ rest\<rparr>"
    using assms(1) by (auto simp: seek_task_def seek_node_def)
  have "carried store nodes target [TSeek left target exclusive, TOrLeft right target exclusive] rest (work + 1) st s'"
    by (rule carried_Cons[where target = target]) (use l m in \<open>simp_all add: carries_def\<close>)
  then show "\<exists>tasks st2. st' = st2\<lparr>sk_tasks := tasks @ rest\<rparr> \<and> carried store nodes target tasks rest (work + 1) st2 s'"
    using v by blast
qed

text \<open>An intersection repeats only with a later target.\<close>

definition seek_gap :: "owner_ref option \<Rightarrow> nat" where
  "seek_gap target = (case target of None \<Rightarrow> 2 ^ 48 + 1 | Some t \<Rightarrow> 2 ^ 48 - owner_rank t)"

lemma reaches_later: "reaches target (Some l) \<Longrightarrow> owner_rank l < owner_rank r \<Longrightarrow> reaches (Some r) v \<Longrightarrow> reaches target v"
  by (cases target; cases v) simp_all

lemma seek_gap_less: "reaches target (Some l) \<Longrightarrow> owner_rank l < owner_rank r \<Longrightarrow> seek_gap (Some r) < seek_gap target"
  using owner_rank_bound[of r] by (cases target) (simp_all add: seek_gap_def)

lemma carried_and:
  assumes n: "nodes ! node = PAnd left right" and l: "carries store nodes left" and r: "carries store nodes right"
  shows "carried store nodes target [TSeek node target exclusive] rest work st s"
proof (induction "seek_gap target" arbitrary: target exclusive rest work st s rule: less_induct)
  case less
  have u: "carried store nodes target [TAndRight node lv] rest work st s" if lv: "reaches target (Some lv)" and v: "reaches (Some lv) (sk_value st)"
    for lv rest and work :: u8 and st s
  proof (rule carried_step)
    fix s1 st' s'
    assume a: "seek_task store nodes (TAndRight node lv) (st\<lparr>sk_tasks := rest\<rparr>) s1 = (Inr st', s')"
    show "\<exists>tasks st2. st' = st2\<lparr>sk_tasks := tasks @ rest\<rparr> \<and> carried store nodes target tasks rest (work + 1) st2 s'"
    proof (cases "sk_value st")
      case None
      then have "st' = st\<lparr>sk_tasks := [] @ rest\<rparr>" using a by (auto simp: seek_task_def)
      moreover have "carried store nodes target [] rest (work + 1) st s'" using None by (simp add: carried_Nil)
      ultimately show ?thesis by blast
    next
      case (Some rv)
      then obtain order where o: "owner_compare lv rv = Inr order" using a by (auto simp: seek_task_def io_bind_Inr)
      show ?thesis
      proof (cases order)
        case Equal
        then have "st' = (st\<lparr>sk_value := Some lv\<rparr>)\<lparr>sk_tasks := [] @ rest\<rparr>" using a Some o by (auto simp: seek_task_def)
        moreover have "carried store nodes target [] rest (work + 1) (st\<lparr>sk_value := Some lv\<rparr>) s'" using lv by (simp add: carried_Nil)
        ultimately show ?thesis by blast
      next
        case Less
        then have st: "st' = st\<lparr>sk_tasks := [TSeek node (Some rv) False] @ rest\<rparr>" using a Some o by (auto simp: seek_task_def)
        have k: "owner_rank lv < owner_rank rv" using owner_compare_rank[OF o] Less by (auto split: if_splits)
        from seek_gap_less[OF lv k] have "carried store nodes (Some rv) [TSeek node (Some rv) False] rest (work + 1) st s'" by (rule less)
        then have "carried store nodes target [TSeek node (Some rv) False] rest (work + 1) st s'"
          using reaches_later[OF lv k] by (rule carried_weaken)
        then show ?thesis using st by blast
      qed (use a Some o in \<open>auto simp: seek_task_def\<close>)
    qed
  qed
  have m: "carried store nodes target [TAndLeft node right] rest work st s" if v: "reaches target (sk_value st)" for rest and work :: u8 and st s
  proof (rule carried_step)
    fix s1 st' s'
    assume a: "seek_task store nodes (TAndLeft node right) (st\<lparr>sk_tasks := rest\<rparr>) s1 = (Inr st', s')"
    show "\<exists>tasks st2. st' = st2\<lparr>sk_tasks := tasks @ rest\<rparr> \<and> carried store nodes target tasks rest (work + 1) st2 s'"
    proof (cases "sk_value st")
      case None
      then have "st' = st\<lparr>sk_tasks := [] @ rest\<rparr>" using a by (auto simp: seek_task_def)
      moreover have "carried store nodes target [] rest (work + 1) st s'" using None by (simp add: carried_Nil)
      ultimately show ?thesis by blast
    next
      case (Some lv)
      then have st: "st' = st\<lparr>sk_tasks := [TSeek right (Some lv) False, TAndRight node lv] @ rest\<rparr>" using a by (auto simp: seek_task_def)
      have "carried store nodes target [TSeek right (Some lv) False, TAndRight node lv] rest (work + 1) st s'"
        by (rule carried_Cons[where target = "Some lv"]) (use r u v Some in \<open>simp_all add: carries_def\<close>)
      then show ?thesis using st by blast
    qed
  qed
  show ?case
  proof (rule carried_step)
    fix s1 st' s'
    assume "seek_task store nodes (TSeek node target exclusive) (st\<lparr>sk_tasks := rest\<rparr>) s1 = (Inr st', s')"
    then have v: "st' = st\<lparr>sk_tasks := [TSeek left target exclusive, TAndLeft node right] @ rest\<rparr>"
      using n by (auto simp: seek_task_def seek_node_def)
    have "carried store nodes target [TSeek left target exclusive, TAndLeft node right] rest (work + 1) st s'"
      by (rule carried_Cons[where target = target]) (use l m in \<open>simp_all add: carries_def\<close>)
    then show "\<exists>tasks st2. st' = st2\<lparr>sk_tasks := tasks @ rest\<rparr> \<and> carried store nodes target tasks rest (work + 1) st2 s'"
      using v by blast
  qed
qed

lemma carries_leaf:
  assumes "nodes ! node = PEmpty \<or> nodes ! node = PUniverse"
  shows "carries store nodes node"
  unfolding carries_def
proof (intro allI carried_step)
  fix target exclusive rest and work :: u8 and st s1 st' s'
  assume "seek_task store nodes (TSeek node target exclusive) (st\<lparr>sk_tasks := rest\<rparr>) s1 = (Inr st', s')"
  then have "st' = (st\<lparr>sk_value := None\<rparr>)\<lparr>sk_tasks := [] @ rest\<rparr>" using assms by (auto simp: seek_task_def seek_node_def)
  then show "\<exists>tasks st2. st' = st2\<lparr>sk_tasks := tasks @ rest\<rparr> \<and> carried store nodes target tasks rest (work + 1) st2 s'"
    using carried_Nil[of target "st\<lparr>sk_value := None\<rparr>"] by (metis reaches_simps(2) seek_state.select_convs(3) seek_state.update_convs(3) seek_state.surjective)
qed

lemma plan_carries: "plan_wf nodes \<Longrightarrow> node < length nodes \<Longrightarrow> carries store nodes node"
proof (induction node rule: less_induct)
  case (less node)
  have c: "carries store nodes j" if "j \<in> set (operands (nodes ! node))" for j
  proof -
    have "j < node" using less.prems that by (auto simp: plan_wf_def)
    then show ?thesis using less by simp
  qed
  show ?case
  proof (cases "nodes ! node")
    case (PAnd left right)
    then have lr: "carries store nodes left" "carries store nodes right" using c by simp_all
    show ?thesis unfolding carries_def[of store nodes node] by (intro allI carried_and[OF PAnd lr])
  qed (use c in \<open>auto intro: carries_term carries_or carries_leaf\<close>)
qed

lemma plan_seek_returns:
  assumes "plan_wf (pl_nodes self)" "pl_root self < length (pl_nodes self)"
  shows "\<exists>r. plan_seek store self target s = Some r"
proof -
  have e: "\<exists>r. seek_tasks store nodes work (st\<lparr>sk_tasks := []\<rparr>) s = Some r" for nodes work st s and store :: "'a page_store"
    by (subst seek_tasks.simps) simp
  have "\<exists>r. plan_interpret store self target s = Some r"
  proof -
    let ?st = "\<lparr>sk_cursors = pl_cursors self, sk_tasks = [TSeek (pl_root self) target True], sk_value = None\<rparr>"
    have "carried store (pl_nodes self) target [TSeek (pl_root self) target True] [] 0 ?st s"
      using plan_carries[OF assms, of store] unfolding carries_def by blast
    then have "\<exists>r. seek_tasks store (pl_nodes self) 0 ?st s = Some r"
      using e[of store "pl_nodes self"] unfolding carried_def by force
    then show ?thesis unfolding plan_interpret_def by auto
  qed
  then show ?thesis by (auto simp: plan_seek_def Let_def split: plan_node.splits)
qed

end
