(* ===== verification/PhrasePrefix.thy ===== *)
theory PhrasePrefix
  imports Document
begin

text \<open>
  Phrase witnesses from the prefix of a stored document
  (crates/pin-core/src/mutable/phrase_prefix.rs): the directory is read until every word of the phrase
  has its stream of positions, then the rarest stream drives a search for one occurrence. A prefix that
  ends too early, or a search that takes more than its allowance, leaves the phrase undecided.
\<close>

section \<open>Streams\<close>

record stream =
  sm_reader :: reader
  sm_remaining :: u32
  sm_previous :: u32
  sm_first :: bool
  sm_tokens :: u32
  sm_complete :: bool

definition stream_finish :: "stream \<Rightarrow> unit result" where
  "stream_finish self =
     (if sm_remaining self = 0 \<and> sm_complete self then from_codec (reader_finish (sm_reader self)) else Inr ())"

definition stream_next :: "stream \<Rightarrow> (u32 option \<times> stream) result" where
  "stream_next self =
     (if sm_remaining self = 0 then Inr (None, self) else
      and_then (from_codec (reader_var_u32 (sm_reader self))) (\<lambda>(delta, reader).
      if \<not> sm_first self \<and> delta = 0 then Inl InvalidDocument else
      and_then (ok_or InvalidDocument (checked_add_w (sm_previous self) delta)) (\<lambda>position.
      if position \<ge> sm_tokens self then Inl InvalidDocument else
      let self = self\<lparr>sm_reader := reader, sm_previous := position, sm_first := False, sm_remaining := sm_remaining self - 1\<rparr> in
      and_then (stream_finish self) (\<lambda>_. Inr (Some position, self)))))"

definition stream_advance :: "stream \<Rightarrow> nat \<Rightarrow> (u32 option \<times> stream \<times> nat) result" where
  "stream_advance self work =
     and_then (ok_or (Limit ''prefix position work'') (checked_sub work 1)) (\<lambda>work.
     and_then (stream_next self) (\<lambda>(v, self). Inr (v, self, work)))"

text \<open>The step over 32 deltas of one: \<open>None\<close> when it does not apply.\<close>

definition stream_dense :: "stream \<Rightarrow> u32 \<Rightarrow> nat \<Rightarrow> (stream \<times> nat) option result" where
  "stream_dense self target work =
     (if \<not> sm_first self \<and> sm_remaining self \<ge> 32 \<and> work \<ge> 32 then
        (case checked_add_w (sm_previous self) 32 of
           None \<Rightarrow> Inr None
         | Some e \<Rightarrow>
             if e < target \<and> reader_remaining (sm_reader self) \<ge> 32 then
               and_then (from_codec (reader_take (sm_reader self) 32)) (\<lambda>(bytes, probe).
               if bytes = replicate 32 1 then
                 if e \<ge> sm_tokens self then Inl InvalidDocument else
                 let self = self\<lparr>sm_reader := probe, sm_previous := e, sm_remaining := sm_remaining self - 32\<rparr> in
                 and_then (stream_finish self) (\<lambda>_. Inr (Some (self, work - 32)))
               else Inr None)
             else Inr None)
      else Inr None)"

lemma stream_next_remaining: "stream_next self = Inr (Some v, self') \<Longrightarrow> unat (sm_remaining self') < unat (sm_remaining self)"
  by (auto simp: stream_next_def Let_def res_simps unat_minus_one unat_gt_0 split: if_splits)

lemma stream_advance_remaining: "stream_advance self work = Inr (Some v, self', work') \<Longrightarrow> unat (sm_remaining self') < unat (sm_remaining self)"
  by (auto simp: stream_advance_def res_simps dest: stream_next_remaining)

lemma stream_dense_remaining: "stream_dense self target work = Inr (Some (self', work')) \<Longrightarrow> unat (sm_remaining self') < unat (sm_remaining self)"
  by (auto simp: stream_dense_def Let_def res_simps word_le_nat_alt unat_sub split: if_splits option.splits)

function seek_ge :: "stream \<Rightarrow> u32 \<Rightarrow> nat \<Rightarrow> (u32 option \<times> stream \<times> nat) result" where
  "seek_ge self target work =
     and_then (stream_dense self target work) (\<lambda>dense.
     case dense of
       Some st \<Rightarrow> seek_ge (fst st) target (snd st)
     | None \<Rightarrow>
         and_then (stream_advance self work) (\<lambda>r.
         case fst r of
           None \<Rightarrow> Inr r
         | Some v \<Rightarrow> if v \<ge> target then Inr r else seek_ge (fst (snd r)) target (snd (snd r))))"
  by pat_completeness auto
termination
proof (relation "measure (\<lambda>(self, target, work). unat (sm_remaining self))", simp)
  fix self :: stream and target work a st
  assume "stream_dense self target work = Inr a" "a = Some st"
  then show "((fst st, target, snd st), self, target, work) \<in> measure (\<lambda>(self, target, work). unat (sm_remaining self))"
    using stream_dense_remaining[of self target work "fst st" "snd st"] by simp
next
  fix self :: stream and target work a r v
  assume "stream_advance self work = Inr r" "fst r = Some v"
  then show "((fst (snd r), target, snd (snd r)), self, target, work) \<in> measure (\<lambda>(self, target, work). unat (sm_remaining self))"
    using stream_advance_remaining[of self work v "fst (snd r)" "snd (snd r)"] by (cases r) simp
qed

declare seek_ge.simps [simp del]

lemma seek_ge_remaining: "seek_ge self target work = Inr (Some v, self', work') \<Longrightarrow> unat (sm_remaining self') < unat (sm_remaining self) \<and> v \<ge> target"
proof (induction self target work rule: seek_ge.induct)
  case (1 self target work)
  from 1(3) obtain dense where d: "stream_dense self target work = Inr dense" by (subst (asm) seek_ge.simps) (auto simp: res_simps)
  show ?case
  proof (cases dense)
    case (Some st)
    have "seek_ge (fst st) target (snd st) = Inr (Some v, self', work')" using 1(3) d Some by (subst (asm) seek_ge.simps) simp
    then show ?thesis using 1(2)[OF d Some] stream_dense_remaining[of self target work "fst st" "snd st"] d Some by simp
  next
    case None
    then obtain r where r: "stream_advance self work = Inr r"
      "(case fst r of None \<Rightarrow> Inr r | Some v \<Rightarrow> if v \<ge> target then Inr r else seek_ge (fst (snd r)) target (snd (snd r))) = Inr (Some v, self', work')"
      using 1(3) d by (subst (asm) seek_ge.simps) (auto simp: res_simps)
    show ?thesis
    proof (cases "fst r")
      case (Some w)
      have a: "unat (sm_remaining (fst (snd r))) < unat (sm_remaining self)"
        using stream_advance_remaining[of self work w "fst (snd r)" "snd (snd r)"] r(1) Some by (cases r) simp
      show ?thesis
      proof (cases "w \<ge> target")
        case True
        then show ?thesis using r Some a by auto
      next
        case False
        then show ?thesis using r(2) Some a 1(1)[OF d None r(1) Some False] by simp
      qed
    qed (use r(2) in auto)
  qed
qed

section \<open>The search for an occurrence\<close>

text \<open>The inner loop: the position of one other stream, with the value it already has.\<close>

function witness_seek :: "u32 \<Rightarrow> stream \<Rightarrow> u32 option \<Rightarrow> nat \<Rightarrow> (u32 option \<times> stream \<times> nat) result" where
  "witness_seek target self current work =
     and_then (case current of Some v \<Rightarrow> Inr (Some v, self, work) | None \<Rightarrow> seek_ge self target work) (\<lambda>r.
     case fst r of
       Some v \<Rightarrow> if v < target then witness_seek target (fst (snd r)) None (snd (snd r)) else Inr r
     | None \<Rightarrow> Inr r)"
  by pat_completeness auto
termination
proof (relation "measure (\<lambda>(target, self, current, work). 2 * unat (sm_remaining self) + (if current = None then 0 else 1))", simp)
  fix target and self :: stream and current work r v
  assume r: "(case current of Some v \<Rightarrow> Inr (Some v, self, work) | None \<Rightarrow> seek_ge self target work) = Inr r" "fst r = Some v" "v < target"
  have "unat (sm_remaining (fst (snd r))) < unat (sm_remaining self) \<or> current \<noteq> None \<and> fst (snd r) = self"
  proof (cases current)
    case None
    then show ?thesis using r seek_ge_remaining[of self target work v "fst (snd r)" "snd (snd r)"] by (cases r) simp
  qed (use r(1) in auto)
  then show "((target, fst (snd r), None, snd (snd r)), target, self, current, work)
      \<in> measure (\<lambda>(target, self, current, work). 2 * unat (sm_remaining self) + (if current = None then 0 else 1))" by auto
qed

declare witness_seek.simps [simp del]

text \<open>The loop over the other streams: the answer when it is decided, otherwise whether all match.\<close>

fun witness_streams ::
  "nat \<Rightarrow> u32 \<Rightarrow> nat list \<Rightarrow> stream list \<Rightarrow> u32 option list \<Rightarrow> nat \<Rightarrow> (bool option \<times> stream list \<times> u32 option list \<times> nat) result" where
  "witness_streams anchor origin [] streams current work = Inr (Some True, streams, current, work)"
| "witness_streams anchor origin (index # indexes) streams current work =
     (if index = anchor then witness_streams anchor origin indexes streams current work else
      and_then (ok_or InvalidDocument (checked_add_w origin (of_nat index))) (\<lambda>target.
      and_then (witness_seek target (streams ! index) (current ! index) work) (\<lambda>(v, self, work).
      let streams = streams[index := self]; current = current[index := v] in
      case v of
        None \<Rightarrow> Inr (None, streams, current, work)
      | Some v \<Rightarrow>
          if v = target then witness_streams anchor origin indexes streams current work
          else Inr (Some False, streams, current, work))))"

lemma witness_streams_anchor:
  "witness_streams anchor origin indexes streams current work = Inr (m, streams', current', work') \<Longrightarrow>
    streams' ! anchor = streams ! anchor \<and> length streams' = length streams"
proof (induction indexes arbitrary: streams current work)
  case (Cons index indexes)
  show ?case
  proof (cases "index = anchor")
    case False
    then show ?thesis using Cons by (fastforce simp: Let_def res_simps split: option.splits if_splits)
  qed (use Cons in auto)
qed simp

function witness_loop :: "nat \<Rightarrow> stream list \<Rightarrow> u32 option list \<Rightarrow> nat \<Rightarrow> bool result" where
  "witness_loop anchor streams current work =
     (if anchor \<ge> length streams then Inl InvalidState else
      and_then (stream_advance (streams ! anchor) work) (\<lambda>r.
      let streams' = streams[anchor := fst (snd r)] in
      case fst r of
        None \<Rightarrow> Inr False
      | Some position \<Rightarrow>
          (case checked_sub_w position (of_nat anchor) of
             None \<Rightarrow> witness_loop anchor streams' current (snd (snd r))
           | Some origin \<Rightarrow>
               and_then (witness_streams anchor origin [0..<length streams'] streams' current (snd (snd r))) (\<lambda>q.
               case fst q of
                 None \<Rightarrow> Inr False
               | Some True \<Rightarrow> Inr True
               | Some False \<Rightarrow> witness_loop anchor (fst (snd q)) (fst (snd (snd q))) (snd (snd (snd q)))))))"
  by pat_completeness auto
termination
proof (relation "measure (\<lambda>(anchor, streams, current, work). unat (sm_remaining (streams ! anchor)))", simp)
  fix anchor work :: nat and streams :: "stream list" and current :: "u32 option list" and r position
  assume a: "\<not> anchor \<ge> length streams" "stream_advance (streams ! anchor) work = Inr r" "fst r = Some position"
  have l: "unat (sm_remaining (fst (snd r))) < unat (sm_remaining (streams ! anchor))"
    using stream_advance_remaining[of "streams ! anchor" work position "fst (snd r)" "snd (snd r)"] a by (cases r) simp
  show "((anchor, x, current, snd (snd r)), anchor, streams, current, work)
      \<in> measure (\<lambda>(anchor, streams, current, work). unat (sm_remaining (streams ! anchor)))" if "x = streams[anchor := fst (snd r)]" for x
    using l a(1) that by simp
  fix x origin q z y
  assume b: "x = streams[anchor := fst (snd r)]"
    "witness_streams anchor origin [0..<length x] x current (snd (snd r)) = Inr q"
  show "((anchor, fst (snd q), fst (snd (snd q)), snd (snd (snd q))), anchor, streams, current, work)
      \<in> measure (\<lambda>(anchor, streams, current, work). unat (sm_remaining (streams ! anchor)))"
    using l a(1) b witness_streams_anchor[of anchor origin "[0..<length x]" x current "snd (snd r)" "fst q" "fst (snd q)" "fst (snd (snd q))" "snd (snd (snd q))"]
    by (cases q) simp
qed

declare witness_loop.simps [simp del]

text \<open>\<open>min_by_key\<close>: the first stream with the fewest positions.\<close>

definition rarest_stream :: "stream list \<Rightarrow> nat option" where
  "rarest_stream streams =
     fold (\<lambda>index best. case best of
         None \<Rightarrow> Some index
       | Some b \<Rightarrow> if sm_remaining (streams ! index) < sm_remaining (streams ! b) then Some index else Some b)
       [0..<length streams] None"

definition witness :: "stream list \<Rightarrow> nat \<Rightarrow> bool result" where
  "witness streams work =
     and_then (ok_or InvalidState (rarest_stream streams)) (\<lambda>anchor. witness_loop anchor streams (replicate 64 None) work)"

section \<open>The directory\<close>

record prefix_scan =
  px_offset :: nat
  px_previous :: str
  px_frequency :: u32
  px_streams :: "stream option list"

text \<open>One directory entry; \<open>Inl\<close> in the result is the answer of the search that it triggers.\<close>

definition prefix_entry ::
  "bytes \<Rightarrow> nat \<Rightarrow> u32 \<Rightarrow> str list \<Rightarrow> prefix_scan \<Rightarrow> (bool + prefix_scan) result" where
  "prefix_entry bytes whole tokens wanted st =
     and_then (ok_or (Codec (CodecError (px_offset st) Truncated)) (get_from bytes (px_offset st))) (\<lambda>input.
     and_then (from_codec (reader_u16 (reader_new input))) (\<lambda>(len, entry).
     if len = 0 \<or> unat len > MAX_TERM_BYTES then Inl InvalidDocument else
     and_then (from_codec (reader_u16 entry)) (\<lambda>(zero, entry).
     if zero \<noteq> 0 then Inl InvalidDocument else
     and_then (from_codec (reader_u32 entry)) (\<lambda>(sz, entry).
     and_then (from_codec (reader_take entry (unat len))) (\<lambda>(text, entry).
     and_then (from_utf8 InvalidDocument text) (\<lambda>text.
     if text \<le> px_previous st \<or> sz < 4 then Inl InvalidDocument else
     and_then (ok_or InvalidDocument (checked_add (px_offset st) (rd_offset entry))) (\<lambda>from.
     and_then (ok_or InvalidDocument (checked_add from (unat sz))) (\<lambda>e.
     if e > whole then Inl InvalidDocument else
     and_then (from_codec (reader_u32 entry)) (\<lambda>(count, entry).
     if count = 0 \<or> count > tokens \<or> unat count > unat sz - 4 then Inl InvalidDocument else
     and_then (ok_or InvalidDocument (checked_add_w (px_frequency st) count)) (\<lambda>frequency.
     if frequency > tokens then Inl InvalidDocument else
     let new = \<lparr>sm_reader = reader_new (take (min e (length bytes) - (from + 4)) (drop (from + 4) bytes)), sm_remaining = count,
           sm_previous = 0, sm_first = True, sm_tokens = tokens, sm_complete = e \<le> length bytes\<rparr>;
         streams = map (\<lambda>(name, old). if name = text then Some new else old) (zip wanted (px_streams st)) in
     if list_all (\<lambda>x. x \<noteq> None) streams then
       (let found = map the streams in
        and_then (witness found (if list_all sm_complete found then usize_max else 256)) (\<lambda>b. Inr (Inl b)))
     else Inr (Inr (st\<lparr>px_offset := e, px_previous := text, px_frequency := frequency, px_streams := streams\<rparr>))))))))))))"

fun prefix_directory :: "bytes \<Rightarrow> nat \<Rightarrow> u32 \<Rightarrow> str list \<Rightarrow> nat \<Rightarrow> prefix_scan \<Rightarrow> bool result" where
  "prefix_directory bytes whole tokens wanted 0 st =
     (if px_offset st \<noteq> whole \<or> px_frequency st \<noteq> tokens then Inl InvalidDocument else Inr False)"
| "prefix_directory bytes whole tokens wanted (Suc terms) st =
     and_then (prefix_entry bytes whole tokens wanted st) (\<lambda>r.
     case r of Inl b \<Rightarrow> Inr b | Inr st \<Rightarrow> prefix_directory bytes whole tokens wanted terms st)"

definition prefix_evaluate :: "bytes \<Rightarrow> nat \<Rightarrow> u32 \<Rightarrow> u32 \<Rightarrow> str list \<Rightarrow> bool result" where
  "prefix_evaluate bytes whole tokens terms wanted =
     and_then (from_codec (reader_take (reader_new bytes) 4)) (\<lambda>(magic, header).
     if magic \<noteq> PD02 then Inl InvalidProfile else
     and_then (from_codec (reader_u32 header)) (\<lambda>(profile, header).
     if profile \<noteq> PROFILE_ID then Inl InvalidProfile else
     and_then (from_codec (reader_u32 header)) (\<lambda>(found_tokens, header).
     if found_tokens \<noteq> tokens then Inl InvalidDocument else
     and_then (from_codec (reader_u32 header)) (\<lambda>(found_terms, header).
     if found_terms \<noteq> terms then Inl InvalidDocument else
     prefix_directory bytes whole tokens wanted (unat terms)
       \<lparr>px_offset = rd_offset header, px_previous = [], px_frequency = 0, px_streams = replicate (length wanted) None\<rparr>))))"

definition prefix_matches :: "bytes \<Rightarrow> nat \<Rightarrow> u32 \<Rightarrow> u32 \<Rightarrow> str list \<Rightarrow> bool option result" where
  "prefix_matches bytes whole tokens terms wanted =
     (if wanted = [] \<or> length wanted > 64 \<or> whole > MAX_DOCUMENT_BYTES \<or> length bytes > whole \<or>
        tokens > MAX_DOCUMENT_TOKENS \<or> terms > tokens then Inl InvalidDocument else
      case prefix_evaluate bytes whole tokens terms wanted of
        Inl (Codec e) \<Rightarrow> if err_kind e = Truncated \<and> length bytes < whole then Inr None else Inl (Codec e)
      | Inl (Limit what) \<Rightarrow> if what = ''prefix position work'' \<and> length bytes < whole then Inr None else Inl (Limit what)
      | Inl e \<Rightarrow> Inl e
      | Inr b \<Rightarrow> Inr (Some b))"

end
