(* ===== verification/QueryScan.thy ===== *)
theory QueryScan
  imports QueryCursors PhrasePrefix
begin

text \<open>
  Query streams of the mutable index (crates/pin-core/src/mutable/query.rs, last part): the stream of
  one term, the proof of a phrase from the stored positions of an owner, and the loop that seeks, resolves
  and emits the owners of a plan. The callback \<open>emit\<close> is a host computation. The main loop is a partial
  function; it returns for every parsed query and every host, because the owners it accepts ascend.
\<close>

section \<open>One term\<close>

record term_scan =
  ts_previous :: owner_ref
  ts_cache :: "page option"
  ts_count :: u64

definition term_after :: "owner_ref \<Rightarrow> owner_ref \<Rightarrow> unit result" where
  "term_after previous owner =
     and_then (owner_compare previous owner) (\<lambda>order.
     if order \<noteq> Less \<or> or_incarnation owner \<le> or_incarnation previous then Inl InvalidState else Inr ())"

definition term_direct_slot ::
  "'s page_store \<Rightarrow> (root_tid \<Rightarrow> ('s, unit) io) \<Rightarrow> page \<Rightarrow> u64 \<Rightarrow> nat \<Rightarrow> ('s, u64) io" where
  "term_direct_slot store emit page count slot =
     with_layout store (\<lambda>layout.
     io_bind (io_lift (page_direct_root page (of_nat slot) layout)) (\<lambda>root.
     case root of
       Some root \<Rightarrow> io_bind (emit root) (\<lambda>_. count_up ''candidate count'' count)
     | None \<Rightarrow> io_return count))"

definition term_reference ::
  "'s page_store \<Rightarrow> (root_tid \<Rightarrow> ('s, unit) io) \<Rightarrow> term_scan \<Rightarrow> owner_ref \<Rightarrow> ('s, term_scan) io" where
  "term_reference store emit st owner =
     io_bind (io_lift (term_after (ts_previous st) owner)) (\<lambda>_.
     io_bind (scan_reference store emit (ts_cache st, ts_count st) owner) (\<lambda>(cache, count).
     io_return \<lparr>ts_previous = owner, ts_cache = cache, ts_count = count\<rparr>))"

definition term_page ::
  "'s page_store \<Rightarrow> (root_tid \<Rightarrow> ('s, unit) io) \<Rightarrow> term_scan \<Rightarrow> page \<Rightarrow> ('s, term_scan) io" where
  "term_page store emit st page =
     (if pg_kind page = DirectPostings then
        io_bind (io_lift (page_direct_endpoints page)) (\<lambda>(fst_owner, lst).
        io_bind (io_lift (term_after (ts_previous st) fst_owner)) (\<lambda>_.
        io_bind (io_lift (page_posting_count page)) (\<lambda>slots.
        io_bind (io_fold (term_direct_slot store emit page) (ts_count st) [0..<unat slots]) (\<lambda>count.
        io_return (st\<lparr>ts_previous := lst, ts_count := count\<rparr>)))))
      else
        io_bind (io_lift (page_posting_refs page)) (\<lambda>it. io_items (term_reference store emit) st (postings_items it)))"

definition check_first_page :: "dict_term \<Rightarrow> page option \<Rightarrow> unit result" where
  "check_first_page entry first_page =
     (case first_page of
        None \<Rightarrow> Inr ()
      | Some page \<Rightarrow>
          if pg_block page \<noteq> te_head entry then Inl InvalidState else
          and_then (page_posting_term page) (\<lambda>posted. if posted \<noteq> te_reference entry then Inl InvalidState else Inr ()))"

text \<open>The loop over the chain, whose first page may be given.\<close>

definition term_chain ::
  "'s page_store \<Rightarrow> (root_tid \<Rightarrow> ('s, unit) io) \<Rightarrow> dict_term \<Rightarrow> page option \<Rightarrow> u32 \<Rightarrow> term_scan \<Rightarrow> ('s, term_scan) io" where
  "term_chain store emit entry first_page remaining st =
     (case first_page of
        None \<Rightarrow> walk_postings store (te_reference entry) (term_page store emit) (te_tail entry) remaining st (te_head entry)
      | Some page \<Rightarrow>
          io_bind (term_page store emit st page) (\<lambda>st.
          io_bind (io_lift (posting_next page (te_tail entry) remaining)) (\<lambda>(nxt, remaining).
          case nxt of
            Some nxt \<Rightarrow> walk_postings store (te_reference entry) (term_page store emit) (te_tail entry) remaining st nxt
          | None \<Rightarrow> io_return st)))"

definition scan_term_entry ::
  "'s page_store \<Rightarrow> dict_term \<Rightarrow> page option \<Rightarrow> (root_tid \<Rightarrow> ('s, unit) io) \<Rightarrow> ('s, u64) io" where
  "scan_term_entry store entry first_page emit =
     io_bind (io_lift (check_first_page entry first_page)) (\<lambda>_.
     io_bind (scan_reference store emit (None, 0) (te_first entry)) (\<lambda>(cache, count).
     case te_inline_second entry of
       Some second \<Rightarrow>
         if first_page \<noteq> None then io_fail InvalidState else
         io_bind (scan_reference store emit (cache, count) second) (\<lambda>(_, count). io_return count)
     | None \<Rightarrow>
         if te_head entry = NO_BLOCK then io_return count else
         io_bind (ps_blocks store) (\<lambda>remaining.
         io_bind (term_chain store emit entry first_page remaining
             \<lparr>ts_previous = te_first entry, ts_cache = cache, ts_count = count\<rparr>) (\<lambda>st.
         io_return (ts_count st)))))"

definition scan_single_term :: "'s page_store \<Rightarrow> str \<Rightarrow> (root_tid \<Rightarrow> ('s, unit) io) \<Rightarrow> ('s, u64) io" where
  "scan_single_term store text emit =
     io_bind (load store 0 Meta) (\<lambda>meta.
     io_bind (find_term store meta text) (\<lambda>found.
     case found of
       None \<Rightarrow> io_return 0
     | Some (dictionary, reference) \<Rightarrow>
         io_bind (io_lift (page_term dictionary reference)) (\<lambda>entry. scan_term_entry store entry None emit)))"

section \<open>Phrases\<close>

record phrase_state =
  ph_cache :: "page option"
  ph_payload :: "u8 vec"
  ph_fragment :: "page option"

text \<open>The owner page of a reference, from the cache when it still covers the slot.\<close>

definition phrase_owner_page :: "'s page_store \<Rightarrow> page option \<Rightarrow> owner_ref \<Rightarrow> ('s, page) io" where
  "phrase_owner_page store cache reference =
     io_bind (case cache of
         Some page \<Rightarrow>
           if pg_block page = or_page reference
           then io_lift (and_then (page_owner_count page) (\<lambda>count. Inr (or_slot reference \<ge> count)))
           else io_return True
       | None \<Rightarrow> io_return True) (\<lambda>reload.
     if reload then
       (case cache of
          Some page \<Rightarrow> load_into store (or_page reference) Owners page
        | None \<Rightarrow> load store (or_page reference) Owners)
     else io_lift (ok_or InvalidState cache))"

text \<open>\<open>matched.then_some((owner.root, false))\<close>\<close>

definition phrase_answer :: "owner \<Rightarrow> bool \<Rightarrow> (root_tid \<times> bool) option" where
  "phrase_answer owner matched = (if matched then Some (ow_root owner, False) else None)"

definition phrase_decided :: "bytes \<Rightarrow> nat \<Rightarrow> owner \<Rightarrow> str list \<Rightarrow> (root_tid \<times> bool) option result" where
  "phrase_decided bytes whole owner terms =
     and_then (prefix_matches bytes whole (ow_tokens owner) (ow_terms owner) terms) (\<lambda>matched.
     and_then (ok_or InvalidState matched) (\<lambda>matched. Inr (phrase_answer owner matched)))"

function phrase_fragments ::
  "'s page_store \<Rightarrow> owner_ref \<Rightarrow> nat \<Rightarrow> u32 \<Rightarrow> page \<Rightarrow> u8 vec \<Rightarrow> u32 \<Rightarrow> nat \<Rightarrow> 's \<Rightarrow> (page \<times> u8 vec \<times> nat) result \<times> 's" where
  "phrase_fragments store reference whole remaining page bytes block offset s =
     (if block = NO_BLOCK then io_return (page, bytes, offset) s else
      io_bind (io_lift (ok_or InvalidState (checked_sub_w remaining 1))) (\<lambda>remaining.
      \<lambda>s. if offset = whole then io_fail InvalidState s else
      io_bind (load_into store block Fragment page) (\<lambda>page.
      io_bind (io_lift (page_fragment_data page)) (\<lambda>d.
      io_bind (io_lift (ok_or InvalidState (checked_add (unat (fst (snd d))) (length (snd (snd d)))))) (\<lambda>e.
      \<lambda>s. if fst d \<noteq> reference \<or> unat (fst (snd d)) \<noteq> offset \<or> e > whole then io_fail InvalidState s else
      io_bind (io_lift (page_next page)) (\<lambda>block.
      phrase_fragments store reference whole remaining page (vec_extend bytes (snd (snd d))) block e) s))) s) s)"
  by pat_completeness auto
termination
proof (relation "measure (\<lambda>(store, reference, whole, remaining, page, bytes, block, offset, s). unat remaining)", goal_cases)
  case (2 store reference whole remaining page bytes block offset s remaining')
  then show ?case by (auto simp: res_simps checked_sub_w_def word_le_nat_alt unat_sub split: if_splits)
qed simp

declare phrase_fragments.simps [simp del]

text \<open>The payload does not decide the phrase from its first fragment: it is read as a whole.\<close>

definition phrase_whole ::
  "env \<Rightarrow> 's page_store \<Rightarrow> owner \<Rightarrow> str list \<Rightarrow> nat \<Rightarrow> page \<Rightarrow> bytes \<Rightarrow> phrase_state \<Rightarrow> ('s, (root_tid \<times> bool) option \<times> phrase_state) io" where
  "phrase_whole env store owner terms memory_bytes page piece st =
     (let whole = unat (ow_data_bytes owner) in
      case try_reserve_exact (env_alloc env) 1 ((ph_payload st)\<lparr>elems := []\<rparr>) whole of
        None \<Rightarrow> io_return (Some (ow_root owner, True), st\<lparr>ph_payload := vec_new\<rparr>)
      | Some bytes \<Rightarrow>
          if capacity bytes > memory_bytes then io_return (Some (ow_root owner, True), st\<lparr>ph_payload := vec_new\<rparr>) else
          io_bind (io_lift (page_next page)) (\<lambda>block.
          io_bind (ps_blocks store) (\<lambda>remaining.
          io_bind (phrase_fragments store (ow_reference owner) whole remaining page (vec_extend bytes piece) block (length piece)) (\<lambda>(page, bytes, offset).
          if offset \<noteq> whole then io_fail InvalidState else
          io_bind (io_lift (phrase_decided (elems bytes) whole owner terms)) (\<lambda>answer.
          io_return (answer, st\<lparr>ph_payload := bytes, ph_fragment := Some page\<rparr>))))))"

definition phrase_stored ::
  "env \<Rightarrow> 's page_store \<Rightarrow> owner \<Rightarrow> str list \<Rightarrow> nat \<Rightarrow> phrase_state \<Rightarrow> ('s, (root_tid \<times> bool) option \<times> phrase_state) io" where
  "phrase_stored env store owner terms memory_bytes st =
     (let whole = unat (ow_data_bytes owner) in
      case checked_sub memory_bytes (env_size env ''Page'') of
        None \<Rightarrow> io_return (Some (ow_root owner, True), st)
      | Some memory_bytes \<Rightarrow>
          if max whole (capacity (ph_payload st)) > memory_bytes \<or> whole > MAX_DOCUMENT_BYTES
          then io_return (Some (ow_root owner, True), st) else
          io_bind (case ph_fragment st of
              Some page \<Rightarrow> load_into store (ow_data_head owner) Fragment page
            | None \<Rightarrow> load store (ow_data_head owner) Fragment) (\<lambda>page.
          io_bind (io_lift (page_fragment_data page)) (\<lambda>(identity, origin, piece).
          if identity \<noteq> ow_reference owner \<or> origin \<noteq> 0 \<or> length piece > whole then io_fail InvalidState else
          io_bind (io_lift (prefix_matches piece whole (ow_tokens owner) (ow_terms owner) terms)) (\<lambda>decided.
          case decided of
            Some matched \<Rightarrow> io_return (phrase_answer owner matched, st\<lparr>ph_fragment := Some page\<rparr>)
          | None \<Rightarrow> phrase_whole env store owner terms memory_bytes page piece (st\<lparr>ph_fragment := Some page\<rparr>)))))"

definition resolve_phrase ::
  "env \<Rightarrow> 's page_store \<Rightarrow> owner_ref \<Rightarrow> str list \<Rightarrow> nat \<Rightarrow> phrase_state \<Rightarrow> ('s, (root_tid \<times> bool) option \<times> phrase_state) io" where
  "resolve_phrase env store reference terms memory_bytes st =
     io_bind (phrase_owner_page store (ph_cache st) reference) (\<lambda>page.
     with_layout store (\<lambda>layout.
     io_bind (io_lift (page_owner page (or_slot reference) layout)) (\<lambda>owner.
     let st = st\<lparr>ph_cache := Some page\<rparr> in
     if ow_reference owner \<noteq> reference then io_fail InvalidState
     else if \<not> ow_live owner \<or> ow_publication owner \<noteq> Published then io_return (None, st)
     else if ow_inline owner \<noteq> [] then
       io_bind (io_lift (phrase_decided (ow_inline owner) (length (ow_inline owner)) owner terms)) (\<lambda>answer. io_return (answer, st))
     else phrase_stored env store owner terms memory_bytes st)))"

section \<open>The main loop\<close>

record query_run =
  qr_plan :: plan
  qr_phrase :: phrase_state
  qr_previous :: "owner_ref option"
  qr_count :: u64

text \<open>The root of an owner from a sealed page that one of the cursors stands on.\<close>

fun direct_root :: "heap_layout \<Rightarrow> owner_ref \<Rightarrow> query_cursor list \<Rightarrow> root_tid option option result" where
  "direct_root layout owner [] = Inr None"
| "direct_root layout owner (cursor # cursors) =
     (case (if qc_current cursor = Some owner then Option.bind (qc_chain cursor) ch_page else None) of
        None \<Rightarrow> direct_root layout owner cursors
      | Some page \<Rightarrow>
          and_then (owned_current_direct page layout) (\<lambda>direct.
          if direct \<noteq> None then Inr direct else direct_root layout owner cursors))"

definition query_emit ::
  "(root_tid \<Rightarrow> bool \<Rightarrow> ('s, unit) io) \<Rightarrow> (root_tid \<times> bool) option \<Rightarrow> query_run \<Rightarrow> ('s, query_run) io" where
  "query_emit emit found run =
     (case found of
        None \<Rightarrow> io_return run
      | Some (root, recheck) \<Rightarrow>
          io_bind (emit root recheck) (\<lambda>_.
          io_bind (count_up ''candidate count'' (qr_count run)) (\<lambda>count. io_return (run\<lparr>qr_count := count\<rparr>))))"

definition query_root ::
  "'s page_store \<Rightarrow> owner_ref \<Rightarrow> query_run \<Rightarrow> ('s, root_tid option \<times> query_run) io" where
  "query_root store owner run =
     with_layout store (\<lambda>layout.
     io_bind (io_lift (direct_root layout owner (pl_cursors (qr_plan run)))) (\<lambda>direct.
     case direct of
       Some root \<Rightarrow> io_return (root, run)
     | None \<Rightarrow>
         io_bind (resolve store (ph_cache (qr_phrase run)) owner) (\<lambda>(root, cache).
         io_return (root, run\<lparr>qr_phrase := (qr_phrase run)\<lparr>ph_cache := cache\<rparr>\<rparr>))))"

definition query_ascends :: "owner_ref option \<Rightarrow> owner_ref \<Rightarrow> unit result" where
  "query_ascends previous owner =
     (case previous of
        None \<Rightarrow> Inr ()
      | Some previous \<Rightarrow> and_then (owner_compare previous owner) (\<lambda>order. if order \<noteq> Less then Inl InvalidState else Inr ()))"

text \<open>The body of the loop for the owner that was found.\<close>

definition query_step ::
  "env \<Rightarrow> 's page_store \<Rightarrow> (root_tid \<Rightarrow> bool \<Rightarrow> ('s, unit) io) \<Rightarrow> bool \<Rightarrow> str list option \<Rightarrow> owner_ref \<Rightarrow> query_run \<Rightarrow> ('s, query_run) io" where
  "query_step env store emit recheck exact_phrase owner run =
     io_bind (io_lift (query_ascends (qr_previous run) owner)) (\<lambda>_.
     let run = run\<lparr>qr_previous := Some owner\<rparr> in
     case exact_phrase of
       Some terms \<Rightarrow>
         io_bind (resolve_phrase env store owner terms (pl_scratch_bytes (qr_plan run)) (qr_phrase run)) (\<lambda>(found, phrase).
         query_emit emit found (run\<lparr>qr_phrase := phrase\<rparr>))
     | None \<Rightarrow>
         io_bind (query_root store owner run) (\<lambda>(root, run).
         query_emit emit (map_option (\<lambda>root. (root, recheck)) root) run))"

partial_function (option) query_loop ::
  "env \<Rightarrow> 's page_store \<Rightarrow> (root_tid \<Rightarrow> bool \<Rightarrow> ('s, unit) io) \<Rightarrow> bool \<Rightarrow> str list option \<Rightarrow> query_run \<Rightarrow> 's \<Rightarrow> (u64 result \<times> 's) option" where
  "query_loop env store emit recheck exact_phrase run s =
     Option.bind (plan_seek store (qr_plan run) (qr_previous run) s) (\<lambda>r.
     case r of
       (Inl e, s) \<Rightarrow> Some (Inl e, s)
     | (Inr (None, plan), s) \<Rightarrow> Some (Inr (qr_count run), s)
     | (Inr (Some owner, plan), s) \<Rightarrow>
         (case query_step env store emit recheck exact_phrase owner (run\<lparr>qr_plan := plan\<rparr>) s of
            (Inl e, s) \<Rightarrow> Some (Inl e, s)
          | (Inr run, s) \<Rightarrow> query_loop env store emit recheck exact_phrase run s))"

declare query_loop.simps [code]

definition exact_phrase_of :: "query \<Rightarrow> bool \<Rightarrow> str list option" where
  "exact_phrase_of query phrase_positions =
     (if phrase_positions \<and> query_node_count query = 1 then
        (case nd_kind (q_nodes query ! q_root query) of
           KPhrase terms \<Rightarrow> if terms \<noteq> [] \<and> length terms \<le> 64 then Some terms else None
         | _ \<Rightarrow> None)
      else None)"

definition query_start :: "plan \<Rightarrow> query_run" where
  "query_start plan =
     \<lparr>qr_plan = plan, qr_phrase = \<lparr>ph_cache = None, ph_payload = vec_new, ph_fragment = None\<rparr>, qr_previous = None, qr_count = 0\<rparr>"

text \<open>The plan does not fit the budget: the term cover of the query is scanned instead.\<close>

definition query_fallback ::
  "env \<Rightarrow> 's page_store \<Rightarrow> query \<Rightarrow> nat \<Rightarrow> (root_tid \<Rightarrow> bool \<Rightarrow> ('s, unit) io) \<Rightarrow> 's \<Rightarrow> (u64 result \<times> 's) option" where
  "query_fallback env store query memory_bytes emit s =
     map_option (\<lambda>r. io_bind (io_lift r) (\<lambda>cover. scan store cover (\<lambda>root. emit root True)) s) (candidate_build env query memory_bytes)"

definition scan_query_with_options ::
  "env \<Rightarrow> 's page_store \<Rightarrow> query \<Rightarrow> nat \<Rightarrow> bool \<Rightarrow> (root_tid \<Rightarrow> bool \<Rightarrow> ('s, unit) io) \<Rightarrow> 's \<Rightarrow> (u64 result \<times> 's) option" where
  "scan_query_with_options env store query memory_bytes phrase_positions emit s =
     (case nd_kind (q_nodes query ! q_root query) of
        KTerm text \<Rightarrow> Some (scan_single_term store text (\<lambda>root. emit root False) s)
      | _ \<Rightarrow>
          (case plan_build env query memory_bytes of
             Inl (Budget e) \<Rightarrow> query_fallback env store query memory_bytes emit s
           | Inl e \<Rightarrow> Some (Inl e, s)
           | Inr plan \<Rightarrow>
               if pl_root plan = EMPTY then Some (Inr 0, s)
               else if pl_root plan = UNIVERSE then Some (scan store CUniverse (\<lambda>root. emit root True) s)
               else (case plan_open store plan s of
                   (Inl e, s) \<Rightarrow> Some (Inl e, s)
                 | (Inr plan, s) \<Rightarrow>
                     query_loop env store emit (plan_recheck query) (exact_phrase_of query phrase_positions) (query_start plan) s)))"

definition scan_query_with_recheck ::
  "env \<Rightarrow> 's page_store \<Rightarrow> query \<Rightarrow> nat \<Rightarrow> (root_tid \<Rightarrow> bool \<Rightarrow> ('s, unit) io) \<Rightarrow> 's \<Rightarrow> (u64 result \<times> 's) option" where
  "scan_query_with_recheck env store query memory_bytes emit = scan_query_with_options env store query memory_bytes False emit"

definition scan_query ::
  "env \<Rightarrow> 's page_store \<Rightarrow> query \<Rightarrow> nat \<Rightarrow> (root_tid \<Rightarrow> ('s, unit) io) \<Rightarrow> 's \<Rightarrow> (u64 result \<times> 's) option" where
  "scan_query env store query memory_bytes emit = scan_query_with_recheck env store query memory_bytes (\<lambda>root _. emit root)"

section \<open>The loop returns\<close>

lemma same_shape_operands: "same_shape a b \<Longrightarrow> operands b = operands a \<and> (a = PEmpty \<longrightarrow> b = PEmpty) \<and> (a = PUniverse \<longrightarrow> b = PUniverse)"
  by (cases "(a, b)" rule: same_shape.cases) auto

lemma plan_wf_shape: "plan_wf ns \<Longrightarrow> list_all2 same_shape ns ms \<Longrightarrow> plan_wf ms"
proof -
  assume w: "plan_wf ns" and l: "list_all2 same_shape ns ms"
  have len: "length ms = length ns" using l by (simp add: list_all2_lengthD)
  have n: "operands (ms ! i) = operands (ns ! i) \<and> (ns ! i = PEmpty \<longrightarrow> ms ! i = PEmpty) \<and> (ns ! i = PUniverse \<longrightarrow> ms ! i = PUniverse)"
    if "i < length ns" for i
    using same_shape_operands[OF list_all2_nthD[OF l that]] .
  have "0 < length ns" "1 < length ns" using w by (auto simp: plan_wf_def)
  note b = n[OF this(1)] n[OF this(2)]
  show "plan_wf ms" using w b n len unfolding plan_wf_def EMPTY_def UNIVERSE_def by simp
qed

lemma plan_build_wf:
  assumes "lays_out q e" "plan_build env q memory = Inr pl"
  shows "plan_wf (pl_nodes pl) \<and> pl_root pl < length (pl_nodes pl)"
proof -
  obtain nodes ms where f: "plan_nodes (flatten 0 e) = (nodes, ms)" "length ms = expr_size e" "grows [PEmpty, PUniverse] (last ms, nodes) (\<lambda>ws. necessary ws e)"
    using plan_step_fold[OF plan_wf_initial, of "[]" 0 e] by (auto simp: plan_nodes_def)
  have q: "q_nodes q = flatten 0 e" "q_root q = expr_size e - 1" using assms(1) by (auto simp: lays_out_def)
  have "ms \<noteq> []" using f(2) expr_size_pos[of e] by auto
  then have r: "pl_root pl = last ms" using plan_build_nodes(1)[OF assms(2)] f(1,2) q by (simp add: last_conv_nth)
  have l: "list_all2 same_shape nodes (pl_nodes pl)" using plan_build_nodes(2)[OF assms(2)] f(1) q(1) by simp
  show ?thesis using plan_wf_shape[OF _ l] f(3) r list_all2_lengthD[OF l] by (simp add: grows_def)
qed

text \<open>What opening and seeking keep of a plan.\<close>

definition same_plan :: "plan \<Rightarrow> plan \<Rightarrow> bool" where
  "same_plan a b \<longleftrightarrow> pl_nodes b = pl_nodes a \<and> pl_root b = pl_root a"

lemma open_node_same: "open_node store meta pl index s = (Inr pl', s') \<Longrightarrow> same_plan pl pl'"
  by (auto simp: open_node_def same_plan_def io_bind_Inr split: plan_node.splits if_splits option.splits)

lemma io_fold_same: "io_fold (open_node store meta) pl is s = (Inr pl', s') \<Longrightarrow> same_plan pl pl'"
proof (induction "is" arbitrary: pl s)
  case (Cons i js)
  then obtain pl1 s1 where o: "open_node store meta pl i s = (Inr pl1, s1)" "io_fold (open_node store meta) pl1 js s1 = (Inr pl', s')"
    by (auto simp: io_bind_Inr)
  show ?case using Cons.IH[OF o(2)] open_node_same[OF o(1)] by (simp add: same_plan_def)
qed (simp add: same_plan_def)

lemma plan_open_same: "plan_open store pl s = (Inr pl', s') \<Longrightarrow> same_plan pl pl'"
  by (auto simp: plan_open_def io_bind_Inr dest: io_fold_same)

lemma plan_seek_same: "plan_seek store pl target s = Some (Inr (v, pl'), s') \<Longrightarrow> same_plan pl pl'"
  by (auto simp: plan_seek_def plan_pair_def plan_interpret_def Let_def io_bind_Inr same_plan_def res_simps split: plan_node.splits)

lemma query_emit_same: "query_emit emit found run s = (Inr run', s') \<Longrightarrow> qr_plan run' = qr_plan run \<and> qr_previous run' = qr_previous run"
  by (auto simp: query_emit_def io_bind_Inr split: option.splits)

lemma query_root_same: "query_root store owner run s = (Inr (root, run'), s') \<Longrightarrow> qr_plan run' = qr_plan run \<and> qr_previous run' = qr_previous run"
  by (auto simp: query_root_def with_layout_def io_bind_Inr split: option.splits)

lemma query_step_same:
  assumes "query_step env store emit recheck exact owner run s = (Inr run', s')"
  shows "qr_plan run' = qr_plan run" "qr_previous run' = Some owner" "\<And>p. qr_previous run = Some p \<Longrightarrow> owner_rank p < owner_rank owner"
proof -
  have "qr_plan run' = qr_plan run \<and> qr_previous run' = Some owner"
    using assms by (auto simp: query_step_def io_bind_Inr Let_def dest!: query_emit_same query_root_same split: option.splits)
  then show "qr_plan run' = qr_plan run" "qr_previous run' = Some owner" by simp_all
  fix p
  assume "qr_previous run = Some p"
  then have "owner_compare p owner = Inr Less"
    using assms by (auto simp: query_step_def query_ascends_def io_bind_Inr res_simps split: if_splits)
  from owner_compare_rank[OF this] show "owner_rank p < owner_rank owner" by (auto split: if_splits)
qed

lemma query_loop_returns:
  assumes "plan_wf (pl_nodes (qr_plan run))" "pl_root (qr_plan run) < length (pl_nodes (qr_plan run))"
  shows "\<exists>r. query_loop env store emit recheck exact run s = Some r"
  using assms
proof (induction "seek_gap (qr_previous run)" arbitrary: run s rule: less_induct)
  case less
  obtain r s1 where r: "plan_seek store (qr_plan run) (qr_previous run) s = Some (r, s1)"
    using plan_seek_returns[OF less.prems, of store "qr_previous run" s] by (metis surj_pair)
  show ?case
  proof (cases "\<exists>owner pl run' s2. r = Inr (Some owner, pl) \<and> query_step env store emit recheck exact owner (run\<lparr>qr_plan := pl\<rparr>) s1 = (Inr run', s2)")
    case True
    then obtain owner pl run' s2 where o: "r = Inr (Some owner, pl)" "query_step env store emit recheck exact owner (run\<lparr>qr_plan := pl\<rparr>) s1 = (Inr run', s2)" by blast
    note st = query_step_same[OF o(2)]
    have "seek_gap (qr_previous run') < seek_gap (qr_previous run)"
      using st(2,3) owner_rank_bound[of owner] by (cases "qr_previous run") (auto simp: seek_gap_def)
    moreover have "same_plan (qr_plan run) (qr_plan run')" using plan_seek_same r o(1) st(1) by simp
    ultimately have "\<exists>x. query_loop env store emit recheck exact run' s2 = Some x"
      using less.prems by (intro less.hyps) (simp_all add: same_plan_def)
    then show ?thesis using r o by (subst query_loop.simps) auto
  next
    case False
    then show ?thesis using r by (subst query_loop.simps) (auto split: sum.splits prod.splits option.splits)
  qed
qed

text \<open>C7: a query on the mutable index always comes to an end: for every parsed query, every memory budget,
  every host and every state of its pages, including pages that are corrupt or that change while they are
  read, the scan returns a count or an error; neither the interpreter of nested plans nor the cursor
  and emission loops, nor the fallback to the term cover, can run forever.\<close>

theorem scan_query_returns:
  assumes "query_parse env input limits = Inr q" "alloc_ok (env_alloc env)" "words_ok env" "ql_nodes limits < usize_max"
  shows "\<exists>r. scan_query_with_options env store q memory phrase_positions emit s = Some r"
proof -
  obtain ts e b where p: "query_sentence env input ts e" "builds b [e]" "bl_limits b = limits"
    "q_nodes q = elems (bl_nodes b)" "q_root q = elems (bl_values b) ! 0"
    by (rule query_parse_builds[OF assms(1-3)])
  then have e: "lays_out q e" "phrases_ok e" "expr_size e < usize_max"
    using builds_single[OF p(2)] assms(4) by (auto simp: lays_out_def expr_ok_def)
  have f: "\<exists>r. query_fallback env store q memory emit s = Some r"
  proof -
    obtain r where "candidate_build env q memory = Some r" by (rule candidate_build_plan[OF e(1,3,2), of env memory])
    then show ?thesis by (simp add: query_fallback_def)
  qed
  have l: "\<exists>r. query_loop env store emit a b (query_start pl') s' = Some r"
    if "plan_build env q memory = Inr pl" "plan_open store pl s = (Inr pl', s')" for pl pl' s' a b
    using plan_build_wf[OF e(1) that(1)] plan_open_same[OF that(2)]
    by (intro query_loop_returns) (simp_all add: query_start_def same_plan_def)
  have r: "\<exists>r. (case plan_build env q memory of
       Inl (Budget e) \<Rightarrow> query_fallback env store q memory emit s
     | Inl e \<Rightarrow> Some (Inl e, s)
     | Inr plan \<Rightarrow>
         if pl_root plan = EMPTY then Some (Inr 0, s)
         else if pl_root plan = UNIVERSE then Some (scan store CUniverse (\<lambda>root. emit root True) s)
         else (case plan_open store plan s of
             (Inl e, s) \<Rightarrow> Some (Inl e, s)
           | (Inr plan, s) \<Rightarrow>
               query_loop env store emit (plan_recheck q) (exact_phrase_of q phrase_positions) (query_start plan) s)) = Some r"
    using f l by (auto split: sum.split error.split prod.split)
  then show ?thesis unfolding scan_query_with_options_def by (cases "nd_kind (q_nodes q ! q_root q)") simp_all
qed

theorem scan_query_returns_witness:
  "\<exists>q r. query_parse plain_env [0x61, 0x20, 0x4F, 0x52, 0x20, 0x62] query_limits_default = Inr q \<and>
     scan_query_with_options plain_env memory_store_ops q 1000 False (\<lambda>root recheck. io_return ())
       \<lparr>mt_pages = [], mt_events = [], mt_fail_at = None, mt_packed_postings = False, mt_frontier_anchors = False\<rparr> = Some r"
proof -
  let ?i = "[0x61, 0x20, 0x4F, 0x52, 0x20, 0x62] :: str"
  have "(case query_parse plain_env ?i query_limits_default of Inl _ \<Rightarrow> False | Inr q \<Rightarrow> True)" by code_simp
  then obtain q where q: "query_parse plain_env ?i query_limits_default = Inr q" by (auto split: sum.splits)
  have "ql_nodes query_limits_default < usize_max" by (simp add: query_limits_default_def usize_max_def)
  note r = scan_query_returns[OF q plain_env_ok(1,2) this]
  show ?thesis using q r[where store = memory_store_ops and memory = 1000 and phrase_positions = False and emit = "\<lambda>root recheck. io_return ()"] by blast
qed

end
