(* ===== verification/Spec2Isabelle.thy ===== *)
theory Spec2Isabelle
  imports Dictionary PositionBlocks Offsets Candidate Recheck IndexSearch GroupEval SealedPages WorkRuns Compact Maintenance MergeOrder QueryScan
begin

text \<open>
  PIN is a full-text index for PostgreSQL written in Rust. This development models its two library
  crates, \<^verbatim>\<open>pin-core\<close> (crates/pin-core/src) and \<^verbatim>\<open>pin-kernels\<close> (crates/pin-kernels/src), definition by
  definition, and proves what their parts promise. Paths below are relative to crates/pin-core/src unless
  they name another crate.

  \<^bold>\<open>The program.\<close> A text is normalised and cut into terms (normalize.rs, analysis.rs). A query is parsed
  into a flat tree (query.rs), whose meaning on one document is defined by the oracle (oracle.rs). Three
  things answer queries: the reference index in memory (index.rs), the mutable page index (mutable/), in
  which owners (documents), a dictionary, posting chains and stored payloads live on pages that a host
  store reads and commits, and the grouped generations (grouped/, mutable/grouped/), immutable bitmap
  segments that are sealed from the mutable index, looked up through a catalog, merged and retired.
  A candidate that an index only covers is rechecked against the text (candidate.rs, recheck.rs). All
  persistent bytes go through the codecs (codec/), all buffers through the memory budget (budget.rs,
  memory.rs), and the bitmap kernels (pin-kernels) combine masks with or without AVX2.

  \<^bold>\<open>How code becomes definitions.\<close> A fallible function returns the sum \<open>error + 'a\<close>, its \<open>?\<close> is \<open>and_then\<close>; a
  host computation is \<open>('s, 'a) io\<close>, a function from the host state to a result and a new state, and its
  \<open>?\<close> is \<open>io_bind\<close>. The traits \<open>PageStore\<close> and \<open>Source\<close> are records of their methods over a state of
  their own. A \<open>&mut self\<close> method returns the changed value; when it fails, every caller abandons the
  value, so failures carry none. Integers keep their width as words, with the checked and wrapping
  operations of the source; \<open>usize\<close> is a natural number whose arithmetic is checked against \<open>usize_max\<close>.
  Strings are lists of UTF-8 bytes in byte order. A \<open>Vec\<close> is its elements and its capacity.

  \<^bold>\<open>Theories.\<close>
  \<^item> \<^verbatim>\<open>Prelude\<close>, \<^verbatim>\<open>Errors\<close> (error.rs, codec/mod.rs), \<^verbatim>\<open>Evaluation\<close>: results, words, lists, bisection, and code
    equations for evaluation by the simplifier.
  \<^item> \<^verbatim>\<open>Identity\<close> (identity.rs), \<^verbatim>\<open>Budget\<close> and \<^verbatim>\<open>Work\<close> (budget.rs, memory.rs), \<^verbatim>\<open>Bytes\<close>, \<^verbatim>\<open>Records\<close>, \<^verbatim>\<open>Dictionary\<close>,
    \<^verbatim>\<open>Positions\<close>, \<^verbatim>\<open>PositionBlocks\<close>, \<^verbatim>\<open>Offsets\<close> (codec/): every codec reads back what it writes, accepts only
    canonical bytes where the source claims it, and its views behave as the lists or sets they store.
  \<^item> \<^verbatim>\<open>Bitmasks\<close>, \<^verbatim>\<open>Kernels\<close> (pin-kernels/src): both backends compute the same words, candidate masks are
    conservative, and the set-bit iterators enumerate their mask.
  \<^item> \<^verbatim>\<open>Unicode\<close>, \<^verbatim>\<open>Normalize\<close>, \<^verbatim>\<open>Analysis\<close> (normalize.rs, analysis.rs): accounting of the streaming
    normaliser, its agreement with the ASCII path, and the tokens of a document.
  \<^item> \<^verbatim>\<open>Query\<close>, \<^verbatim>\<open>QueryTree\<close>, \<^verbatim>\<open>QueryGrammar\<close> (query.rs): the operator-precedence parser accepts sentences
    of an explicit grammar only and builds their trees; encoded queries decode to themselves.
  \<^item> \<^verbatim>\<open>Oracle\<close> (oracle.rs), \<^verbatim>\<open>Candidate\<close> (candidate.rs), \<^verbatim>\<open>Recheck\<close> (recheck.rs): the oracle computes the meaning
    \<open>holds\<close> of the expression, covers contain every match, rechecks agree with the oracle.
  \<^item> \<^verbatim>\<open>Index\<close>, \<^verbatim>\<open>IndexSpec\<close>, \<^verbatim>\<open>IndexSearch\<close> (index.rs): the stored postings are those of the documents, and
    a search yields exactly the matching documents in root order as far as its work allowance lasts.
  \<^item> \<^verbatim>\<open>GroupKeys\<close>, \<^verbatim>\<open>GroupBitmap\<close>, \<^verbatim>\<open>GroupMembers\<close>, \<^verbatim>\<open>GroupQuery\<close>, \<^verbatim>\<open>GroupEval\<close>, \<^verbatim>\<open>GroupMerge\<close>, \<^verbatim>\<open>MergeOrder\<close> (grouped/): pruned
    evaluation emits exactly the matches of a program, and a merge visits the live members once each in
    root order or reports a clash of owners.
  \<^item> \<^verbatim>\<open>PageBase\<close>, \<^verbatim>\<open>PageOwners\<close>, \<^verbatim>\<open>PageTerms\<close>, \<^verbatim>\<open>PagePostings\<close>, \<^verbatim>\<open>PageGrouped\<close>, \<^verbatim>\<open>PageValidate\<close> (mutable/page.rs,
    page_grouped.rs) are the page format; \<^verbatim>\<open>PageLaws\<close>, \<^verbatim>\<open>OwnerPages\<close>, \<^verbatim>\<open>OwnerAppend\<close>, \<^verbatim>\<open>SealedPages\<close> prove that
    owner pages refine lists of owners and that sealed posting pages hold what was pushed.
  \<^item> \<^verbatim>\<open>Store\<close> (mutable/mod.rs and the store of the test suite), \<^verbatim>\<open>Document\<close>, \<^verbatim>\<open>Publish\<close> (document.rs,
    writer.rs), \<^verbatim>\<open>Chains\<close>, \<^verbatim>\<open>WorkUnits\<close>, \<^verbatim>\<open>WorkRuns\<close> (reader.rs, count.rs, work.rs), \<^verbatim>\<open>Compact\<close> (compact.rs).
  \<^item> \<^verbatim>\<open>Hosts\<close>, \<^verbatim>\<open>Quiet\<close>, \<^verbatim>\<open>OwnerImages\<close>, \<^verbatim>\<open>Preparation\<close>, \<^verbatim>\<open>Insertion\<close>: an insertion publishes its document by
    its last commit or not at all. \<^verbatim>\<open>Vacuum\<close>, \<^verbatim>\<open>Maintenance\<close> (vacuum.rs, grouped/vacuum.rs): a vacuum removes
    only owners that its callback certified as dead. Its owner pass reads the successor of a page from the
    page as loaded; a changed slot does not alter that link.
  \<^item> \<^verbatim>\<open>GroupValues\<close>, \<^verbatim>\<open>GroupStorage\<close> (mutable/grouped/storage.rs, anchors.rs): catalog values, journal-owned
    chains, publication, recovery, the catalog builder and its cursor.
  \<^item> \<^verbatim>\<open>QueryPlan\<close>, \<^verbatim>\<open>QueryCursors\<close>, \<^verbatim>\<open>QueryScan\<close>, \<^verbatim>\<open>PhrasePrefix\<close> (mutable/query.rs, phrase_prefix.rs): plans admit
    every match and are exact when they ask for no recheck; a query on any host comes to an end.

  \<^bold>\<open>Interfaces.\<close> \<open>page_host\<close> states what a durable store promises the writer. It is
  interpreted by the store of the test suite twice: with room for one more page as the condition \<open>ready\<close>, and with
  the injected failure kept as part of it, which locates a failed insertion among the storage events;
  \<open>source_laws\<close> is the contract of \<open>Source\<close>, interpreted by
  the in-memory source; \<open>field_codec\<close>, \<open>partition_probe\<close>, \<open>fused_iterator\<close>, \<open>bounded_set\<close>, \<open>charged_sink\<close>,
  \<open>ascii_sink\<close> and \<open>flat_eval\<close> are the contracts of codecs, bisections, iterators, sets, sinks and loops over
  flat trees, interpreted by the definitions that provide them.

  \<^bold>\<open>Parameters and hypotheses.\<close> The Unicode tables, word segmentation, the allocator and type sizes are fields
  of \<open>env\<close>; theorems name what they use of them (\<open>words_ok\<close>: segments are slices, \<open>alloc_ok\<close>: a granted
  capacity is enough) and \<open>plain_env\<close> is a concrete instance. AVX2 support is an argument.

  \<^bold>\<open>Loops, bounds and fuel.\<close> Loops are structural recursions or functions with a termination proof. Three
  loops are partial functions whose value \<open>None\<close> is divergence: \<open>cover_walk\<close>, \<open>seek_tasks\<close> and
  \<open>query_loop\<close>; on parsed queries they are proved to return. The journal recovery clears at most one
  journal per call of the source's loop (\<open>JOURNAL_CLEARS\<close>), and the passes of \<open>vacuum\<close> over the catalog take
  the number of steps as an argument; the theorem on it holds for every number.

  \<^bold>\<open>Not modelled.\<close> The construction of grouped generations and the grouped scan with its frontier
  (mutable/grouped/build.rs, scan.rs, frontier.rs); ranking (rank.rs), whose scores are IEEE
  floating-point numbers; the PostgreSQL access method (crates/pin-pg), which is bindings to the server:
  unsafe calls, memory contexts, WAL and SQL entry points; \<open>Display\<close> texts of errors.
\<close>

section \<open>Search and oracle\<close>

lemma oracle_Inr_holds:
  assumes "oracle_matches env a q memory steps = Inr b" "lays_out q e"
    and n: "unat (analyzed_len a) = length (terms_of a)"
  shows "b \<longleftrightarrow> holds (terms_of a) e"
proof -
  from assms(1) obtain v :: "bool vec" and bud where
    v: "vector (env_alloc env) 1 (query_node_count q) (budget_new memory) = Inr (v, bud)"
    by (auto simp: oracle_matches_def res_simps simp del: One_nat_def split: if_splits)
  from oracle_eval[OF assms(2) n v, of steps] assms(1) show ?thesis by (auto split: if_splits)
qed

text \<open>C9: the index and the oracle agree: when a search over an index of analysed documents ends
  without an error, a document is among its candidates exactly when the document-at-a-time oracle,
  run on that document with any limits that suffice, returns true.\<close>

theorem search_agrees_with_oracle:
  assumes "index_build env relation documents il = Inr ix" "query_parse env input ql = Inr q"
    and "alloc_ok (env_alloc env)" "words_ok env"
    and "\<forall>d \<in> set documents. \<exists>text al. analyze env text al = Inr (ix_text d)"
    and "index_search env ix q limits = Inr s" "search_drain s = (cs, None)"
    and "d \<in> set documents" "oracle_matches env (ix_text d) q memory steps = Inr b"
  shows "ix_identity d \<in> cd_document ` set cs \<longleftrightarrow> b"
proof -
  obtain ts e where e: "query_sentence env input ts e" "lays_out q e" "phrases_ok e"
    by (rule parsed_expr[OF assms(2-4)])
  note ix = built_index_ok[OF assms(1,3-5)]
  have l: "limits\<lparr>sl_work_steps := sl_work_steps limits\<rparr> = limits" by simp
  have cs: "cs = answers ix e 0"
    using index_search_drains[OF ix(1) e(2,3), of env limits] assms(6,7) l
    by (metis option.distinct(1) prod.inject)
  obtain x al where "analyze env x al = Inr (ix_text d)" using assms(5,8) by blast
  note len = analyze_len[OF this assms(3,4)]
  have b: "b \<longleftrightarrow> holds (terms_of (ix_text d)) e" by (rule oracle_Inr_holds[OF assms(9) e(2) len])
  have "\<forall>d \<in> set documents. length (terms_of (ix_text d)) < 2 ^ 32"
    by (rule analyzed_documents_small[OF assms(3-5)])
  from index_build_ok(3)[OF assms(1) this] have inj: "inj_on document_root (set documents)" by (simp add: distinct_map)
  have "cd_document ` set cs = ix_identity ` {d \<in> set documents. holds (terms_of (ix_text d)) e}"
    unfolding cs using arg_cong[OF answers_documents[of ix e], of set] by (simp add: ix(2))
  moreover have "d' = d" if "d' \<in> set documents" "ix_identity d' = ix_identity d" for d'
    using inj that assms(8) by (auto simp: inj_on_def document_root_def)
  ultimately show ?thesis using b assms(8) by auto
qed

theorem search_agrees_with_oracle_witness:
  "\<exists>q s cs. query_parse plain_env [0x62, 0x2A] query_limits_default = Inr q \<and>
     index_search plain_env sample_index q search_limits_default = Inr s \<and> search_drain s = (cs, None) \<and>
     oracle_matches plain_env (ix_text (sample_document 7 sample_short)) q 100 100 = Inr True \<and>
     ix_identity (sample_document 7 sample_short) \<in> cd_document ` set cs"
proof -
  let ?d = "sample_document 7 sample_short"
  have "(case query_parse plain_env [0x62, 0x2A] query_limits_default of Inl _ \<Rightarrow> False | Inr q \<Rightarrow>
      (case index_search plain_env sample_index q search_limits_default of Inl _ \<Rightarrow> False
       | Inr s \<Rightarrow> snd (search_drain s) = None \<and> oracle_matches plain_env (ix_text ?d) q 100 100 = Inr True))"
    by code_simp
  then obtain q s where q: "query_parse plain_env [0x62, 0x2A] query_limits_default = Inr q"
    "index_search plain_env sample_index q search_limits_default = Inr s" "snd (search_drain s) = None"
    "oracle_matches plain_env (ix_text ?d) q 100 100 = Inr True" by (auto split: sum.splits)
  have "search_drain s = (fst (search_drain s), None)" using q(3) by (metis prod.collapse)
  from search_agrees_with_oracle[OF sample_ok(1) q(1) sample_ok(2-4) q(2) this _ q(4)] q this
  show ?thesis by (auto simp: sample_documents_def)
qed

end
